(* ===== verification/Prelude.thy ===== *)
theory Prelude
  imports Main "HOL-Library.Word" "HOL-Library.Multiset"
begin

text \<open>
  Shared vocabulary of the development: machine words, the two return codes of the code base,
  abnormal outcomes as values, arrays as lists of cells (with the C operations on them) and
  NUL terminated strings as lists of characters.
\<close>

section \<open>Machine integers and return codes\<close>

type_synonym u8 = "8 word"
type_synonym u16 = "16 word"
type_synonym u32 = "32 word"
type_synonym u64 = "64 word"

lemma unat_less_pow: "unat (x :: 'a::len word) < 2 ^ LENGTH('a)"
  by (rule unsigned_less)

lemma unat_u8_less [simp]: "unat (x :: u8) < 256"
  and unat_u32_less [simp]: "unat (y :: u32) < 4294967296"
  and unat_u64_less [simp]: "unat (z :: u64) < 18446744073709551616"
  using unat_less_pow [of x] unat_less_pow [of y] unat_less_pow [of z] by simp_all

text \<open>\<open>SUCCEED\<close> and \<open>FAIL\<close> of \<open>include/common.h\<close> where they are used as a verdict.\<close>

datatype ret = SUCCEED | FAIL

text \<open>
  Abnormal ends of a call: the process calls \<open>exit(EXIT_FAILURE)\<close>, or the code would read or
  write outside of the object it was given.
\<close>

datatype fault = ExitFailure | OutOfBounds

type_synonym 'a outcome = "fault + 'a"

named_theorems cells_simps \<open>equations for the C operations on arrays of cells\<close>

section \<open>Lists\<close>

lemma take_list_update_ge [simp]: "n \<le> i \<Longrightarrow> take n (xs[i := x]) = take n xs"
  by (metis take_update_cancel)

lemma take_Suc_list_update: "i < length xs \<Longrightarrow> take (Suc i) (xs[i := x]) = take i xs @ [x]"
  by (simp add: take_Suc_conv_app_nth)

lemma nth_eq_drop_Cons: "i < length xs \<Longrightarrow> drop i xs = xs ! i # drop (Suc i) xs"
  by (simp add: Cons_nth_drop_Suc)

lemma mset_list_update:
  "i < length xs \<Longrightarrow> mset (xs[i := x]) = add_mset x (mset xs) - {#xs ! i#}"
  by (simp add: mset_update)

lemma mset_swap_cells:
  "i < length xs \<Longrightarrow> j < length xs \<Longrightarrow> mset (xs[i := xs ! j, j := xs ! i]) = mset xs"
  by (rule mset_swap)

lemma split_at_nth: "i < length xs \<Longrightarrow> xs = take i xs @ xs ! i # drop (Suc i) xs"
  by (rule id_take_nth_drop)

lemma mset_split_at: "i < length xs \<Longrightarrow> mset xs = add_mset (xs ! i) (mset (take i xs) + mset (drop (Suc i) xs))"
  by (metis mset_append mset.simps(2) split_at_nth union_mset_add_mset_right)

text \<open>Overwriting an element with the last one and dropping the last one removes it.\<close>

lemma mset_overwrite_last:
  assumes "i < length xs"
  shows "mset xs = add_mset (xs ! i) (mset (butlast (xs[i := last xs])))"
proof -
  obtain ys y where xs: "xs = ys @ [y]" using assms by (cases xs rule: rev_cases) auto
  show ?thesis
  proof (cases "i = length ys")
    case True
    then show ?thesis by (simp add: xs)
  next
    case False
    then have "i < length ys" using assms xs by simp
    then show ?thesis
      using mset_split_at [of i ys] by (simp add: xs nth_append list_update_append mset_list_update)
  qed
qed

section \<open>Arrays of cells\<close>

text \<open>
  An array is the list of its cells. Memory that has been allocated and not yet written holds
  an arbitrary value: the operations that allocate take it as the argument \<open>junk\<close>, and every
  theorem holds for all of its values.
\<close>

definition realloc_cells :: "'a \<Rightarrow> nat \<Rightarrow> 'a list \<Rightarrow> 'a list" where
  "realloc_cells junk n xs = take n xs @ replicate (n - length xs) junk"

text \<open>\<open>memmove (xs + dst, xs + src, n)\<close> inside one array, and \<open>memcpy (xs + dst, ys, length ys)\<close>.\<close>

definition memmove_cells :: "nat \<Rightarrow> nat \<Rightarrow> nat \<Rightarrow> 'a list \<Rightarrow> 'a list" where
  "memmove_cells dst src n xs = take dst xs @ take n (drop src xs) @ drop (dst + n) xs"

definition memcpy_cells :: "nat \<Rightarrow> 'a list \<Rightarrow> 'a list \<Rightarrow> 'a list" where
  "memcpy_cells dst ys xs = take dst xs @ ys @ drop (dst + length ys) xs"

lemma length_realloc_cells [simp]: "length (realloc_cells junk n xs) = n"
  by (simp add: realloc_cells_def)

lemma take_realloc_cells [cells_simps]:
  "m \<le> n \<Longrightarrow> m \<le> length xs \<Longrightarrow> take m (realloc_cells junk n xs) = take m xs"
  by (simp add: realloc_cells_def)

lemma nth_realloc_cells [cells_simps]:
  "i < n \<Longrightarrow> i < length xs \<Longrightarrow> realloc_cells junk n xs ! i = xs ! i"
  by (simp add: realloc_cells_def nth_append)

lemma length_memmove_cells [simp]:
  "dst + n \<le> length xs \<Longrightarrow> src + n \<le> length xs \<Longrightarrow> length (memmove_cells dst src n xs) = length xs"
  by (simp add: memmove_cells_def)

lemma length_memcpy_cells [simp]:
  "dst + length ys \<le> length xs \<Longrightarrow> length (memcpy_cells dst ys xs) = length xs"
  by (simp add: memcpy_cells_def)

lemma nth_memmove_cells [cells_simps]:
  assumes "dst + n \<le> length xs" "src + n \<le> length xs" "i < length xs"
  shows "memmove_cells dst src n xs ! i =
    (if dst \<le> i \<and> i < dst + n then xs ! (src + (i - dst)) else xs ! i)"
proof -
  have "min (length xs - src) n = n" "min (length xs) dst = dst"
    using assms by simp_all
  then show ?thesis
    using assms by (auto simp: memmove_cells_def nth_append)
qed

lemma drop_memmove_end [cells_simps]:
  "dst + n = length xs \<Longrightarrow> drop dst (memmove_cells dst src n xs) = take n (drop src xs)"
  by (simp add: memmove_cells_def)

lemma take_memmove_before [cells_simps]:
  "k \<le> dst \<Longrightarrow> dst \<le> length xs \<Longrightarrow> take k (memmove_cells dst src n xs) = take k xs"
  by (simp add: memmove_cells_def)

lemma take_memmove_start:
  "src + n \<le> length xs \<Longrightarrow> take n (memmove_cells 0 src n xs) = take n (drop src xs)"
  by (simp add: memmove_cells_def)

lemma take_drop_memmove:
  "dst + n \<le> length xs \<Longrightarrow> src + n \<le> length xs \<Longrightarrow>
    take n (drop dst (memmove_cells dst src n xs)) = take n (drop src xs)"
  by (simp add: memmove_cells_def)

lemma drop_realloc_cells_grow:
  "length xs \<le> n \<Longrightarrow> take (length xs - k) (drop k (realloc_cells junk n xs)) = drop k xs"
  by (simp add: realloc_cells_def)

lemma take_memcpy_cells [cells_simps]:
  "dst + length ys \<le> length xs \<Longrightarrow> take (dst + length ys) (memcpy_cells dst ys xs) = take dst xs @ ys"
  by (simp add: memcpy_cells_def)

section \<open>C strings\<close>

text \<open>
  A NUL terminated string is the list of the characters before its terminator; reading at the
  end of it gives the terminator, reading further is outside of the string.
\<close>

abbreviation NUL :: char where
  "NUL \<equiv> CHR 0x00"

definition cchar :: "string \<Rightarrow> nat \<Rightarrow> char" where
  "cchar s i = (if i < length s then s ! i else NUL)"

definition cstring :: "string \<Rightarrow> bool" where
  "cstring s \<longleftrightarrow> NUL \<notin> set s"

lemma cchar_Nil [simp]: "cchar [] i = NUL"
  by (simp add: cchar_def)

lemma cchar_Cons_0 [simp]: "cchar (c # s) 0 = c"
  by (simp add: cchar_def)

lemma cchar_Cons_Suc [simp]: "cchar (c # s) (Suc i) = cchar s i"
  by (simp add: cchar_def)

lemma cstring_Cons [simp]: "cstring (c # s) \<longleftrightarrow> c \<noteq> NUL \<and> cstring s"
  by (auto simp: cstring_def)

lemma cstring_Nil [simp]: "cstring []"
  by (simp add: cstring_def)

lemma cstring_append [simp]: "cstring (s @ t) \<longleftrightarrow> cstring s \<and> cstring t"
  by (auto simp: cstring_def)

lemma cstring_drop [intro]: "cstring s \<Longrightarrow> cstring (drop n s)"
  by (auto simp: cstring_def dest: in_set_dropD)

lemma cstring_take [intro]: "cstring s \<Longrightarrow> cstring (take n s)"
  by (auto simp: cstring_def dest: in_set_takeD)

text \<open>Character classes of \<open>ctype.h\<close> in the C locale, and the value of a character.\<close>

definition isdigit :: "char \<Rightarrow> bool" where
  "isdigit c \<longleftrightarrow> 48 \<le> (of_char c :: nat) \<and> (of_char c :: nat) \<le> 57"

definition isxdigit :: "char \<Rightarrow> bool" where
  "isxdigit c \<longleftrightarrow> isdigit c \<or> (97 \<le> (of_char c :: nat) \<and> (of_char c :: nat) \<le> 102)
     \<or> (65 \<le> (of_char c :: nat) \<and> (of_char c :: nat) \<le> 70)"

lemma not_isdigit_NUL [simp]: "\<not> isdigit NUL"
  by (simp add: isdigit_def)

lemma not_isxdigit_NUL [simp]: "\<not> isxdigit NUL"
  by (simp add: isxdigit_def isdigit_def)

text \<open>\<open>strchr\<close>: the position of the first occurrence of a character.\<close>

fun strchr :: "string \<Rightarrow> char \<Rightarrow> nat option" where
  "strchr [] c = None"
| "strchr (d # s) c = (if d = c then Some 0 else map_option Suc (strchr s c))"

lemma strchr_Some_iff:
  "strchr s c = Some i \<longleftrightarrow> i < length s \<and> s ! i = c \<and> (\<forall>j<i. s ! j \<noteq> c)"
proof (induction s arbitrary: i)
  case Nil
  then show ?case by simp
next
  case (Cons d s)
  then show ?case
    by (cases i) (auto simp: less_Suc_eq_0_disj)
qed

lemma strchr_None_iff [simp]: "strchr s c = None \<longleftrightarrow> c \<notin> set s"
  by (induction s) auto

lemma strchr_length: "strchr s c = Some i \<Longrightarrow> i < length s"
  by (simp add: strchr_Some_iff)

end
