(* ===== verification/AlgoDefs.thy ===== *)
theory AlgoDefs
  imports Prelude
begin

unbundle bit_operations_syntax

text \<open>
  The helper functions of the algorithm library (\<open>src/libs/zbxalgo/algodefs.c\<close>): the hash
  functions, the default comparison callbacks, primes and the integer square root. A byte
  buffer is the list of its bytes; \<open>zbx_hash_t\<close> is a 32 bit word, so every addition,
  multiplication and shift below wraps as the C code's does.
\<close>

section \<open>The comparison callback\<close>

text \<open>
  The containers take a \<open>zbx_compare_func_t\<close>: a negative, zero or positive number as the first
  argument is below, equal to or above the second. The laws of the callback are those of a
  total preorder.
\<close>

locale compare_func =
  fixes cmp :: "'a \<Rightarrow> 'a \<Rightarrow> int"
  assumes cmp_refl: "cmp x x = 0"
    and cmp_flip: "0 < cmp x y \<longleftrightarrow> cmp y x < 0"
    and cmp_trans: "cmp x y \<le> 0 \<Longrightarrow> cmp y z \<le> 0 \<Longrightarrow> cmp x z \<le> 0"
begin

lemma cmp_total: "cmp x y \<le> 0 \<or> cmp y x \<le> 0"
  using cmp_flip [of x y] by linarith

lemma cmp_eq_sym: "cmp x y = 0 \<longleftrightarrow> cmp y x = 0"
  using cmp_flip [of x y] cmp_flip [of y x] by linarith

lemma cmp_less_le_trans: "cmp x y < 0 \<Longrightarrow> cmp y z \<le> 0 \<Longrightarrow> cmp x z < 0"
  using cmp_flip [of z x] cmp_flip [of y x] cmp_trans [of y z x] cmp_eq_sym [of x z] cmp_flip [of x z]
  by (smt (verit))

lemma cmp_le_less_trans: "cmp x y \<le> 0 \<Longrightarrow> cmp y z < 0 \<Longrightarrow> cmp x z < 0"
  using cmp_flip [of z x] cmp_flip [of z y] cmp_trans [of z x y] cmp_eq_sym [of x z] cmp_flip [of x z]
  by (smt (verit))

lemma cmp_less_trans: "cmp x y < 0 \<Longrightarrow> cmp y z < 0 \<Longrightarrow> cmp x z < 0"
  by (rule cmp_less_le_trans) auto

lemma cmp_eq_trans: "cmp x y = 0 \<Longrightarrow> cmp y z = 0 \<Longrightarrow> cmp x z = 0"
  by (metis cmp_eq_sym cmp_flip cmp_trans linorder_not_less order_antisym order_refl)

lemma cmp_cong_left: "cmp x y = 0 \<Longrightarrow> cmp x z \<le> 0 \<longleftrightarrow> cmp y z \<le> 0"
  by (metis cmp_eq_sym cmp_trans order_refl)

lemma cmp_eq_cong_left: "cmp x y = 0 \<Longrightarrow> cmp x z = 0 \<longleftrightarrow> cmp y z = 0"
  using cmp_eq_trans [of x y z] cmp_eq_trans [of y x z] cmp_eq_sym [of x y] by blast

end

text \<open>Comparison callbacks that identify only equal values, as those on plain keys do.\<close>

locale key_compare_func = compare_func +
  assumes cmp_eq: "cmp x y = 0 \<Longrightarrow> x = y"
begin

lemma cmp_eq_iff: "cmp x y = 0 \<longleftrightarrow> x = y"
  using cmp_eq cmp_refl by auto

end

section \<open>Default comparison functions\<close>

definition ZBX_RETURN_IF_NOT_EQUAL :: "'a::linorder \<Rightarrow> 'a \<Rightarrow> int \<Rightarrow> int" where
  "ZBX_RETURN_IF_NOT_EQUAL a b k = (if a < b then -1 else if a > b then 1 else k)"

definition zbx_default_int_compare_func :: "int \<Rightarrow> int \<Rightarrow> int" where
  "zbx_default_int_compare_func i1 i2 = ZBX_RETURN_IF_NOT_EQUAL i1 i2 0"

definition zbx_default_uint64_compare_func :: "u64 \<Rightarrow> u64 \<Rightarrow> int" where
  "zbx_default_uint64_compare_func i1 i2 = ZBX_RETURN_IF_NOT_EQUAL i1 i2 0"

text \<open>The callback on pointers to \<open>uint64\<close> keys: \<open>mem\<close> gives the number a pointer points to.\<close>

definition zbx_default_uint64_ptr_compare_func :: "('p \<Rightarrow> u64) \<Rightarrow> 'p \<Rightarrow> 'p \<Rightarrow> int" where
  "zbx_default_uint64_ptr_compare_func mem d1 d2 = zbx_default_uint64_compare_func (mem d1) (mem d2)"

text \<open>\<open>strcmp\<close> compares as unsigned characters, up to the terminating NUL.\<close>

fun strcmp :: "string \<Rightarrow> string \<Rightarrow> int" where
  "strcmp [] [] = 0"
| "strcmp [] (d # t) = - of_char d"
| "strcmp (c # s) [] = of_char c"
| "strcmp (c # s) (d # t) = (if c \<noteq> d then of_char c - of_char d else if c = NUL then 0 else strcmp s t)"

definition zbx_default_str_compare_func :: "('p \<Rightarrow> string) \<Rightarrow> 'p \<Rightarrow> 'p \<Rightarrow> int" where
  "zbx_default_str_compare_func mem d1 d2 = strcmp (mem d1) (mem d2)"

definition zbx_default_ptr_compare_func :: "u64 \<Rightarrow> u64 \<Rightarrow> int" where
  "zbx_default_ptr_compare_func p1 p2 = ZBX_RETURN_IF_NOT_EQUAL p1 p2 0"

record zbx_uint64_pair =
  first :: u64
  second :: u64

definition zbx_default_uint64_pair_compare_func :: "zbx_uint64_pair \<Rightarrow> zbx_uint64_pair \<Rightarrow> int" where
  "zbx_default_uint64_pair_compare_func p1 p2 =
     ZBX_RETURN_IF_NOT_EQUAL (first p1) (first p2)
       (ZBX_RETURN_IF_NOT_EQUAL (second p1) (second p2) 0)"

lemma of_char_eq_iff_int: "(of_char c :: int) = of_char d \<longleftrightarrow> c = d"
  by simp

lemma of_char_nonneg_int: "0 \<le> (of_char c :: int)"
  by (metis of_nat_0_le_iff of_nat_of_char)

lemma of_char_pos_iff_int: "0 < (of_char c :: int) \<longleftrightarrow> c \<noteq> NUL"
proof -
  have "(of_char NUL :: int) = 0" by simp
  then show ?thesis using of_char_eq_iff_int [of c NUL] of_char_nonneg_int [of c] by linarith
qed

lemma of_char_eq_0_iff_int: "(of_char c :: int) = 0 \<longleftrightarrow> c = NUL"
  using of_char_pos_iff_int [of c] of_char_nonneg_int [of c] by linarith

lemma strcmp_refl: "strcmp s s = 0"
  by (induction s) auto

lemma strcmp_minus: "strcmp t s = - strcmp s t"
  by (induction s t rule: strcmp.induct) auto

lemma strcmp_eq: "cstring s \<Longrightarrow> cstring t \<Longrightarrow> strcmp s t = 0 \<Longrightarrow> s = t"
  by (induction s t rule: strcmp.induct) (auto split: if_splits simp: of_char_eq_0_iff_int)

lemma strcmp_Nil_le: "strcmp [] u \<le> 0"
  by (cases u) (auto simp: of_char_nonneg_int)

lemma strcmp_NUL_le: "strcmp (NUL # s) u \<le> 0"
  by (cases u) (auto simp: of_char_nonneg_int)

lemma strcmp_Cons_le_iff:
  "strcmp (c # s) (d # t) \<le> 0 \<longleftrightarrow>
    (of_char c :: int) < of_char d \<or> c = d \<and> (c = NUL \<or> strcmp s t \<le> 0)"
proof (cases "c = d")
  case False
  then have "(of_char c :: int) \<noteq> of_char d" by simp
  then have "(of_char c :: int) - of_char d \<le> 0 \<longleftrightarrow> (of_char c :: int) < of_char d"
    by linarith
  with False show ?thesis by simp
qed simp

lemma strcmp_Cons_Nil_le_iff: "strcmp (c # s) [] \<le> 0 \<longleftrightarrow> c = NUL"
  using of_char_pos_iff_int [of c] by auto

lemma strcmp_trans: "strcmp s t \<le> 0 \<Longrightarrow> strcmp t u \<le> 0 \<Longrightarrow> strcmp s u \<le> 0"
proof (induction s arbitrary: t u)
  case Nil
  show ?case by (rule strcmp_Nil_le)
next
  case (Cons c s)
  show ?case
  proof (cases "c = NUL")
    case True
    then show ?thesis using strcmp_NUL_le by blast
  next
    case c: False
    then obtain d t' where t: "t = d # t'"
      using Cons.prems(1) strcmp_Cons_Nil_le_iff [of c s] by (cases t) blast+
    have cd: "(of_char c :: int) < of_char d \<or> c = d \<and> strcmp s t' \<le> 0"
      using Cons.prems(1) c unfolding t strcmp_Cons_le_iff by blast
    then have d: "d \<noteq> NUL"
      using c of_char_pos_iff_int [of d] of_char_nonneg_int [of c] by auto
    then obtain e u' where u: "u = e # u'"
      using Cons.prems(2) strcmp_Cons_Nil_le_iff [of d t'] unfolding t by (cases u) blast+
    have "(of_char d :: int) < of_char e \<or> d = e \<and> strcmp t' u' \<le> 0"
      using Cons.prems(2) d unfolding t u strcmp_Cons_le_iff by blast
    with cd have "(of_char c :: int) < of_char e \<or> c = e \<and> strcmp s u' \<le> 0"
      using Cons.IH [of t' u'] by auto
    then show ?thesis
      unfolding u strcmp_Cons_le_iff by blast
  qed
qed

interpretation int_compare: key_compare_func zbx_default_int_compare_func
  by unfold_locales
    (auto simp: zbx_default_int_compare_func_def ZBX_RETURN_IF_NOT_EQUAL_def split: if_splits)

interpretation uint64_compare: key_compare_func zbx_default_uint64_compare_func
  by unfold_locales
    (auto simp: zbx_default_uint64_compare_func_def ZBX_RETURN_IF_NOT_EQUAL_def split: if_splits)

interpretation ptr_compare: key_compare_func zbx_default_ptr_compare_func
  by unfold_locales
    (auto simp: zbx_default_ptr_compare_func_def ZBX_RETURN_IF_NOT_EQUAL_def split: if_splits)

interpretation uint64_pair_compare: key_compare_func zbx_default_uint64_pair_compare_func
  by unfold_locales
    (auto simp: zbx_default_uint64_pair_compare_func_def ZBX_RETURN_IF_NOT_EQUAL_def split: if_splits)

interpretation uint64_ptr_compare: compare_func "zbx_default_uint64_ptr_compare_func mem" for mem
  by unfold_locales
    (auto simp: zbx_default_uint64_ptr_compare_func_def uint64_compare.cmp_refl
      uint64_compare.cmp_flip intro: uint64_compare.cmp_trans)

interpretation str_compare: compare_func "zbx_default_str_compare_func mem" for mem
proof
  fix x y z
  show "zbx_default_str_compare_func mem x x = 0"
    by (simp add: zbx_default_str_compare_func_def strcmp_refl)
  show "0 < zbx_default_str_compare_func mem x y \<longleftrightarrow> zbx_default_str_compare_func mem y x < 0"
    using strcmp_minus [of "mem x" "mem y"] by (simp add: zbx_default_str_compare_func_def)
  show "zbx_default_str_compare_func mem x y \<le> 0 \<Longrightarrow> zbx_default_str_compare_func mem y z \<le> 0 \<Longrightarrow>
    zbx_default_str_compare_func mem x z \<le> 0"
    by (auto simp: zbx_default_str_compare_func_def intro: strcmp_trans)
qed

end
