(* ===== verification/HashFuncs.thy ===== *)
theory HashFuncs
  imports AlgoDefs
begin

unbundle bit_operations_syntax

text \<open>
  The hash functions of \<open>src/libs/zbxalgo/algodefs.c\<close> over byte buffers, and the default hash
  callbacks of the containers. The lemmas show that the mixing rounds lose no information and
  that the shift-and-add forms compute the multiplications their comments state.
\<close>

type_synonym zbx_hash_t = u32

definition byte32 :: "u8 list \<Rightarrow> nat \<Rightarrow> zbx_hash_t" where
  "byte32 p i = ucast (p ! i)"

section \<open>Bob Jenkins' hash\<close>

type_synonym mix_state = "zbx_hash_t \<times> zbx_hash_t \<times> zbx_hash_t"

text \<open>The three kinds of lines of the \<open>mix\<close> macro, and the macro: nine of them.\<close>

fun mix_a :: "nat \<Rightarrow> mix_state \<Rightarrow> mix_state" where
  "mix_a k (a, b, c) = (let a = a - b; a = a - c; a = a XOR drop_bit k c in (a, b, c))"

fun mix_b :: "nat \<Rightarrow> mix_state \<Rightarrow> mix_state" where
  "mix_b k (a, b, c) = (let b = b - c; b = b - a; b = b XOR push_bit k a in (a, b, c))"

fun mix_c :: "nat \<Rightarrow> mix_state \<Rightarrow> mix_state" where
  "mix_c k (a, b, c) = (let c = c - a; c = c - b; c = c XOR drop_bit k b in (a, b, c))"

definition mix :: "mix_state \<Rightarrow> mix_state" where
  "mix s = mix_c 15 (mix_b 10 (mix_a 3 (mix_c 5 (mix_b 16 (mix_a 12 (mix_c 13 (mix_b 8 (mix_a 13 s))))))))"

text \<open>The loop over whole blocks of 12 bytes; the result is the state and the bytes left.\<close>

fun lookup2_blocks :: "u8 list \<Rightarrow> mix_state \<Rightarrow> mix_state \<times> u8 list" where
  "lookup2_blocks p (a, b, c) =
    (if 12 \<le> length p then
       let a = a + (byte32 p 0 + push_bit 8 (byte32 p 1) + push_bit 16 (byte32 p 2) + push_bit 24 (byte32 p 3));
           b = b + (byte32 p 4 + push_bit 8 (byte32 p 5) + push_bit 16 (byte32 p 6) + push_bit 24 (byte32 p 7));
           c = c + (byte32 p 8 + push_bit 8 (byte32 p 9) + push_bit 16 (byte32 p 10) + push_bit 24 (byte32 p 11))
       in lookup2_blocks (drop 12 p) (mix (a, b, c))
     else ((a, b, c), p))"

declare lookup2_blocks.simps [simp del]

definition zbx_hash_lookup2 :: "u8 list \<Rightarrow> zbx_hash_t \<Rightarrow> zbx_hash_t" where
  "zbx_hash_lookup2 data seed =
    (case lookup2_blocks data (0x9e3779b9, 0x9e3779b9, seed) of ((a, b, c), p) \<Rightarrow>
      let len = length p;
          c = c + of_nat len;
          c = (if 11 \<le> len then c + push_bit 24 (byte32 p 10) else c);
          c = (if 10 \<le> len then c + push_bit 16 (byte32 p 9) else c);
          c = (if 9 \<le> len then c + push_bit 8 (byte32 p 8) else c);
          b = (if 8 \<le> len then b + push_bit 24 (byte32 p 7) else b);
          b = (if 7 \<le> len then b + push_bit 16 (byte32 p 6) else b);
          b = (if 6 \<le> len then b + push_bit 8 (byte32 p 5) else b);
          b = (if 5 \<le> len then b + byte32 p 4 else b);
          a = (if 4 \<le> len then a + push_bit 24 (byte32 p 3) else a);
          a = (if 3 \<le> len then a + push_bit 16 (byte32 p 2) else a);
          a = (if 2 \<le> len then a + push_bit 8 (byte32 p 1) else a);
          a = (if 1 \<le> len then a + byte32 p 0 else a)
      in snd (snd (mix (a, b, c))))"

text \<open>The inverse of the mixing round: the nine steps undone in reverse order.\<close>

fun unmix_a :: "nat \<Rightarrow> mix_state \<Rightarrow> mix_state" where
  "unmix_a k (a, b, c) = ((a XOR drop_bit k c) + c + b, b, c)"

fun unmix_b :: "nat \<Rightarrow> mix_state \<Rightarrow> mix_state" where
  "unmix_b k (a, b, c) = (a, (b XOR push_bit k a) + a + c, c)"

fun unmix_c :: "nat \<Rightarrow> mix_state \<Rightarrow> mix_state" where
  "unmix_c k (a, b, c) = (a, b, (c XOR drop_bit k b) + b + a)"

definition unmix :: "mix_state \<Rightarrow> mix_state" where
  "unmix s = unmix_a 13 (unmix_b 8 (unmix_c 13 (unmix_a 12 (unmix_b 16 (unmix_c 5 (unmix_a 3
     (unmix_b 10 (unmix_c 15 s))))))))"

lemma word_xor_cancel [simp]: "(x XOR y) XOR (y :: 'a::len word) = x"
  by (simp add: xor.assoc)

lemma unmix_steps [simp]:
  "unmix_a k (mix_a k s) = s" "unmix_b k (mix_b k s) = s" "unmix_c k (mix_c k s) = s"
  by (cases s, simp add: Let_def)+

lemma unmix_mix: "unmix (mix s) = s"
  by (simp add: unmix_def mix_def)

section \<open>Modified FNV\<close>

definition modfnv_finish :: "zbx_hash_t \<Rightarrow> zbx_hash_t" where
  "modfnv_finish hash =
    (let hash = hash + push_bit 13 hash;
         hash = hash XOR drop_bit 7 hash;
         hash = hash + push_bit 3 hash;
         hash = hash XOR drop_bit 17 hash;
         hash = hash + push_bit 5 hash
     in hash)"

definition modfnv_step :: "zbx_hash_t \<Rightarrow> u8 \<Rightarrow> zbx_hash_t" where
  "modfnv_step hash c = (hash XOR ucast c) * 16777619"

definition zbx_hash_modfnv :: "u8 list \<Rightarrow> zbx_hash_t \<Rightarrow> zbx_hash_t" where
  "zbx_hash_modfnv data seed = modfnv_finish (foldl modfnv_step (2166136261 XOR seed) data)"

section \<open>Murmur\<close>

definition murmur_block :: "u8 list \<Rightarrow> zbx_hash_t" where
  "murmur_block p =
    ((byte32 p 0 OR push_bit 8 (byte32 p 1)) OR push_bit 16 (byte32 p 2)) OR push_bit 24 (byte32 p 3)"

definition murmur_m :: zbx_hash_t where
  "murmur_m = 0x5bd1e995"

definition murmur_mix_block :: "zbx_hash_t \<Rightarrow> zbx_hash_t" where
  "murmur_mix_block k =
    (let k = k * murmur_m; k = k XOR drop_bit 24 k; k = k * murmur_m in k)"

fun murmur2_blocks :: "u8 list \<Rightarrow> zbx_hash_t \<Rightarrow> zbx_hash_t \<times> u8 list" where
  "murmur2_blocks p hash =
    (if 4 \<le> length p then
       let k = murmur_mix_block (murmur_block p);
           hash = hash * murmur_m;
           hash = hash XOR k
       in murmur2_blocks (drop 4 p) hash
     else (hash, p))"

declare murmur2_blocks.simps [simp del]

definition murmur2_finish :: "zbx_hash_t \<Rightarrow> zbx_hash_t" where
  "murmur2_finish hash =
    (let hash = hash XOR drop_bit 13 hash;
         hash = hash * murmur_m;
         hash = hash XOR drop_bit 15 hash
     in hash)"

definition zbx_hash_murmur2 :: "u8 list \<Rightarrow> zbx_hash_t \<Rightarrow> zbx_hash_t" where
  "zbx_hash_murmur2 data seed =
    (case murmur2_blocks data (seed XOR of_nat (length data)) of (hash, p) \<Rightarrow>
      let len = length p;
          hash = (if 3 \<le> len then hash XOR push_bit 16 (byte32 p 2) else hash);
          hash = (if 2 \<le> len then hash XOR push_bit 8 (byte32 p 1) else hash);
          hash = (if 1 \<le> len then (hash XOR byte32 p 0) * murmur_m else hash)
      in murmur2_finish hash)"

section \<open>sdbm, djb2 and splitmix64\<close>

definition zbx_hash_sdbm :: "u8 list \<Rightarrow> zbx_hash_t \<Rightarrow> zbx_hash_t" where
  "zbx_hash_sdbm data seed =
    foldl (\<lambda>hash c. ucast c + push_bit 6 hash + push_bit 16 hash - hash) seed data"

definition zbx_hash_djb2 :: "u8 list \<Rightarrow> zbx_hash_t \<Rightarrow> zbx_hash_t" where
  "zbx_hash_djb2 data seed =
    foldl (\<lambda>hash c. (push_bit 5 hash + hash) + ucast c) (5381 XOR seed) data"

definition splittable64_mix :: "u64 \<Rightarrow> u64" where
  "splittable64_mix value =
    (let value = value XOR drop_bit 30 value;
         value = value * 0xbf58476d1ce4e5b9;
         value = value XOR drop_bit 27 value;
         value = value * 0x94d049bb133111eb;
         value = value XOR drop_bit 31 value
     in value)"

text \<open>
  The C code xors the low half, converted to 32 bits and back, with the high half; the return
  type keeps the low 32 bits.
\<close>

definition zbx_hash_splittable64 :: "u64 \<Rightarrow> zbx_hash_t" where
  "zbx_hash_splittable64 data =
    (let value = splittable64_mix data
     in ucast ((ucast (ucast value :: zbx_hash_t) :: u64) XOR drop_bit 32 value))"

lemma xorshift_inj:
  fixes x y :: "'a::len word"
  assumes "0 < k" and eq: "x XOR drop_bit k x = y XOR drop_bit k y"
  shows "x = y"
proof -
  let ?z = "x XOR y"
  have "?z = drop_bit k ?z"
  proof -
    have "(x XOR drop_bit k x) XOR (y XOR drop_bit k y) = 0"
      unfolding eq by simp
    then have "?z XOR drop_bit k ?z = 0"
      by (simp add: drop_bit_xor xor.assoc xor.left_commute)
    then show ?thesis
      by (metis word_xor_cancel xor.left_neutral)
  qed
  then have "unat ?z = unat ?z div 2 ^ k"
    by (metis unat_drop_bit_eq drop_bit_eq_div)
  moreover have "(2::nat) ^ k \<ge> 2"
    using \<open>0 < k\<close> by (cases k) auto
  ultimately have "unat ?z = 0"
    by (metis One_nat_def Suc_le_eq div_less_dividend gr0I less_irrefl numeral_2_eq_2 one_less_numeral_iff)
  then have "?z = 0" by (simp add: unat_eq_0)
  then show ?thesis
    by (metis word_xor_cancel xor.left_neutral)
qed

lemma mult_unit_inj:
  fixes x y u v :: "'a::len word"
  assumes "u * v = 1" "x * u = y * u"
  shows "x = y"
  by (metis assms mult.assoc mult.right_neutral)

lemma splittable64_mix_inj: "splittable64_mix x = splittable64_mix y \<Longrightarrow> x = y"
proof -
  assume eq: "splittable64_mix x = splittable64_mix y"
  define m1 m2 :: u64 where "m1 = 0xbf58476d1ce4e5b9" and "m2 = 0x94d049bb133111eb"
  define f where "f k v = v XOR drop_bit k v" for k and v :: u64
  have f: "0 < k \<Longrightarrow> f k v = f k w \<Longrightarrow> v = w" for k v w
    unfolding f_def by (rule xorshift_inj)
  have m: "m1 * 0x96de1b173f119089 = 1" "m2 * 0x319642b2d24d8ec3 = 1"
    by (simp_all add: m1_def m2_def)
  have "splittable64_mix v = f 31 (f 27 (f 30 v * m1) * m2)" for v
    unfolding splittable64_mix_def f_def Let_def m1_def m2_def by (rule refl)
  then have "f 31 (f 27 (f 30 x * m1) * m2) = f 31 (f 27 (f 30 y * m1) * m2)"
    using eq by metis
  then have "f 27 (f 30 x * m1) * m2 = f 27 (f 30 y * m1) * m2"
    by (rule f [rotated]) simp
  then have "f 27 (f 30 x * m1) = f 27 (f 30 y * m1)"
    by (rule mult_unit_inj [OF m(2)])
  then have "f 30 x * m1 = f 30 y * m1"
    by (rule f [rotated]) simp
  then have "f 30 x = f 30 y"
    by (rule mult_unit_inj [OF m(1)])
  then show "x = y"
    by (rule f [rotated]) simp
qed

text \<open>The shift forms of the two loops against the multiplications their comments give.\<close>

lemma push_bit_word_mult: "push_bit n (x :: 'a::len word) = x * 2 ^ n"
  by (simp add: push_bit_eq_mult)

lemma sdbm_mult: "zbx_hash_sdbm data seed = foldl (\<lambda>hash c. ucast c + hash * 65599) seed data"
  by (simp add: zbx_hash_sdbm_def push_bit_word_mult algebra_simps)

lemma djb2_mult: "zbx_hash_djb2 data seed = foldl (\<lambda>hash c. hash * 33 + ucast c) (5381 XOR seed) data"
  by (simp add: zbx_hash_djb2_def push_bit_word_mult algebra_simps)

section \<open>Default hash callbacks\<close>

text \<open>The eight bytes of a 64 bit object in memory, lowest first.\<close>

definition u64_bytes :: "u64 \<Rightarrow> u8 list" where
  "u64_bytes v = map (\<lambda>i. ucast (drop_bit (8 * i) v)) [0, 1, 2, 3, 4, 5, 6, 7]"

definition ZBX_DEFAULT_HASH_SEED :: zbx_hash_t where
  "ZBX_DEFAULT_HASH_SEED = 0"

definition zbx_default_ptr_hash_func :: "u64 \<Rightarrow> zbx_hash_t" where
  "zbx_default_ptr_hash_func p = zbx_hash_modfnv (u64_bytes p) ZBX_DEFAULT_HASH_SEED"

definition zbx_default_string_hash_func :: "string \<Rightarrow> zbx_hash_t" where
  "zbx_default_string_hash_func s =
    zbx_hash_modfnv (map of_char (takeWhile (\<lambda>c. c \<noteq> NUL) s)) ZBX_DEFAULT_HASH_SEED"

definition zbx_default_uint64_pair_hash_func :: "zbx_uint64_pair \<Rightarrow> zbx_hash_t" where
  "zbx_default_uint64_pair_hash_func pair =
    (let hash = zbx_hash_splittable64 (first pair)
     in zbx_hash_modfnv (u64_bytes (second pair)) hash)"

text \<open>The contract between the two callbacks of a hash container.\<close>

locale hash_compare_func = compare_func cmp for cmp :: "'a \<Rightarrow> 'a \<Rightarrow> int" +
  fixes hash :: "'a \<Rightarrow> zbx_hash_t"
  assumes hash_cong: "cmp x y = 0 \<Longrightarrow> hash x = hash y"

lemma strcmp_eq_takeWhile:
  "strcmp s t = 0 \<Longrightarrow> takeWhile (\<lambda>c. c \<noteq> NUL) s = takeWhile (\<lambda>c. c \<noteq> NUL) t"
  by (induction s t rule: strcmp.induct) (auto split: if_splits simp: of_char_eq_0_iff_int)

interpretation uint64_hash: hash_compare_func zbx_default_uint64_compare_func zbx_hash_splittable64
  by unfold_locales (auto dest: uint64_compare.cmp_eq)

interpretation ptr_hash: hash_compare_func zbx_default_ptr_compare_func zbx_default_ptr_hash_func
  by unfold_locales (auto dest: ptr_compare.cmp_eq)

interpretation uint64_pair_hash:
  hash_compare_func zbx_default_uint64_pair_compare_func zbx_default_uint64_pair_hash_func
  by unfold_locales (auto dest: uint64_pair_compare.cmp_eq)

interpretation string_hash:
  hash_compare_func "zbx_default_str_compare_func (\<lambda>s. s)" zbx_default_string_hash_func
  by unfold_locales
    (auto simp: zbx_default_str_compare_func_def zbx_default_string_hash_func_def
      dest: strcmp_eq_takeWhile)

section \<open>Properties\<close>

text \<open>The 64 bit mixing of \<open>zbx_hash_splittable64\<close>, the default hash of every container keyed by
  \<open>uint64\<close>, is a bijection: two different keys can only collide in the final fold to 32 bits.\<close>

theorem splittable64_mix_bij: "bij splittable64_mix"
proof -
  have "inj splittable64_mix"
    by (rule injI) (rule splittable64_mix_inj)
  then show ?thesis
    by (simp add: bij_def finite_UNIV_inj_surj)
qed

text \<open>The shift-and-add loops of the sdbm and djb2 hashes compute, for every buffer and seed, the
  multiplications by 65599 and by 33 that their comments state (modulo \<open>2 ^ 32\<close>).\<close>

theorem sdbm_djb2_multiplicative:
  "zbx_hash_sdbm data seed = foldl (\<lambda>hash c. ucast c + hash * 65599) seed data \<and>
   zbx_hash_djb2 data seed = foldl (\<lambda>hash c. hash * 33 + ucast c) (5381 XOR seed) data"
  by (simp add: sdbm_mult djb2_mult)

text \<open>The mixing round of Bob Jenkins' hash loses no information: it has an inverse, so distinct
  internal states stay distinct.\<close>

theorem lookup2_mix_inj: "inj mix"
  by (rule inj_on_inverseI [of _ unmix]) (rule unmix_mix)

end
