(* ===== verification/Numeric.thy ===== *)
theory Numeric
  imports Prelude
begin

unbundle bit_operations_syntax

text \<open>
  The numeric helpers of \<open>src/libs/zbxalgo/algodefs.c\<close>: the primality test, the search for the
  next prime (the number of slots of every hash container) and the 32 bit integer square root.
\<close>

section \<open>Primes\<close>

text \<open>
  The trial division loop \<open>for (i = 3; i * i <= n; i += 2)\<close>. The product is computed without
  overflow for every \<open>n\<close> below \<open>46341 * 46341 - 1\<close>; the model computes it without a bound.
\<close>

function is_prime_loop :: "nat \<Rightarrow> nat \<Rightarrow> bool" where
  "is_prime_loop n i =
    (if i * i \<le> n then (if n mod i = 0 then False else is_prime_loop n (i + 2)) else True)"
  by pat_completeness auto
termination
proof (relation "measure (\<lambda>(n, i). Suc n - i)", simp)
  fix n i :: nat
  assume "i * i \<le> n" "n mod i \<noteq> 0"
  then have "i \<le> n"
    by (metis le_square order_trans)
  then show "((n, i + 2), n, i) \<in> measure (\<lambda>(n, i). Suc n - i)" by auto
qed

declare is_prime_loop.simps [simp del]

definition is_prime :: "nat \<Rightarrow> bool" where
  "is_prime n =
    (if n \<le> 1 then False else if n = 2 then True else if n mod 2 = 0 then False
     else is_prime_loop n 3)"

text \<open>The specification: no divisor but one and the number itself.\<close>

definition prime_number :: "nat \<Rightarrow> bool" where
  "prime_number n \<longleftrightarrow> 1 < n \<and> (\<forall>d. d dvd n \<longrightarrow> d = 1 \<or> d = n)"

lemma prime_number_iff_no_small_divisor:
  "prime_number n \<longleftrightarrow> 1 < n \<and> (\<forall>d. 1 < d \<and> d * d \<le> n \<longrightarrow> \<not> d dvd n)"
proof (cases "1 < n")
  case True
  have "d dvd n \<Longrightarrow> d \<noteq> 1 \<Longrightarrow> d \<noteq> n \<Longrightarrow> \<exists>e. 1 < e \<and> e * e \<le> n \<and> e dvd n" for d
  proof -
    assume d: "d dvd n" "d \<noteq> 1" "d \<noteq> n"
    then obtain e where e: "n = d * e" by auto
    have "d \<noteq> 0" "e \<noteq> 0" using e True by (auto intro: ccontr)
    moreover have "e \<noteq> 1" using d(3) e by auto
    ultimately have "1 < d" "1 < e" using d(2) by simp_all
    show ?thesis
    proof (cases "d \<le> e")
      case True
      then show ?thesis using \<open>1 < d\<close> e d(1) by (intro exI [of _ d]) auto
    next
      case False
      then show ?thesis using \<open>1 < e\<close> e by (intro exI [of _ e]) auto
    qed
  qed
  moreover have "d \<noteq> n" if "1 < d" "d * d \<le> n" for d :: nat
  proof
    assume "d = n"
    have "d * 1 < d * d" using that(1) by (intro mult_less_mono2) auto
    then show False using that(2) \<open>d = n\<close> by simp
  qed
  ultimately show ?thesis
    using True unfolding prime_number_def by (metis less_irrefl)
qed (simp add: prime_number_def)

lemma is_prime_loop_iff:
  "odd i \<Longrightarrow> is_prime_loop n i \<longleftrightarrow> (\<forall>d. odd d \<and> i \<le> d \<and> d * d \<le> n \<longrightarrow> \<not> d dvd n)"
proof (induction n i rule: is_prime_loop.induct)
  case (1 n i)
  have eq: "is_prime_loop n i =
      (if i * i \<le> n then (if n mod i = 0 then False else is_prime_loop n (i + 2)) else True)"
    by (rule is_prime_loop.simps)
  consider "\<not> i * i \<le> n" | "i * i \<le> n" "i dvd n" | "i * i \<le> n" "\<not> i dvd n" by blast
  then show ?case
  proof cases
    case 1
    have "\<not> d * d \<le> n" if "i \<le> d" for d
    proof -
      have "i * i \<le> d * d" using that by (rule mult_le_mono) (rule that)
      with 1 show ?thesis by linarith
    qed
    with 1 show ?thesis unfolding eq by auto
  next
    case 2
    then have "\<not> (\<forall>d. odd d \<and> i \<le> d \<and> d * d \<le> n \<longrightarrow> \<not> d dvd n)"
      using "1.prems" by (metis order_refl)
    with 2 show ?thesis unfolding eq by (simp add: mod_eq_0_iff_dvd)
  next
    case 3
    have step: "odd d \<and> i \<le> d \<longleftrightarrow> d = i \<or> odd d \<and> i + 2 \<le> d" for d
      using "1.prems" by presburger
    have "is_prime_loop n i \<longleftrightarrow> is_prime_loop n (i + 2)"
      using 3 by (simp add: eq mod_eq_0_iff_dvd)
    also have "\<dots> \<longleftrightarrow> (\<forall>d. odd d \<and> i + 2 \<le> d \<and> d * d \<le> n \<longrightarrow> \<not> d dvd n)"
      using "1.IH" "1.prems" 3 by (simp add: mod_eq_0_iff_dvd)
    also have "\<dots> \<longleftrightarrow> (\<forall>d. odd d \<and> i \<le> d \<and> d * d \<le> n \<longrightarrow> \<not> d dvd n)"
      using step 3(2) by metis
    finally show ?thesis .
  qed
qed

lemma is_prime_iff: "is_prime n \<longleftrightarrow> prime_number n"
proof (cases "n \<le> 2 \<or> even n")
  case True
  then consider "n \<le> 1" | "n = 2" | "2 < n" "even n" by linarith
  then show ?thesis
  proof cases
    case 1
    then show ?thesis by (simp add: is_prime_def prime_number_def)
  next
    case 2
    have "\<not> d * d \<le> 2" if "1 < d" for d :: nat
      using mult_le_mono [of 2 d 2 d] that by simp
    then have "prime_number 2"
      unfolding prime_number_iff_no_small_divisor by auto
    then show ?thesis by (simp add: is_prime_def 2)
  next
    case 3
    then have "\<not> prime_number n"
      unfolding prime_number_def by force
    then show ?thesis using 3 by (simp add: is_prime_def even_iff_mod_2_eq_zero)
  qed
next
  case False
  then have "is_prime n \<longleftrightarrow> (\<forall>d. odd d \<and> 3 \<le> d \<and> d * d \<le> n \<longrightarrow> \<not> d dvd n)"
    using is_prime_loop_iff [of 3 n] by (auto simp: is_prime_def even_iff_mod_2_eq_zero)
  also have "\<dots> \<longleftrightarrow> (\<forall>d. 1 < d \<and> d * d \<le> n \<longrightarrow> \<not> d dvd n)"
  proof -
    have "even d \<Longrightarrow> \<not> d dvd n" for d using False by (meson dvd_trans)
    moreover have "odd d \<Longrightarrow> 3 \<le> d \<longleftrightarrow> 1 < d" for d :: nat by presburger
    ultimately show ?thesis by blast
  qed
  finally show ?thesis
    using False by (simp add: prime_number_iff_no_small_divisor)
qed

text \<open>There is a prime at or above every number (a prime divisor of \<open>n! + 1\<close>).\<close>

lemma least_divisor_prime: "1 < (m::nat) \<Longrightarrow> prime_number (LEAST d. 1 < d \<and> d dvd m)"
proof -
  assume m: "1 < m"
  define p where "p = (LEAST d. 1 < d \<and> d dvd m)"
  have p: "1 < p" "p dvd m"
    unfolding p_def using LeastI [of "\<lambda>d. 1 < d \<and> d dvd m" m] m by auto
  have "d = 1 \<or> d = p" if "d dvd p" for d
  proof (rule ccontr)
    assume d: "\<not> ?thesis"
    have "d dvd m" using that p dvd_trans by blast
    have "d \<noteq> 0" using that p by (metis dvd_0_left less_nat_zero_code)
    then have "1 < d" "d < p" using d that p dvd_imp_le [of d p] by auto
    then show False
      using not_less_Least [of d "\<lambda>d. 1 < d \<and> d dvd m"] \<open>d dvd m\<close> p_def by auto
  qed
  then show ?thesis using p unfolding p_def prime_number_def by blast
qed

lemma prime_above: "\<exists>p \<ge> n. prime_number p"
proof -
  define p where "p = (LEAST d. 1 < d \<and> d dvd Suc (fact n))"
  have m: "1 < Suc (fact n :: nat)" by simp
  have p: "prime_number p" "p dvd Suc (fact n)"
    unfolding p_def using least_divisor_prime [OF m] LeastI [of "\<lambda>d. 1 < d \<and> d dvd Suc (fact n)" "Suc (fact n)"] m
    by auto
  have "n \<le> p"
  proof (rule ccontr)
    assume "\<not> n \<le> p"
    then have "p dvd fact n" using p(1) by (intro dvd_fact) (auto simp: prime_number_def)
    then have "p dvd 1" using p(2) by (metis Suc_eq_plus1 dvd_add_right_iff)
    then show False using p(1) by (simp add: prime_number_def)
  qed
  with p show ?thesis by blast
qed

function next_prime :: "nat \<Rightarrow> nat" where
  "next_prime n = (if \<not> is_prime n then next_prime (n + 1) else n)"
  by pat_completeness auto
termination
proof (relation "measure (\<lambda>n. (LEAST p. n \<le> p \<and> is_prime p) - n)", simp)
  fix n assume np: "\<not> is_prime n"
  define p where "p = (LEAST p. n \<le> p \<and> is_prime p)"
  have "\<exists>p. n \<le> p \<and> is_prime p" using prime_above is_prime_iff by auto
  then have p: "n \<le> p" "is_prime p" unfolding p_def by (metis (mono_tags, lifting) LeastI_ex)+
  then have "n < p" using np by (metis le_neq_implies_less)
  have "(LEAST p. n + 1 \<le> p \<and> is_prime p) \<le> p"
    using p \<open>n < p\<close> by (intro Least_le) auto
  with \<open>n < p\<close> show "(n + 1, n) \<in> measure (\<lambda>n. (LEAST p. n \<le> p \<and> is_prime p) - n)"
    by (auto simp: p_def)
qed

declare next_prime.simps [simp del]

lemma next_prime_least:
  "n \<le> next_prime n \<and> prime_number (next_prime n) \<and> (\<forall>p. n \<le> p \<and> prime_number p \<longrightarrow> next_prime n \<le> p)"
proof (induction n rule: next_prime.induct)
  case (1 n)
  show ?case
  proof (cases "is_prime n")
    case True
    then show ?thesis by (simp add: next_prime.simps [of n] is_prime_iff)
  next
    case False
    have "n \<le> p \<and> prime_number p \<Longrightarrow> n + 1 \<le> p" for p
      using False is_prime_iff by (metis Suc_eq_plus1 Suc_leI le_neq_implies_less)
    then show ?thesis using 1 False by (auto simp: next_prime.simps [of n])
  qed
qed

lemma next_prime_ge: "n \<le> next_prime n" and next_prime_pos: "0 < next_prime n"
  using next_prime_least [of n] by (auto simp: prime_number_def)

lemma prime_number_ge_2: "prime_number n \<Longrightarrow> 2 \<le> n"
  by (simp add: prime_number_def)

section \<open>Integer square root\<close>

text \<open>The body of the loop of \<open>zbx_isqrt32\<close>, \<open>n\<close> iterations left.\<close>

fun isqrt32_loop :: "nat \<Rightarrow> u32 \<Rightarrow> u32 \<Rightarrow> u32 \<Rightarrow> u32" where
  "isqrt32_loop 0 value remainder result = result"
| "isqrt32_loop (Suc n) value remainder result =
    (let result = push_bit 1 result;
         remainder = push_bit 2 remainder + drop_bit 30 value;
         value = push_bit 2 value;
         p = push_bit 1 result OR 1
     in if p \<le> remainder then isqrt32_loop n value (remainder - p) (result OR 1)
        else isqrt32_loop n value remainder result)"

definition zbx_isqrt32 :: "u32 \<Rightarrow> u32" where
  "zbx_isqrt32 value = isqrt32_loop 16 value 0 0"

lemma unat_push_bit_mod:
  "unat (push_bit n (x :: 'a::len word)) = (unat x * 2 ^ n) mod 2 ^ LENGTH('a)"
  by (subst unsigned_push_bit_eq) (simp only: take_bit_eq_mod push_bit_eq_mult)

lemma unat_push_bit_no_overflow:
  "unat x * 2 ^ n < 2 ^ LENGTH('a) \<Longrightarrow> unat (push_bit n (x :: 'a::len word)) = unat x * 2 ^ n"
  unfolding unat_push_bit_mod by simp

lemma push_bit_one_or_one: "push_bit (Suc 0) (x :: u32) OR 1 = push_bit (Suc 0) x + 1"
  by (simp add: or_one_eq)

text \<open>One digit of the root: the remainder never exceeds twice the partial root.\<close>

lemma isqrt32_step:
  assumes r: "unat rem \<le> 2 * unat res" and s: "unat res < 2 ^ 15"
  shows "unat (push_bit 1 res :: u32) = 2 * unat res"
    and "unat (push_bit 2 rem + drop_bit 30 v :: u32) = 4 * unat rem + unat v div 2 ^ 30"
    and "unat (push_bit 1 (push_bit 1 res) OR 1 :: u32) = 4 * unat res + 1"
    and "unat (push_bit 1 res OR 1 :: u32) = 2 * unat res + 1"
proof -
  show 1: "unat (push_bit 1 res :: u32) = 2 * unat res"
    using s by (subst unat_push_bit_no_overflow) auto
  have 2: "unat (push_bit 1 (push_bit 1 res) :: u32) = 4 * unat res"
    using s 1 by (subst unat_push_bit_no_overflow) auto
  have 3: "unat (push_bit 2 rem :: u32) = 4 * unat rem"
    using s r by (subst unat_push_bit_no_overflow) auto
  have 4: "unat (drop_bit 30 v :: u32) = unat v div 2 ^ 30"
    by (subst unat_drop_bit_eq) (simp only: drop_bit_eq_div)
  have "unat v div 2 ^ 30 < 4"
    using unat_u32_less [of v] by (simp add: less_mult_imp_div_less)
  then show "unat (push_bit 2 rem + drop_bit 30 v :: u32) = 4 * unat rem + unat v div 2 ^ 30"
    using r s 3 4 by (simp add: unat_word_ariths)
  show "unat (push_bit 1 (push_bit 1 res) OR 1 :: u32) = 4 * unat res + 1"
    using 2 s push_bit_one_or_one [of "push_bit 1 res"] by (simp add: unat_word_ariths)
  show "unat (push_bit 1 res OR 1 :: u32) = 2 * unat res + 1"
    using 1 s push_bit_one_or_one [of res] by (simp add: unat_word_ariths)
qed

text \<open>What is left of the number is shifted up: the value the remaining digits stand for.\<close>

lemma isqrt32_shift_value:
  fixes v :: nat
  assumes "k < 16" and that: "v < 2 ^ 32"
  shows "T * 4 ^ Suc k + v div 4 ^ (16 - Suc k) =
    (4 * T + v div 2 ^ 30) * 4 ^ k + ((v * 4) mod 2 ^ 32) div 4 ^ (16 - k)"
proof -
  define q v0 where "q = v div 2 ^ 30" and "v0 = v mod 2 ^ 30"
  have v: "v = q * 2 ^ 30 + v0" unfolding q_def v0_def by simp
  have v0: "v0 < 2 ^ 30" unfolding v0_def by simp
  have "q < 4" unfolding q_def using that by (simp add: less_mult_imp_div_less)
  have "v * 4 = v0 * 4 + q * 2 ^ 32" using v by simp
  then have "(v * 4) mod 2 ^ 32 = (v0 * 4) mod 2 ^ 32" by simp
  also have "\<dots> = v0 * 4" using v0 by simp
  finally have m: "(v * 4) mod 2 ^ 32 = v0 * 4" .
  have e1: "(4::nat) ^ (16 - k) = 4 * 4 ^ (15 - k)"
    using assms by (simp add: Suc_diff_le flip: power_Suc)
  have e2: "(2::nat) ^ 30 = 4 ^ k * 4 ^ (15 - k)"
    using assms by (simp flip: power_add add: power_mult [of 2 2 15, simplified])
  have "v div 4 ^ (15 - k) = q * 4 ^ k + v0 div 4 ^ (15 - k)"
    unfolding v e2 by (simp flip: mult.assoc)
  moreover have "(v0 * 4) div 4 ^ (16 - k) = v0 div 4 ^ (15 - k)"
    unfolding e1 by (metis mult.commute div_mult_mult1 zero_neq_numeral)
  ultimately show ?thesis
    using m by (simp add: algebra_simps q_def)
qed

lemma isqrt32_remainder_bound:
  "q < 4 \<Longrightarrow> r \<le> 2 * s \<Longrightarrow> 4 * r + q - (4 * s + 1) \<le> 2 * (2 * s + (1::nat))"
proof -
  assume "q < 4" "r \<le> 2 * s"
  then have "4 * r + q \<le> 8 * s + 3" by linarith
  also have "\<dots> = 2 * (2 * s + 1) + (4 * s + 1)" by simp
  finally show ?thesis by (simp only: le_diff_conv)
qed

lemma isqrt32_loop_correct:
  assumes "k \<le> 16" "unat rem \<le> 2 * unat res" "unat res < 2 ^ (16 - k)"
  shows "let N = (unat res ^ 2 + unat rem) * 4 ^ k + unat v div 4 ^ (16 - k);
             r = unat (isqrt32_loop k v rem res)
         in r ^ 2 \<le> N \<and> N < (r + 1) ^ 2"
  using assms
proof (induction k arbitrary: v rem res)
  case 0
  have "unat v div 4 ^ 16 = 0" using unat_u32_less [of v] by simp
  then show ?case using 0 by (simp add: power2_eq_square)
next
  case (Suc k)
  let ?rem = "push_bit 2 rem + drop_bit 30 v :: u32"
  let ?p = "push_bit 1 (push_bit 1 res) OR 1 :: u32"
  have "(2::nat) ^ (16 - Suc k) \<le> 2 ^ 15" by (rule power_increasing) auto
  then have s: "unat res < 2 ^ 15" using Suc.prems by linarith
  note st = isqrt32_step [OF Suc.prems(2) s]
  have q: "unat v div 2 ^ 30 < 4"
    using unat_u32_less [of v] by (simp add: less_mult_imp_div_less)
  have pw: "(2::nat) ^ (16 - k) = 2 * 2 ^ (16 - Suc k)"
    using Suc.prems(1) by (metis Suc_diff_le diff_Suc_Suc power_Suc Suc_le_D diff_Suc_eq_diff_pred)
  have N: "(unat res ^ 2 + unat rem) * 4 ^ Suc k + unat v div 4 ^ (16 - Suc k) =
      (4 * (unat res ^ 2 + unat rem) + unat v div 2 ^ 30) * 4 ^ k +
      unat (push_bit 2 v) div 4 ^ (16 - k)"
    using isqrt32_shift_value [of k "unat v"] Suc.prems(1) unat_u32_less [of v]
    by (simp add: unat_push_bit_mod)
  show ?case
  proof (cases "?p \<le> ?rem")
    case True
    then have le: "4 * unat res + 1 \<le> 4 * unat rem + unat v div 2 ^ 30"
      by (simp only: word_le_nat_alt st)
    have d: "unat (?rem - ?p) = 4 * unat rem + unat v div 2 ^ 30 - (4 * unat res + 1)"
      using True by (simp only: unat_sub st)
    have o1: "unat (?rem - ?p) \<le> 2 * unat (push_bit 1 res OR 1 :: u32)"
      unfolding d st using isqrt32_remainder_bound [OF q Suc.prems(2)] .
    have o2: "unat (push_bit 1 res OR 1 :: u32) < 2 ^ (16 - k)"
      unfolding st pw using Suc.prems(3) by linarith
    have "let N = (unat (push_bit 1 res OR 1 :: u32) ^ 2 + unat (?rem - ?p)) * 4 ^ k +
             unat (push_bit 2 v) div 4 ^ (16 - k);
           r = unat (isqrt32_loop k (push_bit 2 v) (?rem - ?p) (push_bit 1 res OR 1))
         in r ^ 2 \<le> N \<and> N < (r + 1) ^ 2"
      by (rule Suc.IH [OF _ o1 o2]) (use Suc.prems(1) in simp)
    moreover have "(2 * unat res + 1) ^ 2 + (4 * unat rem + unat v div 2 ^ 30 - (4 * unat res + 1))
        = 4 * (unat res ^ 2 + unat rem) + unat v div 2 ^ 30"
      using le by (simp add: power2_eq_square algebra_simps)
    ultimately show ?thesis
      using True unfolding N d st by (simp add: Let_def)
  next
    case False
    then have lt: "4 * unat rem + unat v div 2 ^ 30 < 4 * unat res + 1"
      by (simp only: word_le_nat_alt st)
    have o1: "unat ?rem \<le> 2 * unat (push_bit 1 res :: u32)"
      unfolding st using lt by linarith
    have o2: "unat (push_bit 1 res :: u32) < 2 ^ (16 - k)"
      unfolding st pw using Suc.prems(3) by linarith
    have "let N = (unat (push_bit 1 res :: u32) ^ 2 + unat ?rem) * 4 ^ k +
             unat (push_bit 2 v) div 4 ^ (16 - k);
           r = unat (isqrt32_loop k (push_bit 2 v) ?rem (push_bit 1 res))
         in r ^ 2 \<le> N \<and> N < (r + 1) ^ 2"
      by (rule Suc.IH [OF _ o1 o2]) (use Suc.prems(1) in simp)
    moreover have "(2 * unat res) ^ 2 + (4 * unat rem + unat v div 2 ^ 30)
        = 4 * (unat res ^ 2 + unat rem) + unat v div 2 ^ 30"
      by (simp add: power2_eq_square algebra_simps)
    ultimately show ?thesis
      using False unfolding N st by (simp add: Let_def add.assoc)
  qed
qed

lemma zbx_isqrt32_bounds:
  "unat (zbx_isqrt32 x) ^ 2 \<le> unat x \<and> unat x < (unat (zbx_isqrt32 x) + 1) ^ 2"
  using isqrt32_loop_correct [of 16 0 0 x] by (simp add: zbx_isqrt32_def Let_def)

section \<open>Properties\<close>

text \<open>\<open>next_prime\<close> returns for every argument, and what it returns is the least prime number not
  below the argument; \<open>is_prime\<close> decides primality.\<close>

theorem next_prime_correct:
  "(is_prime m \<longleftrightarrow> prime_number m) \<and> n \<le> next_prime n \<and> prime_number (next_prime n) \<and>
   (\<forall>p. prime_number p \<and> p < next_prime n \<longrightarrow> p < n)"
  using next_prime_least [of n] is_prime_iff [of m] by (meson not_le)

theorem next_prime_correct_witness: "prime_number 7 \<and> 7 < next_prime 8 \<and> (7::nat) < 8"
proof -
  have p: "is_prime 7" by (simp add: is_prime_def is_prime_loop.simps)
  then have "prime_number 7" using next_prime_correct [of 7 8] by blast
  moreover have "8 \<le> next_prime 8" using next_prime_correct [of 7 8] by blast
  ultimately show ?thesis using next_prime_correct [of 7 8] by auto
qed

text \<open>\<open>zbx_isqrt32\<close> computes the integer part of the square root of every 32 bit number.\<close>

theorem zbx_isqrt32_floor_sqrt:
  "unat (zbx_isqrt32 x) ^ 2 \<le> unat x \<and> unat x < (unat (zbx_isqrt32 x) + 1) ^ 2"
  by (rule zbx_isqrt32_bounds)

end
