(* ===== verification/Vector.thy ===== *)
theory Vector
  imports AlgoDefs
begin

text \<open>
  The dynamic arrays generated by \<open>ZBX_VECTOR_IMPL\<close> (\<open>src/libs/zbxalgo/vectorimpl.h\<close>). The
  macro parameter \<open>__type\<close> is the type variable; the callbacks for memory are those that return
  memory or end the process, so allocation succeeds and only the contents of fresh cells are
  unknown (the argument \<open>junk\<close>). Sizes are natural numbers: the model assumes that
  \<open>3 * values_alloc\<close> fits an \<open>int\<close>.
\<close>

section \<open>State\<close>

text \<open>\<open>v_values\<close> are the allocated cells, \<open>[]\<close> stands for the NULL pointer.\<close>

record 'a zbx_vector =
  v_values :: "'a list"
  v_num :: nat
  v_alloc :: nat

definition vec_inv :: "'a zbx_vector \<Rightarrow> bool" where
  "vec_inv v \<longleftrightarrow> length (v_values v) = v_alloc v \<and> v_num v \<le> v_alloc v"

text \<open>The abstract value: the list of the elements stored.\<close>

definition vec_list :: "'a zbx_vector \<Rightarrow> 'a list" where
  "vec_list v = take (v_num v) (v_values v)"

section \<open>Operations\<close>

definition vector_ensure_free_space :: "'a \<Rightarrow> 'a zbx_vector \<Rightarrow> 'a zbx_vector" where
  "vector_ensure_free_space junk v =
    (if v_values v = [] then
       v\<lparr>v_num := 0, v_alloc := 32, v_values := replicate 32 junk\<rparr>
     else if v_num v = v_alloc v then
       (let alloc = max (v_alloc v + 1) (v_alloc v * 3 div 2)
        in v\<lparr>v_alloc := alloc, v_values := realloc_cells junk alloc (v_values v)\<rparr>)
     else v)"

definition vector_create :: "'a zbx_vector" where
  "vector_create = \<lparr>v_values = [], v_num = 0, v_alloc = 0\<rparr>"

definition vector_destroy :: "'a zbx_vector \<Rightarrow> 'a zbx_vector" where
  "vector_destroy v =
    (if v_values v \<noteq> [] then v\<lparr>v_values := [], v_num := 0, v_alloc := 0\<rparr> else v)"

definition vector_append :: "'a \<Rightarrow> 'a zbx_vector \<Rightarrow> 'a \<Rightarrow> 'a zbx_vector" where
  "vector_append junk v x =
    (let v = vector_ensure_free_space junk v
     in v\<lparr>v_values := (v_values v)[v_num v := x], v_num := v_num v + 1\<rparr>)"

definition vector_reserve :: "'a \<Rightarrow> 'a zbx_vector \<Rightarrow> nat \<Rightarrow> 'a zbx_vector" where
  "vector_reserve junk v sz =
    (if sz > v_alloc v then
       v\<lparr>v_alloc := sz, v_values := realloc_cells junk sz (v_values v)\<rparr>
     else v)"

definition vector_append_array :: "'a \<Rightarrow> 'a zbx_vector \<Rightarrow> 'a list \<Rightarrow> 'a zbx_vector" where
  "vector_append_array junk v ys =
    (let v = vector_reserve junk v (v_num v + length ys)
     in v\<lparr>v_values := memcpy_cells (v_num v) ys (v_values v), v_num := v_num v + length ys\<rparr>)"

definition vector_remove_noorder :: "'a zbx_vector \<Rightarrow> int \<Rightarrow> 'a zbx_vector outcome" where
  "vector_remove_noorder v index =
    (if \<not> (0 \<le> index \<and> index < int (v_num v)) then Inl ExitFailure
     else let num = v_num v - 1
          in Inr (v\<lparr>v_num := num, v_values := (v_values v)[nat index := v_values v ! num]\<rparr>))"

definition vector_remove :: "'a zbx_vector \<Rightarrow> int \<Rightarrow> 'a zbx_vector outcome" where
  "vector_remove v index =
    (if \<not> (0 \<le> index \<and> index < int (v_num v)) then Inl ExitFailure
     else let num = v_num v - 1; i = nat index
          in Inr (v\<lparr>v_num := num, v_values := memmove_cells i (i + 1) (num - i) (v_values v)\<rparr>))"

definition vector_clear :: "'a zbx_vector \<Rightarrow> 'a zbx_vector" where
  "vector_clear v = v\<lparr>v_num := 0\<rparr>"

text \<open>\<open>clear_ext\<close> passes every element to the callback first: the list of those calls.\<close>

definition vector_clear_ext :: "'a zbx_vector \<Rightarrow> 'a zbx_vector \<times> 'a list" where
  "vector_clear_ext v =
    (if v_num v \<noteq> 0 then (v\<lparr>v_num := 0\<rparr>, map ((!) (v_values v)) [0..<v_num v]) else (v, []))"

text \<open>
  \<open>qsort\<close> of the C library, by insertion: the standard fixes the result up to the order of
  elements that compare equal, and no lemma depends on that order.
\<close>

fun qsort_insert :: "('a \<Rightarrow> 'a \<Rightarrow> int) \<Rightarrow> 'a \<Rightarrow> 'a list \<Rightarrow> 'a list" where
  "qsort_insert cmp x [] = [x]"
| "qsort_insert cmp x (y # ys) = (if cmp x y \<le> 0 then x # y # ys else y # qsort_insert cmp x ys)"

fun qsort :: "('a \<Rightarrow> 'a \<Rightarrow> int) \<Rightarrow> 'a list \<Rightarrow> 'a list" where
  "qsort cmp [] = []"
| "qsort cmp (x # xs) = qsort_insert cmp x (qsort cmp xs)"

definition vector_sort :: "('a \<Rightarrow> 'a \<Rightarrow> int) \<Rightarrow> 'a zbx_vector \<Rightarrow> 'a zbx_vector" where
  "vector_sort cmp v =
    (if 2 \<le> v_num v then
       v\<lparr>v_values := qsort cmp (take (v_num v) (v_values v)) @ drop (v_num v) (v_values v)\<rparr>
     else v)"

function vector_uniq_loop :: "('a \<Rightarrow> 'a \<Rightarrow> int) \<Rightarrow> nat \<Rightarrow> nat \<Rightarrow> nat \<Rightarrow> 'a list \<Rightarrow> 'a list \<times> nat" where
  "vector_uniq_loop cmp num i j xs =
    (if i < num then
       if cmp (xs ! (i - 1)) (xs ! i) \<noteq> 0
       then vector_uniq_loop cmp num (i + 1) (j + 1) (xs[j := xs ! i])
       else vector_uniq_loop cmp num (i + 1) j xs
     else (xs, j))"
  by pat_completeness auto
termination by (relation "measure (\<lambda>(cmp, num, i, j, xs). num - i)") auto

declare vector_uniq_loop.simps [simp del]

definition vector_uniq :: "('a \<Rightarrow> 'a \<Rightarrow> int) \<Rightarrow> 'a zbx_vector \<Rightarrow> 'a zbx_vector" where
  "vector_uniq cmp v =
    (if 2 \<le> v_num v then
       case vector_uniq_loop cmp (v_num v) 1 1 (v_values v) of (xs, j) \<Rightarrow> v\<lparr>v_values := xs, v_num := j\<rparr>
     else v)"

function nearestindex_loop :: "('a \<Rightarrow> 'a \<Rightarrow> int) \<Rightarrow> 'a list \<Rightarrow> 'a \<Rightarrow> nat \<Rightarrow> nat \<Rightarrow> nat" where
  "nearestindex_loop cmp xs x lo hi =
    (if lo + 1 \<le> hi then
       let mid = (lo + hi) div 2; c = cmp (xs ! mid) x
       in if c < 0 then nearestindex_loop cmp xs x (mid + 1) hi
          else if c = 0 then mid
          else nearestindex_loop cmp xs x lo mid
     else hi)"
  by pat_completeness auto
termination by (relation "measure (\<lambda>(cmp, xs, x, lo, hi). hi - lo)") auto

declare nearestindex_loop.simps [simp del]

definition vector_nearestindex :: "('a \<Rightarrow> 'a \<Rightarrow> int) \<Rightarrow> 'a zbx_vector \<Rightarrow> 'a \<Rightarrow> nat" where
  "vector_nearestindex cmp v x = nearestindex_loop cmp (v_values v) x 0 (v_num v)"

text \<open>\<open>bsearch\<close> of the C library as a binary search; the key is the first argument of the callback.\<close>

function bsearch :: "('a \<Rightarrow> 'a \<Rightarrow> int) \<Rightarrow> 'a \<Rightarrow> 'a list \<Rightarrow> nat \<Rightarrow> nat \<Rightarrow> nat option" where
  "bsearch cmp key xs l u =
    (if l < u then
       let idx = (l + u) div 2; c = cmp key (xs ! idx)
       in if c < 0 then bsearch cmp key xs l idx
          else if 0 < c then bsearch cmp key xs (idx + 1) u
          else Some idx
     else None)"
  by pat_completeness auto
termination by (relation "measure (\<lambda>(cmp, key, xs, l, u). u - l)") auto

declare bsearch.simps [simp del]

definition vector_bsearch :: "('a \<Rightarrow> 'a \<Rightarrow> int) \<Rightarrow> 'a zbx_vector \<Rightarrow> 'a \<Rightarrow> int" where
  "vector_bsearch cmp v x =
    (case (if v_num v = 0 then None else bsearch cmp x (v_values v) 0 (v_num v)) of
       Some i \<Rightarrow> int i | None \<Rightarrow> -1)"

text \<open>\<open>lsearch\<close> starts at \<open>*index\<close> and leaves there where it stopped.\<close>

function lsearch_loop :: "('a \<Rightarrow> 'a \<Rightarrow> int) \<Rightarrow> 'a list \<Rightarrow> nat \<Rightarrow> 'a \<Rightarrow> nat \<Rightarrow> ret \<times> nat" where
  "lsearch_loop cmp xs num x index =
    (if index < num then
       let c = cmp (xs ! index) x
       in if c < 0 then lsearch_loop cmp xs num x (index + 1)
          else if c = 0 then (SUCCEED, index)
          else (FAIL, index)
     else (FAIL, index))"
  by pat_completeness auto
termination by (relation "measure (\<lambda>(cmp, xs, num, x, index). num - index)") auto

declare lsearch_loop.simps [simp del]

definition vector_lsearch :: "('a \<Rightarrow> 'a \<Rightarrow> int) \<Rightarrow> 'a zbx_vector \<Rightarrow> 'a \<Rightarrow> nat \<Rightarrow> ret \<times> nat" where
  "vector_lsearch cmp v x index = lsearch_loop cmp (v_values v) (v_num v) x index"

function search_loop :: "('a \<Rightarrow> 'a \<Rightarrow> int) \<Rightarrow> 'a list \<Rightarrow> nat \<Rightarrow> 'a \<Rightarrow> nat \<Rightarrow> int" where
  "search_loop cmp xs num x index =
    (if index < num then
       if cmp (xs ! index) x = 0 then int index else search_loop cmp xs num x (index + 1)
     else -1)"
  by pat_completeness auto
termination by (relation "measure (\<lambda>(cmp, xs, num, x, index). num - index)") auto

declare search_loop.simps [simp del]

definition vector_search :: "('a \<Rightarrow> 'a \<Rightarrow> int) \<Rightarrow> 'a zbx_vector \<Rightarrow> 'a \<Rightarrow> int" where
  "vector_search cmp v x = search_loop cmp (v_values v) (v_num v) x 0"

text \<open>
  The set difference of two sorted vectors moves the blocks between deleted elements to the
  left. The loop state is \<open>block_start\<close>, \<open>deleted\<close>, \<open>left_index\<close>, \<open>right_index\<close>; \<open>block_start\<close>
  is not initialised by the code and only read after a deletion.
\<close>

record setdiff_state =
  block_start :: nat
  deleted :: nat
  left_index :: nat
  right_index :: nat

function setdiff_loop :: "('a \<Rightarrow> 'a \<Rightarrow> int) \<Rightarrow> nat \<Rightarrow> 'a list \<Rightarrow> nat \<Rightarrow> 'a list \<Rightarrow> setdiff_state \<Rightarrow>
    'a list \<times> setdiff_state" where
  "setdiff_loop cmp rnum rvals lnum xs s =
    (if left_index s < lnum \<and> right_index s < rnum then
       let c = cmp (xs ! left_index s) (rvals ! right_index s);
           s1 = (if c \<le> 0 then s\<lparr>left_index := left_index s + 1\<rparr> else s);
           s2 = (if 0 \<le> c then s1\<lparr>right_index := right_index s1 + 1\<rparr> else s1)
       in if c \<noteq> 0 then setdiff_loop cmp rnum rvals lnum xs s2
          else
            let s3 = s2\<lparr>deleted := deleted s2 + 1\<rparr>;
                xs' = (if 0 < deleted s2
                       then memmove_cells (block_start s3 + 1 - deleted s3) (block_start s3)
                              (left_index s3 - 1 - block_start s3) xs
                       else xs)
            in setdiff_loop cmp rnum rvals lnum xs' (s3\<lparr>block_start := left_index s3\<rparr>)
     else (xs, s))"
  by pat_completeness auto
termination
  by (relation "measure (\<lambda>(cmp, rnum, rvals, lnum, xs, s). (lnum - left_index s) + (rnum - right_index s))")
    (auto split: if_splits)

declare setdiff_loop.simps [simp del]

definition vector_setdiff :: "nat \<Rightarrow> ('a \<Rightarrow> 'a \<Rightarrow> int) \<Rightarrow> 'a zbx_vector \<Rightarrow> 'a zbx_vector \<Rightarrow> 'a zbx_vector" where
  "vector_setdiff uninit cmp left right =
    (case setdiff_loop cmp (v_num right) (v_values right) (v_num left) (v_values left)
            \<lparr>block_start = uninit, deleted = 0, left_index = 0, right_index = 0\<rparr> of
       (xs, s) \<Rightarrow>
         if 0 < deleted s then
           left\<lparr>v_values := memmove_cells (block_start s - deleted s) (block_start s)
                  (v_num left - block_start s) xs,
                v_num := v_num left - deleted s\<rparr>
         else left\<lparr>v_values := xs\<rparr>)"

section \<open>Storing and removing elements\<close>

lemma vec_inv_create: "vec_inv vector_create" "vec_list vector_create = []"
  by (simp_all add: vec_inv_def vec_list_def vector_create_def)

lemma vec_inv_destroy: "vec_inv v \<Longrightarrow> vector_destroy v = vector_create"
  by (auto simp: vec_inv_def vector_destroy_def vector_create_def)

lemma length_vec_list [simp]: "vec_inv v \<Longrightarrow> length (vec_list v) = v_num v"
  by (simp add: vec_inv_def vec_list_def)

lemma nth_vec_list: "i < v_num v \<Longrightarrow> vec_list v ! i = v_values v ! i"
  by (simp add: vec_list_def)

lemma vector_ensure_free_space:
  assumes "vec_inv v"
  shows "vec_inv (vector_ensure_free_space junk v)"
    and "vec_list (vector_ensure_free_space junk v) = vec_list v"
    and "v_num (vector_ensure_free_space junk v) = v_num v"
    and "v_num (vector_ensure_free_space junk v) < v_alloc (vector_ensure_free_space junk v)"
  using assms
  by (auto simp: vec_inv_def vec_list_def vector_ensure_free_space_def Let_def cells_simps)

lemma vector_append:
  assumes "vec_inv v"
  shows "vec_inv (vector_append junk v x)"
    and "vec_list (vector_append junk v x) = vec_list v @ [x]"
proof -
  note e = vector_ensure_free_space [OF assms, of junk]
  show "vec_inv (vector_append junk v x)"
    using e by (simp add: vector_append_def Let_def vec_inv_def)
  show "vec_list (vector_append junk v x) = vec_list v @ [x]"
    using e by (simp add: vector_append_def Let_def vec_inv_def vec_list_def take_Suc_list_update)
qed

lemma vector_reserve:
  assumes "vec_inv v"
  shows "vec_inv (vector_reserve junk v n)" "vec_list (vector_reserve junk v n) = vec_list v"
    and "v_num (vector_reserve junk v n) = v_num v" "n \<le> v_alloc (vector_reserve junk v n)"
  using assms by (auto simp: vector_reserve_def vec_inv_def vec_list_def cells_simps)

lemma vector_append_array:
  assumes "vec_inv v"
  shows "vec_inv (vector_append_array junk v ys)"
    and "vec_list (vector_append_array junk v ys) = vec_list v @ ys"
proof -
  let ?r = "vector_reserve junk v (v_num v + length ys)"
  note r = vector_reserve [OF assms, where junk = junk and n = "v_num v + length ys"]
  have fits: "v_num ?r + length ys \<le> length (v_values ?r)"
    using r by (simp add: vec_inv_def)
  show "vec_inv (vector_append_array junk v ys)"
    using r fits by (simp add: vector_append_array_def Let_def vec_inv_def)
  show "vec_list (vector_append_array junk v ys) = vec_list v @ ys"
    using r fits take_memcpy_cells [OF fits]
    by (simp add: vector_append_array_def Let_def vec_list_def)
qed

lemma vector_remove:
  assumes "vec_inv v" "i < v_num v"
  shows "\<exists>v'. vector_remove v (int i) = Inr v' \<and> vec_inv v' \<and>
    vec_list v' = take i (vec_list v) @ drop (Suc i) (vec_list v)"
proof -
  define num where "num = v_num v - 1"
  define xs where "xs = memmove_cells i (i + 1) (num - i) (v_values v)"
  have b: "i + (num - i) = num" "i + 1 + (num - i) = v_num v" "v_num v \<le> length (v_values v)"
    "v_num v = Suc num"
    using assms by (auto simp: num_def vec_inv_def)
  have "take num xs = take i (vec_list v) @ drop (Suc i) (vec_list v)"
  proof -
    have "take num xs = take i (v_values v) @ take (num - i) (drop (Suc i) (v_values v))"
      using b assms(2) unfolding xs_def memmove_cells_def by simp
    then show ?thesis
      using b assms(2) by (simp add: vec_list_def drop_take)
  qed
  moreover have "length xs = length (v_values v)"
    using b unfolding xs_def by (intro length_memmove_cells) auto
  moreover have "vector_remove v (int i) = Inr (v\<lparr>v_num := num, v_values := xs\<rparr>)"
    using assms(2) by (simp add: vector_remove_def Let_def num_def xs_def)
  ultimately show ?thesis
    using assms(1) b by (auto simp: vec_inv_def vec_list_def)
qed

lemma vector_remove_bad_index:
  "\<not> (0 \<le> i \<and> i < int (v_num v)) \<Longrightarrow>
    vector_remove v i = Inl ExitFailure \<and> vector_remove_noorder v i = Inl ExitFailure"
  by (simp add: vector_remove_def vector_remove_noorder_def)

lemma vector_remove_noorder:
  assumes "vec_inv v" "i < v_num v"
  shows "\<exists>v'. vector_remove_noorder v (int i) = Inr v' \<and> vec_inv v' \<and>
    vec_list v' = butlast ((vec_list v)[i := last (vec_list v)]) \<and>
    mset (vec_list v') = mset (vec_list v) - {#vec_list v ! i#}"
proof -
  define num where "num = v_num v - 1"
  have num: "v_num v = Suc num" "Suc num \<le> length (v_values v)" "i \<le> num"
    using assms by (auto simp: num_def vec_inv_def)
  let ?v' = "v\<lparr>v_num := num, v_values := (v_values v)[i := v_values v ! num]\<rparr>"
  have ne: "vec_list v \<noteq> []" and len: "length (vec_list v) = Suc num"
    using num by (auto simp: vec_list_def)
  have last: "last (vec_list v) = v_values v ! num"
    using ne len num by (simp add: last_conv_nth vec_list_def)
  have l: "vec_list ?v' = butlast ((vec_list v)[i := last (vec_list v)])"
    unfolding last using num by (simp add: vec_list_def butlast_conv_take take_update_swap min_def)
  have "mset (butlast ((vec_list v)[i := last (vec_list v)])) = mset (vec_list v) - {#vec_list v ! i#}"
  proof -
    let ?ys = "(vec_list v)[i := last (vec_list v)]"
    have yne: "?ys \<noteq> []" using ne by simp
    have "last ?ys = last (vec_list v)"
      using ne len num by (auto simp: last_conv_nth nth_list_update)
    then have "mset ?ys = add_mset (last (vec_list v)) (mset (butlast ?ys))"
      using yne by (metis append_butlast_last_id mset_append mset.simps union_mset_add_mset_right add.right_neutral)
    moreover have "mset ?ys = add_mset (last (vec_list v)) (mset (vec_list v)) - {#vec_list v ! i#}"
      using len num by (intro mset_list_update) simp
    moreover obtain N where "mset (vec_list v) = add_mset (vec_list v ! i) N"
      using len num multi_member_split [of "vec_list v ! i" "mset (vec_list v)"] by auto
    ultimately show ?thesis by simp
  qed
  moreover have "vec_inv ?v'" using assms num by (simp add: vec_inv_def)
  moreover have "vector_remove_noorder v (int i) = Inr ?v'"
    using assms(2) by (simp add: vector_remove_noorder_def Let_def num_def)
  ultimately show ?thesis using l by auto
qed

lemma vector_clear: "vec_inv v \<Longrightarrow> vec_inv (vector_clear v)" "vec_list (vector_clear v) = []"
  by (simp_all add: vector_clear_def vec_inv_def vec_list_def)

lemma vector_clear_ext:
  "vec_inv v \<Longrightarrow> vector_clear_ext v = (vector_clear v, vec_list v)"
  by (cases v) (auto simp: vector_clear_ext_def vector_clear_def vec_list_def vec_inv_def
      intro: nth_equalityI)

section \<open>Sorting and removing repetitions\<close>

text \<open>Ascending order by a comparison callback, strict or not.\<close>

definition sorted_cmp :: "('a \<Rightarrow> 'a \<Rightarrow> int) \<Rightarrow> 'a list \<Rightarrow> bool" where
  "sorted_cmp cmp xs \<longleftrightarrow> sorted_wrt (\<lambda>x y. cmp x y \<le> 0) xs"

definition strict_sorted_cmp :: "('a \<Rightarrow> 'a \<Rightarrow> int) \<Rightarrow> 'a list \<Rightarrow> bool" where
  "strict_sorted_cmp cmp xs \<longleftrightarrow> sorted_wrt (\<lambda>x y. cmp x y < 0) xs"

lemma sorted_cmp_simps [simp]:
  "sorted_cmp cmp []"
  "sorted_cmp cmp (x # xs) \<longleftrightarrow> (\<forall>y \<in> set xs. cmp x y \<le> 0) \<and> sorted_cmp cmp xs"
  "strict_sorted_cmp cmp []"
  "strict_sorted_cmp cmp (x # xs) \<longleftrightarrow> (\<forall>y \<in> set xs. cmp x y < 0) \<and> strict_sorted_cmp cmp xs"
  by (simp_all add: sorted_cmp_def strict_sorted_cmp_def)

lemma sorted_cmp_nth: "sorted_cmp cmp xs \<Longrightarrow> i < j \<Longrightarrow> j < length xs \<Longrightarrow> cmp (xs ! i) (xs ! j) \<le> 0"
  unfolding sorted_cmp_def by (rule sorted_wrt_nth_less)

lemma sorted_cmp_drop: "sorted_cmp cmp xs \<Longrightarrow> sorted_cmp cmp (drop n xs)"
  by (simp add: sorted_cmp_def sorted_wrt_drop)

lemma mset_qsort_insert [simp]: "mset (qsort_insert cmp x xs) = add_mset x (mset xs)"
  by (induction xs) auto

lemma mset_qsort [simp]: "mset (qsort cmp xs) = mset xs"
  by (induction xs) auto

lemma length_qsort [simp]: "length (qsort cmp xs) = length xs"
  by (metis mset_qsort size_mset)

lemma set_qsort_insert [simp]: "set (qsort_insert cmp x xs) = insert x (set xs)"
  by (metis mset_qsort_insert set_mset_add_mset_insert set_mset_mset)

text \<open>What \<open>uniq\<close> keeps: the first element and every element that differs from the one before it.\<close>

fun uniq_from :: "('a \<Rightarrow> 'a \<Rightarrow> int) \<Rightarrow> 'a \<Rightarrow> 'a list \<Rightarrow> 'a list" where
  "uniq_from cmp prev [] = []"
| "uniq_from cmp prev (x # xs) =
     (if cmp prev x \<noteq> 0 then x # uniq_from cmp x xs else uniq_from cmp x xs)"

fun uniq_list :: "('a \<Rightarrow> 'a \<Rightarrow> int) \<Rightarrow> 'a list \<Rightarrow> 'a list" where
  "uniq_list cmp [] = []"
| "uniq_list cmp (x # xs) = x # uniq_from cmp x xs"

lemma length_uniq_from: "length (uniq_from cmp prev xs) \<le> length xs"
  by (induction xs arbitrary: prev) (auto simp: le_SucI)

lemma vector_uniq_loop:
  assumes "1 \<le> j" "j \<le> i" "i \<le> num" "num \<le> length xs"
  shows "case vector_uniq_loop cmp num i j xs of (ys, n) \<Rightarrow>
    length ys = length xs \<and> n \<le> num \<and>
    take n ys = take j xs @ uniq_from cmp (xs ! (i - 1)) (drop i (take num xs))"
  using assms
proof (induction cmp num i j xs rule: vector_uniq_loop.induct)
  case (1 cmp num i j xs)
  have eq: "vector_uniq_loop cmp num i j xs =
    (if i < num then
       if cmp (xs ! (i - 1)) (xs ! i) \<noteq> 0
       then vector_uniq_loop cmp num (i + 1) (j + 1) (xs[j := xs ! i])
       else vector_uniq_loop cmp num (i + 1) j xs
     else (xs, j))"
    by (rule vector_uniq_loop.simps)
  show ?case
  proof (cases "i < num")
    case False
    with "1.prems" show ?thesis unfolding eq by simp
  next
    case True
    then have cons: "drop i (take num xs) = xs ! i # drop (Suc i) (take num xs)"
      using "1.prems" by (simp add: nth_eq_drop_Cons)
    show ?thesis
    proof (cases "cmp (xs ! (i - 1)) (xs ! i) = 0")
      case same: True
      then show ?thesis
        using "1.IH"(2) True "1.prems" unfolding eq cons by simp
    next
      case False
      have "take (Suc j) (xs[j := xs ! i]) = take j xs @ [xs ! i]"
        using "1.prems" True by (intro take_Suc_list_update) simp
      moreover have "drop (Suc i) (take num (xs[j := xs ! i])) = drop (Suc i) (take num xs)"
        using "1.prems" by (simp add: take_update_swap drop_update_cancel)
      moreover have "xs[j := xs ! i] ! i = xs ! i"
        using "1.prems" True by (simp add: nth_list_update)
      ultimately show ?thesis
        using "1.IH"(1) True False "1.prems" unfolding eq cons by (simp split: prod.splits)
    qed
  qed
qed

lemma vector_uniq:
  assumes "vec_inv v"
  shows "vec_inv (vector_uniq cmp v) \<and> vec_list (vector_uniq cmp v) = uniq_list cmp (vec_list v)"
proof (cases "2 \<le> v_num v")
  case False
  then have "length (vec_list v) \<le> 1" using assms by simp
  then have "uniq_list cmp (vec_list v) = vec_list v" by (cases "vec_list v") auto
  with False assms show ?thesis by (simp add: vector_uniq_def)
next
  case True
  obtain ys n where l: "vector_uniq_loop cmp (v_num v) 1 1 (v_values v) = (ys, n)" by force
  have len: "v_num v \<le> length (v_values v)" using assms by (simp add: vec_inv_def)
  have r: "length ys = length (v_values v)" "n \<le> v_num v"
    "take n ys = take 1 (v_values v) @ uniq_from cmp (v_values v ! 0) (drop 1 (take (v_num v) (v_values v)))"
    using vector_uniq_loop [of 1 1 "v_num v" "v_values v" cmp] l True len by auto
  obtain x xs where "v_values v = x # xs" using True len by (cases "v_values v") auto
  then have "take n ys = uniq_list cmp (vec_list v)"
    using r(3) True by (cases "v_num v") (auto simp: vec_list_def)
  with r l True assms show ?thesis
    by (simp add: vector_uniq_def vec_inv_def vec_list_def)
qed

context compare_func
begin

lemma sorted_qsort_insert: "sorted_cmp cmp xs \<Longrightarrow> sorted_cmp cmp (qsort_insert cmp x xs)"
proof (induction xs)
  case (Cons y ys)
  have "cmp x y \<le> 0 \<Longrightarrow> z \<in> set ys \<Longrightarrow> cmp x z \<le> 0" for z
    using Cons.prems cmp_trans by auto
  moreover have "\<not> cmp x y \<le> 0 \<Longrightarrow> cmp y x \<le> 0"
    using cmp_total by blast
  ultimately show ?case using Cons by auto
qed simp

lemma sorted_qsort: "sorted_cmp cmp (qsort cmp xs)"
  by (induction xs) (auto intro: sorted_qsort_insert)

lemma vector_sort:
  assumes "vec_inv v"
  shows "vec_inv (vector_sort cmp v) \<and> mset (vec_list (vector_sort cmp v)) = mset (vec_list v) \<and>
    sorted_cmp cmp (vec_list (vector_sort cmp v))"
proof (cases "2 \<le> v_num v")
  case True
  with assms show ?thesis
    by (auto simp: vector_sort_def vec_inv_def vec_list_def intro: sorted_qsort)
next
  case False
  then have "length (vec_list v) \<le> 1" using assms by simp
  then have "sorted_cmp cmp (vec_list v)" by (cases "vec_list v") auto
  with False assms show ?thesis by (simp add: vector_sort_def)
qed

lemma uniq_from_sorted:
  "sorted_cmp cmp (prev # xs) \<Longrightarrow>
    strict_sorted_cmp cmp (prev # uniq_from cmp prev xs) \<and>
    (\<forall>x \<in> set xs. \<exists>y \<in> set (prev # uniq_from cmp prev xs). cmp y x = 0) \<and>
    set (uniq_from cmp prev xs) \<subseteq> set xs"
proof (induction xs arbitrary: prev)
  case Nil
  then show ?case by simp
next
  case (Cons a xs)
  have s: "sorted_cmp cmp (a # xs)" "cmp prev a \<le> 0" using Cons.prems by auto
  note IH = Cons.IH [OF s(1)]
  show ?case
  proof (cases "cmp prev a = 0")
    case False
    then have lt: "cmp prev a < 0" using s by simp
    have "\<forall>y \<in> set (uniq_from cmp a xs). cmp prev y < 0"
      using IH lt cmp_less_trans by auto
    with IH lt False cmp_refl show ?thesis by auto
  next
    case True
    have "cmp prev y < 0" if "y \<in> set (uniq_from cmp a xs)" for y
      using IH that True cmp_le_less_trans [of prev a y] by auto
    moreover have "\<exists>y \<in> set (prev # uniq_from cmp a xs). cmp y x = 0" if "x \<in> set (a # xs)" for x
    proof -
      obtain y where "y \<in> set (a # uniq_from cmp a xs)" "cmp y x = 0"
        using IH \<open>x \<in> set (a # xs)\<close> cmp_refl by (metis list.set_intros(1) set_ConsD)
      then show ?thesis
        using True cmp_eq_trans [of prev a x] by auto
    qed
    ultimately show ?thesis using IH True by auto
  qed
qed

lemma uniq_list_sorted:
  assumes "sorted_cmp cmp xs"
  shows "strict_sorted_cmp cmp (uniq_list cmp xs)" "set (uniq_list cmp xs) \<subseteq> set xs"
    "\<forall>x \<in> set xs. \<exists>y \<in> set (uniq_list cmp xs). cmp y x = 0"
proof -
  show "strict_sorted_cmp cmp (uniq_list cmp xs)" "set (uniq_list cmp xs) \<subseteq> set xs"
    using assms uniq_from_sorted by (cases xs; force)+
  show "\<forall>x \<in> set xs. \<exists>y \<in> set (uniq_list cmp xs). cmp y x = 0"
  proof (cases xs)
    case (Cons x ys)
    then show ?thesis
      using uniq_from_sorted [of x ys] assms cmp_refl by (metis list.set_intros(1) set_ConsD uniq_list.simps(2))
  qed simp
qed

end

text \<open>On keys, where only equal values compare equal, sort followed by uniq builds the set.\<close>

context key_compare_func
begin

lemma uniq_list_sorted_set: "sorted_cmp cmp xs \<Longrightarrow> set (uniq_list cmp xs) = set xs"
  using uniq_list_sorted [of xs] cmp_eq by blast

lemma strict_sorted_distinct: "strict_sorted_cmp cmp xs \<Longrightarrow> distinct xs"
  by (induction xs) (auto simp: cmp_refl)

lemma vector_sort_uniq:
  assumes "vec_inv v"
  shows "vec_inv (vector_uniq cmp (vector_sort cmp v)) \<and>
    strict_sorted_cmp cmp (vec_list (vector_uniq cmp (vector_sort cmp v))) \<and>
    distinct (vec_list (vector_uniq cmp (vector_sort cmp v))) \<and>
    set (vec_list (vector_uniq cmp (vector_sort cmp v))) = set (vec_list v)"
proof -
  have s: "vec_inv (vector_sort cmp v)" "mset (vec_list (vector_sort cmp v)) = mset (vec_list v)"
    "sorted_cmp cmp (vec_list (vector_sort cmp v))"
    using vector_sort [OF assms] by auto
  have "set (vec_list (vector_sort cmp v)) = set (vec_list v)"
    using s(2) by (metis set_mset_mset)
  then show ?thesis
    using vector_uniq [OF s(1), of cmp] uniq_list_sorted [OF s(3)] uniq_list_sorted_set [OF s(3)]
      strict_sorted_distinct by simp
qed

end

section \<open>Searching\<close>

lemma search_loop:
  "search_loop cmp xs n x i =
    (if \<exists>k. i \<le> k \<and> k < n \<and> cmp (xs ! k) x = 0
     then int (LEAST k. i \<le> k \<and> k < n \<and> cmp (xs ! k) x = 0) else -1)"
proof (induction cmp xs n x i rule: search_loop.induct)
  case (1 cmp xs n x i)
  have eq: "search_loop cmp xs n x i =
    (if i < n then if cmp (xs ! i) x = 0 then int i else search_loop cmp xs n x (i + 1) else -1)"
    by (rule search_loop.simps)
  show ?case
  proof (cases "i < n \<and> cmp (xs ! i) x \<noteq> 0")
    case True
    then have step: "i + 1 \<le> k \<and> k < n \<and> cmp (xs ! k) x = 0 \<longleftrightarrow> i \<le> k \<and> k < n \<and> cmp (xs ! k) x = 0" for k
      by (auto simp: less_eq_Suc_le [symmetric] order_less_le)
    have "search_loop cmp xs n x i = search_loop cmp xs n x (i + 1)"
      using True unfolding eq by simp
    also have "\<dots> = (if \<exists>k. i + 1 \<le> k \<and> k < n \<and> cmp (xs ! k) x = 0
      then int (LEAST k. i + 1 \<le> k \<and> k < n \<and> cmp (xs ! k) x = 0) else -1)"
      using 1 True by blast
    finally show ?thesis by (simp only: step)
  next
    case False
    then consider "\<not> i < n" | "i < n" "cmp (xs ! i) x = 0" by blast
    then show ?thesis
    proof cases
      case 1
      then show ?thesis unfolding eq by auto
    next
      case 2
      then have "(LEAST k. i \<le> k \<and> k < n \<and> cmp (xs ! k) x = 0) = i"
        by (intro Least_equality) auto
      with 2 show ?thesis unfolding eq by auto
    qed
  qed
qed

lemma lsearch_loop:
  assumes "lsearch_loop cmp xs n x i = (r, k)" "i \<le> n"
  shows "i \<le> k \<and> k \<le> n \<and> (\<forall>m. i \<le> m \<and> m < k \<longrightarrow> cmp (xs ! m) x < 0) \<and>
    (r = SUCCEED \<longrightarrow> k < n \<and> cmp (xs ! k) x = 0) \<and>
    (r = FAIL \<longrightarrow> k = n \<or> 0 < cmp (xs ! k) x)"
  using assms
proof (induction cmp xs n x i rule: lsearch_loop.induct)
  case (1 cmp xs n x i)
  have eq: "lsearch_loop cmp xs n x i =
    (if i < n then
       let c = cmp (xs ! i) x
       in if c < 0 then lsearch_loop cmp xs n x (i + 1)
          else if c = 0 then (SUCCEED, i) else (FAIL, i)
     else (FAIL, i))"
    by (rule lsearch_loop.simps)
  show ?case
  proof (cases "i < n \<and> cmp (xs ! i) x < 0")
    case True
    then have "lsearch_loop cmp xs n x (i + 1) = (r, k)"
      using "1.prems"(1) unfolding eq by (simp add: Let_def)
    with True have IH: "i + 1 \<le> k \<and> k \<le> n \<and> (\<forall>m. i + 1 \<le> m \<and> m < k \<longrightarrow> cmp (xs ! m) x < 0) \<and>
      (r = SUCCEED \<longrightarrow> k < n \<and> cmp (xs ! k) x = 0) \<and> (r = FAIL \<longrightarrow> k = n \<or> 0 < cmp (xs ! k) x)"
      by (intro "1.IH") auto
    then have "cmp (xs ! m) x < 0" if "i \<le> m" "m < k" for m
      using True that by (cases "m = i") auto
    with IH show ?thesis by auto
  next
    case False
    with 1 show ?thesis unfolding eq by (auto simp: Let_def split: if_splits)
  qed
qed

context compare_func
begin

text \<open>In an ascending array everything below an element below the key is below it, and dually.\<close>

lemma sorted_below:
  assumes "sorted_cmp cmp (take n xs)" "i \<le> m" "m < n" "n \<le> length xs" "cmp (xs ! m) x < 0"
  shows "cmp (xs ! i) x < 0"
proof (cases "i = m")
  case False
  then have "cmp (xs ! i) (xs ! m) \<le> 0"
    using assms sorted_cmp_nth [of cmp "take n xs" i m] by simp
  then show ?thesis using assms(5) cmp_le_less_trans by blast
qed (use assms in simp)

lemma sorted_above:
  assumes "sorted_cmp cmp (take n xs)" "m \<le> i" "i < n" "n \<le> length xs" "0 < cmp (xs ! m) x"
  shows "0 < cmp (xs ! i) x"
proof (cases "i = m")
  case False
  then have "cmp (xs ! m) (xs ! i) \<le> 0"
    using assms sorted_cmp_nth [of cmp "take n xs" m i] by simp
  then show ?thesis using assms(5) cmp_flip cmp_less_le_trans by blast
qed (use assms in simp)

lemma nearestindex_loop:
  assumes "sorted_cmp cmp (take n xs)" "n \<le> length xs" "lo \<le> hi" "hi \<le> n"
    "\<forall>i<lo. cmp (xs ! i) x < 0" "\<forall>i. hi \<le> i \<and> i < n \<longrightarrow> 0 < cmp (xs ! i) x"
  shows "let r = nearestindex_loop cmp xs x lo hi in
    r \<le> n \<and> (r < n \<and> cmp (xs ! r) x = 0 \<or>
      (\<forall>i<r. cmp (xs ! i) x < 0) \<and> (\<forall>i. r \<le> i \<and> i < n \<longrightarrow> 0 < cmp (xs ! i) x))"
  using assms(3-6)
proof (induction "hi - lo" arbitrary: lo hi rule: less_induct)
  case less
  have eq: "nearestindex_loop cmp xs x lo hi =
    (if lo + 1 \<le> hi then
       let mid = (lo + hi) div 2; c = cmp (xs ! mid) x
       in if c < 0 then nearestindex_loop cmp xs x (mid + 1) hi
          else if c = 0 then mid else nearestindex_loop cmp xs x lo mid
     else hi)"
    by (rule nearestindex_loop.simps)
  show ?case
  proof (cases "lo + 1 \<le> hi")
    case False
    with less show ?thesis unfolding eq by auto
  next
    case True
    let ?mid = "(lo + hi) div 2"
    have mid: "lo \<le> ?mid" "?mid < hi" using True by auto
    consider "cmp (xs ! ?mid) x < 0" | "cmp (xs ! ?mid) x = 0"
      | "0 < cmp (xs ! ?mid) x" "\<not> cmp (xs ! ?mid) x < 0" "cmp (xs ! ?mid) x \<noteq> 0" by linarith
    then show ?thesis
    proof cases
      case 1
      have "\<forall>i<?mid + 1. cmp (xs ! i) x < 0"
        using sorted_below [OF assms(1) _ _ assms(2) 1] mid less.prems by auto
      then show ?thesis
        using 1 True less.hyps [of hi "?mid + 1"] less.prems mid unfolding eq by (simp add: Let_def)
    next
      case 2
      with True mid less.prems show ?thesis unfolding eq by (simp add: Let_def)
    next
      case 3
      have "\<forall>i. ?mid \<le> i \<and> i < n \<longrightarrow> 0 < cmp (xs ! i) x"
        using sorted_above [OF assms(1) _ _ assms(2) 3(1)] by auto
      then show ?thesis
        using 3 True less.hyps [of ?mid lo] less.prems mid unfolding eq by (simp add: Let_def)
    qed
  qed
qed

lemma bsearch_loop:
  assumes "sorted_cmp cmp (take n xs)" "n \<le> length xs" "l \<le> u" "u \<le> n"
    "\<forall>i<l. cmp (xs ! i) x < 0" "\<forall>i. u \<le> i \<and> i < n \<longrightarrow> 0 < cmp (xs ! i) x"
  shows "case bsearch cmp x xs l u of
      Some i \<Rightarrow> i < n \<and> cmp (xs ! i) x = 0
    | None \<Rightarrow> (\<forall>i<n. cmp (xs ! i) x \<noteq> 0)"
  using assms(3-6)
proof (induction "u - l" arbitrary: l u rule: less_induct)
  case less
  have eq: "bsearch cmp x xs l u =
    (if l < u then
       let idx = (l + u) div 2; c = cmp x (xs ! idx)
       in if c < 0 then bsearch cmp x xs l idx
          else if 0 < c then bsearch cmp x xs (idx + 1) u else Some idx
     else None)"
    by (rule bsearch.simps)
  show ?case
  proof (cases "l < u")
    case False
    have "cmp (xs ! i) x \<noteq> 0" if "i < n" for i
    proof (cases "i < l")
      case True
      then show ?thesis using less.prems(3) by auto
    next
      case nl: False
      then have "0 < cmp (xs ! i) x" using less.prems(4) False that by auto
      then show ?thesis by simp
    qed
    with False show ?thesis unfolding eq by simp
  next
    case True
    let ?idx = "(l + u) div 2"
    have idx: "l \<le> ?idx" "?idx < u" using True by auto
    consider "cmp x (xs ! ?idx) < 0" | "cmp x (xs ! ?idx) = 0"
      | "0 < cmp x (xs ! ?idx)" "\<not> cmp x (xs ! ?idx) < 0" by linarith
    then show ?thesis
    proof cases
      case 1
      then have "0 < cmp (xs ! ?idx) x" using cmp_flip [of "xs ! ?idx" x] by simp
      then have "\<forall>i. ?idx \<le> i \<and> i < n \<longrightarrow> 0 < cmp (xs ! i) x"
        using sorted_above [OF assms(1) _ _ assms(2)] by blast
      then show ?thesis
        using 1 True less.hyps [of ?idx l] less.prems idx unfolding eq by (simp add: Let_def)
    next
      case 2
      then have "cmp (xs ! ?idx) x = 0" using cmp_eq_sym [of "xs ! ?idx" x] by simp
      with 2 True idx less.prems show ?thesis unfolding eq by (simp add: Let_def)
    next
      case 3
      then have "cmp (xs ! ?idx) x < 0" using cmp_flip [of x "xs ! ?idx"] by simp
      then have "\<forall>i<?idx + 1. cmp (xs ! i) x < 0"
        using sorted_below [OF assms(1) _ _ assms(2), of _ ?idx] idx less.prems(2) by (simp add: less_Suc_eq_le)
      then show ?thesis
        using 3 True less.hyps [of u "?idx + 1"] less.prems idx unfolding eq by (simp add: Let_def)
    qed
  qed
qed

lemma vector_nearestindex:
  assumes "vec_inv v" "sorted_cmp cmp (vec_list v)"
  shows "let r = vector_nearestindex cmp v x in
    r \<le> v_num v \<and> (r < v_num v \<and> cmp (vec_list v ! r) x = 0 \<or>
      (\<forall>i<r. cmp (vec_list v ! i) x < 0) \<and> (\<forall>i. r \<le> i \<and> i < v_num v \<longrightarrow> 0 < cmp (vec_list v ! i) x))"
  using nearestindex_loop [of "v_num v" "v_values v" 0 "v_num v" x] assms
  by (auto simp: vector_nearestindex_def vec_inv_def vec_list_def Let_def)

lemma vector_bsearch:
  assumes "vec_inv v" "sorted_cmp cmp (vec_list v)"
  shows "vector_bsearch cmp v x = -1 \<and> (\<forall>y \<in> set (vec_list v). cmp y x \<noteq> 0) \<or>
    (\<exists>i < v_num v. vector_bsearch cmp v x = int i \<and> cmp (vec_list v ! i) x = 0)"
proof (cases "v_num v = 0")
  case True
  then show ?thesis by (simp add: vector_bsearch_def vec_list_def)
next
  case False
  have "case bsearch cmp x (v_values v) 0 (v_num v) of
      Some i \<Rightarrow> i < v_num v \<and> cmp (v_values v ! i) x = 0
    | None \<Rightarrow> (\<forall>i<v_num v. cmp (v_values v ! i) x \<noteq> 0)"
    using assms by (intro bsearch_loop) (auto simp: vec_inv_def vec_list_def)
  with False assms show ?thesis
    by (auto simp: vector_bsearch_def in_set_conv_nth nth_vec_list split: option.splits)
qed

end

section \<open>Set difference\<close>

text \<open>The merge the loop performs: an element of the right list deletes one element of the left.\<close>

fun diff_list :: "('a \<Rightarrow> 'a \<Rightarrow> int) \<Rightarrow> 'a list \<Rightarrow> 'a list \<Rightarrow> 'a list" where
  "diff_list cmp [] ys = []"
| "diff_list cmp xs [] = xs"
| "diff_list cmp (x # xs) (y # ys) =
    (if cmp x y < 0 then x # diff_list cmp xs (y # ys)
     else if 0 < cmp x y then diff_list cmp (x # xs) ys
     else diff_list cmp xs ys)"

lemma diff_list_Nil [simp]: "diff_list cmp xs [] = xs"
  by (cases xs) auto

lemma set_diff_list: "set (diff_list cmp xs ys) \<subseteq> set xs"
  by (induction cmp xs ys rule: diff_list.induct) auto

text \<open>What the loop has kept so far: the compacted prefix and the block not moved yet.\<close>

definition setdiff_kept :: "'a list \<Rightarrow> setdiff_state \<Rightarrow> 'a list" where
  "setdiff_kept xs s =
    (if deleted s = 0 then take (left_index s) xs
     else take (block_start s - deleted s) xs @
       take (left_index s - block_start s) (drop (block_start s) xs))"

definition setdiff_ok :: "nat \<Rightarrow> setdiff_state \<Rightarrow> bool" where
  "setdiff_ok n s \<longleftrightarrow> left_index s \<le> n \<and>
    (0 < deleted s \<longrightarrow> deleted s \<le> block_start s \<and> block_start s \<le> left_index s)"

lemma setdiff_kept_next:
  assumes "setdiff_ok n s" "left_index s < n" "n \<le> length xs"
  shows "setdiff_kept xs (s\<lparr>left_index := left_index s + 1\<rparr>) = setdiff_kept xs s @ [xs ! left_index s]"
proof (cases "deleted s = 0")
  case True
  then show ?thesis using assms by (simp add: setdiff_kept_def take_Suc_conv_app_nth)
next
  case False
  then have b: "block_start s \<le> left_index s" using assms(1) by (simp add: setdiff_ok_def)
  have "take (Suc (left_index s) - block_start s) (drop (block_start s) xs) =
    take (left_index s - block_start s) (drop (block_start s) xs) @ [xs ! left_index s]"
    using b assms by (simp add: Suc_diff_le take_Suc_conv_app_nth)
  then show ?thesis using False by (simp add: setdiff_kept_def)
qed

text \<open>A deletion moves the pending block; cells from the current one on are untouched.\<close>

lemma setdiff_delete_step:
  fixes ri :: nat
  assumes ok: "setdiff_ok n s" and li: "left_index s < n" and n: "n \<le> length xs"
  defines "s' \<equiv> s\<lparr>left_index := left_index s + 1, right_index := ri, deleted := deleted s + 1,
      block_start := left_index s + 1\<rparr>"
    and "xs' \<equiv> (if 0 < deleted s
      then memmove_cells (block_start s - deleted s) (block_start s) (left_index s - block_start s) xs
      else xs)"
  shows "setdiff_ok n s'" "setdiff_kept xs' s' = setdiff_kept xs s"
    "drop (left_index s') xs' = drop (left_index s') xs" "length xs' = length xs"
proof -
  show "setdiff_ok n s'"
    using ok li by (auto simp: setdiff_ok_def s'_def)
  show len: "length xs' = length xs"
    using ok li n by (auto simp: xs'_def setdiff_ok_def)
  show "drop (left_index s') xs' = drop (left_index s') xs"
  proof (rule nth_equalityI)
    fix i assume "i < length (drop (left_index s') xs')"
    then have "left_index s + 1 + i < length xs" using len by (simp add: s'_def)
    then show "drop (left_index s') xs' ! i = drop (left_index s') xs ! i"
      using ok li n by (auto simp: s'_def xs'_def setdiff_ok_def nth_memmove_cells)
  qed (simp add: len)
  show "setdiff_kept xs' s' = setdiff_kept xs s"
  proof (cases "deleted s = 0")
    case True
    then show ?thesis by (simp add: setdiff_kept_def s'_def xs'_def)
  next
    case False
    define d b l where "d = deleted s" and "b = block_start s" and "l = left_index s"
    have o: "d \<le> b" "b \<le> l" "l < length xs" using False ok li n by (auto simp: setdiff_ok_def d_def b_def l_def)
    have "take (l - d) xs' = take (b - d) xs @ take (l - b) (drop b xs)"
      using o False unfolding xs'_def memmove_cells_def d_def [symmetric] b_def [symmetric] l_def [symmetric]
      by (simp add: d_def)
    then show ?thesis using False by (simp add: setdiff_kept_def s'_def d_def b_def l_def)
  qed
qed

lemma setdiff_loop:
  assumes "setdiff_ok n s" "right_index s \<le> m" "m \<le> length rvals" "n \<le> length xs"
  shows "case setdiff_loop cmp m rvals n xs s of (ys, s') \<Rightarrow>
    length ys = length xs \<and> setdiff_ok n s' \<and>
    setdiff_kept ys s' @ drop (left_index s') (take n ys) =
      setdiff_kept xs s @ diff_list cmp (drop (left_index s) (take n xs)) (drop (right_index s) (take m rvals))"
  using assms
proof (induction "(n - left_index s) + (m - right_index s)" arbitrary: xs s rule: less_induct)
  case less
  show ?case
  proof (cases "left_index s < n \<and> right_index s < m")
    case False
    then have "diff_list cmp (drop (left_index s) (take n xs)) (drop (right_index s) (take m rvals)) =
      drop (left_index s) (take n xs)"
      using less.prems by auto
    moreover have "setdiff_loop cmp m rvals n xs s = (xs, s)"
      using False by (subst setdiff_loop.simps) (simp only: if_False)
    ultimately show ?thesis using less.prems by (simp del: drop_take)
  next
    case True
    let ?x = "xs ! left_index s" and ?y = "rvals ! right_index s"
    have l: "drop (left_index s) (take n xs) = ?x # drop (left_index s + 1) (take n xs)"
      and r: "drop (right_index s) (take m rvals) = ?y # drop (right_index s + 1) (take m rvals)"
      using True less.prems by (simp_all add: nth_eq_drop_Cons)
    consider "cmp ?x ?y < 0" | "cmp ?x ?y = 0" | "0 < cmp ?x ?y" "\<not> cmp ?x ?y < 0" "cmp ?x ?y \<noteq> 0" by linarith
    then show ?thesis
    proof cases
      case c: 1
      let ?s = "s\<lparr>left_index := left_index s + 1\<rparr>"
      have dec: "(n - left_index ?s) + (m - right_index ?s) < (n - left_index s) + (m - right_index s)"
        using True by auto
      have "setdiff_loop cmp m rvals n xs s = setdiff_loop cmp m rvals n xs ?s"
        using True c by (subst setdiff_loop.simps) (simp add: Let_def)
      moreover have "setdiff_ok n ?s" using True less.prems by (auto simp: setdiff_ok_def)
      moreover have "diff_list cmp (drop (left_index s) (take n xs)) (drop (right_index s) (take m rvals)) =
        ?x # diff_list cmp (drop (left_index s + 1) (take n xs)) (drop (right_index s) (take m rvals))"
        unfolding l r using c by simp
      ultimately show ?thesis
        using less.hyps [OF dec, of xs] True less.prems setdiff_kept_next [of n s xs] by (simp del: drop_take)
    next
      case c: 3
      let ?s = "s\<lparr>right_index := right_index s + 1\<rparr>"
      have dec: "(n - left_index ?s) + (m - right_index ?s) < (n - left_index s) + (m - right_index s)"
        using True by auto
      have "setdiff_loop cmp m rvals n xs s = setdiff_loop cmp m rvals n xs ?s"
        using True c by (subst setdiff_loop.simps) (simp add: Let_def)
      moreover have "setdiff_ok n ?s" "setdiff_kept xs ?s = setdiff_kept xs s"
        using less.prems by (auto simp: setdiff_ok_def setdiff_kept_def)
      moreover have "diff_list cmp (drop (left_index s) (take n xs)) (drop (right_index s) (take m rvals)) =
        diff_list cmp (drop (left_index s) (take n xs)) (drop (right_index s + 1) (take m rvals))"
        unfolding l r using c by simp
      ultimately show ?thesis
        using less.hyps [OF dec, of xs] True less.prems by (simp del: drop_take)
    next
      case c: 2
      define s' where "s' = s\<lparr>left_index := left_index s + 1, right_index := right_index s + 1,
        deleted := deleted s + 1, block_start := left_index s + 1\<rparr>"
      define xs' where "xs' = (if 0 < deleted s
        then memmove_cells (block_start s - deleted s) (block_start s) (left_index s - block_start s) xs
        else xs)"
      have d: "setdiff_ok n s'" "setdiff_kept xs' s' = setdiff_kept xs s"
        "drop (left_index s') xs' = drop (left_index s') xs" "length xs' = length xs"
        unfolding s'_def xs'_def using True less.prems by (intro setdiff_delete_step; simp)+
      have "drop (left_index s') (take n xs') = drop (left_index s') (take n xs)"
        using d(3) by (simp add: drop_take)
      moreover have "setdiff_loop cmp m rvals n xs s = setdiff_loop cmp m rvals n xs' s'"
        using True c less.prems unfolding s'_def xs'_def setdiff_ok_def
        by (subst setdiff_loop.simps) (auto simp: Let_def Suc_diff_le)
      moreover have "diff_list cmp (drop (left_index s) (take n xs)) (drop (right_index s) (take m rvals)) =
        diff_list cmp (drop (left_index s') (take n xs)) (drop (right_index s') (take m rvals))"
        unfolding l r using c by (simp add: s'_def)
      moreover have "left_index s' = left_index s + 1" "right_index s' = right_index s + 1"
        by (simp_all add: s'_def)
      moreover from this True have dec:
        "(n - left_index s') + (m - right_index s') < (n - left_index s) + (m - right_index s)" by auto
      ultimately show ?thesis
        using less.hyps [OF dec, of xs'] True less.prems d by (simp del: drop_take)
    qed
  qed
qed

lemma vector_setdiff:
  assumes "vec_inv left" "vec_inv right"
  shows "vec_inv (vector_setdiff uninit cmp left right) \<and>
    vec_list (vector_setdiff uninit cmp left right) = diff_list cmp (vec_list left) (vec_list right)"
proof -
  let ?s0 = "\<lparr>block_start = uninit, deleted = 0, left_index = 0, right_index = 0\<rparr>"
  let ?n = "v_num left"
  obtain xs s where l: "setdiff_loop cmp (v_num right) (v_values right) ?n (v_values left) ?s0 = (xs, s)"
    by force
  have len: "?n \<le> length (v_values left)" "v_num right \<le> length (v_values right)"
    using assms by (auto simp: vec_inv_def)
  have r: "length xs = length (v_values left)" "setdiff_ok ?n s"
    "setdiff_kept xs s @ drop (left_index s) (take ?n xs) = diff_list cmp (vec_list left) (vec_list right)"
    using setdiff_loop [of ?n ?s0 "v_num right" "v_values right" "v_values left" cmp] l len
    by (auto simp: setdiff_ok_def setdiff_kept_def vec_list_def)
  show ?thesis
  proof (cases "deleted s = 0")
    case True
    then have "setdiff_kept xs s @ drop (left_index s) (take ?n xs) = take ?n xs"
      using r(2) by (simp add: setdiff_kept_def setdiff_ok_def) (metis add_diff_inverse_nat not_less take_add drop_take)
    with True r l assms show ?thesis
      by (simp add: vector_setdiff_def vec_inv_def vec_list_def)
  next
    case False
    define d b li where "d = deleted s" and "b = block_start s" and "li = left_index s"
    have o: "0 < d" "d \<le> b" "b \<le> li" "li \<le> ?n" "?n \<le> length xs"
      using False r len by (auto simp: setdiff_ok_def d_def b_def li_def)
    let ?ys = "memmove_cells (b - d) b (?n - b) xs"
    have "take (?n - d) ?ys = take (b - d) xs @ take (?n - b) (drop b xs)"
      using o unfolding memmove_cells_def by simp
    also have "take (?n - b) (drop b xs) = take (li - b) (drop b xs) @ drop li (take ?n xs)"
    proof -
      have "take ((li - b) + (?n - li)) (drop b xs) =
        take (li - b) (drop b xs) @ take (?n - li) (drop (li - b) (drop b xs))"
        by (rule take_add)
      then show ?thesis using o by (simp add: drop_take)
    qed
    also have "take (b - d) xs @ take (li - b) (drop b xs) @ drop li (take ?n xs) =
        diff_list cmp (vec_list left) (vec_list right)"
      using r(3) False by (simp add: setdiff_kept_def d_def b_def li_def)
    finally have "take (?n - d) ?ys = diff_list cmp (vec_list left) (vec_list right)" .
    moreover have "length ?ys = length xs" using o by (intro length_memmove_cells) auto
    ultimately show ?thesis
      using False l r assms by (auto simp: vector_setdiff_def vec_inv_def vec_list_def d_def b_def)
  qed
qed

context key_compare_func
begin

text \<open>On ascending vectors of keys the result is the multiset difference, still ascending.\<close>

lemma diff_list_sorted:
  "sorted_cmp cmp xs \<Longrightarrow> sorted_cmp cmp ys \<Longrightarrow>
    mset (diff_list cmp xs ys) = mset xs - mset ys \<and> sorted_cmp cmp (diff_list cmp xs ys)"
proof (induction xs arbitrary: ys)
  case Nil
  then show ?case by simp
next
  case (Cons x xs)
  note outer = Cons.IH
  show ?case using Cons.prems
  proof (induction ys)
    case Nil
    then show ?case by simp
  next
    case (Cons y ys)
    consider "cmp x y < 0" | "cmp x y = 0" | "0 < cmp x y" "\<not> cmp x y < 0" by linarith
    then show ?case
    proof cases
      case 1
      then have "\<forall>z \<in> set (y # ys). cmp x z < 0"
        using Cons.prems cmp_less_le_trans by auto
      then have "x \<notin># mset (y # ys)" using cmp_refl by fastforce
      then have "mset (x # xs) - mset (y # ys) = add_mset x (mset xs - mset (y # ys))"
        unfolding mset.simps(2) [of x] by (rule diff_add_mset_swap)
      with 1 Cons.prems outer [of "y # ys"] set_diff_list [of cmp xs "y # ys"] show ?thesis by auto
    next
      case 2
      with Cons.prems outer [of ys] cmp_eq [of x y] show ?thesis by simp
    next
      case c: 3
      then have "cmp y x < 0" using cmp_flip by blast
      then have "\<forall>z \<in> set (x # xs). cmp y z < 0"
        using Cons.prems cmp_less_le_trans by auto
      then have "y \<notin># mset (x # xs)" using cmp_refl by fastforce
      then have "mset (x # xs) - mset (y # ys) = mset (x # xs) - mset ys"
        unfolding mset.simps(2) [of y] by (rule minus_add_mset_if_not_in_lhs)
      with c Cons show ?thesis by simp
    qed
  qed
qed

lemma vector_setdiff_sorted:
  assumes "vec_inv left" "vec_inv right"
    and "sorted_cmp cmp (vec_list left)" "sorted_cmp cmp (vec_list right)"
  shows "vec_inv (vector_setdiff uninit cmp left right) \<and>
    mset (vec_list (vector_setdiff uninit cmp left right)) = mset (vec_list left) - mset (vec_list right) \<and>
    sorted_cmp cmp (vec_list (vector_setdiff uninit cmp left right))"
  using vector_setdiff [OF assms(1,2), of uninit cmp] diff_list_sorted [OF assms(3,4)] by simp

end

section \<open>Properties\<close>

text \<open>Sorting a vector of \<open>uint64\<close> and removing its repetitions leaves exactly the set of its
  elements, each once, in strictly ascending order.\<close>

theorem vector_uint64_sort_uniq:
  fixes v :: "u64 zbx_vector"
  assumes "vec_inv v"
  defines "w \<equiv> vector_uniq zbx_default_uint64_compare_func
    (vector_sort zbx_default_uint64_compare_func v)"
  shows "vec_inv w \<and> set (vec_list w) = set (vec_list v) \<and> distinct (vec_list w) \<and>
    sorted_wrt (<) (vec_list w)"
proof -
  have "vec_inv w \<and> strict_sorted_cmp zbx_default_uint64_compare_func (vec_list w) \<and>
    distinct (vec_list w) \<and> set (vec_list w) = set (vec_list v)"
    unfolding w_def by (rule uint64_compare.vector_sort_uniq [OF assms(1)])
  moreover have "(zbx_default_uint64_compare_func x y < 0) = (x < y)" for x y
    by (simp add: zbx_default_uint64_compare_func_def ZBX_RETURN_IF_NOT_EQUAL_def)
  ultimately show ?thesis by (simp add: strict_sorted_cmp_def)
qed

theorem vector_uint64_sort_uniq_witness:
  "set (vec_list (vector_uniq zbx_default_uint64_compare_func
     (vector_sort zbx_default_uint64_compare_func
       \<lparr>v_values = [5, 3, 5, 0 :: u64], v_num = 3, v_alloc = 4\<rparr>))) = {3, 5}"
  using vector_uint64_sort_uniq [of "\<lparr>v_values = [5, 3, 5, 0], v_num = 3, v_alloc = 4\<rparr>"]
  by (auto simp: vec_inv_def vec_list_def)

text \<open>On an ascending vector \<open>bsearch\<close> finds the position of the value exactly when the vector
  holds it, and \<open>nearestindex\<close> gives the position of the value or else the position that keeps the
  vector ascending when the value is inserted there.\<close>

theorem vector_uint64_search:
  fixes v :: "u64 zbx_vector" and x :: u64
  assumes "vec_inv v" "sorted_cmp zbx_default_uint64_compare_func (vec_list v)"
  defines "r \<equiv> vector_nearestindex zbx_default_uint64_compare_func v x"
  shows "(if x \<in> set (vec_list v)
       then (\<exists>i < v_num v. vector_bsearch zbx_default_uint64_compare_func v x = int i \<and> vec_list v ! i = x)
       else vector_bsearch zbx_default_uint64_compare_func v x = -1) \<and>
    r \<le> v_num v \<and>
    (r < v_num v \<and> vec_list v ! r = x \<or>
     (\<forall>i<r. vec_list v ! i < x) \<and> (\<forall>i. r \<le> i \<and> i < v_num v \<longrightarrow> x < vec_list v ! i))"
proof -
  have c: "zbx_default_uint64_compare_func a b < 0 \<longleftrightarrow> a < b"
    "0 < zbx_default_uint64_compare_func a b \<longleftrightarrow> b < a"
    "zbx_default_uint64_compare_func a b = 0 \<longleftrightarrow> a = b" for a b
    by (auto simp: zbx_default_uint64_compare_func_def ZBX_RETURN_IF_NOT_EQUAL_def)
  have "vector_bsearch zbx_default_uint64_compare_func v x = -1 \<and> x \<notin> set (vec_list v) \<or>
    (\<exists>i < v_num v. vector_bsearch zbx_default_uint64_compare_func v x = int i \<and> vec_list v ! i = x)"
    using uint64_compare.vector_bsearch [OF assms(1,2), of x] unfolding c by auto
  moreover have "i < v_num v \<Longrightarrow> vec_list v ! i \<in> set (vec_list v)" for i
    using assms(1) by simp
  ultimately show ?thesis
    using uint64_compare.vector_nearestindex [OF assms(1,2), of x] unfolding c r_def Let_def by auto
qed

theorem vector_uint64_search_witness:
  "vector_bsearch zbx_default_uint64_compare_func
     \<lparr>v_values = [2, 4, 6 :: u64], v_num = 3, v_alloc = 3\<rparr> 5 = -1"
  using vector_uint64_search [of "\<lparr>v_values = [2, 4, 6], v_num = 3, v_alloc = 3\<rparr>" 5]
  by (simp add: vec_inv_def vec_list_def zbx_default_uint64_compare_func_def ZBX_RETURN_IF_NOT_EQUAL_def)

text \<open>The in-place set difference of two ascending \<open>uint64\<close> vectors removes from the left one
  exactly the elements of the right one, as multisets, whatever the uninitialised variable
  \<open>block_start\<close> holds at the start, and keeps the rest in ascending order.\<close>

theorem vector_uint64_setdiff:
  fixes left right :: "u64 zbx_vector" and uninit :: nat
  assumes "vec_inv left" "vec_inv right"
    and "sorted_cmp zbx_default_uint64_compare_func (vec_list left)"
    and "sorted_cmp zbx_default_uint64_compare_func (vec_list right)"
  defines "w \<equiv> vector_setdiff uninit zbx_default_uint64_compare_func left right"
  shows "vec_inv w \<and> mset (vec_list w) = mset (vec_list left) - mset (vec_list right) \<and>
    sorted_cmp zbx_default_uint64_compare_func (vec_list w)"
  unfolding w_def by (rule uint64_compare.vector_setdiff_sorted [OF assms(1-4)])

theorem vector_uint64_setdiff_witness:
  "mset (vec_list (vector_setdiff 7 zbx_default_uint64_compare_func
     \<lparr>v_values = [1, 2, 3, 4 :: u64], v_num = 4, v_alloc = 4\<rparr>
     \<lparr>v_values = [2, 3], v_num = 2, v_alloc = 2\<rparr>)) = {#1, 4#}"
  using vector_uint64_setdiff [of "\<lparr>v_values = [1, 2, 3, 4], v_num = 4, v_alloc = 4\<rparr>"
      "\<lparr>v_values = [2, 3], v_num = 2, v_alloc = 2\<rparr>" 7]
  by (simp add: vec_inv_def vec_list_def zbx_default_uint64_compare_func_def ZBX_RETURN_IF_NOT_EQUAL_def)

end
