(* ===== verification/Fifo.thy ===== *)
theory Fifo
  imports Prelude
begin

text \<open>
  The interface of the first-in first-out containers: the circular buffer \<open>zbx_queue_ptr_t\<close> and
  the linked list \<open>zbx_list_t\<close> are both used as queues, through a push at one end and a pop at
  the other. A client sees the outputs of a sequence of operations only.
\<close>

datatype 'a fifo_op = Push 'a | Pop

fun fifo_run :: "('a \<Rightarrow> 'q \<Rightarrow> 'q) \<Rightarrow> ('q \<Rightarrow> 'a option \<times> 'q) \<Rightarrow> 'a fifo_op list \<Rightarrow> 'q \<Rightarrow>
    'a option list \<times> 'q" where
  "fifo_run push pop [] q = ([], q)"
| "fifo_run push pop (Push x # ops) q = fifo_run push pop ops (push x q)"
| "fifo_run push pop (Pop # ops) q =
    (case pop q of (r, q1) \<Rightarrow> case fifo_run push pop ops q1 of (rs, q2) \<Rightarrow> (r # rs, q2))"

text \<open>The specification of the operations, on lists.\<close>

definition spec_push :: "'a \<Rightarrow> 'a list \<Rightarrow> 'a list" where
  "spec_push x xs = xs @ [x]"

fun spec_pop :: "'a list \<Rightarrow> 'a option \<times> 'a list" where
  "spec_pop [] = (None, [])"
| "spec_pop (x # xs) = (Some x, xs)"

locale fifo =
  fixes inv :: "'q \<Rightarrow> bool"
    and contents :: "'q \<Rightarrow> 'a list"
    and push :: "'a \<Rightarrow> 'q \<Rightarrow> 'q"
    and pop :: "'q \<Rightarrow> 'a option \<times> 'q"
  assumes push_inv: "inv q \<Longrightarrow> inv (push x q)"
    and push_contents: "inv q \<Longrightarrow> contents (push x q) = spec_push x (contents q)"
    and pop_inv: "inv q \<Longrightarrow> inv (snd (pop q))"
    and pop_result: "inv q \<Longrightarrow> fst (pop q) = fst (spec_pop (contents q))"
    and pop_contents: "inv q \<Longrightarrow> contents (snd (pop q)) = snd (spec_pop (contents q))"
begin

text \<open>Every sequence of operations gives the outputs of the specification.\<close>

lemma run_refines:
  "inv q \<Longrightarrow>
    fst (fifo_run push pop ops q) = fst (fifo_run spec_push spec_pop ops (contents q)) \<and>
    contents (snd (fifo_run push pop ops q)) = snd (fifo_run spec_push spec_pop ops (contents q)) \<and>
    inv (snd (fifo_run push pop ops q))"
proof (induction ops arbitrary: q)
  case Nil
  then show ?case by simp
next
  case (Cons a ops)
  show ?case
  proof (cases a)
    case (Push x)
    then show ?thesis using Cons.IH [of "push x q"] Cons.prems push_inv push_contents by simp
  next
    case Pop
    obtain r q' where p: "pop q = (r, q')" by force
    then show ?thesis
      using Pop Cons.IH [of q'] Cons.prems pop_inv [of q] pop_result [of q] pop_contents [of q]
      by (auto split: prod.splits)
  qed
qed

text \<open>Pushing a list and popping as often gives the list back.\<close>

lemma spec_push_all: "snd (fifo_run spec_push spec_pop (map Push xs) ys) = ys @ xs"
  by (induction xs arbitrary: ys) (auto simp: spec_push_def)

lemma spec_pop_all: "fst (fifo_run spec_push spec_pop (replicate (length ys) Pop) (ys @ zs)) = map Some ys"
  by (induction ys) (auto split: prod.splits)

end

end
