(* ===== verification/Queue.thy ===== *)
theory Queue
  imports Fifo
begin

text \<open>
  The queue of pointers over a circular buffer (\<open>src/libs/zbxalgo/queue.c\<close>). One cell is always
  left free: the queue is empty when the head and tail positions meet. Positions and sizes are
  natural numbers: the model assumes that the sizes fit an \<open>int\<close>.
\<close>

section \<open>State\<close>

record 'a zbx_queue_ptr =
  q_values :: "'a list"
  q_alloc :: nat
  q_head :: nat
  q_tail :: nat

definition queue_inv :: "'a zbx_queue_ptr \<Rightarrow> bool" where
  "queue_inv q \<longleftrightarrow> length (q_values q) = q_alloc q \<and>
    (q_alloc q = 0 \<and> q_head q = 0 \<and> q_tail q = 0 \<or> q_head q < q_alloc q \<and> q_tail q < q_alloc q)"

text \<open>The elements from the tail to the head, around the end of the buffer.\<close>

definition queue_list :: "'a zbx_queue_ptr \<Rightarrow> 'a list" where
  "queue_list q =
    (if q_tail q \<le> q_head q then take (q_head q - q_tail q) (drop (q_tail q) (q_values q))
     else drop (q_tail q) (q_values q) @ take (q_head q) (q_values q))"

section \<open>Operations\<close>

definition zbx_queue_ptr_values_num :: "'a zbx_queue_ptr \<Rightarrow> nat" where
  "zbx_queue_ptr_values_num q =
    (let values_num = int (q_head q) - int (q_tail q)
     in nat (if 0 > values_num then values_num + int (q_alloc q) else values_num))"

definition zbx_queue_ptr_empty :: "'a zbx_queue_ptr \<Rightarrow> ret" where
  "zbx_queue_ptr_empty q = (if q_head q = q_tail q then SUCCEED else FAIL)"

definition zbx_queue_ptr_reserve :: "'a \<Rightarrow> 'a zbx_queue_ptr \<Rightarrow> nat \<Rightarrow> 'a zbx_queue_ptr" where
  "zbx_queue_ptr_reserve junk q num =
    (let values_num = zbx_queue_ptr_values_num q
     in if values_num + num + 1 \<le> q_alloc q then q
        else
          let alloc_num = max (q_alloc q + num + 1) (q_alloc q * 3 div 2);
              vals = realloc_cells junk alloc_num (q_values q)
          in if q_tail q > q_head q then
               let resize_num = alloc_num - q_alloc q
               in q\<lparr>q_values := memmove_cells (q_tail q + resize_num) (q_tail q) (q_alloc q - q_tail q) vals,
                    q_tail := q_tail q + resize_num, q_alloc := alloc_num\<rparr>
             else q\<lparr>q_values := vals, q_alloc := alloc_num\<rparr>)"

definition zbx_queue_ptr_compact :: "'a \<Rightarrow> 'a zbx_queue_ptr \<Rightarrow> 'a zbx_queue_ptr" where
  "zbx_queue_ptr_compact junk q =
    (let values_num = zbx_queue_ptr_values_num q; alloc_num = values_num + 1
     in if alloc_num = q_alloc q then q
        else
          let q1 = (if 0 \<noteq> q_tail q then
                      if q_tail q > q_head q then
                        q\<lparr>q_values := memmove_cells (q_head q + 1) (q_tail q) (q_alloc q - q_tail q) (q_values q),
                          q_tail := q_head q + 1\<rparr>
                      else
                        q\<lparr>q_values := memmove_cells 0 (q_tail q) values_num (q_values q),
                          q_tail := 0, q_head := values_num\<rparr>
                    else q)
          in q1\<lparr>q_values := realloc_cells junk alloc_num (q_values q1), q_alloc := alloc_num\<rparr>)"

definition zbx_queue_ptr_create :: "'a zbx_queue_ptr" where
  "zbx_queue_ptr_create = \<lparr>q_values = [], q_alloc = 0, q_head = 0, q_tail = 0\<rparr>"

definition zbx_queue_ptr_push :: "'a \<Rightarrow> 'a \<Rightarrow> 'a zbx_queue_ptr \<Rightarrow> 'a zbx_queue_ptr" where
  "zbx_queue_ptr_push junk x q =
    (let q1 = zbx_queue_ptr_reserve junk q 1;
         q2 = q1\<lparr>q_values := (q_values q1)[q_head q1 := x], q_head := q_head q1 + 1\<rparr>
     in if q_head q2 = q_alloc q2 then q2\<lparr>q_head := 0\<rparr> else q2)"

text \<open>\<open>pop\<close> returns the NULL pointer (\<open>None\<close>) from an empty queue.\<close>

definition zbx_queue_ptr_pop :: "'a zbx_queue_ptr \<Rightarrow> 'a option \<times> 'a zbx_queue_ptr" where
  "zbx_queue_ptr_pop q =
    (if q_tail q \<noteq> q_head q then
       let x = q_values q ! q_tail q;
           q1 = q\<lparr>q_tail := q_tail q + 1\<rparr>;
           q2 = (if q_tail q1 = q_alloc q1 then q1\<lparr>q_tail := 0\<rparr> else q1);
           q3 = (if q_head q2 = q_alloc q2 then q2\<lparr>q_head := 0\<rparr> else q2)
       in (Some x, q3)
     else (None, q))"

text \<open>The loops of \<open>zbx_queue_ptr_remove_value\<close>: the two searches and the two shifts.\<close>

function queue_find_up :: "'a \<Rightarrow> 'a list \<Rightarrow> nat \<Rightarrow> nat \<Rightarrow> nat option" where
  "queue_find_up x xs i head =
    (if i < head then if xs ! i = x then Some i else queue_find_up x xs (i + 1) head else None)"
  by pat_completeness auto
termination by (relation "measure (\<lambda>(x, xs, i, head). head - i)") auto

function queue_shift_left :: "'a list \<Rightarrow> nat \<Rightarrow> nat \<Rightarrow> 'a list" where
  "queue_shift_left xs i head =
    (if i < head - 1 then queue_shift_left (xs[i := xs ! (i + 1)]) (i + 1) head else xs)"
  by pat_completeness auto
termination by (relation "measure (\<lambda>(xs, i, head). head - i)") auto

text \<open>The downward search; \<open>n\<close> is the loop variable plus one.\<close>

function queue_find_down :: "'a \<Rightarrow> 'a list \<Rightarrow> nat \<Rightarrow> nat \<Rightarrow> nat option" where
  "queue_find_down x xs n tail =
    (if n > tail then if xs ! (n - 1) = x then Some (n - 1) else queue_find_down x xs (n - 1) tail
     else None)"
  by pat_completeness auto
termination by (relation "measure (\<lambda>(x, xs, n, tail). n)") auto

function queue_shift_right :: "'a list \<Rightarrow> nat \<Rightarrow> nat \<Rightarrow> 'a list" where
  "queue_shift_right xs i tail =
    (if i > tail then queue_shift_right (xs[i := xs ! (i - 1)]) (i - 1) tail else xs)"
  by pat_completeness auto
termination by (relation "measure (\<lambda>(xs, i, tail). i)") auto

declare queue_find_up.simps [simp del] queue_shift_left.simps [simp del]
  queue_find_down.simps [simp del] queue_shift_right.simps [simp del]

definition zbx_queue_ptr_remove_value :: "'a zbx_queue_ptr \<Rightarrow> 'a \<Rightarrow> 'a zbx_queue_ptr" where
  "zbx_queue_ptr_remove_value q x =
    (if q_tail q = q_head q then q
     else
       let start_pos = (if q_tail q < q_head q then q_tail q else 0)
       in case queue_find_up x (q_values q) start_pos (q_head q) of
            Some i \<Rightarrow> q\<lparr>q_values := queue_shift_left (q_values q) i (q_head q), q_head := q_head q - 1\<rparr>
          | None \<Rightarrow>
              if q_tail q \<le> q_head q then q
              else (case queue_find_down x (q_values q) (q_alloc q) (q_tail q) of
                      Some i \<Rightarrow>
                        let q1 = q\<lparr>q_values := queue_shift_right (q_values q) i (q_tail q),
                                    q_tail := q_tail q + 1\<rparr>
                        in if q_tail q1 = q_alloc q1 then q1\<lparr>q_tail := 0\<rparr> else q1
                    | None \<Rightarrow> q))"

section \<open>Correctness\<close>

lemma queue_values_num: "queue_inv q \<Longrightarrow> zbx_queue_ptr_values_num q = length (queue_list q)"
  by (auto simp: queue_inv_def queue_list_def zbx_queue_ptr_values_num_def Let_def nat_diff_distrib')

lemma queue_create: "queue_inv zbx_queue_ptr_create" "queue_list zbx_queue_ptr_create = []"
  by (simp_all add: queue_inv_def queue_list_def zbx_queue_ptr_create_def)

lemma queue_empty: "queue_inv q \<Longrightarrow> zbx_queue_ptr_empty q = SUCCEED \<longleftrightarrow> queue_list q = []"
  by (auto simp: queue_inv_def queue_list_def zbx_queue_ptr_empty_def)

lemma queue_list_wrapped:
  "q_head q < q_tail q \<Longrightarrow> queue_list q = drop (q_tail q) (q_values q) @ take (q_head q) (q_values q)"
  by (simp add: queue_list_def)

lemma queue_list_straight:
  "q_tail q \<le> q_head q \<Longrightarrow> queue_list q = take (q_head q - q_tail q) (drop (q_tail q) (q_values q))"
  by (simp add: queue_list_def)

lemma queue_length_less: "queue_inv q \<Longrightarrow> 0 < q_alloc q \<Longrightarrow> length (queue_list q) < q_alloc q"
  by (auto simp: queue_inv_def queue_list_def)

lemma queue_reserve:
  assumes inv: "queue_inv q"
  shows "queue_inv (zbx_queue_ptr_reserve junk q num) \<and>
    queue_list (zbx_queue_ptr_reserve junk q num) = queue_list q \<and>
    length (queue_list q) + num + 1 \<le> q_alloc (zbx_queue_ptr_reserve junk q num)"
proof (cases "length (queue_list q) + num + 1 \<le> q_alloc q")
  case True
  with inv show ?thesis by (simp add: zbx_queue_ptr_reserve_def queue_values_num)
next
  case False
  define n where "n = max (q_alloc q + num + 1) (q_alloc q * 3 div 2)"
  define vals where "vals = realloc_cells junk n (q_values q)"
  have n: "q_alloc q + num + 1 \<le> n" and len: "length (q_values q) = q_alloc q" "length vals = n"
    using inv by (auto simp: n_def vals_def queue_inv_def)
  have bound: "length (queue_list q) + num + 1 \<le> n"
    using queue_length_less [OF inv] inv n by (cases "q_alloc q = 0") (auto simp: queue_inv_def queue_list_def)
  show ?thesis
  proof (cases "q_tail q > q_head q")
    case True
    define r where "r = n - q_alloc q"
    let ?q = "q\<lparr>q_values := memmove_cells (q_tail q + r) (q_tail q) (q_alloc q - q_tail q) vals,
                    q_tail := q_tail q + r, q_alloc := n\<rparr>"
    have o: "q_tail q + r + (q_alloc q - q_tail q) = length vals" "q_head q \<le> q_tail q + r"
      "q_tail q + r \<le> length vals" "q_tail q < q_alloc q" "q_head q \<le> q_alloc q"
      using True n inv by (auto simp: r_def len queue_inv_def)
    have "drop (q_tail q + r) (q_values ?q) = take (q_alloc q - q_tail q) (drop (q_tail q) vals)"
      using o by (simp add: drop_memmove_end)
    also have "\<dots> = drop (q_tail q) (q_values q)"
      using drop_realloc_cells_grow [of "q_values q" n "q_tail q" junk] n len by (simp add: vals_def)
    finally have "queue_list ?q = queue_list q"
      using True o n len by (simp add: queue_list_def take_memmove_before vals_def take_realloc_cells)
    moreover have "queue_inv ?q"
      using o len n inv by (auto simp: queue_inv_def)
    moreover have "zbx_queue_ptr_reserve junk q num = ?q"
      using False True inv by (simp add: zbx_queue_ptr_reserve_def queue_values_num Let_def n_def vals_def r_def)
    ultimately show ?thesis using bound by simp
  next
    case straight: False
    let ?q = "q\<lparr>q_values := vals, q_alloc := n\<rparr>"
    have "q_head q \<le> q_alloc q" using inv by (auto simp: queue_inv_def)
    then have "take (q_head q) vals = take (q_head q) (q_values q)"
      using n len by (simp add: vals_def take_realloc_cells)
    then have "queue_list ?q = queue_list q"
      using straight by (simp add: queue_list_def take_drop)
    moreover have "queue_inv ?q"
      using len n inv by (auto simp: queue_inv_def)
    moreover have "zbx_queue_ptr_reserve junk q num = ?q"
      using False straight inv by (simp add: zbx_queue_ptr_reserve_def queue_values_num Let_def n_def vals_def)
    ultimately show ?thesis using bound by simp
  qed
qed

lemma queue_push:
  assumes inv: "queue_inv q"
  shows "queue_inv (zbx_queue_ptr_push junk x q) \<and>
    queue_list (zbx_queue_ptr_push junk x q) = queue_list q @ [x]"
proof -
  define r where "r = zbx_queue_ptr_reserve junk q 1"
  have r: "queue_inv r" "queue_list r = queue_list q" "length (queue_list r) + 2 \<le> q_alloc r"
    using queue_reserve [OF inv, of junk 1] by (auto simp: r_def)
  have len: "length (q_values r) = q_alloc r" "q_head r < q_alloc r" "q_tail r < q_alloc r"
    using r by (auto simp: queue_inv_def)
  let ?q2 = "r\<lparr>q_values := (q_values r)[q_head r := x], q_head := q_head r + 1\<rparr>"
  have p: "zbx_queue_ptr_push junk x q = (if q_head r + 1 = q_alloc r then ?q2\<lparr>q_head := 0\<rparr> else ?q2)"
    by (simp add: zbx_queue_ptr_push_def Let_def r_def)
  show ?thesis
  proof (cases "q_tail r \<le> q_head r")
    case True
    then have l: "queue_list r = take (q_head r - q_tail r) (drop (q_tail r) (q_values r))"
      by (rule queue_list_straight)
    have "take (q_head r + 1) ((q_values r)[q_head r := x]) = take (q_head r) (q_values r) @ [x]"
      using len take_Suc_list_update [of "q_head r" "q_values r" x] by simp
    then have e: "drop (q_tail r) (take (q_head r + 1) ((q_values r)[q_head r := x])) = queue_list r @ [x]"
      using True len unfolding l by (simp add: drop_take)
    show ?thesis
    proof (cases "q_head r + 1 = q_alloc r")
      case wrap: True
      have "0 < q_tail r" using r(3) wrap True l len by (cases "q_tail r") auto
      then have "queue_list (?q2\<lparr>q_head := 0\<rparr>) = queue_list r @ [x]"
        using e wrap len by (simp add: queue_list_def)
      then show ?thesis using wrap len p r(2) by (auto simp: queue_inv_def)
    next
      case False
      have "queue_list ?q2 = queue_list r @ [x]"
        using e True by (simp add: queue_list_def drop_take)
      then show ?thesis using False len p r(2) by (auto simp: queue_inv_def)
    qed
  next
    case False
    then have l: "queue_list r = drop (q_tail r) (q_values r) @ take (q_head r) (q_values r)"
      by (simp add: queue_list_wrapped)
    have h: "q_head r + 1 < q_tail r" using r(3) False len unfolding l by auto
    have "queue_list ?q2 = queue_list r @ [x]"
      using h len take_Suc_list_update [of "q_head r" "q_values r" x] unfolding l
      by (simp add: queue_list_def)
    then show ?thesis using h len p r(2) by (auto simp: queue_inv_def)
  qed
qed

lemma queue_pop:
  assumes inv: "queue_inv q"
  shows "queue_inv (snd (zbx_queue_ptr_pop q)) \<and> fst (zbx_queue_ptr_pop q) = fst (spec_pop (queue_list q)) \<and>
    queue_list (snd (zbx_queue_ptr_pop q)) = snd (spec_pop (queue_list q))"
proof (cases "q_tail q = q_head q")
  case True
  then show ?thesis using inv by (simp add: zbx_queue_ptr_pop_def queue_list_def)
next
  case False
  then have len: "length (q_values q) = q_alloc q" "q_head q < q_alloc q" "q_tail q < q_alloc q"
    using inv by (auto simp: queue_inv_def)
  let ?t = "if q_tail q + 1 = q_alloc q then 0 else q_tail q + 1"
  have p: "zbx_queue_ptr_pop q = (Some (q_values q ! q_tail q), q\<lparr>q_tail := ?t\<rparr>)"
    using False len by (simp add: zbx_queue_ptr_pop_def Let_def)
  have l: "queue_list q = q_values q ! q_tail q # queue_list (q\<lparr>q_tail := ?t\<rparr>)"
  proof (cases "q_tail q < q_head q")
    case True
    then show ?thesis using len by (simp add: queue_list_def nth_eq_drop_Cons [of "q_tail q"] take_Cons' Suc_diff_Suc)
  next
    case nl: False
    with False show ?thesis using len by (auto simp: queue_list_def nth_eq_drop_Cons [of "q_tail q"])
  qed
  show ?thesis using p l len by (auto simp: queue_inv_def)
qed

interpretation queue_fifo: fifo queue_inv queue_list "zbx_queue_ptr_push junk" zbx_queue_ptr_pop for junk
  by unfold_locales (auto simp: queue_push queue_pop spec_push_def)

lemma realloc_cells_shrink: "n \<le> length xs \<Longrightarrow> realloc_cells junk n xs = take n xs"
  by (simp add: realloc_cells_def)

lemma queue_compact:
  assumes inv: "queue_inv q"
  shows "queue_inv (zbx_queue_ptr_compact junk q) \<and>
    queue_list (zbx_queue_ptr_compact junk q) = queue_list q \<and>
    q_alloc (zbx_queue_ptr_compact junk q) = length (queue_list q) + 1"
proof -
  define m where "m = length (queue_list q)"
  have num: "zbx_queue_ptr_values_num q = m" using inv by (simp add: m_def queue_values_num)
  consider "m + 1 = q_alloc q" | "m + 1 \<noteq> q_alloc q" "q_tail q = 0"
    | "m + 1 \<noteq> q_alloc q" "q_tail q \<noteq> 0" "q_head q < q_tail q"
    | "m + 1 \<noteq> q_alloc q" "q_tail q \<noteq> 0" "q_tail q \<le> q_head q" by linarith
  then show ?thesis
  proof cases
    case 1
    then show ?thesis using inv num m_def by (simp add: zbx_queue_ptr_compact_def)
  next
    case 2
    have "m = q_head q" using inv 2 by (auto simp: m_def queue_inv_def queue_list_def)
    then show ?thesis
      using inv 2 num
      by (auto simp: zbx_queue_ptr_compact_def Let_def queue_inv_def queue_list_def realloc_cells_def)
  next
    case 3
    have o: "length (q_values q) = q_alloc q" "q_tail q < q_alloc q" using inv 3 by (auto simp: queue_inv_def)
    have m: "m = q_alloc q - q_tail q + q_head q" using o 3 by (simp add: m_def queue_list_def)
    define moved where
      "moved = memmove_cells (q_head q + 1) (q_tail q) (q_alloc q - q_tail q) (q_values q)"
    have lm: "length moved = q_alloc q"
      using o 3 unfolding moved_def by (subst length_memmove_cells) auto
    have r: "realloc_cells junk (m + 1) moved = take (m + 1) moved"
      using m o 3 lm by (intro realloc_cells_shrink) simp
    have "take (q_alloc q - q_tail q) (drop (q_head q + 1) moved) = drop (q_tail q) (q_values q)"
      using o 3 unfolding moved_def by (subst take_drop_memmove) auto
    then have "drop (q_head q + 1) (take (m + 1) moved) = drop (q_tail q) (q_values q)"
      by (simp add: drop_take m)
    moreover have "take (q_head q) (take (m + 1) moved) = take (q_head q) (q_values q)"
      using o 3 m by (simp add: moved_def take_memmove_before)
    moreover have "q_head q < m" using m o by simp
    ultimately show ?thesis
      using 3 num o r lm m_def unfolding moved_def
      by (simp add: zbx_queue_ptr_compact_def Let_def queue_inv_def queue_list_def)
  next
    case 4
    have o: "length (q_values q) = q_alloc q" "q_head q < q_alloc q" using inv 4 by (auto simp: queue_inv_def)
    have m: "m = q_head q - q_tail q" using o 4 by (simp add: m_def queue_list_def)
    define moved where "moved = memmove_cells 0 (q_tail q) m (q_values q)"
    have lm: "length moved = q_alloc q"
      using o 4 m unfolding moved_def by (subst length_memmove_cells) auto
    have r: "realloc_cells junk (m + 1) moved = take (m + 1) moved"
      using m o 4 lm by (intro realloc_cells_shrink) simp
    have "take m moved = take m (drop (q_tail q) (q_values q))"
      using o 4 m unfolding moved_def by (subst take_memmove_start) auto
    then have "take m (take (m + 1) moved) = queue_list q"
      using 4 m by (simp add: queue_list_def)
    then show ?thesis
      using 4 num m o r lm unfolding moved_def
      by (simp add: zbx_queue_ptr_compact_def Let_def queue_inv_def queue_list_def)
  qed
qed

section \<open>Removing a value\<close>

lemma queue_find_up_Some:
  "queue_find_up x xs i head = Some k \<Longrightarrow> i \<le> k \<and> k < head \<and> xs ! k = x"
proof (induction x xs i head rule: queue_find_up.induct)
  case (1 x xs i head)
  show ?case
    using "1.IH" "1.prems" by (subst (asm) queue_find_up.simps) (fastforce split: if_splits)
qed

lemma queue_find_up_None:
  "queue_find_up x xs i head = None \<Longrightarrow> i \<le> k \<Longrightarrow> k < head \<Longrightarrow> xs ! k \<noteq> x"
proof (induction x xs i head rule: queue_find_up.induct)
  case (1 x xs i head)
  have "i < head" using "1.prems" by simp
  then have ne: "xs ! i \<noteq> x" "queue_find_up x xs (i + 1) head = None"
    using "1.prems"(1) queue_find_up.simps [of x xs i head] by (auto split: if_splits)
  then show ?case using "1.IH" "1.prems" \<open>i < head\<close> by (cases "k = i") auto
qed

lemma queue_find_down_Some:
  "queue_find_down x xs n tail = Some k \<Longrightarrow> tail \<le> k \<and> k < n \<and> xs ! k = x"
proof (induction x xs n tail rule: queue_find_down.induct)
  case (1 x xs n tail)
  show ?case
    using "1.IH" "1.prems" by (subst (asm) queue_find_down.simps) (fastforce split: if_splits)
qed

lemma queue_find_down_None:
  "queue_find_down x xs n tail = None \<Longrightarrow> tail \<le> k \<Longrightarrow> k < n \<Longrightarrow> xs ! k \<noteq> x"
proof (induction x xs n tail rule: queue_find_down.induct)
  case (1 x xs n tail)
  have "tail < n" using "1.prems" by simp
  then have ne: "xs ! (n - 1) \<noteq> x" "queue_find_down x xs (n - 1) tail = None"
    using "1.prems"(1) queue_find_down.simps [of x xs n tail] by (auto split: if_splits)
  then show ?case using "1.IH" "1.prems" \<open>tail < n\<close> by (cases "k = n - 1") auto
qed

text \<open>The shifts close the gap at one position and leave every other cell alone.\<close>

lemma queue_shift_left:
  "head \<le> length xs \<Longrightarrow> length (queue_shift_left xs i head) = length xs \<and>
    (\<forall>k < length xs. queue_shift_left xs i head ! k =
      (if i \<le> k \<and> k < head - 1 then xs ! (k + 1) else xs ! k))"
proof (induction xs i head rule: queue_shift_left.induct)
  case (1 xs i head)
  show ?case
  proof (cases "i < head - 1")
    case True
    then have "queue_shift_left xs i head = queue_shift_left (xs[i := xs ! (i + 1)]) (i + 1) head"
      by (subst queue_shift_left.simps) simp
    with 1 True show ?thesis by (auto simp: nth_list_update)
  next
    case False
    then show ?thesis by (subst queue_shift_left.simps, subst queue_shift_left.simps) auto
  qed
qed

lemma queue_shift_right:
  "i < length xs \<Longrightarrow> length (queue_shift_right xs i tail) = length xs \<and>
    (\<forall>k < length xs. queue_shift_right xs i tail ! k =
      (if tail < k \<and> k \<le> i then xs ! (k - 1) else xs ! k))"
proof (induction xs i tail rule: queue_shift_right.induct)
  case (1 xs i tail)
  show ?case
  proof (cases "tail < i")
    case True
    then have "queue_shift_right xs i tail = queue_shift_right (xs[i := xs ! (i - 1)]) (i - 1) tail"
      by (subst queue_shift_right.simps) simp
    with 1 True show ?thesis by (auto simp: nth_list_update)
  next
    case False
    then show ?thesis by (subst queue_shift_right.simps, subst queue_shift_right.simps) auto
  qed
qed

text \<open>Removing the occurrence at a position of the abstract list.\<close>

definition remove_at :: "nat \<Rightarrow> 'a list \<Rightarrow> 'a list" where
  "remove_at j l = take j l @ drop (Suc j) l"

lemma remove_at_eqI:
  assumes "j < length l" "length l = Suc (length l')"
    and "\<And>k. k < length l' \<Longrightarrow> l' ! k = (if k < j then l ! k else l ! Suc k)"
  shows "l' = remove_at j l"
  using assms by (intro nth_equalityI) (auto simp: remove_at_def nth_append min_def)

lemma queue_list_nth:
  assumes "queue_inv q" "k < length (queue_list q)"
  shows "queue_list q ! k =
    (if q_tail q + k < q_alloc q then q_values q ! (q_tail q + k) else q_values q ! (q_tail q + k - q_alloc q))"
  using assms by (auto simp: queue_list_def queue_inv_def nth_append add.commute)

lemma queue_length_list:
  "queue_inv q \<Longrightarrow> length (queue_list q) =
    (if q_tail q \<le> q_head q then q_head q - q_tail q else q_alloc q + q_head q - q_tail q)"
  by (auto simp: queue_list_def queue_inv_def)

lemma queue_remove_value:
  fixes x :: 'a
  assumes inv: "queue_inv q"
  defines "q' \<equiv> zbx_queue_ptr_remove_value q x"
  shows "queue_inv q' \<and>
    (x \<notin> set (queue_list q) \<and> q' = q \<or>
     (\<exists>j < length (queue_list q). queue_list q ! j = x \<and> queue_list q' = remove_at j (queue_list q)))"
proof (cases "q_tail q = q_head q")
  case True
  then show ?thesis using inv by (simp add: q'_def zbx_queue_ptr_remove_value_def queue_list_def)
next
  case ne: False
  let ?h = "q_head q" and ?t = "q_tail q" and ?a = "q_alloc q" and ?v = "q_values q"
  let ?s = "if ?t < ?h then ?t else 0"
  have o: "length ?v = ?a" "?h < ?a" "?t < ?a" using inv ne by (auto simp: queue_inv_def)
  show ?thesis
  proof (cases "queue_find_up x ?v ?s ?h")
    case (Some i)
    have i: "?s \<le> i" "i < ?h" "?v ! i = x" using queue_find_up_Some [OF Some] by auto
    let ?q = "q\<lparr>q_values := queue_shift_left ?v i ?h, q_head := ?h - 1\<rparr>"
    have q': "q' = ?q" using ne Some by (simp add: q'_def zbx_queue_ptr_remove_value_def Let_def)
    have sl: "length (queue_shift_left ?v i ?h) = ?a"
      "\<And>k. k < ?a \<Longrightarrow> queue_shift_left ?v i ?h ! k = (if i \<le> k \<and> k < ?h - 1 then ?v ! (k + 1) else ?v ! k)"
      using queue_shift_left [of ?h ?v i] o by auto
    have inv': "queue_inv ?q" using o sl(1) by (auto simp: queue_inv_def)
    define j where "j = (if ?t < ?h then i - ?t else i + (?a - ?t))"
    have j: "j < length (queue_list q)"
      using i o ne by (auto simp: j_def queue_length_list [OF inv] split: if_splits)
    have len: "length (queue_list q) = Suc (length (queue_list ?q))"
      using i o ne unfolding queue_length_list [OF inv] queue_length_list [OF inv'] by auto
    have "queue_list ?q = remove_at j (queue_list q)"
    proof (rule remove_at_eqI [OF j len])
      fix k assume k: "k < length (queue_list ?q)"
      then have "k < length (queue_list q)" "Suc k < length (queue_list q)" using len by auto
      note nths = queue_list_nth [OF inv' k] queue_list_nth [OF inv this(1)] queue_list_nth [OF inv this(2)]
      show "queue_list ?q ! k = (if k < j then queue_list q ! k else queue_list q ! Suc k)"
        using i o ne k unfolding nths queue_length_list [OF inv']
        by (auto simp: j_def sl(2) Suc_diff_le split: if_splits)
    qed
    moreover have "queue_list q ! j = x"
      using i o ne unfolding queue_list_nth [OF inv j] by (auto simp: j_def)
    ultimately show ?thesis using inv' j unfolding q' by blast
  next
    case None
    note up = queue_find_up_None [OF None]
    show ?thesis
    proof (cases "?t \<le> ?h")
      case True
      have "x \<notin> set (queue_list q)"
        using up True ne o by (auto simp: in_set_conv_nth queue_list_straight)
      moreover have "q' = q" using ne None True by (simp add: q'_def zbx_queue_ptr_remove_value_def Let_def)
      ultimately show ?thesis using inv by simp
    next
      case wrap: False
      show ?thesis
      proof (cases "queue_find_down x ?v ?a ?t")
        case None': None
        note down = queue_find_down_None [OF None']
        have "x \<notin> set (queue_list q)"
        proof
          assume "x \<in> set (queue_list q)"
          then obtain k where k: "k < length (queue_list q)" "queue_list q ! k = x" by (auto simp: in_set_conv_nth)
          then have "k < ?a + ?h - ?t" using wrap by (simp add: queue_length_list [OF inv])
          then have "\<not> ?t + k < ?a \<Longrightarrow> ?t + k - ?a < ?h" by linarith
          then show False
            using up [of "?t + k - ?a"] down [of "?t + k"] wrap k
            by (cases "?t + k < ?a") (simp_all add: queue_list_nth [OF inv k(1)])
        qed
        moreover have "q' = q"
          using ne None None' wrap by (simp add: q'_def zbx_queue_ptr_remove_value_def Let_def)
        ultimately show ?thesis using inv by simp
      next
        case (Some i)
        have i: "?t \<le> i" "i < ?a" "?v ! i = x" using queue_find_down_Some [OF Some] by auto
        let ?t' = "if ?t + 1 = ?a then 0 else ?t + 1"
        let ?q = "q\<lparr>q_values := queue_shift_right ?v i ?t, q_tail := ?t'\<rparr>"
        have q': "q' = ?q"
          using ne None Some wrap by (simp add: q'_def zbx_queue_ptr_remove_value_def Let_def)
        have sr: "length (queue_shift_right ?v i ?t) = ?a"
          "\<And>k. k < ?a \<Longrightarrow> queue_shift_right ?v i ?t ! k = (if ?t < k \<and> k \<le> i then ?v ! (k - 1) else ?v ! k)"
          using queue_shift_right [of i ?v ?t] o i by auto
        have inv': "queue_inv ?q" using o sr(1) by (auto simp: queue_inv_def)
        define j where "j = i - ?t"
        have j: "j < length (queue_list q)"
          using i o wrap by (auto simp: j_def queue_length_list [OF inv] split: if_splits)
        have len: "length (queue_list q) = Suc (length (queue_list ?q))"
          using i o wrap unfolding queue_length_list [OF inv] queue_length_list [OF inv'] by auto
        have "queue_list ?q = remove_at j (queue_list q)"
        proof (rule remove_at_eqI [OF j len])
          fix k assume k: "k < length (queue_list ?q)"
          then have "k < length (queue_list q)" "Suc k < length (queue_list q)" using len by auto
          note nths = queue_list_nth [OF inv' k] queue_list_nth [OF inv this(1)] queue_list_nth [OF inv this(2)]
          show "queue_list ?q ! k = (if k < j then queue_list q ! k else queue_list q ! Suc k)"
          proof (cases "?t + 1 = ?a")
            case True
            have "k < ?h" using k True unfolding queue_length_list [OF inv'] by simp
            moreover have "j = 0" using i o True by (auto simp: j_def)
            moreover have "Suc (?t + k) - ?a = k" using True by arith
            ultimately show ?thesis using True o wrap unfolding nths by (simp add: sr(2))
          next
            case False
            then show ?thesis
              using i o wrap k unfolding nths queue_length_list [OF inv']
              by (auto simp: j_def sr(2) Suc_diff_le split: if_splits)
          qed
        qed
        moreover have "queue_list q ! j = x"
          using i o wrap unfolding queue_list_nth [OF inv j] by (auto simp: j_def)
        ultimately show ?thesis using inv' j unfolding q' by blast
      qed
    qed
  qed
qed

section \<open>Properties\<close>

text \<open>C17. For every sequence of pushes and pops, from any well-formed queue, the circular buffer gives
  the outputs of a first-in first-out list and ends in a state that stands for the list's, growing
  and wrapping around included.\<close>

theorem queue_fifo_refinement:
  fixes ops :: "'a fifo_op list" and junk :: 'a
  assumes "queue_inv q"
  defines "r \<equiv> fifo_run (zbx_queue_ptr_push junk) zbx_queue_ptr_pop ops q"
    and "s \<equiv> fifo_run spec_push spec_pop ops (queue_list q)"
  shows "fst r = fst s \<and> queue_list (snd r) = snd s \<and> queue_inv (snd r)"
  unfolding r_def s_def by (rule queue_fifo.run_refines [OF assms(1)])

theorem queue_fifo_refinement_witness:
  "fst (fifo_run (zbx_queue_ptr_push (0::nat)) zbx_queue_ptr_pop
     [Push 1, Pop, Push 2, Push 3, Pop, Pop, Pop] zbx_queue_ptr_create) = [Some 1, Some 2, Some 3, None]"
proof -
  have "fst (fifo_run spec_push spec_pop [Push 1, Pop, Push 2, Push 3, Pop, Pop, Pop] []) =
    [Some 1, Some 2, Some (3::nat), None]"
    by (simp add: spec_push_def)
  then show ?thesis
    using queue_fifo_refinement [OF queue_create(1), of 0 "[Push (1::nat), Pop, Push 2, Push 3, Pop, Pop, Pop]"]
    by (simp only: queue_create(2))
qed

text \<open>Removing a value deletes one of its occurrences and keeps the order of the others, wherever
  the queue lies in the buffer; a value that is not queued leaves the queue as it is.\<close>

theorem queue_remove_value_correct:
  fixes x :: 'a
  assumes "queue_inv q"
  defines "q' \<equiv> zbx_queue_ptr_remove_value q x"
  shows "queue_inv q' \<and>
    (if x \<in> set (queue_list q)
     then \<exists>ys zs. queue_list q = ys @ x # zs \<and> queue_list q' = ys @ zs
     else q' = q)"
proof -
  have r: "queue_inv q'" "x \<notin> set (queue_list q) \<and> q' = q \<or>
     (\<exists>j < length (queue_list q). queue_list q ! j = x \<and> queue_list q' = remove_at j (queue_list q))"
    using queue_remove_value [OF assms(1), of x] by (auto simp: q'_def)
  show ?thesis
  proof (cases "x \<in> set (queue_list q)")
    case True
    then obtain j where j: "j < length (queue_list q)" "queue_list q ! j = x"
        "queue_list q' = remove_at j (queue_list q)" using r(2) by blast
    then have "queue_list q = take j (queue_list q) @ x # drop (Suc j) (queue_list q)"
      using split_at_nth by blast
    with True j r(1) show ?thesis by (auto simp: remove_at_def)
  next
    case False
    with r show ?thesis by (auto simp: in_set_conv_nth)
  qed
qed

theorem queue_remove_value_correct_witness:
  "\<exists>ys zs. [7, 8, 9 :: nat] = ys @ 8 # zs \<and>
     queue_list (zbx_queue_ptr_remove_value
       \<lparr>q_values = [9, 0, 0, 7, 8], q_alloc = 5, q_head = 1, q_tail = 3\<rparr> 8) = ys @ zs"
  using queue_remove_value_correct [of "\<lparr>q_values = [9, 0, 0, 7, 8 :: nat], q_alloc = 5, q_head = 1, q_tail = 3\<rparr>" 8]
  by (simp add: queue_inv_def queue_list_def)

text \<open>Compacting a queue keeps its contents and leaves exactly one free cell.\<close>

theorem queue_compact_correct:
  assumes "queue_inv q"
  shows "queue_inv (zbx_queue_ptr_compact junk q) \<and>
    queue_list (zbx_queue_ptr_compact junk q) = queue_list q \<and>
    q_alloc (zbx_queue_ptr_compact junk q) = zbx_queue_ptr_values_num q + 1"
  using queue_compact [OF assms] queue_values_num [OF assms] by simp

theorem queue_compact_correct_witness:
  "queue_list (zbx_queue_ptr_compact 0 \<lparr>q_values = [9, 0, 0, 7, 8 :: nat], q_alloc = 5, q_head = 1, q_tail = 3\<rparr>)
     = [7, 8, 9]"
  using queue_compact_correct [of "\<lparr>q_values = [9, 0, 0, 7, 8 :: nat], q_alloc = 5, q_head = 1, q_tail = 3\<rparr>" 0]
  by (simp add: queue_inv_def queue_list_def)

end
