(* ===== verification/KeyIndex.thy ===== *)
theory KeyIndex
  imports Prelude
begin

text \<open>
  The interface of an index from \<open>uint64\<close> keys to non-negative numbers, as
  \<open>include/zbxalgo.h\<close> offers it (get, set, remove, clear) and as the binary heap uses it. A
  missing key reads as \<open>FAIL\<close>, which is -1.
\<close>

datatype index_op = IxSet u64 int | IxRemove u64 | IxGet u64 | IxClear

fun index_run :: "('m \<Rightarrow> u64 \<Rightarrow> int) \<Rightarrow> ('m \<Rightarrow> u64 \<Rightarrow> int \<Rightarrow> 'm) \<Rightarrow> ('m \<Rightarrow> u64 \<Rightarrow> 'm) \<Rightarrow> ('m \<Rightarrow> 'm) \<Rightarrow>
    index_op list \<Rightarrow> 'm \<Rightarrow> int list \<times> 'm" where
  "index_run get put remove clear [] m = ([], m)"
| "index_run get put remove clear (IxSet k v # ops) m = index_run get put remove clear ops (put m k v)"
| "index_run get put remove clear (IxRemove k # ops) m = index_run get put remove clear ops (remove m k)"
| "index_run get put remove clear (IxClear # ops) m = index_run get put remove clear ops (clear m)"
| "index_run get put remove clear (IxGet k # ops) m =
    (case index_run get put remove clear ops m of (out, m') \<Rightarrow> (get m k # out, m'))"

text \<open>The specification: a finite map, read with -1 for a missing key.\<close>

definition map_get :: "(u64 \<rightharpoonup> int) \<Rightarrow> u64 \<Rightarrow> int" where
  "map_get f k = (case f k of None \<Rightarrow> -1 | Some v \<Rightarrow> v)"

definition map_put :: "(u64 \<rightharpoonup> int) \<Rightarrow> u64 \<Rightarrow> int \<Rightarrow> (u64 \<rightharpoonup> int)" where
  "map_put f k v = f(k \<mapsto> v)"

definition map_remove :: "(u64 \<rightharpoonup> int) \<Rightarrow> u64 \<Rightarrow> (u64 \<rightharpoonup> int)" where
  "map_remove f k = f(k := None)"

definition map_clear :: "(u64 \<rightharpoonup> int) \<Rightarrow> (u64 \<rightharpoonup> int)" where
  "map_clear f = Map.empty"

locale key_index =
  fixes inv :: "'m \<Rightarrow> bool"
    and abs :: "'m \<Rightarrow> u64 \<rightharpoonup> int"
    and get :: "'m \<Rightarrow> u64 \<Rightarrow> int"
    and put :: "'m \<Rightarrow> u64 \<Rightarrow> int \<Rightarrow> 'm"
    and remove :: "'m \<Rightarrow> u64 \<Rightarrow> 'm"
    and clear :: "'m \<Rightarrow> 'm"
  assumes get_eq: "inv m \<Longrightarrow> get m k = map_get (abs m) k"
    and put_inv: "inv m \<Longrightarrow> inv (put m k v)"
    and put_abs: "inv m \<Longrightarrow> abs (put m k v) = map_put (abs m) k v"
    and remove_inv: "inv m \<Longrightarrow> inv (remove m k)"
    and remove_abs: "inv m \<Longrightarrow> abs (remove m k) = map_remove (abs m) k"
    and clear_inv: "inv m \<Longrightarrow> inv (clear m)"
    and clear_abs: "inv m \<Longrightarrow> abs (clear m) = map_clear (abs m)"
begin

lemma get_put: "inv m \<Longrightarrow> get (put m k v) j = (if j = k then v else get m j)"
  by (simp add: get_eq put_inv put_abs map_get_def map_put_def)

lemma get_remove: "inv m \<Longrightarrow> get (remove m k) j = (if j = k then -1 else get m j)"
  by (simp add: get_eq remove_inv remove_abs map_get_def map_remove_def)

lemma get_clear: "inv m \<Longrightarrow> get (clear m) j = -1"
  by (simp add: get_eq clear_inv clear_abs map_get_def map_clear_def)

text \<open>Every sequence of operations gives the outputs of the finite map.\<close>

lemma run_refines:
  "inv m \<Longrightarrow>
    fst (index_run get put remove clear ops m) =
      fst (index_run map_get map_put map_remove map_clear ops (abs m)) \<and>
    inv (snd (index_run get put remove clear ops m))"
proof (induction ops arbitrary: m)
  case Nil
  then show ?case by simp
next
  case (Cons a ops)
  show ?case
  proof (cases a)
    case (IxSet k v)
    then show ?thesis using Cons.IH [of "put m k v"] Cons.prems by (simp add: put_inv put_abs)
  next
    case (IxRemove k)
    then show ?thesis using Cons.IH [of "remove m k"] Cons.prems by (simp add: remove_inv remove_abs)
  next
    case IxClear
    then show ?thesis using Cons.IH [of "clear m"] Cons.prems by (simp add: clear_inv clear_abs)
  next
    case (IxGet k)
    then show ?thesis using Cons.IH [of m] Cons.prems by (auto simp: get_eq split: prod.splits)
  qed
qed

end

end
