(* ===== verification/HashMap.thy ===== *)
theory HashMap
  imports KeyIndex HashFuncs Numeric
begin

text \<open>
  The hash map from \<open>uint64\<close> keys to numbers (\<open>src/libs/zbxalgo/hashmap.c\<close>): a vector of slots,
  each a growing array of entries, rehashed in place when the load reaches
  \<open>CRIT_LOAD_FACTOR\<close>. A slot whose \<open>entries\<close> pointer is NULL is the one with no cells. Sizes are
  natural numbers: the model assumes that they fit an \<open>int\<close>.
\<close>

section \<open>State\<close>

record zbx_hashmap_entry =
  e_key :: u64
  e_value :: int

record zbx_hashmap_slot =
  s_entries :: "zbx_hashmap_entry list"
  s_num :: nat
  s_alloc :: nat

record zbx_hashmap =
  hm_slots :: "zbx_hashmap_slot list"
  hm_num_slots :: nat
  hm_num_data :: nat
  hm_hash :: "u64 \<Rightarrow> zbx_hash_t"
  hm_compare :: "u64 \<Rightarrow> u64 \<Rightarrow> int"

text \<open>The slot that \<open>memset\<close> leaves.\<close>

definition zero_slot :: zbx_hashmap_slot where
  "zero_slot = \<lparr>s_entries = [], s_num = 0, s_alloc = 0\<rparr>"

section \<open>Operations\<close>

definition hashmap_ensure_free_entry :: "zbx_hashmap_entry \<Rightarrow> zbx_hashmap_slot \<Rightarrow> zbx_hashmap_slot" where
  "hashmap_ensure_free_entry junk slot =
    (if s_entries slot = [] then
       slot\<lparr>s_num := 0, s_alloc := 6, s_entries := replicate 6 junk\<rparr>
     else if s_num slot = s_alloc slot then
       let alloc = s_alloc slot * 2
       in slot\<lparr>s_alloc := alloc, s_entries := realloc_cells junk alloc (s_entries slot)\<rparr>
     else slot)"

definition zbx_hashmap_init_slots :: "zbx_hashmap \<Rightarrow> nat \<Rightarrow> zbx_hashmap" where
  "zbx_hashmap_init_slots hm init_size =
    (if 0 < init_size then
       let n = next_prime init_size
       in hm\<lparr>hm_num_data := 0, hm_num_slots := n, hm_slots := replicate n zero_slot\<rparr>
     else hm\<lparr>hm_num_data := 0, hm_num_slots := 0, hm_slots := []\<rparr>)"

definition zbx_hashmap_create_ext :: "nat \<Rightarrow> (u64 \<Rightarrow> zbx_hash_t) \<Rightarrow> (u64 \<Rightarrow> u64 \<Rightarrow> int) \<Rightarrow> zbx_hashmap" where
  "zbx_hashmap_create_ext init_size h c =
    zbx_hashmap_init_slots
      \<lparr>hm_slots = [], hm_num_slots = 0, hm_num_data = 0, hm_hash = h, hm_compare = c\<rparr> init_size"

definition zbx_hashmap_create :: "nat \<Rightarrow> zbx_hashmap" where
  "zbx_hashmap_create init_size =
    zbx_hashmap_create_ext init_size zbx_hash_splittable64 zbx_default_uint64_compare_func"

text \<open>The slots are freed; the function pointers, which the code resets, stay outside the model.\<close>

definition zbx_hashmap_destroy :: "zbx_hashmap \<Rightarrow> zbx_hashmap" where
  "zbx_hashmap_destroy hm = hm\<lparr>hm_num_data := 0, hm_num_slots := 0, hm_slots := []\<rparr>"

text \<open>The search loop that get, set and remove share; it gives \<open>entries_num\<close> when the key is absent.\<close>

function hashmap_find :: "(u64 \<Rightarrow> u64 \<Rightarrow> int) \<Rightarrow> zbx_hashmap_slot \<Rightarrow> u64 \<Rightarrow> nat \<Rightarrow> nat" where
  "hashmap_find c slot key i =
    (if i < s_num slot then
       if 0 = c (e_key (s_entries slot ! i)) key then i else hashmap_find c slot key (i + 1)
     else i)"
  by pat_completeness auto
termination by (relation "measure (\<lambda>(c, slot, key, i). s_num slot - i)") auto

declare hashmap_find.simps [simp del]

definition hashmap_slot :: "zbx_hashmap \<Rightarrow> u64 \<Rightarrow> nat" where
  "hashmap_slot hm key = unat (hm_hash hm key) mod hm_num_slots hm"

definition zbx_hashmap_get :: "zbx_hashmap \<Rightarrow> u64 \<Rightarrow> int" where
  "zbx_hashmap_get hm key =
    (if 0 = hm_num_slots hm then -1
     else
       let slot = hm_slots hm ! hashmap_slot hm key;
           i = hashmap_find (hm_compare hm) slot key 0
       in if i < s_num slot then e_value (s_entries slot ! i) else -1)"

text \<open>Appending an entry to a slot.\<close>

definition hashmap_slot_append :: "zbx_hashmap_entry \<Rightarrow> zbx_hashmap_slot \<Rightarrow> zbx_hashmap_entry \<Rightarrow> zbx_hashmap_slot" where
  "hashmap_slot_append junk slot e =
    (let slot = hashmap_ensure_free_entry junk slot
     in slot\<lparr>s_entries := (s_entries slot)[s_num slot := e], s_num := s_num slot + 1\<rparr>)"

text \<open>Overwriting an entry with the last one of its slot.\<close>

definition hashmap_slot_drop :: "zbx_hashmap_slot \<Rightarrow> nat \<Rightarrow> zbx_hashmap_slot" where
  "hashmap_slot_drop slot i =
    slot\<lparr>s_entries := (s_entries slot)[i := s_entries slot ! (s_num slot - 1)], s_num := s_num slot - 1\<rparr>"

text \<open>
  The two loops of the rehash. An entry that belongs to another slot is moved there and the
  index stays, as the code's \<open>i--\<close> followed by \<open>i++\<close>. The slots are those after \<open>realloc\<close>.
\<close>

function hashmap_rehash_slot :: "zbx_hashmap_entry \<Rightarrow> (u64 \<Rightarrow> zbx_hash_t) \<Rightarrow> nat \<Rightarrow> nat \<Rightarrow> nat \<Rightarrow>
    zbx_hashmap_slot list \<Rightarrow> zbx_hashmap_slot list" where
  "hashmap_rehash_slot junk h inc_slots s i slots =
    (if s < length slots \<and> i < s_num (slots ! s) then
       let e = s_entries (slots ! s) ! i;
           new_slot = unat (h (e_key e)) mod inc_slots
       in if s \<noteq> new_slot then
            let slots = slots[new_slot := hashmap_slot_append junk (slots ! new_slot) e];
                slots = slots[s := hashmap_slot_drop (slots ! s) i]
            in hashmap_rehash_slot junk h inc_slots s i slots
          else hashmap_rehash_slot junk h inc_slots s (i + 1) slots
     else slots)"
  by pat_completeness auto
termination
  by (relation "measure (\<lambda>(junk, h, inc_slots, s, i, slots). s_num (slots ! s) - i)")
    (auto simp: hashmap_slot_drop_def)

declare hashmap_rehash_slot.simps [simp del]

function hashmap_rehash :: "zbx_hashmap_entry \<Rightarrow> (u64 \<Rightarrow> zbx_hash_t) \<Rightarrow> nat \<Rightarrow> nat \<Rightarrow> nat \<Rightarrow>
    zbx_hashmap_slot list \<Rightarrow> zbx_hashmap_slot list" where
  "hashmap_rehash junk h inc_slots num_slots s slots =
    (if s < num_slots then
       hashmap_rehash junk h inc_slots num_slots (s + 1) (hashmap_rehash_slot junk h inc_slots s 0 slots)
     else slots)"
  by pat_completeness auto
termination by (relation "measure (\<lambda>(junk, h, inc_slots, num_slots, s, slots). num_slots - s)") auto

declare hashmap_rehash.simps [simp del]

definition zbx_hashmap_set :: "zbx_hashmap_entry \<Rightarrow> zbx_hashmap \<Rightarrow> u64 \<Rightarrow> int \<Rightarrow> zbx_hashmap" where
  "zbx_hashmap_set junk hm key value =
    (let hm = (if 0 = hm_num_slots hm then zbx_hashmap_init_slots hm 10 else hm);
         s = hashmap_slot hm key;
         slot = hm_slots hm ! s;
         i = hashmap_find (hm_compare hm) slot key 0
     in if i < s_num slot then
          hm\<lparr>hm_slots := (hm_slots hm)[s := slot\<lparr>s_entries :=
               (s_entries slot)[i := (s_entries slot ! i)\<lparr>e_value := value\<rparr>]\<rparr>]\<rparr>
        else
          let hm = hm\<lparr>hm_slots := (hm_slots hm)[s := hashmap_slot_append junk slot \<lparr>e_key = key, e_value = value\<rparr>],
                      hm_num_data := hm_num_data hm + 1\<rparr>
          in if hm_num_data hm \<ge> hm_num_slots hm * 5 then
               let inc_slots = next_prime (hm_num_slots hm * 3 div 2);
                   slots = realloc_cells zero_slot inc_slots (hm_slots hm)
               in hm\<lparr>hm_slots := hashmap_rehash junk (hm_hash hm) inc_slots (hm_num_slots hm) 0 slots,
                     hm_num_slots := inc_slots\<rparr>
             else hm)"

definition zbx_hashmap_remove :: "zbx_hashmap \<Rightarrow> u64 \<Rightarrow> zbx_hashmap" where
  "zbx_hashmap_remove hm key =
    (if 0 = hm_num_slots hm then hm
     else
       let s = hashmap_slot hm key;
           slot = hm_slots hm ! s;
           i = hashmap_find (hm_compare hm) slot key 0
       in if i < s_num slot then
            hm\<lparr>hm_slots := (hm_slots hm)[s := hashmap_slot_drop slot i], hm_num_data := hm_num_data hm - 1\<rparr>
          else hm)"

definition zbx_hashmap_clear :: "zbx_hashmap \<Rightarrow> zbx_hashmap" where
  "zbx_hashmap_clear hm = hm\<lparr>hm_slots := map (\<lambda>slot. slot\<lparr>s_num := 0\<rparr>) (hm_slots hm), hm_num_data := 0\<rparr>"

section \<open>Invariant and abstraction\<close>

definition slot_list :: "zbx_hashmap_slot \<Rightarrow> zbx_hashmap_entry list" where
  "slot_list slot = take (s_num slot) (s_entries slot)"

definition slot_inv :: "zbx_hashmap_slot \<Rightarrow> bool" where
  "slot_inv slot \<longleftrightarrow> length (s_entries slot) = s_alloc slot \<and> s_num slot \<le> s_alloc slot"

definition all_entries :: "zbx_hashmap_slot list \<Rightarrow> zbx_hashmap_entry list" where
  "all_entries slots = concat (map slot_list slots)"

text \<open>Every entry of a slot of \<open>ts\<close> hashes to that slot.\<close>

definition placed_in :: "(u64 \<Rightarrow> zbx_hash_t) \<Rightarrow> nat \<Rightarrow> nat set \<Rightarrow> zbx_hashmap_slot list \<Rightarrow> bool" where
  "placed_in h n ts slots \<longleftrightarrow>
    (\<forall>t\<in>ts. t < length slots \<longrightarrow> (\<forall>e\<in>set (slot_list (slots ! t)). unat (h (e_key e)) mod n = t))"

definition hashmap_inv :: "zbx_hashmap \<Rightarrow> bool" where
  "hashmap_inv hm \<longleftrightarrow>
    length (hm_slots hm) = hm_num_slots hm \<and> (\<forall>slot\<in>set (hm_slots hm). slot_inv slot) \<and>
    placed_in (hm_hash hm) (hm_num_slots hm) UNIV (hm_slots hm) \<and>
    distinct (map e_key (all_entries (hm_slots hm))) \<and>
    hm_num_data hm = length (all_entries (hm_slots hm)) \<and>
    (hm_num_slots hm = 0 \<or> prime_number (hm_num_slots hm) \<and> hm_num_data hm < hm_num_slots hm * 5) \<and>
    (\<forall>x y. hm_compare hm x y = 0 \<longleftrightarrow> x = y)"

definition entries_map :: "zbx_hashmap_entry list \<Rightarrow> u64 \<rightharpoonup> int" where
  "entries_map es = map_of (map (\<lambda>e. (e_key e, e_value e)) es)"

definition hashmap_abs :: "zbx_hashmap \<Rightarrow> u64 \<rightharpoonup> int" where
  "hashmap_abs hm = entries_map (all_entries (hm_slots hm))"

section \<open>Slots\<close>

lemma slot_inv_zero [simp]: "slot_inv zero_slot" and slot_list_zero [simp]: "slot_list zero_slot = []"
  by (simp_all add: slot_inv_def slot_list_def zero_slot_def)

lemma length_slot_list [simp]: "slot_inv slot \<Longrightarrow> length (slot_list slot) = s_num slot"
  by (simp add: slot_list_def slot_inv_def)

lemma slot_list_nth [simp]: "i < s_num slot \<Longrightarrow> slot_list slot ! i = s_entries slot ! i"
  by (simp add: slot_list_def)

lemma slot_append:
  assumes "slot_inv slot"
  shows "slot_inv (hashmap_slot_append junk slot e)"
    and "slot_list (hashmap_slot_append junk slot e) = slot_list slot @ [e]"
    and "s_num (hashmap_slot_append junk slot e) = s_num slot + 1"
proof -
  have "slot_inv (hashmap_slot_append junk slot e) \<and>
      slot_list (hashmap_slot_append junk slot e) = slot_list slot @ [e] \<and>
      s_num (hashmap_slot_append junk slot e) = s_num slot + 1"
  proof (cases "s_entries slot = []")
    case True
    then show ?thesis using assms
      by (simp add: hashmap_slot_append_def hashmap_ensure_free_entry_def slot_inv_def slot_list_def
          numeral_eq_Suc)
  next
    case False
    then have "0 < s_alloc slot" using assms length_greater_0_conv [of "s_entries slot"] by (simp add: slot_inv_def)
    then show ?thesis using assms False
      by (simp add: hashmap_slot_append_def hashmap_ensure_free_entry_def slot_inv_def slot_list_def
          Let_def take_Suc_list_update cells_simps)
  qed
  then show "slot_inv (hashmap_slot_append junk slot e)"
    and "slot_list (hashmap_slot_append junk slot e) = slot_list slot @ [e]"
    and "s_num (hashmap_slot_append junk slot e) = s_num slot + 1" by blast+
qed

lemma slot_drop:
  assumes "slot_inv slot" "i < s_num slot"
  shows "slot_inv (hashmap_slot_drop slot i)"
    and "mset (slot_list slot) = add_mset (s_entries slot ! i) (mset (slot_list (hashmap_slot_drop slot i)))"
    and "take i (slot_list (hashmap_slot_drop slot i)) = take i (slot_list slot)"
proof -
  show "slot_inv (hashmap_slot_drop slot i)"
    using assms by (auto simp: hashmap_slot_drop_def slot_inv_def)
  have n: "s_num slot - 1 < length (s_entries slot)" using assms by (auto simp: slot_inv_def)
  define xs where "xs = slot_list slot"
  have len: "length xs = s_num slot" using assms xs_def by simp
  have "last xs = xs ! (s_num slot - 1)" using assms len by (subst last_conv_nth) auto
  then have l: "last xs = s_entries slot ! (s_num slot - 1)" using assms by (simp add: xs_def)
  have eq: "slot_list (hashmap_slot_drop slot i) = butlast (xs[i := last xs])"
    using assms n len unfolding l
    by (simp add: hashmap_slot_drop_def slot_list_def xs_def slot_inv_def butlast_conv_take take_update_swap)
  have "mset xs = add_mset (xs ! i) (mset (butlast (xs[i := last xs])))"
    using assms len by (intro mset_overwrite_last) simp
  then show "mset (slot_list slot) = add_mset (s_entries slot ! i) (mset (slot_list (hashmap_slot_drop slot i)))"
    using eq assms by (simp add: xs_def)
  show "take i (slot_list (hashmap_slot_drop slot i)) = take i (slot_list slot)"
    using assms len unfolding eq xs_def [symmetric] by (simp add: butlast_conv_take)
qed

lemma all_entries_update:
  "i < length slots \<Longrightarrow>
    mset (all_entries (slots[i := slot])) + mset (slot_list (slots ! i)) =
    mset (all_entries slots) + mset (slot_list slot)"
  by (simp add: all_entries_def upd_conv_take_nth_drop) (subst (2) id_take_nth_drop [of i slots], simp_all)

lemma all_entries_set: "set (all_entries slots) = (\<Union>slot\<in>set slots. set (slot_list slot))"
  by (simp add: all_entries_def)

section \<open>Searching a slot\<close>

lemma hashmap_find_le: "i \<le> s_num slot \<Longrightarrow> hashmap_find c slot key i \<le> s_num slot"
proof (induction c slot key i rule: hashmap_find.induct)
  case (1 c slot key i)
  then show ?case by (subst hashmap_find.simps) auto
qed

lemma hashmap_find_hit:
  "hashmap_find c slot key i < s_num slot \<Longrightarrow> c (e_key (s_entries slot ! hashmap_find c slot key i)) key = 0"
proof (induction c slot key i rule: hashmap_find.induct)
  case (1 c slot key i)
  then show ?case by (subst (asm) hashmap_find.simps, subst hashmap_find.simps) (auto split: if_splits)
qed

lemma hashmap_find_miss:
  "\<not> hashmap_find c slot key i < s_num slot \<Longrightarrow> i \<le> j \<Longrightarrow> j < s_num slot \<Longrightarrow> c (e_key (s_entries slot ! j)) key \<noteq> 0"
proof (induction c slot key i rule: hashmap_find.induct)
  case (1 c slot key i)
  from "1.prems" show ?case
    using "1.IH" by (cases "i = j") (auto simp: hashmap_find.simps [of c slot key i] hashmap_find.simps [of c slot key j] split: if_splits)
qed

lemma hashmap_find_cases:
  assumes "slot_inv slot" "\<And>x y. c x y = 0 \<longleftrightarrow> x = y"
  obtains (hit) i where "hashmap_find c slot key 0 = i" "i < s_num slot" "e_key (s_entries slot ! i) = key"
      "s_entries slot ! i \<in> set (slot_list slot)"
    | (miss) "hashmap_find c slot key 0 = s_num slot" "key \<notin> e_key ` set (slot_list slot)"
proof (cases "hashmap_find c slot key 0 < s_num slot")
  case True
  then show ?thesis using hit hashmap_find_hit [OF True] assms by (metis length_slot_list nth_mem slot_list_nth)
next
  case False
  have "key \<notin> e_key ` set (slot_list slot)"
  proof
    assume "key \<in> e_key ` set (slot_list slot)"
    then obtain j where "j < s_num slot" "e_key (s_entries slot ! j) = key"
      using assms(1) by (auto simp: in_set_conv_nth)
    then show False using hashmap_find_miss [OF False, of j] assms(2) by blast
  qed
  then show ?thesis using False miss hashmap_find_le [of 0 slot c key] by simp
qed

section \<open>Rehashing\<close>

lemma set_slot_drop: "slot_inv slot \<Longrightarrow> i < s_num slot \<Longrightarrow> set (slot_list (hashmap_slot_drop slot i)) \<subseteq> set (slot_list slot)"
  using slot_drop(2) [of slot i] by (metis mset_subset_eq_add_right set_mset_mono set_mset_mset add_mset_add_single union_commute)

lemma hashmap_rehash_slot:
  assumes "length slots = inc_slots" "\<forall>slot\<in>set slots. slot_inv slot" "placed_in h inc_slots ts slots"
    and "s < inc_slots" "\<forall>e\<in>set (take i (slot_list (slots ! s))). unat (h (e_key e)) mod inc_slots = s"
  shows "let res = hashmap_rehash_slot junk h inc_slots s i slots in
    length res = inc_slots \<and> (\<forall>slot\<in>set res. slot_inv slot) \<and>
    mset (all_entries res) = mset (all_entries slots) \<and> placed_in h inc_slots (insert s ts) res"
  using assms
proof (induction junk h inc_slots s i slots rule: hashmap_rehash_slot.induct)
  case (1 junk h inc_slots s i slots)
  note len = 1(3) and inv = 1(4) and placed = 1(5) and s = 1(6) and ok = 1(7)
  have invs: "slot_inv (slots ! s)" using inv s len by simp
  show ?case
  proof (cases "i < s_num (slots ! s)")
    case False
    then have "take i (slot_list (slots ! s)) = slot_list (slots ! s)" using invs by simp
    then show ?thesis
      using False len inv placed ok by (subst hashmap_rehash_slot.simps) (auto simp: placed_in_def)
  next
    case True
    define e where "e = s_entries (slots ! s) ! i"
    define t where "t = unat (h (e_key e)) mod inc_slots"
    have t: "t < length slots" using s len by (simp add: t_def)
    show ?thesis
    proof (cases "s = t")
      case True': True
      have "take (i + 1) (slot_list (slots ! s)) = take i (slot_list (slots ! s)) @ [e]"
        using True invs by (simp add: take_Suc_conv_app_nth e_def)
      moreover have "unat (h (e_key e)) mod inc_slots = s" using True' t_def by metis
      ultimately have ok2: "\<forall>e\<in>set (take (i + 1) (slot_list (slots ! s))). unat (h (e_key e)) mod inc_slots = s"
        using ok by simp
      have eq: "hashmap_rehash_slot junk h inc_slots s i slots =
          hashmap_rehash_slot junk h inc_slots s (i + 1) slots"
        using True True' [unfolded t_def e_def] s len by (subst hashmap_rehash_slot.simps) (simp add: Let_def)
      have c: "s < length slots \<and> i < s_num (slots ! s)" using s len True by simp
      have nc: "\<not> s \<noteq> t" using True' by simp
      show ?thesis
        unfolding eq by (rule 1(2) [OF c e_def t_def nc len inv placed s ok2])
    next
      case False
      define slots1 where "slots1 = slots[t := hashmap_slot_append junk (slots ! t) e]"
      define slots2 where "slots2 = slots1[s := hashmap_slot_drop (slots1 ! s) i]"
      have invt: "slot_inv (slots ! t)" using inv t by simp
      have s1: "slots1 ! s = slots ! s" "length slots1 = length slots" using False by (simp_all add: slots1_def)
      have inv2: "\<forall>slot\<in>set slots2. slot_inv slot"
        using inv slot_append(1) [OF invt] slot_drop(1) [OF invs True]
        unfolding slots2_def s1(1) by (auto simp: slots1_def dest!: set_update_subset_insert [THEN subsetD])
      have m1: "mset (all_entries slots1) = add_mset e (mset (all_entries slots))"
        using all_entries_update [OF t, of "hashmap_slot_append junk (slots ! t) e"]
        by (simp add: slots1_def slot_append(2) [OF invt])
      have m2: "mset (all_entries slots2) = mset (all_entries slots)"
        using all_entries_update [of s slots1 "hashmap_slot_drop (slots1 ! s) i"] s len s1 slot_drop(2) [OF invs True]
        by (simp add: slots2_def m1 e_def)
      have sub: "u \<noteq> t \<Longrightarrow> u < length slots \<Longrightarrow> set (slot_list (slots2 ! u)) \<subseteq> set (slot_list (slots ! u))" for u
        using s1 set_slot_drop [OF invs True] by (cases "u = s") (auto simp: slots2_def slots1_def)
      have subt: "set (slot_list (slots2 ! t)) = insert e (set (slot_list (slots ! t)))"
        using False t by (simp add: slots2_def slots1_def slot_append(2) [OF invt])
      have p2: "placed_in h inc_slots ts slots2"
        unfolding placed_in_def
      proof (intro ballI impI)
        fix u f assume u: "u \<in> ts" "u < length slots2" "f \<in> set (slot_list (slots2 ! u))"
        have lu: "u < length slots" using u(2) by (simp add: slots2_def s1)
        show "unat (h (e_key f)) mod inc_slots = u"
        proof (cases "u = t \<and> f = e")
          case True
          then show ?thesis using t_def by simp
        next
          case False
          then have "f \<in> set (slot_list (slots ! u))" using u(3) sub [OF _ lu] subt by (cases "u = t") auto
          then show ?thesis using placed u(1) lu unfolding placed_in_def by blast
        qed
      qed
      have tk: "take i (slot_list (slots2 ! s)) = take i (slot_list (slots ! s))"
        using slot_drop(3) [OF invs True] s len by (simp add: slots2_def s1)
      have eq: "hashmap_rehash_slot junk h inc_slots s i slots = hashmap_rehash_slot junk h inc_slots s i slots2"
        using True False s len
        by (subst hashmap_rehash_slot.simps) (simp add: e_def t_def slots2_def slots1_def Let_def)
      have len2: "length slots2 = inc_slots" using len by (simp add: slots2_def s1)
      have ok2: "\<forall>e\<in>set (take i (slot_list (slots2 ! s))). unat (h (e_key e)) mod inc_slots = s"
        using ok tk by simp
      have c: "s < length slots \<and> i < s_num (slots ! s)" using s len True by simp
      show ?thesis
        unfolding eq m2 [symmetric]
        by (rule 1(1) [OF c e_def t_def False slots1_def slots2_def len2 inv2 p2 s ok2])
    qed
  qed
qed

lemma hashmap_rehash:
  assumes "length slots = inc_slots" "\<forall>slot\<in>set slots. slot_inv slot" "num_slots \<le> inc_slots"
    and "placed_in h inc_slots ({..<s} \<union> {num_slots..}) slots" "s \<le> num_slots"
  shows "let res = hashmap_rehash junk h inc_slots num_slots s slots in
    length res = inc_slots \<and> (\<forall>slot\<in>set res. slot_inv slot) \<and>
    mset (all_entries res) = mset (all_entries slots) \<and> placed_in h inc_slots UNIV res"
  using assms
proof (induction junk h inc_slots num_slots s slots rule: hashmap_rehash.induct)
  case (1 junk h inc_slots num_slots s slots)
  show ?case
  proof (cases "s < num_slots")
    case False
    then have "{..<s} \<union> {num_slots..} = UNIV" using 1 by auto
    then show ?thesis using False 1(2,3,5) by (simp add: hashmap_rehash.simps [of _ _ _ _ s] Let_def)
  next
    case True
    define slots1 where "slots1 = hashmap_rehash_slot junk h inc_slots s 0 slots"
    have "let res = slots1 in length res = inc_slots \<and> (\<forall>slot\<in>set res. slot_inv slot) \<and>
        mset (all_entries res) = mset (all_entries slots) \<and>
        placed_in h inc_slots (insert s ({..<s} \<union> {num_slots..})) res"
      unfolding slots1_def using 1(2-) True by (intro hashmap_rehash_slot) auto
    moreover have "insert s ({..<s} \<union> {num_slots..}) = {..<s + 1} \<union> {num_slots..}" by auto
    ultimately have r: "length slots1 = inc_slots" "\<forall>slot\<in>set slots1. slot_inv slot"
        "mset (all_entries slots1) = mset (all_entries slots)"
        "placed_in h inc_slots ({..<s + 1} \<union> {num_slots..}) slots1" by (simp_all add: Let_def)
    have eq: "hashmap_rehash junk h inc_slots num_slots s slots = hashmap_rehash junk h inc_slots num_slots (s + 1) slots1"
      using True by (simp add: hashmap_rehash.simps [of _ _ _ _ s] slots1_def)
    have s: "s + 1 \<le> num_slots" using True by simp
    show ?thesis
      unfolding eq r(3) [symmetric] by (rule 1(1) [OF True, folded slots1_def, OF r(1,2) 1(4) r(4) s])
  qed
qed

section \<open>The operations keep the invariant and implement the map\<close>

lemma all_entries_replicate_zero [simp]: "all_entries (replicate n zero_slot) = []"
  by (simp add: all_entries_def)

lemma prime_next_prime: "prime_number (next_prime n)"
  using next_prime_least by blast

lemma hashmap_init_slots:
  "\<forall>x y. hm_compare hm x y = 0 \<longleftrightarrow> x = y \<Longrightarrow> hashmap_inv (zbx_hashmap_init_slots hm n)"
  by (auto simp: hashmap_inv_def zbx_hashmap_init_slots_def Let_def prime_next_prime next_prime_pos placed_in_def
      all_entries_def)

lemma hashmap_create [simp]:
  "hashmap_inv (zbx_hashmap_create n)" "hashmap_abs (zbx_hashmap_create n) = Map.empty"
proof -
  show "hashmap_inv (zbx_hashmap_create n)"
    unfolding zbx_hashmap_create_def zbx_hashmap_create_ext_def
    by (rule hashmap_init_slots) (simp add: uint64_compare.cmp_eq_iff)
  show "hashmap_abs (zbx_hashmap_create n) = Map.empty"
    by (simp add: zbx_hashmap_create_def zbx_hashmap_create_ext_def zbx_hashmap_init_slots_def hashmap_abs_def entries_map_def
        all_entries_def Let_def)
qed

lemma hashmap_slot_less: "hm_num_slots hm \<noteq> 0 \<Longrightarrow> hashmap_slot hm key < hm_num_slots hm"
  by (simp add: hashmap_slot_def)

text \<open>A lookup reads the one slot the key hashes to.\<close>

lemma map_of_entries:
  "distinct (map e_key es) \<Longrightarrow>
    (entries_map es k = Some v \<longleftrightarrow> (\<exists>e\<in>set es. e_key e = k \<and> e_value e = v))"
  unfolding entries_map_def by (subst map_of_eq_Some_iff) (auto simp: comp_def)

lemma hashmap_abs_Some:
  "hashmap_inv hm \<Longrightarrow> hashmap_abs hm k = Some v \<longleftrightarrow> (\<exists>e\<in>set (all_entries (hm_slots hm)). e_key e = k \<and> e_value e = v)"
  by (simp add: hashmap_abs_def hashmap_inv_def map_of_entries)

lemma hashmap_key_slot:
  assumes "hashmap_inv hm" "e \<in> set (all_entries (hm_slots hm))"
  shows "e \<in> set (slot_list (hm_slots hm ! hashmap_slot hm (e_key e)))"
proof -
  obtain t where "t < length (hm_slots hm)" "e \<in> set (slot_list (hm_slots hm ! t))"
    using assms(2) by (auto simp: all_entries_def in_set_conv_nth [of _ "hm_slots hm"])
  then show ?thesis
    using assms(1) by (auto simp: hashmap_inv_def placed_in_def hashmap_slot_def)
qed

lemma hashmap_slot_entries:
  "hashmap_inv hm \<Longrightarrow> s < hm_num_slots hm \<Longrightarrow>
    set (slot_list (hm_slots hm ! s)) \<subseteq> set (all_entries (hm_slots hm)) \<and> slot_inv (hm_slots hm ! s)"
  unfolding hashmap_inv_def all_entries_set by (metis UN_upper nth_mem)

lemma hashmap_abs_miss:
  assumes "hashmap_inv hm" "key \<notin> e_key ` set (slot_list (hm_slots hm ! hashmap_slot hm key))"
  shows "hashmap_abs hm key = None"
proof (rule ccontr)
  assume "hashmap_abs hm key \<noteq> None"
  then obtain e where "e \<in> set (all_entries (hm_slots hm))" "e_key e = key"
    using assms by (auto simp: hashmap_abs_Some)
  then show False using assms(2) hashmap_key_slot [OF assms(1)] by blast
qed

lemma hashmap_get_eq:
  assumes "hashmap_inv hm"
  shows "zbx_hashmap_get hm key = map_get (hashmap_abs hm) key"
proof (cases "hm_num_slots hm = 0")
  case True
  then have "hm_slots hm = []" using assms by (simp add: hashmap_inv_def)
  then show ?thesis using True by (simp add: zbx_hashmap_get_def map_get_def hashmap_abs_def entries_map_def all_entries_def)
next
  case False
  define slot where "slot = hm_slots hm ! hashmap_slot hm key"
  have slot: "set (slot_list slot) \<subseteq> set (all_entries (hm_slots hm))" "slot_inv slot"
    using hashmap_slot_entries [OF assms hashmap_slot_less [OF False]] by (auto simp: slot_def)
  have c: "\<And>x y. hm_compare hm x y = 0 \<longleftrightarrow> x = y" using assms by (simp add: hashmap_inv_def)
  from slot(2) c show ?thesis
  proof (cases rule: hashmap_find_cases [where key = key])
    case (hit i)
    then have "hashmap_abs hm key = Some (e_value (s_entries slot ! i))"
      using assms slot(1) by (auto simp: hashmap_abs_Some)
    then show ?thesis using hit False by (simp add: zbx_hashmap_get_def map_get_def slot_def [symmetric])
  next
    case miss
    have "hashmap_abs hm key = None" by (rule hashmap_abs_miss [OF assms]) (use miss(2) in \<open>simp add: slot_def\<close>)
    then show ?thesis using miss False by (simp add: zbx_hashmap_get_def map_get_def slot_def [symmetric])
  qed
qed

lemma entries_map_add:
  assumes "mset ys = add_mset e (mset xs)"
  shows "distinct (map e_key ys) \<longleftrightarrow> e_key e \<notin> e_key ` set xs \<and> distinct (map e_key xs)"
    and "distinct (map e_key ys) \<Longrightarrow> entries_map ys = (entries_map xs)(e_key e \<mapsto> e_value e)"
proof -
  have ms: "mset ys = mset (e # xs)" using assms by simp
  have "mset (map e_key ys) = mset (map e_key (e # xs))" using ms by (metis mset_map)
  then have d: "distinct (map e_key ys) \<longleftrightarrow> distinct (map e_key (e # xs))" by (rule mset_eq_imp_distinct_iff)
  then show "distinct (map e_key ys) \<longleftrightarrow> e_key e \<notin> e_key ` set xs \<and> distinct (map e_key xs)" by simp
  assume ys: "distinct (map e_key ys)"
  have "map_of (map (\<lambda>e. (e_key e, e_value e)) ys) = map_of (map (\<lambda>e. (e_key e, e_value e)) (e # xs))"
    using ys d mset_eq_setD [OF ms] by (subst map_of_inject_set) (simp_all add: comp_def)
  then show "entries_map ys = (entries_map xs)(e_key e \<mapsto> e_value e)" by (simp add: entries_map_def)
qed

lemma entries_map_replace:
  assumes "mset ys + {#e#} = mset xs + {#e'#}" "e_key e' = e_key e" "e \<in> set xs" "distinct (map e_key xs)"
  shows "distinct (map e_key ys)" "entries_map ys = (entries_map xs)(e_key e \<mapsto> e_value e')"
proof -
  obtain zs where zs: "mset zs = mset xs - {#e#}" using ex_mset by blast
  have x: "mset xs = add_mset e (mset zs)" using zs assms(3) by simp
  moreover have y: "mset ys = add_mset e' (mset zs)" using assms(1) x by simp
  ultimately show d: "distinct (map e_key ys)"
    using entries_map_add(1) [OF x] entries_map_add(1) [OF y] assms(2,4) by simp
  show "entries_map ys = (entries_map xs)(e_key e \<mapsto> e_value e')"
    using entries_map_add(2) [OF x assms(4)] entries_map_add(2) [OF y d] assms(2) by simp
qed

lemma entries_map_Nil [simp]: "entries_map [] = Map.empty"
  by (simp add: entries_map_def)

text \<open>Writing a slot whose entries hash to it keeps the structural part of the invariant.\<close>

lemma placed_update:
  assumes "placed_in h n UNIV slots" "slot_inv slot" "\<forall>e\<in>set (slot_list slot). unat (h (e_key e)) mod n = s"
  shows "placed_in h n UNIV (slots[s := slot])"
  unfolding placed_in_def
proof (intro ballI impI)
  fix t e assume "t < length (slots[s := slot])" "e \<in> set (slot_list (slots[s := slot] ! t))"
  then show "unat (h (e_key e)) mod n = t"
    using assms by (cases "t = s") (auto simp: placed_in_def)
qed

lemma placed_shrink:
  "placed_in h n UNIV slots \<Longrightarrow> s < length slots \<Longrightarrow> e \<in> set (slot_list (slots ! s)) \<Longrightarrow> unat (h (e_key e)) mod n = s"
  by (simp add: placed_in_def)

lemma slots_inv_update:
  "\<forall>slot\<in>set slots. slot_inv slot \<Longrightarrow> slot_inv slot' \<Longrightarrow> \<forall>slot\<in>set (slots[s := slot']). slot_inv slot"
  using set_update_subset_insert [of slots s slot'] by blast

lemma hashmap_invD:
  assumes "hashmap_inv hm"
  shows "length (hm_slots hm) = hm_num_slots hm" "\<forall>slot\<in>set (hm_slots hm). slot_inv slot"
    "placed_in (hm_hash hm) (hm_num_slots hm) UNIV (hm_slots hm)"
    "distinct (map e_key (all_entries (hm_slots hm)))" "hm_num_data hm = length (all_entries (hm_slots hm))"
    "hm_num_slots hm \<noteq> 0 \<Longrightarrow> prime_number (hm_num_slots hm)" 
    "hm_num_slots hm \<noteq> 0 \<Longrightarrow> hm_num_data hm < hm_num_slots hm * 5"
    "hm_compare hm x y = 0 \<longleftrightarrow> x = y"
  using assms by (auto simp: hashmap_inv_def)

lemma hashmap_remove_eq:
  assumes "hashmap_inv hm"
  shows "hashmap_inv (zbx_hashmap_remove hm key) \<and>
    hashmap_abs (zbx_hashmap_remove hm key) = map_remove (hashmap_abs hm) key"
proof (cases "hm_num_slots hm = 0")
  case True
  then have "hm_slots hm = []" using assms by (simp add: hashmap_inv_def)
  then show ?thesis using True assms by (simp add: zbx_hashmap_remove_def map_remove_def hashmap_abs_def all_entries_def)
next
  case False
  note inv = hashmap_invD [OF assms]
  define s where "s = hashmap_slot hm key"
  define slot where "slot = hm_slots hm ! s"
  have s: "s < length (hm_slots hm)" using hashmap_slot_less [OF False] inv(1) by (simp add: s_def)
  have slot: "slot_inv slot" using inv(2) s by (simp add: slot_def)
  from slot inv(8) show ?thesis
  proof (cases rule: hashmap_find_cases [where key = key])
    case (hit i)
    define slots where "slots = (hm_slots hm)[s := hashmap_slot_drop slot i]"
    have eq: "zbx_hashmap_remove hm key = hm\<lparr>hm_slots := slots, hm_num_data := hm_num_data hm - 1\<rparr>"
      using hit False by (simp add: zbx_hashmap_remove_def slot_def s_def slots_def Let_def)
    have m: "mset (all_entries (hm_slots hm)) = add_mset (s_entries slot ! i) (mset (all_entries slots))"
      using all_entries_update [OF s, of "hashmap_slot_drop slot i"] slot_drop(2) [OF slot hit(2)]
      by (simp add: slots_def slot_def [symmetric])
    have d: "e_key (s_entries slot ! i) \<notin> e_key ` set (all_entries slots)" "distinct (map e_key (all_entries slots))"
      using entries_map_add(1) [OF m] inv(4) by auto
    have "hashmap_abs hm = (entries_map (all_entries slots))(key \<mapsto> e_value (s_entries slot ! i))"
      using entries_map_add(2) [OF m inv(4)] hit(3) by (simp add: hashmap_abs_def)
    moreover have "entries_map (all_entries slots) key = None"
      using d hit(3) by (auto simp: entries_map_def map_of_eq_None_iff)
    ultimately have "entries_map (all_entries slots) = map_remove (hashmap_abs hm) key"
      by (auto simp: map_remove_def)
    moreover have "\<forall>slot\<in>set slots. slot_inv slot"
      unfolding slots_def by (rule slots_inv_update [OF inv(2) slot_drop(1) [OF slot hit(2)]])
    moreover have "placed_in (hm_hash hm) (hm_num_slots hm) UNIV slots"
      unfolding slots_def
      using placed_shrink [OF inv(3) s] set_slot_drop [OF slot hit(2)] slot_drop(1) [OF slot hit(2)]
      by (intro placed_update [OF inv(3)]) (auto simp: slot_def)
    moreover have "length (all_entries (hm_slots hm)) = Suc (length (all_entries slots))"
      using arg_cong [OF m, of size] by simp
    ultimately show ?thesis
      using d(2) inv by (auto simp: eq hashmap_inv_def hashmap_abs_def slots_def)
  next
    case miss
    have "hashmap_abs hm key = None" by (rule hashmap_abs_miss [OF assms]) (use miss(2) in \<open>simp add: slot_def s_def\<close>)
    then show ?thesis using miss False assms
      by (simp add: zbx_hashmap_remove_def slot_def s_def map_remove_def fun_upd_idem)
  qed
qed

text \<open>Growing the slot array and moving the entries keeps the map, for any larger prime.\<close>

lemma hashmap_rehash_inv:
  assumes "length slots = n" "\<forall>slot\<in>set slots. slot_inv slot" "placed_in h n UNIV slots" "n \<le> inc_slots"
  defines "res \<equiv> \<lambda>junk. hashmap_rehash junk h inc_slots n 0 (realloc_cells zero_slot inc_slots slots)"
  shows "length (res junk) = inc_slots \<and> (\<forall>slot\<in>set (res junk). slot_inv slot) \<and>
    mset (all_entries (res junk)) = mset (all_entries slots) \<and> placed_in h inc_slots UNIV (res junk)"
proof -
  have r: "realloc_cells zero_slot inc_slots slots = slots @ replicate (inc_slots - n) zero_slot"
    using assms(1,4) by (simp add: realloc_cells_def)
  have "let r = hashmap_rehash junk h inc_slots n 0 (slots @ replicate (inc_slots - n) zero_slot) in
    length r = inc_slots \<and> (\<forall>slot\<in>set r. slot_inv slot) \<and>
    mset (all_entries r) = mset (all_entries (slots @ replicate (inc_slots - n) zero_slot)) \<and> placed_in h inc_slots UNIV r"
    using assms(1,2,4) by (intro hashmap_rehash) (auto simp: placed_in_def nth_append)
  moreover have "all_entries (slots @ replicate (inc_slots - n) zero_slot) = all_entries slots"
    by (simp add: all_entries_def)
  ultimately show ?thesis by (simp add: res_def r Let_def)
qed

lemma next_prime_growth:
  assumes "prime_number n" shows "n < next_prime (n * 3 div 2)"
  using next_prime_ge [of "n * 3 div 2"] prime_number_ge_2 [OF assms] by linarith

lemma hashmap_set_hit:
  assumes "hashmap_inv hm" "hm_num_slots hm \<noteq> 0" "i < s_num (hm_slots hm ! hashmap_slot hm key)"
    and "e_key (s_entries (hm_slots hm ! hashmap_slot hm key) ! i) = key"
  defines "s \<equiv> hashmap_slot hm key"
  defines "slot \<equiv> hm_slots hm ! s"
  defines "hm' \<equiv> \<lambda>v. hm\<lparr>hm_slots := (hm_slots hm)[s := slot\<lparr>s_entries := (s_entries slot)[i := (s_entries slot ! i)\<lparr>e_value := v\<rparr>]\<rparr>]\<rparr>"
  shows "hashmap_inv (hm' v) \<and> hashmap_abs (hm' v) = map_put (hashmap_abs hm) key v"
proof -
  note inv = hashmap_invD [OF assms(1)]
  define e where "e = s_entries slot ! i"
  define slot' where "slot' = slot\<lparr>s_entries := (s_entries slot)[i := e\<lparr>e_value := v\<rparr>]\<rparr>"
  define slots where "slots = (hm_slots hm)[s := slot']"
  have s: "s < length (hm_slots hm)" using hashmap_slot_less [OF assms(2)] inv(1) by (simp add: s_def)
  have slot: "slot_inv slot" "i < s_num slot" "e_key e = key" using inv(2) s assms(3,4) by (simp_all add: slot_def s_def e_def)
  have sl: "slot_list slot' = (slot_list slot)[i := e\<lparr>e_value := v\<rparr>]" "slot_inv slot'"
    using slot by (auto simp: slot'_def slot_list_def slot_inv_def take_update_swap)
  have es: "slot_list slot ! i = e" "i < length (slot_list slot)" using slot by (simp_all add: e_def)
  have ms: "mset (slot_list slot') + {#e#} = mset (slot_list slot) + {#e\<lparr>e_value := v\<rparr>#}"
    using mset_split_at [OF es(2)] es by (simp add: sl(1) mset_list_update)
  have m: "mset (all_entries slots) + {#e#} = mset (all_entries (hm_slots hm)) + {#e\<lparr>e_value := v\<rparr>#}"
  proof -
    have "mset (all_entries slots) + mset (slot_list slot) + {#e#} =
        mset (all_entries (hm_slots hm)) + (mset (slot_list slot') + {#e#})"
      using all_entries_update [OF s, of slot'] by (simp add: slots_def slot_def)
    then show ?thesis unfolding ms by (simp add: add.commute add.left_commute)
  qed
  have ein: "e \<in> set (slot_list slot)" using es nth_mem by metis
  have eall: "e \<in> set (all_entries (hm_slots hm))"
    using ein hashmap_slot_entries [OF assms(1), of s] s inv(1) by (auto simp: slot_def)
  note rep = entries_map_replace [OF m _ eall inv(4)]
  have "placed_in (hm_hash hm) (hm_num_slots hm) UNIV slots"
    unfolding slots_def
  proof (rule placed_update [OF inv(3) sl(2)], rule ballI)
    fix f assume "f \<in> set (slot_list slot')"
    then have "f \<in> set (slot_list slot) \<or> f = e\<lparr>e_value := v\<rparr>"
      using set_update_subset_insert [of "slot_list slot" i "e\<lparr>e_value := v\<rparr>"] by (auto simp: sl(1))
    then show "unat (hm_hash hm (e_key f)) mod hm_num_slots hm = s"
      using placed_shrink [OF inv(3) s, folded slot_def] ein by auto
  qed
  moreover have "\<forall>slot\<in>set slots. slot_inv slot"
    unfolding slots_def by (rule slots_inv_update [OF inv(2) sl(2)])
  moreover have "length (all_entries slots) = length (all_entries (hm_slots hm))" using arg_cong [OF m, of size] by simp
  ultimately have "hashmap_inv (hm\<lparr>hm_slots := slots\<rparr>)"
    using rep(1) inv by (auto simp: hashmap_inv_def slots_def)
  moreover have "hashmap_abs (hm\<lparr>hm_slots := slots\<rparr>) = map_put (hashmap_abs hm) key v"
    using rep(2) slot(3) by (simp add: hashmap_abs_def map_put_def)
  ultimately show ?thesis by (simp add: hm'_def slots_def slot'_def e_def)
qed

lemma hashmap_set_miss:
  fixes hm key v junk
  assumes "hashmap_inv hm" "hm_num_slots hm \<noteq> 0" "hashmap_abs hm key = None"
  defines "s \<equiv> hashmap_slot hm key"
  defines "slots \<equiv> (hm_slots hm)[s := hashmap_slot_append junk (hm_slots hm ! s) \<lparr>e_key = key, e_value = v\<rparr>]"
  shows "length slots = hm_num_slots hm" "\<forall>slot\<in>set slots. slot_inv slot"
    "placed_in (hm_hash hm) (hm_num_slots hm) UNIV slots"
    "mset (all_entries slots) = add_mset \<lparr>e_key = key, e_value = v\<rparr> (mset (all_entries (hm_slots hm)))"
proof -
  note inv = hashmap_invD [OF assms(1)]
  define e where "e = \<lparr>e_key = key, e_value = v\<rparr>"
  define slot where "slot = hm_slots hm ! s"
  have s: "s < length (hm_slots hm)" using hashmap_slot_less [OF assms(2)] inv(1) by (simp add: s_def)
  have slot: "slot_inv slot" using inv(2) s by (simp add: slot_def)
  note app = slot_append [OF slot, of junk e]
  show "length slots = hm_num_slots hm" using inv(1) by (simp add: slots_def)
  show "\<forall>slot\<in>set slots. slot_inv slot"
    unfolding slots_def by (rule slots_inv_update [OF inv(2)]) (use app(1) in \<open>simp add: slot_def e_def\<close>)
  show "placed_in (hm_hash hm) (hm_num_slots hm) UNIV slots"
    unfolding slots_def slot_def [symmetric] e_def [symmetric]
    using placed_shrink [OF inv(3) s, folded slot_def]
    by (intro placed_update [OF inv(3) app(1)]) (auto simp: app(2) [unfolded e_def] e_def s_def hashmap_slot_def)
  show "mset (all_entries slots) = add_mset \<lparr>e_key = key, e_value = v\<rparr> (mset (all_entries (hm_slots hm)))"
    using all_entries_update [OF s, of "hashmap_slot_append junk slot e"] app(2) by (simp add: slots_def slot_def e_def)
qed

lemma hashmap_set_eq:
  assumes "hashmap_inv hm"
  shows "hashmap_inv (zbx_hashmap_set junk hm key v) \<and>
    hashmap_abs (zbx_hashmap_set junk hm key v) = map_put (hashmap_abs hm) key v"
proof -
  define hm0 where "hm0 = (if 0 = hm_num_slots hm then zbx_hashmap_init_slots hm 10 else hm)"
  have inv0: "hashmap_inv hm0"
    using assms hashmap_init_slots [of hm 10] by (auto simp: hm0_def hashmap_inv_def)
  have n0: "hm_num_slots hm0 \<noteq> 0"
    using next_prime_pos [of 10] by (simp add: hm0_def zbx_hashmap_init_slots_def Let_def)
  have abs0: "hashmap_abs hm0 = hashmap_abs hm"
    using assms by (auto simp: hm0_def zbx_hashmap_init_slots_def Let_def hashmap_abs_def hashmap_inv_def all_entries_def)
  note inv = hashmap_invD [OF inv0]
  define s where "s = hashmap_slot hm0 key"
  define slot where "slot = hm_slots hm0 ! s"
  have slot: "slot_inv slot"
    using inv(1,2) hashmap_slot_less [OF n0] by (simp add: s_def slot_def)
  from slot inv(8) show ?thesis
  proof (cases rule: hashmap_find_cases [where key = key])
    case (hit i)
    then show ?thesis
      using hashmap_set_hit [OF inv0 n0, of i key v] abs0
      unfolding zbx_hashmap_set_def Let_def hm0_def [symmetric] s_def [symmetric] slot_def [symmetric] by simp
  next
    case miss
    have none: "hashmap_abs hm0 key = None"
      by (rule hashmap_abs_miss [OF inv0]) (use miss(2) in \<open>simp add: slot_def s_def\<close>)
    define e where "e = \<lparr>e_key = key, e_value = v\<rparr>"
    define slots where "slots = (hm_slots hm0)[s := hashmap_slot_append junk slot e]"
    define num where "num = hm_num_data hm0 + 1"
    note st = hashmap_set_miss [OF inv0 n0 none, of junk v, folded s_def, folded slot_def e_def, folded slots_def]
    have d: "distinct (map e_key (all_entries slots))"
      using entries_map_add(1) [OF st(4)] inv(4) none
      by (auto simp: e_def hashmap_abs_def entries_map_def map_of_eq_None_iff image_image)
    have abs: "entries_map (all_entries slots) = map_put (hashmap_abs hm) key v"
      using entries_map_add(2) [OF st(4) d] abs0 by (simp add: e_def hashmap_abs_def map_put_def)
    have len: "length (all_entries slots) = num" using arg_cong [OF st(4), of size] inv(5) by (simp add: num_def)
    define inc where "inc = next_prime (hm_num_slots hm0 * 3 div 2)"
    have inc: "hm_num_slots hm0 < inc" using next_prime_growth [OF inv(6) [OF n0]] by (simp add: inc_def)
    define res where "res = hashmap_rehash junk (hm_hash hm0) inc (hm_num_slots hm0) 0 (realloc_cells zero_slot inc slots)"
    have eq: "zbx_hashmap_set junk hm key v =
        (if num \<ge> hm_num_slots hm0 * 5 then hm0\<lparr>hm_slots := res, hm_num_data := num, hm_num_slots := inc\<rparr>
         else hm0\<lparr>hm_slots := slots, hm_num_data := num\<rparr>)"
      unfolding zbx_hashmap_set_def Let_def hm0_def [symmetric] s_def [symmetric] slot_def [symmetric] e_def [symmetric]
      using miss(1) by (simp add: slots_def num_def inc_def res_def)
    show ?thesis
    proof (cases "num \<ge> hm_num_slots hm0 * 5")
      case False
      then show ?thesis
        using st d abs len inv(6,8) by (auto simp: eq hashmap_inv_def hashmap_abs_def)
    next
      case True
      have r: "length res = inc" "\<forall>slot\<in>set res. slot_inv slot" "mset (all_entries res) = mset (all_entries slots)"
          "placed_in (hm_hash hm0) inc UNIV res"
        using hashmap_rehash_inv [OF st(1-3) less_imp_le [OF inc], of junk] by (simp_all add: res_def)
      have mk: "mset (map e_key (all_entries res)) = mset (map e_key (all_entries slots))" using r(3) by simp
      have dr: "distinct (map e_key (all_entries res))" using d mset_eq_imp_distinct_iff [OF mk] by simp
      have "entries_map (all_entries res) = entries_map (all_entries slots)"
        unfolding entries_map_def using d dr mset_eq_setD [OF r(3)]
        by (subst map_of_inject_set) (simp_all add: comp_def)
      moreover have "num < inc * 5" using inv(7) [OF n0] inc by (simp add: num_def)
      moreover have "length (all_entries res) = num" using len mset_eq_length [OF r(3)] by simp
      moreover have "prime_number inc" by (simp add: inc_def prime_next_prime)
      ultimately show ?thesis
        using True r dr abs inv(8) by (auto simp: eq hashmap_inv_def hashmap_abs_def)
    qed
  qed
qed

lemma hashmap_clear_eq:
  assumes "hashmap_inv hm"
  shows "hashmap_inv (zbx_hashmap_clear hm) \<and> hashmap_abs (zbx_hashmap_clear hm) = map_clear (hashmap_abs hm)"
proof -
  have "slot_list (slot\<lparr>s_num := 0\<rparr>) = []" for slot by (simp add: slot_list_def)
  then have "all_entries (map (\<lambda>slot. slot\<lparr>s_num := 0\<rparr>) slots) = []" for slots
    by (simp add: all_entries_def comp_def)
  then show ?thesis
    using assms by (auto simp: hashmap_inv_def hashmap_abs_def zbx_hashmap_clear_def map_clear_def placed_in_def
        slot_inv_def slot_list_def)
qed

interpretation hashmap: key_index hashmap_inv hashmap_abs zbx_hashmap_get "zbx_hashmap_set junk"
    zbx_hashmap_remove zbx_hashmap_clear for junk
  by unfold_locales (simp_all add: hashmap_get_eq hashmap_set_eq hashmap_remove_eq hashmap_clear_eq)

section \<open>Properties\<close>

text \<open>C5. Any sequence of set, remove, get and clear calls on a hash map created with any initial size
  returns what a finite map returns (-1 for a missing key), whatever rehashes happen on the way.\<close>

theorem hashmap_refines_map:
  "fst (index_run zbx_hashmap_get (zbx_hashmap_set junk) zbx_hashmap_remove zbx_hashmap_clear ops
      (zbx_hashmap_create init_size)) =
   fst (index_run map_get map_put map_remove map_clear ops Map.empty)"
  using hashmap.run_refines [OF hashmap_create(1)] by simp

text \<open>C29. In every state that such a sequence reaches, each key is stored once, in the slot its hash
  selects, the entry counter is exact, and the load stays below five entries per slot.\<close>

theorem hashmap_reachable_inv:
  "let hm = snd (index_run zbx_hashmap_get (zbx_hashmap_set junk) zbx_hashmap_remove zbx_hashmap_clear ops
      (zbx_hashmap_create init_size))
   in distinct (map e_key (all_entries (hm_slots hm))) \<and>
      placed_in (hm_hash hm) (hm_num_slots hm) UNIV (hm_slots hm) \<and>
      hm_num_data hm = length (all_entries (hm_slots hm)) \<and>
      (hm_num_slots hm = 0 \<or> hm_num_data hm < hm_num_slots hm * 5)"
  using hashmap_invD [OF conjunct2 [OF hashmap.run_refines [OF hashmap_create(1), of junk ops init_size]]]
  unfolding Let_def by blast

end
