(* ===== verification/PriorityQueue.thy ===== *)
theory PriorityQueue
  imports AlgoDefs
begin

text \<open>
  The interface of a priority queue ordered by a comparison callback: what its client relies on,
  and the client's lemma that draining a queue lists its elements in order.
\<close>

fun insert_all :: "('e \<Rightarrow> 'h \<Rightarrow> 'h outcome) \<Rightarrow> 'e list \<Rightarrow> 'h \<Rightarrow> 'h outcome" where
  "insert_all ins [] h = Inr h"
| "insert_all ins (e # es) h = (case ins e h of Inl f \<Rightarrow> Inl f | Inr h' \<Rightarrow> insert_all ins es h')"

fun drain :: "('h \<Rightarrow> 'e outcome) \<Rightarrow> ('h \<Rightarrow> 'h outcome) \<Rightarrow> nat \<Rightarrow> 'h \<Rightarrow> 'e list outcome" where
  "drain find_min remove_min 0 h = Inr []"
| "drain find_min remove_min (Suc n) h =
    (case find_min h of Inl f \<Rightarrow> Inl f
     | Inr e \<Rightarrow>
         (case remove_min h of Inl f \<Rightarrow> Inl f
          | Inr h' \<Rightarrow> map_sum id ((#) e) (drain find_min remove_min n h')))"

locale priority_queue =
  fixes cmp :: "'e \<Rightarrow> 'e \<Rightarrow> int"
    and inv :: "'h \<Rightarrow> bool"
    and contents :: "'h \<Rightarrow> 'e multiset"
    and accepts :: "'e \<Rightarrow> 'e multiset \<Rightarrow> bool"
    and ins :: "'e \<Rightarrow> 'h \<Rightarrow> 'h outcome"
    and find_min :: "'h \<Rightarrow> 'e outcome"
    and remove_min :: "'h \<Rightarrow> 'h outcome"
  assumes order: "inv h \<Longrightarrow> compare_func cmp"
    and insert_ok: "inv h \<Longrightarrow> accepts e (contents h) \<Longrightarrow>
      \<exists>h'. ins e h = Inr h' \<and> inv h' \<and> contents h' = add_mset e (contents h)"
    and find_min_ok: "inv h \<Longrightarrow> contents h \<noteq> {#} \<Longrightarrow>
      \<exists>e. find_min h = Inr e \<and> e \<in># contents h \<and> (\<forall>x\<in>#contents h. cmp e x \<le> 0)"
    and remove_min_ok: "inv h \<Longrightarrow> contents h \<noteq> {#} \<Longrightarrow> find_min h = Inr e \<Longrightarrow>
      \<exists>h'. remove_min h = Inr h' \<and> inv h' \<and> contents h = add_mset e (contents h')"
begin

lemma drain_sorted:
  "inv h \<Longrightarrow> size (contents h) = n \<Longrightarrow>
    \<exists>es. drain find_min remove_min n h = Inr es \<and> mset es = contents h \<and> sorted_wrt (\<lambda>x y. cmp x y \<le> 0) es"
proof (induction n arbitrary: h)
  case 0
  then show ?case by simp
next
  case (Suc n)
  have ne: "contents h \<noteq> {#}" using Suc.prems(2) by auto
  obtain e where e: "find_min h = Inr e" "\<forall>x\<in>#contents h. cmp e x \<le> 0"
    using find_min_ok [OF Suc.prems(1) ne] by blast
  obtain h' where h': "remove_min h = Inr h'" "inv h'" "contents h = add_mset e (contents h')"
    using remove_min_ok [OF Suc.prems(1) ne e(1)] by blast
  have "size (contents h') = n" using Suc.prems(2) h'(3) by simp
  from Suc.IH [OF h'(2) this] obtain es where
    es: "drain find_min remove_min n h' = Inr es" "mset es = contents h'" "sorted_wrt (\<lambda>x y. cmp x y \<le> 0) es"
    by blast
  have "\<forall>x\<in>set es. cmp e x \<le> 0" using e(2) h'(3) es(2) by (metis in_multiset_in_set insert_iff set_mset_add_mset_insert)
  then show ?case using e h' es by simp
qed

end

end
