(* ===== verification/BinaryHeap.thy ===== *)
theory BinaryHeap
  imports PriorityQueue HashMap
begin

text \<open>
  The binary min-heap (\<open>src/libs/zbxalgo/binaryheap.c\<close>): an implicit tree in an array, ordered by
  a comparison callback, with the optional index from keys to positions
  (\<open>ZBX_BINARY_HEAP_OPTION_DIRECT\<close>) that its direct update and removal use. The index is the
  hash map of HashMap; \<open>None\<close> is the NULL pointer. The arguments \<open>ej\<close> and \<open>junk\<close> are the contents
  of fresh cells of the index and of the heap.
\<close>

section \<open>State\<close>

record 'd zbx_binary_heap_elem =
  h_key :: u64
  h_data :: 'd

record 'd zbx_binary_heap =
  bh_elems :: "'d zbx_binary_heap_elem list"
  bh_num :: nat
  bh_alloc :: nat
  bh_options :: nat
  bh_compare :: "'d zbx_binary_heap_elem \<Rightarrow> 'd zbx_binary_heap_elem \<Rightarrow> int"
  bh_index :: "zbx_hashmap option"

definition HAS_DIRECT_OPTION :: "'d zbx_binary_heap \<Rightarrow> bool" where
  "HAS_DIRECT_OPTION h \<longleftrightarrow> 0 \<noteq> bh_options h mod 2"

section \<open>Operations\<close>

definition heap_index_set :: "zbx_hashmap_entry \<Rightarrow> 'd zbx_binary_heap \<Rightarrow> u64 \<Rightarrow> nat \<Rightarrow> 'd zbx_binary_heap" where
  "heap_index_set ej h key i = h\<lparr>bh_index := map_option (\<lambda>m. zbx_hashmap_set ej m key (int i)) (bh_index h)\<rparr>"

definition heap_index_remove :: "'d zbx_binary_heap \<Rightarrow> u64 \<Rightarrow> 'd zbx_binary_heap" where
  "heap_index_remove h key = h\<lparr>bh_index := map_option (\<lambda>m. zbx_hashmap_remove m key) (bh_index h)\<rparr>"

definition heap_index_get :: "'d zbx_binary_heap \<Rightarrow> u64 \<Rightarrow> int" where
  "heap_index_get h key = (case bh_index h of Some m \<Rightarrow> zbx_hashmap_get m key | None \<Rightarrow> -1)"

definition heap_swap :: "zbx_hashmap_entry \<Rightarrow> 'd zbx_binary_heap \<Rightarrow> nat \<Rightarrow> nat \<Rightarrow> 'd zbx_binary_heap" where
  "heap_swap ej h i1 i2 =
    (let tmp = bh_elems h ! i1;
         elems = (bh_elems h)[i1 := bh_elems h ! i2];
         elems = elems[i2 := tmp];
         h = h\<lparr>bh_elems := elems\<rparr>
     in if HAS_DIRECT_OPTION h then
          let h = heap_index_set ej h (h_key (bh_elems h ! i1)) i1
          in heap_index_set ej h (h_key (bh_elems h ! i2)) i2
        else h)"

definition binary_heap_ensure_free_space :: "'d zbx_binary_heap_elem \<Rightarrow> 'd zbx_binary_heap \<Rightarrow> 'd zbx_binary_heap" where
  "binary_heap_ensure_free_space junk h =
    (let tmp = bh_alloc h;
         (h, tmp) =
           (if bh_elems h = [] then (h\<lparr>bh_num := 0\<rparr>, 32)
            else if bh_num h = bh_alloc h then (h, max (bh_alloc h + 1) (bh_alloc h * 3 div 2))
            else (h, tmp))
     in if bh_alloc h \<noteq> tmp then
          h\<lparr>bh_elems := realloc_cells junk tmp (bh_elems h), bh_alloc := tmp\<rparr>
        else h)"

function binary_heap_bubble_up :: "zbx_hashmap_entry \<Rightarrow> 'd zbx_binary_heap \<Rightarrow> nat \<Rightarrow> 'd zbx_binary_heap \<times> nat" where
  "binary_heap_bubble_up ej h index =
    (if 0 \<noteq> index then
       if bh_compare h (bh_elems h ! ((index - 1) div 2)) (bh_elems h ! index) \<le> 0 then (h, index)
       else binary_heap_bubble_up ej (heap_swap ej h ((index - 1) div 2) index) ((index - 1) div 2)
     else (h, index))"
  by pat_completeness auto
termination by (relation "measure (\<lambda>(ej, h, index). index)") auto

declare binary_heap_bubble_up.simps [simp del]

lemma bh_num_index_set [simp]: "bh_num (heap_index_set ej h k i) = bh_num h"
  by (simp add: heap_index_set_def)

lemma bh_num_swap [simp]: "bh_num (heap_swap ej h i j) = bh_num h"
  by (simp add: heap_swap_def Let_def)

function binary_heap_bubble_down :: "zbx_hashmap_entry \<Rightarrow> 'd zbx_binary_heap \<Rightarrow> nat \<Rightarrow> 'd zbx_binary_heap \<times> nat" where
  "binary_heap_bubble_down ej h index =
    (let left = 2 * index + 1; right = 2 * index + 2
     in if left \<ge> bh_num h then (h, index)
        else if right \<ge> bh_num h then
          if bh_compare h (bh_elems h ! index) (bh_elems h ! left) > 0 then (heap_swap ej h index left, left)
          else (h, index)
        else if bh_compare h (bh_elems h ! left) (bh_elems h ! right) \<le> 0 then
          if bh_compare h (bh_elems h ! index) (bh_elems h ! left) > 0
          then binary_heap_bubble_down ej (heap_swap ej h index left) left
          else (h, index)
        else
          if bh_compare h (bh_elems h ! index) (bh_elems h ! right) > 0
          then binary_heap_bubble_down ej (heap_swap ej h index right) right
          else (h, index))"
  by pat_completeness auto
termination by (relation "measure (\<lambda>(ej, h, index). bh_num h - index)") auto

declare binary_heap_bubble_down.simps [simp del]

definition zbx_binary_heap_create :: "('d zbx_binary_heap_elem \<Rightarrow> 'd zbx_binary_heap_elem \<Rightarrow> int) \<Rightarrow> nat \<Rightarrow> 'd zbx_binary_heap" where
  "zbx_binary_heap_create cmp options =
    (let h = \<lparr>bh_elems = [], bh_num = 0, bh_alloc = 0, bh_options = options, bh_compare = cmp,
              bh_index = None\<rparr>
     in if HAS_DIRECT_OPTION h then
          h\<lparr>bh_index := Some (zbx_hashmap_create_ext 512 zbx_hash_splittable64 zbx_default_uint64_compare_func)\<rparr>
        else h\<lparr>bh_index := None\<rparr>)"

definition zbx_binary_heap_destroy :: "'d zbx_binary_heap \<Rightarrow> 'd zbx_binary_heap" where
  "zbx_binary_heap_destroy h =
    (let h = (if bh_elems h \<noteq> [] then h\<lparr>bh_elems := [], bh_num := 0, bh_alloc := 0\<rparr> else h)
     in if HAS_DIRECT_OPTION h then h\<lparr>bh_index := None, bh_options := 0\<rparr> else h)"

definition zbx_binary_heap_empty :: "'d zbx_binary_heap \<Rightarrow> ret" where
  "zbx_binary_heap_empty h = (if 0 = bh_num h then SUCCEED else FAIL)"

definition zbx_binary_heap_find_min :: "'d zbx_binary_heap \<Rightarrow> 'd zbx_binary_heap_elem outcome" where
  "zbx_binary_heap_find_min h = (if 0 = bh_num h then Inl ExitFailure else Inr (bh_elems h ! 0))"

definition zbx_binary_heap_insert :: "zbx_hashmap_entry \<Rightarrow> 'd zbx_binary_heap_elem \<Rightarrow> 'd zbx_binary_heap_elem \<Rightarrow>
    'd zbx_binary_heap \<Rightarrow> 'd zbx_binary_heap outcome" where
  "zbx_binary_heap_insert ej junk elem h =
    (if HAS_DIRECT_OPTION h \<and> -1 \<noteq> heap_index_get h (h_key elem) then Inl ExitFailure
     else
       let h = binary_heap_ensure_free_space junk h;
           index = bh_num h;
           h = h\<lparr>bh_num := bh_num h + 1, bh_elems := (bh_elems h)[index := elem]\<rparr>;
           (h, index) = binary_heap_bubble_up ej h index
       in if HAS_DIRECT_OPTION h \<and> index = bh_num h - 1 then Inr (heap_index_set ej h (h_key elem) index)
          else Inr h)"

definition zbx_binary_heap_update_direct :: "zbx_hashmap_entry \<Rightarrow> 'd zbx_binary_heap_elem \<Rightarrow>
    'd zbx_binary_heap \<Rightarrow> 'd zbx_binary_heap outcome" where
  "zbx_binary_heap_update_direct ej elem h =
    (if \<not> HAS_DIRECT_OPTION h then Inl ExitFailure
     else
       let index = heap_index_get h (h_key elem)
       in if -1 \<noteq> index then
            let index = nat index;
                h = h\<lparr>bh_elems := (bh_elems h)[index := elem]\<rparr>;
                (h, up) = binary_heap_bubble_up ej h index
            in if index = up then Inr (fst (binary_heap_bubble_down ej h index)) else Inr h
          else Inl ExitFailure)"

definition zbx_binary_heap_remove_min :: "zbx_hashmap_entry \<Rightarrow> 'd zbx_binary_heap \<Rightarrow> 'd zbx_binary_heap outcome" where
  "zbx_binary_heap_remove_min ej h =
    (if 0 = bh_num h then Inl ExitFailure
     else
       let h = (if HAS_DIRECT_OPTION h then heap_index_remove h (h_key (bh_elems h ! 0)) else h);
           h = h\<lparr>bh_num := bh_num h - 1\<rparr>
       in if 0 \<noteq> bh_num h then
            let h = h\<lparr>bh_elems := (bh_elems h)[0 := bh_elems h ! bh_num h]\<rparr>;
                (h, index) = binary_heap_bubble_down ej h 0
            in if HAS_DIRECT_OPTION h \<and> index = 0
               then Inr (heap_index_set ej h (h_key (bh_elems h ! index)) index) else Inr h
          else Inr h)"

definition zbx_binary_heap_remove_direct :: "zbx_hashmap_entry \<Rightarrow> u64 \<Rightarrow> 'd zbx_binary_heap \<Rightarrow> 'd zbx_binary_heap outcome" where
  "zbx_binary_heap_remove_direct ej key h =
    (if \<not> HAS_DIRECT_OPTION h then Inl ExitFailure
     else
       let index = heap_index_get h key
       in if -1 \<noteq> index then
            let index = nat index;
                h = heap_index_remove h key;
                h = h\<lparr>bh_num := bh_num h - 1\<rparr>
            in if index \<noteq> bh_num h then
                 let h = h\<lparr>bh_elems := (bh_elems h)[index := bh_elems h ! bh_num h]\<rparr>;
                     (h, up) = binary_heap_bubble_up ej h index
                 in if index = up then
                      let (h, down) = binary_heap_bubble_down ej h index
                      in if index = down
                         then Inr (heap_index_set ej h (h_key (bh_elems h ! index)) index) else Inr h
                    else Inr h
               else Inr h
          else Inl ExitFailure)"

definition zbx_binary_heap_clear :: "'d zbx_binary_heap \<Rightarrow> 'd zbx_binary_heap" where
  "zbx_binary_heap_clear h =
    (let h = h\<lparr>bh_num := 0\<rparr>
     in if HAS_DIRECT_OPTION h then h\<lparr>bh_index := map_option zbx_hashmap_clear (bh_index h)\<rparr> else h)"

section \<open>The order of the tree\<close>

definition parent :: "nat \<Rightarrow> nat" where
  "parent i = (i - 1) div 2"

lemma parent_less: "0 < i \<Longrightarrow> parent i < i"
  by (simp add: parent_def)

lemma parent_eq_iff: "0 < i \<Longrightarrow> parent i = k \<longleftrightarrow> i = 2 * k + 1 \<or> i = 2 * k + 2"
  unfolding parent_def by presburger

definition swap_cells :: "'a list \<Rightarrow> nat \<Rightarrow> nat \<Rightarrow> 'a list" where
  "swap_cells xs i j = xs[i := xs ! j, j := xs ! i]"

lemma length_swap_cells [simp]: "length (swap_cells xs i j) = length xs"
  by (simp add: swap_cells_def)

lemma nth_swap_cells:
  "i < length xs \<Longrightarrow> j < length xs \<Longrightarrow>
    swap_cells xs i j ! k = (if k = i then xs ! j else if k = j then xs ! i else xs ! k)"
  by (auto simp: swap_cells_def nth_list_update)

lemma take_swap_cells: "i < n \<Longrightarrow> j < n \<Longrightarrow> n \<le> length xs \<Longrightarrow> take n (swap_cells xs i j) = swap_cells (take n xs) i j"
  by (simp add: swap_cells_def take_update_swap)

lemma mset_swap_take:
  "i < n \<Longrightarrow> j < n \<Longrightarrow> n \<le> length xs \<Longrightarrow> mset (take n (swap_cells xs i j)) = mset (take n xs)"
  using mset_swap_cells [of i "take n xs" j] by (subst take_swap_cells) (simp_all add: swap_cells_def)

definition heap_ok :: "('a \<Rightarrow> 'a \<Rightarrow> int) \<Rightarrow> 'a list \<Rightarrow> nat \<Rightarrow> bool" where
  "heap_ok cmp xs n \<longleftrightarrow> (\<forall>i. 0 < i \<and> i < n \<longrightarrow> cmp (xs ! parent i) (xs ! i) \<le> 0)"

text \<open>The order holds but around position \<open>k\<close>, whose children are not below its parent.\<close>

definition hole_ok :: "('a \<Rightarrow> 'a \<Rightarrow> int) \<Rightarrow> 'a list \<Rightarrow> nat \<Rightarrow> nat \<Rightarrow> bool" where
  "hole_ok cmp xs n k \<longleftrightarrow>
    (\<forall>i. 0 < i \<and> i < n \<and> i \<noteq> k \<and> parent i \<noteq> k \<longrightarrow> cmp (xs ! parent i) (xs ! i) \<le> 0) \<and>
    (\<forall>i. 0 < i \<and> i < n \<and> parent i = k \<and> 0 < k \<longrightarrow> cmp (xs ! parent k) (xs ! i) \<le> 0)"

definition above_children :: "('a \<Rightarrow> 'a \<Rightarrow> int) \<Rightarrow> 'a list \<Rightarrow> nat \<Rightarrow> nat \<Rightarrow> bool" where
  "above_children cmp xs n k \<longleftrightarrow> (\<forall>i. 0 < i \<and> i < n \<and> parent i = k \<longrightarrow> cmp (xs ! k) (xs ! i) \<le> 0)"

definition below_parent :: "('a \<Rightarrow> 'a \<Rightarrow> int) \<Rightarrow> 'a list \<Rightarrow> nat \<Rightarrow> bool" where
  "below_parent cmp xs k \<longleftrightarrow> (0 < k \<longrightarrow> cmp (xs ! parent k) (xs ! k) \<le> 0)"

lemma heap_ok_hole:
  assumes "hole_ok cmp xs n k" "above_children cmp xs n k" "below_parent cmp xs k"
  shows "heap_ok cmp xs n"
  unfolding heap_ok_def
proof (intro allI impI)
  fix i assume i: "0 < i \<and> i < n"
  consider "i = k" | "parent i = k" | "i \<noteq> k" "parent i \<noteq> k" by blast
  then show "cmp (xs ! parent i) (xs ! i) \<le> 0"
    using i assms by cases (auto simp: hole_ok_def above_children_def below_parent_def)
qed

context compare_func begin

lemma cmp_gt_le: "\<not> cmp x y \<le> 0 \<Longrightarrow> cmp y x \<le> 0"
  using cmp_flip [of x y] by linarith

lemma swap_up:
  assumes "hole_ok cmp xs n k" "0 < k" "k < n" "n \<le> length xs" "\<not> cmp (xs ! parent k) (xs ! k) \<le> 0"
  shows "hole_ok cmp (swap_cells xs (parent k) k) n (parent k)"
    and "above_children cmp (swap_cells xs (parent k) k) n (parent k)"
proof -
  define p where "p = parent k"
  have p: "p < k" using parent_less assms(2) by (simp add: p_def)
  have nth: "swap_cells xs p k ! j = (if j = p then xs ! k else if j = k then xs ! p else xs ! j)" for j
    using p assms(3,4) by (simp add: nth_swap_cells)
  have kp: "cmp (xs ! k) (xs ! p) \<le> 0" using assms(5) cmp_gt_le by (simp add: p_def)
  have o: "cmp (xs ! parent i) (xs ! i) \<le> 0" if "0 < i" "i < n" "i \<noteq> k" "parent i \<noteq> k" for i
    using assms(1) that by (simp add: hole_ok_def)
  have br: "cmp (xs ! p) (xs ! i) \<le> 0" if "0 < i" "i < n" "parent i = k" for i
    using assms(1,2) that by (simp add: hole_ok_def p_def)
  have sib: "cmp (xs ! p) (xs ! i) \<le> 0" if "0 < i" "i < n" "parent i = p" "i \<noteq> k" for i
    using o [of i] that p by simp
  have "above_children cmp (swap_cells xs p k) n p"
    unfolding above_children_def
  proof (intro allI impI)
    fix i assume i: "0 < i \<and> i < n \<and> parent i = p"
    then have "i \<noteq> p" using parent_less [of i] by auto
    then show "cmp (swap_cells xs p k ! p) (swap_cells xs p k ! i) \<le> 0"
      using i kp sib cmp_trans [OF kp] by (auto simp: nth)
  qed
  moreover have "hole_ok cmp (swap_cells xs p k) n p"
    unfolding hole_ok_def
  proof (intro conjI allI impI)
    fix i assume i: "0 < i \<and> i < n \<and> i \<noteq> p \<and> parent i \<noteq> p"
    then have "i \<noteq> k" by (auto simp: p_def)
    then show "cmp (swap_cells xs p k ! parent i) (swap_cells xs p k ! i) \<le> 0"
      using i o [of i] br [of i] by (auto simp: nth)
  next
    fix i assume i: "0 < i \<and> i < n \<and> parent i = p \<and> 0 < p"
    have pp: "parent p < p" using parent_less i by blast
    have op: "cmp (xs ! parent p) (xs ! p) \<le> 0" using o [of p] i p pp assms(3) by simp
    have "i \<noteq> p" using parent_less [of i] i by auto
    then show "cmp (swap_cells xs p k ! parent p) (swap_cells xs p k ! i) \<le> 0"
      using i p pp op sib [of i] cmp_trans [OF op] by (auto simp: nth)
  qed
  ultimately show "hole_ok cmp (swap_cells xs (parent k) k) n (parent k)"
    and "above_children cmp (swap_cells xs (parent k) k) n (parent k)" by (simp_all add: p_def)
qed

lemma swap_down:
  assumes "hole_ok cmp xs n k" "below_parent cmp xs k" "0 < c" "c < n" "n \<le> length xs" "parent c = k"
    and "0 < cmp (xs ! k) (xs ! c)" "\<And>i. 0 < i \<Longrightarrow> i < n \<Longrightarrow> parent i = k \<Longrightarrow> cmp (xs ! c) (xs ! i) \<le> 0"
  shows "hole_ok cmp (swap_cells xs k c) n c" and "below_parent cmp (swap_cells xs k c) c"
proof -
  have k: "k < c" using parent_less assms(3,6) by auto
  have nth: "swap_cells xs k c ! j = (if j = k then xs ! c else if j = c then xs ! k else xs ! j)" for j
    using k assms(4,5) by (simp add: nth_swap_cells)
  have ck: "cmp (xs ! c) (xs ! k) \<le> 0" using assms(7) cmp_gt_le by simp
  have o: "cmp (xs ! parent i) (xs ! i) \<le> 0" if "0 < i" "i < n" "i \<noteq> k" "parent i \<noteq> k" for i
    using assms(1) that by (simp add: hole_ok_def)
  show "below_parent cmp (swap_cells xs k c) c"
    using ck k assms(6) by (simp add: below_parent_def nth)
  show "hole_ok cmp (swap_cells xs k c) n c"
    unfolding hole_ok_def
  proof (intro conjI allI impI)
    fix i assume i: "0 < i \<and> i < n \<and> i \<noteq> c \<and> parent i \<noteq> c"
    show "cmp (swap_cells xs k c ! parent i) (swap_cells xs k c ! i) \<le> 0"
    proof (cases "i = k")
      case True
      then have "cmp (xs ! parent k) (xs ! c) \<le> 0" "parent k \<noteq> k" "parent k \<noteq> c"
        using assms(1,3,4,6) i parent_less [of k] k by (auto simp: hole_ok_def)
      then show ?thesis using True by (simp add: nth)
    next
      case False
      then show ?thesis using i o [of i] assms(8) [of i] by (auto simp: nth)
    qed
  next
    fix i assume i: "0 < i \<and> i < n \<and> parent i = c \<and> 0 < c"
    then have "c < i" using parent_less by auto
    then have "cmp (xs ! c) (xs ! i) \<le> 0" using o [of i] i k by auto
    then show "cmp (swap_cells xs k c ! parent c) (swap_cells xs k c ! i) \<le> 0"
      using i k \<open>c < i\<close> assms(6) by (auto simp: nth)
  qed
qed

text \<open>The root of a heap is below every element.\<close>

lemma heap_root_le:
  "heap_ok cmp xs n \<Longrightarrow> i < n \<Longrightarrow> cmp (xs ! 0) (xs ! i) \<le> 0"
proof (induction i rule: less_induct)
  case (less i)
  show ?case
  proof (cases "i = 0")
    case True
    then show ?thesis using cmp_refl by simp
  next
    case False
    then have "cmp (xs ! 0) (xs ! parent i) \<le> 0" "cmp (xs ! parent i) (xs ! i) \<le> 0"
      using less parent_less [of i] by (auto simp: heap_ok_def)
    then show ?thesis by (rule cmp_trans)
  qed
qed

end

section \<open>Swapping two elements\<close>

text \<open>What bubbling keeps: everything but the order of the elements and the index.\<close>

definition heap_like :: "'d zbx_binary_heap \<Rightarrow> 'd zbx_binary_heap \<Rightarrow> bool" where
  "heap_like h h' \<longleftrightarrow> bh_num h' = bh_num h \<and> bh_alloc h' = bh_alloc h \<and> bh_options h' = bh_options h \<and>
    bh_compare h' = bh_compare h \<and> length (bh_elems h') = length (bh_elems h) \<and>
    mset (take (bh_num h) (bh_elems h')) = mset (take (bh_num h) (bh_elems h))"

text \<open>The index maps exactly the stored keys to their positions, but for the positions in \<open>ex\<close>.\<close>

definition index_ok :: "'d zbx_binary_heap \<Rightarrow> nat set \<Rightarrow> bool" where
  "index_ok h ex \<longleftrightarrow> (HAS_DIRECT_OPTION h \<longrightarrow>
    distinct (map h_key (take (bh_num h) (bh_elems h))) \<and>
    (\<exists>m. bh_index h = Some m \<and> hashmap_inv m \<and>
      (\<forall>i. i < bh_num h \<and> i \<notin> ex \<longrightarrow> hashmap_abs m (h_key (bh_elems h ! i)) = Some (int i)) \<and>
      dom (hashmap_abs m) \<subseteq> h_key ` set (take (bh_num h) (bh_elems h))))"

lemma heap_like_refl [simp]: "heap_like h h"
  by (simp add: heap_like_def)

lemma heap_like_trans: "heap_like h1 h2 \<Longrightarrow> heap_like h2 h3 \<Longrightarrow> heap_like h1 h3"
  by (simp add: heap_like_def)

lemma direct_index_set [simp]: "HAS_DIRECT_OPTION (heap_index_set ej h k i) = HAS_DIRECT_OPTION h"
  by (simp add: HAS_DIRECT_OPTION_def heap_index_set_def)

lemma direct_elems_update [simp]: "HAS_DIRECT_OPTION (h\<lparr>bh_elems := xs\<rparr>) = HAS_DIRECT_OPTION h"
  "HAS_DIRECT_OPTION (h\<lparr>bh_num := n\<rparr>) = HAS_DIRECT_OPTION h"
  "HAS_DIRECT_OPTION (h\<lparr>bh_index := m\<rparr>) = HAS_DIRECT_OPTION h"
  "HAS_DIRECT_OPTION (h\<lparr>bh_alloc := a\<rparr>) = HAS_DIRECT_OPTION h"
  by (simp_all add: HAS_DIRECT_OPTION_def)

lemma elems_swap [simp]: "bh_elems (heap_swap ej h i j) = swap_cells (bh_elems h) i j"
  by (simp add: heap_swap_def swap_cells_def heap_index_set_def Let_def)

lemma compare_swap [simp]: "bh_compare (heap_swap ej h i j) = bh_compare h"
  by (simp add: heap_swap_def heap_index_set_def Let_def)

lemma direct_swap [simp]: "HAS_DIRECT_OPTION (heap_swap ej h i j) = HAS_DIRECT_OPTION h"
  by (simp add: heap_swap_def Let_def)

lemma heap_like_swap:
  "i < bh_num h \<Longrightarrow> j < bh_num h \<Longrightarrow> bh_num h \<le> length (bh_elems h) \<Longrightarrow> heap_like h (heap_swap ej h i j)"
  unfolding heap_like_def
  by (simp add: mset_swap_take) (simp add: heap_swap_def heap_index_set_def Let_def)

lemma index_ok_set:
  assumes "index_ok h ex" "i < bh_num h" "bh_num h \<le> length (bh_elems h)" "HAS_DIRECT_OPTION h"
  shows "index_ok (heap_index_set ej h (h_key (bh_elems h ! i)) i) (ex - {i})"
proof -
  obtain m where m: "bh_index h = Some m" "hashmap_inv m"
      "\<forall>i. i < bh_num h \<and> i \<notin> ex \<longrightarrow> hashmap_abs m (h_key (bh_elems h ! i)) = Some (int i)"
      "dom (hashmap_abs m) \<subseteq> h_key ` set (take (bh_num h) (bh_elems h))"
      "distinct (map h_key (take (bh_num h) (bh_elems h)))"
    using assms(1,4) by (auto simp: index_ok_def)
  have ne: "h_key (bh_elems h ! j) \<noteq> h_key (bh_elems h ! i)" if "j < bh_num h" "j \<noteq> i" for j
    using m(5) that assms(2,3) by (auto simp: distinct_conv_nth)
  have "bh_elems h ! i \<in> set (take (bh_num h) (bh_elems h))"
    using assms(2,3) by (metis length_take min.absorb2 nth_mem nth_take)
  then show ?thesis
    using m assms(4) ne
    by (auto simp: index_ok_def heap_index_set_def hashmap.put_inv hashmap.put_abs map_put_def)
qed

lemma index_ok_swap:
  assumes "index_ok h ex" "i < bh_num h" "j < bh_num h" "bh_num h \<le> length (bh_elems h)"
  shows "index_ok (heap_swap ej h i j) (ex - {i, j})"
proof (cases "HAS_DIRECT_OPTION h")
  case False
  then show ?thesis by (simp add: index_ok_def)
next
  case True
  define h1 where "h1 = h\<lparr>bh_elems := swap_cells (bh_elems h) i j\<rparr>"
  have ms: "mset (take (bh_num h) (bh_elems h1)) = mset (take (bh_num h) (bh_elems h))"
    using assms by (simp add: h1_def mset_swap_take)
  have mk: "mset (map h_key (take (bh_num h) (bh_elems h1))) = mset (map h_key (take (bh_num h) (bh_elems h)))"
    using ms by simp
  have ix1: "index_ok h1 (ex \<union> {i, j})"
    using assms True unfolding index_ok_def
    by (auto simp: h1_def mset_eq_setD [OF ms, unfolded h1_def, simplified] nth_swap_cells
        mset_eq_imp_distinct_iff [OF mk, unfolded h1_def, simplified])
  have ix2: "index_ok (heap_index_set ej h1 (h_key (bh_elems h1 ! i)) i) (ex \<union> {i, j} - {i})"
    using assms True by (intro index_ok_set [OF ix1]) (simp_all add: h1_def)
  have "index_ok (heap_index_set ej (heap_index_set ej h1 (h_key (bh_elems h1 ! i)) i)
      (h_key (bh_elems (heap_index_set ej h1 (h_key (bh_elems h1 ! i)) i) ! j)) j) (ex \<union> {i, j} - {i} - {j})"
    using assms True by (intro index_ok_set [OF ix2]) (simp_all add: h1_def heap_index_set_def)
  moreover have "heap_swap ej h i j = heap_index_set ej (heap_index_set ej h1 (h_key (bh_elems h1 ! i)) i)
      (h_key (bh_elems (heap_index_set ej h1 (h_key (bh_elems h1 ! i)) i) ! j)) j"
    using True by (simp add: heap_swap_def h1_def swap_cells_def Let_def)
  moreover have "ex \<union> {i, j} - {i} - {j} = ex - {i, j}" by auto
  ultimately show ?thesis by simp
qed

section \<open>Bubbling\<close>

lemma bubble_up:
  assumes "compare_func (bh_compare h)" "hole_ok (bh_compare h) (bh_elems h) (bh_num h) k"
    and "above_children (bh_compare h) (bh_elems h) (bh_num h) k"
    and "k < bh_num h" "bh_num h \<le> length (bh_elems h)" "index_ok h ex" "ex \<subseteq> {k}"
    and "binary_heap_bubble_up ej h k = (h', r)"
  shows "heap_like h h' \<and> heap_ok (bh_compare h) (bh_elems h') (bh_num h) \<and> r \<le> k \<and>
    (if r = k then h' = h else index_ok h' {})"
  using assms
proof (induction ej h k arbitrary: ex rule: binary_heap_bubble_up.induct)
  case (1 ej h k)
  note cmp = "1.prems"(1) and hole = "1.prems"(2) and above = "1.prems"(3) and k = "1.prems"(4,5)
    and ix = "1.prems"(6,7) and res = "1.prems"(8)
  show ?case
  proof (cases "k = 0 \<or> bh_compare h (bh_elems h ! parent k) (bh_elems h ! k) \<le> 0")
    case True
    then have "(h', r) = (h, k)"
      using res by (subst (asm) binary_heap_bubble_up.simps) (auto simp: parent_def split: if_splits)
    moreover have "heap_ok (bh_compare h) (bh_elems h) (bh_num h)"
      using True heap_ok_hole [OF hole above] by (auto simp: below_parent_def)
    ultimately show ?thesis by simp
  next
    case False
    define g where "g = heap_swap ej h (parent k) k"
    have p: "parent k < k" "k \<noteq> 0" using parent_less False by auto
    have eq: "binary_heap_bubble_up ej h k = binary_heap_bubble_up ej g (parent k)"
      using False by (subst binary_heap_bubble_up.simps) (simp add: parent_def g_def)
    have lk: "heap_like h g" unfolding g_def using p k by (intro heap_like_swap) auto
    have g: "bh_compare g = bh_compare h" "bh_num g = bh_num h" "length (bh_elems g) = length (bh_elems h)"
        "bh_elems g = swap_cells (bh_elems h) (parent k) k"
      by (simp_all add: g_def)
    have up: "hole_ok (bh_compare g) (bh_elems g) (bh_num g) (parent k)"
        "above_children (bh_compare g) (bh_elems g) (bh_num g) (parent k)"
      using compare_func.swap_up [OF cmp hole _ k] False by (simp_all add: g)
    have "index_ok g (ex - {parent k, k})" unfolding g_def using p k ix by (intro index_ok_swap) auto
    moreover have "ex - {parent k, k} = {}" using ix by auto
    ultimately have ixg: "index_ok g {}" by simp
    have "heap_like g h' \<and> heap_ok (bh_compare g) (bh_elems h') (bh_num g) \<and> r \<le> parent k \<and>
        (if r = parent k then h' = g else index_ok h' {})"
      using "1.IH" [folded parent_def, folded g_def, of "{}"] False cmp up k p ixg res eq g(1-3) by simp
    then show ?thesis
      using p lk ixg g heap_like_trans [OF lk] by (auto split: if_splits)
  qed
qed

text \<open>With a broken order above as well, the heap either moves up or keeps its hole.\<close>

lemma bubble_up_hole:
  assumes "compare_func (bh_compare h)" "hole_ok (bh_compare h) (bh_elems h) (bh_num h) k"
    and "k < bh_num h" "bh_num h \<le> length (bh_elems h)" "index_ok h ex" "ex \<subseteq> {k}"
    and "binary_heap_bubble_up ej h k = (h', r)"
  shows "if r = k then h' = h \<and> below_parent (bh_compare h) (bh_elems h) k
    else heap_like h h' \<and> heap_ok (bh_compare h) (bh_elems h') (bh_num h) \<and> index_ok h' {}"
proof (cases "k = 0 \<or> bh_compare h (bh_elems h ! parent k) (bh_elems h ! k) \<le> 0")
  case True
  then have "(h', r) = (h, k)"
    using assms(7) by (subst (asm) binary_heap_bubble_up.simps) (auto simp: parent_def split: if_splits)
  then show ?thesis using True by (auto simp: below_parent_def)
next
  case False
  define g where "g = heap_swap ej h (parent k) k"
  have p: "parent k < k" "k \<noteq> 0" using parent_less False by auto
  have lk: "heap_like h g" unfolding g_def using p assms(3,4) by (intro heap_like_swap) auto
  have g: "bh_compare g = bh_compare h" "bh_num g = bh_num h" "length (bh_elems g) = length (bh_elems h)"
      "bh_elems g = swap_cells (bh_elems h) (parent k) k"
    by (simp_all add: g_def)
  have up: "hole_ok (bh_compare g) (bh_elems g) (bh_num g) (parent k)"
      "above_children (bh_compare g) (bh_elems g) (bh_num g) (parent k)"
    using compare_func.swap_up [OF assms(1,2) _ assms(3,4)] False by (simp_all add: g)
  have "index_ok g (ex - {parent k, k})" unfolding g_def using p assms by (intro index_ok_swap) auto
  moreover have "ex - {parent k, k} = {}" using assms(6) by auto
  ultimately have ixg: "index_ok g {}" by simp
  have eq: "binary_heap_bubble_up ej g (parent k) = (h', r)"
    using False assms(7) by (subst (asm) binary_heap_bubble_up.simps) (simp add: parent_def g_def)
  have "heap_like g h' \<and> heap_ok (bh_compare g) (bh_elems h') (bh_num g) \<and> r \<le> parent k \<and>
      (if r = parent k then h' = g else index_ok h' {})"
    using bubble_up [OF _ up _ _ ixg _ eq] assms(1,3,4) p g by simp
  then show ?thesis
    using p lk ixg g heap_like_trans [OF lk] by (auto split: if_splits)
qed

text \<open>One round of bubbling down: stop above the children, or exchange with the smallest child.\<close>

lemma bubble_down_cases:
  assumes "compare_func (bh_compare h)"
  obtains (stop) "binary_heap_bubble_down ej h k = (h, k)" "above_children (bh_compare h) (bh_elems h) (bh_num h) k"
    | (swap) c where "0 < c" "c < bh_num h" "parent c = k" "0 < bh_compare h (bh_elems h ! k) (bh_elems h ! c)"
        "\<And>i. 0 < i \<Longrightarrow> i < bh_num h \<Longrightarrow> parent i = k \<Longrightarrow> bh_compare h (bh_elems h ! c) (bh_elems h ! i) \<le> 0"
        "binary_heap_bubble_down ej h k = binary_heap_bubble_down ej (heap_swap ej h k c) c"
proof -
  note cmp_refl = compare_func.cmp_refl [OF assms] and cmp_gt_le = compare_func.cmp_gt_le [OF assms]
    and cmp_trans = compare_func.cmp_trans [OF assms]
  let ?cmp = "bh_compare h" and ?xs = "bh_elems h" and ?n = "bh_num h" and ?l = "2 * k + 1" and ?r = "2 * k + 2"
  note simps = binary_heap_bubble_down.simps [of ej h k] Let_def
  have ch: "i = ?l \<or> i = ?r" if "0 < i" "parent i = k" for i using parent_eq_iff [of i k] that by simp
  have pl: "parent ?l = k" "parent ?r = k" by (simp_all add: parent_def)
  consider (leaf) "?n \<le> ?l" | (left) "?l < ?n" "?n \<le> ?r" | (both) "?r < ?n" by linarith
  then show ?thesis
  proof cases
    case leaf
    then have "\<not> i < ?n" if "0 < i" "parent i = k" for i using ch [OF that] by auto
    then show ?thesis using leaf by (intro stop) (auto simp: simps above_children_def)
  next
    case left
    then have only: "0 < i \<Longrightarrow> i < ?n \<Longrightarrow> parent i = k \<Longrightarrow> i = ?l" for i using ch [of i] by auto
    show ?thesis
    proof (cases "0 < ?cmp (?xs ! k) (?xs ! ?l)")
      case True
      have "binary_heap_bubble_down ej h k = (heap_swap ej h k ?l, ?l)" using left True by (simp add: simps)
      also have "\<dots> = binary_heap_bubble_down ej (heap_swap ej h k ?l) ?l"
        using left by (subst binary_heap_bubble_down.simps) (simp add: Let_def)
      finally show ?thesis using True left pl only cmp_refl by (intro swap [of ?l]) auto
    next
      case False
      then show ?thesis using left only by (intro stop) (auto simp: simps above_children_def)
    qed
  next
    case both
    define c where "c = (if ?cmp (?xs ! ?l) (?xs ! ?r) \<le> 0 then ?l else ?r)"
    have c: "0 < c" "c < ?n" "parent c = k" using both pl by (auto simp: c_def)
    have min: "?cmp (?xs ! c) (?xs ! i) \<le> 0" if "0 < i" "parent i = k" for i
      using ch [of i] that cmp_refl cmp_gt_le [of "?xs ! ?l" "?xs ! ?r"] by (auto simp: c_def)
    show ?thesis
    proof (cases "0 < ?cmp (?xs ! k) (?xs ! c)")
      case True
      then have "binary_heap_bubble_down ej h k = binary_heap_bubble_down ej (heap_swap ej h k c) c"
        using both by (auto simp: simps c_def)
      then show ?thesis using True c min by (intro swap [of c]) auto
    next
      case False
      then have "?cmp (?xs ! k) (?xs ! i) \<le> 0" if "0 < i" "parent i = k" for i
        using cmp_trans [of "?xs ! k" "?xs ! c" "?xs ! i"] min [OF that] by simp
      then show ?thesis using False both by (intro stop) (auto simp: simps above_children_def c_def)
    qed
  qed
qed

lemma bubble_down:
  assumes "compare_func (bh_compare h)" "hole_ok (bh_compare h) (bh_elems h) (bh_num h) k"
    and "below_parent (bh_compare h) (bh_elems h) k"
    and "k < bh_num h" "bh_num h \<le> length (bh_elems h)" "index_ok h ex" "ex \<subseteq> {k}"
    and "binary_heap_bubble_down ej h k = (h', r)"
  shows "heap_like h h' \<and> heap_ok (bh_compare h) (bh_elems h') (bh_num h) \<and> k \<le> r \<and>
    (if r = k then h' = h else index_ok h' {})"
  using assms
proof (induction "bh_num h - k" arbitrary: h k ex rule: less_induct)
  case less
  note cmp = less.prems(1) and hole = less.prems(2) and below = less.prems(3) and k = less.prems(4,5)
    and ix = less.prems(6,7) and res = less.prems(8)
  from cmp show ?case
  proof (cases rule: bubble_down_cases [where ej = ej and k = k])
    case stop
    then show ?thesis using res heap_ok_hole [OF hole _ below] by auto
  next
    case (swap c)
    define g where "g = heap_swap ej h k c"
    have kc: "k < c" using parent_less swap(1,3) by auto
    have lk: "heap_like h g" unfolding g_def using swap(2) k by (intro heap_like_swap) auto
    have g: "bh_compare g = bh_compare h" "bh_num g = bh_num h" "length (bh_elems g) = length (bh_elems h)"
        "bh_elems g = swap_cells (bh_elems h) k c"
      by (simp_all add: g_def)
    have dn: "hole_ok (bh_compare g) (bh_elems g) (bh_num g) c" "below_parent (bh_compare g) (bh_elems g) c"
      unfolding g by (rule compare_func.swap_down [OF cmp hole below swap(1,2) k(2) swap(3,4)], erule (2) swap(5))+
    have "index_ok g (ex - {k, c})" unfolding g_def using swap(2) k ix by (intro index_ok_swap) auto
    moreover have "ex - {k, c} = {}" using ix by auto
    ultimately have ixg: "index_ok g {}" by simp
    have m: "bh_num g - c < bh_num h - k" using kc swap(2) g(2) by simp
    have "binary_heap_bubble_down ej g c = (h', r)" using res swap(6) by (simp add: g_def)
    then have "heap_like g h' \<and> heap_ok (bh_compare g) (bh_elems h') (bh_num g) \<and> c \<le> r \<and>
        (if r = c then h' = g else index_ok h' {})"
      using less.hyps [OF m _ dn _ _ ixg] cmp swap(2) k g(1-3) by simp
    then show ?thesis
      using kc lk ixg g heap_like_trans [OF lk] by (auto split: if_splits)
  qed
qed

section \<open>The operations\<close>

definition heap_inv :: "'d zbx_binary_heap \<Rightarrow> bool" where
  "heap_inv h \<longleftrightarrow> compare_func (bh_compare h) \<and> length (bh_elems h) = bh_alloc h \<and> bh_num h \<le> bh_alloc h \<and>
    heap_ok (bh_compare h) (bh_elems h) (bh_num h) \<and> index_ok h {}"

definition heap_mset :: "'d zbx_binary_heap \<Rightarrow> 'd zbx_binary_heap_elem multiset" where
  "heap_mset h = mset (take (bh_num h) (bh_elems h))"

definition heap_keys :: "'d zbx_binary_heap \<Rightarrow> u64 set" where
  "heap_keys h = h_key ` set_mset (heap_mset h)"

lemma heap_create:
  assumes "compare_func cmp"
  shows "heap_inv (zbx_binary_heap_create cmp options)" "heap_mset (zbx_binary_heap_create cmp options) = {#}"
    "bh_compare (zbx_binary_heap_create cmp options) = cmp" "bh_options (zbx_binary_heap_create cmp options) = options"
  using assms hashmap_create(2) [of 512] hashmap_create(1) [of 512, unfolded zbx_hashmap_create_def]
  by (auto simp: heap_inv_def heap_mset_def zbx_binary_heap_create_def heap_ok_def index_ok_def Let_def
      zbx_hashmap_create_def)

lemma heap_ok_cong: "(\<And>i. i < n \<Longrightarrow> xs ! i = ys ! i) \<Longrightarrow> heap_ok cmp xs n = heap_ok cmp ys n"
  using parent_less unfolding heap_ok_def by (metis less_trans)

lemma heap_invD:
  assumes "heap_inv h"
  shows "compare_func (bh_compare h)" "length (bh_elems h) = bh_alloc h" "bh_num h \<le> length (bh_elems h)"
    "heap_ok (bh_compare h) (bh_elems h) (bh_num h)" "index_ok h {}"
  using assms by (auto simp: heap_inv_def)

lemma heap_inv_like:
  "heap_inv h \<or> length (bh_elems h) = bh_alloc h \<and> bh_num h \<le> bh_alloc h \<and> compare_func (bh_compare h) \<Longrightarrow>
    heap_like h h' \<Longrightarrow> heap_ok (bh_compare h) (bh_elems h') (bh_num h) \<Longrightarrow> index_ok h' {} \<Longrightarrow>
    heap_inv h' \<and> heap_mset h' = heap_mset h \<and> bh_compare h' = bh_compare h \<and> bh_options h' = bh_options h"
  by (auto simp: heap_inv_def heap_like_def heap_mset_def)

text \<open>Overwriting one element of a heap leaves a hole there.\<close>

lemma hole_overwrite:
  assumes "compare_func cmp" "heap_ok cmp xs n" "n' \<le> n" "n \<le> length xs"
  shows "hole_ok cmp (xs[k := e]) n' k"
  unfolding hole_ok_def
proof (intro conjI allI impI)
  fix i assume "0 < i \<and> i < n' \<and> i \<noteq> k \<and> parent i \<noteq> k"
  then show "cmp (xs[k := e] ! parent i) (xs[k := e] ! i) \<le> 0" using assms by (simp add: heap_ok_def)
next
  fix i assume i: "0 < i \<and> i < n' \<and> parent i = k \<and> 0 < k"
  then have ki: "k < i" "parent k < k" using parent_less by auto
  have "cmp (xs ! parent k) (xs ! k) \<le> 0" "cmp (xs ! k) (xs ! i) \<le> 0"
    using assms(2,3) i ki by (auto simp: heap_ok_def)
  then show "cmp (xs[k := e] ! parent k) (xs[k := e] ! i) \<le> 0"
    using compare_func.cmp_trans [OF assms(1)] ki by simp
qed

text \<open>Reading the index.\<close>

lemma index_get:
  assumes "index_ok h {}" "HAS_DIRECT_OPTION h" "bh_num h \<le> length (bh_elems h)"
  shows "heap_index_get h key = -1 \<longleftrightarrow> key \<notin> heap_keys h"
    and "i < bh_num h \<Longrightarrow> heap_index_get h (h_key (bh_elems h ! i)) = int i"
proof -
  obtain m where m: "bh_index h = Some m" "hashmap_inv m"
      "\<forall>i. i < bh_num h \<longrightarrow> hashmap_abs m (h_key (bh_elems h ! i)) = Some (int i)"
      "dom (hashmap_abs m) \<subseteq> h_key ` set (take (bh_num h) (bh_elems h))"
    using assms(1,2) by (auto simp: index_ok_def)
  have get: "heap_index_get h k = map_get (hashmap_abs m) k" for k
    using m(1,2) by (simp add: heap_index_get_def hashmap.get_eq)
  show "i < bh_num h \<Longrightarrow> heap_index_get h (h_key (bh_elems h ! i)) = int i"
    using m(3) by (simp add: get map_get_def)
  show "heap_index_get h key = -1 \<longleftrightarrow> key \<notin> heap_keys h"
  proof
    assume "heap_index_get h key = -1"
    then show "key \<notin> heap_keys h"
      using m(3) assms(3) by (auto simp: get map_get_def heap_keys_def heap_mset_def in_set_conv_nth)
  next
    assume "key \<notin> heap_keys h"
    then have "hashmap_abs m key = None" using m(4) by (auto simp: heap_keys_def heap_mset_def)
    then show "heap_index_get h key = -1" by (simp add: get map_get_def)
  qed
qed

lemma heap_key_index:
  assumes "key \<in> heap_keys h" "bh_num h \<le> length (bh_elems h)"
  obtains i where "i < bh_num h" "h_key (bh_elems h ! i) = key"
  using assms by (auto simp: heap_keys_def heap_mset_def in_set_conv_nth)

subsection \<open>Insertion\<close>

lemma ensure_free_space:
  assumes "heap_inv h"
  defines "h1 \<equiv> \<lambda>junk. binary_heap_ensure_free_space junk h"
  shows "bh_num (h1 junk) = bh_num h" "bh_num h < bh_alloc (h1 junk)" "length (bh_elems (h1 junk)) = bh_alloc (h1 junk)"
    "take (bh_num h) (bh_elems (h1 junk)) = take (bh_num h) (bh_elems h)" "bh_options (h1 junk) = bh_options h"
    "bh_compare (h1 junk) = bh_compare h" "bh_index (h1 junk) = bh_index h"
  using assms(1)
  by (auto simp: h1_def binary_heap_ensure_free_space_def heap_inv_def Let_def cells_simps not_less)

lemma heap_insert:
  assumes "heap_inv h" "\<not> (HAS_DIRECT_OPTION h \<and> h_key e \<in> heap_keys h)"
  shows "\<exists>h'. zbx_binary_heap_insert ej junk e h = Inr h' \<and> heap_inv h' \<and> heap_mset h' = add_mset e (heap_mset h) \<and>
    bh_compare h' = bh_compare h \<and> bh_options h' = bh_options h"
proof -
  note inv = heap_invD [OF assms(1)]
  define h1 where "h1 = binary_heap_ensure_free_space junk h"
  note h1 = ensure_free_space [OF assms(1), of junk, folded h1_def]
  define n where "n = bh_num h"
  define h2 where "h2 = h1\<lparr>bh_num := bh_num h1 + 1, bh_elems := (bh_elems h1)[bh_num h1 := e]\<rparr>"
  have h2: "bh_num h2 = n + 1" "length (bh_elems h2) = bh_alloc h2" "n < length (bh_elems h2)" "bh_compare h2 = bh_compare h"
      "take n (bh_elems h2) = take n (bh_elems h)" "bh_elems h2 ! n = e" "bh_index h2 = bh_index h" "bh_options h2 = bh_options h"
    using h1 by (simp_all add: h2_def n_def)
  have dir: "HAS_DIRECT_OPTION h2 = HAS_DIRECT_OPTION h" by (simp add: HAS_DIRECT_OPTION_def h2)
  have nth: "bh_elems h2 ! i = bh_elems h ! i" if "i < n" for i using h2(5) that by (metis nth_take)
  have tk: "take (n + 1) (bh_elems h2) = take n (bh_elems h) @ [e]"
    using h2(3,5,6) by (simp add: take_Suc_conv_app_nth)
  have ok: "heap_ok (bh_compare h2) (bh_elems h2) n"
    using inv(4) heap_ok_cong [of n "bh_elems h2" "bh_elems h"] nth by (simp add: h2 n_def)
  have hole: "hole_ok (bh_compare h2) (bh_elems h2) (bh_num h2) n"
    unfolding hole_ok_def
  proof (intro conjI allI impI)
    fix i assume "0 < i \<and> i < bh_num h2 \<and> i \<noteq> n \<and> parent i \<noteq> n"
    then show "bh_compare h2 (bh_elems h2 ! parent i) (bh_elems h2 ! i) \<le> 0"
      using ok by (simp add: heap_ok_def h2(1))
  next
    fix i assume "0 < i \<and> i < bh_num h2 \<and> parent i = n \<and> 0 < n"
    then show "bh_compare h2 (bh_elems h2 ! parent n) (bh_elems h2 ! i) \<le> 0"
      using parent_less [of i] by (simp add: h2(1))
  qed
  have above: "above_children (bh_compare h2) (bh_elems h2) (bh_num h2) n"
    unfolding above_children_def
  proof (intro allI impI)
    fix i assume "0 < i \<and> i < bh_num h2 \<and> parent i = n"
    then show "bh_compare h2 (bh_elems h2 ! n) (bh_elems h2 ! i) \<le> 0"
      using parent_less [of i] by (simp add: h2(1))
  qed
  have ix: "index_ok h2 {n}"
    using inv(3,5) assms(2) unfolding index_ok_def dir h2 tk
    by (auto simp: n_def [symmetric] less_Suc_eq nth heap_keys_def heap_mset_def dest: subsetD [OF _ domI])
  obtain h' r where b: "binary_heap_bubble_up ej h2 n = (h', r)" by force
  have up: "heap_like h2 h' \<and> heap_ok (bh_compare h2) (bh_elems h') (bh_num h2) \<and> r \<le> n \<and>
      (if r = n then h' = h2 else index_ok h' {})"
    using bubble_up [OF _ hole above _ _ ix _ b] inv(1) h2 by simp
  define res where "res = (if HAS_DIRECT_OPTION h' \<and> r = bh_num h' - 1 then heap_index_set ej h' (h_key e) r else h')"
  have g: "\<not> (HAS_DIRECT_OPTION h \<and> -1 \<noteq> heap_index_get h (h_key e))"
    using assms(2) index_get(1) [OF inv(5) _ inv(3)] by metis
  have eq: "zbx_binary_heap_insert ej junk e h = Inr res"
    using g b unfolding h2_def h1(1) n_def
    by (auto simp: zbx_binary_heap_insert_def h1_def [symmetric] h1(1) Let_def res_def)
  have ixr: "index_ok res {}"
  proof (cases "HAS_DIRECT_OPTION h' \<and> r = n")
    case True
    then have h': "h' = h2" using up by simp
    then have "index_ok (heap_index_set ej h2 (h_key (bh_elems h2 ! n)) n) ({n} - {n})"
      using True h2 by (intro index_ok_set [OF ix]) auto
    then show ?thesis using True h' h2 by (simp add: res_def)
  next
    case False
    then have "res = h'" using up by (auto simp: res_def heap_like_def h2)
    then show ?thesis using False up by (auto simp: index_ok_def)
  qed
  have "heap_like h2 res" "bh_elems res = bh_elems h'"
    using up by (auto simp: res_def heap_like_def heap_index_set_def)
  then have "heap_inv res \<and> heap_mset res = heap_mset h2 \<and> bh_compare res = bh_compare h2 \<and> bh_options res = bh_options h2"
    using up h2 inv(1) ixr by (intro heap_inv_like) auto
  moreover have "heap_mset h2 = add_mset e (heap_mset h)" using tk by (simp add: heap_mset_def h2(1) n_def)
  ultimately show ?thesis using eq h2 by simp
qed

lemma heap_insert_duplicate:
  assumes "heap_inv h" "HAS_DIRECT_OPTION h" "h_key e \<in> heap_keys h"
  shows "zbx_binary_heap_insert ej junk e h = Inl ExitFailure"
proof -
  have "-1 \<noteq> heap_index_get h (h_key e)"
    using index_get(1) [OF heap_invD(5) _ heap_invD(3), OF assms(1,2,1)] assms(3) by metis
  then show ?thesis using assms(2) by (simp add: zbx_binary_heap_insert_def)
qed

subsection \<open>Removal\<close>

text \<open>The state in which the removed position holds the last element, before it is moved.\<close>

definition heap_drop :: "'d zbx_binary_heap \<Rightarrow> nat \<Rightarrow> 'd zbx_binary_heap" where
  "heap_drop h k =
    (let h = (if HAS_DIRECT_OPTION h then heap_index_remove h (h_key (bh_elems h ! k)) else h)
     in h\<lparr>bh_num := bh_num h - 1\<rparr>)"

definition heap_fill :: "'d zbx_binary_heap \<Rightarrow> nat \<Rightarrow> 'd zbx_binary_heap" where
  "heap_fill h k = h\<lparr>bh_elems := (bh_elems h)[k := bh_elems h ! bh_num h]\<rparr>"

lemma heap_drop_simps [simp]:
  "bh_num (heap_drop h k) = bh_num h - 1" "bh_elems (heap_drop h k) = bh_elems h" "bh_alloc (heap_drop h k) = bh_alloc h"
  "bh_compare (heap_drop h k) = bh_compare h" "bh_options (heap_drop h k) = bh_options h"
  "HAS_DIRECT_OPTION (heap_drop h k) = HAS_DIRECT_OPTION h"
  by (simp_all add: heap_drop_def heap_index_remove_def Let_def HAS_DIRECT_OPTION_def)

lemma heap_fill_simps [simp]:
  "bh_num (heap_fill h k) = bh_num h" "bh_alloc (heap_fill h k) = bh_alloc h" "bh_index (heap_fill h k) = bh_index h"
  "bh_compare (heap_fill h k) = bh_compare h" "bh_options (heap_fill h k) = bh_options h"
  "length (bh_elems (heap_fill h k)) = length (bh_elems h)" "HAS_DIRECT_OPTION (heap_fill h k) = HAS_DIRECT_OPTION h"
  by (simp_all add: heap_fill_def)

lemma mset_drop_fill:
  assumes "k < bh_num h" "bh_num h \<le> length (bh_elems h)"
  defines "g \<equiv> (if k = bh_num h - 1 then heap_drop h k else heap_fill (heap_drop h k) k)"
  shows "heap_mset h = add_mset (bh_elems h ! k) (heap_mset g)"
proof -
  define xs where "xs = take (bh_num h) (bh_elems h)"
  have len: "length xs = bh_num h" using assms(2) by (simp add: xs_def)
  have "last xs = xs ! (bh_num h - 1)" using assms(1) len by (subst last_conv_nth) auto
  then have l: "last xs = bh_elems h ! (bh_num h - 1)" using assms(1) by (simp add: xs_def)
  have "take (bh_num g) (bh_elems g) = butlast (xs[k := last xs])"
    using assms(1,2) unfolding l
    by (auto simp: g_def heap_fill_def butlast_conv_take xs_def take_update_swap list_update_beyond)
  then show ?thesis
    using mset_overwrite_last [of k xs] assms(1) len by (simp add: heap_mset_def xs_def)
qed

lemma index_drop:
  assumes "heap_inv h" "k < bh_num h"
  shows "k = bh_num h - 1 \<Longrightarrow> index_ok (heap_drop h k) {}"
    and "k \<noteq> bh_num h - 1 \<Longrightarrow> index_ok (heap_fill (heap_drop h k) k) {k}"
proof -
  note inv = heap_invD [OF assms(1)]
  define g where "g = (if k = bh_num h - 1 then heap_drop h k else heap_fill (heap_drop h k) k)"
  have n: "bh_num g = bh_num h - 1" "HAS_DIRECT_OPTION g = HAS_DIRECT_OPTION h" by (simp_all add: g_def)
  have nth: "bh_elems g ! i = bh_elems h ! i" if "i \<noteq> k" for i
    using that by (simp add: g_def heap_fill_def)
  have ms: "mset (take (bh_num h) (bh_elems h)) = add_mset (bh_elems h ! k) (mset (take (bh_num g) (bh_elems g)))"
    using mset_drop_fill [OF assms(2) inv(3)] by (simp add: heap_mset_def g_def)
  have mk: "mset (map h_key (take (bh_num h) (bh_elems h))) =
      mset (h_key (bh_elems h ! k) # map h_key (take (bh_num g) (bh_elems g)))" using ms by simp
  have st: "set (take (bh_num h) (bh_elems h)) = insert (bh_elems h ! k) (set (take (bh_num g) (bh_elems g)))"
    using arg_cong [OF ms, of set_mset] by simp
  have "index_ok g (if k = bh_num h - 1 then {} else {k})"
  proof (cases "HAS_DIRECT_OPTION h")
    case False
    then show ?thesis by (simp add: index_ok_def n)
  next
    case True
    obtain m where m: "bh_index h = Some m" "hashmap_inv m"
        "\<forall>i. i < bh_num h \<longrightarrow> hashmap_abs m (h_key (bh_elems h ! i)) = Some (int i)"
        "dom (hashmap_abs m) \<subseteq> h_key ` set (take (bh_num h) (bh_elems h))"
        "distinct (map h_key (take (bh_num h) (bh_elems h)))"
      using inv(5) True by (auto simp: index_ok_def)
    have d: "h_key (bh_elems h ! k) \<notin> h_key ` set (take (bh_num g) (bh_elems g))"
        "distinct (map h_key (take (bh_num g) (bh_elems g)))"
      using m(5) mset_eq_imp_distinct_iff [OF mk] by auto
    have ne: "h_key (bh_elems h ! i) \<noteq> h_key (bh_elems h ! k)" if "i < bh_num h" "i \<noteq> k" for i
      using m(3) that assms(2) by (metis of_nat_eq_iff option.inject)
    define m' where "m' = zbx_hashmap_remove m (h_key (bh_elems h ! k))"
    have m': "hashmap_inv m'" "hashmap_abs m' = (hashmap_abs m)(h_key (bh_elems h ! k) := None)"
      using m(2) by (simp_all add: m'_def hashmap.remove_inv hashmap.remove_abs map_remove_def)
    have gi: "bh_index g = Some m'"
      using True m(1) by (simp add: g_def heap_drop_def heap_index_remove_def m'_def)
    have "dom (hashmap_abs m') \<subseteq> h_key ` set (take (bh_num g) (bh_elems g))"
      using m(4) unfolding st m'(2) by auto
    moreover have "hashmap_abs m' (h_key (bh_elems g ! i)) = Some (int i)" if "i < bh_num h - 1" "i \<noteq> k" for i
      using that m(3) ne [of i] nth [of i] by (simp add: m'(2))
    ultimately show ?thesis
      using d(2) gi m'(1) by (auto simp: index_ok_def n)
  qed
  then show "k = bh_num h - 1 \<Longrightarrow> index_ok (heap_drop h k) {}"
    and "k \<noteq> bh_num h - 1 \<Longrightarrow> index_ok (heap_fill (heap_drop h k) k) {k}" by (auto simp: g_def)
qed

lemma heap_fill_hole:
  assumes "heap_inv h"
  shows "hole_ok (bh_compare h) (bh_elems (heap_fill (heap_drop h k) k)) (bh_num h - 1) k"
  using hole_overwrite [OF heap_invD(1) [OF assms] heap_invD(4) [OF assms]] heap_invD(3) [OF assms]
  by (simp add: heap_fill_def)

lemma heap_drop_last:
  assumes "heap_inv h" "k < bh_num h" "k = bh_num h - 1"
  shows "heap_inv (heap_drop h k)"
  using index_drop(1) [OF assms] assms(1) by (auto simp: heap_inv_def heap_ok_def)

text \<open>After bubbling, the index entry of the moved element is set when it did not move.\<close>

lemma heap_fill_finish:
  assumes "heap_inv h" "k < bh_num h - 1"
  defines "g \<equiv> heap_fill (heap_drop h k) k"
  assumes "heap_like g g'" "heap_ok (bh_compare g) (bh_elems g') (bh_num g)" "if r = k then g' = g else index_ok g' {}"
  shows "let h' = (if HAS_DIRECT_OPTION g' \<and> r = k then heap_index_set ej g' (h_key (bh_elems g' ! k)) k else g')
    in heap_inv h' \<and> heap_mset h' = heap_mset g \<and> bh_compare h' = bh_compare h \<and> bh_options h' = bh_options h"
proof -
  note inv = heap_invD [OF assms(1)]
  have g: "bh_num g = bh_num h - 1" "bh_alloc g = bh_alloc h" "bh_compare g = bh_compare h" "bh_options g = bh_options h"
      "length (bh_elems g) = length (bh_elems h)" by (simp_all add: g_def)
  have ixg: "index_ok g {k}" using index_drop(2) [OF assms(1), of k] assms(2) by (simp add: g_def)
  define h' where "h' = (if HAS_DIRECT_OPTION g' \<and> r = k then heap_index_set ej g' (h_key (bh_elems g' ! k)) k else g')"
  have ix: "index_ok h' {}"
  proof (cases "HAS_DIRECT_OPTION g' \<and> r = k")
    case True
    then have "g' = g" using assms(6) by simp
    moreover have "index_ok (heap_index_set ej g (h_key (bh_elems g ! k)) k) ({k} - {k})"
      using True assms(2) g inv(3) \<open>g' = g\<close> by (intro index_ok_set [OF ixg]) auto
    ultimately show ?thesis using True by (simp add: h'_def)
  next
    case False
    then show ?thesis using assms(6) by (auto simp: h'_def index_ok_def)
  qed
  have lk: "heap_like g h'" "bh_elems h' = bh_elems g'"
    using assms(4) by (auto simp: h'_def heap_like_def heap_index_set_def)
  have "heap_inv h' \<and> heap_mset h' = heap_mset g \<and> bh_compare h' = bh_compare g \<and> bh_options h' = bh_options g"
    using lk assms(5) ix inv(1-3) g by (intro heap_inv_like) auto
  then show ?thesis by (simp add: h'_def [symmetric] g(3,4))
qed

lemma heap_remove_min:
  assumes "heap_inv h" "0 < bh_num h"
  shows "\<exists>h'. zbx_binary_heap_remove_min ej h = Inr h' \<and> heap_inv h' \<and>
    heap_mset h = add_mset (bh_elems h ! 0) (heap_mset h') \<and> bh_compare h' = bh_compare h \<and> bh_options h' = bh_options h"
proof (cases "bh_num h = 1")
  case True
  then have "zbx_binary_heap_remove_min ej h = Inr (heap_drop h 0)"
    by (simp add: zbx_binary_heap_remove_min_def heap_drop_def heap_index_remove_def Let_def)
  then show ?thesis using heap_drop_last [OF assms, of] mset_drop_fill [OF assms(2) heap_invD(3) [OF assms(1)]] True by simp
next
  case False
  note inv = heap_invD [OF assms(1)]
  define g where "g = heap_fill (heap_drop h 0) 0"
  obtain g' r where b: "binary_heap_bubble_down ej g 0 = (g', r)" by force
  have k: "0 < bh_num h - 1" "0 \<noteq> bh_num h - 1" using False assms(2) by auto
  have "hole_ok (bh_compare g) (bh_elems g) (bh_num g) 0"
    using heap_fill_hole [OF assms(1)] by (simp add: g_def)
  then have dn: "heap_like g g' \<and> heap_ok (bh_compare g) (bh_elems g') (bh_num g) \<and> 0 \<le> r \<and>
      (if r = 0 then g' = g else index_ok g' {})"
    using inv(1,3) k index_drop(2) [OF assms k(2)]
    by (intro bubble_down [OF _ _ _ _ _ _ _ b]) (auto simp: g_def below_parent_def)
  have "zbx_binary_heap_remove_min ej h =
      Inr (if HAS_DIRECT_OPTION g' \<and> r = 0 then heap_index_set ej g' (h_key (bh_elems g' ! 0)) 0 else g')"
    using b assms(2) k unfolding g_def heap_drop_def heap_fill_def
    by (auto simp: zbx_binary_heap_remove_min_def heap_index_remove_def Let_def split: prod.splits)
  then show ?thesis
    using heap_fill_finish [OF assms(1) k(1), folded g_def, of g' r ej] dn
      mset_drop_fill [OF assms(2) inv(3), of] k(2) by (simp add: g_def [symmetric] Let_def)
qed

lemma heap_remove_direct:
  assumes "heap_inv h" "HAS_DIRECT_OPTION h" "k < bh_num h"
  shows "\<exists>h'. zbx_binary_heap_remove_direct ej (h_key (bh_elems h ! k)) h = Inr h' \<and> heap_inv h' \<and>
    heap_mset h = add_mset (bh_elems h ! k) (heap_mset h') \<and> bh_compare h' = bh_compare h \<and> bh_options h' = bh_options h"
proof -
  note inv = heap_invD [OF assms(1)]
  have get: "heap_index_get h (h_key (bh_elems h ! k)) = int k" by (rule index_get(2) [OF inv(5) assms(2) inv(3) assms(3)])
  have drop: "heap_drop h k = heap_index_remove h (h_key (bh_elems h ! k))\<lparr>bh_num := bh_num h - 1\<rparr>"
    using assms(2) by (simp add: heap_drop_def heap_index_remove_def Let_def)
  show ?thesis
  proof (cases "k = bh_num h - 1")
    case True
    have "zbx_binary_heap_remove_direct ej (h_key (bh_elems h ! k)) h = Inr (heap_drop h k)"
      using True [symmetric] get assms(2) by (simp add: zbx_binary_heap_remove_direct_def drop heap_index_remove_def Let_def)
    then show ?thesis using heap_drop_last [OF assms(1,3) True] mset_drop_fill [OF assms(3) inv(3)] True by simp
  next
    case False
    define g where "g = heap_fill (heap_drop h k) k"
    have k: "k < bh_num h - 1" using False assms(3) by simp
    obtain g1 r1 where up: "binary_heap_bubble_up ej g k = (g1, r1)" by force
    have hole: "hole_ok (bh_compare g) (bh_elems g) (bh_num g) k"
      using heap_fill_hole [OF assms(1)] by (simp add: g_def)
    have gs: "compare_func (bh_compare g)" "k < bh_num g" "bh_num g \<le> length (bh_elems g)" "index_ok g {k}"
      using inv(1,3) k index_drop(2) [OF assms(1,3) False] by (auto simp: g_def)
    note u = bubble_up_hole [OF gs(1) hole gs(2,3,4) _ up]
    define res where "res = (if k = r1 then
        case binary_heap_bubble_down ej g1 k of (h, down) \<Rightarrow>
          if k = down then heap_index_set ej h (h_key (bh_elems h ! k)) k else h
      else g1)"
    have eq: "zbx_binary_heap_remove_direct ej (h_key (bh_elems h ! k)) h = Inr res"
      using up get assms(2) False unfolding g_def drop heap_fill_def res_def
      by (auto simp: zbx_binary_heap_remove_direct_def heap_index_remove_def Let_def split: prod.splits)
    have "heap_inv res \<and> heap_mset res = heap_mset g \<and> bh_compare res = bh_compare h \<and> bh_options res = bh_options h"
    proof (cases "r1 = k")
      case True
      obtain g2 r2 where dn: "binary_heap_bubble_down ej g k = (g2, r2)" by force
      have g1: "g1 = g" "below_parent (bh_compare g) (bh_elems g) k" using u True by auto
      have d: "heap_like g g2 \<and> heap_ok (bh_compare g) (bh_elems g2) (bh_num g) \<and> k \<le> r2 \<and>
          (if r2 = k then g2 = g else index_ok g2 {})"
        by (rule bubble_down [OF gs(1) hole g1(2) gs(2,3,4) _ dn]) simp
      have "HAS_DIRECT_OPTION g2" using d assms(2) by (simp add: heap_like_def HAS_DIRECT_OPTION_def g_def)
      then have "res = (if HAS_DIRECT_OPTION g2 \<and> r2 = k then heap_index_set ej g2 (h_key (bh_elems g2 ! k)) k else g2)"
        using True dn g1 by (auto simp: res_def)
      then show ?thesis using heap_fill_finish [OF assms(1) k, folded g_def, of g2 r2 ej] d by (simp add: Let_def)
    next
      case False
      then show ?thesis using u heap_fill_finish [OF assms(1) k, folded g_def, of g1 r1 ej] by (simp add: res_def Let_def)
    qed
    then show ?thesis using eq mset_drop_fill [OF assms(3) inv(3)] False by (simp add: g_def)
  qed
qed

subsection \<open>Direct update, clearing\<close>

lemma heap_update_direct:
  assumes "heap_inv h" "HAS_DIRECT_OPTION h" "k < bh_num h" "h_key e = h_key (bh_elems h ! k)"
  shows "\<exists>h'. zbx_binary_heap_update_direct ej e h = Inr h' \<and> heap_inv h' \<and>
    add_mset (bh_elems h ! k) (heap_mset h') = add_mset e (heap_mset h) \<and>
    bh_compare h' = bh_compare h \<and> bh_options h' = bh_options h"
proof -
  note inv = heap_invD [OF assms(1)]
  have get: "heap_index_get h (h_key e) = int k"
    unfolding assms(4) by (rule index_get(2) [OF inv(5) assms(2) inv(3) assms(3)])
  define g where "g = h\<lparr>bh_elems := (bh_elems h)[k := e]\<rparr>"
  have g: "bh_num g = bh_num h" "bh_compare g = bh_compare h" "bh_options g = bh_options h" "bh_alloc g = bh_alloc h"
      "length (bh_elems g) = length (bh_elems h)" "bh_index g = bh_index h" by (simp_all add: g_def)
  have keys: "map h_key (bh_elems g) = map h_key (bh_elems h)"
    using assms(4) by (simp add: g_def map_update list_update_same_conv inv(3) assms(3) order_less_le_trans [OF assms(3) inv(3)])
  then have "map h_key (take (bh_num h) (bh_elems g)) = map h_key (take (bh_num h) (bh_elems h))" by (simp add: take_map [symmetric])
  moreover from this have "h_key ` set (take (bh_num h) (bh_elems g)) = h_key ` set (take (bh_num h) (bh_elems h))"
    by (metis set_map)
  moreover have "h_key (bh_elems g ! i) = h_key (bh_elems h ! i)" for i
    using assms(4) order_less_le_trans [OF assms(3) inv(3)] by (cases "i = k") (simp_all add: g_def)
  ultimately have ix: "index_ok g {}" using inv(5) by (simp add: index_ok_def g HAS_DIRECT_OPTION_def)
  have hole: "hole_ok (bh_compare g) (bh_elems g) (bh_num g) k"
    using hole_overwrite [OF inv(1) inv(4) _ inv(3)] by (simp add: g_def)
  have gs: "compare_func (bh_compare g)" "k < bh_num g" "bh_num g \<le> length (bh_elems g)"
    using inv(1,3) assms(3) g by simp_all
  have kt: "k < length (take (bh_num h) (bh_elems h))" using assms(3) inv(3) by simp
  have ms: "add_mset (bh_elems h ! k) (heap_mset g) = add_mset e (heap_mset h)"
    using mset_split_at [OF kt] kt assms(3)
    by (simp add: heap_mset_def g_def take_update_swap mset_list_update)
  obtain g1 r1 where up: "binary_heap_bubble_up ej g k = (g1, r1)" by force
  note u = bubble_up_hole [OF gs(1) hole gs(2,3) ix _ up]
  define res where "res = (if k = r1 then fst (binary_heap_bubble_down ej g1 k) else g1)"
  have eq: "zbx_binary_heap_update_direct ej e h = Inr res"
    using up get assms(2) unfolding g_def by (simp add: zbx_binary_heap_update_direct_def Let_def res_def)
  have "heap_like g res \<and> heap_ok (bh_compare g) (bh_elems res) (bh_num g) \<and> index_ok res {}"
  proof (cases "r1 = k")
    case True
    obtain g2 r2 where dn: "binary_heap_bubble_down ej g k = (g2, r2)" by force
    have g1: "g1 = g" "below_parent (bh_compare g) (bh_elems g) k" using u True by auto
    have "heap_like g g2 \<and> heap_ok (bh_compare g) (bh_elems g2) (bh_num g) \<and> k \<le> r2 \<and>
        (if r2 = k then g2 = g else index_ok g2 {})"
      by (rule bubble_down [OF gs(1) hole g1(2) gs(2,3) ix _ dn]) simp
    then show ?thesis using True dn g1 ix by (auto simp: res_def split: if_splits)
  next
    case False
    then show ?thesis using u by (simp add: res_def)
  qed
  then have "heap_inv res \<and> heap_mset res = heap_mset g \<and> bh_compare res = bh_compare g \<and> bh_options res = bh_options g"
    using inv(1-3) g by (intro heap_inv_like) auto
  then show ?thesis using eq ms g by auto
qed

lemma heap_clear:
  "heap_inv h \<Longrightarrow> heap_inv (zbx_binary_heap_clear h) \<and> heap_mset (zbx_binary_heap_clear h) = {#} \<and>
    bh_compare (zbx_binary_heap_clear h) = bh_compare h \<and> bh_options (zbx_binary_heap_clear h) = bh_options h"
  by (auto simp: heap_inv_def zbx_binary_heap_clear_def heap_mset_def heap_ok_def index_ok_def Let_def
      hashmap.clear_inv hashmap.clear_abs map_clear_def)

lemma heap_find_min:
  assumes "heap_inv h" "heap_mset h \<noteq> {#}"
  shows "\<exists>e. zbx_binary_heap_find_min h = Inr e \<and> e = bh_elems h ! 0 \<and> e \<in># heap_mset h \<and>
    (\<forall>x\<in>#heap_mset h. bh_compare h e x \<le> 0)"
proof -
  note inv = heap_invD [OF assms(1)]
  have n: "0 < bh_num h" using assms(2) by (auto simp: heap_mset_def)
  have "bh_elems h ! 0 \<in># heap_mset h"
    using n inv(3) by (auto simp: heap_mset_def in_set_conv_nth)
  moreover have "\<forall>x\<in>#heap_mset h. bh_compare h (bh_elems h ! 0) x \<le> 0"
    using compare_func.heap_root_le [OF inv(1,4)] inv(3) by (auto simp: heap_mset_def in_set_conv_nth)
  ultimately show ?thesis using n by (simp add: zbx_binary_heap_find_min_def)
qed

lemma heap_mset_empty_iff: "heap_inv h \<Longrightarrow> heap_mset h = {#} \<longleftrightarrow> bh_num h = 0"
  using heap_invD(2,3) [of h] by (auto simp: heap_mset_def)

interpretation heap_pq: priority_queue cmp
    "\<lambda>h. heap_inv h \<and> bh_compare h = cmp \<and> bh_options h = options" heap_mset
    "\<lambda>e M. options mod 2 = 1 \<longrightarrow> h_key e \<notin> h_key ` set_mset M"
    "zbx_binary_heap_insert ej junk" zbx_binary_heap_find_min "zbx_binary_heap_remove_min ej"
  for cmp options ej junk
proof (rule priority_queue.intro, goal_cases)
  case (1 h)
  then show ?case using heap_invD(1) by blast
next
  case (2 h e)
  then show ?case using heap_insert [of h e ej junk] by (auto simp: HAS_DIRECT_OPTION_def heap_keys_def)
next
  case (3 h)
  then show ?case using heap_find_min [of h] by auto
next
  case (4 h e)
  then have "0 < bh_num h" "e = bh_elems h ! 0"
    by (auto simp: zbx_binary_heap_find_min_def split: if_splits)
  then show ?case using heap_remove_min [of h ej] 4 by auto
qed

section \<open>Sequences of operations\<close>

datatype 'd heap_op = HInsert "'d zbx_binary_heap_elem" | HUpdate "'d zbx_binary_heap_elem" | HRemoveMin
  | HRemove u64 | HClear

fun heap_step :: "zbx_hashmap_entry \<Rightarrow> 'd zbx_binary_heap_elem \<Rightarrow> 'd heap_op \<Rightarrow> 'd zbx_binary_heap \<Rightarrow> 'd zbx_binary_heap outcome" where
  "heap_step ej junk (HInsert e) h = zbx_binary_heap_insert ej junk e h"
| "heap_step ej junk (HUpdate e) h = zbx_binary_heap_update_direct ej e h"
| "heap_step ej junk HRemoveMin h = zbx_binary_heap_remove_min ej h"
| "heap_step ej junk (HRemove key) h = zbx_binary_heap_remove_direct ej key h"
| "heap_step ej junk HClear h = Inr (zbx_binary_heap_clear h)"

fun heap_run :: "zbx_hashmap_entry \<Rightarrow> 'd zbx_binary_heap_elem \<Rightarrow> 'd heap_op list \<Rightarrow> 'd zbx_binary_heap \<Rightarrow> 'd zbx_binary_heap outcome" where
  "heap_run ej junk [] h = Inr h"
| "heap_run ej junk (op # ops) h = (case heap_step ej junk op h of Inl f \<Rightarrow> Inl f | Inr h' \<Rightarrow> heap_run ej junk ops h')"

text \<open>The specification: an operation on the multiset of the elements, \<open>Inl\<close> when the process exits.\<close>

fun heap_spec :: "('d zbx_binary_heap_elem \<Rightarrow> 'd zbx_binary_heap_elem \<Rightarrow> int) \<Rightarrow> bool \<Rightarrow> 'd heap_op \<Rightarrow>
    'd zbx_binary_heap_elem multiset \<Rightarrow> 'd zbx_binary_heap_elem multiset outcome \<Rightarrow> bool" where
  "heap_spec cmp direct (HInsert e) M r \<longleftrightarrow>
    r = (if direct \<and> h_key e \<in> h_key ` set_mset M then Inl ExitFailure else Inr (add_mset e M))"
| "heap_spec cmp direct (HUpdate e) M r \<longleftrightarrow>
    (if direct \<and> h_key e \<in> h_key ` set_mset M
     then \<exists>x\<in>#M. h_key x = h_key e \<and> r = Inr (add_mset e (M - {#x#})) else r = Inl ExitFailure)"
| "heap_spec cmp direct HRemoveMin M r \<longleftrightarrow>
    (if M = {#} then r = Inl ExitFailure else \<exists>x\<in>#M. (\<forall>y\<in>#M. cmp x y \<le> 0) \<and> r = Inr (M - {#x#}))"
| "heap_spec cmp direct (HRemove key) M r \<longleftrightarrow>
    (if direct \<and> key \<in> h_key ` set_mset M then \<exists>x\<in>#M. h_key x = key \<and> r = Inr (M - {#x#}) else r = Inl ExitFailure)"
| "heap_spec cmp direct HClear M r \<longleftrightarrow> r = Inr {#}"

lemma heap_missing_key:
  assumes "heap_inv h" "\<not> (HAS_DIRECT_OPTION h \<and> key \<in> heap_keys h)"
  shows "zbx_binary_heap_remove_direct ej key h = Inl ExitFailure"
    and "h_key e = key \<Longrightarrow> zbx_binary_heap_update_direct ej e h = Inl ExitFailure"
  using assms(2) index_get(1) [OF heap_invD(5) _ heap_invD(3), OF assms(1) _ assms(1), of key]
  by (auto simp: zbx_binary_heap_remove_direct_def zbx_binary_heap_update_direct_def)

lemma mset_replace: "add_mset x N = add_mset e M \<Longrightarrow> x \<in># M \<Longrightarrow> N = add_mset e (M - {#x#})"
  by (metis add_mset_add_single add_mset_remove_trivial diff_union_single_conv union_mset_add_mset_left
      add.commute)

lemma heap_step_spec:
  assumes "heap_inv h"
  shows "heap_spec (bh_compare h) (HAS_DIRECT_OPTION h) op (heap_mset h) (map_sum id heap_mset (heap_step ej junk op h)) \<and>
    (\<forall>h'. heap_step ej junk op h = Inr h' \<longrightarrow> heap_inv h' \<and> bh_compare h' = bh_compare h \<and> bh_options h' = bh_options h)"
proof -
  note inv = heap_invD [OF assms]
  have mem: "bh_elems h ! i \<in># heap_mset h" if "i < bh_num h" for i
    using that inv(3) by (auto simp: heap_mset_def in_set_conv_nth)
  show ?thesis
  proof (cases op)
    case (HInsert e)
    then show ?thesis
      using heap_insert [OF assms, of e ej junk] heap_insert_duplicate [OF assms, of e ej junk]
      by (auto simp: heap_keys_def)
  next
    case (HUpdate e)
    show ?thesis
    proof (cases "HAS_DIRECT_OPTION h \<and> h_key e \<in> heap_keys h")
      case True
      then obtain i where i: "i < bh_num h" "h_key (bh_elems h ! i) = h_key e" using heap_key_index inv(3) by metis
      obtain h' where h': "zbx_binary_heap_update_direct ej e h = Inr h'" "heap_inv h'" "bh_compare h' = bh_compare h"
          "bh_options h' = bh_options h" "add_mset (bh_elems h ! i) (heap_mset h') = add_mset e (heap_mset h)"
        using heap_update_direct [OF assms _ i(1), of e ej] True i(2) by auto
      have "heap_mset h' = add_mset e (heap_mset h - {#bh_elems h ! i#})"
        using h'(5) mem [OF i(1)] by (rule mset_replace)
      then show ?thesis using HUpdate True h' i mem [OF i(1)] by (auto simp: heap_keys_def)
    next
      case False
      then show ?thesis using HUpdate heap_missing_key(2) [OF assms False, of e ej] by (auto simp: heap_keys_def)
    qed
  next
    case HRemoveMin
    show ?thesis
    proof (cases "heap_mset h = {#}")
      case True
      then show ?thesis using HRemoveMin heap_mset_empty_iff [OF assms] by (simp add: zbx_binary_heap_remove_min_def)
    next
      case False
      then have n: "0 < bh_num h" using heap_mset_empty_iff [OF assms] by simp
      obtain h' where h': "zbx_binary_heap_remove_min ej h = Inr h'" "heap_inv h'" "bh_compare h' = bh_compare h"
          "bh_options h' = bh_options h" "heap_mset h = add_mset (bh_elems h ! 0) (heap_mset h')"
        using heap_remove_min [OF assms n, of ej] by auto
      moreover have "\<forall>y\<in>#heap_mset h. bh_compare h (bh_elems h ! 0) y \<le> 0"
        using heap_find_min [OF assms False] by auto
      ultimately show ?thesis using HRemoveMin False mem [OF n] by auto
    qed
  next
    case (HRemove key)
    show ?thesis
    proof (cases "HAS_DIRECT_OPTION h \<and> key \<in> heap_keys h")
      case True
      then obtain i where i: "i < bh_num h" "h_key (bh_elems h ! i) = key" using heap_key_index inv(3) by metis
      obtain h' where h': "zbx_binary_heap_remove_direct ej key h = Inr h'" "heap_inv h'" "bh_compare h' = bh_compare h"
          "bh_options h' = bh_options h" "heap_mset h = add_mset (bh_elems h ! i) (heap_mset h')"
        using heap_remove_direct [OF assms _ i(1), of ej] True i(2) by auto
      then show ?thesis using HRemove True i mem [OF i(1)] by (auto simp: heap_keys_def)
    next
      case False
      then show ?thesis using HRemove heap_missing_key(1) [OF assms False] by (auto simp: heap_keys_def)
    qed
  next
    case HClear
    then show ?thesis using heap_clear [OF assms] by simp
  qed
qed

lemma heap_run_inv:
  "heap_inv h \<Longrightarrow> heap_run ej junk ops h = Inr h' \<Longrightarrow>
    heap_inv h' \<and> bh_compare h' = bh_compare h \<and> bh_options h' = bh_options h"
proof (induction ops arbitrary: h)
  case Nil
  then show ?case by simp
next
  case (Cons op ops)
  then obtain g where g: "heap_step ej junk op h = Inr g" by (auto split: sum.splits)
  then show ?case using heap_step_spec [OF Cons.prems(1), of op ej junk] Cons.IH [of g] Cons.prems(2) by auto
qed

lemma heap_run_create:
  assumes "compare_func cmp" "heap_run ej junk ops (zbx_binary_heap_create cmp options) = Inr h"
  shows "heap_inv h \<and> bh_compare h = cmp \<and> bh_options h = options"
  using heap_run_inv [OF heap_create(1) [OF assms(1)] assms(2)] heap_create(3,4) [OF assms(1)] by simp

lemma heap_insert_all:
  "heap_inv h \<and> bh_compare h = cmp \<and> bh_options h = options \<Longrightarrow>
    options mod 2 = 1 \<longrightarrow> distinct (map h_key es) \<and> h_key ` set es \<inter> heap_keys h = {} \<Longrightarrow>
    \<exists>h'. insert_all (zbx_binary_heap_insert ej junk) es h = Inr h' \<and>
      (heap_inv h' \<and> bh_compare h' = cmp \<and> bh_options h' = options) \<and> heap_mset h' = mset es + heap_mset h"
proof (induction es arbitrary: h)
  case Nil
  then show ?case by simp
next
  case (Cons e es)
  have "\<not> (HAS_DIRECT_OPTION h \<and> h_key e \<in> heap_keys h)" using Cons.prems by (auto simp: HAS_DIRECT_OPTION_def)
  then obtain g where g: "zbx_binary_heap_insert ej junk e h = Inr g" "heap_inv g" "bh_compare g = cmp"
      "bh_options g = options" "heap_mset g = add_mset e (heap_mset h)"
    using heap_insert [of h e ej junk] Cons.prems(1) by auto
  then show ?case using Cons.IH [of g] Cons.prems(2) by (auto simp: heap_keys_def)
qed

text \<open>Ordering elements by their key.\<close>

definition heap_key_compare :: "'d zbx_binary_heap_elem \<Rightarrow> 'd zbx_binary_heap_elem \<Rightarrow> int" where
  "heap_key_compare a b = zbx_default_uint64_compare_func (h_key a) (h_key b)"

interpretation heap_key_compare: compare_func heap_key_compare
  by unfold_locales (auto simp: heap_key_compare_def uint64_compare.cmp_refl uint64_compare.cmp_flip
      dest: uint64_compare.cmp_trans)

section \<open>Properties\<close>

text \<open>C8. From any state that a sequence of calls reaches, each of insert, update, remove-minimum,
  direct remove and clear does to the multiset of stored elements what the specification says: it
  adds, replaces or removes exactly one element (the minimum for remove-minimum), and the process
  exits exactly for a duplicate key in a direct heap, a missing key, or an empty heap.\<close>

theorem binary_heap_refines_multiset:
  assumes "compare_func cmp" "heap_run ej junk ops (zbx_binary_heap_create cmp options) = Inr h"
  shows "heap_spec cmp (options mod 2 = 1) op (heap_mset h) (map_sum id heap_mset (heap_step ej junk op h))"
proof -
  have h: "heap_inv h" "bh_compare h = cmp" "HAS_DIRECT_OPTION h = (options mod 2 = 1)"
    using heap_run_create [OF assms] by (auto simp: HAS_DIRECT_OPTION_def)
  show ?thesis using heap_step_spec [OF h(1), of op ej junk] by (simp add: h)
qed

lemma binary_heap_refines_multiset_witness:
  fixes ej :: zbx_hashmap_entry and junk :: "nat zbx_binary_heap_elem"
  defines "ej \<equiv> \<lparr>e_key = 0, e_value = 0\<rparr>" and "junk \<equiv> \<lparr>h_key = 0, h_data = 0\<rparr>"
  shows "\<exists>h. heap_run ej junk [HInsert \<lparr>h_key = 7, h_data = 1\<rparr>] (zbx_binary_heap_create heap_key_compare 1) = Inr h \<and>
    heap_spec heap_key_compare True (HInsert \<lparr>h_key = 7, h_data = 2\<rparr>) (heap_mset h)
      (map_sum id heap_mset (heap_step ej junk (HInsert \<lparr>h_key = 7, h_data = 2\<rparr>) h))"
proof -
  let ?c = "zbx_binary_heap_create heap_key_compare 1 :: nat zbx_binary_heap"
  have c: "heap_inv ?c" "heap_mset ?c = {#}" by (rule heap_create [OF heap_key_compare.compare_func_axioms])+
  obtain h where h: "zbx_binary_heap_insert ej junk \<lparr>h_key = 7, h_data = 1\<rparr> ?c = Inr h"
    using heap_insert [OF c(1), of "\<lparr>h_key = 7, h_data = 1\<rparr>" ej junk] unfolding heap_keys_def c(2) by auto
  then have r: "heap_run ej junk [HInsert \<lparr>h_key = 7, h_data = 1\<rparr>] ?c = Inr h" by simp
  have "heap_spec heap_key_compare (1 mod 2 = (1 :: nat)) (HInsert \<lparr>h_key = 7, h_data = 2\<rparr>) (heap_mset h)
      (map_sum id heap_mset (heap_step ej junk (HInsert \<lparr>h_key = 7, h_data = 2\<rparr>) h))"
    by (rule binary_heap_refines_multiset [OF heap_key_compare.compare_func_axioms r])
  then show ?thesis using r by (intro exI [of _ h]) simp
qed

text \<open>Inserting any list of elements (with distinct keys when the heap is a direct one) into a fresh
  heap never fails, and taking out the minimum until the heap is empty lists them in order.\<close>

theorem binary_heap_sorts:
  assumes "compare_func cmp" "options mod 2 = 1 \<Longrightarrow> distinct (map h_key es)"
  shows "\<exists>h out. insert_all (zbx_binary_heap_insert ej junk) es (zbx_binary_heap_create cmp options) = Inr h \<and>
    drain zbx_binary_heap_find_min (zbx_binary_heap_remove_min ej) (length es) h = Inr out \<and>
    mset out = mset es \<and> sorted_wrt (\<lambda>x y. cmp x y \<le> 0) out"
proof -
  have c: "heap_inv (zbx_binary_heap_create cmp options) \<and> bh_compare (zbx_binary_heap_create cmp options) = cmp \<and>
      bh_options (zbx_binary_heap_create cmp options) = options"
    and e: "heap_mset (zbx_binary_heap_create cmp options) = {#}"
    using heap_create [OF assms(1), of options] by auto
  obtain h where h: "insert_all (zbx_binary_heap_insert ej junk) es (zbx_binary_heap_create cmp options) = Inr h"
      "heap_inv h \<and> bh_compare h = cmp \<and> bh_options h = options" "heap_mset h = mset es"
    using heap_insert_all [of _ cmp options es ej junk, OF c] assms(2) e by (auto simp: heap_keys_def)
  show ?thesis
    using heap_pq.drain_sorted [OF h(2), of "length es" ej] h(1,3) by auto
qed

lemma binary_heap_sorts_witness:
  "\<exists>h out. insert_all (zbx_binary_heap_insert \<lparr>e_key = 0, e_value = 0\<rparr> \<lparr>h_key = 0, h_data = ()\<rparr>)
      [\<lparr>h_key = 5, h_data = ()\<rparr>, \<lparr>h_key = 2, h_data = ()\<rparr>, \<lparr>h_key = 9, h_data = ()\<rparr>]
      (zbx_binary_heap_create heap_key_compare 1) = Inr h \<and>
    drain zbx_binary_heap_find_min (zbx_binary_heap_remove_min \<lparr>e_key = 0, e_value = 0\<rparr>) 3 h = Inr out \<and>
    mset out = {#\<lparr>h_key = 5, h_data = ()\<rparr>, \<lparr>h_key = 2, h_data = ()\<rparr>, \<lparr>h_key = 9, h_data = ()\<rparr>#} \<and>
    sorted_wrt (\<lambda>x y. heap_key_compare x y \<le> 0) out"
  using binary_heap_sorts [OF heap_key_compare.compare_func_axioms, of 1
      "[\<lparr>h_key = 5, h_data = ()\<rparr>, \<lparr>h_key = 2, h_data = ()\<rparr>, \<lparr>h_key = 9, h_data = ()\<rparr>]"
      "\<lparr>e_key = 0, e_value = 0\<rparr>" "\<lparr>h_key = 0, h_data = ()\<rparr>"] by (simp add: numeral_3_eq_3)

text \<open>In every reachable state of a direct heap the stored keys are distinct and the key index gives
  each key's current position in the array, so direct update and removal act on the right element.\<close>

theorem binary_heap_index_exact:
  assumes "compare_func cmp" "heap_run ej junk ops (zbx_binary_heap_create cmp 1) = Inr h"
  shows "distinct (map h_key (take (bh_num h) (bh_elems h))) \<and>
    (\<forall>i. i < bh_num h \<longrightarrow> heap_index_get h (h_key (bh_elems h ! i)) = int i) \<and>
    (\<forall>key. heap_index_get h key = -1 \<longleftrightarrow> key \<notin> h_key ` set (take (bh_num h) (bh_elems h)))"
proof -
  have h: "heap_inv h" "HAS_DIRECT_OPTION h"
    using heap_run_create [OF assms] by (auto simp: HAS_DIRECT_OPTION_def)
  note inv = heap_invD [OF h(1)]
  show ?thesis
    using inv(5) h(2) index_get [OF inv(5) h(2) inv(3)]
    by (simp add: index_ok_def heap_keys_def heap_mset_def)
qed

lemma binary_heap_index_exact_witness:
  fixes ej :: zbx_hashmap_entry and junk :: "nat zbx_binary_heap_elem"
  defines "ej \<equiv> \<lparr>e_key = 0, e_value = 0\<rparr>" and "junk \<equiv> \<lparr>h_key = 0, h_data = 0\<rparr>"
  shows "\<exists>h. heap_run ej junk [HInsert \<lparr>h_key = 7, h_data = 1\<rparr>] (zbx_binary_heap_create heap_key_compare 1) = Inr h \<and>
    heap_mset h = {#\<lparr>h_key = 7, h_data = 1\<rparr>#} \<and> heap_index_get h 8 = -1"
proof -
  let ?c = "zbx_binary_heap_create heap_key_compare 1 :: nat zbx_binary_heap"
  have c: "heap_inv ?c" "heap_mset ?c = {#}" by (rule heap_create [OF heap_key_compare.compare_func_axioms])+
  obtain h where h: "zbx_binary_heap_insert ej junk \<lparr>h_key = 7, h_data = 1\<rparr> ?c = Inr h"
      "heap_mset h = {#\<lparr>h_key = 7, h_data = 1\<rparr>#}"
    using heap_insert [OF c(1), of "\<lparr>h_key = 7, h_data = 1\<rparr>" ej junk] unfolding heap_keys_def c(2) by auto
  then have r: "heap_run ej junk [HInsert \<lparr>h_key = 7, h_data = 1\<rparr>] ?c = Inr h" by simp
  have "set (take (bh_num h) (bh_elems h)) = {\<lparr>h_key = 7, h_data = 1\<rparr>}"
    using arg_cong [OF h(2), of set_mset] by (simp add: heap_mset_def)
  then have "heap_index_get h 8 = -1"
    using binary_heap_index_exact [OF heap_key_compare.compare_func_axioms r] by simp
  then show ?thesis using r h(2) by blast
qed

end
