(* ===== verification/Int128.thy ===== *)
theory Int128
  imports Prelude
begin

unbundle bit_operations_syntax

text \<open>
  Unsigned 128 bit arithmetic on pairs of 64 bit words (\<open>src/libs/zbxalgo/int128.c\<close>), which the
  value cache and the trends use to sum and average 64 bit values.
\<close>

section \<open>State and operations\<close>

record zbx_uint128 =
  lo :: u64
  hi :: u64

definition uset128 :: "u64 \<Rightarrow> u64 \<Rightarrow> zbx_uint128" where
  "uset128 h l = \<lparr>lo = l, hi = h\<rparr>"

definition UINT32_BIT_MASK :: u64 where
  "UINT32_BIT_MASK = NOT (push_bit 32 (NOT 0))"

definition udec128_128 :: "zbx_uint128 \<Rightarrow> zbx_uint128 \<Rightarrow> zbx_uint128" where
  "udec128_128 base v =
    (let low = lo base;
         base = base\<lparr>lo := lo base - lo v\<rparr>;
         base = (if low < lo base then base\<lparr>hi := hi base - 1\<rparr> else base)
     in base\<lparr>hi := hi base - hi v\<rparr>)"

definition ushiftr128 :: "zbx_uint128 \<Rightarrow> nat \<Rightarrow> zbx_uint128" where
  "ushiftr128 base bits =
    (if 0 = bits then base
     else if 64 \<le> bits then base\<lparr>lo := drop_bit (bits - 64) (hi base), hi := 0\<rparr>
     else
       let base = base\<lparr>lo := drop_bit bits (lo base)\<rparr>;
           base = base\<lparr>lo := lo base OR push_bit (64 - bits) (hi base)\<rparr>
       in base\<lparr>hi := drop_bit bits (hi base)\<rparr>)"

definition ushiftl128 :: "zbx_uint128 \<Rightarrow> nat \<Rightarrow> zbx_uint128" where
  "ushiftl128 base bits =
    (if 0 = bits then base
     else if 64 \<le> bits then base\<lparr>hi := push_bit (bits - 64) (lo base), lo := 0\<rparr>
     else
       let base = base\<lparr>hi := push_bit bits (hi base)\<rparr>;
           base = base\<lparr>hi := hi base OR drop_bit (64 - bits) (lo base)\<rparr>
       in base\<lparr>lo := push_bit bits (lo base)\<rparr>)"

definition ucmp128_128 :: "zbx_uint128 \<Rightarrow> zbx_uint128 \<Rightarrow> int" where
  "ucmp128_128 value1 value2 =
    (if hi value1 \<noteq> hi value2 then if hi value1 < hi value2 then -1 else 1
     else if lo value1 = lo value2 then 0
     else if lo value1 < lo value2 then -1 else 1)"

definition uinc128_64 :: "zbx_uint128 \<Rightarrow> u64 \<Rightarrow> zbx_uint128" where
  "uinc128_64 base v =
    (let low = lo base;
         base = base\<lparr>lo := lo base + v\<rparr>
     in if low > lo base then base\<lparr>hi := hi base + 1\<rparr> else base)"

definition uinc128_128 :: "zbx_uint128 \<Rightarrow> zbx_uint128 \<Rightarrow> zbx_uint128" where
  "uinc128_128 base v =
    (let low = lo base;
         base = base\<lparr>lo := lo base + lo v\<rparr>;
         base = (if low > lo base then base\<lparr>hi := hi base + 1\<rparr> else base)
     in base\<lparr>hi := hi base + hi v\<rparr>)"

definition umul64_32_shift :: "zbx_uint128 \<Rightarrow> u64 \<Rightarrow> u64 \<Rightarrow> nat \<Rightarrow> zbx_uint128" where
  "umul64_32_shift base v factor shift =
    (let buffer = uset128 0 ((v AND UINT32_BIT_MASK) * factor);
         buffer = ushiftl128 buffer shift;
         base = uinc128_128 base buffer;
         buffer = uset128 0 (drop_bit 32 v * factor);
         buffer = ushiftl128 buffer (32 + shift)
     in uinc128_128 base buffer)"

definition umul64_64 :: "u64 \<Rightarrow> u64 \<Rightarrow> zbx_uint128" where
  "umul64_64 v factor =
    (let result = uset128 0 0;
         result = umul64_32_shift result v (factor AND UINT32_BIT_MASK) 0
     in umul64_32_shift result v (drop_bit 32 factor) 32)"

text \<open>The value of a pair, as a natural number.\<close>

definition val128 :: "zbx_uint128 \<Rightarrow> nat" where
  "val128 x = unat (hi x) * 2 ^ 64 + unat (lo x)"

section \<open>Pairs of digits\<close>

lemma digits_mod:
  fixes h l W V :: nat
  assumes "l < W"
  shows "(h mod V) * W + l = (h * W + l) mod (W * V)"
  using assms mod_mult2_eq [of "h * W + l" W V] by simp

lemma val128_eqI: "unat (hi x) = h mod 2 ^ 64 \<Longrightarrow> unat (lo x) = l \<Longrightarrow> val128 x = (h * 2 ^ 64 + l) mod 2 ^ 128"
  using digits_mod [of "unat (lo x)" "2 ^ 64" h "2 ^ 64"] unat_u64_less [of "lo x"] by (simp add: val128_def)

lemma val128_less: "val128 x < 2 ^ 128"
  using val128_eqI [of x "unat (hi x)" "unat (lo x)"] by simp

lemma val128_hi: "unat (hi x) = val128 x div 2 ^ 64" and val128_lo: "unat (lo x) = val128 x mod 2 ^ 64"
  using unat_u64_less [of "lo x"] by (simp_all add: val128_def)

lemma val128_inject: "val128 x = val128 y \<Longrightarrow> x = y"
proof -
  assume "val128 x = val128 y"
  then have "hi x = hi y" "lo x = lo y"
    using val128_hi [of x] val128_hi [of y] val128_lo [of x] val128_lo [of y] by (simp_all add: word_unat_eq_iff)
  then show "x = y" by (cases x; cases y) simp
qed

lemma ucmp128_128_neg: "ucmp128_128 x y < 0 \<longleftrightarrow> val128 x < val128 y"
proof -
  have l: "unat (lo x) < 18446744073709551616" "unat (lo y) < 18446744073709551616" by (rule unat_u64_less)+
  consider "unat (hi x) < unat (hi y)" | "unat (hi y) < unat (hi x)" | "hi x = hi y"
    by (metis linorder_neqE_nat word_unat_eq_iff)
  then show ?thesis
    using l by cases (auto simp: ucmp128_128_def val128_def word_less_nat_alt word_unat_eq_iff simp del: unat_u64_less)
qed

section \<open>Shifts\<close>

lemma or_digits_nat:
  fixes x y :: nat
  assumes "x < 2 ^ m"
  shows "x OR (y * 2 ^ m) = x + y * 2 ^ m"
proof -
  have "x = take_bit m x" using assms by (simp add: take_bit_nat_eq_self)
  moreover have "y * 2 ^ m = push_bit m y" by (simp add: push_bit_eq_mult)
  ultimately have "x AND (y * 2 ^ m) = take_bit m x AND push_bit m y" by simp
  also have "\<dots> = 0" by (rule bit_eqI) (auto simp: bit_simps)
  finally show ?thesis by (rule disjunctive_add_eq_or [symmetric])
qed

lemma unat_drop_bit_64: "unat (drop_bit n (w :: u64)) = unat w div 2 ^ n"
  by (subst unsigned_drop_bit_eq) (simp only: drop_bit_eq_div, simp add: take_bit_nat_eq_self)

lemma unat_push_bit_64: "unat (push_bit n (w :: u64)) = unat w * 2 ^ n mod 2 ^ 64"
  by (subst unsigned_push_bit_eq) (simp only: take_bit_eq_mod push_bit_eq_mult, simp)

text \<open>Shifting two digits of the base \<open>W = P * Q\<close> by \<open>P\<close>.\<close>

lemma digits_div:
  fixes h l P Q :: nat
  assumes "0 < P"
  shows "(h * (P * Q) + l) div P = h div P * (P * Q) + (h mod P * Q + l div P)"
proof -
  have "(h * (P * Q) + l) div P = h * Q + l div P"
    using assms by (metis (no_types, lifting) add.commute div_mult_self2 mult.assoc mult.commute neq0_conv)
  moreover have "h * Q = h div P * (P * Q) + h mod P * Q"
    by (metis add_mult_distrib div_mult_mod_eq mult.assoc)
  ultimately show ?thesis by simp
qed

lemma digits_mult:
  fixes h l P Q :: nat
  assumes "0 < Q"
  shows "(h * (P * Q) + l) * P = (h * P + l div Q) * (P * Q) + l mod Q * P"
proof -
  have "l * P = l div Q * (P * Q) + l mod Q * P"
    by (metis add_mult_distrib div_mult_mod_eq mult.assoc mult.commute)
  then show ?thesis by (simp add: algebra_simps)
qed

lemma pow64_split: "n < 64 \<Longrightarrow> (2 :: nat) ^ 64 = 2 ^ n * 2 ^ (64 - n)"
  by (simp add: power_add [symmetric])

lemma unat_or_digits:
  fixes a b :: u64
  assumes "unat a < 2 ^ m" "unat b = y * 2 ^ m"
  shows "unat (a OR b) = unat a + unat b"
  using or_digits_nat [OF assms(1), of y] assms(2) by (simp add: unsigned_or_eq)

lemma mod_mult_pow64:
  assumes "n < 64"
  shows "x * 2 ^ n mod 2 ^ 64 = x mod 2 ^ (64 - n) * (2 :: nat) ^ n"
proof -
  have "x * 2 ^ n mod 2 ^ 64 = (2 ^ n * x) mod (2 ^ n * 2 ^ (64 - n))"
    unfolding pow64_split [OF assms] by (simp only: mult.commute)
  also have "\<dots> = 2 ^ n * (x mod 2 ^ (64 - n))" by (rule mult_mod_right [symmetric])
  finally show ?thesis by (simp only: mult.commute)
qed

lemma ushiftr128_val:
  assumes "bits < 128"
  shows "val128 (ushiftr128 x bits) = val128 x div 2 ^ bits"
proof -
  consider "bits = 0" | "64 \<le> bits" | "0 < bits" "bits < 64" by linarith
  then show ?thesis
  proof cases
    case 1
    then show ?thesis by (simp add: ushiftr128_def)
  next
    case 2
    then have "(2 :: nat) ^ bits = 2 ^ 64 * 2 ^ (bits - 64)" by (metis le_add_diff_inverse power_add)
    then have "val128 x div 2 ^ bits = val128 x div 2 ^ 64 div 2 ^ (bits - 64)" by (simp only: div_mult2_eq)
    then show ?thesis
      using 2 unfolding val128_hi [symmetric] by (simp add: ushiftr128_def val128_def unat_drop_bit_64)
  next
    case 3
    define P :: nat where "P = 2 ^ bits"
    define Q :: nat where "Q = 2 ^ (64 - bits)"
    have PQ: "2 ^ 64 = P * Q" "0 < P" "0 < Q" using pow64_split [OF 3(2)] by (simp_all add: P_def Q_def)
    define a where "a = drop_bit bits (lo x)"
    define b where "b = push_bit (64 - bits) (hi x)"
    have a: "unat a = unat (lo x) div P" by (simp add: a_def P_def unat_drop_bit_64)
    have "unat (lo x) < P * Q" unfolding PQ(1) [symmetric] by simp
    then have aQ: "unat a < 2 ^ (64 - bits)" using PQ unfolding a Q_def [symmetric]
      by (simp add: div_less_iff_less_mult mult.commute)
    have "64 - (64 - bits) = bits" using 3 by simp
    then have b: "unat b = unat (hi x) mod P * 2 ^ (64 - bits)"
      using 3 mod_mult_pow64 [of "64 - bits" "unat (hi x)"] by (simp only: b_def unat_push_bit_64 P_def)
    have "unat (a OR b) = unat a + unat b" by (rule unat_or_digits [OF aQ b])
    then have "val128 (ushiftr128 x bits) = unat (hi x) div P * (P * Q) + (unat (hi x) mod P * Q + unat (lo x) div P)"
      using 3 a b by (simp add: ushiftr128_def val128_def unat_drop_bit_64 a_def [symmetric] b_def [symmetric]
          P_def [symmetric] Q_def [symmetric] PQ(1) [symmetric, simplified])
    also have "\<dots> = val128 x div P" unfolding digits_div [OF PQ(2), symmetric] val128_def PQ(1) by simp
    finally show ?thesis by (simp add: P_def)
  qed
qed

lemma ushiftl128_val:
  assumes "bits < 128"
  shows "val128 (ushiftl128 x bits) = val128 x * 2 ^ bits mod 2 ^ 128"
proof -
  consider "bits = 0" | "64 \<le> bits" | "0 < bits" "bits < 64" by linarith
  then show ?thesis
  proof cases
    case 1
    then show ?thesis using val128_less [of x] by (simp add: ushiftl128_def)
  next
    case 2
    define n where "n = bits - 64"
    have "(2 :: nat) ^ bits = 2 ^ 64 * 2 ^ n" unfolding n_def using 2 by (metis le_add_diff_inverse power_add)
    then have "val128 x * 2 ^ bits = (unat (hi x) * 2 ^ n) * 2 ^ 128 + unat (lo x) * 2 ^ n * 2 ^ 64"
      by (simp add: val128_def algebra_simps)
    then have "val128 x * 2 ^ bits mod 2 ^ 128 = unat (lo x) * 2 ^ n * 2 ^ 64 mod 2 ^ 128"
      by (simp only: mod_mult_self3)
    also have "\<dots> = val128 (ushiftl128 x bits)"
      using 2 val128_eqI [of "ushiftl128 x bits" "unat (lo x) * 2 ^ n" 0]
      by (simp add: ushiftl128_def n_def unat_push_bit_64)
    finally show ?thesis by simp
  next
    case 3
    define P :: nat where "P = 2 ^ (64 - bits)"
    define Q :: nat where "Q = 2 ^ bits"
    have PQ: "2 ^ 64 = Q * P" "0 < P" using pow64_split [OF 3(2)] by (simp_all add: P_def Q_def)
    define a where "a = drop_bit (64 - bits) (lo x)"
    define b where "b = push_bit bits (hi x)"
    have a: "unat a = unat (lo x) div P" by (simp add: a_def P_def unat_drop_bit_64)
    have "unat (lo x) < Q * P" unfolding PQ(1) [symmetric] by simp
    then have aQ: "unat a < 2 ^ bits" using PQ unfolding a Q_def [symmetric]
      by (simp add: div_less_iff_less_mult)
    have b: "unat b = unat (hi x) mod P * 2 ^ bits"
      using mod_mult_pow64 [OF 3(2), of "unat (hi x)"] by (simp only: b_def unat_push_bit_64 P_def)
    have "unat (b OR a) = unat a + unat b" using unat_or_digits [OF aQ b] by (simp add: or.commute)
    moreover have "unat a + unat b = (unat (hi x) * Q + unat (lo x) div P) mod 2 ^ 64"
    proof -
      have "(unat (hi x) * Q + unat (lo x) div P) mod (Q * P) = unat (hi x) mod P * Q + unat (lo x) div P"
      proof -
        have "unat (lo x) div P < Q" using aQ by (simp add: a Q_def)
        then show ?thesis by (rule digits_mod [symmetric])
      qed
      then show ?thesis unfolding PQ(1) a b Q_def [symmetric] by simp
    qed
    moreover have "unat (push_bit bits (lo x)) = unat (lo x) mod P * Q"
      using mod_mult_pow64 [OF 3(2), of "unat (lo x)"] by (simp only: unat_push_bit_64 P_def Q_def)
    ultimately have "val128 (ushiftl128 x bits) =
        ((unat (hi x) * Q + unat (lo x) div P) * 2 ^ 64 + unat (lo x) mod P * Q) mod 2 ^ 128"
      using 3 by (intro val128_eqI) (simp_all add: ushiftl128_def a_def b_def)
    also have "\<dots> = val128 x * Q mod 2 ^ 128"
      unfolding val128_def PQ(1) digits_mult [OF PQ(2), of _ Q] by (simp only: mult.commute)
    finally show ?thesis by (simp add: Q_def)
  qed
qed

section \<open>Addition, subtraction and multiplication\<close>

lemma wrap_add:
  fixes a b :: u64
  shows "unat (a + b) + (if a > a + b then 2 ^ 64 else 0) = unat a + unat b"
proof -
  have l: "unat a < 2 ^ 64" "unat b < 2 ^ 64" by simp_all
  show ?thesis
  proof (cases "unat a + unat b < 2 ^ 64")
    case True
    then have "unat (a + b) = unat a + unat b" by (simp add: unat_word_ariths)
    then show ?thesis by (simp add: word_less_nat_alt)
  next
    case False
    then have "(unat a + unat b) mod 2 ^ 64 = unat a + unat b - 2 ^ 64" using l by (simp add: mod_if del: unat_u64_less)
    then have "unat (a + b) = unat a + unat b - 2 ^ 64" by (simp add: unat_word_ariths)
    then show ?thesis using False l by (simp add: word_less_nat_alt del: unat_u64_less)
  qed
qed

lemma wrap_sub:
  fixes a b :: u64
  shows "unat a + (if a < a - b then 2 ^ 64 else 0) = unat b + unat (a - b)"
  using wrap_add [of "a - b" b] by (auto simp: add.commute word_less_nat_alt split: if_splits)

lemma uinc128_128_val: "val128 (uinc128_128 x y) = (val128 x + val128 y) mod 2 ^ 128"
proof -
  define c where "c = (if lo x > lo x + lo y then 1 else (0 :: nat))"
  have "hi (uinc128_128 x y) = of_nat (unat (hi x) + unat (hi y) + c)"
    by (simp add: uinc128_128_def Let_def c_def algebra_simps)
  then have "unat (hi (uinc128_128 x y)) = (unat (hi x) + unat (hi y) + c) mod 2 ^ 64"
    by (simp only: unat_of_nat) simp
  moreover have "unat (lo (uinc128_128 x y)) = unat (lo x + lo y)" by (simp add: uinc128_128_def Let_def)
  ultimately have "val128 (uinc128_128 x y) = ((unat (hi x) + unat (hi y) + c) * 2 ^ 64 + unat (lo x + lo y)) mod 2 ^ 128"
    by (rule val128_eqI)
  also have "(unat (hi x) + unat (hi y) + c) * 2 ^ 64 + unat (lo x + lo y) = val128 x + val128 y"
    using wrap_add [of "lo x" "lo y"] by (simp add: val128_def c_def algebra_simps split: if_splits)
  finally show ?thesis .
qed

lemma uinc128_64_val: "val128 (uinc128_64 x v) = (val128 x + unat v) mod 2 ^ 128"
proof -
  have "uinc128_64 x v = uinc128_128 x \<lparr>lo = v, hi = 0\<rparr>"
    by (simp add: uinc128_64_def uinc128_128_def Let_def)
  then show ?thesis by (simp add: uinc128_128_val) (simp add: val128_def)
qed

lemma udec128_128_val:
  assumes "val128 y \<le> val128 x"
  shows "val128 (udec128_128 x y) = val128 x - val128 y"
proof -
  define z where "z = udec128_128 x y"
  have z: "hi z = hi x - (if lo x < lo x - lo y then 1 else 0) - hi y" "lo z = lo x - lo y"
    by (simp_all add: z_def udec128_128_def Let_def)
  have "lo z + lo y = lo x" "hi z + hi y + (if lo z > lo z + lo y then 1 else 0) = hi x" by (simp_all add: z)
  then have "uinc128_128 z y = x"
    by (cases x) (simp add: uinc128_128_def Let_def algebra_simps split: if_splits)
  then have eq: "(val128 z + val128 y) mod 2 ^ 128 = val128 x" using uinc128_128_val [of z y] by simp
  show ?thesis
  proof (cases "val128 z + val128 y < 2 ^ 128")
    case True
    then show ?thesis using eq by (simp add: z_def)
  next
    case False
    then have "(val128 z + val128 y) mod 2 ^ 128 = val128 z + val128 y - 2 ^ 128"
      using val128_less [of z] val128_less [of y] by (simp add: mod_if)
    then have "val128 x < val128 y" using eq False val128_less [of z] by linarith
    then show ?thesis using assms by simp
  qed
qed

lemma unat_mask32: "unat (v AND UINT32_BIT_MASK) = unat v mod 2 ^ 32"
proof -
  have "UINT32_BIT_MASK = mask 32" by (simp add: UINT32_BIT_MASK_def mask_eq_exp_minus_1)
  then have "v AND UINT32_BIT_MASK = take_bit 32 v" by (simp only: take_bit_eq_mask)
  then have "unat (v AND UINT32_BIT_MASK) = take_bit 32 (unat v)" by (simp only: unsigned_take_bit_eq)
  then show ?thesis by (simp only: take_bit_eq_mod)
qed

lemma umul64_32_shift_val:
  assumes "unat factor < 2 ^ 32" "shift \<le> 32"
  shows "val128 (umul64_32_shift x v factor shift) = (val128 x + unat v * unat factor * 2 ^ shift) mod 2 ^ 128"
proof -
  have small: "a < 2 ^ 32 \<Longrightarrow> a * unat factor < 2 ^ 64" for a
    using assms(1) mult_strict_mono' [of a "2 ^ 32" "unat factor" "2 ^ 32"] by simp
  have l: "unat ((v AND UINT32_BIT_MASK) * factor) = unat v mod 2 ^ 32 * unat factor"
    using small [of "unat v mod 2 ^ 32"] by (simp add: unat_word_ariths unat_mask32)
  have h: "unat (drop_bit 32 v * factor) = unat v div 2 ^ 32 * unat factor"
    using small [of "unat v div 2 ^ 32"] by (simp add: unat_word_ariths unat_drop_bit_64 div_less_iff_less_mult)
  have u: "val128 (uset128 0 a) = unat a" for a by (simp add: val128_def uset128_def)
  have "val128 (umul64_32_shift x v factor shift) =
      ((val128 x + unat v mod 2 ^ 32 * unat factor * 2 ^ shift) + unat v div 2 ^ 32 * unat factor * 2 ^ (32 + shift)) mod 2 ^ 128"
    using assms(2) unfolding umul64_32_shift_def Let_def
    by (simp only: uinc128_128_val ushiftl128_val u l h mod_add_left_eq mod_add_right_eq) 
  also have "(val128 x + unat v mod 2 ^ 32 * unat factor * 2 ^ shift) + unat v div 2 ^ 32 * unat factor * 2 ^ (32 + shift) =
      val128 x + (unat v div 2 ^ 32 * 2 ^ 32 + unat v mod 2 ^ 32) * unat factor * 2 ^ shift"
    by (simp only: power_add algebra_simps)
  finally show ?thesis by (simp only: div_mult_mod_eq)
qed

lemma umul64_64_val: "val128 (umul64_64 a b) = unat a * unat b"
proof -
  have "unat a * unat b < 2 ^ 64 * 2 ^ 64" by (intro mult_strict_mono') simp_all
  then have small: "unat a * unat b < 2 ^ 128" by simp
  have b1: "unat (b AND UINT32_BIT_MASK) < 2 ^ 32" by (simp add: unat_mask32)
  have b2: "unat (drop_bit 32 b) < 2 ^ 32" by (simp add: unat_drop_bit_64 div_less_iff_less_mult)
  have "val128 (uset128 0 0) = 0" by (simp add: val128_def uset128_def)
  then have "val128 (umul64_64 a b) =
      (unat a * (unat b mod 2 ^ 32) + unat a * (unat b div 2 ^ 32) * 2 ^ 32) mod 2 ^ 128"
    by (simp add: umul64_64_def Let_def umul64_32_shift_val [OF b1] umul64_32_shift_val [OF b2] unat_mask32
        unat_drop_bit_64 mod_simps)
  also have "unat a * (unat b mod 2 ^ 32) + unat a * (unat b div 2 ^ 32) * 2 ^ 32 =
      unat a * (unat b div 2 ^ 32 * 2 ^ 32 + unat b mod 2 ^ 32)" by (simp only: algebra_simps)
  finally show ?thesis using small by (simp only: div_mult_mod_eq mod_less)
qed

section \<open>Division\<close>

lemma val128_shiftr1: "val128 (ushiftr128 x 1) = val128 x div 2"
  using ushiftr128_val [of 1 x] by simp

text \<open>The inner loop moves the divisor and the bit of the result down to the remainder.\<close>

function udiv_shift :: "zbx_uint128 \<Rightarrow> zbx_uint128 \<Rightarrow> u64 \<Rightarrow> zbx_uint128 \<times> u64" where
  "udiv_shift reminder divisor result_mask =
    (if ucmp128_128 reminder divisor < 0
     then udiv_shift reminder (ushiftr128 divisor 1) (drop_bit 1 result_mask)
     else (divisor, result_mask))"
  by pat_completeness auto
termination
  by (relation "measure (\<lambda>(r, d, m). val128 d)") (auto simp: ucmp128_128_neg val128_shiftr1 simp del: One_nat_def)

declare udiv_shift.simps [simp del]

text \<open>
  The outer loop, which ends only when the remainder fits 64 bits: \<open>None\<close> would be a loop that
  runs forever.
\<close>

partial_function (option) udiv_loop :: "zbx_uint128 \<Rightarrow> zbx_uint128 \<Rightarrow> u64 \<Rightarrow> u64 \<Rightarrow> (zbx_uint128 \<times> u64) option" where
  "udiv_loop reminder divisor result_mask result_lo =
    (if hi reminder \<noteq> 0 then
       (case udiv_shift reminder divisor result_mask of (divisor, result_mask) \<Rightarrow>
          udiv_loop (udec128_128 reminder divisor) divisor result_mask (result_lo OR result_mask))
     else Some (reminder, result_lo))"

text \<open>The division by zero of the C code is undefined; the model is used for a non-zero divisor.\<close>

definition udiv128_64 :: "zbx_uint128 \<Rightarrow> u64 \<Rightarrow> zbx_uint128 option" where
  "udiv128_64 dividend v =
    (let result_mask = push_bit 63 1
     in if 0 = hi dividend then Some (uset128 0 (lo dividend div v))
        else
          let reminder = dividend;
              result_hi = (if hi dividend \<ge> v then hi dividend div v else 0);
              reminder = (if hi dividend \<ge> v then reminder\<lparr>hi := hi reminder - result_hi * v\<rparr> else reminder);
              divisor = ushiftr128 (uset128 v 0) 1
          in (case udiv_loop reminder divisor result_mask 0 of
                None \<Rightarrow> None
              | Some (reminder, result_lo) \<Rightarrow> Some (uset128 result_hi (result_lo OR lo reminder div v))))"

lemma udiv_shift_spec:
  fixes v :: u64
  assumes "val128 d = unat v * 2 ^ k" "unat m = 2 ^ k" "unat v \<le> val128 r" "udiv_shift r d m = (d', m')"
    and "val128 r < unat v * 2 ^ Suc k"
  shows "\<exists>j\<le>k. val128 d' = unat v * 2 ^ j \<and> unat m' = 2 ^ j \<and> unat v * 2 ^ j \<le> val128 r \<and> val128 r < unat v * 2 ^ Suc j"
  using assms
proof (induction k arbitrary: d m)
  case 0
  then have "\<not> ucmp128_128 r d < 0" by (simp add: ucmp128_128_neg)
  then show ?case using 0 by (subst (asm) udiv_shift.simps) auto
next
  case (Suc k)
  show ?case
  proof (cases "ucmp128_128 r d < 0")
    case False
    then have "(d', m') = (d, m)" using Suc.prems(4) by (subst (asm) udiv_shift.simps) auto
    then show ?thesis using False Suc.prems by (intro exI [of _ "Suc k"]) (auto simp: ucmp128_128_neg)
  next
    case True
    have "val128 (ushiftr128 d 1) = unat v * 2 ^ k" using Suc.prems(1) by (simp only: val128_shiftr1) simp
    moreover have "unat (drop_bit 1 m) = 2 ^ k" using Suc.prems(2) by (simp only: unat_drop_bit_64) simp
    moreover have "udiv_shift r (ushiftr128 d 1) (drop_bit 1 m) = (d', m')"
      using True Suc.prems(4) by (subst (asm) udiv_shift.simps) (simp only: if_True)
    moreover have "val128 r < unat v * 2 ^ Suc k" using True Suc.prems(1) by (simp add: ucmp128_128_neg)
    ultimately obtain j where "j \<le> k" "val128 d' = unat v * 2 ^ j" "unat m' = 2 ^ j" "unat v * 2 ^ j \<le> val128 r"
        "val128 r < unat v * 2 ^ Suc j"
      using Suc.IH [of "ushiftr128 d 1" "drop_bit 1 m"] Suc.prems(3) by blast
    then show ?thesis by (intro exI [of _ j]) auto
  qed
qed

lemma udiv_loop_spec:
  fixes v :: u64
  assumes "val128 d = unat v * 2 ^ k" "unat mk = 2 ^ k" "0 < unat v" "val128 r < unat v * 2 ^ n" "n \<le> Suc k"
    and "unat l = y * 2 ^ n"
  shows "\<exists>r' l' n' y'. udiv_loop r d mk l = Some (r', l') \<and> hi r' = 0 \<and>
    unat v * unat l + val128 r = unat v * unat l' + val128 r' \<and> val128 r' < unat v * 2 ^ n' \<and> unat l' = y' * 2 ^ n'"
  using assms
proof (induction n arbitrary: r d mk l k y rule: less_induct)
  case (less n)
  note d = less.prems(1) and mk = less.prems(2) and v = less.prems(3) and r = less.prems(4) and n = less.prems(5)
    and l = less.prems(6)
  show ?case
  proof (cases "hi r = 0")
    case True
    then show ?thesis using r l by (subst udiv_loop.simps) auto
  next
    case False
    then have "2 ^ 64 \<le> val128 r" by (simp add: val128_def word_unat_eq_iff)
    then have vr: "unat v \<le> val128 r" using unat_u64_less [of v] by (simp del: unat_u64_less)
    obtain d' m' where s: "udiv_shift r d mk = (d', m')" by force
    have "(2::nat) ^ n \<le> 2 ^ Suc k" using n by (intro power_increasing) auto
    then have "unat v * 2 ^ n \<le> unat v * 2 ^ Suc k" by (rule mult_left_mono) simp
    then have "val128 r < unat v * 2 ^ Suc k" using r by linarith
    from udiv_shift_spec [OF d mk vr s this] obtain j where
      j: "j \<le> k" "val128 d' = unat v * 2 ^ j" "unat m' = 2 ^ j" "unat v * 2 ^ j \<le> val128 r" "val128 r < unat v * 2 ^ Suc j"
      by blast
    have "unat v * 2 ^ j < unat v * 2 ^ n" using j(4) r by linarith
    then have jn: "j < n" using v by (simp add: power_strict_increasing_iff)
    define r1 where "r1 = udec128_128 r d'"
    have r1: "val128 r1 = val128 r - unat v * 2 ^ j" unfolding r1_def using j by (simp add: udec128_128_val)
    have r1b: "val128 r1 < unat v * 2 ^ j" using r1 j(4,5) by simp
    have "unat m' < 2 ^ n" using j(3) jn by simp
    from unat_or_digits [OF this l] have lo: "unat (l OR m') = unat l + 2 ^ j" by (simp add: or.commute j(3))
    have "(2::nat) ^ n = 2 ^ (n - j) * 2 ^ j" using jn by (simp add: power_add [symmetric])
    then have lo': "unat (l OR m') = (y * 2 ^ (n - j) + 1) * 2 ^ j" by (simp add: lo l)
    obtain r' l' n' y' where res: "udiv_loop r1 d' m' (l OR m') = Some (r', l')" "hi r' = 0"
        "unat v * unat (l OR m') + val128 r1 = unat v * unat l' + val128 r'" "val128 r' < unat v * 2 ^ n'" "unat l' = y' * 2 ^ n'"
      using less.IH [OF jn j(2,3) v r1b _ lo'] by auto
    have "unat v * unat l + val128 r = unat v * unat l' + val128 r'"
      using res(3) j(4) unfolding lo r1 by (simp add: add_mult_distrib2)
    moreover have "udiv_loop r d mk l = Some (r', l')"
      using False s res(1) by (subst udiv_loop.simps) (simp add: r1_def)
    ultimately show ?thesis using res by blast
  qed
qed

lemma udiv128_64_val:
  assumes "v \<noteq> 0"
  shows "\<exists>q. udiv128_64 x v = Some q \<and> val128 q = val128 x div unat v"
proof -
  have v: "0 < unat v" using assms by (simp add: word_unat_eq_iff)
  show ?thesis
  proof (cases "hi x = 0")
    case True
    then show ?thesis by (simp add: udiv128_64_def Let_def val128_def uset128_def unat_div)
  next
    case False
    define rh where "rh = (if hi x \<ge> v then hi x div v else 0)"
    define r where "r = (if hi x \<ge> v then x\<lparr>hi := hi x - rh * v\<rparr> else x)"
    have rh: "rh = hi x div v" by (auto simp: rh_def word_le_nat_alt not_le word_unat_eq_iff unat_div)
    have "hi r = hi x mod v"
    proof (cases "hi x \<ge> v")
      case True
      then show ?thesis by (simp add: r_def rh minus_div_mult_eq_mod)
    next
      case False
      then have "unat (hi x) < unat v" by (simp add: word_le_nat_alt)
      then show ?thesis using False by (simp add: r_def word_unat_eq_iff unat_mod)
    qed
    then have hir: "unat (hi r) = unat (hi x) mod unat v" "lo r = lo x" by (simp_all add: unat_mod r_def)
    then have x: "val128 x = unat v * (unat rh * 2 ^ 64) + val128 r"
    proof -
      have "unat (hi x) = unat v * unat rh + unat (hi x) mod unat v" by (simp add: rh unat_div)
      then have "unat (hi x) * 2 ^ 64 = (unat v * unat rh + unat (hi x) mod unat v) * 2 ^ 64" by (rule arg_cong)
      then show ?thesis by (simp add: val128_def hir algebra_simps)
    qed
    have rb: "val128 r < unat v * 2 ^ 64"
    proof -
      have "unat (hi r) + 1 \<le> unat v" using v by (simp add: hir Suc_leI)
      then have "(unat (hi r) + 1) * 2 ^ 64 \<le> unat v * 2 ^ 64" by (rule mult_right_mono) simp
      moreover have "unat (lo r) < 2 ^ 64" by simp
      ultimately show ?thesis by (simp add: val128_def del: unat_u64_less)
    qed
    define d where "d = ushiftr128 (uset128 v 0) 1"
    have d: "val128 d = unat v * 2 ^ 63" unfolding d_def val128_shiftr1 by (simp add: val128_def uset128_def)
    have m: "unat (push_bit 63 1 :: u64) = 2 ^ 63" by (simp only: unat_push_bit_64) simp
    obtain r' l' n y where res: "udiv_loop r d (push_bit 63 1) 0 = Some (r', l')" "hi r' = 0"
        "val128 r = unat v * unat l' + val128 r'" "val128 r' < unat v * 2 ^ n" "unat l' = y * 2 ^ n"
      using udiv_loop_spec [OF d m v rb, of 0 0] by auto
    have r': "val128 r' = unat (lo r')" using res(2) by (simp add: val128_def)
    have "unat (lo r' div v) < 2 ^ n" using res(4) v by (simp add: unat_div r' div_less_iff_less_mult mult.commute)
    from unat_or_digits [OF this res(5)] have "unat (l' OR lo r' div v) = unat l' + unat (lo r') div unat v"
      by (simp add: or.commute unat_div)
    then have "val128 (uset128 rh (l' OR lo r' div v)) = unat rh * 2 ^ 64 + unat l' + unat (lo r') div unat v"
      by (simp add: val128_def uset128_def)
    also have "\<dots> = val128 x div unat v"
      using v by (simp add: x res(3) r')
    finally show ?thesis
      using False res(1) unfolding udiv128_64_def Let_def rh_def [symmetric] r_def [symmetric] d_def [symmetric] by simp
  qed
qed

section \<open>Properties\<close>

text \<open>The 128 bit product of any two 64 bit values is exact.\<close>

theorem umul64_64_exact: "val128 (umul64_64 v factor) = unat v * unat factor"
  by (rule umul64_64_val)

text \<open>Incrementing and decrementing are addition and subtraction modulo \<open>2 ^ 128\<close>, with the carry
  between the two words: decrementing undoes incrementing for all values.\<close>

theorem uinc_udec_inverse:
  "val128 (uinc128_128 x y) = (val128 x + val128 y) mod 2 ^ 128 \<and>
   val128 (uinc128_64 x v) = (val128 x + unat v) mod 2 ^ 128 \<and>
   udec128_128 (uinc128_128 x y) y = x"
proof -
  have "hi x + hi y + 1 - 1 - hi y = hi x" "hi x + hi y - hi y = hi x" by simp_all
  have "(lo x + lo y < lo x) = (lo x + lo y < lo x + lo y - lo y)" by simp
  then have "udec128_128 (uinc128_128 x y) y = x"
    by (cases x) (simp add: udec128_128_def uinc128_128_def Let_def)
  then show ?thesis by (simp only: uinc128_128_val uinc128_64_val)
qed

text \<open>C31. Division of any 128 bit value by a non-zero 64 bit value ends and gives the exact quotient,
  which the shift-and-subtract loop computes.\<close>

theorem udiv128_64_exact:
  assumes "v \<noteq> 0"
  shows "\<exists>q. udiv128_64 dividend v = Some q \<and> val128 q = val128 dividend div unat v"
  by (rule udiv128_64_val [OF assms])

lemma udiv128_64_exact_witness:
  "\<exists>q. udiv128_64 \<lparr>lo = 6, hi = 5\<rparr> 3 = Some q \<and> val128 q = (5 * 2 ^ 64 + 6) div 3"
  using udiv128_64_exact [of 3 "\<lparr>lo = 6, hi = 5\<rparr>"] by (simp add: val128_def)

end
