(* ===== verification/HashSet.thy ===== *)
theory HashSet
  imports HashFuncs Numeric
begin

text \<open>
  The hash set (\<open>src/libs/zbxalgo/hashset.c\<close>): chained slots, grown by reserve, with removal by
  value and by pointer, and an iterator that may remove the entry it stands on. A chain is the
  list of its entries, each with its address; \<open>next\<close> is the following entry of the list. The
  argument \<open>can\<close> says which sizes of slot arrays the allocator grants, \<open>new\<close> is the address it
  gives for an entry (\<open>None\<close> when it fails). The clean callback only releases the user's data.
  When the first slot array is not granted, the set has a positive number of slots and a NULL array: every access to a
  slot of it is \<open>OutOfBounds\<close>.
\<close>

section \<open>State\<close>

record 'd zbx_hashset_entry =
  he_ptr :: nat
  he_hash :: zbx_hash_t
  he_data :: 'd

record 'd zbx_hashset =
  hs_slots :: "'d zbx_hashset_entry list list"
  hs_num_slots :: nat
  hs_num_data :: nat
  hs_hash :: "'d \<Rightarrow> zbx_hash_t"
  hs_compare :: "'d \<Rightarrow> 'd \<Rightarrow> int"

record zbx_hashset_iter =
  it_slot :: int
  it_entry :: "nat option"

section \<open>Operations\<close>

definition zbx_hashset_init_slots :: "(nat \<Rightarrow> bool) \<Rightarrow> 'd zbx_hashset \<Rightarrow> nat \<Rightarrow> ret \<times> 'd zbx_hashset" where
  "zbx_hashset_init_slots can hs init_size =
    (let hs = hs\<lparr>hs_num_data := 0\<rparr>
     in if 0 < init_size then
          let hs = hs\<lparr>hs_num_slots := next_prime init_size\<rparr>
          in if can (hs_num_slots hs) then (SUCCEED, hs\<lparr>hs_slots := replicate (hs_num_slots hs) []\<rparr>)
             else (FAIL, hs\<lparr>hs_slots := []\<rparr>)
        else (SUCCEED, hs\<lparr>hs_num_slots := 0, hs_slots := []\<rparr>))"

definition zbx_hashset_create_ext :: "(nat \<Rightarrow> bool) \<Rightarrow> nat \<Rightarrow> ('d \<Rightarrow> zbx_hash_t) \<Rightarrow> ('d \<Rightarrow> 'd \<Rightarrow> int) \<Rightarrow> 'd zbx_hashset" where
  "zbx_hashset_create_ext can init_size h c =
    snd (zbx_hashset_init_slots can
      \<lparr>hs_slots = [], hs_num_slots = 0, hs_num_data = 0, hs_hash = h, hs_compare = c\<rparr> init_size)"

text \<open>The chain at a slot; there is none in a NULL array.\<close>

definition hash_chain :: "'d zbx_hashset \<Rightarrow> nat \<Rightarrow> 'd zbx_hashset_entry list outcome" where
  "hash_chain hs slot = (if slot < length (hs_slots hs) then Inr (hs_slots hs ! slot) else Inl OutOfBounds)"

definition zbx_hashset_destroy :: "'d zbx_hashset \<Rightarrow> 'd zbx_hashset outcome" where
  "zbx_hashset_destroy hs =
    (if length (hs_slots hs) < hs_num_slots hs then Inl OutOfBounds
     else Inr (hs\<lparr>hs_num_data := 0, hs_num_slots := 0, hs_slots := []\<rparr>))"

definition entry_slot :: "nat \<Rightarrow> 'd zbx_hashset_entry \<Rightarrow> nat" where
  "entry_slot n e = unat (he_hash e) mod n"

text \<open>
  Rehashing one chain: \<open>kept\<close> holds the entries that stay, last one first; the others go to the
  front of their new chain.
\<close>

fun hashset_rehash_chain :: "nat \<Rightarrow> nat \<Rightarrow> 'd zbx_hashset_entry list \<Rightarrow> 'd zbx_hashset_entry list \<Rightarrow>
    'd zbx_hashset_entry list list \<Rightarrow> 'd zbx_hashset_entry list list" where
  "hashset_rehash_chain inc_slots slot kept [] slots = slots[slot := rev kept]"
| "hashset_rehash_chain inc_slots slot kept (cur # tmp) slots =
    (let new_slot = entry_slot inc_slots cur
     in if slot \<noteq> new_slot
        then hashset_rehash_chain inc_slots slot kept tmp (slots[new_slot := cur # slots ! new_slot])
        else hashset_rehash_chain inc_slots slot (cur # kept) tmp slots)"

definition hashset_rehash :: "nat \<Rightarrow> nat \<Rightarrow> 'd zbx_hashset_entry list list \<Rightarrow> 'd zbx_hashset_entry list list" where
  "hashset_rehash inc_slots num_slots slots =
    fold (\<lambda>slot slots. hashset_rehash_chain inc_slots slot [] (slots ! slot) slots) [0..<num_slots] slots"

text \<open>A NULL array is grown like a new one, but the old slots, which are read then, were never set.\<close>

definition zbx_hashset_reserve :: "(nat \<Rightarrow> bool) \<Rightarrow> 'd zbx_hashset \<Rightarrow> nat \<Rightarrow> (ret \<times> 'd zbx_hashset) outcome" where
  "zbx_hashset_reserve can hs num_slots_req =
    (if 0 = hs_num_slots hs then
       (case zbx_hashset_init_slots can hs (max 10 (num_slots_req * (2 - 4 div 5) + 1)) of
          (r, hs) \<Rightarrow> if r \<noteq> SUCCEED then Inr (FAIL, hs) else Inr (SUCCEED, hs))
     else if num_slots_req \<ge> hs_num_slots hs * 4 div 5 then
       let inc_slots = next_prime (hs_num_slots hs * 3 div 2)
       in if \<not> can inc_slots then Inr (FAIL, hs)
          else if length (hs_slots hs) < hs_num_slots hs then Inl OutOfBounds
          else
            let slots = realloc_cells [] inc_slots (hs_slots hs)
            in Inr (SUCCEED, hs\<lparr>hs_slots := hashset_rehash inc_slots (hs_num_slots hs) slots, hs_num_slots := inc_slots\<rparr>)
     else Inr (SUCCEED, hs))"

text \<open>The search loop over a chain, and unlinking the first entry of a chain that satisfies a test.\<close>

fun hashset_find :: "('d \<Rightarrow> 'd \<Rightarrow> int) \<Rightarrow> zbx_hash_t \<Rightarrow> 'd \<Rightarrow> 'd zbx_hashset_entry list \<Rightarrow> 'd zbx_hashset_entry option" where
  "hashset_find c hash data [] = None"
| "hashset_find c hash data (entry # next_entries) =
    (if he_hash entry = hash \<and> c (he_data entry) data = 0 then Some entry
     else hashset_find c hash data next_entries)"

fun hashset_unlink :: "('e \<Rightarrow> bool) \<Rightarrow> 'e list \<Rightarrow> 'e list option" where
  "hashset_unlink test [] = None"
| "hashset_unlink test (entry # next_entries) =
    (if test entry then Some next_entries else map_option ((#) entry) (hashset_unlink test next_entries))"

definition zbx_hashset_search :: "'d zbx_hashset \<Rightarrow> 'd \<Rightarrow> 'd zbx_hashset_entry option outcome" where
  "zbx_hashset_search hs data =
    (if 0 = hs_num_slots hs then Inr None
     else
       let hash = hs_hash hs data; slot = unat hash mod hs_num_slots hs
       in map_sum id (hashset_find (hs_compare hs) hash data) (hash_chain hs slot))"

text \<open>Insertion returns the stored entry, \<open>None\<close> when an allocation failed.\<close>

definition zbx_hashset_insert :: "(nat \<Rightarrow> bool) \<Rightarrow> nat option \<Rightarrow> 'd zbx_hashset \<Rightarrow> 'd \<Rightarrow>
    ('d zbx_hashset_entry option \<times> 'd zbx_hashset) outcome" where
  "zbx_hashset_insert can new hs data =
    (case (if 0 = hs_num_slots hs then zbx_hashset_init_slots can hs 10 else (SUCCEED, hs)) of
       (r, hs) \<Rightarrow>
         if r \<noteq> SUCCEED then Inr (None, hs)
         else
           let hash = hs_hash hs data; slot = unat hash mod hs_num_slots hs
           in (case hash_chain hs slot of
                 Inl f \<Rightarrow> Inl f
               | Inr chain \<Rightarrow>
                   (case hashset_find (hs_compare hs) hash data chain of
                      Some entry \<Rightarrow> Inr (Some entry, hs)
                    | None \<Rightarrow>
                        (case zbx_hashset_reserve can hs (hs_num_data hs + 1) of
                           Inl f \<Rightarrow> Inl f
                         | Inr (r, hs) \<Rightarrow>
                             if r \<noteq> SUCCEED then Inr (None, hs)
                             else
                               let slot = unat hash mod hs_num_slots hs
                               in (case new of
                                     None \<Rightarrow> Inr (None, hs)
                                   | Some ptr \<Rightarrow>
                                       let entry = \<lparr>he_ptr = ptr, he_hash = hash, he_data = data\<rparr>
                                       in (case hash_chain hs slot of
                                             Inl f \<Rightarrow> Inl f
                                           | Inr chain \<Rightarrow>
                                               Inr (Some entry,
                                                 hs\<lparr>hs_slots := (hs_slots hs)[slot := entry # chain],
                                                    hs_num_data := hs_num_data hs + 1\<rparr>)))))))"

text \<open>The rest of both removals: the slot without the entry that was unlinked, and one entry less.\<close>

definition hashset_drop :: "('d zbx_hashset_entry \<Rightarrow> bool) \<Rightarrow> 'd zbx_hashset \<Rightarrow> nat \<Rightarrow> 'd zbx_hashset outcome" where
  "hashset_drop test hs slot =
    map_sum id (\<lambda>chain.
      case hashset_unlink test chain of
        Some chain \<Rightarrow> hs\<lparr>hs_slots := (hs_slots hs)[slot := chain], hs_num_data := hs_num_data hs - 1\<rparr>
      | None \<Rightarrow> hs) (hash_chain hs slot)"

definition zbx_hashset_remove :: "'d zbx_hashset \<Rightarrow> 'd \<Rightarrow> 'd zbx_hashset outcome" where
  "zbx_hashset_remove hs data =
    (if 0 = hs_num_slots hs then Inr hs
     else
       let hash = hs_hash hs data; slot = unat hash mod hs_num_slots hs
       in hashset_drop (\<lambda>entry. he_hash entry = hash \<and> hs_compare hs (he_data entry) data = 0) hs slot)"

definition zbx_hashset_remove_direct :: "'d zbx_hashset \<Rightarrow> 'd zbx_hashset_entry \<Rightarrow> 'd zbx_hashset outcome" where
  "zbx_hashset_remove_direct hs data_entry =
    (if 0 = hs_num_slots hs then Inr hs
     else
       let slot = entry_slot (hs_num_slots hs) data_entry
       in hashset_drop (\<lambda>entry. he_ptr entry = he_ptr data_entry) hs slot)"

definition zbx_hashset_clear :: "'d zbx_hashset \<Rightarrow> 'd zbx_hashset outcome" where
  "zbx_hashset_clear hs =
    (if length (hs_slots hs) < hs_num_slots hs then Inl OutOfBounds
     else Inr (hs\<lparr>hs_slots := map (\<lambda>chain. []) (hs_slots hs), hs_num_data := 0\<rparr>))"

subsection \<open>The iterator\<close>

definition ITER_START :: int where
  "ITER_START = -1"

definition ITER_FINISH :: int where
  "ITER_FINISH = -2"

definition zbx_hashset_iter_reset :: zbx_hashset_iter where
  "zbx_hashset_iter_reset = \<lparr>it_slot = ITER_START, it_entry = None\<rparr>"

text \<open>The entries that follow an address in a chain.\<close>

fun chain_after :: "nat \<Rightarrow> 'd zbx_hashset_entry list \<Rightarrow> 'd zbx_hashset_entry list" where
  "chain_after ptr [] = []"
| "chain_after ptr (e # es) = (if he_ptr e = ptr then es else chain_after ptr es)"

text \<open>The loop over the slots; \<open>slot\<close> is the slot to look at next.\<close>

function hashset_iter_scan :: "'d zbx_hashset \<Rightarrow> nat \<Rightarrow> ('d zbx_hashset_entry option \<times> zbx_hashset_iter) outcome" where
  "hashset_iter_scan hs slot =
    (if slot \<ge> hs_num_slots hs then Inr (None, \<lparr>it_slot = ITER_FINISH, it_entry = None\<rparr>)
     else
       (case hash_chain hs slot of
          Inl f \<Rightarrow> Inl f
        | Inr [] \<Rightarrow> hashset_iter_scan hs (slot + 1)
        | Inr (entry # _) \<Rightarrow> Inr (Some entry, \<lparr>it_slot = int slot, it_entry = Some (he_ptr entry)\<rparr>)))"
  by pat_completeness auto
termination by (relation "measure (\<lambda>(hs, slot). hs_num_slots hs - slot)") auto

declare hashset_iter_scan.simps [simp del]

text \<open>The entries that follow the one the iterator stands on.\<close>

definition iter_following :: "'d zbx_hashset \<Rightarrow> zbx_hashset_iter \<Rightarrow> 'd zbx_hashset_entry list outcome" where
  "iter_following hs it =
    (case it_entry it of
       None \<Rightarrow> Inr []
     | Some ptr \<Rightarrow> map_sum id (chain_after ptr) (hash_chain hs (nat (it_slot it))))"

definition zbx_hashset_iter_next :: "'d zbx_hashset \<Rightarrow> zbx_hashset_iter \<Rightarrow>
    ('d zbx_hashset_entry option \<times> zbx_hashset_iter) outcome" where
  "zbx_hashset_iter_next hs it =
    (if ITER_FINISH = it_slot it then Inr (None, it)
     else
       (case (if ITER_START \<noteq> it_slot it then iter_following hs it else Inr []) of
          Inl f \<Rightarrow> Inl f
        | Inr (entry # _) \<Rightarrow> Inr (Some entry, it\<lparr>it_entry := Some (he_ptr entry)\<rparr>)
        | Inr [] \<Rightarrow> hashset_iter_scan hs (nat (it_slot it + 1))))"

text \<open>The entry before an address in a chain.\<close>

fun chain_before :: "nat \<Rightarrow> 'd zbx_hashset_entry list \<Rightarrow> nat option" where
  "chain_before ptr (e1 # e2 # es) = (if he_ptr e2 = ptr then Some (he_ptr e1) else chain_before ptr (e2 # es))"
| "chain_before ptr es = None"

definition zbx_hashset_iter_remove :: "'d zbx_hashset \<Rightarrow> zbx_hashset_iter \<Rightarrow> ('d zbx_hashset \<times> zbx_hashset_iter) outcome" where
  "zbx_hashset_iter_remove hs it =
    (case it_entry it of
       None \<Rightarrow> Inl ExitFailure
     | Some ptr \<Rightarrow>
         if ITER_START = it_slot it \<or> ITER_FINISH = it_slot it then Inl ExitFailure
         else
           let slot = nat (it_slot it)
           in (case hash_chain hs slot of
                 Inl f \<Rightarrow> Inl f
               | Inr chain \<Rightarrow>
                   if chain \<noteq> [] \<and> he_ptr (hd chain) = ptr then
                     Inr (hs\<lparr>hs_slots := (hs_slots hs)[slot := tl chain], hs_num_data := hs_num_data hs - 1\<rparr>,
                          \<lparr>it_slot = it_slot it - 1, it_entry = None\<rparr>)
                   else
                     (case chain_before ptr chain of
                        None \<Rightarrow> Inl OutOfBounds
                      | Some prev \<Rightarrow>
                          (case hashset_unlink (\<lambda>e. he_ptr e = ptr) chain of
                             None \<Rightarrow> Inl OutOfBounds
                           | Some chain' \<Rightarrow>
                               Inr (hs\<lparr>hs_slots := (hs_slots hs)[slot := chain'], hs_num_data := hs_num_data hs - 1\<rparr>,
                                    it\<lparr>it_entry := Some prev\<rparr>)))))"

section \<open>Invariant\<close>

definition hs_placed :: "nat \<Rightarrow> nat set \<Rightarrow> 'd zbx_hashset_entry list list \<Rightarrow> bool" where
  "hs_placed n ts slots \<longleftrightarrow> (\<forall>t\<in>ts. t < length slots \<longrightarrow> (\<forall>e\<in>set (slots ! t). entry_slot n e = t))"

definition hashset_inv :: "'d zbx_hashset \<Rightarrow> bool" where
  "hashset_inv hs \<longleftrightarrow>
    hash_compare_func (hs_compare hs) (hs_hash hs) \<and> length (hs_slots hs) = hs_num_slots hs \<and>
    hs_placed (hs_num_slots hs) UNIV (hs_slots hs) \<and>
    (\<forall>e\<in>set (concat (hs_slots hs)). he_hash e = hs_hash hs (he_data e)) \<and>
    (\<forall>e\<in>set (concat (hs_slots hs)). \<forall>e'\<in>set (concat (hs_slots hs)). hs_compare hs (he_data e) (he_data e') = 0 \<longrightarrow> e = e') \<and>
    distinct (map he_ptr (concat (hs_slots hs))) \<and> hs_num_data hs = length (concat (hs_slots hs)) \<and>
    (hs_num_slots hs = 0 \<or> prime_number (hs_num_slots hs) \<and> hs_num_data hs < hs_num_slots hs * 4 div 5)"

definition hs_entries :: "'d zbx_hashset \<Rightarrow> 'd zbx_hashset_entry multiset" where
  "hs_entries hs = mset (concat (hs_slots hs))"

lemma concat_update:
  "i < length xs \<Longrightarrow> mset (concat (xs[i := ys])) + mset (xs ! i) = mset (concat xs) + mset ys"
  by (simp add: upd_conv_take_nth_drop) (subst (2) id_take_nth_drop [of i xs], simp_all)

text \<open>The set is broken after its first slot array was not granted: it counts slots that it does not have.\<close>

definition hashset_broken :: "'d zbx_hashset \<Rightarrow> bool" where
  "hashset_broken hs \<longleftrightarrow> hs_num_slots hs \<noteq> 0 \<and> hs_slots hs = []"

section \<open>Rehashing\<close>

lemma hashset_rehash_chain:
  assumes "length slots = inc" "slot < inc" "hs_placed inc (ts - {slot}) slots" "\<forall>e\<in>set kept. entry_slot inc e = slot"
    and "slots ! slot = chain"
  shows "length (hashset_rehash_chain inc slot kept rest slots) = inc \<and>
    hs_placed inc (insert slot ts) (hashset_rehash_chain inc slot kept rest slots) \<and>
    mset (concat (hashset_rehash_chain inc slot kept rest slots)) + mset chain = mset (concat slots) + mset kept + mset rest"
  using assms
proof (induction inc slot kept rest slots rule: hashset_rehash_chain.induct)
  case (1 inc slot kept slots)
  then have "hs_placed inc (insert slot ts) (slots[slot := rev kept])"
    by (auto simp: hs_placed_def nth_list_update)
  then show ?case using 1 concat_update [of slot slots "rev kept"] by simp
next
  case (2 inc slot kept cur tmp slots)
  define t where "t = entry_slot inc cur"
  have t: "t < inc" using 2(4) by (simp add: t_def entry_slot_def)
  show ?case
  proof (cases "slot = t")
    case True
    then have "\<forall>e\<in>set (cur # kept). entry_slot inc e = slot" using 2(6) by (simp add: t_def)
    then show ?thesis
      using 2(2) [OF t_def _ 2(3,4,5) _ 2(7)] True by (simp add: t_def [symmetric])
  next
    case False
    define slots1 where "slots1 = slots[t := cur # slots ! t]"
    have p: "hs_placed inc (ts - {slot}) slots1"
      unfolding hs_placed_def
    proof (intro ballI impI)
      fix u e assume u: "u \<in> ts - {slot}" "u < length slots1" "e \<in> set (slots1 ! u)"
      show "entry_slot inc e = u"
      proof (cases "u = t \<and> e = cur")
        case True
        then show ?thesis by (simp add: t_def)
      next
        case False
        then have "e \<in> set (slots ! u)" using u(2,3) by (cases "u = t") (auto simp: slots1_def)
        then show ?thesis using 2(5) u(1,2) by (simp add: hs_placed_def slots1_def)
      qed
    qed
    have l: "length slots1 = inc" "slots1 ! slot = chain" using 2(3,7) False by (simp_all add: slots1_def)
    have m: "mset (concat slots1) = add_mset cur (mset (concat slots))"
      using concat_update [of t slots "cur # slots ! t"] t 2(3) by (simp add: slots1_def)
    show ?thesis
      using 2(1) [OF t_def _ _ 2(4) _ 2(6), folded slots1_def, OF False l(1) p l(2)] False m
      by (simp add: t_def [symmetric] slots1_def [symmetric])
  qed
qed

lemma hashset_rehash:
  assumes "length slots = inc" "k \<le> inc" "hs_placed inc {n..} slots" "k \<le> n"
  defines "res \<equiv> fold (\<lambda>slot slots. hashset_rehash_chain inc slot [] (slots ! slot) slots) [0..<k] slots"
  shows "length res = inc \<and> hs_placed inc ({..<k} \<union> {n..}) res \<and> mset (concat res) = mset (concat slots)"
  using assms(1-4) unfolding res_def
proof (induction k)
  case 0
  then show ?case by simp
next
  case (Suc k)
  define r where "r = fold (\<lambda>slot slots. hashset_rehash_chain inc slot [] (slots ! slot) slots) [0..<k] slots"
  have r: "length r = inc" "hs_placed inc ({..<k} \<union> {n..}) r" "mset (concat r) = mset (concat slots)"
    using Suc unfolding r_def by auto
  then have "hs_placed inc ({..<k} \<union> {n..} - {k}) r" by (simp add: hs_placed_def)
  from hashset_rehash_chain [OF r(1) _ this, of "[]" "r ! k" "r ! k"] show ?case
    using r Suc.prems by (simp add: r_def [symmetric] lessThan_Suc)
qed

section \<open>Creating and growing\<close>

lemma hashset_invD:
  assumes "hashset_inv hs"
  shows "hash_compare_func (hs_compare hs) (hs_hash hs)" "length (hs_slots hs) = hs_num_slots hs"
    "hs_placed (hs_num_slots hs) UNIV (hs_slots hs)"
    "e \<in> set (concat (hs_slots hs)) \<Longrightarrow> he_hash e = hs_hash hs (he_data e)"
    "e \<in> set (concat (hs_slots hs)) \<Longrightarrow> e' \<in> set (concat (hs_slots hs)) \<Longrightarrow>
      hs_compare hs (he_data e) (he_data e') = 0 \<Longrightarrow> e = e'"
    "distinct (map he_ptr (concat (hs_slots hs)))" "hs_num_data hs = length (concat (hs_slots hs))"
    "hs_num_slots hs \<noteq> 0 \<Longrightarrow> prime_number (hs_num_slots hs)"
    "hs_num_slots hs \<noteq> 0 \<Longrightarrow> hs_num_data hs < hs_num_slots hs * 4 div 5"
  using assms by (auto simp: hashset_inv_def)

lemma hash_chain_ok: "hashset_inv hs \<Longrightarrow> t < hs_num_slots hs \<Longrightarrow> hash_chain hs t = Inr (hs_slots hs ! t)"
  by (simp add: hash_chain_def hashset_invD(2))

lemma prime_load: "prime_number n \<Longrightarrow> 0 < n * 4 div 5"
  using prime_number_ge_2 [of n] by linarith

lemma growth_load:
  fixes n m :: nat
  assumes "2 \<le> n" "n * 3 div 2 \<le> m"
  shows "n * 4 div 5 < m * 4 div 5"
proof (cases "n \<le> 3")
  case True
  then have "n = 2 \<or> n = 3" using assms(1) by auto
  then show ?thesis using assms(2) by auto
next
  case False
  then have "n + 2 \<le> m" using assms(2) by linarith
  then have "(n * 4 + 5) div 5 \<le> m * 4 div 5" by (intro div_le_mono) simp
  then show ?thesis by simp
qed

lemma lessThan_Un_atLeast: "{..<n} \<union> {n..} = (UNIV :: nat set)"
  by auto

lemma hashset_init_slots:
  assumes "hash_compare_func (hs_compare hs) (hs_hash hs)" "n = 0 \<or> can (next_prime n)"
  shows "\<exists>hs'. zbx_hashset_init_slots can hs n = (SUCCEED, hs') \<and> hashset_inv hs' \<and> hs_entries hs' = {#} \<and>
    hs_compare hs' = hs_compare hs \<and> hs_hash hs' = hs_hash hs \<and> hs_num_slots hs' = (if n = 0 then 0 else next_prime n)"
proof -
  have "prime_number (next_prime n)" using next_prime_least [of n] by blast
  then have "0 < next_prime n * 4 div 5" "concat (replicate (next_prime n) []) = []" using prime_load by auto
  then show ?thesis
    using assms \<open>prime_number (next_prime n)\<close>
    by (auto simp: zbx_hashset_init_slots_def Let_def hashset_inv_def hs_placed_def hs_entries_def)
qed

lemma hashset_inv_mset:
  assumes "hashset_inv hs" "length slots = n" "hs_placed n UNIV slots" "mset (concat slots) = mset (concat (hs_slots hs))"
    and "prime_number n" "hs_num_data hs < n * 4 div 5"
  shows "hashset_inv (hs\<lparr>hs_slots := slots, hs_num_slots := n\<rparr>)"
proof -
  have st: "set (concat slots) = set (concat (hs_slots hs))" using assms(4) by (rule mset_eq_setD)
  have "mset (map he_ptr (concat slots)) = mset (map he_ptr (concat (hs_slots hs)))" using assms(4) by (metis mset_map)
  then have "distinct (map he_ptr (concat slots)) = distinct (map he_ptr (concat (hs_slots hs)))"
    by (rule mset_eq_imp_distinct_iff)
  moreover have "length (concat slots) = length (concat (hs_slots hs))" using assms(4) by (rule mset_eq_length)
  ultimately show ?thesis
    using assms(1,2,3,5,6) st unfolding hashset_inv_def by simp
qed

lemma hashset_init_slots_failure:
  "0 < n \<Longrightarrow> \<not> can (next_prime n) \<Longrightarrow> zbx_hashset_init_slots can hs n =
    (FAIL, hs\<lparr>hs_num_data := 0, hs_num_slots := next_prime n, hs_slots := []\<rparr>)"
  by (simp add: zbx_hashset_init_slots_def Let_def)

lemma hashset_reserve_returns:
  assumes "hashset_inv hs" "hs_num_slots hs \<noteq> 0"
  shows "\<exists>r hs'. zbx_hashset_reserve can hs req = Inr (r, hs') \<and> (r = SUCCEED \<or> r = FAIL \<and> (\<exists>n. \<not> can n))"
  using assms hashset_invD(2) [OF assms(1)] by (auto simp: zbx_hashset_reserve_def Let_def)

lemma hashset_reserve:
  assumes "hashset_inv hs" "hs_num_slots hs \<noteq> 0" "zbx_hashset_reserve can hs req = Inr (r, hs')"
  shows "hashset_inv hs' \<and> hs_entries hs' = hs_entries hs \<and> hs_compare hs' = hs_compare hs \<and> hs_hash hs' = hs_hash hs \<and>
    hs_num_data hs' = hs_num_data hs \<and> hs_num_slots hs' \<noteq> 0 \<and>
    (r = SUCCEED \<longrightarrow> req = hs_num_data hs + 1 \<longrightarrow> req < hs_num_slots hs' * 4 div 5) \<and> (r = FAIL \<longrightarrow> hs' = hs)"
proof -
  note inv = hashset_invD [OF assms(1)]
  define n where "n = hs_num_slots hs"
  define inc where "inc = next_prime (n * 3 div 2)"
  have n: "prime_number n" "2 \<le> n" using inv(8) [OF assms(2)] by (auto simp: n_def prime_number_def)
  have inc: "prime_number inc" "n * 3 div 2 \<le> inc" "n \<le> inc"
    using next_prime_least [of "n * 3 div 2"] n(2) by (auto simp: inc_def)
  have load: "n * 4 div 5 < inc * 4 div 5" by (rule growth_load [OF n(2) inc(2)])
  show ?thesis
  proof (cases "req \<ge> n * 4 div 5 \<and> can inc")
    case True
    define slots where "slots = realloc_cells [] inc (hs_slots hs)"
    have sl: "slots = hs_slots hs @ replicate (inc - n) []"
      using inv(2) inc(3) by (simp add: slots_def realloc_cells_def n_def)
    have c: "concat slots = concat (hs_slots hs)" by (simp add: sl)
    have "length slots = inc" "hs_placed inc {n..} slots"
      using inv(2) inc(3) by (auto simp: sl hs_placed_def nth_append n_def)
    from hashset_rehash [OF this(1) inc(3) this(2)]
    have res: "length (hashset_rehash inc n slots) = inc" "hs_placed inc UNIV (hashset_rehash inc n slots)"
        "mset (concat (hashset_rehash inc n slots)) = mset (concat (hs_slots hs))"
      using c lessThan_Un_atLeast [of n] by (simp_all add: hashset_rehash_def)
    have eq: "hs' = hs\<lparr>hs_slots := hashset_rehash inc n slots, hs_num_slots := inc\<rparr>" "r = SUCCEED"
      using assms(2,3) True inv(2) by (auto simp: zbx_hashset_reserve_def inc_def n_def slots_def Let_def)
    have ld: "hs_num_data hs < n * 4 div 5" using inv(9) assms(2) by (simp add: n_def)
    then have "hashset_inv hs'"
      unfolding eq(1) using load by (intro hashset_inv_mset [OF assms(1) res inc(1)]) simp
    then show ?thesis using eq res(3) ld load inc n by (auto simp: hs_entries_def)
  next
    case False
    then have "hs' = hs" "r = SUCCEED \<longrightarrow> \<not> n * 4 div 5 \<le> req"
      using assms(2,3) inv(2) by (auto simp: zbx_hashset_reserve_def inc_def n_def Let_def split: if_splits)
    then show ?thesis using assms(1,2) by (auto simp: n_def)
  qed
qed

section \<open>Looking up, inserting and removing\<close>

lemma hashset_find_Some:
  "hashset_find c h d chain = Some e \<Longrightarrow> e \<in> set chain \<and> he_hash e = h \<and> c (he_data e) d = 0"
  by (induction chain) (auto split: if_splits)

lemma hashset_find_None: "hashset_find c h d chain = None \<Longrightarrow> e \<in> set chain \<Longrightarrow> he_hash e = h \<Longrightarrow> c (he_data e) d \<noteq> 0"
  by (induction chain) (auto split: if_splits)

lemma hashset_unlink_Some:
  "hashset_unlink test chain = Some chain' \<Longrightarrow> \<exists>e. test e \<and> e \<in> set chain \<and> mset chain = add_mset e (mset chain')"
  by (induction chain arbitrary: chain') (auto split: if_splits)

lemma hashset_unlink_None: "hashset_unlink test chain = None \<longleftrightarrow> (\<forall>e\<in>set chain. \<not> test e)"
  by (induction chain) auto

lemma hashset_chain_mem:
  assumes "hashset_inv hs" "hs_num_slots hs \<noteq> 0" "e \<in># hs_entries hs"
  shows "e \<in> set (hs_slots hs ! entry_slot (hs_num_slots hs) e)"
proof -
  obtain t where "t < length (hs_slots hs)" "e \<in> set (hs_slots hs ! t)"
    using assms(3) by (auto simp: hs_entries_def in_set_conv_nth [of _ "hs_slots hs"])
  then show ?thesis using hashset_invD(3) [OF assms(1)] by (auto simp: hs_placed_def)
qed

lemma hashset_slot_chain:
  assumes "hashset_inv hs" "s < hs_num_slots hs" "e \<in> set (hs_slots hs ! s)"
  shows "e \<in># hs_entries hs" "entry_slot (hs_num_slots hs) e = s"
  using hashset_invD(2,3) [OF assms(1)] assms(2,3) nth_mem [of s "hs_slots hs"]
  by (auto simp: hs_entries_def hs_placed_def)

lemma hashset_cmp_hash:
  assumes "hashset_inv hs" "e \<in># hs_entries hs" "hs_compare hs (he_data e) d = 0"
  shows "he_hash e = hs_hash hs d"
  using hash_compare_func.hash_cong [OF hashset_invD(1) [OF assms(1)] assms(3)] hashset_invD(4) [OF assms(1), of e] assms(2)
  by (simp add: hs_entries_def)

lemma hashset_empty: "hashset_inv hs \<Longrightarrow> hs_num_slots hs = 0 \<Longrightarrow> hs_entries hs = {#}"
  using hashset_invD(2) [of hs] by (simp add: hs_entries_def)

lemma hashset_nonempty: "hashset_inv hs \<Longrightarrow> e \<in># hs_entries hs \<Longrightarrow> hs_num_slots hs \<noteq> 0"
  by (metis hashset_empty empty_iff set_mset_empty)

text \<open>The stored entry that a search finds.\<close>

definition hashset_stored :: "'d zbx_hashset \<Rightarrow> 'd \<Rightarrow> 'd zbx_hashset_entry option" where
  "hashset_stored hs d =
    (if 0 = hs_num_slots hs then None
     else hashset_find (hs_compare hs) (hs_hash hs d) d (hs_slots hs ! (unat (hs_hash hs d) mod hs_num_slots hs)))"

lemma hashset_search: "hashset_inv hs \<Longrightarrow> zbx_hashset_search hs d = Inr (hashset_stored hs d)"
  by (simp add: zbx_hashset_search_def hashset_stored_def hash_chain_ok Let_def)

lemma hashset_stored:
  assumes "hashset_inv hs"
  shows "hashset_stored hs d = Some e \<longleftrightarrow> e \<in># hs_entries hs \<and> hs_compare hs (he_data e) d = 0"
proof (cases "hs_num_slots hs = 0")
  case True
  then show ?thesis using hashset_empty [OF assms] by (simp add: hashset_stored_def)
next
  case False
  define s where "s = unat (hs_hash hs d) mod hs_num_slots hs"
  have s: "s < hs_num_slots hs" using False by (simp add: s_def)
  have eq: "hashset_stored hs d = hashset_find (hs_compare hs) (hs_hash hs d) d (hs_slots hs ! s)"
    using False by (simp add: hashset_stored_def s_def Let_def)
  have uniq: "e = e'" if "e \<in># hs_entries hs" "e' \<in># hs_entries hs" "hs_compare hs (he_data e) d = 0"
    "hs_compare hs (he_data e') d = 0" for e e'
  proof -
    have cf: "compare_func (hs_compare hs)" using hashset_invD(1) [OF assms] by (simp add: hash_compare_func_def)
    have "hs_compare hs (he_data e) (he_data e') = 0"
      using compare_func.cmp_eq_trans [OF cf that(3)] that(4) compare_func.cmp_eq_sym [OF cf] by blast
    then show ?thesis using hashset_invD(5) [OF assms] that(1,2) by (simp add: hs_entries_def)
  qed
  show ?thesis
  proof (cases "hashset_find (hs_compare hs) (hs_hash hs d) d (hs_slots hs ! s)")
    case None
    then show ?thesis
      using hashset_cmp_hash [OF assms] hashset_chain_mem [OF assms False] hashset_find_None [OF None]
      by (fastforce simp: eq s_def entry_slot_def)
  next
    case (Some e')
    then have "e' \<in># hs_entries hs" "hs_compare hs (he_data e') d = 0"
      using hashset_find_Some [OF Some] hashset_slot_chain [OF assms s] by auto
    then show ?thesis using uniq Some eq by auto
  qed
qed

lemma hashset_stored_None:
  "hashset_inv hs \<Longrightarrow> hashset_stored hs d = None \<longleftrightarrow> (\<forall>e\<in>#hs_entries hs. hs_compare hs (he_data e) d \<noteq> 0)"
  using hashset_stored by (metis not_None_eq)

lemma hashset_add:
  assumes "hashset_inv hs" "hs_num_slots hs \<noteq> 0" "\<forall>e\<in>#hs_entries hs. hs_compare hs (he_data e) d \<noteq> 0"
    and "ptr \<notin> he_ptr ` set_mset (hs_entries hs)" "hs_num_data hs + 1 < hs_num_slots hs * 4 div 5"
  defines "e \<equiv> \<lparr>he_ptr = ptr, he_hash = hs_hash hs d, he_data = d\<rparr>"
  defines "s \<equiv> unat (hs_hash hs d) mod hs_num_slots hs"
  defines "hs' \<equiv> hs\<lparr>hs_slots := (hs_slots hs)[s := e # hs_slots hs ! s], hs_num_data := hs_num_data hs + 1\<rparr>"
  shows "hashset_inv hs' \<and> hs_entries hs' = add_mset e (hs_entries hs)"
proof -
  note inv = hashset_invD [OF assms(1)]
  have s: "s < length (hs_slots hs)" using assms(2) inv(2) by (simp add: s_def)
  define slots where "slots = (hs_slots hs)[s := e # hs_slots hs ! s]"
  have m: "mset (concat slots) = add_mset e (mset (concat (hs_slots hs)))"
    using concat_update [OF s, of "e # hs_slots hs ! s"] by (simp add: slots_def)
  have st: "set (concat slots) = insert e (set (concat (hs_slots hs)))" using arg_cong [OF m, of set_mset] by simp
  have cf: "compare_func (hs_compare hs)" using inv(1) by (simp add: hash_compare_func_def)
  have ne: "hs_compare hs (he_data f) d \<noteq> 0" "hs_compare hs d (he_data f) \<noteq> 0" if "f \<in> set (concat (hs_slots hs))" for f
    using assms(3) that compare_func.cmp_eq_sym [OF cf] by (auto simp: hs_entries_def)
  have "mset (map he_ptr (concat slots)) = mset (ptr # map he_ptr (concat (hs_slots hs)))"
    using m by (simp add: e_def)
  then have "distinct (map he_ptr (concat slots)) = distinct (ptr # map he_ptr (concat (hs_slots hs)))"
    by (rule mset_eq_imp_distinct_iff)
  then have ds: "distinct (map he_ptr (concat slots))" using inv(6) assms(4) by (simp add: hs_entries_def)
  have ln: "length (concat slots) = Suc (length (concat (hs_slots hs)))" using arg_cong [OF m, of size] by simp
  have pl: "hs_placed (hs_num_slots hs) UNIV slots"
    unfolding hs_placed_def
  proof (intro ballI impI)
    fix u f assume u: "u < length slots" "f \<in> set (slots ! u)"
    then show "entry_slot (hs_num_slots hs) f = u"
      using inv(3) s by (cases "u = s") (auto simp: slots_def hs_placed_def e_def s_def entry_slot_def)
  qed
  have un: "\<forall>f\<in>set (concat slots). \<forall>g\<in>set (concat slots). hs_compare hs (he_data f) (he_data g) = 0 \<longrightarrow> f = g"
    unfolding st using inv(5) ne by (auto simp: e_def simp del: set_concat)
  have hh: "\<forall>f\<in>set (concat slots). he_hash f = hs_hash hs (he_data f)"
    unfolding st using inv(4) by (auto simp: e_def)
  have hs': "hs' = hs\<lparr>hs_slots := slots, hs_num_data := hs_num_data hs + 1\<rparr>" by (simp add: hs'_def slots_def)
  have "hashset_inv hs'"
    unfolding hashset_inv_def hs'
    using inv(1,2,7,8) assms(2,5) ds ln pl un hh by (simp add: slots_def)
  then show ?thesis by (simp add: hs_entries_def hs' m)
qed

lemma hashset_insert_found:
  assumes "hashset_inv hs" "e \<in># hs_entries hs" "hs_compare hs (he_data e) d = 0"
  shows "zbx_hashset_insert can new hs d = Inr (Some e, hs)"
proof -
  have n: "hs_num_slots hs \<noteq> 0" by (rule hashset_nonempty [OF assms(1,2)])
  then have "hashset_find (hs_compare hs) (hs_hash hs d) d (hs_slots hs ! (unat (hs_hash hs d) mod hs_num_slots hs)) = Some e"
    using hashset_stored [OF assms(1), of d e] assms(2,3) by (simp add: hashset_stored_def)
  then show ?thesis using n by (simp add: zbx_hashset_insert_def hash_chain_ok [OF assms(1)] Let_def)
qed

text \<open>
  A value that is not stored: it is added; or an allocation fails and the entries stay as they are. Only the failure
  of the first slot array breaks the set.
\<close>

lemma hashset_insert_new:
  assumes "hashset_inv hs" "\<forall>e\<in>#hs_entries hs. hs_compare hs (he_data e) d \<noteq> 0"
    and "\<forall>ptr. new = Some ptr \<longrightarrow> ptr \<notin> he_ptr ` set_mset (hs_entries hs)"
  shows "\<exists>r hs'. zbx_hashset_insert can new hs d = Inr (r, hs') \<and> hs_compare hs' = hs_compare hs \<and> hs_hash hs' = hs_hash hs \<and>
    (case r of
       Some e \<Rightarrow> hashset_inv hs' \<and> (\<exists>ptr. new = Some ptr \<and> e = \<lparr>he_ptr = ptr, he_hash = hs_hash hs d, he_data = d\<rparr>) \<and>
         hs_entries hs' = add_mset e (hs_entries hs)
     | None \<Rightarrow> (new = None \<or> (\<exists>n. \<not> can n)) \<and> hs_entries hs' = hs_entries hs \<and>
         (hashset_inv hs' \<or> hs_num_slots hs = 0 \<and> \<not> can (next_prime 10) \<and> hashset_broken hs'))"
proof (cases "hs_num_slots hs = 0 \<and> \<not> can (next_prime 10)")
  case True
  then have "zbx_hashset_insert can new hs d = Inr (None, hs\<lparr>hs_num_data := 0, hs_num_slots := next_prime 10, hs_slots := []\<rparr>)"
    by (simp add: zbx_hashset_insert_def hashset_init_slots_failure)
  then show ?thesis
    using True hashset_empty [OF assms(1)] next_prime_pos [of 10] by (auto simp: hashset_broken_def hs_entries_def)
next
  case False
  obtain r0 hs0 where z: "(if 0 = hs_num_slots hs then zbx_hashset_init_slots can hs 10 else (SUCCEED, hs)) = (r0, hs0)"
    by force
  have h0: "r0 = SUCCEED" "hashset_inv hs0" "hs_entries hs0 = hs_entries hs" "hs_compare hs0 = hs_compare hs"
      "hs_hash hs0 = hs_hash hs" "hs_num_slots hs0 \<noteq> 0"
    using z hashset_init_slots [OF hashset_invD(1) [OF assms(1)], of 10 can] assms(1) False hashset_empty [OF assms(1)]
      next_prime_pos [of 10] by (auto split: if_splits)
  obtain r1 hs1 where r1: "zbx_hashset_reserve can hs0 (hs_num_data hs0 + 1) = Inr (r1, hs1)"
    "r1 = SUCCEED \<or> r1 = FAIL \<and> (\<exists>n. \<not> can n)"
    using hashset_reserve_returns [OF h0(2,6), of can "hs_num_data hs0 + 1"] by blast
  note res = hashset_reserve [OF h0(2,6) r1(1)]
  have find: "hashset_find (hs_compare hs0) (hs_hash hs0 d) d (hs_slots hs0 ! (unat (hs_hash hs0 d) mod hs_num_slots hs0)) = None"
    using hashset_stored_None [OF h0(2), of d] h0(3,4,6) assms(2) by (simp add: hashset_stored_def)
  have chain: "hash_chain hs0 (unat (hs_hash hs0 d) mod hs_num_slots hs0) = Inr (hs_slots hs0 ! (unat (hs_hash hs0 d) mod hs_num_slots hs0))"
    using h0(6) by (intro hash_chain_ok [OF h0(2)]) simp
  show ?thesis
  proof (cases "r1 = SUCCEED")
    case fail: False
    then have "zbx_hashset_insert can new hs d = Inr (None, hs1)"
      using z h0(1) find chain r1(1) by (simp add: zbx_hashset_insert_def Let_def)
    then show ?thesis using fail r1(2) res h0 by auto
  next
    case True
    have c1: "hash_chain hs1 (unat (hs_hash hs0 d) mod hs_num_slots hs1) = Inr (hs_slots hs1 ! (unat (hs_hash hs0 d) mod hs_num_slots hs1))"
      using res by (intro hash_chain_ok) simp_all
    show ?thesis
    proof (cases new)
      case None
      then have "zbx_hashset_insert can new hs d = Inr (None, hs1)"
        using z h0(1) find chain r1(1) True by (simp add: zbx_hashset_insert_def Let_def)
      then show ?thesis using None res h0 by auto
    next
      case (Some ptr)
      define e where "e = \<lparr>he_ptr = ptr, he_hash = hs_hash hs d, he_data = d\<rparr>"
      define hs2 where "hs2 = hs1\<lparr>hs_slots := (hs_slots hs1)[unat (hs_hash hs1 d) mod hs_num_slots hs1 :=
        e # hs_slots hs1 ! (unat (hs_hash hs1 d) mod hs_num_slots hs1)], hs_num_data := hs_num_data hs1 + 1\<rparr>"
      have "hashset_inv hs2 \<and> hs_entries hs2 = add_mset e (hs_entries hs1)"
        using hashset_add [of hs1 d ptr] res True h0 assms(2,3) Some by (simp add: hs2_def e_def)
      moreover have "zbx_hashset_insert can new hs d = Inr (Some e, hs2)"
        using z h0(1) find chain c1 r1(1) True res h0(5) Some by (simp add: zbx_hashset_insert_def Let_def hs2_def e_def)
      ultimately show ?thesis using res h0 Some by (auto simp: hs2_def e_def)
    qed
  qed
qed

text \<open>Removing one entry from its chain.\<close>

lemma hashset_del:
  assumes "hashset_inv hs" "s < hs_num_slots hs" "mset (hs_slots hs ! s) = add_mset e (mset chain)"
  defines "hs' \<equiv> hs\<lparr>hs_slots := (hs_slots hs)[s := chain], hs_num_data := hs_num_data hs - 1\<rparr>"
  shows "hashset_inv hs'" "hs_entries hs = add_mset e (hs_entries hs')"
proof -
  note inv = hashset_invD [OF assms(1)]
  define slots where "slots = (hs_slots hs)[s := chain]"
  have s: "s < length (hs_slots hs)" using assms(2) inv(2) by simp
  have m: "mset (concat (hs_slots hs)) = add_mset e (mset (concat slots))"
    using concat_update [OF s, of chain] assms(3) by (simp add: slots_def)
  have st: "set (concat slots) \<subseteq> set (concat (hs_slots hs))" using arg_cong [OF m, of set_mset] by auto
  have "mset (map he_ptr (concat (hs_slots hs))) = mset (he_ptr e # map he_ptr (concat slots))" using m by simp
  then have ds: "distinct (map he_ptr (concat slots))" using inv(6) mset_eq_imp_distinct_iff by fastforce
  have ln: "length (concat (hs_slots hs)) = Suc (length (concat slots))" using arg_cong [OF m, of size] by simp
  have sub: "set chain \<subseteq> set (hs_slots hs ! s)" using arg_cong [OF assms(3), of set_mset] by auto
  have pl: "hs_placed (hs_num_slots hs) UNIV slots"
    unfolding hs_placed_def
  proof (intro ballI impI)
    fix u f assume "u < length slots" "f \<in> set (slots ! u)"
    then show "entry_slot (hs_num_slots hs) f = u"
      using inv(3) sub by (cases "u = s") (auto simp: slots_def hs_placed_def)
  qed
  have hs': "hs' = hs\<lparr>hs_slots := slots, hs_num_data := hs_num_data hs - 1\<rparr>" by (simp add: hs'_def slots_def)
  show "hashset_inv hs'"
    unfolding hashset_inv_def hs'
    using inv(1,2,7,8,9) inv(4,5) assms(2) ds ln pl st
    by (simp add: slots_def [symmetric] subset_iff) (auto simp: slots_def)
  show "hs_entries hs = add_mset e (hs_entries hs')" by (simp add: hs_entries_def hs' m)
qed

lemma hashset_drop_ok:
  assumes "hashset_inv hs" "t < hs_num_slots hs"
  shows "hashset_drop test hs t = Inr (case hashset_unlink test (hs_slots hs ! t) of
      Some chain \<Rightarrow> hs\<lparr>hs_slots := (hs_slots hs)[t := chain], hs_num_data := hs_num_data hs - 1\<rparr> | None \<Rightarrow> hs)"
  by (simp add: hashset_drop_def hash_chain_ok [OF assms])

lemma hashset_remove:
  fixes hs :: "'d zbx_hashset"
  assumes "hashset_inv hs"
  shows "\<exists>hs'. zbx_hashset_remove hs d = Inr hs' \<and> hashset_inv hs' \<and>
    (case hashset_stored hs d of None \<Rightarrow> hs' = hs | Some e \<Rightarrow> hs_entries hs = add_mset e (hs_entries hs')) \<and>
    hs_compare hs' = hs_compare hs \<and> hs_hash hs' = hs_hash hs"
proof (cases "hs_num_slots hs = 0")
  case True
  then show ?thesis using assms by (simp add: zbx_hashset_remove_def hashset_stored_def)
next
  case False
  define s where "s = unat (hs_hash hs d) mod hs_num_slots hs"
  have s: "s < hs_num_slots hs" using False by (simp add: s_def)
  define P where "P = (\<lambda>entry :: 'd zbx_hashset_entry. he_hash entry = hs_hash hs d \<and> hs_compare hs (he_data entry) d = 0)"
  have r: "zbx_hashset_remove hs d = hashset_drop P hs s"
    using False by (simp add: zbx_hashset_remove_def s_def P_def Let_def)
  show ?thesis
  proof (cases "hashset_unlink P (hs_slots hs ! s)")
    case None
    then have eq: "zbx_hashset_remove hs d = Inr hs" by (simp add: r hashset_drop_ok [OF assms s])
    have "hashset_stored hs d = None"
    proof (rule ccontr)
      assume "hashset_stored hs d \<noteq> None"
      then obtain e where e: "e \<in># hs_entries hs" "hs_compare hs (he_data e) d = 0"
        using hashset_stored [OF assms] by auto
      then have "e \<in> set (hs_slots hs ! s)" "P e"
        using hashset_chain_mem [OF assms False e(1)] hashset_cmp_hash [OF assms e] by (auto simp: s_def P_def entry_slot_def)
      then show False using None by (simp add: hashset_unlink_None)
    qed
    then show ?thesis using eq assms by simp
  next
    case (Some chain)
    then obtain e where e: "P e" "e \<in> set (hs_slots hs ! s)" "mset (hs_slots hs ! s) = add_mset e (mset chain)"
      using hashset_unlink_Some by blast
    have "hashset_stored hs d = Some e"
      using hashset_stored [OF assms, of d e] hashset_slot_chain(1) [OF assms s e(2)] e(1) by (simp add: P_def)
    then show ?thesis
      using hashset_del [OF assms s e(3)] Some by (simp add: r hashset_drop_ok [OF assms s])
  qed
qed

lemma hashset_same_entry:
  assumes "hashset_inv hs" "e \<in># hs_entries hs" "f \<in># hs_entries hs" "he_ptr e = he_ptr f"
  shows "e = f"
  using hashset_invD(6) [OF assms(1)] assms(2-4) by (auto simp: hs_entries_def distinct_map dest: inj_onD)

lemma hashset_remove_direct:
  assumes "hashset_inv hs" "e \<in># hs_entries hs"
  shows "\<exists>hs'. zbx_hashset_remove_direct hs e = Inr hs' \<and> hashset_inv hs' \<and> hs_entries hs = add_mset e (hs_entries hs') \<and>
    hs_compare hs' = hs_compare hs \<and> hs_hash hs' = hs_hash hs"
proof -
  have n: "hs_num_slots hs \<noteq> 0" by (rule hashset_nonempty [OF assms])
  define s where "s = entry_slot (hs_num_slots hs) e"
  have s: "s < hs_num_slots hs" using n by (simp add: s_def entry_slot_def)
  have mem: "e \<in> set (hs_slots hs ! s)" using hashset_chain_mem [OF assms(1) n assms(2)] by (simp add: s_def)
  then obtain chain where u: "hashset_unlink (\<lambda>f. he_ptr f = he_ptr e) (hs_slots hs ! s) = Some chain"
    using hashset_unlink_None [of "\<lambda>f. he_ptr f = he_ptr e" "hs_slots hs ! s"] by (metis not_None_eq)
  then obtain f where f: "he_ptr f = he_ptr e" "f \<in> set (hs_slots hs ! s)" "mset (hs_slots hs ! s) = add_mset f (mset chain)"
    using hashset_unlink_Some by blast
  have "f = e" using hashset_same_entry [OF assms(1) hashset_slot_chain(1) [OF assms(1) s f(2)] assms(2) f(1)] .
  then show ?thesis
    using hashset_del [OF assms(1) s f(3)] u n
    by (simp add: zbx_hashset_remove_direct_def s_def [symmetric] hashset_drop_ok [OF assms(1) s] Let_def)
qed

lemma hashset_clear:
  assumes "hashset_inv hs"
  shows "\<exists>hs'. zbx_hashset_clear hs = Inr hs' \<and> hashset_inv hs' \<and> hs_entries hs' = {#} \<and>
    hs_compare hs' = hs_compare hs \<and> hs_hash hs' = hs_hash hs"
proof -
  have c: "concat (map (\<lambda>chain. []) (hs_slots hs)) = []" by (simp add: concat_eq_Nil_conv)
  have "hs_num_slots hs \<noteq> 0 \<Longrightarrow> 0 < hs_num_slots hs * 4 div 5" using prime_load hashset_invD(8) [OF assms] by blast
  then show ?thesis
    using hashset_invD(1,2,8) [OF assms] c
    by (auto simp: hashset_inv_def zbx_hashset_clear_def hs_entries_def hs_placed_def simp del: concat_eq_Nil_conv)
qed

section \<open>Iterating\<close>

text \<open>The entries an iterator has still to visit.\<close>

definition iter_rest :: "'d zbx_hashset \<Rightarrow> zbx_hashset_iter \<Rightarrow> 'd zbx_hashset_entry list" where
  "iter_rest hs it =
    (if it_slot it = ITER_FINISH then []
     else (case it_entry it of None \<Rightarrow> [] | Some ptr \<Rightarrow> chain_after ptr (hs_slots hs ! nat (it_slot it))) @
       concat (drop (nat (it_slot it + 1)) (hs_slots hs)))"

definition iter_ok :: "'d zbx_hashset \<Rightarrow> zbx_hashset_iter \<Rightarrow> bool" where
  "iter_ok hs it \<longleftrightarrow> it_slot it = ITER_FINISH \<or>
    -1 \<le> it_slot it \<and> it_slot it < int (hs_num_slots hs) \<and> (it_slot it = -1 \<longrightarrow> it_entry it = None) \<and>
    (\<forall>ptr. it_entry it = Some ptr \<longrightarrow> (\<exists>e\<in>set (hs_slots hs ! nat (it_slot it)). he_ptr e = ptr))"

lemma iter_reset [simp]: "iter_ok hs zbx_hashset_iter_reset" "iter_rest hs zbx_hashset_iter_reset = concat (hs_slots hs)"
  by (simp_all add: iter_ok_def iter_rest_def zbx_hashset_iter_reset_def ITER_START_def ITER_FINISH_def)

lemma chain_after_split:
  "distinct (map he_ptr (xs @ e # ys)) \<Longrightarrow> chain_after (he_ptr e) (xs @ e # ys) = ys"
  by (induction xs) auto

lemma chain_before_split:
  "distinct (map he_ptr (xs @ p # e # ys)) \<Longrightarrow> chain_before (he_ptr e) (xs @ p # e # ys) = Some (he_ptr p)"
proof (induction xs)
  case Nil
  then show ?case by simp
next
  case (Cons x xs)
  then show ?case by (cases xs) auto
qed

lemma hashset_unlink_split:
  "distinct (map he_ptr (xs @ e # ys)) \<Longrightarrow> hashset_unlink (\<lambda>f. he_ptr f = he_ptr e) (xs @ e # ys) = Some (xs @ ys)"
  by (induction xs) auto

lemma distinct_chain:
  assumes "hashset_inv hs" "s < hs_num_slots hs"
  shows "distinct (map he_ptr (hs_slots hs ! s))"
proof -
  have "s < length (hs_slots hs)" using hashset_invD(2) [OF assms(1)] assms(2) by simp
  then have "concat (hs_slots hs) = concat (take s (hs_slots hs)) @ hs_slots hs ! s @ concat (drop (Suc s) (hs_slots hs))"
    by (metis concat.simps(2) concat_append id_take_nth_drop)
  then show ?thesis using hashset_invD(6) [OF assms(1)] by (metis distinct_append map_append)
qed

lemma iter_scan:
  assumes "hashset_inv hs"
  shows "\<exists>r it. hashset_iter_scan hs s = Inr (r, it) \<and> (case concat (drop s (hs_slots hs)) of
      [] \<Rightarrow> r = None \<and> iter_ok hs it \<and> iter_rest hs it = []
    | e # es \<Rightarrow> r = Some e \<and> iter_ok hs it \<and> iter_rest hs it = es \<and> it_entry it = Some (he_ptr e) \<and> it_slot it \<noteq> ITER_FINISH)"
  using assms
proof (induction hs s rule: hashset_iter_scan.induct)
  case (1 hs s)
  note len = hashset_invD(2) [OF "1.prems"(1)]
  show ?case
  proof (cases "s \<ge> hs_num_slots hs")
    case True
    then show ?thesis using len by (subst hashset_iter_scan.simps) (simp add: iter_ok_def iter_rest_def)
  next
    case False
    then have d: "drop s (hs_slots hs) = hs_slots hs ! s # drop (Suc s) (hs_slots hs)"
      using len by (simp add: Cons_nth_drop_Suc)
    have chain: "hash_chain hs s = Inr (hs_slots hs ! s)" using False by (intro hash_chain_ok [OF "1.prems"]) simp
    show ?thesis
    proof (cases "hs_slots hs ! s")
      case Nil
      then have "hashset_iter_scan hs s = hashset_iter_scan hs (s + 1)"
        using False chain by (subst hashset_iter_scan.simps) simp
      moreover have "hash_chain hs s = Inr []" using chain Nil by simp
      ultimately show ?thesis using "1.IH" [OF False _ _ "1.prems"] d Nil by simp
    next
      case (Cons e es)
      define it where "it = \<lparr>it_slot = int s, it_entry = Some (he_ptr e)\<rparr>"
      have r: "hashset_iter_scan hs s = Inr (Some e, it)"
        using False chain Cons by (subst hashset_iter_scan.simps) (simp add: it_def)
      have "nat (int s + 1) = Suc s" by simp
      then show ?thesis
        unfolding r using d Cons False by (simp add: it_def iter_ok_def iter_rest_def ITER_FINISH_def)
    qed
  qed
qed

lemma iter_next:
  assumes "hashset_inv hs" "iter_ok hs it"
  shows "\<exists>r it'. zbx_hashset_iter_next hs it = Inr (r, it') \<and> (case iter_rest hs it of
      [] \<Rightarrow> r = None \<and> iter_ok hs it' \<and> iter_rest hs it' = []
    | e # es \<Rightarrow> r = Some e \<and> iter_ok hs it' \<and> iter_rest hs it' = es \<and> it_entry it' = Some (he_ptr e) \<and> it_slot it' \<noteq> ITER_FINISH)"
proof (cases "it_slot it = ITER_FINISH")
  case True
  then show ?thesis using assms by (simp add: zbx_hashset_iter_next_def iter_rest_def)
next
  case False
  define chain where "chain = (case it_entry it of None \<Rightarrow> [] | Some ptr \<Rightarrow> chain_after ptr (hs_slots hs ! nat (it_slot it)))"
  have ch: "(if ITER_START \<noteq> it_slot it then iter_following hs it else Inr []) = Inr chain"
  proof (cases "it_entry it")
    case None
    then show ?thesis by (simp add: chain_def iter_following_def)
  next
    case (Some ptr)
    then have "0 \<le> it_slot it" "it_slot it < int (hs_num_slots hs)" using assms(2) False by (auto simp: iter_ok_def)
    then have "hash_chain hs (nat (it_slot it)) = Inr (hs_slots hs ! nat (it_slot it))" by (intro hash_chain_ok [OF assms(1)]) simp
    then show ?thesis using Some \<open>0 \<le> it_slot it\<close> by (simp add: chain_def iter_following_def ITER_START_def)
  qed
  have rest: "iter_rest hs it = chain @ concat (drop (nat (it_slot it + 1)) (hs_slots hs))"
    using False by (simp add: iter_rest_def chain_def)
  show ?thesis
  proof (cases chain)
    case Nil
    then have "zbx_hashset_iter_next hs it = hashset_iter_scan hs (nat (it_slot it + 1))"
      using False ch by (simp add: zbx_hashset_iter_next_def)
    then show ?thesis using iter_scan [OF assms(1), of "nat (it_slot it + 1)"] by (simp add: rest Nil)
  next
    case (Cons e es)
    obtain ptr where ptr: "it_entry it = Some ptr" using Cons by (cases "it_entry it") (auto simp: chain_def)
    define s where "s = nat (it_slot it)"
    have s: "s < hs_num_slots hs" "it_slot it = int s"
      using assms(2) False ptr by (auto simp: iter_ok_def s_def)
    obtain f where f: "f \<in> set (hs_slots hs ! s)" "he_ptr f = ptr"
      using assms(2) False ptr by (auto simp: iter_ok_def s_def)
    then obtain xs ys where xy: "hs_slots hs ! s = xs @ f # ys" by (meson split_list)
    have d: "distinct (map he_ptr (xs @ f # ys))" using distinct_chain [OF assms(1) s(1)] xy by simp
    have ca: "chain_after ptr (xs @ f # ys) = ys" using chain_after_split [OF d] f(2) by simp
    then have "ys = e # es" using Cons xy ptr by (simp add: chain_def s_def)
    then have "hs_slots hs ! s = (xs @ [f]) @ e # es" "distinct (map he_ptr ((xs @ [f]) @ e # es))"
      using xy d by simp_all
    then have "chain_after (he_ptr e) (hs_slots hs ! s) = es" "e \<in> set (hs_slots hs ! s)"
      using chain_after_split [of "xs @ [f]" e es] by simp_all
    moreover have "zbx_hashset_iter_next hs it = Inr (Some e, it\<lparr>it_entry := Some (he_ptr e)\<rparr>)"
      using False ch Cons by (simp add: zbx_hashset_iter_next_def)
    moreover have "iter_rest hs it = e # es @ concat (drop (nat (it_slot it + 1)) (hs_slots hs))"
      using rest Cons by simp
    ultimately show ?thesis
      using s False by (auto simp: iter_ok_def) (simp add: iter_rest_def)
  qed
qed

text \<open>Removing through an iterator removes the entry it stands on and loses no other.\<close>

lemma iter_remove:
  assumes "hashset_inv hs" "iter_ok hs it" "it_entry it = Some ptr" "it_slot it \<noteq> ITER_FINISH"
  shows "\<exists>e hs' it'. zbx_hashset_iter_remove hs it = Inr (hs', it') \<and> he_ptr e = ptr \<and> hashset_inv hs' \<and>
    hs_entries hs = add_mset e (hs_entries hs') \<and> iter_ok hs' it' \<and> iter_rest hs' it' = iter_rest hs it \<and>
    hs_compare hs' = hs_compare hs \<and> hs_hash hs' = hs_hash hs"
proof -
  define s where "s = nat (it_slot it)"
  have s: "s < hs_num_slots hs" "it_slot it = int s" "it_slot it \<noteq> -1"
    using assms(2,3,4) by (auto simp: iter_ok_def s_def)
  have sl: "s < length (hs_slots hs)" using s(1) hashset_invD(2) [OF assms(1)] by simp
  obtain e where e: "e \<in> set (hs_slots hs ! s)" "he_ptr e = ptr"
    using assms(2-4) by (auto simp: iter_ok_def s_def)
  then obtain xs ys where xy: "hs_slots hs ! s = xs @ e # ys" by (meson split_list)
  have d: "distinct (map he_ptr (xs @ e # ys))" using distinct_chain [OF assms(1) s(1)] xy by simp
  have ca: "chain_after ptr (xs @ e # ys) = ys" using chain_after_split [OF d] e(2) by simp
  have rest: "iter_rest hs it = ys @ concat (drop (Suc s) (hs_slots hs))"
    using assms(3,4) s(2) ca by (simp add: iter_rest_def xy nat_add_distrib)
  have chain: "hash_chain hs s = Inr (hs_slots hs ! s)" by (rule hash_chain_ok [OF assms(1) s(1)])
  have m: "mset (hs_slots hs ! s) = add_mset e (mset (xs @ ys))" by (simp add: xy)
  define hs' where "hs' = hs\<lparr>hs_slots := (hs_slots hs)[s := xs @ ys], hs_num_data := hs_num_data hs - 1\<rparr>"
  have hs': "hashset_inv hs'" "hs_entries hs = add_mset e (hs_entries hs')"
    using hashset_del [OF assms(1) s(1) m] by (simp_all add: hs'_def)
  show ?thesis
  proof (cases xs)
    case Nil
    define it' where "it' = \<lparr>it_slot = it_slot it - 1, it_entry = None\<rparr>"
    have "zbx_hashset_iter_remove hs it = Inr (hs', it')"
      using assms(3,4) s e Nil xy chain by (simp add: zbx_hashset_iter_remove_def s_def [symmetric] hs'_def it'_def ITER_START_def Let_def)
    moreover have "iter_ok hs' it'" using s by (simp add: iter_ok_def it'_def hs'_def)
    moreover have "drop s ((hs_slots hs)[s := ys]) = ys # drop (Suc s) (hs_slots hs)"
      using sl by (simp add: upd_conv_take_nth_drop)
    then have "iter_rest hs' it' = iter_rest hs it"
      using s Nil by (simp add: rest) (simp add: iter_rest_def it'_def hs'_def ITER_FINISH_def)
    ultimately show ?thesis using e(2) hs' by (intro exI [of _ e] exI [of _ hs'] exI [of _ it']) (simp add: hs'_def)
  next
    case (Cons x xs')
    then obtain zs p where zs: "xs = zs @ [p]" using rev_exhaust [of xs] by auto
    define it' where "it' = it\<lparr>it_entry := Some (he_ptr p)\<rparr>"
    have "he_ptr (hd (xs @ e # ys)) \<noteq> ptr" using d Cons e(2) by auto
    moreover have "chain_before ptr (xs @ e # ys) = Some (he_ptr p)"
      using chain_before_split [of zs p e ys] d zs e(2) by simp
    moreover have "hashset_unlink (\<lambda>f. he_ptr f = ptr) (xs @ e # ys) = Some (xs @ ys)"
      using hashset_unlink_split [OF d] e(2) by simp
    ultimately have "zbx_hashset_iter_remove hs it = Inr (hs', it')"
      using assms(3,4) s xy chain
      by (simp add: zbx_hashset_iter_remove_def s_def [symmetric] hs'_def it'_def ITER_START_def Let_def)
    moreover have "iter_ok hs' it'"
      using s sl zs by (auto simp: iter_ok_def it'_def hs'_def)
    moreover have "iter_rest hs' it' = iter_rest hs it"
    proof -
      have "distinct (map he_ptr (zs @ p # ys))" using d zs by simp
      then have "chain_after (he_ptr p) (xs @ ys) = ys" using chain_after_split [of zs p ys] zs by simp
      then show ?thesis
        using s sl assms(4) by (simp add: rest) (simp add: iter_rest_def it'_def hs'_def nat_add_distrib)
    qed
    ultimately show ?thesis using e(2) hs' by (intro exI [of _ e] exI [of _ hs'] exI [of _ it']) (simp add: hs'_def)
  qed
qed

lemma chain_after_subset: "set (chain_after ptr chain) \<subseteq> set chain"
  by (induction chain) auto

lemma iter_rest_stored:
  assumes "hashset_inv hs" "iter_ok hs it" "e \<in> set (iter_rest hs it)"
  shows "e \<in># hs_entries hs"
proof -
  have "e \<in> set (concat (hs_slots hs))"
  proof (cases "e \<in> set (concat (drop (nat (it_slot it + 1)) (hs_slots hs)))")
    case True
    then show ?thesis using set_drop_subset [of "nat (it_slot it + 1)" "hs_slots hs"] by auto
  next
    case False
    then obtain ptr where ptr: "it_entry it = Some ptr" "e \<in> set (chain_after ptr (hs_slots hs ! nat (it_slot it)))" "it_slot it \<noteq> ITER_FINISH"
      using assms(3) by (auto simp: iter_rest_def split: option.splits if_splits)
    then have "0 \<le> it_slot it" "it_slot it < int (hs_num_slots hs)" using assms(2) by (auto simp: iter_ok_def)
    then have "hs_slots hs ! nat (it_slot it) \<in> set (hs_slots hs)" using hashset_invD(2) [OF assms(1)] by (intro nth_mem) simp
    then show ?thesis using ptr(2) chain_after_subset by fastforce
  qed
  then show ?thesis by (simp add: hs_entries_def)
qed

section \<open>Sequences of operations\<close>

text \<open>
  The calls of a client, with what the allocator does during the call: \<open>can\<close> says which sizes of slot arrays it grants
  and \<open>new\<close> is the address of an entry, \<open>None\<close> when it has none. The client keeps one iterator, and the entry that the
  iterator has just returned. It gives the iterator up at every call that may change the set past the
  iterator, since the entry that the iterator stands on may be freed then.
\<close>

datatype 'd hashset_op = HsSearch 'd | HsInsert "nat \<Rightarrow> bool" "nat option" 'd | HsRemove 'd | HsRemoveDirect "'d zbx_hashset_entry"
  | HsReserve "nat \<Rightarrow> bool" nat | HsClear | HsIterReset | HsIterNext | HsIterRemove

datatype 'd hashset_result = RetNothing | RetEntry "'d zbx_hashset_entry option" | RetCode ret

record 'd hashset_client =
  hc_set :: "'d zbx_hashset"
  hc_iter :: "zbx_hashset_iter option"
  hc_on :: "'d zbx_hashset_entry option"

abbreviation hc_changed :: "'d zbx_hashset \<Rightarrow> 'd hashset_client" where
  "hc_changed hs \<equiv> \<lparr>hc_set = hs, hc_iter = None, hc_on = None\<rparr>"

fun hashset_step :: "'d hashset_op \<Rightarrow> 'd hashset_client \<Rightarrow> ('d hashset_result \<times> 'd hashset_client) outcome" where
  "hashset_step (HsSearch d) cl = map_sum id (\<lambda>e. (RetEntry e, cl)) (zbx_hashset_search (hc_set cl) d)"
| "hashset_step (HsInsert can new d) cl =
    map_sum id (\<lambda>(e, hs). (RetEntry e, hc_changed hs)) (zbx_hashset_insert can new (hc_set cl) d)"
| "hashset_step (HsRemove d) cl = map_sum id (\<lambda>hs. (RetNothing, hc_changed hs)) (zbx_hashset_remove (hc_set cl) d)"
| "hashset_step (HsRemoveDirect e) cl = map_sum id (\<lambda>hs. (RetNothing, hc_changed hs)) (zbx_hashset_remove_direct (hc_set cl) e)"
| "hashset_step (HsReserve can n) cl =
    map_sum id (\<lambda>(r, hs). (RetCode r, hc_changed hs)) (zbx_hashset_reserve can (hc_set cl) n)"
| "hashset_step HsClear cl = map_sum id (\<lambda>hs. (RetNothing, hc_changed hs)) (zbx_hashset_clear (hc_set cl))"
| "hashset_step HsIterReset cl = Inr (RetNothing, cl\<lparr>hc_iter := Some zbx_hashset_iter_reset, hc_on := None\<rparr>)"
| "hashset_step HsIterNext cl =
    (case hc_iter cl of
       None \<Rightarrow> Inl OutOfBounds
     | Some it \<Rightarrow> map_sum id (\<lambda>(e, it). (RetEntry e, cl\<lparr>hc_iter := Some it, hc_on := e\<rparr>)) (zbx_hashset_iter_next (hc_set cl) it))"
| "hashset_step HsIterRemove cl =
    (case hc_iter cl of
       None \<Rightarrow> Inl OutOfBounds
     | Some it \<Rightarrow>
         map_sum id (\<lambda>(hs, it). (RetNothing, \<lparr>hc_set = hs, hc_iter = Some it, hc_on = None\<rparr>)) (zbx_hashset_iter_remove (hc_set cl) it))"

text \<open>
  The abstract set: the multiset of the stored entries and, while there is an iterator, the entries it has still to
  visit with the entry it has just returned.
\<close>

type_synonym 'd hashset_visit = "('d zbx_hashset_entry multiset \<times> 'd zbx_hashset_entry option) option"

definition hc_entries :: "'d hashset_client \<Rightarrow> 'd zbx_hashset_entry multiset" where
  "hc_entries cl = hs_entries (hc_set cl)"

definition hc_visit :: "'d hashset_client \<Rightarrow> 'd hashset_visit" where
  "hc_visit cl = map_option (\<lambda>it. (mset (iter_rest (hc_set cl) it), hc_on cl)) (hc_iter cl)"

text \<open>Calls that the client may make: the allocator gives unused addresses, a direct removal is given a stored entry, an iterator is
  used after a reset and removes what it has just returned.\<close>

fun hashset_allowed :: "'d hashset_op \<Rightarrow> 'd zbx_hashset_entry multiset \<Rightarrow> 'd hashset_visit \<Rightarrow> bool" where
  "hashset_allowed (HsInsert can new d) M I \<longleftrightarrow> (\<forall>ptr. new = Some ptr \<longrightarrow> ptr \<notin> he_ptr ` set_mset M)"
| "hashset_allowed (HsRemoveDirect e) M I \<longleftrightarrow> e \<in># M"
| "hashset_allowed HsIterNext M I \<longleftrightarrow> I \<noteq> None"
| "hashset_allowed HsIterRemove M I \<longleftrightarrow> (\<exists>V e. I = Some (V, Some e))"
| "hashset_allowed op M I \<longleftrightarrow> True"

definition stored_as :: "('d \<Rightarrow> 'd \<Rightarrow> int) \<Rightarrow> 'd \<Rightarrow> 'd zbx_hashset_entry multiset \<Rightarrow> 'd zbx_hashset_entry multiset" where
  "stored_as c d M = filter_mset (\<lambda>e. c (he_data e) d = 0) M"

text \<open>The results that the abstract set allows for a call, with the set after it.\<close>

fun hashset_spec :: "('d \<Rightarrow> 'd \<Rightarrow> int) \<Rightarrow> ('d \<Rightarrow> zbx_hash_t) \<Rightarrow> 'd hashset_op \<Rightarrow> 'd zbx_hashset_entry multiset \<Rightarrow> 'd hashset_visit \<Rightarrow>
    'd hashset_result \<Rightarrow> 'd zbx_hashset_entry multiset \<Rightarrow> 'd hashset_visit \<Rightarrow> bool" where
  "hashset_spec c h (HsSearch d) M I r M' I' \<longleftrightarrow> M' = M \<and> I' = I \<and>
    (\<exists>x. r = RetEntry x \<and> stored_as c d M = (case x of None \<Rightarrow> {#} | Some e \<Rightarrow> {#e#}))"
| "hashset_spec c h (HsInsert can new d) M I r M' I' \<longleftrightarrow> I' = None \<and>
    (if stored_as c d M = {#}
     then (\<exists>ptr e. new = Some ptr \<and> e = \<lparr>he_ptr = ptr, he_hash = h d, he_data = d\<rparr> \<and> r = RetEntry (Some e) \<and> M' = add_mset e M) \<or>
       ((new = None \<or> (\<exists>n. \<not> can n)) \<and> r = RetEntry None \<and> M' = M)
     else M' = M \<and> (\<exists>e. r = RetEntry (Some e) \<and> stored_as c d M = {#e#}))"
| "hashset_spec c h (HsRemove d) M I r M' I' \<longleftrightarrow> I' = None \<and> r = RetNothing \<and> M' = M - stored_as c d M"
| "hashset_spec c h (HsRemoveDirect e) M I r M' I' \<longleftrightarrow> I' = None \<and> r = RetNothing \<and> M' = M - {#e#}"
| "hashset_spec c h (HsReserve can n) M I r M' I' \<longleftrightarrow> I' = None \<and> M' = M \<and>
    (r = RetCode SUCCEED \<or> r = RetCode FAIL \<and> (\<exists>n. \<not> can n))"
| "hashset_spec c h HsClear M I r M' I' \<longleftrightarrow> I' = None \<and> r = RetNothing \<and> M' = {#}"
| "hashset_spec c h HsIterReset M I r M' I' \<longleftrightarrow> M' = M \<and> r = RetNothing \<and> I' = Some (M, None)"
| "hashset_spec c h HsIterNext M I r M' I' \<longleftrightarrow> M' = M \<and> (\<exists>V on. I = Some (V, on) \<and>
    (V = {#} \<and> r = RetEntry None \<and> I' = Some ({#}, None) \<or>
     (\<exists>e V'. V = add_mset e V' \<and> r = RetEntry (Some e) \<and> I' = Some (V', Some e))))"
| "hashset_spec c h HsIterRemove M I r M' I' \<longleftrightarrow> r = RetNothing \<and>
    (\<exists>V e. I = Some (V, Some e) \<and> M = add_mset e M' \<and> I' = Some (V, None))"

text \<open>Every state that creation and returning calls reach; the allocator may deny any of the allocations.\<close>

inductive hashset_reach :: "('d \<Rightarrow> 'd \<Rightarrow> int) \<Rightarrow> ('d \<Rightarrow> zbx_hash_t) \<Rightarrow> 'd hashset_client \<Rightarrow> bool" for c h where
  hs_create: "hashset_reach c h (hc_changed (zbx_hashset_create_ext can init_size h c))"
| hs_step: "hashset_reach c h cl \<Longrightarrow> hashset_allowed op (hc_entries cl) (hc_visit cl) \<Longrightarrow> hashset_step op cl = Inr (r, cl') \<Longrightarrow>
    hashset_reach c h cl'"

lemma stored_as_stored:
  assumes "hashset_inv hs"
  shows "stored_as (hs_compare hs) d (hs_entries hs) = (case hashset_stored hs d of None \<Rightarrow> {#} | Some e \<Rightarrow> {#e#})"
proof (cases "hashset_stored hs d")
  case None
  then have "\<forall>e\<in>#hs_entries hs. hs_compare hs (he_data e) d \<noteq> 0" using hashset_stored_None [OF assms] by simp
  then show ?thesis by (simp add: stored_as_def None)
next
  case (Some e)
  then have e: "e \<in># hs_entries hs" "hs_compare hs (he_data e) d = 0" using hashset_stored [OF assms] by auto
  have only: "f = e" if "f \<in># hs_entries hs" "hs_compare hs (he_data f) d = 0" for f
    using hashset_stored [OF assms, of d f] that Some by simp
  have "distinct (concat (hs_slots hs))" using hashset_invD(6) [OF assms] by (simp add: distinct_map)
  then have "count (hs_entries hs) e = 1" using e(1) by (simp add: hs_entries_def distinct_count_atmost_1)
  have "count (stored_as (hs_compare hs) d (hs_entries hs)) f = count {#e#} f" for f
  proof (cases "f = e")
    case True
    then show ?thesis using e(2) \<open>count (hs_entries hs) e = 1\<close> by (simp add: stored_as_def)
  next
    case False
    then have "f \<notin># stored_as (hs_compare hs) d (hs_entries hs)" using only [of f] by (auto simp: stored_as_def)
    then show ?thesis using False by (simp add: count_eq_zero_iff)
  qed
  then show ?thesis using Some by (simp add: multiset_eqI)
qed

fun op_grants :: "'d hashset_op \<Rightarrow> nat \<Rightarrow> bool" where
  "op_grants (HsInsert can new d) = can"
| "op_grants (HsReserve can n) = can"
| "op_grants op = (\<lambda>n. True)"

definition hashset_client_inv :: "('d \<Rightarrow> 'd \<Rightarrow> int) \<Rightarrow> ('d \<Rightarrow> zbx_hash_t) \<Rightarrow> 'd hashset_client \<Rightarrow> bool" where
  "hashset_client_inv c h cl \<longleftrightarrow> hs_compare (hc_set cl) = c \<and> hs_hash (hc_set cl) = h \<and>
    (hashset_inv (hc_set cl) \<and> (\<forall>it. hc_iter cl = Some it \<longrightarrow> iter_ok (hc_set cl) it) \<and>
       (\<forall>e. hc_on cl = Some e \<longrightarrow> e \<in># hs_entries (hc_set cl) \<and>
         (\<exists>it. hc_iter cl = Some it \<and> it_entry it = Some (he_ptr e) \<and> it_slot it \<noteq> ITER_FINISH)) \<or>
     hashset_broken (hc_set cl) \<and> hc_on cl = None \<and> hc_iter cl \<in> {None, Some zbx_hashset_iter_reset})"

text \<open>One call, as the theorem states it, with the invariant for the next call.\<close>

definition hashset_call_ok :: "('d \<Rightarrow> 'd \<Rightarrow> int) \<Rightarrow> ('d \<Rightarrow> zbx_hash_t) \<Rightarrow> 'd hashset_op \<Rightarrow> 'd hashset_client \<Rightarrow> bool" where
  "hashset_call_ok c h op cl \<longleftrightarrow>
    (case hashset_step op cl of
       Inl f \<Rightarrow> f = OutOfBounds \<and> hashset_broken (hc_set cl)
     | Inr (r, cl') \<Rightarrow> hashset_spec c h op (hc_entries cl) (hc_visit cl) r (hc_entries cl') (hc_visit cl') \<and>
         hashset_client_inv c h cl' \<and>
         (hashset_broken (hc_set cl') \<longrightarrow> hashset_broken (hc_set cl) \<or> hs_num_slots (hc_set cl) = 0 \<and> (\<exists>n. \<not> op_grants op n)))"

lemma hashset_inv_not_broken: "hashset_inv hs \<Longrightarrow> \<not> hashset_broken hs"
  using hashset_invD(2) [of hs] by (auto simp: hashset_broken_def)

lemma hashset_call_changed:
  assumes "hashset_step op cl = Inr (r, hc_changed hs)" "hashset_inv hs" "hs_compare hs = c" "hs_hash hs = h"
    and "hashset_spec c h op (hc_entries cl) (hc_visit cl) r (hs_entries hs) None"
  shows "hashset_call_ok c h op cl"
  using assms hashset_inv_not_broken [OF assms(2)]
  by (simp add: hashset_call_ok_def hashset_client_inv_def hc_entries_def hc_visit_def)

lemma hashset_insert_call:
  assumes "hashset_client_inv c h cl" "hashset_inv (hc_set cl)" "hashset_allowed (HsInsert can new d) (hc_entries cl) (hc_visit cl)"
  shows "hashset_call_ok c h (HsInsert can new d) cl"
proof -
  define hs where "hs = hc_set cl"
  have ch: "hs_compare hs = c" "hs_hash hs = h" using assms(1) by (simp_all add: hashset_client_inv_def hs_def)
  note inv = assms(2) [folded hs_def]
  have sa: "stored_as c d (hs_entries hs) = (case hashset_stored hs d of None \<Rightarrow> {#} | Some e \<Rightarrow> {#e#})"
    using stored_as_stored [OF inv, of d] ch by simp
  show ?thesis
  proof (cases "hashset_stored hs d")
    case (Some e)
    then have "e \<in># hs_entries hs" "hs_compare hs (he_data e) d = 0" using hashset_stored [OF inv] by auto
    from hashset_insert_found [OF inv this] have "hashset_step (HsInsert can new d) cl = Inr (RetEntry (Some e), hc_changed hs)"
      by (simp add: hs_def)
    then show ?thesis by (rule hashset_call_changed [OF _ inv ch]) (use sa Some in \<open>simp add: hc_entries_def hs_def [symmetric]\<close>)
  next
    case None
    then have "\<forall>e\<in>#hs_entries hs. hs_compare hs (he_data e) d \<noteq> 0" using hashset_stored_None [OF inv] by simp
    moreover have "\<forall>ptr. new = Some ptr \<longrightarrow> ptr \<notin> he_ptr ` set_mset (hs_entries hs)" using assms(3) by (simp add: hc_entries_def hs_def)
    ultimately obtain r hs' where r: "zbx_hashset_insert can new hs d = Inr (r, hs')" "hs_compare hs' = c" "hs_hash hs' = h"
      and res: "case r of
         Some e \<Rightarrow> hashset_inv hs' \<and> (\<exists>ptr. new = Some ptr \<and> e = \<lparr>he_ptr = ptr, he_hash = h d, he_data = d\<rparr>) \<and>
           hs_entries hs' = add_mset e (hs_entries hs)
       | None \<Rightarrow> (new = None \<or> (\<exists>n. \<not> can n)) \<and> hs_entries hs' = hs_entries hs \<and>
           (hashset_inv hs' \<or> hs_num_slots hs = 0 \<and> \<not> can (next_prime 10) \<and> hashset_broken hs')"
      using hashset_insert_new [OF inv, of d new can] unfolding ch by blast
    have step: "hashset_step (HsInsert can new d) cl = Inr (RetEntry r, hc_changed hs')" using r(1) by (simp add: hs_def)
    have spec: "hashset_spec c h (HsInsert can new d) (hc_entries cl) (hc_visit cl) (RetEntry r) (hs_entries hs') None"
      using sa None res by (cases r) (simp_all add: hc_entries_def hs_def [symmetric])
    show ?thesis
    proof (cases "hashset_inv hs'")
      case True
      then show ?thesis by (rule hashset_call_changed [OF step _ r(2,3) spec])
    next
      case False
      then have "hashset_broken hs'" "hs_num_slots hs = 0" "\<exists>n. \<not> can n" using res by (auto split: option.splits)
      then have "hashset_client_inv c h (hc_changed hs')" using r(2,3) by (simp add: hashset_client_inv_def)
      moreover have "hc_entries (hc_changed hs') = hs_entries hs'" "hc_visit (hc_changed hs') = None"
        by (simp_all add: hc_entries_def hc_visit_def)
      ultimately show ?thesis
        unfolding hashset_call_ok_def step sum.case prod.case using spec \<open>hs_num_slots hs = 0\<close> \<open>\<exists>n. \<not> can n\<close>
        by (simp only: hs_def op_grants.simps) simp
    qed
  qed
qed

lemma hashset_reserve_call:
  assumes "hashset_client_inv c h cl" "hashset_inv (hc_set cl)"
  shows "hashset_call_ok c h (HsReserve can n) cl"
proof -
  define hs where "hs = hc_set cl"
  have ch: "hs_compare hs = c" "hs_hash hs = h" using assms(1) by (simp_all add: hashset_client_inv_def hs_def)
  note inv = assms(2) [folded hs_def]
  define k where "k = max 10 (n * (2 - 4 div 5) + 1)"
  have k: "0 < k" by (simp add: k_def)
  show ?thesis
  proof (cases "hs_num_slots hs = 0")
    case False
    obtain r hs' where r: "zbx_hashset_reserve can hs n = Inr (r, hs')" "r = SUCCEED \<or> r = FAIL \<and> (\<exists>n. \<not> can n)"
      using hashset_reserve_returns [OF inv False, of can n] by blast
    note res = hashset_reserve [OF inv False r(1)]
    have "hashset_step (HsReserve can n) cl = Inr (RetCode r, hc_changed hs')" using r(1) by (simp add: hs_def)
    then show ?thesis
      by (rule hashset_call_changed) (use res ch r(2) in \<open>auto simp: hc_entries_def hs_def [symmetric]\<close>)
  next
    case zero: True
    show ?thesis
    proof (cases "can (next_prime k)")
      case True
      obtain hs' where hs': "zbx_hashset_init_slots can hs k = (SUCCEED, hs')" "hashset_inv hs'" "hs_entries hs' = {#}"
        "hs_compare hs' = c" "hs_hash hs' = h"
        using hashset_init_slots [OF hashset_invD(1) [OF inv], of k can] True ch by auto
      have "hashset_step (HsReserve can n) cl = Inr (RetCode SUCCEED, hc_changed hs')"
        using zero hs'(1) by (simp add: zbx_hashset_reserve_def hs_def [symmetric] k_def)
      then show ?thesis
        by (rule hashset_call_changed) (use hs' hashset_empty [OF inv zero] in \<open>simp_all add: hc_entries_def hs_def [symmetric]\<close>)
    next
      case False
      have "hashset_step (HsReserve can n) cl =
          Inr (RetCode FAIL, hc_changed (hs\<lparr>hs_num_data := 0, hs_num_slots := next_prime k, hs_slots := []\<rparr>))"
        using zero hashset_init_slots_failure [of k can hs] k False by (simp add: zbx_hashset_reserve_def hs_def [symmetric] k_def)
      then show ?thesis
        using False ch zero next_prime_pos [of k] hashset_empty [OF inv zero]
        by (auto simp: hashset_call_ok_def hashset_client_inv_def hc_entries_def hc_visit_def hs_def [symmetric] hashset_broken_def) (simp add: hs_entries_def)
    qed
  qed
qed

lemma hashset_iter_next_call:
  assumes "hashset_client_inv c h cl" "hashset_inv (hc_set cl)" "hc_iter cl = Some it"
  shows "hashset_call_ok c h HsIterNext cl"
proof -
  define hs where "hs = hc_set cl"
  note inv = assms(2) [folded hs_def]
  have ch: "hs_compare hs = c" "hs_hash hs = h" and it: "iter_ok hs it"
    using assms hashset_inv_not_broken [OF inv] by (simp_all add: hashset_client_inv_def hs_def)
  obtain r it' where nx: "zbx_hashset_iter_next hs it = Inr (r, it')" and res: "case iter_rest hs it of
      [] \<Rightarrow> r = None \<and> iter_ok hs it' \<and> iter_rest hs it' = []
    | e # es \<Rightarrow> r = Some e \<and> iter_ok hs it' \<and> iter_rest hs it' = es \<and> it_entry it' = Some (he_ptr e) \<and> it_slot it' \<noteq> ITER_FINISH"
    using iter_next [OF inv it] by blast
  have step: "hashset_step HsIterNext cl = Inr (RetEntry r, cl\<lparr>hc_iter := Some it', hc_on := r\<rparr>)"
    using nx assms(3) by (simp add: hs_def)
  have nb: "\<not> hashset_broken (hc_set cl)" using hashset_inv_not_broken [OF assms(2)] .
  show ?thesis
  proof (cases "iter_rest hs it")
    case Nil
    then have "r = None" "iter_ok hs it'" "iter_rest hs it' = []" using res by simp_all
    then show ?thesis
      unfolding hashset_call_ok_def step using inv ch Nil nb assms(3)
      by (simp add: hashset_client_inv_def hc_entries_def hc_visit_def hs_def [symmetric])
  next
    case (Cons e es)
    then have "r = Some e" "iter_ok hs it'" "iter_rest hs it' = es" "it_entry it' = Some (he_ptr e)" "it_slot it' \<noteq> ITER_FINISH"
      using res by simp_all
    moreover have "e \<in># hs_entries hs" using iter_rest_stored [OF inv it, of e] Cons by simp
    ultimately show ?thesis
      unfolding hashset_call_ok_def step using inv ch Cons nb assms(3)
      by (simp add: hashset_client_inv_def hc_entries_def hc_visit_def hs_def [symmetric])
  qed
qed

lemma hashset_iter_remove_call:
  assumes "hashset_client_inv c h cl" "hashset_inv (hc_set cl)" "hc_iter cl = Some it" "hc_on cl = Some e"
  shows "hashset_call_ok c h HsIterRemove cl"
proof -
  define hs where "hs = hc_set cl"
  note inv = assms(2) [folded hs_def]
  have ch: "hs_compare hs = c" "hs_hash hs = h" and it: "iter_ok hs it"
    and e: "e \<in># hs_entries hs" "it_entry it = Some (he_ptr e)" "it_slot it \<noteq> ITER_FINISH"
    using assms hashset_inv_not_broken [OF inv] by (simp_all add: hashset_client_inv_def hs_def)
  obtain f hs' it' where r: "zbx_hashset_iter_remove hs it = Inr (hs', it')" "he_ptr f = he_ptr e" "hashset_inv hs'"
    "hs_entries hs = add_mset f (hs_entries hs')" "iter_ok hs' it'" "iter_rest hs' it' = iter_rest hs it"
    "hs_compare hs' = hs_compare hs" "hs_hash hs' = hs_hash hs"
    using iter_remove [OF inv it e(2,3)] by blast
  have "f = e" by (rule hashset_same_entry [OF inv _ e(1) r(2)]) (simp add: r(4))
  have step: "hashset_step HsIterRemove cl = Inr (RetNothing, \<lparr>hc_set = hs', hc_iter = Some it', hc_on = None\<rparr>)"
    using r(1) assms(3) by (simp add: hs_def)
  show ?thesis
    unfolding hashset_call_ok_def step using r(3-8) ch assms(3,4) \<open>f = e\<close> hashset_inv_not_broken [OF r(3)]
    by (simp add: hashset_client_inv_def hc_entries_def hc_visit_def hs_def [symmetric])
qed

lemma hashset_call_sound:
  assumes "hashset_client_inv c h cl" "hashset_inv (hc_set cl)" "hashset_allowed op (hc_entries cl) (hc_visit cl)"
  shows "hashset_call_ok c h op cl"
proof -
  define hs where "hs = hc_set cl"
  note inv = assms(2) [folded hs_def]
  have ch: "hs_compare hs = c" "hs_hash hs = h" using assms(1) by (simp_all add: hashset_client_inv_def hs_def)
  have sa: "stored_as c d (hs_entries hs) = (case hashset_stored hs d of None \<Rightarrow> {#} | Some e \<Rightarrow> {#e#})" for d
    using stored_as_stored [OF inv, of d] ch by simp
  have en: "hc_entries cl = hs_entries hs" by (simp add: hc_entries_def hs_def)
  show ?thesis
  proof (cases op)
    case (HsSearch d)
    have "hashset_step op cl = Inr (RetEntry (hashset_stored hs d), cl)"
      using hashset_search [OF inv, of d] by (simp add: HsSearch hs_def)
    then show ?thesis using assms(1) sa [of d] hashset_inv_not_broken [OF inv]
      by (simp add: hashset_call_ok_def HsSearch en hs_def)
  next
    case (HsInsert can new d)
    then show ?thesis using hashset_insert_call [OF assms(1,2)] assms(3) by blast
  next
    case (HsRemove d)
    obtain hs' where "zbx_hashset_remove hs d = Inr hs'" "hashset_inv hs'" "hs_compare hs' = c" "hs_hash hs' = h"
      "case hashset_stored hs d of None \<Rightarrow> hs' = hs | Some e \<Rightarrow> hs_entries hs = add_mset e (hs_entries hs')"
      using hashset_remove [OF inv, of d] ch by auto
    then show ?thesis using sa [of d]
      by (intro hashset_call_changed [of op cl RetNothing hs']) (auto simp: HsRemove en hs_def [symmetric] split: option.splits)
  next
    case (HsRemoveDirect e)
    obtain hs' where "zbx_hashset_remove_direct hs e = Inr hs'" "hashset_inv hs'" "hs_entries hs = add_mset e (hs_entries hs')"
      "hs_compare hs' = c" "hs_hash hs' = h"
      using hashset_remove_direct [OF inv, of e] assms(3) ch by (auto simp: HsRemoveDirect en)
    then show ?thesis
      by (intro hashset_call_changed [of op cl RetNothing hs']) (auto simp: HsRemoveDirect en hs_def [symmetric])
  next
    case (HsReserve can n)
    then show ?thesis using hashset_reserve_call [OF assms(1,2)] by simp
  next
    case HsClear
    obtain hs' where "zbx_hashset_clear hs = Inr hs'" "hashset_inv hs'" "hs_entries hs' = {#}" "hs_compare hs' = c" "hs_hash hs' = h"
      using hashset_clear [OF inv] ch by auto
    then show ?thesis
      by (intro hashset_call_changed [of op cl RetNothing hs']) (auto simp: HsClear hs_def [symmetric])
  next
    case HsIterReset
    then show ?thesis using inv ch hashset_inv_not_broken [OF inv]
      by (simp add: hashset_call_ok_def hashset_client_inv_def hc_entries_def hc_visit_def hs_def [symmetric] hs_entries_def)
  next
    case HsIterNext
    then show ?thesis using hashset_iter_next_call [OF assms(1,2)] assms(3) by (auto simp: hc_visit_def)
  next
    case HsIterRemove
    then show ?thesis using hashset_iter_remove_call [OF assms(1,2)] assms(3) by (auto simp: hc_visit_def)
  qed
qed

text \<open>On a broken set every call that looks at a slot leaves the memory.\<close>

lemma hashset_call_broken:
  assumes "hashset_client_inv c h cl" "hashset_broken (hc_set cl)" "hashset_allowed op (hc_entries cl) (hc_visit cl)"
  shows "hashset_call_ok c h op cl \<and> (hashset_step op cl = Inl OutOfBounds \<or> op = HsIterReset \<or> (\<exists>can n. op = HsReserve can n))"
proof -
  define hs where "hs = hc_set cl"
  have b: "hs_num_slots hs \<noteq> 0" "hs_slots hs = []" using assms(2) by (simp_all add: hashset_broken_def hs_def)
  have ni: "\<not> hashset_inv hs" using hashset_inv_not_broken assms(2) by (auto simp: hs_def)
  have ch: "hs_compare hs = c" "hs_hash hs = h" "hc_on cl = None" "hc_iter cl = None \<or> hc_iter cl = Some zbx_hashset_iter_reset"
    using assms(1) ni by (simp_all add: hashset_client_inv_def hs_def)
  have chain: "hash_chain hs t = Inl OutOfBounds" for t by (simp add: hash_chain_def b)
  have en: "hc_entries cl = {#}" using b by (simp add: hc_entries_def hs_entries_def hs_def)
  have crash: ?thesis if "hashset_step op cl = Inl OutOfBounds" using that assms(2) by (simp add: hashset_call_ok_def)
  have stay: ?thesis if "hashset_step op cl = Inr (r, \<lparr>hc_set = hs, hc_iter = it, hc_on = None\<rparr>)" "it = None \<or> it = Some zbx_hashset_iter_reset"
    "hashset_spec c h op {#} (hc_visit cl) r {#} (map_option (\<lambda>it. ({#}, None)) it)" "op = HsIterReset \<or> (\<exists>can n. op = HsReserve can n)" for r it
  proof -
    have "hc_visit \<lparr>hc_set = hs, hc_iter = it, hc_on = None\<rparr> = map_option (\<lambda>it. ({#}, None)) it"
      using that(2) b by (auto simp: hc_visit_def)
    moreover have "hc_entries \<lparr>hc_set = hs, hc_iter = it, hc_on = None\<rparr> = {#}" by (simp add: hc_entries_def hs_entries_def b)
    ultimately show ?thesis using that ch assms(2) by (simp add: hashset_call_ok_def en hashset_client_inv_def hs_def)
  qed
  show ?thesis
  proof (cases op)
    case (HsSearch d)
    then show ?thesis using crash b chain by (simp add: zbx_hashset_search_def hs_def [symmetric] Let_def)
  next
    case (HsInsert can new d)
    then show ?thesis using crash b chain by (simp add: zbx_hashset_insert_def hs_def [symmetric] Let_def)
  next
    case (HsRemove d)
    then show ?thesis using crash b chain by (simp add: zbx_hashset_remove_def hashset_drop_def hs_def [symmetric] Let_def)
  next
    case (HsRemoveDirect e)
    then show ?thesis using assms(3) en by simp
  next
    case (HsReserve can n)
    consider "zbx_hashset_reserve can hs n = Inl OutOfBounds" | "zbx_hashset_reserve can hs n = Inr (FAIL, hs)" "\<exists>n. \<not> can n"
      | "zbx_hashset_reserve can hs n = Inr (SUCCEED, hs)"
    proof (cases "hs_num_slots hs * 4 div 5 \<le> n")
      case True
      then show ?thesis using that(1,2) b by (cases "can (next_prime (hs_num_slots hs * 3 div 2))") (auto simp: zbx_hashset_reserve_def Let_def)
    next
      case False
      then show ?thesis using that(3) b by (simp add: zbx_hashset_reserve_def)
    qed
    then show ?thesis
    proof cases
      case 1
      then show ?thesis using crash HsReserve by (simp add: hs_def)
    next
      case 2
      then show ?thesis using stay [of "RetCode FAIL" None] HsReserve by (simp add: hs_def [symmetric])
    next
      case 3
      then show ?thesis using stay [of "RetCode SUCCEED" None] HsReserve by (simp add: hs_def [symmetric])
    qed
  next
    case HsClear
    then show ?thesis using crash b by (simp add: zbx_hashset_clear_def hs_def [symmetric])
  next
    case HsIterReset
    then show ?thesis using stay [of RetNothing "Some zbx_hashset_iter_reset"] by (cases cl) (simp add: hs_def)
  next
    case HsIterNext
    then have "hc_iter cl = Some zbx_hashset_iter_reset" using ch(4) assms(3) by (auto simp: hc_visit_def)
    moreover have "hashset_iter_scan hs 0 = Inl OutOfBounds" using b chain by (subst hashset_iter_scan.simps) simp
    ultimately show ?thesis using crash HsIterNext
      by (simp add: zbx_hashset_iter_next_def zbx_hashset_iter_reset_def ITER_START_def ITER_FINISH_def hs_def)
  next
    case HsIterRemove
    then show ?thesis using ch(3) assms(3) by (auto simp: hc_visit_def)
  qed
qed

lemma hashset_reach_inv:
  assumes "hashset_reach c h cl" "hash_compare_func c h"
  shows "hashset_client_inv c h cl"
  using assms(1)
proof (induction rule: hashset_reach.induct)
  case (hs_create can init_size)
  define hs where "hs = zbx_hashset_create_ext can init_size h c"
  define raw where "raw = \<lparr>hs_slots = [] :: 'a zbx_hashset_entry list list, hs_num_slots = 0, hs_num_data = 0, hs_hash = h, hs_compare = c\<rparr>"
  have hs: "hs = snd (zbx_hashset_init_slots can raw init_size)" by (simp add: hs_def zbx_hashset_create_ext_def raw_def)
  have raw: "hs_compare raw = c" "hs_hash raw = h" by (simp_all add: raw_def)
  show ?case
  proof (cases "init_size = 0 \<or> can (next_prime init_size)")
    case True
    then have "hashset_inv hs \<and> hs_compare hs = c \<and> hs_hash hs = h"
      using hashset_init_slots [of raw init_size can] assms(2) raw by (auto simp: hs)
    then show ?thesis by (simp add: hashset_client_inv_def hs_def)
  next
    case False
    then show ?thesis
      using hashset_init_slots_failure [of init_size can raw] next_prime_pos [of init_size] raw
      by (simp add: hashset_client_inv_def hashset_broken_def hs_def [symmetric] hs)
  qed
next
  case (hs_step cl op r cl')
  have "hashset_call_ok c h op cl"
  proof (cases "hashset_inv (hc_set cl)")
    case True
    then show ?thesis using hashset_call_sound [OF hs_step.IH] hs_step.hyps(2) by blast
  next
    case False
    then have "hashset_broken (hc_set cl)" using hs_step.IH by (simp add: hashset_client_inv_def)
    then show ?thesis using hashset_call_broken [OF hs_step.IH] hs_step.hyps(2) by blast
  qed
  then show ?case using hs_step.hyps(3) by (simp add: hashset_call_ok_def)
qed

lemma hashset_create_entries:
  "hash_compare_func c h \<Longrightarrow> hc_entries (hc_changed (zbx_hashset_create_ext can n h c)) = {#}"
  using hashset_init_slots [of "\<lparr>hs_slots = [], hs_num_slots = 0, hs_num_data = 0, hs_hash = h, hs_compare = c\<rparr>" n can]
    hashset_init_slots_failure [of n can "\<lparr>hs_slots = [], hs_num_slots = 0, hs_num_data = 0, hs_hash = h, hs_compare = c\<rparr>"]
  by (cases "n = 0 \<or> can (next_prime n)") (auto simp: zbx_hashset_create_ext_def hc_entries_def, simp add: hs_entries_def)

section \<open>When an allocation fails, and when much is reserved\<close>

text \<open>A failed slot allocation leaves a positive slot count over a NULL slot array: the next search leaves the memory.\<close>

lemma hashset_init_failure:
  "case zbx_hashset_insert (\<lambda>n. False) new (zbx_hashset_create_ext can 0 h c) d of
     Inl f \<Rightarrow> False | Inr (r, hs) \<Rightarrow> r = None \<and> zbx_hashset_search hs d = Inl OutOfBounds"
  using next_prime_pos [of 10]
  by (simp add: zbx_hashset_insert_def zbx_hashset_create_ext_def zbx_hashset_init_slots_def zbx_hashset_search_def hash_chain_def Let_def)

text \<open>Reserving 1000 slots in a set of 11 slots grows it once, to 17.\<close>

lemma hashset_reserve_short:
  "map_sum id (\<lambda>(r, hs). hs_num_slots hs) (zbx_hashset_reserve (\<lambda>n. True) (zbx_hashset_create_ext (\<lambda>n. True) 10 h c) 1000) = Inr 17"
  by (simp add: zbx_hashset_create_ext_def zbx_hashset_init_slots_def zbx_hashset_reserve_def Let_def next_prime.simps
      is_prime_def is_prime_loop.simps)

section \<open>Properties\<close>

text \<open>C6. From every state that creation and any run of allowed calls reach, with any pair of compatible hash and compare callbacks and with an
  allocator that may deny any request, each call that returns does what a set keyed by the comparison does, and returns what it returns:
  search and insert find the stored equal entry; insert adds the value unless an equal one is stored, or, when an
  allocation was denied, gives NULL and adds nothing; remove drops the equal entry, remove_direct the given one; reserve keeps
  all, and fails only when an allocation was denied; clear drops all; an iterator, which the client gives up at any other call that
  changes the set, returns each entry that was stored at its reset once, and removes what it has just returned and nothing else. The only call that does not return is one on a set whose
  first slot array was denied before: such a set counts slots it does not have, and every call on it that looks at a slot
  goes through a NULL array.\<close>

theorem hashset_refines_set:
  assumes "hash_compare_func c h" "hashset_reach c h cl" "hashset_allowed op (hc_entries cl) (hc_visit cl)"
  shows "case hashset_step op cl of
      Inl f \<Rightarrow> f = OutOfBounds \<and> hashset_broken (hc_set cl)
    | Inr (r, cl') \<Rightarrow> hashset_spec c h op (hc_entries cl) (hc_visit cl) r (hc_entries cl') (hc_visit cl') \<and>
        (hashset_broken (hc_set cl) \<longrightarrow> op = HsIterReset \<or> (\<exists>can n. op = HsReserve can n)) \<and>
        (hashset_broken (hc_set cl') \<longrightarrow>
          hashset_broken (hc_set cl) \<or> hs_num_slots (hc_set cl) = 0 \<and> (\<exists>n. \<not> op_grants op n))"
proof -
  have inv: "hashset_client_inv c h cl" by (rule hashset_reach_inv [OF assms(2,1)])
  show ?thesis
  proof (cases "hashset_inv (hc_set cl)")
    case True
    then show ?thesis
      using hashset_call_sound [OF inv True assms(3)] hashset_inv_not_broken [OF True]
      unfolding hashset_call_ok_def by (cases "hashset_step op cl") (simp_all split: prod.splits)
  next
    case False
    then have "hashset_broken (hc_set cl)" using inv by (simp add: hashset_client_inv_def)
    then show ?thesis
      using hashset_call_broken [OF inv _ assms(3)] unfolding hashset_call_ok_def
      by (cases "hashset_step op cl") (auto split: prod.splits)
  qed
qed

text \<open>An empty set, a value that is stored, and the same value where there is no memory.\<close>

lemma hashset_refines_set_witness:
  fixes cl :: "u64 hashset_client"
  defines "cl \<equiv> hc_changed (zbx_hashset_create_ext (\<lambda>n. True) 0 zbx_hash_splittable64 zbx_default_uint64_compare_func)"
  shows "(\<exists>e cl'. hashset_step (HsInsert (\<lambda>n. True) (Some 16) 7) cl = Inr (RetEntry (Some e), cl') \<and> he_data e = 7 \<and> hc_entries cl' = {#e#}) \<and>
    (\<exists>cl'. hashset_step (HsInsert (\<lambda>n. True) None 7) cl = Inr (RetEntry None, cl') \<and> hc_entries cl' = {#})"
proof -
  note uint = uint64_hash.hash_compare_func_axioms
  have e: "hc_entries cl = {#}" unfolding cl_def by (rule hashset_create_entries [OF uint])
  have r: "hashset_reach zbx_default_uint64_compare_func zbx_hash_splittable64 cl" unfolding cl_def by (rule hs_create)
  have nb: "\<not> hashset_broken (hc_set cl)"
    by (simp add: cl_def hashset_broken_def zbx_hashset_create_ext_def zbx_hashset_init_slots_def)
  have "hashset_allowed (HsInsert (\<lambda>n. True) new 7) (hc_entries cl) (hc_visit cl)" for new by (simp add: e)
  note step = hashset_refines_set [OF uint r this]
  show ?thesis
    using step [of "Some 16"] step [of None] nb e by (auto simp: stored_as_def split: sum.splits prod.splits simp del: hashset_step.simps)
qed

text \<open>In every reachable set that is not broken the entry counter is exact, every entry hangs in the slot its hash
  selects, equal values are stored once, and the table is less than four fifths full.\<close>

lemma hashset_reachable_inv:
  assumes "hash_compare_func c h" "hashset_reach c h cl" "\<not> hashset_broken (hc_set cl)"
  shows "hs_num_data (hc_set cl) = size (hc_entries cl) \<and> hs_placed (hs_num_slots (hc_set cl)) UNIV (hs_slots (hc_set cl)) \<and>
    (\<forall>e e'. e \<in># hc_entries cl \<and> e' \<in># hc_entries cl \<and> c (he_data e) (he_data e') = 0 \<longrightarrow> e = e') \<and>
    (hs_num_slots (hc_set cl) = 0 \<or> hs_num_data (hc_set cl) < hs_num_slots (hc_set cl) * 4 div 5)"
proof -
  have i: "hashset_inv (hc_set cl)" "hs_compare (hc_set cl) = c"
    using hashset_reach_inv [OF assms(2,1)] assms(3) by (simp_all add: hashset_client_inv_def)
  note inv = hashset_invD [OF i(1)]
  show ?thesis using inv(3,5,7,9) i(2) by (simp add: hc_entries_def hs_entries_def) blast
qed

end
