(* ===== verification/LinkedList.thy ===== *)
theory LinkedList
  imports Fifo
begin

text \<open>
  The singly linked list (\<open>src/libs/zbxalgo/linked_list.c\<close>) on an explicit store: a map from
  addresses to items, from which \<open>free\<close> removes. Following a pointer to no item is the fault
  \<open>OutOfBounds\<close>. The address that \<open>malloc\<close> returns is an argument of the operations; what the
  code relies on is that it is not in use.
\<close>

section \<open>State\<close>

record 'a zbx_list_item =
  li_next :: "nat option"
  li_data :: 'a

type_synonym 'a item_store = "nat \<rightharpoonup> 'a zbx_list_item"

record 'a zbx_list =
  l_store :: "'a item_store"
  l_head :: "nat option"
  l_tail :: "nat option"

text \<open>An iterator; \<open>i_list\<close> tells whether its list pointer is set.\<close>

record zbx_list_iterator =
  i_list :: bool
  i_current :: "nat option"
  i_next :: "nat option"

section \<open>Operations\<close>

definition zbx_list_create :: "'a item_store \<Rightarrow> 'a zbx_list" where
  "zbx_list_create store = \<lparr>l_store = store, l_head = None, l_tail = None\<rparr>"

definition list_create_item :: "'a zbx_list \<Rightarrow> nat \<Rightarrow> 'a \<Rightarrow> 'a zbx_list" where
  "list_create_item l p x = l\<lparr>l_store := (l_store l)(p \<mapsto> \<lparr>li_next = None, li_data = x\<rparr>)\<rparr>"

definition zbx_list_insert_after :: "nat \<Rightarrow> 'a zbx_list \<Rightarrow> nat option \<Rightarrow> 'a \<Rightarrow> ('a zbx_list \<times> nat) outcome" where
  "zbx_list_insert_after item l after x =
    (let l = list_create_item l item x;
         after = (if after = None then l_tail l else after)
     in case (case after of
            Some a \<Rightarrow>
              (case l_store l a of
                 None \<Rightarrow> Inl OutOfBounds
               | Some it \<Rightarrow>
                   let store = (l_store l)(item \<mapsto> \<lparr>li_next = li_next it, li_data = x\<rparr>)
                   in Inr (l\<lparr>l_store := store(a \<mapsto> it\<lparr>li_next := Some item\<rparr>)\<rparr>))
          | None \<Rightarrow> Inr (l\<lparr>l_head := Some item\<rparr>)) of
          Inl f \<Rightarrow> Inl f
        | Inr l \<Rightarrow> Inr (if after = l_tail l then l\<lparr>l_tail := Some item\<rparr> else l, item))"

definition zbx_list_append :: "nat \<Rightarrow> 'a zbx_list \<Rightarrow> 'a \<Rightarrow> ('a zbx_list \<times> nat) outcome" where
  "zbx_list_append item l x = zbx_list_insert_after item l None x"

definition zbx_list_prepend :: "nat \<Rightarrow> 'a zbx_list \<Rightarrow> 'a \<Rightarrow> 'a zbx_list \<times> nat" where
  "zbx_list_prepend item l x =
    (let l = list_create_item l item x;
         l = l\<lparr>l_store := (l_store l)(item \<mapsto> \<lparr>li_next = l_head l, li_data = x\<rparr>)\<rparr>;
         l = l\<lparr>l_head := Some item\<rparr>
     in (if l_tail l = None then l\<lparr>l_tail := Some item\<rparr> else l, item))"

text \<open>\<open>pop\<close> gives the value or, for \<open>FAIL\<close>, \<open>None\<close>.\<close>

definition zbx_list_pop :: "'a zbx_list \<Rightarrow> ('a option \<times> 'a zbx_list) outcome" where
  "zbx_list_pop l =
    (case l_head l of
       None \<Rightarrow> Inr (None, l)
     | Some head \<Rightarrow>
         (case l_store l head of
            None \<Rightarrow> Inl OutOfBounds
          | Some it \<Rightarrow>
              let l = l\<lparr>l_head := li_next it\<rparr>;
                  l = l\<lparr>l_store := (l_store l)(head := None)\<rparr>
              in Inr (Some (li_data it), if l_head l = None then l\<lparr>l_tail := None\<rparr> else l)))"

definition zbx_list_peek :: "'a zbx_list \<Rightarrow> 'a option outcome" where
  "zbx_list_peek l =
    (case l_head l of
       None \<Rightarrow> Inr None
     | Some head \<Rightarrow> (case l_store l head of None \<Rightarrow> Inl OutOfBounds | Some it \<Rightarrow> Inr (Some (li_data it))))"

text \<open>The loop of \<open>zbx_list_destroy\<close>; \<open>None\<close> would be a loop that runs forever.\<close>

partial_function (option) zbx_list_destroy :: "'a zbx_list \<Rightarrow> 'a zbx_list outcome option" where
  "zbx_list_destroy l =
    (case zbx_list_pop l of
       Inl f \<Rightarrow> Some (Inl f)
     | Inr (r, l) \<Rightarrow> if r \<noteq> None then zbx_list_destroy l else Some (Inr l))"

subsection \<open>Iterators\<close>

definition zbx_list_iterator_init :: "'a zbx_list \<Rightarrow> zbx_list_iterator" where
  "zbx_list_iterator_init l = \<lparr>i_list = True, i_current = None, i_next = l_head l\<rparr>"

definition zbx_list_iterator_next :: "'a zbx_list \<Rightarrow> zbx_list_iterator \<Rightarrow> (ret \<times> zbx_list_iterator) outcome" where
  "zbx_list_iterator_next l it =
    (case i_next it of
       None \<Rightarrow> Inr (FAIL, it)
     | Some n \<Rightarrow>
         (case l_store l n of
            None \<Rightarrow> Inl OutOfBounds
          | Some item \<Rightarrow> Inr (SUCCEED, it\<lparr>i_current := Some n, i_next := li_next item\<rparr>)))"

definition zbx_list_iterator_peek :: "'a zbx_list \<Rightarrow> zbx_list_iterator \<Rightarrow> 'a option outcome" where
  "zbx_list_iterator_peek l it =
    (case i_current it of
       None \<Rightarrow> Inr None
     | Some n \<Rightarrow> (case l_store l n of None \<Rightarrow> Inl OutOfBounds | Some item \<Rightarrow> Inr (Some (li_data item))))"

definition zbx_list_iterator_clear :: zbx_list_iterator where
  "zbx_list_iterator_clear = \<lparr>i_list = False, i_current = None, i_next = None\<rparr>"

definition zbx_list_iterator_equal :: "zbx_list_iterator \<Rightarrow> zbx_list_iterator \<Rightarrow> ret" where
  "zbx_list_iterator_equal i1 i2 = (if i_list i1 = i_list i2 \<and> i_current i1 = i_current i2 then SUCCEED else FAIL)"

definition zbx_list_iterator_isset :: "zbx_list_iterator \<Rightarrow> ret" where
  "zbx_list_iterator_isset it = (if i_list it then SUCCEED else FAIL)"

definition zbx_list_iterator_update :: "'a zbx_list \<Rightarrow> zbx_list_iterator \<Rightarrow> zbx_list_iterator outcome" where
  "zbx_list_iterator_update l it =
    (case i_current it of
       None \<Rightarrow> Inr it
     | Some n \<Rightarrow> (case l_store l n of None \<Rightarrow> Inl OutOfBounds | Some item \<Rightarrow> Inr (it\<lparr>i_next := li_next item\<rparr>)))"

definition zbx_list_iterator_remove_next :: "'a zbx_list \<Rightarrow> zbx_list_iterator \<Rightarrow>
    ('a option \<times> 'a zbx_list \<times> zbx_list_iterator) outcome" where
  "zbx_list_iterator_remove_next l it =
    (case (i_current it, i_next it) of
       (Some cur, Some n) \<Rightarrow>
         (case (l_store l n, l_store l cur) of
            (Some item, Some citem) \<Rightarrow>
              let l = (if l_tail l = Some n then l\<lparr>l_tail := Some cur\<rparr> else l);
                  l = l\<lparr>l_store := (l_store l)(cur \<mapsto> citem\<lparr>li_next := li_next item\<rparr>)\<rparr>;
                  l = l\<lparr>l_store := (l_store l)(n := None)\<rparr>
              in Inr (Some (li_data item), l, it\<lparr>i_next := li_next item\<rparr>)
          | _ \<Rightarrow> Inl OutOfBounds)
     | _ \<Rightarrow> Inr (None, l, it))"

section \<open>Lists in the store\<close>

text \<open>The items \<open>as\<close> lie on the way from the pointer \<open>p\<close> to the pointer \<open>q\<close>.\<close>

fun lpath :: "'a item_store \<Rightarrow> nat option \<Rightarrow> nat list \<Rightarrow> nat option \<Rightarrow> bool" where
  "lpath s p [] q \<longleftrightarrow> p = q"
| "lpath s p (a # as) q \<longleftrightarrow> p = Some a \<and> (\<exists>it. s a = Some it \<and> lpath s (li_next it) as q)"

definition last_ptr :: "nat list \<Rightarrow> nat option" where
  "last_ptr as = (if as = [] then None else Some (last as))"

definition item_data :: "'a item_store \<Rightarrow> nat \<Rightarrow> 'a" where
  "item_data s a = li_data (the (s a))"

definition list_rep :: "'a zbx_list \<Rightarrow> nat list \<Rightarrow> 'a list \<Rightarrow> bool" where
  "list_rep l as xs \<longleftrightarrow> lpath (l_store l) (l_head l) as None \<and> distinct as \<and> l_tail l = last_ptr as \<and>
    xs = map (item_data (l_store l)) as"

text \<open>Reading a list off the store.\<close>

partial_function (option) list_walk :: "'a item_store \<Rightarrow> nat option \<Rightarrow> 'a list option" where
  "list_walk s p =
    (case p of
       None \<Rightarrow> Some []
     | Some a \<Rightarrow>
         (case s a of
            None \<Rightarrow> None
          | Some it \<Rightarrow> Option.bind (list_walk s (li_next it)) (\<lambda>xs. Some (li_data it # xs))))"

definition list_contents :: "'a zbx_list \<Rightarrow> 'a list" where
  "list_contents l = the (list_walk (l_store l) (l_head l))"

lemma list_walk_path: "lpath s p as None \<Longrightarrow> list_walk s p = Some (map (item_data s) as)"
proof (induction as arbitrary: p)
  case Nil
  then show ?case by (subst list_walk.simps) simp
next
  case (Cons a as)
  then show ?case by (subst list_walk.simps) (auto simp: item_data_def)
qed

lemma list_rep_contents: "list_rep l as xs \<Longrightarrow> list_contents l = xs"
  by (auto simp: list_rep_def list_contents_def dest: list_walk_path)

lemma lpath_append: "lpath s p (as @ bs) q \<longleftrightarrow> (\<exists>r. lpath s p as r \<and> lpath s r bs q)"
  by (induction as arbitrary: p) auto

lemma lpath_cong: "(\<And>a. a \<in> set as \<Longrightarrow> s a = s' a) \<Longrightarrow> lpath s p as q = lpath s' p as q"
  by (induction as arbitrary: p) auto

lemma lpath_upd [simp]: "a \<notin> set as \<Longrightarrow> lpath (s(a := x)) p as q = lpath s p as q"
  by (rule lpath_cong) auto

lemma lpath_dom: "lpath s p as q \<Longrightarrow> set as \<subseteq> dom s"
  by (induction as arbitrary: p) auto

lemma lpath_head: "lpath s p as None \<Longrightarrow> p = None \<longleftrightarrow> as = []"
  by (cases as) auto

lemma map_data_upd [simp]: "a \<notin> set as \<Longrightarrow> map (item_data (s(a := x))) as = map (item_data s) as"
  by (auto simp: item_data_def)

lemma item_data_upd: "item_data (s(a \<mapsto> it)) b = (if b = a then li_data it else item_data s b)"
  by (simp add: item_data_def)

lemma last_ptr_append [simp]: "last_ptr [a] = Some a" "last_ptr (as @ [a]) = Some a" "last_ptr (as @ b # bs) = last_ptr (b # bs)"
  by (simp_all add: last_ptr_def)

section \<open>The operations on represented lists\<close>

lemma list_create [simp]: "list_rep (zbx_list_create s) [] []"
  by (simp add: list_rep_def zbx_list_create_def last_ptr_def)

lemma list_insert_after:
  assumes "list_rep l (as @ a # bs) (xs @ x # ys)" "length as = length xs" "p \<notin> dom (l_store l)"
  shows "\<exists>l'. zbx_list_insert_after p l (Some a) y = Inr (l', p) \<and> list_rep l' (as @ a # p # bs) (xs @ x # y # ys) \<and>
    dom (l_store l') = insert p (dom (l_store l))"
proof -
  have path: "lpath (l_store l) (l_head l) (as @ a # bs) None" and d: "distinct (as @ a # bs)"
    and t: "l_tail l = last_ptr (as @ a # bs)" and m: "xs @ x # ys = map (item_data (l_store l)) (as @ a # bs)"
    using assms(1) by (auto simp: list_rep_def)
  obtain it where it: "l_store l a = Some it" "lpath (l_store l) (l_head l) as (Some a)"
      "lpath (l_store l) (li_next it) bs None"
    using path by (auto simp: lpath_append)
  have p: "p \<notin> set as" "p \<noteq> a" "p \<notin> set bs" using lpath_dom [OF path] assms(3) by auto
  define s where "s = (l_store l)(p \<mapsto> \<lparr>li_next = li_next it, li_data = y\<rparr>, a \<mapsto> it\<lparr>li_next := Some p\<rparr>)"
  define l' where "l' = l\<lparr>l_store := s, l_tail := if Some a = l_tail l then Some p else l_tail l\<rparr>"
  have eq: "zbx_list_insert_after p l (Some a) y = Inr (l', p)"
    using it(1) p by (simp add: zbx_list_insert_after_def list_create_item_def l'_def s_def Let_def)
  have ms: "map (item_data (l_store l)) as = xs" "item_data (l_store l) a = x" "map (item_data (l_store l)) bs = ys"
    using m assms(2) by auto
  have "lpath s (l_head l) (as @ a # p # bs) None"
    using it d p by (auto simp: lpath_append s_def)
  moreover have "map (item_data s) (as @ a # p # bs) = xs @ x # y # ys"
    using d p ms it(1) by (auto simp: s_def item_data_upd) (auto simp: item_data_def)
  moreover have "l_tail l' = last_ptr (as @ a # p # bs)"
    using t d p by (cases bs rule: rev_cases) (auto simp: l'_def last_ptr_def)
  ultimately have "list_rep l' (as @ a # p # bs) (xs @ x # y # ys)"
    using d p by (simp add: list_rep_def l'_def)
  then show ?thesis using eq it(1) by (auto simp: l'_def s_def)
qed

lemma list_append:
  assumes "list_rep l as xs" "p \<notin> dom (l_store l)"
  shows "\<exists>l'. zbx_list_append p l x = Inr (l', p) \<and> list_rep l' (as @ [p]) (xs @ [x]) \<and>
    dom (l_store l') = insert p (dom (l_store l))"
proof (cases as rule: rev_cases)
  case Nil
  then show ?thesis using assms
    by (auto simp: zbx_list_append_def zbx_list_insert_after_def list_create_item_def list_rep_def last_ptr_def
        item_data_def Let_def)
next
  case (snoc bs b)
  then obtain ys y where xs: "xs = ys @ [y]" "length bs = length ys"
    using assms(1) by (cases xs rule: rev_cases) (auto simp: list_rep_def)
  have "l_tail l = Some b" using assms(1) snoc by (simp add: list_rep_def)
  then have "zbx_list_append p l x = zbx_list_insert_after p l (Some b) x"
    by (auto simp: zbx_list_append_def zbx_list_insert_after_def list_create_item_def Let_def split: option.splits)
  then show ?thesis
    using list_insert_after [of l bs b "[]" ys y "[]" p x] assms snoc xs by simp
qed

lemma list_prepend:
  assumes "list_rep l as xs" "p \<notin> dom (l_store l)"
  shows "\<exists>l'. zbx_list_prepend p l x = (l', p) \<and> list_rep l' (p # as) (x # xs) \<and>
    dom (l_store l') = insert p (dom (l_store l))"
proof -
  have "lpath (l_store l) (l_head l) as None" using assms by (simp add: list_rep_def)
  then have "p \<notin> set as" using assms(2) lpath_dom by blast
  then show ?thesis using assms
    by (auto simp: zbx_list_prepend_def list_create_item_def list_rep_def last_ptr_def item_data_def Let_def)
qed

lemma list_pop:
  assumes "list_rep l as xs"
  shows "case as of
      [] \<Rightarrow> zbx_list_pop l = Inr (None, l) \<and> xs = []
    | a # bs \<Rightarrow> \<exists>l'. zbx_list_pop l = Inr (Some (hd xs), l') \<and> list_rep l' bs (tl xs) \<and>
        dom (l_store l') = dom (l_store l) - {a}"
proof (cases as)
  case Nil
  then show ?thesis using assms by (simp add: list_rep_def zbx_list_pop_def)
next
  case (Cons a bs)
  then obtain it where it: "l_head l = Some a" "l_store l a = Some it" "lpath (l_store l) (li_next it) bs None" "a \<notin> set bs"
    using assms by (auto simp: list_rep_def)
  then show ?thesis
    using assms Cons lpath_head [OF it(3)]
    by (auto simp: list_rep_def zbx_list_pop_def Let_def last_ptr_def item_data_def)
qed

lemma list_peek: "list_rep l as xs \<Longrightarrow> zbx_list_peek l = Inr (case xs of [] \<Rightarrow> None | x # _ \<Rightarrow> Some x)"
  by (cases as) (auto simp: list_rep_def zbx_list_peek_def item_data_def)

lemma list_destroy:
  "list_rep l as xs \<Longrightarrow>
    \<exists>l'. zbx_list_destroy l = Some (Inr l') \<and> list_rep l' [] [] \<and> dom (l_store l') = dom (l_store l) - set as"
proof (induction as arbitrary: l xs)
  case Nil
  then have "zbx_list_pop l = Inr (None, l)" "xs = []" using list_pop [OF Nil.prems] by auto
  then show ?case using Nil by (subst zbx_list_destroy.simps) simp
next
  case (Cons a bs)
  obtain l' where l': "zbx_list_pop l = Inr (Some (hd xs), l')" "list_rep l' bs (tl xs)" "dom (l_store l') = dom (l_store l) - {a}"
    using list_pop [OF Cons.prems] by auto
  then show ?case using Cons.IH [OF l'(2)] by (subst zbx_list_destroy.simps) auto
qed

text \<open>The iterator has passed the first \<open>k\<close> items.\<close>

definition iter_at :: "nat list \<Rightarrow> zbx_list_iterator \<Rightarrow> nat \<Rightarrow> bool" where
  "iter_at as it k \<longleftrightarrow> k \<le> length as \<and> i_list it \<and> i_current it = (if k = 0 then None else Some (as ! (k - 1))) \<and>
    i_next it = (if k < length as then Some (as ! k) else None)"

lemma lpath_nth:
  assumes "lpath s p as None" "k < length as"
  shows "\<exists>it. s (as ! k) = Some it \<and> li_next it = (if Suc k < length as then Some (as ! Suc k) else None)"
proof -
  have "lpath s p (take k as @ as ! k # drop (Suc k) as) None" using assms by (simp add: Cons_nth_drop_Suc)
  then obtain it where it: "s (as ! k) = Some it" "lpath s (li_next it) (drop (Suc k) as) None" by (auto simp: lpath_append)
  show ?thesis
  proof (cases "Suc k < length as")
    case True
    then have "drop (Suc k) as = as ! Suc k # drop (Suc (Suc k)) as" by (simp add: Cons_nth_drop_Suc)
    then show ?thesis using it True by auto
  next
    case False
    then show ?thesis using it by simp
  qed
qed

lemma list_iterator_init: "list_rep l as xs \<Longrightarrow> iter_at as (zbx_list_iterator_init l) 0"
  by (cases as) (auto simp: list_rep_def iter_at_def zbx_list_iterator_init_def)

lemma list_iterator_next:
  assumes "list_rep l as xs" "iter_at as it k"
  shows "if k < length as
    then \<exists>it'. zbx_list_iterator_next l it = Inr (SUCCEED, it') \<and> iter_at as it' (Suc k) \<and>
      zbx_list_iterator_peek l it' = Inr (Some (xs ! k))
    else zbx_list_iterator_next l it = Inr (FAIL, it)"
proof (cases "k < length as")
  case False
  then show ?thesis using assms(2) by (simp add: iter_at_def zbx_list_iterator_next_def)
next
  case True
  have "lpath (l_store l) (l_head l) as None" "xs = map (item_data (l_store l)) as" using assms(1) by (simp_all add: list_rep_def)
  from lpath_nth [OF this(1) True] this(2) show ?thesis
    using assms(2) True by (auto simp: iter_at_def zbx_list_iterator_next_def zbx_list_iterator_peek_def item_data_def)
qed

text \<open>Removing the item after the current one.\<close>

lemma list_remove_next:
  assumes "list_rep l (as @ a # b # bs) (xs @ x # y # ys)" "length as = length xs"
    and "i_current it = Some a" "i_next it = Some b"
  shows "\<exists>l' it'. zbx_list_iterator_remove_next l it = Inr (Some y, l', it') \<and> list_rep l' (as @ a # bs) (xs @ x # ys) \<and>
    i_current it' = Some a \<and> i_next it' = (case bs of [] \<Rightarrow> None | c # _ \<Rightarrow> Some c) \<and> i_list it' = i_list it \<and>
    dom (l_store l') = dom (l_store l) - {b}"
proof -
  have path: "lpath (l_store l) (l_head l) (as @ a # b # bs) None" and d: "distinct (as @ a # b # bs)"
    and t: "l_tail l = last_ptr (as @ a # b # bs)" and m: "xs @ x # y # ys = map (item_data (l_store l)) (as @ a # b # bs)"
    using assms(1) by (auto simp: list_rep_def)
  obtain ia ib where i: "l_store l a = Some ia" "l_store l b = Some ib" "lpath (l_store l) (l_head l) as (Some a)"
      "li_next ia = Some b" "lpath (l_store l) (li_next ib) bs None"
    using path by (auto simp: lpath_append)
  have ms: "map (item_data (l_store l)) as = xs" "item_data (l_store l) a = x" "item_data (l_store l) b = y"
      "map (item_data (l_store l)) bs = ys"
    using m assms(2) by auto
  define s where "s = ((l_store l)(a \<mapsto> ia\<lparr>li_next := li_next ib\<rparr>))(b := None)"
  define l' where "l' = l\<lparr>l_store := s, l_tail := if l_tail l = Some b then Some a else l_tail l\<rparr>"
  have "zbx_list_iterator_remove_next l it = Inr (Some y, l', it\<lparr>i_next := li_next ib\<rparr>)"
    using assms(3,4) i ms(3) by (simp add: zbx_list_iterator_remove_next_def l'_def s_def Let_def item_data_def)
  moreover have "list_rep l' (as @ a # bs) (xs @ x # ys)"
  proof -
    have "lpath s (l_head l) (as @ a # bs) None"
      using i d by (auto simp: lpath_append s_def)
    moreover have "map (item_data s) (as @ a # bs) = xs @ x # ys"
      using d ms i(1) by (auto simp: s_def item_data_upd) (auto simp: item_data_def)
    moreover have "l_tail l' = last_ptr (as @ a # bs)"
      using t d by (cases bs rule: rev_cases) (auto simp: l'_def last_ptr_def)
    ultimately show ?thesis using d by (simp add: list_rep_def l'_def)
  qed
  moreover have "li_next ib = (case bs of [] \<Rightarrow> None | c # _ \<Rightarrow> Some c)"
    using i(5) by (cases bs) auto
  moreover have "dom (l_store l') = dom (l_store l) - {b}" using i(1) by (auto simp: l'_def s_def)
  ultimately show ?thesis using assms(3) by (intro exI [of _ l'] exI [of _ "it\<lparr>i_next := li_next ib\<rparr>"]) simp
qed

text \<open>After an insertion behind the current item, update makes the inserted item the next one.\<close>

lemma list_iterator_update:
  assumes "list_rep l (as @ a # bs) xs" "i_current it = Some a"
  shows "zbx_list_iterator_update l it = Inr (it\<lparr>i_next := case bs of [] \<Rightarrow> None | b # _ \<Rightarrow> Some b\<rparr>)"
  using assms by (cases bs) (auto simp: list_rep_def lpath_append zbx_list_iterator_update_def)

section \<open>The list as a queue\<close>

text \<open>What the code relies on of \<open>malloc\<close>: it returns an address that is not in use.\<close>

definition fresh_alloc :: "('a item_store \<Rightarrow> nat) \<Rightarrow> bool" where
  "fresh_alloc alloc \<longleftrightarrow> (\<forall>s. finite (dom s) \<longrightarrow> alloc s \<notin> dom s)"

definition list_push :: "('a item_store \<Rightarrow> nat) \<Rightarrow> 'a \<Rightarrow> 'a zbx_list outcome \<Rightarrow> 'a zbx_list outcome" where
  "list_push alloc x r =
    (case r of Inl f \<Rightarrow> Inl f | Inr l \<Rightarrow> map_sum id fst (zbx_list_append (alloc (l_store l)) l x))"

definition list_take :: "'a zbx_list outcome \<Rightarrow> 'a option \<times> 'a zbx_list outcome" where
  "list_take r =
    (case r of Inl f \<Rightarrow> (None, Inl f)
     | Inr l \<Rightarrow> (case zbx_list_pop l of Inl f \<Rightarrow> (None, Inl f) | Inr (x, l) \<Rightarrow> (x, Inr l)))"

definition list_inv :: "('a item_store \<Rightarrow> nat) \<Rightarrow> 'a zbx_list outcome \<Rightarrow> bool" where
  "list_inv alloc r \<longleftrightarrow> fresh_alloc alloc \<and> (\<exists>l as xs. r = Inr l \<and> list_rep l as xs \<and> finite (dom (l_store l)))"

definition outcome_contents :: "'a zbx_list outcome \<Rightarrow> 'a list" where
  "outcome_contents r = (case r of Inl f \<Rightarrow> [] | Inr l \<Rightarrow> list_contents l)"

lemma list_push_rep:
  assumes "list_inv alloc r"
  shows "list_inv alloc (list_push alloc x r) \<and> outcome_contents (list_push alloc x r) = outcome_contents r @ [x]"
proof -
  obtain l as xs where l: "r = Inr l" "list_rep l as xs" "finite (dom (l_store l))" and al: "fresh_alloc alloc"
    using assms by (auto simp: list_inv_def)
  have "alloc (l_store l) \<notin> dom (l_store l)" using al l(3) by (simp add: fresh_alloc_def)
  from list_append [OF l(2) this, of x] obtain l' where
    l': "zbx_list_append (alloc (l_store l)) l x = Inr (l', alloc (l_store l))"
      "list_rep l' (as @ [alloc (l_store l)]) (xs @ [x])" "dom (l_store l') = insert (alloc (l_store l)) (dom (l_store l))"
    by blast
  have "finite (dom (l_store l'))" using l'(3) l(3) by simp
  then have "list_inv alloc (Inr l')" using al l'(2) unfolding list_inv_def by blast
  then show ?thesis using l l' by (simp add: list_push_def outcome_contents_def list_rep_contents)
qed

lemma list_take_rep:
  assumes "list_inv alloc r"
  shows "list_inv alloc (snd (list_take r)) \<and> fst (list_take r) = fst (spec_pop (outcome_contents r)) \<and>
    outcome_contents (snd (list_take r)) = snd (spec_pop (outcome_contents r))"
proof -
  obtain l as xs where l: "r = Inr l" "list_rep l as xs" "finite (dom (l_store l))" and al: "fresh_alloc alloc"
    using assms by (auto simp: list_inv_def)
  show ?thesis
  proof (cases as)
    case Nil
    then show ?thesis
      using list_pop [OF l(2)] l assms list_rep_contents [OF l(2)] by (simp add: list_take_def outcome_contents_def)
  next
    case (Cons a bs)
    obtain l' where l': "zbx_list_pop l = Inr (Some (hd xs), l')" "list_rep l' bs (tl xs)" "dom (l_store l') = dom (l_store l) - {a}"
      using list_pop [OF l(2)] Cons by auto
    obtain x ys where xs: "xs = x # ys" using l(2) Cons by (auto simp: list_rep_def)
    have "finite (dom (l_store l'))" using l'(3) l(3) by simp
    then have "list_inv alloc (Inr l')" using al l'(2) unfolding list_inv_def by blast
    then show ?thesis
      using l l' xs list_rep_contents [OF l(2)] list_rep_contents [OF l'(2)]
      by (simp add: list_take_def outcome_contents_def)
  qed
qed

interpretation linked_list_fifo: fifo "list_inv alloc" outcome_contents "list_push alloc" list_take for alloc
  by unfold_locales (simp_all add: list_push_rep list_take_rep spec_push_def)

section \<open>Properties\<close>

text \<open>C16. With an allocator that returns unused addresses, any sequence of appends and pops on a fresh
  linked list returns what the first-in-first-out list returns, and no operation follows a pointer
  to a freed or missing item.\<close>

theorem linked_list_fifo_refinement:
  assumes "fresh_alloc alloc" "finite (dom s)"
  shows "fst (fifo_run (list_push alloc) list_take ops (Inr (zbx_list_create s))) =
      fst (fifo_run spec_push spec_pop ops []) \<and>
    (\<exists>l. snd (fifo_run (list_push alloc) list_take ops (Inr (zbx_list_create s))) = Inr l)"
proof -
  have "list_inv alloc (Inr (zbx_list_create s))"
    unfolding list_inv_def using assms list_create [of s] by (auto simp: zbx_list_create_def simp del: list_create)
  moreover have "outcome_contents (Inr (zbx_list_create s)) = []"
    using list_rep_contents [OF list_create [of s]] by (simp add: outcome_contents_def)
  ultimately show ?thesis
    using linked_list_fifo.run_refines [of alloc "Inr (zbx_list_create s)" ops] by (auto simp: list_inv_def)
qed

lemma fresh_Suc_Max: "fresh_alloc (\<lambda>s. Suc (Max (insert 0 (dom s))))"
  unfolding fresh_alloc_def
proof (intro allI impI notI)
  fix s :: "'a item_store"
  assume "finite (dom s)" "Suc (Max (insert 0 (dom s))) \<in> dom s"
  then have "Suc (Max (insert 0 (dom s))) \<le> Max (insert 0 (dom s))" by (intro Max_ge) auto
  then show False by simp
qed

lemma linked_list_fifo_refinement_witness:
  fixes alloc :: "nat item_store \<Rightarrow> nat"
  defines "alloc \<equiv> \<lambda>s. Suc (Max (insert 0 (dom s)))"
  shows "fst (fifo_run (list_push alloc) list_take [Push 3, Push 4, Pop, Pop, Pop] (Inr (zbx_list_create Map.empty))) =
    [Some 3, Some 4, None]"
  using linked_list_fifo_refinement [OF fresh_Suc_Max, of Map.empty "[Push (3 :: nat), Push 4, Pop, Pop, Pop]"]
  by (simp add: alloc_def spec_push_def)

text \<open>Inserting a value behind any item puts it right after that item's value, wherever the item
  lies, and keeps the tail pointer at the last item; removing the item after the iterator's current
  one takes exactly that value out and leaves the iterator at the item that follows.\<close>

theorem linked_list_edit:
  assumes "list_rep l (as @ a # bs) (xs @ x # ys)" "length as = length xs" "p \<notin> dom (l_store l)"
    and "i_current it = Some a" "i_next it = Some p"
  shows "\<exists>l1 l2 it2. zbx_list_insert_after p l (Some a) y = Inr (l1, p) \<and> list_contents l1 = xs @ x # y # ys \<and>
    zbx_list_iterator_remove_next l1 it = Inr (Some y, l2, it2) \<and> list_contents l2 = xs @ x # ys \<and>
    l_tail l2 = l_tail l \<and> i_next it2 = (case bs of [] \<Rightarrow> None | b # _ \<Rightarrow> Some b)"
proof -
  obtain l1 where l1: "zbx_list_insert_after p l (Some a) y = Inr (l1, p)" "list_rep l1 (as @ a # p # bs) (xs @ x # y # ys)"
    using list_insert_after [OF assms(1-3)] by blast
  obtain l2 it2 where l2: "zbx_list_iterator_remove_next l1 it = Inr (Some y, l2, it2)" "list_rep l2 (as @ a # bs) (xs @ x # ys)"
      "i_next it2 = (case bs of [] \<Rightarrow> None | b # _ \<Rightarrow> Some b)"
    using list_remove_next [OF l1(2) assms(2,4,5)] by blast
  have "l_tail l2 = l_tail l" using l2(2) assms(1) by (simp add: list_rep_def)
  then show ?thesis using l1 l2 list_rep_contents by blast
qed

lemma linked_list_edit_witness:
  "\<exists>l1 l2 it2. zbx_list_insert_after 9 \<lparr>l_store = [5 \<mapsto> \<lparr>li_next = None, li_data = CHR ''x''\<rparr>], l_head = Some 5, l_tail = Some 5\<rparr>
      (Some 5) (CHR ''y'') = Inr (l1, 9) \<and> list_contents l1 = ''xy'' \<and>
    zbx_list_iterator_remove_next l1 \<lparr>i_list = True, i_current = Some 5, i_next = Some 9\<rparr> = Inr (Some CHR ''y'', l2, it2) \<and>
    list_contents l2 = ''x''"
proof -
  let ?l = "\<lparr>l_store = [5 \<mapsto> \<lparr>li_next = None, li_data = CHR ''x''\<rparr>], l_head = Some 5, l_tail = Some 5\<rparr>"
  have "list_rep ?l ([] @ 5 # []) ([] @ CHR ''x'' # [])" by (simp add: list_rep_def last_ptr_def item_data_def)
  from linked_list_edit [OF this, of 9 "\<lparr>i_list = True, i_current = Some 5, i_next = Some 9\<rparr>" "CHR ''y''"]
  show ?thesis by auto
qed

end
