(* ===== verification/JsonParser.thy ===== *)
theory JsonParser
  imports Prelude
begin

text \<open>
  The JSON validator (\<open>src/libs/zbxjson/json_parser.c\<close>). A pointer into the text is the rest of the
  text from there; a parser gives the number of characters parsed, or the error message for the
  C return value 0.
\<close>

section \<open>Scanning\<close>

type_synonym parsed = "string + nat"

definition ZBX_WHITESPACE :: string where
  "ZBX_WHITESPACE = [CHR '' '', CHR 0x09, CHR 0x0D, CHR 0x0A]"

definition is_ws :: "char \<Rightarrow> bool" where
  "is_ws c \<longleftrightarrow> c \<noteq> NUL \<and> strchr ZBX_WHITESPACE c \<noteq> None"

text \<open>\<open>ws_len\<close> is how far \<open>SKIP_WHITESPACE\<close> moves the pointer.\<close>

definition ws_len :: "string \<Rightarrow> nat" where
  "ws_len s = length (takeWhile is_ws s)"

definition skip_ws :: "string \<Rightarrow> string" where
  "skip_ws s = drop (ws_len s) s"

lemma skip_ws_le: "length (skip_ws s) \<le> length s"
  by (simp add: skip_ws_def)

lemma drop_eq_Cons_length: "drop n s = c # t \<Longrightarrow> length t < length s"
  using length_drop [of n s] by simp

lemma skip_ws_Cons_length: "skip_ws s = c # t \<Longrightarrow> length t < length s"
  unfolding skip_ws_def by (rule drop_eq_Cons_length)

lemma skip_ws_less: "length s < n \<Longrightarrow> length (skip_ws s) < n" "length s < n \<Longrightarrow> Suc (Suc (3 * length (skip_ws s))) < 3 * n"
  using skip_ws_le [of s] by linarith+

definition json_error :: "string \<Rightarrow> string option \<Rightarrow> parsed" where
  "json_error message json_buffer =
    Inl (case json_buffer of
           Some s \<Rightarrow> message @ '' at: '' @ [CHR 0x27] @ s @ [CHR 0x27]
         | None \<Rightarrow> message)"

definition QUOTE :: char where
  "QUOTE = CHR 0x22"

definition BACKSLASH :: char where
  "BACKSLASH = CHR 0x5C"

section \<open>Strings\<close>

text \<open>The four digits of a \<open>\u\<close> escape, \<open>ptr\<close> at the \<open>u\<close>.\<close>

definition four_hex :: "string \<Rightarrow> bool" where
  "four_hex ptr \<longleftrightarrow> isxdigit (cchar ptr 1) \<and> isxdigit (cchar ptr 2) \<and> isxdigit (cchar ptr 3) \<and> isxdigit (cchar ptr 4)"

text \<open>An escape sequence: how far the pointer moves from the backslash to its last character.\<close>

definition json_escape :: "string \<Rightarrow> parsed" where
  "json_escape ptr =
    (let c = cchar ptr 1
     in if c = NUL then json_error ''invalid escape sequence in string'' (Some ptr)
        else if c = QUOTE \<or> c = BACKSLASH \<or> c = CHR ''/'' \<or> c = CHR ''b'' \<or> c = CHR ''f'' \<or> c = CHR ''n'' \<or>
          c = CHR ''r'' \<or> c = CHR ''t'' then Inr 1
        else if c = CHR ''u'' then
          if four_hex (drop 1 ptr) then Inr 5 else json_error ''invalid escape sequence in string'' (Some ptr)
        else json_error ''invalid escape sequence in string data'' (Some ptr))"

text \<open>The loop after the opening quote; it counts the closing quote.\<close>

function json_string_loop :: "string \<Rightarrow> parsed" where
  "json_string_loop ptr =
    (if cchar ptr 0 = QUOTE then Inr 1
     else if cchar ptr 0 = NUL then json_error ''unexpected end of string data'' None
     else
       (case (if cchar ptr 0 = BACKSLASH then json_escape ptr else Inr 0) of
          Inl e \<Rightarrow> Inl e
        | Inr k \<Rightarrow>
            if (of_char (cchar ptr k) :: nat) \<le> 0x1f
            then json_error ''invalid control character in string data'' (Some (drop k ptr))
            else map_sum id (\<lambda>n. k + 1 + n) (json_string_loop (drop (k + 1) ptr))))"
  by pat_completeness auto
termination by (relation "measure length") (auto simp: cchar_def split: if_splits)

declare json_string_loop.simps [simp del]

definition json_parse_string :: "string \<Rightarrow> parsed" where
  "json_parse_string start = map_sum id (\<lambda>n. 1 + n) (json_string_loop (drop 1 start))"

section \<open>Numbers and literals\<close>

text \<open>The loop over digits and the point: the characters passed and the digits before the point.\<close>

fun json_number_loop :: "string \<Rightarrow> bool \<Rightarrow> nat \<Rightarrow> nat \<times> nat" where
  "json_number_loop [] point digit = (0, digit)"
| "json_number_loop (c # ptr) point digit =
    (if c = NUL then (0, digit)
     else if c = CHR ''.'' then
       if point then (0, digit)
       else (case json_number_loop ptr True digit of (n, d) \<Rightarrow> (n + 1, d))
     else if \<not> isdigit c then (0, digit)
     else (case json_number_loop ptr point (if point then digit else digit + 1) of (n, d) \<Rightarrow> (n + 1, d)))"

definition json_parse_number :: "string \<Rightarrow> parsed" where
  "json_parse_number start =
    (let ptr = (if cchar start 0 = CHR ''-'' then 1 else 0);
         first_digit = cchar start ptr
     in case json_number_loop (drop ptr start) False 0 of (n, digit) \<Rightarrow>
       let ptr = ptr + n
       in if digit = 0 then json_error ''invalid numeric value format'' (Some start)
          else if first_digit = CHR ''0'' \<and> 1 < digit then json_error ''invalid numeric value format'' (Some start)
          else if cchar start ptr = CHR ''e'' \<or> cchar start ptr = CHR ''E'' then
            let ptr = ptr + 1
            in if cchar start ptr = NUL then json_error ''unexpected end of numeric value'' None
               else
                 let sign = (cchar start ptr = CHR ''+'' \<or> cchar start ptr = CHR ''-'');
                     ptr = (if sign then ptr + 1 else ptr)
                 in if sign \<and> cchar start ptr = NUL then json_error ''unexpected end of numeric value'' None
                    else if \<not> isdigit (cchar start ptr)
                    then json_error ''invalid power value of number in E notation'' (Some (drop ptr start))
                    else Inr (ptr + 1 + length (takeWhile isdigit (drop (ptr + 1) start)))
          else Inr ptr)"

fun json_literal_matches :: "string \<Rightarrow> string \<Rightarrow> bool" where
  "json_literal_matches ptr [] = True"
| "json_literal_matches ptr (t # ts) = (if cchar ptr 0 \<noteq> t then False else json_literal_matches (drop 1 ptr) ts)"

definition json_parse_literal :: "string \<Rightarrow> string \<Rightarrow> parsed" where
  "json_parse_literal start txt =
    (if json_literal_matches start txt then Inr (length txt) else json_error ''invalid literal value'' (Some start))"

section \<open>Values, arrays and objects\<close>

text \<open>A message that ends with a quoted bracket.\<close>

definition expected_closing :: "string \<Rightarrow> char \<Rightarrow> string" where
  "expected_closing kind c = ''invalid '' @ kind @ '' format, expected closing character '' @ [CHR 0x27, c, CHR 0x27]"

text \<open>
  The five mutually recursive parsers: the two loops are those of \<open>json_parse_array\<close> and
  \<open>json_parse_object\<close>, up to the closing bracket. The parsers of arrays and objects are called
  with the pointer at an opening bracket, never at the end of the text.
\<close>

function json_parse_value :: "string \<Rightarrow> parsed"
  and json_parse_array :: "string \<Rightarrow> parsed"
  and json_parse_object :: "string \<Rightarrow> parsed"
  and json_array_loop :: "string \<Rightarrow> parsed"
  and json_object_loop :: "string \<Rightarrow> parsed"
where
  "json_parse_value start =
    (let ptr = skip_ws start; c = cchar ptr 0
     in map_sum id (\<lambda>len. ws_len start + len)
         (if c = NUL then json_error ''unexpected end of object value'' None
          else if c = QUOTE then json_parse_string ptr
          else if c = CHR ''{'' then json_parse_object ptr
          else if c = CHR ''['' then json_parse_array ptr
          else if c = CHR ''t'' then json_parse_literal ptr ''true''
          else if c = CHR ''f'' then json_parse_literal ptr ''false''
          else if c = CHR ''n'' then json_parse_literal ptr ''null''
          else if isdigit c \<or> c = CHR ''-'' then json_parse_number ptr
          else json_error ''invalid JSON object value starting character'' (Some ptr)))"
| "json_parse_array start =
    (case start of
       [] \<Rightarrow> Inl []
     | _ # next \<Rightarrow>
         let n = 1 + ws_len next; ptr = skip_ws next
         in if cchar ptr 0 \<noteq> CHR '']'' then
              (case json_array_loop ptr of
                 Inl e \<Rightarrow> Inl e
               | Inr len \<Rightarrow>
                   if cchar (drop len ptr) 0 \<noteq> CHR '']''
                   then json_error (expected_closing ''array'' (CHR '']'')) (Some (drop len ptr))
                   else Inr (n + len + 1))
            else Inr (n + 1))"
| "json_array_loop ptr =
    (case json_parse_value ptr of
       Inl e \<Rightarrow> Inl e
     | Inr len \<Rightarrow>
         let n = len + ws_len (drop len ptr)
         in (case drop n ptr of
               [] \<Rightarrow> Inr n
             | c # next \<Rightarrow>
                 if c \<noteq> CHR '','' then Inr n else map_sum id (\<lambda>m. n + 1 + m) (json_array_loop next)))"
| "json_parse_object start =
    (case skip_ws start of
       [] \<Rightarrow> Inl []
     | _ # next \<Rightarrow>
         let n = ws_len start + 1 + ws_len next; ptr = skip_ws next
         in if cchar ptr 0 \<noteq> CHR ''}'' then
              (case json_object_loop ptr of
                 Inl e \<Rightarrow> Inl e
               | Inr len \<Rightarrow>
                   if cchar (drop len ptr) 0 \<noteq> CHR ''}''
                   then json_error (expected_closing ''object'' (CHR ''}'')) (Some (drop len ptr))
                   else Inr (n + len + 1))
            else Inr (n + 1))"
| "json_object_loop ptr =
    (if cchar ptr 0 \<noteq> QUOTE then json_error ''invalid object name'' (Some ptr)
     else
       (case json_parse_string ptr of
          Inl e \<Rightarrow> Inl e
        | Inr len \<Rightarrow>
            let n = len + ws_len (drop len ptr)
            in (case drop n ptr of
                  [] \<Rightarrow> json_error ''invalid object name/value separator'' (Some [])
                | c # next \<Rightarrow>
                    if c \<noteq> CHR '':'' then json_error ''invalid object name/value separator'' (Some (drop n ptr))
                    else
                      (case json_parse_value next of
                         Inl e \<Rightarrow> Inl e
                       | Inr len \<Rightarrow>
                           let m = len + ws_len (drop len next)
                           in (case drop m next of
                                 [] \<Rightarrow> Inr (n + 1 + m)
                               | c # next \<Rightarrow>
                                   if c \<noteq> CHR '','' then Inr (n + 1 + m)
                                   else
                                     map_sum id (\<lambda>k. n + 1 + m + 1 + ws_len next + k)
                                       (json_object_loop (skip_ws next)))))))"
  by pat_completeness auto
termination
  by (relation "measure (case_sum
      (case_sum (\<lambda>s. 3 * length s + 1) (\<lambda>s. 3 * length s))
      (case_sum (\<lambda>s. 3 * length s) (case_sum (\<lambda>s. 3 * length s + 2) (\<lambda>s. 3 * length s + 2))))")
    (use skip_ws_le in \<open>auto dest!: drop_eq_Cons_length skip_ws_Cons_length simp: le_imp_less_Suc
      intro: skip_ws_less less_trans\<close>)

declare json_parse_value.simps [simp del] json_parse_array.simps [simp del] json_parse_object.simps [simp del]
  json_array_loop.simps [simp del] json_object_loop.simps [simp del]

definition zbx_json_validate :: "string \<Rightarrow> parsed" where
  "zbx_json_validate start =
    (let start = skip_ws start; c = cchar start 0
     in case (if c = CHR ''{'' then json_parse_object start
              else if c = CHR ''['' then json_parse_array start
              else json_error (''invalid object format, expected opening character '' @
                [CHR 0x27, CHR ''{'', CHR 0x27] @ '' or '' @ [CHR 0x27, CHR ''['', CHR 0x27]) (Some start)) of
          Inl e \<Rightarrow> Inl e
        | Inr len \<Rightarrow>
            let start = skip_ws (drop len start)
            in if cchar start 0 \<noteq> NUL then json_error ''invalid character following JSON object'' (Some start)
               else Inr len)"

section \<open>The grammar\<close>

text \<open>
  The grammar of RFC 8259, with one difference: the digits after a decimal point may be missing,
  as the code accepts \<open>1.\<close>.
\<close>

definition json_ws :: "string \<Rightarrow> bool" where
  "json_ws w \<longleftrightarrow> (\<forall>c\<in>set w. is_ws c)"

inductive json_chars :: "string \<Rightarrow> bool" where
  jc_nil: "json_chars []"
| jc_plain: "c \<noteq> QUOTE \<Longrightarrow> c \<noteq> BACKSLASH \<Longrightarrow> 0x1f < (of_char c :: nat) \<Longrightarrow> json_chars t \<Longrightarrow> json_chars (c # t)"
| jc_escape: "c \<in> {QUOTE, BACKSLASH, CHR ''/'', CHR ''b'', CHR ''f'', CHR ''n'', CHR ''r'', CHR ''t''} \<Longrightarrow> json_chars t \<Longrightarrow>
    json_chars (BACKSLASH # c # t)"
| jc_unicode: "isxdigit a \<Longrightarrow> isxdigit b \<Longrightarrow> isxdigit c \<Longrightarrow> isxdigit d \<Longrightarrow> json_chars t \<Longrightarrow>
    json_chars (BACKSLASH # CHR ''u'' # a # b # c # d # t)"

definition json_string :: "string \<Rightarrow> bool" where
  "json_string s \<longleftrightarrow> (\<exists>t. json_chars t \<and> s = QUOTE # t @ [QUOTE])"

definition digits :: "string \<Rightarrow> bool" where
  "digits ds \<longleftrightarrow> (\<forall>c\<in>set ds. isdigit c)"

definition json_number :: "string \<Rightarrow> bool" where
  "json_number s \<longleftrightarrow> (\<exists>sg ds fr ex. s = sg @ ds @ fr @ ex \<and> sg \<in> {[], ''-''} \<and>
    digits ds \<and> ds \<noteq> [] \<and> (hd ds = CHR ''0'' \<longrightarrow> length ds = 1) \<and>
    (fr = [] \<or> (\<exists>fs. fr = CHR ''.'' # fs \<and> digits fs)) \<and>
    (ex = [] \<or> (\<exists>e es sg'. ex = e # sg' @ es \<and> e \<in> {CHR ''e'', CHR ''E''} \<and> sg' \<in> {[], ''+'', ''-''} \<and> digits es \<and> es \<noteq> [])))"

inductive json_value :: "string \<Rightarrow> bool"
  and json_elements :: "string \<Rightarrow> bool"
  and json_members :: "string \<Rightarrow> bool"
where
  jv_string: "json_string s \<Longrightarrow> json_value s"
| jv_number: "json_number s \<Longrightarrow> json_value s"
| jv_literal: "s \<in> {''true'', ''false'', ''null''} \<Longrightarrow> json_value s"
| jv_empty_array: "json_ws w \<Longrightarrow> json_value (CHR ''['' # w @ [CHR '']''])"
| jv_array: "json_elements es \<Longrightarrow> json_value (CHR ''['' # es @ [CHR '']''])"
| jv_empty_object: "json_ws w \<Longrightarrow> json_value (CHR ''{'' # w @ [CHR ''}''])"
| jv_object: "json_members ms \<Longrightarrow> json_value (CHR ''{'' # ms @ [CHR ''}''])"
| je_single: "json_ws w1 \<Longrightarrow> json_value v \<Longrightarrow> json_ws w2 \<Longrightarrow> json_elements (w1 @ v @ w2)"
| je_cons: "json_ws w1 \<Longrightarrow> json_value v \<Longrightarrow> json_ws w2 \<Longrightarrow> json_elements es \<Longrightarrow>
    json_elements (w1 @ v @ w2 @ CHR '','' # es)"
| jm_single: "json_ws w0 \<Longrightarrow> json_string k \<Longrightarrow> json_ws w1 \<Longrightarrow> json_ws w2 \<Longrightarrow> json_value v \<Longrightarrow> json_ws w3 \<Longrightarrow>
    json_members (w0 @ k @ w1 @ CHR '':'' # w2 @ v @ w3)"
| jm_cons: "json_ws w0 \<Longrightarrow> json_string k \<Longrightarrow> json_ws w1 \<Longrightarrow> json_ws w2 \<Longrightarrow> json_value v \<Longrightarrow> json_ws w3 \<Longrightarrow>
    json_members ms \<Longrightarrow> json_members (w0 @ k @ w1 @ CHR '':'' # w2 @ v @ w3 @ CHR '','' # ms)"

section \<open>Scanning lemmas\<close>

lemma ws_split: "s = take (ws_len s) s @ skip_ws s" "json_ws (take (ws_len s) s)" "ws_len s \<le> length s"
    "length (take (ws_len s) s) = ws_len s"
proof -
  have "take (ws_len s) s = takeWhile is_ws s" by (simp add: ws_len_def takeWhile_eq_take [symmetric])
  then show "json_ws (take (ws_len s) s)" by (auto simp: json_ws_def dest: set_takeWhileD)
  show "ws_len s \<le> length s" by (simp add: ws_len_def length_takeWhile_le)
  then show "length (take (ws_len s) s) = ws_len s" by simp
qed (simp add: skip_ws_def)

lemma ws_append: "json_ws w \<Longrightarrow> r = [] \<or> \<not> is_ws (hd r) \<Longrightarrow> ws_len (w @ r) = length w \<and> skip_ws (w @ r) = r"
proof -
  assume "json_ws w" "r = [] \<or> \<not> is_ws (hd r)"
  then have "takeWhile is_ws (w @ r) = w"
    by (cases r) (auto simp: takeWhile_append json_ws_def)
  then show ?thesis by (simp add: ws_len_def skip_ws_def)
qed

lemma ws_none: "r = [] \<or> \<not> is_ws (hd r) \<Longrightarrow> ws_len r = 0 \<and> skip_ws r = r"
  using ws_append [of "[]" r] by (simp add: json_ws_def)

lemma skip_ws_start: "skip_ws s = [] \<or> \<not> is_ws (hd (skip_ws s))"
proof -
  have "skip_ws s = dropWhile is_ws s" by (simp add: skip_ws_def ws_len_def dropWhile_eq_drop)
  then show ?thesis by (metis hd_dropWhile)
qed

lemma json_ws_simps [simp]: "json_ws []" "json_ws (c # w) \<longleftrightarrow> is_ws c \<and> json_ws w" "json_ws (v @ w) \<longleftrightarrow> json_ws v \<and> json_ws w"
  by (auto simp: json_ws_def)

lemma digits_simps [simp]: "digits []" "digits (c # w) \<longleftrightarrow> isdigit c \<and> digits w" "digits (v @ w) \<longleftrightarrow> digits v \<and> digits w"
  by (auto simp: digits_def)

lemma cchar_0: "cchar s 0 = c \<Longrightarrow> c \<noteq> NUL \<Longrightarrow> \<exists>t. s = c # t"
  by (cases s) auto

lemma is_ws_iff: "is_ws c \<longleftrightarrow> c = CHR '' '' \<or> c = CHR 0x09 \<or> c = CHR 0x0D \<or> c = CHR 0x0A"
  by (auto simp: is_ws_def ZBX_WHITESPACE_def)

section \<open>Strings and numbers\<close>

lemma isxdigit_printable: "isxdigit c \<Longrightarrow> 0x1f < (of_char c :: nat) \<and> c \<noteq> NUL"
  by (auto simp: isxdigit_def isdigit_def)

lemma cchar_drop: "cchar (drop n s) i = cchar s (n + i)"
  by (auto simp: cchar_def)

lemma cchar_Cons: "0 < i \<Longrightarrow> cchar (c # s) i = cchar s (i - 1)"
  by (cases i) auto

lemma isxdigit_cchar: "isxdigit (cchar s 0) \<longleftrightarrow> (\<exists>c t. s = c # t \<and> isxdigit c)"
  by (cases s) auto

lemma four_hex_Cons:
  "four_hex (u # s) \<longleftrightarrow> (\<exists>a b c d t. s = a # b # c # d # t \<and> isxdigit a \<and> isxdigit b \<and> isxdigit c \<and> isxdigit d)"
proof -
  have "four_hex (u # s) \<longleftrightarrow> isxdigit (cchar s 0) \<and> isxdigit (cchar (drop 1 s) 0) \<and>
      isxdigit (cchar (drop 1 (drop 1 s)) 0) \<and> isxdigit (cchar (drop 1 (drop 1 (drop 1 s))) 0)"
    by (simp add: four_hex_def cchar_drop cchar_Cons numeral_eq_Suc)
  then show ?thesis unfolding isxdigit_cchar by auto
qed

definition simple_escapes :: "char set" where
  "simple_escapes = {QUOTE, BACKSLASH, CHR ''/'', CHR ''b'', CHR ''f'', CHR ''n'', CHR ''r'', CHR ''t''}"

lemma json_escape_Cons:
  "json_escape (x # c # t) =
    (if c = NUL then json_error ''invalid escape sequence in string'' (Some (x # c # t))
     else if c \<in> simple_escapes then Inr 1
     else if c = CHR ''u'' then if four_hex (c # t) then Inr 5 else json_error ''invalid escape sequence in string'' (Some (x # c # t))
     else json_error ''invalid escape sequence in string data'' (Some (x # c # t)))"
  by (simp add: json_escape_def simple_escapes_def Let_def) 

lemma json_escape_sound:
  assumes "json_escape (BACKSLASH # s) = Inr k"
  shows "(\<exists>c t. s = c # t \<and> k = 1 \<and> c \<in> simple_escapes) \<or>
    (\<exists>a b c d t. s = CHR ''u'' # a # b # c # d # t \<and> k = 5 \<and> isxdigit a \<and> isxdigit b \<and> isxdigit c \<and> isxdigit d)"
proof (cases s)
  case Nil
  then show ?thesis using assms by (simp add: json_escape_def json_error_def)
next
  case (Cons c t)
  then show ?thesis
    using assms by (auto simp: json_escape_Cons json_error_def four_hex_Cons split: if_splits)
qed

lemma simple_escapes_printable: "c \<in> simple_escapes \<Longrightarrow> 0x1f < (of_char c :: nat) \<and> c \<noteq> NUL \<and> c \<noteq> CHR ''u''"
  by (auto simp: simple_escapes_def QUOTE_def BACKSLASH_def)

lemma json_string_loop_Nil: "json_string_loop [] = json_error ''unexpected end of string data'' None"
  by (subst json_string_loop.simps) (simp add: QUOTE_def)

lemma json_string_loop_quote: "json_string_loop (QUOTE # s) = Inr 1"
  by (subst json_string_loop.simps) simp

lemma QUOTE_neq [simp]: "QUOTE \<noteq> BACKSLASH" "BACKSLASH \<noteq> QUOTE" "QUOTE \<noteq> NUL" "BACKSLASH \<noteq> NUL"
  by (simp_all add: QUOTE_def BACKSLASH_def)

lemma json_string_loop_plain:
  "c \<noteq> QUOTE \<Longrightarrow> c \<noteq> BACKSLASH \<Longrightarrow> c \<noteq> NUL \<Longrightarrow> json_string_loop (c # s) =
    (if (of_char c :: nat) \<le> 0x1f then json_error ''invalid control character in string data'' (Some (c # s))
     else map_sum id Suc (json_string_loop s))"
  by (subst json_string_loop.simps) (cases "json_string_loop s"; simp)

lemma json_string_loop_escape:
  assumes "json_escape (BACKSLASH # s) = Inr k" "0x1f < (of_char (cchar (BACKSLASH # s) k) :: nat)"
  shows "json_string_loop (BACKSLASH # s) = map_sum id (\<lambda>n. k + 1 + n) (json_string_loop (drop k s))"
  using assms by (subst json_string_loop.simps) simp

lemma json_string_loop_complete:
  "json_chars t \<Longrightarrow> json_string_loop (t @ QUOTE # r) = Inr (length t + 1)"
proof (induction rule: json_chars.induct)
  case jc_nil
  then show ?case by (simp add: json_string_loop_quote)
next
  case (jc_plain c t)
  moreover from this have "c \<noteq> NUL" by auto
  ultimately show ?case by (simp add: json_string_loop_plain)
next
  case (jc_escape c t)
  then have "json_escape (BACKSLASH # c # t @ QUOTE # r) = Inr 1" "0x1f < (of_char c :: nat)"
    using simple_escapes_printable [of c] by (auto simp: json_escape_Cons simple_escapes_def)
  then show ?case using json_string_loop_escape [of "c # t @ QUOTE # r" 1] jc_escape.IH by simp
next
  case (jc_unicode a b c d t)
  let ?s = "CHR ''u'' # a # b # c # d # t @ QUOTE # r"
  have "json_escape (BACKSLASH # ?s) = Inr 5"
    using jc_unicode(1-4) by (simp add: json_escape_Cons four_hex_Cons simple_escapes_def QUOTE_def BACKSLASH_def)
  moreover have "cchar (BACKSLASH # ?s) 5 = d" by (simp add: cchar_def)
  ultimately show ?case
    using json_string_loop_escape [of ?s 5] jc_unicode isxdigit_printable [of d] by simp
qed

lemma json_string_loop_sound:
  "json_string_loop s = Inr n \<Longrightarrow> \<exists>t r. json_chars t \<and> s = t @ QUOTE # r \<and> n = length t + 1"
proof (induction s arbitrary: n rule: json_string_loop.induct)
  case (1 s)
  show ?case
  proof (cases s)
    case Nil
    then show ?thesis using 1(2) by (simp add: json_string_loop_Nil json_error_def)
  next
    case (Cons x s')
    have nul: "x \<noteq> NUL" using 1(2) by (subst (asm) json_string_loop.simps) (auto simp: Cons json_error_def split: if_splits)
    consider (quote) "x = QUOTE" | (esc) "x = BACKSLASH" | (plain) "x \<noteq> QUOTE" "x \<noteq> BACKSLASH" by blast
    then show ?thesis
    proof cases
      case quote
      then show ?thesis using 1(2) Cons jc_nil by (force simp: json_string_loop_quote)
    next
      case plain
      have ctl: "\<not> (of_char x :: nat) \<le> 0x1f"
        using 1(2) Cons plain nul by (auto simp: json_string_loop_plain json_error_def)
      then obtain m where m: "json_string_loop s' = Inr m" "n = Suc m"
        using 1(2) Cons plain nul by (cases "json_string_loop s'") (auto simp: json_string_loop_plain)
      have "cchar s 0 \<noteq> QUOTE" "cchar s 0 \<noteq> NUL" "(if cchar s 0 = BACKSLASH then json_escape s else Inr 0) = Inr 0"
          "\<not> (of_char (cchar s 0) :: nat) \<le> 0x1f"
        using plain nul ctl Cons by simp_all
      from 1(1) [OF this] m(1) Cons obtain t r where "json_chars t" "s' = t @ QUOTE # r" "m = length t + 1" by auto
      then show ?thesis
        using jc_plain [of x t] plain ctl Cons m(2) by (intro exI [of _ "x # t"] exI [of _ r]) simp
    next
      case esc
      obtain k where k: "json_escape (BACKSLASH # s') = Inr k"
        using 1(2) Cons esc by (subst (asm) json_string_loop.simps) (auto split: sum.splits if_splits)
      have c: "0x1f < (of_char (cchar (BACKSLASH # s') k) :: nat)"
        using 1(2) Cons esc k by (subst (asm) json_string_loop.simps) (auto simp: json_error_def split: if_splits)
      obtain m where m: "json_string_loop (drop k s') = Inr m" "n = k + 1 + m"
        using 1(2) Cons esc json_string_loop_escape [OF k c] by (cases "json_string_loop (drop k s')") auto
      have "cchar s 0 \<noteq> QUOTE" "cchar s 0 \<noteq> NUL" "(if cchar s 0 = BACKSLASH then json_escape s else Inr 0) = Inr k"
          "\<not> (of_char (cchar s k) :: nat) \<le> 0x1f"
        using esc c k Cons by simp_all
      from 1(1) [OF this] m(1) Cons obtain t r where tr: "json_chars t" "drop k s' = t @ QUOTE # r" "m = length t + 1"
        by auto
      show ?thesis
        using json_escape_sound [OF k]
      proof
        assume "\<exists>c t. s' = c # t \<and> k = 1 \<and> c \<in> simple_escapes"
        then obtain c u where u: "s' = c # u" "k = 1" "c \<in> simple_escapes" by blast
        then show ?thesis
          using jc_escape [of c t] tr esc Cons m(2)
          by (intro exI [of _ "BACKSLASH # c # t"] exI [of _ r]) (simp add: simple_escapes_def)
      next
        assume "\<exists>a b c d t. s' = CHR ''u'' # a # b # c # d # t \<and> k = 5 \<and> isxdigit a \<and> isxdigit b \<and> isxdigit c \<and> isxdigit d"
        then obtain a b c d u where u: "s' = CHR ''u'' # a # b # c # d # u" "k = 5"
            "isxdigit a" "isxdigit b" "isxdigit c" "isxdigit d" by blast
        then show ?thesis
          using jc_unicode [of a b c d t] tr esc Cons m(2)
          by (intro exI [of _ "BACKSLASH # CHR ''u'' # a # b # c # d # t"] exI [of _ r]) simp
      qed
    qed
  qed
qed

lemma json_parse_string_complete: "json_string k \<Longrightarrow> json_parse_string (k @ r) = Inr (length k)"
  by (auto simp: json_string_def json_parse_string_def json_string_loop_complete)

lemma json_parse_string_sound:
  assumes "json_parse_string s = Inr n" "cchar s 0 = QUOTE"
  shows "\<exists>k r. s = k @ r \<and> json_string k \<and> n = length k"
proof -
  obtain s' where s: "s = QUOTE # s'" using cchar_0 [OF assms(2)] by auto
  obtain m where m: "json_string_loop s' = Inr m" "n = 1 + m"
    using assms(1) s by (cases "json_string_loop s'") (auto simp: json_parse_string_def)
  then obtain t r where "json_chars t" "s' = t @ QUOTE # r" "m = length t + 1" using json_string_loop_sound by blast
  then show ?thesis
    using s m(2) by (intro exI [of _ "QUOTE # t @ [QUOTE]"] exI [of _ r]) (auto simp: json_string_def)
qed

text \<open>Numbers: what may follow one without being read as a part of it.\<close>

definition follow :: "string \<Rightarrow> bool" where
  "follow r \<longleftrightarrow> \<not> isdigit (cchar r 0) \<and> cchar r 0 \<notin> {CHR ''.'', CHR ''e'', CHR ''E''}"

lemma isdigit_char: "isdigit c \<Longrightarrow> c \<noteq> NUL \<and> c \<noteq> CHR ''.'' \<and> c \<noteq> CHR ''-'' \<and> c \<noteq> CHR ''+'' \<and> c \<noteq> CHR ''e'' \<and> c \<noteq> CHR ''E''"
  by (auto simp: isdigit_def)

lemma takeWhile_digits: "digits ds \<Longrightarrow> \<not> isdigit (cchar r 0) \<Longrightarrow> takeWhile isdigit (ds @ r) = ds"
  by (cases r) (auto simp: takeWhile_append digits_def)

lemma json_number_loop_digits:
  "digits ds \<Longrightarrow> json_number_loop (ds @ r) point k =
    (case json_number_loop r point (if point then k else k + length ds) of (n, d) \<Rightarrow> (n + length ds, d))"
proof (induction ds arbitrary: k)
  case Nil
  then show ?case by (simp split: prod.split)
next
  case (Cons c ds)
  then show ?case using isdigit_char [of c] by (auto split: prod.splits)
qed

lemma json_number_loop_stop: "\<not> isdigit (cchar r 0) \<Longrightarrow> cchar r 0 \<noteq> CHR ''.'' \<or> point \<Longrightarrow> json_number_loop r point k = (0, k)"
  by (cases r) auto

lemma json_number_loop_point: "json_number_loop (CHR ''.'' # r) False k = (case json_number_loop r True k of (n, d) \<Rightarrow> (n + 1, d))"
  by simp

text \<open>The digits and the fraction that the loop reads.\<close>

definition fraction :: "string \<Rightarrow> bool" where
  "fraction fr \<longleftrightarrow> fr = [] \<or> (\<exists>fs. fr = CHR ''.'' # fs \<and> digits fs)"

lemma json_number_loop_complete:
  assumes "digits ds" "fraction fr" "\<not> isdigit (cchar r 0)" "fr = [] \<Longrightarrow> cchar r 0 \<noteq> CHR ''.''"
  shows "json_number_loop (ds @ fr @ r) False 0 = (length ds + length fr, length ds)"
proof (cases "fr = []")
  case True
  then show ?thesis using assms json_number_loop_digits [OF assms(1), of r False 0]
    by (simp add: json_number_loop_stop)
next
  case False
  then obtain fs where fs: "fr = CHR ''.'' # fs" "digits fs" using assms(2) by (auto simp: fraction_def)
  then show ?thesis
    using assms(3) json_number_loop_digits [OF assms(1), of "fr @ r" False 0]
      json_number_loop_digits [OF fs(2), of r True "length ds"]
    by (simp add: json_number_loop_stop)
qed

lemma dropWhile_isdigit: "\<not> isdigit (cchar (dropWhile isdigit s) 0)"
  by (induction s) (auto simp: isdigit_def)

lemma json_number_loop_sound:
  assumes "json_number_loop s False 0 = (n, d)"
  shows "\<exists>ds fr r. s = ds @ fr @ r \<and> digits ds \<and> fraction fr \<and> n = length ds + length fr \<and> d = length ds \<and>
    \<not> isdigit (cchar r 0) \<and> (fr = [] \<longrightarrow> cchar r 0 \<noteq> CHR ''.'')"
proof -
  define ds where "ds = takeWhile isdigit s"
  define r where "r = dropWhile isdigit s"
  have ds: "digits ds" "s = ds @ r" by (auto simp: ds_def r_def digits_def dest: set_takeWhileD)
  have r: "\<not> isdigit (cchar r 0)" unfolding r_def by (rule dropWhile_isdigit)
  show ?thesis
  proof (cases "cchar r 0 = CHR ''.''")
    case False
    then show ?thesis
      using assms ds r json_number_loop_complete [of ds "[]" r] by (intro exI [of _ ds] exI [of _ "[]"] exI [of _ r]) (auto simp: fraction_def)
  next
    case True
    then obtain r' where r': "r = CHR ''.'' # r'" using cchar_0 [of r] by auto
    define fs where "fs = takeWhile isdigit r'"
    define r2 where "r2 = dropWhile isdigit r'"
    have fs: "digits fs" "r' = fs @ r2" by (auto simp: fs_def r2_def digits_def dest: set_takeWhileD)
    have r2: "\<not> isdigit (cchar r2 0)" unfolding r2_def by (rule dropWhile_isdigit)
    have fr: "fraction (CHR ''.'' # fs)" using fs by (simp add: fraction_def)
    have "s = ds @ (CHR ''.'' # fs) @ r2" using ds fs r' by simp
    then show ?thesis
      using assms ds(1) fr r2 json_number_loop_complete [OF ds(1) fr r2]
      by (intro exI [of _ ds] exI [of _ "CHR ''.'' # fs"] exI [of _ r2]) auto
  qed
qed

definition exponent :: "string \<Rightarrow> bool" where
  "exponent ex \<longleftrightarrow> ex = [] \<or> (\<exists>e es sg'. ex = e # sg' @ es \<and> e \<in> {CHR ''e'', CHR ''E''} \<and> sg' \<in> {[], ''+'', ''-''} \<and> digits es \<and> es \<noteq> [])"

lemma json_number_iff:
  "json_number s \<longleftrightarrow> (\<exists>sg ds fr ex. s = sg @ ds @ fr @ ex \<and> sg \<in> {[], ''-''} \<and>
    digits ds \<and> ds \<noteq> [] \<and> (hd ds = CHR ''0'' \<longrightarrow> length ds = 1) \<and> fraction fr \<and> exponent ex)"
  unfolding json_number_def fraction_def exponent_def by blast

text \<open>The tail of \<open>json_parse_number\<close>, from the position after the fraction.\<close>

definition json_parse_exponent :: "string \<Rightarrow> nat \<Rightarrow> parsed" where
  "json_parse_exponent start ptr =
    (if cchar start ptr = CHR ''e'' \<or> cchar start ptr = CHR ''E'' then
       let ptr = ptr + 1
       in if cchar start ptr = NUL then json_error ''unexpected end of numeric value'' None
          else
            let sign = (cchar start ptr = CHR ''+'' \<or> cchar start ptr = CHR ''-'');
                ptr = (if sign then ptr + 1 else ptr)
            in if sign \<and> cchar start ptr = NUL then json_error ''unexpected end of numeric value'' None
               else if \<not> isdigit (cchar start ptr)
               then json_error ''invalid power value of number in E notation'' (Some (drop ptr start))
               else Inr (ptr + 1 + length (takeWhile isdigit (drop (ptr + 1) start)))
     else Inr ptr)"

lemma cchar_append_length: "cchar (u @ s) (length u) = cchar s 0" "cchar (u @ s) (length u + k) = cchar s k"
  "cchar (u @ s) (Suc (length u)) = cchar s 1"
  by (auto simp: cchar_def nth_append)

lemma json_parse_exponent_unfold:
  assumes s: "s = e # sg @ s2" "e \<in> {CHR ''e'', CHR ''E''}"
    and sg: "sg = (if cchar (sg @ s2) 0 = CHR ''+'' \<or> cchar (sg @ s2) 0 = CHR ''-'' then [cchar (sg @ s2) 0] else [])"
  shows "json_parse_exponent (u @ s) (length u) =
    (if cchar (sg @ s2) 0 = NUL then json_error ''unexpected end of numeric value'' None
     else if sg \<noteq> [] \<and> cchar s2 0 = NUL then json_error ''unexpected end of numeric value'' None
     else if \<not> isdigit (cchar s2 0)
     then json_error ''invalid power value of number in E notation'' (Some (drop (length (u @ e # sg)) (u @ s)))
     else Inr (length (u @ e # sg) + 1 + length (takeWhile isdigit (drop 1 s2))))"
proof -
  define s1 where "s1 = sg @ s2"
  define sign where "sign = (cchar s1 0 = CHR ''+'' \<or> cchar s1 0 = CHR ''-'')"
  have sg': "sg = (if sign then [cchar s1 0] else [])" using sg unfolding s1_def sign_def .
  have u: "u @ s = (u @ e # sg) @ s2" by (simp add: s)
  have p: "(if sign then length u + 1 + 1 else length u + 1) = length (u @ e # sg)" unfolding sg' by simp
  have c0: "cchar (u @ s) (length u) = e" using cchar_append_length(1) [of u s] s by simp
  have c1: "cchar (u @ s) (length u + 1) = cchar s1 0" using cchar_append_length(2) [of u s 1] by (simp add: s s1_def)
  have c2: "cchar (u @ s) (length (u @ e # sg)) = cchar s2 0" unfolding u by (rule cchar_append_length(1))
  have dr: "drop (length (u @ e # sg) + 1) (u @ s) = drop 1 s2" unfolding u by simp
  have e: "e = CHR ''e'' \<or> e = CHR ''E''" using s(2) by simp
  have sn: "(sg \<noteq> []) = sign" by (subst sg') simp
  show ?thesis
    unfolding json_parse_exponent_def Let_def c0 c1 sign_def [symmetric] p c2 dr s1_def [symmetric] sn using e by simp
qed

lemma json_parse_exponent_Inr:
  "json_parse_exponent (u @ s) (length u) = Inr n \<Longrightarrow> \<exists>ex r. s = ex @ r \<and> exponent ex \<and> n = length u + length ex"
proof -
  assume a: "json_parse_exponent (u @ s) (length u) = Inr n"
  show ?thesis
  proof (cases "cchar s 0 = CHR ''e'' \<or> cchar s 0 = CHR ''E''")
    case False
    then have "n = length u" using a by (simp add: json_parse_exponent_def cchar_append_length)
    then show ?thesis by (intro exI [of _ "[]"] exI [of _ s]) (simp add: exponent_def)
  next
    case True
    then obtain e s1 where s1: "s = e # s1" "e \<in> {CHR ''e'', CHR ''E''}" using cchar_0 [of s] by auto
    define sg where "sg = (if cchar s1 0 = CHR ''+'' \<or> cchar s1 0 = CHR ''-'' then [cchar s1 0] else [])"
    have "s1 = sg @ drop (length sg) s1" by (cases s1) (simp_all add: sg_def)
    then obtain s2 where s2: "s1 = sg @ s2" by blast
    note eq = json_parse_exponent_unfold [OF s1(1) [unfolded s2] s1(2) sg_def [unfolded s2], of u]
    have dig: "isdigit (cchar s2 0)" and n: "n = length (u @ e # sg) + 1 + length (takeWhile isdigit (drop 1 s2))"
      using a unfolding eq by (auto simp: json_error_def split: if_splits)
    obtain c s3 where s3: "s2 = c # s3" "isdigit c" using dig by (cases s2) auto
    have "digits (c # takeWhile isdigit s3)" using s3(2) by (auto simp: digits_def dest: set_takeWhileD)
    moreover have "sg \<in> {[], ''+'', ''-''}" by (auto simp: sg_def)
    ultimately have "exponent (e # sg @ c # takeWhile isdigit s3)" using s1(2) unfolding exponent_def by blast
    moreover have "s = (e # sg @ c # takeWhile isdigit s3) @ dropWhile isdigit s3" by (simp add: s1 s2 s3)
    moreover have "n = length u + length (e # sg @ c # takeWhile isdigit s3)" by (simp add: n s3)
    ultimately show ?thesis by blast
  qed
qed

lemma json_parse_exponent_complete:
  assumes "exponent ex" "follow r"
  shows "json_parse_exponent (u @ ex @ r) (length u) = Inr (length u + length ex)"
proof (cases "ex = []")
  case True
  then show ?thesis using assms(2) by (auto simp: json_parse_exponent_def cchar_append_length follow_def)
next
  case False
  then obtain e sg d es where ex: "ex = e # sg @ d # es" "e \<in> {CHR ''e'', CHR ''E''}" "sg \<in> {[], ''+'', ''-''}" "isdigit d" "digits es"
    using assms(1) unfolding exponent_def by (metis digits_simps(2) neq_Nil_conv)
  have tw: "takeWhile isdigit (es @ r) = es" using takeWhile_digits ex(5) assms(2) by (simp add: follow_def)
  have s: "ex @ r = e # sg @ (d # es @ r)" by (simp add: ex)
  have sg: "sg = (if cchar (sg @ d # es @ r) 0 = CHR ''+'' \<or> cchar (sg @ d # es @ r) 0 = CHR ''-''
      then [cchar (sg @ d # es @ r) 0] else [])" "cchar (sg @ d # es @ r) 0 \<noteq> NUL"
    using ex(3) isdigit_char [OF ex(4)] by auto
  show ?thesis
    unfolding json_parse_exponent_unfold [OF s ex(2) sg(1)] using sg(2) ex tw isdigit_char [OF ex(4)] by simp
qed

lemma json_parse_number_unfold:
  assumes "start = sg @ s" "sg = (if cchar start 0 = CHR ''-'' then ''-'' else [])" "json_number_loop s False 0 = (n, d)"
  shows "json_parse_number start =
    (if d = 0 then json_error ''invalid numeric value format'' (Some start)
     else if cchar s 0 = CHR ''0'' \<and> 1 < d then json_error ''invalid numeric value format'' (Some start)
     else json_parse_exponent start (length sg + n))"
proof -
  have "(if cchar start 0 = CHR ''-'' then 1 else 0) = length sg" unfolding assms(2) by simp
  moreover have "drop (length sg) start = s" "cchar start (length sg) = cchar s 0"
    using assms(1) cchar_append_length(1) [of sg s] by simp_all
  ultimately show ?thesis
    using assms(3) by (simp add: json_parse_number_def json_parse_exponent_def Let_def)
qed

lemma json_parse_number_sound:
  assumes "json_parse_number s = Inr n"
  shows "\<exists>v r. s = v @ r \<and> json_number v \<and> n = length v"
proof -
  define sg where "sg = (if cchar s 0 = CHR ''-'' then ''-'' else [])"
  have "s = sg @ drop (length sg) s" by (cases s) (simp_all add: sg_def)
  then obtain t where t: "s = sg @ t" by blast
  obtain m d where loop: "json_number_loop t False 0 = (m, d)" by force
  obtain ds fr r where l: "t = ds @ fr @ r" "digits ds" "fraction fr" "m = length ds + length fr" "d = length ds"
    using json_number_loop_sound [OF loop] by blast
  note u = json_parse_number_unfold [OF t sg_def loop]
  have d: "d \<noteq> 0" "\<not> (cchar t 0 = CHR ''0'' \<and> 1 < d)" and e: "json_parse_exponent s (length sg + m) = Inr n"
    using assms unfolding u by (auto simp: json_error_def split: if_splits)
  have "s = (sg @ ds @ fr) @ r" "length sg + m = length (sg @ ds @ fr)" by (simp_all add: t l)
  with e obtain ex r2 where ex: "r = ex @ r2" "exponent ex" "n = length (sg @ ds @ fr) + length ex"
    using json_parse_exponent_Inr [of "sg @ ds @ fr" r n] by auto
  have ds: "ds \<noteq> []" using d(1) l(5) by auto
  have z: "hd ds = CHR ''0'' \<longrightarrow> length ds = 1" using d(2) l ds by (cases ds) (auto simp: Suc_lessI)
  have "json_number (sg @ ds @ fr @ ex)"
    unfolding json_number_iff using l(2,3) ex(2) ds z
    by (intro exI [of _ sg] exI [of _ ds] exI [of _ fr] exI [of _ ex]) (simp add: sg_def)
  moreover have "s = (sg @ ds @ fr @ ex) @ r2" by (simp add: t l ex)
  moreover have "n = length (sg @ ds @ fr @ ex)" by (simp add: ex)
  ultimately show ?thesis by blast
qed

lemma json_parse_number_complete:
  assumes "json_number v" "follow r"
  shows "json_parse_number (v @ r) = Inr (length v)"
proof -
  obtain sg ds fr ex where v: "v = sg @ ds @ fr @ ex" "sg \<in> {[], ''-''}" "digits ds" "ds \<noteq> []"
      "hd ds = CHR ''0'' \<longrightarrow> length ds = 1" "fraction fr" "exponent ex"
    using assms(1) unfolding json_number_iff by blast
  obtain d0 ds' where d0: "ds = d0 # ds'" "isdigit d0" using v(3,4) by (cases ds) auto
  have c0: "cchar (v @ r) 0 = CHR ''-'' \<longleftrightarrow> sg = ''-''"
    using v(1,2) d0 isdigit_char [OF d0(2)] by auto
  have er: "\<not> isdigit (cchar (ex @ r) 0)" "cchar (ex @ r) 0 \<noteq> CHR ''.''"
    using v(7) assms(2) by (auto simp: exponent_def follow_def isdigit_def)
  have loop: "json_number_loop (ds @ fr @ ex @ r) False 0 = (length ds + length fr, length ds)"
    by (rule json_number_loop_complete [OF v(3,6) er])
  have sgd: "sg = (if cchar (v @ r) 0 = CHR ''-'' then ''-'' else [])" using c0 v(2) by auto
  have st: "v @ r = sg @ (ds @ fr @ ex @ r)" by (simp add: v(1))
  have "json_parse_exponent (v @ r) (length sg + (length ds + length fr)) = Inr (length v)"
    using json_parse_exponent_complete [OF v(7) assms(2), of "sg @ ds @ fr"] by (simp add: v(1) add.assoc)
  then show ?thesis
    unfolding json_parse_number_unfold [OF st sgd loop] using v(4,5) d0 by auto
qed

lemma json_literal_matches_iff: "NUL \<notin> set t \<Longrightarrow> json_literal_matches s t \<longleftrightarrow> (\<exists>r. s = t @ r)"
proof (induction t arbitrary: s)
  case Nil
  then show ?case by simp
next
  case (Cons c t)
  then show ?case by (cases s) auto
qed

end
