(* ===== verification/JsonValidate.thy ===== *)
theory JsonValidate
  imports JsonParser
begin

text \<open>
  The validator accepts exactly the texts of the grammar: soundness by strong induction on the
  length of the rest of the text, one step lemma per parser; completeness by rule induction on the grammar.
\<close>

section \<open>Soundness\<close>

definition value_sound :: "string \<Rightarrow> bool" where
  "value_sound s \<longleftrightarrow> (\<forall>n. json_parse_value s = Inr n \<longrightarrow>
    (\<exists>w v r. s = w @ v @ r \<and> json_ws w \<and> json_value v \<and> n = length w + length v))"

definition bracket_sound :: "(string \<Rightarrow> parsed) \<Rightarrow> char \<Rightarrow> string \<Rightarrow> bool" where
  "bracket_sound parser bracket s \<longleftrightarrow> (\<forall>n. cchar s 0 = bracket \<longrightarrow> parser s = Inr n \<longrightarrow>
    (\<exists>v r. s = v @ r \<and> json_value v \<and> n = length v))"

definition loop_sound :: "(string \<Rightarrow> parsed) \<Rightarrow> (string \<Rightarrow> bool) \<Rightarrow> string \<Rightarrow> bool" where
  "loop_sound loop grammar s \<longleftrightarrow> (\<forall>n. loop s = Inr n \<longrightarrow> (\<exists>es r. s = es @ r \<and> grammar es \<and> n = length es))"

lemma json_elements_ws: "json_elements es \<Longrightarrow> json_ws w \<Longrightarrow> json_elements (w @ es)"
proof -
  assume "json_elements es" and w: "json_ws w"
  then show ?thesis
  proof (cases rule: json_elements.cases)
    case (je_single w1 v w2)
    then show ?thesis using json_value_json_elements_json_members.je_single [of "w @ w1" v w2] w by simp
  next
    case (je_cons w1 v w2 es')
    then show ?thesis using json_value_json_elements_json_members.je_cons [of "w @ w1" v w2 es'] w by simp
  qed
qed

lemma json_members_ws: "json_members ms \<Longrightarrow> json_ws w \<Longrightarrow> json_members (w @ ms)"
proof -
  assume "json_members ms" and w: "json_ws w"
  then show ?thesis
  proof (cases rule: json_members.cases)
    case (jm_single w0 k w1 w2 v w3)
    then show ?thesis using json_value_json_elements_json_members.jm_single [of "w @ w0" k w1 w2 v w3] w by simp
  next
    case (jm_cons w0 k w1 w2 v w3 ms')
    then show ?thesis using json_value_json_elements_json_members.jm_cons [of "w @ w0" k w1 w2 v w3 ms'] w by simp
  qed
qed

lemma json_array_sound:
  assumes "\<And>t. length t < length s \<Longrightarrow> loop_sound json_array_loop json_elements t"
  shows "bracket_sound json_parse_array (CHR ''['') s"
  unfolding bracket_sound_def
proof (intro allI impI)
  fix n
  assume b: "cchar s 0 = CHR ''[''" and p: "json_parse_array s = Inr n"
  from b obtain t where s: "s = CHR ''['' # t" using cchar_0 [OF b] by auto
  let ?w = "take (ws_len t) t" let ?p = "skip_ws t"
  have t: "t = ?w @ ?p" "json_ws ?w" "length ?w = ws_len t" using ws_split [of t] by simp_all
  show "\<exists>v r. s = v @ r \<and> json_value v \<and> n = length v"
  proof (cases "cchar ?p 0 = CHR '']''")
    case True
    then obtain r where r: "?p = CHR '']'' # r" using cchar_0 by fastforce
    have "n = length (CHR ''['' # ?w @ [CHR '']''])"
      using p s True t(3) by (simp add: json_parse_array.simps Let_def)
    moreover have "s = (CHR ''['' # ?w @ [CHR '']'']) @ r" using s t(1) r by simp
    ultimately show ?thesis using jv_empty_array [OF t(2)] by blast
  next
    case False
    then obtain m where m: "json_array_loop ?p = Inr m" "cchar (drop m ?p) 0 = CHR '']''" "n = 1 + ws_len t + m + 1"
      using p s by (auto simp: json_parse_array.simps Let_def json_error_def split: sum.splits if_splits)
    have "loop_sound json_array_loop json_elements ?p" using assms [of ?p] s skip_ws_le [of t] by simp
    then obtain es r where es: "?p = es @ r" "json_elements es" "m = length es" using m(1) unfolding loop_sound_def by blast
    then obtain r' where "r = CHR '']'' # r'" using m(2) cchar_0 by fastforce
    then have "s = (CHR ''['' # (?w @ es) @ [CHR '']'']) @ r'" using s t(1) es(1) by simp
    moreover have "n = length (CHR ''['' # (?w @ es) @ [CHR '']''])" using m(3) es(3) t(3) by simp
    ultimately show ?thesis using jv_array [OF json_elements_ws [OF es(2) t(2)]] by blast
  qed
qed

lemma json_object_sound:
  assumes "\<And>t. length t < length s \<Longrightarrow> loop_sound json_object_loop json_members t"
  shows "bracket_sound json_parse_object (CHR ''{'') s"
  unfolding bracket_sound_def
proof (intro allI impI)
  fix n
  assume b: "cchar s 0 = CHR ''{''" and p: "json_parse_object s = Inr n"
  from b obtain t where s: "s = CHR ''{'' # t" using cchar_0 [OF b] by auto
  then have sw: "ws_len s = 0" "skip_ws s = CHR ''{'' # t" using ws_none [of s] by (simp_all add: is_ws_iff)
  let ?w = "take (ws_len t) t" let ?p = "skip_ws t"
  have t: "t = ?w @ ?p" "json_ws ?w" "length ?w = ws_len t" using ws_split [of t] by simp_all
  show "\<exists>v r. s = v @ r \<and> json_value v \<and> n = length v"
  proof (cases "cchar ?p 0 = CHR ''}''")
    case True
    then obtain r where r: "?p = CHR ''}'' # r" using cchar_0 by fastforce
    have "n = length (CHR ''{'' # ?w @ [CHR ''}''])"
      using p sw True t(3) by (simp add: json_parse_object.simps Let_def)
    moreover have "s = (CHR ''{'' # ?w @ [CHR ''}'']) @ r" using s t(1) r by simp
    ultimately show ?thesis using jv_empty_object [OF t(2)] by blast
  next
    case False
    then obtain m where m: "json_object_loop ?p = Inr m" "cchar (drop m ?p) 0 = CHR ''}''" "n = 1 + ws_len t + m + 1"
      using p sw by (auto simp: json_parse_object.simps [of s] Let_def json_error_def split: sum.splits if_splits)
    have "loop_sound json_object_loop json_members ?p" using assms [of ?p] s skip_ws_le [of t] by simp
    then obtain es r where es: "?p = es @ r" "json_members es" "m = length es" using m(1) unfolding loop_sound_def by blast
    then obtain r' where "r = CHR ''}'' # r'" using m(2) cchar_0 by fastforce
    then have "s = (CHR ''{'' # (?w @ es) @ [CHR ''}'']) @ r'" using s t(1) es(1) by simp
    moreover have "n = length (CHR ''{'' # (?w @ es) @ [CHR ''}''])" using m(3) es(3) t(3) by simp
    ultimately show ?thesis using jv_object [OF json_members_ws [OF es(2) t(2)]] by blast
  qed
qed

lemma json_literal_sound:
  "json_parse_literal s t = Inr n \<Longrightarrow> NUL \<notin> set t \<Longrightarrow> \<exists>r. s = t @ r \<and> n = length t"
  by (auto simp: json_parse_literal_def json_error_def json_literal_matches_iff split: if_splits)

text \<open>The parser that \<open>json_parse_value\<close> chooses at a value.\<close>

definition value_parser :: "string \<Rightarrow> parsed" where
  "value_parser ptr =
    (let c = cchar ptr 0
     in if c = NUL then json_error ''unexpected end of object value'' None
        else if c = QUOTE then json_parse_string ptr
        else if c = CHR ''{'' then json_parse_object ptr
        else if c = CHR ''['' then json_parse_array ptr
        else if c = CHR ''t'' then json_parse_literal ptr ''true''
        else if c = CHR ''f'' then json_parse_literal ptr ''false''
        else if c = CHR ''n'' then json_parse_literal ptr ''null''
        else if isdigit c \<or> c = CHR ''-'' then json_parse_number ptr
        else json_error ''invalid JSON object value starting character'' (Some ptr))"

lemma json_parse_value_dispatch: "json_parse_value s = map_sum id (\<lambda>len. ws_len s + len) (value_parser (skip_ws s))"
  unfolding json_parse_value.simps [of s] value_parser_def Let_def by (rule refl)

lemma json_literal_NUL: "t \<in> {''true'', ''false'', ''null''} \<Longrightarrow> NUL \<notin> set t"
  by auto

lemma value_parser_sound:
  assumes "bracket_sound json_parse_array (CHR ''['') p" "bracket_sound json_parse_object (CHR ''{'') p"
    "value_parser p = Inr n"
  shows "\<exists>v r. p = v @ r \<and> json_value v \<and> n = length v"
proof -
  define c where "c = cchar p 0"
  have lit: ?thesis if a: "json_parse_literal p t = Inr n" and b: "t \<in> {''true'', ''false'', ''null''}" for t
  proof -
    obtain r where "p = t @ r" "n = length t" using json_literal_sound [OF a json_literal_NUL [OF b]] by blast
    then show ?thesis using jv_literal [OF b] by blast
  qed
  have "c = QUOTE \<and> json_parse_string p = Inr n \<or> c = CHR ''{'' \<and> json_parse_object p = Inr n \<or>
      c = CHR ''['' \<and> json_parse_array p = Inr n \<or> json_parse_literal p ''true'' = Inr n \<or>
      json_parse_literal p ''false'' = Inr n \<or> json_parse_literal p ''null'' = Inr n \<or> json_parse_number p = Inr n"
    using assms(3) unfolding value_parser_def Let_def c_def [symmetric] json_error_def
    by (simp only: sum.distinct split: if_split_asm; simp)
  then show ?thesis
  proof (elim disjE conjE)
    assume "c = QUOTE" "json_parse_string p = Inr n"
    then show ?thesis using json_parse_string_sound [of p n] jv_string unfolding c_def by blast
  next
    assume "json_parse_number p = Inr n"
    then show ?thesis using json_parse_number_sound [of p n] jv_number by blast
  qed (use assms(1,2) lit in \<open>auto simp: bracket_sound_def c_def\<close>)
qed

lemma json_value_sound:
  assumes "bracket_sound json_parse_array (CHR ''['') (skip_ws s)" "bracket_sound json_parse_object (CHR ''{'') (skip_ws s)"
  shows "value_sound s"
  unfolding value_sound_def
proof (intro allI impI)
  fix n
  assume p: "json_parse_value s = Inr n"
  then obtain m where m: "value_parser (skip_ws s) = Inr m" "n = ws_len s + m"
    unfolding json_parse_value_dispatch by (cases "value_parser (skip_ws s)") simp_all
  obtain v r where "skip_ws s = v @ r" "json_value v" "m = length v"
    using value_parser_sound [OF assms m(1)] by blast
  then show "\<exists>w v r. s = w @ v @ r \<and> json_ws w \<and> json_value v \<and> n = length w + length v"
    using ws_split [of s] m(2) by metis
qed

lemma json_array_loop_sound:
  assumes "value_sound s" "\<And>t. length t < length s \<Longrightarrow> loop_sound json_array_loop json_elements t"
  shows "loop_sound json_array_loop json_elements s"
  unfolding loop_sound_def
proof (intro allI impI)
  fix n
  assume p: "json_array_loop s = Inr n"
  then obtain len where len: "json_parse_value s = Inr len"
    by (cases "json_parse_value s") (simp_all add: json_array_loop.simps [of s])
  then obtain w v r where v: "s = w @ v @ r" "json_ws w" "json_value v" "len = length w + length v"
    using assms(1) unfolding value_sound_def by blast
  then have d: "drop len s = r" by simp
  define w2 where "w2 = take (ws_len r) r"
  obtain r2 where r2: "r = w2 @ r2" "json_ws w2" "ws_len r = length w2" using ws_split [of r] by (metis w2_def)
  have dr: "drop (len + ws_len r) s = r2" using r2 v by simp
  have loop: "json_array_loop s = (case r2 of [] \<Rightarrow> Inr (len + length w2)
      | c # t \<Rightarrow> if c \<noteq> CHR '','' then Inr (len + length w2) else map_sum id (\<lambda>m. len + length w2 + 1 + m) (json_array_loop t))"
    unfolding json_array_loop.simps [of s] len sum.case Let_def d dr unfolding r2(3) by (rule refl)
  show "\<exists>es r. s = es @ r \<and> json_elements es \<and> n = length es"
  proof (cases "\<exists>t. r2 = CHR '','' # t")
    case False
    then have "n = len + length w2" using p unfolding loop by (cases r2) (auto split: if_splits)
    then show ?thesis
      using je_single [OF v(2,3) r2(2)] v(1,4) r2(1) by (intro exI [of _ "w @ v @ w2"] exI [of _ r2]) simp
  next
    case True
    then obtain t where t: "r2 = CHR '','' # t" by blast
    then obtain m where m: "json_array_loop t = Inr m" "n = len + length w2 + 1 + m"
      using p unfolding loop by (cases "json_array_loop t") auto
    have "length t < length s" using v(1) r2(1) t by simp
    then obtain es r' where es: "t = es @ r'" "json_elements es" "m = length es"
      using assms(2) m(1) unfolding loop_sound_def by blast
    then show ?thesis
      using je_cons [OF v(2,3) r2(2) es(2)] v(1,4) r2(1) t m(2)
      by (intro exI [of _ "w @ v @ w2 @ CHR '','' # es"] exI [of _ r']) simp
  qed
qed

lemma json_object_loop_sound:
  assumes "\<And>t. length t < length s \<Longrightarrow> value_sound t"
    "\<And>t. length t < length s \<Longrightarrow> loop_sound json_object_loop json_members t"
  shows "loop_sound json_object_loop json_members s"
  unfolding loop_sound_def
proof (intro allI impI)
  fix n
  assume p: "json_object_loop s = Inr n"
  have q: "cchar s 0 = QUOTE" using p by (simp add: json_object_loop.simps [of s] json_error_def split: if_splits)
  then obtain len where len: "json_parse_string s = Inr len"
    using p by (cases "json_parse_string s") (simp_all add: json_object_loop.simps [of s])
  obtain k r where k: "s = k @ r" "json_string k" "len = length k" using json_parse_string_sound [OF len q] by blast
  define w1 where "w1 = take (ws_len r) r"
  obtain r1 where r1: "r = w1 @ r1" "json_ws w1" "ws_len r = length w1" using ws_split [of r] by (metis w1_def)
  have d: "drop len s = r" "drop (len + ws_len r) s = r1" using k r1 by simp_all
  obtain u where u: "r1 = CHR '':'' # u"
    using p q unfolding json_object_loop.simps [of s] len Let_def d
    by (cases r1) (auto simp: json_error_def Let_def d split: if_splits)
  then obtain l2 where l2: "json_parse_value u = Inr l2"
    using p q unfolding json_object_loop.simps [of s] len Let_def d
    by (cases "json_parse_value u") (auto simp: Let_def d)
  have lu: "length u < length s" using k r1 u by simp
  obtain w2 v x where v: "u = w2 @ v @ x" "json_ws w2" "json_value v" "l2 = length w2 + length v"
    using assms(1) [OF lu] l2 unfolding value_sound_def by blast
  define w3 where "w3 = take (ws_len x) x"
  obtain x1 where x1: "x = w3 @ x1" "json_ws w3" "ws_len x = length w3" using ws_split [of x] by (metis w3_def)
  have du: "drop l2 u = x" "drop (l2 + ws_len x) u = x1" using v x1 by simp_all
  define h where "h = len + length w1 + 1 + (l2 + length w3)"
  have loop: "json_object_loop s = (case x1 of [] \<Rightarrow> Inr h
      | c # t \<Rightarrow> if c \<noteq> CHR '','' then Inr h
                 else map_sum id (\<lambda>k. h + 1 + ws_len t + k) (json_object_loop (skip_ws t)))"
    unfolding json_object_loop.simps [of s] len sum.case Let_def d u list.case l2 du
    unfolding r1(3) x1(3) h_def [symmetric] by (simp add: q)
  show "\<exists>es r. s = es @ r \<and> json_members es \<and> n = length es"
  proof (cases "\<exists>t. x1 = CHR '','' # t")
    case False
    then have "n = h" using p unfolding loop by (cases x1) (auto split: if_splits)
    then show ?thesis
      using jm_single [of "[]", OF _ k(2) r1(2) v(2,3) x1(2)] k r1 u v x1
      by (intro exI [of _ "k @ w1 @ CHR '':'' # w2 @ v @ w3"] exI [of _ x1]) (simp add: h_def)
  next
    case True
    then obtain t where t: "x1 = CHR '','' # t" by blast
    define w4 where "w4 = take (ws_len t) t"
    have w4: "t = w4 @ skip_ws t" "json_ws w4" "ws_len t = length w4" using ws_split [of t] by (simp_all add: w4_def)
    obtain m where m: "json_object_loop (skip_ws t) = Inr m" "n = h + 1 + length w4 + m"
      using p t unfolding loop by (cases "json_object_loop (skip_ws t)") (auto simp: w4(3))
    have "length t < length s" using k r1 u v x1 t by simp
    then have "length (skip_ws t) < length s" using skip_ws_le [of t] by simp
    then obtain es r' where es: "skip_ws t = es @ r'" "json_members es" "m = length es"
      using assms(2) m(1) unfolding loop_sound_def by blast
    have t2: "t = w4 @ es @ r'" using w4(1) es(1) by simp
    have "json_members (k @ w1 @ CHR '':'' # w2 @ v @ w3 @ CHR '','' # w4 @ es)"
      using jm_cons [of "[]", OF _ k(2) r1(2) v(2,3) x1(2) json_members_ws [OF es(2) w4(2)]] by simp
    then show ?thesis
      using k r1 u v x1 t m(2) es t2
      by (intro exI [of _ "k @ w1 @ CHR '':'' # w2 @ v @ w3 @ CHR '','' # w4 @ es"] exI [of _ r']) (simp add: h_def)
  qed
qed

lemma json_parsers_sound:
  "value_sound s \<and> loop_sound json_array_loop json_elements s \<and> loop_sound json_object_loop json_members s \<and>
    bracket_sound json_parse_array (CHR ''['') s \<and> bracket_sound json_parse_object (CHR ''{'') s"
proof (induction s rule: length_induct)
  case (1 s)
  have brackets: "bracket_sound json_parse_array (CHR ''['') t" "bracket_sound json_parse_object (CHR ''{'') t"
    if "length t \<le> length s" for t
    using 1 that by (intro json_array_sound json_object_sound; metis less_le_trans)+
  have "value_sound s" by (rule json_value_sound; rule brackets; rule skip_ws_le)
  moreover from this have "loop_sound json_array_loop json_elements s"
    by (rule json_array_loop_sound) (use 1 in blast)
  moreover have "loop_sound json_object_loop json_members s"
    by (rule json_object_loop_sound) (use 1 in blast)+
  ultimately show ?case using brackets [of s] by blast
qed

section \<open>Completeness\<close>

lemma json_value_start:
  "json_value v \<Longrightarrow> \<exists>c t. v = c # t \<and> c \<noteq> NUL \<and> \<not> is_ws c \<and> c \<notin> {CHR '']'', CHR ''}'', CHR '',''}"
proof (induction rule: json_value.cases)
  case (jv_number s)
  then obtain sg ds r where "s = sg @ ds @ r" "sg \<in> {[], ''-''}" "digits ds" "ds \<noteq> []"
    unfolding json_number_def by blast
  then show ?case using jv_number(1) by (cases ds) (auto simp: isdigit_def is_ws_iff)
qed (auto simp: json_string_def is_ws_iff QUOTE_def)

lemma json_parse_value_ws:
  "json_ws w \<Longrightarrow> t \<noteq> [] \<Longrightarrow> \<not> is_ws (hd t) \<Longrightarrow> json_parse_value (w @ t) = map_sum id (\<lambda>n. length w + n) (value_parser t)"
  unfolding json_parse_value_dispatch using ws_append [of w t] by simp

lemma json_array_loop_ws:
  assumes "json_ws w" "t \<noteq> []" "\<not> is_ws (hd t)"
  shows "json_array_loop (w @ t) = map_sum id (\<lambda>n. length w + n) (json_array_loop t)"
proof -
  have v: "json_parse_value (w @ t) = map_sum id (\<lambda>n. length w + n) (json_parse_value t)"
    using json_parse_value_ws [OF assms] json_parse_value_ws [of "[]" t] assms(2,3)
    by (cases "value_parser t") simp_all
  show ?thesis
  proof (cases "json_parse_value t")
    case (Inl e)
    then show ?thesis unfolding json_array_loop.simps [of t] json_array_loop.simps [of "w @ t"] v by simp
  next
    case (Inr len)
    have d: "drop (length w + len) (w @ t) = drop len t"
      "drop (length w + len + ws_len (drop len t)) (w @ t) = drop (len + ws_len (drop len t)) t" by simp_all
    show ?thesis
      unfolding json_array_loop.simps [of t] json_array_loop.simps [of "w @ t"] v Inr map_sum.simps id_apply sum.case Let_def d
      by (cases "drop (len + ws_len (drop len t)) t") (auto simp: sum.map_comp o_def add.assoc cong: sum.map_cong)
  qed
qed

lemma json_elements_strip:
  "json_elements es \<Longrightarrow> \<exists>w t. es = w @ t \<and> json_ws w \<and> t \<noteq> [] \<and> \<not> is_ws (hd t) \<and> hd t \<noteq> CHR '']'' \<and> hd t \<noteq> NUL"
proof (induction rule: json_elements.cases)
  case (je_single w1 v w2)
  then show ?case using json_value_start [of v] by (intro exI [of _ w1] exI [of _ "v @ w2"]) auto
next
  case (je_cons w1 v w2 es)
  then show ?case using json_value_start [of v] by (intro exI [of _ w1] exI [of _ "v @ w2 @ CHR '','' # es"]) auto
qed

lemma follow_ws: "json_ws w \<Longrightarrow> c \<in> {CHR '','', CHR '']'', CHR ''}''} \<Longrightarrow> follow (w @ c # r)"
  by (cases w) (auto simp: follow_def is_ws_iff isdigit_def)

text \<open>What the parsers promise on a text of the grammar, whatever follows it.\<close>

definition value_complete :: "string \<Rightarrow> bool" where
  "value_complete v \<longleftrightarrow> (\<forall>w r. json_ws w \<longrightarrow> follow r \<longrightarrow> json_parse_value (w @ v @ r) = Inr (length w + length v))"

definition elements_complete :: "string \<Rightarrow> bool" where
  "elements_complete es \<longleftrightarrow> (\<forall>r. json_array_loop (es @ CHR '']'' # r) = Inr (length es))"

definition members_complete :: "string \<Rightarrow> bool" where
  "members_complete ms \<longleftrightarrow> (\<exists>w t. ms = w @ QUOTE # t \<and> json_ws w \<and>
    (\<forall>r. json_object_loop (QUOTE # t @ CHR ''}'' # r) = Inr (length t + 1)))"

lemma value_completeI:
  assumes "v \<noteq> []" "\<not> is_ws (hd v)" "\<And>r. follow r \<Longrightarrow> value_parser (v @ r) = Inr (length v)"
  shows "value_complete v"
  unfolding value_complete_def using assms json_parse_value_ws by auto

lemma value_complete_bracket:
  "\<not> is_ws c \<Longrightarrow> (\<And>r. value_parser (c # t @ r) = Inr (length t + 1)) \<Longrightarrow> value_complete (c # t)"
  by (rule value_completeI) simp_all

lemma value_parser_Cons:
  "value_parser (QUOTE # t) = json_parse_string (QUOTE # t)"
  "value_parser (CHR ''t'' # t) = json_parse_literal (CHR ''t'' # t) ''true''"
  "value_parser (CHR ''f'' # t) = json_parse_literal (CHR ''f'' # t) ''false''"
  "value_parser (CHR ''n'' # t) = json_parse_literal (CHR ''n'' # t) ''null''"
  by (simp_all add: value_parser_def QUOTE_def isdigit_def Let_def)

lemma value_parser_digit:
  assumes "isdigit c \<or> c = CHR ''-''"
  shows "value_parser (c # t) = json_parse_number (c # t)"
proof -
  have "c \<noteq> NUL" "c \<noteq> QUOTE" "c \<noteq> CHR ''{''" "c \<noteq> CHR ''[''" "c \<noteq> CHR ''t''" "c \<noteq> CHR ''f''" "c \<noteq> CHR ''n''"
    using assms by (auto simp: isdigit_def QUOTE_def)
  then show ?thesis using assms by (simp add: value_parser_def)
qed

lemma value_parser_string: "json_string s \<Longrightarrow> value_parser (s @ r) = Inr (length s)"
proof -
  assume s: "json_string s"
  then obtain t where "s = QUOTE # t" unfolding json_string_def by blast
  then show ?thesis using json_parse_string_complete [OF s, of r] value_parser_Cons(1) by simp
qed

lemma value_parser_number: "json_number s \<Longrightarrow> follow r \<Longrightarrow> value_parser (s @ r) = Inr (length s)"
proof -
  assume n: "json_number s" "follow r"
  obtain sg ds u where s: "s = sg @ ds @ u" "sg \<in> {[], ''-''}" "digits ds" "ds \<noteq> []"
    using n(1) unfolding json_number_def by blast
  obtain d ds' where "ds = d # ds'" "isdigit d" using s(3,4) by (cases ds) auto
  then obtain c t where "s = c # t" "isdigit c \<or> c = CHR ''-''" using s(1,2) by auto
  then show ?thesis using json_parse_number_complete [OF n] value_parser_digit [of c "t @ r"] by simp
qed

lemma value_parser_literal: "s \<in> {''true'', ''false'', ''null''} \<Longrightarrow> value_parser (s @ r) = Inr (length s)"
proof -
  assume s: "s \<in> {''true'', ''false'', ''null''}"
  have "json_literal_matches (s @ r) s" using json_literal_matches_iff [OF json_literal_NUL [OF s]] by blast
  then have "json_parse_literal (s @ r) s = Inr (length s)" by (simp add: json_parse_literal_def)
  then show ?thesis using s value_parser_Cons(2-4) by (elim insertE emptyE) simp_all
qed

lemma value_parser_array: "value_parser (CHR ''['' # t) = json_parse_array (CHR ''['' # t)"
  by (simp add: value_parser_def QUOTE_def)

lemma value_parser_object: "value_parser (CHR ''{'' # t) = json_parse_object (CHR ''{'' # t)"
  by (simp add: value_parser_def QUOTE_def)

lemma json_parse_array_empty: "json_ws w \<Longrightarrow> json_parse_array (CHR ''['' # w @ CHR '']'' # r) = Inr (length w + 2)"
  using ws_append [of w "CHR '']'' # r"] by (simp add: json_parse_array.simps is_ws_iff)

lemma json_parse_object_empty: "json_ws w \<Longrightarrow> json_parse_object (CHR ''{'' # w @ CHR ''}'' # r) = Inr (length w + 2)"
  using ws_append [of w "CHR ''}'' # r"] ws_none [of "CHR ''{'' # w @ CHR ''}'' # r"]
  by (simp add: json_parse_object.simps is_ws_iff)

lemma json_parse_array_complete:
  assumes "json_elements es" "elements_complete es"
  shows "json_parse_array (CHR ''['' # es @ CHR '']'' # r) = Inr (length es + 2)"
proof -
  obtain w t where t: "es = w @ t" "json_ws w" "t \<noteq> []" "\<not> is_ws (hd t)" "hd t \<noteq> CHR '']''" "hd t \<noteq> NUL"
    using json_elements_strip [OF assms(1)] by blast
  let ?r = "CHR '']'' # r"
  have ws: "ws_len (es @ ?r) = length w" "skip_ws (es @ ?r) = t @ ?r" using ws_append [of w "t @ ?r"] t by simp_all
  have "json_array_loop (es @ ?r) = map_sum id (\<lambda>n. length w + n) (json_array_loop (t @ ?r))"
    using json_array_loop_ws [of w "t @ ?r"] t by simp
  moreover have "json_array_loop (es @ ?r) = Inr (length es)" using assms(2) by (simp add: elements_complete_def)
  ultimately have "json_array_loop (t @ ?r) = Inr (length t)" using t(1) by (cases "json_array_loop (t @ ?r)") auto
  moreover have "cchar (t @ ?r) 0 \<noteq> CHR '']''" using t(3,5) by (cases t) auto
  ultimately show ?thesis using ws t(1) by (simp add: json_parse_array.simps Let_def)
qed

lemma json_parse_object_complete:
  assumes "members_complete ms"
  shows "json_parse_object (CHR ''{'' # ms @ CHR ''}'' # r) = Inr (length ms + 2)"
proof -
  obtain w t where t: "ms = w @ QUOTE # t" "json_ws w"
      "json_object_loop (QUOTE # t @ CHR ''}'' # r) = Inr (length t + 1)"
    using assms unfolding members_complete_def by blast
  let ?s = "CHR ''{'' # ms @ CHR ''}'' # r"
  have s: "ws_len ?s = 0" "skip_ws ?s = ?s" using ws_none [of ?s] by (simp_all add: is_ws_iff)
  have ws: "ws_len (ms @ CHR ''}'' # r) = length w" "skip_ws (ms @ CHR ''}'' # r) = QUOTE # t @ CHR ''}'' # r"
    using ws_append [of w "QUOTE # t @ CHR ''}'' # r"] t(1,2) by (simp_all add: is_ws_iff QUOTE_def)
  have q: "QUOTE \<noteq> CHR ''}''" by (simp add: QUOTE_def)
  show ?thesis unfolding json_parse_object.simps [of ?s] s list.case Let_def ws
    using t(1,3) q by (simp add: cchar_def)
qed

lemma elements_complete_single:
  assumes "json_ws w1" "value_complete v" "json_ws w2"
  shows "elements_complete (w1 @ v @ w2)"
  unfolding elements_complete_def
proof
  fix r
  let ?r = "CHR '']'' # r"
  have "follow (w2 @ ?r)" using follow_ws assms(3) by simp
  then have v: "json_parse_value (w1 @ v @ w2 @ ?r) = Inr (length w1 + length v)"
    using assms(1,2) unfolding value_complete_def by blast
  have d: "drop (length w1 + length v) (w1 @ v @ w2 @ ?r) = w2 @ ?r"
    "drop (length w1 + length v + length w2) (w1 @ v @ w2 @ ?r) = ?r" by simp_all
  have w: "ws_len (w2 @ ?r) = length w2" using ws_append [of w2 ?r] assms(3) by (simp add: is_ws_iff)
  show "json_array_loop ((w1 @ v @ w2) @ ?r) = Inr (length (w1 @ v @ w2))"
    unfolding append_assoc json_array_loop.simps [of "w1 @ v @ w2 @ ?r"] v sum.case Let_def d w by simp
qed

lemma elements_complete_cons:
  assumes "json_ws w1" "value_complete v" "json_ws w2" "elements_complete es"
  shows "elements_complete (w1 @ v @ w2 @ CHR '','' # es)"
  unfolding elements_complete_def
proof
  fix r
  let ?r = "CHR '','' # es @ CHR '']'' # r"
  have "follow (w2 @ ?r)" using follow_ws assms(3) by simp
  then have v: "json_parse_value (w1 @ v @ w2 @ ?r) = Inr (length w1 + length v)"
    using assms(1,2) unfolding value_complete_def by blast
  have d: "drop (length w1 + length v) (w1 @ v @ w2 @ ?r) = w2 @ ?r"
    "drop (length w1 + length v + length w2) (w1 @ v @ w2 @ ?r) = ?r" by simp_all
  have w: "ws_len (w2 @ ?r) = length w2" using ws_append [of w2 ?r] assms(3) by (simp add: is_ws_iff)
  have e: "json_array_loop (es @ CHR '']'' # r) = Inr (length es)" using assms(4) by (simp add: elements_complete_def)
  show "json_array_loop ((w1 @ v @ w2 @ CHR '','' # es) @ CHR '']'' # r) = Inr (length (w1 @ v @ w2 @ CHR '','' # es))"
    unfolding append_assoc append_Cons json_array_loop.simps [of "w1 @ v @ w2 @ ?r"] v sum.case Let_def d w list.case e by simp
qed

text \<open>The pair that a member begins with, up to the character that ends the value.\<close>

lemma json_object_loop_pair:
  assumes "json_string k" "json_ws w1" "json_ws w2" "value_complete v" "json_ws w3" "follow (w3 @ x)"
    "x \<noteq> []" "\<not> is_ws (hd x)"
  defines "s \<equiv> k @ w1 @ CHR '':'' # w2 @ v @ w3 @ x"
    and "n \<equiv> length k + length w1 + 1 + (length w2 + length v + length w3)"
  shows "json_object_loop s = (if hd x \<noteq> CHR '','' then Inr n
    else map_sum id (\<lambda>m. n + 1 + ws_len (tl x) + m) (json_object_loop (skip_ws (tl x))))"
proof -
  obtain c y where x: "x = c # y" using assms(7) by (cases x) auto
  have q: "cchar s 0 = QUOTE" using assms(1) by (auto simp: s_def json_string_def)
  have k: "json_parse_string s = Inr (length k)" unfolding s_def by (rule json_parse_string_complete [OF assms(1)])
  have d: "drop (length k) s = w1 @ CHR '':'' # w2 @ v @ w3 @ x"
    "drop (length k + length w1) s = CHR '':'' # w2 @ v @ w3 @ x" by (simp_all add: s_def)
  have w: "ws_len (w1 @ CHR '':'' # w2 @ v @ w3 @ x) = length w1"
    using ws_append [of w1 "CHR '':'' # w2 @ v @ w3 @ x"] assms(2) by (simp add: is_ws_iff)
  have v: "json_parse_value (w2 @ v @ w3 @ x) = Inr (length w2 + length v)"
    using assms(3,4,6) unfolding value_complete_def by blast
  have dv: "drop (length w2 + length v) (w2 @ v @ w3 @ x) = w3 @ x"
    "drop (length w2 + length v + length w3) (w2 @ v @ w3 @ x) = c # y" using x by simp_all
  have w3: "ws_len (w3 @ x) = length w3" using ws_append [of w3 x] assms(5,7,8) by simp
  have nq: "(cchar s 0 \<noteq> QUOTE) = False" using q by simp
  have colon: "(CHR '':'' \<noteq> CHR '':'') = False" by simp
  show ?thesis
    unfolding json_object_loop.simps [of s] nq if_False k sum.case Let_def d [unfolded x] w [unfolded x]
      list.case colon v [unfolded x] dv [unfolded x] w3 [unfolded x] n_def x list.sel
    by (simp add: add.assoc)
qed

lemma QUOTE_not_ws: "\<not> is_ws QUOTE"
  by (simp add: is_ws_iff QUOTE_def)

lemma members_complete_single:
  assumes "json_ws w0" "json_string k" "json_ws w1" "json_ws w2" "value_complete v" "json_ws w3"
  shows "members_complete (w0 @ k @ w1 @ CHR '':'' # w2 @ v @ w3)"
proof -
  obtain kt where k: "k = QUOTE # kt" using assms(2) by (auto simp: json_string_def)
  let ?t = "kt @ w1 @ CHR '':'' # w2 @ v @ w3"
  have "json_object_loop (QUOTE # ?t @ CHR ''}'' # r) = Inr (length ?t + 1)" for r
  proof -
    have "follow (w3 @ CHR ''}'' # r)" using follow_ws assms(6) by simp
    from json_object_loop_pair [OF assms(2-6) this]
    show ?thesis by (simp add: k is_ws_iff)
  qed
  then show ?thesis unfolding members_complete_def
    using assms(1) by (intro exI [of _ w0] exI [of _ ?t]) (simp add: k)
qed

lemma members_complete_cons:
  assumes "json_ws w0" "json_string k" "json_ws w1" "json_ws w2" "value_complete v" "json_ws w3" "members_complete ms"
  shows "members_complete (w0 @ k @ w1 @ CHR '':'' # w2 @ v @ w3 @ CHR '','' # ms)"
proof -
  obtain kt where k: "k = QUOTE # kt" using assms(2) by (auto simp: json_string_def)
  obtain w t where t: "ms = w @ QUOTE # t" "json_ws w" "\<And>r. json_object_loop (QUOTE # t @ CHR ''}'' # r) = Inr (length t + 1)"
    using assms(7) unfolding members_complete_def by blast
  let ?t = "kt @ w1 @ CHR '':'' # w2 @ v @ w3 @ CHR '','' # ms"
  have "json_object_loop (QUOTE # ?t @ CHR ''}'' # r) = Inr (length ?t + 1)" for r
  proof -
    let ?x = "CHR '','' # ms @ CHR ''}'' # r"
    have "follow (w3 @ ?x)" using follow_ws assms(6) by simp
    from json_object_loop_pair [OF assms(2-6) this]
    have "json_object_loop (k @ w1 @ CHR '':'' # w2 @ v @ w3 @ ?x) =
      map_sum id (\<lambda>m. length k + length w1 + 1 + (length w2 + length v + length w3) + 1 + ws_len (ms @ CHR ''}'' # r) + m)
        (json_object_loop (skip_ws (ms @ CHR ''}'' # r)))"
      by (cases "json_object_loop (skip_ws (ms @ CHR ''}'' # r))") (simp_all add: is_ws_iff)
    moreover have "ws_len (ms @ CHR ''}'' # r) = length w" "skip_ws (ms @ CHR ''}'' # r) = QUOTE # t @ CHR ''}'' # r"
      using ws_append [of w "QUOTE # t @ CHR ''}'' # r"] t(1,2) QUOTE_not_ws by simp_all
    ultimately show ?thesis using t(1,3) by (simp add: k)
  qed
  then show ?thesis unfolding members_complete_def
    using assms(1) by (intro exI [of _ w0] exI [of _ ?t]) (simp add: k)
qed

lemma json_grammar_complete:
  "(json_value v \<longrightarrow> value_complete v) \<and> (json_elements es \<longrightarrow> elements_complete es) \<and> (json_members ms \<longrightarrow> members_complete ms)"
proof -
  have "json_value v \<Longrightarrow> value_complete v" "json_elements es \<Longrightarrow> elements_complete es \<and> json_elements es"
      "json_members ms \<Longrightarrow> members_complete ms" for v es ms
  proof (induction rule: json_value_json_elements_json_members.inducts)
    case (jv_string s)
    then have "json_value s" by (rule json_value_json_elements_json_members.jv_string)
    then show ?case using value_parser_string [OF jv_string] json_value_start [of s] by (auto intro!: value_completeI)
  next
    case (jv_number s)
    then have "json_value s" by (rule json_value_json_elements_json_members.jv_number)
    then show ?case using value_parser_number [OF jv_number] json_value_start [of s] by (auto intro!: value_completeI)
  next
    case (jv_literal s)
    then have "json_value s" by (rule json_value_json_elements_json_members.jv_literal)
    then show ?case using value_parser_literal [OF jv_literal] json_value_start [of s] by (auto intro!: value_completeI)
  next
    case (jv_empty_array w)
    then show ?case
      using json_parse_array_empty by (intro value_complete_bracket) (simp_all add: value_parser_array is_ws_iff)
  next
    case (jv_array es)
    then show ?case
      using json_parse_array_complete by (intro value_complete_bracket) (simp_all add: value_parser_array is_ws_iff)
  next
    case (jv_empty_object w)
    then show ?case
      using json_parse_object_empty by (intro value_complete_bracket) (simp_all add: value_parser_object is_ws_iff)
  next
    case (jv_object ms)
    then show ?case
      using json_parse_object_complete by (intro value_complete_bracket) (simp_all add: value_parser_object is_ws_iff)
  next
    case (je_single w1 v w2)
    then show ?case using elements_complete_single json_value_json_elements_json_members.je_single by blast
  next
    case (je_cons w1 v w2 es)
    then show ?case using elements_complete_cons json_value_json_elements_json_members.je_cons by blast
  next
    case (jm_single w0 k w1 w2 v w3)
    then show ?case using members_complete_single by blast
  next
    case (jm_cons w0 k w1 w2 v w3 ms)
    then show ?case using members_complete_cons by blast
  qed
  then show ?thesis by blast
qed

section \<open>The validator\<close>

text \<open>What \<open>zbx_json_validate\<close> accepts.\<close>

definition json_text :: "string \<Rightarrow> bool" where
  "json_text s \<longleftrightarrow> (\<exists>w1 v w2. s = w1 @ v @ w2 \<and> json_ws w1 \<and> json_ws w2 \<and> json_value v \<and> hd v \<in> {CHR ''['', CHR ''{''})"

lemma json_bracket_parse:
  assumes "cchar t 0 \<in> {CHR ''['', CHR ''{''}"
  shows "(if cchar t 0 = CHR ''{'' then json_parse_object t
    else if cchar t 0 = CHR ''['' then json_parse_array t else e) = value_parser t"
  using assms by (auto simp: value_parser_def QUOTE_def)

lemma json_validate_parse:
  assumes "cchar (skip_ws s) 0 \<in> {CHR ''['', CHR ''{''}"
  shows "zbx_json_validate s = (case value_parser (skip_ws s) of Inl e \<Rightarrow> Inl e
    | Inr len \<Rightarrow> if cchar (skip_ws (drop len (skip_ws s))) 0 \<noteq> NUL
                 then json_error ''invalid character following JSON object'' (Some (skip_ws (drop len (skip_ws s))))
                 else Inr len)"
  unfolding zbx_json_validate_def Let_def json_bracket_parse [OF assms] by (rule refl)

lemma cchar_NUL: "NUL \<notin> set s \<Longrightarrow> cchar s 0 = NUL \<longleftrightarrow> s = []"
  by (cases s) auto

lemma json_validate_sound:
  assumes "zbx_json_validate s = Inr n" "NUL \<notin> set s"
  shows "json_text s \<and> (\<exists>v. json_value v \<and> n = length v \<and> take n (skip_ws s) = v)"
proof -
  let ?t = "skip_ws s"
  have b: "cchar ?t 0 \<in> {CHR ''['', CHR ''{''}"
    using assms(1) by (auto simp: zbx_json_validate_def Let_def json_error_def split: if_splits)
  have p: "value_parser ?t = Inr n" and e: "cchar (skip_ws (drop n ?t)) 0 = NUL"
    using assms(1) unfolding json_validate_parse [OF b]
    by (auto simp: json_error_def split: sum.splits if_splits)
  have "bracket_sound json_parse_array (CHR ''['') ?t" "bracket_sound json_parse_object (CHR ''{'') ?t"
    using json_parsers_sound [of ?t] by blast+
  from value_parser_sound [OF this p] obtain v r where v: "?t = v @ r" "json_value v" "n = length v" by blast
  obtain c u where "v = c # u" using json_value_start [OF v(2)] by blast
  with b v(1) have "hd v \<in> {CHR ''['', CHR ''{''}" by simp
  moreover have s: "s = take (ws_len s) s @ v @ r" "json_ws (take (ws_len s) s)" using ws_split [of s] v(1) by simp_all
  moreover have "json_ws r"
  proof -
    have "NUL \<notin> set r" using s(1) assms(2) by (metis Un_iff set_append)
    then have "NUL \<notin> set (skip_ws r)" by (auto simp: skip_ws_def dest: in_set_dropD)
    moreover have "cchar (skip_ws r) 0 = NUL" using e v by simp
    ultimately have "skip_ws r = []" using cchar_NUL by blast
    then show ?thesis using ws_split [of r] by simp
  qed
  ultimately show ?thesis using v unfolding json_text_def by (metis append_eq_conv_conj)
qed

lemma json_validate_complete: "json_text s \<Longrightarrow> \<exists>n. zbx_json_validate s = Inr n"
proof -
  assume "json_text s"
  then obtain w1 v w2 where s: "s = w1 @ v @ w2" "json_ws w1" "json_ws w2" "json_value v" "hd v \<in> {CHR ''['', CHR ''{''}"
    unfolding json_text_def by blast
  obtain c u where v: "v = c # u" "\<not> is_ws c" using json_value_start [OF s(4)] by blast
  have t: "skip_ws s = v @ w2" using ws_append [OF s(2), of "v @ w2"] v s(1) by simp
  have b: "cchar (skip_ws s) 0 \<in> {CHR ''['', CHR ''{''}" using s(5) v t by simp
  have "follow w2" using s(3) by (cases w2) (auto simp: follow_def is_ws_iff isdigit_def)
  then have "json_parse_value ([] @ v @ w2) = Inr (length ([] :: string) + length v)"
    using json_grammar_complete [of v] s(4) unfolding value_complete_def by (metis json_ws_simps(1))
  then have p: "value_parser (skip_ws s) = Inr (length v)"
    using json_parse_value_ws [of "[]" "v @ w2"] v t by (cases "value_parser (v @ w2)") simp_all
  have "skip_ws w2 = []" using ws_append [OF s(3), of "[]"] by simp
  then show ?thesis unfolding json_validate_parse [OF b] p by (simp add: t)
qed

text \<open>C9. The validator accepts a text if and only if it is an object or an array of the grammar, with white space around it.\<close>

theorem json_validate_exact:
  assumes "NUL \<notin> set s"
  shows "(\<exists>n. zbx_json_validate s = Inr n) \<longleftrightarrow> json_text s"
  using json_validate_sound [OF _ assms] json_validate_complete by blast

lemma json_validate_exact_witness:
  "(\<exists>n. zbx_json_validate ''[1, {}]'' = Inr n) \<longleftrightarrow> json_text ''[1, {}]''"
  by (rule json_validate_exact) simp

text \<open>On success the result is the length of the value: exactly that part of the text after the leading white space
  is a value of the grammar.\<close>

theorem json_validate_length:
  assumes "zbx_json_validate s = Inr n" "NUL \<notin> set s"
  shows "json_value (take n (skip_ws s)) \<and> 0 < n \<and> n \<le> length (skip_ws s)"
proof -
  obtain v where "json_value v" "n = length v" "take n (skip_ws s) = v" using json_validate_sound [OF assms] by blast
  moreover from this have "v \<noteq> []" using json_value_start [of v] by blast
  ultimately show ?thesis by (metis length_greater_0_conv length_take min.cobounded1)
qed

lemma json_validate_length_witness:
  "json_value (take 2 (skip_ws '' [] '')) \<and> (0::nat) < 2 \<and> 2 \<le> length (skip_ws '' [] '')"
  by (rule json_validate_length) (simp_all add: zbx_json_validate_def json_parse_array.simps skip_ws_def ws_len_def is_ws_iff)

text \<open>The fraction of a number may lack its digits.\<close>

lemma json_number_trailing_point: "zbx_json_validate ''[1.]'' = Inr 4"
  by (simp add: zbx_json_validate_def json_parse_array.simps json_array_loop.simps json_parse_value.simps skip_ws_def
    ws_len_def is_ws_iff QUOTE_def isdigit_def json_parse_number_def Let_def cchar_def)

end
