(* ===== verification/NumParse.thy ===== *)
theory NumParse
  imports Prelude
begin

unbundle bit_operations_syntax

text \<open>
  The checks and conversions of numbers in text (\<open>src/libs/zbxcommon/misc.c\<close>, \<open>str.c\<close>): unsigned
  decimal and hexadecimal numbers with a range, time and size suffixes, decimal fractions, octal and
  hexadecimal words. A call that fails gives \<open>None\<close>; one that succeeds gives what it stores.
\<close>

section \<open>Digits\<close>

definition digit_val :: "char \<Rightarrow> nat" where
  "digit_val c = of_char c - 48"

definition hex_val :: "char \<Rightarrow> nat" where
  "hex_val c =
    (let n = of_char c
     in if 48 \<le> n \<and> n \<le> 57 then n - 48 else if 97 \<le> n \<and> n \<le> 102 then 10 + (n - 97) else 10 + (n - 65))"

text \<open>The number that a string of digits denotes.\<close>

definition digits_val :: "nat \<Rightarrow> (char \<Rightarrow> nat) \<Rightarrow> nat \<Rightarrow> string \<Rightarrow> nat" where
  "digits_val base d = foldl (\<lambda>v c. v * base + d c)"

abbreviation dec_val :: "string \<Rightarrow> nat" where
  "dec_val s \<equiv> digits_val 10 digit_val 0 s"

abbreviation hexa_val :: "string \<Rightarrow> nat" where
  "hexa_val s \<equiv> digits_val 16 hex_val 0 s"

lemma digits_val_simps [simp]:
  "digits_val b d v [] = v" "digits_val b d v (c # s) = digits_val b d (v * b + d c) s"
  "digits_val b d v (s @ t) = digits_val b d (digits_val b d v s) t"
  by (simp_all add: digits_val_def)

lemma digits_val_mono: "0 < b \<Longrightarrow> v \<le> digits_val b d v s"
proof (induction s arbitrary: v)
  case (Cons c s)
  have "v \<le> v * b + d c" using Cons.prems by (cases b) auto
  also have "\<dots> \<le> digits_val b d (v * b + d c) s" using Cons by blast
  finally show ?case by simp
qed simp

lemma digit_val_less: "isdigit c \<Longrightarrow> digit_val c < 10"
  by (auto simp: isdigit_def digit_val_def)

lemma hex_val_less: "isxdigit c \<Longrightarrow> hex_val c < 16"
  by (auto simp: isxdigit_def isdigit_def hex_val_def)

section \<open>Unsigned numbers in a range\<close>

text \<open>The loop of \<open>is_uint_n_range\<close>, with the accumulator.\<close>

fun uint_loop :: "string \<Rightarrow> nat \<Rightarrow> u64 \<Rightarrow> u64 option" where
  "uint_loop [] n val = Some val"
| "uint_loop (ch # str) n val =
    (if n = 0 then Some val
     else if \<not> isdigit ch then None
     else
       let c = of_nat (digit_val ch) :: u64
       in if ((NOT 0) - c) div 10 < val then None else uint_loop str (n - 1) (val * 10 + c))"

text \<open>
  \<open>has_value\<close> tells whether the caller gave a buffer; \<open>size\<close> bytes of the number are stored there.
\<close>

definition is_uint_n_range :: "string \<Rightarrow> nat \<Rightarrow> bool \<Rightarrow> nat \<Rightarrow> u64 \<Rightarrow> u64 \<Rightarrow> u64 option" where
  "is_uint_n_range str n has_value size_b min_v max_v =
    (if str = [] \<or> n = 0 \<or> 8 < size_b \<or> (size_b = 0 \<and> has_value) then None
     else
       case uint_loop str n 0 of
         None \<Rightarrow> None
       | Some val \<Rightarrow>
           if val < min_v \<or> max_v < val then None
           else Some (if has_value then take_bit (8 * size_b) val else val))"

fun hex_loop :: "string \<Rightarrow> nat \<Rightarrow> nat \<Rightarrow> u64 \<Rightarrow> u64 option" where
  "hex_loop [] n len val = Some val"
| "hex_loop (ch # str) n len val =
    (if n = 0 then Some val
     else if \<not> isxdigit ch then None
     else
       let c = of_nat (hex_val ch) :: u64; len = len + 1
       in if 16 < len \<and> drop_bit 4 (NOT 0) < val then None else hex_loop str (n - 1) len (push_bit 4 val + c))"

definition is_hex_n_range :: "string \<Rightarrow> nat \<Rightarrow> bool \<Rightarrow> nat \<Rightarrow> u64 \<Rightarrow> u64 \<Rightarrow> u64 option" where
  "is_hex_n_range str n has_value size_b min_v max_v =
    (if str = [] \<or> n = 0 \<or> 8 < size_b \<or> (size_b = 0 \<and> has_value) then None
     else
       case hex_loop str n 0 0 of
         None \<Rightarrow> None
       | Some val \<Rightarrow>
           if val < min_v \<or> max_v < val then None
           else Some (if has_value then take_bit (8 * size_b) val else val))"

lemma div_le_iff: "0 < b \<Longrightarrow> c \<le> m \<Longrightarrow> (m - c) div b < v \<longleftrightarrow> m < v * b + c" for m :: nat
  using div_less_iff_less_mult [of b "m - c" v] by auto

lemma uint_loop_exact:
  "uint_loop str n v =
    (if (\<forall>c\<in>set (take n str). isdigit c) \<and> digits_val 10 digit_val (unat v) (take n str) < 2 ^ 64
     then Some (of_nat (digits_val 10 digit_val (unat v) (take n str))) else None)"
proof (induction str n v rule: uint_loop.induct)
  case (1 n val)
  then show ?case using unat_u64_less [of val] by (simp del: unat_u64_less)
next
  case (2 ch str n val)
  show ?case
  proof (cases "n = 0 \<or> \<not> isdigit ch")
    case True
    then show ?thesis using unat_u64_less [of val] by (cases n) (auto simp del: unat_u64_less)
  next
    case False
    then obtain m where n: "n = Suc m" and d: "isdigit ch" by (cases n) auto
    define c where "c = (of_nat (digit_val ch) :: u64)"
    have c: "unat c = digit_val ch" "unat c < 10"
      using digit_val_less [OF d] by (simp_all add: c_def unat_of_nat)
    have mx: "unat ((NOT 0) - c) = 2 ^ 64 - 1 - unat c"
    proof -
      have "(NOT (0 :: u64)) = - 1" by simp
      moreover have "c \<le> - 1" by simp
      moreover have "unat (- 1 :: u64) = 2 ^ 64 - 1" by (simp add: unsigned_minus_1_eq_mask mask_eq_exp_minus_1)
      ultimately show ?thesis by (simp add: unat_sub)
    qed
    have ov: "((NOT 0) - c) div 10 < val \<longleftrightarrow> 2 ^ 64 - 1 < unat val * 10 + unat c"
    proof -
      have "((NOT 0) - c) div 10 < val \<longleftrightarrow> (2 ^ 64 - 1 - unat c) div 10 < unat val"
        unfolding word_less_nat_alt unat_div mx by simp
      then show ?thesis using div_le_iff [of 10 "unat c" "2 ^ 64 - 1" "unat val"] c(2) by simp
    qed
    have step: "uint_loop (ch # str) n val =
        (if ((NOT 0) - c) div 10 < val then None else uint_loop str m (val * 10 + c))"
      using False n by (simp add: c_def Let_def)
    show ?thesis
    proof (cases "((NOT 0) - c) div 10 < val")
      case True
      then have "2 ^ 64 \<le> unat val * 10 + digit_val ch" using ov c(1) by simp
      also have "\<dots> \<le> digits_val 10 digit_val (unat val * 10 + digit_val ch) (take m str)"
        by (rule digits_val_mono) simp
      finally show ?thesis unfolding step using True by (simp add: n)
    next
      case no: False
      then have le: "unat val * 10 + unat c < 2 ^ 64" using ov by simp
      have u: "unat (val * 10 + c) = unat val * 10 + digit_val ch"
        using le c(1) by (simp add: unat_word_ariths)
      have "uint_loop str m (val * 10 + c) =
          (if (\<forall>c\<in>set (take m str). isdigit c) \<and> digits_val 10 digit_val (unat (val * 10 + c)) (take m str) < 2 ^ 64
           then Some (of_nat (digits_val 10 digit_val (unat (val * 10 + c)) (take m str))) else None)"
        using "2.IH" [OF _ _ refl] False no n unfolding c_def by simp
      then show ?thesis unfolding step u using no d by (simp add: n)
    qed
  qed
qed

lemma hex_loop_exact:
  assumes "len \<le> 15 \<longrightarrow> unat v < 16 ^ len"
  shows "hex_loop str n len v =
    (if (\<forall>c\<in>set (take n str). isxdigit c) \<and> digits_val 16 hex_val (unat v) (take n str) < 2 ^ 64
     then Some (of_nat (digits_val 16 hex_val (unat v) (take n str))) else None)"
  using assms
proof (induction str n len v rule: hex_loop.induct)
  case (1 n len v)
  then show ?case using unat_u64_less [of v] by (simp del: unat_u64_less)
next
  case (2 ch str n len v)
  show ?case
  proof (cases "n = 0 \<or> \<not> isxdigit ch")
    case True
    then show ?thesis using unat_u64_less [of v] by (cases n) (auto simp del: unat_u64_less)
  next
    case False
    then obtain m where n: "n = Suc m" and d: "isxdigit ch" by (cases n) auto
    define c where "c = (of_nat (hex_val ch) :: u64)"
    have c: "unat c = hex_val ch" "unat c < 16"
      using hex_val_less [OF d] by (simp_all add: c_def unat_of_nat)
    have ov: "drop_bit 4 (NOT 0) < v \<longleftrightarrow> 2 ^ 60 \<le> unat v"
    proof -
      have "unat (drop_bit 4 ((NOT 0) :: u64)) = 2 ^ 60 - 1" by (simp add: mask_eq_exp_minus_1)
      then show ?thesis unfolding word_less_nat_alt by (simp only:) auto
    qed
    have small: "16 < len + 1 \<or> unat v < 2 ^ 60"
    proof (cases "len \<le> 15")
      case True
      then have "unat v < 16 ^ len" using "2.prems" by blast
      also have "\<dots> \<le> (16 :: nat) ^ 15" using True by (intro power_increasing) simp_all
      finally show ?thesis by simp
    qed simp
    have step: "hex_loop (ch # str) n len v =
        (if 2 ^ 60 \<le> unat v then None else hex_loop str m (len + 1) (push_bit 4 v + c))"
      using False n small ov by (auto simp add: c_def Let_def)
    show ?thesis
    proof (cases "2 ^ 60 \<le> unat v")
      case True
      then have "2 ^ 64 \<le> unat v * 16 + hex_val ch" by simp
      also have "\<dots> \<le> digits_val 16 hex_val (unat v * 16 + hex_val ch) (take m str)"
        by (rule digits_val_mono) simp
      finally show ?thesis unfolding step using True by (simp add: n)
    next
      case no: False
      have "unat (push_bit 4 v) = unat v * 16" using no by (simp add: push_bit_eq_mult unat_word_ariths)
      then have u: "unat (push_bit 4 v + c) = unat v * 16 + hex_val ch"
        using no c by (simp add: unat_word_ariths)
      have inv: "len + 1 \<le> 15 \<longrightarrow> unat (push_bit 4 v + c) < 16 ^ (len + 1)"
      proof
        assume "len + 1 \<le> 15"
        then have "unat v < 16 ^ len" using "2.prems" by simp
        then have "unat v + 1 \<le> 16 ^ len" by simp
        then have "(unat v + 1) * 16 \<le> 16 ^ len * 16" by (rule mult_right_mono) simp
        then show "unat (push_bit 4 v + c) < 16 ^ (len + 1)" unfolding u using c by simp
      qed
      have g: "\<not> (16 < len + 1 \<and> drop_bit 4 (NOT 0) < v)" using no ov by simp
      have "hex_loop str m (len + 1) (push_bit 4 v + c) =
          (if (\<forall>c\<in>set (take m str). isxdigit c) \<and> digits_val 16 hex_val (unat (push_bit 4 v + c)) (take m str) < 2 ^ 64
           then Some (of_nat (digits_val 16 hex_val (unat (push_bit 4 v + c)) (take m str))) else None)"
        using "2.IH" [OF _ _ c_def refl g inv] False n by simp
      then show ?thesis unfolding step u using no d by (simp add: n)
    qed
  qed
qed

text \<open>What the range checks accept: \<open>t\<close> is the part of the text that is looked at.\<close>

definition number_in_range :: "nat \<Rightarrow> (char \<Rightarrow> bool) \<Rightarrow> (char \<Rightarrow> nat) \<Rightarrow> string \<Rightarrow> u64 \<Rightarrow> u64 \<Rightarrow> bool" where
  "number_in_range b isd d t min_v max_v \<longleftrightarrow> t \<noteq> [] \<and> (\<forall>c\<in>set t. isd c) \<and>
    unat min_v \<le> digits_val b d 0 t \<and> digits_val b d 0 t \<le> unat max_v"

lemma range_check:
  fixes lo hi :: u64 and v :: nat
  shows "(case if P \<and> v < 2 ^ 64 then Some (of_nat v :: u64) else None of None \<Rightarrow> None
      | Some x \<Rightarrow> if x < lo \<or> hi < x then None else Some (f x)) =
    (if P \<and> unat lo \<le> v \<and> v \<le> unat hi then Some (f (of_nat v)) else None)"
proof (cases "v < 2 ^ 64")
  case True
  then have "unat (of_nat v :: u64) = v" by (simp add: unat_of_nat)
  then show ?thesis using True by (auto simp: word_less_nat_alt)
next
  case False
  then show ?thesis using unat_u64_less [of hi] by (simp del: unat_u64_less)
qed

lemma is_uint_n_range_eq:
  assumes "0 < size_b" "size_b \<le> 8"
  shows "is_uint_n_range str n True size_b lo hi =
    (if number_in_range 10 isdigit digit_val (take n str) lo hi
     then Some (take_bit (8 * size_b) (of_nat (dec_val (take n str)))) else None)"
  using assms
  unfolding is_uint_n_range_def uint_loop_exact range_check number_in_range_def by auto

lemma is_hex_n_range_eq:
  assumes "0 < size_b" "size_b \<le> 8"
  shows "is_hex_n_range str n True size_b lo hi =
    (if number_in_range 16 isxdigit hex_val (take n str) lo hi
     then Some (take_bit (8 * size_b) (of_nat (hexa_val (take n str)))) else None)"
proof -
  have "hex_loop str n 0 0 =
    (if (\<forall>c\<in>set (take n str). isxdigit c) \<and> hexa_val (take n str) < 2 ^ 64
     then Some (of_nat (hexa_val (take n str))) else None)"
    using hex_loop_exact [of 0 0 str n] by simp
  then show ?thesis
    using assms unfolding is_hex_n_range_def number_in_range_def by (simp only: range_check) auto
qed

section \<open>Numbers with a suffix\<close>

definition SEC_PER_MIN :: int where
  "SEC_PER_MIN = 60"

definition SEC_PER_HOUR :: int where
  "SEC_PER_HOUR = 3600"

definition SEC_PER_DAY :: int where
  "SEC_PER_DAY = 86400"

definition SEC_PER_WEEK :: int where
  "SEC_PER_WEEK = 7 * SEC_PER_DAY"

lemmas sec_per_defs = SEC_PER_MIN_def SEC_PER_HOUR_def SEC_PER_DAY_def SEC_PER_WEEK_def

definition ZBX_UNIT_SYMBOLS :: string where
  "ZBX_UNIT_SYMBOLS = ''KMGTsmhdw''"

definition suffix2factor :: "char \<Rightarrow> u64" where
  "suffix2factor c =
    (if c = CHR ''K'' then 1024 else if c = CHR ''M'' then 1048576 else if c = CHR ''G'' then 1073741824
     else if c = CHR ''T'' then 1099511627776 else if c = CHR ''s'' then 1 else if c = CHR ''m'' then 60
     else if c = CHR ''h'' then 3600 else if c = CHR ''d'' then 86400 else if c = CHR ''w'' then 604800 else 1)"

text \<open>
  \<open>str2uint64\<close> looks at the last character first, which is before the string when the string is
  empty. The product with the factor is taken modulo \<open>2 ^ 64\<close>.
\<close>

definition str2uint64 :: "string \<Rightarrow> string \<Rightarrow> u64 option outcome" where
  "str2uint64 str suffixes =
    (if str = [] then Inl OutOfBounds
     else
       let has_suffix = (strchr suffixes (last str) \<noteq> None);
           factor = (if has_suffix then suffix2factor (last str) else 1);
           sz = (if has_suffix then length str - 1 else length str)
       in Inr (map_option (\<lambda>val. val * factor) (is_uint_n_range str sz True 8 0 (NOT 0))))"

definition time_factor :: "char \<Rightarrow> int option" where
  "time_factor c =
    (if c = CHR ''s'' then Some 1 else if c = CHR ''m'' then Some SEC_PER_MIN
     else if c = CHR ''h'' then Some SEC_PER_HOUR else if c = CHR ''d'' then Some SEC_PER_DAY
     else if c = CHR ''w'' then Some SEC_PER_WEEK else None)"

definition INT_MAX_ACCEPTED :: int where
  "INT_MAX_ACCEPTED = 0x7fffffff"

definition ZBX_LENGTH_UNLIMITED :: int where
  "ZBX_LENGTH_UNLIMITED = 0x7fffffff"

text \<open>The digits: the rest of the text, the rest of the length and the value.\<close>

fun time_digits :: "string \<Rightarrow> int \<Rightarrow> int \<Rightarrow> (string \<times> int \<times> int) option" where
  "time_digits [] len val = Some ([], len, val)"
| "time_digits (ch # str) len val =
    (if 0 < len \<and> isdigit ch then
       let c = int (digit_val ch)
       in if (INT_MAX_ACCEPTED - c) div 10 < val then None else time_digits str (len - 1) (val * 10 + c)
     else Some (ch # str, len, val))"

definition is_time_suffix :: "string \<Rightarrow> int \<Rightarrow> int option" where
  "is_time_suffix str len =
    (if str = [] \<or> len \<le> 0 \<or> \<not> isdigit (cchar str 0) then None
     else
       case time_digits str len 0 of
         None \<Rightarrow> None
       | Some (rest, left, val) \<Rightarrow>
           (case (if rest \<noteq> [] \<and> 0 < left
                  then map_option (\<lambda>f. (f, tl rest, left - 1)) (time_factor (hd rest))
                  else Some (1, rest, left)) of
              None \<Rightarrow> None
            | Some (factor, rest, left) \<Rightarrow>
                if (len = ZBX_LENGTH_UNLIMITED \<and> rest \<noteq> []) \<or> (len \<noteq> ZBX_LENGTH_UNLIMITED \<and> left \<noteq> 0) then None
                else if INT_MAX_ACCEPTED div factor < val then None else Some (val * factor)))"

lemma int_div_less_iff: "0 < b \<Longrightarrow> m div b < v \<longleftrightarrow> m < v * b" for m :: int
proof -
  assume b: "0 < b"
  have "v \<le> m div b \<longleftrightarrow> v * b \<le> m"
  proof
    assume "v \<le> m div b"
    then have "v * b \<le> m div b * b" using b by simp
    also have "\<dots> \<le> m" using b by (metis div_mult_mod_eq le_add_same_cancel1 pos_mod_sign)
    finally show "v * b \<le> m" .
  next
    assume "v * b \<le> m"
    then have "v * b div b \<le> m div b" using b by (rule zdiv_mono1)
    then show "v \<le> m div b" using b by simp
  qed
  then show ?thesis by linarith
qed

lemma int_div_le_iff: "0 < b \<Longrightarrow> (m - c) div b < v \<longleftrightarrow> m < v * b + c" for m :: int
  by (simp add: int_div_less_iff algebra_simps)

lemma time_digits_eq:
  assumes "0 \<le> len" "0 \<le> v" "v \<le> INT_MAX_ACCEPTED"
  shows "time_digits s len v =
    (let ds = takeWhile isdigit (take (nat len) s); x = int (digits_val 10 digit_val (nat v) ds)
     in if x \<le> INT_MAX_ACCEPTED then Some (drop (length ds) s, len - int (length ds), x) else None)"
  using assms
proof (induction s arbitrary: len v)
  case Nil
  then show ?case by simp
next
  case (Cons ch s)
  show ?case
  proof (cases "0 < len \<and> isdigit ch")
    case False
    then have "takeWhile isdigit (take (nat len) (ch # s)) = []" by (cases "nat len") auto
    then show ?thesis using False Cons.prems by (subst time_digits.simps(2), subst if_not_P) simp_all
  next
    case True
    define m where "m = nat (len - 1)"
    have m: "nat len = Suc m" "len - 1 = int m" using True unfolding m_def by linarith+
    define c where "c = digit_val ch"
    have c: "c < 10" using digit_val_less True by (simp add: c_def)
    have ov: "(INT_MAX_ACCEPTED - int c) div 10 < v \<longleftrightarrow> INT_MAX_ACCEPTED < v * 10 + int c"
      by (rule int_div_le_iff) simp
    have nv: "nat v * 10 + c = nat (v * 10 + int c)" using Cons.prems by simp
    show ?thesis
    proof (cases "INT_MAX_ACCEPTED < v * 10 + int c")
      case big: True
      have "v * 10 + int c \<le> int (digits_val 10 digit_val (nat (v * 10 + int c)) t)" for t
        using digits_val_mono [of 10 "nat (v * 10 + int c)" digit_val t] Cons.prems by simp
      then have "\<not> int (digits_val 10 digit_val (nat (v * 10 + int c)) t) \<le> INT_MAX_ACCEPTED" for t
        using big by (meson leD less_le_trans)
      then show ?thesis using True big ov by (simp add: m nv c_def [symmetric] Let_def)
    next
      case ok: False
      then show ?thesis
        using True ov Cons.IH [of "len - 1" "v * 10 + int c"] Cons.prems
        by (simp add: m nv c_def [symmetric] Let_def)
    qed
  qed
qed

text \<open>A number of seconds with a unit: the part \<open>t\<close> of the text is digits and at most one unit.\<close>

definition time_text :: "string \<Rightarrow> int \<Rightarrow> bool" where
  "time_text t v \<longleftrightarrow> (\<exists>ds suf f. t = ds @ suf \<and> ds \<noteq> [] \<and> list_all isdigit ds \<and>
    (suf = [] \<and> f = 1 \<or> (\<exists>c. suf = [c] \<and> time_factor c = Some f)) \<and>
    v = int (dec_val ds) * f \<and> v \<le> INT_MAX_ACCEPTED)"

lemma time_factor_pos: "time_factor c = Some f \<Longrightarrow> 0 < f \<and> \<not> isdigit c"
  by (auto simp: time_factor_def sec_per_defs isdigit_def split: if_splits)

lemma takeWhile_append_stop: "list_all P xs \<Longrightarrow> ys = [] \<or> \<not> P (hd ys) \<Longrightarrow> takeWhile P (xs @ ys) = xs"
  by (cases ys) (auto simp: takeWhile_append list_all_iff)

text \<open>The decision after the digits, on the part of the text that is looked at.\<close>

lemma is_time_suffix_eq:
  fixes s :: string and len :: int
  assumes "s \<noteq> []" "0 < len" "int (length s) < ZBX_LENGTH_UNLIMITED"
  defines "t \<equiv> if len = ZBX_LENGTH_UNLIMITED then s else take (nat len) s"
    and "ds \<equiv> takeWhile isdigit (if len = ZBX_LENGTH_UNLIMITED then s else take (nat len) s)"
  assumes exact: "len = ZBX_LENGTH_UNLIMITED \<or> len \<le> int (length s)"
  shows "is_time_suffix s len =
    (if ds = [] \<or> INT_MAX_ACCEPTED < int (dec_val ds) then None
     else case drop (length ds) t of
        [] \<Rightarrow> Some (int (dec_val ds))
      | c # u \<Rightarrow>
          (case time_factor c of
             None \<Rightarrow> None
           | Some f \<Rightarrow> if u \<noteq> [] \<or> INT_MAX_ACCEPTED div f < int (dec_val ds) then None else Some (int (dec_val ds) * f)))"
proof -
  have t: "t = take (nat len) s" using assms(2,3) by (auto simp: t_def)
  have ds: "ds = takeWhile isdigit t" by (simp add: ds_def t_def)
  have lt: "int (length t) = (if len = ZBX_LENGTH_UNLIMITED then int (length s) else len)"
    using exact assms(2,3) by (auto simp: t_def)
  have d0: "ds = [] \<longleftrightarrow> \<not> isdigit (cchar s 0)"
    using assms(1,2) by (cases s; cases "nat len") (auto simp: ds t)
  have td: "time_digits s len 0 = (if int (dec_val ds) \<le> INT_MAX_ACCEPTED
      then Some (drop (length ds) s, len - int (length ds), int (dec_val ds)) else None)"
    using time_digits_eq [of len 0 s] assms(2) by (simp add: ds t Let_def INT_MAX_ACCEPTED_def)
  have ld: "length ds \<le> length t" by (simp add: ds length_takeWhile_le)
  have "nat len - length ds = nat (len - int (length ds))" by linarith
  then have dt: "drop (length ds) t = take (nat (len - int (length ds))) (drop (length ds) s)"
    by (simp add: t drop_take)
  show ?thesis
  proof (cases "ds = [] \<or> INT_MAX_ACCEPTED < int (dec_val ds)")
    case True
    then show ?thesis using d0 td unfolding is_time_suffix_def by auto
  next
    case False
    then have pre: "\<not> (s = [] \<or> len \<le> 0 \<or> \<not> isdigit (cchar s 0))" using d0 assms(1,2) by simp
    have td': "time_digits s len 0 = Some (drop (length ds) s, len - int (length ds), int (dec_val ds))"
      using td False by simp
    show ?thesis
    proof (cases "drop (length ds) t")
      case Nil
      then have l: "length ds = length t" using ld by simp
      have c: "\<not> (drop (length ds) s \<noteq> [] \<and> 0 < len - int (length ds))" using Nil dt by auto
      have e: "\<not> ((len = ZBX_LENGTH_UNLIMITED \<and> drop (length ds) s \<noteq> []) \<or>
          (len \<noteq> ZBX_LENGTH_UNLIMITED \<and> len - int (length ds) \<noteq> 0))"
        using l lt c by (auto split: if_splits)
      show ?thesis unfolding is_time_suffix_def td' if_not_P [OF pre] option.case prod.case if_not_P [OF c] if_not_P [OF e]
        using False Nil by simp
    next
      case (Cons c u)
      then obtain r where r: "drop (length ds) s = c # r" "0 < len - int (length ds)"
          "u = take (nat (len - int (length ds)) - 1) r"
        using dt by (cases "drop (length ds) s"; cases "nat (len - int (length ds))") auto
      have lu: "length t = length ds + 1 + length u" using Cons ld by (metis One_nat_def add.assoc
        add.commute add_diff_inverse_nat length_drop linorder_not_less list.size(4))
      have e: "((len = ZBX_LENGTH_UNLIMITED \<and> r \<noteq> []) \<or> (len \<noteq> ZBX_LENGTH_UNLIMITED \<and> len - int (length ds) - 1 \<noteq> 0)) \<longleftrightarrow> u \<noteq> []"
      proof (cases "len = ZBX_LENGTH_UNLIMITED")
        case True
        then have "drop (length ds) t = drop (length ds) s" by (simp add: t_def)
        then show ?thesis using True Cons r(1) by simp
      next
        case False
        then show ?thesis using lt lu by auto
      qed
      show ?thesis unfolding is_time_suffix_def td' using pre False Cons r(1,2) e
        by (cases "time_factor c") simp_all
    qed
  qed
qed

lemma time_text_takeWhile:
  fixes t :: string
  defines "ds \<equiv> takeWhile isdigit t"
  shows "time_text t v \<longleftrightarrow> ds \<noteq> [] \<and> v \<le> INT_MAX_ACCEPTED \<and>
    (case drop (length ds) t of
       [] \<Rightarrow> v = int (dec_val ds)
     | c # u \<Rightarrow> u = [] \<and> (\<exists>f. time_factor c = Some f \<and> v = int (dec_val ds) * f))" (is "_ \<longleftrightarrow> ?r")
proof
  assume "time_text t v"
  then obtain es suf f where es: "t = es @ suf" "es \<noteq> []" "list_all isdigit es"
      "suf = [] \<and> f = 1 \<or> (\<exists>c. suf = [c] \<and> time_factor c = Some f)"
      "v = int (dec_val es) * f" "v \<le> INT_MAX_ACCEPTED"
    unfolding time_text_def by blast
  have "suf = [] \<or> \<not> isdigit (hd suf)" using es(4) time_factor_pos by auto
  then have "ds = es" unfolding ds_def es(1) by (rule takeWhile_append_stop [OF es(3)])
  then show ?r using es by auto
next
  assume r: ?r
  have d: "list_all isdigit ds" by (auto simp: ds_def list_all_iff dest: set_takeWhileD)
  have t: "t = ds @ drop (length ds) t" unfolding ds_def by (metis dropWhile_eq_drop takeWhile_dropWhile_id)
  show "time_text t v"
  proof (cases "drop (length ds) t")
    case Nil
    then show ?thesis unfolding time_text_def using r d t by (intro exI [of _ ds] exI [of _ "[]"] exI [of _ 1]) auto
  next
    case (Cons c u)
    then obtain f where "u = []" "time_factor c = Some f" "v = int (dec_val ds) * f" using r by auto
    then show ?thesis unfolding time_text_def using r d t Cons
      by (intro exI [of _ ds] exI [of _ "[c]"] exI [of _ f]) auto
  qed
qed

text \<open>C33. \<open>is_time_suffix\<close> accepts exactly a run of digits with at most one of the units s, m, h, d, w after it,
  whose value in seconds fits a 31 bit integer, and stores that value; no intermediate result overflows.
  With a length it looks at that many characters, which must all be part of the number.\<close>

theorem is_time_suffix_exact:
  assumes "0 < len" "int (length s) < ZBX_LENGTH_UNLIMITED" "len = ZBX_LENGTH_UNLIMITED \<or> len \<le> int (length s)"
  shows "is_time_suffix s len = Some v \<longleftrightarrow> time_text (if len = ZBX_LENGTH_UNLIMITED then s else take (nat len) s) v"
proof (cases "s = []")
  case True
  then show ?thesis by (simp add: is_time_suffix_def time_text_def)
next
  case False
  define t where "t = (if len = ZBX_LENGTH_UNLIMITED then s else take (nat len) s)"
  define ds where "ds = takeWhile isdigit t"
  note eq = is_time_suffix_eq [OF False assms, folded t_def, folded ds_def]
  have f: "INT_MAX_ACCEPTED div f < x \<longleftrightarrow> \<not> x * f \<le> INT_MAX_ACCEPTED" if "time_factor c = Some f" for c f x
    using int_div_less_iff [of f INT_MAX_ACCEPTED x] time_factor_pos [OF that] by linarith
  have ge: "int (dec_val ds) \<le> int (dec_val ds) * f" if "time_factor c = Some f" for c f
    using time_factor_pos [OF that] by (simp add: mult_le_cancel_left1)
  show ?thesis
    unfolding t_def [symmetric] time_text_takeWhile [of t, folded ds_def] eq
    by (cases "drop (length ds) t") (auto simp: f split: option.split dest: ge intro: order_trans)
qed

lemma is_time_suffix_exact_witness:
  "is_time_suffix ''90m'' ZBX_LENGTH_UNLIMITED = Some 5400 \<longleftrightarrow> time_text ''90m'' 5400"
  using is_time_suffix_exact [of ZBX_LENGTH_UNLIMITED "''90m''" 5400] by (simp add: ZBX_LENGTH_UNLIMITED_def)

text \<open>The decimal range check accepts exactly the non-empty runs of digits among the first \<open>n\<close> characters
  whose value, read without a bound, lies in the range; what it stores is that value, cut to the width of the buffer.\<close>

theorem is_uint_n_range_exact:
  assumes "0 < size_b" "size_b \<le> 8"
  shows "is_uint_n_range str n True size_b lo hi = Some v \<longleftrightarrow>
    (let t = take n str in t \<noteq> [] \<and> (\<forall>c\<in>set t. isdigit c) \<and> unat lo \<le> dec_val t \<and> dec_val t \<le> unat hi \<and>
       unat v = dec_val t mod 2 ^ (8 * size_b))"
proof -
  have "unat (take_bit (8 * size_b) (of_nat x :: u64)) = x mod 2 ^ (8 * size_b)" for x
  proof -
    have "unat (take_bit (8 * size_b) (of_nat x :: u64)) = take_bit (8 * size_b) (unat (of_nat x :: u64))"
      by (rule unsigned_take_bit_eq)
    also have "\<dots> = x mod 2 ^ 64 mod 2 ^ (8 * size_b)" by (simp add: take_bit_eq_mod unat_of_nat)
    also have "\<dots> = x mod 2 ^ (8 * size_b)"
      by (rule mod_mod_cancel [OF le_imp_power_dvd]) (use assms(2) in simp)
    finally show ?thesis .
  qed
  then show ?thesis
    unfolding is_uint_n_range_eq [OF assms] number_in_range_def Let_def by (auto simp: word_unat_eq_iff)
qed

lemma is_uint_n_range_exact_witness:
  "is_uint_n_range ''0065535x'' 7 True 2 0 0xFFFF = Some 65535"
  using is_uint_n_range_exact [of 2 "''0065535x''" 7 0 "0xFFFF" 65535]
  by (simp add: Let_def isdigit_def digit_val_def)

section \<open>Decimal fractions and words of digits\<close>

text \<open>
  The loop of \<open>zbx_number_parse\<close>: the length of the number, or \<open>None\<close> for \<open>FAIL\<close>. \<open>number_end\<close> is the check
  at its end, with the digits and points counted in front of an exponent.
\<close>

definition number_end :: "nat \<Rightarrow> nat \<Rightarrow> nat \<Rightarrow> nat option" where
  "number_end digits dots len = (if digits < 1 \<or> 1 < dots then None else Some len)"

definition number_exponent :: "string \<Rightarrow> nat option" where
  "number_exponent s =
    (let sg = (if cchar s 1 = CHR ''-'' \<or> cchar s 1 = CHR ''+'' then 2 else 1);
         len = sg + length (takeWhile isdigit (drop sg s))
     in if \<not> isdigit (cchar s sg) then None
        else if cchar s len = CHR ''.'' \<or> cchar s len = CHR ''e'' \<or> cchar s len = CHR ''E'' then None
        else Some len)"

fun number_loop :: "string \<Rightarrow> nat \<Rightarrow> nat \<Rightarrow> nat option" where
  "number_loop [] digits dots = number_end digits dots 0"
| "number_loop (c # s) digits dots =
    (if isdigit c then map_option Suc (number_loop s (digits + 1) dots)
     else if c = CHR ''.'' then map_option Suc (number_loop s digits (dots + 1))
     else if c = CHR ''e'' \<or> c = CHR ''E'' then
       (case number_exponent (c # s) of None \<Rightarrow> None | Some len \<Rightarrow> number_end digits dots len)
     else number_end digits dots 0)"

definition zbx_number_parse :: "string \<Rightarrow> nat option" where
  "zbx_number_parse number = number_loop number 0 0"

definition isalpha :: "char \<Rightarrow> bool" where
  "isalpha c \<longleftrightarrow> (97 \<le> (of_char c :: nat) \<and> (of_char c :: nat) \<le> 122) \<or> (65 \<le> (of_char c :: nat) \<and> (of_char c :: nat) \<le> 90)"

definition zbx_suffixed_number_parse :: "string \<Rightarrow> nat option" where
  "zbx_suffixed_number_parse number =
    (case zbx_number_parse number of
       None \<Rightarrow> None
     | Some len \<Rightarrow> Some (if isalpha (cchar number len) \<and> strchr ZBX_UNIT_SYMBOLS (cchar number len) \<noteq> None then len + 1 else len))"

definition is_double_suffix :: "string \<Rightarrow> bool \<Rightarrow> ret" where
  "is_double_suffix str suffix_flag =
    (let str = (if cchar str 0 = CHR ''-'' then drop 1 str else str)
     in case zbx_number_parse str of
          None \<Rightarrow> FAIL
        | Some len \<Rightarrow>
            let str = drop len str;
                str = (if str \<noteq> [] \<and> suffix_flag \<and> strchr ZBX_UNIT_SYMBOLS (cchar str 0) \<noteq> None then drop 1 str else str)
            in if str = [] then SUCCEED else FAIL)"

definition is_double_valid_syntax :: "string \<Rightarrow> ret" where
  "is_double_valid_syntax str =
    (let str = (if cchar str 0 = CHR ''-'' \<or> cchar str 0 = CHR ''+'' then drop 1 str else str)
     in case zbx_number_parse str of
          None \<Rightarrow> FAIL
        | Some len \<Rightarrow> if drop len str = [] then SUCCEED else FAIL)"

text \<open>Words of octal and of hexadecimal digits, with spaces around them.\<close>

definition is_word_of :: "(char \<Rightarrow> bool) \<Rightarrow> string \<Rightarrow> ret" where
  "is_word_of isd str =
    (let str = dropWhile (\<lambda>c. c = CHR '' '') str;
         res = (if takeWhile isd str \<noteq> [] then SUCCEED else FAIL);
         str = dropWhile (\<lambda>c. c = CHR '' '') (dropWhile isd str)
     in if str \<noteq> [] then FAIL else res)"

definition isodigit :: "char \<Rightarrow> bool" where
  "isodigit c \<longleftrightarrow> 48 \<le> (of_char c :: nat) \<and> (of_char c :: nat) \<le> 55"

definition is_uoct :: "string \<Rightarrow> ret" where
  "is_uoct str = is_word_of isodigit str"

definition is_uhex :: "string \<Rightarrow> ret" where
  "is_uhex str = is_word_of isxdigit str"

text \<open>Pairs of hexadecimal digits, with one space or line feed between them.\<close>

fun hex_pairs :: "string \<Rightarrow> ret" where
  "hex_pairs (a # b # c # str) =
    (if \<not> isxdigit a \<or> \<not> isxdigit b then FAIL
     else if c \<noteq> CHR '' '' \<and> c \<noteq> CHR 0x0A then FAIL
     else if str = [] then SUCCEED else hex_pairs str)"
| "hex_pairs [a, b] = (if isxdigit a \<and> isxdigit b then SUCCEED else FAIL)"
| "hex_pairs [a] = FAIL"
| "hex_pairs [] = FAIL"

definition is_hex_string :: "string \<Rightarrow> ret" where
  "is_hex_string str = (if str = [] then FAIL else hex_pairs str)"

section \<open>Characters of names\<close>

definition isalnum :: "char \<Rightarrow> bool" where
  "isalnum c \<longleftrightarrow> isalpha c \<or> isdigit c"

definition is_hostname_char :: "char \<Rightarrow> ret" where
  "is_hostname_char c =
    (if isalnum c then SUCCEED
     else if c = CHR ''.'' \<or> c = CHR '' '' \<or> c = CHR ''_'' \<or> c = CHR ''-'' then SUCCEED else FAIL)"

definition is_key_char :: "char \<Rightarrow> ret" where
  "is_key_char c =
    (if isalnum c then SUCCEED else if c = CHR ''.'' \<or> c = CHR ''_'' \<or> c = CHR ''-'' then SUCCEED else FAIL)"

definition islower :: "char \<Rightarrow> bool" where
  "islower c \<longleftrightarrow> 97 \<le> (of_char c :: nat) \<and> (of_char c :: nat) \<le> 122"

definition isupper :: "char \<Rightarrow> bool" where
  "isupper c \<longleftrightarrow> 65 \<le> (of_char c :: nat) \<and> (of_char c :: nat) \<le> 90"

definition is_function_char :: "char \<Rightarrow> ret" where
  "is_function_char c = (if islower c then SUCCEED else FAIL)"

definition is_macro_char :: "char \<Rightarrow> ret" where
  "is_macro_char c =
    (if isupper c then SUCCEED else if c = CHR ''.'' \<or> c = CHR ''_'' then SUCCEED
     else if isdigit c then SUCCEED else FAIL)"

text \<open>The loop of \<open>is_discovery_macro\<close> ends at the first closing brace after at least one character.\<close>

fun discovery_macro_loop :: "string \<Rightarrow> ret" where
  "discovery_macro_loop [] = FAIL"
| "discovery_macro_loop (c # s) =
    (if is_macro_char c = FAIL then FAIL
     else if cchar s 0 = CHR ''}'' then if cchar s 1 \<noteq> NUL then FAIL else SUCCEED
     else discovery_macro_loop s)"

definition is_discovery_macro :: "string \<Rightarrow> ret" where
  "is_discovery_macro str =
    (if cchar str 0 \<noteq> CHR ''{'' \<or> cchar str 1 \<noteq> CHR ''#'' then FAIL else discovery_macro_loop (drop 2 str))"

definition make_hostname :: "string \<Rightarrow> string" where
  "make_hostname host = map (\<lambda>c. if is_hostname_char c = FAIL then CHR ''_'' else c) host"

text \<open>The loop of \<open>zbx_validate_hostname\<close>, with the number of characters left and the component flag.\<close>

fun hostname_loop :: "string \<Rightarrow> nat \<Rightarrow> bool \<Rightarrow> ret" where
  "hostname_loop [] len component = SUCCEED"
| "hostname_loop (c # s) len component =
    (let len = len - 1
     in if len = 0 then FAIL
        else if isalnum c \<or> c = CHR ''-'' \<or> c = CHR ''_'' then hostname_loop s len True
        else if c = CHR ''.'' \<and> component then hostname_loop s len False
        else FAIL)"

definition MAX_ZBX_DNSNAME_LEN :: nat where
  "MAX_ZBX_DNSNAME_LEN = 255"

definition zbx_validate_hostname :: "string \<Rightarrow> ret" where
  "zbx_validate_hostname hostname =
    (if \<not> isalnum (cchar hostname 0) then FAIL else hostname_loop (drop 1 hostname) MAX_ZBX_DNSNAME_LEN True)"

section \<open>The grammar of decimal fractions\<close>

definition mantissa :: "string \<Rightarrow> bool" where
  "mantissa m \<longleftrightarrow> list_all (\<lambda>c. isdigit c \<or> c = CHR ''.'') m \<and> (\<exists>c\<in>set m. isdigit c) \<and> count_list m (CHR ''.'') \<le> 1"

definition decimal_exponent :: "string \<Rightarrow> bool" where
  "decimal_exponent ex \<longleftrightarrow> (\<exists>e sg es. ex = e # sg @ es \<and> (e = CHR ''e'' \<or> e = CHR ''E'') \<and>
    (sg = [] \<or> sg = ''-'' \<or> sg = ''+'') \<and> es \<noteq> [] \<and> list_all isdigit es)"

lemma number_exponent_length: "number_exponent s = Some len \<Longrightarrow> len \<le> length s"
proof -
  assume a: "number_exponent s = Some len"
  define sg :: nat where "sg = (if cchar s 1 = CHR ''-'' \<or> cchar s 1 = CHR ''+'' then 2 else 1)"
  have d: "isdigit (cchar s sg)" and l: "len = sg + length (takeWhile isdigit (drop sg s))"
    using a unfolding number_exponent_def Let_def sg_def [symmetric] by (simp_all split: if_splits)
  have "sg < length s" using d by (auto simp: cchar_def split: if_splits)
  then show "len \<le> length s" using l length_takeWhile_le [of isdigit "drop sg s"] by simp
qed

lemma number_exponent_full: "number_exponent s = Some (length s) \<longleftrightarrow>
    (\<exists>sg es. drop 1 s = sg @ es \<and> (sg = [] \<or> sg = ''-'' \<or> sg = ''+'') \<and> es \<noteq> [] \<and> list_all isdigit es)"
proof
  assume a: "number_exponent s = Some (length s)"
  define sg :: nat where "sg = (if cchar s 1 = CHR ''-'' \<or> cchar s 1 = CHR ''+'' then 2 else 1)"
  have d: "isdigit (cchar s sg)" and l: "length s = sg + length (takeWhile isdigit (drop sg s))"
    using a unfolding number_exponent_def Let_def sg_def [symmetric] by (simp_all split: if_splits)
  have sl: "sg < length s" using d by (auto simp: cchar_def split: if_splits)
  then have "length (takeWhile isdigit (drop sg s)) = length (drop sg s)" using l by simp
  then have tw: "takeWhile isdigit (drop sg s) = drop sg s"
    by (metis append_Nil2 append_eq_conv_conj length_takeWhile_le takeWhile_eq_take take_all_iff)
  have all: "list_all isdigit (drop sg s)" using tw by (metis list_all_iff set_takeWhileD)
  have c: "drop 1 s = (if sg = 2 then [cchar s 1] else []) @ drop sg s"
  proof (cases "sg = 2")
    case True
    then show ?thesis using sl by (cases s; cases "tl s") (auto simp: cchar_def)
  next
    case False
    then show ?thesis by (simp add: sg_def split: if_splits)
  qed
  have "sg = 2 \<Longrightarrow> cchar s 1 = CHR ''-'' \<or> cchar s 1 = CHR ''+''" by (auto simp: sg_def split: if_splits)
  then show "\<exists>sg es. drop 1 s = sg @ es \<and> (sg = [] \<or> sg = ''-'' \<or> sg = ''+'') \<and> es \<noteq> [] \<and> list_all isdigit es"
    using c all sl by (intro exI [of _ "if sg = 2 then [cchar s 1] else []"] exI [of _ "drop sg s"]) auto
next
  assume "\<exists>sg es. drop 1 s = sg @ es \<and> (sg = [] \<or> sg = ''-'' \<or> sg = ''+'') \<and> es \<noteq> [] \<and> list_all isdigit es"
  then obtain sg es where s: "drop 1 s = sg @ es" "sg = [] \<or> sg = ''-'' \<or> sg = ''+''" "es \<noteq> []" "list_all isdigit es" by blast
  obtain e t where et: "s = e # t" using s(1,3) by (cases s) auto
  obtain d es' where des: "es = d # es'" "isdigit d" using s(3,4) by (cases es) auto
  have nd: "d \<noteq> CHR ''-''" "d \<noteq> CHR ''+''" using des(2) by (auto simp: isdigit_def)
  have tw: "takeWhile isdigit es' = es'" using s(4) des by (simp add: list_all_iff takeWhile_eq_all_conv)
  have tw': "takeWhile isdigit es = es" using tw des by simp
  define k :: nat where "k = (if cchar s 1 = CHR ''-'' \<or> cchar s 1 = CHR ''+'' then 2 else 1)"
  have s2: "s = e # sg @ es" using et s(1) by simp
  have k: "k = 1 + length sg" using s(2) nd des(1) by (auto simp: k_def s2)
  have dk: "drop k s = es" and ck: "cchar s k = d" using k s2 des(1) by (auto simp: cchar_def nth_append)
  have "cchar s (k + length es) = NUL" "k + length es = length s" using k s2 by (simp_all add: cchar_def)
  then show "number_exponent s = Some (length s)"
    unfolding number_exponent_def Let_def k_def [symmetric] dk tw' ck using des(2) by simp
qed

lemma number_loop_full:
  "number_loop s digits dots = Some (length s) \<longleftrightarrow>
    (\<exists>m ex. s = m @ ex \<and> list_all (\<lambda>c. isdigit c \<or> c = CHR ''.'') m \<and> (ex = [] \<or> decimal_exponent ex) \<and>
      1 \<le> digits + length (filter isdigit m) \<and> dots + count_list m (CHR ''.'') \<le> 1)"
proof (induction s digits dots rule: number_loop.induct)
  case (1 digits dots)
  have "\<not> decimal_exponent []" by (simp add: decimal_exponent_def)
  then show ?case by (auto simp: number_end_def)
next
  case (2 c s digits dots)
  let ?Q = "\<lambda>s digits dots. \<exists>m ex. s = m @ ex \<and> list_all (\<lambda>c. isdigit c \<or> c = CHR ''.'') m \<and> (ex = [] \<or> decimal_exponent ex) \<and>
      1 \<le> digits + length (filter isdigit m) \<and> dots + count_list m (CHR ''.'') \<le> 1"
  have ne: "decimal_exponent (c # s) \<Longrightarrow> c = CHR ''e'' \<or> c = CHR ''E''" by (auto simp: decimal_exponent_def)
  have sp: "?Q (c # s) digits dots \<longleftrightarrow> (decimal_exponent (c # s) \<and> 1 \<le> digits \<and> dots \<le> 1) \<or>
      ((isdigit c \<or> c = CHR ''.'') \<and> ?Q s (digits + (if isdigit c then 1 else 0)) (dots + (if c = CHR ''.'' then 1 else 0)))"
    (is "_ \<longleftrightarrow> ?A \<or> ?B")
  proof
    assume "?Q (c # s) digits dots"
    then obtain m ex where m: "c # s = m @ ex" "list_all (\<lambda>c. isdigit c \<or> c = CHR ''.'') m" "ex = [] \<or> decimal_exponent ex"
      "1 \<le> digits + length (filter isdigit m)" "dots + count_list m (CHR ''.'') \<le> 1" by blast
    show "?A \<or> ?B"
    proof (cases m)
      case Nil
      then show ?thesis using m by auto
    next
      case (Cons d m')
      then have "?B" using m by (intro conjI exI [of _ m'] exI [of _ ex]) auto
      then show ?thesis ..
    qed
  next
    assume "?A \<or> ?B"
    then show "?Q (c # s) digits dots"
    proof
      assume ?A
      then show ?thesis by (intro exI [of _ "[]"] exI [of _ "c # s"]) auto
    next
      assume ?B
      then obtain m ex where "s = m @ ex" "list_all (\<lambda>c. isdigit c \<or> c = CHR ''.'') m" "ex = [] \<or> decimal_exponent ex"
        "1 \<le> digits + (if isdigit c then 1 else 0) + length (filter isdigit m)"
        "dots + (if c = CHR ''.'' then 1 else 0) + count_list m (CHR ''.'') \<le> 1" "isdigit c \<or> c = CHR ''.''" by blast
      then show ?thesis by (intro exI [of _ "c # m"] exI [of _ ex]) (auto split: if_splits)
    qed
  qed
  have dp: "\<not> isdigit (CHR ''.'')" "\<not> isdigit (CHR ''e'')" "\<not> isdigit (CHR ''E'')" by (simp_all add: isdigit_def)
  consider (dig) "isdigit c" | (pt) "c = CHR ''.''" | (ex) "c = CHR ''e'' \<or> c = CHR ''E''"
    | (other) "\<not> isdigit c" "c \<noteq> CHR ''.''" "c \<noteq> CHR ''e''" "c \<noteq> CHR ''E''" by blast
  then show ?case
  proof cases
    case dig
    then have "c \<noteq> CHR ''.''" "\<not> decimal_exponent (c # s)" using dp ne by auto
    then show ?thesis unfolding sp using "2.IH"(1) [OF dig] dig by simp
  next
    case pt
    then have "\<not> decimal_exponent (c # s)" using ne by auto
    then show ?thesis unfolding sp using "2.IH"(2) pt dp by simp
  next
    case ex
    have e: "decimal_exponent (c # s) \<longleftrightarrow> number_exponent (c # s) = Some (length (c # s))"
      unfolding number_exponent_full decimal_exponent_def using ex by auto
    have "(case number_exponent (c # s) of None \<Rightarrow> None | Some len \<Rightarrow> number_end digits dots len) = Some (length (c # s)) \<longleftrightarrow>
        number_exponent (c # s) = Some (length (c # s)) \<and> 1 \<le> digits \<and> dots \<le> 1"
      by (auto simp: number_end_def split: option.split)
    then show ?thesis unfolding sp e using ex dp by auto
  next
    case other
    then have "\<not> decimal_exponent (c # s)" using ne by auto
    then show ?thesis unfolding sp using other by (simp add: number_end_def)
  qed
qed

lemma mantissa_iff:
  "mantissa m \<longleftrightarrow> list_all (\<lambda>c. isdigit c \<or> c = CHR ''.'') m \<and> 1 \<le> length (filter isdigit m) \<and> count_list m (CHR ''.'') \<le> 1"
  unfolding mantissa_def by (auto simp: Suc_le_eq filter_empty_conv)

lemma number_loop_length: "number_loop s digits dots = Some len \<Longrightarrow> len \<le> length s"
proof (induction s digits dots arbitrary: len rule: number_loop.induct)
  case (2 c s digits dots)
  then show ?case
    by (auto simp: number_end_def dest: number_exponent_length split: if_splits option.splits)
qed (simp add: number_end_def split: if_splits)

text \<open>The syntax check in front of \<open>strtod\<close> accepts exactly an optional sign, digits with at most one point
  and at least one digit, and an optional decimal exponent with at least one digit.\<close>

theorem is_double_syntax_exact:
  "is_double_valid_syntax s = SUCCEED \<longleftrightarrow>
    (\<exists>sg m ex. s = sg @ m @ ex \<and> (sg = [] \<or> sg = ''-'' \<or> sg = ''+'') \<and> mantissa m \<and> (ex = [] \<or> decimal_exponent ex))"
proof -
  define t where "t = (if cchar s 0 = CHR ''-'' \<or> cchar s 0 = CHR ''+'' then drop 1 s else s)"
  have "is_double_valid_syntax s = SUCCEED \<longleftrightarrow> zbx_number_parse t = Some (length t)"
    unfolding is_double_valid_syntax_def Let_def t_def [symmetric]
    using number_loop_length [of t 0 0] by (auto simp: zbx_number_parse_def split: option.split)
  also have "\<dots> \<longleftrightarrow> (\<exists>m ex. t = m @ ex \<and> mantissa m \<and> (ex = [] \<or> decimal_exponent ex))"
    unfolding zbx_number_parse_def number_loop_full mantissa_iff by auto
  also have "\<dots> \<longleftrightarrow> (\<exists>sg m ex. s = sg @ m @ ex \<and> (sg = [] \<or> sg = ''-'' \<or> sg = ''+'') \<and> mantissa m \<and> (ex = [] \<or> decimal_exponent ex))"
    (is "?l \<longleftrightarrow> ?r")
  proof
    assume ?l
    then obtain m ex where m: "t = m @ ex" "mantissa m" "ex = [] \<or> decimal_exponent ex" by blast
    have "s = (if cchar s 0 = CHR ''-'' \<or> cchar s 0 = CHR ''+'' then [cchar s 0] else []) @ t"
      by (cases s) (auto simp: t_def)
    then show ?r using m
      by (intro exI [of _ "if cchar s 0 = CHR ''-'' \<or> cchar s 0 = CHR ''+'' then [cchar s 0] else []"] exI [of _ m] exI [of _ ex]) auto
  next
    assume ?r
    then obtain sg m ex where m: "s = sg @ m @ ex" "sg = [] \<or> sg = ''-'' \<or> sg = ''+''" "mantissa m" "ex = [] \<or> decimal_exponent ex"
      by blast
    obtain c m' where cm: "m = c # m'" "isdigit c \<or> c = CHR ''.''"
      using m(3) by (cases m) (simp_all add: mantissa_def)
    have c: "m = c # m'" "c \<noteq> CHR ''-''" "c \<noteq> CHR ''+''" using cm by (auto simp: isdigit_def)
    have "t = m @ ex" using m(1,2) c by (auto simp: t_def)
    then show ?l using m by blast
  qed
  finally show ?thesis .
qed

end
