(* ===== verification/IpRange.thy ===== *)
theory IpRange
  imports NumParse
begin

unbundle bit_operations_syntax

text \<open>
  IP address ranges (\<open>src/libs/zbxcommon/iprange.c\<close>): parsing of IPv4 and IPv6 ranges with group
  ranges or a network mask, and the enumeration, counting and membership of their addresses.
  Pointers into the text are positions; a read or a write outside of the text or of the eight
  groups is the fault \<open>OutOfBounds\<close>.
\<close>

section \<open>State\<close>

record zbx_range =
  r_from :: int
  r_to :: int

datatype iprange_type = ZBX_IPRANGE_V4 | ZBX_IPRANGE_V6

record zbx_iprange =
  ip_range :: "zbx_range list"
  ip_type :: iprange_type
  ip_mask :: bool

definition ZBX_IPRANGE_GROUPS_V4 :: nat where
  "ZBX_IPRANGE_GROUPS_V4 = 4"

definition ZBX_IPRANGE_GROUPS_V6 :: nat where
  "ZBX_IPRANGE_GROUPS_V6 = 8"

definition iprange_groups :: "zbx_iprange \<Rightarrow> nat" where
  "iprange_groups r = (if ip_type r = ZBX_IPRANGE_V4 then ZBX_IPRANGE_GROUPS_V4 else ZBX_IPRANGE_GROUPS_V6)"

lemmas iprange_group_defs = ZBX_IPRANGE_GROUPS_V4_def ZBX_IPRANGE_GROUPS_V6_def iprange_groups_def

section \<open>Parsing\<close>

definition iprange_is_whitespace_character :: "char \<Rightarrow> bool" where
  "iprange_is_whitespace_character c \<longleftrightarrow> c = CHR '' '' \<or> c = CHR 0x0D \<or> c = CHR 0x0A \<or> c = CHR 0x09"

definition iprange_address_length :: "string \<Rightarrow> nat" where
  "iprange_address_length address = length (dropWhile iprange_is_whitespace_character (rev address))"

text \<open>One group: \<open>mask_bits\<close> of its low bits become free.\<close>

definition mask_group :: "nat \<Rightarrow> zbx_range \<Rightarrow> zbx_range" where
  "mask_group mask_bits r =
    (let mask_empty = push_bit mask_bits (0xffffffff :: u32);
         mask_fill = drop_bit (32 - mask_bits) (0xffffffff :: u32)
     in \<lparr>r_from = sint ((word_of_int (r_from r) :: u32) AND mask_empty),
         r_to = sint ((word_of_int (r_to r) :: u32) OR mask_fill)\<rparr>)"

fun apply_mask_loop :: "nat \<Rightarrow> nat \<Rightarrow> nat \<Rightarrow> zbx_range list \<Rightarrow> zbx_range list" where
  "apply_mask_loop group_bits 0 bits rs = rs"
| "apply_mask_loop group_bits (Suc i) bits rs =
    (if 0 < bits then
       apply_mask_loop group_bits i (bits - group_bits) (rs[i := mask_group (min bits group_bits) (rs ! i)])
     else rs)"

definition iprange_apply_mask :: "zbx_iprange \<Rightarrow> nat \<Rightarrow> zbx_iprange" where
  "iprange_apply_mask r bits =
    (case (case ip_type r of ZBX_IPRANGE_V4 \<Rightarrow> (4, 8) | ZBX_IPRANGE_V6 \<Rightarrow> (8, 16)) of
       (groups, group_bits) \<Rightarrow>
         r\<lparr>ip_range := apply_mask_loop group_bits groups (groups * group_bits - bits) (ip_range r)\<rparr>)"

text \<open>\<open>strchr (s + a, c)\<close>, and the two number parsers on \<open>n\<close> characters from a position.\<close>

definition find_from :: "string \<Rightarrow> nat \<Rightarrow> char \<Rightarrow> nat option" where
  "find_from s a c = map_option (\<lambda>i. a + i) (strchr (drop a s) c)"

definition dec_at :: "string \<Rightarrow> nat \<Rightarrow> nat \<Rightarrow> u64 \<Rightarrow> int option" where
  "dec_at s a n mx = map_option uint (is_uint_n_range (drop a s) n True 4 0 mx)"

definition hex_at :: "string \<Rightarrow> nat \<Rightarrow> nat \<Rightarrow> u64 \<Rightarrow> int option" where
  "hex_at s a n mx = map_option uint (is_hex_n_range (drop a s) n True 4 0 mx)"

text \<open>
  The part of the two loops that reads one group, from \<open>address\<close> to the separator at \<open>ptr\<close>.
\<close>

definition iprange_group :: "(nat \<Rightarrow> nat \<Rightarrow> int option) \<Rightarrow> string \<Rightarrow> bool \<Rightarrow> nat \<Rightarrow> nat \<Rightarrow> zbx_range option" where
  "iprange_group number s masked address ptr =
    (let dash = find_from s address (CHR ''-'')
     in if dash \<noteq> None \<and> masked then None
        else
          let dash = (case dash of None \<Rightarrow> None | Some d \<Rightarrow> if ptr < d then None else Some d);
              len = (case dash of None \<Rightarrow> ptr | Some d \<Rightarrow> d) - address
          in case number address len of
               None \<Rightarrow> None
             | Some from \<Rightarrow>
                 (case dash of
                    None \<Rightarrow> Some \<lparr>r_from = from, r_to = from\<rparr>
                  | Some d \<Rightarrow>
                      (case number (d + 1) (ptr - (d + 1)) of
                         None \<Rightarrow> None
                       | Some to \<Rightarrow> if to < from then None else Some \<lparr>r_from = from, r_to = to\<rparr>)))"

function iprangev4_loop :: "string \<Rightarrow> nat \<Rightarrow> bool \<Rightarrow> nat \<Rightarrow> nat \<Rightarrow> nat \<Rightarrow> zbx_range list \<Rightarrow> (nat \<times> zbx_range list) option" where
  "iprangev4_loop s e masked address ptr index rs =
    (if ptr < e \<and> index < ZBX_IPRANGE_GROUPS_V4 then
       let ptr = (case find_from s address (CHR ''.'') of None \<Rightarrow> e | Some p \<Rightarrow> p)
       in case iprange_group (\<lambda>a n. dec_at s a n 255) s masked address ptr of
            None \<Rightarrow> None
          | Some r \<Rightarrow> iprangev4_loop s e masked (ptr + 1) ptr (index + 1) (rs[index := r])
     else Some (index, rs))"
  by pat_completeness auto
termination
  by (relation "measure (\<lambda>(s, e, masked, address, ptr, index, rs). ZBX_IPRANGE_GROUPS_V4 - index)") auto

declare iprangev4_loop.simps [simp del]

text \<open>The mask behind a slash: where the address ends and the number of bits, or \<open>None\<close> for \<open>FAIL\<close>.\<close>

definition iprange_end :: "string \<Rightarrow> u64 \<Rightarrow> (nat \<times> nat option) option" where
  "iprange_end address max_bits =
    (let len = iprange_address_length address
     in case strchr address (CHR ''/'') of
          None \<Rightarrow> Some (len, None)
        | Some e \<Rightarrow> map_option (\<lambda>bits. (e, Some (nat bits))) (dec_at address (e + 1) (len - (e + 1)) max_bits))"

definition iprangev4_parse :: "zbx_range list \<Rightarrow> string \<Rightarrow> zbx_iprange option" where
  "iprangev4_parse junk address =
    (case iprange_end address 30 of
       None \<Rightarrow> None
     | Some (e, bits) \<Rightarrow>
         (case iprangev4_loop address e (bits \<noteq> None) 0 0 0 junk of
            None \<Rightarrow> None
          | Some (index, rs) \<Rightarrow>
              if index \<noteq> ZBX_IPRANGE_GROUPS_V4 then None
              else
                let r = \<lparr>ip_range = rs, ip_type = ZBX_IPRANGE_V4, ip_mask = (bits \<noteq> None)\<rparr>
                in Some (case bits of None \<Rightarrow> r | Some b \<Rightarrow> iprange_apply_mask r b)))"

text \<open>
  The loop over IPv6 groups. \<open>fill\<close> is the position of the \<open>::\<close>. It reads the character after \<open>ptr\<close>,
  which is outside of the text when the address ends with a single colon, and writes the group of
  a \<open>::\<close> at \<open>index\<close>, which is outside of the array after eight groups. A round that adds no group cannot
  happen (an empty group is accepted only in front of \<open>::\<close>); the branch for it makes the loop end.
\<close>

function iprangev6_loop :: "string \<Rightarrow> nat \<Rightarrow> bool \<Rightarrow> nat \<Rightarrow> nat \<Rightarrow> nat \<Rightarrow> nat option \<Rightarrow> zbx_range list \<Rightarrow>
    (nat \<times> nat option \<times> zbx_range list) option outcome" where
  "iprangev6_loop s e masked address ptr index fill rs =
    (if ptr < e \<and> index < ZBX_IPRANGE_GROUPS_V6 then
       let ptr = (case find_from s address (CHR '':'') of None \<Rightarrow> e | Some p \<Rightarrow> p)
       in if ptr = address \<and> length s < ptr + 1 then Inl OutOfBounds
          else
            (case (if ptr = address then if cchar s (ptr + 1) \<noteq> CHR '':'' then None else Some (index, rs)
                   else map_option (\<lambda>r. (index + 1, rs[index := r]))
                     (iprange_group (\<lambda>a n. hex_at s a n 65535) s masked address ptr)) of
               None \<Rightarrow> Inr None
             | Some (index', rs) \<Rightarrow>
                 if cchar s ptr \<noteq> NUL \<and> cchar s (ptr + 1) = CHR '':'' then
                   if fill \<noteq> None then Inr None
                   else if ZBX_IPRANGE_GROUPS_V6 \<le> index' then Inl OutOfBounds
                   else
                     let rs = rs[index' := \<lparr>r_from = 0, r_to = 0\<rparr>]
                     in if ptr + 1 = e - 1 then Inr (Some (index' + 1, Some index', rs))
                        else iprangev6_loop s e masked (ptr + 2) (ptr + 1) (index' + 1) (Some index') rs
                 else if index' = index then Inr None
                 else iprangev6_loop s e masked (ptr + 1) ptr index' fill rs)
     else Inr (Some (index, fill, rs)))"
  by pat_completeness auto
termination
  by (relation "measure (\<lambda>(s, e, masked, address, ptr, index, fill, rs). ZBX_IPRANGE_GROUPS_V6 - index)")
    (auto split: if_splits)

declare iprangev6_loop.simps [simp del]

text \<open>The expansion of \<open>::\<close>: the groups behind it move to the end, zeros fill the middle.\<close>

fun iprangev6_shift :: "nat \<Rightarrow> nat \<Rightarrow> nat \<Rightarrow> zbx_range list \<Rightarrow> nat \<times> zbx_range list" where
  "iprangev6_shift fill 0 target rs = (target, rs)"
| "iprangev6_shift fill (Suc index) target rs =
    (if fill < index then iprangev6_shift fill index (target - 1) (rs[target := rs ! index]) else (target, rs))"

fun iprangev6_zeros :: "nat \<Rightarrow> nat \<Rightarrow> zbx_range list \<Rightarrow> zbx_range list" where
  "iprangev6_zeros fill 0 rs = rs"
| "iprangev6_zeros fill (Suc target) rs =
    (if fill < Suc target then iprangev6_zeros fill target (rs[Suc target := \<lparr>r_from = 0, r_to = 0\<rparr>]) else rs)"

definition iprangev6_parse :: "zbx_range list \<Rightarrow> string \<Rightarrow> zbx_iprange option outcome" where
  "iprangev6_parse junk address =
    (case iprange_end address 128 of
       None \<Rightarrow> Inr None
     | Some (e, bits) \<Rightarrow>
         (case iprangev6_loop address e (bits \<noteq> None) 0 0 0 None junk of
            Inl f \<Rightarrow> Inl f
          | Inr None \<Rightarrow> Inr None
          | Inr (Some (index, fill, rs)) \<Rightarrow>
              if ZBX_IPRANGE_GROUPS_V6 < index then Inr None
              else if index < ZBX_IPRANGE_GROUPS_V6 \<and> fill = None then Inr None
              else
                let rs = (if index < ZBX_IPRANGE_GROUPS_V6
                          then case iprangev6_shift (the fill) index 7 rs of
                                 (target, rs) \<Rightarrow> iprangev6_zeros (the fill) target rs
                          else rs);
                    r = \<lparr>ip_range = rs, ip_type = ZBX_IPRANGE_V6, ip_mask = (bits \<noteq> None)\<rparr>
                in Inr (Some (case bits of None \<Rightarrow> r | Some b \<Rightarrow> iprange_apply_mask r b))))"

definition iprange_parse :: "zbx_range list \<Rightarrow> string \<Rightarrow> zbx_iprange option outcome" where
  "iprange_parse junk address =
    (let address = dropWhile iprange_is_whitespace_character address
     in if strchr address (CHR ''.'') \<noteq> None then Inr (iprangev4_parse junk address)
        else iprangev6_parse junk address)"

section \<open>Addresses of a range\<close>

definition iprange_first :: "zbx_iprange \<Rightarrow> int list \<Rightarrow> int list" where
  "iprange_first r address =
    (let groups = iprange_groups r;
         address = map r_from (take groups (ip_range r)) @ drop groups address
     in if ip_type r = ZBX_IPRANGE_V4 \<and> ip_mask r
        then address[groups - 1 := address ! (groups - 1) + 1] else address)"

fun iprange_next_loop :: "zbx_iprange \<Rightarrow> nat \<Rightarrow> int list \<Rightarrow> ret \<times> int list" where
  "iprange_next_loop r 0 address = (FAIL, address)"
| "iprange_next_loop r (Suc i) address =
    (if address ! i < r_to (ip_range r ! i) then
       let address = address[i := address ! i + 1]
       in if ip_type r = ZBX_IPRANGE_V4 \<and> ip_mask r
          then (if \<exists>j\<in>set [0..<iprange_groups r]. address ! j \<noteq> r_to (ip_range r ! j) then SUCCEED else FAIL, address)
          else (SUCCEED, address)
     else
       iprange_next_loop r i
         (if r_from (ip_range r ! i) < r_to (ip_range r ! i) then address[i := r_from (ip_range r ! i)] else address))"

definition iprange_next :: "zbx_iprange \<Rightarrow> int list \<Rightarrow> ret \<times> int list" where
  "iprange_next r address = iprange_next_loop r (iprange_groups r) address"

definition iprange_validate :: "zbx_iprange \<Rightarrow> int list \<Rightarrow> ret" where
  "iprange_validate r address =
    (if \<exists>i\<in>set [0..<iprange_groups r]. address ! i < r_from (ip_range r ! i) \<or> r_to (ip_range r ! i) < address ! i
     then FAIL else SUCCEED)"

fun iprange_volume_loop :: "zbx_range list \<Rightarrow> u64 \<Rightarrow> u64 option" where
  "iprange_volume_loop [] volume = Some volume"
| "iprange_volume_loop (r # rs) volume =
    (let n = word_of_int (r_to r - r_from r + 1)
     in if (NOT 0) div n < volume then None else iprange_volume_loop rs (volume * n))"

definition iprange_volume :: "zbx_iprange \<Rightarrow> u64" where
  "iprange_volume r =
    (case iprange_volume_loop (take (iprange_groups r) (ip_range r)) 1 of
       None \<Rightarrow> NOT 0
     | Some volume \<Rightarrow> if ip_type r = ZBX_IPRANGE_V4 \<and> ip_mask r then volume - 2 else volume)"

text \<open>\<open>ip_in_list\<close>: the address ranges of a comma-separated list, with the IPv6 support compiled in.\<close>

definition comma_split :: "string \<Rightarrow> string \<times> string option" where
  "comma_split s = (case strchr s (CHR '','') of None \<Rightarrow> (s, None) | Some i \<Rightarrow> (take i s, Some (drop (i + 1) s)))"

function ip_in_list_loop :: "zbx_range list \<Rightarrow> int list \<Rightarrow> string \<Rightarrow> ret outcome" where
  "ip_in_list_loop junk ipaddress lst =
    (case comma_split lst of (element, rest) \<Rightarrow>
       case iprange_parse junk element of
         Inl f \<Rightarrow> Inl f
       | Inr r \<Rightarrow>
           if (case r of None \<Rightarrow> False | Some r \<Rightarrow> iprange_validate r ipaddress = SUCCEED) then Inr SUCCEED
           else case rest of None \<Rightarrow> Inr FAIL | Some lst \<Rightarrow> ip_in_list_loop junk ipaddress lst)"
  by pat_completeness auto
termination
  by (relation "measure (\<lambda>(junk, a, lst). length lst)")
    (auto simp: comma_split_def strchr_Some_iff split: option.splits)

declare ip_in_list_loop.simps [simp del]

definition ip_in_list :: "zbx_range list \<Rightarrow> int list \<Rightarrow> string \<Rightarrow> string \<Rightarrow> ret outcome" where
  "ip_in_list junk ipaddress lst ip =
    (case iprange_parse junk ip of
       Inl f \<Rightarrow> Inl f
     | Inr None \<Rightarrow> Inr FAIL
     | Inr (Some r) \<Rightarrow> if lst = [] then Inr FAIL else ip_in_list_loop junk (iprange_first r ipaddress) lst)"

section \<open>Well-formed ranges\<close>

definition group_ok :: "int \<Rightarrow> zbx_range \<Rightarrow> bool" where
  "group_ok mx r \<longleftrightarrow> 0 \<le> r_from r \<and> r_from r \<le> r_to r \<and> r_to r \<le> mx"

definition iprange_inv :: "zbx_iprange \<Rightarrow> bool" where
  "iprange_inv r \<longleftrightarrow> length (ip_range r) = 8 \<and>
    (\<forall>g\<in>set (take (iprange_groups r) (ip_range r)). group_ok (if ip_type r = ZBX_IPRANGE_V4 then 255 else 65535) g)"

text \<open>The number of addresses, and the position of an address among them.\<close>

fun volume_of :: "zbx_range list \<Rightarrow> int" where
  "volume_of [] = 1"
| "volume_of (r # rs) = (r_to r - r_from r + 1) * volume_of rs"

fun rank_of :: "zbx_range list \<Rightarrow> int list \<Rightarrow> int" where
  "rank_of (r # rs) (x # xs) = (x - r_from r) * volume_of rs + rank_of rs xs"
| "rank_of rs xs = 0"

definition in_ranges :: "zbx_range list \<Rightarrow> int list \<Rightarrow> bool" where
  "in_ranges rs xs \<longleftrightarrow> list_all2 (\<lambda>r x. r_from r \<le> x \<and> x \<le> r_to r) rs xs"

lemma volume_of_append: "volume_of (rs @ ss) = volume_of rs * volume_of ss"
  by (induction rs) simp_all

lemma rank_of_append:
  "length rs = length xs \<Longrightarrow> rank_of (rs @ ss) (xs @ ys) = rank_of rs xs * volume_of ss + rank_of ss ys"
  by (induction rs xs rule: list_induct2) (simp_all add: volume_of_append algebra_simps)

lemma rank_from: "rank_of rs (map r_from rs) = 0"
  by (induction rs) simp_all

lemma rank_to: "rank_of rs (map r_to rs) = volume_of rs - 1"
  by (induction rs) (simp_all add: algebra_simps)

lemma volume_pos: "\<forall>r\<in>set rs. r_from r \<le> r_to r \<Longrightarrow> 0 < volume_of rs"
  by (induction rs) (simp_all add: mult_pos_pos)

lemma rank_bounds: "in_ranges rs xs \<Longrightarrow> 0 \<le> rank_of rs xs \<and> rank_of rs xs < volume_of rs"
  unfolding in_ranges_def
proof (induction rule: list_all2_induct)
  case (Cons r rs x xs)
  have v: "0 < volume_of rs" using Cons.IH by linarith
  have "0 \<le> (x - r_from r) * volume_of rs" using Cons v by simp
  moreover have "(x - r_from r) * volume_of rs \<le> (r_to r - r_from r) * volume_of rs" using Cons v by simp
  moreover have "(r_to r - r_from r + 1) * volume_of rs = (r_to r - r_from r) * volume_of rs + volume_of rs"
    by (simp add: distrib_right)
  ultimately show ?case unfolding rank_of.simps volume_of.simps using Cons.IH by linarith
qed simp

lemma rank_inj: "in_ranges rs xs \<Longrightarrow> in_ranges rs ys \<Longrightarrow> rank_of rs xs = rank_of rs ys \<Longrightarrow> xs = ys"
  unfolding in_ranges_def
proof (induction arbitrary: ys rule: list_all2_induct)
  case (Cons r rs x xs)
  obtain y ys' where ys: "ys = y # ys'" "r_from r \<le> y" "y \<le> r_to r" "list_all2 (\<lambda>r x. r_from r \<le> x \<and> x \<le> r_to r) rs ys'"
    using Cons.prems(1) by (cases ys) auto
  have b: "0 \<le> rank_of rs xs" "rank_of rs xs < volume_of rs" "0 \<le> rank_of rs ys'" "rank_of rs ys' < volume_of rs"
    using rank_bounds [of rs xs] rank_bounds [of rs ys'] Cons ys by (auto simp: in_ranges_def)
  have e: "(x - r_from r) * volume_of rs + rank_of rs xs = (y - r_from r) * volume_of rs + rank_of rs ys'"
    using Cons.prems(2) ys by simp
  have "x - r_from r = ((x - r_from r) * volume_of rs + rank_of rs xs) div volume_of rs"
    using b by simp
  also have "\<dots> = y - r_from r" unfolding e using b by simp
  finally have "x = y" by simp
  then show ?case using e ys Cons.IH [OF ys(4)] by simp
qed simp

section \<open>The enumeration\<close>

text \<open>Without a mask on IPv4: positions from \<open>k\<close> on have been reset.\<close>

lemma iprange_next_loop_plain:
  assumes "in_ranges rs xs" "length (ip_range r) \<ge> length rs" "take (length rs) (ip_range r) = rs"
    "\<not> (ip_type r = ZBX_IPRANGE_V4 \<and> ip_mask r)" "k \<le> length rs"
    "drop k xs = map r_to (drop k rs)"
  shows "case iprange_next_loop r k (take k xs @ map r_from (drop k rs) @ ys) of
      (SUCCEED, zs) \<Rightarrow> \<exists>xs'. zs = xs' @ ys \<and> in_ranges rs xs' \<and> rank_of rs xs' = rank_of rs xs + 1
    | (FAIL, zs) \<Rightarrow> rank_of rs xs = volume_of rs - 1 \<and> zs = map r_from rs @ ys"
  using assms(5,6)
proof (induction k)
  case 0
  have "rank_of rs xs = rank_of rs (map r_to rs)" using 0 by simp
  then show ?case by (simp add: rank_to)
next
  case (Suc i)
  have len: "length xs = length rs" using assms(1) by (simp add: in_ranges_def list_all2_lengthD)
  have i: "i < length rs" "i < length xs" using Suc.prems(1) len by simp_all
  have ri: "ip_range r ! i = rs ! i" using assms(3) i(1) by (metis nth_take)
  have b: "r_from (rs ! i) \<le> xs ! i" "xs ! i \<le> r_to (rs ! i)"
    using assms(1) i by (auto simp: in_ranges_def list_all2_conv_all_nth)
  let ?st = "take (Suc i) xs @ map r_from (drop (Suc i) rs) @ ys"
  have sx: "take (Suc i) xs = take i xs @ [xs ! i]" using i by (simp add: take_Suc_conv_app_nth)
  have at: "?st ! i = xs ! i" using i by (simp add: sx nth_append)
  have upd: "?st[i := v] = take i xs @ v # map r_from (drop (Suc i) rs) @ ys" for v
    using i by (simp add: sx list_update_append)
  have rs: "rs = take i rs @ rs ! i # drop (Suc i) rs" using i(1) by (rule split_at_nth)
  have xs: "xs = take i xs @ xs ! i # map r_to (drop (Suc i) rs)"
    using split_at_nth [OF i(2)] Suc.prems(2) by simp
  have rk: "rank_of rs (take i xs @ v # zs) =
      (rank_of (take i rs) (take i xs) * (r_to (rs ! i) - r_from (rs ! i) + 1) + (v - r_from (rs ! i))) * volume_of (drop (Suc i) rs)
        + rank_of (drop (Suc i) rs) zs" for v zs
  proof -
    have "rank_of (take i rs @ rs ! i # drop (Suc i) rs) (take i xs @ v # zs) =
      rank_of (take i rs) (take i xs) * volume_of (rs ! i # drop (Suc i) rs) + rank_of (rs ! i # drop (Suc i) rs) (v # zs)"
      using i by (intro rank_of_append) simp
    then show ?thesis unfolding rs [symmetric] by (simp add: algebra_simps)
  qed
  show ?case
  proof (cases "xs ! i < r_to (rs ! i)")
    case True
    let ?xs' = "take i xs @ (xs ! i + 1) # map r_from (drop (Suc i) rs)"
    have res: "iprange_next_loop r (Suc i) ?st = (SUCCEED, ?xs' @ ys)"
      using True at upd ri assms(4) by (simp add: Let_def)
    have a1: "list_all2 (\<lambda>r x. r_from r \<le> x \<and> x \<le> r_to r) (take i rs) (take i xs)"
      using assms(1) unfolding in_ranges_def by (rule list_all2_takeI)
    have "\<forall>g\<in>set rs. r_from g \<le> r_to g"
      using assms(1) by (fastforce simp: in_ranges_def list_all2_conv_all_nth in_set_conv_nth)
    then have a2: "list_all2 (\<lambda>r x. r_from r \<le> x \<and> x \<le> r_to r) (drop (Suc i) rs) (map r_from (drop (Suc i) rs))"
      by (auto simp: list_all2_conv_all_nth dest: in_set_dropD)
    have "in_ranges (take i rs @ rs ! i # drop (Suc i) rs) ?xs'"
      unfolding in_ranges_def using a1 a2 True b by (intro list_all2_appendI) simp_all
    then have "in_ranges rs ?xs'" unfolding rs [symmetric] .
    moreover have "rank_of rs ?xs' = rank_of rs xs + 1"
      unfolding rk by (subst xs, subst rk) (simp add: rank_from rank_to algebra_simps)
    ultimately show ?thesis unfolding res by auto
  next
    case False
    then have e: "xs ! i = r_to (rs ! i)" using b by simp
    have st: "(if r_from (rs ! i) < r_to (rs ! i) then ?st[i := r_from (rs ! i)] else ?st) =
        take i xs @ map r_from (drop i rs) @ ys"
    proof -
      have "map r_from (drop i rs) = r_from (rs ! i) # map r_from (drop (Suc i) rs)"
        using i(1) by (simp add: nth_eq_drop_Cons)
      moreover have "\<not> r_from (rs ! i) < r_to (rs ! i) \<Longrightarrow> ?st = ?st[i := r_from (rs ! i)]" using e b at by (metis list_update_id not_less order_antisym)
      ultimately show ?thesis using upd by auto
    qed
    have "drop i xs = map r_to (drop i rs)"
      using Suc.prems(2) e i by (simp add: nth_eq_drop_Cons)
    then have ih: "case iprange_next_loop r i (take i xs @ map r_from (drop i rs) @ ys) of
        (SUCCEED, zs) \<Rightarrow> \<exists>xs'. zs = xs' @ ys \<and> in_ranges rs xs' \<and> rank_of rs xs' = rank_of rs xs + 1
      | (FAIL, zs) \<Rightarrow> rank_of rs xs = volume_of rs - 1 \<and> zs = map r_from rs @ ys"
      using Suc.IH Suc.prems(1) by simp
    have "iprange_next_loop r (Suc i) ?st =
        iprange_next_loop r i (if r_from (rs ! i) < r_to (rs ! i) then ?st[i := r_from (rs ! i)] else ?st)"
      using False at ri by simp
    then show ?thesis unfolding st using ih by simp
  qed
qed

text \<open>With a mask on IPv4 the enumeration leaves out the last address.\<close>

lemma iprange_next_loop_mask:
  assumes "length (ip_range r) = 8" "ip_type r = ZBX_IPRANGE_V4" "ip_mask r" "length xs = 8" "k \<le> 4"
  shows "iprange_next_loop r k xs =
    (case iprange_next_loop (r\<lparr>ip_mask := False\<rparr>) k xs of
       (FAIL, zs) \<Rightarrow> (FAIL, zs)
     | (SUCCEED, zs) \<Rightarrow> (if take 4 zs \<noteq> map r_to (take 4 (ip_range r)) then SUCCEED else FAIL, zs))"
  using assms(4,5)
proof (induction k arbitrary: xs)
  case (Suc i)
  have "(\<exists>j\<in>set [0..<iprange_groups r]. zs ! j \<noteq> r_to (ip_range r ! j)) \<longleftrightarrow> take 4 zs \<noteq> map r_to (take 4 (ip_range r))"
    if "length zs = 8" for zs
    using that assms(1,2) by (auto simp: iprange_group_defs list_eq_iff_nth_eq)
  then show ?case using Suc assms(2,3) by (auto simp: Let_def)
qed simp

text \<open>The addresses of a range: all of its combinations, without the first and the last for a masked IPv4 range.\<close>

abbreviation active_groups :: "zbx_iprange \<Rightarrow> zbx_range list" where
  "active_groups r \<equiv> take (iprange_groups r) (ip_range r)"

definition excluded :: "zbx_iprange \<Rightarrow> int" where
  "excluded r = (if ip_type r = ZBX_IPRANGE_V4 \<and> ip_mask r then 1 else 0)"

definition usable_range :: "zbx_iprange \<Rightarrow> bool" where
  "usable_range r \<longleftrightarrow> iprange_inv r \<and> (excluded r = 1 \<longrightarrow> 2 \<le> r_to (ip_range r ! 3) - r_from (ip_range r ! 3))"

lemma iprange_inv_groups:
  "iprange_inv r \<Longrightarrow> length (active_groups r) = iprange_groups r \<and> iprange_groups r \<in> {4, 8} \<and>
    (\<forall>g\<in>set (active_groups r). r_from g \<le> r_to g)"
  by (auto simp: iprange_inv_def group_ok_def iprange_group_defs split: if_splits)

lemma in_ranges_from: "\<forall>g\<in>set rs. r_from g \<le> r_to g \<Longrightarrow> in_ranges rs (map r_from rs)"
  by (auto simp: in_ranges_def list_all2_conv_all_nth)

lemma in_ranges_to: "\<forall>g\<in>set rs. r_from g \<le> r_to g \<Longrightarrow> in_ranges rs (map r_to rs)"
  by (auto simp: in_ranges_def list_all2_conv_all_nth)

lemma iprange_next_step:
  assumes "iprange_inv r" "in_ranges (active_groups r) xs" "length ys = 8 - iprange_groups r"
    "rank_of (active_groups r) xs < volume_of (active_groups r) - excluded r"
  shows "if rank_of (active_groups r) xs + 1 < volume_of (active_groups r) - excluded r
    then \<exists>xs'. iprange_next r (xs @ ys) = (SUCCEED, xs' @ ys) \<and> in_ranges (active_groups r) xs' \<and>
      rank_of (active_groups r) xs' = rank_of (active_groups r) xs + 1
    else fst (iprange_next r (xs @ ys)) = FAIL"
proof -
  let ?rs = "active_groups r"
  have l: "length xs = iprange_groups r" "length ?rs = iprange_groups r"
    using assms(1,2) iprange_inv_groups by (auto simp: in_ranges_def dest: list_all2_lengthD)
  define q where "q = (if excluded r = 1 then r\<lparr>ip_mask := False\<rparr> else r)"
  have q: "ip_range q = ip_range r" "ip_type q = ip_type r" "\<not> (ip_type q = ZBX_IPRANGE_V4 \<and> ip_mask q)"
    by (auto simp: q_def excluded_def)
  have "case iprange_next_loop q (iprange_groups r) (take (iprange_groups r) xs @ map r_from (drop (iprange_groups r) ?rs) @ ys) of
      (SUCCEED, zs) \<Rightarrow> \<exists>xs'. zs = xs' @ ys \<and> in_ranges ?rs xs' \<and> rank_of ?rs xs' = rank_of ?rs xs + 1
    | (FAIL, zs) \<Rightarrow> rank_of ?rs xs = volume_of ?rs - 1 \<and> zs = map r_from ?rs @ ys"
    using l assms(2) q by (intro iprange_next_loop_plain) simp_all
  then have p: "case iprange_next_loop q (iprange_groups r) (xs @ ys) of
      (SUCCEED, zs) \<Rightarrow> \<exists>xs'. zs = xs' @ ys \<and> in_ranges ?rs xs' \<and> rank_of ?rs xs' = rank_of ?rs xs + 1
    | (FAIL, zs) \<Rightarrow> rank_of ?rs xs = volume_of ?rs - 1 \<and> zs = map r_from ?rs @ ys"
    using l by simp
  show ?thesis
  proof (cases "excluded r = 1")
    case False
    then have "excluded r = 0" "q = r" by (auto simp: excluded_def q_def)
    then show ?thesis using p assms(4) rank_bounds unfolding iprange_next_def
      by (auto split: prod.splits ret.splits dest!: rank_bounds)
  next
    case True
    then have m: "ip_type r = ZBX_IPRANGE_V4" "ip_mask r" "iprange_groups r = 4" "q = r\<lparr>ip_mask := False\<rparr>"
      by (auto simp: excluded_def q_def iprange_group_defs split: if_splits)
    have "length (xs @ ys) = 8" using l m(3) assms(3) by simp
    then have e: "iprange_next r (xs @ ys) =
        (case iprange_next_loop q 4 (xs @ ys) of
           (FAIL, zs) \<Rightarrow> (FAIL, zs)
         | (SUCCEED, zs) \<Rightarrow> (if take 4 zs \<noteq> map r_to ?rs then SUCCEED else FAIL, zs))"
      using iprange_next_loop_mask [of r "xs @ ys" 4] m assms(1) unfolding iprange_next_def m(3) iprange_inv_def by simp
    show ?thesis
    proof (cases "iprange_next_loop q 4 (xs @ ys)")
      case (Pair res zs)
      show ?thesis
      proof (cases res)
        case FAIL
        then show ?thesis using Pair p m(3) True assms(4) by simp
      next
        case SUCCEED
        then obtain xs' where xs': "zs = xs' @ ys" "in_ranges ?rs xs'" "rank_of ?rs xs' = rank_of ?rs xs + 1"
          using Pair p m(3) by auto
        have "length xs' = 4" using xs'(2) l m(3) by (auto simp: in_ranges_def dest: list_all2_lengthD)
        then have t: "take 4 zs = xs'" using xs'(1) by simp
        have "xs' = map r_to ?rs \<longleftrightarrow> rank_of ?rs xs' = volume_of ?rs - 1"
          using rank_inj [OF xs'(2) in_ranges_to] rank_to [of ?rs] iprange_inv_groups [OF assms(1)] by auto
        moreover have "rank_of ?rs xs' < volume_of ?rs" using rank_bounds [OF xs'(2)] by simp
        ultimately show ?thesis using e Pair SUCCEED xs' True t by auto
      qed
    qed
  qed
qed

text \<open>
  The loop in which the discoverer visits the addresses of a range
  (\<open>discover_rule\<close>: first, then next until it fails), without its body and the exits in it, and with fuel.
\<close>

fun iprange_walk :: "nat \<Rightarrow> zbx_iprange \<Rightarrow> int list \<Rightarrow> int list list" where
  "iprange_walk 0 r address = []"
| "iprange_walk (Suc n) r address =
    address # (case iprange_next r address of (SUCCEED, address) \<Rightarrow> iprange_walk n r address | (FAIL, _) \<Rightarrow> [])"

lemma iprange_walk_ranks:
  assumes "iprange_inv r" "length ys = 8 - iprange_groups r"
    "in_ranges (active_groups r) xs" "rank_of (active_groups r) xs < volume_of (active_groups r) - excluded r"
    "nat (volume_of (active_groups r) - excluded r - rank_of (active_groups r) xs) \<le> n"
  shows "\<exists>zs. iprange_walk n r (xs @ ys) = map (\<lambda>z. z @ ys) zs \<and> list_all (in_ranges (active_groups r)) zs \<and>
    map (rank_of (active_groups r)) zs = [rank_of (active_groups r) xs .. volume_of (active_groups r) - excluded r - 1]"
  using assms(3-5)
proof (induction n arbitrary: xs)
  case 0
  then show ?case by simp
next
  case (Suc n)
  let ?rk = "rank_of (active_groups r)" and ?V = "volume_of (active_groups r) - excluded r"
  have up: "[?rk xs .. ?V - 1] = ?rk xs # [?rk xs + 1 .. ?V - 1]" using Suc.prems(2) by (simp add: upto_rec1)
  note step = iprange_next_step [OF assms(1) Suc.prems(1) assms(2) Suc.prems(2)]
  show ?case
  proof (cases "?rk xs + 1 < ?V")
    case True
    then obtain xs' where xs': "iprange_next r (xs @ ys) = (SUCCEED, xs' @ ys)" "in_ranges (active_groups r) xs'"
        "?rk xs' = ?rk xs + 1" using step by auto
    obtain zs where zs: "iprange_walk n r (xs' @ ys) = map (\<lambda>z. z @ ys) zs" "list_all (in_ranges (active_groups r)) zs"
        "map ?rk zs = [?rk xs' .. ?V - 1]"
    proof -
      have "nat (?V - ?rk xs') \<le> n" "?rk xs' < ?V" using xs'(3) True Suc.prems(3) by linarith+
      then show ?thesis using Suc.IH [OF xs'(2)] that by blast
    qed
    then show ?thesis using xs' up Suc.prems(1) by (intro exI [of _ "xs # zs"]) simp
  next
    case False
    then have "fst (iprange_next r (xs @ ys)) = FAIL" using step by simp
    then have "iprange_walk (Suc n) r (xs @ ys) = [xs @ ys]" by (cases "iprange_next r (xs @ ys)") simp
    moreover have "[?rk xs + 1 .. ?V - 1] = []" using False by simp
    ultimately show ?thesis using up Suc.prems(1) by (intro exI [of _ "[xs]"]) simp
  qed
qed

lemma list_of_four: "length xs = 4 \<Longrightarrow> \<exists>a b c d. xs = [a, b, c, d]"
  by (auto simp: numeral_eq_Suc length_Suc_conv)

lemma iprange_first_rank:
  assumes "usable_range r" "length junk = 8"
  shows "\<exists>xs ys. iprange_first r junk = xs @ ys \<and> length ys = 8 - iprange_groups r \<and> in_ranges (active_groups r) xs \<and>
    rank_of (active_groups r) xs = excluded r"
proof -
  let ?rs = "active_groups r" and ?g = "iprange_groups r"
  have inv: "iprange_inv r" using assms(1) by (simp add: usable_range_def)
  note g = iprange_inv_groups [OF inv]
  have fr: "in_ranges ?rs (map r_from ?rs)" using g by (intro in_ranges_from) simp
  show ?thesis
  proof (cases "excluded r = 1")
    case False
    then have "iprange_first r junk = map r_from ?rs @ drop ?g junk" "excluded r = 0"
      by (auto simp: iprange_first_def excluded_def Let_def)
    then show ?thesis using fr g assms(2) by (intro exI [of _ "map r_from ?rs"] exI [of _ "drop ?g junk"]) (auto simp: rank_from)
  next
    case True
    then have m: "ip_type r = ZBX_IPRANGE_V4" "ip_mask r" "?g = 4"
      by (auto simp: excluded_def iprange_group_defs split: if_splits)
    have d: "2 \<le> r_to (ip_range r ! 3) - r_from (ip_range r ! 3)" using assms(1) True by (simp add: usable_range_def)
    obtain a b c e where rs: "?rs = [a, b, c, e]" using list_of_four [of ?rs] g m(3) by auto
    have e: "ip_range r ! 3 = e" using arg_cong [OF rs, of "\<lambda>l. l ! 3"] m(3) by simp
    have f: "iprange_first r junk = [r_from a, r_from b, r_from c, r_from e + 1] @ drop 4 junk"
      using rs m inv by (simp add: iprange_first_def Let_def nth_append iprange_inv_def)
    show ?thesis unfolding f rs
      using fr rs d e m(3) assms(2) True
      by (intro exI [of _ "[r_from a, r_from b, r_from c, r_from e + 1]"] exI [of _ "drop 4 junk"])
        (simp add: in_ranges_def)
  qed
qed

lemma volume_bound: "usable_range r \<Longrightarrow> 2 * excluded r < volume_of (active_groups r)"
proof -
  assume u: "usable_range r"
  then have g: "\<forall>g\<in>set (active_groups r). r_from g \<le> r_to g" "0 < volume_of (active_groups r)"
    using iprange_inv_groups volume_pos by (auto simp: usable_range_def)
  show ?thesis
  proof (cases "excluded r = 1")
    case False
    then have "excluded r = 0" by (simp add: excluded_def split: if_splits)
    then show ?thesis using g(2) by simp
  next
    case True
    then have m: "iprange_groups r = 4" by (auto simp: excluded_def iprange_group_defs split: if_splits)
    obtain a b c e where rs: "active_groups r = [a, b, c, e]"
      using list_of_four [of "active_groups r"] iprange_inv_groups [of r] u m by (auto simp: usable_range_def)
    have "ip_range r ! 3 = e" using arg_cong [OF rs, of "\<lambda>l. l ! 3"] m by simp
    then have "2 \<le> r_to e - r_from e" using u True by (simp add: usable_range_def)
    moreover have "0 < volume_of [a, b, c]" using g(1) unfolding rs by (intro volume_pos) simp
    moreover have "volume_of (active_groups r) = volume_of [a, b, c] * (r_to e - r_from e + 1)"
      unfolding rs by simp
    moreover have "1 * 3 \<le> volume_of [a, b, c] * (r_to e - r_from e + 1)"
      using calculation by (intro mult_mono) linarith+
    ultimately show ?thesis using True by linarith
  qed
qed

text \<open>C15. The discoverer's loop over a range, from \<open>iprange_first\<close> with \<open>iprange_next\<close>, when its body does not leave it, visits every
  address of the range exactly once and then ends: every combination of group values, and for an IPv4 range with a mask all of them
  but the network and the broadcast address. The number of addresses is enough fuel.\<close>

theorem iprange_walk_complete:
  assumes "usable_range r" "length junk = 8"
    "nat (volume_of (active_groups r)) \<le> n"
  shows "distinct (iprange_walk n r (iprange_first r junk)) \<and>
    int (length (iprange_walk n r (iprange_first r junk))) = volume_of (active_groups r) - 2 * excluded r \<and>
    take (iprange_groups r) ` set (iprange_walk n r (iprange_first r junk)) =
      {xs. in_ranges (active_groups r) xs \<and>
        (excluded r = 1 \<longrightarrow> xs \<noteq> map r_from (active_groups r) \<and> xs \<noteq> map r_to (active_groups r))}"
proof -
  let ?rs = "active_groups r" and ?g = "iprange_groups r" and ?V = "volume_of (active_groups r)"
  have inv: "iprange_inv r" using assms(1) by (simp add: usable_range_def)
  note g = iprange_inv_groups [OF inv]
  obtain xs ys where f: "iprange_first r junk = xs @ ys" "length ys = 8 - ?g" "in_ranges ?rs xs" "rank_of ?rs xs = excluded r"
    using iprange_first_rank [OF assms(1,2)] by blast
  have v: "2 * excluded r < ?V" using volume_bound [OF assms(1)] .
  have x01: "excluded r = 0 \<or> excluded r = 1" by (simp add: excluded_def)
  obtain zs where zs: "iprange_walk n r (xs @ ys) = map (\<lambda>z. z @ ys) zs" "list_all (in_ranges ?rs) zs"
      "map (rank_of ?rs) zs = [excluded r .. ?V - excluded r - 1]"
  proof -
    have "nat (?V - excluded r - excluded r) \<le> n" "excluded r < ?V - excluded r" using v x01 assms(3) by linarith+
    then show ?thesis using iprange_walk_ranks [OF inv f(2,3), of n] f(4) that by auto
  qed
  have dz: "distinct zs" using zs(3) by (metis distinct_map distinct_upto)
  have lz: "int (length zs) = ?V - 2 * excluded r"
    using arg_cong [OF zs(3), of length] v by simp
  have tk: "take ?g (z @ ys) = z" if "z \<in> set zs" for z
    using zs(2) that g by (auto simp: list_all_iff in_ranges_def dest!: list_all2_lengthD)
  have mem: "z \<in> set zs \<longleftrightarrow> in_ranges ?rs z \<and> excluded r \<le> rank_of ?rs z \<and> rank_of ?rs z < ?V - excluded r" for z
  proof
    assume "z \<in> set zs"
    then have "rank_of ?rs z \<in> set (map (rank_of ?rs) zs)" by simp
    then show "in_ranges ?rs z \<and> excluded r \<le> rank_of ?rs z \<and> rank_of ?rs z < ?V - excluded r"
      using zs(2) \<open>z \<in> set zs\<close> unfolding zs(3) by (auto simp: list_all_iff)
  next
    assume z: "in_ranges ?rs z \<and> excluded r \<le> rank_of ?rs z \<and> rank_of ?rs z < ?V - excluded r"
    then have "rank_of ?rs z \<in> set (map (rank_of ?rs) zs)" unfolding zs(3) by simp
    then obtain y where y: "y \<in> set zs" "rank_of ?rs z = rank_of ?rs y" by auto
    then show "z \<in> set zs" using rank_inj [of ?rs z y] z zs(2) by (auto simp: list_all_iff)
  qed
  have ends: "(rank_of ?rs z = 0 \<longleftrightarrow> z = map r_from ?rs) \<and> (rank_of ?rs z = ?V - 1 \<longleftrightarrow> z = map r_to ?rs)"
    if "in_ranges ?rs z" for z
    using rank_inj [OF that in_ranges_from] rank_inj [OF that in_ranges_to] g by (auto simp: rank_from rank_to)
  have "take ?g ` set (iprange_walk n r (xs @ ys)) = set zs"
    unfolding zs(1) using tk by (force simp: image_image)
  also have "\<dots> = {xs. in_ranges ?rs xs \<and> (excluded r = 1 \<longrightarrow> xs \<noteq> map r_from ?rs \<and> xs \<noteq> map r_to ?rs)}"
    using x01 rank_bounds [of ?rs] by (auto simp: mem ends rank_from rank_to dest: ends; force dest: ends)
  finally show ?thesis unfolding f(1) using dz lz zs(1) by (simp add: distinct_map inj_on_def)
qed

lemma iprange_walk_complete_witness:
  fixes r :: zbx_iprange
  defines "r \<equiv> \<lparr>ip_range = map (\<lambda>(a, b). \<lparr>r_from = a, r_to = b\<rparr>) [(10, 10), (0, 0), (0, 1), (4, 7), (0, 0), (0, 0), (0, 0), (0, 0)],
      ip_type = ZBX_IPRANGE_V4, ip_mask = True\<rparr>"
  shows "int (length (iprange_walk 8 r (iprange_first r (replicate 8 0)))) = 6"
  using iprange_walk_complete [of r "replicate 8 0" 8]
  by (simp add: r_def usable_range_def iprange_inv_def iprange_group_defs group_ok_def excluded_def)

end
