(* ===== verification/IpRangeParse.thy ===== *)
theory IpRangeParse
  imports IpRange
begin

unbundle bit_operations_syntax

text \<open>
  What the parser of IP ranges accepts is a range that the enumeration handles, what a network mask
  makes of a range, and the count of addresses.
\<close>

section \<open>Masks\<close>

lemma and_mask_empty: "w AND push_bit m 0xFFFFFFFF = push_bit m (drop_bit m w)" for w :: u32
proof -
  have f: "(0xFFFFFFFF :: u32) = NOT 0" by simp
  show ?thesis unfolding f by (intro bit_eqI) (auto simp: bit_simps)
qed

lemma or_mask_fill: "m \<le> 32 \<Longrightarrow> w OR drop_bit (32 - m) 0xFFFFFFFF = push_bit m (drop_bit m w) OR mask m" for w :: u32
proof -
  assume m: "m \<le> 32"
  have f: "(0xFFFFFFFF :: u32) = NOT 0" by simp
  show ?thesis unfolding f using m by (intro bit_eqI) (auto simp: bit_simps)
qed

lemma sint_small: "uint w < 2 ^ 31 \<Longrightarrow> sint w = uint w" for w :: u32
proof -
  assume "uint w < 2 ^ 31"
  moreover have "- (2 ^ 31) \<le> uint w" by (rule order_trans [of _ 0]) simp_all
  ultimately have "signed_take_bit 31 (uint w) = uint w" by (intro signed_take_bit_int_eq_self)
  then show ?thesis by (simp add: sint_uint)
qed

lemma push_or_mask: "push_bit m y OR mask m = push_bit m y + mask m" for y :: int
proof -
  have "push_bit m y AND mask m = 0" by (rule bit_eqI) (simp add: bit_simps)
  then show ?thesis by (rule disjunctive_add_eq_or [symmetric])
qed

lemma div_mult_le: "0 \<le> x \<Longrightarrow> x div 2 ^ m * 2 ^ m \<le> x \<and> 0 \<le> x div 2 ^ m * 2 ^ m" for x :: int
  by (simp add: minus_mod_eq_div_mult [symmetric] zmod_le_nonneg_dividend)

lemma uint_push_drop:
  assumes "0 \<le> x" "x \<le> 65535"
  shows "uint (push_bit m (drop_bit m (word_of_int x :: u32))) = x div 2 ^ m * 2 ^ m"
proof -
  have s: "take_bit 32 x = x" using assms by (simp add: take_bit_int_eq_self_iff)
  have "uint (push_bit m (drop_bit m (word_of_int x :: u32))) = take_bit 32 (push_bit m (drop_bit m (take_bit 32 x)))"
    by (simp add: unsigned_push_bit_eq unsigned_drop_bit_eq unsigned_of_int)
  also have "\<dots> = x div 2 ^ m * 2 ^ m"
    unfolding s using assms div_mult_le [of x m] by (simp add: push_bit_eq_mult drop_bit_eq_div take_bit_int_eq_self_iff)
  finally show ?thesis .
qed

lemma uint_mask_eq: "m \<le> 16 \<Longrightarrow> uint (mask m :: u32) = 2 ^ m - 1"
proof -
  assume m: "m \<le> 16"
  have "uint (mask m :: u32) = uint (of_int (mask m) :: u32)" by (simp only: of_int_mask_eq)
  also have "\<dots> = take_bit 32 (mask m :: int)" unfolding unsigned_of_int by simp
  also have "\<dots> = 2 ^ m - 1"
  proof -
    have "(2 :: int) ^ m \<le> 2 ^ 16" using m by (intro power_increasing) simp_all
    then show ?thesis by (simp add: take_bit_int_eq_self_iff mask_eq_exp_minus_1)
  qed
  finally show ?thesis .
qed

lemma mask_group_val:
  assumes "group_ok 65535 r" "m \<le> 16"
  shows "r_from (mask_group m r) = r_from r div 2 ^ m * 2 ^ m"
    "r_to (mask_group m r) = r_to r div 2 ^ m * 2 ^ m + (2 ^ m - 1)"
proof -
  have b: "0 \<le> r_from r" "r_from r \<le> 65535" "0 \<le> r_to r" "r_to r \<le> 65535" using assms(1) by (auto simp: group_ok_def)
  have p: "(2 :: int) ^ m \<le> 2 ^ 16" using assms(2) by (intro power_increasing) simp_all
  have f: "uint ((word_of_int (r_from r) :: u32) AND push_bit m 0xFFFFFFFF) = r_from r div 2 ^ m * 2 ^ m"
    unfolding and_mask_empty using uint_push_drop b by simp
  have "m \<le> 32" using assms(2) by simp
  have mk: "uint (mask m :: u32) = 2 ^ m - 1"
    using uint_mask_eq [OF assms(2)] .
  have "uint ((word_of_int (r_to r) :: u32) OR drop_bit (32 - m) 0xFFFFFFFF) =
      push_bit m (r_to r div 2 ^ m) OR mask m"
    unfolding or_mask_fill [OF \<open>m \<le> 32\<close>] unsigned_or_eq uint_push_drop [OF b(3,4)] mk
    by (simp add: push_bit_eq_mult mask_eq_exp_minus_1)
  then have t: "uint ((word_of_int (r_to r) :: u32) OR drop_bit (32 - m) 0xFFFFFFFF) = r_to r div 2 ^ m * 2 ^ m + (2 ^ m - 1)"
    unfolding push_or_mask by (simp add: push_bit_eq_mult mask_eq_exp_minus_1)
  show "r_from (mask_group m r) = r_from r div 2 ^ m * 2 ^ m"
    using sint_small f div_mult_le [OF b(1), of m] b by (simp add: mask_group_def)
  show "r_to (mask_group m r) = r_to r div 2 ^ m * 2 ^ m + (2 ^ m - 1)"
    using sint_small t div_mult_le [OF b(3), of m] b p by (simp add: mask_group_def)
qed

lemma mask_group_ok:
  assumes "group_ok (2 ^ n - 1) r" "m \<le> n" "n \<le> 16"
  shows "group_ok (2 ^ n - 1) (mask_group m r) \<and> 2 ^ m - 1 \<le> r_to (mask_group m r) - r_from (mask_group m r)"
proof -
  have "(2 :: int) ^ n \<le> 2 ^ 16" using assms(3) by (intro power_increasing) simp_all
  then have g: "group_ok 65535 r" using assms(1) by (auto simp: group_ok_def)
  have m: "m \<le> 16" using assms(2,3) by simp
  have b: "0 \<le> r_from r" "r_from r \<le> r_to r" "r_to r < 2 ^ n" using assms(1) by (auto simp: group_ok_def)
  have mono: "r_from r div 2 ^ m * 2 ^ m \<le> r_to r div 2 ^ m * 2 ^ m"
    using b(2) by (simp add: zdiv_mono1)
  have n: "(2 :: int) ^ n = 2 ^ (n - m) * 2 ^ m" using assms(2) by (simp add: power_add [symmetric])
  have "r_to r div 2 ^ m < 2 ^ (n - m)" using int_div_less_iff [of "2 ^ m" "r_to r" "2 ^ (n - m)"] b(3) n by simp
  then have "r_to r div 2 ^ m + 1 \<le> 2 ^ (n - m)" by simp
  then have "(r_to r div 2 ^ m + 1) * 2 ^ m \<le> 2 ^ (n - m) * 2 ^ m" by (rule mult_right_mono) simp
  then have le: "r_to r div 2 ^ m * 2 ^ m + 2 ^ m \<le> 2 ^ n" unfolding n by (simp add: distrib_right)
  have one: "(1 :: int) \<le> 2 ^ m" by simp
  show ?thesis unfolding group_ok_def mask_group_val [OF g m]
    by (intro conjI) (use div_mult_le [OF b(1), of m] mono le one in linarith)+
qed

text \<open>The value of a list of groups as one number.\<close>

definition groups_val :: "nat \<Rightarrow> int list \<Rightarrow> int" where
  "groups_val gb ds = foldl (\<lambda>v d. v * 2 ^ gb + d) 0 ds"

lemma groups_val_snoc: "groups_val gb (ds @ [d]) = groups_val gb ds * 2 ^ gb + d"
  by (simp add: groups_val_def)

lemma groups_val_Nil: "groups_val gb [] = 0"
  by (simp add: groups_val_def)

lemma groups_val_bounds:
  "\<forall>d\<in>set ds. 0 \<le> d \<and> d < 2 ^ gb \<Longrightarrow> 0 \<le> groups_val gb ds"
proof (induction ds rule: rev_induct)
  case (snoc d ds)
  then show ?case by (simp add: groups_val_snoc)
qed (simp add: groups_val_Nil)

lemma apply_mask_loop_prefix:
  "i \<le> length ps \<Longrightarrow> apply_mask_loop gb i bits (ps @ qs) = apply_mask_loop gb i bits ps @ qs"
  by (induction i arbitrary: bits ps) (simp_all add: nth_append list_update_append)

lemma length_apply_mask_loop [simp]: "length (apply_mask_loop gb i bits ps) = length ps"
  by (induction i arbitrary: bits ps) simp_all

lemma div_shift: "k \<le> n \<Longrightarrow> 0 \<le> d \<Longrightarrow> d < 2 ^ n \<Longrightarrow>
    (v * 2 ^ n + d) div 2 ^ k * 2 ^ k = v * 2 ^ n + d div 2 ^ k * 2 ^ k" for v d :: int
proof -
  assume "k \<le> n"
  then have e: "v * 2 ^ n = v * 2 ^ (n - k) * 2 ^ k" by (simp add: power_add [symmetric])
  have "(v * 2 ^ n + d) div 2 ^ k = v * 2 ^ (n - k) + d div 2 ^ k" unfolding e by simp
  then show ?thesis unfolding e by (simp add: distrib_right)
qed

lemma div_shift_all: "0 \<le> d \<Longrightarrow> d < 2 ^ n \<Longrightarrow> (v * 2 ^ n + d) div 2 ^ (n + k) * 2 ^ (n + k) = v div 2 ^ k * 2 ^ k * 2 ^ n" for v d :: int
proof -
  assume d: "0 \<le> d" "d < 2 ^ n"
  have "(v * 2 ^ n + d) div 2 ^ (n + k) = (v * 2 ^ n + d) div 2 ^ n div 2 ^ k"
    by (simp add: power_add zdiv_zmult2_eq)
  also have "(v * 2 ^ n + d) div 2 ^ n = v" using d by (simp add: div_pos_pos_trivial)
  finally show ?thesis by (simp add: power_add)
qed

lemma apply_mask_loop_val:
  assumes "gb \<le> 16" "\<forall>g\<in>set rs. group_ok (2 ^ gb - 1) g" "bits \<le> gb * length rs"
  shows "groups_val gb (map r_from (apply_mask_loop gb (length rs) bits rs)) =
      groups_val gb (map r_from rs) div 2 ^ bits * 2 ^ bits \<and>
    groups_val gb (map r_to (apply_mask_loop gb (length rs) bits rs)) =
      groups_val gb (map r_to rs) div 2 ^ bits * 2 ^ bits + (2 ^ bits - 1)"
  using assms(2,3)
proof (induction rs arbitrary: bits rule: rev_induct)
  case Nil
  then show ?case by (simp add: groups_val_Nil)
next
  case (snoc r rs)
  have p: "(2 :: int) ^ gb \<le> 2 ^ 16" using assms(1) by (intro power_increasing) simp_all
  have ok: "group_ok (2 ^ gb - 1) r" using snoc.prems by simp
  then have g: "group_ok 65535 r" using p by (auto simp: group_ok_def)
  have b: "0 \<le> r_from r" "r_from r < 2 ^ gb" "0 \<le> r_to r" "r_to r < 2 ^ gb" using ok by (auto simp: group_ok_def)
  show ?case
  proof (cases "bits = 0")
    case True
    then show ?thesis by simp
  next
    case False
    define m where "m = min bits gb"
    have loop: "apply_mask_loop gb (length (rs @ [r])) bits (rs @ [r]) =
        apply_mask_loop gb (length rs) (bits - gb) rs @ [mask_group m r]"
      using False by (simp add: apply_mask_loop_prefix m_def nth_append list_update_append)
    have "\<forall>g\<in>set rs. group_ok (2 ^ gb - 1) g" "bits - gb \<le> gb * length rs" using snoc.prems by simp_all
    note ih = snoc.IH [OF this]
    note mv = mask_group_val [OF g, of m]
    have m16: "m \<le> 16" using assms(1) by (simp add: m_def)
    show ?thesis
    proof (cases "bits \<le> gb")
      case True
      then have "m = bits" "bits - gb = 0" by (simp_all add: m_def)
      then show ?thesis
        unfolding loop using ih mv m16 div_shift [OF True b(1,2)] div_shift [OF True b(3,4)]
        by (simp add: groups_val_snoc)
    next
      case big: False
      define k where "k = bits - gb"
      have k: "bits = gb + k" "m = gb" using big by (simp_all add: k_def m_def)
      have z: "r_from r div 2 ^ gb = 0" "r_to r div 2 ^ gb = 0" using b by (simp_all add: div_pos_pos_trivial)
      have e: "2 ^ (gb + k) - 1 = (2 ^ k - 1) * 2 ^ gb + (2 ^ gb - 1 :: int)" by (simp add: power_add algebra_simps)
      show ?thesis
        unfolding loop using ih mv m16 div_shift_all [OF b(1,2), of _ k] div_shift_all [OF b(3,4), of _ k] k z e
        by (simp add: groups_val_snoc distrib_right k_def [symmetric])
    qed
  qed
qed

section \<open>What the parser accepts\<close>

definition range_number :: "(nat \<Rightarrow> nat \<Rightarrow> int option) \<Rightarrow> int \<Rightarrow> bool" where
  "range_number number mx \<longleftrightarrow> (\<forall>a n v. number a n = Some v \<longrightarrow> 0 \<le> v \<and> v \<le> mx)"

lemma range_numberI: "(\<And>a n. number a n = (if P a n then Some (uint (take_bit 32 (of_nat (f a n) :: u64))) else None)) \<Longrightarrow>
    (\<And>a n. P a n \<Longrightarrow> f a n \<le> unat mx) \<Longrightarrow> range_number number (uint mx)" for mx :: u64
proof -
  assume n: "\<And>a n. number a n = (if P a n then Some (uint (take_bit 32 (of_nat (f a n) :: u64))) else None)"
    and P: "\<And>a n. P a n \<Longrightarrow> f a n \<le> unat mx"
  have "uint (take_bit 32 (of_nat x :: u64)) \<le> uint mx" if x: "x \<le> unat mx" for x
  proof -
    have "unat (take_bit 32 (of_nat x :: u64)) = take_bit 32 (unat (of_nat x :: u64))" by (rule unsigned_take_bit_eq)
    also have "\<dots> \<le> unat (of_nat x :: u64)" by (rule take_bit_nat_less_eq_self)
    also have "\<dots> \<le> x" unfolding unsigned_of_nat by simp
    finally have "unat (take_bit 32 (of_nat x :: u64)) \<le> unat mx" using x by (rule order_trans)
    then have "(take_bit 32 (of_nat x) :: u64) \<le> mx" unfolding word_le_nat_alt .
    then show ?thesis unfolding word_le_def .
  qed
  then show ?thesis unfolding range_number_def using n P by (auto split: if_splits)
qed

lemma range_number_dec: "range_number (\<lambda>a n. dec_at s a n mx) (uint mx)"
  by (rule range_numberI [where P = "\<lambda>a n. number_in_range 10 isdigit digit_val (take n (drop a s)) 0 mx"
        and f = "\<lambda>a n. dec_val (take n (drop a s))"])
    (simp_all add: dec_at_def is_uint_n_range_eq number_in_range_def)

lemma range_number_hex: "range_number (\<lambda>a n. hex_at s a n mx) (uint mx)"
  by (rule range_numberI [where P = "\<lambda>a n. number_in_range 16 isxdigit hex_val (take n (drop a s)) 0 mx"
        and f = "\<lambda>a n. hexa_val (take n (drop a s))"])
    (simp_all add: hex_at_def is_hex_n_range_eq number_in_range_def)

lemma iprange_group_ok:
  "iprange_group number s masked a p = Some r \<Longrightarrow> range_number number mx \<Longrightarrow> group_ok mx r"
  unfolding iprange_group_def Let_def
  by (auto simp: range_number_def group_ok_def split: if_splits option.splits)

lemma iprange_end_bits: "iprange_end s mx = Some (e, Some bits) \<Longrightarrow> int bits \<le> uint mx"
  using range_number_dec [of s mx]
  by (auto simp: iprange_end_def range_number_def Let_def split: option.splits)

lemma iprangev4_loop_ok:
  assumes "\<forall>j<index. group_ok 255 (rs ! j)" "length rs = 8" "index \<le> 4"
    "iprangev4_loop s e masked a p index rs = Some (n, rs')"
  shows "length rs' = 8 \<and> n \<le> 4 \<and> (\<forall>j<n. group_ok 255 (rs' ! j))"
  using assms
proof (induction s e masked a p index rs rule: iprangev4_loop.induct)
  case (1 s e masked a p index rs)
  show ?case
  proof (cases "p < e \<and> index < ZBX_IPRANGE_GROUPS_V4")
    case False
    then show ?thesis using 1(2-4) 1(5) [unfolded iprangev4_loop.simps [of s e masked a p index rs] if_not_P [OF False]]
      by simp
  next
    case True
    define q where "q = (case find_from s a (CHR ''.'') of None \<Rightarrow> e | Some p \<Rightarrow> p)"
    obtain r where r: "iprange_group (\<lambda>a n. dec_at s a n 255) s masked a q = Some r"
      and l: "iprangev4_loop s e masked (q + 1) q (index + 1) (rs[index := r]) = Some (n, rs')"
      using 1(5) True by (auto simp: iprangev4_loop.simps [of s e masked a p index rs] q_def Let_def split: option.splits)
    have g: "group_ok 255 r" using iprange_group_ok [OF r] range_number_dec [of s 255] by simp
    have i: "index < 4" using True by (simp add: ZBX_IPRANGE_GROUPS_V4_def)
    have "\<forall>j<index + 1. group_ok 255 (rs[index := r] ! j)"
      using 1(2,3) g i by (auto simp: nth_list_update less_Suc_eq)
    then show ?thesis using "1.IH" [OF True q_def r _ _ _ l] 1(3) i by simp
  qed
qed

lemma iprangev6_loop_ok:
  assumes "\<forall>j<index. group_ok 65535 (rs ! j)" "length rs = 8" "index \<le> 8" "\<forall>f. fill = Some f \<longrightarrow> f < index"
    "iprangev6_loop s e masked a p index fill rs = Inr (Some (n, fill', rs'))"
  shows "length rs' = 8 \<and> n \<le> 8 \<and> (\<forall>j<n. group_ok 65535 (rs' ! j)) \<and> (\<forall>f. fill' = Some f \<longrightarrow> f < n)"
  using assms
proof (induction s e masked a p index fill rs rule: iprangev6_loop.induct)
  case (1 s e masked a p index fill rs)
  note simps = iprangev6_loop.simps [of s e masked a p index fill rs]
  show ?case
  proof (cases "p < e \<and> index < ZBX_IPRANGE_GROUPS_V6")
    case False
    then show ?thesis using 1(3-6) 1(7) [unfolded simps if_not_P [OF False]] by simp
  next
    case True
    define q where "q = (case find_from s a (CHR '':'') of None \<Rightarrow> e | Some p \<Rightarrow> p)"
    have i: "index < 8" using True by (simp add: ZBX_IPRANGE_GROUPS_V6_def)
    note step = 1(7) [unfolded simps if_P [OF True] Let_def, folded q_def]
    have nf: "\<not> (q = a \<and> length s < q + 1)" using step by (auto split: if_splits)
    obtain index' rs1 where g: "(if q = a then if cchar s (q + 1) \<noteq> CHR '':'' then None else Some (index, rs)
        else map_option (\<lambda>r. (index + 1, rs[index := r])) (iprange_group (\<lambda>a n. hex_at s a n 65535) s masked a q)) =
        Some (index', rs1)"
      using step unfolding if_not_P [OF nf] by (auto split: option.splits prod.splits)
    note step2 = step [unfolded if_not_P [OF nf] g option.case prod.case]
    have ok: "\<forall>j<index'. group_ok 65535 (rs1 ! j)" "length rs1 = 8" "index' \<le> 8" "index \<le> index'"
    proof -
      have "group_ok 65535 r" if "iprange_group (\<lambda>a n. hex_at s a n 65535) s masked a q = Some r" for r
        using iprange_group_ok [OF that] range_number_hex [of s 65535] by simp
      then show "\<forall>j<index'. group_ok 65535 (rs1 ! j)" "length rs1 = 8" "index' \<le> 8" "index \<le> index'"
        using g 1(3,4) i by (auto simp: nth_list_update less_Suc_eq split: if_splits)
    qed
    show ?thesis
    proof (cases "cchar s q \<noteq> NUL \<and> cchar s (q + 1) = CHR '':''")
      case fill: True
      note step3 = step2 [unfolded if_P [OF fill]]
      define rs2 where "rs2 = rs1[index' := \<lparr>r_from = 0, r_to = 0\<rparr>]"
      have f: "fill = None" "\<not> ZBX_IPRANGE_GROUPS_V6 \<le> index'" using step3 by (auto split: if_splits)
      have i': "index' < 8" using f(2) by (simp add: ZBX_IPRANGE_GROUPS_V6_def)
      have ok2: "\<forall>j<index' + 1. group_ok 65535 (rs2 ! j)" "length rs2 = 8"
        using ok i' by (auto simp: rs2_def nth_list_update less_Suc_eq group_ok_def)
      show ?thesis
      proof (cases "q + 1 = e - 1")
        case True
        then show ?thesis using step3 f ok2 i' by (auto simp: rs2_def)
      next
        case False
        then have "iprangev6_loop s e masked (q + 2) (q + 1) (index' + 1) (Some index') rs2 = Inr (Some (n, fill', rs'))"
          using step3 f by (simp add: rs2_def)
        then show ?thesis
          using "1.IH"(1) [OF True q_def nf g refl fill _ f(2) rs2_def False] ok2 i' f(1) by simp
      qed
    next
      case nofill: False
      note step3 = step2 [unfolded if_not_P [OF nofill]]
      have ne: "index' \<noteq> index" using step3 by auto
      then have "iprangev6_loop s e masked (q + 1) q index' fill rs1 = Inr (Some (n, fill', rs'))" using step3 by simp
      then show ?thesis
        using "1.IH"(2) [OF True q_def nf g refl nofill ne] ok 1(6) less_le_trans [OF _ ok(4)] by simp
    qed
  qed
qed

lemma iprangev6_shift_ok:
  assumes "length rs = 8" "fill < index" "index \<le> Suc target" "target < 8"
    "\<forall>j<index. group_ok 65535 (rs ! j)" "\<forall>j<8. target < j \<longrightarrow> group_ok 65535 (rs ! j)"
    "iprangev6_shift fill index target rs = (t, rs')"
  shows "length rs' = 8 \<and> t < 8 \<and> (\<forall>j\<le>fill. group_ok 65535 (rs' ! j)) \<and> (\<forall>j<8. t < j \<longrightarrow> group_ok 65535 (rs' ! j))"
  using assms
proof (induction fill index target rs rule: iprangev6_shift.induct)
  case (1 fill target rs)
  then show ?case by simp
next
  case (2 fill index target rs)
  show ?case
  proof (cases "fill < index")
    case False
    then have "fill = index" using "2.prems"(2) by simp
    then show ?thesis using 2 by (auto simp: le_imp_less_Suc)
  next
    case True
    have r: "group_ok 65535 (rs ! index)" using "2.prems"(5) by simp
    have len: "length (rs[target := rs ! index]) = 8" using "2.prems"(1) by simp
    have o1: "\<forall>j<index. group_ok 65535 (rs[target := rs ! index] ! j)"
      using "2.prems"(1,4,5) r by (auto simp: nth_list_update)
    have o2: "\<forall>j<8. target - 1 < j \<longrightarrow> group_ok 65535 (rs[target := rs ! index] ! j)"
      using "2.prems"(1,4,6) r True "2.prems"(3) by (auto simp: nth_list_update)
    have t: "target - 1 < 8" "index \<le> Suc (target - 1)" using "2.prems"(3,4) True by simp_all
    show ?thesis using "2.IH" [OF True len True t(2,1) o1 o2] "2.prems"(7) True by simp
  qed
qed

lemma iprangev6_zeros_ok:
  assumes "length rs = 8" "t < 8" "\<forall>j\<le>fill. group_ok 65535 (rs ! j)" "\<forall>j<8. t < j \<longrightarrow> group_ok 65535 (rs ! j)"
  shows "length (iprangev6_zeros fill t rs) = 8 \<and> (\<forall>j<8. group_ok 65535 (iprangev6_zeros fill t rs ! j))"
  using assms
proof (induction fill t rs rule: iprangev6_zeros.induct)
  case (1 fill rs)
  then show ?case by (metis iprangev6_zeros.simps(1) le0 neq0_conv)
next
  case (2 fill target rs)
  show ?case
  proof (cases "fill < Suc target")
    case False
    then show ?thesis using 2 by (auto simp: not_less)
  next
    case True
    let ?rs = "rs[Suc target := \<lparr>r_from = 0, r_to = 0\<rparr>]"
    have "\<forall>j\<le>fill. group_ok 65535 (?rs ! j)" "\<forall>j<8. target < j \<longrightarrow> group_ok 65535 (?rs ! j)"
      using 2 True by (auto simp: nth_list_update group_ok_def)
    then show ?thesis using 2 True by simp
  qed
qed

lemma apply_mask_loop_ok:
  assumes "\<forall>g\<in>set rs. group_ok (2 ^ gb - 1) g" "gb \<le> 16" "i \<le> length rs"
  shows "\<forall>g\<in>set (apply_mask_loop gb i bits rs). group_ok (2 ^ gb - 1) g"
  using assms(1,3)
proof (induction i arbitrary: bits rs)
  case (Suc i)
  have "group_ok (2 ^ gb - 1) (mask_group (min bits gb) (rs ! i))"
    using Suc.prems assms(2) by (intro mask_group_ok [THEN conjunct1]) simp_all
  then have "\<forall>g\<in>set (rs[i := mask_group (min bits gb) (rs ! i)]). group_ok (2 ^ gb - 1) g"
    using Suc.prems(1) set_update_subset_insert [of rs i] by blast
  then show ?case using Suc by simp
qed simp

lemma iprange_apply_mask_groups:
  assumes "iprange_inv r" "bits \<le> (if ip_type r = ZBX_IPRANGE_V4 then 32 else 128)"
  shows "iprange_inv (iprange_apply_mask r bits) \<and> ip_type (iprange_apply_mask r bits) = ip_type r \<and>
    ip_mask (iprange_apply_mask r bits) = ip_mask r"
proof (cases "ip_type r")
  case ZBX_IPRANGE_V4
  then have rs: "ip_range r = take 4 (ip_range r) @ drop 4 (ip_range r)" "length (ip_range r) = 8"
      "\<forall>g\<in>set (take 4 (ip_range r)). group_ok (2 ^ 8 - 1) g"
    using assms(1) by (simp_all add: iprange_inv_def iprange_group_defs)
  have "apply_mask_loop 8 4 (4 * 8 - bits) (ip_range r) = apply_mask_loop 8 4 (4 * 8 - bits) (take 4 (ip_range r)) @ drop 4 (ip_range r)"
    using apply_mask_loop_prefix [of 4 "take 4 (ip_range r)" 8 "4 * 8 - bits" "drop 4 (ip_range r)"] rs(2) by simp
  moreover have "\<forall>g\<in>set (apply_mask_loop 8 4 (4 * 8 - bits) (take 4 (ip_range r))). group_ok (2 ^ 8 - 1) g"
    using rs by (intro apply_mask_loop_ok) simp_all
  ultimately show ?thesis using ZBX_IPRANGE_V4 rs(2)
    by (simp add: iprange_apply_mask_def iprange_inv_def iprange_group_defs)
next
  case ZBX_IPRANGE_V6
  then have rs: "length (ip_range r) = 8" "\<forall>g\<in>set (ip_range r). group_ok (2 ^ 16 - 1) g"
    using assms(1) by (simp_all add: iprange_inv_def iprange_group_defs)
  then have "\<forall>g\<in>set (apply_mask_loop 16 8 (8 * 16 - bits) (ip_range r)). group_ok (2 ^ 16 - 1) g"
    by (intro apply_mask_loop_ok) simp_all
  then show ?thesis using ZBX_IPRANGE_V6 rs(1)
    by (simp add: iprange_apply_mask_def iprange_inv_def iprange_group_defs)
qed

text \<open>A mask of at most 30 bits leaves at least two bits of the last IPv4 group free.\<close>

lemma iprange_apply_mask_last:
  assumes "iprange_inv r" "ip_type r = ZBX_IPRANGE_V4" "bits \<le> 30"
  shows "2 \<le> r_to (ip_range (iprange_apply_mask r bits) ! 3) - r_from (ip_range (iprange_apply_mask r bits) ! 3)"
proof -
  have keep: "apply_mask_loop gb i b rs ! j = rs ! j" if "i \<le> j" for gb i b rs j
    using that by (induction i arbitrary: b rs) simp_all
  have len: "length (ip_range r) = 8" using assms(1) by (simp add: iprange_inv_def)
  have ok: "group_ok (2 ^ 8 - 1) (ip_range r ! 3)"
    using assms(1,2) len nth_mem [of 3 "take 4 (ip_range r)"] by (simp add: iprange_inv_def iprange_group_defs)
  define b where "b = 32 - bits"
  have b: "2 \<le> b" using assms(3) by (simp add: b_def)
  define m where "m = min b 8"
  have m: "2 \<le> m" "m \<le> 8" using b by (simp_all add: m_def)
  have "apply_mask_loop 8 (Suc 3) b (ip_range r) = apply_mask_loop 8 3 (b - 8) ((ip_range r)[3 := mask_group m (ip_range r ! 3)])"
    unfolding apply_mask_loop.simps m_def using b by simp
  then have e: "apply_mask_loop 8 (Suc 3) b (ip_range r) ! 3 = mask_group m (ip_range r ! 3)"
    using len by (simp add: keep)
  have s: "ip_range (iprange_apply_mask r bits) = apply_mask_loop 8 (Suc 3) b (ip_range r)"
    using assms(2) by (simp add: iprange_apply_mask_def b_def)
  have "(2 :: int) ^ 2 \<le> 2 ^ m" using m(1) by (intro power_increasing) simp_all
  then show ?thesis using mask_group_ok [OF ok m(2)] unfolding s e by simp
qed

lemma iprangev4_parse_usable:
  assumes "iprangev4_parse junk s = Some r" "length junk = 8"
  shows "usable_range r"
proof -
  obtain e bits where e: "iprange_end s 30 = Some (e, bits)"
    using assms(1) by (auto simp: iprangev4_parse_def split: option.splits)
  obtain n rs where l: "iprangev4_loop s e (bits \<noteq> None) 0 0 0 junk = Some (n, rs)" "n = 4"
    using assms(1) e by (auto simp: iprangev4_parse_def ZBX_IPRANGE_GROUPS_V4_def split: option.splits if_splits)
  have ok: "length rs = 8" "\<forall>j<4. group_ok 255 (rs ! j)"
    using iprangev4_loop_ok [OF _ assms(2) _ l(1)] l(2) by simp_all
  define q where "q = \<lparr>ip_range = rs, ip_type = ZBX_IPRANGE_V4, ip_mask = (bits \<noteq> None)\<rparr>"
  have inv: "iprange_inv q"
    using ok by (auto simp: q_def iprange_inv_def iprange_group_defs in_set_conv_nth)
  have r: "r = (case bits of None \<Rightarrow> q | Some b \<Rightarrow> iprange_apply_mask q b)"
    using assms(1) e l by (cases bits) (simp_all add: iprangev4_parse_def ZBX_IPRANGE_GROUPS_V4_def q_def Let_def)
  show ?thesis
  proof (cases bits)
    case None
    then show ?thesis using r inv by (simp add: usable_range_def excluded_def q_def)
  next
    case (Some b)
    then have "b \<le> 30" using iprange_end_bits [of s 30 e b] e by simp
    then show ?thesis
      using Some r iprange_apply_mask_groups [OF inv, of b] iprange_apply_mask_last [OF inv, of b]
      by (simp add: usable_range_def q_def)
  qed
qed

lemma iprangev6_parse_usable:
  assumes "iprangev6_parse junk s = Inr (Some r)" "length junk = 8"
  shows "usable_range r"
proof -
  obtain e bits where e: "iprange_end s 128 = Some (e, bits)"
    using assms(1) by (auto simp: iprangev6_parse_def split: option.splits)
  obtain n fill rs where l: "iprangev6_loop s e (bits \<noteq> None) 0 0 0 None junk = Inr (Some (n, fill, rs))"
    using assms(1) e by (auto simp: iprangev6_parse_def split: sum.splits option.splits prod.splits)
  have ok: "length rs = 8" "n \<le> 8" "\<forall>j<n. group_ok 65535 (rs ! j)" "\<forall>f. fill = Some f \<longrightarrow> f < n"
    using iprangev6_loop_ok [OF _ assms(2) _ _ l] by simp_all
  have fill: "n < 8 \<Longrightarrow> fill \<noteq> None"
    using assms(1) e l by (auto simp: iprangev6_parse_def ZBX_IPRANGE_GROUPS_V6_def Let_def split: if_splits)
  define rs' where "rs' = (if n < 8 then case iprangev6_shift (the fill) n 7 rs of
      (target, rs) \<Rightarrow> iprangev6_zeros (the fill) target rs else rs)"
  have rs': "length rs' = 8 \<and> (\<forall>j<8. group_ok 65535 (rs' ! j))"
  proof (cases "n < 8")
    case False
    then show ?thesis using ok by (auto simp: rs'_def)
  next
    case True
    obtain f where f: "fill = Some f" "f < n" using fill [OF True] ok(4) by auto
    obtain t rs1 where sh: "iprangev6_shift f n 7 rs = (t, rs1)" by force
    have "length rs1 = 8 \<and> t < 8 \<and> (\<forall>j\<le>f. group_ok 65535 (rs1 ! j)) \<and> (\<forall>j<8. t < j \<longrightarrow> group_ok 65535 (rs1 ! j))"
      using ok f True by (intro iprangev6_shift_ok [OF _ _ _ _ _ _ sh]) simp_all
    then show ?thesis using iprangev6_zeros_ok [of rs1 t f] f sh True by (simp add: rs'_def)
  qed
  define q where "q = \<lparr>ip_range = rs', ip_type = ZBX_IPRANGE_V6, ip_mask = (bits \<noteq> None)\<rparr>"
  have inv: "iprange_inv q"
    using rs' by (auto simp: q_def iprange_inv_def iprange_group_defs in_set_conv_nth)
  have r: "r = (case bits of None \<Rightarrow> q | Some b \<Rightarrow> iprange_apply_mask q b)"
    using assms(1) e l ok(2) fill
    by (cases bits) (simp_all add: iprangev6_parse_def ZBX_IPRANGE_GROUPS_V6_def q_def rs'_def Let_def split: if_splits)
  have "iprange_inv r \<and> ip_type r = ZBX_IPRANGE_V6"
  proof (cases bits)
    case None
    then show ?thesis using r inv by (simp add: q_def)
  next
    case (Some b)
    then have "b \<le> 128" using iprange_end_bits [of s 128 e b] e by simp
    then show ?thesis using Some r iprange_apply_mask_groups [OF inv, of b] by (simp add: q_def)
  qed
  then show ?thesis by (simp add: usable_range_def excluded_def)
qed

section \<open>The number of addresses\<close>

lemma iprange_volume_loop_exact:
  assumes "\<forall>g\<in>set rs. group_ok 65535 g" "0 < vol"
  shows "iprange_volume_loop rs vol =
    (if uint vol * volume_of rs < 2 ^ 64 then Some (of_int (uint vol * volume_of rs)) else None)"
  using assms
proof (induction rs arbitrary: vol)
  case Nil
  then show ?case using uint_lt2p [of vol] by simp
next
  case (Cons g rs)
  define k where "k = r_to g - r_from g + 1"
  have k: "1 \<le> k" "k \<le> 65536" using Cons.prems(1) by (auto simp: k_def group_ok_def)
  define n where "n = (word_of_int k :: u64)"
  have n: "uint n = k" using k unfolding n_def unsigned_of_int by (simp add: take_bit_int_eq_self_iff)
  have un: "unat n = nat k" using n by (simp add: unat_eq_nat_uint)
  have mx: "unat ((NOT 0) :: u64) = 2 ^ 64 - 1" by (simp add: unsigned_minus_1_eq_mask mask_eq_exp_minus_1)
  have uv: "int (unat vol) = uint vol" by simp
  have ov: "(NOT 0) div n < vol \<longleftrightarrow> 2 ^ 64 \<le> uint vol * k"
  proof -
    have "(NOT 0) div n < vol \<longleftrightarrow> (2 ^ 64 - 1) div nat k < unat vol" unfolding word_less_nat_alt unat_div mx un ..
    also have "\<dots> \<longleftrightarrow> 2 ^ 64 - 1 < unat vol * nat k" using div_le_iff [of "nat k" 0 "2 ^ 64 - 1" "unat vol"] k by simp
    also have "\<dots> \<longleftrightarrow> 2 ^ 64 \<le> unat vol * nat k" by simp linarith
    also have "\<dots> \<longleftrightarrow> 2 ^ 64 \<le> int (unat vol * nat k)" by (metis of_nat_le_iff of_nat_numeral of_nat_power)
    also have "int (unat vol * nat k) = uint vol * k" using k uv by simp
    finally show ?thesis .
  qed
  have vp: "1 \<le> volume_of rs" using volume_pos [of rs] Cons.prems(1) by (force simp: group_ok_def)
  have e: "uint vol * volume_of (g # rs) = uint vol * k * volume_of rs" by (simp add: k_def)
  show ?case
  proof (cases "2 ^ 64 \<le> uint vol * k")
    case True
    have "uint vol * k * 1 \<le> uint vol * k * volume_of rs" using vp k by (intro mult_left_mono) simp_all
    then have "\<not> uint vol * volume_of (g # rs) < 2 ^ 64" using True unfolding e by linarith
    then show ?thesis using True ov by (simp add: n_def k_def Let_def)
  next
    case False
    have p: "uint (vol * n) = uint vol * k"
      using False k by (simp add: uint_word_ariths n)
    have "0 < uint vol" using Cons.prems(2) by (simp add: word_less_def)
    then have "0 < uint vol * k" using k by simp
    then have "0 < vol * n" using p by (simp add: word_less_def)
    then have "iprange_volume_loop rs (vol * n) = (if uint (vol * n) * volume_of rs < 2 ^ 64
        then Some (of_int (uint (vol * n) * volume_of rs)) else None)" using Cons by simp
    then show ?thesis using False ov unfolding e p [symmetric] by (simp add: n_def k_def Let_def)
  qed
qed

text \<open>\<open>iprange_volume\<close> is the number of addresses that the enumeration visits, and the largest 64 bit
  value when that number does not fit.\<close>

theorem iprange_volume_exact:
  assumes "usable_range r"
  shows "uint (iprange_volume r) =
    (if volume_of (active_groups r) < 2 ^ 64 then volume_of (active_groups r) - 2 * excluded r else 2 ^ 64 - 1)"
proof -
  let ?rs = "active_groups r"
  have inv: "iprange_inv r" using assms by (simp add: usable_range_def)
  have g: "\<forall>g\<in>set ?rs. group_ok 65535 g"
    using inv by (auto simp: iprange_inv_def group_ok_def split: if_splits)
  have v: "iprange_volume_loop ?rs 1 = (if volume_of ?rs < 2 ^ 64 then Some (of_int (volume_of ?rs)) else None)"
    using iprange_volume_loop_exact [OF g, of 1] by simp
  have b: "2 * excluded r < volume_of ?rs" by (rule volume_bound [OF assms])
  show ?thesis
  proof (cases "volume_of ?rs < 2 ^ 64")
    case False
    then show ?thesis using v by (simp add: iprange_volume_def unsigned_minus_1_eq_mask mask_eq_exp_minus_1)
  next
    case True
    have x: "excluded r = 0 \<or> excluded r = 1" by (simp add: excluded_def)
    have u: "uint (word_of_int k :: u64) = k" if "0 \<le> k" "k < 2 ^ 64" for k
      using that unfolding unsigned_of_int by (simp add: take_bit_int_eq_self_iff)
    have "iprange_volume r = word_of_int (volume_of ?rs - 2 * excluded r)"
      using v True unfolding iprange_volume_def by (simp add: excluded_def)
    then show ?thesis using u [of "volume_of ?rs - 2 * excluded r"] True b x by auto
  qed
qed

lemma iprange_volume_exact_witness:
  "uint (iprange_volume \<lparr>ip_range = [\<lparr>r_from = 10, r_to = 10\<rparr>, \<lparr>r_from = 0, r_to = 3\<rparr>, \<lparr>r_from = 0, r_to = 255\<rparr>,
      \<lparr>r_from = 0, r_to = 255\<rparr>] @ replicate 4 \<lparr>r_from = 0, r_to = 0\<rparr>, ip_type = ZBX_IPRANGE_V4, ip_mask = True\<rparr>) = 262142"
  by (subst iprange_volume_exact)
    (simp_all add: usable_range_def iprange_inv_def iprange_group_defs group_ok_def excluded_def)

section \<open>Properties\<close>

text \<open>C32. Whatever text the parser accepts, the range it gives is well formed: eight groups whose bounds are ordered
  and fit the address family, and at least three addresses after a mask; so counting and enumerating it are sound.\<close>

theorem iprange_parse_usable:
  assumes "iprange_parse junk s = Inr (Some r)" "length junk = 8"
  shows "usable_range r"
  using assms iprangev4_parse_usable [of junk _ r] iprangev6_parse_usable [of junk _ r]
  by (simp add: iprange_parse_def Let_def split: if_splits)

lemma iprange_parse_usable_witness:
  "usable_range (the (projr (iprange_parse (replicate 8 \<lparr>r_from = 7, r_to = 5\<rparr>) '' 192.168.0.77/28'')))"
  by (rule iprange_parse_usable [of "replicate 8 \<lparr>r_from = 7, r_to = 5\<rparr>" "'' 192.168.0.77/28''"]) (code_simp, simp)

text \<open>A network mask of \<open>bits\<close> bits turns the bounds of a range, read as one number, into the lowest and the
  highest address that agree with them on the first \<open>bits\<close> bits.\<close>

theorem iprange_apply_mask_exact:
  assumes "iprange_inv r" "ip_type r = ZBX_IPRANGE_V4" "bits \<le> 32"
  shows "groups_val 8 (map r_from (active_groups (iprange_apply_mask r bits))) =
      groups_val 8 (map r_from (active_groups r)) div 2 ^ (32 - bits) * 2 ^ (32 - bits) \<and>
    groups_val 8 (map r_to (active_groups (iprange_apply_mask r bits))) =
      groups_val 8 (map r_to (active_groups r)) div 2 ^ (32 - bits) * 2 ^ (32 - bits) + (2 ^ (32 - bits) - 1)"
proof -
  let ?rs = "take 4 (ip_range r)"
  have rs: "ip_range r = ?rs @ drop 4 (ip_range r)" "length ?rs = 4" "\<forall>g\<in>set ?rs. group_ok (2 ^ 8 - 1) g"
    using assms(1,2) by (simp_all add: iprange_inv_def iprange_group_defs)
  have "apply_mask_loop 8 4 (32 - bits) (ip_range r) = apply_mask_loop 8 4 (32 - bits) ?rs @ drop 4 (ip_range r)"
    using apply_mask_loop_prefix [of 4 ?rs 8 "32 - bits" "drop 4 (ip_range r)"] rs(2) by simp
  then have "active_groups (iprange_apply_mask r bits) = apply_mask_loop 8 (length ?rs) (32 - bits) ?rs"
    using assms(2) rs(2) by (simp add: iprange_apply_mask_def iprange_group_defs)
  moreover have "active_groups r = ?rs" using assms(2) by (simp add: iprange_group_defs)
  ultimately show ?thesis using apply_mask_loop_val [of 8 ?rs "32 - bits"] rs by simp
qed

lemma iprange_apply_mask_exact_witness:
  "groups_val 8 (map r_from (active_groups (iprange_apply_mask
      \<lparr>ip_range = map (\<lambda>d. \<lparr>r_from = d, r_to = d\<rparr>) [192, 168, 5, 77, 0, 0, 0, 0], ip_type = ZBX_IPRANGE_V4, ip_mask = True\<rparr> 22))) =
    groups_val 8 [192, 168, 4, 0]"
  using iprange_apply_mask_exact [of "\<lparr>ip_range = map (\<lambda>d. \<lparr>r_from = d, r_to = d\<rparr>) [192, 168, 5, 77, 0, 0, 0, 0],
      ip_type = ZBX_IPRANGE_V4, ip_mask = True\<rparr>" 22]
  by (simp add: iprange_inv_def iprange_group_defs group_ok_def groups_val_def)

section \<open>Addresses behind which the parser reads and writes\<close>

definition hex_group :: "string \<Rightarrow> bool" where
  "hex_group g \<longleftrightarrow> g \<noteq> [] \<and> list_all isxdigit g \<and> hexa_val g \<le> 65535"

definition groups_text :: "string list \<Rightarrow> string" where
  "groups_text gs = concat (map (\<lambda>g. g @ '':'') gs)"

lemma groups_text_simps: "groups_text [] = []" "groups_text (g # gs) = g @ CHR '':'' # groups_text gs"
  by (simp_all add: groups_text_def)

lemma hex_group_chars:
  assumes "hex_group g" "c \<in> set g"
  shows "c \<noteq> CHR '':'' \<and> c \<noteq> CHR ''-'' \<and> c \<noteq> CHR ''/'' \<and> c \<noteq> CHR ''.'' \<and> \<not> iprange_is_whitespace_character c"
proof -
  have "isxdigit c" using assms by (simp add: hex_group_def list_all_iff)
  then show ?thesis by (auto simp: isxdigit_def isdigit_def iprange_is_whitespace_character_def)
qed

lemma groups_text_chars:
  assumes "list_all hex_group gs" "c \<in> set (groups_text gs)"
  shows "c \<noteq> CHR ''-'' \<and> c \<noteq> CHR ''/'' \<and> c \<noteq> CHR ''.''"
proof -
  have "c = CHR '':'' \<or> (\<exists>g. hex_group g \<and> c \<in> set g)"
    using assms by (auto simp: groups_text_def list_all_iff split: if_splits)
  then show ?thesis using hex_group_chars by auto
qed

lemma find_from_at: "c \<notin> set g \<Longrightarrow> find_from (pre @ g @ c # rest) (length pre) c = Some (length pre + length g)"
  by (simp add: find_from_def strchr_Some_iff nth_append) (metis nth_mem)

lemma hex_at_group:
  assumes "hex_group g"
  shows "hex_at (pre @ g @ rest) (length pre) (length g) 65535 \<noteq> None"
  using assms by (simp add: hex_at_def is_hex_n_range_eq number_in_range_def hex_group_def list_all_iff)

text \<open>One round of the loop of IPv6 groups, over a group and its colon.\<close>

lemma iprangev6_round:
  assumes "hex_group g" "s = pre @ g @ CHR '':'' # rest" "CHR ''-'' \<notin> set s" "ptr < length s" "index < 8"
  shows "\<exists>r. iprangev6_loop s (length s) False (length pre) ptr index None rs =
    (if cchar rest 0 = CHR '':'' then
       if 8 \<le> index + 1 then Inl OutOfBounds
       else
         let rs = (rs[index := r])[index + 1 := \<lparr>r_from = 0, r_to = 0\<rparr>]
         in if length pre + length g + 1 = length s - 1 then Inr (Some (index + 1 + 1, Some (index + 1), rs))
            else iprangev6_loop s (length s) False (length pre + length g + 2) (length pre + length g + 1) (index + 1 + 1) (Some (index + 1)) rs
     else iprangev6_loop s (length s) False (length pre + length g + 1) (length pre + length g) (index + 1) None (rs[index := r]))"
proof -
  have "CHR '':'' \<notin> set g" using hex_group_chars [OF assms(1)] by blast
  then have q: "find_from s (length pre) (CHR '':'') = Some (length pre + length g)"
    unfolding assms(2) by (rule find_from_at)
  have g: "length g \<noteq> 0" using assms(1) by (simp add: hex_group_def)
  have "CHR ''-'' \<notin> set (drop (length pre) s)" using assms(3) by (meson in_set_dropD)
  then have dash: "find_from s (length pre) (CHR ''-'') = None" by (simp add: find_from_def)
  obtain v where "hex_at s (length pre) (length g) 65535 = Some v"
    unfolding assms(2) using hex_at_group [OF assms(1)] by blast
  then have r: "iprange_group (\<lambda>a n. hex_at s a n 65535) s False (length pre) (length pre + length g) = Some \<lparr>r_from = v, r_to = v\<rparr>"
    by (simp add: iprange_group_def dash)
  have c: "cchar s (length pre + length g) = CHR '':''" "cchar s (length pre + length g + 1) = cchar rest 0"
    unfolding assms(2) by (simp_all add: cchar_def nth_append)
  show ?thesis
    using assms(4,5) g
    by (intro exI [of _ "\<lparr>r_from = v, r_to = v\<rparr>"], subst iprangev6_loop.simps)
      (simp add: q r c [simplified] ZBX_IPRANGE_GROUPS_V6_def Let_def)
qed

lemma iprangev6_outside:
  assumes "list_all hex_group gs" "gs \<noteq> []" "s = pre @ groups_text gs @ tail" "CHR ''-'' \<notin> set s" "ptr < length s"
    and "if index + length gs = 8 then tail = '':'' else index + length gs < 8 \<and> tail = []"
  shows "iprangev6_loop s (length s) False (length pre) ptr index None rs = Inl OutOfBounds"
  using assms
proof (induction gs arbitrary: pre ptr index rs)
  case (Cons g gs)
  have g: "hex_group g" and s: "s = pre @ g @ CHR '':'' # (groups_text gs @ tail)"
    using Cons.prems(1,3) by (simp_all add: groups_text_simps)
  have i: "index < 8" using Cons.prems(6) by (simp split: if_splits)
  note round = iprangev6_round [OF g s Cons.prems(4,5) i, of rs]
  define pre' where "pre' = pre @ g @ '':''"
  have pre': "length pre' = length pre + length g + 1" "s = pre' @ groups_text gs @ tail" by (simp_all add: pre'_def s)
  show ?case
  proof (cases "gs = []")
    case False
    then obtain h hs where h: "gs = h # hs" "hex_group h" using Cons.prems(1) by (cases gs) auto
    then obtain c h' where ch: "h = c # h'" by (auto simp: hex_group_def neq_Nil_conv)
    then have "c \<noteq> CHR '':''" using hex_group_chars [OF h(2), of c] by simp
    then have n: "cchar (groups_text gs @ tail) 0 \<noteq> CHR '':''" by (simp add: h(1) ch groups_text_simps)
    have p: "length pre + length g < length s" by (simp add: s)
    have x: "if index + 1 + length gs = 8 then tail = '':'' else index + 1 + length gs < 8 \<and> tail = []"
      using Cons.prems(6) by (auto split: if_splits)
    have "list_all hex_group gs" using Cons.prems(1) by simp
    from Cons.IH [OF this False pre'(2) Cons.prems(4) p x] show ?thesis
      using round unfolding if_not_P [OF n] pre'(1) by fastforce
  next
    case True
    show ?thesis
    proof (cases "index + 1 = 8")
      case e: True
      then have "tail = '':''" using Cons.prems(6) True by simp
      then show ?thesis using round e True by (simp add: groups_text_simps)
    next
      case False
      then have t: "tail = []" "index + 1 < 8" using Cons.prems(6) True by (simp_all split: if_splits)
      have l: "length s = length pre + length g + 1" by (simp add: s t True groups_text_simps)
      have "find_from s (length s) (CHR '':'') = None" by (simp add: find_from_def)
      then have "iprangev6_loop s (length s) False (length s) (length pre + length g) (index + 1) None rs' = Inl OutOfBounds" for rs'
        using t(2) l by (subst iprangev6_loop.simps) (simp add: ZBX_IPRANGE_GROUPS_V6_def)
      then show ?thesis using round by (simp add: t True groups_text_simps l)
    qed
  qed
qed simp

text \<open>C40. After any eight groups of an IPv6 address, a double colon makes the parser write a ninth group behind its array of eight;
  after any smaller number of groups, a single colon at the end makes it read the character behind the end of the text.\<close>

theorem iprange_parse_outside:
  assumes "list_all hex_group gs" "gs \<noteq> []"
  shows "(length gs = 8 \<longrightarrow> iprange_parse junk (groups_text gs @ '':'') = Inl OutOfBounds) \<and>
    (length gs < 8 \<longrightarrow> iprange_parse junk (groups_text gs) = Inl OutOfBounds)"
proof -
  have "iprange_parse junk s = Inl OutOfBounds"
    if s: "s = groups_text gs @ tail" and tail: "if length gs = 8 then tail = '':'' else length gs < 8 \<and> tail = []" for s tail
  proof -
    obtain g gs' where g: "gs = g # gs'" "hex_group g" using assms by (cases gs) auto
    obtain c g' where c: "g = c # g'" using g(2) by (cases g) (auto simp: hex_group_def)
    have ws: "\<not> iprange_is_whitespace_character c" using hex_group_chars [OF g(2), of c] c by simp
    have start: "dropWhile iprange_is_whitespace_character s = s" by (simp add: s g(1) c groups_text_simps ws)
    have "set s \<subseteq> set (groups_text gs) \<union> {CHR '':''}" using tail by (auto simp: s split: if_splits)
    then have chars: "CHR ''-'' \<notin> set s" "CHR ''/'' \<notin> set s" "CHR ''.'' \<notin> set s"
      using groups_text_chars [OF assms(1)] by blast+
    have "\<exists>t. s = t @ '':''"
    proof (cases "tail = []")
      case True
      have "groups_text gs = groups_text (butlast gs) @ last gs @ '':''"
        using assms(2) unfolding groups_text_def by (subst append_butlast_last_id [symmetric], assumption) (simp only: map_append concat_append, simp)
      then show ?thesis using s True by simp
    next
      case False
      then show ?thesis using s tail by (auto split: if_splits)
    qed
    then have l: "iprange_address_length s = length s"
      by (auto simp: iprange_address_length_def iprange_is_whitespace_character_def)
    have e: "iprange_end s 128 = Some (length s, None)" using chars(2) by (simp add: iprange_end_def l strchr_None_iff [THEN iffD2])
    have "0 < length s" by (simp add: s g(1) groups_text_simps)
    then have "iprangev6_loop s (length s) False 0 0 0 None junk = Inl OutOfBounds"
      using iprangev6_outside [OF assms, of s "[]" tail 0 0 junk] chars(1) tail s by simp
    then show ?thesis using chars(3) by (simp add: iprange_parse_def Let_def start strchr_None_iff [THEN iffD2] iprangev6_parse_def e)
  qed
  then show ?thesis by force
qed

lemma iprange_parse_outside_witness:
  "iprange_parse (replicate 8 \<lparr>r_from = 0, r_to = 0\<rparr>) ''1:2:3:4:5:6:7:8::'' = Inl OutOfBounds \<and> iprange_parse (replicate 8 \<lparr>r_from = 0, r_to = 0\<rparr>) ''fe80:'' = Inl OutOfBounds"
proof -
  have e: "list_all hex_group [''1'', ''2'', ''3'', ''4'', ''5'', ''6'', ''7'', ''8'']" "list_all hex_group [''fe80'']"
    by (simp_all add: hex_group_def isxdigit_def isdigit_def hex_val_def)
  show ?thesis using iprange_parse_outside [OF e(1), of "replicate 8 \<lparr>r_from = 0, r_to = 0\<rparr>"] iprange_parse_outside [OF e(2), of "replicate 8 \<lparr>r_from = 0, r_to = 0\<rparr>"]
    by (simp add: groups_text_def)
qed

end
