(* ===== verification/Calendar.thy ===== *)
theory Calendar
  imports NumParse
begin

text \<open>
  Dates (\<open>src/libs/zbxcommon/misc.c\<close>): leap years, the length of a month, the timestamp of a date in
  UTC and the day of the week. Years, months and days are \<open>int\<close> values; \<open>/\<close> and \<open>%\<close> of C are \<open>div\<close> and
  \<open>mod\<close> here, which they equal on the years after 1752 that the functions are made for.
\<close>

definition is_leap_year :: "int \<Rightarrow> bool" where
  "is_leap_year year \<longleftrightarrow> 0 = year mod 4 \<and> (0 \<noteq> year mod 100 \<or> 0 = year mod 400)"

definition days_of_months :: "int list" where
  "days_of_months = [31, 28, 31, 30, 31, 30, 31, 31, 30, 31, 30, 31]"

definition zbx_day_in_month :: "int \<Rightarrow> int \<Rightarrow> int" where
  "zbx_day_in_month year mon =
    (if 1 \<le> mon \<and> mon \<le> 12
     then days_of_months ! nat (mon - 1) + (if 2 = mon \<and> is_leap_year year then 1 else 0)
     else 30)"

definition SEC_PER_YEAR :: int where
  "SEC_PER_YEAR = 365 * SEC_PER_DAY"

definition ZBX_LEAP_YEARS :: "int \<Rightarrow> int" where
  "ZBX_LEAP_YEARS year = (year - 1) div 4 - (year - 1) div 100 + (year - 1) div 400"

definition month_day :: "int list" where
  "month_day = [0, 31, 59, 90, 120, 151, 181, 212, 243, 273, 304, 334]"

text \<open>A value computed in the C type \<open>int\<close>: 32 bits in two's complement.\<close>

definition wrap_int :: "int \<Rightarrow> int" where
  "wrap_int x = sint (word_of_int x :: u32)"

text \<open>
  The sum is computed in \<open>int\<close>. After 19 January 2038 it overflows, which C leaves undefined and
  the test \<open>0 <= *t\<close> of the source takes to wrap around; so does the model.
\<close>

definition zbx_utc_time :: "int \<Rightarrow> int \<Rightarrow> int \<Rightarrow> int \<Rightarrow> int \<Rightarrow> int \<Rightarrow> int option" where
  "zbx_utc_time year mon mday hour mi sec =
    (let epoch_year = 1970 in
     if epoch_year \<le> year \<and> 1 \<le> mon \<and> mon \<le> 12 \<and> 1 \<le> mday \<and> mday \<le> zbx_day_in_month year mon \<and>
       0 \<le> hour \<and> hour \<le> 23 \<and> 0 \<le> mi \<and> mi \<le> 59 \<and> 0 \<le> sec \<and> sec \<le> 61
     then
       let t = wrap_int ((year - epoch_year) * SEC_PER_YEAR +
             (ZBX_LEAP_YEARS (if 2 < mon then year + 1 else year) - ZBX_LEAP_YEARS epoch_year) * SEC_PER_DAY +
             (month_day ! nat (mon - 1) + mday - 1) * SEC_PER_DAY + hour * SEC_PER_HOUR + mi * SEC_PER_MIN + sec)
       in if 0 \<le> t then Some t else None
     else None)"

definition mon_table :: "int list" where
  "mon_table = [0, 3, 2, 5, 0, 3, 5, 1, 4, 6, 2, 4]"

definition calculate_dayofweek :: "int \<Rightarrow> int \<Rightarrow> int \<Rightarrow> int" where
  "calculate_dayofweek year mon mday =
    (let year = (if mon < 3 then year - 1 else year)
     in (year + year div 4 - year div 100 + year div 400 + mon_table ! nat (mon - 1) + mday - 1) mod 7 + 1)"

section \<open>The calendar\<close>

text \<open>
  The reference: the days from 1 January 1970 to a date, counted year by year and month by month.
  That day was a Thursday.
\<close>

definition year_length :: "int \<Rightarrow> int" where
  "year_length y = (if is_leap_year y then 366 else 365)"

definition epoch_days :: "int \<Rightarrow> int \<Rightarrow> int \<Rightarrow> int" where
  "epoch_days y m d =
    sum_list (map year_length [1970..y - 1]) + sum_list (map (zbx_day_in_month y) [1..m - 1]) + (d - 1)"

definition valid_date :: "int \<Rightarrow> int \<Rightarrow> int \<Rightarrow> bool" where
  "valid_date y m d \<longleftrightarrow> 1970 \<le> y \<and> 1 \<le> m \<and> m \<le> 12 \<and> 1 \<le> d \<and> d \<le> zbx_day_in_month y m"

definition epoch_seconds :: "int \<Rightarrow> int \<Rightarrow> int \<Rightarrow> int \<Rightarrow> int \<Rightarrow> int \<Rightarrow> int" where
  "epoch_seconds y mo d h mi s = 86400 * epoch_days y mo d + 3600 * h + 60 * mi + s"

lemma month_cases:
  assumes "1 \<le> m" "m \<le> (12 :: int)"
  obtains "m = 1" | "m = 2" | "m = 3" | "m = 4" | "m = 5" | "m = 6" | "m = 7" | "m = 8" | "m = 9"
    | "m = 10" | "m = 11" | "m = 12"
proof -
  have "m = 1 \<or> m = 2 \<or> m = 3 \<or> m = 4 \<or> m = 5 \<or> m = 6 \<or> m = 7 \<or> m = 8 \<or> m = 9 \<or> m = 10 \<or> m = 11 \<or> m = 12"
    using assms by presburger
  then show ?thesis using that by blast
qed

lemma day_in_month_bounds: "28 \<le> zbx_day_in_month y m" "zbx_day_in_month y m \<le> 31"
proof -
  have "28 \<le> zbx_day_in_month y m \<and> zbx_day_in_month y m \<le> 31"
  proof (cases "1 \<le> m \<and> m \<le> 12")
    case True
    then show ?thesis
      by (elim conjE month_cases) (simp_all add: zbx_day_in_month_def days_of_months_def)
  next
    case False
    then have "zbx_day_in_month y m = 30" unfolding zbx_day_in_month_def by (rule if_not_P)
    then show ?thesis by simp
  qed
  then show "28 \<le> zbx_day_in_month y m" "zbx_day_in_month y m \<le> 31" by simp_all
qed

lemma div_pred:
  fixes y n :: int
  assumes "0 < n"
  shows "y div n - (y - 1) div n = (if y mod n = 0 then 1 else 0)"
proof -
  have y: "y = n * (y div n) + y mod n" by simp
  have b: "0 \<le> y mod n" "y mod n < n" using assms by simp_all
  show ?thesis
  proof (cases "y mod n = 0")
    case True
    have "(y - 1) div n = y div n - 1"
      by (rule int_div_pos_eq [where r = "n - 1"]) (use y True assms in \<open>auto simp: algebra_simps\<close>)
    then show ?thesis using True by simp
  next
    case False
    have "(y - 1) div n = y div n"
      by (rule int_div_pos_eq [where r = "y mod n - 1"]) (use y b False in auto)
    then show ?thesis using False by simp
  qed
qed

lemma leap_years_step:
  "ZBX_LEAP_YEARS (y + 1) - ZBX_LEAP_YEARS y = (if is_leap_year y then 1 else 0)"
proof -
  have d: "y mod 400 = 0 \<Longrightarrow> y mod 100 = 0" "y mod 100 = 0 \<Longrightarrow> y mod 4 = 0"
    using mod_mod_cancel [of 100 400 y] mod_mod_cancel [of 4 100 y] by simp_all
  have "ZBX_LEAP_YEARS (y + 1) - ZBX_LEAP_YEARS y =
      (y div 4 - (y - 1) div 4) - (y div 100 - (y - 1) div 100) + (y div 400 - (y - 1) div 400)"
    by (simp add: ZBX_LEAP_YEARS_def)
  then have "ZBX_LEAP_YEARS (y + 1) - ZBX_LEAP_YEARS y = (if y mod 4 = 0 then 1 else 0) -
      (if y mod 100 = 0 then 1 else 0) + (if y mod 400 = 0 then 1 else 0)"
    by (simp only: div_pred [of 4 y, simplified] div_pred [of 100 y, simplified] div_pred [of 400 y, simplified])
  then show ?thesis using d
    by (cases "y mod 4 = 0"; cases "y mod 100 = 0"; cases "y mod 400 = 0") (simp_all only: is_leap_year_def, simp_all)
qed

lemma epoch_years:
  assumes "1970 \<le> y"
  shows "sum_list (map year_length [1970..y - 1]) = 365 * (y - 1970) + (ZBX_LEAP_YEARS y - ZBX_LEAP_YEARS 1970)"
  using assms
proof (induction y rule: int_ge_induct)
  case base
  then show ?case by simp
next
  case (step y)
  have "[1970..y] = [1970..y - 1] @ [y]" using step.hyps by (simp add: upto_rec2)
  then show ?case using step.IH leap_years_step [of y] by (auto simp: year_length_def)
qed

lemma epoch_months:
  assumes "1 \<le> m" "m \<le> 12"
  shows "sum_list (map (zbx_day_in_month y) [1..m - 1]) =
    month_day ! nat (m - 1) + (if 2 < m \<and> is_leap_year y then 1 else 0)"
  using assms
  by (elim month_cases) (simp_all add: upto.simps [of 1] zbx_day_in_month_def days_of_months_def month_day_def)

lemma epoch_days_closed:
  assumes "1970 \<le> y" "1 \<le> m" "m \<le> 12"
  shows "epoch_days y m d = 365 * (y - 1970) + (ZBX_LEAP_YEARS (if 2 < m then y + 1 else y) - ZBX_LEAP_YEARS 1970) +
    (month_day ! nat (m - 1) + d - 1)"
  using leap_years_step [of y]
  unfolding epoch_days_def epoch_years [OF assms(1)] epoch_months [OF assms(2,3)] by auto

lemma epoch_days_nonneg:
  assumes "valid_date y m d"
  shows "0 \<le> epoch_days y m d"
proof -
  have "0 \<le> sum_list (map year_length [1970..y - 1])"
    by (rule sum_list_nonneg) (auto simp: year_length_def)
  moreover have "0 \<le> sum_list (map (zbx_day_in_month y) [1..m - 1])"
    by (rule sum_list_nonneg) (auto intro: order_trans [OF _ day_in_month_bounds(1)])
  ultimately show ?thesis using assms by (simp add: epoch_days_def valid_date_def)
qed

lemma wrap_int_small: "- (2 ^ 31) \<le> x \<Longrightarrow> x < 2 ^ 31 \<Longrightarrow> wrap_int x = x"
  unfolding wrap_int_def by (simp add: sint_sbintrunc' signed_take_bit_int_eq_self)

text \<open>C24. For every valid date and time of day whose timestamp is below 2 to the 31, \<open>zbx_utc_time\<close> gives the
  number of seconds since the epoch, counted year by year and month by month over the calendar.\<close>

theorem zbx_utc_time_exact:
  assumes "valid_date y mo d" "0 \<le> h" "h \<le> 23" "0 \<le> mi" "mi \<le> 59" "0 \<le> s" "s \<le> 61"
    and "epoch_seconds y mo d h mi s < 2 ^ 31"
  shows "zbx_utc_time y mo d h mi s = Some (epoch_seconds y mo d h mi s)"
proof -
  define t where "t = (y - 1970) * SEC_PER_YEAR +
       (ZBX_LEAP_YEARS (if 2 < mo then y + 1 else y) - ZBX_LEAP_YEARS 1970) * SEC_PER_DAY +
       (month_day ! nat (mo - 1) + d - 1) * SEC_PER_DAY + h * SEC_PER_HOUR + mi * SEC_PER_MIN + s"
  have t: "t = epoch_seconds y mo d h mi s"
    using assms(1) epoch_days_closed [of y mo d]
    by (simp add: t_def epoch_seconds_def valid_date_def sec_per_defs SEC_PER_YEAR_def algebra_simps)
  have nn: "0 \<le> epoch_seconds y mo d h mi s"
    using epoch_days_nonneg [OF assms(1)] assms(2,4,6) by (simp add: epoch_seconds_def)
  then have "wrap_int t = t" using assms(8) unfolding t by (intro wrap_int_small) simp_all
  then show ?thesis
    using assms nn t unfolding zbx_utc_time_def Let_def valid_date_def t_def by simp
qed

theorem zbx_utc_time_exact_witness:
  "zbx_utc_time 2024 2 29 12 30 5 = Some 1709209805"
proof -
  have e: "epoch_seconds 2024 2 29 12 30 5 = 1709209805" by code_simp
  have "valid_date 2024 2 29" by code_simp
  then show ?thesis using zbx_utc_time_exact [of 2024 2 29 12 30 5] unfolding e by simp
qed

text \<open>The day of the week that \<open>calculate_dayofweek\<close> computes is the one obtained by counting the days
  since Thursday, 1 January 1970.\<close>

theorem calculate_dayofweek_exact:
  assumes "valid_date y m d"
  shows "calculate_dayofweek y m d = (epoch_days y m d + 3) mod 7 + 1"
proof -
  have m: "1 \<le> m" "m \<le> 12" and y: "1970 \<le> y" using assms by (simp_all add: valid_date_def)
  define w where "w = (let y' = (if m < 3 then y - 1 else y)
       in y' + y' div 4 - y' div 100 + y' div 400 + mon_table ! nat (m - 1) + d - 1)"
  have "\<exists>k. epoch_days y m d + 3 = w + 7 * k"
    unfolding epoch_days_closed [OF y m]
    by (rule exI [of _ "52 * y + (month_day ! nat (m - 1) - mon_table ! nat (m - 1) + (if m < 3 then 1 else 0) - 719524) div 7"], use m in \<open>elim month_cases\<close>)
      (simp_all add: w_def ZBX_LEAP_YEARS_def month_day_def mon_table_def Let_def)
  then have "(epoch_days y m d + 3) mod 7 = w mod 7" by auto
  moreover have "calculate_dayofweek y m d = w mod 7 + 1"
    unfolding calculate_dayofweek_def w_def by (simp only: Let_def)
  ultimately show ?thesis by simp
qed

theorem calculate_dayofweek_exact_witness:
  "calculate_dayofweek 2024 2 29 = 4 \<and> (epoch_days 2024 2 29 + 3) mod 7 + 1 = 4"
proof -
  have "valid_date 2024 2 29" by code_simp
  moreover have "calculate_dayofweek 2024 2 29 = 4" by code_simp
  ultimately show ?thesis using calculate_dayofweek_exact [of 2024 2 29] by simp
qed

end
