(* ===== verification/TimePeriod.thy ===== *)
theory TimePeriod
  imports Calendar
begin

text \<open>
  Time periods of the week, such as \<open>1-5,09:00-18:00\<close>, and flexible intervals, which give an item
  another delay inside of a period (\<open>src/libs/zbxcommon/misc.c\<close>). \<open>localtime\<close> belongs to the C library and
  to the time zone of the host: it is the parameter \<open>localtime\<close> of the definitions that call it.
\<close>

text \<open>The fields of \<open>struct tm\<close> that the code reads.\<close>

record tm =
  tm_sec :: int
  tm_min :: int
  tm_hour :: int
  tm_mday :: int
  tm_mon :: int
  tm_year :: int
  tm_wday :: int
  tm_isdst :: int

record zbx_time_period =
  start_day :: int
  end_day :: int
  start_time :: int
  end_time :: int

record zbx_flexible_interval =
  fi_period :: zbx_time_period
  fi_delay :: int

definition day_of_week :: "tm \<Rightarrow> int" where
  "day_of_week t = (if 0 = tm_wday t then 7 else tm_wday t)"

definition time_of_day :: "tm \<Rightarrow> int" where
  "time_of_day t = SEC_PER_HOUR * tm_hour t + SEC_PER_MIN * tm_min t + tm_sec t"

definition check_time_period :: "zbx_time_period \<Rightarrow> tm \<Rightarrow> bool" where
  "check_time_period period t =
    (let day = day_of_week t; time = time_of_day t
     in start_day period \<le> day \<and> day \<le> end_day period \<and> start_time period \<le> time \<and> time < end_time period)"

text \<open>The loop over the flexible intervals, with the delay found so far.\<close>

fun current_delay_loop :: "(int \<Rightarrow> tm) \<Rightarrow> int \<Rightarrow> zbx_flexible_interval list \<Rightarrow> int \<Rightarrow> int" where
  "current_delay_loop localtime now [] current_delay = current_delay"
| "current_delay_loop localtime now (f # flex_intervals) current_delay =
    current_delay_loop localtime now flex_intervals
      (if (-1 = current_delay \<or> fi_delay f < current_delay) \<and> check_time_period (fi_period f) (localtime now)
       then fi_delay f else current_delay)"

definition get_current_delay :: "(int \<Rightarrow> tm) \<Rightarrow> int \<Rightarrow> zbx_flexible_interval list \<Rightarrow> int \<Rightarrow> int" where
  "get_current_delay localtime default_delay flex_intervals now =
    (let current_delay = current_delay_loop localtime now flex_intervals (-1)
     in if -1 = current_delay then default_delay else current_delay)"

definition next_change :: "int \<Rightarrow> int \<Rightarrow> zbx_time_period \<Rightarrow> int" where
  "next_change day time p =
    (if start_day p \<le> day \<and> day \<le> end_day p \<and> time < end_time p then
       if time < start_time p then start_time p else end_time p
     else if day < end_day p then
       if day < start_day p then SEC_PER_DAY * (start_day p - day) + start_time p
       else SEC_PER_DAY + start_time p
     else SEC_PER_DAY * (start_day p + 7 - day) + start_time p)"

fun next_change_loop :: "int \<Rightarrow> int \<Rightarrow> zbx_flexible_interval list \<Rightarrow> int \<Rightarrow> int" where
  "next_change_loop day time [] change = change"
| "next_change_loop day time (f # flex_intervals) change =
    (let candidate = next_change day time (fi_period f)
     in next_change_loop day time flex_intervals (if 0 = change \<or> candidate < change then candidate else change))"

definition get_next_delay_interval :: "(int \<Rightarrow> tm) \<Rightarrow> zbx_flexible_interval list \<Rightarrow> int \<Rightarrow> int option" where
  "get_next_delay_interval localtime flex_intervals now =
    (if flex_intervals = [] then None
     else
       let t = localtime now; day = day_of_week t; time = time_of_day t;
           change = next_change_loop day time flex_intervals 0
       in if 0 = change then None else Some (now - time + change))"

section \<open>When the delay changes\<close>

text \<open>
  What the parser establishes of a period, and the reading of \<open>struct tm\<close> as a second of the week.
  What \<open>localtime\<close> is documented to do: it splits the time stamp, moved by the offset of the time zone from UTC at that time,
  into the fields of the calendar, the week day among them. The offset is any function of the time: it changes with
  daylight saving time and with the law. Day 0 was a Thursday. The clock steps from one time to another when the local time
  of the week has advanced by as many seconds as have passed, which is so when the offset is the same.
\<close>

definition period_ok :: "zbx_time_period \<Rightarrow> bool" where
  "period_ok p \<longleftrightarrow> 1 \<le> start_day p \<and> start_day p \<le> end_day p \<and> end_day p \<le> 7 \<and>
    0 \<le> start_time p \<and> start_time p < end_time p \<and> end_time p \<le> 86400"

definition clock_ok :: "tm \<Rightarrow> bool" where
  "clock_ok t \<longleftrightarrow> 0 \<le> tm_wday t \<and> tm_wday t \<le> 6 \<and> 0 \<le> tm_hour t \<and> tm_hour t \<le> 23 \<and>
    0 \<le> tm_min t \<and> tm_min t \<le> 59 \<and> 0 \<le> tm_sec t \<and> tm_sec t \<le> 59"

definition week_second :: "tm \<Rightarrow> int" where
  "week_second t = SEC_PER_DAY * (day_of_week t - 1) + time_of_day t"

definition local_clock :: "(int \<Rightarrow> tm) \<Rightarrow> (int \<Rightarrow> int) \<Rightarrow> bool" where
  "local_clock localtime off \<longleftrightarrow>
    (\<forall>u. clock_ok (localtime u) \<and> week_second (localtime u) = (u + off u + 3 * SEC_PER_DAY) mod SEC_PER_WEEK)"

definition clock_steps :: "(int \<Rightarrow> tm) \<Rightarrow> int \<Rightarrow> int \<Rightarrow> bool" where
  "clock_steps localtime t u \<longleftrightarrow> clock_ok (localtime t) \<and> clock_ok (localtime u) \<and>
    week_second (localtime u) = (week_second (localtime t) + (u - t)) mod SEC_PER_WEEK"

lemma clock_steps_same_offset:
  assumes "local_clock localtime off" "off u = off t"
  shows "clock_steps localtime t u"
proof -
  define a where "a = t + off t + 3 * SEC_PER_DAY"
  have "a + (u - t) = u + off u + 3 * SEC_PER_DAY" using assms(2) by (simp add: a_def)
  then have "(u + off u + 3 * SEC_PER_DAY) mod SEC_PER_WEEK = (a mod SEC_PER_WEEK + (u - t)) mod SEC_PER_WEEK"
    by (simp only: mod_add_left_eq)
  then show ?thesis using assms(1) unfolding clock_steps_def local_clock_def a_def by presburger
qed

text \<open>A week of a clock in which every day has 86400 seconds.\<close>

definition week_clock :: "int \<Rightarrow> tm" where
  "week_clock t =
    \<lparr>tm_sec = t mod 60, tm_min = t div 60 mod 60, tm_hour = t div 3600 mod 24, tm_mday = 1, tm_mon = 0,
     tm_year = 70, tm_wday = (t div 86400 + 4) mod 7, tm_isdst = 0\<rparr>"

lemma clock_bounds:
  assumes "clock_ok t"
  shows "1 \<le> day_of_week t" "day_of_week t \<le> 7" "0 \<le> time_of_day t" "time_of_day t < 86400"
  using assms by (auto simp: clock_ok_def day_of_week_def time_of_day_def sec_per_defs)

lemma next_change_after:
  assumes "period_ok p" "day \<le> 7" "0 \<le> time" "time < 86400"
  shows "time < next_change day time p"
  using assms by (auto simp: next_change_def period_ok_def sec_per_defs)

lemma next_change_loop_min:
  assumes "\<And>f. f \<in> set fs \<Longrightarrow> 0 < next_change day time (fi_period f)" "0 \<le> c"
  shows "(next_change_loop day time fs c = 0 \<longleftrightarrow> fs = [] \<and> c = 0) \<and>
    (\<forall>f\<in>set fs. next_change_loop day time fs c \<le> next_change day time (fi_period f)) \<and>
    (c \<noteq> 0 \<longrightarrow> next_change_loop day time fs c \<le> c) \<and> 0 \<le> next_change_loop day time fs c \<and>
    (next_change_loop day time fs c = c \<or> (\<exists>f\<in>set fs. next_change_loop day time fs c = next_change day time (fi_period f)))"
  using assms
proof (induction fs arbitrary: c)
  case Nil
  then show ?case by simp
next
  case (Cons f fs)
  define d where "d = (if 0 = c \<or> next_change day time (fi_period f) < c then next_change day time (fi_period f) else c)"
  have pos: "0 < next_change day time (fi_period f)" using Cons.prems by simp
  then have d: "0 < d" "d \<le> next_change day time (fi_period f)" "c \<noteq> 0 \<longrightarrow> d \<le> c"
    "d = c \<or> d = next_change day time (fi_period f)"
    using Cons.prems(2) by (auto simp: d_def)
  have eq: "next_change_loop day time (f # fs) c = next_change_loop day time fs d"
    by (simp add: d_def Let_def)
  have "\<And>g. g \<in> set fs \<Longrightarrow> 0 < next_change day time (fi_period g)" "0 \<le> d" using Cons.prems d by simp_all
  note ih = Cons.IH [OF this]
  show ?case unfolding eq using ih d by auto
qed

text \<open>The state of a period at a second of the week that lies \<open>k\<close> days and a time after midnight of \<open>day\<close>.\<close>

lemma period_constant:
  assumes "period_ok p" "1 \<le> day" "day \<le> 7" "0 \<le> time" "time < 86400"
    and "0 \<le> k" "0 \<le> time'" "time' < 86400" "time \<le> 86400 * k + time'" "86400 * k + time' < next_change day time p"
    and "day' = (if day + k \<le> 7 then day + k else day + k - 7)"
  shows "start_day p \<le> day' \<and> day' \<le> end_day p \<and> start_time p \<le> time' \<and> time' < end_time p \<longleftrightarrow>
    start_day p \<le> day \<and> day \<le> end_day p \<and> start_time p \<le> time \<and> time < end_time p"
proof (cases "start_day p \<le> day \<and> day \<le> end_day p \<and> time < end_time p")
  case True
  then have "86400 * k + time' < 86400" using assms(1,10) by (auto simp: next_change_def period_ok_def split: if_splits)
  then have "k = 0" using assms(6,7) by linarith
  then have "day' = day" "time \<le> time'" using assms(3,9,11) by simp_all
  then show ?thesis using True assms(10) \<open>k = 0\<close> by (auto simp: next_change_def split: if_splits)
next
  case False
  show ?thesis
  proof (cases "day < end_day p")
    case True
    show ?thesis
    proof (cases "day < start_day p")
      case early: True
      then have c: "86400 * k + time' < 86400 * (start_day p - day) + start_time p"
        using False True assms(10) by (simp add: next_change_def sec_per_defs)
      then have "k \<le> start_day p - day" "k = start_day p - day \<longrightarrow> time' < start_time p"
        using assms(1,7,8) by (auto simp: period_ok_def)
      then show ?thesis using early assms(1,11) by (auto simp: period_ok_def)
    next
      case late: False
      then have c: "86400 * k + time' < 86400 + start_time p"
        using False True assms(10) by (simp add: next_change_def sec_per_defs)
      then have k: "k = 0 \<or> (k = 1 \<and> time' < start_time p)" using assms(1,6,7) by (auto simp: period_ok_def)
      then show ?thesis
      proof
        assume "k = 0"
        then show ?thesis using False late True assms(1,3,9,11) by (auto simp: period_ok_def)
      next
        assume "k = 1 \<and> time' < start_time p"
        then show ?thesis using False late True by auto
      qed
    qed
  next
    case over: False
    have c: "86400 * k + time' < 86400 * (start_day p + 7 - day) + start_time p"
      using assms(10) unfolding next_change_def if_not_P [OF False] if_not_P [OF over] SEC_PER_DAY_def .
    then have k: "k \<le> start_day p + 7 - day" "k = start_day p + 7 - day \<longrightarrow> time' < start_time p"
      using assms(1,7,8) by (auto simp: period_ok_def)
    show ?thesis
    proof (cases "k = 0")
      case True
      then show ?thesis using False over assms(1,3,9,11) by (auto simp: period_ok_def)
    next
      case False
      then show ?thesis using k over assms(1,6,11) \<open>\<not> (start_day p \<le> day \<and> day \<le> end_day p \<and> time < end_time p)\<close>
        by (auto simp: period_ok_def split: if_splits)
    qed
  qed
qed

lemma next_change_bound:
  assumes "period_ok p" "day \<le> 7"
  shows "next_change day time p < 86400 * (15 - day)"
  using assms by (auto simp: next_change_def period_ok_def sec_per_defs)

lemma clock_advance:
  assumes "clock_steps localtime t u" "t \<le> u"
    and x: "x = time_of_day (localtime t) + (u - t)" and "day_of_week (localtime t) + x div 86400 \<le> 14"
  shows "time_of_day (localtime u) = x mod 86400"
    and "day_of_week (localtime u) = (if day_of_week (localtime t) + x div 86400 \<le> 7
      then day_of_week (localtime t) + x div 86400 else day_of_week (localtime t) + x div 86400 - 7)"
proof -
  define d k r where "d = day_of_week (localtime t)" and "k = x div 86400" and "r = x mod 86400"
  have ok: "clock_ok (localtime t)" "clock_ok (localtime u)" using assms(1) by (simp_all add: clock_steps_def)
  note b = clock_bounds [OF ok(1)] clock_bounds [OF ok(2)]
  have r: "0 \<le> r" "r < 86400" "x = 86400 * k + r" by (simp_all add: k_def r_def)
  have k: "0 \<le> k" unfolding k_def by (rule pos_imp_zdiv_nonneg_iff [THEN iffD2]) (use b x assms(2) in simp_all)
  have w: "week_second (localtime u) = (86400 * (d - 1 + k) + r) mod 604800"
  proof -
    have "week_second (localtime u) = (week_second (localtime t) + (u - t)) mod SEC_PER_WEEK"
      using assms(1) by (simp add: clock_steps_def)
    moreover have "week_second (localtime t) + (u - t) = 86400 * (d - 1 + k) + r"
      using r(3) x unfolding week_second_def d_def SEC_PER_DAY_def by (simp add: algebra_simps)
    ultimately show ?thesis by (simp add: sec_per_defs)
  qed
  define d' where "d' = (if d + k \<le> 7 then d + k else d + k - 7)"
  have "(86400 * (d - 1 + k) + r) mod 604800 = 86400 * (d' - 1) + r"
  proof (cases "d + k \<le> 7")
    case True
    then show ?thesis using r k b(1) by (subst mod_pos_pos_trivial) (auto simp: d'_def d_def)
  next
    case False
    then have e: "86400 * (d - 1 + k) + r = 604800 + (86400 * (d' - 1) + r)" by (simp add: d'_def)
    have "d' \<le> 7" "1 \<le> d'" using False assms(4) by (simp_all add: d'_def d_def k_def)
    then have "0 \<le> 86400 * (d' - 1) + r" "86400 * (d' - 1) + r < 604800" using r by simp_all
    then show ?thesis unfolding e mod_add_self1 by (rule mod_pos_pos_trivial)
  qed
  then have eq: "86400 * (day_of_week (localtime u) - 1) + time_of_day (localtime u) = 86400 * (d' - 1) + r"
    using w unfolding week_second_def SEC_PER_DAY_def by simp
  then have "day_of_week (localtime u) = d'" using b r by auto
  then show "time_of_day (localtime u) = x mod 86400" "day_of_week (localtime u) = (if day_of_week (localtime t) + x div 86400 \<le> 7
      then day_of_week (localtime t) + x div 86400 else day_of_week (localtime t) + x div 86400 - 7)"
    using eq by (simp_all add: d'_def d_def k_def r_def)
qed

lemma current_delay_loop_cong:
  assumes "\<And>f. f \<in> set fs \<Longrightarrow> check_time_period (fi_period f) (localtime u) = check_time_period (fi_period f) (localtime t)"
  shows "current_delay_loop localtime u fs c = current_delay_loop localtime t fs c"
  using assms by (induction fs arbitrary: c) simp_all

lemma get_next_delay_interval_Some:
  assumes "get_next_delay_interval localtime fs t = Some n" "\<forall>f\<in>set fs. period_ok (fi_period f)" "clock_ok (localtime t)"
  shows "t < n" and "f \<in> set fs \<Longrightarrow>
    n \<le> t - time_of_day (localtime t) + next_change (day_of_week (localtime t)) (time_of_day (localtime t)) (fi_period f)"
proof -
  note b = clock_bounds [OF assms(3)]
  have pos: "\<And>f. f \<in> set fs \<Longrightarrow> time_of_day (localtime t) < next_change (day_of_week (localtime t)) (time_of_day (localtime t)) (fi_period f)"
    using assms(2) b by (intro next_change_after) simp_all
  define c where "c = next_change_loop (day_of_week (localtime t)) (time_of_day (localtime t)) fs 0"
  have "0 < next_change (day_of_week (localtime t)) (time_of_day (localtime t)) (fi_period f)" if "f \<in> set fs" for f
    using pos [OF that] b(3) by linarith
  note m = next_change_loop_min [of fs "day_of_week (localtime t)" "time_of_day (localtime t)" 0, OF this order_refl, folded c_def]
  have n: "n = t - time_of_day (localtime t) + c" "c \<noteq> 0"
    using assms(1) unfolding get_next_delay_interval_def Let_def c_def by (auto split: if_splits)
  then show "t < n" using m pos by fastforce
  show "n \<le> t - time_of_day (localtime t) + next_change (day_of_week (localtime t)) (time_of_day (localtime t)) (fi_period f)"
    if "f \<in> set fs"
    using m that n by auto
qed

lemma delay_constant:
  assumes "get_next_delay_interval localtime fs t = Some n" "\<forall>f\<in>set fs. period_ok (fi_period f)"
    and "clock_steps localtime t u" "t \<le> u" "u < n"
  shows "get_current_delay localtime d fs u = get_current_delay localtime d fs t"
proof -
  have ok: "clock_ok (localtime t)" using assms(3) by (simp add: clock_steps_def)
  note b = clock_bounds [OF ok] and s = get_next_delay_interval_Some [OF assms(1,2) ok]
  define day time x where "day = day_of_week (localtime t)" and "time = time_of_day (localtime t)" and "x = time + (u - t)"
  have "check_time_period (fi_period f) (localtime u) = check_time_period (fi_period f) (localtime t)" if f: "f \<in> set fs" for f
  proof -
    have p: "period_ok (fi_period f)" using assms(2) f by blast
    have lt: "x < next_change day time (fi_period f)"
      using s(2) [OF f] assms(5) unfolding x_def day_def time_def by linarith
    then have "x < 86400 * (15 - day)" using next_change_bound [OF p, of day time] b by (simp add: day_def)
    then have k: "day + x div 86400 \<le> 14" using int_div_less_iff [of 86400 x "15 - day"] by (simp add: mult.commute)
    note a = clock_advance [OF assms(3,4) x_def [unfolded time_def] k [unfolded day_def]]
    have dk: "86400 * (x div 86400) + x mod 86400 = x" "0 \<le> x mod 86400" "x mod 86400 < 86400" by simp_all
    have "0 \<le> x" using b assms(4) by (simp add: x_def time_def)
    then have "0 \<le> x div 86400" by (simp add: pos_imp_zdiv_nonneg_iff)
    have "time \<le> x" using assms(4) by (simp add: x_def)
    then have e: "time \<le> 86400 * (x div 86400) + x mod 86400"
      "86400 * (x div 86400) + x mod 86400 < next_change day time (fi_period f)"
      using lt by (simp_all only: dk(1))
    show ?thesis
      unfolding check_time_period_def Let_def a day_def [symmetric] time_def [symmetric]
      by (rule period_constant [OF p b [folded day_def time_def] \<open>0 \<le> x div 86400\<close> dk(2,3) e refl])
  qed
  then have "current_delay_loop localtime u fs (-1) = current_delay_loop localtime t fs (-1)"
    by (rule current_delay_loop_cong)
  then show ?thesis by (simp only: get_current_delay_def)
qed

section \<open>Time periods in text\<close>

text \<open>
  The parsers take a text and the number of characters they may look at. \<open>time_scan\<close> is the loop over
  the digits: the characters passed and the length that is left.
\<close>

function time_scan :: "string \<Rightarrow> nat \<Rightarrow> int \<Rightarrow> nat \<times> int" where
  "time_scan text i len = (if 0 < len \<and> isdigit (cchar text i) \<and> i \<le> 2 then time_scan text (i + 1) (len - 1) else (i, len))"
  by pat_completeness auto
termination by (relation "measure (\<lambda>(text, i, len). 3 - i)") auto

declare time_scan.simps [simp del]

definition time_parse :: "string \<Rightarrow> int \<Rightarrow> (int \<times> int) option" where
  "time_parse text old_len =
    (case time_scan text 0 old_len of (n, len) \<Rightarrow>
     case is_uint_n_range text n True 4 0 24 of
       None \<Rightarrow> None
     | Some hours \<Rightarrow>
         if len \<le> 0 \<or> CHR '':'' \<noteq> cchar text n then None
         else
           let text = drop (n + 1) text
           in case time_scan text 0 (len - 1) of (n, len) \<Rightarrow>
              if n \<noteq> 2 then None
              else
                case is_uint_n_range text 2 True 4 0 59 of
                  None \<Rightarrow> None
                | Some minutes \<Rightarrow>
                    if 24 = hours \<and> 0 \<noteq> minutes then None
                    else Some (SEC_PER_HOUR * uint hours + SEC_PER_MIN * uint minutes, old_len - len))"

definition day_digit :: "string \<Rightarrow> int \<Rightarrow> int option" where
  "day_digit text len =
    (if len \<le> 0 \<or> (of_char (cchar text 0) :: nat) < 49 \<or> 55 < (of_char (cchar text 0) :: nat) then None
     else Some (int (digit_val (cchar text 0))))"

text \<open>The days of a period: both days, and the text and the length that are left.\<close>

definition period_days :: "string \<Rightarrow> int \<Rightarrow> (int \<times> int \<times> string \<times> int) option" where
  "period_days str len =
    (case day_digit str len of
       None \<Rightarrow> None
     | Some d1 \<Rightarrow>
         let len = len - 1; str = drop 1 str
         in if len \<le> 0 then None
            else if CHR ''-'' = cchar str 0 then
              (case day_digit (drop 1 str) (len - 1) of
                 None \<Rightarrow> None
               | Some d2 \<Rightarrow> if d2 < d1 then None else Some (d1, d2, drop 2 str, len - 2))
            else Some (d1, d1, str, len))"

text \<open>The times of a period, after its days.\<close>

definition period_times :: "string \<Rightarrow> int \<Rightarrow> (int \<times> int) option" where
  "period_times str len =
    (if len \<le> 0 \<or> CHR '','' \<noteq> cchar str 0 then None
     else
       case time_parse (drop 1 str) (len - 1) of
         None \<Rightarrow> None
       | Some (from, parsed) \<Rightarrow>
           if len - 1 - parsed \<le> 0 \<or> CHR ''-'' \<noteq> cchar (drop (nat parsed) (drop 1 str)) 0 then None
           else
             case time_parse (drop 1 (drop (nat parsed) (drop 1 str))) (len - 1 - parsed - 1) of
               None \<Rightarrow> None
             | Some (to, parsed') \<Rightarrow>
                 if to \<le> from \<or> 0 \<noteq> len - 1 - parsed - 1 - parsed' then None else Some (from, to))"

definition time_period_parse :: "string \<Rightarrow> int \<Rightarrow> zbx_time_period option" where
  "time_period_parse str len =
    (case period_days str len of
       None \<Rightarrow> None
     | Some (d1, d2, str, len) \<Rightarrow>
         (case period_times str len of
            None \<Rightarrow> None
          | Some (f, u) \<Rightarrow> Some \<lparr>start_day = d1, end_day = d2, start_time = f, end_time = u\<rparr>))"

text \<open>The first part of a list separated by \<open>c\<close>, and what follows the separator.\<close>

definition first_part :: "char \<Rightarrow> string \<Rightarrow> int" where
  "first_part c s = (case strchr s c of None \<Rightarrow> int (length s) | Some n \<Rightarrow> int n)"

function check_periods :: "tm \<Rightarrow> string \<Rightarrow> bool \<Rightarrow> bool option" where
  "check_periods t period res_total =
    (case time_period_parse period (first_part (CHR '';'') period) of
       None \<Rightarrow> None
     | Some tp \<Rightarrow>
         let res_total = (if check_time_period tp t then True else res_total)
         in case strchr period (CHR '';'') of
              None \<Rightarrow> Some res_total
            | Some n \<Rightarrow> check_periods t (drop (n + 1) period) res_total)"
  by pat_completeness auto
termination
  by (relation "measure (\<lambda>(t, period, res). length period)") (auto dest: strchr_length)

declare check_periods.simps [simp del]

definition zbx_check_time_period :: "(int \<Rightarrow> tm) \<Rightarrow> string \<Rightarrow> int \<Rightarrow> bool option" where
  "zbx_check_time_period localtime period time = check_periods (localtime time) period False"

definition flexible_interval_parse :: "string \<Rightarrow> int \<Rightarrow> zbx_flexible_interval option" where
  "flexible_interval_parse text len =
    (let n = (case strchr (take (nat len) text) (CHR ''/'') of None \<Rightarrow> min (nat len) (length text) | Some n \<Rightarrow> n)
     in case is_time_suffix text (int n) of
          None \<Rightarrow> None
        | Some delay \<Rightarrow>
            if len - int n \<le> 0 \<or> CHR ''/'' \<noteq> cchar text n then None
            else
              map_option (\<lambda>p. \<lparr>fi_period = p, fi_delay = delay\<rparr>)
                (time_period_parse (drop (n + 1) text) (len - int n - 1)))"

section \<open>The syntax of time periods\<close>

definition clock_text :: "string \<Rightarrow> string \<Rightarrow> int \<Rightarrow> bool" where
  "clock_text h m v \<longleftrightarrow> 1 \<le> length h \<and> length h \<le> 3 \<and> (\<forall>c\<in>set h. isdigit c) \<and> dec_val h \<le> 24 \<and>
    length m = 2 \<and> (\<forall>c\<in>set m. isdigit c) \<and> dec_val m \<le> 59 \<and> (dec_val h = 24 \<longrightarrow> dec_val m = 0) \<and>
    v = 3600 * int (dec_val h) + 60 * int (dec_val m)"

definition is_clock :: "string \<Rightarrow> int \<Rightarrow> bool" where
  "is_clock t v \<longleftrightarrow> (\<exists>h m. t = h @ CHR '':'' # m \<and> clock_text h m v)"

definition is_day :: "char \<Rightarrow> int \<Rightarrow> bool" where
  "is_day c d \<longleftrightarrow> isdigit c \<and> d = int (digit_val c) \<and> 1 \<le> d \<and> d \<le> 7"

definition is_days :: "string \<Rightarrow> int \<Rightarrow> int \<Rightarrow> bool" where
  "is_days t d1 d2 \<longleftrightarrow> (\<exists>c. t = [c] \<and> is_day c d1 \<and> d2 = d1) \<or>
    (\<exists>c c'. t = [c, CHR ''-'', c'] \<and> is_day c d1 \<and> is_day c' d2 \<and> d1 \<le> d2)"

definition is_period :: "string \<Rightarrow> zbx_time_period \<Rightarrow> bool" where
  "is_period t p \<longleftrightarrow> (\<exists>days from to. t = days @ CHR '','' # from @ CHR ''-'' # to \<and>
    is_days days (start_day p) (end_day p) \<and> is_clock from (start_time p) \<and> is_clock to (end_time p) \<and>
    start_time p < end_time p)"

lemma time_scan_eq:
  assumes "i \<le> 3"
  shows "time_scan str i len =
    (let n = min (3 - i) (length (takeWhile isdigit (take (nat len) (drop i str)))) in (i + n, len - int n))"
  using assms
proof (induction str i len rule: time_scan.induct)
  case (1 str i len)
  show ?case
  proof (cases "0 < len \<and> isdigit (cchar str i) \<and> i \<le> 2")
    case True
    then have i: "i < length str" and l: "nat len = Suc (nat (len - 1))"
      by (auto simp: cchar_def split: if_splits)
    have d: "drop i str = str ! i # drop (Suc i) str" "isdigit (str ! i)"
      using i True by (auto simp: Cons_nth_drop_Suc cchar_def)
    have e: "length (takeWhile isdigit (take (nat len) (drop i str))) =
        Suc (length (takeWhile isdigit (take (nat (len - 1)) (drop (i + 1) str))))"
      unfolding l d(1) using d(2) by simp
    have "time_scan str i len = time_scan str (i + 1) (len - 1)"
      using True by (subst time_scan.simps) simp
    also have "\<dots> = (let n = min (3 - (i + 1)) (length (takeWhile isdigit (take (nat (len - 1)) (drop (i + 1) str))))
        in (i + 1 + n, len - 1 - int n))"
      by (rule "1.IH" [OF True]) (use True in simp)
    finally have st: "time_scan str i len = (let n = min (3 - (i + 1)) (length (takeWhile isdigit (take (nat (len - 1)) (drop (i + 1) str))))
        in (i + 1 + n, len - 1 - int n))" .
    have "min (3 - i) (Suc m) = Suc (min (3 - (i + 1)) m)" for m using True by arith
    then show ?thesis unfolding st e Let_def by simp
  next
    case False
    then have "time_scan str i len = (i, len)" by (subst time_scan.simps) (rule if_not_P)
    moreover have "min (3 - i) (length (takeWhile isdigit (take (nat len) (drop i str)))) = 0"
    proof (cases "i < length str")
      case True
      then have "drop i str = str ! i # drop (Suc i) str" by (simp add: Cons_nth_drop_Suc)
      then show ?thesis using False True "1.prems" by (cases "nat len") (auto simp: cchar_def)
    qed simp
    ultimately show ?thesis by simp
  qed
qed

lemma time_scan_start:
  "time_scan str 0 len =
    (let n = min 3 (length (takeWhile isdigit (take (nat len) str))) in (n, len - int n))"
  using time_scan_eq [of 0 str len] by simp

lemma digits_range:
  assumes "hi < 2 ^ 32"
  shows "is_uint_n_range str n True 4 0 hi = Some v \<longleftrightarrow>
    take n str \<noteq> [] \<and> (\<forall>c\<in>set (take n str). isdigit c) \<and> dec_val (take n str) \<le> unat hi \<and> unat v = dec_val (take n str)"
proof -
  have hi: "unat hi < 2 ^ 32" using assms unfolding word_less_nat_alt by simp
  have e: "is_uint_n_range str n True 4 0 hi =
      (if number_in_range 10 isdigit digit_val (take n str) 0 hi
       then Some (take_bit (8 * 4) (of_nat (dec_val (take n str)))) else None)"
    by (rule is_uint_n_range_eq) simp_all
  have "unat (take_bit (8 * 4) (of_nat x :: u64)) = x" if "x \<le> unat hi" for x
  proof -
    have "unat (take_bit (8 * 4) (of_nat x :: u64)) = take_bit (8 * 4) (unat (of_nat x :: u64))"
      by (rule unsigned_take_bit_eq)
    also have "\<dots> = x" using that hi by (simp add: take_bit_eq_mod unat_of_nat)
    finally show ?thesis .
  qed
  then show ?thesis unfolding e number_in_range_def by (auto simp: word_unat_eq_iff)
qed

lemma take_nth_append: "t = xs @ c # ys \<Longrightarrow> take (length xs) t = xs \<and> cchar t (length xs) = c \<and> drop (length xs + 1) t = ys"
  by (simp add: cchar_def nth_append)

lemma time_parse_sound:
  assumes "0 \<le> len" "len \<le> int (length str)" and p: "time_parse str len = Some (v, k)"
  shows "\<exists>h m rest. take (nat len) str = h @ CHR '':'' # m @ rest \<and> clock_text h m v \<and>
    (rest = [] \<or> \<not> isdigit (hd rest)) \<and> k = int (length h) + 3"
proof -
  obtain n l1 where s1: "time_scan str 0 len = (n, l1)" by fastforce
  define str2 where "str2 = drop (n + 1) str"
  obtain n2 l2 where s2: "time_scan str2 0 (l1 - 1) = (n2, l2)" by fastforce
  have n: "n = min 3 (length (takeWhile isdigit (take (nat len) str)))" "l1 = len - int n"
    using s1 unfolding time_scan_start Let_def by simp_all
  have n2: "n2 = min 3 (length (takeWhile isdigit (take (nat (l1 - 1)) str2)))" "l2 = l1 - 1 - int n2"
    using s2 unfolding time_scan_start Let_def by simp_all
  obtain hours minutes where h: "is_uint_n_range str n True 4 0 24 = Some hours"
    and c: "0 < l1" "cchar str n = CHR '':''" and two: "n2 = 2"
    and m: "is_uint_n_range str2 2 True 4 0 59 = Some minutes"
    and z: "\<not> (24 = hours \<and> 0 \<noteq> minutes)"
    and v: "v = 3600 * uint hours + 60 * uint minutes" "k = len - l2"
    using p unfolding time_parse_def s1 prod.case str2_def [symmetric] s2 Let_def sec_per_defs
    by (auto split: option.splits if_splits)
  have h': "take n str \<noteq> []" "\<forall>c\<in>set (take n str). isdigit c" "dec_val (take n str) \<le> 24" "unat hours = dec_val (take n str)"
    using h by (simp_all add: digits_range)
  have m': "\<forall>c\<in>set (take 2 str2). isdigit c" "dec_val (take 2 str2) \<le> 59" "unat minutes = dec_val (take 2 str2)"
    using m by (simp_all add: digits_range)
  have nl: "n < nat len" "nat len \<le> length str" using c(1) n(2) assms(1,2) by simp_all
  have split1: "take (nat len) str = take n str @ CHR '':'' # take (nat (l1 - 1)) str2"
  proof -
    have "take (nat len) str = take n str @ take (nat len - n) (drop n str)"
      using nl by (metis le_add_diff_inverse less_imp_le take_add)
    moreover have "drop n str = CHR '':'' # str2"
      using nl c(2) nth_eq_drop_Cons [of n str] by (simp add: str2_def cchar_def)
    moreover have "nat len - n = Suc (nat (l1 - 1))" using nl n(2) c(1) by simp
    ultimately show ?thesis by simp
  qed
  define r where "r = take (nat (l1 - 1)) str2"
  have tw: "length (takeWhile isdigit r) = 2" using n2(1) two unfolding r_def by simp
  have r2: "take 2 r = takeWhile isdigit r" by (metis takeWhile_eq_take tw)
  have lr: "2 \<le> length r" using tw length_takeWhile_le [of isdigit r] by simp
  have ts: "take 2 str2 = take 2 r" using lr unfolding r_def by (simp add: min_def split: if_splits)
  have rest: "drop 2 r = [] \<or> \<not> isdigit (hd (drop 2 r))"
    using dropWhile_eq_drop [of isdigit r] tw hd_dropWhile [of isdigit r] by (metis)
  have "clock_text (take n str) (take 2 r) v"
    unfolding clock_text_def
  proof (intro conjI)
    show "1 \<le> length (take n str)" using h'(1) by (cases "take n str") simp_all
    show "length (take n str) \<le> 3" using n(1) by simp
    show "length (take 2 r) = 2" using lr by simp
    show "dec_val (take n str) = 24 \<longrightarrow> dec_val (take 2 r) = 0"
    proof
      assume "dec_val (take n str) = 24"
      then have "unat hours = unat (24 :: u64)" using h'(4) by simp
      then have "hours = 24" by (simp only: word_unat_eq_iff)
      then have "minutes = 0" using z by simp
      then show "dec_val (take 2 r) = 0" using m'(3) ts by simp
    qed
    show "v = 3600 * int (dec_val (take n str)) + 60 * int (dec_val (take 2 r))"
      using v(1) h'(4) m'(3) ts by (metis uint_nat)
  qed (use h' m' ts in simp_all)
  moreover have "take (nat len) str = take n str @ CHR '':'' # take 2 r @ drop 2 r"
    using split1 unfolding r_def [symmetric] by simp
  moreover have "k = int (length (take n str)) + 3"
    using v(2) n2(2) n(2) two nl by simp
  ultimately show ?thesis using rest by blast
qed

lemma time_parse_complete:
  assumes "0 \<le> len" "len \<le> int (length str)" and e: "take (nat len) str = h @ CHR '':'' # m @ rest"
    and ct: "clock_text h m v" and stop: "rest = [] \<or> \<not> isdigit (hd rest)"
  shows "time_parse str len = Some (v, int (length h) + 3)"
proof -
  have ct': "1 \<le> length h" "length h \<le> 3" "\<forall>c\<in>set h. isdigit c" "dec_val h \<le> 24" "length m = 2"
    "\<forall>c\<in>set m. isdigit c" "dec_val m \<le> 59" "dec_val h = 24 \<longrightarrow> dec_val m = 0"
    "v = 3600 * int (dec_val h) + 60 * int (dec_val m)"
    using ct by (simp_all add: clock_text_def)
  obtain tl where tl: "str = h @ CHR '':'' # m @ rest @ tl"
    using e append_take_drop_id [of "nat len" str] by (metis append.assoc append_Cons)
  have ll: "nat len = length h + 3 + length rest"
    using arg_cong [OF e, of length] assms(1,2) ct'(5) by simp
  have "takeWhile isdigit (take (nat len) str) = h"
    unfolding e using ct'(3) by (subst takeWhile_append2) (auto simp: isdigit_def)
  then have s1: "time_scan str 0 len = (length h, len - int (length h))"
    using ct'(2) by (simp add: time_scan_start min_def Let_def)
  have d: "drop (length h + 1) str = m @ rest @ tl" "cchar str (length h) = CHR '':''" "take (length h) str = h"
    using take_nth_append [OF tl] by simp_all
  have "nat (len - int (length h) - 1) = length m + length rest" using ll ct'(5) assms(1) by linarith
  then have t2: "take (nat (len - int (length h) - 1)) (m @ rest @ tl) = m @ rest" by simp
  have "takeWhile isdigit (m @ rest) = m"
    using ct'(6) stop by (intro takeWhile_append_stop) (auto simp: list_all_iff)
  then have s2: "time_scan (m @ rest @ tl) 0 (len - int (length h) - 1) = (2, len - int (length h) - 1 - 2)"
    unfolding time_scan_start t2 using ct'(5) by simp
  have h: "is_uint_n_range str (length h) True 4 0 24 = Some (of_nat (dec_val h))"
    unfolding digits_range [of 24, simplified] d(3) using ct'(1,3,4) tl by (auto simp: unat_of_nat)
  have m: "is_uint_n_range (m @ rest @ tl) 2 True 4 0 59 = Some (of_nat (dec_val m))"
    using ct'(5,6,7) unfolding digits_range [of 59, simplified] by (auto simp: unat_of_nat)
  have pos: "\<not> len - int (length h) \<le> 0" using ll ct'(5) assms(1) by linarith
  have u: "uint (of_nat x :: u64) = int x" if "x \<le> 59" for x using that by (simp add: uint_nat unat_of_nat)
  have z: "\<not> (24 = (of_nat (dec_val h) :: u64) \<and> 0 \<noteq> (of_nat (dec_val m) :: u64))"
  proof
    assume a: "24 = (of_nat (dec_val h) :: u64) \<and> 0 \<noteq> (of_nat (dec_val m) :: u64)"
    then have "unat (24 :: u64) = unat (of_nat (dec_val h) :: u64)" by simp
    then have "dec_val h = 24" using ct'(4) by (simp add: unat_of_nat)
    then show False using ct'(8) a by simp
  qed
  show ?thesis
    unfolding time_parse_def s1 prod.case h option.case d(1,2) Let_def s2 m
    using pos z ct'(4,7,9) by (simp add: u sec_per_defs)
qed

text \<open>A digit at the start of a text, as the days of the week are read.\<close>

lemma day_digit_iff:
  "day_digit str len = Some d \<longleftrightarrow> 0 < len \<and> (\<exists>c s. str = c # s \<and> is_day c d)"
proof -
  have "is_day c d \<longleftrightarrow> 49 \<le> (of_char c :: nat) \<and> (of_char c :: nat) \<le> 55 \<and> d = int (digit_val c)" for c
    by (auto simp: is_day_def isdigit_def digit_val_def)
  then show ?thesis by (cases str) (auto simp: day_digit_def)
qed

lemma is_clock_length: "is_clock t v \<Longrightarrow> 4 \<le> length t"
  by (auto simp: is_clock_def clock_text_def)

lemma clock_text_prefix:
  assumes "clock_text h m v"
  shows "is_clock (h @ CHR '':'' # m) v"
  using assms unfolding is_clock_def by blast

lemma take_nat_drop:
  assumes "nat len = length a + length b" "take (nat len) str = a @ b"
  shows "take (nat (len - int (length a))) (drop (length a) str) = b"
proof -
  have "nat (len - int (length a)) = nat len - length a" by simp
  then show ?thesis using assms(2) drop_take [of "length a" "nat len" str] by simp
qed

lemma period_times_iff:
  assumes "0 \<le> len" "len \<le> int (length str)"
  shows "period_times str len = Some (f, u) \<longleftrightarrow>
    (\<exists>a b. take (nat len) str = CHR '','' # a @ CHR ''-'' # b \<and> is_clock a f \<and> is_clock b u \<and> f < u)"
proof
  assume p: "period_times str len = Some (f, u)"
  then have len: "0 < len" and c: "cchar str 0 = CHR '',''" by (auto simp: period_times_def split: if_splits)
  then obtain s where str: "str = CHR '','' # s" by (cases str) auto
  obtain k where t1: "time_parse s (len - 1) = Some (f, k)"
    and d: "0 < len - 1 - k" "cchar (drop (nat k) s) 0 = CHR ''-''"
    and t2: "time_parse (drop 1 (drop (nat k) s)) (len - 1 - k - 1) = Some (u, len - 1 - k - 1)" and lt: "f < u"
    using p unfolding period_times_def str by (auto split: if_splits option.splits)
  have l1: "0 \<le> len - 1" "len - 1 \<le> int (length s)" using len assms(2) str by simp_all
  from time_parse_sound [OF l1 t1] obtain h m rest where
    e: "take (nat (len - 1)) s = h @ CHR '':'' # m @ rest" and ct: "clock_text h m f" and k: "k = int (length h) + 3"
    by blast
  define a where "a = h @ CHR '':'' # m"
  have a: "is_clock a f" "length a = nat k" using ct k by (auto simp: a_def is_clock_def clock_text_def)
  have e2: "take (nat (len - 1)) s = a @ rest" using e by (simp add: a_def)
  have nl: "nat (len - 1) = length a + length rest" using arg_cong [OF e2, of length] l1 by simp
  have r: "take (nat (len - 1 - k)) (drop (nat k) s) = rest"
    using take_nat_drop [OF nl e2] a(2) k by simp
  define s2 where "s2 = drop 1 (drop (nat k) s)"
  have dk: "drop (nat k) s = CHR ''-'' # s2"
    using d(2) by (cases "drop (nat k) s") (auto simp: s2_def)
  have rest: "rest = CHR ''-'' # take (nat (len - 1 - k - 1)) s2"
  proof -
    have "nat (len - 1 - k) = Suc (nat (len - 1 - k - 1))" using d(1) by simp
    then show ?thesis using r dk by simp
  qed
  have l2: "0 \<le> len - 1 - k - 1" "len - 1 - k - 1 \<le> int (length s2)"
  proof -
    have "length s = nat k + Suc (length s2)" using arg_cong [OF dk, of length] by auto
    then show "0 \<le> len - 1 - k - 1" "len - 1 - k - 1 \<le> int (length s2)" using d(1) l1 k by linarith+
  qed
  from time_parse_sound [OF l2 t2 [folded s2_def]] obtain h2 m2 rest2 where
    e3: "take (nat (len - 1 - k - 1)) s2 = h2 @ CHR '':'' # m2 @ rest2" and ct2: "clock_text h2 m2 u"
    and k2: "len - 1 - k - 1 = int (length h2) + 3" by blast
  have "rest2 = []" using arg_cong [OF e3, of length] l2 k2 ct2 by (simp add: clock_text_def nat_add_distrib)
  then have b: "is_clock (take (nat (len - 1 - k - 1)) s2) u" using e3 ct2 by (auto simp: is_clock_def)
  have "take (nat len) str = CHR '','' # a @ rest"
  proof -
    have "nat len = Suc (nat (len - 1))" using len by simp
    then show ?thesis using e2 str by simp
  qed
  then show "\<exists>a b. take (nat len) str = CHR '','' # a @ CHR ''-'' # b \<and> is_clock a f \<and> is_clock b u \<and> f < u"
    using a(1) b lt rest by blast
next
  assume "\<exists>a b. take (nat len) str = CHR '','' # a @ CHR ''-'' # b \<and> is_clock a f \<and> is_clock b u \<and> f < u"
  then obtain a b where e: "take (nat len) str = CHR '','' # a @ CHR ''-'' # b" and a: "is_clock a f"
    and b: "is_clock b u" and lt: "f < u" by blast
  obtain tl where tl: "str = CHR '','' # a @ CHR ''-'' # b @ tl"
    using e append_take_drop_id [of "nat len" str] by (metis append.assoc append_Cons)
  have nl: "len = int (length a) + int (length b) + 2" using arg_cong [OF e, of length] assms by simp
  obtain h m where hm: "a = h @ CHR '':'' # m" "clock_text h m f" using a by (auto simp: is_clock_def)
  obtain h2 m2 where hm2: "b = h2 @ CHR '':'' # m2" "clock_text h2 m2 u" using b by (auto simp: is_clock_def)
  have la: "length a = length h + 3" "length b = length h2 + 3" using hm hm2 by (simp_all add: clock_text_def)
  have t1: "time_parse (a @ CHR ''-'' # b @ tl) (len - 1) = Some (f, int (length a))"
  proof -
    have "nat (len - 1) = length (a @ CHR ''-'' # b)" using nl by simp
    then have "take (nat (len - 1)) (a @ CHR ''-'' # b @ tl) = h @ CHR '':'' # m @ CHR ''-'' # b"
      using hm(1) by (metis append.assoc append_Cons append_eq_conv_conj)
    then have "time_parse (a @ CHR ''-'' # b @ tl) (len - 1) = Some (f, int (length h) + 3)"
      using nl by (intro time_parse_complete [of _ _ h m "CHR ''-'' # b" f, OF _ _ _ hm(2)]) (simp_all add: isdigit_def)
    then show ?thesis using la by simp
  qed
  have t2: "time_parse (b @ tl) (int (length b)) = Some (u, int (length b))"
  proof -
    have "take (nat (int (length b))) (b @ tl) = b" by simp
    also have "\<dots> = h2 @ CHR '':'' # m2 @ []" using hm2(1) by simp
    finally have e2: "take (nat (int (length b))) (b @ tl) = h2 @ CHR '':'' # m2 @ []" .
    have "time_parse (b @ tl) (int (length b)) = Some (u, int (length h2) + 3)"
      by (rule time_parse_complete [OF _ _ e2 hm2(2)]) simp_all
    then show ?thesis using la by simp
  qed
  show "period_times str len = Some (f, u)"
    unfolding period_times_def tl using t1 t2 lt nl by simp
qed

lemma not_isdigit_comma: "\<not> isdigit (CHR '','')"
  by (simp add: isdigit_def)

lemma is_day_unique: "is_day c d \<Longrightarrow> is_day c e \<Longrightarrow> d = e"
  by (simp add: is_day_def)

lemma is_day_not_minus: "is_day c d \<Longrightarrow> c \<noteq> CHR ''-'' \<and> c \<noteq> CHR '',''"
  by (auto simp: is_day_def isdigit_def)

lemma period_days_iff:
  assumes "0 \<le> len" "len \<le> int (length str)"
  shows "period_days str len = Some (d1, d2, r, n) \<longleftrightarrow>
    (\<exists>days. str = days @ r \<and> n = len - int (length days) \<and>
      ((\<exists>c. days = [c] \<and> is_day c d1 \<and> d2 = d1 \<and> cchar r 0 \<noteq> CHR ''-'' \<and> 0 < n) \<or>
       (\<exists>c c'. days = [c, CHR ''-'', c'] \<and> is_day c d1 \<and> is_day c' d2 \<and> d1 \<le> d2 \<and> 0 \<le> n)))"
proof (cases str)
  case Nil
  then show ?thesis by (auto simp: period_days_def day_digit_def)
next
  case (Cons c s)
  show ?thesis
  proof (cases "0 < len \<and> is_day c (int (digit_val c))")
    case False
    then have "day_digit str len = None"
      using day_digit_iff [of str len] unfolding Cons by (metis is_day_def list.inject not_None_eq)
    then show ?thesis using False assms unfolding period_days_def Cons by (auto simp: is_day_def)
  next
    case True
    define d where "d = int (digit_val c)"
    have d: "day_digit str len = Some d" "is_day c x \<longleftrightarrow> x = d" for x
      using True unfolding day_digit_iff Cons d_def by (auto simp: is_day_def)
    show ?thesis
    proof (cases "cchar s 0 = CHR ''-''")
      case False
      then have "period_days str len = (if len - 1 \<le> 0 then None else Some (d, d, s, len - 1))"
        unfolding period_days_def d(1) by (simp add: Cons Let_def)
      then show ?thesis using False unfolding Cons by (auto simp: d(2))
    next
      case minus: True
      then obtain s2 where s2: "s = CHR ''-'' # s2" by (cases s) auto
      have e: "period_days str len = (if len - 1 \<le> 0 then None else
          case day_digit s2 (len - 2) of None \<Rightarrow> None
          | Some d2 \<Rightarrow> if d2 < d then None else Some (d, d2, drop 1 s2, len - 3))"
      proof -
        have x: "drop 1 (c # t) = t" "drop 2 (CHR ''-'' # t) = drop 1 t" "len - 1 - 1 = len - 2" "len - 1 - 2 = len - 3" for c :: char and t
          by (simp_all add: numeral_2_eq_2)
        show ?thesis unfolding period_days_def Cons s2 d(1) [unfolded Cons s2] option.case Let_def x by simp
      qed
      have "period_days str len = Some (d1, d2, r, n) \<longleftrightarrow>
          d1 = d \<and> (\<exists>c'. s2 = c' # r \<and> is_day c' d2) \<and> 0 < len - 2 \<and> d \<le> d2 \<and> n = len - 3"
        unfolding e using day_digit_iff [of s2 "len - 2"]
        by (auto split: option.splits if_splits dest: is_day_unique)
      then show ?thesis unfolding Cons s2 by (auto simp: d(2))
    qed
  qed
qed

text \<open>C25. \<open>time_period_parse\<close> accepts exactly the texts \<open>d[-d],time-time\<close> with days from 1 to 7 in order and an end after the
  start, and gives the days and seconds they name. An hour may have up to three digits, such as \<open>009:00\<close>; the comment of
  \<open>time_parse\<close> admits two.\<close>

theorem time_period_parse_exact:
  assumes "0 \<le> len" "len \<le> int (length str)"
  shows "time_period_parse str len = Some p \<longleftrightarrow> is_period (take (nat len) str) p"
proof
  assume "time_period_parse str len = Some p"
  then obtain d1 d2 r n f u where d: "period_days str len = Some (d1, d2, r, n)" and t: "period_times r n = Some (f, u)"
    and p: "p = \<lparr>start_day = d1, end_day = d2, start_time = f, end_time = u\<rparr>"
    unfolding time_period_parse_def by (auto split: option.splits)
  then obtain days where str: "str = days @ r" "n = len - int (length days)" "0 \<le> n" and days: "is_days days d1 d2"
    unfolding period_days_iff [OF assms] is_days_def by fastforce
  have "n \<le> int (length r)" using str assms(2) by simp
  then obtain a b where e: "take (nat n) r = CHR '','' # a @ CHR ''-'' # b" "is_clock a f" "is_clock b u" "f < u"
    using t str(3) unfolding period_times_iff [OF str(3) \<open>n \<le> int (length r)\<close>] by blast
  have "nat len = length days + nat n" using str(2,3) by simp
  then have "take (nat len) str = days @ take (nat n) r" unfolding str(1) by simp
  then show "is_period (take (nat len) str) p" using days e unfolding is_period_def p by auto
next
  assume "is_period (take (nat len) str) p"
  then obtain days a b where e: "take (nat len) str = days @ CHR '','' # a @ CHR ''-'' # b"
    and days: "is_days days (start_day p) (end_day p)"
    and t: "is_clock a (start_time p)" "is_clock b (end_time p)" "start_time p < end_time p"
    unfolding is_period_def by blast
  define r where "r = drop (length days) str"
  define n where "n = len - int (length days)"
  have str: "str = days @ r"
    using e unfolding r_def by (metis append_eq_conv_conj append_take_drop_id append.assoc)
  have l: "nat len = length days + Suc (length (a @ CHR ''-'' # b))"
    using arg_cong [OF e, of length] assms by simp
  then have n: "0 < n" "n \<le> int (length r)" "nat n = Suc (length (a @ CHR ''-'' # b))"
    using assms str unfolding n_def by auto
  have tr: "take (nat n) r = CHR '','' # a @ CHR ''-'' # b"
    using e l n(3) unfolding str by simp
  then obtain s where "r = CHR '','' # s" using n(3) by (cases r) auto
  then have r0: "cchar r 0 \<noteq> CHR ''-''" by simp
  have d: "period_days str len = Some (start_day p, end_day p, r, n)"
    by (rule period_days_iff [OF assms, THEN iffD2], rule exI [of _ days])
      (use days n(1) str r0 in \<open>auto simp: is_days_def n_def\<close>)
  have "period_times r n = Some (start_time p, end_time p)"
    using n t tr by (subst period_times_iff) auto
  then show "time_period_parse str len = Some p" unfolding time_period_parse_def d by simp
qed

lemma time_period_parse_exact_witness:
  "time_period_parse ''1-5,009:00-18:00;6'' 16 = Some \<lparr>start_day = 1, end_day = 5, start_time = 32400, end_time = 64800\<rparr> \<and>
    is_period ''1-5,009:00-18:00'' \<lparr>start_day = 1, end_day = 5, start_time = 32400, end_time = 64800\<rparr>"
proof -
  have "time_period_parse ''1-5,009:00-18:00;6'' 16 =
      Some \<lparr>start_day = 1, end_day = 5, start_time = 32400, end_time = 64800\<rparr>"
    by code_simp
  then show ?thesis using time_period_parse_exact [of 16 "''1-5,009:00-18:00;6''"] by simp
qed

lemma is_clock_bounds: "is_clock t v \<Longrightarrow> 0 \<le> v \<and> v \<le> 86400"
  by (auto simp: is_clock_def clock_text_def)

lemma is_period_ok: "is_period t p \<Longrightarrow> period_ok p"
  by (auto simp: is_period_def is_days_def is_day_def period_ok_def dest!: is_clock_bounds)

section \<open>Lists of periods\<close>

declare strchr_None_iff [simp del]

fun split_on :: "char \<Rightarrow> string \<Rightarrow> string list" where
  "split_on c [] = [[]]"
| "split_on c (d # s) = (if d = c then [] # split_on c s else (d # hd (split_on c s)) # tl (split_on c s))"

lemma split_on_strchr:
  "split_on c s = (case strchr s c of None \<Rightarrow> [s] | Some n \<Rightarrow> take n s # split_on c (drop (n + 1) s))"
proof (induction s)
  case (Cons d s)
  then show ?case by (cases "strchr s c") (simp_all)
qed simp

lemma first_part_bounds: "0 \<le> first_part c s" "first_part c s \<le> int (length s)"
  by (auto simp: first_part_def dest: strchr_length split: option.split)

lemma take_first_part: "take (nat (first_part c s)) s = hd (split_on c s)"
  by (subst split_on_strchr, cases "strchr s c") (simp_all add: first_part_def)

lemma is_period_unique:
  assumes "is_period t p" "is_period t q"
  shows "p = q"
proof -
  have "time_period_parse t (int (length t)) = Some p" "time_period_parse t (int (length t)) = Some q"
    using assms time_period_parse_exact [of "int (length t)" t] by simp_all
  then show ?thesis by simp
qed

lemma check_periods_eq:
  "check_periods t s r = Some b \<longleftrightarrow>
    (\<forall>x\<in>set (split_on (CHR '';'') s). \<exists>p. is_period x p) \<and>
    b = (r \<or> (\<exists>x\<in>set (split_on (CHR '';'') s). \<exists>p. is_period x p \<and> check_time_period p t))"
proof (induction t s r rule: check_periods.induct)
  case (1 t s r)
  define x where "x = take (nat (first_part (CHR '';'') s)) s"
  have px: "time_period_parse s (first_part (CHR '';'') s) = Some p \<longleftrightarrow> is_period x p" for p
    unfolding x_def by (rule time_period_parse_exact [OF first_part_bounds])
  have sp: "split_on (CHR '';'') s = x # (case strchr s (CHR '';'') of None \<Rightarrow> [] | Some n \<Rightarrow> split_on (CHR '';'') (drop (n + 1) s))"
    unfolding x_def take_first_part
    by (subst (1 2) split_on_strchr, cases "strchr s (CHR '';'')") (simp_all)
  show ?case
  proof (cases "time_period_parse s (first_part (CHR '';'') s)")
    case None
    then have "\<not> is_period x p" for p using px by (metis option.distinct(1))
    then show ?thesis unfolding sp by (subst check_periods.simps) (simp add: None)
  next
    case (Some p)
    have p: "is_period x q \<longleftrightarrow> q = p" for q using px Some is_period_unique by (metis option.inject)
    show ?thesis
    proof (cases "strchr s (CHR '';'')")
      case None
      then show ?thesis unfolding sp by (subst check_periods.simps) (auto simp: Some Let_def p)
    next
      case n: (Some n)
      have "check_periods t s r = check_periods t (drop (n + 1) s) (if check_time_period p t then True else r)"
        by (subst check_periods.simps) (simp add: Some n Let_def)
      then show ?thesis unfolding sp n option.case using "1" [OF Some refl n] by (auto simp: p)
    qed
  qed
qed

text \<open>A list of periods is accepted when every part between semicolons is a period, and then the time is reported
  inside exactly when one of the periods contains its local time: no period is skipped.\<close>

theorem zbx_check_time_period_exact:
  "zbx_check_time_period localtime period time =
    (if list_all (\<lambda>x. Ex (is_period x)) (split_on (CHR '';'') period)
     then Some (list_ex (\<lambda>x. Ex (\<lambda>p. is_period x p \<and> check_time_period p (localtime time))) (split_on (CHR '';'') period))
     else None)"
proof (cases "zbx_check_time_period localtime period time")
  case None
  then have "\<not> list_all (\<lambda>x. Ex (is_period x)) (split_on (CHR '';'') period)"
    using check_periods_eq [of "localtime time" period False "\<exists>x\<in>set (split_on (CHR '';'') period). \<exists>p. is_period x p \<and> check_time_period p (localtime time)"]
    unfolding zbx_check_time_period_def list_all_iff by (simp only:) simp
  then show ?thesis using None by (simp only: if_False)
next
  case (Some b)
  then have "list_all (\<lambda>x. Ex (is_period x)) (split_on (CHR '';'') period)"
    "b = list_ex (\<lambda>x. Ex (\<lambda>p. is_period x p \<and> check_time_period p (localtime time))) (split_on (CHR '';'') period)"
    unfolding zbx_check_time_period_def check_periods_eq by (simp_all add: list_all_iff list_ex_iff)
  then show ?thesis using Some by simp
qed

text \<open>C22. The time that \<open>get_next_delay_interval\<close> answers lies in the future, and the delay in force is the same as now at every time before
  it at which the time zone has the offset from UTC that it has now. No change of the delay is missed, but for those that a change of the
  clock, such as to daylight saving time, brings about on the way.\<close>

theorem flexible_delay_constant:
  assumes "get_next_delay_interval localtime fs t = Some n" "\<forall>f\<in>set fs. period_ok (fi_period f)"
    and "local_clock localtime off"
  shows "t < n \<and> (\<forall>u\<in>{t..<n}. off u = off t \<longrightarrow> get_current_delay localtime d fs u = get_current_delay localtime d fs t)"
proof
  have "clock_ok (localtime t)" using assms(3) by (simp add: local_clock_def)
  then show "t < n" by (rule get_next_delay_interval_Some(1) [OF assms(1,2)])
  show "\<forall>u\<in>{t..<n}. off u = off t \<longrightarrow> get_current_delay localtime d fs u = get_current_delay localtime d fs t"
  proof (intro ballI impI)
    fix u assume "u \<in> {t..<n}" "off u = off t"
    then show "get_current_delay localtime d fs u = get_current_delay localtime d fs t"
      by (intro delay_constant [OF assms(1,2) clock_steps_same_offset [OF assms(3)]]) simp_all
  qed
qed

lemma week_clock_second: "week_second (week_clock u) = (u + 259200) mod 604800" "clock_ok (week_clock u)"
proof -
  have d: "day_of_week (week_clock u) - 1 = (u div 86400 + 3) mod 7"
  proof -
    define r where "r = (u div 86400 + 4) mod 7"
    have "(u div 86400 + 3) mod 7 = (u div 86400 + 4 + 6) mod 7"
      using mod_add_self2 [of "u div 86400 + 3" 7] by simp
    then have "(u div 86400 + 3) mod 7 = (r + 6) mod 7" unfolding r_def by (simp only: mod_add_left_eq)
    moreover have "0 \<le> r" "r < 7" by (simp_all add: r_def)
    then have "r = 0 \<or> r = 1 \<or> r = 2 \<or> r = 3 \<or> r = 4 \<or> r = 5 \<or> r = 6" by linarith
    ultimately show ?thesis unfolding day_of_week_def week_clock_def tm.simps r_def [symmetric] by auto
  qed
  have t: "time_of_day (week_clock u) = u mod 86400"
    using zmod_zmult2_eq [of 60 u 60] zmod_zmult2_eq [of 24 u 3600]
    by (simp add: time_of_day_def week_clock_def sec_per_defs)
  have "(u + 259200) mod (86400 * 7) = 86400 * ((u + 259200) div 86400 mod 7) + (u + 259200) mod 86400"
    by (rule zmod_zmult2_eq) simp
  moreover have "(u + 259200) div 86400 = u div 86400 + 3" "(u + 259200) mod 86400 = u mod 86400"
    using div_mult_self1 [of 86400 u 3] mod_mult_self1 [of u 3 86400] by simp_all
  ultimately show "week_second (week_clock u) = (u + 259200) mod 604800"
    unfolding week_second_def d t SEC_PER_DAY_def by simp
  have "(u div 86400 + 4) mod 7 < 7" "u div 3600 mod 24 < 24" "u div 60 mod 60 < 60" "u mod 60 < 60" by simp_all
  then show "clock_ok (week_clock u)" unfolding clock_ok_def week_clock_def tm.simps by auto
qed

lemma week_clock_local: "local_clock week_clock (\<lambda>u. 0)"
  by (simp add: local_clock_def week_clock_second sec_per_defs)

text \<open>A clock that is put one hour forward at a given time.\<close>

definition shifted_clock :: "int \<Rightarrow> int \<Rightarrow> tm" where
  "shifted_clock change u = week_clock (if change \<le> u then u + 3600 else u)"

lemma shifted_clock_local: "local_clock (shifted_clock change) (\<lambda>u. if change \<le> u then 3600 else 0)"
  by (simp add: local_clock_def shifted_clock_def week_clock_second sec_per_defs algebra_simps)

lemma flexible_delay_constant_witness:
  defines "fs \<equiv> [\<lparr>fi_period = \<lparr>start_day = 1, end_day = 5, start_time = 32400, end_time = 64800\<rparr>, fi_delay = 50\<rparr>]"
  shows "get_next_delay_interval (shifted_clock 409000) fs 380000 = Some 410400 \<and>
    get_current_delay (shifted_clock 409000) 60 fs 408999 = 50 \<and> get_current_delay (shifted_clock 409000) 60 fs 409000 = 60"
proof -
  have n: "get_next_delay_interval (shifted_clock 409000) fs 380000 = Some 410400" unfolding fs_def by code_simp
  have c: "get_current_delay (shifted_clock 409000) 60 fs 380000 = 50" "get_current_delay (shifted_clock 409000) 60 fs 409000 = 60"
    unfolding fs_def by code_simp+
  have p: "\<forall>f\<in>set fs. period_ok (fi_period f)" by (simp add: fs_def period_ok_def)
  have "\<forall>u\<in>{380000..<410400}. (if 409000 \<le> u then 3600 else 0 :: int) = (if (409000 :: int) \<le> 380000 then 3600 else 0) \<longrightarrow>
      get_current_delay (shifted_clock 409000) 60 fs u = get_current_delay (shifted_clock 409000) 60 fs 380000"
    by (rule flexible_delay_constant [OF n p shifted_clock_local, THEN conjunct2])
  from bspec [OF this, of 408999] have "get_current_delay (shifted_clock 409000) 60 fs 408999 = 50" using c(1) by simp
  then show ?thesis using n c(2) by blast
qed

end
