(* ===== verification/SchedFilter.thy ===== *)
theory SchedFilter
  imports TimePeriod
begin

text \<open>
  Scheduling intervals such as \<open>md1-31/2wd1-5h9,18m30\<close> (\<open>src/libs/zbxcommon/misc.c\<close>): the chains of filters of
  each time unit, their parser and the search in a chain for the next value.
\<close>

record zbx_scheduler_filter =
  sf_start :: int
  sf_end :: int
  sf_step :: int

record zbx_scheduler_interval =
  si_mdays :: "zbx_scheduler_filter list"
  si_wdays :: "zbx_scheduler_filter list"
  si_hours :: "zbx_scheduler_filter list"
  si_minutes :: "zbx_scheduler_filter list"
  si_seconds :: "zbx_scheduler_filter list"
  si_filter_level :: int

definition ZBX_SCHEDULER_FILTER_DAY :: int where
  "ZBX_SCHEDULER_FILTER_DAY = 1"

definition ZBX_SCHEDULER_FILTER_HOUR :: int where
  "ZBX_SCHEDULER_FILTER_HOUR = 2"

definition ZBX_SCHEDULER_FILTER_MINUTE :: int where
  "ZBX_SCHEDULER_FILTER_MINUTE = 3"

definition ZBX_SCHEDULER_FILTER_SECOND :: int where
  "ZBX_SCHEDULER_FILTER_SECOND = 4"

lemmas filter_level_defs = ZBX_SCHEDULER_FILTER_DAY_def ZBX_SCHEDULER_FILTER_HOUR_def
  ZBX_SCHEDULER_FILTER_MINUTE_def ZBX_SCHEDULER_FILTER_SECOND_def

section \<open>The parser\<close>

text \<open>The loops over digits: the position after them and the length that is left.\<close>

function digit_scan :: "string \<Rightarrow> nat \<Rightarrow> int \<Rightarrow> nat \<times> int" where
  "digit_scan str i len = (if isdigit (cchar str i) \<and> 0 < len then digit_scan str (i + 1) (len - 1) else (i, len))"
  by pat_completeness auto
termination
  by (relation "measure (\<lambda>(str, i, len). length str - i)") (auto simp: cchar_def split: if_splits)

declare digit_scan.simps [simp del]

text \<open>
  A number that follows a sign, of at most \<open>var_len\<close> digits between \<open>lo\<close> and \<open>hi\<close>, from position \<open>i\<close> on.
\<close>

definition filter_number :: "string \<Rightarrow> nat \<Rightarrow> int \<Rightarrow> int \<Rightarrow> int \<Rightarrow> nat \<Rightarrow> (int \<times> nat \<times> int) option" where
  "filter_number str i len lo hi var_len =
    (case digit_scan str i len of (e, len) \<Rightarrow>
       if e = i \<or> var_len < e - i then None
       else
         case is_uint_n_range (drop i str) (e - i) True 4 (word_of_int lo) (word_of_int hi) of
           None \<Rightarrow> None
         | Some v \<Rightarrow> Some (uint v, e, len))"

text \<open>The range of a filter: its ends, whether it was written, and the position and length after it.\<close>

definition filter_range :: "string \<Rightarrow> int \<Rightarrow> int \<Rightarrow> int \<Rightarrow> nat \<Rightarrow> (int \<times> int \<times> nat \<times> int) option" where
  "filter_range str len min_v max_v var_len =
    (case digit_scan str 0 len of (p, len') \<Rightarrow>
       if p \<noteq> 0 then
         (case filter_number str 0 len min_v max_v var_len of
            None \<Rightarrow> None
          | Some (v1, p, len) \<Rightarrow>
              if CHR ''-'' = cchar str p then
                (case filter_number str (p + 1) (len - 1) min_v max_v var_len of
                   None \<Rightarrow> None
                 | Some (v2, p, len) \<Rightarrow> if v2 < v1 then None else Some (v1, v2, p, len))
              else if CHR ''/'' = cchar str p then None
              else Some (v1, v1, p, len))
       else Some (min_v, max_v, p, len'))"

definition filter_step :: "string \<Rightarrow> int \<Rightarrow> int \<Rightarrow> nat \<Rightarrow> int \<Rightarrow> nat \<Rightarrow> (int \<times> nat \<times> int) option" where
  "filter_step str v1 v2 p len var_len =
    (if CHR ''/'' = cchar str p then filter_number str (p + 1) (len - 1) 1 (v2 - v1) var_len
     else if p = 0 then None
     else Some (1, p, len))"

lemma digit_scan_le: "digit_scan str i len = (e, n) \<Longrightarrow> n \<le> len \<and> i \<le> e"
proof (induction str i len rule: digit_scan.induct)
  case (1 str i len)
  show ?case
  proof (cases "isdigit (cchar str i) \<and> 0 < len")
    case True
    then have "digit_scan str (i + 1) (len - 1) = (e, n)" using "1.prems" by (subst (asm) digit_scan.simps) simp
    then show ?thesis using "1.IH" [OF True] by simp
  next
    case False
    then have "digit_scan str i len = (i, len)" by (subst digit_scan.simps) (rule if_not_P)
    then show ?thesis using "1.prems" by simp
  qed
qed

lemma filter_number_le:
  "filter_number str i len lo hi w = Some (v, p, n) \<Longrightarrow> n \<le> len \<and> i < p"
  unfolding filter_number_def
  by (auto split: prod.splits if_splits option.splits dest: digit_scan_le)

lemma filter_range_le:
  "filter_range str len lo hi w = Some (a, b, p, n) \<Longrightarrow> n \<le> len"
  unfolding filter_range_def
  by (auto split: prod.splits if_splits option.splits dest!: digit_scan_le filter_number_le)

lemma filter_step_le:
  "filter_step str a b p len w = Some (s, q, n) \<Longrightarrow> n \<le> len \<and> p \<le> q"
  unfolding filter_step_def by (auto split: if_splits dest!: filter_number_le)

text \<open>
  \<open>scheduler_parse_filter_r\<close>: the filters that are put in front of the chain, in the order of the text, and the
  length that is left. The call of the source for the next fragment comes before its own filter is linked in.
\<close>

function scheduler_parse_filter_r :: "string \<Rightarrow> int \<Rightarrow> int \<Rightarrow> int \<Rightarrow> nat \<Rightarrow> (zbx_scheduler_filter list \<times> int) option" where
  "scheduler_parse_filter_r str len min_v max_v var_len =
    (case filter_range str len min_v max_v var_len of
       None \<Rightarrow> None
     | Some (v1, v2, p, len) \<Rightarrow>
         (case filter_step str v1 v2 p len var_len of
            None \<Rightarrow> None
          | Some (step, p, len) \<Rightarrow>
              let f = \<lparr>sf_start = v1, sf_end = v2, sf_step = step\<rparr>
              in if CHR '','' = cchar str p then
                   if 0 = len - 1 then None
                   else
                     (case scheduler_parse_filter_r (drop (p + 1) str) (len - 1) min_v max_v var_len of
                        None \<Rightarrow> None
                      | Some (fs, len) \<Rightarrow> Some (f # fs, len))
                 else Some ([f], len)))"
  by pat_completeness auto
termination
  by (relation "measure (\<lambda>(str, len, min_v, max_v, var_len). length str)") (auto simp: cchar_def split: if_splits)

declare scheduler_parse_filter_r.simps [simp del]

definition scheduler_parse_filter :: "zbx_scheduler_filter list \<Rightarrow> string \<Rightarrow> int \<Rightarrow> int \<Rightarrow> int \<Rightarrow> nat \<Rightarrow>
    (zbx_scheduler_filter list \<times> int) option" where
  "scheduler_parse_filter fs str len min_v max_v var_len =
    (if fs \<noteq> [] then None else scheduler_parse_filter_r str len min_v max_v var_len)"

lemma scheduler_parse_filter_r_le:
  "scheduler_parse_filter_r str len lo hi w = Some (fs, n) \<Longrightarrow> n \<le> len"
proof (induction str len lo hi w arbitrary: fs n rule: scheduler_parse_filter_r.induct)
  case (1 str len lo hi w)
  from "1.prems" obtain a b p l s q m where r: "filter_range str len lo hi w = Some (a, b, p, l)"
    and st: "filter_step str a b p l w = Some (s, q, m)"
    by (subst (asm) scheduler_parse_filter_r.simps) (auto split: option.splits)
  have "m \<le> len" using filter_range_le [OF r] filter_step_le [OF st] by simp
  moreover have "n \<le> m"
  proof (cases "CHR '','' = cchar str q")
    case True
    then obtain gs where "scheduler_parse_filter_r (drop (q + 1) str) (m - 1) lo hi w = Some (gs, n)" "0 \<noteq> m - 1"
      using "1.prems" r st by (subst (asm) scheduler_parse_filter_r.simps) (auto simp: Let_def split: option.splits if_splits)
    then have "n \<le> m - 1" using "1.IH" [OF r refl refl refl st refl refl refl True] by simp
    then show ?thesis by simp
  next
    case False
    then show ?thesis
      using "1.prems" r st by (subst (asm) scheduler_parse_filter_r.simps) (auto simp: Let_def)
  qed
  ultimately show ?case by simp
qed

text \<open>The switch of \<open>scheduler_interval_parse\<close> on the unit: \<open>len\<close> is the length after its first character.\<close>

definition interval_unit :: "zbx_scheduler_interval \<Rightarrow> string \<Rightarrow> int \<Rightarrow> (zbx_scheduler_interval \<times> int) option" where
  "interval_unit interval str len =
    (let c = cchar str 0; level = si_filter_level interval in
     if c = CHR ''h'' then
       if ZBX_SCHEDULER_FILTER_HOUR < level then None
       else map_option (\<lambda>(fs, len). (interval\<lparr>si_hours := fs, si_filter_level := ZBX_SCHEDULER_FILTER_HOUR\<rparr>, len))
         (scheduler_parse_filter (si_hours interval) (drop 1 str) len 0 23 2)
     else if c = CHR ''s'' then
       if ZBX_SCHEDULER_FILTER_SECOND < level then None
       else map_option (\<lambda>(fs, len). (interval\<lparr>si_seconds := fs, si_filter_level := ZBX_SCHEDULER_FILTER_SECOND\<rparr>, len))
         (scheduler_parse_filter (si_seconds interval) (drop 1 str) len 0 59 2)
     else if c = CHR ''w'' then
       if CHR ''d'' \<noteq> cchar str 1 \<or> ZBX_SCHEDULER_FILTER_DAY < level then None
       else map_option (\<lambda>(fs, len). (interval\<lparr>si_wdays := fs, si_filter_level := ZBX_SCHEDULER_FILTER_DAY\<rparr>, len))
         (scheduler_parse_filter (si_wdays interval) (drop 2 str) (len - 1) 1 7 1)
     else if c = CHR ''m'' then
       if CHR ''d'' = cchar str 1 then
         if ZBX_SCHEDULER_FILTER_DAY < level \<or> si_wdays interval \<noteq> [] then None
         else map_option (\<lambda>(fs, len). (interval\<lparr>si_mdays := fs, si_filter_level := ZBX_SCHEDULER_FILTER_DAY\<rparr>, len))
           (scheduler_parse_filter (si_mdays interval) (drop 2 str) (len - 1) 1 31 2)
       else if ZBX_SCHEDULER_FILTER_MINUTE < level then None
       else map_option (\<lambda>(fs, len). (interval\<lparr>si_minutes := fs, si_filter_level := ZBX_SCHEDULER_FILTER_MINUTE\<rparr>, len))
         (scheduler_parse_filter (si_minutes interval) (drop 1 str) len 0 59 2)
     else None)"

lemma scheduler_parse_filter_le: "scheduler_parse_filter gs str len lo hi w = Some (fs, n) \<Longrightarrow> n \<le> len"
  by (auto simp: scheduler_parse_filter_def split: if_splits dest: scheduler_parse_filter_r_le)

lemma interval_unit_le: "interval_unit i str len = Some (j, n) \<Longrightarrow> n \<le> len \<and> str \<noteq> []"
  unfolding interval_unit_def Let_def
  by (auto split: if_splits dest!: scheduler_parse_filter_le)

function interval_parse_loop :: "zbx_scheduler_interval \<Rightarrow> string \<Rightarrow> int \<Rightarrow> zbx_scheduler_interval option" where
  "interval_parse_loop interval str len =
    (if 0 = len then Some interval
     else
       case interval_unit interval str (len - 1) of
         None \<Rightarrow> None
       | Some (interval, len') \<Rightarrow> interval_parse_loop interval (drop (nat (len - len')) str) len')"
  by pat_completeness auto
termination
proof (relation "measure (\<lambda>(interval, str, len). length str)", goal_cases)
  case (2 interval str len r i n)
  then have "n \<le> len - 1 \<and> str \<noteq> []" by (metis interval_unit_le)
  then show ?case by (cases str) auto
qed simp

declare interval_parse_loop.simps [simp del]

definition empty_interval :: zbx_scheduler_interval where
  "empty_interval = \<lparr>si_mdays = [], si_wdays = [], si_hours = [], si_minutes = [], si_seconds = [], si_filter_level = 0\<rparr>"

definition scheduler_interval_parse :: "string \<Rightarrow> int \<Rightarrow> zbx_scheduler_interval option" where
  "scheduler_interval_parse str len = (if 0 = len then None else interval_parse_loop empty_interval str len)"

section \<open>What the parser establishes\<close>

definition filter_ok :: "int \<Rightarrow> int \<Rightarrow> zbx_scheduler_filter \<Rightarrow> bool" where
  "filter_ok lo hi f \<longleftrightarrow> lo \<le> sf_start f \<and> sf_start f \<le> sf_end f \<and> sf_end f \<le> hi \<and> 1 \<le> sf_step f"

definition interval_ok :: "zbx_scheduler_interval \<Rightarrow> bool" where
  "interval_ok i \<longleftrightarrow> list_all (filter_ok 1 31) (si_mdays i) \<and> list_all (filter_ok 1 7) (si_wdays i) \<and>
    list_all (filter_ok 0 23) (si_hours i) \<and> list_all (filter_ok 0 59) (si_minutes i) \<and>
    list_all (filter_ok 0 59) (si_seconds i) \<and> 0 \<le> si_filter_level i \<and> si_filter_level i \<le> 4 \<and>
    (si_hours i \<noteq> [] \<longrightarrow> 2 \<le> si_filter_level i) \<and> (si_minutes i \<noteq> [] \<longrightarrow> 3 \<le> si_filter_level i) \<and>
    (si_seconds i \<noteq> [] \<longrightarrow> 4 \<le> si_filter_level i)"

lemma filter_number_ok:
  assumes "filter_number str i len lo hi w = Some (v, p, n)" "0 \<le> lo" "lo \<le> hi" "hi < 2 ^ 32"
  shows "lo \<le> v \<and> v \<le> hi"
proof -
  obtain k x where x: "is_uint_n_range (drop i str) k True 4 (word_of_int lo) (word_of_int hi) = Some x" "v = uint x"
    using assms(1) unfolding filter_number_def by (auto split: prod.splits if_splits option.splits)
  have b: "uint (word_of_int lo :: u64) = lo" "uint (word_of_int hi :: u64) = hi"
    using assms(2-4) by (auto simp: unsigned_of_int take_bit_int_eq_self_iff)
  have "is_uint_n_range (drop i str) k True 4 (word_of_int lo) (word_of_int hi) =
      (if number_in_range 10 isdigit digit_val (take k (drop i str)) (word_of_int lo) (word_of_int hi)
       then Some (take_bit (8 * 4) (of_nat (dec_val (take k (drop i str))))) else None)"
    by (rule is_uint_n_range_eq) simp_all
  then have r: "unat (word_of_int lo :: u64) \<le> dec_val (take k (drop i str))"
    "dec_val (take k (drop i str)) \<le> unat (word_of_int hi :: u64)"
    and xv: "x = take_bit 32 (of_nat (dec_val (take k (drop i str))))"
    using x(1) by (auto simp: number_in_range_def split: if_splits)
  define d where "d = dec_val (take k (drop i str))"
  have d: "lo \<le> int d" "int d \<le> hi" using r b unfolding d_def [symmetric] by (metis of_nat_le_iff uint_nat)+
  have "unat (take_bit 32 (of_nat d :: u64)) = take_bit 32 (unat (of_nat d :: u64))" by (rule unsigned_take_bit_eq)
  also have "\<dots> = d" using d assms(4) by (simp add: take_bit_eq_mod unat_of_nat)
  finally have "v = int d" unfolding x(2) xv d_def [symmetric] by (metis uint_nat)
  then show ?thesis using d by simp
qed

lemma filter_range_ok:
  assumes "filter_range str len lo hi w = Some (a, b, p, n)" "0 \<le> lo" "lo \<le> hi" "hi < 2 ^ 32"
  shows "lo \<le> a \<and> a \<le> b \<and> b \<le> hi"
  using assms unfolding filter_range_def
  by (auto split: prod.splits if_splits option.splits dest!: filter_number_ok [OF _ assms(2-4)])

lemma filter_step_ok:
  assumes "filter_step str a b p len w = Some (s, q, n)" "a \<le> b" "b - a < 2 ^ 32"
  shows "1 \<le> s"
proof (cases "CHR ''/'' = cchar str p")
  case True
  then have n: "filter_number str (p + 1) (len - 1) 1 (b - a) w = Some (s, q, n)" using assms(1) by (simp add: filter_step_def)
  show ?thesis
  proof (cases "b - a = 0")
    case True
    have "is_uint_n_range t k True 4 1 0 = None" for t k
      using is_uint_n_range_eq [of 4 t k 1 0] by (auto simp: number_in_range_def)
    then have False using n unfolding filter_number_def True by (auto split: prod.splits if_splits)
    then show ?thesis ..
  next
    case False
    then show ?thesis using filter_number_ok [OF n] assms(2,3) by simp
  qed
qed (use assms(1) in \<open>auto simp: filter_step_def split: if_splits\<close>)

lemma scheduler_parse_filter_r_ok:
  assumes "scheduler_parse_filter_r str len lo hi w = Some (fs, n)" "0 \<le> lo" "lo \<le> hi" "hi < 2 ^ 32"
  shows "list_all (filter_ok lo hi) fs \<and> fs \<noteq> []"
  using assms
proof (induction str len lo hi w arbitrary: fs n rule: scheduler_parse_filter_r.induct)
  case (1 str len lo hi w)
  from "1.prems"(1) obtain a b p l s q m where r: "filter_range str len lo hi w = Some (a, b, p, l)"
    and st: "filter_step str a b p l w = Some (s, q, m)"
    by (subst (asm) scheduler_parse_filter_r.simps) (auto split: option.splits)
  have f: "filter_ok lo hi \<lparr>sf_start = a, sf_end = b, sf_step = s\<rparr>"
    using filter_range_ok [OF r "1.prems"(2-4)] filter_step_ok [OF st] "1.prems"(2-4) by (simp add: filter_ok_def)
  show ?case
  proof (cases "CHR '','' = cchar str q")
    case True
    then obtain gs where g: "scheduler_parse_filter_r (drop (q + 1) str) (m - 1) lo hi w = Some (gs, n)" "0 \<noteq> m - 1"
      "fs = \<lparr>sf_start = a, sf_end = b, sf_step = s\<rparr> # gs"
      using "1.prems"(1) r st by (subst (asm) scheduler_parse_filter_r.simps) (auto simp: Let_def split: option.splits if_splits)
    then show ?thesis using "1.IH" [OF r refl refl refl st refl refl refl True g(2) g(1) "1.prems"(2-4)] f by simp
  next
    case False
    then show ?thesis
      using "1.prems"(1) r st f by (subst (asm) scheduler_parse_filter_r.simps) (auto simp: Let_def)
  qed
qed

lemma scheduler_parse_filter_ok:
  "scheduler_parse_filter gs str len lo hi w = Some (fs, n) \<Longrightarrow> 0 \<le> lo \<Longrightarrow> lo \<le> hi \<Longrightarrow> hi < 2 ^ 32 \<Longrightarrow>
    list_all (filter_ok lo hi) fs"
  by (auto simp: scheduler_parse_filter_def split: if_splits dest: scheduler_parse_filter_r_ok)

text \<open>Reading a result of \<open>interval_unit\<close> branch by branch.\<close>

lemma unit_branch:
  assumes "(if c then (if b then None else map_option (\<lambda>(fs, len). (f fs, len)) q) else r) = Some (j, n)"
    and "r = Some (j, n) \<Longrightarrow> P" "\<And>fs m. \<not> b \<Longrightarrow> q = Some (fs, m) \<Longrightarrow> j = f fs \<Longrightarrow> P"
  shows P
  using assms by (auto split: if_splits)

lemma unit_last:
  assumes "(if b then None else map_option (\<lambda>(fs, len). (f fs, len)) q) = Some (j, n)"
    and "\<And>fs m. \<not> b \<Longrightarrow> q = Some (fs, m) \<Longrightarrow> j = f fs \<Longrightarrow> P"
  shows P
  using assms by (auto split: if_splits)

lemma unit_only: "(if c then x else None) = Some v \<Longrightarrow> (x = Some v \<Longrightarrow> P) \<Longrightarrow> P"
  by (simp split: if_splits)

lemma interval_unit_ok:
  assumes "interval_unit i str len = Some (j, n)" "interval_ok i"
  shows "interval_ok j \<and> 1 \<le> si_filter_level j"
  using assms(1) unfolding interval_unit_def Let_def filter_level_defs
  by (elim unit_branch unit_only unit_last)
    (use assms(2) in \<open>simp_all add: interval_ok_def scheduler_parse_filter_ok\<close>)

lemma interval_parse_loop_ok:
  "interval_parse_loop i str len = Some j \<Longrightarrow> interval_ok i \<Longrightarrow> interval_ok j \<and> (len = 0 \<or> 1 \<le> si_filter_level j)"
proof (induction i str len rule: interval_parse_loop.induct)
  case (1 i str len)
  show ?case
  proof (cases "0 = len")
    case True
    then show ?thesis using "1.prems" by (simp add: interval_parse_loop.simps)
  next
    case False
    then obtain k n where u: "interval_unit i str (len - 1) = Some (k, n)"
      and r: "interval_parse_loop k (drop (nat (len - n)) str) n = Some j"
      using "1.prems"(1) by (subst (asm) interval_parse_loop.simps) (auto split: option.splits)
    have k: "interval_ok k" "1 \<le> si_filter_level k" using interval_unit_ok [OF u "1.prems"(2)] by simp_all
    have "interval_ok j \<and> (n = 0 \<or> 1 \<le> si_filter_level j)" using "1.IH" [OF False u refl r k(1)] .
    then show ?thesis using k r by (auto simp: interval_parse_loop.simps)
  qed
qed

text \<open>Every scheduling interval that the parser accepts is well formed: each filter lies in the range of its unit with a
  positive step, a unit finer than the filter level has no filter, and the level is one of the four.\<close>

theorem scheduler_interval_parse_ok:
  assumes "scheduler_interval_parse str len = Some i"
  shows "interval_ok i \<and> 1 \<le> si_filter_level i"
proof -
  have "interval_ok empty_interval" by (simp add: interval_ok_def empty_interval_def)
  then show ?thesis
    using assms interval_parse_loop_ok [of empty_interval str len i] unfolding scheduler_interval_parse_def
    by (auto split: if_splits)
qed

lemma scheduler_interval_parse_ok_witness:
  "\<exists>i. scheduler_interval_parse ''md1-31/2wd1-5h9,18m30;'' 21 = Some i \<and> interval_ok i \<and> 1 \<le> si_filter_level i"
proof -
  have "scheduler_interval_parse ''md1-31/2wd1-5h9,18m30;'' 21 \<noteq> None" by code_simp
  then obtain i where "scheduler_interval_parse ''md1-31/2wd1-5h9,18m30;'' 21 = Some i" by blast
  then show ?thesis using scheduler_interval_parse_ok by blast
qed

section \<open>The next value of a chain\<close>

text \<open>The value rounded up to the step of a filter, and the loop with the nearest filter found so far.\<close>

definition apply_step :: "zbx_scheduler_filter \<Rightarrow> int \<Rightarrow> int" where
  "apply_step f v =
    (let offset = (v - sf_start f) mod sf_step f in if 0 \<noteq> offset then v + (sf_step f - offset) else v)"

fun nearest_loop :: "zbx_scheduler_filter list \<Rightarrow> int \<Rightarrow> zbx_scheduler_filter option \<Rightarrow> int option" where
  "nearest_loop [] v filter_next = map_option sf_start filter_next"
| "nearest_loop (f # fs) v filter_next =
    (if sf_start f \<le> v \<and> v \<le> sf_end f \<and> apply_step f v \<le> sf_end f then Some (apply_step f v)
     else nearest_loop fs v
       (if v < sf_start f \<and> (case filter_next of None \<Rightarrow> True | Some g \<Rightarrow> sf_start f < sf_start g)
        then Some f else filter_next))"

definition scheduler_get_nearest_filter_value :: "zbx_scheduler_filter list \<Rightarrow> int \<Rightarrow> int option" where
  "scheduler_get_nearest_filter_value fs v = nearest_loop fs v None"

text \<open>The values that a chain stands for, and chains whose ranges do not overlap.\<close>

definition filter_has :: "zbx_scheduler_filter \<Rightarrow> int \<Rightarrow> bool" where
  "filter_has f v \<longleftrightarrow> sf_start f \<le> v \<and> v \<le> sf_end f \<and> (v - sf_start f) mod sf_step f = 0"

definition chain_has :: "zbx_scheduler_filter list \<Rightarrow> int \<Rightarrow> bool" where
  "chain_has fs v \<longleftrightarrow> (\<exists>f\<in>set fs. filter_has f v)"

definition chain_disjoint :: "zbx_scheduler_filter list \<Rightarrow> bool" where
  "chain_disjoint fs \<longleftrightarrow> sorted_wrt (\<lambda>f g. sf_end f < sf_start g \<or> sf_end g < sf_start f) fs"

lemma apply_step_least:
  assumes "1 \<le> sf_step f" "sf_start f \<le> v"
  shows "v \<le> apply_step f v" "(apply_step f v - sf_start f) mod sf_step f = 0"
    "v \<le> w \<Longrightarrow> (w - sf_start f) mod sf_step f = 0 \<Longrightarrow> apply_step f v \<le> w"
proof -
  define s o' where "s = sf_step f" and "o' = (v - sf_start f) mod s"
  have s: "1 \<le> s" using assms by (simp add: s_def)
  have o': "0 \<le> o'" "o' < s" using s by (simp_all add: o'_def)
  have a: "apply_step f v = (if 0 \<noteq> o' then v + (s - o') else v)" by (simp add: apply_step_def Let_def s_def o'_def)
  show "v \<le> apply_step f v" using o' by (simp add: a)
  show "(apply_step f v - sf_start f) mod sf_step f = 0"
  proof (cases "o' = 0")
    case False
    have "(v + (s - o') - sf_start f) mod s = (v - sf_start f - o' + s) mod s" by (simp add: algebra_simps)
    also have "\<dots> = ((v - sf_start f) - (v - sf_start f) mod s) mod s" by (simp add: o'_def)
    also have "\<dots> = 0" by (simp add: mod_diff_right_eq)
    finally show ?thesis using False by (simp add: a s_def)
  qed (use a in \<open>simp add: o'_def s_def\<close>)
  assume w: "v \<le> w" "(w - sf_start f) mod sf_step f = 0"
  show "apply_step f v \<le> w"
  proof (cases "o' = 0")
    case False
    have dw: "s dvd w - sf_start f" using w(2) by (simp add: s_def mod_eq_0_iff_dvd)
    have "s dvd v - sf_start f - o'" unfolding o'_def by (rule dvd_minus_mod)
    then have "s dvd (w - sf_start f) - (v - sf_start f - o')" using dw by (rule dvd_diff [rotated])
    then have d: "s dvd w - v + o'" by (simp add: algebra_simps)
    have "0 < w - v + o'" using w(1) o' False by linarith
    then have "s \<le> w - v + o'" using d by (rule zdvd_imp_le [rotated])
    then show ?thesis using False by (simp add: a)
  qed (use a w in simp)
qed

lemma filter_has_start: "filter_ok lo hi f \<Longrightarrow> filter_has f (sf_start f)"
  by (simp add: filter_has_def filter_ok_def)

text \<open>The loop returns a value of the chain at or after \<open>v\<close>, and fails only when there is none.\<close>

lemma nearest_loop_spec:
  assumes "list_all (filter_ok lo hi) fs" "\<forall>g. n = Some g \<longrightarrow> v < sf_start g \<and> filter_ok lo hi g"
  shows "case nearest_loop fs v n of
      None \<Rightarrow> n = None \<and> (\<forall>w. v \<le> w \<longrightarrow> \<not> chain_has fs w)
    | Some x \<Rightarrow> v \<le> x \<and> (chain_has fs x \<or> (\<exists>g. n = Some g \<and> x = sf_start g))"
  using assms
proof (induction fs v n rule: nearest_loop.induct)
  case (1 v n)
  then show ?case by (cases n) (auto simp: chain_has_def)
next
  case (2 f fs v n)
  have f: "filter_ok lo hi f" and fs: "list_all (filter_ok lo hi) fs" using "2.prems"(1) by simp_all
  note st = f [unfolded filter_ok_def]
  show ?case
  proof (cases "sf_start f \<le> v \<and> v \<le> sf_end f \<and> apply_step f v \<le> sf_end f")
    case True
    then have "filter_has f (apply_step f v)" "v \<le> apply_step f v"
      using apply_step_least [of f v] st by (auto simp: filter_has_def)
    then show ?thesis using True by (auto simp: chain_has_def)
  next
    case False
    define m where "m = (if v < sf_start f \<and> (case n of None \<Rightarrow> True | Some g \<Rightarrow> sf_start f < sf_start g) then Some f else n)"
    have eq: "nearest_loop (f # fs) v n = nearest_loop fs v m"
      unfolding nearest_loop.simps m_def by (rule if_not_P [OF False])
    have m: "\<forall>g. m = Some g \<longrightarrow> v < sf_start g \<and> filter_ok lo hi g"
      using "2.prems"(2) f by (auto simp: m_def)
    note ih = "2.IH" [OF False fs m [unfolded m_def], folded m_def]
    have nf: "\<not> filter_has f w" if "v \<le> w" "sf_start f \<le> v" for w
      using False that apply_step_least(3) [of f v w] st by (auto simp: filter_has_def)
    show ?thesis
    proof (cases "nearest_loop fs v m")
      case None
      then have n: "m = None" "\<forall>w. v \<le> w \<longrightarrow> \<not> chain_has fs w" using ih by simp_all
      then have "sf_start f \<le> v" "n = None" by (auto simp: m_def split: if_splits option.splits)
      then show ?thesis unfolding eq None using n nf by (auto simp: chain_has_def)
    next
      case (Some x)
      then have "v \<le> x \<and> (chain_has fs x \<or> (\<exists>g. m = Some g \<and> x = sf_start g))" using ih by simp
      then show ?thesis unfolding eq Some using filter_has_start [OF f] by (auto simp: chain_has_def m_def split: if_splits)
    qed
  qed
qed

text \<open>
  Nothing is skipped when the ranges are disjoint: then a filter that contains \<open>v\<close> and has a value left
  ends before every filter that starts after \<open>v\<close>.
\<close>

lemma nearest_loop_least:
  assumes "list_all (filter_ok lo hi) fs" "chain_disjoint fs" "nearest_loop fs v n = Some x"
    and "\<forall>g. n = Some g \<longrightarrow> v < sf_start g \<and> filter_ok lo hi g \<and> (\<forall>f\<in>set fs. sf_end f < sf_start g \<or> sf_end g < sf_start f)"
    and "chain_has fs w \<or> (\<exists>g. n = Some g \<and> sf_start g = w)" "v \<le> w"
  shows "x \<le> w"
  using assms
proof (induction fs v n arbitrary: w rule: nearest_loop.induct)
  case (1 v n)
  then show ?case by (auto simp: chain_has_def)
next
  case (2 f fs v n)
  have f: "filter_ok lo hi f" and fs: "list_all (filter_ok lo hi) fs" "chain_disjoint fs"
    and dj: "\<forall>g\<in>set fs. sf_end f < sf_start g \<or> sf_end g < sf_start f"
    using "2.prems"(1,2) by (simp_all add: chain_disjoint_def)
  note st = f [unfolded filter_ok_def]
  show ?case
  proof (cases "sf_start f \<le> v \<and> v \<le> sf_end f \<and> apply_step f v \<le> sf_end f")
    case True
    then have x: "x = apply_step f v" using "2.prems"(3) by simp
    consider (f) "filter_has f w" | (fs) g where "g \<in> set fs" "filter_has g w" | (n) g where "n = Some g" "sf_start g = w"
      using "2.prems"(5) by (auto simp: chain_has_def)
    then show ?thesis
    proof cases
      case f
      then show ?thesis using apply_step_least(3) [of f v w] st True "2.prems"(6) by (simp add: x filter_has_def)
    next
      case fs
      then have "sf_end f < sf_start g \<or> sf_end g < sf_start f" using dj by blast
      then show ?thesis using fs(2) True "2.prems"(6) by (auto simp: x filter_has_def)
    next
      case n
      then have "sf_end f < sf_start g \<or> sf_end g < sf_start f" "v < sf_start g" "sf_start g \<le> sf_end g"
        using "2.prems"(4) by (auto simp: filter_ok_def)
      then show ?thesis using True n by (auto simp: x)
    qed
  next
    case False
    define m where "m = (if v < sf_start f \<and> (case n of None \<Rightarrow> True | Some g \<Rightarrow> sf_start f < sf_start g) then Some f else n)"
    have eq: "nearest_loop fs v m = Some x"
      using "2.prems"(3) unfolding nearest_loop.simps if_not_P [OF False] m_def .
    have m: "\<forall>g. m = Some g \<longrightarrow> v < sf_start g \<and> filter_ok lo hi g \<and> (\<forall>f\<in>set fs. sf_end f < sf_start g \<or> sf_end g < sf_start f)"
      using "2.prems"(4) dj f by (auto simp: m_def)
    have ih: "x \<le> w" if "chain_has fs w \<or> (\<exists>g. m = Some g \<and> sf_start g = w)" "v \<le> w" for w
      using "2.IH" [OF False fs eq [unfolded m_def] m [unfolded m_def] that [unfolded m_def]] .
    have bound: "x \<le> sf_start g" if "m = Some g" for g
      using ih [of "sf_start g"] m that by auto
    consider (f) "filter_has f w" | (fs) "chain_has fs w" | (n) g where "n = Some g" "sf_start g = w"
      using "2.prems"(5) by (auto simp: chain_has_def)
    then show ?thesis
    proof cases
      case f
      have "\<not> sf_start f \<le> v"
      proof
        assume le: "sf_start f \<le> v"
        then have "apply_step f v \<le> w"
          using f st "2.prems"(6) by (intro apply_step_least(3)) (simp_all add: filter_has_def)
        then show False using le False f "2.prems"(6) by (auto simp: filter_has_def)
      qed
      then have "v < sf_start f" by simp
      then have "\<exists>g. m = Some g \<and> sf_start g \<le> sf_start f" by (cases n) (auto simp: m_def)
      then obtain g where "m = Some g" "sf_start g \<le> sf_start f" by blast
      then show ?thesis using bound f by (fastforce simp: filter_has_def)
    next
      case fs
      then show ?thesis using ih "2.prems"(6) by blast
    next
      case n
      then have "\<exists>g'. m = Some g' \<and> sf_start g' \<le> sf_start g" by (simp add: m_def)
      then obtain g' where "m = Some g'" "sf_start g' \<le> sf_start g" by blast
      then show ?thesis using bound n by fastforce
    qed
  qed
qed

text \<open>C34. The search in a chain of filters fails exactly when the chain has no value at or after the given one; otherwise it
  returns a value of the chain, and the least such value when the ranges of the chain do not overlap.\<close>

theorem scheduler_nearest_exact:
  assumes "list_all (filter_ok lo hi) fs"
  shows "case scheduler_get_nearest_filter_value fs v of
      None \<Rightarrow> \<not> (\<exists>w\<ge>v. chain_has fs w)
    | Some x \<Rightarrow> v \<le> x \<and> chain_has fs x \<and> \<not> (chain_disjoint fs \<and> (\<exists>w\<ge>v. chain_has fs w \<and> w < x))"
proof (cases "scheduler_get_nearest_filter_value fs v")
  case None
  then show ?thesis
    using nearest_loop_spec [OF assms, of None v] unfolding scheduler_get_nearest_filter_value_def by auto
next
  case (Some x)
  have "\<not> w < x" if "chain_disjoint fs" "chain_has fs w" "v \<le> w" for w
    using nearest_loop_least [OF assms that(1), of v None x w] that(2,3) Some
    unfolding scheduler_get_nearest_filter_value_def by fastforce
  moreover have "v \<le> x \<and> chain_has fs x"
    using nearest_loop_spec [OF assms, of None v] Some unfolding scheduler_get_nearest_filter_value_def by simp
  ultimately show ?thesis using Some by auto
qed

lemma scheduler_nearest_exact_witness:
  "chain_has [\<lparr>sf_start = 0, sf_end = 30, sf_step = 10\<rparr>, \<lparr>sf_start = 45, sf_end = 45, sf_step = 1\<rparr>] 45"
proof -
  let ?fs = "[\<lparr>sf_start = 0, sf_end = 30, sf_step = 10\<rparr>, \<lparr>sf_start = 45, sf_end = 45, sf_step = 1\<rparr>]"
  have "list_all (filter_ok 0 59) ?fs" by (simp add: filter_ok_def)
  from scheduler_nearest_exact [OF this, of 31] show ?thesis
    by (simp add: scheduler_get_nearest_filter_value_def apply_step_def)
qed

end
