(* ===== verification/Scheduler.thy ===== *)
theory Scheduler
  imports SchedFilter
begin

text \<open>
  The next time that a scheduling interval names (\<open>src/libs/zbxcommon/misc.c\<close>): the functions that move a
  broken-down time forward until its day, hour, minute and second satisfy the filters. A pair holds the verdict
  and the time as it has been changed. A loop that may not end is a partial function: \<open>None\<close> is no return.
\<close>

section \<open>Days\<close>

definition scheduler_get_wday_nextcheck :: "zbx_scheduler_interval \<Rightarrow> tm \<Rightarrow> bool \<times> tm" where
  "scheduler_get_wday_nextcheck interval t =
    (if si_wdays interval = [] then (True, t)
     else
       let value_now = calculate_dayofweek (tm_year t + 1900) (tm_mon t + 1) (tm_mday t)
       in case (case scheduler_get_nearest_filter_value (si_wdays interval) value_now of
                  Some value_next \<Rightarrow> Some (value_now, value_next, t)
                | None \<Rightarrow>
                    map_option (\<lambda>value_next. (1, value_next, t\<lparr>tm_mday := tm_mday t + (7 - value_now + 1)\<rparr>))
                      (scheduler_get_nearest_filter_value (si_wdays interval) 1)) of
            None \<Rightarrow> (False, t\<lparr>tm_mday := tm_mday t + (7 - value_now + 1)\<rparr>)
          | Some (value_now, value_next, t) \<Rightarrow>
              let t = t\<lparr>tm_mday := tm_mday t + (value_next - value_now)\<rparr>
              in (tm_mday t \<le> zbx_day_in_month (tm_year t + 1970) (tm_mon t + 1), t))"

definition scheduler_validate_wday_filter :: "zbx_scheduler_interval \<Rightarrow> tm \<Rightarrow> bool" where
  "scheduler_validate_wday_filter interval t =
    (if si_wdays interval = [] then True
     else
       let value = calculate_dayofweek (tm_year t + 1900) (tm_mon t + 1) (tm_mday t)
       in list_ex (\<lambda>f. sf_start f \<le> value \<and> value \<le> sf_end f \<and> apply_step f value \<le> sf_end f) (si_wdays interval))"

partial_function (option) mday_loop :: "zbx_scheduler_interval \<Rightarrow> tm \<Rightarrow> (bool \<times> tm) option" where
  "mday_loop interval t =
    (case scheduler_get_nearest_filter_value (si_mdays interval) (tm_mday t) of
       None \<Rightarrow> Some (False, t)
     | Some d \<Rightarrow>
         let t = t\<lparr>tm_mday := d\<rparr>
         in if zbx_day_in_month (tm_year t + 1970) (tm_mon t + 1) < tm_mday t then Some (False, t)
            else if scheduler_validate_wday_filter interval t then Some (True, t)
            else
              let t = t\<lparr>tm_mday := tm_mday t + 1\<rparr>
              in if zbx_day_in_month (tm_year t + 1970) (tm_mon t + 1) < tm_mday t then Some (False, t)
                 else mday_loop interval t)"

definition scheduler_get_day_nextcheck :: "zbx_scheduler_interval \<Rightarrow> tm \<Rightarrow> (bool \<times> tm) option" where
  "scheduler_get_day_nextcheck interval t =
    (if zbx_utc_time (tm_year t + 1900) (tm_mon t + 1) (tm_mday t) (tm_hour t) (tm_min t) (tm_sec t) = None
     then Some (False, t)
     else if si_mdays interval = [] then Some (scheduler_get_wday_nextcheck interval t)
     else mday_loop interval t)"

section \<open>Units of time\<close>

text \<open>The part of \<open>scheduler_get_filter_nextcheck\<close> after its switch, on the value of the unit.\<close>

definition unit_nextcheck :: "int \<Rightarrow> int \<Rightarrow> zbx_scheduler_filter list \<Rightarrow> int \<Rightarrow> int \<Rightarrow> int option" where
  "unit_nextcheck filter_level level fs max_v v =
    (if max_v < v then None
     else if fs = [] then (if level < filter_level \<or> 0 = v then Some v else None)
     else scheduler_get_nearest_filter_value fs v)"

definition scheduler_get_filter_nextcheck :: "zbx_scheduler_interval \<Rightarrow> int \<Rightarrow> tm \<Rightarrow> (bool \<times> tm) option" where
  "scheduler_get_filter_nextcheck interval level t =
    (if level = ZBX_SCHEDULER_FILTER_DAY then scheduler_get_day_nextcheck interval t
     else if level = ZBX_SCHEDULER_FILTER_HOUR then
       Some (case unit_nextcheck (si_filter_level interval) level (si_hours interval) 23 (tm_hour t) of
               None \<Rightarrow> (False, t) | Some v \<Rightarrow> (True, t\<lparr>tm_hour := v\<rparr>))
     else if level = ZBX_SCHEDULER_FILTER_MINUTE then
       Some (case unit_nextcheck (si_filter_level interval) level (si_minutes interval) 59 (tm_min t) of
               None \<Rightarrow> (False, t) | Some v \<Rightarrow> (True, t\<lparr>tm_min := v\<rparr>))
     else if level = ZBX_SCHEDULER_FILTER_SECOND then
       Some (case unit_nextcheck (si_filter_level interval) level (si_seconds interval) 59 (tm_sec t) of
               None \<Rightarrow> (False, t) | Some v \<Rightarrow> (True, t\<lparr>tm_sec := v\<rparr>))
     else Some (False, t))"

definition next_month :: "tm \<Rightarrow> tm" where
  "next_month t =
    (let t = t\<lparr>tm_mon := tm_mon t + 1\<rparr>;
         t = (if 11 < tm_mon t then t\<lparr>tm_mon := 0, tm_year := tm_year t + 1\<rparr> else t)
     in t\<lparr>tm_mday := 1\<rparr>)"

partial_function (option) apply_day_loop :: "zbx_scheduler_interval \<Rightarrow> tm \<Rightarrow> tm option" where
  "apply_day_loop interval t =
    Option.bind (scheduler_get_filter_nextcheck interval ZBX_SCHEDULER_FILTER_DAY t)
      (\<lambda>(found, t). if found then Some t else apply_day_loop interval (next_month t))"

definition scheduler_apply_day_filter :: "zbx_scheduler_interval \<Rightarrow> tm \<Rightarrow> tm option" where
  "scheduler_apply_day_filter interval t =
    map_option (\<lambda>t'. if tm_mday t' \<noteq> tm_mday t \<or> tm_mon t' \<noteq> tm_mon t \<or> tm_year t' \<noteq> tm_year t
        then t'\<lparr>tm_hour := 0, tm_min := 0, tm_sec := 0\<rparr> else t')
      (apply_day_loop interval t)"

partial_function (option) apply_hour_loop :: "zbx_scheduler_interval \<Rightarrow> tm \<Rightarrow> tm option" where
  "apply_hour_loop interval t =
    Option.bind (scheduler_get_filter_nextcheck interval ZBX_SCHEDULER_FILTER_HOUR t)
      (\<lambda>(found, t). if found then Some t
        else Option.bind (scheduler_apply_day_filter interval (t\<lparr>tm_mday := tm_mday t + 1, tm_hour := 0\<rparr>))
          (apply_hour_loop interval))"

definition scheduler_apply_hour_filter :: "zbx_scheduler_interval \<Rightarrow> tm \<Rightarrow> tm option" where
  "scheduler_apply_hour_filter interval t =
    map_option (\<lambda>t'. if tm_hour t' \<noteq> tm_hour t then t'\<lparr>tm_min := 0, tm_sec := 0\<rparr> else t') (apply_hour_loop interval t)"

partial_function (option) apply_minute_loop :: "zbx_scheduler_interval \<Rightarrow> tm \<Rightarrow> tm option" where
  "apply_minute_loop interval t =
    Option.bind (scheduler_get_filter_nextcheck interval ZBX_SCHEDULER_FILTER_MINUTE t)
      (\<lambda>(found, t). if found then Some t
        else Option.bind (scheduler_apply_hour_filter interval (t\<lparr>tm_hour := tm_hour t + 1, tm_min := 0\<rparr>))
          (apply_minute_loop interval))"

definition scheduler_apply_minute_filter :: "zbx_scheduler_interval \<Rightarrow> tm \<Rightarrow> tm option" where
  "scheduler_apply_minute_filter interval t =
    map_option (\<lambda>t'. if tm_min t' \<noteq> tm_min t then t'\<lparr>tm_sec := 0\<rparr> else t') (apply_minute_loop interval t)"

partial_function (option) scheduler_apply_second_filter :: "zbx_scheduler_interval \<Rightarrow> tm \<Rightarrow> tm option" where
  "scheduler_apply_second_filter interval t =
    Option.bind (scheduler_get_filter_nextcheck interval ZBX_SCHEDULER_FILTER_SECOND t)
      (\<lambda>(found, t). if found then Some t
        else Option.bind (scheduler_apply_minute_filter interval (t\<lparr>tm_min := tm_min t + 1, tm_sec := 0\<rparr>))
          (scheduler_apply_second_filter interval))"

definition scheduler_tm_inc :: "tm \<Rightarrow> tm" where
  "scheduler_tm_inc t =
    (let t = t\<lparr>tm_sec := tm_sec t + 1\<rparr> in if tm_sec t < 60 then t
     else let t = t\<lparr>tm_sec := 0, tm_min := tm_min t + 1\<rparr> in if tm_min t < 60 then t
     else let t = t\<lparr>tm_min := 0, tm_hour := tm_hour t + 1\<rparr> in if tm_hour t < 24 then t
     else let t = t\<lparr>tm_hour := 0, tm_mday := tm_mday t + 1\<rparr>
       in if tm_mday t \<le> zbx_day_in_month (tm_year t + 1900) (tm_mon t + 1) then t
     else let t = t\<lparr>tm_mday := 1, tm_mon := tm_mon t + 1\<rparr> in if tm_mon t < 12 then t
     else t\<lparr>tm_mon := 0, tm_year := tm_year t + 1\<rparr>)"

text \<open>The four filters in the order of \<open>scheduler_get_nextcheck\<close>, and their use after one second.\<close>

definition apply_filters :: "zbx_scheduler_interval \<Rightarrow> tm \<Rightarrow> tm option" where
  "apply_filters interval t =
    Option.bind (scheduler_apply_day_filter interval t) (\<lambda>t.
      Option.bind (scheduler_apply_hour_filter interval t) (\<lambda>t.
        Option.bind (scheduler_apply_minute_filter interval t) (scheduler_apply_second_filter interval)))"

definition next_time :: "zbx_scheduler_interval \<Rightarrow> tm \<Rightarrow> tm option" where
  "next_time interval t = apply_filters interval (scheduler_tm_inc t)"

declare mday_loop.simps [code] apply_day_loop.simps [code] apply_hour_loop.simps [code]
  apply_minute_loop.simps [code] scheduler_apply_second_filter.simps [code]

end
