(* ===== verification/SchedSpec.thy ===== *)
theory SchedSpec
  imports Scheduler
begin

text \<open>
  What the next time of a scheduling interval is: the least time after the given one that the interval lists.
  The search of one month comes first, then the search for a day, then the units of the day, which share one
  argument: the locale \<open>unit_search\<close>.
\<close>

section \<open>Listed days\<close>

definition dow :: "tm \<Rightarrow> int" where
  "dow t = calculate_dayofweek (tm_year t + 1900) (tm_mon t + 1) (tm_mday t)"

definition day_listed :: "zbx_scheduler_interval \<Rightarrow> tm \<Rightarrow> bool" where
  "day_listed i t \<longleftrightarrow> (si_mdays i = [] \<or> chain_has (si_mdays i) (tm_mday t)) \<and> (si_wdays i = [] \<or> chain_has (si_wdays i) (dow t))"

text \<open>
  The last day of the month as the day filters see it. The code passes \<open>tm_year + 1970\<close> where the year is
  \<open>tm_year + 1900\<close>: for a February that is the length of the one 70 years later.
\<close>

definition month_limit :: "tm \<Rightarrow> int" where
  "month_limit t = zbx_day_in_month (tm_year t + 1970) (tm_mon t + 1)"

definition within_limit :: "zbx_scheduler_interval \<Rightarrow> tm \<Rightarrow> bool" where
  "within_limit i t \<longleftrightarrow> (si_mdays i = [] \<and> si_wdays i = []) \<or> tm_mday t \<le> month_limit t"

text \<open>
  Intervals on which the search is exact: the ranges of a chain do not overlap, and a step of week days is not
  combined with month days.
\<close>

definition interval_regular :: "zbx_scheduler_interval \<Rightarrow> bool" where
  "interval_regular i \<longleftrightarrow> interval_ok i \<and> chain_disjoint (si_mdays i) \<and> chain_disjoint (si_wdays i) \<and>
    chain_disjoint (si_hours i) \<and> chain_disjoint (si_minutes i) \<and> chain_disjoint (si_seconds i) \<and>
    (si_mdays i = [] \<or> list_all (\<lambda>f. sf_step f = 1) (si_wdays i))"

lemma nearest_Some:
  assumes "list_all (filter_ok lo hi) fs" "chain_disjoint fs" "scheduler_get_nearest_filter_value fs v = Some x"
  shows "v \<le> x \<and> chain_has fs x \<and> (\<forall>w. v \<le> w \<and> w < x \<longrightarrow> \<not> chain_has fs w)"
  using nearest_loop_spec [OF assms(1), of None v] nearest_loop_least [OF assms(1,2), of v None x] assms(3)
  unfolding scheduler_get_nearest_filter_value_def by fastforce

lemma nearest_None:
  assumes "list_all (filter_ok lo hi) fs" "scheduler_get_nearest_filter_value fs v = None" "v \<le> w"
  shows "\<not> chain_has fs w"
  using nearest_loop_spec [OF assms(1), of None v] assms(2,3) unfolding scheduler_get_nearest_filter_value_def by simp

lemma chain_has_bounds: "list_all (filter_ok lo hi) fs \<Longrightarrow> chain_has fs v \<Longrightarrow> lo \<le> v \<and> v \<le> hi"
  by (auto simp: chain_has_def filter_has_def list_all_iff filter_ok_def)

lemma dow_bounds: "1 \<le> dow t" "dow t \<le> 7"
  by (simp_all add: dow_def calculate_dayofweek_def Let_def)

text \<open>The days of a week follow each other.\<close>

lemma dayofweek_add: "calculate_dayofweek y m (d + k) = (calculate_dayofweek y m d - 1 + k) mod 7 + 1"
proof -
  have "(a + (d + k) - 1) mod 7 + 1 = ((a + d - 1) mod 7 + 1 - 1 + k) mod 7 + (1 :: int)" for a
  proof -
    have "((a + d - 1) mod 7 + k) mod 7 = (a + d - 1 + k) mod 7" by (rule mod_add_left_eq)
    then show ?thesis by (simp add: algebra_simps)
  qed
  then show ?thesis unfolding calculate_dayofweek_def Let_def .
qed

lemma dow_add: "dow (t\<lparr>tm_mday := tm_mday t + k\<rparr>) = (dow t - 1 + k) mod 7 + 1"
  using dayofweek_add [of "tm_year t + 1900" "tm_mon t + 1" "tm_mday t" k] by (simp add: dow_def)

lemma dow_later:
  assumes "0 \<le> k" "dow t + k \<le> 7"
  shows "dow (t\<lparr>tm_mday := tm_mday t + k\<rparr>) = dow t + k"
  unfolding dow_add using assms dow_bounds [of t] by (simp add: mod_pos_pos_trivial)

lemma dow_next_week:
  assumes "0 \<le> k" "k \<le> 6"
  shows "dow (t\<lparr>tm_mday := tm_mday t + (8 - dow t + k)\<rparr>) = 1 + k"
proof -
  have "dow t - 1 + (8 - dow t + k) = k + 7" by simp
  then show ?thesis unfolding dow_add using assms by (simp add: mod_pos_pos_trivial)
qed

section \<open>One month\<close>

text \<open>The verdict of a search in the month of \<open>t\<close>: only the day of the month has been changed.\<close>

definition month_search :: "zbx_scheduler_interval \<Rightarrow> tm \<Rightarrow> bool \<Rightarrow> tm \<Rightarrow> bool" where
  "month_search i t found t' \<longleftrightarrow> t' = t\<lparr>tm_mday := tm_mday t'\<rparr> \<and>
    (if found
     then tm_mday t \<le> tm_mday t' \<and> day_listed i t' \<and> within_limit i t' \<and>
       (\<forall>d. tm_mday t \<le> d \<and> d < tm_mday t' \<longrightarrow> \<not> day_listed i (t\<lparr>tm_mday := d\<rparr>))
     else \<forall>d. tm_mday t \<le> d \<and> within_limit i (t\<lparr>tm_mday := d\<rparr>) \<longrightarrow> \<not> day_listed i (t\<lparr>tm_mday := d\<rparr>))"

lemma month_limit_mday [simp]: "month_limit (t\<lparr>tm_mday := d\<rparr>) = month_limit t"
  by (simp add: month_limit_def)

lemma wday_nextcheck_search:
  assumes "interval_regular i" "si_mdays i = []"
  shows "case scheduler_get_wday_nextcheck i t of (found, t') \<Rightarrow> month_search i t found t'"
proof (cases "si_wdays i = []")
  case True
  then show ?thesis
    using assms(2) by (simp add: scheduler_get_wday_nextcheck_def month_search_def day_listed_def within_limit_def)
next
  case False
  have ok: "list_all (filter_ok 1 7) (si_wdays i)" "chain_disjoint (si_wdays i)"
    using assms(1) by (simp_all add: interval_regular_def interval_ok_def)
  have listed: "day_listed i u \<longleftrightarrow> chain_has (si_wdays i) (dow u)" for u
    using False assms(2) by (simp add: day_listed_def)
  have limit: "within_limit i u \<longleftrightarrow> tm_mday u \<le> month_limit u" for u
    using False by (simp add: within_limit_def)
  have goal: "case (tm_mday t' \<le> month_limit t', t') of (found, t') \<Rightarrow> month_search i t found t'"
    if t': "t' = t\<lparr>tm_mday := tm_mday t + k\<rparr>" and k: "0 \<le> k" and has: "chain_has (si_wdays i) (dow t')"
      and none: "\<forall>j. 0 \<le> j \<and> j < k \<longrightarrow> \<not> chain_has (si_wdays i) (dow (t\<lparr>tm_mday := tm_mday t + j\<rparr>))" for t' k
  proof -
    have "\<not> chain_has (si_wdays i) (dow (t\<lparr>tm_mday := d\<rparr>))" if "tm_mday t \<le> d" "d < tm_mday t + k" for d
      using none [rule_format, of "d - tm_mday t"] that by simp
    then show ?thesis
      using has k unfolding month_search_def prod.case listed limit by (auto simp: t' not_le)
  qed
  show ?thesis
  proof (cases "scheduler_get_nearest_filter_value (si_wdays i) (dow t)")
    case (Some x)
    note n = nearest_Some [OF ok Some]
    have x: "x \<le> 7" using n chain_has_bounds [OF ok(1)] by blast
    define t' where "t' = t\<lparr>tm_mday := tm_mday t + (x - dow t)\<rparr>"
    have "dow t' = x" using dow_later [of "x - dow t" t] n x by (simp add: t'_def)
    moreover have "\<forall>j. 0 \<le> j \<and> j < x - dow t \<longrightarrow> \<not> chain_has (si_wdays i) (dow (t\<lparr>tm_mday := tm_mday t + j\<rparr>))"
    proof (intro allI impI)
      fix j assume j: "0 \<le> j \<and> j < x - dow t"
      then have "dow (t\<lparr>tm_mday := tm_mday t + j\<rparr>) = dow t + j" using dow_later [of j t] x by simp
      then show "\<not> chain_has (si_wdays i) (dow (t\<lparr>tm_mday := tm_mday t + j\<rparr>))" using n j by simp
    qed
    ultimately have "case (tm_mday t' \<le> month_limit t', t') of (found, t') \<Rightarrow> month_search i t found t'"
      using n by (intro goal [OF t'_def]) simp_all
    moreover have "scheduler_get_wday_nextcheck i t = (tm_mday t' \<le> month_limit t', t')"
      using False Some by (simp add: scheduler_get_wday_nextcheck_def dow_def Let_def t'_def month_limit_def)
    ultimately show ?thesis by simp
  next
    case None
    obtain f where f: "f \<in> set (si_wdays i)" using False by (cases "si_wdays i") auto
    then have "filter_ok 1 7 f" using ok(1) by (simp add: list_all_iff)
    then have "chain_has (si_wdays i) (sf_start f)" "1 \<le> sf_start f"
      using f filter_has_start by (auto simp: chain_has_def filter_ok_def)
    then obtain x where x: "scheduler_get_nearest_filter_value (si_wdays i) 1 = Some x"
      using nearest_None [OF ok(1), of 1 "sf_start f"] by blast
    note n = nearest_Some [OF ok x]
    have x7: "x \<le> 7" using n chain_has_bounds [OF ok(1)] by blast
    define t' where "t' = t\<lparr>tm_mday := tm_mday t + (8 - dow t + (x - 1))\<rparr>"
    have "dow t' = x" using dow_next_week [of "x - 1" t] n x7 by (simp add: t'_def)
    moreover have "\<forall>j. 0 \<le> j \<and> j < 8 - dow t + (x - 1) \<longrightarrow> \<not> chain_has (si_wdays i) (dow (t\<lparr>tm_mday := tm_mday t + j\<rparr>))"
    proof (intro allI impI)
      fix j assume j: "0 \<le> j \<and> j < 8 - dow t + (x - 1)"
      show "\<not> chain_has (si_wdays i) (dow (t\<lparr>tm_mday := tm_mday t + j\<rparr>))"
      proof (cases "dow t + j \<le> 7")
        case True
        then have "dow (t\<lparr>tm_mday := tm_mday t + j\<rparr>) = dow t + j" using dow_later [of j t] j by simp
        then show ?thesis using nearest_None [OF ok(1) None, of "dow t + j"] j by simp
      next
        case False
        define k where "k = j - (8 - dow t)"
        have "0 \<le> k" "k < x - 1" "j = 8 - dow t + k" using False j by (simp_all add: k_def)
        then have "dow (t\<lparr>tm_mday := tm_mday t + j\<rparr>) = 1 + k" using dow_next_week [of k t] x7 by simp
        then show ?thesis using n \<open>0 \<le> k\<close> \<open>k < x - 1\<close> by simp
      qed
    qed
    ultimately have "case (tm_mday t' \<le> month_limit t', t') of (found, t') \<Rightarrow> month_search i t found t'"
      using n dow_bounds [of t] by (intro goal [OF t'_def]) simp_all
    moreover have "scheduler_get_wday_nextcheck i t = (tm_mday t' \<le> month_limit t', t')"
      using False None x
      by (simp add: scheduler_get_wday_nextcheck_def dow_def Let_def t'_def month_limit_def algebra_simps)
    ultimately show ?thesis by simp
  qed
qed

lemma validate_wday_iff:
  assumes "interval_regular i" "si_mdays i \<noteq> []"
  shows "scheduler_validate_wday_filter i t \<longleftrightarrow> si_wdays i = [] \<or> chain_has (si_wdays i) (dow t)"
proof -
  have "\<forall>f\<in>set (si_wdays i). sf_step f = 1" using assms by (simp add: interval_regular_def list_all_iff)
  then show ?thesis
    by (auto simp: scheduler_validate_wday_filter_def chain_has_def filter_has_def Let_def list_ex_iff apply_step_def dow_def)
qed

lemma mday_loop_search:
  assumes "interval_regular i" "si_mdays i \<noteq> []"
  shows "\<exists>found t'. mday_loop i t = Some (found, t') \<and> month_search i t found t'"
proof (induction "nat (32 - tm_mday t)" arbitrary: t rule: less_induct)
  case less
  have ok: "list_all (filter_ok 1 31) (si_mdays i)" "chain_disjoint (si_mdays i)"
    using assms(1) by (simp_all add: interval_regular_def interval_ok_def)
  have listed: "day_listed i u \<longleftrightarrow> chain_has (si_mdays i) (tm_mday u) \<and> scheduler_validate_wday_filter i u" for u
    using assms validate_wday_iff [OF assms, of u] by (simp add: day_listed_def)
  have limit: "within_limit i u \<longleftrightarrow> tm_mday u \<le> month_limit u" for u
    using assms(2) by (simp add: within_limit_def)
  show ?case
  proof (cases "scheduler_get_nearest_filter_value (si_mdays i) (tm_mday t)")
    case None
    then have "mday_loop i t = Some (False, t)" by (subst mday_loop.simps) simp
    moreover have "month_search i t False t"
      using nearest_None [OF ok(1) None] by (auto simp: month_search_def listed)
    ultimately show ?thesis by blast
  next
    case (Some d)
    note n = nearest_Some [OF ok Some]
    have d31: "d \<le> 31" using n chain_has_bounds [OF ok(1)] by blast
    define t1 t2 where "t1 = t\<lparr>tm_mday := d\<rparr>" and "t2 = t\<lparr>tm_mday := d + 1\<rparr>"
    have before: "\<not> day_listed i (t\<lparr>tm_mday := d'\<rparr>)" if "tm_mday t \<le> d'" "d' < d" for d'
      using n that by (simp add: listed)
    have eq: "mday_loop i t =
        (if month_limit t < d then Some (False, t1)
         else if scheduler_validate_wday_filter i t1 then Some (True, t1)
         else if month_limit t < d + 1 then Some (False, t2) else mday_loop i t2)"
      by (subst mday_loop.simps) (simp add: Some Let_def t1_def t2_def month_limit_def)
    consider "month_limit t < d" | "d \<le> month_limit t" "scheduler_validate_wday_filter i t1"
      | "d \<le> month_limit t" "\<not> scheduler_validate_wday_filter i t1" "month_limit t < d + 1"
      | "d \<le> month_limit t" "\<not> scheduler_validate_wday_filter i t1" "d + 1 \<le> month_limit t"
      by linarith
    then show ?thesis
    proof cases
      case 1
      then have "month_search i t False t1"
        using before by (auto simp: month_search_def limit t1_def)
      then show ?thesis using eq 1 by (intro exI [of _ False] exI [of _ t1]) simp
    next
      case 2
      then have "month_search i t True t1"
        using before n by (auto simp: month_search_def limit listed t1_def)
      then show ?thesis using eq 2 by (intro exI [of _ True] exI [of _ t1]) simp
    next
      case 3
      have "\<not> day_listed i t1" using 3 by (simp add: listed)
      then have "month_search i t False t2"
        using before 3 by (auto simp: month_search_def limit t1_def t2_def) (metis less_le_trans not_less order_less_le zless_add1_eq)
      then show ?thesis using eq 3 by (intro exI [of _ False] exI [of _ t2]) simp
    next
      case 4
      have no: "\<not> day_listed i (t\<lparr>tm_mday := d'\<rparr>)" if "tm_mday t \<le> d'" "d' < d + 1" for d'
        using before [of d'] that 4 by (cases "d' = d") (auto simp: listed t1_def)
      have "nat (32 - tm_mday t2) < nat (32 - tm_mday t)" using n d31 by (simp add: t2_def)
      from less [OF this] obtain found t' where r: "mday_loop i t2 = Some (found, t')" "month_search i t2 found t'" by blast
      have "month_search i t found t'"
      proof -
        have e: "t' = t\<lparr>tm_mday := tm_mday t'\<rparr>" using r(2) by (simp add: month_search_def t2_def)
        have s: "t2\<lparr>tm_mday := d'\<rparr> = t\<lparr>tm_mday := d'\<rparr>" "tm_mday t2 = d + 1" for d' by (simp_all add: t2_def)
        show ?thesis
        proof (cases found)
          case True
          then have f: "d + 1 \<le> tm_mday t'" "day_listed i t'" "within_limit i t'"
            "\<forall>d'. d + 1 \<le> d' \<and> d' < tm_mday t' \<longrightarrow> \<not> day_listed i (t\<lparr>tm_mday := d'\<rparr>)"
            using r(2) by (simp_all add: month_search_def s)
          have "\<not> day_listed i (t\<lparr>tm_mday := d'\<rparr>)" if "tm_mday t \<le> d'" "d' < tm_mday t'" for d'
            using no [OF that(1)] f(4) that(2) by (meson not_le)
          then show ?thesis using True e f n by (simp add: month_search_def)
        next
          case False
          then have f: "\<forall>d'. d + 1 \<le> d' \<and> within_limit i (t\<lparr>tm_mday := d'\<rparr>) \<longrightarrow> \<not> day_listed i (t\<lparr>tm_mday := d'\<rparr>)"
            using r(2) by (simp add: month_search_def s)
          have "\<not> day_listed i (t\<lparr>tm_mday := d'\<rparr>)" if "tm_mday t \<le> d'" "within_limit i (t\<lparr>tm_mday := d'\<rparr>)" for d'
            using no [OF that(1)] f that(2) by (meson not_le)
          then show ?thesis using False e by (simp add: month_search_def)
        qed
      qed
      then show ?thesis using eq 4 r(1) by simp
    qed
  qed
qed

section \<open>From month to month\<close>

definition utc_of :: "tm \<Rightarrow> int option" where
  "utc_of t = zbx_utc_time (tm_year t + 1900) (tm_mon t + 1) (tm_mday t) (tm_hour t) (tm_min t) (tm_sec t)"

lemma day_nextcheck_search:
  assumes "interval_regular i"
  shows "\<exists>found t'. scheduler_get_day_nextcheck i t = Some (found, t') \<and> t' = t\<lparr>tm_mday := tm_mday t'\<rparr> \<and>
    (if utc_of t = None then \<not> found else month_search i t found t')"
proof (cases "utc_of t = None")
  case True
  then show ?thesis
    by (intro exI [of _ False] exI [of _ t]) (simp add: scheduler_get_day_nextcheck_def utc_of_def)
next
  case False
  show ?thesis
  proof (cases "si_mdays i = []")
    case True
    then have "scheduler_get_day_nextcheck i t = Some (scheduler_get_wday_nextcheck i t)"
      unfolding scheduler_get_day_nextcheck_def if_not_P [OF False [unfolded utc_of_def]] by (rule if_P)
    then show ?thesis
      using wday_nextcheck_search [OF assms True, of t] False
      by (cases "scheduler_get_wday_nextcheck i t") (auto simp: month_search_def)
  next
    case md: False
    then have "scheduler_get_day_nextcheck i t = mday_loop i t"
      unfolding scheduler_get_day_nextcheck_def if_not_P [OF False [unfolded utc_of_def]] by (rule if_not_P)
    moreover obtain found t' where r: "mday_loop i t = Some (found, t')" "month_search i t found t'"
      using mday_loop_search [OF assms md, of t] by blast
    moreover have "t' = t\<lparr>tm_mday := tm_mday t'\<rparr>" using r(2) by (simp only: month_search_def)
    ultimately show ?thesis unfolding if_not_P [OF False] by (intro exI [of _ found] exI [of _ t']) simp
  qed
qed

text \<open>
  Dates and times are ordered by integer keys, in which a month has 32 days, a day 24 hours and so on; so one
  more than the key of 23 hours is the key of hour 0 of the next day.
\<close>

definition day_key :: "tm \<Rightarrow> int" where
  "day_key t = (tm_year t * 12 + tm_mon t) * 32 + tm_mday t"

definition cal_ok :: "tm \<Rightarrow> bool" where
  "cal_ok t \<longleftrightarrow> valid_date (tm_year t + 1900) (tm_mon t + 1) (tm_mday t)"

definition tod_ok :: "tm \<Rightarrow> bool" where
  "tod_ok t \<longleftrightarrow> 0 \<le> tm_hour t \<and> tm_hour t \<le> 23 \<and> 0 \<le> tm_min t \<and> tm_min t \<le> 59 \<and> 0 \<le> tm_sec t \<and> tm_sec t \<le> 59"

text \<open>
  The days that a search may not pass over: listed days of the calendar within the limit of the code, up to the
  end of 32 bit time; and what is known of a day that a search ends at.
\<close>

definition due_day :: "zbx_scheduler_interval \<Rightarrow> tm \<Rightarrow> bool" where
  "due_day i z \<longleftrightarrow> cal_ok z \<and> day_listed i z \<and> within_limit i z \<and>
    epoch_seconds (tm_year z + 1900) (tm_mon z + 1) (tm_mday z) 23 59 59 < 2 ^ 31"

definition found_day :: "zbx_scheduler_interval \<Rightarrow> tm \<Rightarrow> bool" where
  "found_day i t \<longleftrightarrow> day_listed i t \<and> within_limit i t \<and> 70 \<le> tm_year t \<and> 0 \<le> tm_mon t \<and> tm_mon t \<le> 11 \<and>
    1 \<le> tm_mday t \<and> tm_mday t \<le> 31 \<and> (si_mdays i = [] \<and> si_wdays i = [] \<longrightarrow> cal_ok t)"

definition date_start :: "tm \<Rightarrow> bool" where
  "date_start t \<longleftrightarrow> 70 \<le> tm_year t \<and> 0 \<le> tm_mon t \<and> tm_mon t \<le> 11 \<and> 1 \<le> tm_mday t \<and> tm_mday t \<le> 32"

lemma due_day_ranges:
  assumes "due_day i z"
  shows "70 \<le> tm_year z" "0 \<le> tm_mon z" "tm_mon z \<le> 11" "1 \<le> tm_mday z" "tm_mday z \<le> 31"
  using assms day_in_month_bounds(2) [of "tm_year z + 1900" "tm_mon z + 1"] by (auto simp: due_day_def cal_ok_def valid_date_def)

lemma same_month:
  assumes "0 \<le> tm_mon t" "tm_mon t \<le> 11" "0 \<le> tm_mon z" "tm_mon z \<le> 11"
    and "tm_year t * 12 + tm_mon t = tm_year z * 12 + tm_mon z"
  shows "tm_year t = tm_year z \<and> tm_mon t = tm_mon z"
proof -
  have "\<not> tm_year t < tm_year z" "\<not> tm_year z < tm_year t" using assms by linarith+
  then have y: "tm_year t = tm_year z" by simp
  show ?thesis using assms(5) y by (intro conjI) (simp_all only: add_left_cancel)
qed

lemma day_listed_cong:
  "tm_year t = tm_year z \<Longrightarrow> tm_mon t = tm_mon z \<Longrightarrow> day_listed i (t\<lparr>tm_mday := tm_mday z\<rparr>) = day_listed i z"
  by (simp add: day_listed_def dow_def)

lemma within_limit_cong:
  "tm_year t = tm_year z \<Longrightarrow> tm_mon t = tm_mon z \<Longrightarrow> within_limit i (t\<lparr>tm_mday := tm_mday z\<rparr>) = within_limit i z"
  by (simp add: within_limit_def month_limit_def)

text \<open>When the date of \<open>t\<close> is refused, no day from it on in its month is due.\<close>

lemma utc_of_refused:
  assumes "date_start t" "tod_ok t" "utc_of t = None" "due_day i z"
    and "tm_year t = tm_year z" "tm_mon t = tm_mon z" "tm_mday t \<le> tm_mday z"
  shows False
proof -
  have v: "valid_date (tm_year z + 1900) (tm_mon z + 1) (tm_mday z)" using assms(4) by (simp add: due_day_def cal_ok_def)
  then have vt: "valid_date (tm_year t + 1900) (tm_mon t + 1) (tm_mday t)"
    using assms(1,5-7) by (auto simp: valid_date_def date_start_def)
  have "epoch_days (tm_year t + 1900) (tm_mon t + 1) (tm_mday t) \<le> epoch_days (tm_year z + 1900) (tm_mon z + 1) (tm_mday z)"
    using assms(5-7) by (simp add: epoch_days_def)
  then have "epoch_seconds (tm_year t + 1900) (tm_mon t + 1) (tm_mday t) (tm_hour t) (tm_min t) (tm_sec t) \<le>
      epoch_seconds (tm_year z + 1900) (tm_mon z + 1) (tm_mday z) 23 59 59"
    using assms(2) by (simp add: epoch_seconds_def tod_ok_def)
  then have "epoch_seconds (tm_year t + 1900) (tm_mon t + 1) (tm_mday t) (tm_hour t) (tm_min t) (tm_sec t) < 2 ^ 31"
    using assms(4) by (simp add: due_day_def)
  then have "utc_of t \<noteq> None"
    using zbx_utc_time_exact [OF vt, of "tm_hour t" "tm_min t" "tm_sec t"] assms(2) by (simp add: utc_of_def tod_ok_def)
  then show False using assms(3) by simp
qed

lemma next_month_props:
  assumes "date_start t"
  shows "date_start (next_month t)" "tod_ok t \<Longrightarrow> tod_ok (next_month t)"
    "tm_year (next_month t) * 12 + tm_mon (next_month t) = tm_year t * 12 + tm_mon t + 1" "tm_mday (next_month t) = 1"
    "tm_hour (next_month t) = tm_hour t" "tm_min (next_month t) = tm_min t" "tm_sec (next_month t) = tm_sec t"
  using assms by (auto simp: next_month_def Let_def date_start_def tod_ok_def)

lemma next_month_mday [simp]: "next_month (t\<lparr>tm_mday := d\<rparr>) = next_month t"
  by (simp add: next_month_def Let_def)

lemma day_key_le_iff:
  assumes "1 \<le> tm_mday t" "tm_mday t \<le> 32" "1 \<le> tm_mday z" "tm_mday z \<le> 32"
  shows "day_key t \<le> day_key z \<longleftrightarrow> tm_year t * 12 + tm_mon t < tm_year z * 12 + tm_mon z \<or>
    (tm_year t * 12 + tm_mon t = tm_year z * 12 + tm_mon z \<and> tm_mday t \<le> tm_mday z)"
  using assms unfolding day_key_def by auto

lemma scheduler_day_loop_step:
  "apply_day_loop i t =
    Option.bind (scheduler_get_day_nextcheck i t) (\<lambda>(found, t). if found then Some t else apply_day_loop i (next_month t))"
  by (subst apply_day_loop.simps) (simp add: scheduler_get_filter_nextcheck_def filter_level_defs)

lemma apply_day_loop_search:
  assumes "interval_regular i" "date_start t" "tod_ok t" "due_day i z0" "day_key t \<le> day_key z0"
  shows "\<exists>t'. apply_day_loop i t = Some t' \<and> found_day i t' \<and>
    t' = t\<lparr>tm_mday := tm_mday t', tm_mon := tm_mon t', tm_year := tm_year t'\<rparr> \<and> day_key t \<le> day_key t' \<and>
    (\<forall>z. due_day i z \<and> day_key t \<le> day_key z \<longrightarrow> day_key t' \<le> day_key z)"
  using assms(2,3,5)
proof (induction "nat (tm_year z0 * 12 + tm_mon z0 - (tm_year t * 12 + tm_mon t))" arbitrary: t rule: less_induct)
  case less
  note t = less.prems(1) [unfolded date_start_def]
  obtain found t' where r: "scheduler_get_day_nextcheck i t = Some (found, t')" "t' = t\<lparr>tm_mday := tm_mday t'\<rparr>"
    "if utc_of t = None then \<not> found else month_search i t found t'"
    using day_nextcheck_search [OF assms(1)] by blast
  have f: "tm_year t' = tm_year t" "tm_mon t' = tm_mon t" by (subst r(2), simp)+
  have zle: "day_key t \<le> day_key z \<longleftrightarrow> tm_year t * 12 + tm_mon t < tm_year z * 12 + tm_mon z \<or>
      (tm_year t = tm_year z \<and> tm_mon t = tm_mon z \<and> tm_mday t \<le> tm_mday z)" if "due_day i z" for z
    using due_day_ranges [OF that] t day_key_le_iff [of t z] same_month [of t z] by auto
  show ?case
  proof (cases found)
    case True
    then have u: "utc_of t \<noteq> None" and m: "month_search i t True t'" using r(3) by (auto split: if_splits)
    have vt: "cal_ok t"
      using u unfolding utc_of_def zbx_utc_time_def cal_ok_def valid_date_def by (auto simp: Let_def split: if_splits)
    note m' = m [unfolded month_search_def if_True]
    have fd: "found_day i t'"
    proof (cases "si_mdays i = [] \<and> si_wdays i = []")
      case True
      then have "\<not> tm_mday t < tm_mday t'" using m' by (auto simp: day_listed_def)
      then have "tm_mday t' = tm_mday t" using m' by linarith
      then have "t' = t" by (subst r(2)) simp
      moreover have "tm_mday t \<le> 31"
        using vt day_in_month_bounds(2) [of "tm_year t + 1900" "tm_mon t + 1"] by (simp add: cal_ok_def valid_date_def)
      ultimately show ?thesis using m' vt t by (simp add: found_day_def)
    next
      case False
      then have "tm_mday t' \<le> month_limit t'" using m' by (auto simp: within_limit_def)
      also have "\<dots> \<le> 31" unfolding month_limit_def by (rule day_in_month_bounds)
      finally have "tm_mday t' \<le> 31" .
      moreover have "1 \<le> tm_mday t'" "day_listed i t'" "within_limit i t'" using m' t by linarith+
      ultimately show ?thesis using t f False unfolding found_day_def by auto
    qed
    have le: "day_key t' \<le> day_key z" if z: "due_day i z" "day_key t \<le> day_key z" for z
    proof (cases "tm_year t * 12 + tm_mon t < tm_year z * 12 + tm_mon z")
      case True
      then show ?thesis using fd due_day_ranges [OF z(1)] f by (subst day_key_le_iff) (auto simp: found_day_def)
    next
      case False
      then have e: "tm_year t = tm_year z" "tm_mon t = tm_mon z" "tm_mday t \<le> tm_mday z" using zle [OF z(1)] z(2) by auto
      have "day_listed i (t\<lparr>tm_mday := tm_mday z\<rparr>)" using z(1) day_listed_cong [OF e(1,2)] by (simp add: due_day_def)
      then have "tm_mday t' \<le> tm_mday z" using m' e(3) by (meson not_le)
      then show ?thesis using e f by (simp add: day_key_def)
    qed
    have "apply_day_loop i t = Some t'" using r(1) True by (subst scheduler_day_loop_step) simp
    moreover have "day_key t \<le> day_key t'" using m' f by (simp add: day_key_def)
    moreover have "t' = t\<lparr>tm_mday := tm_mday t', tm_mon := tm_mon t', tm_year := tm_year t'\<rparr>"
      by (subst r(2)) (simp add: f)
    ultimately show ?thesis using fd le by blast
  next
    case False
    have none: "\<not> (tm_year t = tm_year z \<and> tm_mon t = tm_mon z \<and> tm_mday t \<le> tm_mday z)" if z: "due_day i z" for z
    proof
      assume e: "tm_year t = tm_year z \<and> tm_mon t = tm_mon z \<and> tm_mday t \<le> tm_mday z"
      show False
      proof (cases "utc_of t = None")
        case True
        then show ?thesis using utc_of_refused [OF less.prems(1,2) True z] e by blast
      next
        case u: False
        have "\<forall>d. tm_mday t \<le> d \<and> within_limit i (t\<lparr>tm_mday := d\<rparr>) \<longrightarrow> \<not> day_listed i (t\<lparr>tm_mday := d\<rparr>)"
          using r(3) [unfolded if_not_P [OF u]] False by (simp add: month_search_def)
        then show False
          using z e day_listed_cong [of t z i] within_limit_cong [of t z i] by (auto simp: due_day_def)
      qed
    qed
    define n where "n = next_month t"
    note np = next_month_props [OF less.prems(1), folded n_def]
    have nz: "day_key n \<le> day_key z" if z: "due_day i z" "day_key t \<le> day_key z" for z
    proof -
      have "tm_year t * 12 + tm_mon t < tm_year z * 12 + tm_mon z" using zle [OF z(1)] z(2) none [OF z(1)] by blast
      then show ?thesis using np(3,4) due_day_ranges [OF z(1)] by (subst day_key_le_iff) auto
    qed
    have tn: "day_key t \<le> day_key n" using np(3,4) t by (simp add: day_key_def)
    have "tm_year t * 12 + tm_mon t < tm_year z0 * 12 + tm_mon z0"
      using zle [OF assms(4)] less.prems(3) none [OF assms(4)] by blast
    then have "nat (tm_year z0 * 12 + tm_mon z0 - (tm_year n * 12 + tm_mon n)) < nat (tm_year z0 * 12 + tm_mon z0 - (tm_year t * 12 + tm_mon t))"
      using np(3) by simp
    from less.hyps [OF this np(1) np(2) [OF less.prems(2)] nz [OF assms(4) less.prems(3)]]
    obtain u where u: "apply_day_loop i n = Some u" "found_day i u"
      "u = n\<lparr>tm_mday := tm_mday u, tm_mon := tm_mon u, tm_year := tm_year u\<rparr>" "day_key n \<le> day_key u"
      "\<forall>z. due_day i z \<and> day_key n \<le> day_key z \<longrightarrow> day_key u \<le> day_key z" by blast
    have "next_month t' = n" by (subst r(2)) (simp add: n_def)
    then have "apply_day_loop i t = Some u" using r(1) False u(1) by (subst scheduler_day_loop_step) simp
    moreover have "u = t\<lparr>tm_mday := tm_mday u, tm_mon := tm_mon u, tm_year := tm_year u\<rparr>"
    proof -
      have "n\<lparr>tm_mday := a, tm_mon := b, tm_year := c\<rparr> = t\<lparr>tm_mday := a, tm_mon := b, tm_year := c\<rparr>" for a b c
        by (simp add: n_def next_month_def Let_def)
      then show ?thesis using u(3) by (simp only:)
    qed
    ultimately show ?thesis using u(2,4,5) tn nz by (meson order_trans)
  qed
qed

lemma apply_day_filter_search:
  assumes "interval_regular i" "date_start t" "tod_ok t" "due_day i z0" "day_key t \<le> day_key z0"
  shows "\<exists>t'. scheduler_apply_day_filter i t = Some t' \<and> found_day i t' \<and> tod_ok t' \<and> day_key t \<le> day_key t' \<and>
    (\<forall>z. due_day i z \<and> day_key t \<le> day_key z \<longrightarrow> day_key t' \<le> day_key z) \<and>
    (if day_key t' = day_key t then tm_hour t' = tm_hour t \<and> tm_min t' = tm_min t \<and> tm_sec t' = tm_sec t
     else tm_hour t' = 0 \<and> tm_min t' = 0 \<and> tm_sec t' = 0)"
proof -
  obtain u where u: "apply_day_loop i t = Some u" "found_day i u"
    "u = t\<lparr>tm_mday := tm_mday u, tm_mon := tm_mon u, tm_year := tm_year u\<rparr>" "day_key t \<le> day_key u"
    "\<forall>z. due_day i z \<and> day_key t \<le> day_key z \<longrightarrow> day_key u \<le> day_key z"
    using apply_day_loop_search [OF assms] by blast
  have tod: "tm_hour u = tm_hour t" "tm_min u = tm_min t" "tm_sec u = tm_sec t" by (subst u(3), simp)+
  define changed where "changed \<longleftrightarrow> tm_mday u \<noteq> tm_mday t \<or> tm_mon u \<noteq> tm_mon t \<or> tm_year u \<noteq> tm_year t"
  define t' where "t' = (if changed then u\<lparr>tm_hour := 0, tm_min := 0, tm_sec := 0\<rparr> else u)"
  have r: "scheduler_apply_day_filter i t = Some t'"
    using u(1) by (simp add: scheduler_apply_day_filter_def t'_def changed_def)
  have k: "day_key t' = day_key u" "found_day i t' = found_day i u"
    by (simp_all add: t'_def day_key_def found_day_def day_listed_def within_limit_def month_limit_def dow_def cal_ok_def)
  have "changed \<longleftrightarrow> day_key u \<noteq> day_key t"
  proof -
    have ranges: "0 \<le> tm_mon t" "tm_mon t \<le> 11" "0 \<le> tm_mon u" "tm_mon u \<le> 11"
      "1 \<le> tm_mday t" "tm_mday t \<le> 32" "1 \<le> tm_mday u" "tm_mday u \<le> 31"
      using assms(2) u(2) by (simp_all add: date_start_def found_day_def)
    have "\<not> changed" if "day_key u = day_key t"
    proof -
      have "tm_year t * 12 + tm_mon t = tm_year u * 12 + tm_mon u \<and> tm_mday t = tm_mday u"
        using that day_key_le_iff [of t u] day_key_le_iff [of u t] ranges by auto
      then show ?thesis using same_month [of t u] ranges by (auto simp: changed_def)
    qed
    then show ?thesis by (auto simp: changed_def day_key_def)
  qed
  moreover have "tod_ok t'" using assms(3) tod by (simp add: t'_def tod_ok_def)
  ultimately show ?thesis using r u(2,4,5) k tod by (intro exI [of _ t']) (simp add: t'_def)
qed

section \<open>Units of the day\<close>

text \<open>The values that a unit admits, and the search of \<open>unit_nextcheck\<close> among them.\<close>

definition unit_ok :: "int \<Rightarrow> int \<Rightarrow> zbx_scheduler_filter list \<Rightarrow> int \<Rightarrow> bool" where
  "unit_ok filter_level level fs v \<longleftrightarrow> (if fs = [] then level < filter_level \<or> v = 0 else chain_has fs v)"

lemma unit_nextcheck_Some:
  assumes "list_all (filter_ok 0 m) fs" "chain_disjoint fs" "0 \<le> v" "unit_nextcheck fl level fs m v = Some x"
  shows "v \<le> x \<and> x \<le> m \<and> unit_ok fl level fs x \<and> (\<forall>w. v \<le> w \<and> w < x \<longrightarrow> \<not> unit_ok fl level fs w)"
proof (cases "fs = []")
  case True
  then show ?thesis using assms(4) by (auto simp: unit_nextcheck_def unit_ok_def split: if_splits)
next
  case False
  then have n: "scheduler_get_nearest_filter_value fs v = Some x"
    using assms(4) by (auto simp: unit_nextcheck_def split: if_splits)
  show ?thesis
    using nearest_Some [OF assms(1,2) n] chain_has_bounds [OF assms(1), of x] False by (simp add: unit_ok_def)
qed

lemma unit_nextcheck_None:
  assumes "list_all (filter_ok 0 m) fs" "0 \<le> v" "unit_nextcheck fl level fs m v = None" "v \<le> w" "w \<le> m"
  shows "\<not> unit_ok fl level fs w"
proof (cases "fs = []")
  case True
  then show ?thesis using assms(2-5) by (auto simp: unit_nextcheck_def unit_ok_def split: if_splits)
next
  case False
  then have n: "scheduler_get_nearest_filter_value fs v = None"
    using assms(3-5) by (auto simp: unit_nextcheck_def split: if_splits)
  show ?thesis using nearest_None [OF assms(1) n assms(4)] False by (simp add: unit_ok_def)
qed

text \<open>
  The loop that moves a unit forward: it looks for the next value of the unit, and when there is none it carries
  into the coarser unit, whose search \<open>outer\<close> it relies on, and starts again at 0. \<open>okey\<close> orders the coarser part
  of a time, \<open>due\<close> are the coarser parts that must not be passed over and \<open>found\<close> is what is known of one the outer
  search has ended at.
\<close>

locale unit_search =
  fixes good :: "'i \<Rightarrow> bool"
    and outer :: "'i \<Rightarrow> 't \<Rightarrow> 't option"
    and start found :: "'i \<Rightarrow> 't \<Rightarrow> bool"
    and due :: "'i \<Rightarrow> 't \<Rightarrow> bool"
    and okey :: "'t \<Rightarrow> int"
    and get :: "'t \<Rightarrow> int"
    and put :: "int \<Rightarrow> 't \<Rightarrow> 't"
    and carry :: "'t \<Rightarrow> 't"
    and top :: int
    and admits :: "'i \<Rightarrow> int \<Rightarrow> bool"
    and nxt :: "'i \<Rightarrow> int \<Rightarrow> int option"
    and loop :: "'i \<Rightarrow> 't \<Rightarrow> 't option"
  assumes loop_eq: "loop i t = (case nxt i (get t) of Some x \<Rightarrow> Some (put x t) | None \<Rightarrow> Option.bind (outer i (carry t)) (loop i))"
    and nxt_Some: "good i \<Longrightarrow> 0 \<le> v \<Longrightarrow> nxt i v = Some x \<Longrightarrow>
      v \<le> x \<and> x \<le> top \<and> admits i x \<and> (\<forall>w. v \<le> w \<and> w < x \<longrightarrow> \<not> admits i w)"
    and nxt_None: "good i \<Longrightarrow> 0 \<le> v \<Longrightarrow> nxt i v = None \<Longrightarrow> v \<le> w \<Longrightarrow> w \<le> top \<Longrightarrow> \<not> admits i w"
    and put: "get (put x t) = x" "okey (put x t) = okey t" "found i (put x t) = found i t"
    and carry: "okey (carry t) = okey t + 1" "get (carry t) = 0" "found i t \<Longrightarrow> start i (carry t)"
    and outer: "good i \<Longrightarrow> start i t \<Longrightarrow> due i z0 \<Longrightarrow> okey t \<le> okey z0 \<Longrightarrow>
      \<exists>t'. outer i t = Some t' \<and> found i t' \<and> okey t \<le> okey t' \<and> (\<forall>z. due i z \<and> okey t \<le> okey z \<longrightarrow> okey t' \<le> okey z) \<and>
        (get t = 0 \<longrightarrow> get t' = 0)"
begin

definition key :: "'t \<Rightarrow> int" where
  "key t = okey t * (top + 1) + get t"

definition due_unit :: "'i \<Rightarrow> 't \<Rightarrow> bool" where
  "due_unit i z \<longleftrightarrow> due i z \<and> 0 \<le> get z \<and> get z \<le> top \<and> admits i (get z)"

lemma key_le_iff:
  assumes "0 \<le> get t" "get t \<le> top" "0 \<le> get z" "get z \<le> top"
  shows "key t \<le> key z \<longleftrightarrow> okey t < okey z \<or> (okey t = okey z \<and> get t \<le> get z)"
proof -
  have "key t \<le> key z" if "okey t < okey z"
  proof -
    have "(okey t + 1) * (top + 1) \<le> okey z * (top + 1)" using that assms by (intro mult_right_mono) auto
    then show ?thesis using assms by (simp add: key_def algebra_simps)
  qed
  moreover have "\<not> key t \<le> key z" if "okey z < okey t"
  proof -
    have "(okey z + 1) * (top + 1) \<le> okey t * (top + 1)" using that assms by (intro mult_right_mono) auto
    then show ?thesis using assms by (simp add: key_def algebra_simps)
  qed
  ultimately show ?thesis by (cases "okey t" "okey z" rule: linorder_cases) (auto simp: key_def)
qed

text \<open>A value at the top of the unit plus one stands for the carry.\<close>

lemma due_not_before:
  assumes "due_unit i z" "0 \<le> get t" "get t \<le> top + 1" "key t \<le> key z"
  shows "okey t < okey z \<or> (okey t = okey z \<and> get t \<le> get z)"
proof (cases "get t \<le> top")
  case True
  then show ?thesis using assms key_le_iff [of t z] by (simp add: due_unit_def)
next
  case False
  then have g: "get t = top + 1" using assms by simp
  have "okey t + 1 \<le> okey z"
  proof (rule ccontr)
    assume "\<not> okey t + 1 \<le> okey z"
    then have "okey z * (top + 1) \<le> okey t * (top + 1)" using assms(2) g by (intro mult_right_mono) auto
    then show False using assms(1,4) g by (simp add: key_def due_unit_def)
  qed
  then show ?thesis by simp
qed

lemma loop_search:
  assumes "good i" "found i t" "0 \<le> get t" "get t \<le> top + 1" "due_unit i z0" "key t \<le> key z0"
  shows "\<exists>t'. loop i t = Some t' \<and> found i t' \<and> 0 \<le> get t' \<and> get t' \<le> top \<and> admits i (get t') \<and> key t \<le> key t' \<and>
    (\<forall>z. due_unit i z \<and> key t \<le> key z \<longrightarrow> key t' \<le> key z) \<and>
    ((okey t' = okey t \<and> t' = put (get t') t) \<or> (okey t < okey t' \<and> get t' < get t))"
proof (cases "nxt i (get t)")
  case (Some x)
  note n = nxt_Some [OF assms(1,3) Some]
  have r: "loop i t = Some (put x t)" by (subst loop_eq) (simp add: Some)
  have "key (put x t) \<le> key z" if z: "due_unit i z" "key t \<le> key z" for z
    using due_not_before [OF z(1) assms(3,4) z(2)] z(1) n assms(3) by (subst key_le_iff) (auto simp: put due_unit_def not_less [symmetric])
  then show ?thesis using r n assms(2,3) by (intro exI [of _ "put x t"]) (auto simp: put key_def)
next
  case None
  note n = nxt_None [OF assms(1,3) None]
  have later: "okey (carry t) \<le> okey z" if z: "due_unit i z" "key t \<le> key z" for z
    using due_not_before [OF z(1) assms(3,4) z(2)] z(1) n [of "get z"] by (auto simp: carry due_unit_def)
  have "due i z0" using assms(5) by (simp add: due_unit_def)
  from outer [OF assms(1) carry(3) [OF assms(2)] this later [OF assms(5,6)]]
  obtain u where u: "outer i (carry t) = Some u" "found i u" "okey t + 1 \<le> okey u"
    "\<forall>z. due i z \<and> okey t + 1 \<le> okey z \<longrightarrow> okey u \<le> okey z" "get u = 0"
    by (auto simp: carry)
  have z0: "0 \<le> get z0" "get z0 \<le> top" "admits i (get z0)" using assms(5) by (simp_all add: due_unit_def)
  obtain x where x: "nxt i 0 = Some x" using nxt_None [OF assms(1) order_refl _ z0(1,2)] z0(3) by fastforce
  note nx = nxt_Some [OF assms(1) order_refl x]
  have r: "loop i t = Some (put x u)"
    by (subst loop_eq) (simp add: None u(1), subst loop_eq, simp add: u(5) x)
  have "key (put x u) \<le> key z" if z: "due_unit i z" "key t \<le> key z" for z
  proof -
    have "okey u \<le> okey z" using u(4) later [OF z] z(1) by (simp add: carry due_unit_def)
    moreover have "x \<le> get z" using nx z(1) by (auto simp: due_unit_def not_less [symmetric])
    ultimately show ?thesis using nx z(1) by (subst key_le_iff) (auto simp: put due_unit_def)
  qed
  moreover have "x < get t"
  proof (rule ccontr)
    assume "\<not> x < get t"
    then show False using n [of x] nx by simp
  qed
  moreover have "key t \<le> key (put x u)"
  proof -
    have "(okey t + 1) * (top + 1) \<le> okey u * (top + 1)" using u(3) z0 by (intro mult_right_mono) auto
    then show ?thesis using assms(4) nx by (simp add: key_def put algebra_simps)
  qed
  ultimately show ?thesis using r u(2,3) nx by (intro exI [of _ "put x u"]) (simp add: put)
qed

end

section \<open>Hours, minutes and seconds\<close>

abbreviation hour_admits :: "zbx_scheduler_interval \<Rightarrow> int \<Rightarrow> bool" where
  "hour_admits i \<equiv> unit_ok (si_filter_level i) ZBX_SCHEDULER_FILTER_HOUR (si_hours i)"

abbreviation minute_admits :: "zbx_scheduler_interval \<Rightarrow> int \<Rightarrow> bool" where
  "minute_admits i \<equiv> unit_ok (si_filter_level i) ZBX_SCHEDULER_FILTER_MINUTE (si_minutes i)"

abbreviation second_admits :: "zbx_scheduler_interval \<Rightarrow> int \<Rightarrow> bool" where
  "second_admits i \<equiv> unit_ok (si_filter_level i) ZBX_SCHEDULER_FILTER_SECOND (si_seconds i)"

definition second_range :: "tm \<Rightarrow> bool" where
  "second_range t \<longleftrightarrow> 0 \<le> tm_sec t \<and> tm_sec t \<le> 59"

definition minute_range :: "tm \<Rightarrow> bool" where
  "minute_range t \<longleftrightarrow> 0 \<le> tm_min t \<and> tm_min t \<le> 59 \<and> second_range t"

lemma found_day_put [simp]:
  "found_day i (t\<lparr>tm_hour := h\<rparr>) = found_day i t" "found_day i (t\<lparr>tm_min := m\<rparr>) = found_day i t"
  "found_day i (t\<lparr>tm_sec := s\<rparr>) = found_day i t"
  by (simp_all add: found_day_def day_listed_def within_limit_def month_limit_def dow_def cal_ok_def)

lemma regular_units:
  assumes "interval_regular i"
  shows "list_all (filter_ok 0 23) (si_hours i)" "list_all (filter_ok 0 59) (si_minutes i)" "list_all (filter_ok 0 59) (si_seconds i)"
    "chain_disjoint (si_hours i)" "chain_disjoint (si_minutes i)" "chain_disjoint (si_seconds i)"
  using assms by (simp_all add: interval_regular_def interval_ok_def)

interpretation hour: unit_search interval_regular scheduler_apply_day_filter "\<lambda>i t. date_start t \<and> tod_ok t"
  "\<lambda>i t. found_day i t \<and> minute_range t" due_day day_key tm_hour "\<lambda>x t. t\<lparr>tm_hour := x\<rparr>"
  "\<lambda>t. t\<lparr>tm_mday := tm_mday t + 1, tm_hour := 0\<rparr>" 23 hour_admits
  "\<lambda>i. unit_nextcheck (si_filter_level i) ZBX_SCHEDULER_FILTER_HOUR (si_hours i) 23" apply_hour_loop
proof (unfold_locales, goal_cases)
  case (1 i t)
  then show ?case
    by (subst apply_hour_loop.simps) (simp add: scheduler_get_filter_nextcheck_def filter_level_defs split: option.split)
next
  case (2 i v x)
  then show ?case using unit_nextcheck_Some [OF regular_units(1,4) [OF 2(1)] 2(2,3)] by blast
next
  case (3 i v w)
  then show ?case using unit_nextcheck_None [OF regular_units(1) [OF 3(1)]] by blast
next
  case (10 i t z0)
  then show ?case using apply_day_filter_search [of i t z0] by (auto simp: tod_ok_def minute_range_def second_range_def) metis
next
  case (9 i t)
  then show ?case by (auto simp: minute_range_def second_range_def found_day_def date_start_def tod_ok_def)
qed (simp_all add: day_key_def minute_range_def second_range_def)

lemma apply_hour_filter_search:
  assumes "interval_regular i" "found_day i t" "minute_range t" "0 \<le> tm_hour t" "tm_hour t \<le> 24"
    "hour.due_unit i z0" "hour.key t \<le> hour.key z0"
  shows "\<exists>t'. scheduler_apply_hour_filter i t = Some t' \<and> found_day i t' \<and> minute_range t' \<and>
    0 \<le> tm_hour t' \<and> tm_hour t' \<le> 23 \<and> hour_admits i (tm_hour t') \<and> hour.key t \<le> hour.key t' \<and>
    (\<forall>z. hour.due_unit i z \<and> hour.key t \<le> hour.key z \<longrightarrow> hour.key t' \<le> hour.key z) \<and>
    (if tm_hour t \<le> 23 \<and> hour.key t' = hour.key t then tm_min t' = tm_min t \<and> tm_sec t' = tm_sec t
     else tm_min t' = 0 \<and> tm_sec t' = 0)"
proof -
  obtain u where u: "apply_hour_loop i t = Some u" "found_day i u \<and> minute_range u" "0 \<le> tm_hour u" "tm_hour u \<le> 23"
    "hour_admits i (tm_hour u)" "hour.key t \<le> hour.key u" "\<forall>z. hour.due_unit i z \<and> hour.key t \<le> hour.key z \<longrightarrow> hour.key u \<le> hour.key z"
    "(day_key u = day_key t \<and> u = t\<lparr>tm_hour := tm_hour u\<rparr>) \<or> (day_key t < day_key u \<and> tm_hour u < tm_hour t)"
    using hour.loop_search [OF assms(1) _ assms(4) _ assms(6,7)] assms(2,3,5) by auto
  define t' where "t' = (if tm_hour u \<noteq> tm_hour t then u\<lparr>tm_min := 0, tm_sec := 0\<rparr> else u)"
  have r: "scheduler_apply_hour_filter i t = Some t'" using u(1) by (simp add: scheduler_apply_hour_filter_def t'_def)
  have k: "hour.key t' = hour.key u" "tm_hour t' = tm_hour u" "found_day i t'" "minute_range t'"
    using u(2) by (simp_all add: t'_def hour.key_def day_key_def minute_range_def second_range_def)
  have "(if tm_hour t \<le> 23 \<and> hour.key u = hour.key t then tm_min t' = tm_min t \<and> tm_sec t' = tm_sec t
      else tm_min t' = 0 \<and> tm_sec t' = 0)"
    using u(8)
  proof
    assume a: "day_key u = day_key t \<and> u = t\<lparr>tm_hour := tm_hour u\<rparr>"
    then have "tm_min u = tm_min t" "tm_sec u = tm_sec t" by (metis tm.select_convs tm.surjective tm.update_convs)+
    then show ?thesis using a u(4) by (auto simp: t'_def hour.key_def)
  next
    assume a: "day_key t < day_key u \<and> tm_hour u < tm_hour t"
    then have n: "\<not> (tm_hour t \<le> 23 \<and> hour.key u = hour.key t)" using u(3) by (auto simp: hour.key_def)
    show ?thesis unfolding if_not_P [OF n] using a by (simp add: t'_def)
  qed
  then show ?thesis using r u(3-7) k by (intro exI [of _ t']) simp
qed

interpretation minute: unit_search interval_regular scheduler_apply_hour_filter
  "\<lambda>i t. found_day i t \<and> minute_range t \<and> 0 \<le> tm_hour t \<and> tm_hour t \<le> 24"
  "\<lambda>i t. found_day i t \<and> 0 \<le> tm_hour t \<and> tm_hour t \<le> 23 \<and> hour_admits i (tm_hour t) \<and> second_range t"
  hour.due_unit hour.key tm_min "\<lambda>x t. t\<lparr>tm_min := x\<rparr>"
  "\<lambda>t. t\<lparr>tm_hour := tm_hour t + 1, tm_min := 0\<rparr>" 59 minute_admits
  "\<lambda>i. unit_nextcheck (si_filter_level i) ZBX_SCHEDULER_FILTER_MINUTE (si_minutes i) 59" apply_minute_loop
proof (unfold_locales, goal_cases)
  case (1 i t)
  then show ?case
    by (subst apply_minute_loop.simps) (simp add: scheduler_get_filter_nextcheck_def filter_level_defs split: option.split)
next
  case (2 i v x)
  then show ?case using unit_nextcheck_Some [OF regular_units(2,5) [OF 2(1)] 2(2,3)] by blast
next
  case (3 i v w)
  then show ?case using unit_nextcheck_None [OF regular_units(2) [OF 3(1)]] by blast
next
  case (10 i t z0)
  then obtain t' where "scheduler_apply_hour_filter i t = Some t' \<and> found_day i t' \<and> minute_range t' \<and>
    0 \<le> tm_hour t' \<and> tm_hour t' \<le> 23 \<and> hour_admits i (tm_hour t') \<and> hour.key t \<le> hour.key t' \<and>
    (\<forall>z. hour.due_unit i z \<and> hour.key t \<le> hour.key z \<longrightarrow> hour.key t' \<le> hour.key z) \<and>
    (if tm_hour t \<le> 23 \<and> hour.key t' = hour.key t then tm_min t' = tm_min t \<and> tm_sec t' = tm_sec t
     else tm_min t' = 0 \<and> tm_sec t' = 0)"
    using apply_hour_filter_search [of i t z0] by blast
  then show ?case by (intro exI [of _ t']) (auto simp: minute_range_def split: if_splits)
qed (simp_all add: day_key_def hour.key_def minute_range_def second_range_def)

lemma apply_minute_filter_search:
  assumes "interval_regular i" "found_day i t" "second_range t" "0 \<le> tm_hour t" "tm_hour t \<le> 23" "hour_admits i (tm_hour t)"
    "0 \<le> tm_min t" "tm_min t \<le> 60" "minute.due_unit i z0" "minute.key t \<le> minute.key z0"
  shows "\<exists>t'. scheduler_apply_minute_filter i t = Some t' \<and> found_day i t' \<and> minute_range t' \<and>
    0 \<le> tm_hour t' \<and> tm_hour t' \<le> 23 \<and> hour_admits i (tm_hour t') \<and> minute_admits i (tm_min t') \<and> minute.key t \<le> minute.key t' \<and>
    (\<forall>z. minute.due_unit i z \<and> minute.key t \<le> minute.key z \<longrightarrow> minute.key t' \<le> minute.key z) \<and>
    (if tm_min t \<le> 59 \<and> minute.key t' = minute.key t then tm_sec t' = tm_sec t else tm_sec t' = 0)"
proof -
  obtain u where u: "apply_minute_loop i t = Some u"
    "found_day i u \<and> 0 \<le> tm_hour u \<and> tm_hour u \<le> 23 \<and> hour_admits i (tm_hour u) \<and> second_range u"
    "0 \<le> tm_min u" "tm_min u \<le> 59" "minute_admits i (tm_min u)" "minute.key t \<le> minute.key u"
    "\<forall>z. minute.due_unit i z \<and> minute.key t \<le> minute.key z \<longrightarrow> minute.key u \<le> minute.key z"
    "(hour.key u = hour.key t \<and> u = t\<lparr>tm_min := tm_min u\<rparr>) \<or> (hour.key t < hour.key u \<and> tm_min u < tm_min t)"
    using minute.loop_search [OF assms(1) _ assms(7) _ assms(9,10)] assms(2-6,8) by auto
  define t' where "t' = (if tm_min u \<noteq> tm_min t then u\<lparr>tm_sec := 0\<rparr> else u)"
  have r: "scheduler_apply_minute_filter i t = Some t'" using u(1) by (simp add: scheduler_apply_minute_filter_def t'_def)
  have k: "minute.key t' = minute.key u" "tm_hour t' = tm_hour u" "tm_min t' = tm_min u" "found_day i t'" "minute_range t'"
    using u(2-4) by (simp_all add: t'_def minute.key_def hour.key_def day_key_def minute_range_def second_range_def)
  have "(if tm_min t \<le> 59 \<and> minute.key u = minute.key t then tm_sec t' = tm_sec t else tm_sec t' = 0)"
    using u(8)
  proof
    assume a: "hour.key u = hour.key t \<and> u = t\<lparr>tm_min := tm_min u\<rparr>"
    then have "tm_sec u = tm_sec t" by (metis tm.select_convs tm.surjective tm.update_convs)
    then show ?thesis using a u(4) by (auto simp: t'_def minute.key_def)
  next
    assume a: "hour.key t < hour.key u \<and> tm_min u < tm_min t"
    then have n: "\<not> (tm_min t \<le> 59 \<and> minute.key u = minute.key t)" using u(3) by (auto simp: minute.key_def)
    show ?thesis unfolding if_not_P [OF n] using a by (simp add: t'_def)
  qed
  then show ?thesis using r u(2-7) k by (intro exI [of _ t']) simp
qed

interpretation second: unit_search interval_regular scheduler_apply_minute_filter
  "\<lambda>i t. found_day i t \<and> 0 \<le> tm_hour t \<and> tm_hour t \<le> 23 \<and> hour_admits i (tm_hour t) \<and> second_range t \<and> 0 \<le> tm_min t \<and> tm_min t \<le> 60"
  "\<lambda>i t. found_day i t \<and> 0 \<le> tm_hour t \<and> tm_hour t \<le> 23 \<and> hour_admits i (tm_hour t) \<and> 0 \<le> tm_min t \<and> tm_min t \<le> 59 \<and>
    minute_admits i (tm_min t)"
  minute.due_unit minute.key tm_sec "\<lambda>x t. t\<lparr>tm_sec := x\<rparr>"
  "\<lambda>t. t\<lparr>tm_min := tm_min t + 1, tm_sec := 0\<rparr>" 59 second_admits
  "\<lambda>i. unit_nextcheck (si_filter_level i) ZBX_SCHEDULER_FILTER_SECOND (si_seconds i) 59" scheduler_apply_second_filter
proof (unfold_locales, goal_cases)
  case (1 i t)
  then show ?case
    by (subst scheduler_apply_second_filter.simps)
      (simp add: scheduler_get_filter_nextcheck_def filter_level_defs split: option.split)
next
  case (2 i v x)
  then show ?case using unit_nextcheck_Some [OF regular_units(3,6) [OF 2(1)] 2(2,3)] by blast
next
  case (3 i v w)
  then show ?case using unit_nextcheck_None [OF regular_units(3) [OF 3(1)]] by blast
next
  case (10 i t z0)
  then obtain t' where "scheduler_apply_minute_filter i t = Some t' \<and> found_day i t' \<and> minute_range t' \<and>
    0 \<le> tm_hour t' \<and> tm_hour t' \<le> 23 \<and> hour_admits i (tm_hour t') \<and> minute_admits i (tm_min t') \<and> minute.key t \<le> minute.key t' \<and>
    (\<forall>z. minute.due_unit i z \<and> minute.key t \<le> minute.key z \<longrightarrow> minute.key t' \<le> minute.key z) \<and>
    (if tm_min t \<le> 59 \<and> minute.key t' = minute.key t then tm_sec t' = tm_sec t else tm_sec t' = 0)"
    using apply_minute_filter_search [of i t z0] by blast
  then show ?case by (intro exI [of _ t']) (auto simp: minute_range_def split: if_splits)
qed (simp_all add: day_key_def hour.key_def minute.key_def minute_range_def second_range_def)

section \<open>The next time\<close>

text \<open>The order of times, the times that are due, and what the result of a search satisfies.\<close>

definition tm_key :: "tm \<Rightarrow> int" where
  "tm_key t = ((((tm_year t * 12 + tm_mon t) * 32 + tm_mday t) * 24 + tm_hour t) * 60 + tm_min t) * 60 + tm_sec t"

definition time_listed :: "zbx_scheduler_interval \<Rightarrow> tm \<Rightarrow> bool" where
  "time_listed i t \<longleftrightarrow> day_listed i t \<and> within_limit i t \<and> hour_admits i (tm_hour t) \<and> minute_admits i (tm_min t) \<and>
    second_admits i (tm_sec t) \<and> tod_ok t"

definition due_time :: "zbx_scheduler_interval \<Rightarrow> tm \<Rightarrow> bool" where
  "due_time i z \<longleftrightarrow> time_listed i z \<and> cal_ok z \<and>
    epoch_seconds (tm_year z + 1900) (tm_mon z + 1) (tm_mday z) 23 59 59 < 2 ^ 31"

lemma tm_key_eq: "second.key t = tm_key t"
  by (simp add: tm_key_def second.key_def minute.key_def hour.key_def day_key_def)

lemma due_time_eq: "second.due_unit i z \<longleftrightarrow> due_time i z"
  by (auto simp: second.due_unit_def minute.due_unit_def hour.due_unit_def due_day_def due_time_def time_listed_def tod_ok_def)

definition tod_key :: "tm \<Rightarrow> int" where
  "tod_key t = tm_hour t * 3600 + tm_min t * 60 + tm_sec t"

lemma tm_key_split: "tm_key t = day_key t * 86400 + tod_key t"
  by (simp add: tm_key_def day_key_def tod_key_def)

lemma tod_key_bounds: "tod_ok t \<Longrightarrow> 0 \<le> tod_key t \<and> tod_key t < 86400"
  by (auto simp: tod_ok_def tod_key_def)

lemma cal_ok_ranges:
  assumes "cal_ok t"
  shows "70 \<le> tm_year t" "0 \<le> tm_mon t" "tm_mon t \<le> 11" "1 \<le> tm_mday t" "tm_mday t \<le> 31"
    "tm_mday t \<le> zbx_day_in_month (tm_year t + 1900) (tm_mon t + 1)"
  using assms day_in_month_bounds(2) [of "tm_year t + 1900" "tm_mon t + 1"] by (auto simp: cal_ok_def valid_date_def)

text \<open>After the last day of a month, the first day of the next one is next.\<close>

lemma after_month_end:
  assumes "cal_ok t" "zbx_day_in_month (tm_year t + 1900) (tm_mon t + 1) \<le> tm_mday t" "cal_ok z" "day_key t < day_key z"
  shows "(tm_year t * 12 + tm_mon t + 1) * 32 + 1 \<le> day_key z"
proof -
  note r = cal_ok_ranges [OF assms(1)] cal_ok_ranges [OF assms(3)]
  have "\<not> (tm_year t * 12 + tm_mon t = tm_year z * 12 + tm_mon z)"
  proof
    assume e: "tm_year t * 12 + tm_mon t = tm_year z * 12 + tm_mon z"
    then have "tm_year t = tm_year z \<and> tm_mon t = tm_mon z" using same_month [of t z] r by blast
    then have "tm_mday z \<le> tm_mday t" using assms(2) r by simp
    then show False using assms(4) e by (simp add: day_key_def)
  qed
  moreover have "day_key t \<le> day_key z" using assms(4) by simp
  ultimately have "tm_year t * 12 + tm_mon t < tm_year z * 12 + tm_mon z"
    using r by (subst (asm) day_key_le_iff) auto
  then show ?thesis using r by (simp add: day_key_def)
qed

text \<open>One second later: the next valid time of the calendar, so no valid time lies between.\<close>

lemma tm_inc:
  assumes "cal_ok t" "tod_ok t"
  defines "u \<equiv> scheduler_tm_inc t"
  shows "date_start u \<and> tod_ok u \<and> tm_key t < tm_key u \<and>
    (\<forall>z. cal_ok z \<and> tod_ok z \<and> tm_key t < tm_key z \<longrightarrow> tm_key u \<le> tm_key z)"
proof -
  note r = cal_ok_ranges [OF assms(1)]
  note tod = assms(2) [unfolded tod_ok_def]
  show ?thesis
  proof (cases "tm_sec t = 59 \<and> tm_min t = 59 \<and> tm_hour t = 23 \<and> zbx_day_in_month (tm_year t + 1900) (tm_mon t + 1) \<le> tm_mday t")
    case False
    have "date_start u \<and> tod_ok u \<and> tm_key u = tm_key t + 1"
      using False r tod unfolding u_def scheduler_tm_inc_def Let_def
      by (auto simp: date_start_def tod_ok_def tm_key_def)
    then show ?thesis by auto
  next
    case True
    have u: "date_start u" "tod_ok u" "day_key u = (tm_year t * 12 + tm_mon t + 1) * 32 + 1" "tod_key u = 0"
      using True r tod unfolding u_def scheduler_tm_inc_def Let_def
      by (auto simp: date_start_def tod_ok_def day_key_def tod_key_def)
    have "tod_key t = 86399" using True by (simp add: tod_key_def)
    then have lt: "tm_key t < tm_key u" unfolding tm_key_split using u(3,4) r by (simp add: day_key_def)
    have "tm_key u \<le> tm_key z" if z: "cal_ok z" "tod_ok z" "tm_key t < tm_key z" for z
    proof -
      have "day_key t < day_key z" using z(3) tod_key_bounds [OF z(2)] \<open>tod_key t = 86399\<close> by (simp add: tm_key_split)
      then have "day_key u \<le> day_key z" using after_month_end [OF assms(1) _ z(1)] True u(3) by simp
      then show ?thesis using tod_key_bounds [OF z(2)] u(4) by (simp add: tm_key_split)
    qed
    then show ?thesis using u(1,2) lt by blast
  qed
qed

text \<open>Coarser keys of ordered times are ordered.\<close>

lemma tm_key_hour: "tm_key t = hour.key t * 3600 + (tm_min t * 60 + tm_sec t)"
  by (simp add: tm_key_def hour.key_def day_key_def)

lemma tm_key_minute: "tm_key t = minute.key t * 60 + tm_sec t"
  by (simp add: tm_key_def minute.key_def hour.key_def day_key_def)

lemma minute_range_sum: "minute_range t \<Longrightarrow> 0 \<le> tm_min t * 60 + tm_sec t \<and> tm_min t * 60 + tm_sec t < 3600"
  by (auto simp: minute_range_def second_range_def)

lemma key_part_mono:
  assumes "a * n + r \<le> b * n + s" "0 \<le> r" "s < n" "0 < (n :: int)"
  shows "a \<le> b"
proof (rule ccontr)
  assume "\<not> a \<le> b"
  then have "(b + 1) * n \<le> a * n" using assms(4) by (intro mult_right_mono) auto
  then show False using assms(1-3) by (simp add: algebra_simps)
qed

text \<open>One filter: the finer part is kept while the coarser key stays, and is 0 once the key has grown.\<close>

lemma filter_step_bound:
  assumes "k \<le> (k' :: int)" "if k' = k then r' = r else r' = 0" "0 \<le> r" "r < n"
  shows "k * n + r \<le> k' * n + r'" "k * n + r \<le> g * n + h \<Longrightarrow> 0 \<le> h \<Longrightarrow> k' \<le> g \<Longrightarrow> k' * n + r' \<le> g * n + h"
proof -
  have n: "0 < n" using assms(3,4) by simp
  show "k * n + r \<le> k' * n + r'"
  proof (cases "k' = k")
    case False
    then have "(k + 1) * n \<le> k' * n" using assms(1) n by (intro mult_right_mono) auto
    then show ?thesis using False assms(2,4) by (simp add: algebra_simps)
  qed (use assms(2) in simp)
  assume z: "k * n + r \<le> g * n + h" "0 \<le> h" "k' \<le> g"
  show "k' * n + r' \<le> g * n + h"
  proof (cases "k' = k")
    case False
    have "k' * n \<le> g * n" using z(3) n by (intro mult_right_mono) auto
    then show ?thesis using False assms(2) z(2) by simp
  qed (use assms(2) z(1) in simp)
qed

text \<open>
  One second later and through the four filters: the search ends at a listed time and passes over no due one, both
  within the month limit of the code.
\<close>

lemma next_time_search:
  assumes "interval_regular i" "cal_ok t" "tod_ok t" "due_time i z0" "tm_key t < tm_key z0"
  shows "\<exists>t'. next_time i t = Some t' \<and> time_listed i t' \<and> found_day i t' \<and> tm_key t < tm_key t' \<and>
    \<not> (\<exists>z. due_time i z \<and> tm_key t < tm_key z \<and> tm_key z < tm_key t')"
proof -
  define u where "u = scheduler_tm_inc t"
  have u: "date_start u" "tod_ok u" "tm_key t < tm_key u"
    and uz: "\<And>z. cal_ok z \<Longrightarrow> tod_ok z \<Longrightarrow> tm_key t < tm_key z \<Longrightarrow> tm_key u \<le> tm_key z"
    using tm_inc [OF assms(2,3)] unfolding u_def by auto
  have due: "cal_ok z" "tod_ok z" "due_day i z" "hour.due_unit i z" "minute.due_unit i z" "second.due_unit i z"
    if "due_time i z" for z
    using that by (simp_all add: due_time_def time_listed_def due_day_def hour.due_unit_def minute.due_unit_def second.due_unit_def tod_ok_def)
  have uz0: "tm_key u \<le> tm_key z0" using uz due(1,2) [OF assms(4)] assms(5) by blast
  have day: "day_key x \<le> day_key z" if "tm_key x \<le> tm_key z" "tod_ok x" "tod_ok z" for x z
    using key_part_mono [of "day_key x" 86400 "tod_key x" "day_key z" "tod_key z"] that tod_key_bounds
    by (simp add: tm_key_split)
  have hr: "hour.key x \<le> hour.key z" if "tm_key x \<le> tm_key z" "minute_range x" "minute_range z" for x z
    using key_part_mono [of "hour.key x" 3600 _ "hour.key z"] that minute_range_sum [of x] minute_range_sum [of z]
    by (simp add: tm_key_hour)
  have mi: "minute.key x \<le> minute.key z" if "tm_key x \<le> tm_key z" "second_range x" "second_range z" for x z
    using key_part_mono [of "minute.key x" 60 "tm_sec x" "minute.key z" "tm_sec z"] that
    by (simp add: tm_key_minute second_range_def)
  have rng: "minute_range x" "second_range x" "0 \<le> tm_hour x" "tm_hour x \<le> 23" "0 \<le> tm_min x" "tm_min x \<le> 59" if "tod_ok x" for x
    using that by (simp_all add: tod_ok_def minute_range_def second_range_def)
  obtain a where a: "scheduler_apply_day_filter i u = Some a" "found_day i a" "tod_ok a" "day_key u \<le> day_key a"
    "\<forall>z. due_day i z \<and> day_key u \<le> day_key z \<longrightarrow> day_key a \<le> day_key z"
    "if day_key a = day_key u then tod_key a = tod_key u else tod_key a = 0"
    using apply_day_filter_search [OF assms(1) u(1,2) due(3) [OF assms(4)] day [OF uz0 u(2) due(2) [OF assms(4)]]]
    by (auto simp: tod_key_def split: if_splits)
  have a1: "tm_key u \<le> tm_key a" "tm_key a \<le> tm_key z" if "due_time i z" "tm_key u \<le> tm_key z" for z
    using filter_step_bound(1) [OF a(4,6), of 86400] filter_step_bound(2) [OF a(4,6), of 86400 "day_key z" "tod_key z"] tod_key_bounds [OF u(2)]
      tod_key_bounds [OF due(2) [OF that(1)]] a(5) due(3) [OF that(1)] day [OF that(2) u(2) due(2) [OF that(1)]] that(2)
    by (simp_all add: tm_key_split)
  have az0: "tm_key a \<le> tm_key z0" using a1(2) [OF assms(4) uz0] .
  obtain b where b: "scheduler_apply_hour_filter i a = Some b" "found_day i b" "minute_range b" "0 \<le> tm_hour b" "tm_hour b \<le> 23"
    "hour_admits i (tm_hour b)" "hour.key a \<le> hour.key b"
    "\<forall>z. hour.due_unit i z \<and> hour.key a \<le> hour.key z \<longrightarrow> hour.key b \<le> hour.key z"
    "if hour.key b = hour.key a then tm_min b * 60 + tm_sec b = tm_min a * 60 + tm_sec a else tm_min b * 60 + tm_sec b = 0"
    using apply_hour_filter_search [OF assms(1) a(2) rng(1,3) [OF a(3)] _ due(4) [OF assms(4)]
        hr [OF az0 rng(1) [OF a(3)] rng(1) [OF due(2) [OF assms(4)]]]] rng(4) [OF a(3)]
    by (auto split: if_splits)
  have b1: "tm_key a \<le> tm_key b" "tm_key b \<le> tm_key z" if "due_time i z" "tm_key a \<le> tm_key z" for z
    using filter_step_bound(1) [OF b(7,9), of 3600] filter_step_bound(2) [OF b(7,9), of 3600 "hour.key z" "tm_min z * 60 + tm_sec z"] minute_range_sum [OF rng(1) [OF a(3)]]
      minute_range_sum [OF rng(1) [OF due(2) [OF that(1)]]] b(8) due(4) [OF that(1)]
      hr [OF that(2) rng(1) [OF a(3)] rng(1) [OF due(2) [OF that(1)]]] that(2)
    by (simp_all add: tm_key_hour)
  have bz0: "tm_key b \<le> tm_key z0" using b1(2) [OF assms(4) az0] .
  have br: "second_range b" "0 \<le> tm_min b" "tm_min b \<le> 59" using b(3) by (simp_all add: minute_range_def)
  obtain c where c: "scheduler_apply_minute_filter i b = Some c" "found_day i c" "minute_range c" "0 \<le> tm_hour c" "tm_hour c \<le> 23"
    "hour_admits i (tm_hour c)" "minute_admits i (tm_min c)" "minute.key b \<le> minute.key c"
    "\<forall>z. minute.due_unit i z \<and> minute.key b \<le> minute.key z \<longrightarrow> minute.key c \<le> minute.key z"
    "if minute.key c = minute.key b then tm_sec c = tm_sec b else tm_sec c = 0"
    using apply_minute_filter_search [OF assms(1) b(2) br(1) b(4,5,6) br(2) _ due(5) [OF assms(4)]
        mi [OF bz0 br(1) rng(2) [OF due(2) [OF assms(4)]]]] br(3)
    by (auto split: if_splits)
  have c1: "tm_key b \<le> tm_key c" "tm_key c \<le> tm_key z" if "due_time i z" "tm_key b \<le> tm_key z" for z
    using filter_step_bound(1) [OF c(8,10), of 60] filter_step_bound(2) [OF c(8,10), of 60 "minute.key z" "tm_sec z"] br(1) rng(2) [OF due(2) [OF that(1)]] c(9) due(5) [OF that(1)]
      mi [OF that(2) br(1) rng(2) [OF due(2) [OF that(1)]]] that(2)
    by (simp_all add: tm_key_minute second_range_def)
  have cz0: "second.key c \<le> second.key z0" using c1(2) [OF assms(4) bz0] by (simp add: tm_key_eq)
  have cr: "0 \<le> tm_min c" "tm_min c \<le> 59" "0 \<le> tm_sec c" "tm_sec c \<le> 60"
    using c(3) by (simp_all add: minute_range_def second_range_def)
  obtain t' where t': "scheduler_apply_second_filter i c = Some t'"
    "found_day i t' \<and> 0 \<le> tm_hour t' \<and> tm_hour t' \<le> 23 \<and> hour_admits i (tm_hour t') \<and> 0 \<le> tm_min t' \<and> tm_min t' \<le> 59 \<and>
      minute_admits i (tm_min t')"
    "0 \<le> tm_sec t'" "tm_sec t' \<le> 59" "second_admits i (tm_sec t')" "tm_key c \<le> tm_key t'"
    "\<forall>z. due_time i z \<and> tm_key c \<le> tm_key z \<longrightarrow> tm_key t' \<le> tm_key z"
    using second.loop_search [OF assms(1) _ cr(3) _ due(6) [OF assms(4)] cz0] c(2,4-7) cr
    by (auto simp: tm_key_eq due_time_eq)
  have "next_time i t = Some t'"
    using a(1) b(1) c(1) t'(1) by (simp add: next_time_def apply_filters_def u_def)
  moreover have "time_listed i t'" using t'(2-5) by (simp add: time_listed_def found_day_def tod_ok_def)
  moreover have "found_day i t'" using t'(2) by blast
  moreover have "tm_key t < tm_key t'"
    using u(3) a1(1) [OF assms(4) uz0] b1(1) [OF assms(4) az0] c1(1) [OF assms(4) bz0] t'(6) by linarith
  moreover have "tm_key t' \<le> tm_key z" if z: "due_time i z" "tm_key t < tm_key z" for z
  proof -
    have "tm_key u \<le> tm_key z" using uz due(1,2) [OF z(1)] z(2) by blast
    then have "tm_key c \<le> tm_key z" using a1(2) b1(2) c1(2) z(1) by blast
    then show ?thesis using t'(7) z(1) by blast
  qed
  ultimately show ?thesis by (meson not_less)
qed


section \<open>The schedule on the calendar\<close>

text \<open>
  The times of the calendar that an interval names, without the month limit of the code: the day, the hour, the minute and
  the second are listed. The search works in 32 bit time, up to the end of 2037 and a few days; a filter of days is off by
  70 years on 29 February.
\<close>

definition calendar_listed :: "zbx_scheduler_interval \<Rightarrow> tm \<Rightarrow> bool" where
  "calendar_listed i t \<longleftrightarrow> day_listed i t \<and> hour_admits i (tm_hour t) \<and> minute_admits i (tm_min t) \<and> second_admits i (tm_sec t) \<and> tod_ok t"

definition calendar_due :: "zbx_scheduler_interval \<Rightarrow> tm \<Rightarrow> bool" where
  "calendar_due i t \<longleftrightarrow> cal_ok t \<and> calendar_listed i t"

definition before_2038 :: "tm \<Rightarrow> bool" where
  "before_2038 t \<longleftrightarrow> epoch_seconds (tm_year t + 1900) (tm_mon t + 1) (tm_mday t) 23 59 59 < 2 ^ 31"

definition leap_day :: "tm \<Rightarrow> bool" where
  "leap_day t \<longleftrightarrow> tm_mon t = 1 \<and> tm_mday t = 29"

definition names_days :: "zbx_scheduler_interval \<Rightarrow> bool" where
  "names_days i \<longleftrightarrow> si_mdays i \<noteq> [] \<or> si_wdays i \<noteq> []"

lemma month_limit_other: "tm_mon t \<noteq> 1 \<Longrightarrow> month_limit t = zbx_day_in_month (tm_year t + 1900) (tm_mon t + 1)"
  by (simp add: month_limit_def zbx_day_in_month_def)

lemma february_length: "zbx_day_in_month y 2 = (if is_leap_year y then 29 else 28)"
  by (simp add: zbx_day_in_month_def days_of_months_def)

text \<open>Seventy years after a leap year there is none.\<close>

lemma leap_seventy_years_later:
  assumes "is_leap_year (y + 70)"
  shows "\<not> is_leap_year y"
proof -
  have "(y + 70) mod 4 = 0" using assms by (simp add: is_leap_year_def)
  then have "y mod 4 \<noteq> 0" by presburger
  then show ?thesis by (simp add: is_leap_year_def)
qed

lemma within_limit_calendar:
  assumes "cal_ok t" "\<not> (names_days i \<and> leap_day t)"
  shows "within_limit i t"
proof (cases "names_days i")
  case True
  show ?thesis
  proof (cases "tm_mon t = 1")
    case feb: True
    then have "tm_mday t \<le> 29" "tm_mday t \<noteq> 29"
      using cal_ok_ranges(6) [OF assms(1)] True assms(2) february_length by (auto simp: leap_day_def split: if_splits)
    then show ?thesis using day_in_month_bounds(1) [of "tm_year t + 1970" "tm_mon t + 1"] by (simp add: within_limit_def month_limit_def)
  next
    case False
    then show ?thesis using month_limit_other [of t] cal_ok_ranges(6) [OF assms(1)] by (simp add: within_limit_def)
  qed
qed (simp add: within_limit_def names_days_def)

lemma due_time_calendar:
  assumes "calendar_due i z" "before_2038 z" "\<not> (names_days i \<and> leap_day z)"
  shows "due_time i z"
  using assms within_limit_calendar [of z i]
  by (simp add: due_time_def time_listed_def calendar_due_def calendar_listed_def before_2038_def)

text \<open>A day that the search ends at is a day of the calendar, but for a 29 February that the year 70 years later has.\<close>

lemma found_day_calendar:
  assumes "found_day i t"
  shows "if names_days i \<and> leap_day t then \<not> cal_ok t else cal_ok t"
proof -
  have r: "70 \<le> tm_year t" "0 \<le> tm_mon t" "tm_mon t \<le> 11" "1 \<le> tm_mday t" "within_limit i t"
    "\<not> names_days i \<Longrightarrow> cal_ok t"
    using assms by (simp_all add: found_day_def names_days_def)
  have lim: "tm_mday t \<le> month_limit t" if "names_days i" using r(5) that by (auto simp: within_limit_def names_days_def)
  have ok: "cal_ok t \<longleftrightarrow> tm_mday t \<le> zbx_day_in_month (tm_year t + 1900) (tm_mon t + 1)"
    using r(1-4) by (simp add: cal_ok_def valid_date_def)
  consider "\<not> names_days i" | "names_days i" "tm_mon t \<noteq> 1" | "names_days i" "tm_mon t = 1" "tm_mday t \<le> 28"
    | "names_days i" "leap_day t" "is_leap_year (tm_year t + 1900 + 70)"
    using lim february_length [of "tm_year t + 1970"] by (fastforce simp: leap_day_def month_limit_def algebra_simps split: if_splits)
  then show ?thesis
  proof cases
    case 4
    then show ?thesis using leap_seventy_years_later [of "tm_year t + 1900"] ok february_length by (auto simp: leap_day_def)
  next
    case 3
    then show ?thesis using ok day_in_month_bounds(1) [of "tm_year t + 1900" "tm_mon t + 1"] by (auto simp: leap_day_def)
  next
    case 2
    then show ?thesis using ok lim month_limit_other [of t] by (simp add: leap_day_def)
  qed (use r(6) in simp)
qed

text \<open>The answer of the search in terms of the calendar.\<close>

lemma next_time_calendar:
  assumes "interval_regular i" "cal_ok t" "tod_ok t"
    and "calendar_due i z0" "before_2038 z0" "\<not> (names_days i \<and> leap_day z0)" "tm_key t < tm_key z0"
  shows "\<exists>t'. next_time i t = Some t' \<and> calendar_listed i t' \<and> tm_key t < tm_key t' \<and>
    (if names_days i \<and> leap_day t' then \<not> cal_ok t' else cal_ok t') \<and>
    \<not> (\<exists>z. calendar_due i z \<and> before_2038 z \<and> \<not> (names_days i \<and> leap_day z) \<and> tm_key t < tm_key z \<and> tm_key z < tm_key t')"
proof -
  obtain t' where n: "next_time i t = Some t'" "time_listed i t'" "found_day i t'" "tm_key t < tm_key t'"
    "\<not> (\<exists>z. due_time i z \<and> tm_key t < tm_key z \<and> tm_key z < tm_key t')"
    using next_time_search [OF assms(1-3) due_time_calendar [OF assms(4-6)] assms(7)] by blast
  have "calendar_listed i t'" using n(2) by (simp add: time_listed_def calendar_listed_def)
  then show ?thesis using n found_day_calendar [OF n(3)] due_time_calendar by blast
qed

text \<open>C2. Take an interval whose ranges do not overlap within a chain and that does not combine a step of week days with month days.
  From a valid time on, the search ends, whenever the interval names a later time of the calendar before 19 January 2038 at all. Its answer
  is a later time that the interval names, and no time that the interval names lies between: the answer is the earliest one. Where the interval
  names days, 29 February is apart: it does not count as a time to be found, and the answer may be a 29 February that the calendar
  does not have. Every other answer is in the calendar.\<close>

theorem scheduler_next_time_least:
  assumes "interval_regular i" "cal_ok t" "tod_ok t"
    and "calendar_due i z0" "before_2038 z0" "\<not> (names_days i \<and> leap_day z0)" "tm_key t < tm_key z0"
  shows "\<exists>t'. next_time i t = Some t' \<and> calendar_listed i t' \<and> tm_key t < tm_key t' \<and>
    (cal_ok t' \<or> (names_days i \<and> leap_day t')) \<and>
    \<not> (\<exists>z. calendar_due i z \<and> before_2038 z \<and> \<not> (names_days i \<and> leap_day z) \<and> tm_key t < tm_key z \<and> tm_key z < tm_key t')"
  using next_time_calendar [OF assms] by (auto split: if_splits)

text \<open>09:00 on working days, asked on a Friday morning.\<close>

lemma scheduler_next_time_least_witness:
  defines "i \<equiv> the (scheduler_interval_parse ''wd1-5h9'' 7)"
    and "friday \<equiv> \<lparr>tm_sec = 0, tm_min = 0, tm_hour = 9, tm_mday = 5, tm_mon = 6, tm_year = 124, tm_wday = 5, tm_isdst = 0\<rparr>"
    and "monday \<equiv> \<lparr>tm_sec = 0, tm_min = 0, tm_hour = 9, tm_mday = 8, tm_mon = 6, tm_year = 124, tm_wday = 1, tm_isdst = 0\<rparr>"
  shows "\<exists>t'. next_time i friday = Some t' \<and> calendar_listed i t' \<and> tm_key friday < tm_key t' \<and> tm_key t' \<le> tm_key monday"
proof -
  have i: "i = \<lparr>si_mdays = [], si_wdays = [\<lparr>sf_start = 1, sf_end = 5, sf_step = 1\<rparr>],
      si_hours = [\<lparr>sf_start = 9, sf_end = 9, sf_step = 1\<rparr>], si_minutes = [], si_seconds = [], si_filter_level = 2\<rparr>"
  proof -
    have "scheduler_interval_parse ''wd1-5h9'' 7 = Some \<lparr>si_mdays = [], si_wdays = [\<lparr>sf_start = 1, sf_end = 5, sf_step = 1\<rparr>],
        si_hours = [\<lparr>sf_start = 9, sf_end = 9, sf_step = 1\<rparr>], si_minutes = [], si_seconds = [], si_filter_level = 2\<rparr>"
      by code_simp
    then show ?thesis by (simp add: i_def)
  qed
  have r: "interval_regular i" unfolding i by (simp add: interval_regular_def interval_ok_def filter_ok_def chain_disjoint_def)
  have c: "cal_ok friday" unfolding friday_def by code_simp
  have t: "tod_ok friday" unfolding friday_def by (simp add: tod_ok_def)
  have d: "calendar_due i monday" "before_2038 monday" "\<not> (names_days i \<and> leap_day monday)"
  proof -
    have "dow monday = 1" "cal_ok monday"
      "epoch_seconds (tm_year monday + 1900) (tm_mon monday + 1) (tm_mday monday) 23 59 59 = 1720483199"
      unfolding monday_def by code_simp+
    then show "calendar_due i monday" "before_2038 monday" "\<not> (names_days i \<and> leap_day monday)"
      unfolding calendar_due_def calendar_listed_def before_2038_def leap_day_def day_listed_def i unit_ok_def chain_has_def
        filter_has_def tod_ok_def filter_level_defs
      by (simp_all add: monday_def)
  qed
  have k: "tm_key friday < tm_key monday" by (simp add: tm_key_def friday_def monday_def)
  from scheduler_next_time_least [OF r c t d k] show ?thesis using d k by (meson not_less)
qed



end
