(* ===== verification/ItemCheck.thy ===== *)
theory ItemCheck
  imports SchedSpec
begin

text \<open>
  When an item is checked next (\<open>src/libs/zbxcommon/misc.c\<close>): the preprocessing of the update interval of an item,
  the earliest time of its scheduling intervals and \<open>calculate_item_nextcheck\<close> with its relatives. The functions of
  the C library that depend on the time zone, \<open>localtime\<close> and \<open>mktime\<close>, are parameters.
\<close>

definition ZBX_JAN_2038 :: int where
  "ZBX_JAN_2038 = 2145916800"

definition ITEM_TYPE_ZABBIX :: int where
  "ITEM_TYPE_ZABBIX = 0"

definition ITEM_TYPE_ZABBIX_ACTIVE :: int where
  "ITEM_TYPE_ZABBIX_ACTIVE = 7"

definition ITEM_STATE_NORMAL :: int where
  "ITEM_STATE_NORMAL = 0"

record zbx_custom_interval =
  ci_flexible :: "zbx_flexible_interval list"
  ci_scheduling :: "zbx_scheduler_interval list"

section \<open>Update intervals in text\<close>

text \<open>
  The loop over the custom intervals: what follows a semicolon, the interval read last (which an error message
  names) and the lists built so far. An error is the kind of the interval and its text.
\<close>

type_synonym interval_error = "string \<times> string"

function custom_intervals_loop :: "int \<Rightarrow> string \<Rightarrow> string option \<Rightarrow> zbx_flexible_interval list \<Rightarrow>
    zbx_scheduler_interval list \<Rightarrow> interval_error + string \<times> zbx_custom_interval" where
  "custom_intervals_loop simple_interval prev delim flexible scheduling =
    (case delim of
       None \<Rightarrow> Inr (prev, \<lparr>ci_flexible = flexible, ci_scheduling = scheduling\<rparr>)
     | Some str \<Rightarrow>
         let len = first_part (CHR '';'') str; part = take (nat len) str;
             delim = map_option (\<lambda>n. drop (n + 1) str) (strchr str (CHR '';''))
         in if isdigit (cchar str 0) then
              (case flexible_interval_parse str len of
                 None \<Rightarrow> Inl (''flexible'', part)
               | Some f \<Rightarrow>
                   if 0 = simple_interval \<and> 0 = fi_delay f then Inl (''flexible'', part)
                   else custom_intervals_loop simple_interval part delim (f # flexible) scheduling)
            else
              (case scheduler_interval_parse str len of
                 None \<Rightarrow> Inl (''scheduling'', part)
               | Some s \<Rightarrow> custom_intervals_loop simple_interval part delim flexible (s # scheduling)))"
  by pat_completeness auto
termination
  by (relation "measure (\<lambda>(v, prev, delim, fs, ss). case delim of None \<Rightarrow> 0 | Some s \<Rightarrow> Suc (length s))")
    (auto dest: strchr_length split: option.split)

declare custom_intervals_loop.simps [simp del]

definition zbx_interval_preproc :: "string \<Rightarrow> bool \<Rightarrow> interval_error + int \<times> zbx_custom_interval option" where
  "zbx_interval_preproc interval_str custom_wanted =
    (let delim = strchr interval_str (CHR '';'');
         part = take (nat (first_part (CHR '';'') interval_str)) interval_str
     in case is_time_suffix interval_str (case delim of None \<Rightarrow> ZBX_LENGTH_UNLIMITED | Some n \<Rightarrow> int n) of
          None \<Rightarrow> Inl (''update'', part)
        | Some simple_interval \<Rightarrow>
            if \<not> custom_wanted then Inr (simple_interval, None)
            else
              case custom_intervals_loop simple_interval part (map_option (\<lambda>n. drop (n + 1) interval_str) delim) [] [] of
                Inl e \<Rightarrow> Inl e
              | Inr (prev, custom) \<Rightarrow>
                  if (ci_flexible custom = [] \<and> ci_scheduling custom = [] \<and> 0 = simple_interval) \<or> SEC_PER_DAY < simple_interval
                  then Inl (''update'', prev)
                  else Inr (simple_interval, Some custom))"

section \<open>The earliest scheduled time\<close>

text \<open>
  The binary search for a change of daylight saving time, in minutes. The static variable \<open>time_dst\<close> of the source is
  an argument, and the result its new value.
\<close>

function dst_search :: "(int \<Rightarrow> tm) \<Rightarrow> int \<Rightarrow> int \<Rightarrow> int \<Rightarrow> int" where
  "dst_search localtime dst_start first_min end_min =
    (if first_min + 1 < end_min then
       let mid = (first_min + end_min) div 2
       in if tm_isdst (localtime (mid * 60)) = dst_start then dst_search localtime dst_start mid end_min
          else dst_search localtime dst_start first_min mid
     else end_min)"
  by pat_completeness auto
termination
  by (relation "measure (\<lambda>(localtime, d, a, b). nat (b - a))") auto

declare dst_search.simps [simp del]

definition scheduler_find_dst_change :: "(int \<Rightarrow> tm) \<Rightarrow> int \<Rightarrow> int \<Rightarrow> int \<Rightarrow> int" where
  "scheduler_find_dst_change localtime time_dst time_start time_end =
    (if time_dst < time_start \<or> time_end < time_dst
     then dst_search localtime (tm_isdst (localtime time_start)) (time_start div 60) (time_end div 60) * 60
     else time_dst)"

text \<open>The \<open>do\<close> loop: the filters are applied again while \<open>mktime\<close> refuses the time with \<open>-1\<close>.\<close>

partial_function (option) mktime_loop :: "(tm \<Rightarrow> int) \<Rightarrow> int \<Rightarrow> zbx_scheduler_interval \<Rightarrow> tm \<Rightarrow> int option" where
  "mktime_loop mktime isdst interval t =
    Option.bind (next_time interval t) (\<lambda>t.
      let t = t\<lparr>tm_isdst := isdst\<rparr>
      in if -1 = mktime t then mktime_loop mktime isdst interval t else Some (mktime t))"

declare mktime_loop.simps [code]

definition interval_nextcheck :: "(int \<Rightarrow> tm) \<Rightarrow> (tm \<Rightarrow> int) \<Rightarrow> int \<Rightarrow> zbx_scheduler_interval \<Rightarrow> int \<Rightarrow> (int \<times> int) option" where
  "interval_nextcheck localtime mktime time_dst interval now =
    (let tm_start = localtime now
     in Option.bind (mktime_loop mktime (tm_isdst tm_start) interval tm_start) (\<lambda>current_nextcheck.
          let dst = tm_isdst (localtime current_nextcheck)
          in if dst \<noteq> tm_isdst tm_start then
               let time_dst = scheduler_find_dst_change localtime time_dst now current_nextcheck
               in map_option (\<lambda>t. (mktime (t\<lparr>tm_isdst := dst\<rparr>), time_dst)) (apply_filters interval (localtime time_dst))
             else Some (current_nextcheck, time_dst)))"

fun scheduler_nextcheck_loop :: "(int \<Rightarrow> tm) \<Rightarrow> (tm \<Rightarrow> int) \<Rightarrow> int \<Rightarrow> zbx_scheduler_interval list \<Rightarrow> int \<Rightarrow> int \<Rightarrow>
    (int \<times> int) option" where
  "scheduler_nextcheck_loop localtime mktime time_dst [] now nextcheck = Some (nextcheck, time_dst)"
| "scheduler_nextcheck_loop localtime mktime time_dst (interval # rest) now nextcheck =
    Option.bind (interval_nextcheck localtime mktime time_dst interval now) (\<lambda>(current_nextcheck, time_dst).
      scheduler_nextcheck_loop localtime mktime time_dst rest now
        (if 0 = nextcheck \<or> current_nextcheck < nextcheck then current_nextcheck else nextcheck))"

definition scheduler_get_nextcheck :: "(int \<Rightarrow> tm) \<Rightarrow> (tm \<Rightarrow> int) \<Rightarrow> int \<Rightarrow> zbx_scheduler_interval list \<Rightarrow> int \<Rightarrow> (int \<times> int) option" where
  "scheduler_get_nextcheck localtime mktime time_dst intervals now =
    scheduler_nextcheck_loop localtime mktime time_dst intervals now 0"

section \<open>The next check of an item\<close>

text \<open>The inner loops add the delay until the time is after \<open>t\<close>, at first, or not before it.\<close>

partial_function (option) advance_loop :: "int \<Rightarrow> bool \<Rightarrow> int \<Rightarrow> int \<Rightarrow> int option" where
  "advance_loop delay strict t nextcheck =
    (if (if strict then nextcheck \<le> t else nextcheck < t) then advance_loop delay strict t (wrap_int (nextcheck + delay))
     else Some nextcheck)"

definition delay_nextcheck :: "u64 \<Rightarrow> int \<Rightarrow> bool \<Rightarrow> int \<Rightarrow> int option" where
  "delay_nextcheck seed delay strict t =
    (if 0 \<noteq> delay
     then advance_loop delay strict t
       (wrap_int (delay * wrap_int (t div delay) + wrap_int (uint (seed mod word_of_int delay))))
     else Some ZBX_JAN_2038)"

partial_function (option) nextcheck_loop :: "(int \<Rightarrow> tm) \<Rightarrow> u64 \<Rightarrow> int \<Rightarrow> zbx_custom_interval option \<Rightarrow> int \<Rightarrow> int \<Rightarrow> bool \<Rightarrow> int \<Rightarrow>
    int option" where
  "nextcheck_loop localtime seed simple_interval custom_intervals tmax t first_attempt nextcheck =
    (if t < tmax then
       Option.bind (delay_nextcheck seed
           (case custom_intervals of
              None \<Rightarrow> simple_interval | Some c \<Rightarrow> get_current_delay localtime simple_interval (ci_flexible c) t)
           first_attempt t)
         (\<lambda>nextcheck.
            case custom_intervals of
              None \<Rightarrow> Some nextcheck
            | Some c \<Rightarrow>
                (case get_next_delay_interval localtime (ci_flexible c) t of
                   None \<Rightarrow> Some nextcheck
                 | Some next_interval \<Rightarrow>
                     if next_interval \<le> nextcheck
                     then nextcheck_loop localtime seed simple_interval custom_intervals tmax next_interval False nextcheck
                     else Some nextcheck))
     else Some nextcheck)"

declare advance_loop.simps [code] nextcheck_loop.simps [code]

text \<open>The result is the time of the next check and the new value of the static variable of the search for a change.\<close>

definition calculate_item_nextcheck :: "(int \<Rightarrow> tm) \<Rightarrow> (tm \<Rightarrow> int) \<Rightarrow> int \<Rightarrow> u64 \<Rightarrow> int \<Rightarrow> int \<Rightarrow> zbx_custom_interval option \<Rightarrow> int \<Rightarrow>
    (int \<times> int) option" where
  "calculate_item_nextcheck localtime mktime time_dst seed item_type simple_interval custom_intervals now =
    (if ITEM_TYPE_ZABBIX_ACTIVE = item_type
     then Some (if 0 \<noteq> simple_interval then wrap_int (wrap_int now + simple_interval) else ZBX_JAN_2038, time_dst)
     else
       Option.bind
         (case custom_intervals of
            None \<Rightarrow> Some (0, time_dst)
          | Some c \<Rightarrow> scheduler_get_nextcheck localtime mktime time_dst (ci_scheduling c) now)
         (\<lambda>(scheduled_check, time_dst).
            map_option
              (\<lambda>nextcheck. (if 0 \<noteq> scheduled_check \<and> scheduled_check < nextcheck then wrap_int scheduled_check else nextcheck, time_dst))
              (nextcheck_loop localtime seed simple_interval custom_intervals (now + SEC_PER_YEAR) now True 0)))"

partial_function (option) unreachable_loop :: "(int \<Rightarrow> tm) \<Rightarrow> int \<Rightarrow> zbx_flexible_interval list \<Rightarrow> int \<Rightarrow> int \<Rightarrow> int option" where
  "unreachable_loop localtime simple_interval flexible tmax nextcheck =
    (if nextcheck < tmax then
       if 0 \<noteq> get_current_delay localtime simple_interval flexible nextcheck then Some nextcheck
       else
         case get_next_delay_interval localtime flexible nextcheck of
           None \<Rightarrow> Some ZBX_JAN_2038
         | Some next_interval \<Rightarrow> unreachable_loop localtime simple_interval flexible tmax (wrap_int next_interval)
     else Some nextcheck)"

definition calculate_item_nextcheck_unreachable :: "(int \<Rightarrow> tm) \<Rightarrow> (tm \<Rightarrow> int) \<Rightarrow> int \<Rightarrow> int \<Rightarrow> zbx_custom_interval option \<Rightarrow> int \<Rightarrow>
    (int \<times> int) option" where
  "calculate_item_nextcheck_unreachable localtime mktime time_dst simple_interval custom_intervals disable_until =
    (case custom_intervals of
       None \<Rightarrow> Some (wrap_int disable_until, time_dst)
     | Some c \<Rightarrow>
         Option.bind (scheduler_get_nextcheck localtime mktime time_dst (ci_scheduling c) disable_until)
           (\<lambda>(scheduled_check, time_dst).
              map_option
                (\<lambda>nextcheck. (if 0 \<noteq> scheduled_check \<and> scheduled_check < nextcheck then wrap_int scheduled_check else nextcheck, time_dst))
                (unreachable_loop localtime simple_interval (ci_flexible c) (disable_until + SEC_PER_YEAR) (wrap_int disable_until))))"

partial_function (option) proxy_loop :: "int \<Rightarrow> int \<Rightarrow> int \<Rightarrow> int option" where
  "proxy_loop delay now nextcheck = (if nextcheck \<le> now then proxy_loop delay now (nextcheck + delay) else Some nextcheck)"

text \<open>A delay of 0 is a division by zero, which is no return; the time is a 64 bit value, which does not overflow here.\<close>

definition calculate_proxy_nextcheck :: "u64 \<Rightarrow> u32 \<Rightarrow> int \<Rightarrow> int option" where
  "calculate_proxy_nextcheck hostid delay now =
    (if delay = 0 then None
     else
       proxy_loop (uint delay) now
         (uint delay * (now div uint delay) + uint (ucast (hostid mod ucast delay) :: u32)))"

definition calculate_sleeptime :: "int \<Rightarrow> int \<Rightarrow> int \<Rightarrow> int" where
  "calculate_sleeptime time nextcheck max_sleeptime =
    (if -1 = nextcheck then max_sleeptime
     else
       let sleeptime = wrap_int (nextcheck - wrap_int time)
       in if sleeptime < 0 then 0 else if max_sleeptime < sleeptime then max_sleeptime else sleeptime)"

definition zbx_get_agent_item_nextcheck :: "(int \<Rightarrow> tm) \<Rightarrow> (tm \<Rightarrow> int) \<Rightarrow> int \<Rightarrow> u64 \<Rightarrow> string \<Rightarrow> int \<Rightarrow> int \<Rightarrow> int \<Rightarrow>
    (ret \<times> int \<times> int) option" where
  "zbx_get_agent_item_nextcheck localtime mktime time_dst itemid delay state now refresh_unsupported =
    (if ITEM_STATE_NORMAL = state then
       case zbx_interval_preproc delay True of
         Inl e \<Rightarrow> Some (FAIL, ZBX_JAN_2038, time_dst)
       | Inr (simple_interval, custom_intervals) \<Rightarrow>
           map_option (Pair SUCCEED)
             (calculate_item_nextcheck localtime mktime time_dst itemid ITEM_TYPE_ZABBIX simple_interval custom_intervals now)
     else
       map_option (Pair SUCCEED)
         (calculate_item_nextcheck localtime mktime time_dst itemid ITEM_TYPE_ZABBIX refresh_unsupported None now))"

section \<open>Multiples of a delay\<close>

lemma congruent_unique:
  assumes "a mod d = b mod (d :: int)" "lo \<le> a" "a < lo + d" "lo \<le> b" "b < lo + d"
  shows "a = b"
proof -
  have "d dvd a - b" using assms(1) by (simp add: mod_eq_dvd_iff)
  moreover have "\<bar>a - b\<bar> < d" using assms by linarith
  ultimately show ?thesis using dvd_imp_le_int [of "a - b" d] by fastforce
qed

lemma grid_value:
  fixes d r t :: int
  assumes "0 < d" "0 \<le> r" "r < d"
  shows "(d * (t div d) + r) mod d = r" "t - d < d * (t div d) + r" "d * (t div d) + r < t + d"
proof -
  have t: "d * (t div d) + t mod d = t" by simp
  have m: "0 \<le> t mod d" "t mod d < d" using assms(1) by simp_all
  show "(d * (t div d) + r) mod d = r" using assms by simp
  show "t - d < d * (t div d) + r" "d * (t div d) + r < t + d" using t m assms by linarith+
qed

lemma seed_mod:
  assumes "0 < d" "d < 2 ^ 31"
  shows "uint ((seed :: u64) mod word_of_int d) = uint seed mod d"
proof -
  have "uint (word_of_int d :: u64) = d" using assms by (auto simp: unsigned_of_int take_bit_int_eq_self_iff)
  then show ?thesis by (simp add: uint_mod)
qed

text \<open>The first time of the grid of a delay after \<open>t\<close>, or from \<open>t\<close> on.\<close>

lemma delay_nextcheck_grid:
  assumes "0 < d" "0 \<le> t" "t + d < 2 ^ 31"
  shows "\<exists>n. delay_nextcheck seed d strict t = Some n \<and> n mod d = uint seed mod d \<and>
    (if strict then t < n \<and> n \<le> t + d else t \<le> n \<and> n < t + d)"
proof -
  define r where "r = uint seed mod d"
  have r: "0 \<le> r" "r < d" using assms(1) by (simp_all add: r_def)
  define b where "b = d * (t div d) + r"
  note g = grid_value [OF assms(1) r, of t, folded b_def]
  have "0 \<le> t div d" "t div d \<le> t" using assms(1,2) zdiv_mono2 [of t 1 d] by (simp_all add: pos_imp_zdiv_nonneg_iff)
  then have w1: "wrap_int (t div d) = t div d" using assms by (intro wrap_int_small) auto
  have w2: "wrap_int r = r" using r assms by (intro wrap_int_small) auto
  have "0 \<le> d * (t div d)" using \<open>0 \<le> t div d\<close> assms(1) by simp
  then have w3: "wrap_int b = b" using g r assms by (intro wrap_int_small) (auto simp: b_def)
  have s: "delay_nextcheck seed d strict t = advance_loop d strict t b"
    using assms(1) seed_mod [OF assms(1), of seed] assms(2,3)
    by (simp add: delay_nextcheck_def w1 w2 w3 r_def [symmetric] b_def [symmetric])
  show ?thesis
  proof (cases "if strict then b \<le> t else b < t")
    case False
    then have "advance_loop d strict t b = Some b" by (subst advance_loop.simps) simp
    then show ?thesis using s g False r_def by (intro exI [of _ b]) (simp split: if_splits)
  next
    case True
    have w4: "wrap_int (b + d) = b + d" using g True \<open>0 \<le> d * (t div d)\<close> r assms
      by (intro wrap_int_small) (auto simp: b_def split: if_splits)
    have "advance_loop d strict t b = advance_loop d strict t (b + d)"
      using True by (subst advance_loop.simps) (simp add: w4)
    also have "\<dots> = Some (b + d)" using g by (subst advance_loop.simps) auto
    finally show ?thesis using s g True r_def by (intro exI [of _ "b + d"]) (simp split: if_splits)
  qed
qed

text \<open>An item without custom intervals is checked at the one time of the next delay period that is congruent to its
  seed: the checks of an item lie a delay apart, and the seed spreads the items over the period.\<close>

theorem item_nextcheck_simple:
  assumes "item_type \<noteq> ITEM_TYPE_ZABBIX_ACTIVE" "0 < d" "0 \<le> now" "now + d < 2 ^ 31"
  shows "calculate_item_nextcheck localtime mktime time_dst seed item_type d None now = Some (n, dst) \<longleftrightarrow>
    dst = time_dst \<and> now < n \<and> n \<le> now + d \<and> n mod d = uint seed mod d"
proof -
  obtain x where x: "delay_nextcheck seed d True now = Some x" "x mod d = uint seed mod d" "now < x" "x \<le> now + d"
    using delay_nextcheck_grid [OF assms(2-4), of seed True] by auto
  have "nextcheck_loop localtime seed d None (now + SEC_PER_YEAR) now True 0 = Some x"
    by (subst nextcheck_loop.simps) (simp add: x(1) SEC_PER_YEAR_def SEC_PER_DAY_def)
  then have "calculate_item_nextcheck localtime mktime time_dst seed item_type d None now = Some (x, time_dst)"
    using assms(1) by (simp add: calculate_item_nextcheck_def)
  moreover have "n = x" if "now < n" "n \<le> now + d" "n mod d = uint seed mod d"
    by (rule congruent_unique [where lo = "now + 1" and d = d]) (use that x in auto)
  ultimately show ?thesis using x by auto
qed

lemma item_nextcheck_simple_witness:
  "calculate_item_nextcheck week_clock (\<lambda>t. 0) 0 1234 ITEM_TYPE_ZABBIX 60 None 1700000000 = Some (1700000014, 0)"
  using item_nextcheck_simple [of ITEM_TYPE_ZABBIX 60 1700000000 week_clock "\<lambda>t. 0" 0 1234 1700000014 0]
  by (simp add: ITEM_TYPE_ZABBIX_def ITEM_TYPE_ZABBIX_ACTIVE_def)

text \<open>A passive proxy is asked at the one time of the next delay period that is congruent to its host id.\<close>

theorem proxy_nextcheck_exact:
  assumes "0 < delay"
  shows "calculate_proxy_nextcheck hostid delay now = Some n \<longleftrightarrow>
    now < n \<and> n \<le> now + uint delay \<and> n mod uint delay = uint hostid mod uint delay"
proof -
  define d where "d = uint delay"
  have d: "0 < d" "d < 2 ^ 32" using assms unsigned_less [of delay] by (simp_all add: d_def word_less_def)
  define r where "r = uint hostid mod d"
  have r: "0 \<le> r" "r < d" using d by (simp_all add: r_def)
  have c: "uint (ucast delay :: u64) = d" using d by (simp add: d_def unsigned_ucast_eq take_bit_int_eq_self_iff)
  have h: "uint (hostid mod ucast delay) = r" by (simp add: uint_mod c r_def)
  have u: "uint (ucast (hostid mod ucast delay) :: u32) = r"
    using r d h by (simp add: unsigned_ucast_eq take_bit_int_eq_self_iff)
  define b where "b = d * (now div d) + r"
  note g = grid_value [OF d(1) r, of now, folded b_def]
  have z: "delay \<noteq> 0" using assms by auto
  have s: "calculate_proxy_nextcheck hostid delay now = proxy_loop d now b"
    using z by (simp add: calculate_proxy_nextcheck_def u d_def [symmetric] b_def)
  obtain x where x: "proxy_loop d now b = Some x" "x mod d = r" "now < x" "x \<le> now + d"
  proof (cases "b \<le> now")
    case False
    then have "proxy_loop d now b = Some b" by (subst proxy_loop.simps) simp
    then show ?thesis using that g False by simp
  next
    case True
    then have "proxy_loop d now b = proxy_loop d now (b + d)" by (subst proxy_loop.simps) simp
    also have "\<dots> = Some (b + d)" using g by (subst proxy_loop.simps) auto
    finally show ?thesis using that g True by simp
  qed
  have "n = x" if "now < n" "n \<le> now + d" "n mod d = r"
    by (rule congruent_unique [where lo = "now + 1" and d = d]) (use that x in auto)
  then show ?thesis using s x by (auto simp: d_def r_def)
qed

lemma proxy_nextcheck_exact_witness: "calculate_proxy_nextcheck 10084 3600 1700000000 = Some 1700002084"
  using proxy_nextcheck_exact [of 3600 10084 1700000000 1700002084] by simp

section \<open>Flexible intervals\<close>

text \<open>The times at which an item with flexible intervals is due: the delay in force there is not 0 and has the time in its grid.\<close>

definition item_due :: "(int \<Rightarrow> tm) \<Rightarrow> u64 \<Rightarrow> int \<Rightarrow> zbx_flexible_interval list \<Rightarrow> int \<Rightarrow> bool" where
  "item_due localtime seed simple fs m \<longleftrightarrow>
    (let d = get_current_delay localtime simple fs m in d \<noteq> 0 \<and> m mod d = uint seed mod d)"

definition flexible_ok :: "int \<Rightarrow> zbx_flexible_interval \<Rightarrow> bool" where
  "flexible_ok dmax f \<longleftrightarrow> period_ok (fi_period f) \<and> 0 \<le> fi_delay f \<and> fi_delay f \<le> dmax"

lemma current_delay_loop_range:
  assumes "list_all (flexible_ok dmax) fs" "c = -1 \<or> (0 \<le> c \<and> c \<le> dmax)"
  shows "current_delay_loop localtime t fs c = -1 \<or> (0 \<le> current_delay_loop localtime t fs c \<and> current_delay_loop localtime t fs c \<le> dmax)"
  using assms by (induction fs arbitrary: c) (auto simp: flexible_ok_def)

lemma get_current_delay_range:
  assumes "list_all (flexible_ok dmax) fs" "0 \<le> simple" "simple \<le> dmax"
  shows "0 \<le> get_current_delay localtime simple fs t \<and> get_current_delay localtime simple fs t \<le> dmax"
  using current_delay_loop_range [OF assms(1), of "-1" localtime t] assms(2,3) by (auto simp: get_current_delay_def Let_def)

lemma get_next_delay_interval_None:
  assumes "get_next_delay_interval localtime fs t = None" "\<forall>f\<in>set fs. period_ok (fi_period f)" "clock_ok (localtime t)"
  shows "fs = []"
proof (rule ccontr)
  assume fs: "fs \<noteq> []"
  note b = clock_bounds [OF assms(3)]
  have "0 < next_change (day_of_week (localtime t)) (time_of_day (localtime t)) (fi_period f)" if "f \<in> set fs" for f
  proof -
    have "period_ok (fi_period f)" using assms(2) that by blast
    then have "time_of_day (localtime t) < next_change (day_of_week (localtime t)) (time_of_day (localtime t)) (fi_period f)"
      using b by (intro next_change_after) simp_all
    then show ?thesis using b(3) by linarith
  qed
  from next_change_loop_min [OF this order_refl] have "next_change_loop (day_of_week (localtime t)) (time_of_day (localtime t)) fs 0 \<noteq> 0"
    using fs by blast
  then show False using assms(1) fs unfolding get_next_delay_interval_def Let_def by auto
qed

text \<open>
  The search among the delays. It ends whatever the clock does, since every step goes forward; up to the time \<open>e\<close> at which the offset
  of the time zone changes, its result is the first due time.
\<close>

lemma nextcheck_loop_due:
  assumes "list_all (flexible_ok dmax) fs" "0 \<le> simple" "simple \<le> dmax" "tmax + dmax < 2 ^ 31" "tmax \<le> ZBX_JAN_2038"
    and clock: "local_clock localtime off" "\<forall>u\<in>{now..<e}. off u = off now" and "0 \<le> now" "now \<le> t" "t < tmax \<or> t \<le> n0"
  shows "\<exists>n. nextcheck_loop localtime seed simple (Some \<lparr>ci_flexible = fs, ci_scheduling = ss\<rparr>) tmax t first_attempt n0 = Some n \<and>
    (t < tmax \<longrightarrow> (if first_attempt then t + 1 else t) \<le> n) \<and> t \<le> n \<and>
    (\<forall>m. (if first_attempt then t + 1 else t) \<le> m \<and> m < n \<and> m < tmax \<and> m < e \<longrightarrow> \<not> item_due localtime seed simple fs m) \<and>
    (n < tmax \<and> n < e \<longrightarrow> item_due localtime seed simple fs n)"
  using assms(9,10)
proof (induction "nat (tmax - t)" arbitrary: t first_attempt n0 rule: less_induct)
  case less
  have periods: "\<forall>f\<in>set fs. period_ok (fi_period f)" using assms(1) by (simp add: list_all_iff flexible_ok_def)
  define lo where "lo = (if first_attempt then t + 1 else t)"
  define c where "c = \<lparr>ci_flexible = fs, ci_scheduling = ss\<rparr>"
  show ?case
  proof (cases "t < tmax")
    case False
    then have "nextcheck_loop localtime seed simple (Some c) tmax t first_attempt n0 = Some n0"
      by (subst nextcheck_loop.simps) simp
    then show ?thesis using False less.prems unfolding c_def [symmetric] by auto
  next
    case True
    have ok: "clock_ok (localtime t)" using clock(1) by (simp add: local_clock_def)
    define d where "d = get_current_delay localtime simple fs t"
    have d: "0 \<le> d" "d \<le> dmax" using get_current_delay_range [OF assms(1-3)] by (simp_all add: d_def)
    obtain n1 where n1: "delay_nextcheck seed d first_attempt t = Some n1" "lo \<le> n1"
      "d \<noteq> 0 \<Longrightarrow> n1 mod d = uint seed mod d \<and> n1 < lo + d" "d = 0 \<Longrightarrow> n1 = ZBX_JAN_2038"
    proof (cases "d = 0")
      case True
      then have "delay_nextcheck seed d first_attempt t = Some ZBX_JAN_2038" by (simp add: delay_nextcheck_def)
      then show ?thesis using that True \<open>t < tmax\<close> assms(5) by (auto simp: lo_def)
    next
      case False
      have td: "0 \<le> t" "t + d < 2 ^ 31" using less.prems(1) assms(4,8) d True by simp_all
      show ?thesis
        using delay_nextcheck_grid [OF _ td, of seed first_attempt] d False that by (auto simp: lo_def split: if_splits)
    qed
    have tn1: "t \<le> n1" using n1(2) by (auto simp: lo_def split: if_splits)
    have grid: "\<not> (d \<noteq> 0 \<and> m mod d = uint seed mod d)" if "lo \<le> m" "m < n1" for m
      using congruent_unique [of m d n1 lo] n1(2,3) that by fastforce
    have dn: "d \<noteq> 0 \<and> n1 mod d = uint seed mod d" if "n1 < tmax"
    proof -
      have "d \<noteq> 0" using n1(4) that assms(5) by auto
      then show ?thesis using n1(3) by blast
    qed
    have eq: "nextcheck_loop localtime seed simple (Some c) tmax t first_attempt n0 =
        (case get_next_delay_interval localtime fs t of
           None \<Rightarrow> Some n1
         | Some ni \<Rightarrow> if ni \<le> n1 then nextcheck_loop localtime seed simple (Some c) tmax ni False n1 else Some n1)"
      using True by (subst nextcheck_loop.simps) (simp add: c_def d_def [symmetric] n1(1))
    show ?thesis
    proof (cases "get_next_delay_interval localtime fs t")
      case None
      then have "fs = []" using get_next_delay_interval_None [of localtime fs t] periods ok by blast
      then have dm: "get_current_delay localtime simple fs m = d" for m by (simp add: d_def get_current_delay_def)
      have "\<not> item_due localtime seed simple fs m" if "lo \<le> m" "m < n1" for m
        using grid [OF that] by (simp add: item_due_def dm)
      moreover have "n1 < tmax \<longrightarrow> item_due localtime seed simple fs n1"
        using dn by (simp add: item_due_def dm)
      ultimately show ?thesis using eq None n1(2) tn1 unfolding c_def [symmetric] lo_def by (intro exI [of _ n1]) auto
    next
      case (Some ni)
      have ni: "t < ni" using get_next_delay_interval_Some(1) [OF Some periods ok] by simp
      have dm: "get_current_delay localtime simple fs m = d" if "t \<le> m" "m < ni" "m < e" for m
      proof -
        have "m \<in> {now..<e}" "t \<in> {now..<e}" using less.prems(1) that by simp_all
        then have "off m = off t" using clock(2) [THEN bspec, of m] clock(2) [THEN bspec, of t] by (simp only:)
        then show ?thesis
          unfolding d_def using that by (intro delay_constant [OF Some periods clock_steps_same_offset [OF clock(1)]]) auto
      qed
      have nd: "\<not> item_due localtime seed simple fs m" if "lo \<le> m" "m < n1" "m < ni" "m < e" for m
        using grid [OF that(1,2)] dm [of m] that by (auto simp: item_due_def lo_def split: if_splits)
      show ?thesis
      proof (cases "ni \<le> n1")
        case False
        then have "n1 < tmax \<and> n1 < e \<longrightarrow> item_due localtime seed simple fs n1"
          using n1(2) dn dm [of n1] by (auto simp: item_due_def lo_def split: if_splits)
        then show ?thesis using eq Some False n1(2) tn1 nd unfolding c_def [symmetric] lo_def by (intro exI [of _ n1]) auto
      next
        case le: True
        have "nat (tmax - ni) < nat (tmax - t)" using ni True by simp
        from less.hyps [OF this, of n1 False] less.prems(1) ni le
        have "\<exists>n. nextcheck_loop localtime seed simple (Some c) tmax ni False n1 = Some n \<and> ni \<le> n \<and>
          (\<forall>m. ni \<le> m \<and> m < n \<and> m < tmax \<and> m < e \<longrightarrow> \<not> item_due localtime seed simple fs m) \<and>
          (n < tmax \<and> n < e \<longrightarrow> item_due localtime seed simple fs n)"
          unfolding c_def [symmetric] by (simp only: if_False) (meson order_trans less_imp_le)
        then obtain n where n: "nextcheck_loop localtime seed simple (Some c) tmax ni False n1 = Some n"
          "\<forall>m. ni \<le> m \<and> m < n \<and> m < tmax \<and> m < e \<longrightarrow> \<not> item_due localtime seed simple fs m"
          "n < tmax \<and> n < e \<longrightarrow> item_due localtime seed simple fs n" "ni \<le> n"
          by blast
        have "\<not> item_due localtime seed simple fs m" if "lo \<le> m" "m < n" "m < tmax" "m < e" for m
          using n(2) nd [of m] that le by (cases "m < ni") auto
        moreover have "lo \<le> n" "t \<le> n" using n(4) ni by (auto simp: lo_def)
        moreover have "nextcheck_loop localtime seed simple (Some c) tmax t first_attempt n0 = Some n" using eq Some le n(1) by simp
        ultimately show ?thesis using n(3) unfolding c_def [symmetric] lo_def [symmetric] by (intro exI [of _ n] conjI) blast+
      qed
    qed
  qed
qed

text \<open>C10. With flexible intervals, the search for the next check ends, however often the delay changes on the way and whatever the clock does,
  at a time after now. When that time is within a year and before the offset of the time zone changes next, it is the first one after now
  at which the delay in force is not 0 and has the time in its grid; when it is later, there is no such time within the year and before
  the change. The item is checked then, or at its scheduled time when the search of the scheduling intervals
  gives an earlier one; without scheduling intervals, then. The year has to end before 2038.\<close>

theorem item_nextcheck_flexible:
  assumes "item_type \<noteq> ITEM_TYPE_ZABBIX_ACTIVE" "list_all (flexible_ok dmax) fs" "0 \<le> simple" "simple \<le> dmax"
    and "0 \<le> now" "now + SEC_PER_YEAR + dmax < 2 ^ 31" "now + SEC_PER_YEAR \<le> ZBX_JAN_2038"
    and "local_clock localtime off" "\<forall>u\<in>{now..<e}. off u = off now"
  shows "\<exists>n. calculate_item_nextcheck localtime mktime time_dst seed item_type simple
      (Some \<lparr>ci_flexible = fs, ci_scheduling = ss\<rparr>) now =
      (case scheduler_get_nextcheck localtime mktime time_dst ss now of
         None \<Rightarrow> None | Some (s, dst) \<Rightarrow> Some (if s \<noteq> 0 \<and> s < n then wrap_int s else n, dst)) \<and>
    (ss = [] \<longrightarrow> calculate_item_nextcheck localtime mktime time_dst seed item_type simple
      (Some \<lparr>ci_flexible = fs, ci_scheduling = ss\<rparr>) now = Some (n, time_dst)) \<and>
    now < n \<and> (n < now + SEC_PER_YEAR \<and> n < e \<longrightarrow> item_due localtime seed simple fs n) \<and>
    \<not> (\<exists>m. now < m \<and> m < n \<and> m < now + SEC_PER_YEAR \<and> m < e \<and> item_due localtime seed simple fs m)"
proof -
  have y: "0 < SEC_PER_YEAR" by (simp add: SEC_PER_YEAR_def SEC_PER_DAY_def)
  have "now < now + SEC_PER_YEAR \<or> now \<le> 0" using y by simp
  from nextcheck_loop_due [where seed = seed and ss = ss and first_attempt = True, OF assms(2-4) _ assms(7-9,5) order_refl this] assms(6) y
  obtain n where n: "nextcheck_loop localtime seed simple (Some \<lparr>ci_flexible = fs, ci_scheduling = ss\<rparr>) (now + SEC_PER_YEAR) now True 0 = Some n"
    "now + 1 \<le> n" "\<forall>m. now + 1 \<le> m \<and> m < n \<and> m < now + SEC_PER_YEAR \<and> m < e \<longrightarrow> \<not> item_due localtime seed simple fs m"
    "n < now + SEC_PER_YEAR \<and> n < e \<longrightarrow> item_due localtime seed simple fs n"
    by auto
  have r: "calculate_item_nextcheck localtime mktime time_dst seed item_type simple (Some \<lparr>ci_flexible = fs, ci_scheduling = ss\<rparr>) now =
      (case scheduler_get_nextcheck localtime mktime time_dst ss now of
         None \<Rightarrow> None | Some (s, dst) \<Rightarrow> Some (if s \<noteq> 0 \<and> s < n then wrap_int s else n, dst))"
    using assms(1) n(1) by (simp add: calculate_item_nextcheck_def split: option.split)
  moreover have "scheduler_get_nextcheck localtime mktime time_dst ss now = Some (0, time_dst)" if "ss = []"
    using that by (simp add: scheduler_get_nextcheck_def)
  ultimately show ?thesis using n(2-4) by (intro exI [of _ n]) auto
qed

text \<open>
  Every 10 minutes, and every 50 seconds from Monday to Friday between 9:00 and 18:00, where the clock is put forward on the Saturday.
\<close>

lemma item_nextcheck_flexible_witness:
  defines "fs \<equiv> [\<lparr>fi_period = \<lparr>start_day = 1, end_day = 5, start_time = 32400, end_time = 64800\<rparr>, fi_delay = 50\<rparr>]"
  shows "\<exists>n. calculate_item_nextcheck (shifted_clock 800000) (\<lambda>t. 0) 0 1234 ITEM_TYPE_ZABBIX 600
      (Some \<lparr>ci_flexible = fs, ci_scheduling = []\<rparr>) 380000 = Some (n, 0) \<and> 380000 < n \<and>
    \<not> (\<exists>m. 380000 < m \<and> m < n \<and> m < 800000 \<and> item_due (shifted_clock 800000) 1234 600 fs m)"
proof -
  have fs: "list_all (flexible_ok 600) fs" by (simp add: fs_def flexible_ok_def period_ok_def)
  have y: "SEC_PER_YEAR = 31536000" by (simp add: SEC_PER_YEAR_def SEC_PER_DAY_def)
  have e: "\<forall>u\<in>{380000..<800000 :: int}. (if 800000 \<le> u then 3600 else 0 :: int) = (if (800000 :: int) \<le> 380000 then 3600 else 0)" by simp
  obtain n where "calculate_item_nextcheck (shifted_clock 800000) (\<lambda>t. 0) 0 1234 ITEM_TYPE_ZABBIX 600
      (Some \<lparr>ci_flexible = fs, ci_scheduling = []\<rparr>) 380000 = Some (n, 0)" "380000 < n"
    "\<not> (\<exists>m. 380000 < m \<and> m < n \<and> m < 380000 + SEC_PER_YEAR \<and> m < 800000 \<and> item_due (shifted_clock 800000) 1234 600 fs m)"
    using item_nextcheck_flexible [of ITEM_TYPE_ZABBIX 600 fs 600 380000 "shifted_clock 800000" _ 800000 "\<lambda>t. 0" 0 1234 "[]",
        OF _ fs _ _ _ _ _ shifted_clock_local e]
    by (auto simp: y ITEM_TYPE_ZABBIX_def ITEM_TYPE_ZABBIX_ACTIVE_def ZBX_JAN_2038_def)
  then show ?thesis unfolding y by fastforce
qed

section \<open>What the preprocessing establishes\<close>

lemma time_digits_nonneg: "time_digits s len v = Some (r, l, w) \<Longrightarrow> 0 \<le> v \<Longrightarrow> 0 \<le> w"
  by (induction s len v rule: time_digits.induct) (auto simp: Let_def split: if_splits)

lemma is_time_suffix_range:
  assumes "is_time_suffix s len = Some v"
  shows "0 \<le> v \<and> v \<le> INT_MAX_ACCEPTED"
proof -
  obtain rest left val where d: "time_digits s len 0 = Some (rest, left, val)"
    using assms unfolding is_time_suffix_def by (auto simp del: time_digits.simps split: if_splits option.splits)
  define u where "u = (if rest \<noteq> [] \<and> 0 < left then map_option (\<lambda>f. (f, tl rest, left - 1)) (time_factor (hd rest)) else Some (1, rest, left))"
  obtain factor rest' left' where u: "u = Some (factor, rest', left')"
    and f: "\<not> INT_MAX_ACCEPTED div factor < val" "v = val * factor"
    using assms unfolding is_time_suffix_def d option.case prod.case u_def [symmetric]
    by (auto simp del: time_digits.simps split: if_splits option.splits)
  have "0 < factor" using u time_factor_pos by (auto simp: u_def split: if_splits)
  then show ?thesis using time_digits_nonneg [OF d] int_div_less_iff [of factor INT_MAX_ACCEPTED val] f by simp
qed

lemma flexible_interval_parse_ok:
  assumes "flexible_interval_parse str len = Some f" "len \<le> int (length str)"
  shows "flexible_ok INT_MAX_ACCEPTED f"
proof -
  define n where "n = (case strchr (take (nat len) str) (CHR ''/'') of None \<Rightarrow> min (nat len) (length str) | Some n \<Rightarrow> n)"
  obtain d p where d: "is_time_suffix str (int n) = Some d" and l: "0 < len - int n"
    and p: "time_period_parse (drop (n + 1) str) (len - int n - 1) = Some p" and f: "f = \<lparr>fi_period = p, fi_delay = d\<rparr>"
    using assms(1) unfolding flexible_interval_parse_def n_def [symmetric] Let_def
    by (auto split: option.splits if_splits)
  have "0 \<le> len - int n - 1" "len - int n - 1 \<le> int (length (drop (n + 1) str))" using l assms(2) by simp_all
  then have "period_ok p" using p time_period_parse_exact is_period_ok by blast
  then show ?thesis using is_time_suffix_range [OF d] f by (simp add: flexible_ok_def)
qed

lemma first_part_le: "first_part c s \<le> int (length s)"
  using strchr_length [of s c] by (auto simp: first_part_def split: option.split)

lemma custom_intervals_loop_ok:
  assumes "custom_intervals_loop simple prev delim fs ss = Inr (prev', c)"
    and "list_all (flexible_ok INT_MAX_ACCEPTED) fs" "list_all interval_ok ss" "simple = 0 \<Longrightarrow> \<forall>f\<in>set fs. fi_delay f \<noteq> 0"
  shows "list_all (flexible_ok INT_MAX_ACCEPTED) (ci_flexible c) \<and> list_all interval_ok (ci_scheduling c) \<and>
    (simple = 0 \<longrightarrow> (\<forall>f\<in>set (ci_flexible c). fi_delay f \<noteq> 0))"
  using assms
proof (induction simple prev delim fs ss rule: custom_intervals_loop.induct)
  case (1 simple prev delim fs ss)
  show ?case
  proof (cases delim)
    case None
    then show ?thesis using 1 by (auto simp: custom_intervals_loop.simps)
  next
    case (Some str)
    show ?thesis
    proof (cases "isdigit (cchar str 0)")
      case True
      then obtain f where f: "flexible_interval_parse str (first_part (CHR '';'') str) = Some f" "\<not> (0 = simple \<and> 0 = fi_delay f)"
        using "1.prems"(1) Some by (subst (asm) custom_intervals_loop.simps) (auto simp: Let_def split: option.splits if_splits)
      show ?thesis
      proof (rule "1.IH"(1) [OF Some refl refl refl True f])
        show "list_all (flexible_ok INT_MAX_ACCEPTED) (f # fs)"
          using "1.prems"(2) flexible_interval_parse_ok [OF f(1) first_part_le] by simp
      qed (use "1.prems" Some True f in \<open>auto simp: custom_intervals_loop.simps [of simple prev] Let_def\<close>)
    next
      case False
      then obtain i where i: "scheduler_interval_parse str (first_part (CHR '';'') str) = Some i"
        using "1.prems"(1) Some by (subst (asm) custom_intervals_loop.simps) (auto simp: Let_def split: option.splits if_splits)
      show ?thesis
        by (rule "1.IH"(2) [OF Some refl refl refl False i])
          (use "1.prems" Some False i scheduler_interval_parse_ok [OF i] in
            \<open>auto simp: custom_intervals_loop.simps [of simple prev] Let_def\<close>)
    qed
  qed
qed

text \<open>C28. An update interval that the preprocessing accepts is ready for the scheduler: the delay lies between 0 and a day, every
  flexible interval has a valid period and a delay that fits 31 bits, every scheduling interval is well formed, and with a delay
  of 0 there is a custom interval and no flexible interval has a delay of 0. This does not say that a check ever comes: a delay other
  than 0 may be overridden all week by flexible intervals of delay 0.\<close>

theorem interval_preproc_ok:
  assumes "zbx_interval_preproc str True = Inr (simple, custom)"
  shows "\<exists>c. custom = Some c \<and> 0 \<le> simple \<and> simple \<le> SEC_PER_DAY \<and>
    list_all (flexible_ok INT_MAX_ACCEPTED) (ci_flexible c) \<and> list_all interval_ok (ci_scheduling c) \<and>
    (simple = 0 \<longrightarrow> (ci_flexible c \<noteq> [] \<or> ci_scheduling c \<noteq> []) \<and> (\<forall>f\<in>set (ci_flexible c). fi_delay f \<noteq> 0))"
proof -
  obtain len prev prev' delim c where s: "is_time_suffix str len = Some simple"
    and l: "custom_intervals_loop simple prev delim [] [] = Inr (prev', c)" and c: "custom = Some c"
    and r: "\<not> ((ci_flexible c = [] \<and> ci_scheduling c = [] \<and> 0 = simple) \<or> SEC_PER_DAY < simple)"
    using assms unfolding zbx_interval_preproc_def Let_def by (auto split: option.splits sum.splits if_splits)
  show ?thesis
    using custom_intervals_loop_ok [OF l] is_time_suffix_range [OF s] c r by auto
qed

lemma interval_preproc_ok_witness:
  "\<exists>c. snd (projr (zbx_interval_preproc ''10m;50/1-5,9:00-18:00;wd6h12'' True)) = Some c \<and>
    list_all (flexible_ok INT_MAX_ACCEPTED) (ci_flexible c) \<and> list_all interval_ok (ci_scheduling c)"
proof -
  have "\<not> isl (zbx_interval_preproc ''10m;50/1-5,9:00-18:00;wd6h12'' True)" by code_simp
  then obtain simple custom where e: "zbx_interval_preproc ''10m;50/1-5,9:00-18:00;wd6h12'' True = Inr (simple, custom)"
    by (cases "zbx_interval_preproc ''10m;50/1-5,9:00-18:00;wd6h12'' True") auto
  show ?thesis using interval_preproc_ok [OF e] e by auto
qed

section \<open>The change of daylight saving time\<close>

text \<open>The binary search for a change of daylight saving time ends, and finds the first minute at which the flag differs
  from the one at the start of the range, when the flag changes once in the range.\<close>

theorem dst_search_exact:
  assumes "\<And>m. a \<le> m \<and> m < x \<Longrightarrow> tm_isdst (localtime (m * 60)) = d"
    and "\<And>m. x \<le> m \<and> m \<le> b \<Longrightarrow> tm_isdst (localtime (m * 60)) \<noteq> d" "a < x" "x \<le> b"
  shows "dst_search localtime d a b = x"
  using assms
proof (induction "nat (b - a)" arbitrary: a b rule: less_induct)
  case less
  show ?case
  proof (cases "a + 1 < b")
    case False
    then show ?thesis using less.prems(3,4) by (subst dst_search.simps) simp
  next
    case True
    define mid where "mid = (a + b) div 2"
    have m: "a < mid" "mid < b" using True by (simp_all add: mid_def)
    have step: "dst_search localtime d a b =
        (if tm_isdst (localtime (mid * 60)) = d then dst_search localtime d mid b else dst_search localtime d a mid)"
      using True by (subst dst_search.simps) (simp add: mid_def [symmetric])
    show ?thesis
    proof (cases "mid < x")
      case lt: True
      have "dst_search localtime d mid b = x"
        by (rule less.hyps) (use lt m less.prems in auto)
      then show ?thesis using step less.prems(1) [of mid] m lt by simp
    next
      case ge: False
      have "dst_search localtime d a mid = x"
        by (rule less.hyps) (use ge m less.prems in auto)
      then show ?thesis using step less.prems(2) [of mid] m ge by simp
    qed
  qed
qed

definition summer_clock :: "int \<Rightarrow> tm" where
  "summer_clock t = (week_clock t)\<lparr>tm_isdst := (if 1711846800 \<le> t then 1 else 0)\<rparr>"

lemma dst_search_exact_witness: "dst_search summer_clock 0 28500000 28600000 = 28530780"
  by (rule dst_search_exact) (auto simp: summer_clock_def)

end
