(* ===== verification/MemAlloc.thy ===== *)
theory MemAlloc
  imports Prelude
begin

text \<open>
  The allocator for shared memory (\<open>src/libs/zbxmemory/memalloc.c\<close>, \<open>include/memalloc.h\<close>) on a platform
  with pointers of 8 bytes. Addresses and sizes are integers; the memory maps the addresses of the 8 byte words to their
  unsigned values, since every access of the allocator is one word at an address that 8 divides. \<open>NULL\<close> is 0. The
  sizes are unsigned 64 bit numbers in the source: the invariant shows that no operation but the creation leaves their
  range, and there the arithmetic is written modulo \<open>2 ^ 64\<close>.
\<close>

unbundle bit_operations_syntax

definition MEM_MIN_ALLOC :: int where
  "MEM_MIN_ALLOC = 24"

definition MEM_MIN_BUCKET_SIZE :: int where
  "MEM_MIN_BUCKET_SIZE = MEM_MIN_ALLOC"

definition MEM_MAX_BUCKET_SIZE :: int where
  "MEM_MAX_BUCKET_SIZE = 256"

definition MEM_BUCKET_COUNT :: nat where
  "MEM_BUCKET_COUNT = nat ((MEM_MAX_BUCKET_SIZE - MEM_MIN_BUCKET_SIZE) div 8 + 1)"

definition MEM_SIZE_FIELD :: int where
  "MEM_SIZE_FIELD = 8"

definition ZBX_PTR_SIZE :: int where
  "ZBX_PTR_SIZE = 8"

definition MEM_FLG_USED :: int where
  "MEM_FLG_USED = 2 ^ 63"

definition MEM_MIN_SIZE :: int where
  "MEM_MIN_SIZE = 128"

definition MEM_MAX_SIZE :: int where
  "MEM_MAX_SIZE = 0x1000000000"

lemmas mem_consts = MEM_MIN_ALLOC_def MEM_MIN_BUCKET_SIZE_def MEM_MAX_BUCKET_SIZE_def MEM_SIZE_FIELD_def ZBX_PTR_SIZE_def

record zbx_mem_info =
  mi_buckets :: "int list"
  mi_lo_bound :: int
  mi_hi_bound :: int
  mi_free_size :: int
  mi_used_size :: int
  mi_orig_size :: int
  mi_total_size :: int
  mi_allow_oom :: bool
  mi_ram :: "int \<Rightarrow> int"

text \<open>The calls of \<open>exit\<close> in the source, by their reason.\<close>

datatype mem_exit = Already_Allocated | Bad_Size | Out_Of_Memory | Null_Freed | Never_Happens

section \<open>Words and chunks\<close>

definition poke :: "int \<Rightarrow> int \<Rightarrow> zbx_mem_info \<Rightarrow> zbx_mem_info" where
  "poke a v info = info\<lparr>mi_ram := (mi_ram info)(a := v)\<rparr>"

definition FREE_CHUNK :: "zbx_mem_info \<Rightarrow> int \<Rightarrow> bool" where
  "FREE_CHUNK info p \<longleftrightarrow> mi_ram info p AND MEM_FLG_USED = 0"

definition CHUNK_SIZE :: "zbx_mem_info \<Rightarrow> int \<Rightarrow> int" where
  "CHUNK_SIZE info p = mi_ram info p AND (NOT MEM_FLG_USED)"

definition ALIGN8 :: "int \<Rightarrow> int" where
  "ALIGN8 p = (p + 7) AND (NOT 7)"

definition mem_proper_alloc_size :: "int \<Rightarrow> int" where
  "mem_proper_alloc_size sz = (if MEM_MIN_ALLOC \<le> sz then sz + ((8 - (sz AND 7)) AND 7) else MEM_MIN_ALLOC)"

definition mem_bucket_by_size :: "int \<Rightarrow> nat" where
  "mem_bucket_by_size sz =
    (if sz < MEM_MIN_BUCKET_SIZE then 0
     else if sz < MEM_MAX_BUCKET_SIZE then nat (drop_bit 3 (sz - MEM_MIN_BUCKET_SIZE))
     else MEM_BUCKET_COUNT - 1)"

definition mem_set_chunk_size :: "int \<Rightarrow> int \<Rightarrow> zbx_mem_info \<Rightarrow> zbx_mem_info" where
  "mem_set_chunk_size chunk sz info = poke (chunk + MEM_SIZE_FIELD + sz) sz (poke chunk sz info)"

definition mem_set_used_chunk_size :: "int \<Rightarrow> int \<Rightarrow> zbx_mem_info \<Rightarrow> zbx_mem_info" where
  "mem_set_used_chunk_size chunk sz info =
    poke (chunk + MEM_SIZE_FIELD + sz) (MEM_FLG_USED OR sz) (poke chunk (MEM_FLG_USED OR sz) info)"

definition mem_get_prev_chunk :: "zbx_mem_info \<Rightarrow> int \<Rightarrow> int" where
  "mem_get_prev_chunk info chunk = mi_ram info (chunk + MEM_SIZE_FIELD)"

definition mem_set_prev_chunk :: "int \<Rightarrow> int \<Rightarrow> zbx_mem_info \<Rightarrow> zbx_mem_info" where
  "mem_set_prev_chunk chunk p = poke (chunk + MEM_SIZE_FIELD) p"

definition mem_get_next_chunk :: "zbx_mem_info \<Rightarrow> int \<Rightarrow> int" where
  "mem_get_next_chunk info chunk = mi_ram info (chunk + MEM_SIZE_FIELD + ZBX_PTR_SIZE)"

definition mem_set_next_chunk :: "int \<Rightarrow> int \<Rightarrow> zbx_mem_info \<Rightarrow> zbx_mem_info" where
  "mem_set_next_chunk chunk n = poke (chunk + MEM_SIZE_FIELD + ZBX_PTR_SIZE) n"

definition set_bucket :: "nat \<Rightarrow> int \<Rightarrow> zbx_mem_info \<Rightarrow> zbx_mem_info" where
  "set_bucket i p info = info\<lparr>mi_buckets := (mi_buckets info)[i := p]\<rparr>"

definition mem_link_chunk :: "int \<Rightarrow> zbx_mem_info \<Rightarrow> zbx_mem_info" where
  "mem_link_chunk chunk info =
    (let index = mem_bucket_by_size (CHUNK_SIZE info chunk);
         head = mi_buckets info ! index;
         info = (if 0 \<noteq> head then mem_set_prev_chunk head chunk info else info)
     in set_bucket index chunk (mem_set_next_chunk chunk head (mem_set_prev_chunk chunk 0 info)))"

text \<open>The pointers of the source to the field that points to the chunk: a word of a neighbour in the list, or the bucket.\<close>

definition mem_unlink_chunk :: "int \<Rightarrow> zbx_mem_info \<Rightarrow> zbx_mem_info" where
  "mem_unlink_chunk chunk info =
    (let index = mem_bucket_by_size (CHUNK_SIZE info chunk);
         prev_chunk = mem_get_prev_chunk info chunk;
         next_chunk = mem_get_next_chunk info chunk;
         info = (if 0 \<noteq> prev_chunk then mem_set_next_chunk prev_chunk next_chunk info else set_bucket index next_chunk info)
     in if 0 \<noteq> next_chunk then mem_set_prev_chunk next_chunk prev_chunk info else info)"

section \<open>Allocation\<close>

function bucket_scan :: "int list \<Rightarrow> nat \<Rightarrow> nat" where
  "bucket_scan buckets index =
    (if index < MEM_BUCKET_COUNT - 1 \<and> 0 = buckets ! index then bucket_scan buckets (index + 1) else index)"
  by pat_completeness auto
termination by (relation "measure (\<lambda>(buckets, index). MEM_BUCKET_COUNT - index)") auto

declare bucket_scan.simps [simp del]

text \<open>The first chunk of a list that is big enough: \<open>None\<close> would be a list without an end.\<close>

partial_function (option) first_fit :: "zbx_mem_info \<Rightarrow> int \<Rightarrow> int \<Rightarrow> int option" where
  "first_fit info sz chunk =
    (if 0 \<noteq> chunk \<and> CHUNK_SIZE info chunk < sz then first_fit info sz (mem_get_next_chunk info chunk) else Some chunk)"

declare first_fit.simps [code]

definition mem_find_chunk :: "zbx_mem_info \<Rightarrow> int \<Rightarrow> int option" where
  "mem_find_chunk info sz =
    (let index = bucket_scan (mi_buckets info) (mem_bucket_by_size sz); chunk = mi_buckets info ! index
     in if index = MEM_BUCKET_COUNT - 1 then first_fit info sz chunk else Some chunk)"

text \<open>Either use the full chunk, which has been unlinked, or split it.\<close>

definition mem_use_chunk :: "int \<Rightarrow> int \<Rightarrow> int \<Rightarrow> zbx_mem_info \<Rightarrow> zbx_mem_info" where
  "mem_use_chunk chunk chunk_size sz info =
    (if chunk_size < sz + 2 * MEM_SIZE_FIELD + MEM_MIN_ALLOC then
       mem_set_used_chunk_size chunk chunk_size
         (info\<lparr>mi_used_size := mi_used_size info + chunk_size, mi_free_size := mi_free_size info - chunk_size\<rparr>)
     else
       let new_chunk = chunk + MEM_SIZE_FIELD + sz + MEM_SIZE_FIELD;
           new_chunk_size = chunk_size - sz - 2 * MEM_SIZE_FIELD;
           info = mem_link_chunk new_chunk (mem_set_chunk_size new_chunk new_chunk_size info)
       in mem_set_used_chunk_size chunk sz
            (info\<lparr>mi_used_size := mi_used_size info + sz, mi_free_size := mi_free_size info - chunk_size + new_chunk_size\<rparr>))"

definition mem_malloc :: "zbx_mem_info \<Rightarrow> int \<Rightarrow> (int \<times> zbx_mem_info) option" where
  "mem_malloc info sz =
    (let sz = mem_proper_alloc_size sz
     in map_option (\<lambda>chunk.
          if 0 = chunk then (0, info)
          else (chunk, mem_use_chunk chunk (CHUNK_SIZE info chunk) sz (mem_unlink_chunk chunk info)))
        (mem_find_chunk info sz))"

section \<open>Release\<close>

definition mem_free :: "int \<Rightarrow> zbx_mem_info \<Rightarrow> zbx_mem_info" where
  "mem_free ptr info =
    (let chunk = ptr - MEM_SIZE_FIELD;
         chunk_size = CHUNK_SIZE info chunk;
         info = info\<lparr>mi_used_size := mi_used_size info - chunk_size, mi_free_size := mi_free_size info + chunk_size\<rparr>;
         next_chunk = chunk + MEM_SIZE_FIELD + chunk_size + MEM_SIZE_FIELD;
         prev_free = (mi_lo_bound info < chunk \<and> FREE_CHUNK info (chunk - MEM_SIZE_FIELD));
         next_free = (next_chunk < mi_hi_bound info \<and> FREE_CHUNK info next_chunk);
         prev_chunk = chunk - MEM_SIZE_FIELD - CHUNK_SIZE info (chunk - MEM_SIZE_FIELD) - MEM_SIZE_FIELD
     in if prev_free \<and> next_free then
          let info = info\<lparr>mi_free_size := mi_free_size info + 4 * MEM_SIZE_FIELD\<rparr>;
              chunk_size = chunk_size + (4 * MEM_SIZE_FIELD + CHUNK_SIZE info prev_chunk + CHUNK_SIZE info next_chunk);
              info = mem_unlink_chunk next_chunk (mem_unlink_chunk prev_chunk info)
          in mem_link_chunk prev_chunk (mem_set_chunk_size prev_chunk chunk_size info)
        else if prev_free then
          let info = info\<lparr>mi_free_size := mi_free_size info + 2 * MEM_SIZE_FIELD\<rparr>;
              chunk_size = chunk_size + (2 * MEM_SIZE_FIELD + CHUNK_SIZE info prev_chunk);
              info = mem_unlink_chunk prev_chunk info
          in mem_link_chunk prev_chunk (mem_set_chunk_size prev_chunk chunk_size info)
        else if next_free then
          let info = info\<lparr>mi_free_size := mi_free_size info + 2 * MEM_SIZE_FIELD\<rparr>;
              chunk_size = chunk_size + (2 * MEM_SIZE_FIELD + CHUNK_SIZE info next_chunk);
              info = mem_unlink_chunk next_chunk info
          in mem_link_chunk chunk (mem_set_chunk_size chunk chunk_size info)
        else mem_link_chunk chunk (mem_set_chunk_size chunk chunk_size info))"

section \<open>Reallocation\<close>

text \<open>\<open>memcpy\<close> of whole words from a memory that it does not change.\<close>

definition mem_copy :: "(int \<Rightarrow> int) \<Rightarrow> int \<Rightarrow> int \<Rightarrow> int \<Rightarrow> zbx_mem_info \<Rightarrow> zbx_mem_info" where
  "mem_copy ram dst src n info =
    info\<lparr>mi_ram := \<lambda>a. if dst \<le> a \<and> a < dst + n then ram (src + (a - dst)) else mi_ram info a\<rparr>"

text \<open>The two cases in which the block stays where it is: less memory, and more memory from the next chunk.\<close>

definition mem_shrink :: "int \<Rightarrow> int \<Rightarrow> int \<Rightarrow> zbx_mem_info \<Rightarrow> zbx_mem_info" where
  "mem_shrink chunk chunk_size sz info =
    (let next_chunk = chunk + MEM_SIZE_FIELD + chunk_size + MEM_SIZE_FIELD;
         next_free = (next_chunk < mi_hi_bound info \<and> FREE_CHUNK info next_chunk);
         new_chunk = chunk + MEM_SIZE_FIELD + sz + MEM_SIZE_FIELD
     in if next_free then
          let info = info\<lparr>mi_used_size := mi_used_size info - (chunk_size - sz),
                mi_free_size := mi_free_size info + (chunk_size - sz)\<rparr>;
              new_chunk_size = CHUNK_SIZE info next_chunk + (chunk_size - sz);
              info = mem_unlink_chunk next_chunk info;
              info = mem_link_chunk new_chunk (mem_set_chunk_size new_chunk new_chunk_size info)
          in mem_set_used_chunk_size chunk sz info
        else
          let info = info\<lparr>mi_used_size := mi_used_size info - (chunk_size - sz),
                mi_free_size := mi_free_size info + (chunk_size - sz - 2 * MEM_SIZE_FIELD)\<rparr>;
              new_chunk_size = chunk_size - sz - 2 * MEM_SIZE_FIELD;
              info = mem_link_chunk new_chunk (mem_set_chunk_size new_chunk new_chunk_size info)
          in mem_set_used_chunk_size chunk sz info)"

definition mem_grow :: "int \<Rightarrow> int \<Rightarrow> int \<Rightarrow> zbx_mem_info \<Rightarrow> zbx_mem_info" where
  "mem_grow chunk chunk_size sz info =
    (let next_chunk = chunk + MEM_SIZE_FIELD + chunk_size + MEM_SIZE_FIELD;
         info = info\<lparr>mi_used_size := mi_used_size info - chunk_size,
           mi_free_size := mi_free_size info + (chunk_size + 2 * MEM_SIZE_FIELD)\<rparr>;
         chunk_size = chunk_size + (2 * MEM_SIZE_FIELD + CHUNK_SIZE info next_chunk)
     in mem_use_chunk chunk chunk_size sz (mem_unlink_chunk next_chunk info))"

text \<open>The last case: the block is copied out of the shared memory, freed, and allocated again.\<close>

definition mem_move :: "int \<Rightarrow> int \<Rightarrow> int \<Rightarrow> bool \<Rightarrow> zbx_mem_info \<Rightarrow> (mem_exit + int \<times> zbx_mem_info) option" where
  "mem_move chunk chunk_size sz next_free info =
    (let next_chunk = chunk + MEM_SIZE_FIELD + chunk_size + MEM_SIZE_FIELD;
         new_chunk_size = chunk_size;
         new_chunk_size = (if next_free then new_chunk_size + (CHUNK_SIZE info next_chunk + 2 * MEM_SIZE_FIELD) else new_chunk_size);
         new_chunk_size = (if mi_lo_bound info < chunk \<and> FREE_CHUNK info (chunk - MEM_SIZE_FIELD)
           then new_chunk_size + (CHUNK_SIZE info (chunk - MEM_SIZE_FIELD) + 2 * MEM_SIZE_FIELD) else new_chunk_size)
     in if new_chunk_size < sz then Some (Inr (0, info))
        else
          map_option (\<lambda>(new_chunk, info').
              if 0 = new_chunk then Inl Never_Happens
              else Inr (new_chunk, mem_copy (mi_ram info) (new_chunk + MEM_SIZE_FIELD) (chunk + MEM_SIZE_FIELD) chunk_size info'))
            (mem_malloc (mem_free (chunk + MEM_SIZE_FIELD) info) sz))"

definition mem_realloc :: "zbx_mem_info \<Rightarrow> int \<Rightarrow> int \<Rightarrow> (mem_exit + int \<times> zbx_mem_info) option" where
  "mem_realloc info old sz =
    (let sz = mem_proper_alloc_size sz;
         chunk = old - MEM_SIZE_FIELD;
         chunk_size = CHUNK_SIZE info chunk;
         next_chunk = chunk + MEM_SIZE_FIELD + chunk_size + MEM_SIZE_FIELD;
         next_free = (next_chunk < mi_hi_bound info \<and> FREE_CHUNK info next_chunk)
     in if sz \<le> chunk_size then
          if chunk_size div 4 < sz then Some (Inr (chunk, info)) else Some (Inr (chunk, mem_shrink chunk chunk_size sz info))
        else if next_free \<and> sz \<le> chunk_size + 2 * MEM_SIZE_FIELD + CHUNK_SIZE info next_chunk then
          Some (Inr (chunk, mem_grow chunk chunk_size sz info))
        else
          Option.bind (mem_malloc info sz) (\<lambda>(new_chunk, info').
            if 0 \<noteq> new_chunk then
              Some (Inr (new_chunk, mem_free old
                (mem_copy (mi_ram info') (new_chunk + MEM_SIZE_FIELD) (chunk + MEM_SIZE_FIELD) chunk_size info')))
            else mem_move chunk chunk_size sz next_free info'))"

section \<open>The public interface\<close>

definition SIZEOF_MEM_INFO :: int where
  "SIZEOF_MEM_INFO = 80"

text \<open>
  The part of the shared memory that \<open>zbx_mem_create\<close> gives to its own structures, and the one big chunk that it
  makes of the rest. The memory, its address and the lengths of the two texts that are stored there are arguments; a
  failure to get the memory is \<open>None\<close>, as is a size out of bounds.
\<close>

definition mem_init_chunk :: "zbx_mem_info \<Rightarrow> zbx_mem_info" where
  "mem_init_chunk info =
    (let info = info\<lparr>mi_buckets := (replicate MEM_BUCKET_COUNT 0)[mem_bucket_by_size (mi_total_size info) := mi_lo_bound info]\<rparr>;
         chunk = mi_lo_bound info;
         info = mem_set_next_chunk chunk 0 (mem_set_prev_chunk chunk 0 (mem_set_chunk_size chunk (mi_total_size info) info))
     in info\<lparr>mi_used_size := 0, mi_free_size := mi_total_size info\<rparr>)"

definition zbx_mem_create :: "int option \<Rightarrow> (int \<Rightarrow> int) \<Rightarrow> int \<Rightarrow> nat \<Rightarrow> nat \<Rightarrow> bool \<Rightarrow> zbx_mem_info option" where
  "zbx_mem_create shmat ram orig_size descr_len param_len allow_oom =
    (if \<not> (MEM_MIN_SIZE \<le> orig_size \<and> orig_size \<le> MEM_MAX_SIZE) then None
     else
       map_option (\<lambda>base.
         let info = ALIGN8 base;
             sz = (orig_size - (info + SIZEOF_MEM_INFO - base)) mod 2 ^ 64;
             base = info + SIZEOF_MEM_INFO;
             buckets = ALIGN8 base;
             sz = (sz - (buckets + ZBX_PTR_SIZE * int MEM_BUCKET_COUNT - base)) mod 2 ^ 64;
             base = buckets + ZBX_PTR_SIZE * int MEM_BUCKET_COUNT;
             sz = (sz - int (descr_len + 1)) mod 2 ^ 64;
             base = base + int (descr_len + 1);
             sz = (sz - int (param_len + 1)) mod 2 ^ 64;
             base = base + int (param_len + 1);
             lo = ALIGN8 base;
             hi = ALIGN8 ((base + sz - 8) mod 2 ^ 64);
             total = (hi - lo - 2 * MEM_SIZE_FIELD) mod 2 ^ 64
         in mem_init_chunk \<lparr>mi_buckets = replicate MEM_BUCKET_COUNT 0, mi_lo_bound = lo, mi_hi_bound = hi,
              mi_free_size = 0, mi_used_size = 0, mi_orig_size = orig_size, mi_total_size = total,
              mi_allow_oom = allow_oom, mi_ram = ram\<rparr>)
       shmat)"

definition zbx_mem_clear :: "zbx_mem_info \<Rightarrow> zbx_mem_info" where
  "zbx_mem_clear info = mem_init_chunk info"

text \<open>A pointer to the memory, or 0, and the new state; or the reason of the exit.\<close>

definition mem_result :: "bool \<Rightarrow> int \<times> zbx_mem_info \<Rightarrow> mem_exit + int \<times> zbx_mem_info" where
  "mem_result allow_oom r =
    (case r of (chunk, info) \<Rightarrow>
       if 0 = chunk then (if allow_oom then Inr (0, info) else Inl Out_Of_Memory) else Inr (chunk + MEM_SIZE_FIELD, info))"

definition zbx_mem_malloc :: "zbx_mem_info \<Rightarrow> int \<Rightarrow> int \<Rightarrow> (mem_exit + int \<times> zbx_mem_info) option" where
  "zbx_mem_malloc info old sz =
    (if 0 \<noteq> old then Some (Inl Already_Allocated)
     else if 0 = sz \<or> MEM_MAX_SIZE < sz then Some (Inl Bad_Size)
     else map_option (mem_result (mi_allow_oom info)) (mem_malloc info sz))"

definition zbx_mem_realloc :: "zbx_mem_info \<Rightarrow> int \<Rightarrow> int \<Rightarrow> (mem_exit + int \<times> zbx_mem_info) option" where
  "zbx_mem_realloc info old sz =
    (if 0 = sz \<or> MEM_MAX_SIZE < sz then Some (Inl Bad_Size)
     else if 0 = old then map_option (mem_result (mi_allow_oom info)) (mem_malloc info sz)
     else map_option (\<lambda>r. case r of Inl e \<Rightarrow> Inl e | Inr r \<Rightarrow> mem_result (mi_allow_oom info) r) (mem_realloc info old sz))"

definition zbx_mem_free :: "zbx_mem_info \<Rightarrow> int \<Rightarrow> mem_exit + zbx_mem_info" where
  "zbx_mem_free info ptr = (if 0 = ptr then Inl Null_Freed else Inr (mem_free ptr info))"

section \<open>Statistics and requirements\<close>

record zbx_mem_stats =
  ms_free_size :: int
  ms_used_size :: int
  ms_min_chunk_size :: int
  ms_max_chunk_size :: int
  ms_overhead :: int
  ms_chunks_num :: "nat list"
  ms_free_chunks :: nat
  ms_used_chunks :: int

partial_function (option) stats_chain :: "zbx_mem_info \<Rightarrow> int \<Rightarrow> nat \<times> int \<times> int \<Rightarrow> (nat \<times> int \<times> int) option" where
  "stats_chain info chunk acc =
    (if 0 \<noteq> chunk then
       (case acc of (counter, lo, hi) \<Rightarrow>
          stats_chain info (mem_get_next_chunk info chunk)
            (counter + 1, min lo (CHUNK_SIZE info chunk), max hi (CHUNK_SIZE info chunk)))
     else Some acc)"

declare stats_chain.simps [code]

fun stats_buckets :: "zbx_mem_info \<Rightarrow> int list \<Rightarrow> int \<times> int \<Rightarrow> (nat list \<times> int \<times> int) option" where
  "stats_buckets info [] (lo, hi) = Some ([], lo, hi)"
| "stats_buckets info (chunk # buckets) (lo, hi) =
    Option.bind (stats_chain info chunk (0, lo, hi)) (\<lambda>(counter, lo, hi).
      map_option (\<lambda>(counters, lo, hi). (counter # counters, lo, hi)) (stats_buckets info buckets (lo, hi)))"

definition zbx_mem_get_stats :: "zbx_mem_info \<Rightarrow> zbx_mem_stats option" where
  "zbx_mem_get_stats info =
    map_option (\<lambda>(counters, lo, hi).
        let overhead = mi_total_size info - mi_used_size info - mi_free_size info; free_chunks = sum_list counters
        in \<lparr>ms_free_size = mi_free_size info, ms_used_size = mi_used_size info, ms_min_chunk_size = lo,
             ms_max_chunk_size = hi, ms_overhead = overhead, ms_chunks_num = counters, ms_free_chunks = free_chunks,
             ms_used_chunks = overhead div (2 * MEM_SIZE_FIELD) + 1 - int free_chunks\<rparr>)
      (stats_buckets info (mi_buckets info) (2 ^ 64 - 1, 0))"

definition zbx_mem_required_size :: "int \<Rightarrow> nat \<Rightarrow> nat \<Rightarrow> int" where
  "zbx_mem_required_size chunks_num descr_len param_len =
    7 + SIZEOF_MEM_INFO + (ZBX_PTR_SIZE - 1) + ZBX_PTR_SIZE * int MEM_BUCKET_COUNT + int (descr_len + 1) +
      int (param_len + 1) + ((MEM_SIZE_FIELD - 1) + 8) + ((MEM_SIZE_FIELD - 1) + 8) +
      (chunks_num - 1) * MEM_SIZE_FIELD * 2 + chunks_num * (MEM_MIN_ALLOC - 1)"

definition zbx_mem_required_chunk_size :: "int \<Rightarrow> int" where
  "zbx_mem_required_chunk_size sz = (if 0 = sz then 0 else mem_proper_alloc_size sz + MEM_SIZE_FIELD * 2)"

end
