(* ===== verification/MemLists.thy ===== *)
theory MemLists
  imports MemAlloc
begin

text \<open>
  The lists of free chunks of the shared memory allocator: doubly linked lists through the chunks, one for each bucket.
  \<open>lists_ok\<close> ties the words of the memory to a map from the addresses of the linked chunks to their sizes; linking and
  unlinking a chunk are updates of that map, and the search for a chunk is a search in it.
\<close>

section \<open>Sizes and flags\<close>

lemma and_7: "x AND 7 = x mod 8" for x :: int
  using take_bit_eq_mask [of 3 x] by (simp add: take_bit_eq_mod mask_eq_exp_minus_1)

lemma and_not_7: "x AND (NOT 7) = 8 * (x div 8)" for x :: int
proof -
  have "x AND (NOT (mask 3)) = push_bit 3 (drop_bit 3 x)" by (rule bit_eqI) (auto simp: bit_simps)
  then show ?thesis by (simp add: mask_eq_exp_minus_1 push_bit_eq_mult drop_bit_eq_div)
qed

lemma no_high_bit: "0 \<le> v \<Longrightarrow> v < 2 ^ k \<Longrightarrow> \<not> bit v k" for v :: int
  by (simp add: bit_iff_odd)

lemma flag_arith:
  fixes v :: int
  assumes "0 \<le> v" "v < 2 ^ k"
  shows "v AND 2 ^ k = 0" "v AND (NOT (2 ^ k)) = v" "(2 ^ k OR v) AND 2 ^ k = 2 ^ k" "(2 ^ k OR v) AND (NOT (2 ^ k)) = v"
    "2 ^ k OR v = 2 ^ k + v"
proof -
  note b = no_high_bit [OF assms]
  show "v AND 2 ^ k = 0" "v AND (NOT (2 ^ k)) = v" "(2 ^ k OR v) AND 2 ^ k = 2 ^ k" "(2 ^ k OR v) AND (NOT (2 ^ k)) = v"
    using b by (auto intro!: bit_eqI simp: bit_and_iff bit_or_iff bit_not_iff bit_exp_iff)
  have "2 ^ k + v = 2 ^ k OR v" using b by (intro disjunctive_add) (auto simp: bit_simps)
  then show "2 ^ k OR v = 2 ^ k + v" by simp
qed

definition size_word :: "int \<Rightarrow> bool \<Rightarrow> int" where
  "size_word sz used = (if used then MEM_FLG_USED OR sz else sz)"

lemma size_word_size: "0 \<le> sz \<Longrightarrow> sz < 2 ^ 63 \<Longrightarrow> size_word sz u AND (NOT MEM_FLG_USED) = sz"
  and size_word_free: "0 \<le> sz \<Longrightarrow> sz < 2 ^ 63 \<Longrightarrow> size_word sz u AND MEM_FLG_USED = 0 \<longleftrightarrow> \<not> u"
  unfolding size_word_def MEM_FLG_USED_def using flag_arith [of sz 63] by (auto simp del: power_numeral)

lemma proper_size:
  "sz \<le> mem_proper_alloc_size sz" "MEM_MIN_ALLOC \<le> mem_proper_alloc_size sz" "mem_proper_alloc_size sz mod 8 = 0"
  "1 \<le> sz \<Longrightarrow> mem_proper_alloc_size sz \<le> sz + 23"
proof -
  have "(sz + (8 - sz mod 8) mod 8) mod 8 = 0" by presburger
  moreover have "0 \<le> (8 - sz mod 8) mod 8" "(8 - sz mod 8) mod 8 < 8" by (rule pos_mod_sign pos_mod_bound, simp)+
  ultimately show "sz \<le> mem_proper_alloc_size sz" "MEM_MIN_ALLOC \<le> mem_proper_alloc_size sz" "mem_proper_alloc_size sz mod 8 = 0"
    "1 \<le> sz \<Longrightarrow> mem_proper_alloc_size sz \<le> sz + 23"
    by (auto simp: mem_proper_alloc_size_def mem_consts and_7)
qed

lemma MEM_BUCKET_COUNT_eq: "MEM_BUCKET_COUNT = 30"
  by (simp add: MEM_BUCKET_COUNT_def mem_consts)

lemma bucket_eq: "mem_bucket_by_size sz = (if sz < 24 then 0 else if sz < 256 then nat ((sz - 24) div 8) else 29)"
  by (simp add: mem_bucket_by_size_def mem_consts MEM_BUCKET_COUNT_eq drop_bit_eq_div)

lemma bucket_less: "mem_bucket_by_size sz < 30"
proof -
  have "sz < 256 \<Longrightarrow> (sz - 24) div 8 < 30" by simp
  then have "sz < 256 \<Longrightarrow> nat ((sz - 24) div 8) < 30" by linarith
  then show ?thesis by (simp add: bucket_eq)
qed

section \<open>Doubly linked lists\<close>

fun dll :: "(int \<Rightarrow> int) \<Rightarrow> int \<Rightarrow> int \<Rightarrow> int list \<Rightarrow> bool" where
  "dll r prv p [] \<longleftrightarrow> p = 0"
| "dll r prv p (a # as) \<longleftrightarrow> p = a \<and> a \<noteq> 0 \<and> r (a + 8) = prv \<and> dll r a (r (a + 16)) as"

text \<open>Addresses of chunks, whose pointer fields do not overlap.\<close>

definition spaced :: "int set \<Rightarrow> bool" where
  "spaced S \<longleftrightarrow> (\<forall>p\<in>S. 0 < p \<and> (\<forall>q\<in>S. p \<noteq> q \<longrightarrow> p + 24 \<le> q \<or> q + 24 \<le> p))"

lemma spaced_fields:
  assumes "spaced S" "p \<in> S" "q \<in> S"
  shows "p + 8 = q + 8 \<longleftrightarrow> p = q" "p + 16 = q + 16 \<longleftrightarrow> p = q" "p + 8 \<noteq> q + 16"
proof -
  have "p \<noteq> q \<Longrightarrow> p + 24 \<le> q \<or> q + 24 \<le> p" using assms unfolding spaced_def by blast
  then show "p + 8 = q + 8 \<longleftrightarrow> p = q" "p + 16 = q + 16 \<longleftrightarrow> p = q" "p + 8 \<noteq> q + 16" by auto
qed

lemma spaced_subset: "spaced S \<Longrightarrow> T \<subseteq> S \<Longrightarrow> spaced T"
  unfolding spaced_def by blast

lemma dll_frame:
  "dll r prv p as \<Longrightarrow> (\<And>a. a \<in> set as \<Longrightarrow> r' (a + 8) = r (a + 8) \<and> r' (a + 16) = r (a + 16)) \<Longrightarrow> dll r' prv p as"
  by (induction r prv p as rule: dll.induct) auto

lemma dll_zero: "dll r prv 0 as \<longleftrightarrow> as = []"
  by (cases as) auto

text \<open>The first chunk of a list gets another predecessor.\<close>

lemma dll_set_prev:
  assumes "dll r prv p as" "spaced (set as)" "distinct as"
  shows "dll (if p \<noteq> 0 then r(p + 8 := new) else r) new p as"
proof (cases as)
  case Nil
  then show ?thesis using assms by simp
next
  case (Cons a bs)
  have "dll (r(a + 8 := new)) a (r (a + 16)) bs"
  proof (rule dll_frame)
    show "dll r a (r (a + 16)) bs" using assms(1) Cons by simp
    show "\<And>b. b \<in> set bs \<Longrightarrow> (r(a + 8 := new)) (b + 8) = r (b + 8) \<and> (r(a + 8 := new)) (b + 16) = r (b + 16)"
      using assms(2,3) Cons spaced_fields [OF assms(2), of a] by (auto simp: spaced_def)
  qed
  then show ?thesis using assms(1) Cons by simp
qed

lemma dll_push:
  assumes "dll r 0 p as" "spaced (insert a (set as))" "distinct as" "a \<notin> set as"
  defines "r1 \<equiv> if p \<noteq> 0 then r(p + 8 := a) else r"
  shows "dll (r1(a + 8 := 0, a + 16 := p)) 0 a (a # as)"
proof -
  have s: "spaced (set as)" using assms(2) by (rule spaced_subset) auto
  have "dll (r1(a + 8 := 0, a + 16 := p)) a p as"
    by (rule dll_frame [OF dll_set_prev [OF assms(1) s assms(3), of a, folded r1_def]])
      (use assms(2,4) spaced_fields [OF assms(2), of a] in \<open>auto simp: spaced_def\<close>)
  moreover have "a \<noteq> 0" using assms(2) by (auto simp: spaced_def)
  ultimately show ?thesis by simp
qed

lemma dll_suffix: "dll r prv p (xs @ a # ys) \<Longrightarrow> a \<noteq> 0 \<and> dll r a (r (a + 16)) ys"
  by (induction xs arbitrary: prv p) auto

lemma dll_head: "dll r prv p as \<Longrightarrow> p \<noteq> 0 \<Longrightarrow> p \<in> set as"
  by (cases as) auto

text \<open>A chunk anywhere in a list is taken out. The head of the list changes when the chunk is the first one.\<close>

lemma dll_remove:
  assumes "dll r prv p (xs @ a # ys)" "spaced (set (xs @ a # ys))" "distinct (xs @ a # ys)"
  defines "n \<equiv> r (a + 16)" and "v \<equiv> r (a + 8)"
  defines "r1 \<equiv> if xs \<noteq> [] then r(v + 16 := n) else r"
  defines "r2 \<equiv> if n \<noteq> 0 then r1(n + 8 := v) else r1"
  shows "dll r2 prv (if xs = [] then n else p) (xs @ ys) \<and> v = (if xs = [] then prv else last xs)"
proof (cases xs rule: rev_cases)
  case Nil
  have "dll r2 prv n ys"
  proof -
    have "spaced (set ys)" by (rule spaced_subset [OF assms(2)]) auto
    then have "dll (if n \<noteq> 0 then r(n + 8 := prv) else r) prv n ys"
      using assms(1,3) Nil by (intro dll_set_prev [of r a]) (auto simp: n_def)
    then show ?thesis using assms(1) Nil by (auto simp: n_def v_def r1_def r2_def)
  qed
  then show ?thesis using assms(1) Nil by (simp add: v_def)
next
  case (snoc ws w)
  have nodes: "spaced (set ws \<union> {w, a} \<union> set ys)" "distinct (ws @ w # a # ys)"
    using assms(2,3) snoc by (simp_all add: Un_commute insert_commute)
  have "dll r prv p (ws @ [w] @ a # ys) \<Longrightarrow> spaced (set ws \<union> {w, a} \<union> set ys) \<Longrightarrow> distinct (ws @ w # a # ys) \<Longrightarrow>
    v = w \<and> dll r2 prv p (ws @ [w] @ ys)" for prv p
  proof (induction ws arbitrary: prv p)
    case Nil
    have s: "spaced (set ys)" "spaced {w, a}" using Nil.prems(2) by (auto elim: spaced_subset)
    have v: "v = w" using Nil.prems(1) by (simp add: v_def)
    have dy: "dll r a n ys" using Nil.prems(1) by (simp add: n_def)
    have fr: "(r(w + 16 := n)) (b + 8) = r (b + 8) \<and> (r(w + 16 := n)) (b + 16) = r (b + 16)" if "b \<in> set ys" for b
      using Nil.prems(2,3) that spaced_fields [OF Nil.prems(2), of w b] spaced_fields(3) [OF Nil.prems(2), of b w] by auto
    have "dll (r(w + 16 := n)) a n ys" by (rule dll_frame [OF dy]) (rule fr)
    then have d: "dll r2 w n ys"
      using dll_set_prev [of "r(w + 16 := n)" a n ys w] s(1) Nil.prems(3) snoc by (auto simp: r2_def r1_def v)
    have hd: "n \<noteq> 0 \<Longrightarrow> n \<in> set ys" using dy by (cases ys) auto
    have "r2 (w + 8) = r (w + 8) \<and> r2 (w + 16) = n"
      using hd snoc Nil.prems(2,3) spaced_fields [OF Nil.prems(2), of w n] spaced_fields(3) [OF Nil.prems(2), of n w]
      by (auto simp: r2_def r1_def v)
    then show ?case using v d Nil.prems(1) by simp
  next
    case (Cons x ws)
    have "v = w \<and> dll r2 x (r (x + 16)) (ws @ [w] @ ys)"
    proof (rule Cons.IH)
      show "dll r x (r (x + 16)) (ws @ [w] @ a # ys)" using Cons.prems(1) by simp
      show "spaced (set ws \<union> {w, a} \<union> set ys)" using Cons.prems(2) by (rule spaced_subset) auto
      show "distinct (ws @ w # a # ys)" using Cons.prems(3) by simp
    qed
    moreover have "r2 (x + 8) = r (x + 8) \<and> r2 (x + 16) = r (x + 16)"
    proof -
      have v: "v = w" using calculation by simp
      have "n \<noteq> 0 \<Longrightarrow> n \<in> set ys"
        using dll_suffix [of r prv p "x # ws @ [w]" a ys] dll_head [of r a n ys] Cons.prems(1) by (simp add: n_def)
      then show ?thesis
        using v snoc Cons.prems(2,3) spaced_fields [OF Cons.prems(2), of x n] spaced_fields [OF Cons.prems(2), of x w]
          spaced_fields(3) [OF Cons.prems(2), of n x] spaced_fields(3) [OF Cons.prems(2), of w x]
        by (auto simp: r2_def r1_def)
    qed
    ultimately show ?case using Cons.prems(1) by simp
  qed
  from this [of prv p] show ?thesis using assms(1) nodes snoc by simp
qed

section \<open>The lists of all buckets\<close>

text \<open>
  The map holds the size of every linked chunk. The chunks of a bucket are those of the sizes that belong to it.
\<close>

definition bucket_set :: "(int \<rightharpoonup> int) \<Rightarrow> nat \<Rightarrow> int set" where
  "bucket_set L i = {p. \<exists>sz. L p = Some sz \<and> mem_bucket_by_size sz = i}"

definition lists_ok :: "zbx_mem_info \<Rightarrow> (int \<rightharpoonup> int) \<Rightarrow> bool" where
  "lists_ok s L \<longleftrightarrow> length (mi_buckets s) = MEM_BUCKET_COUNT \<and> spaced (dom L) \<and>
    (\<forall>i<MEM_BUCKET_COUNT. \<exists>as. dll (mi_ram s) 0 (mi_buckets s ! i) as \<and> distinct as \<and> set as = bucket_set L i)"

text \<open>The words that hold the pointers of the linked chunks.\<close>

definition fields :: "int set \<Rightarrow> int set" where
  "fields S = (\<lambda>p. p + 8) ` S \<union> (\<lambda>p. p + 16) ` S"

lemma bucket_set_dom: "bucket_set L i \<subseteq> dom L"
  by (auto simp: bucket_set_def)

lemma bucket_set_disjoint: "p \<in> bucket_set L i \<Longrightarrow> p \<in> bucket_set L j \<Longrightarrow> i = j"
  by (auto simp: bucket_set_def)

lemma bucket_set_remove: "bucket_set (L(p := None)) i = bucket_set L i - {p}"
  by (auto simp: bucket_set_def)

lemma bucket_set_insert: "L p = None \<Longrightarrow>
    bucket_set (L(p \<mapsto> sz)) i = (if i = mem_bucket_by_size sz then insert p (bucket_set L i) else bucket_set L i)"
  by (auto simp: bucket_set_def)

lemma lists_ok_frame:
  assumes "lists_ok s L" "mi_buckets s' = mi_buckets s" "\<And>a. a \<in> fields (dom L) \<Longrightarrow> mi_ram s' a = mi_ram s a"
  shows "lists_ok s' L"
  unfolding lists_ok_def
proof (intro conjI allI impI)
  show "length (mi_buckets s') = MEM_BUCKET_COUNT" "spaced (dom L)" using assms(1,2) by (simp_all add: lists_ok_def)
  fix i assume "i < MEM_BUCKET_COUNT"
  then obtain as where as: "dll (mi_ram s) 0 (mi_buckets s ! i) as" "distinct as" "set as = bucket_set L i"
    using assms(1) by (auto simp: lists_ok_def)
  have "dll (mi_ram s') 0 (mi_buckets s ! i) as"
    by (rule dll_frame [OF as(1)]) (use as(3) subsetD [OF bucket_set_dom] assms(3) in \<open>auto simp: fields_def\<close>)
  then show "\<exists>as. dll (mi_ram s') 0 (mi_buckets s' ! i) as \<and> distinct as \<and> set as = bucket_set L i"
    using as assms(2) by auto
qed

lemma mem_field_eqs:
  "mem_get_prev_chunk s p = mi_ram s (p + 8)" "mem_get_next_chunk s p = mi_ram s (p + 16)"
  "mem_set_prev_chunk p v = poke (p + 8) v" "mem_set_next_chunk p v = poke (p + 16) v"
  by (simp_all add: mem_get_prev_chunk_def mem_get_next_chunk_def mem_set_prev_chunk_def mem_set_next_chunk_def mem_consts
      add.assoc)

lemmas mem_field_defs = mem_field_eqs poke_def set_bucket_def

text \<open>What an operation leaves alone: everything but the buckets and the words of a set.\<close>

definition same_but :: "int set \<Rightarrow> zbx_mem_info \<Rightarrow> zbx_mem_info \<Rightarrow> bool" where
  "same_but W s s' \<longleftrightarrow> s' = s\<lparr>mi_buckets := mi_buckets s', mi_ram := mi_ram s'\<rparr> \<and>
    (\<forall>a. a \<notin> W \<longrightarrow> mi_ram s' a = mi_ram s a)"

lemma mem_link_chunk_ok:
  assumes "lists_ok s L" "L p = None" "spaced (insert p (dom L))" "CHUNK_SIZE s p = sz"
  shows "lists_ok (mem_link_chunk p s) (L(p \<mapsto> sz))" "same_but (fields (insert p (dom L))) s (mem_link_chunk p s)"
proof -
  define i where "i = mem_bucket_by_size sz"
  define h where "h = mi_buckets s ! i"
  define r1 where "r1 = (if h \<noteq> 0 then (mi_ram s)(h + 8 := p) else mi_ram s)"
  define r2 where "r2 = r1(p + 8 := 0, p + 16 := h)"
  have i: "i < MEM_BUCKET_COUNT" by (simp add: i_def bucket_less MEM_BUCKET_COUNT_eq)
  have len: "length (mi_buckets s) = MEM_BUCKET_COUNT" using assms(1) by (simp add: lists_ok_def)
  have s': "mem_link_chunk p s = s\<lparr>mi_buckets := (mi_buckets s)[i := p], mi_ram := r2\<rparr>"
    by (auto simp: mem_link_chunk_def Let_def assms(4) i_def h_def r1_def r2_def mem_field_defs)
  obtain as where as: "dll (mi_ram s) 0 h as" "distinct as" "set as = bucket_set L i"
    using assms(1) i by (auto simp: lists_ok_def h_def)
  have hd: "h \<noteq> 0 \<Longrightarrow> h \<in> bucket_set L i" using dll_head [OF as(1)] as(3) by simp
  show "same_but (fields (insert p (dom L))) s (mem_link_chunk p s)"
    using hd bucket_set_dom [of L i] by (auto simp: s' same_but_def r2_def r1_def fields_def)
  show "lists_ok (mem_link_chunk p s) (L(p \<mapsto> sz))"
    unfolding lists_ok_def
  proof (intro conjI allI impI)
    show "length (mi_buckets (mem_link_chunk p s)) = MEM_BUCKET_COUNT" using len by (simp add: s')
    show "spaced (dom (L(p \<mapsto> sz)))" using assms(3) by simp
    fix j assume j: "j < MEM_BUCKET_COUNT"
    show "\<exists>as. dll (mi_ram (mem_link_chunk p s)) 0 (mi_buckets (mem_link_chunk p s) ! j) as \<and> distinct as \<and>
        set as = bucket_set (L(p \<mapsto> sz)) j"
    proof (cases "j = i")
      case True
      have "p \<notin> set as" using as(3) assms(2) by (auto simp: bucket_set_def)
      moreover have "spaced (insert p (set as))"
        using assms(3) by (rule spaced_subset) (auto simp: as(3) bucket_set_def)
      ultimately have "dll r2 0 p (p # as)" using dll_push [OF as(1) _ as(2)] by (simp add: r2_def r1_def)
      then show ?thesis
        using True len i as \<open>p \<notin> set as\<close> bucket_set_insert [of L p sz j] assms(2)
        by (intro exI [of _ "p # as"]) (auto simp: s' i_def)
    next
      case False
      obtain bs where bs: "dll (mi_ram s) 0 (mi_buckets s ! j) bs" "distinct bs" "set bs = bucket_set L j"
        using assms(1) j by (auto simp: lists_ok_def)
      have "dll r2 0 (mi_buckets s ! j) bs"
      proof (rule dll_frame [OF bs(1)])
        fix b assume "b \<in> set bs"
        then have b: "b \<in> insert p (dom L)" "b \<noteq> p" "b \<noteq> h \<or> h = 0"
          using bs(3) bucket_set_dom [of L j] assms(2) hd bucket_set_disjoint [of b L i j] False by (auto simp: bucket_set_def)
        have h: "h \<noteq> 0 \<Longrightarrow> h \<in> insert p (dom L)" using hd bucket_set_dom by auto
        show "r2 (b + 8) = mi_ram s (b + 8) \<and> r2 (b + 16) = mi_ram s (b + 16)"
          using b h spaced_fields [OF assms(3) b(1), of p] spaced_fields [OF assms(3) b(1), of h]
            spaced_fields(3) [OF assms(3) _ b(1), of p] spaced_fields(3) [OF assms(3) _ b(1), of h]
          by (auto simp: r2_def r1_def)
      qed
      then show ?thesis using False bs bucket_set_insert [of L p sz j] assms(2)
        by (intro exI [of _ bs]) (simp add: s' i_def)
    qed
  qed
qed

lemma mem_unlink_chunk_ok:
  assumes "lists_ok s L" "L p = Some sz" "CHUNK_SIZE s p = sz"
  shows "lists_ok (mem_unlink_chunk p s) (L(p := None))" "same_but (fields (dom L - {p})) s (mem_unlink_chunk p s)"
proof -
  define i where "i = mem_bucket_by_size sz"
  define n where "n = mi_ram s (p + 16)"
  define v where "v = mi_ram s (p + 8)"
  have i: "i < MEM_BUCKET_COUNT" by (simp add: i_def bucket_less MEM_BUCKET_COUNT_eq)
  have len: "length (mi_buckets s) = MEM_BUCKET_COUNT" and sp: "spaced (dom L)" using assms(1) by (simp_all add: lists_ok_def)
  obtain as where as: "dll (mi_ram s) 0 (mi_buckets s ! i) as" "distinct as" "set as = bucket_set L i"
    using assms(1) i by (auto simp: lists_ok_def)
  have pin: "p \<in> set as" using as(3) assms(2) by (simp add: bucket_set_def i_def)
  then obtain xs ys where xs: "as = xs @ p # ys" by (meson split_list)
  define r1 where "r1 = (if xs \<noteq> [] then (mi_ram s)(v + 16 := n) else mi_ram s)"
  define r2 where "r2 = (if n \<noteq> 0 then r1(n + 8 := v) else r1)"
  have sas: "spaced (set as)" using sp by (rule spaced_subset) (use as(3) bucket_set_dom in auto)
  have rm: "dll r2 0 (if xs = [] then n else mi_buckets s ! i) (xs @ ys)" "v = (if xs = [] then 0 else last xs)"
    using dll_remove [of "mi_ram s" 0 "mi_buckets s ! i" xs p ys] as(1,2) sas unfolding xs n_def v_def r1_def r2_def by simp_all
  have pos: "a \<in> set as \<Longrightarrow> 0 < a" for a using sas by (simp add: spaced_def)
  have v0: "v = 0 \<longleftrightarrow> xs = []" using rm(2) pos [of "last xs"] xs by (cases xs rule: rev_cases) auto
  have vin: "xs \<noteq> [] \<Longrightarrow> v \<in> set as - {p}" using rm(2) as(2) xs by auto
  have nin: "n \<noteq> 0 \<Longrightarrow> n \<in> set as - {p}"
    using dll_suffix [of "mi_ram s" 0 "mi_buckets s ! i" xs p ys] dll_head [of "mi_ram s" p n ys] as(1,2) xs by (auto simp: n_def)
  define bs where "bs = (if xs = [] then (mi_buckets s)[i := n] else mi_buckets s)"
  have s': "mem_unlink_chunk p s = s\<lparr>mi_buckets := bs, mi_ram := r2\<rparr>"
    using v0 by (auto simp: mem_unlink_chunk_def Let_def assms(3) i_def n_def v_def bs_def r1_def r2_def mem_field_defs)
  have sub: "set as \<subseteq> dom L" using as(3) bucket_set_dom by simp
  show "same_but (fields (dom L - {p})) s (mem_unlink_chunk p s)"
    using vin nin sub by (auto simp: s' same_but_def r2_def r1_def fields_def)
  show "lists_ok (mem_unlink_chunk p s) (L(p := None))"
    unfolding lists_ok_def
  proof (intro conjI allI impI)
    show "length (mi_buckets (mem_unlink_chunk p s)) = MEM_BUCKET_COUNT" using len by (simp add: s' bs_def)
    show "spaced (dom (L(p := None)))" using sp by (rule spaced_subset) auto
    fix j assume j: "j < MEM_BUCKET_COUNT"
    show "\<exists>as. dll (mi_ram (mem_unlink_chunk p s)) 0 (mi_buckets (mem_unlink_chunk p s) ! j) as \<and> distinct as \<and>
        set as = bucket_set (L(p := None)) j"
    proof (cases "j = i")
      case True
      then show ?thesis
        using rm(1) as len i xs by (intro exI [of _ "xs @ ys"]) (auto simp: s' bs_def bucket_set_remove)
    next
      case False
      obtain cs where cs: "dll (mi_ram s) 0 (mi_buckets s ! j) cs" "distinct cs" "set cs = bucket_set L j"
        using assms(1) j by (auto simp: lists_ok_def)
      have "dll r2 0 (mi_buckets s ! j) cs"
      proof (rule dll_frame [OF cs(1)])
        fix b assume b: "b \<in> set cs"
        then have bd: "b \<in> dom L" "b \<notin> set as"
          using cs(3) bucket_set_dom [of L j] as(3) bucket_set_disjoint [of b L i j] False by auto
        have f: "a \<in> set as \<Longrightarrow> a + 16 \<noteq> b + 8 \<and> a + 16 \<noteq> b + 16 \<and> a + 8 \<noteq> b + 8 \<and> a + 8 \<noteq> b + 16" for a
          using spaced_fields [OF sp, of a b] spaced_fields(3) [OF sp, of b a] sub bd by auto
        show "r2 (b + 8) = mi_ram s (b + 8) \<and> r2 (b + 16) = mi_ram s (b + 16)"
          using vin nin f [of v] f [of n] by (auto simp: r2_def r1_def)
      qed
      moreover have "p \<notin> bucket_set L j" using assms(2) False by (auto simp: bucket_set_def i_def)
      ultimately show ?thesis using False cs by (intro exI [of _ cs]) (auto simp: s' bs_def bucket_set_remove)
    qed
  qed
qed

section \<open>The search for a chunk\<close>

lemma bucket_scan_props:
  "i \<le> 29 \<Longrightarrow> i \<le> bucket_scan b i \<and> bucket_scan b i \<le> 29 \<and> (\<forall>j. i \<le> j \<and> j < bucket_scan b i \<longrightarrow> b ! j = 0) \<and>
    (bucket_scan b i < 29 \<longrightarrow> b ! bucket_scan b i \<noteq> 0)"
proof (induction b i rule: bucket_scan.induct)
  case (1 b i)
  show ?case
  proof (cases "i < MEM_BUCKET_COUNT - 1 \<and> 0 = b ! i")
    case True
    then have e: "bucket_scan b i = bucket_scan b (i + 1)" by (subst bucket_scan.simps) simp
    have le: "i + 1 \<le> 29" using True by (simp add: MEM_BUCKET_COUNT_eq)
    note IH = "1.IH" [OF True le]
    have "b ! j = 0" if "i \<le> j" "j < bucket_scan b (i + 1)" for j
      using IH True that by (cases "j = i") auto
    then show ?thesis unfolding e using IH by auto
  next
    case False
    then have "bucket_scan b i = i" by (subst bucket_scan.simps) (rule if_not_P)
    then show ?thesis using False "1.prems" by (auto simp: MEM_BUCKET_COUNT_eq)
  qed
qed

lemma first_fit_result:
  assumes "dll (mi_ram s) prv p as" "\<And>a. a \<in> set as \<Longrightarrow> CHUNK_SIZE s a = the (L a)"
  shows "\<exists>c. first_fit s sz p = Some c \<and> (c = 0 \<and> (\<forall>a\<in>set as. the (L a) < sz) \<or> c \<in> set as \<and> c \<noteq> 0 \<and> sz \<le> the (L c))"
  using assms
proof (induction as arbitrary: prv p)
  case Nil
  then show ?case by (subst first_fit.simps) simp
next
  case (Cons a as)
  show ?case
  proof (cases "CHUNK_SIZE s a < sz")
    case True
    have "first_fit s sz p = first_fit s sz (mi_ram s (a + 16))"
      using Cons.prems(1) True by (subst first_fit.simps) (simp add: mem_field_defs)
    moreover have "dll (mi_ram s) a (mi_ram s (a + 16)) as" using Cons.prems(1) by simp
    ultimately show ?thesis using Cons.IH [of a "mi_ram s (a + 16)"] Cons.prems(2) True by auto
  next
    case False
    then have "first_fit s sz p = Some a" using Cons.prems(1) by (subst first_fit.simps) simp
    then show ?thesis using False Cons.prems by auto
  qed
qed

lemma mem_find_chunk_result:
  assumes "lists_ok s L" "\<And>p. p \<in> dom L \<Longrightarrow> CHUNK_SIZE s p = the (L p)"
    and "\<And>p c. L p = Some c \<Longrightarrow> 24 \<le> c \<and> c mod 8 = 0" "24 \<le> sz" "sz mod 8 = 0"
  shows "\<exists>c. mem_find_chunk s sz = Some c \<and> (c = 0 \<and> (\<forall>x\<in>ran L. x < sz) \<or> c \<noteq> 0 \<and> (\<exists>x. L c = Some x \<and> sz \<le> x))"
proof -
  define i where "i = mem_bucket_by_size sz"
  define k where "k = bucket_scan (mi_buckets s) i"
  have "i \<le> 29" using bucket_less [of sz] by (simp add: i_def)
  note k = bucket_scan_props [OF this, of "mi_buckets s", folded k_def]
  have lists: "\<exists>as. dll (mi_ram s) 0 (mi_buckets s ! j) as \<and> set as = bucket_set L j" if "j \<le> 29" for j
    using assms(1) that unfolding lists_ok_def MEM_BUCKET_COUNT_eq 
    by (elim conjE allE [of _ j]) auto
  have empty: "bucket_set L j = {}" if "i \<le> j" "j < k" for j
    using lists [of j] k that by (auto simp: dll_zero)
  have low: "x < sz" if "L p = Some x" "mem_bucket_by_size x < i" for p x
    using that(2) assms(3) [OF that(1)] assms(4) unfolding i_def bucket_eq
    by (auto split: if_splits simp: nat_less_iff intro: ccontr dest: zdiv_mono1 [of _ _ 8])
  show ?thesis
  proof (cases "k = 29")
    case True
    obtain as where as: "dll (mi_ram s) 0 (mi_buckets s ! 29) as" "set as = bucket_set L 29" using lists [of 29] by auto
    have "CHUNK_SIZE s a = the (L a)" if "a \<in> set as" for a using assms(2) as(2) that bucket_set_dom by blast
    from first_fit_result [OF as(1) this, of sz] obtain c where c: "first_fit s sz (mi_buckets s ! 29) = Some c"
      "c = 0 \<and> (\<forall>a\<in>set as. the (L a) < sz) \<or> c \<in> set as \<and> c \<noteq> 0 \<and> sz \<le> the (L c)" by auto
    have f: "mem_find_chunk s sz = Some c"
      using c(1) True by (simp add: mem_find_chunk_def Let_def k_def i_def MEM_BUCKET_COUNT_eq)
    show ?thesis
    proof (cases "c = 0")
      case c0: True
      have "x < sz" if "L p = Some x" for p x
      proof -
        consider "mem_bucket_by_size x < i" | "i \<le> mem_bucket_by_size x" "mem_bucket_by_size x < 29" | "mem_bucket_by_size x = 29"
          using bucket_less [of x] by linarith
        then show ?thesis
        proof cases
          case 1
          then show ?thesis by (rule low [OF that])
        next
          case 2
          then have "bucket_set L (mem_bucket_by_size x) = {}" using empty True by simp
          then show ?thesis using that by (auto simp: bucket_set_def)
        next
          case 3
          then have "p \<in> set as" using as(2) that by (auto simp: bucket_set_def)
          then show ?thesis using c(2) c0 that as(2) assms(1) by (fastforce simp: lists_ok_def spaced_def bucket_set_def)
        qed
      qed
      then show ?thesis using f c0 by (auto simp: ran_def)
    next
      case False
      then have "c \<in> bucket_set L 29" "sz \<le> the (L c)" using c(2) as(2) by auto
      then show ?thesis using f False by (auto simp: bucket_set_def)
    qed
  next
    case False
    then have k29: "k < 29" using k by simp
    define c where "c = mi_buckets s ! k"
    have f: "mem_find_chunk s sz = Some c"
      using False by (simp add: mem_find_chunk_def Let_def k_def i_def c_def MEM_BUCKET_COUNT_eq)
    have c0: "c \<noteq> 0" using k k29 by (simp add: c_def)
    obtain as where "dll (mi_ram s) 0 c as" "set as = bucket_set L k" using lists [of k] k29 by (auto simp: c_def)
    then have "c \<in> bucket_set L k" using dll_head [of "mi_ram s" 0 c as] c0 by blast
    then obtain x where x: "L c = Some x" "mem_bucket_by_size x = k" by (auto simp: bucket_set_def)
    have "sz \<le> x"
    proof (rule ccontr)
      assume "\<not> sz \<le> x"
      moreover have "i \<le> mem_bucket_by_size x" using k x(2) by simp
      ultimately show False using assms(3) [OF x(1)] assms(4,5) x(2) k29 unfolding i_def bucket_eq
        by (auto split: if_splits)
    qed
    then show ?thesis using f c0 x by auto
  qed
qed

end
