(* ===== verification/MemSafe.thy ===== *)
theory MemSafe
  imports MemLists
begin

text \<open>
  The invariant of the shared memory allocator: the chunks tile the memory between its bounds, both size words of every
  chunk are right, no two neighbours are free, the lists hold exactly the free chunks, and the counters are exact.
  Every operation replaces a few neighbouring chunks by others.
\<close>

section \<open>Chunks\<close>

text \<open>A chunk is its address, the size of its allocatable memory and whether it is used.\<close>

type_synonym chunk = "int \<times> int \<times> bool"

fun tiled :: "int \<Rightarrow> chunk list \<Rightarrow> int \<Rightarrow> bool" where
  "tiled a [] b \<longleftrightarrow> a = b"
| "tiled a ((p, sz, u) # cs) b \<longleftrightarrow> p = a \<and> 24 \<le> sz \<and> sz mod 8 = 0 \<and> tiled (a + 16 + sz) cs b"

definition tagged :: "(int \<Rightarrow> int) \<Rightarrow> chunk list \<Rightarrow> bool" where
  "tagged r cs \<longleftrightarrow> (\<forall>(p, sz, u)\<in>set cs. r p = size_word sz u \<and> r (p + 8 + sz) = size_word sz u)"

abbreviation settled :: "chunk list \<Rightarrow> bool" where
  "settled \<equiv> successively (\<lambda>(p, sz, u) (q, tz, v). u \<or> v)"

definition free_map :: "chunk list \<Rightarrow> int \<rightharpoonup> int" where
  "free_map cs = map_of (map (\<lambda>(p, sz, u). (p, sz)) (filter (\<lambda>(p, sz, u). \<not> u) cs))"

definition chunk_sum :: "bool \<Rightarrow> chunk list \<Rightarrow> int" where
  "chunk_sum used cs = sum_list (map (\<lambda>(p, sz, u). if u = used then sz else 0) cs)"

definition mem_inv :: "zbx_mem_info \<Rightarrow> chunk list \<Rightarrow> bool" where
  "mem_inv s cs \<longleftrightarrow> tiled (mi_lo_bound s) cs (mi_hi_bound s) \<and> cs \<noteq> [] \<and> tagged (mi_ram s) cs \<and> settled cs \<and>
    lists_ok s (free_map cs) \<and> 0 < mi_lo_bound s \<and> mi_lo_bound s mod 8 = 0 \<and> mi_hi_bound s < 2 ^ 63 \<and>
    mi_free_size s = chunk_sum False cs \<and> mi_used_size s = chunk_sum True cs \<and>
    mi_total_size s = mi_hi_bound s - mi_lo_bound s - 16"

lemma chunk_sum_simps [simp]:
  "chunk_sum u [] = 0" "chunk_sum u ((p, sz, v) # cs) = (if v = u then sz else 0) + chunk_sum u cs"
  "chunk_sum u (cs @ ds) = chunk_sum u cs + chunk_sum u ds"
  by (simp_all add: chunk_sum_def)

lemma tagged_simps [simp]:
  "tagged r []" "tagged r ((p, sz, u) # cs) \<longleftrightarrow> r p = size_word sz u \<and> r (p + 8 + sz) = size_word sz u \<and> tagged r cs"
  "tagged r (cs @ ds) \<longleftrightarrow> tagged r cs \<and> tagged r ds"
  by (simp_all add: tagged_def ball_Un)

lemma tiled_append: "tiled a (xs @ ys) b \<longleftrightarrow> (\<exists>m. tiled a xs m \<and> tiled m ys b)"
  by (induction a xs b rule: tiled.induct) auto

lemma tiled_end: "tiled a cs b \<Longrightarrow> tiled a cs b' \<Longrightarrow> b' = b"
  by (induction a cs b rule: tiled.induct) auto

lemma tiled_le: "tiled a cs b \<Longrightarrow> a \<le> b"
  by (induction a cs b rule: tiled.induct) auto

lemma tiled_mod: "tiled a cs b \<Longrightarrow> b mod 8 = a mod 8"
proof (induction a cs b rule: tiled.induct)
  case (2 a p sz u cs b)
  then have "sz mod 8 = 0" by simp
  then have "(16 + sz) mod 8 = 0" by presburger
  then have "(a + (16 + sz)) mod 8 = a mod 8" by (metis mod_add_right_eq add.right_neutral)
  then show ?case using 2 by (simp add: add.assoc)
qed simp

lemma tiled_member:
  assumes "tiled a cs b" "(p, sz, u) \<in> set cs"
  shows "a \<le> p \<and> p + 16 + sz \<le> b \<and> 24 \<le> sz \<and> sz mod 8 = 0 \<and> p mod 8 = a mod 8"
proof -
  obtain xs ys where "cs = xs @ (p, sz, u) # ys" using assms(2) by (meson split_list)
  then obtain m where "tiled a xs m" "tiled m ((p, sz, u) # ys) b" using assms(1) by (auto simp: tiled_append)
  then show ?thesis using tiled_le [of a xs m] tiled_le [of "m + 16 + sz" ys b] tiled_mod [of a xs m] by auto
qed

lemma tiled_apart:
  assumes "tiled a cs b" "(p, sz, u) \<in> set cs" "(q, tz, v) \<in> set cs"
  shows "(p, sz, u) = (q, tz, v) \<or> p + 16 + sz \<le> q \<or> q + 16 + tz \<le> p"
proof -
  obtain xs ys where cs: "cs = xs @ (p, sz, u) # ys" using assms(2) by (meson split_list)
  then have t: "tiled a xs p" "tiled (p + 16 + sz) ys b" using assms(1) by (auto simp: tiled_append)
  have "(q, tz, v) \<in> set xs \<or> (q, tz, v) = (p, sz, u) \<or> (q, tz, v) \<in> set ys" using assms(3) cs by auto
  then show ?thesis using tiled_member [OF t(1), of q tz v] tiled_member [OF t(2), of q tz v] by auto
qed

lemma tiled_distinct: "tiled a cs b \<Longrightarrow> distinct (map fst cs)"
proof (induction a cs b rule: tiled.induct)
  case (2 a p sz u cs b)
  then show ?case using tiled_member [of "a + 16 + sz" cs b] by fastforce
qed simp

lemma free_map_iff:
  assumes "distinct (map fst cs)"
  shows "free_map cs p = Some sz \<longleftrightarrow> (p, sz, False) \<in> set cs"
proof -
  have "distinct (map fst (map (\<lambda>(p, sz, u). (p, sz)) (filter (\<lambda>(p, sz, u). \<not> u) cs)))"
    using distinct_map_filter [OF assms, of "\<lambda>(p, sz, u). \<not> u"] by (simp add: case_prod_unfold comp_def)
  then show ?thesis unfolding free_map_def by (subst map_of_eq_Some_iff) force+
qed

lemma map_eqI: "(\<And>p v. f p = Some v \<longleftrightarrow> g p = Some v) \<Longrightarrow> f = g"
  by (rule ext) (metis not_Some_eq)

lemma free_map_dom: "dom (free_map cs) = {p. \<exists>sz. (p, sz, False) \<in> set cs}"
  by (force simp: free_map_def dom_map_of_conv_image_fst)

lemma chunk_sum_nonneg: "tiled a cs b \<Longrightarrow> 0 \<le> chunk_sum u cs"
  by (induction a cs b rule: tiled.induct) auto

lemma chunk_sum_total: "tiled a cs b \<Longrightarrow> chunk_sum True cs + chunk_sum False cs + 16 * int (length cs) = b - a"
  by (induction a cs b rule: tiled.induct) auto

section \<open>What the primitive operations leave alone\<close>

lemma poke_sel [simp]:
  "mi_buckets (poke a v s) = mi_buckets s" "mi_lo_bound (poke a v s) = mi_lo_bound s" "mi_hi_bound (poke a v s) = mi_hi_bound s"
  "mi_free_size (poke a v s) = mi_free_size s" "mi_used_size (poke a v s) = mi_used_size s"
  "mi_total_size (poke a v s) = mi_total_size s" "mi_orig_size (poke a v s) = mi_orig_size s"
  "mi_allow_oom (poke a v s) = mi_allow_oom s" "mi_ram (poke a v s) = (mi_ram s)(a := v)"
  by (simp_all add: poke_def)

lemma set_bucket_sel [simp]:
  "mi_lo_bound (set_bucket i v s) = mi_lo_bound s" "mi_hi_bound (set_bucket i v s) = mi_hi_bound s"
  "mi_free_size (set_bucket i v s) = mi_free_size s" "mi_used_size (set_bucket i v s) = mi_used_size s"
  "mi_total_size (set_bucket i v s) = mi_total_size s" "mi_orig_size (set_bucket i v s) = mi_orig_size s"
  "mi_allow_oom (set_bucket i v s) = mi_allow_oom s" "mi_ram (set_bucket i v s) = mi_ram s"
  by (simp_all add: set_bucket_def)

lemma set_size_sel [simp]:
  "mi_buckets (mem_set_chunk_size p z s) = mi_buckets s" "mi_lo_bound (mem_set_chunk_size p z s) = mi_lo_bound s"
  "mi_hi_bound (mem_set_chunk_size p z s) = mi_hi_bound s" "mi_free_size (mem_set_chunk_size p z s) = mi_free_size s"
  "mi_used_size (mem_set_chunk_size p z s) = mi_used_size s" "mi_total_size (mem_set_chunk_size p z s) = mi_total_size s"
  "mi_orig_size (mem_set_chunk_size p z s) = mi_orig_size s" "mi_allow_oom (mem_set_chunk_size p z s) = mi_allow_oom s"
  "mi_ram (mem_set_chunk_size p z s) = (mi_ram s)(p := z, p + 8 + z := z)"
  "mi_buckets (mem_set_used_chunk_size p z s) = mi_buckets s" "mi_lo_bound (mem_set_used_chunk_size p z s) = mi_lo_bound s"
  "mi_hi_bound (mem_set_used_chunk_size p z s) = mi_hi_bound s" "mi_free_size (mem_set_used_chunk_size p z s) = mi_free_size s"
  "mi_used_size (mem_set_used_chunk_size p z s) = mi_used_size s" "mi_total_size (mem_set_used_chunk_size p z s) = mi_total_size s"
  "mi_orig_size (mem_set_used_chunk_size p z s) = mi_orig_size s" "mi_allow_oom (mem_set_used_chunk_size p z s) = mi_allow_oom s"
  "mi_ram (mem_set_used_chunk_size p z s) = (mi_ram s)(p := size_word z True, p + 8 + z := size_word z True)"
  by (simp_all add: mem_set_chunk_size_def mem_set_used_chunk_size_def mem_consts size_word_def)

lemma link_sel [simp]:
  "mi_lo_bound (mem_link_chunk p s) = mi_lo_bound s" "mi_hi_bound (mem_link_chunk p s) = mi_hi_bound s"
  "mi_free_size (mem_link_chunk p s) = mi_free_size s" "mi_used_size (mem_link_chunk p s) = mi_used_size s"
  "mi_total_size (mem_link_chunk p s) = mi_total_size s" "mi_orig_size (mem_link_chunk p s) = mi_orig_size s"
  "mi_allow_oom (mem_link_chunk p s) = mi_allow_oom s"
  "mi_lo_bound (mem_unlink_chunk p s) = mi_lo_bound s" "mi_hi_bound (mem_unlink_chunk p s) = mi_hi_bound s"
  "mi_free_size (mem_unlink_chunk p s) = mi_free_size s" "mi_used_size (mem_unlink_chunk p s) = mi_used_size s"
  "mi_total_size (mem_unlink_chunk p s) = mi_total_size s" "mi_orig_size (mem_unlink_chunk p s) = mi_orig_size s"
  "mi_allow_oom (mem_unlink_chunk p s) = mi_allow_oom s"
  by (simp_all add: mem_link_chunk_def mem_unlink_chunk_def Let_def mem_field_eqs)

lemma lists_ok_counters [simp]:
  "lists_ok (s\<lparr>mi_used_size := a, mi_free_size := b\<rparr>) L = lists_ok s L" "lists_ok (s\<lparr>mi_free_size := b\<rparr>) L = lists_ok s L"
  "lists_ok (s\<lparr>mi_used_size := a\<rparr>) L = lists_ok s L"
  by (simp_all add: lists_ok_def)

text \<open>The two ways in which a region of the memory becomes a chunk.\<close>

definition apart :: "int \<Rightarrow> int \<Rightarrow> (int \<rightharpoonup> int) \<Rightarrow> bool" where
  "apart m n L \<longleftrightarrow> (\<forall>q\<in>dom L. q + 24 \<le> m \<or> n \<le> q)"

lemma apart_fields:
  assumes "apart m n L" "m \<le> a" "a < n"
  shows "a \<notin> fields (dom L)"
proof
  assume "a \<in> fields (dom L)"
  then obtain q where "q \<in> dom L" "a = q + 8 \<or> a = q + 16" unfolding fields_def by blast
  moreover from this have "q + 24 \<le> m \<or> n \<le> q" using assms(1) unfolding apart_def by blast
  ultimately show False using assms(2,3) by linarith
qed

lemma apart_mono:
  assumes "apart m n L" "m \<le> m'" "n' \<le> n"
  shows "apart m' n' L"
  unfolding apart_def
proof
  fix q assume "q \<in> dom L"
  then have "q + 24 \<le> m \<or> n \<le> q" using assms(1) unfolding apart_def by blast
  then show "q + 24 \<le> m' \<or> n' \<le> q" using assms(2,3) by linarith
qed

lemma make_free:
  assumes "lists_ok s L" "24 \<le> sz" "sz < 2 ^ 63" "0 < p" "apart p (p + 16 + sz) L"
  defines "s' \<equiv> mem_link_chunk p (mem_set_chunk_size p sz s)"
  shows "lists_ok s' (L(p \<mapsto> sz))" "mi_ram s' p = sz" "mi_ram s' (p + 8 + sz) = sz"
    "a \<notin> fields (dom L) \<Longrightarrow> a \<notin> {p, p + 8, p + 16, p + 8 + sz} \<Longrightarrow> mi_ram s' a = mi_ram s a"
proof -
  define s1 where "s1 = mem_set_chunk_size p sz s"
  have l1: "lists_ok s1 L"
    by (rule lists_ok_frame [OF assms(1)])
      (use apart_fields [OF assms(5), of p] apart_fields [OF assms(5), of "p + 8 + sz"] assms(2) in \<open>auto simp: s1_def\<close>)
  have gap: "q + 24 \<le> p \<or> p + 24 \<le> q" if "q \<in> dom L" for q
    using assms(2,5) that unfolding apart_def by fastforce
  then have new: "L p = None" by (metis add_le_same_cancel1 domIff not_numeral_le_zero)
  have sp: "spaced (insert p (dom L))"
    using assms(1,4) gap unfolding lists_ok_def spaced_def by auto
  have sz: "CHUNK_SIZE s1 p = sz"
    using size_word_size [of sz False] assms(2,3) by (auto simp: CHUNK_SIZE_def s1_def size_word_def)
  note l = mem_link_chunk_ok [OF l1 new sp sz, folded s1_def]
  show "lists_ok s' (L(p \<mapsto> sz))" using l(1) by (simp add: s'_def s1_def)
  have e: "a \<notin> fields (insert p (dom L)) \<Longrightarrow> mi_ram s' a = mi_ram s1 a" for a
    using l(2) by (simp add: same_but_def s'_def s1_def)
  have "p \<notin> fields (insert p (dom L))" "p + 8 + sz \<notin> fields (insert p (dom L))"
    using apart_fields [OF assms(5), of p] apart_fields [OF assms(5), of "p + 8 + sz"] assms(2) by (auto simp: fields_def)
  from this [THEN e] show "mi_ram s' p = sz" "mi_ram s' (p + 8 + sz) = sz" using assms(2) by (auto simp: s1_def)
  show "mi_ram s' a = mi_ram s a" if "a \<notin> fields (dom L)" "a \<notin> {p, p + 8, p + 16, p + 8 + sz}"
    using e [of a] that by (auto simp: fields_def s1_def)
qed

lemma make_used:
  assumes "lists_ok s L" "24 \<le> sz" "apart p (p + 16 + sz) L"
  shows "lists_ok (mem_set_used_chunk_size p sz s) L"
  by (rule lists_ok_frame [OF assms(1)])
    (use apart_fields [OF assms(3), of p] apart_fields [OF assms(3), of "p + 8 + sz"] assms(2) in auto)

text \<open>A piece of the memory gets to be one used chunk, or one and a free rest.\<close>

definition carve :: "int \<Rightarrow> int \<Rightarrow> int \<Rightarrow> chunk list" where
  "carve p csz sz = (if csz < sz + 40 then [(p, csz, True)] else [(p, sz, True), (p + 16 + sz, csz - sz - 16, False)])"

lemma mem_use_chunk_ok:
  assumes "lists_ok s L" "24 \<le> sz" "sz \<le> csz" "csz < 2 ^ 63" "0 < p" "apart p (p + 16 + csz) L"
  defines "s' \<equiv> mem_use_chunk p csz sz s"
  shows "lists_ok s' (if csz < sz + 40 then L else L(p + 16 + sz \<mapsto> csz - sz - 16))" "tagged (mi_ram s') (carve p csz sz)"
    "a \<notin> fields (dom L) \<Longrightarrow> a < p \<or> p + 16 + csz \<le> a \<or> p + 8 \<le> a \<and> a < p + 8 + sz \<Longrightarrow> mi_ram s' a = mi_ram s a"
    "mi_used_size s' = mi_used_size s + chunk_sum True (carve p csz sz)"
    "mi_free_size s' = mi_free_size s - csz + chunk_sum False (carve p csz sz)"
    "mi_lo_bound s' = mi_lo_bound s" "mi_hi_bound s' = mi_hi_bound s" "mi_total_size s' = mi_total_size s"
    "mi_orig_size s' = mi_orig_size s" "mi_allow_oom s' = mi_allow_oom s"
proof -
  have goal: "lists_ok s' (if csz < sz + 40 then L else L(p + 16 + sz \<mapsto> csz - sz - 16)) \<and> tagged (mi_ram s') (carve p csz sz) \<and>
    (\<forall>a. a \<notin> fields (dom L) \<and> (a < p \<or> p + 16 + csz \<le> a \<or> p + 8 \<le> a \<and> a < p + 8 + sz) \<longrightarrow> mi_ram s' a = mi_ram s a) \<and>
    mi_used_size s' = mi_used_size s + chunk_sum True (carve p csz sz) \<and>
    mi_free_size s' = mi_free_size s - csz + chunk_sum False (carve p csz sz) \<and>
    mi_lo_bound s' = mi_lo_bound s \<and> mi_hi_bound s' = mi_hi_bound s \<and> mi_total_size s' = mi_total_size s \<and>
    mi_orig_size s' = mi_orig_size s \<and> mi_allow_oom s' = mi_allow_oom s"
  proof (cases "csz < sz + 40")
    case True
    have s': "s' = mem_set_used_chunk_size p csz (s\<lparr>mi_used_size := mi_used_size s + csz, mi_free_size := mi_free_size s - csz\<rparr>)"
      using True by (simp add: s'_def mem_use_chunk_def mem_consts)
    have "lists_ok s' L" unfolding s' by (rule make_used) (use assms in auto)
    then show ?thesis using True assms(2,3) by (auto simp: s' carve_def)
  next
    case False
    define q where "q = p + 16 + sz"
    define qs where "qs = csz - sz - 16"
    have q: "24 \<le> qs" "qs < 2 ^ 63" "0 < q" "q + 16 + qs = p + 16 + csz" using False assms(2,4,5) by (auto simp: q_def qs_def)
    have ap: "apart q (q + 16 + qs) L" using assms(6) by (rule apart_mono) (use assms(2) q in \<open>auto simp: q_def\<close>)
    define s1 where "s1 = mem_link_chunk q (mem_set_chunk_size q qs s)"
    note f = make_free [OF assms(1) q(1-3) ap, folded s1_def]
    define s2 where "s2 = s1\<lparr>mi_used_size := mi_used_size s + sz, mi_free_size := mi_free_size s - csz + qs\<rparr>"
    have s': "s' = mem_set_used_chunk_size p sz s2"
      using False by (simp add: s'_def mem_use_chunk_def mem_consts s2_def s1_def q_def qs_def Let_def algebra_simps)
    have l2: "lists_ok s2 (L(q \<mapsto> qs))" using f(1) by (simp add: s2_def)
    have "apart p (p + 16 + sz) (L(q \<mapsto> qs))"
      using assms(6) q by (auto simp: apart_def q_def)
    then have "lists_ok s' (L(q \<mapsto> qs))" unfolding s' by (intro make_used [OF l2 assms(2)])
    moreover have "tagged (mi_ram s') (carve p csz sz)"
    proof -
      have "mi_ram s' q = qs" "mi_ram s' (q + 8 + qs) = qs" using f(2,3) q assms(2) by (auto simp: s' s2_def q_def)
      then show ?thesis using False assms(2) by (auto simp: carve_def s' size_word_def q_def qs_def)
    qed
    moreover have "mi_ram s' a = mi_ram s a"
      if "a \<notin> fields (dom L)" "a < p \<or> p + 16 + csz \<le> a \<or> p + 8 \<le> a \<and> a < p + 8 + sz" for a
    proof -
      have "mi_ram s1 a = mi_ram s a" by (rule f(4)) (use that q assms(2) in \<open>auto simp: q_def\<close>)
      moreover have "a \<noteq> p" "a \<noteq> p + 8 + sz" using that assms(2,3) by auto
      ultimately show ?thesis by (simp add: s' s2_def)
    qed
    ultimately show ?thesis using False by (simp add: s' s2_def s1_def carve_def q_def qs_def)
  qed
  then show "lists_ok s' (if csz < sz + 40 then L else L(p + 16 + sz \<mapsto> csz - sz - 16))" "tagged (mi_ram s') (carve p csz sz)"
    "mi_used_size s' = mi_used_size s + chunk_sum True (carve p csz sz)"
    "mi_free_size s' = mi_free_size s - csz + chunk_sum False (carve p csz sz)"
    "mi_lo_bound s' = mi_lo_bound s" "mi_hi_bound s' = mi_hi_bound s" "mi_total_size s' = mi_total_size s"
    "mi_orig_size s' = mi_orig_size s" "mi_allow_oom s' = mi_allow_oom s" by blast+
  show "a \<notin> fields (dom L) \<Longrightarrow> a < p \<or> p + 16 + csz \<le> a \<or> p + 8 \<le> a \<and> a < p + 8 + sz \<Longrightarrow> mi_ram s' a = mi_ram s a"
    using goal by blast
qed

section \<open>Replacing neighbouring chunks\<close>

text \<open>
  The words that an operation on some chunks may change: the region of the chunks, and the pointers in the other free
  chunks.
\<close>

definition scope :: "chunk list \<Rightarrow> chunk list \<Rightarrow> int \<Rightarrow> int \<Rightarrow> int set" where
  "scope xs ys m n = fields (dom (free_map (xs @ ys))) \<union> {m..<n}"

lemma chunk_bounds:
  assumes "tiled a (xs @ ds @ ys) b" "tiled m ds n" "ds \<noteq> []" "(p, sz, u) \<in> set (xs @ ys)"
  shows "p + 16 + sz \<le> m \<or> n \<le> p"
proof -
  obtain m' n' where t: "tiled a xs m'" "tiled m' ds n'" "tiled n' ys b" using assms(1) by (auto simp: tiled_append)
  have e: "m' = m" using assms(2,3) t(2) by (cases ds) auto
  have "n' = n" using t(2) assms(2) unfolding e by (blast dest: tiled_end)
  then show ?thesis using assms(4) tiled_member [OF t(1), of p sz u] tiled_member [OF t(3), of p sz u] e by auto
qed

lemma scope_spares_others:
  assumes "tiled a (xs @ ds @ ys) b" "tiled m ds n" "ds \<noteq> []" "(p, sz, u) \<in> set (xs @ ys)" "x \<in> {p..<p + 16 + sz}"
    and "u \<or> x = p \<or> x = p + 8 + sz"
  shows "x \<notin> scope xs ys m n"
proof -
  have sub: "c \<in> set (xs @ ys) \<Longrightarrow> c \<in> set (xs @ ds @ ys)" for c by auto
  have sz: "24 \<le> sz" using tiled_member [OF assms(1) sub [OF assms(4)]] by simp
  have "p + 16 + sz \<le> m \<or> n \<le> p" by (rule chunk_bounds [OF assms(1-4)])
  then have out: "x \<notin> {m..<n}" using assms(5) by auto
  have "x \<notin> fields (dom (free_map (xs @ ys)))"
  proof
    assume "x \<in> fields (dom (free_map (xs @ ys)))"
    then obtain q tz where q: "(q, tz, False) \<in> set (xs @ ys)" "x = q + 8 \<or> x = q + 16"
      unfolding fields_def free_map_dom by blast
    have tz: "24 \<le> tz" using tiled_member [OF assms(1) sub [OF q(1)]] by simp
    from tiled_apart [OF assms(1) sub [OF assms(4)] sub [OF q(1)]] show False
    proof (elim disjE)
      assume "(p, sz, u) = (q, tz, False)"
      then show False using q(2) assms(6) sz by auto
    qed (use q(2) assms(5) tz in auto)
  qed
  then show ?thesis using out by (simp add: scope_def)
qed

lemma replace_tagged:
  assumes "tiled a (xs @ ds @ ys) b" "tiled m ds n" "ds \<noteq> []" "tagged r (xs @ ys)"
    and "\<And>x. x \<notin> scope xs ys m n \<Longrightarrow> r' x = r x"
  shows "tagged r' (xs @ ys)"
  unfolding tagged_def
proof (clarify, intro conjI)
  fix p sz u assume c: "(p, sz, u) \<in> set (xs @ ys)"
  have sz: "24 \<le> sz" using tiled_member [OF assms(1), of p sz u] c by auto
  have "p \<notin> scope xs ys m n" "p + 8 + sz \<notin> scope xs ys m n"
    by (rule scope_spares_others [OF assms(1-3) c]; use sz in simp)+
  then have "r' p = r p" "r' (p + 8 + sz) = r (p + 8 + sz)" by (simp_all add: assms(5))
  moreover have "r p = size_word sz u \<and> r (p + 8 + sz) = size_word sz u" using assms(4) c unfolding tagged_def by blast
  ultimately show "r' p = size_word sz u" "r' (p + 8 + sz) = size_word sz u" by simp_all
qed

lemma free_map_replace:
  assumes "tiled a (xs @ new @ ys) b"
  shows "free_map (xs @ new @ ys) = free_map (xs @ ys) ++ free_map new"
proof -
  note d = tiled_distinct [OF assms]
  then have d': "distinct (map fst (xs @ ys))" "distinct (map fst new)" by auto
  show ?thesis
  proof (rule map_eqI)
    fix p v
    have "free_map (xs @ ys) p = None" if "(p, w, False) \<in> set new" for w
    proof (rule ccontr)
      assume "free_map (xs @ ys) p \<noteq> None"
      then have "p \<in> fst ` set (xs @ ys)" using free_map_iff [OF d'(1)] by force
      moreover have "p \<in> fst ` set new" using that by force
      ultimately show False using d by auto
    qed
    then show "free_map (xs @ new @ ys) p = Some v \<longleftrightarrow> (free_map (xs @ ys) ++ free_map new) p = Some v"
      unfolding map_add_Some_iff free_map_iff [OF d] free_map_iff [OF d'(1)] free_map_iff [OF d'(2)] not_None_eq [symmetric]
      by (metis Un_iff free_map_iff [OF d'(1)] free_map_iff [OF d'(2)] not_None_eq option.distinct(1) set_append)
  qed
qed

text \<open>
  The step of every operation: the chunks \<open>ds\<close> from \<open>m\<close> to \<open>n\<close> become the chunks \<open>new\<close>.
\<close>

lemma mem_inv_replace:
  assumes inv: "mem_inv s (xs @ ds @ ys)" and tiles: "tiled m ds n" "tiled m new n" "ds \<noteq> []" "new \<noteq> []"
    and settled: "settled (xs @ new @ ys)"
    and lists: "lists_ok s' (free_map (xs @ ys) ++ free_map new)" and tags: "tagged (mi_ram s') new"
    and frame: "\<And>x. x \<notin> scope xs ys m n \<Longrightarrow> mi_ram s' x = mi_ram s x"
    and counters: "mi_free_size s' = mi_free_size s - chunk_sum False ds + chunk_sum False new"
      "mi_used_size s' = mi_used_size s - chunk_sum True ds + chunk_sum True new"
    and same: "mi_lo_bound s' = mi_lo_bound s" "mi_hi_bound s' = mi_hi_bound s" "mi_total_size s' = mi_total_size s"
  shows "mem_inv s' (xs @ new @ ys)"
proof -
  have t: "tiled (mi_lo_bound s) (xs @ ds @ ys) (mi_hi_bound s)" using inv by (simp add: mem_inv_def)
  then obtain m' n' where t': "tiled (mi_lo_bound s) xs m'" "tiled m' ds n'" "tiled n' ys (mi_hi_bound s)"
    by (auto simp: tiled_append)
  have e: "m' = m" using tiles(1,3) t'(2) by (cases ds) auto
  have "n' = n" using t'(2) tiles(1) unfolding e by (blast dest: tiled_end)
  then have tn: "tiled (mi_lo_bound s) (xs @ new @ ys) (mi_hi_bound s)"
    using t' tiles(2) e by (auto simp: tiled_append)
  have "tagged (mi_ram s) (xs @ ys)" using inv by (simp add: mem_inv_def)
  then have "tagged (mi_ram s') (xs @ ys)" by (rule replace_tagged [OF t tiles(1,3) _ frame])
  then have "tagged (mi_ram s') (xs @ new @ ys)" using tags by simp
  moreover have "chunk_sum u (xs @ new @ ys) = chunk_sum u (xs @ ds @ ys) - chunk_sum u ds + chunk_sum u new" for u by simp
  ultimately show ?thesis
    using inv tiles(4) settled lists tn counters unfolding mem_inv_def same free_map_replace [OF tn] by simp
qed

section \<open>Used blocks\<close>

text \<open>
  What the clients see: a block for every used chunk, with the words of its memory.
\<close>

definition contents :: "(int \<Rightarrow> int) \<Rightarrow> int \<Rightarrow> int \<Rightarrow> int list" where
  "contents r ptr sz = map (\<lambda>k. r (ptr + 8 * int k)) [0..<nat (sz div 8)]"

definition blocks :: "(int \<Rightarrow> int) \<Rightarrow> chunk list \<Rightarrow> int \<rightharpoonup> int list" where
  "blocks r cs = map_of (map (\<lambda>(p, sz, u). (p + 8, contents r (p + 8) sz)) (filter (\<lambda>(p, sz, u). u) cs))"

lemma blocks_iff:
  assumes "distinct (map fst cs)"
  shows "blocks r cs ptr = Some d \<longleftrightarrow> (\<exists>sz. (ptr - 8, sz, True) \<in> set cs \<and> d = contents r ptr sz)"
proof -
  have "distinct (map fst (filter (\<lambda>(p, sz, u). u) cs))" by (rule distinct_map_filter [OF assms])
  then have "distinct (map (\<lambda>p. p + 8) (map fst (filter (\<lambda>(p, sz, u). u) cs)))"
    by (simp only: distinct_map) (auto simp: inj_on_def)
  then have "distinct (map fst (map (\<lambda>(p, sz, u). (p + 8, contents r (p + 8) sz)) (filter (\<lambda>(p, sz, u). u) cs)))"
    by (simp add: case_prod_unfold comp_def)
  then show ?thesis unfolding blocks_def by (subst map_of_eq_Some_iff) force+
qed

lemma contents_eqI:
  assumes "\<And>x. ptr \<le> x \<Longrightarrow> x < ptr + sz \<Longrightarrow> r' x = r x"
  shows "contents r' ptr sz = contents r ptr sz"
  unfolding contents_def
proof (rule map_cong [OF refl])
  fix k assume "k \<in> set [0..<nat (sz div 8)]"
  then have "int k < sz div 8" by auto
  then have "8 * int k < sz" by linarith
  then show "r' (ptr + 8 * int k) = r (ptr + 8 * int k)" by (intro assms) auto
qed

lemma blocks_dom: "blocks r cs ptr \<noteq> None \<longleftrightarrow> (\<exists>sz. (ptr - 8, sz, True) \<in> set cs)"
  by (force simp: blocks_def map_of_eq_None_iff)

lemma blocks_split:
  assumes "tiled a (xs @ ds @ ys) b"
  shows "blocks r (xs @ ds @ ys) = blocks r (xs @ ys) ++ blocks r ds"
    and "(p, sz, u) \<in> set ds \<Longrightarrow> blocks r (xs @ ys) (p + 8) = None"
proof -
  note d = tiled_distinct [OF assms]
  then have d': "distinct (map fst (xs @ ys))" "distinct (map fst ds)" by auto
  have none: "blocks r (xs @ ys) (p + 8) = None" if "(p, sz, u) \<in> set ds" for p sz u
  proof (rule ccontr)
    assume "blocks r (xs @ ys) (p + 8) \<noteq> None"
    then have "p \<in> fst ` set (xs @ ys)" unfolding blocks_dom by force
    moreover have "p \<in> fst ` set ds" using that by force
    ultimately show False using d by auto
  qed
  show "(p, sz, u) \<in> set ds \<Longrightarrow> blocks r (xs @ ys) (p + 8) = None" by (rule none)
  show "blocks r (xs @ ds @ ys) = blocks r (xs @ ys) ++ blocks r ds"
  proof (rule map_eqI)
    fix q v
    have "blocks r ds q = Some w \<Longrightarrow> blocks r (xs @ ys) q = None" for w
      using none [of "q - 8"] by (auto simp: blocks_iff [OF d'(2)])
    then show "blocks r (xs @ ds @ ys) q = Some v \<longleftrightarrow> (blocks r (xs @ ys) ++ blocks r ds) q = Some v"
      using blocks_iff [OF d, of r q v] blocks_iff [OF d'(1), of r q v] blocks_iff [OF d'(2), of r q v]
      by (auto simp: map_add_Some_iff)
  qed
qed

lemma blocks_frame:
  assumes "tiled a (xs @ ds @ ys) b" "tiled m ds n" "ds \<noteq> []" "\<And>x. x \<notin> scope xs ys m n \<Longrightarrow> r' x = r x"
  shows "blocks r' (xs @ ys) = blocks r (xs @ ys)"
proof (rule map_eqI)
  have d: "distinct (map fst (xs @ ys))" using tiled_distinct [OF assms(1)] by auto
  have "contents r' ptr sz = contents r ptr sz" if "(ptr - 8, sz, True) \<in> set (xs @ ys)" for ptr sz
  proof (rule contents_eqI)
    fix x assume "ptr \<le> x" "x < ptr + sz"
    then show "r' x = r x" by (intro assms(4) scope_spares_others [OF assms(1-3) that]) auto
  qed
  then show "blocks r' (xs @ ys) q = Some v \<longleftrightarrow> blocks r (xs @ ys) q = Some v" for q v
    unfolding blocks_iff [OF d] by auto
qed

end
