(* ===== verification/MemOps.thy ===== *)
theory MemOps
  imports MemSafe
begin

text \<open>
  What the operations of the shared memory allocator do to its chunks and to the blocks of its clients.
\<close>

section \<open>Reading the memory under the invariant\<close>

lemma mem_inv_split:
  assumes "mem_inv s (xs @ (p, sz, u) # ys)"
  shows "tiled (mi_lo_bound s) xs p" "tiled (p + 16 + sz) ys (mi_hi_bound s)" "24 \<le> sz" "sz mod 8 = 0" "sz < 2 ^ 63" "0 < p"
    "CHUNK_SIZE s p = sz" "FREE_CHUNK s p \<longleftrightarrow> \<not> u" "CHUNK_SIZE s (p + 8 + sz) = sz" "FREE_CHUNK s (p + 8 + sz) \<longleftrightarrow> \<not> u"
    "p mod 8 = 0" "p + 16 + sz \<le> mi_hi_bound s"
proof -
  have t: "tiled (mi_lo_bound s) (xs @ (p, sz, u) # ys) (mi_hi_bound s)" and b: "0 < mi_lo_bound s" "mi_hi_bound s < 2 ^ 63"
    "mi_lo_bound s mod 8 = 0" and g: "tagged (mi_ram s) (xs @ (p, sz, u) # ys)"
    using assms by (simp_all add: mem_inv_def)
  show t': "tiled (mi_lo_bound s) xs p" "tiled (p + 16 + sz) ys (mi_hi_bound s)" using t by (auto simp: tiled_append)
  have m: "mi_lo_bound s \<le> p \<and> p + 16 + sz \<le> mi_hi_bound s \<and> 24 \<le> sz \<and> sz mod 8 = 0 \<and> p mod 8 = mi_lo_bound s mod 8"
    using tiled_member [OF t, of p sz u] by simp
  then show sz: "24 \<le> sz" "sz mod 8 = 0" "sz < 2 ^ 63" "0 < p" "p mod 8 = 0" "p + 16 + sz \<le> mi_hi_bound s" using b by auto
  have "0 \<le> sz" using sz by simp
  then show "CHUNK_SIZE s p = sz" "FREE_CHUNK s p \<longleftrightarrow> \<not> u" "CHUNK_SIZE s (p + 8 + sz) = sz" "FREE_CHUNK s (p + 8 + sz) \<longleftrightarrow> \<not> u"
    using g size_word_size [of sz u] size_word_free [of sz u] sz(3) by (simp_all add: CHUNK_SIZE_def FREE_CHUNK_def)
qed

lemma mem_inv_distinct: "mem_inv s cs \<Longrightarrow> distinct (map fst cs)"
  unfolding mem_inv_def by (blast intro: tiled_distinct)

lemma mem_inv_free_map: "mem_inv s cs \<Longrightarrow> free_map cs p = Some sz \<longleftrightarrow> (p, sz, False) \<in> set cs"
  by (rule free_map_iff [OF mem_inv_distinct])

lemma tiled_singleton: "tiled p [(p, sz, u)] n \<longleftrightarrow> n = p + 16 + sz \<and> 24 \<le> sz \<and> sz mod 8 = 0"
  by auto

text \<open>The chunks after and before a chunk, which the size words tell to be free or used.\<close>

lemma next_chunk:
  assumes "mem_inv s (xs @ (p, sz, u) # ys)"
  defines "n \<equiv> p + MEM_SIZE_FIELD + sz + MEM_SIZE_FIELD"
  shows "n < mi_hi_bound s \<and> FREE_CHUNK s n \<longleftrightarrow> (\<exists>nsz zs. ys = (n, nsz, False) # zs)"
    "ys = (n, nsz, v) # zs \<Longrightarrow> CHUNK_SIZE s n = nsz"
proof -
  note t = mem_inv_split [OF assms(1)]
  have n: "n = p + 16 + sz" by (simp add: n_def mem_consts)
  show "n < mi_hi_bound s \<and> FREE_CHUNK s n \<longleftrightarrow> (\<exists>nsz zs. ys = (n, nsz, False) # zs)"
  proof (cases ys)
    case Nil
    then show ?thesis using t(2) by (simp add: n)
  next
    case (Cons c zs)
    obtain q nsz v where c: "c = (q, nsz, v)" by (cases c)
    have q: "q = n" using t(2) Cons c by (simp add: n)
    have inv: "mem_inv s ((xs @ [(p, sz, u)]) @ (n, nsz, v) # zs)" using assms(1) Cons c q by simp
    show ?thesis using mem_inv_split(3,8,12) [OF inv] Cons c q by auto
  qed
  show "CHUNK_SIZE s n = nsz" if "ys = (n, nsz, v) # zs"
    using mem_inv_split(7) [of s "xs @ [(p, sz, u)]" n nsz v zs] assms(1) that by simp
qed

lemma prev_chunk:
  assumes "mem_inv s (xs @ (p, sz, u) # ys)"
  shows "mi_lo_bound s < p \<and> FREE_CHUNK s (p - 8) \<longleftrightarrow> (\<exists>ws q qsz. xs = ws @ [(q, qsz, False)])"
    "xs = ws @ [(q, qsz, v)] \<Longrightarrow> CHUNK_SIZE s (p - 8) = qsz \<and> p = q + 16 + qsz"
proof -
  note t = mem_inv_split [OF assms(1)]
  have e: "CHUNK_SIZE s (p - 8) = qsz \<and> p = q + 16 + qsz \<and> (FREE_CHUNK s (p - 8) \<longleftrightarrow> \<not> v) \<and> mi_lo_bound s < p"
    if "xs = ws @ [(q, qsz, v)]" for ws q qsz v
  proof -
    have inv: "mem_inv s (ws @ (q, qsz, v) # (p, sz, u) # ys)" using assms(1) that by simp
    note q = mem_inv_split [OF inv]
    have "p = q + 16 + qsz" using q(2) by simp
    moreover from this have e: "p - 8 = q + 8 + qsz" by simp
    moreover have "mi_lo_bound s \<le> q" by (rule tiled_le [OF q(1)])
    ultimately show ?thesis using q(3,9,10) unfolding e by auto
  qed
  show "xs = ws @ [(q, qsz, v)] \<Longrightarrow> CHUNK_SIZE s (p - 8) = qsz \<and> p = q + 16 + qsz" using e by blast
  show "mi_lo_bound s < p \<and> FREE_CHUNK s (p - 8) \<longleftrightarrow> (\<exists>ws q qsz. xs = ws @ [(q, qsz, False)])"
  proof (cases xs rule: rev_cases)
    case Nil
    then show ?thesis using t(1) by simp
  next
    case (snoc ws c)
    obtain q qsz v where c: "c = (q, qsz, v)" by (cases c)
    then have "FREE_CHUNK s (p - 8) \<longleftrightarrow> \<not> v" "mi_lo_bound s < p" using e [of ws q qsz v] snoc by blast+
    then show ?thesis using snoc c by simp
  qed
qed

text \<open>A used chunk is its pointer, less the size word.\<close>

lemma blocks_used:
  assumes "mem_inv s cs" "blocks (mi_ram s) cs ptr = Some d"
  obtains xs sz ys where "cs = xs @ (ptr - 8, sz, True) # ys" "d = contents (mi_ram s) ptr sz"
proof -
  obtain sz where "(ptr - 8, sz, True) \<in> set cs" "d = contents (mi_ram s) ptr sz"
    using assms blocks_iff [OF mem_inv_distinct [OF assms(1)]] by auto
  moreover from this obtain xs ys where "cs = xs @ (ptr - 8, sz, True) # ys" by (meson split_list)
  ultimately show ?thesis by (intro that)
qed

lemma contents_length: "0 \<le> sz \<Longrightarrow> sz mod 8 = 0 \<Longrightarrow> 8 * int (length (contents r ptr sz)) = sz"
  by (auto simp: contents_def)

section \<open>Regions and free lists\<close>

text \<open>A region of neighbouring chunks lies apart from the other free chunks.\<close>

lemma region_apart:
  assumes "tiled a (xs @ ds @ ys) b" "tiled m ds n" "ds \<noteq> []"
  shows "apart m n (free_map (xs @ ys))"
  unfolding apart_def
proof
  fix q assume "q \<in> dom (free_map (xs @ ys))"
  then obtain tz where q: "(q, tz, False) \<in> set (xs @ ys)" unfolding free_map_dom by blast
  then have "24 \<le> tz" using tiled_member [OF assms(1), of q tz False] by auto
  then show "q + 24 \<le> m \<or> n \<le> q" using chunk_bounds [OF assms q] by auto
qed

lemma free_map_cons:
  assumes "distinct (map fst (xs @ (p, sz, u) # ys))"
  shows "free_map (xs @ (p, sz, u) # ys) = (if u then free_map (xs @ ys) else (free_map (xs @ ys))(p \<mapsto> sz))"
    "free_map (xs @ ys) p = None"
proof -
  have d: "distinct (map fst (xs @ ys))" using assms by auto
  have new: "(p, tz, v) \<notin> set (xs @ ys)" for tz v using assms by force
  show n: "free_map (xs @ ys) p = None"
  proof (rule ccontr)
    assume "free_map (xs @ ys) p \<noteq> None"
    then obtain w where "free_map (xs @ ys) p = Some w" by blast
    then show False using new by (simp add: free_map_iff [OF d])
  qed
  show "free_map (xs @ (p, sz, u) # ys) = (if u then free_map (xs @ ys) else (free_map (xs @ ys))(p \<mapsto> sz))"
  proof (rule map_eqI)
    fix q v
    show "free_map (xs @ (p, sz, u) # ys) q = Some v \<longleftrightarrow>
        (if u then free_map (xs @ ys) else (free_map (xs @ ys))(p \<mapsto> sz)) q = Some v"
      using n free_map_iff [OF assms, of q v] free_map_iff [OF d, of q v] new by (cases u; cases "q = p") auto
  qed
qed

lemma fields_mono: "S \<subseteq> T \<Longrightarrow> fields S \<subseteq> fields T"
  unfolding fields_def by blast

lemma fields_in_scope:
  assumes "tiled m ds n" "x \<in> fields (dom (free_map (xs @ ds @ ys)))"
  shows "x \<in> scope xs ys m n"
proof -
  obtain p sz where p: "(p, sz, False) \<in> set (xs @ ds @ ys)" "x = p + 8 \<or> x = p + 16"
    using assms(2) unfolding fields_def free_map_dom by blast
  show ?thesis
  proof (cases "(p, sz, False) \<in> set ds")
    case True
    then show ?thesis using tiled_member [OF assms(1) True] p(2) by (auto simp: scope_def)
  next
    case False
    then have "p \<in> dom (free_map (xs @ ys))" using p(1) unfolding free_map_dom by auto
    then show ?thesis using p(2) unfolding scope_def fields_def by blast
  qed
qed

text \<open>Unlinking a free chunk.\<close>

lemma unlink_free:
  assumes "lists_ok s (free_map (xs @ (p, sz, False) # ys))" "distinct (map fst (xs @ (p, sz, False) # ys))" "CHUNK_SIZE s p = sz"
  shows "lists_ok (mem_unlink_chunk p s) (free_map (xs @ ys))"
    "x \<notin> fields (dom (free_map (xs @ ys))) \<Longrightarrow> mi_ram (mem_unlink_chunk p s) x = mi_ram s x"
proof -
  note f = free_map_cons [OF assms(2)]
  have L: "free_map (xs @ (p, sz, False) # ys) p = Some sz" using f by simp
  have r: "(free_map (xs @ (p, sz, False) # ys))(p := None) = free_map (xs @ ys)" using f by (auto simp: fun_upd_idem_iff)
  note u = mem_unlink_chunk_ok [OF assms(1) L assms(3)]
  show "lists_ok (mem_unlink_chunk p s) (free_map (xs @ ys))" using u(1) unfolding r .
  have "dom (free_map (xs @ (p, sz, False) # ys)) - {p} = dom (free_map (xs @ ys))" using f by auto
  then show "x \<notin> fields (dom (free_map (xs @ ys))) \<Longrightarrow> mi_ram (mem_unlink_chunk p s) x = mi_ram s x"
    using u(2) by (simp add: same_but_def)
qed

section \<open>Allocation\<close>

lemma carve_tiled:
  assumes "24 \<le> sz" "sz mod 8 = 0" "sz \<le> csz" "csz mod 8 = 0"
  shows "tiled p (carve p csz sz) (p + 16 + csz)"
proof -
  have "(csz - sz - 16) mod 8 = 0" using assms(2,4) by presburger
  then show ?thesis using assms by (auto simp: carve_def)
qed

lemma carve_free_map:
  "free_map (carve p csz sz) = (if csz < sz + 40 then Map.empty else [p + 16 + sz \<mapsto> csz - sz - 16])"
  by (simp add: carve_def free_map_def)

lemma carve_settled:
  assumes "settled (xs @ (p, a, u) # ys)" "\<not> u \<or> (\<exists>b v zs. ys = (b, v, True) # zs) \<or> ys = []"
  shows "settled (xs @ carve p csz sz @ ys)"
  using assms by (cases ys) (auto simp: carve_def successively_append_iff split: prod.splits)

text \<open>
  A free region, not linked, that comes from the chunks \<open>ds\<close>: what the carving makes of it.
\<close>

lemma mem_use_chunk_inv:
  assumes inv: "mem_inv s (xs @ ds @ ys)" and ds: "tiled p ds (p + 16 + csz)" "ds \<noteq> []"
    and s1: "lists_ok s1 (free_map (xs @ ys))" "\<And>x. x \<notin> scope xs ys p (p + 16 + csz) \<Longrightarrow> mi_ram s1 x = mi_ram s x"
      "mi_lo_bound s1 = mi_lo_bound s" "mi_hi_bound s1 = mi_hi_bound s" "mi_total_size s1 = mi_total_size s"
      "mi_used_size s1 = mi_used_size s - chunk_sum True ds" "mi_free_size s1 = mi_free_size s - chunk_sum False ds + csz"
    and sz: "24 \<le> sz" "sz mod 8 = 0" "sz \<le> csz" and settled: "settled (xs @ carve p csz sz @ ys)"
  defines "s' \<equiv> mem_use_chunk p csz sz s1"
  shows "mem_inv s' (xs @ carve p csz sz @ ys)" "blocks (mi_ram s') (xs @ carve p csz sz @ ys) =
      (blocks (mi_ram s) (xs @ ys))(p + 8 \<mapsto> contents (mi_ram s') (p + 8) (if csz < sz + 40 then csz else sz))"
    "p + 8 \<le> x \<Longrightarrow> x < p + 8 + sz \<Longrightarrow> mi_ram s' x = mi_ram s1 x" "mi_orig_size s' = mi_orig_size s1" "mi_allow_oom s' = mi_allow_oom s1"
proof -
  have t: "tiled (mi_lo_bound s) (xs @ ds @ ys) (mi_hi_bound s)" and b: "0 < mi_lo_bound s" "mi_hi_bound s < 2 ^ 63"
    using inv by (simp_all add: mem_inv_def)
  note ap = region_apart [OF t ds]
  obtain m where m: "tiled (mi_lo_bound s) xs m" "tiled m (ds @ ys) (mi_hi_bound s)" using t by (auto simp: tiled_append)
  have "m = p" using ds m(2) by (cases ds) auto
  then have p: "0 < p" using tiled_le [OF m(1)] b by simp
  have hi: "p + 16 + csz \<le> mi_hi_bound s"
    using m(2) ds(1) \<open>m = p\<close> by (auto simp: tiled_append dest: tiled_end tiled_le)
  have csz: "csz < 2 ^ 63" using hi p b by linarith
  have cm: "csz mod 8 = 0" using tiled_mod [OF ds(1)] by presburger
  note u = mem_use_chunk_ok [OF s1(1) sz(1,3) csz p ap, folded s'_def]
  have L: "(if csz < sz + 40 then free_map (xs @ ys) else (free_map (xs @ ys))(p + 16 + sz \<mapsto> csz - sz - 16)) =
      free_map (xs @ ys) ++ free_map (carve p csz sz)"
    by (simp add: carve_free_map)
  have ct: "tiled p (carve p csz sz) (p + 16 + csz)" by (rule carve_tiled [OF sz cm])
  have frame: "mi_ram s' x = mi_ram s x" if "x \<notin> scope xs ys p (p + 16 + csz)" for x
  proof -
    have "mi_ram s' x = mi_ram s1 x" by (rule u(3)) (use that in \<open>auto simp: scope_def\<close>)
    then show ?thesis using s1(2) [OF that] by simp
  qed
  show inv': "mem_inv s' (xs @ carve p csz sz @ ys)"
    by (rule mem_inv_replace [OF inv ds(1) ct ds(2) _ settled])
      (use u L s1 frame in \<open>auto simp: carve_def\<close>)
  have t': "tiled (mi_lo_bound s') (xs @ carve p csz sz @ ys) (mi_hi_bound s')" using inv' by (simp add: mem_inv_def)
  have "blocks (mi_ram s') (carve p csz sz) = [p + 8 \<mapsto> contents (mi_ram s') (p + 8) (if csz < sz + 40 then csz else sz)]"
    by (simp add: carve_def blocks_def)
  then show "blocks (mi_ram s') (xs @ carve p csz sz @ ys) =
      (blocks (mi_ram s) (xs @ ys))(p + 8 \<mapsto> contents (mi_ram s') (p + 8) (if csz < sz + 40 then csz else sz))"
    using blocks_split(1) [OF t', of "mi_ram s'"] blocks_frame [OF t ds frame] by simp
  show "mi_ram s' x = mi_ram s1 x" if "p + 8 \<le> x" "x < p + 8 + sz"
    by (rule u(3)) (use that apart_fields [OF ap, of x] sz(3) in auto)
  show "mi_orig_size s' = mi_orig_size s1" "mi_allow_oom s' = mi_allow_oom s1" using u by simp_all
qed

lemma mem_malloc_ok:
  fixes n :: int
  assumes inv: "mem_inv s cs"
  defines "sz \<equiv> mem_proper_alloc_size n"
  shows "\<exists>p s'. mem_malloc s n = Some (p, s') \<and>
    (p = 0 \<and> s' = s \<and> (\<forall>q c. (q, c, False) \<in> set cs \<longrightarrow> c < sz) \<or>
     (\<exists>xs csz ys d. cs = xs @ (p, csz, False) # ys \<and> sz \<le> csz \<and> 0 < p \<and> mem_inv s' (xs @ carve p csz sz @ ys) \<and>
        blocks (mi_ram s) cs (p + 8) = None \<and>
        blocks (mi_ram s') (xs @ carve p csz sz @ ys) = (blocks (mi_ram s) cs)(p + 8 \<mapsto> d) \<and> sz \<le> 8 * int (length d) \<and>
        mi_allow_oom s' = mi_allow_oom s))"
proof -
  have sz: "24 \<le> sz" "sz mod 8 = 0" using proper_size [of n] by (simp_all add: sz_def mem_consts)
  have lists: "lists_ok s (free_map cs)" using inv by (simp add: mem_inv_def)
  have mem: "24 \<le> c \<and> c mod 8 = 0 \<and> CHUNK_SIZE s q = c" if "free_map cs q = Some c" for q c
  proof -
    have "(q, c, False) \<in> set cs" using that by (simp add: mem_inv_free_map [OF inv])
    then obtain xs ys where "cs = xs @ (q, c, False) # ys" by (meson split_list)
    then show ?thesis using mem_inv_split(3,4,7) [of s xs q c False ys] inv by simp
  qed
  have "\<exists>c. mem_find_chunk s sz = Some c \<and>
      (c = 0 \<and> (\<forall>x\<in>ran (free_map cs). x < sz) \<or> c \<noteq> 0 \<and> (\<exists>x. free_map cs c = Some x \<and> sz \<le> x))"
    by (rule mem_find_chunk_result [OF lists _ _ sz]) (use mem in auto)
  then obtain p where p: "mem_find_chunk s sz = Some p"
    "p = 0 \<and> (\<forall>x\<in>ran (free_map cs). x < sz) \<or> p \<noteq> 0 \<and> (\<exists>x. free_map cs p = Some x \<and> sz \<le> x)" by blast
  show ?thesis
  proof (cases "p = 0")
    case True
    then have "\<forall>q c. (q, c, False) \<in> set cs \<longrightarrow> c < sz"
      using p(2) by (auto simp: ran_def mem_inv_free_map [OF inv, symmetric])
    moreover have "mem_malloc s n = Some (0, s)" using p(1) True by (simp add: mem_malloc_def sz_def [symmetric])
    ultimately show ?thesis by blast
  next
    case False
    then obtain csz where c: "free_map cs p = Some csz" "sz \<le> csz" using p(2) by blast
    then obtain xs ys where cs: "cs = xs @ (p, csz, False) # ys" by (metis mem_inv_free_map [OF inv] split_list)
    note t = mem_inv_split [OF inv [unfolded cs]]
    have tl: "tiled (mi_lo_bound s) (xs @ [(p, csz, False)] @ ys) (mi_hi_bound s)" using inv cs by (simp add: mem_inv_def)
    have ds: "tiled p [(p, csz, False)] (p + 16 + csz)" using t(3,4) by simp
    define s1 where "s1 = mem_unlink_chunk p s"
    note u = unlink_free [OF lists [unfolded cs] _ t(7), folded s1_def]
    have d: "distinct (map fst (xs @ (p, csz, False) # ys))" using mem_inv_distinct [OF inv] cs by simp
    have fr: "mi_ram s1 x = mi_ram s x" if "x \<notin> scope xs ys p (p + 16 + csz)" for x
      by (rule u(2) [OF d]) (use that in \<open>simp add: scope_def\<close>)
    have settled: "settled (xs @ carve p csz sz @ ys)"
    proof (rule carve_settled)
      show "settled (xs @ (p, csz, False) # ys)" using inv cs by (simp add: mem_inv_def)
    qed simp
    have inv1: "mem_inv s (xs @ [(p, csz, False)] @ ys)" using inv cs by simp
    note r = mem_use_chunk_inv [OF inv1 ds _ u(1) [OF d] fr _ _ _ _ _ sz c(2) settled]
    define s' where "s' = mem_use_chunk p csz sz s1"
    have m: "mem_malloc s n = Some (p, s')"
      using p(1) False t(7) by (simp add: mem_malloc_def sz_def [symmetric] s'_def s1_def)
    have B: "blocks (mi_ram s) cs = blocks (mi_ram s) (xs @ ys)"
      using blocks_split(1) [OF tl] by (simp add: cs blocks_def)
    have new: "blocks (mi_ram s) cs (p + 8) = None" unfolding B using blocks_split(2) [OF tl, of p csz False] by simp
    define k where "k = (if csz < sz + 40 then csz else sz)"
    define d where "d = contents (mi_ram s') (p + 8) k"
    have "mem_inv s' (xs @ carve p csz sz @ ys)" unfolding s'_def by (rule r(1)) (simp_all add: s1_def)
    moreover have "blocks (mi_ram s') (xs @ carve p csz sz @ ys) = (blocks (mi_ram s) cs)(p + 8 \<mapsto> d)"
      unfolding s'_def B d_def k_def by (rule r(2)) (simp_all add: s1_def)
    moreover have "sz \<le> 8 * int (length d)"
      using contents_length [of k] sz t(3,4) c(2) by (auto simp: d_def k_def)
    moreover have "mi_allow_oom s' = mi_allow_oom s" using r(5) by (simp add: s'_def s1_def)
    ultimately show ?thesis using m cs c(2) t(6) new by blast
  qed
qed

section \<open>Release\<close>

lemma tiled_length: "tiled m ds n \<Longrightarrow> ds \<noteq> [] \<Longrightarrow> 24 \<le> n - m - 16 \<and> (n - m - 16) mod 8 = 0"
proof -
  assume t: "tiled m ds n" "ds \<noteq> []"
  then obtain p sz u cs where "ds = (p, sz, u) # cs" by (cases ds) auto
  then have "24 \<le> n - m - 16" using t tiled_le [of "m + 16 + sz" cs n] by simp
  moreover have "n mod 8 = m mod 8" by (rule tiled_mod [OF t(1)])
  then have "(n - m) mod 8 = 0" by (simp add: mod_diff_eq [symmetric])
  then have "(n - m - 16) mod 8 = 0" by presburger
  ultimately show ?thesis by simp
qed

lemma merge_free:
  assumes inv: "mem_inv s (xs @ ds @ ys)" and ds: "tiled m ds n" "ds \<noteq> []"
    and s1: "lists_ok s1 (free_map (xs @ ys))" "\<And>x. x \<notin> scope xs ys m n \<Longrightarrow> mi_ram s1 x = mi_ram s x"
      "mi_lo_bound s1 = mi_lo_bound s" "mi_hi_bound s1 = mi_hi_bound s" "mi_total_size s1 = mi_total_size s"
      "mi_used_size s1 = mi_used_size s - chunk_sum True ds" "mi_free_size s1 = mi_free_size s - chunk_sum False ds + (n - m - 16)"
    and settled: "settled (xs @ [(m, n - m - 16, False)] @ ys)"
  defines "s' \<equiv> mem_link_chunk m (mem_set_chunk_size m (n - m - 16) s1)"
  shows "mem_inv s' (xs @ [(m, n - m - 16, False)] @ ys)"
    "blocks (mi_ram s') (xs @ [(m, n - m - 16, False)] @ ys) = blocks (mi_ram s) (xs @ ys)"
proof -
  have t: "tiled (mi_lo_bound s) (xs @ ds @ ys) (mi_hi_bound s)" and b: "0 < mi_lo_bound s" "mi_hi_bound s < 2 ^ 63"
    using inv by (simp_all add: mem_inv_def)
  note ap = region_apart [OF t ds]
  obtain m' where m: "tiled (mi_lo_bound s) xs m'" "tiled m' (ds @ ys) (mi_hi_bound s)" using t by (auto simp: tiled_append)
  have "m' = m" using ds m(2) by (cases ds) auto
  then have p: "0 < m" using tiled_le [OF m(1)] b by simp
  have hi: "n \<le> mi_hi_bound s"
    using m(2) ds(1) \<open>m' = m\<close> by (auto simp: tiled_append dest: tiled_end tiled_le)
  note l = tiled_length [OF ds]
  have lt: "n - m - 16 < 2 ^ 63" using hi p b by linarith
  have ap': "apart m (m + 16 + (n - m - 16)) (free_map (xs @ ys))" using ap by simp
  note f = make_free [OF s1(1) _ lt p ap', folded s'_def]
  have nt: "tiled m [(m, n - m - 16, False)] n" using l by simp
  have frame: "mi_ram s' x = mi_ram s x" if "x \<notin> scope xs ys m n" for x
  proof -
    have "mi_ram s' x = mi_ram s1 x" by (rule f(4)) (use that l in \<open>auto simp: scope_def\<close>)
    then show ?thesis using s1(2) [OF that] by simp
  qed
  have fm: "free_map (xs @ ys) ++ free_map [(m, n - m - 16, False)] = (free_map (xs @ ys))(m \<mapsto> n - m - 16)"
    by (simp add: free_map_def)
  show inv': "mem_inv s' (xs @ [(m, n - m - 16, False)] @ ys)"
  proof (rule mem_inv_replace [OF inv ds(1) nt ds(2) _ settled _ _ frame])
    show "lists_ok s' (free_map (xs @ ys) ++ free_map [(m, n - m - 16, False)])" unfolding fm by (rule f(1)) (use l in simp)
    show "tagged (mi_ram s') [(m, n - m - 16, False)]" using f(2,3) l by (simp add: size_word_def)
  qed (use s1 in \<open>simp_all add: s'_def\<close>)
  have t': "tiled (mi_lo_bound s') (xs @ [(m, n - m - 16, False)] @ ys) (mi_hi_bound s')" using inv' by (simp add: mem_inv_def)
  have "blocks (mi_ram s') [(m, n - m - 16, False)] = Map.empty" by (simp add: blocks_def)
  then show "blocks (mi_ram s') (xs @ [(m, n - m - 16, False)] @ ys) = blocks (mi_ram s) (xs @ ys)"
    using blocks_split(1) [OF t', of "mi_ram s'"] blocks_frame [OF t ds frame] by simp
qed

lemma counters_sel [simp]:
  "CHUNK_SIZE (s\<lparr>mi_used_size := a\<rparr>) = CHUNK_SIZE s" "CHUNK_SIZE (s\<lparr>mi_free_size := b\<rparr>) = CHUNK_SIZE s"
  "FREE_CHUNK (s\<lparr>mi_used_size := a\<rparr>) = FREE_CHUNK s" "FREE_CHUNK (s\<lparr>mi_free_size := b\<rparr>) = FREE_CHUNK s"
  by (auto simp: CHUNK_SIZE_def FREE_CHUNK_def)

lemma free_map_used [simp]: "free_map (xs @ (p, sz, True) # ys) = free_map (xs @ ys)"
  by (simp add: free_map_def)

lemma tag_not_field:
  assumes "tiled a cs b" "(p, sz, u) \<in> set cs" "set ds \<subseteq> set cs"
  shows "p \<notin> fields (dom (free_map ds))"
proof
  assume "p \<in> fields (dom (free_map ds))"
  then obtain q tz where q: "(q, tz, False) \<in> set cs" "p = q + 8 \<or> p = q + 16"
    using assms(3) unfolding fields_def free_map_dom by blast
  show False
    using tiled_apart [OF assms(1,2) q(1)] tiled_member [OF assms(1,2)] tiled_member [OF assms(1) q(1)] q(2) by auto
qed

lemma settled_hole:
  assumes "settled (xs @ ds @ ys)" "xs = [] \<or> (\<exists>p sz ws. xs = ws @ [(p, sz, True)])" "ys = [] \<or> (\<exists>p sz zs. ys = (p, sz, True) # zs)"
  shows "settled (xs @ [(m, n, False)] @ ys)"
  using assms by (auto simp: successively_append_iff)

text \<open>The neighbours of a chunk that are merged with it when it is freed.\<close>

lemma next_part_cases:
  assumes "settled ys"
  shows "(\<exists>q tz zs. ys = (q, tz, False) # zs \<and> (zs = [] \<or> (\<exists>p sz ws. zs = (p, sz, True) # ws))) \<or>
    (ys = [] \<or> (\<exists>p sz zs. ys = (p, sz, True) # zs))"
proof (cases ys)
  case (Cons c zs)
  obtain q tz u where c: "c = (q, tz, u)" by (cases c)
  show ?thesis
  proof (cases u)
    case True
    then show ?thesis using Cons c by blast
  next
    case False
    then show ?thesis using assms Cons c by (cases zs) auto
  qed
qed simp

lemma prev_part_cases:
  assumes "settled xs"
  shows "(\<exists>q tz ws. xs = ws @ [(q, tz, False)] \<and> (ws = [] \<or> (\<exists>p sz vs. ws = vs @ [(p, sz, True)]))) \<or>
    (xs = [] \<or> (\<exists>p sz ws. xs = ws @ [(p, sz, True)]))"
proof (cases xs rule: rev_cases)
  case (snoc ws c)
  obtain q tz u where c: "c = (q, tz, u)" by (cases c)
  show ?thesis
  proof (cases u)
    case True
    then show ?thesis using snoc c by blast
  next
    case False
    then show ?thesis using assms snoc c by (cases ws rule: rev_cases) (auto simp: successively_append_iff)
  qed
qed simp

text \<open>
  The chunk \<open>(p, sz)\<close> with the free chunks \<open>pre\<close> before and \<open>post\<close> after it, which have been unlinked, becomes one
  free chunk.
\<close>

lemma free_merged:
  assumes inv: "mem_inv s (ws @ (pre @ (p, sz, True) # post) @ zs)"
    and pre: "pre = [] \<or> (\<exists>q tz. pre = [(q, tz, False)])" and post: "post = [] \<or> (\<exists>q tz. post = [(q, tz, False)])"
    and ws: "ws = [] \<or> (\<exists>q tz vs. ws = vs @ [(q, tz, True)])" and zs: "zs = [] \<or> (\<exists>q tz vs. zs = (q, tz, True) # vs)"
    and s1: "lists_ok s1 (free_map (ws @ zs))"
      "\<And>x. x \<notin> fields (dom (free_map (ws @ (pre @ (p, sz, True) # post) @ zs))) \<Longrightarrow> mi_ram s1 x = mi_ram s x"
      "mi_lo_bound s1 = mi_lo_bound s" "mi_hi_bound s1 = mi_hi_bound s" "mi_total_size s1 = mi_total_size s"
      "mi_used_size s1 = mi_used_size s - sz" "mi_free_size s1 = mi_free_size s + sz + 16 * int (length pre + length post)"
    and m: "m = (case pre of [] \<Rightarrow> p | (q, tz, u) # _ \<Rightarrow> q)" and f: "f = sz + chunk_sum False (pre @ post) + 16 * int (length pre + length post)"
  defines "s' \<equiv> mem_link_chunk m (mem_set_chunk_size m f s1)"
  shows "mem_inv s' (ws @ [(m, f, False)] @ zs)"
    "blocks (mi_ram s') (ws @ [(m, f, False)] @ zs) = (blocks (mi_ram s) (ws @ (pre @ (p, sz, True) # post) @ zs))(p + 8 := None)"
proof -
  define ds where "ds = pre @ (p, sz, True) # post"
  have t: "tiled (mi_lo_bound s) (ws @ ds @ zs) (mi_hi_bound s)" and st: "settled (ws @ ds @ zs)"
    using inv by (simp_all add: mem_inv_def ds_def)
  obtain a b where ab: "tiled a ds b" using t by (auto simp: tiled_append)
  have d: "tiled m ds (m + 16 + f)"
    using ab pre post unfolding ds_def m f by (elim disjE exE) auto
  have e: "m + 16 + f - m - 16 = f" by simp
  have sums: "chunk_sum True ds = sz" "chunk_sum False ds = chunk_sum False (pre @ post)"
    using pre post by (auto simp: ds_def)
  have fr: "mi_ram s1 x = mi_ram s x" if "x \<notin> scope ws zs m (m + 16 + f)" for x
    using that fields_in_scope [OF d, of x ws zs] by (intro s1(2)) (auto simp: ds_def)
  have free: "mi_free_size s1 = mi_free_size s - chunk_sum False ds + f" using s1(7) sums f by simp
  note r = merge_free [OF inv [folded ds_def] d _ s1(1) fr s1(3-5), unfolded e sums(1), OF _ _ s1(6) free settled_hole [OF st ws zs],
      folded s'_def]
  show "mem_inv s' (ws @ [(m, f, False)] @ zs)" by (rule r(1)) (auto simp: ds_def)
  have B: "blocks (mi_ram s) (ws @ ds @ zs) = blocks (mi_ram s) (ws @ zs) ++ blocks (mi_ram s) ds"
    by (rule blocks_split(1) [OF t])
  have n: "blocks (mi_ram s) (ws @ zs) (p + 8) = None"
    using blocks_split(2) [OF t, of p sz True] by (simp add: ds_def)
  have one: "blocks (mi_ram s) ds = [p + 8 \<mapsto> contents (mi_ram s) (p + 8) sz]"
    using pre post by (auto simp: ds_def blocks_def)
  have "blocks (mi_ram s') (ws @ [(m, f, False)] @ zs) = blocks (mi_ram s) (ws @ zs)" by (rule r(2)) (auto simp: ds_def)
  then show "blocks (mi_ram s') (ws @ [(m, f, False)] @ zs) = (blocks (mi_ram s) (ws @ (pre @ (p, sz, True) # post) @ zs))(p + 8 := None)"
    using n unfolding B [unfolded ds_def] one [unfolded ds_def] by (auto simp: fun_upd_idem_iff)
qed

lemma mem_free_eq:
  assumes "CHUNK_SIZE s p = sz" "n = p + MEM_SIZE_FIELD + sz + MEM_SIZE_FIELD"
    and "pf \<longleftrightarrow> mi_lo_bound s < p \<and> FREE_CHUNK s (p - 8)" "nf \<longleftrightarrow> n < mi_hi_bound s \<and> FREE_CHUNK s n"
    and "q = p - 16 - CHUNK_SIZE s (p - 8)" "s0 = s\<lparr>mi_used_size := mi_used_size s - sz, mi_free_size := mi_free_size s + sz\<rparr>"
  shows "mem_free (p + MEM_SIZE_FIELD) s =
    (if pf \<and> nf then mem_link_chunk q (mem_set_chunk_size q (sz + (32 + CHUNK_SIZE s q + CHUNK_SIZE s n))
       (mem_unlink_chunk n (mem_unlink_chunk q (s0\<lparr>mi_free_size := mi_free_size s + sz + 32\<rparr>))))
     else if pf then mem_link_chunk q (mem_set_chunk_size q (sz + (16 + CHUNK_SIZE s q))
       (mem_unlink_chunk q (s0\<lparr>mi_free_size := mi_free_size s + sz + 16\<rparr>)))
     else if nf then mem_link_chunk p (mem_set_chunk_size p (sz + (16 + CHUNK_SIZE s n))
       (mem_unlink_chunk n (s0\<lparr>mi_free_size := mi_free_size s + sz + 16\<rparr>)))
     else mem_link_chunk p (mem_set_chunk_size p sz s0))"
proof -
  have "p - CHUNK_SIZE s (p - 8) - 16 = q" "16 + (p + sz) = n" using assms(2,5) by (simp_all add: mem_consts)
  then show ?thesis
    unfolding mem_free_def Let_def add_diff_cancel_right' assms(1)
    by (simp add: assms(3,4) [symmetric] assms(6) mem_consts)
qed

lemma mem_free_ok:
  assumes inv: "mem_inv s (xs @ (p, sz, True) # ys)"
  defines "next_chunk \<equiv> p + MEM_SIZE_FIELD + sz + MEM_SIZE_FIELD" and "s' \<equiv> mem_free (p + MEM_SIZE_FIELD) s"
  shows "\<exists>ws m f zs. mem_inv s' (ws @ [(m, f, False)] @ zs) \<and>
    blocks (mi_ram s') (ws @ [(m, f, False)] @ zs) = (blocks (mi_ram s) (xs @ (p, sz, True) # ys))(p + 8 := None) \<and>
    f = sz + (if next_chunk < mi_hi_bound s \<and> FREE_CHUNK s next_chunk then CHUNK_SIZE s next_chunk + 16 else 0) +
      (if mi_lo_bound s < p \<and> FREE_CHUNK s (p - 8) then CHUNK_SIZE s (p - 8) + 16 else 0) \<and> mi_allow_oom s' = mi_allow_oom s"
proof -
  have st: "settled (xs @ (p, sz, True) # ys)" and lists: "lists_ok s (free_map (xs @ ys))"
    using inv by (simp_all add: mem_inv_def)
  have sx: "settled xs" "settled ys" using st by (auto simp: successively_append_iff successively_Cons)
  have d: "distinct (map fst (xs @ (p, sz, True) # ys))" by (rule mem_inv_distinct [OF inv])
  have tl: "tiled (mi_lo_bound s) (xs @ (p, sz, True) # ys) (mi_hi_bound s)" using inv by (simp add: mem_inv_def)
  note t = mem_inv_split [OF inv] and nx = next_chunk [OF inv, folded next_chunk_def] and pv = prev_chunk [OF inv]
  have p8: "p + MEM_SIZE_FIELD - MEM_SIZE_FIELD = p" by simp
  define s0 where "s0 = s\<lparr>mi_used_size := mi_used_size s - sz, mi_free_size := mi_free_size s + sz\<rparr>"
  have frees: "x \<notin> fields (dom (free_map (vs @ us)))"
    if "x \<notin> fields (dom (free_map (xs @ (p, sz, True) # ys)))" "set vs \<subseteq> set xs" "set us \<subseteq> set ys" for x vs us
  proof -
    have "fields (dom (free_map (vs @ us))) \<subseteq> fields (dom (free_map (xs @ (p, sz, True) # ys)))"
      by (rule fields_mono) (use that(2,3) in \<open>auto simp: free_map_dom\<close>)
    then show ?thesis using that(1) by blast
  qed
  have fits: ?thesis
    if merged: "mem_inv s' (ws @ [(m, f, False)] @ zs)"
      "blocks (mi_ram s') (ws @ [(m, f, False)] @ zs) = (blocks (mi_ram s) cs)(p + 8 := None)"
      and "cs = xs @ (p, sz, True) # ys" "f = sz + nf + pf" "mi_allow_oom s' = mi_allow_oom s"
      "nf = (if next_chunk < mi_hi_bound s \<and> FREE_CHUNK s next_chunk then CHUNK_SIZE s next_chunk + 16 else 0)"
      "pf = (if mi_lo_bound s < p \<and> FREE_CHUNK s (p - 8) then CHUNK_SIZE s (p - 8) + 16 else 0)" for cs ws m f zs nf pf
    using that by blast
  have nc: "next_chunk = p + MEM_SIZE_FIELD + sz + MEM_SIZE_FIELD" by (simp only: next_chunk_def)
  have n16: "next_chunk = p + 16 + sz" by (simp add: nc mem_consts)
  note eq = mem_free_eq [OF t(7) nc _ _ refl s0_def, folded s'_def]
  have s0l: "lists_ok s0 (free_map (xs @ ys))" using lists by (simp add: s0_def)
  have sizes: "CHUNK_SIZE s0 = CHUNK_SIZE s" by (simp add: s0_def)
  consider (used) "xs = [] \<or> (\<exists>q tz ws. xs = ws @ [(q, tz, True)])"
    | (free) q tz ws where "xs = ws @ [(q, tz, False)]" "ws = [] \<or> (\<exists>q tz vs. ws = vs @ [(q, tz, True)])"
    using prev_part_cases [OF sx(1)] by blast
  then show ?thesis
  proof cases
    case used
    have np: "\<not> (mi_lo_bound s < p \<and> FREE_CHUNK s (p - 8))" using pv(1) used by auto
    consider (used') "ys = [] \<or> (\<exists>q tz zs. ys = (q, tz, True) # zs)"
      | (free') q tz zs where "ys = (q, tz, False) # zs" "zs = [] \<or> (\<exists>q tz vs. zs = (q, tz, True) # vs)"
      using next_part_cases [OF sx(2)] by blast
    then show ?thesis
    proof cases
      case used'
      have nn: "\<not> (next_chunk < mi_hi_bound s \<and> FREE_CHUNK s next_chunk)" using nx(1) used' by auto
      have s': "s' = mem_link_chunk p (mem_set_chunk_size p sz s0)" using eq [of False False] np nn by simp
      note r = free_merged [where pre = "[]" and post = "[]" and ?s1.0 = s0 and m = p and f = sz and ws = xs and zs = ys
          and s = s and p = p and sz = sz, folded s']
      show ?thesis
        by (rule fits [where nf = 0 and pf = 0, OF r(1) r(2)]) (use inv used used' lists np nn in \<open>auto simp: s' s0_def\<close>)
    next
      case free'
      have nn: "next_chunk < mi_hi_bound s \<and> FREE_CHUNK s next_chunk" and q: "q = next_chunk"
        using nx(1) free' t(2) by (auto simp: n16)
      have tz: "CHUNK_SIZE s next_chunk = tz" using nx(2) free'(1) q by blast
      define s1 where "s1 = mem_unlink_chunk next_chunk (s0\<lparr>mi_free_size := mi_free_size s + sz + 16\<rparr>)"
      have s': "s' = mem_link_chunk p (mem_set_chunk_size p (sz + (16 + tz)) s1)" using eq [of False True] np nn tz by (simp add: s1_def)
      have u: "lists_ok s1 (free_map (xs @ zs))"
        "\<And>x. x \<notin> fields (dom (free_map (xs @ zs))) \<Longrightarrow> mi_ram s1 x = mi_ram s0 x"
        using unlink_free [of "s0\<lparr>mi_free_size := mi_free_size s + sz + 16\<rparr>" xs q tz zs] s0l d free'(1) tz q
        by (simp_all add: s1_def sizes)
      note r = free_merged [where pre = "[]" and post = "[(q, tz, False)]" and ?s1.0 = s1 and m = p and f = "sz + (16 + tz)"
          and ws = xs and zs = zs and s = s and p = p and sz = sz, folded s']
      have fr: "mi_ram s1 x = mi_ram s x" if "x \<notin> fields (dom (free_map (xs @ (p, sz, True) # ys)))" for x
        using u(2) [of x] frees [OF that, of xs zs] free'(1) by (auto simp: s0_def)
      show ?thesis
        by (rule fits [where nf = "tz + 16" and pf = 0, OF r(1) r(2)])
          (use inv used free' u fr np nn tz in \<open>auto simp: s' s1_def s0_def\<close>)
    qed
  next
    case free
    have pp: "mi_lo_bound s < p \<and> FREE_CHUNK s (p - 8)" using pv(1) free(1) by blast
    have q1: "CHUNK_SIZE s (p - 8) = tz" and pq: "p = q + 16 + tz" using pv(2) [OF free(1)] by blast+
    have "p - 16 - CHUNK_SIZE s (p - 8) = q" using q1 pq by linarith
    note q = q1 this
    have sq: "CHUNK_SIZE s q = tz" using mem_inv_split(7) [of s ws q tz False "(p, sz, True) # ys"] inv free(1) by simp
    consider (used') "ys = [] \<or> (\<exists>q tz zs. ys = (q, tz, True) # zs)"
      | (free') q' tz' zs where "ys = (q', tz', False) # zs" "zs = [] \<or> (\<exists>q tz vs. zs = (q, tz, True) # vs)"
      using next_part_cases [OF sx(2)] by blast
    then show ?thesis
    proof cases
      case used'
      have nn: "\<not> (next_chunk < mi_hi_bound s \<and> FREE_CHUNK s next_chunk)" using nx(1) used' by auto
      define s1 where "s1 = mem_unlink_chunk q (s0\<lparr>mi_free_size := mi_free_size s + sz + 16\<rparr>)"
      have s': "s' = mem_link_chunk q (mem_set_chunk_size q (sz + (16 + tz)) s1)" using eq [of True False] pp nn q(2) sq by (simp add: s1_def)
      have u: "lists_ok s1 (free_map (ws @ ys))"
        "\<And>x. x \<notin> fields (dom (free_map (ws @ ys))) \<Longrightarrow> mi_ram s1 x = mi_ram s0 x"
        using unlink_free [of "s0\<lparr>mi_free_size := mi_free_size s + sz + 16\<rparr>" ws q tz ys] s0l d free(1) sq
        by (simp_all add: s1_def sizes)
      note r = free_merged [where pre = "[(q, tz, False)]" and post = "[]" and ?s1.0 = s1 and m = q and f = "sz + (16 + tz)"
          and ws = ws and zs = ys and s = s and p = p and sz = sz, folded s']
      have fr: "mi_ram s1 x = mi_ram s x" if "x \<notin> fields (dom (free_map (xs @ (p, sz, True) # ys)))" for x
        using u(2) [of x] frees [OF that, of ws ys] free(1) by (auto simp: s0_def)
      show ?thesis
        by (rule fits [where pf = "tz + 16" and nf = 0, OF r(1) r(2)])
          (use inv free used' u fr pp nn q in \<open>auto simp: s' s1_def s0_def\<close>)
    next
      case free'
      have nn: "next_chunk < mi_hi_bound s \<and> FREE_CHUNK s next_chunk" and q': "q' = next_chunk"
        using nx(1) free' t(2) by (auto simp: n16)
      have tz': "CHUNK_SIZE s next_chunk = tz'" using nx(2) free'(1) q' by blast
      define s1 where "s1 = mem_unlink_chunk q (s0\<lparr>mi_free_size := mi_free_size s + sz + 32\<rparr>)"
      define s2 where "s2 = mem_unlink_chunk next_chunk s1"
      have s': "s' = mem_link_chunk q (mem_set_chunk_size q (sz + (32 + tz + tz')) s2)"
        using eq [of True True] pp nn q(2) sq tz' by (simp add: s1_def s2_def)
      have u: "lists_ok s1 (free_map (ws @ ys))"
        "\<And>x. x \<notin> fields (dom (free_map (ws @ ys))) \<Longrightarrow> mi_ram s1 x = mi_ram s0 x"
        using unlink_free [of "s0\<lparr>mi_free_size := mi_free_size s + sz + 32\<rparr>" ws q tz ys] s0l d free(1) sq
        by (simp_all add: s1_def sizes)
      have "next_chunk \<notin> fields (dom (free_map (ws @ ys)))"
        using tag_not_field [OF tl, of next_chunk tz' False "ws @ ys"] free(1) free'(1) q' by auto
      then have "CHUNK_SIZE s1 next_chunk = tz'" using u(2) tz' by (simp add: CHUNK_SIZE_def s0_def)
      then have v: "lists_ok s2 (free_map (ws @ zs))"
        "\<And>x. x \<notin> fields (dom (free_map (ws @ zs))) \<Longrightarrow> mi_ram s2 x = mi_ram s1 x"
        using unlink_free [of s1 ws q' tz' zs] u(1) d free(1) free'(1) q' by (simp_all add: s2_def)
      note r = free_merged [where pre = "[(q, tz, False)]" and post = "[(q', tz', False)]" and ?s1.0 = s2 and m = q
          and f = "sz + (32 + tz + tz')" and ws = ws and zs = zs and s = s and p = p and sz = sz, folded s']
      have fr: "mi_ram s2 x = mi_ram s x" if "x \<notin> fields (dom (free_map (xs @ (p, sz, True) # ys)))" for x
        using u(2) [of x] v(2) [of x] frees [OF that, of ws ys] frees [OF that, of ws zs] free(1) free'(1)
        by (simp add: s0_def subset_insertI)
      show ?thesis
        by (rule fits [where pf = "tz + 16" and nf = "tz' + 16", OF r(1) r(2)])
          (use inv free free' v fr pp nn q tz' in \<open>auto simp: s' s2_def s1_def s0_def\<close>)
    qed
  qed
qed

end
