(* ===== verification/MemRealloc.thy ===== *)
theory MemRealloc
  imports MemOps
begin

text \<open>
  Reallocation in the shared memory allocator: the block keeps the words that fit its new size, whether it shrinks or grows
  in place or moves, and the case that the source says should never happen does not happen.
\<close>

section \<open>Writes of a client\<close>

lemma write_used:
  assumes inv: "mem_inv s (xs @ (p, sz, True) # ys)" and r: "\<And>x. x \<notin> {p + 8..<p + 8 + sz} \<Longrightarrow> r x = mi_ram s x"
  shows "mem_inv (s\<lparr>mi_ram := r\<rparr>) (xs @ (p, sz, True) # ys)"
    "blocks r (xs @ (p, sz, True) # ys) = (blocks (mi_ram s) (xs @ (p, sz, True) # ys))(p + 8 \<mapsto> contents r (p + 8) sz)"
proof -
  note t = mem_inv_split [OF inv]
  let ?c = "[(p, sz, True)]"
  have inv1: "mem_inv s (xs @ ?c @ ys)" using inv by simp
  then have tl: "tiled (mi_lo_bound s) (xs @ ?c @ ys) (mi_hi_bound s)" and lists: "lists_ok s (free_map (xs @ ys))"
    and st: "settled (xs @ ?c @ ys)" by (simp_all add: mem_inv_def)
  have d: "tiled p ?c (p + 16 + sz)" "?c \<noteq> []" using t by simp_all
  note ap = region_apart [OF tl d]
  have l': "lists_ok (s\<lparr>mi_ram := r\<rparr>) (free_map (xs @ ys))"
  proof (rule lists_ok_frame [OF lists])
    fix a assume "a \<in> fields (dom (free_map (xs @ ys)))"
    then have "\<not> (p \<le> a \<and> a < p + 16 + sz)" using apart_fields [OF ap, of a] by blast
    then show "mi_ram (s\<lparr>mi_ram := r\<rparr>) a = mi_ram s a" by (auto intro!: r)
  qed simp
  have fr: "mi_ram (s\<lparr>mi_ram := r\<rparr>) x = mi_ram s x" if "x \<notin> scope xs ys p (p + 16 + sz)" for x
    using that by (auto simp: scope_def intro!: r)
  have tag: "tagged r ?c" using inv1 t(3) r by (simp add: mem_inv_def)
  have "mem_inv (s\<lparr>mi_ram := r\<rparr>) (xs @ ?c @ ys)"
    by (rule mem_inv_replace [OF inv1 d(1) d(1) d(2) d(2) st _ _ fr]) (use l' tag in \<open>simp_all add: free_map_def\<close>)
  then show "mem_inv (s\<lparr>mi_ram := r\<rparr>) (xs @ (p, sz, True) # ys)" by simp
  have b: "blocks r (xs @ ys) = blocks (mi_ram s) (xs @ ys)" using blocks_frame [OF tl d, of r "mi_ram s"] fr by simp
  show "blocks r (xs @ (p, sz, True) # ys) = (blocks (mi_ram s) (xs @ (p, sz, True) # ys))(p + 8 \<mapsto> contents r (p + 8) sz)"
    using blocks_split(1) [OF tl, of r] blocks_split(1) [OF tl, of "mi_ram s"] b by (simp add: blocks_def)
qed

lemma contents_take:
  assumes "\<And>x. ptr \<le> x \<Longrightarrow> x < ptr + 8 * int k \<Longrightarrow> r' x = r x" "8 * int k \<le> a" "8 * int k \<le> b"
  shows "take k (contents r' ptr a) = take k (contents r ptr b)"
proof -
  have e: "take k (contents r ptr c) = map (\<lambda>i. r (ptr + 8 * int i)) [0..<k]" if "8 * int k \<le> c" for r c
  proof -
    have "k \<le> nat (c div 8)" using that by linarith
    then show ?thesis by (simp add: contents_def take_map)
  qed
  show ?thesis unfolding e [OF assms(2)] e [OF assms(3)] by (auto intro!: assms(1))
qed

section \<open>The block stays where it is\<close>

lemma counters_commute:
  "mem_unlink_chunk p (s\<lparr>mi_used_size := a, mi_free_size := b\<rparr>) = (mem_unlink_chunk p s)\<lparr>mi_used_size := a, mi_free_size := b\<rparr>"
  "mem_link_chunk p (s\<lparr>mi_used_size := a, mi_free_size := b\<rparr>) = (mem_link_chunk p s)\<lparr>mi_used_size := a, mi_free_size := b\<rparr>"
  "mem_set_chunk_size p z (s\<lparr>mi_used_size := a, mi_free_size := b\<rparr>) = (mem_set_chunk_size p z s)\<lparr>mi_used_size := a, mi_free_size := b\<rparr>"
  by (simp_all add: mem_unlink_chunk_def mem_link_chunk_def mem_set_chunk_size_def Let_def mem_field_defs CHUNK_SIZE_def)

lemma mem_shrink_eq:
  fixes p :: int
  assumes "sz + 40 \<le> csz"
  defines "n \<equiv> p + MEM_SIZE_FIELD + csz + MEM_SIZE_FIELD"
  shows "n < mi_hi_bound s \<and> FREE_CHUNK s n \<Longrightarrow> CHUNK_SIZE s n = nsz \<Longrightarrow> 0 \<le> nsz \<Longrightarrow> mem_shrink p csz sz s =
      mem_use_chunk p (csz + (16 + nsz)) sz ((mem_unlink_chunk n s)\<lparr>mi_used_size := mi_used_size s - csz, mi_free_size := mi_free_size s + (csz + 16)\<rparr>)"
    and "\<not> (n < mi_hi_bound s \<and> FREE_CHUNK s n) \<Longrightarrow> mem_shrink p csz sz s =
      mem_use_chunk p csz sz (s\<lparr>mi_used_size := mi_used_size s - csz, mi_free_size := mi_free_size s + csz\<rparr>)"
proof -
  have n: "16 + (p + csz) = n" by (simp add: n_def mem_consts)
  show "mem_shrink p csz sz s = mem_use_chunk p csz sz (s\<lparr>mi_used_size := mi_used_size s - csz, mi_free_size := mi_free_size s + csz\<rparr>)"
    if "\<not> (n < mi_hi_bound s \<and> FREE_CHUNK s n)"
  proof -
    have c: "(n < mi_hi_bound s \<and> FREE_CHUNK s n) = False" using that by simp
    show ?thesis using assms(1) unfolding mem_shrink_def Let_def n_def [symmetric] c
      by (simp add: mem_use_chunk_def mem_consts Let_def counters_commute algebra_simps)
  qed
  show "mem_shrink p csz sz s =
      mem_use_chunk p (csz + (16 + nsz)) sz ((mem_unlink_chunk n s)\<lparr>mi_used_size := mi_used_size s - csz, mi_free_size := mi_free_size s + (csz + 16)\<rparr>)"
    if "n < mi_hi_bound s \<and> FREE_CHUNK s n" "CHUNK_SIZE s n = nsz" "0 \<le> nsz"
  proof -
    have c: "(n < mi_hi_bound s \<and> FREE_CHUNK s n) = True" using that by simp
    have "csz + (16 + nsz) - sz - 16 = nsz + (csz - sz)" by simp
    then show ?thesis using assms(1) that(2,3) unfolding mem_shrink_def Let_def n_def [symmetric] c
      by (simp add: mem_use_chunk_def mem_consts Let_def counters_commute algebra_simps)
  qed
qed

text \<open>The used chunk and, perhaps, the free chunk after it, carved anew.\<close>

lemma reuse_in_place:
  assumes inv: "mem_inv s (xs @ (p, csz, True) # post @ ys)" and post: "post = [] \<or> (\<exists>n nsz. post = [(n, nsz, False)])"
    and ys: "ys = [] \<or> (\<exists>q tz vs. ys = (q, tz, True) # vs)" "post = [] \<Longrightarrow> span < sz + 40 \<Longrightarrow> False"
    and span: "span = csz + chunk_sum False post + 16 * int (length post)"
    and s1: "lists_ok s1 (free_map (xs @ ys))" "\<And>x. x \<notin> fields (dom (free_map (xs @ ys))) \<Longrightarrow> mi_ram s1 x = mi_ram s x"
      "mi_lo_bound s1 = mi_lo_bound s" "mi_hi_bound s1 = mi_hi_bound s" "mi_total_size s1 = mi_total_size s" "mi_allow_oom s1 = mi_allow_oom s"
      "mi_used_size s1 = mi_used_size s - csz" "mi_free_size s1 = mi_free_size s + csz + 16 * int (length post)"
    and sz: "24 \<le> sz" "sz mod 8 = 0" "sz \<le> span"
  defines "s' \<equiv> mem_use_chunk p span sz s1"
  shows "\<exists>cs' d'. mem_inv s' cs' \<and>
    blocks (mi_ram s') cs' = (blocks (mi_ram s) (xs @ (p, csz, True) # post @ ys))(p + 8 \<mapsto> d') \<and> sz \<le> 8 * int (length d') \<and>
    (\<forall>k. 8 * int k \<le> csz \<and> 8 * int k \<le> sz \<longrightarrow> take k d' = take k (contents (mi_ram s) (p + 8) csz)) \<and> mi_allow_oom s' = mi_allow_oom s"
proof -
  define ds where "ds = (p, csz, True) # post"
  have inv1: "mem_inv s (xs @ ds @ ys)" using inv by (simp add: ds_def)
  then have tl: "tiled (mi_lo_bound s) (xs @ ds @ ys) (mi_hi_bound s)" and st: "settled (xs @ ds @ ys)" by (simp_all add: mem_inv_def)
  obtain a b where ab: "tiled a ds b" using tl by (auto simp: tiled_append)
  have d: "tiled p ds (p + 16 + span)" "ds \<noteq> []" using ab post unfolding span by (auto simp: ds_def)
  have sums: "chunk_sum True ds = csz" "chunk_sum False ds = chunk_sum False post" using post by (auto simp: ds_def)
  have settled: "settled (xs @ carve p span sz @ ys)"
  proof (cases ys)
    case Nil
    then show ?thesis using st by (auto simp: carve_def ds_def successively_append_iff split: prod.splits)
  next
    case (Cons c vs)
    then show ?thesis using st ys(1) by (auto simp: carve_def ds_def successively_append_iff successively_Cons split: prod.splits)
  qed
  have fr: "mi_ram s1 x = mi_ram s x" if "x \<notin> scope xs ys p (p + 16 + span)" for x
    by (rule s1(2)) (use that in \<open>simp add: scope_def\<close>)
  have free: "mi_free_size s1 = mi_free_size s - chunk_sum False ds + span" using s1(8) sums span by simp
  have used: "mi_used_size s1 = mi_used_size s - chunk_sum True ds" using s1(7) sums by simp
  note r = mem_use_chunk_inv [OF inv1 d s1(1) fr s1(3-5) used free sz settled, folded s'_def]
  define k where "k = (if span < sz + 40 then span else sz)"
  define d' where "d' = contents (mi_ram s') (p + 8) k"
  have B: "blocks (mi_ram s) (xs @ ds @ ys) = (blocks (mi_ram s) (xs @ ys))(p + 8 \<mapsto> contents (mi_ram s) (p + 8) csz)"
    using blocks_split(1) [OF tl, of "mi_ram s"] post by (auto simp: ds_def blocks_def)
  have "blocks (mi_ram s') (xs @ carve p span sz @ ys) = (blocks (mi_ram s) (xs @ (p, csz, True) # post @ ys))(p + 8 \<mapsto> d')"
    using r(2) B unfolding d'_def k_def ds_def by simp
  moreover have "span mod 8 = 0" using tiled_mod [OF d(1)] by presburger
  then have "sz \<le> 8 * int (length d')" using contents_length [of k] sz by (auto simp: d'_def k_def)
  moreover have "take i d' = take i (contents (mi_ram s) (p + 8) csz)" if "8 * int i \<le> csz" "8 * int i \<le> sz" for i
    unfolding d'_def
  proof (rule contents_take)
    fix x assume x: "p + 8 \<le> x" "x < p + 8 + 8 * int i"
    have "x \<notin> fields (dom (free_map (xs @ ys)))"
      by (rule apart_fields [OF region_apart [OF tl d]]) (use x that sz(3) in simp_all)
    moreover have "mi_ram s' x = mi_ram s1 x" by (rule r(3)) (use x that in simp_all)
    ultimately show "mi_ram s' x = mi_ram s x" using s1(2) by simp
  qed (use that sz(3) in \<open>simp_all add: k_def\<close>)
  ultimately show ?thesis using r(1,5) s1(6) by blast
qed

lemma mem_shrink_ok:
  assumes inv: "mem_inv s (xs @ (p, csz, True) # ys)" and sz: "24 \<le> sz" "sz mod 8 = 0" "sz + 40 \<le> csz"
  shows "\<exists>cs' d'. mem_inv (mem_shrink p csz sz s) cs' \<and>
    blocks (mi_ram (mem_shrink p csz sz s)) cs' = (blocks (mi_ram s) (xs @ (p, csz, True) # ys))(p + 8 \<mapsto> d') \<and> sz \<le> 8 * int (length d') \<and>
    (\<forall>k. 8 * int k \<le> csz \<and> 8 * int k \<le> sz \<longrightarrow> take k d' = take k (contents (mi_ram s) (p + 8) csz)) \<and>
    mi_allow_oom (mem_shrink p csz sz s) = mi_allow_oom s"
proof -
  define n where "n = p + MEM_SIZE_FIELD + csz + MEM_SIZE_FIELD"
  note nx = next_chunk [OF inv, folded n_def] and t = mem_inv_split [OF inv] and eq = mem_shrink_eq [OF sz(3), of p s, folded n_def]
  have lists: "lists_ok s (free_map (xs @ ys))" and st: "settled ys"
    using inv by (auto simp: mem_inv_def successively_append_iff successively_Cons)
  have d: "distinct (map fst (xs @ ys))" using mem_inv_distinct [OF inv] by auto
  consider (used) "ys = [] \<or> (\<exists>q tz zs. ys = (q, tz, True) # zs)"
    | (free) q tz zs where "ys = (q, tz, False) # zs" "zs = [] \<or> (\<exists>q tz vs. zs = (q, tz, True) # vs)"
    using next_part_cases [OF st] by blast
  then show ?thesis
  proof cases
    case used
    have nn: "\<not> (n < mi_hi_bound s \<and> FREE_CHUNK s n)" using nx(1) used by auto
    have i: "mem_inv s (xs @ (p, csz, True) # [] @ ys)" using inv by simp
    show ?thesis unfolding eq(2) [OF nn]
      using reuse_in_place [OF i _ used, where span = csz and sz = sz
        and ?s1.0 = "s\<lparr>mi_used_size := mi_used_size s - csz, mi_free_size := mi_free_size s + csz\<rparr>"] lists sz
      by simp
  next
    case free
    have q: "q = n" using t(2) free(1) by (simp add: n_def mem_consts)
    have nn: "n < mi_hi_bound s \<and> FREE_CHUNK s n" using nx(1) free(1) q by blast
    have tz: "CHUNK_SIZE s n = tz" using nx(2) free(1) q by blast
    have tz0: "0 \<le> tz" using t(2) free(1) by simp
    note u = unlink_free [of s xs q tz zs]
    have ul: "lists_ok (mem_unlink_chunk n s) (free_map (xs @ zs))"
      "\<And>x. x \<notin> fields (dom (free_map (xs @ zs))) \<Longrightarrow> mi_ram (mem_unlink_chunk n s) x = mi_ram s x"
      using u lists d free(1) tz q by simp_all
    have i: "mem_inv s (xs @ (p, csz, True) # [(q, tz, False)] @ zs)" using inv free(1) by simp
    show ?thesis unfolding eq(1) [OF nn tz tz0]
      using reuse_in_place [OF i _ free(2), where span = "csz + (16 + tz)" and sz = sz
        and ?s1.0 = "(mem_unlink_chunk n s)\<lparr>mi_used_size := mi_used_size s - csz, mi_free_size := mi_free_size s + (csz + 16)\<rparr>"] ul sz free(1) tz0
      by simp
  qed
qed

lemma mem_grow_ok:
  assumes inv: "mem_inv s (xs @ (p, csz, True) # (n, nsz, False) # ys)" and sz: "24 \<le> sz" "sz mod 8 = 0" "sz \<le> csz + 16 + nsz"
  shows "\<exists>cs' d'. mem_inv (mem_grow p csz sz s) cs' \<and>
    blocks (mi_ram (mem_grow p csz sz s)) cs' = (blocks (mi_ram s) (xs @ (p, csz, True) # (n, nsz, False) # ys))(p + 8 \<mapsto> d') \<and>
    sz \<le> 8 * int (length d') \<and>
    (\<forall>k. 8 * int k \<le> csz \<and> 8 * int k \<le> sz \<longrightarrow> take k d' = take k (contents (mi_ram s) (p + 8) csz)) \<and>
    mi_allow_oom (mem_grow p csz sz s) = mi_allow_oom s"
proof -
  note t = mem_inv_split [OF inv]
  have n: "n = p + MEM_SIZE_FIELD + csz + MEM_SIZE_FIELD" using t(2) by (simp add: mem_consts)
  have nsz: "CHUNK_SIZE s n = nsz" using next_chunk(2) [OF inv] n by blast
  have lists: "lists_ok s (free_map (xs @ (n, nsz, False) # ys))" and st: "settled ((n, nsz, False) # ys)"
    using inv by (auto simp: mem_inv_def successively_append_iff)
  have d: "distinct (map fst (xs @ (n, nsz, False) # ys))" using mem_inv_distinct [OF inv] by auto
  have ys: "ys = [] \<or> (\<exists>q tz vs. ys = (q, tz, True) # vs)" using next_part_cases [OF st] by auto
  define s1 where "s1 = mem_unlink_chunk n (s\<lparr>mi_used_size := mi_used_size s - csz, mi_free_size := mi_free_size s + (csz + 16)\<rparr>)"
  have g: "mem_grow p csz sz s = mem_use_chunk p (csz + (16 + nsz)) sz s1"
    unfolding mem_grow_def Let_def n [symmetric] by (simp add: nsz s1_def mem_consts)
  note u = unlink_free [of "s\<lparr>mi_used_size := mi_used_size s - csz, mi_free_size := mi_free_size s + (csz + 16)\<rparr>" xs n nsz ys, folded s1_def]
  have i: "mem_inv s (xs @ (p, csz, True) # [(n, nsz, False)] @ ys)" using inv by simp
  show ?thesis unfolding g
    using reuse_in_place [OF i _ ys, where span = "csz + (16 + nsz)" and sz = sz and ?s1.0 = s1] u lists d nsz sz
    by (simp add: s1_def)
qed

section \<open>The block moves\<close>

lemma contents_nth: "i < length (contents r ptr sz) \<Longrightarrow> contents r ptr sz ! i = r (ptr + 8 * int i)"
  by (simp add: contents_def)

lemma take_nth:
  assumes "\<And>k. 8 * int k \<le> a \<and> 8 * int k \<le> b \<Longrightarrow> take k xs = take k ys" "8 * int i < a" "8 * int i < b" "a mod 8 = 0" "b mod 8 = 0"
  shows "xs ! i = ys ! i"
proof -
  have "8 * int (Suc i) \<le> a" "8 * int (Suc i) \<le> b" using assms(2-5) by presburger+
  then have "take (Suc i) xs = take (Suc i) ys" using assms(1) by blast
  then have "take (Suc i) xs ! i = take (Suc i) ys ! i" by simp
  then show ?thesis by simp
qed

text \<open>The words of a block are copied into another block that is large enough.\<close>

lemma copy_block:
  fixes r :: "int \<Rightarrow> int" and src :: int
  assumes inv: "mem_inv s cs" and q: "blocks (mi_ram s) cs (q + 8) = Some e" "n \<le> 8 * int (length e)"
  defines "s' \<equiv> mem_copy r (q + MEM_SIZE_FIELD) src n s"
  shows "\<exists>e'. mem_inv s' cs \<and> blocks (mi_ram s') cs = (blocks (mi_ram s) cs)(q + 8 \<mapsto> e') \<and> length e' = length e \<and>
    (\<forall>i. 8 * int i < n \<longrightarrow> e' ! i = r (src + 8 * int i)) \<and> mi_allow_oom s' = mi_allow_oom s"
proof -
  obtain xs qsz ys where cs: "cs = xs @ (q, qsz, True) # ys" and e: "e = contents (mi_ram s) (q + 8) qsz"
    using blocks_used [OF inv q(1)] by auto
  note t = mem_inv_split [OF inv [unfolded cs]]
  define r' where "r' = (\<lambda>a. if q + 8 \<le> a \<and> a < q + 8 + n then r (src + (a - (q + 8))) else mi_ram s a)"
  have s': "s' = s\<lparr>mi_ram := r'\<rparr>" by (simp add: s'_def mem_copy_def r'_def mem_consts)
  have n: "n \<le> qsz" using q(2) contents_length [of qsz] t(3,4) by (simp add: e)
  have out: "x \<notin> {q + 8..<q + 8 + qsz} \<Longrightarrow> r' x = mi_ram s x" for x using n by (auto simp: r'_def)
  note w = write_used [OF inv [unfolded cs] out]
  define e' where "e' = contents r' (q + 8) qsz"
  have "e' ! i = r (src + 8 * int i)" if "8 * int i < n" for i
  proof -
    have "8 * (qsz div 8) = qsz" using t(4) by presburger
    then have "i < nat (qsz div 8)" using that n by linarith
    then show ?thesis using that by (simp add: e'_def contents_def r'_def)
  qed
  moreover have "length e' = length e" by (simp add: e e'_def contents_def)
  ultimately show ?thesis using w unfolding s' cs e'_def by auto
qed

lemma proper_size_idem: "mem_proper_alloc_size (mem_proper_alloc_size n) = mem_proper_alloc_size n"
proof -
  have "mem_proper_alloc_size n mod 8 = 0" "24 \<le> mem_proper_alloc_size n" using proper_size [of n] by (simp_all add: mem_consts)
  then show ?thesis by (subst mem_proper_alloc_size_def) (simp add: mem_consts and_7)
qed

lemma mem_move_eq:
  assumes "n = p + MEM_SIZE_FIELD + csz + MEM_SIZE_FIELD"
    and "ns = csz + (if nf then CHUNK_SIZE s n + 16 else 0) + (if mi_lo_bound s < p \<and> FREE_CHUNK s (p - 8) then CHUNK_SIZE s (p - 8) + 16 else 0)"
  shows "mem_move p csz sz nf s = (if ns < sz then Some (Inr (0, s)) else
      map_option (\<lambda>(q, s'). if 0 = q then Inl Never_Happens
          else Inr (q, mem_copy (mi_ram s) (q + MEM_SIZE_FIELD) (p + MEM_SIZE_FIELD) csz s'))
        (mem_malloc (mem_free (p + MEM_SIZE_FIELD) s) sz))"
proof -
  have e: "(let a = csz; a = (if nf then a + (CHUNK_SIZE s n + 2 * MEM_SIZE_FIELD) else a)
      in if mi_lo_bound s < p \<and> FREE_CHUNK s (p - MEM_SIZE_FIELD) then a + (CHUNK_SIZE s (p - MEM_SIZE_FIELD) + 2 * MEM_SIZE_FIELD) else a) = ns"
    by (simp add: assms(2) mem_consts Let_def)
  show ?thesis unfolding mem_move_def assms(1) [symmetric] Let_def e [unfolded Let_def] ..
qed

lemma mem_move_ok:
  fixes sz :: int
  assumes inv: "mem_inv s (xs @ (p, csz, True) # ys)" and sz: "mem_proper_alloc_size sz = sz" "csz < sz"
  defines "cs \<equiv> xs @ (p, csz, True) # ys" and "n \<equiv> p + MEM_SIZE_FIELD + csz + MEM_SIZE_FIELD"
  shows "\<exists>q s'. mem_move p csz sz (n < mi_hi_bound s \<and> FREE_CHUNK s n) s = Some (Inr (q, s')) \<and>
    mi_allow_oom s' = mi_allow_oom s \<and>
    (q = 0 \<and> s' = s \<or> q \<noteq> 0 \<and> (\<exists>cs' d'. mem_inv s' cs' \<and> (q + 8 = p + 8 \<or> blocks (mi_ram s) cs (q + 8) = None) \<and>
       blocks (mi_ram s') cs' = (blocks (mi_ram s) cs)(p + 8 := None, q + 8 \<mapsto> d') \<and> sz \<le> 8 * int (length d') \<and>
       (\<forall>i. 8 * int i < csz \<longrightarrow> d' ! i = mi_ram s (p + 8 + 8 * int i))))"
proof -
  define nf where "nf \<longleftrightarrow> n < mi_hi_bound s \<and> FREE_CHUNK s n"
  define ns where "ns = csz + (if nf then CHUNK_SIZE s n + 16 else 0) +
    (if mi_lo_bound s < p \<and> FREE_CHUNK s (p - 8) then CHUNK_SIZE s (p - 8) + 16 else 0)"
  define s1 where "s1 = mem_free (p + MEM_SIZE_FIELD) s"
  have n: "n = p + MEM_SIZE_FIELD + csz + MEM_SIZE_FIELD" by (simp only: n_def)
  note mv = mem_move_eq [OF n ns_def, of sz, folded s1_def]
  obtain ws k f zs where f: "mem_inv s1 (ws @ [(k, f, False)] @ zs)"
    "blocks (mi_ram s1) (ws @ [(k, f, False)] @ zs) = (blocks (mi_ram s) cs)(p + 8 := None)" "f = ns" "mi_allow_oom s1 = mi_allow_oom s"
    using mem_free_ok [OF inv] unfolding ns_def nf_def n_def cs_def s1_def by blast
  show ?thesis
  proof (cases "ns < sz")
    case True
    then show ?thesis unfolding nf_def [symmetric] mv by simp
  next
    case False
    obtain q s2 where m: "mem_malloc s1 sz = Some (q, s2)"
      "q = 0 \<and> s2 = s1 \<and> (\<forall>a c. (a, c, False) \<in> set (ws @ [(k, f, False)] @ zs) \<longrightarrow> c < sz) \<or>
       (\<exists>vs c us d. ws @ [(k, f, False)] @ zs = vs @ (q, c, False) # us \<and> sz \<le> c \<and> 0 < q \<and> mem_inv s2 (vs @ carve q c sz @ us) \<and>
          blocks (mi_ram s1) (ws @ [(k, f, False)] @ zs) (q + 8) = None \<and>
          blocks (mi_ram s2) (vs @ carve q c sz @ us) = (blocks (mi_ram s1) (ws @ [(k, f, False)] @ zs))(q + 8 \<mapsto> d) \<and>
          sz \<le> 8 * int (length d) \<and> mi_allow_oom s2 = mi_allow_oom s1)"
      using mem_malloc_ok [OF f(1), of sz] unfolding sz(1) by blast
    have "(k, f, False) \<in> set (ws @ [(k, f, False)] @ zs)" by simp
    then obtain cs2 d where q: "0 < q" "mem_inv s2 cs2" "blocks (mi_ram s1) (ws @ [(k, f, False)] @ zs) (q + 8) = None"
      "blocks (mi_ram s2) cs2 = (blocks (mi_ram s1) (ws @ [(k, f, False)] @ zs))(q + 8 \<mapsto> d)" "sz \<le> 8 * int (length d)"
      "mi_allow_oom s2 = mi_allow_oom s1"
      using m(2) False f(3) by blast
    define s3 where "s3 = mem_copy (mi_ram s) (q + MEM_SIZE_FIELD) (p + MEM_SIZE_FIELD) csz s2"
    have "blocks (mi_ram s2) cs2 (q + 8) = Some d" "csz \<le> 8 * int (length d)" using q(4,5) sz(2) by simp_all
    from copy_block [OF q(2) this, of "mi_ram s" "p + MEM_SIZE_FIELD", folded s3_def]
    obtain d' where d': "mem_inv s3 cs2" "blocks (mi_ram s3) cs2 = (blocks (mi_ram s2) cs2)(q + 8 \<mapsto> d')" "length d' = length d"
      "\<forall>i. 8 * int i < csz \<longrightarrow> d' ! i = mi_ram s (p + MEM_SIZE_FIELD + 8 * int i)" "mi_allow_oom s3 = mi_allow_oom s2" by blast
    have "mem_move p csz sz nf s = Some (Inr (q, s3))" unfolding mv using False m(1) q(1) by (simp add: s3_def)
    moreover have "q + 8 = p + 8 \<or> blocks (mi_ram s) cs (q + 8) = None" using q(3) unfolding f(2) by (auto split: if_splits)
    moreover have "blocks (mi_ram s3) cs2 = (blocks (mi_ram s) cs)(p + 8 := None, q + 8 \<mapsto> d')"
      unfolding d'(2) q(4) f(2) by simp
    moreover have "mi_allow_oom s3 = mi_allow_oom s" "q \<noteq> 0" "sz \<le> 8 * int (length d')" using d'(3,5) q(1,5,6) f(4) by simp_all
    moreover have "\<forall>i. 8 * int i < csz \<longrightarrow> d' ! i = mi_ram s (p + 8 + 8 * int i)" using d'(4) by (simp add: mem_consts)
    ultimately show ?thesis unfolding nf_def [symmetric] using d'(1) by blast
  qed
qed

lemma mem_realloc_ok:
  fixes n :: int
  assumes inv: "mem_inv s cs" and old: "blocks (mi_ram s) cs old = Some d"
  shows "\<exists>q s'. mem_realloc s old n = Some (Inr (q, s')) \<and> mi_allow_oom s' = mi_allow_oom s \<and>
    (q = 0 \<and> s' = s \<or> q \<noteq> 0 \<and> (\<exists>cs' d'. mem_inv s' cs' \<and> (q + 8 = old \<or> blocks (mi_ram s) cs (q + 8) = None) \<and>
       blocks (mi_ram s') cs' = (blocks (mi_ram s) cs)(old := None, q + 8 \<mapsto> d') \<and> n \<le> 8 * int (length d') \<and>
       (\<forall>i<length d. 8 * int i < n \<longrightarrow> d' ! i = d ! i)))"
proof -
  define sz where "sz = mem_proper_alloc_size n"
  have sz: "24 \<le> sz" "sz mod 8 = 0" "n \<le> sz" "mem_proper_alloc_size sz = sz"
    using proper_size [of n] proper_size_idem [of n] by (simp_all add: sz_def mem_consts)
  define p where "p = old - MEM_SIZE_FIELD"
  have op: "old = p + 8" "old - 8 = p" "old = p + MEM_SIZE_FIELD" by (simp_all add: p_def mem_consts)
  obtain xs csz ys where cs: "cs = xs @ (p, csz, True) # ys" and d: "d = contents (mi_ram s) (p + 8) csz"
    using blocks_used [OF inv old] unfolding op(2) unfolding op(1) by blast
  note t = mem_inv_split [OF inv [unfolded cs]]
  have ld: "8 * int (length d) = csz" using contents_length [of csz] t(3,4) by (simp add: d)
  define nc where "nc = p + MEM_SIZE_FIELD + csz + MEM_SIZE_FIELD"
  define nf where "nf \<longleftrightarrow> nc < mi_hi_bound s \<and> FREE_CHUNK s nc"
  have eq: "mem_realloc s old n =
      (if sz \<le> csz then
         if csz div 4 < sz then Some (Inr (p, s)) else Some (Inr (p, mem_shrink p csz sz s))
       else if nf \<and> sz \<le> csz + 2 * MEM_SIZE_FIELD + CHUNK_SIZE s nc then Some (Inr (p, mem_grow p csz sz s))
       else
         Option.bind (mem_malloc s sz) (\<lambda>(q, s').
           if 0 \<noteq> q then
             Some (Inr (q, mem_free old (mem_copy (mi_ram s') (q + MEM_SIZE_FIELD) (p + MEM_SIZE_FIELD) csz s')))
           else mem_move p csz sz nf s'))"
    unfolding mem_realloc_def Let_def p_def [symmetric] t(7) sz_def [symmetric] nc_def [symmetric] nf_def [symmetric] ..
  have moved: ?thesis if "mem_realloc s old n = Some (Inr (q, s'))" "mi_allow_oom s' = mi_allow_oom s" "q \<noteq> 0" "mem_inv s' cs'"
    "q + 8 = old \<or> blocks (mi_ram s) cs (q + 8) = None" "blocks (mi_ram s') cs' = (blocks (mi_ram s) cs)(old := None, q + 8 \<mapsto> d')"
    "n \<le> 8 * int (length d')" "\<forall>i<length d. 8 * int i < n \<longrightarrow> d' ! i = d ! i" for q s' cs' d' using that by blast
  have stay: ?thesis if e: "mem_realloc s old n = Some (Inr (p, s'))" and i: "mem_inv s' cs'" and
      b: "blocks (mi_ram s') cs' = (blocks (mi_ram s) cs)(p + 8 \<mapsto> d')" "sz \<le> 8 * int (length d')"
      "\<forall>k. 8 * int k \<le> csz \<and> 8 * int k \<le> sz \<longrightarrow> take k d' = take k d" "mi_allow_oom s' = mi_allow_oom s" for s' cs' d'
  proof -
    have "d' ! i = d ! i" if "i < length d" "8 * int i < n" for i
      by (rule take_nth [of csz sz d' d i]) (use b(3) that ld sz t(4) in auto)
    then have same: "\<forall>i<length d. 8 * int i < n \<longrightarrow> d' ! i = d ! i" by blast
    have len: "n \<le> 8 * int (length d')" using b(2) sz(3) by simp
    have g: "blocks (mi_ram s') cs' = (blocks (mi_ram s) cs)(old := None, p + 8 \<mapsto> d')" using b(1) by (simp add: op(1))
    have p: "p \<noteq> 0" "p + 8 = old \<or> blocks (mi_ram s) cs (p + 8) = None" using t(6) op(1) by simp_all
    show ?thesis by (rule moved [OF e b(4) p(1) i p(2) g len same])
  qed
  consider (same) "sz \<le> csz" "csz div 4 < sz" | (shrink) "sz \<le> csz" "\<not> csz div 4 < sz"
    | (grow) "csz < sz" "nf" "sz \<le> csz + 16 + CHUNK_SIZE s nc"
    | (move) "csz < sz" "\<not> (nf \<and> sz \<le> csz + 2 * MEM_SIZE_FIELD + CHUNK_SIZE s nc)"
    by (fastforce simp: mem_consts)
  then show ?thesis
  proof cases
    case same
    have "(blocks (mi_ram s) cs)(p + 8 \<mapsto> d) = blocks (mi_ram s) cs" using old by (simp add: op(1) fun_upd_idem)
    then show ?thesis using same ld inv by (intro stay [of s cs d]) (simp_all add: eq)
  next
    case shrink
    then have "sz + 40 \<le> csz" using sz(1) by linarith
    from mem_shrink_ok [OF inv [unfolded cs] sz(1,2) this, folded cs d]
    obtain cs' d' where r: "mem_inv (mem_shrink p csz sz s) cs'"
      "blocks (mi_ram (mem_shrink p csz sz s)) cs' = (blocks (mi_ram s) cs)(p + 8 \<mapsto> d')" "sz \<le> 8 * int (length d')"
      "\<forall>k. 8 * int k \<le> csz \<and> 8 * int k \<le> sz \<longrightarrow> take k d' = take k d" "mi_allow_oom (mem_shrink p csz sz s) = mi_allow_oom s" by blast
    have "mem_realloc s old n = Some (Inr (p, mem_shrink p csz sz s))" using shrink by (simp add: eq)
    from stay [OF this r] show ?thesis .
  next
    case grow
    obtain nsz zs where ys: "ys = (nc, nsz, False) # zs"
      using next_chunk(1) [OF inv [unfolded cs]] grow(2) unfolding nf_def nc_def by blast
    have nsz: "CHUNK_SIZE s nc = nsz" using next_chunk(2) [OF inv [unfolded cs]] ys unfolding nc_def by blast
    have "sz \<le> csz + 16 + nsz" using grow(3) nsz by simp
    from mem_grow_ok [OF inv [unfolded cs ys] sz(1,2) this, folded ys, folded cs d]
    obtain cs' d' where r: "mem_inv (mem_grow p csz sz s) cs'"
      "blocks (mi_ram (mem_grow p csz sz s)) cs' = (blocks (mi_ram s) cs)(p + 8 \<mapsto> d')" "sz \<le> 8 * int (length d')"
      "\<forall>k. 8 * int k \<le> csz \<and> 8 * int k \<le> sz \<longrightarrow> take k d' = take k d" "mi_allow_oom (mem_grow p csz sz s) = mi_allow_oom s" by blast
    have "mem_realloc s old n = Some (Inr (p, mem_grow p csz sz s))" using grow by (simp add: eq mem_consts)
    from stay [OF this r] show ?thesis .
  next
    case move
    obtain q s1 where m: "mem_malloc s sz = Some (q, s1)"
      "q = 0 \<and> s1 = s \<or>
       (\<exists>vs c us d. cs = vs @ (q, c, False) # us \<and> sz \<le> c \<and> 0 < q \<and> mem_inv s1 (vs @ carve q c sz @ us) \<and>
          blocks (mi_ram s) cs (q + 8) = None \<and> blocks (mi_ram s1) (vs @ carve q c sz @ us) = (blocks (mi_ram s) cs)(q + 8 \<mapsto> d) \<and>
          sz \<le> 8 * int (length d) \<and> mi_allow_oom s1 = mi_allow_oom s)"
      using mem_malloc_ok [OF inv, of sz] unfolding sz(4) by blast
    have eqm: "mem_realloc s old n = (if 0 \<noteq> q then
             Some (Inr (q, mem_free old (mem_copy (mi_ram s1) (q + MEM_SIZE_FIELD) (p + MEM_SIZE_FIELD) csz s1)))
           else mem_move p csz sz nf s1)"
      using move unfolding eq m(1) by (auto simp: if_not_P)
    show ?thesis
    proof (cases "q = 0")
      case True
      then have s1: "s1 = s" using m(2) by auto
      obtain q' s' where r: "mem_move p csz sz nf s = Some (Inr (q', s'))" "mi_allow_oom s' = mi_allow_oom s"
        "q' = 0 \<and> s' = s \<or> q' \<noteq> 0 \<and> (\<exists>cs' d'. mem_inv s' cs' \<and> (q' + 8 = p + 8 \<or> blocks (mi_ram s) cs (q' + 8) = None) \<and>
           blocks (mi_ram s') cs' = (blocks (mi_ram s) cs)(p + 8 := None, q' + 8 \<mapsto> d') \<and> sz \<le> 8 * int (length d') \<and>
           (\<forall>i. 8 * int i < csz \<longrightarrow> d' ! i = mi_ram s (p + 8 + 8 * int i)))"
        using mem_move_ok [OF inv [unfolded cs] sz(4) move(1)] unfolding nf_def nc_def cs by blast
      have e: "mem_realloc s old n = Some (Inr (q', s'))" using eqm True s1 r(1) by simp
      have data: "8 * int i < csz \<and> d ! i = mi_ram s (p + 8 + 8 * int i)" if "i < length d" for i
        using that ld contents_nth [of i "mi_ram s" "p + 8" csz] by (simp add: d)
      show ?thesis
      proof (cases "q' = 0")
        case True
        then show ?thesis using e r(3) by auto
      next
        case False
        then obtain cs' d' where m: "mem_inv s' cs'" "q' + 8 = old \<or> blocks (mi_ram s) cs (q' + 8) = None"
          "blocks (mi_ram s') cs' = (blocks (mi_ram s) cs)(old := None, q' + 8 \<mapsto> d')" "sz \<le> 8 * int (length d')"
          "\<forall>i. 8 * int i < csz \<longrightarrow> d' ! i = mi_ram s (p + 8 + 8 * int i)" using r(3) unfolding op(1) by blast
        show ?thesis by (rule moved [OF e r(2) False m(1-3)]) (use m(4,5) sz(3) data in simp_all)
      qed
    next
      case False
      then obtain cs1 e where q: "mem_inv s1 cs1" "blocks (mi_ram s) cs (q + 8) = None"
        "blocks (mi_ram s1) cs1 = (blocks (mi_ram s) cs)(q + 8 \<mapsto> e)" "sz \<le> 8 * int (length e)" "mi_allow_oom s1 = mi_allow_oom s"
        using m(2) by blast
      have ne: "q + 8 \<noteq> old" using q(2) old by auto
      define s2 where "s2 = mem_copy (mi_ram s1) (q + MEM_SIZE_FIELD) (p + MEM_SIZE_FIELD) csz s1"
      have "blocks (mi_ram s1) cs1 (q + 8) = Some e" "csz \<le> 8 * int (length e)" using q(3,4) move(1) by simp_all
      from copy_block [OF q(1) this, of "mi_ram s1" "p + MEM_SIZE_FIELD", folded s2_def]
      obtain e' where e': "mem_inv s2 cs1" "blocks (mi_ram s2) cs1 = (blocks (mi_ram s1) cs1)(q + 8 \<mapsto> e')" "length e' = length e"
        "\<forall>i. 8 * int i < csz \<longrightarrow> e' ! i = mi_ram s1 (p + MEM_SIZE_FIELD + 8 * int i)" "mi_allow_oom s2 = mi_allow_oom s1" by blast
      have b1: "blocks (mi_ram s1) cs1 old = Some d" "blocks (mi_ram s2) cs1 old = Some d" using q(3) e'(2) ne old by simp_all
      obtain vs dsz us where cs1: "cs1 = vs @ (p, dsz, True) # us" by (rule blocks_used [OF e'(1) b1(2), unfolded op(2)])
      obtain ts bsz us where bsz: "d = contents (mi_ram s1) (p + 8) bsz" by (rule blocks_used [OF q(1) b1(1), unfolded op(1)])
      have data: "d ! i = mi_ram s1 (p + 8 + 8 * int i)" if "i < length d" for i using that unfolding bsz by (rule contents_nth)
      obtain ws k f zs where f: "mem_inv (mem_free (p + MEM_SIZE_FIELD) s2) (ws @ [(k, f, False)] @ zs)"
        "blocks (mi_ram (mem_free (p + MEM_SIZE_FIELD) s2)) (ws @ [(k, f, False)] @ zs) = (blocks (mi_ram s2) cs1)(p + 8 := None)"
        "mi_allow_oom (mem_free (p + MEM_SIZE_FIELD) s2) = mi_allow_oom s2"
        using mem_free_ok [OF e'(1) [unfolded cs1]] unfolding cs1 by blast
      have "(blocks (mi_ram s2) cs1)(p + 8 := None) = (blocks (mi_ram s) cs)(old := None, q + 8 \<mapsto> e')"
        unfolding e'(2) q(3) using ne by (auto simp: op(1) fun_upd_twist)
      then have g: "blocks (mi_ram (mem_free (p + MEM_SIZE_FIELD) s2)) (ws @ [(k, f, False)] @ zs) = (blocks (mi_ram s) cs)(old := None, q + 8 \<mapsto> e')"
        using f(2) by simp
      have e: "mem_realloc s old n = Some (Inr (q, mem_free (p + MEM_SIZE_FIELD) s2))" using eqm False by (simp add: op(3) s2_def)
      have o: "mi_allow_oom (mem_free (p + MEM_SIZE_FIELD) s2) = mi_allow_oom s" using f(3) e'(5) q(5) by simp
      show ?thesis
      proof (rule moved [OF e o False f(1) _ g])
        show "q + 8 = old \<or> blocks (mi_ram s) cs (q + 8) = None" using q(2) by simp
        show "n \<le> 8 * int (length e')" using q(4) e'(3) sz(3) by simp
        show "\<forall>i<length d. 8 * int i < n \<longrightarrow> e' ! i = d ! i" using data e'(4) ld by (auto simp: mem_consts)
      qed
    qed
  qed
qed

end
