(* ===== verification/MemSpec.thy ===== *)
theory MemSpec
  imports MemRealloc
begin

text \<open>
  What the shared memory allocator promises. A ledger notes what the clients have been told and have written: which
  blocks are live, how many bytes were asked for, which words were stored. Every run of allowed calls keeps the blocks
  of the ledger apart, in bounds and with the words that were written; no memory is lost; the amount of memory that the
  allocator itself asks for is enough; its statistics are exact.
\<close>

section \<open>Creation\<close>

lemma ALIGN8_eq: "ALIGN8 x = 8 * ((x + 7) div 8)"
  unfolding ALIGN8_def by (rule and_not_7)

lemma ALIGN8_bounds: "x \<le> ALIGN8 x" "ALIGN8 x \<le> x + 7" "ALIGN8 x mod 8 = 0"
  unfolding ALIGN8_eq by presburger+

lemma ALIGN8_aligned: "x mod 8 = 0 \<Longrightarrow> ALIGN8 x = x"
  unfolding ALIGN8_eq by presburger

lemma mem_init_chunk_ok:
  assumes lo: "0 < mi_lo_bound s" "mi_lo_bound s mod 8 = 0" and hi: "mi_hi_bound s < 2 ^ 63"
    and t: "mi_total_size s = mi_hi_bound s - mi_lo_bound s - 16" "24 \<le> mi_total_size s" "mi_total_size s mod 8 = 0"
  shows "mem_inv (mem_init_chunk s) [(mi_lo_bound s, mi_total_size s, False)]"
proof -
  let ?p = "mi_lo_bound s" and ?t = "mi_total_size s"
  let ?i = "mem_bucket_by_size ?t" and ?s = "mem_init_chunk s"
  have i: "?i < 30" by (rule bucket_less)
  have ram: "mi_ram ?s = (mi_ram s)(?p := ?t, ?p + 8 + ?t := ?t, ?p + 8 := 0, ?p + 16 := 0)"
    "mi_buckets ?s = (replicate 30 0)[?i := ?p]"
    by (simp_all add: mem_init_chunk_def Let_def mem_field_defs mem_set_chunk_size_def mem_consts MEM_BUCKET_COUNT_eq)
  have sel: "mi_lo_bound ?s = ?p" "mi_hi_bound ?s = mi_hi_bound s" "mi_total_size ?s = ?t" "mi_used_size ?s = 0" "mi_free_size ?s = ?t"
    by (simp_all add: mem_init_chunk_def Let_def mem_field_defs mem_set_chunk_size_def)
  have L: "free_map [(?p, ?t, False)] = [?p \<mapsto> ?t]" by (simp add: free_map_def)
  have "lists_ok ?s (free_map [(?p, ?t, False)])" unfolding L lists_ok_def MEM_BUCKET_COUNT_eq
  proof (intro conjI allI impI)
    show "spaced (dom [?p \<mapsto> ?t])" using lo by (simp add: spaced_def)
    fix j :: nat assume j: "j < 30"
    show "\<exists>as. dll (mi_ram ?s) 0 (mi_buckets ?s ! j) as \<and> distinct as \<and> set as = bucket_set [?p \<mapsto> ?t] j"
    proof (cases "j = ?i")
      case True
      then have "bucket_set [?p \<mapsto> ?t] j = {?p}" by (auto simp: bucket_set_def)
      then show ?thesis using True i lo(1) by (intro exI [of _ "[?p]"]) (simp add: ram)
    next
      case False
      then have "bucket_set [?p \<mapsto> ?t] j = {}" by (auto simp: bucket_set_def)
      then show ?thesis using False j by (intro exI [of _ "[]"]) (simp add: ram)
    qed
  qed (simp add: ram)
  then show ?thesis using assms by (simp add: mem_inv_def sel ram(1) size_word_def)
qed

definition mem_overhead :: "nat \<Rightarrow> nat \<Rightarrow> int" where
  "mem_overhead descr_len param_len = 7 + SIZEOF_MEM_INFO + ZBX_PTR_SIZE * int MEM_BUCKET_COUNT + int (descr_len + 1) + int (param_len + 1) + 31"

lemma mem_create_shape:
  fixes base orig :: int
  assumes "MEM_MIN_SIZE \<le> orig" "orig \<le> MEM_MAX_SIZE" "0 < base" "base + orig < 2 ^ 63 - 8" "mem_overhead dl pl + 24 \<le> orig"
  shows "\<exists>s. zbx_mem_create (Some base) ram orig dl pl oom = Some (mem_init_chunk s) \<and> base < mi_lo_bound s \<and> mi_lo_bound s mod 8 = 0 \<and>
    mi_hi_bound s < base + orig \<and> mi_total_size s = mi_hi_bound s - mi_lo_bound s - 16 \<and> mi_total_size s mod 8 = 0 \<and>
    orig - mem_overhead dl pl \<le> mi_total_size s \<and> mi_allow_oom s = oom"
proof -
  define a where "a = ALIGN8 base"
  have a: "base \<le> a" "a \<le> base + 7" "a mod 8 = 0" using ALIGN8_bounds [of base] by (simp_all add: a_def)
  define b where "b = a + 80"
  have b: "ALIGN8 b = b" by (rule ALIGN8_aligned) (use a(3) in \<open>unfold b_def, presburger\<close>)
  define c where "c = b + 240 + int dl + 1 + int pl + 1"
  define z where "z = base + orig - c"
  have over: "mem_overhead dl pl = 360 + int dl + int pl" by (simp add: mem_overhead_def SIZEOF_MEM_INFO_def mem_consts MEM_BUCKET_COUNT_eq)
  have z: "55 \<le> z" "z \<le> orig" "orig - mem_overhead dl pl + 31 \<le> z" using assms(5) a unfolding over by (simp_all add: z_def c_def b_def)
  define lo where "lo = ALIGN8 c"
  define hi where "hi = ALIGN8 (c + z - 8)"
  have lh: "c \<le> lo" "lo \<le> c + 7" "lo mod 8 = 0" "c + z - 8 \<le> hi" "hi \<le> c + z - 1" "hi mod 8 = 0"
    using ALIGN8_bounds [of c] ALIGN8_bounds [of "c + z - 8"] by (simp_all add: lo_def hi_def)
  have cz: "c + z = base + orig" by (simp add: z_def)
  have big: "orig < 2 ^ 64" using assms(2) by (simp add: MEM_MAX_SIZE_def)
  have m1: "(orig - (a + 80 - base)) mod 2 ^ 64 = orig - (a + 80 - base)"
    by (rule mod_pos_pos_trivial) (use z a big in \<open>simp_all add: z_def c_def b_def\<close>)
  have m2: "(orig - (a + 80 - base) - 240) mod 2 ^ 64 = orig - (a + 80 - base) - 240"
    by (rule mod_pos_pos_trivial) (use z a big in \<open>simp_all add: z_def c_def b_def\<close>)
  have m3: "(orig - (a + 80 - base) - 240 - int (dl + 1)) mod 2 ^ 64 = orig - (a + 80 - base) - 240 - int (dl + 1)"
    by (rule mod_pos_pos_trivial) (use z a big in \<open>simp_all add: z_def c_def b_def\<close>)
  have zz: "orig - (a + 80 - base) - 240 - int (dl + 1) - int (pl + 1) = z" by (simp add: z_def c_def b_def)
  have m4: "z mod 2 ^ 64 = z" by (rule mod_pos_pos_trivial) (use z big in simp_all)
  have m5: "(c + z - 8) mod 2 ^ 64 = c + z - 8" by (rule mod_pos_pos_trivial) (use cz z assms(3,4) in simp_all)
  have m6: "(hi - lo - 16) mod 2 ^ 64 = hi - lo - 16" by (rule mod_pos_pos_trivial) (use lh cz z assms(3,4) big in simp_all)
  have cc: "b + 240 + int (dl + 1) + int (pl + 1) = c" by (simp add: c_def)
  define s where "s = \<lparr>mi_buckets = replicate MEM_BUCKET_COUNT 0, mi_lo_bound = lo, mi_hi_bound = hi, mi_free_size = 0, mi_used_size = 0,
    mi_orig_size = orig, mi_total_size = hi - lo - 16, mi_allow_oom = oom, mi_ram = ram\<rparr>"
  have "zbx_mem_create (Some base) ram orig dl pl oom = Some (mem_init_chunk s)"
  proof -
    have e: "a + 80 = b" "SIZEOF_MEM_INFO = 80" "ZBX_PTR_SIZE * int MEM_BUCKET_COUNT = 240" "2 * MEM_SIZE_FIELD = 16"
      by (simp_all add: b_def SIZEOF_MEM_INFO_def mem_consts MEM_BUCKET_COUNT_eq)
    have f: "b + 240 - b = 240" by simp
    have g: "(orig - (b - base)) mod 2 ^ 64 = orig - (b - base)" "(orig - (b - base) - 240) mod 2 ^ 64 = orig - (b - base) - 240"
      "(orig - (b - base) - 240 - int (dl + 1)) mod 2 ^ 64 = orig - (b - base) - 240 - int (dl + 1)"
      "(orig - (b - base) - 240 - int (dl + 1) - int (pl + 1)) mod 2 ^ 64 = z"
      using m1 m2 m3 m4 zz by (simp_all only: e(1))
    show ?thesis unfolding zbx_mem_create_def Let_def option.map a_def [symmetric] e b f g cc m5 lo_def [symmetric] hi_def [symmetric] m6
      using assms(1,2) by (simp add: s_def)
  qed
  moreover have "(hi - lo - 16) mod 8 = 0" using lh(3,6) by presburger
  ultimately show ?thesis using lh cz z a unfolding over by (intro exI [of _ s]) (simp add: s_def c_def b_def)
qed

lemma init_sel [simp]:
  "mi_lo_bound (mem_init_chunk s) = mi_lo_bound s" "mi_hi_bound (mem_init_chunk s) = mi_hi_bound s"
  "mi_total_size (mem_init_chunk s) = mi_total_size s" "mi_allow_oom (mem_init_chunk s) = mi_allow_oom s"
  by (simp_all add: mem_init_chunk_def Let_def mem_field_defs mem_set_chunk_size_def)

section \<open>The bounds never move\<close>

definition bounds :: "zbx_mem_info \<Rightarrow> int \<times> int \<times> int" where
  "bounds s = (mi_lo_bound s, mi_hi_bound s, mi_total_size s)"

lemma bounds_simps [simp]:
  "bounds (mem_init_chunk s) = bounds s" "bounds (mem_link_chunk p s) = bounds s" "bounds (mem_unlink_chunk p s) = bounds s"
  "bounds (mem_set_chunk_size p z s) = bounds s" "bounds (mem_set_used_chunk_size p z s) = bounds s" "bounds (mem_copy r p q n s) = bounds s"
  "bounds (s\<lparr>mi_used_size := u, mi_free_size := f\<rparr>) = bounds s" "bounds (s\<lparr>mi_used_size := u\<rparr>) = bounds s" "bounds (s\<lparr>mi_free_size := f\<rparr>) = bounds s"
  by (simp_all add: bounds_def mem_copy_def)

lemma bounds_use [simp]: "bounds (mem_use_chunk p c z s) = bounds s"
  by (simp add: mem_use_chunk_def Let_def)

lemma bounds_malloc: "mem_malloc s n = Some (p, s') \<Longrightarrow> bounds s' = bounds s"
  by (auto simp: mem_malloc_def Let_def split: if_splits)

lemma bounds_free [simp]: "bounds (mem_free p s) = bounds s"
  by (simp add: mem_free_def Let_def)

lemma bounds_stay [simp]: "bounds (mem_shrink p c z s) = bounds s" "bounds (mem_grow p c z s) = bounds s"
  by (simp_all add: mem_shrink_def mem_grow_def Let_def)

lemma bounds_move:
  assumes "mem_move p c z nf s = Some (Inr (q, s'))"
  shows "bounds s' = bounds s"
  using assms unfolding mem_move_eq [OF refl refl] by (auto split: if_splits dest!: bounds_malloc)

lemma bounds_realloc:
  assumes "mem_realloc s old n = Some (Inr (q, s'))"
  shows "bounds s' = bounds s"
  using assms unfolding mem_realloc_def Let_def by (auto split: if_splits simp: bind_eq_Some_conv dest!: bounds_malloc bounds_move)

section \<open>An interface of blocks\<close>

text \<open>What a client may do, and the ledger of what it knows: the size it asked for and the words it stored.\<close>

datatype mem_request = Malloc int | Realloc int int | Free int | Store int nat int | Clear

type_synonym ledger = "int \<rightharpoonup> int \<times> (nat \<rightharpoonup> int)"

definition mem_store :: "int \<Rightarrow> nat \<Rightarrow> int \<Rightarrow> zbx_mem_info \<Rightarrow> zbx_mem_info" where
  "mem_store p i v s = s\<lparr>mi_ram := (mi_ram s)(p + 8 * int i := v)\<rparr>"

fun mem_call :: "mem_request \<Rightarrow> zbx_mem_info \<Rightarrow> (mem_exit + int \<times> zbx_mem_info) option" where
  "mem_call (Malloc n) s = zbx_mem_malloc s 0 n"
| "mem_call (Realloc p n) s = zbx_mem_realloc s p n"
| "mem_call (Free p) s = Some (case zbx_mem_free s p of Inl e \<Rightarrow> Inl e | Inr s' \<Rightarrow> Inr (0, s'))"
| "mem_call (Store p i v) s = Some (Inr (0, mem_store p i v s))"
| "mem_call Clear s = Some (Inr (0, zbx_mem_clear s))"

definition good_size :: "int \<Rightarrow> bool" where
  "good_size n \<longleftrightarrow> 0 < n \<and> n \<le> MEM_MAX_SIZE"

fun allowed :: "ledger \<Rightarrow> mem_request \<Rightarrow> bool" where
  "allowed L (Malloc n) \<longleftrightarrow> good_size n"
| "allowed L (Realloc p n) \<longleftrightarrow> good_size n \<and> (p = 0 \<or> L p \<noteq> None)"
| "allowed L (Free p) \<longleftrightarrow> L p \<noteq> None"
| "allowed L (Store p i v) \<longleftrightarrow> (case L p of None \<Rightarrow> False | Some (n, w) \<Rightarrow> 8 * int i + 8 \<le> n \<and> 0 \<le> v \<and> v < 2 ^ 64)"
| "allowed L Clear \<longleftrightarrow> True"

fun note_call :: "mem_request \<Rightarrow> int \<Rightarrow> ledger \<Rightarrow> ledger" where
  "note_call (Malloc n) q L = (if q = 0 then L else L(q \<mapsto> (n, Map.empty)))"
| "note_call (Realloc p n) q L = (if q = 0 then L else L(p := None, q \<mapsto>
    (n, case L p of None \<Rightarrow> Map.empty | Some (m, w) \<Rightarrow> \<lambda>i. if 8 * int i + 8 \<le> n then w i else None)))"
| "note_call (Free p) q L = L(p := None)"
| "note_call (Store p i v) q L = (case L p of None \<Rightarrow> L | Some (n, w) \<Rightarrow> L(p \<mapsto> (n, w(i \<mapsto> v))))"
| "note_call Clear q L = Map.empty"

definition agrees :: "ledger \<Rightarrow> (int \<rightharpoonup> int list) \<Rightarrow> bool" where
  "agrees L B \<longleftrightarrow> dom L = dom B \<and> (\<forall>p n w. L p = Some (n, w) \<longrightarrow>
    n \<le> 8 * int (length (the (B p))) \<and> (\<forall>i v. w i = Some v \<longrightarrow> 8 * int i + 8 \<le> n \<and> the (B p) ! i = v))"

lemma agrees_remove: "agrees L B \<Longrightarrow> agrees (L(p := None)) (B(p := None))"
  by (auto simp: agrees_def)

lemma agrees_add:
  assumes "agrees L B" "n \<le> 8 * int (length d)" "\<And>i v. w i = Some v \<Longrightarrow> 8 * int i + 8 \<le> n \<and> d ! i = v"
  shows "agrees (L(p \<mapsto> (n, w))) (B(p \<mapsto> d))"
  using assms unfolding agrees_def by auto

lemma agrees_get:
  assumes "agrees L B" "L p = Some (n, w)"
  shows "\<exists>d. B p = Some d \<and> n \<le> 8 * int (length d) \<and> (\<forall>i v. w i = Some v \<longrightarrow> 8 * int i + 8 \<le> n \<and> d ! i = v)"
proof -
  have "p \<in> dom B" using assms by (auto simp: agrees_def)
  then obtain d where d: "B p = Some d" by blast
  have "n \<le> 8 * int (length (the (B p))) \<and> (\<forall>i v. w i = Some v \<longrightarrow> 8 * int i + 8 \<le> n \<and> the (B p) ! i = v)"
    using assms unfolding agrees_def by blast
  then show ?thesis using d by simp
qed

locale block_store =
  fixes rep :: "'s \<Rightarrow> (int \<rightharpoonup> int list) \<Rightarrow> bool"
    and malloc :: "'s \<Rightarrow> int \<Rightarrow> ('e + int \<times> 's) option"
    and resize :: "'s \<Rightarrow> int \<Rightarrow> int \<Rightarrow> ('e + int \<times> 's) option"
    and release :: "'s \<Rightarrow> int \<Rightarrow> 'e + 's"
    and store :: "int \<Rightarrow> nat \<Rightarrow> int \<Rightarrow> 's \<Rightarrow> 's"
    and strict :: "'s \<Rightarrow> bool" and oom :: 'e
  assumes malloc_law: "rep s B \<Longrightarrow> good_size n \<Longrightarrow> malloc s n = Some (Inl oom) \<and> strict s \<or>
      (\<exists>s'. malloc s n = Some (Inr (0, s')) \<and> rep s' B) \<or>
      (\<exists>q s' d. malloc s n = Some (Inr (q, s')) \<and> q \<noteq> 0 \<and> B q = None \<and> n \<le> 8 * int (length d) \<and> rep s' (B(q \<mapsto> d)))"
    and resize_law: "rep s B \<Longrightarrow> good_size n \<Longrightarrow> B p = Some d \<Longrightarrow> resize s p n = Some (Inl oom) \<and> strict s \<or>
      (\<exists>s'. resize s p n = Some (Inr (0, s')) \<and> rep s' B) \<or>
      (\<exists>q s' e. resize s p n = Some (Inr (q, s')) \<and> q \<noteq> 0 \<and> (q = p \<or> B q = None) \<and> n \<le> 8 * int (length e) \<and>
         (\<forall>i<length d. 8 * int i < n \<longrightarrow> e ! i = d ! i) \<and> rep s' (B(p := None, q \<mapsto> e)))"
    and release_law: "rep s B \<Longrightarrow> B p = Some d \<Longrightarrow> \<exists>s'. release s p = Inr s' \<and> rep s' (B(p := None))"
    and store_law: "rep s B \<Longrightarrow> B p = Some d \<Longrightarrow> i < length d \<Longrightarrow> rep (store p i v s) (B(p \<mapsto> d[i := v]))"
begin

definition known :: "'s \<Rightarrow> ledger \<Rightarrow> bool" where
  "known s L \<longleftrightarrow> (\<exists>B. rep s B \<and> agrees L B)"

lemma malloc_known:
  assumes "known s L" "good_size n"
  shows "malloc s n = Some (Inl oom) \<and> strict s \<or> (\<exists>q s'. malloc s n = Some (Inr (q, s')) \<and> known s' (note_call (Malloc n) q L))"
proof -
  obtain B where B: "rep s B" "agrees L B" using assms(1) unfolding known_def by blast
  consider (oom) "malloc s n = Some (Inl oom) \<and> strict s" | (full) s' where "malloc s n = Some (Inr (0, s'))" "rep s' B"
    | (ok) q s' d where "malloc s n = Some (Inr (q, s'))" "q \<noteq> 0" "n \<le> 8 * int (length d)" "rep s' (B(q \<mapsto> d))"
    using malloc_law [OF B(1) assms(2)] by blast
  then show ?thesis
  proof cases
    case full
    have "known s' (note_call (Malloc n) 0 L)" unfolding known_def using full(2) B(2) by auto
    then show ?thesis using full(1) by blast
  next
    case ok
    have "agrees (L(q \<mapsto> (n, Map.empty))) (B(q \<mapsto> d))" by (rule agrees_add [OF B(2) ok(3)]) simp
    then have "known s' (note_call (Malloc n) q L)" unfolding known_def using ok(2,4) by auto
    then show ?thesis using ok(1) by blast
  qed blast
qed

lemma resize_known:
  assumes "known s L" "good_size n" "L p = Some (m, w)"
  shows "resize s p n = Some (Inl oom) \<and> strict s \<or> (\<exists>q s'. resize s p n = Some (Inr (q, s')) \<and> known s' (note_call (Realloc p n) q L))"
proof -
  obtain B where B: "rep s B" "agrees L B" using assms(1) unfolding known_def by blast
  obtain d where d: "B p = Some d" "m \<le> 8 * int (length d)" "\<forall>i v. w i = Some v \<longrightarrow> 8 * int i + 8 \<le> m \<and> d ! i = v"
    using agrees_get [OF B(2) assms(3)] by blast
  consider (oom) "resize s p n = Some (Inl oom) \<and> strict s" | (full) s' where "resize s p n = Some (Inr (0, s'))" "rep s' B"
    | (ok) q s' e where "resize s p n = Some (Inr (q, s'))" "q \<noteq> 0" "n \<le> 8 * int (length e)"
      "\<forall>i<length d. 8 * int i < n \<longrightarrow> e ! i = d ! i" "rep s' (B(p := None, q \<mapsto> e))"
    using resize_law [OF B(1) assms(2) d(1)] by blast
  then show ?thesis
  proof cases
    case full
    have "known s' (note_call (Realloc p n) 0 L)" unfolding known_def using full(2) B(2) by auto
    then show ?thesis using full(1) by blast
  next
    case ok
    have "e ! i = v" if "w i = Some v" "8 * int i + 8 \<le> n" for i v
    proof -
      have "8 * int i + 8 \<le> 8 * int (length d)" "d ! i = v" using d(3) that(1) d(2) by fastforce+
      then have "i < length d" "8 * int i < n" using that(2) by linarith+
      then show ?thesis using ok(4) \<open>d ! i = v\<close> by blast
    qed
    then have "agrees (L(p := None, q \<mapsto> (n, \<lambda>i. if 8 * int i + 8 \<le> n then w i else None))) (B(p := None, q \<mapsto> e))"
      by (intro agrees_add agrees_remove B(2) ok(3)) (auto split: if_splits)
    then have "known s' (note_call (Realloc p n) q L)" unfolding known_def using ok(2,5) assms(3) by auto
    then show ?thesis using ok(1) by blast
  qed blast
qed

lemma release_known:
  assumes "known s L" "L p \<noteq> None"
  shows "\<exists>s'. release s p = Inr s' \<and> known s' (L(p := None))"
proof -
  obtain B where B: "rep s B" "agrees L B" using assms(1) unfolding known_def by blast
  obtain n w where "L p = Some (n, w)" using assms(2) by auto
  then obtain d where d: "B p = Some d" using agrees_get [OF B(2)] by blast
  show ?thesis using release_law [OF B(1) d] agrees_remove [OF B(2)] unfolding known_def by blast
qed

lemma store_known:
  assumes "known s L" "L p = Some (n, w)" "8 * int i + 8 \<le> n"
  shows "known (store p i v s) (L(p \<mapsto> (n, w(i \<mapsto> v))))"
proof -
  obtain B where B: "rep s B" "agrees L B" using assms(1) unfolding known_def by blast
  obtain d where d: "B p = Some d" "n \<le> 8 * int (length d)" "\<forall>i v. w i = Some v \<longrightarrow> 8 * int i + 8 \<le> n \<and> d ! i = v"
    using agrees_get [OF B(2) assms(2)] by blast
  have i: "i < length d" using assms(3) d(2) by linarith
  have "agrees (L(p \<mapsto> (n, w(i \<mapsto> v)))) (B(p \<mapsto> d[i := v]))"
    by (rule agrees_add [OF B(2)]) (use d(2,3) i assms(3) in \<open>auto split: if_splits simp: nth_list_update\<close>)
  then show ?thesis using store_law [OF B(1) d(1) i] unfolding known_def by blast
qed

end

section \<open>The allocator provides the blocks\<close>

definition mem_rep :: "int \<Rightarrow> int \<Rightarrow> zbx_mem_info \<Rightarrow> (int \<rightharpoonup> int list) \<Rightarrow> bool" where
  "mem_rep base orig s B \<longleftrightarrow> base < mi_lo_bound s \<and> mi_hi_bound s < base + orig \<and> (\<exists>cs. mem_inv s cs \<and> B = blocks (mi_ram s) cs)"

lemma mem_rep_step:
  assumes "mem_rep base orig s B" "bounds s' = bounds s" "mem_inv s' cs" "B' = blocks (mi_ram s') cs"
  shows "mem_rep base orig s' B'"
  using assms by (auto simp: mem_rep_def bounds_def)

lemma mem_rep_malloc:
  assumes "mem_rep base orig s B"
  shows "\<exists>q s'. mem_malloc s n = Some (q, s') \<and> (q = 0 \<and> s' = s \<or>
    0 < q \<and> (\<exists>d. B (q + 8) = None \<and> n \<le> 8 * int (length d) \<and> mem_rep base orig s' (B(q + 8 \<mapsto> d))))"
proof -
  obtain cs where inv: "mem_inv s cs" and B: "B = blocks (mi_ram s) cs" using assms unfolding mem_rep_def by blast
  obtain q s' where m: "mem_malloc s n = Some (q, s')" "q = 0 \<and> s' = s \<or>
     (\<exists>cs' d. 0 < q \<and> mem_inv s' cs' \<and> B (q + 8) = None \<and> blocks (mi_ram s') cs' = B(q + 8 \<mapsto> d) \<and>
        mem_proper_alloc_size n \<le> 8 * int (length d))"
    using mem_malloc_ok [OF inv, of n] unfolding B by blast
  then consider "q = 0 \<and> s' = s" | cs' d where "0 < q" "mem_inv s' cs'" "B (q + 8) = None" "B(q + 8 \<mapsto> d) = blocks (mi_ram s') cs'"
    "n \<le> 8 * int (length d)" using proper_size(1) [of n] order_trans by metis
  then show ?thesis
  proof cases
    case 2
    then show ?thesis using m(1) mem_rep_step [OF assms bounds_malloc [OF m(1)] 2(2,4)] by blast
  qed (use m(1) in blast)
qed

lemma mem_rep_pointer:
  assumes "mem_rep base orig s B" "0 < base" "B p = Some d"
  shows "base + 8 < p" "p mod 8 = 0" "p + 8 * int (length d) + 8 < base + orig" "d = contents (mi_ram s) p (8 * int (length d))"
proof -
  obtain cs where inv: "mem_inv s cs" and B: "B = blocks (mi_ram s) cs" and b: "base < mi_lo_bound s" "mi_hi_bound s < base + orig"
    using assms(1) unfolding mem_rep_def by blast
  obtain xs sz ys where cs: "cs = xs @ (p - 8, sz, True) # ys" and d: "d = contents (mi_ram s) p sz"
    by (rule blocks_used [OF inv assms(3) [unfolded B]])
  note t = mem_inv_split [OF inv [unfolded cs]]
  have len: "8 * int (length d) = sz" unfolding d by (rule contents_length) (use t in simp_all)
  have "mi_lo_bound s \<le> p - 8" by (rule tiled_le [OF t(1)])
  then show "base + 8 < p" using b by linarith
  show "p mod 8 = 0" using t(11) by presburger
  show "p + 8 * int (length d) + 8 < base + orig" using t(12) b len by linarith
  show "d = contents (mi_ram s) p (8 * int (length d))" using d len by simp
qed

lemma mem_rep_apart:
  assumes "mem_rep base orig s B" "B p = Some d" "B q = Some e"
  shows "p = q \<or> p + 8 * int (length d) + 16 \<le> q \<or> q + 8 * int (length e) + 16 \<le> p"
proof -
  obtain cs where inv: "mem_inv s cs" and B: "B = blocks (mi_ram s) cs" using assms(1) unfolding mem_rep_def by blast
  have t: "tiled (mi_lo_bound s) cs (mi_hi_bound s)" using inv by (simp add: mem_inv_def)
  have part: "\<exists>sz. (x - 8, sz, True) \<in> set cs \<and> 8 * int (length y) = sz" if xy: "B x = Some y" for x y
  proof -
    obtain xs sz ys where cs: "cs = xs @ (x - 8, sz, True) # ys" and y: "y = contents (mi_ram s) x sz"
      by (rule blocks_used [OF inv xy [unfolded B]])
    note t = mem_inv_split [OF inv [unfolded cs]]
    have "8 * int (length y) = sz" unfolding y by (rule contents_length) (use t in simp_all)
    then show ?thesis by (simp add: cs)
  qed
  obtain a b where "(p - 8, a, True) \<in> set cs" "8 * int (length d) = a" "(q - 8, b, True) \<in> set cs" "8 * int (length e) = b"
    using part [OF assms(2)] part [OF assms(3)] by blast
  then show ?thesis using tiled_apart [OF t, of "p - 8" a True "q - 8" b True] by auto
qed

lemma result_eq: "mem_result a (q, s) = (if q = 0 then (if a then Inr (0, s) else Inl Out_Of_Memory) else Inr (q + 8, s))"
  by (simp add: mem_result_def mem_consts)

interpretation shm: block_store "\<lambda>s B. 0 < base \<and> mem_rep base orig s B" "\<lambda>s n. zbx_mem_malloc s 0 n" zbx_mem_realloc zbx_mem_free
  mem_store "\<lambda>s. \<not> mi_allow_oom s" Out_Of_Memory for base orig
proof unfold_locales
  fix s :: zbx_mem_info and B n assume r: "0 < base \<and> mem_rep base orig s B" and n: "good_size n"
  obtain q s' where m: "mem_malloc s n = Some (q, s')" "q = 0 \<and> s' = s \<or>
    0 < q \<and> (\<exists>d. B (q + 8) = None \<and> n \<le> 8 * int (length d) \<and> mem_rep base orig s' (B(q + 8 \<mapsto> d)))"
    using mem_rep_malloc r by blast
  have e: "zbx_mem_malloc s 0 n = Some (mem_result (mi_allow_oom s) (q, s'))" using m(1) n by (simp add: zbx_mem_malloc_def good_size_def)
  show "zbx_mem_malloc s 0 n = Some (Inl Out_Of_Memory) \<and> \<not> mi_allow_oom s \<or>
      (\<exists>s'. zbx_mem_malloc s 0 n = Some (Inr (0, s')) \<and> 0 < base \<and> mem_rep base orig s' B) \<or>
      (\<exists>q s' d. zbx_mem_malloc s 0 n = Some (Inr (q, s')) \<and> q \<noteq> 0 \<and> B q = None \<and> n \<le> 8 * int (length d) \<and>
         0 < base \<and> mem_rep base orig s' (B(q \<mapsto> d)))"
  proof (cases "q = 0")
    case True
    then show ?thesis using m(2) e r by (simp add: result_eq)
  next
    case False
    then have "zbx_mem_malloc s 0 n = Some (Inr (q + 8, s'))" "q + 8 \<noteq> 0" using e m(2) by (auto simp: result_eq)
    then show ?thesis using False m(2) r by blast
  qed
next
  fix s :: zbx_mem_info and B n p d assume r: "0 < base \<and> mem_rep base orig s B" and n: "good_size n" and p: "B p = Some d"
  obtain cs where inv: "mem_inv s cs" and B: "B = blocks (mi_ram s) cs" using r unfolding mem_rep_def by blast
  have p0: "p \<noteq> 0" using mem_rep_pointer(1) [of base orig s B p d] r p by simp
  obtain q s' where m: "mem_realloc s p n = Some (Inr (q, s'))" "q = 0 \<and> s' = s \<or> q \<noteq> 0 \<and> (\<exists>cs' e. mem_inv s' cs' \<and>
      (q + 8 = p \<or> B (q + 8) = None) \<and> blocks (mi_ram s') cs' = B(p := None, q + 8 \<mapsto> e) \<and> n \<le> 8 * int (length e) \<and>
      (\<forall>i<length d. 8 * int i < n \<longrightarrow> e ! i = d ! i))"
    using mem_realloc_ok [OF inv p [unfolded B], of n] unfolding B by blast
  have e: "zbx_mem_realloc s p n = Some (mem_result (mi_allow_oom s) (q, s'))"
    using m(1) n p0 by (simp add: zbx_mem_realloc_def good_size_def)
  show "zbx_mem_realloc s p n = Some (Inl Out_Of_Memory) \<and> \<not> mi_allow_oom s \<or>
      (\<exists>s'. zbx_mem_realloc s p n = Some (Inr (0, s')) \<and> 0 < base \<and> mem_rep base orig s' B) \<or>
      (\<exists>q s' e. zbx_mem_realloc s p n = Some (Inr (q, s')) \<and> q \<noteq> 0 \<and> (q = p \<or> B q = None) \<and> n \<le> 8 * int (length e) \<and>
         (\<forall>i<length d. 8 * int i < n \<longrightarrow> e ! i = d ! i) \<and> 0 < base \<and> mem_rep base orig s' (B(p := None, q \<mapsto> e)))"
  proof (cases "q = 0")
    case True
    then show ?thesis using m(2) e r by (simp add: result_eq)
  next
    case False
    then obtain cs' e' where a: "mem_inv s' cs'" "q + 8 = p \<or> B (q + 8) = None" "B(p := None, q + 8 \<mapsto> e') = blocks (mi_ram s') cs'"
      "n \<le> 8 * int (length e')" "\<forall>i<length d. 8 * int i < n \<longrightarrow> e' ! i = d ! i" using m(2) by metis
    have rep: "mem_rep base orig s' (B(p := None, q + 8 \<mapsto> e'))"
      by (rule mem_rep_step [OF _ bounds_realloc [OF m(1)] a(1,3)]) (use r in blast)
    then have "q + 8 \<noteq> 0" using mem_rep_pointer(1) [OF rep, of "q + 8" e'] r by simp
    moreover have "zbx_mem_realloc s p n = Some (Inr (q + 8, s'))" using e False by (simp add: result_eq)
    ultimately show ?thesis using a rep r by blast
  qed
next
  fix s :: zbx_mem_info and B p d assume r: "0 < base \<and> mem_rep base orig s B" and p: "B p = Some d"
  obtain cs where inv: "mem_inv s cs" and B: "B = blocks (mi_ram s) cs" using r unfolding mem_rep_def by blast
  have p0: "p \<noteq> 0" using mem_rep_pointer(1) [of base orig s B p d] r p by simp
  obtain xs sz ys where cs: "cs = xs @ (p - 8, sz, True) # ys" by (rule blocks_used [OF inv p [unfolded B]])
  have pp: "p - 8 + MEM_SIZE_FIELD = p" by (simp add: mem_consts)
  obtain cs' where f: "mem_inv (mem_free p s) cs'" "B(p := None) = blocks (mi_ram (mem_free p s)) cs'"
    using mem_free_ok [OF inv [unfolded cs]] unfolding B cs pp by fastforce
  have "mem_rep base orig (mem_free p s) (B(p := None))" by (rule mem_rep_step [OF _ bounds_free f]) (use r in blast)
  then show "\<exists>s'. zbx_mem_free s p = Inr s' \<and> 0 < base \<and> mem_rep base orig s' (B(p := None))"
    using p0 r by (simp add: zbx_mem_free_def)
next
  fix s :: zbx_mem_info and B p d i v assume r: "0 < base \<and> mem_rep base orig s B" and p: "B p = Some d" and i: "i < length d"
  obtain cs where inv: "mem_inv s cs" and B: "B = blocks (mi_ram s) cs" using r unfolding mem_rep_def by blast
  obtain xs sz ys where cs: "cs = xs @ (p - 8, sz, True) # ys" and d: "d = contents (mi_ram s) p sz"
    by (rule blocks_used [OF inv p [unfolded B]])
  note t = mem_inv_split [OF inv [unfolded cs]]
  have len: "8 * int (length d) = sz" unfolding d by (rule contents_length) (use t in simp_all)
  let ?r = "(mi_ram s)(p + 8 * int i := v)"
  have pp: "p - 8 + 8 = p" by simp
  have out: "?r x = mi_ram s x" if "x \<notin> {p - 8 + 8..<p - 8 + 8 + sz}" for x using that i len by auto
  have w: "mem_inv (s\<lparr>mi_ram := ?r\<rparr>) cs" unfolding cs by (rule write_used(1) [OF inv [unfolded cs]]) (rule out)
  have "blocks ?r cs = (blocks (mi_ram s) cs)(p - 8 + 8 \<mapsto> contents ?r (p - 8 + 8) sz)"
    unfolding cs by (rule write_used(2) [OF inv [unfolded cs]]) (rule out)
  moreover have "contents ?r p sz = d[i := v]" unfolding d by (auto simp: contents_def list_eq_iff_nth_eq nth_list_update)
  moreover have "mi_ram (mem_store p i v s) = ?r" by (simp add: mem_store_def)
  ultimately have "B(p \<mapsto> d[i := v]) = blocks (mi_ram (mem_store p i v s)) cs" unfolding B pp by (simp only:)
  moreover have "mem_inv (mem_store p i v s) cs" using w by (simp add: mem_store_def)
  moreover have "bounds (mem_store p i v s) = bounds s" by (simp add: bounds_def mem_store_def)
  ultimately show "0 < base \<and> mem_rep base orig (mem_store p i v s) (B(p \<mapsto> d[i := v]))" using r mem_rep_step by blast
qed

section \<open>Every run of the clients\<close>

inductive mem_reachable :: "int \<Rightarrow> int \<Rightarrow> zbx_mem_info \<Rightarrow> ledger \<Rightarrow> bool" for base orig where
  created: "zbx_mem_create (Some base) ram orig dl pl oom = Some s \<Longrightarrow> 0 < base \<Longrightarrow> base + orig < 2 ^ 63 - 8 \<Longrightarrow>
    mem_overhead dl pl + 24 \<le> orig \<Longrightarrow> mem_reachable base orig s Map.empty"
| called: "mem_reachable base orig s L \<Longrightarrow> allowed L c \<Longrightarrow> mem_call c s = Some (Inr (q, s')) \<Longrightarrow>
    mem_reachable base orig s' (note_call c q L)"

lemma create_refused: "\<not> (MEM_MIN_SIZE \<le> orig \<and> orig \<le> MEM_MAX_SIZE) \<Longrightarrow> zbx_mem_create shmat ram orig dl pl oom = None"
  unfolding zbx_mem_create_def by (rule if_P)

lemma created_rep:
  assumes "zbx_mem_create (Some base) ram orig dl pl oom = Some s" "0 < base" "base + orig < 2 ^ 63 - 8" "mem_overhead dl pl + 24 \<le> orig"
  shows "mem_rep base orig s Map.empty" "mem_inv s [(mi_lo_bound s, mi_total_size s, False)]" "orig - mem_overhead dl pl \<le> mi_total_size s"
    "mi_allow_oom s = oom" "24 \<le> mi_total_size s"
proof -
  have sz: "MEM_MIN_SIZE \<le> orig" "orig \<le> MEM_MAX_SIZE" using assms(1) create_refused [of orig "Some base" ram dl pl oom] by auto
  obtain s0 where s0: "zbx_mem_create (Some base) ram orig dl pl oom = Some (mem_init_chunk s0)" "base < mi_lo_bound s0" "mi_lo_bound s0 mod 8 = 0"
    "mi_hi_bound s0 < base + orig" "mi_total_size s0 = mi_hi_bound s0 - mi_lo_bound s0 - 16" "mi_total_size s0 mod 8 = 0"
    "orig - mem_overhead dl pl \<le> mi_total_size s0" "mi_allow_oom s0 = oom"
    using mem_create_shape [OF sz assms(2-4), of ram oom] by (elim exE conjE) (rule that)
  have s: "s = mem_init_chunk s0" using assms(1) unfolding s0(1) option.inject by (rule sym)
  show t: "orig - mem_overhead dl pl \<le> mi_total_size s" "mi_allow_oom s = oom" using s0(7,8) unfolding s by simp_all
  show "24 \<le> mi_total_size s" using t(1) assms(4) by simp
  have "mem_inv (mem_init_chunk s0) [(mi_lo_bound s0, mi_total_size s0, False)]"
    by (rule mem_init_chunk_ok) (use s0(2-7) assms(2,3,4) in linarith)+
  then show inv: "mem_inv s [(mi_lo_bound s, mi_total_size s, False)]" unfolding s by simp
  have "Map.empty = blocks (mi_ram s) [(mi_lo_bound s, mi_total_size s, False)]" by (simp add: blocks_def)
  moreover have "base < mi_lo_bound s" "mi_hi_bound s < base + orig" using s0(2,4) unfolding s by simp_all
  ultimately show "mem_rep base orig s Map.empty" unfolding mem_rep_def using inv by blast
qed

lemma mem_rep_clear:
  assumes "mem_rep base orig s B" "0 < base"
  shows "mem_rep base orig (zbx_mem_clear s) Map.empty"
proof -
  obtain cs where inv: "mem_inv s cs" and b: "base < mi_lo_bound s" "mi_hi_bound s < base + orig" using assms unfolding mem_rep_def by blast
  have t: "tiled (mi_lo_bound s) cs (mi_hi_bound s)" "cs \<noteq> []" and tot: "mi_total_size s = mi_hi_bound s - mi_lo_bound s - 16"
    using inv by (simp_all add: mem_inv_def)
  have "mem_inv (mem_init_chunk s) [(mi_lo_bound s, mi_total_size s, False)]"
    by (rule mem_init_chunk_ok) (use inv tiled_length [OF t] in \<open>simp_all add: mem_inv_def\<close>)
  then have "mem_inv (zbx_mem_clear s) [(mi_lo_bound s, mi_total_size s, False)]" by (simp add: zbx_mem_clear_def)
  moreover have "bounds (zbx_mem_clear s) = bounds s" by (simp add: zbx_mem_clear_def)
  moreover have "Map.empty = blocks (mi_ram (zbx_mem_clear s)) [(mi_lo_bound s, mi_total_size s, False)]" by (simp add: blocks_def)
  ultimately show ?thesis using mem_rep_step [OF assms(1)] by blast
qed

text \<open>One call, with the outcome that the interface allows.\<close>

lemma mem_call_known:
  assumes k: "shm.known base orig s L" and a: "allowed L c"
  shows "mem_call c s = Some (Inl Out_Of_Memory) \<and> \<not> mi_allow_oom s \<or>
    (\<exists>q s'. mem_call c s = Some (Inr (q, s')) \<and> shm.known base orig s' (note_call c q L))"
proof (cases c)
  case (Malloc n)
  then show ?thesis using shm.malloc_known [OF k, of n] a by simp
next
  case (Realloc p n)
  show ?thesis
  proof (cases "p = 0")
    case True
    have e: "zbx_mem_realloc s 0 n = zbx_mem_malloc s 0 n" by (simp add: zbx_mem_realloc_def zbx_mem_malloc_def)
    obtain B where B: "0 < base \<and> mem_rep base orig s B" "agrees L B" using k unfolding shm.known_def by blast
    have "B 0 = None" using mem_rep_pointer(1) [of base orig s B 0] B(1) by (cases "B 0") auto
    then have "L 0 = None" using B(2) by (auto simp: agrees_def)
    then have "L(0 := None) = L" by (simp add: fun_upd_idem)
    then have "note_call (Realloc 0 n) q L = note_call (Malloc n) q L" for q using \<open>L 0 = None\<close> by simp
    then show ?thesis using shm.malloc_known [OF k, of n] a Realloc True e by simp
  next
    case False
    then obtain m w where "L p = Some (m, w)" using a Realloc by auto
    then show ?thesis using shm.resize_known [OF k, of n p m w] a Realloc by simp
  qed
next
  case (Free p)
  then obtain s' where "zbx_mem_free s p = Inr s'" "shm.known base orig s' (L(p := None))" using shm.release_known [OF k, of p] a by auto
  then show ?thesis using Free by simp
next
  case (Store p i v)
  then obtain n w where "L p = Some (n, w)" "8 * int i + 8 \<le> n" using a by (auto split: option.splits)
  then show ?thesis using shm.store_known [OF k] Store by simp
next
  case Clear
  have "shm.known base orig (zbx_mem_clear s) Map.empty"
    using k mem_rep_clear unfolding shm.known_def agrees_def by fastforce
  then show ?thesis using Clear by simp
qed

lemma reachable_known: "mem_reachable base orig s L \<Longrightarrow> shm.known base orig s L"
proof (induction rule: mem_reachable.induct)
  case (created ram dl pl oom s)
  then have "mem_rep base orig s Map.empty" by (rule created_rep(1))
  then show ?case using created(2) unfolding shm.known_def by (auto simp: agrees_def)
next
  case (called s L c q s')
  then show ?case using mem_call_known [OF called.IH called.hyps(2)] by auto
qed

section \<open>Statistics\<close>

definition extremes :: "(int \<Rightarrow> int) \<Rightarrow> int set \<Rightarrow> int \<times> int \<Rightarrow> int \<times> int" where
  "extremes f S a = (case a of (lo, hi) \<Rightarrow> (Min (insert lo (f ` S)), Max (insert hi (f ` S))))"

lemma extremes_empty [simp]: "extremes f {} a = a"
  by (simp add: extremes_def split: prod.splits)

lemma extremes_insert:
  assumes "finite S"
  shows "extremes f S (min lo (f p), max hi (f p)) = extremes f (insert p S) (lo, hi)"
proof -
  have "Min (insert (min lo (f p)) T) = Min (insert lo (insert (f p) T))" "Max (insert (max hi (f p)) T) = Max (insert hi (insert (f p) T))"
    if "finite T" for T
    using that by (cases "T = {}"; simp add: min.assoc max.assoc)+
  then show ?thesis using assms by (simp add: extremes_def)
qed

lemma extremes_union:
  assumes "finite S" "finite T"
  shows "extremes f T (extremes f S a) = extremes f (S \<union> T) a"
  using assms
proof (induction S arbitrary: a rule: finite_induct)
  case (insert p S)
  obtain lo hi where a: "a = (lo, hi)" by fastforce
  have "extremes f T (extremes f (insert p S) a) = extremes f T (extremes f S (min lo (f p), max hi (f p)))"
    using extremes_insert [OF insert.hyps(1)] by (simp add: a)
  also have "\<dots> = extremes f (S \<union> T) (min lo (f p), max hi (f p))" by (rule insert.IH [OF insert.prems])
  also have "\<dots> = extremes f (insert p S \<union> T) a" using extremes_insert [of "S \<union> T"] insert by (simp add: a)
  finally show ?case .
qed simp

lemma stats_chain_dll:
  "dll (mi_ram s) prv p as \<Longrightarrow> stats_chain s p (k, lo, hi) = Some (k + length as, extremes (CHUNK_SIZE s) (set as) (lo, hi))"
proof (induction as arbitrary: prv p k lo hi)
  case Nil
  then show ?case by (subst stats_chain.simps) simp
next
  case (Cons a as)
  then have "p \<noteq> 0" "p = a" and d: "dll (mi_ram s) p (mi_ram s (p + 16)) as" by auto
  have nx: "mem_get_next_chunk s p = mi_ram s (p + 16)" by (simp add: mem_get_next_chunk_def mem_consts add.commute)
  have "stats_chain s p (k, lo, hi) = stats_chain s (mi_ram s (p + 16)) (k + 1, min lo (CHUNK_SIZE s p), max hi (CHUNK_SIZE s p))"
    using \<open>p \<noteq> 0\<close> by (subst stats_chain.simps) (simp add: nx)
  also have "\<dots> = Some (k + 1 + length as, extremes (CHUNK_SIZE s) (set as) (min lo (CHUNK_SIZE s p), max hi (CHUNK_SIZE s p)))"
    by (rule Cons.IH [OF d])
  finally show ?case using \<open>p = a\<close> by (simp add: extremes_insert)
qed

lemma stats_buckets_dll:
  "list_all2 (dll (mi_ram s) 0) ps ass \<Longrightarrow>
    stats_buckets s ps a = Some (map length ass, extremes (CHUNK_SIZE s) (\<Union>(set ` set ass)) a)"
proof (induction ps ass arbitrary: a rule: list_all2_induct)
  case Nil
  then show ?case by (cases a) simp
next
  case (Cons p ps as ass)
  obtain lo hi where a: "a = (lo, hi)" by fastforce
  obtain lo' hi' where e: "extremes (CHUNK_SIZE s) (set as) (lo, hi) = (lo', hi')" by fastforce
  have "stats_chain s p (0, lo, hi) = Some (length as, lo', hi')" using stats_chain_dll [OF Cons.hyps(1), of 0 lo hi] e by simp
  then show ?case using Cons.IH [of "(lo', hi')"] extremes_union [of "set as" "\<Union>(set ` set ass)" "CHUNK_SIZE s" a]
    by (auto simp: a e split: prod.splits)
qed

lemma free_dom_card:
  assumes "distinct (map fst cs)"
  shows "card (dom (free_map cs)) = length (filter (\<lambda>(p, sz, u). \<not> u) cs)"
proof -
  have "dom (free_map cs) = set (map fst (filter (\<lambda>(p, sz, u). \<not> u) cs))" unfolding free_map_dom by force
  moreover have "distinct (map fst (filter (\<lambda>(p, sz, u). \<not> u) cs))" by (rule distinct_map_filter [OF assms])
  ultimately show ?thesis by (metis distinct_card length_map)
qed

lemma bucket_sets:
  assumes "finite (dom L)"
  shows "(\<Union>i<30. bucket_set L i) = dom L" "(\<Sum>i<30. card (bucket_set L i)) = card (dom L)"
proof -
  show u: "(\<Union>i<30. bucket_set L i) = dom L" using bucket_less by (force simp: bucket_set_def)
  have "(\<Sum>i<30. card (bucket_set L i)) = card (\<Union>i<30. bucket_set L i)"
    by (rule card_UN_disjoint [symmetric])
      (use finite_subset [OF bucket_set_dom assms] bucket_set_disjoint in \<open>auto simp: disjoint_iff\<close>)
  then show "(\<Sum>i<30. card (bucket_set L i)) = card (dom L)" by (simp only: u)
qed

lemma lists_stats:
  assumes "lists_ok s L" "finite (dom L)"
  shows "\<exists>ns. stats_buckets s (mi_buckets s) a = Some (ns, extremes (CHUNK_SIZE s) (dom L) a) \<and>
    ns = map (\<lambda>i. card (bucket_set L i)) [0..<30] \<and> sum_list ns = card (dom L)"
proof -
  have "\<forall>i\<in>{..<30}. \<exists>as. dll (mi_ram s) 0 (mi_buckets s ! i) as \<and> distinct as \<and> set as = bucket_set L i"
    using assms(1) by (simp add: lists_ok_def MEM_BUCKET_COUNT_eq)
  then obtain f where f: "\<And>i. i < 30 \<Longrightarrow> dll (mi_ram s) 0 (mi_buckets s ! i) (f i) \<and> distinct (f i) \<and> set (f i) = bucket_set L i"
    using bchoice [of "{..<30}"] by (metis (no_types, lifting) lessThan_iff)
  have len: "length (mi_buckets s) = 30" using assms(1) by (simp add: lists_ok_def MEM_BUCKET_COUNT_eq)
  have "list_all2 (dll (mi_ram s) 0) (mi_buckets s) (map f [0..<30])" using f len by (simp add: list_all2_conv_all_nth)
  from stats_buckets_dll [OF this, of a]
  have r: "stats_buckets s (mi_buckets s) a = Some (map length (map f [0..<30]), extremes (CHUNK_SIZE s) (\<Union>(set ` set (map f [0..<30]))) a)" .
  have "\<Union>(set ` set (map f [0..<30])) = (\<Union>i<30. bucket_set L i)" using f by (auto simp: atLeast0LessThan)
  then have u: "\<Union>(set ` set (map f [0..<30])) = dom L" using bucket_sets(1) [OF assms(2)] by simp
  have m: "map length (map f [0..<30]) = map (\<lambda>i. card (bucket_set L i)) [0..<30]"
    using f by (auto simp: map_eq_conv) (metis distinct_card)
  have "sum_list (map (\<lambda>i. card (bucket_set L i)) [0..<30]) = card (dom L)"
    using bucket_sets(2) [OF assms(2)] by (simp only: interv_sum_list_conv_sum_set_nat set_upt atLeast0LessThan)
  then show ?thesis using r unfolding u m by blast
qed

section \<open>The memory that the allocator asks for\<close>

fun malloc_all :: "int list \<Rightarrow> zbx_mem_info \<Rightarrow> bool" where
  "malloc_all [] s \<longleftrightarrow> True"
| "malloc_all (n # ns) s \<longleftrightarrow> (case zbx_mem_malloc s 0 n of Some (Inr (q, s')) \<Rightarrow> q \<noteq> 0 \<and> malloc_all ns s' | _ \<Rightarrow> False)"

definition span_of :: "int list \<Rightarrow> int" where
  "span_of ns = sum_list (map (\<lambda>n. mem_proper_alloc_size n + 16) ns) - 16"

lemma malloc_tail:
  "mem_inv s (us @ [(p, f, False)]) \<Longrightarrow> (\<And>c. c \<in> set us \<Longrightarrow> snd (snd c)) \<Longrightarrow> (\<And>n. n \<in> set ns \<Longrightarrow> good_size n) \<Longrightarrow> span_of ns \<le> f \<Longrightarrow>
    malloc_all ns s"
proof (induction ns arbitrary: s us p f)
  case (Cons n ns)
  let ?sz = "mem_proper_alloc_size n"
  have nonneg: "0 \<le> sum_list (map (\<lambda>n. mem_proper_alloc_size n + 16) ks)" for ks
    by (rule sum_list_nonneg) (auto intro: order_trans [OF _ add_right_mono [OF proper_size(2)]] simp: mem_consts)
  have fits: "?sz \<le> f" using Cons.prems(4) nonneg [of ns] by (simp add: span_of_def)
  obtain q s' where m: "mem_malloc s n = Some (q, s')"
    "q = 0 \<and> s' = s \<and> (\<forall>a c. (a, c, False) \<in> set (us @ [(p, f, False)]) \<longrightarrow> c < ?sz) \<or>
     (\<exists>xs csz ys. us @ [(p, f, False)] = xs @ (q, csz, False) # ys \<and> 0 < q \<and> mem_inv s' (xs @ carve q csz ?sz @ ys))"
    using mem_malloc_ok [OF Cons.prems(1), of n] by blast
  then obtain xs csz ys where x: "us @ [(p, f, False)] = xs @ (q, csz, False) # ys" "0 < q" "mem_inv s' (xs @ carve q csz ?sz @ ys)"
    using fits by fastforce
  have e: "ys = [] \<and> xs = us \<and> q = p \<and> csz = f"
  proof (cases ys rule: rev_cases)
    case (snoc zs z)
    then have "(q, csz, False) \<in> set us" using x(1) by auto
    then show ?thesis using Cons.prems(2) by fastforce
  qed (use x(1) in auto)
  have g: "0 < n" "n \<le> MEM_MAX_SIZE" using Cons.prems(3) [of n] by (simp_all add: good_size_def)
  have z: "zbx_mem_malloc s 0 n = Some (Inr (q + 8, s'))" using m(1) x(2) g by (simp add: zbx_mem_malloc_def result_eq)
  have "malloc_all ns s'"
  proof (cases ns)
    case (Cons k ks)
    have "?sz + 16 + mem_proper_alloc_size k \<le> f" using Cons.prems(4) nonneg [of ks] by (simp add: span_of_def Cons)
    then have "?sz + 40 \<le> f" using proper_size(2) [of k] by (simp add: mem_consts)
    then have inv: "mem_inv s' ((us @ [(p, ?sz, True)]) @ [(p + 16 + ?sz, f - ?sz - 16, False)])"
      using x(3) e by (simp add: carve_def)
    show ?thesis by (rule Cons.IH [OF inv]) (use Cons.prems in \<open>auto simp: span_of_def\<close>)
  qed simp
  then show ?case using z x(2) by simp
qed simp

lemma span_bound: "(\<And>n. n \<in> set ns \<Longrightarrow> good_size n) \<Longrightarrow> span_of ns \<le> sum_list ns + 39 * int (length ns) - 16"
proof (induction ns)
  case (Cons n ns)
  have "mem_proper_alloc_size n \<le> n + 23" using proper_size(4) [of n] Cons.prems [of n] by (simp add: good_size_def)
  then show ?case using Cons by (simp add: span_of_def algebra_simps)
qed (simp add: span_of_def)

section \<open>Properties\<close>

text \<open>C1. Memory safety of the shared memory allocator, for every run of allowed calls and stores of the clients from a
  creation with room for at least one chunk: every live block is aligned, lies inside the shared memory with all the
  bytes that were asked for, has no byte in common with another live block, and still holds every word that its client
  stored, also after the reallocations that moved it.\<close>

theorem shared_memory_safe:
  assumes "mem_reachable base orig s L" "L p = Some (n, w)"
  shows "p mod 8 = 0 \<and> base < p \<and> p + n < base + orig \<and> (\<forall>i v. w i = Some v \<longrightarrow> 8 * int i + 8 \<le> n \<and> mi_ram s (p + 8 * int i) = v) \<and>
    (\<forall>q m u. L q = Some (m, u) \<longrightarrow> q = p \<or> p + n \<le> q \<or> q + m \<le> p)"
proof -
  obtain B where B: "0 < base" "mem_rep base orig s B" "agrees L B" using reachable_known [OF assms(1)] unfolding shm.known_def by blast
  obtain d where d: "B p = Some d" "n \<le> 8 * int (length d)" "\<forall>i v. w i = Some v \<longrightarrow> 8 * int i + 8 \<le> n \<and> d ! i = v"
    using agrees_get [OF B(3) assms(2)] by blast
  note r = mem_rep_pointer [OF B(2,1) d(1)]
  have "8 * int i + 8 \<le> n \<and> mi_ram s (p + 8 * int i) = v" if i: "w i = Some v" for i v
  proof -
    have "8 * int i + 8 \<le> n" "d ! i = v" using d(3) i by blast+
    moreover have "i < length d" using \<open>8 * int i + 8 \<le> n\<close> d(2) by linarith
    ultimately show ?thesis using r(4) contents_nth [of i "mi_ram s" p "8 * int (length d)"] by simp
  qed
  moreover have "q = p \<or> p + n \<le> q \<or> q + m \<le> p" if q: "L q = Some (m, u)" for q m u
  proof -
    obtain e where "B q = Some e" "m \<le> 8 * int (length e)" using agrees_get [OF B(3) q] by blast
    then show ?thesis using mem_rep_apart [OF B(2) d(1), of q e] d(2) by auto
  qed
  moreover have "base < p" "p mod 8 = 0" "p + n < base + orig" using r(1-3) d(2) by linarith+
  ultimately show ?thesis by blast
qed

text \<open>C3. Every allowed call of the shared memory allocator returns: no list is walked for ever, the case of the
  reallocation that the source says should never happen does not happen, no call exits for a bad pointer, and running
  out of memory ends the process only when the memory was not created to allow that.\<close>

theorem shared_memory_answers:
  assumes "mem_reachable base orig s L" "allowed L c"
  shows "mem_call c s = Some (Inl Out_Of_Memory) \<and> \<not> mi_allow_oom s \<or> (\<exists>q s'. mem_call c s = Some (Inr (q, s')))"
  using mem_call_known [OF reachable_known [OF assms(1)] assms(2)] by blast

text \<open>C18. No memory is lost: when the clients hold no block, after any run, the memory is one free chunk again, and every
  request that fits in all of it is granted.\<close>

theorem shared_memory_no_leak:
  assumes "mem_reachable base orig s Map.empty" "good_size n" "mem_proper_alloc_size n \<le> mi_total_size s"
  shows "\<exists>q s'. zbx_mem_malloc s 0 n = Some (Inr (q, s')) \<and> q \<noteq> 0"
proof -
  obtain B where B: "mem_rep base orig s B" "agrees Map.empty B" using reachable_known [OF assms(1)] unfolding shm.known_def by blast
  obtain cs where inv: "mem_inv s cs" and b: "B = blocks (mi_ram s) cs" using B(1) unfolding mem_rep_def by blast
  have none: "B x = None" for x using B(2) by (auto simp: agrees_def)
  have free: "\<not> u" if "(q, c, u) \<in> set cs" for q c u
    using none [of "q + 8"] that blocks_dom [of "mi_ram s" cs "q + 8"] unfolding b by (cases u) auto
  have "cs \<noteq> []" "settled cs" "tiled (mi_lo_bound s) cs (mi_hi_bound s)" and tot: "mi_total_size s = mi_hi_bound s - mi_lo_bound s - 16"
    using inv by (simp_all add: mem_inv_def)
  moreover obtain a c u ds where cs: "cs = (a, c, u) # ds" using \<open>cs \<noteq> []\<close> by (cases cs) auto
  ultimately have "ds = []" using free by (cases ds) auto
  then have one: "cs = [(a, c, False)]" using free cs by auto
  have "c = mi_total_size s" using \<open>tiled _ _ _\<close> tot one by auto
  then have "malloc_all [n] s" using malloc_tail [of s "[]" a c "[n]"] inv one assms(2,3) by (simp add: span_of_def)
  then show ?thesis by (auto split: option.splits sum.splits)
qed

text \<open>C23. The size that \<open>zbx_mem_required_size\<close> computes is enough: a shared memory created with it and the total of
  the requests serves all the requests, for any number of requests of any sizes and wherever the memory is attached.\<close>

theorem zbx_mem_required_size_suffices:
  assumes "ns \<noteq> []" "\<And>n. n \<in> set ns \<Longrightarrow> good_size n" "orig = zbx_mem_required_size (int (length ns)) dl pl + sum_list ns"
    and "zbx_mem_create (Some base) ram orig dl pl oom = Some s" "0 < base" "base + orig < 2 ^ 63 - 8"
  shows "malloc_all ns s"
proof -
  define k where "k = int (length ns)"
  have k: "1 \<le> k" using assms(1) by (cases ns) (simp_all add: k_def)
  have r: "zbx_mem_required_size k dl pl = mem_overhead dl pl + 39 * k - 10"
    by (simp add: zbx_mem_required_size_def mem_overhead_def mem_consts SIZEOF_MEM_INFO_def)
  have "0 < sum_list ns"
  proof -
    obtain n ms where n: "ns = n # ms" using assms(1) by (cases ns) auto
    have "0 \<le> sum_list ms" by (rule sum_list_nonneg) (use assms(2) n in \<open>force simp: good_size_def\<close>)
    then show ?thesis using assms(2) [of n] n by (simp add: good_size_def)
  qed
  then have o: "mem_overhead dl pl + 24 \<le> orig" using k unfolding assms(3) k_def [symmetric] r by simp
  note c = created_rep [OF assms(4-6) o]
  have "span_of ns \<le> sum_list ns + 39 * k - 16" unfolding k_def by (rule span_bound) (rule assms(2))
  then have "span_of ns \<le> mi_total_size s" using c(3) unfolding assms(3) k_def [symmetric] r by simp
  then show ?thesis using malloc_tail [of s "[]" "mi_lo_bound s" "mi_total_size s" ns] c(2) assms(2) by simp
qed

text \<open>The statistics of the shared memory are exact, although the number of used chunks is only derived from the
  overhead: the counters of used and free bytes, the number of free chunks in every bucket, the smallest and the largest
  free chunk, and the numbers of free and used chunks are those of the chunks that tile the memory.\<close>

theorem zbx_mem_get_stats_exact:
  assumes "mem_inv s cs"
  defines "sizes \<equiv> {c. \<exists>p. (p, c, False) \<in> set cs}"
  shows "zbx_mem_get_stats s = Some \<lparr>ms_free_size = chunk_sum False cs, ms_used_size = chunk_sum True cs,
    ms_min_chunk_size = Min (insert (2 ^ 64 - 1) sizes), ms_max_chunk_size = Max (insert 0 sizes),
    ms_overhead = 16 * (int (length cs) - 1),
    ms_chunks_num = map (\<lambda>i. card {p. \<exists>c. (p, c, False) \<in> set cs \<and> mem_bucket_by_size c = i}) [0..<30],
    ms_free_chunks = length (filter (\<lambda>(p, c, u). \<not> u) cs), ms_used_chunks = int (length (filter (\<lambda>(p, c, u). u) cs))\<rparr>"
proof -
  have inv: "lists_ok s (free_map cs)" "mi_free_size s = chunk_sum False cs" "mi_used_size s = chunk_sum True cs"
    "mi_total_size s = mi_hi_bound s - mi_lo_bound s - 16" "tiled (mi_lo_bound s) cs (mi_hi_bound s)"
    using assms(1) by (simp_all add: mem_inv_def)
  have d: "distinct (map fst cs)" by (rule mem_inv_distinct [OF assms(1)])
  have fin: "finite (dom (free_map cs))" by (simp add: free_map_def finite_dom_map_of)
  obtain ns where ns: "stats_buckets s (mi_buckets s) (2 ^ 64 - 1, 0) = Some (ns, extremes (CHUNK_SIZE s) (dom (free_map cs)) (2 ^ 64 - 1, 0))"
    "ns = map (\<lambda>i. card (bucket_set (free_map cs) i)) [0..<30]" "sum_list ns = card (dom (free_map cs))"
    using lists_stats [OF inv(1) fin, of "(2 ^ 64 - 1, 0)"] by blast
  have b: "bucket_set (free_map cs) i = {p. \<exists>c. (p, c, False) \<in> set cs \<and> mem_bucket_by_size c = i}" for i
    by (auto simp: bucket_set_def free_map_iff [OF d])
  have size: "CHUNK_SIZE s p = c" if pc: "(p, c, False) \<in> set cs" for p c
  proof -
    obtain xs ys where "cs = xs @ (p, c, False) # ys" using pc by (meson split_list)
    then show ?thesis using mem_inv_split(7) assms(1) by blast
  qed
  have "CHUNK_SIZE s ` dom (free_map cs) = sizes" using size by (force simp: sizes_def free_map_dom)
  then have e: "extremes (CHUNK_SIZE s) (dom (free_map cs)) (2 ^ 64 - 1, 0) = (Min (insert (2 ^ 64 - 1) sizes), Max (insert 0 sizes))"
    by (simp add: extremes_def)
  have len: "length (filter (\<lambda>(p, c, u). u) cs) + length (filter (\<lambda>(p, c, u). \<not> u) cs) = length cs"
    using sum_length_filter_compl [of "\<lambda>(p, c, u). u" cs] by (simp add: case_prod_unfold)
  have o: "mi_total_size s - mi_used_size s - mi_free_size s = 16 * (int (length cs) - 1)"
    using chunk_sum_total [OF inv(5)] inv(2-4) by simp
  have "16 * (int (length cs) - 1) div (2 * MEM_SIZE_FIELD) + 1 - int (sum_list ns) = int (length (filter (\<lambda>(p, c, u). u) cs))"
    unfolding ns(3) free_dom_card [OF d] using len by (simp add: mem_consts)
  then show ?thesis unfolding zbx_mem_get_stats_def ns(1) e option.map prod.case Let_def o
    by (simp add: ns(2) b ns(3) [unfolded ns(2) b] free_dom_card [OF d] inv)
qed

text \<open>C39. The smallest size that \<open>zbx_mem_create\<close> accepts is too small for its own structures: with 128 to 300 bytes
  it succeeds, but the first chunk begins after the end of the shared memory, where the size and the pointers of the
  chunk are written, and the size of the chunk is beyond any size that can be asked for.\<close>

theorem zbx_mem_create_too_small:
  assumes "MEM_MIN_SIZE \<le> orig" "orig \<le> 300" "0 < base" "base < 2 ^ 62" "dl + pl < 2 ^ 20"
  shows "\<exists>s. zbx_mem_create (Some base) ram orig dl pl oom = Some s \<and> base + orig \<le> mi_lo_bound s \<and>
    mi_hi_bound s < mi_lo_bound s \<and> MEM_MAX_SIZE < mi_total_size s \<and> mi_free_size s = mi_total_size s"
proof -
  define a where "a = ALIGN8 base"
  have a: "base \<le> a" "a \<le> base + 7" "a mod 8 = 0" using ALIGN8_bounds [of base] by (simp_all add: a_def)
  define b where "b = a + 80"
  have b: "ALIGN8 b = b" by (rule ALIGN8_aligned) (use a(3) in \<open>unfold b_def, presburger\<close>)
  define c where "c = b + 240 + int (dl + 1) + int (pl + 1)"
  define e where "e = base + orig"
  have small: "int dl + int pl < 2 ^ 20" using assms(5) by simp
  have orig: "128 \<le> orig" using assms(1) by (simp add: MEM_MIN_SIZE_def)
  have low: "x mod 2 ^ 64 = x + 2 ^ 64" if "- (2 ^ 64) \<le> x" "x < 0" for x :: int
    using that mod_pos_pos_trivial [of "x + 2 ^ 64" "2 ^ 64"] by simp
  have m1: "(orig - (b - base)) mod 2 ^ 64 = orig - (b - base)"
    by (rule mod_pos_pos_trivial) (use orig a assms(2) in \<open>simp_all add: b_def\<close>)
  have m2: "(orig - (b - base) - 240) mod 2 ^ 64 = orig - (b - base) - 240 + 2 ^ 64"
    by (rule low) (use orig a assms(2) in \<open>simp_all add: b_def\<close>)
  have m3: "(orig - (b - base) - 240 + 2 ^ 64 - int (dl + 1)) mod 2 ^ 64 = orig - (b - base) - 240 + 2 ^ 64 - int (dl + 1)"
    by (rule mod_pos_pos_trivial) (use orig a assms(2) small in \<open>simp_all add: b_def\<close>)
  have m4: "(orig - (b - base) - 240 + 2 ^ 64 - int (dl + 1) - int (pl + 1)) mod 2 ^ 64 = e - c + 2 ^ 64"
    by (subst mod_pos_pos_trivial) (use orig a assms(2) small in \<open>simp_all add: b_def c_def e_def\<close>)
  have cs: "b + 240 + int (dl + 1) + int (pl + 1) = c" by (simp add: c_def)
  have "c + (e - c + 2 ^ 64) - 8 = e - 8 + 2 ^ 64" by simp
  moreover have "(e - 8) mod 2 ^ 64 = e - 8" by (rule mod_pos_pos_trivial) (use orig assms(2,3,4) in \<open>simp_all add: e_def\<close>)
  ultimately have m5: "(c + (e - c + 2 ^ 64) - 8) mod 2 ^ 64 = e - 8" by (simp only: mod_add_self2)
  define lo where "lo = ALIGN8 c"
  define hi where "hi = ALIGN8 (e - 8)"
  have lh: "c \<le> lo" "lo \<le> c + 7" "e - 8 \<le> hi" "hi \<le> e - 1" using ALIGN8_bounds [of c] ALIGN8_bounds [of "e - 8"] by (simp_all add: lo_def hi_def)
  have ec: "e \<le> c" "c - e < 2 ^ 21" using a small orig assms(2) by (simp_all add: e_def c_def b_def)
  have m6: "(hi - lo - 16) mod 2 ^ 64 = hi - lo - 16 + 2 ^ 64" by (rule low) (use lh ec in simp_all)
  have con: "a + 80 = b" "SIZEOF_MEM_INFO = 80" "ZBX_PTR_SIZE * int MEM_BUCKET_COUNT = 240" "2 * MEM_SIZE_FIELD = 16" "b + 240 - b = 240"
    by (simp_all add: b_def SIZEOF_MEM_INFO_def mem_consts MEM_BUCKET_COUNT_eq)
  have guard: "\<not> \<not> (MEM_MIN_SIZE \<le> orig \<and> orig \<le> MEM_MAX_SIZE)" using assms(1,2) by (simp add: MEM_MAX_SIZE_def)
  define s where "s = mem_init_chunk \<lparr>mi_buckets = replicate MEM_BUCKET_COUNT 0, mi_lo_bound = lo, mi_hi_bound = hi, mi_free_size = 0,
    mi_used_size = 0, mi_orig_size = orig, mi_total_size = hi - lo - 16 + 2 ^ 64, mi_allow_oom = oom, mi_ram = ram\<rparr>"
  have "zbx_mem_create (Some base) ram orig dl pl oom = Some s"
    unfolding zbx_mem_create_def if_not_P [OF guard] Let_def option.map a_def [symmetric] con b m1 m2 m3 m4 cs m5 lo_def [symmetric] hi_def [symmetric] m6 s_def ..
  moreover have "base + orig \<le> mi_lo_bound s" "mi_hi_bound s < mi_lo_bound s" using lh ec by (simp_all add: s_def e_def)
  moreover have "MEM_MAX_SIZE < mi_total_size s" using lh ec by (simp add: s_def MEM_MAX_SIZE_def)
  moreover have "mi_free_size s = mi_total_size s" by (simp add: s_def mem_init_chunk_def Let_def)
  ultimately show ?thesis by blast
qed

section \<open>Witnesses\<close>

definition demo_memory :: zbx_mem_info where
  "demo_memory = the (zbx_mem_create (Some 4097) (\<lambda>_. 0) 700 4 4 True)"

fun mem_run :: "mem_request list \<Rightarrow> zbx_mem_info \<times> ledger \<Rightarrow> (zbx_mem_info \<times> ledger) option" where
  "mem_run [] (s, L) = Some (s, L)"
| "mem_run (c # cs) (s, L) =
    (if allowed L c then (case mem_call c s of Some (Inr (q, s')) \<Rightarrow> mem_run cs (s', note_call c q L) | _ \<Rightarrow> None) else None)"

lemma mem_run_reachable: "mem_run cs (s, L) = Some (s', L') \<Longrightarrow> mem_reachable base orig s L \<Longrightarrow> mem_reachable base orig s' L'"
proof (induction cs arbitrary: s L)
  case (Cons c cs)
  then show ?case by (auto split: if_splits option.splits sum.splits prod.splits intro: mem_reachable.called)
qed simp

lemma demo_created: "zbx_mem_create (Some 4097) (\<lambda>_. 0) 700 4 4 True = Some demo_memory"
proof -
  have "zbx_mem_create (Some 4097) (\<lambda>_. 0) 700 4 4 True \<noteq> None" by code_simp
  then show ?thesis by (simp add: demo_memory_def)
qed

lemma demo_reachable: "mem_reachable 4097 700 demo_memory Map.empty"
  by (rule mem_reachable.created [OF demo_created]) (simp_all add: mem_overhead_def SIZEOF_MEM_INFO_def mem_consts MEM_BUCKET_COUNT_eq)

definition demo_run :: "(zbx_mem_info \<times> ledger) option" where
  "demo_run = mem_run [Malloc 40, Malloc 40, Store 4448 2 77, Store 4504 0 5, Realloc 4448 100] (demo_memory, Map.empty)"

lemma demo_run_result: "case demo_run of None \<Rightarrow> False | Some (s, L) \<Rightarrow>
    (case L 4560 of None \<Rightarrow> False | Some (n, w) \<Rightarrow> n = 100 \<and> w 2 = Some 77) \<and> (case L 4504 of None \<Rightarrow> False | Some (n, w) \<Rightarrow> n = 40 \<and> w 0 = Some 5)"
  by code_simp

theorem shared_memory_safe_witness:
  "\<exists>s L n w. mem_reachable 4097 700 s L \<and> L 4560 = Some (n, w) \<and> w 2 = Some 77 \<and> 4560 + n < 4797 \<and> mi_ram s 4576 = 77"
proof -
  obtain s L n w where r: "demo_run = Some (s, L)" "L 4560 = Some (n, w)" "w 2 = Some 77"
    using demo_run_result by (auto split: option.splits)
  have reach: "mem_reachable 4097 700 s L" using mem_run_reachable r(1) demo_reachable unfolding demo_run_def by blast
  show ?thesis using shared_memory_safe [OF reach r(2)] r reach by fastforce
qed

theorem shared_memory_answers_witness:
  "\<exists>s L. mem_reachable 4097 700 s L \<and> allowed L (Free 4504) \<and>
    (mem_call (Free 4504) s = Some (Inl Out_Of_Memory) \<and> \<not> mi_allow_oom s \<or> (\<exists>q s'. mem_call (Free 4504) s = Some (Inr (q, s'))))"
proof -
  obtain s L n w where r: "demo_run = Some (s, L)" "L 4504 = Some (n, w)"
    using demo_run_result by (auto split: option.splits)
  have reach: "mem_reachable 4097 700 s L" using mem_run_reachable r(1) demo_reachable unfolding demo_run_def by blast
  have "allowed L (Free 4504)" using r(2) by simp
  then show ?thesis using shared_memory_answers [OF reach, of "Free 4504"] reach by blast
qed

theorem shared_memory_no_leak_witness:
  "\<exists>s. mem_reachable 4097 700 s Map.empty \<and> (\<exists>q s'. zbx_mem_malloc s 0 336 = Some (Inr (q, s')) \<and> q \<noteq> 0)"
proof -
  have "case mem_run [Malloc 40, Free 4448] (demo_memory, Map.empty) of None \<Rightarrow> False | Some (s, L) \<Rightarrow> mi_total_size s = 336" by code_simp
  then obtain s L where r: "mem_run [Malloc 40, Free 4448] (demo_memory, Map.empty) = Some (s, L)" and t: "mi_total_size s = 336"
    by (auto split: option.splits)
  have "L = Map.empty"
  proof -
    have "case mem_call (Malloc 40) demo_memory of Some (Inr (q, s)) \<Rightarrow> q = 4448 | _ \<Rightarrow> False" by code_simp
    then show ?thesis using r by (auto split: option.splits sum.splits if_splits)
  qed
  then have reach: "mem_reachable 4097 700 s Map.empty" using mem_run_reachable [OF r demo_reachable] by simp
  have "mem_proper_alloc_size 336 = 336" "good_size 336" by code_simp+
  then show ?thesis using shared_memory_no_leak [OF reach, of 336] t reach by auto
qed

theorem zbx_mem_required_size_suffices_witness:
  "\<exists>s. zbx_mem_create (Some 4097) (\<lambda>_. 0) (zbx_mem_required_size 3 4 4 + 348) 4 4 False = Some s \<and> malloc_all [40, 8, 300] s"
proof -
  have "zbx_mem_create (Some 4097) (\<lambda>_. 0) (zbx_mem_required_size 3 4 4 + 348) 4 4 False \<noteq> None" by code_simp
  then obtain s where s: "zbx_mem_create (Some 4097) (\<lambda>_. 0) (zbx_mem_required_size 3 4 4 + 348) 4 4 False = Some s" by blast
  have e: "zbx_mem_required_size 3 4 4 = 475" by code_simp
  have "malloc_all [40, 8, 300] s"
    by (rule zbx_mem_required_size_suffices [OF _ _ _ s]) (auto simp: e good_size_def MEM_MAX_SIZE_def)
  then show ?thesis using s by blast
qed

theorem zbx_mem_get_stats_exact_witness:
  "\<exists>st. zbx_mem_get_stats demo_memory = Some st \<and> ms_free_size st = 336 \<and> ms_max_chunk_size st = 336 \<and> ms_free_chunks st = 1 \<and> ms_used_chunks st = 0"
proof -
  have "mem_overhead 4 4 + 24 \<le> 700" by (simp add: mem_overhead_def SIZEOF_MEM_INFO_def mem_consts MEM_BUCKET_COUNT_eq)
  then have inv: "mem_inv demo_memory [(mi_lo_bound demo_memory, mi_total_size demo_memory, False)]"
    using created_rep(2) [OF demo_created] by simp
  have "mi_total_size demo_memory = 336" by code_simp
  then show ?thesis using zbx_mem_get_stats_exact [OF inv] by simp
qed

theorem zbx_mem_create_too_small_witness:
  "\<exists>s. zbx_mem_create (Some 4096) (\<lambda>_. 0) 128 4 4 False = Some s \<and> 4096 + 128 \<le> mi_lo_bound s \<and> MEM_MAX_SIZE < mi_total_size s"
  using zbx_mem_create_too_small [of 128 4096 4 4 "\<lambda>_. 0" False] by (auto simp: MEM_MIN_SIZE_def)

end
