(* ===== verification/Base64.thy ===== *)
theory Base64
  imports Prelude
begin

text \<open>
  The base64 encoding (\<open>src/libs/zbxcrypto/base64.c\<close>): the encoder works on blocks of at most \<open>ZBX_MAX_B64_LEN\<close>
  characters and writes into a buffer of its own, the decoder skips every character that is not of the alphabet. Bytes
  are words of 8 bits, encoded texts are strings.
\<close>

unbundle bit_operations_syntax

definition ZBX_MAX_B64_LEN :: nat where
  "ZBX_MAX_B64_LEN = 16 * 1024"

section \<open>Characters\<close>

abbreviation in_range :: "char \<Rightarrow> char \<Rightarrow> char \<Rightarrow> bool" where
  "in_range lo hi c \<equiv> (of_char lo :: nat) \<le> of_char c \<and> (of_char c :: nat) \<le> of_char hi"

definition is_base64 :: "char \<Rightarrow> bool" where
  "is_base64 c \<longleftrightarrow> in_range CHR ''A'' CHR ''Z'' c \<or> in_range CHR ''a'' CHR ''z'' c \<or> in_range CHR ''0'' CHR ''9'' c \<or>
    c = CHR ''+'' \<or> c = CHR ''/'' \<or> c = CHR ''=''"

definition base64_set :: string where
  "base64_set = ''ABCDEFGHIJKLMNOPQRSTUVWXYZabcdefghijklmnopqrstuvwxyz0123456789+/''"

definition char_base64_encode :: "u8 \<Rightarrow> char" where
  "char_base64_encode uc = base64_set ! unat uc"

definition char_base64_decode :: "char \<Rightarrow> u8" where
  "char_base64_decode c =
    (if in_range CHR ''A'' CHR ''Z'' c then of_nat (of_char c - 65)
     else if in_range CHR ''a'' CHR ''z'' c then of_nat (of_char c - 97 + 26)
     else if in_range CHR ''0'' CHR ''9'' c then of_nat (of_char c - 48 + 52)
     else if c = CHR ''+'' then 62
     else 63)"

section \<open>Encoding\<close>

text \<open>One group of up to three bytes, with what the loop finds behind it.\<close>

definition encode_group :: "u8 list \<Rightarrow> string" where
  "encode_group p =
    (let from1 = p ! 0; from2 = (if 1 < length p then p ! 1 else 0); from3 = (if 2 < length p then p ! 2 else 0);
         to1 = drop_bit 2 from1 AND 0x3f;
         to2 = push_bit 4 (from1 AND 0x3) OR drop_bit 4 from2;
         to3 = push_bit 2 (from2 AND 0xf) OR drop_bit 6 from3;
         to4 = from3 AND 0x3f
     in [char_base64_encode to1, char_base64_encode to2,
         if 1 < length p then char_base64_encode to3 else CHR ''='',
         if 2 < length p then char_base64_encode to4 else CHR ''=''])"

text \<open>The loop, from the rest of the input and the number of characters written: it stops when the text gets too long.\<close>

function encode_loop :: "u8 list \<Rightarrow> nat \<Rightarrow> string" where
  "encode_loop p written =
    (if p = [] then [] else if ZBX_MAX_B64_LEN - 5 < written then [] else encode_group p @ encode_loop (drop 3 p) (written + 4))"
  by pat_completeness auto
termination by (relation "measure (\<lambda>(p, w). length p)") auto

declare encode_loop.simps [simp del]

text \<open>Writing into a buffer, checked. An empty input leaves the buffer alone.\<close>

definition write_cells :: "nat \<Rightarrow> string \<Rightarrow> string \<Rightarrow> string outcome" where
  "write_cells dst ys xs = (if dst + length ys \<le> length xs then Inr (memcpy_cells dst ys xs) else Inl OutOfBounds)"

definition str_base64_encode :: "u8 list \<Rightarrow> nat \<Rightarrow> string \<Rightarrow> string outcome" where
  "str_base64_encode p_str dst buf =
    (if p_str = [] then Inr buf else write_cells dst (encode_loop p_str 0 @ [NUL]) buf)"

fun encode_blocks :: "nat \<Rightarrow> u8 list \<Rightarrow> nat \<Rightarrow> string \<Rightarrow> (u8 list \<times> nat \<times> string) outcome" where
  "encode_blocks 0 pc pc_r buf = Inr (pc, pc_r, buf)"
| "encode_blocks (Suc n) pc pc_r buf =
    (let c_per_block = (ZBX_MAX_B64_LEN - 1) div 4 * 3; b_per_block = c_per_block div 3 * 4
     in case str_base64_encode (take c_per_block pc) pc_r buf of
          Inl e \<Rightarrow> Inl e
        | Inr buf \<Rightarrow> encode_blocks n (drop c_per_block pc) (pc_r + b_per_block) buf)"

definition str_base64_encode_dyn :: "char \<Rightarrow> u8 list \<Rightarrow> string outcome" where
  "str_base64_encode_dyn junk p_str =
    (let in_size = length p_str;
         buf = replicate ((in_size + 2) div 3 * 4 + 1) junk;
         c_per_block = (ZBX_MAX_B64_LEN - 1) div 4 * 3;
         full_block_num = in_size div c_per_block;
         bytes_left = in_size mod c_per_block;
         bytes_for_left = (bytes_left + 2) div 3 * 4
     in case encode_blocks full_block_num p_str 0 buf of
          Inl e \<Rightarrow> Inl e
        | Inr (pc, pc_r, buf) \<Rightarrow>
            if bytes_left \<noteq> 0 then
              (case str_base64_encode pc pc_r buf of
                 Inl e \<Rightarrow> Inl e
               | Inr buf \<Rightarrow> write_cells (pc_r + bytes_for_left) [NUL] buf)
            else write_cells pc_r [NUL] buf)"

section \<open>Decoding\<close>

text \<open>A byte is stored when it is there; a full buffer ends the decoder.\<close>

definition store_byte :: "nat \<Rightarrow> bool \<Rightarrow> u8 \<Rightarrow> bool \<times> u8 list \<Rightarrow> bool \<times> u8 list" where
  "store_byte maxsize there b acc =
    (case acc of (full, out) \<Rightarrow> if full \<or> \<not> there then acc else (length out + 1 = maxsize, out @ [b]))"

text \<open>A group of four characters of which the first \<open>lasti + 1\<close> have been read.\<close>

definition decode_group :: "string \<Rightarrow> nat \<Rightarrow> nat \<Rightarrow> u8 list \<Rightarrow> bool \<times> u8 list" where
  "decode_group from lasti maxsize out =
    (let to0 = char_base64_decode (from ! 0); to1 = char_base64_decode (from ! 1);
         to2 = char_base64_decode (from ! 2); to3 = char_base64_decode (from ! 3)
     in store_byte maxsize (lasti = 3 \<and> CHR ''='' \<noteq> from ! 3) (push_bit 6 (to2 AND 0x3) OR to3)
          (store_byte maxsize (2 \<le> lasti \<and> CHR ''='' \<noteq> from ! 2) (push_bit 4 (to1 AND 0xf) OR drop_bit 2 to2)
            (store_byte maxsize (1 \<le> lasti) (push_bit 2 to0 OR drop_bit 4 to1) (False, out))))"

fun decode_loop :: "string \<Rightarrow> string \<Rightarrow> nat \<Rightarrow> u8 list \<Rightarrow> u8 list" where
  "decode_loop [] from maxsize out =
    (if from = [] then out else snd (decode_group (from @ replicate (4 - length from) CHR ''A'') (length from - 1) maxsize out))"
| "decode_loop (c # p) from maxsize out =
    (if \<not> is_base64 c then decode_loop p from maxsize out
     else
       let from = from @ [c]
       in if length from < 4 then decode_loop p from maxsize out
          else case decode_group from 3 maxsize out of (full, out) \<Rightarrow> if full then out else decode_loop p [] maxsize out)"

definition str_base64_decode :: "string \<Rightarrow> nat \<Rightarrow> u8 list" where
  "str_base64_decode p_b64str maxsize = decode_loop p_b64str [] maxsize []"

section \<open>The encoder\<close>

text \<open>Base64 by groups, without a bound.\<close>

fun base64 :: "u8 list \<Rightarrow> string" where
  "base64 [] = []"
| "base64 [a] = encode_group [a]"
| "base64 [a, b] = encode_group [a, b]"
| "base64 (a # b # c # s) = encode_group [a, b, c] @ base64 s"

lemma encode_group_take: "encode_group (a # b # c # s) = encode_group [a, b, c]"
  by (simp add: encode_group_def)

lemma encode_group_length [simp]: "length (encode_group p) = 4"
  by (simp add: encode_group_def Let_def)

lemma base64_length: "length (base64 s) = (length s + 2) div 3 * 4"
proof (induction s rule: base64.induct)
  case (4 a b c s)
  have "(length (a # b # c # s) + 2) div 3 = (length s + 2 + 3) div 3" by simp
  also have "\<dots> = (length s + 2) div 3 + 1" by (simp only: div_add_self2)
  finally show ?case using 4 by simp
qed simp_all

lemma base64_append: "length s mod 3 = 0 \<Longrightarrow> base64 (s @ t) = base64 s @ base64 t"
  by (induction s rule: base64.induct) auto

lemma encode_loop_Nil [simp]: "encode_loop [] written = []"
  by (simp add: encode_loop.simps)

lemma encode_loop_step:
  "p \<noteq> [] \<Longrightarrow> written + 4 \<le> ZBX_MAX_B64_LEN - 1 \<Longrightarrow> encode_loop p written = encode_group p @ encode_loop (drop 3 p) (written + 4)"
  by (subst encode_loop.simps) (simp add: ZBX_MAX_B64_LEN_def)

lemma encode_loop_fits: "length (base64 p) + written \<le> ZBX_MAX_B64_LEN - 1 \<Longrightarrow> encode_loop p written = base64 p"
proof (induction p arbitrary: written rule: base64.induct)
  case (4 a b c s)
  then have "encode_loop s (written + 4) = base64 s" by simp
  then show ?case using 4(2) encode_loop_step [of "a # b # c # s" written] by (simp add: encode_group_take [of a b c s])
qed (simp_all add: encode_loop_step)

definition block_bytes :: nat where
  "block_bytes = 12285"

lemma block_consts: "(ZBX_MAX_B64_LEN - 1) div 4 * 3 = block_bytes" "block_bytes div 3 * 4 = 16380" "block_bytes mod 3 = 0" "0 < block_bytes"
  by (simp_all add: ZBX_MAX_B64_LEN_def block_bytes_def)

lemma str_base64_encode_block:
  assumes "p \<noteq> []" "length p \<le> block_bytes" "buf = done_text @ rest" "length (base64 p) < length rest"
  shows "str_base64_encode p (length done_text) buf = Inr (done_text @ base64 p @ [NUL] @ drop (length (base64 p) + 1) rest)"
proof -
  have "(length p + 2) div 3 \<le> (block_bytes + 2) div 3" using assms(2) by (intro div_le_mono) simp
  then have "length (base64 p) \<le> ZBX_MAX_B64_LEN - 1" by (simp add: base64_length block_bytes_def ZBX_MAX_B64_LEN_def)
  then have e: "encode_loop p 0 = base64 p" by (simp add: encode_loop_fits)
  show ?thesis using assms(1,4) unfolding str_base64_encode_def e write_cells_def assms(3)
    by (simp add: memcpy_cells_def)
qed

lemma encode_blocks_ok:
  assumes "n * block_bytes \<le> length p" "(length p + 2) div 3 * 4 < length rest"
  shows "\<exists>rest'. encode_blocks n p (length done_text) (done_text @ rest) =
    Inr (drop (n * block_bytes) p, length done_text + n * 16380, done_text @ base64 (take (n * block_bytes) p) @ rest') \<and>
    length rest' + n * 16380 = length rest"
  using assms
proof (induction n arbitrary: p done_text rest)
  case (Suc n)
  let ?q = "take block_bytes p"
  have q: "length ?q = block_bytes" "?q \<noteq> []" using Suc.prems(1) block_consts(4) by auto
  have len: "length (base64 ?q) = 16380" unfolding base64_length q(1) by (simp add: block_bytes_def)
  have "(block_bytes + 2) div 3 \<le> (length p + 2) div 3" using Suc.prems(1) by (intro div_le_mono) simp
  then have fits: "length (base64 ?q) < length rest" using Suc.prems(2) unfolding len by (simp add: block_bytes_def)
  define r where "r = [NUL] @ drop (length (base64 ?q) + 1) rest"
  have w: "str_base64_encode ?q (length done_text) (done_text @ rest) = Inr ((done_text @ base64 ?q) @ r)"
    using str_base64_encode_block [OF q(2) _ refl fits, of done_text] q(1) by (simp add: r_def)
  have "length (drop block_bytes p) + block_bytes = length p" using Suc.prems(1) by simp
  then have "(length p + 2) div 3 = (length (drop block_bytes p) + 2 + 4095 * 3) div 3" by (simp add: block_bytes_def)
  then have "(length p + 2) div 3 = (length (drop block_bytes p) + 2) div 3 + 4095" by (simp only: div_mult_self1)
  moreover have lr: "length r + 16380 = length rest" using fits unfolding r_def len by simp
  ultimately have "(length (drop block_bytes p) + 2) div 3 * 4 < length r" using Suc.prems(2) by simp
  moreover have "n * block_bytes \<le> length (drop block_bytes p)" using Suc.prems(1) by simp
  ultimately obtain rest' where r': "encode_blocks n (drop block_bytes p) (length (done_text @ base64 ?q)) ((done_text @ base64 ?q) @ r) =
    Inr (drop (n * block_bytes) (drop block_bytes p), length (done_text @ base64 ?q) + n * 16380,
      (done_text @ base64 ?q) @ base64 (take (n * block_bytes) (drop block_bytes p)) @ rest')" "length rest' + n * 16380 = length r"
    using Suc.IH by blast
  have "base64 ?q @ base64 (take (n * block_bytes) (drop block_bytes p)) = base64 (take (Suc n * block_bytes) p)"
    using base64_append [of ?q] q(1) block_consts(3) by (simp add: take_add)
  then have "encode_blocks (Suc n) p (length done_text) (done_text @ rest) =
    Inr (drop (Suc n * block_bytes) p, length done_text + Suc n * 16380, done_text @ base64 (take (Suc n * block_bytes) p) @ rest')"
    using r'(1) unfolding encode_blocks.simps Let_def block_consts w by (simp add: len add.commute add.left_commute)
  moreover have "length rest' + Suc n * 16380 = length rest" using r'(2) lr by simp
  ultimately show ?case by blast
qed simp

lemma encode_dyn_eq: "str_base64_encode_dyn junk s = Inr (base64 s @ [NUL])"
proof -
  let ?n = "length s div block_bytes" and ?m = "length s mod block_bytes"
  define buf where "buf = replicate ((length s + 2) div 3 * 4 + 1) junk"
  have size: "length s = ?n * block_bytes + ?m" by simp
  obtain rest where r: "encode_blocks ?n s 0 buf = Inr (drop (?n * block_bytes) s, ?n * 16380, base64 (take (?n * block_bytes) s) @ rest)"
    "length rest + ?n * 16380 = length buf"
    using encode_blocks_ok [of ?n s buf "[]"] by (auto simp: buf_def)
  define p where "p = drop (?n * block_bytes) s"
  define d where "d = base64 (take (?n * block_bytes) s)"
  have p: "length p = ?m" using size by (simp add: p_def minus_div_mult_eq_mod)
  have nb: "?n * block_bytes \<le> length s" by simp
  have "(?n * block_bytes + 2) div 3 = ?n * 4095" by (simp add: block_bytes_def)
  then have d: "length d = ?n * 16380" unfolding d_def base64_length using nb by (simp add: min_absorb2)
  have s: "base64 s = d @ base64 p"
    using base64_append [of "take (?n * block_bytes) s" p] nb by (simp add: p_def d_def block_bytes_def min_absorb2)
  have "length buf = length (base64 s) + 1" by (simp add: buf_def base64_length)
  then have rest: "length rest = length (base64 p) + 1" using r(2) d s by simp
  show ?thesis
  proof (cases "?m = 0")
    case True
    then have "p = []" using p by simp
    then have "write_cells (?n * 16380) [NUL] (d @ rest) = Inr (d @ [NUL])" using rest d by (simp add: write_cells_def memcpy_cells_def)
    then show ?thesis using True s \<open>p = []\<close>
      unfolding str_base64_encode_dyn_def Let_def block_consts buf_def [symmetric] r(1) d_def [symmetric] by simp
  next
    case False
    then have "p \<noteq> []" "length p \<le> block_bytes" using p block_consts(4) by (auto intro: less_imp_le)
    from str_base64_encode_block [OF this refl, of rest d] rest
    have w: "str_base64_encode p (?n * 16380) (d @ rest) = Inr (d @ base64 p @ [NUL])" by (simp add: d)
    have b: "(?m + 2) div 3 * 4 = length (base64 p)" by (simp add: base64_length p)
    have "write_cells (?n * 16380 + (?m + 2) div 3 * 4) [NUL] (d @ base64 p @ [NUL]) = Inr (d @ base64 p @ [NUL])"
      unfolding b by (simp add: write_cells_def memcpy_cells_def d)
    then show ?thesis using w False s
      unfolding str_base64_encode_dyn_def Let_def block_consts buf_def [symmetric] r(1) d_def [symmetric] p_def [symmetric] by simp
  qed
qed

text \<open>Encoding with allocation writes exactly the base64 text of the bytes and its terminator into the buffer that it
  allocates, block by block, whatever the length and whatever the buffer held: never behind the end of the buffer, and
  with no trace of the borders of the blocks.\<close>

theorem str_base64_encode_dyn_exact: "str_base64_encode_dyn junk s = Inr (base64 s @ [NUL])"
  by (rule encode_dyn_eq)

section \<open>The decoder\<close>

lemma bit_masks: "(0x3f :: u8) = mask 6" "(0x3 :: u8) = mask 2" "(0xf :: u8) = mask 4" by (simp_all add: mask_eq_exp_minus_1)

lemma u8_eqI: "bit v 0 = bit w 0 \<Longrightarrow> bit v 1 = bit w 1 \<Longrightarrow> bit v 2 = bit w 2 \<Longrightarrow> bit v 3 = bit w 3 \<Longrightarrow> bit v 4 = bit w 4 \<Longrightarrow>
  bit v 5 = bit w 5 \<Longrightarrow> bit v 6 = bit w 6 \<Longrightarrow> bit v 7 = bit w 7 \<Longrightarrow> v = w" for v w :: u8
proof (rule bit_word_eqI)
  fix n assume e: "bit v 0 = bit w 0" "bit v 1 = bit w 1" "bit v 2 = bit w 2" "bit v 3 = bit w 3" "bit v 4 = bit w 4"
    "bit v 5 = bit w 5" "bit v 6 = bit w 6" "bit v 7 = bit w 7" and "n < LENGTH(8)"
  then have "n < 8" by simp
  then have "n \<in> {0, 1, 2, 3, 4, 5, 6, 7}" by auto
  then show "bit v n = bit w n" using e by auto
qed

text \<open>The four sextets of three bytes.\<close>

definition sextet1 :: "u8 \<Rightarrow> u8" where
  "sextet1 a = drop_bit 2 a AND 0x3f"

definition sextet2 :: "u8 \<Rightarrow> u8 \<Rightarrow> u8" where
  "sextet2 a b = push_bit 4 (a AND 0x3) OR drop_bit 4 b"

definition sextet3 :: "u8 \<Rightarrow> u8 \<Rightarrow> u8" where
  "sextet3 b c = push_bit 2 (b AND 0xf) OR drop_bit 6 c"

definition sextet4 :: "u8 \<Rightarrow> u8" where
  "sextet4 c = c AND 0x3f"

lemmas sextet_defs = sextet1_def sextet2_def sextet3_def sextet4_def

lemma join_bits:
  "push_bit 2 (sextet1 a) OR drop_bit 4 (sextet2 a b) = a"
  "push_bit 4 (sextet2 a b AND 0xf) OR drop_bit 2 (sextet3 b c) = b"
  "push_bit 6 (sextet3 b c AND 0x3) OR sextet4 c = c"
  unfolding sextet_defs bit_masks by (rule u8_eqI; simp add: bit_simps)+

lemma six_bits: "unat (sextet1 a) < 64" "unat (sextet2 a b) < 64" "unat (sextet3 b c) < 64" "unat (sextet4 c) < 64"
proof -
  have *: "unat w < 64" if "w = take_bit 6 w" for w :: u8
  proof -
    have "unat (take_bit 6 w) < 2 ^ 6" by (simp only: unsigned_take_bit_eq take_bit_nat_less_exp)
    then show ?thesis using that by simp
  qed
  show "unat (sextet1 a) < 64" "unat (sextet2 a b) < 64" "unat (sextet3 b c) < 64" "unat (sextet4 c) < 64"
    unfolding sextet_defs bit_masks by (rule *, rule u8_eqI; auto simp: bit_simps dest: bit_imp_le_length)+
qed

lemma encode_group_sextets:
  "encode_group [a] = map char_base64_encode [sextet1 a, sextet2 a 0] @ [CHR ''='', CHR ''='']"
  "encode_group [a, b] = map char_base64_encode [sextet1 a, sextet2 a b, sextet3 b 0] @ [CHR ''='']"
  "encode_group [a, b, c] = map char_base64_encode [sextet1 a, sextet2 a b, sextet3 b c, sextet4 c]"
  by (simp_all add: encode_group_def Let_def sextet_defs)

lemma alphabet: "\<forall>i\<in>set [0..<64]. char_base64_decode (base64_set ! i) = of_nat i \<and> is_base64 (base64_set ! i) \<and> base64_set ! i \<noteq> CHR ''=''"
  by code_simp

lemma encode_char:
  assumes "unat w < 64"
  shows "char_base64_decode (char_base64_encode w) = w" "is_base64 (char_base64_encode w)" "char_base64_encode w \<noteq> CHR ''=''"
  using alphabet assms by (simp_all add: char_base64_encode_def)

lemma is_base64_pad [simp]: "is_base64 CHR ''=''"
  by (simp add: is_base64_def)

lemma encode_group_base64: "p \<noteq> [] \<Longrightarrow> length p \<le> 3 \<Longrightarrow> \<forall>c\<in>set (encode_group p). is_base64 c"
  by (cases p rule: base64.cases) (simp_all add: encode_group_sextets encode_char six_bits)

text \<open>The bytes of a group, and the decoder as the longest prefix that fits.\<close>

definition group_bytes :: "string \<Rightarrow> u8 list" where
  "group_bytes from =
    [push_bit 2 (char_base64_decode (from ! 0)) OR drop_bit 4 (char_base64_decode (from ! 1))] @
    (if from ! 2 \<noteq> CHR ''='' then [push_bit 4 (char_base64_decode (from ! 1) AND 0xf) OR drop_bit 2 (char_base64_decode (from ! 2))] else []) @
    (if from ! 3 \<noteq> CHR ''='' then [push_bit 6 (char_base64_decode (from ! 2) AND 0x3) OR char_base64_decode (from ! 3)] else [])"

lemma store_bytes:
  assumes "length out < n"
  shows "store_byte n d z (store_byte n c y (store_byte n True x (False, out))) =
    (let bs = x # (if c then [y] else []) @ (if d then [z] else []) in (n \<le> length (out @ bs), take n (out @ bs)))"
  using assms by (auto simp: store_byte_def Let_def take_append)

lemma decode_group_full:
  assumes "length out < n"
  shows "decode_group from 3 n out = (n \<le> length (out @ group_bytes from), take n (out @ group_bytes from))"
  unfolding decode_group_def Let_def using store_bytes [OF assms] by (auto simp: group_bytes_def Let_def)

lemma group_bytes_encode: "p \<noteq> [] \<Longrightarrow> length p \<le> 3 \<Longrightarrow> group_bytes (encode_group p) = p"
  by (cases p rule: base64.cases) (simp_all add: encode_group_sextets group_bytes_def encode_char six_bits join_bits join_bits [simplified])

lemma decode_loop_skip: "decode_loop t from n out = decode_loop (filter is_base64 t) from n out"
  by (induction t arbitrary: "from" out) (auto simp: Let_def split: prod.splits)

lemma decode_loop_group:
  assumes "length g = 4" "\<forall>c\<in>set g. is_base64 c" "length out < n"
  shows "decode_loop (g @ r) [] n out =
    (if n \<le> length (out @ group_bytes g) then take n (out @ group_bytes g) else decode_loop r [] n (out @ group_bytes g))"
proof -
  obtain a b c d where "g = [a, b, c, d]" using assms(1) by (auto simp: length_Suc_conv eval_nat_numeral)
  then show ?thesis using assms(2) decode_group_full [OF assms(3), of g] by (simp add: Let_def)
qed

lemma decode_loop_encoded:
  assumes "p \<noteq> []" "length p \<le> 3" "length out < n"
  shows "decode_loop (encode_group p @ r) [] n out = (if n \<le> length (out @ p) then take n (out @ p) else decode_loop r [] n (out @ p))"
  using decode_loop_group [OF encode_group_length encode_group_base64 [OF assms(1,2)] assms(3), of r]
  by (simp add: group_bytes_encode [OF assms(1,2)])

lemma decode_loop_base64: "length out < n \<Longrightarrow> decode_loop (base64 s) [] n out = take n (out @ s)"
proof (induction s arbitrary: out rule: base64.induct)
  case (2 a)
  then show ?case using decode_loop_encoded [of "[a]" out n "[]"] by simp
next
  case (3 a b)
  then show ?case using decode_loop_encoded [of "[a, b]" out n "[]"] by simp
next
  case (4 a b c s)
  have e: "out @ a # b # c # s = (out @ [a, b, c]) @ s" by simp
  show ?case
  proof (cases "n \<le> length (out @ [a, b, c])")
    case True
    then have t: "take n ((out @ [a, b, c]) @ s) = take n (out @ [a, b, c])" unfolding take_append [of n "out @ [a, b, c]"] by simp
    show ?thesis unfolding e t using decode_loop_encoded [of "[a, b, c]" out n "base64 s"] 4(2) True by simp
  next
    case False
    then show ?thesis using decode_loop_encoded [of "[a, b, c]" out n "base64 s"] 4 unfolding e by simp
  qed
qed simp

text \<open>C30. Decoding gives back the bytes that were encoded, or as many of them as the buffer holds, also when characters
  outside of the alphabet, such as line breaks, have been put anywhere into the text.\<close>

theorem str_base64_roundtrip:
  assumes "str_base64_encode_dyn junk s = Inr (text0 @ [NUL])" "filter is_base64 t = text0" "0 < maxsize"
  shows "str_base64_decode t maxsize = take maxsize s"
proof -
  have "text0 = base64 s" using assms(1) encode_dyn_eq by simp
  then show ?thesis using decode_loop_skip [of t "[]" maxsize "[]"] decode_loop_base64 [of "[]" maxsize s] assms(2,3)
    by (simp add: str_base64_decode_def)
qed

theorem str_base64_roundtrip_witness:
  "str_base64_encode_dyn CHR ''x'' [77, 97, 110, 0, 255] = Inr (''TWFuAP8='' @ [NUL]) \<and>
   str_base64_decode (''TWFu'' @ [CHR 0x0A] @ ''AP8='') 10 = [77, 97, 110, 0, 255]"
proof -
  have e: "str_base64_encode_dyn CHR ''x'' [77, 97, 110, 0, 255] = Inr (''TWFuAP8='' @ [NUL])"
    unfolding encode_dyn_eq by code_simp
  have "filter is_base64 (''TWFu'' @ [CHR 0x0A] @ ''AP8='') = ''TWFuAP8=''" by code_simp
  from str_base64_roundtrip [OF e this, of 10] show ?thesis using e by simp
qed

end
