(* ===== verification/Evaluate.thy ===== *)
theory Evaluate
  imports NumParse Complex_Main "HOL-Library.While_Combinator"
begin

text \<open>
  The evaluation of trigger expressions such as \<open>26.416>10K and not (0=ZBX_UNKNOWN0)\<close>
  (\<open>src/libs/zbxalgo/evaluate.c\<close>). A double is a rational number or an infinity, which the source uses as codes: the
  positive one for a fatal error, the negative one for an unknown value. Which double a result is rounded to, and when
  it overflows, is an argument; the sign of zero is not kept. The static variables of the source are the state; the
  nesting level is counted down from its limit, since after a fatal error nobody reads it, or the position in the text.
\<close>

section \<open>Doubles\<close>

datatype dbl = Num rat | PInf | MInf

abbreviation ZBX_INFINITY :: dbl where
  "ZBX_INFINITY \<equiv> PInf"

abbreviation ZBX_UNKNOWN :: dbl where
  "ZBX_UNKNOWN \<equiv> MInf"

text \<open>The rounding of the exact result of an operation, and \<open>ZBX_DOUBLE_EPSILON\<close>, which is a variable in the source.\<close>

record fp =
  fp_round :: "rat \<Rightarrow> dbl"
  fp_epsilon :: rat

fun dbl_neg :: "dbl \<Rightarrow> dbl" where
  "dbl_neg (Num q) = Num (- q)"
| "dbl_neg PInf = MInf"
| "dbl_neg MInf = PInf"

text \<open>Arithmetic: the code only computes with finite operands, for which the other equation is not used.\<close>

fun dbl_arith :: "fp \<Rightarrow> (rat \<Rightarrow> rat \<Rightarrow> rat) \<Rightarrow> dbl \<Rightarrow> dbl \<Rightarrow> dbl" where
  "dbl_arith fp f (Num a) (Num b) = fp_round fp (f a b)"
| "dbl_arith fp f x y = x"

fun dbl_le :: "dbl \<Rightarrow> dbl \<Rightarrow> bool" where
  "dbl_le (Num a) (Num b) \<longleftrightarrow> a \<le> b"
| "dbl_le MInf y \<longleftrightarrow> True"
| "dbl_le x PInf \<longleftrightarrow> True"
| "dbl_le x y \<longleftrightarrow> False"

definition dbl_less :: "dbl \<Rightarrow> dbl \<Rightarrow> bool" where
  "dbl_less x y \<longleftrightarrow> \<not> dbl_le y x"

definition dbl_of_bool :: "bool \<Rightarrow> dbl" where
  "dbl_of_bool b = Num (if b then 1 else 0)"

text \<open>A difference with an infinity is infinite or not a number, and so not within the tolerance.\<close>

definition zbx_double_compare :: "fp \<Rightarrow> dbl \<Rightarrow> dbl \<Rightarrow> bool" where
  "zbx_double_compare fp a b =
    (case (a, b) of
       (Num p, Num q) \<Rightarrow> (case fp_round fp (p - q) of Num d \<Rightarrow> \<bar>d\<bar> \<le> fp_epsilon fp | _ \<Rightarrow> False)
     | _ \<Rightarrow> False)"

text \<open>\<open>atof\<close> on a text that begins with a digit or a point: the value of the longest decimal number at its start.\<close>

definition decimal_value :: "string \<Rightarrow> rat" where
  "decimal_value s =
    (let ds = takeWhile isdigit s;
         r = drop (length ds) s;
         fs = (if cchar r 0 = CHR ''.'' then takeWhile isdigit (drop 1 r) else []);
         r = (if cchar r 0 = CHR ''.'' then drop (1 + length fs) r else r);
         mantissa = of_nat (dec_val (ds @ fs)) / 10 ^ length fs;
         sg = (if cchar r 1 = CHR ''-'' \<or> cchar r 1 = CHR ''+'' then 2 else 1);
         es = takeWhile isdigit (drop sg r)
     in if (cchar r 0 = CHR ''e'' \<or> cchar r 0 = CHR ''E'') \<and> es \<noteq> [] then
          (if cchar r 1 = CHR ''-'' then mantissa / 10 ^ dec_val es else mantissa * 10 ^ dec_val es)
        else mantissa)"

definition atof :: "fp \<Rightarrow> string \<Rightarrow> dbl" where
  "atof fp s = fp_round fp (decimal_value s)"

text \<open>\<open>atof (s) * suffix2factor (c)\<close>, where the factor is positive and exact.\<close>

definition atof_scaled :: "fp \<Rightarrow> string \<Rightarrow> char \<Rightarrow> dbl" where
  "atof_scaled fp s c =
    (case atof fp s of Num q \<Rightarrow> fp_round fp (q * of_nat (unat (suffix2factor c))) | x \<Rightarrow> x)"

section \<open>State and values\<close>

datatype variant = VDbl dbl | VStr string

datatype eval_error = Invalid_Escape string | Unterminated_String string | Not_Numeric string | Unexpected_End
  | Expected_Parenthesis string | Unexpected_Token string | Expected_Number string | Division_By_Zero
  | Too_Deep | Unknown_Message string | Unsupported_Unknown int | Internal_Index int
  | Internal_No_Message

record eval_state =
  ev_ptr :: string
  ev_error :: "eval_error option"

definition set_error :: "eval_error \<Rightarrow> eval_state \<Rightarrow> eval_state" where
  "set_error e st = st\<lparr>ev_error := Some e\<rparr>"

definition set_ptr :: "string \<Rightarrow> eval_state \<Rightarrow> eval_state" where
  "set_ptr p st = st\<lparr>ev_ptr := p\<rparr>"

text \<open>A term reads from the state, with the index of the unknown value as an in and out parameter.\<close>

type_synonym eval_term = "int \<Rightarrow> eval_state \<Rightarrow> variant \<times> int \<times> eval_state"

abbreviation is_space :: "char \<Rightarrow> bool" where
  "is_space c \<equiv> c = CHR '' '' \<or> c = CHR 0x0D \<or> c = CHR 0x0A \<or> c = CHR 0x09"

definition is_number_delimiter :: "char \<Rightarrow> bool" where
  "is_number_delimiter c \<longleftrightarrow> \<not> isdigit c \<and> c \<noteq> CHR ''.'' \<and> \<not> isalpha c"

definition is_operator_delimiter :: "char \<Rightarrow> bool" where
  "is_operator_delimiter c \<longleftrightarrow> c = CHR '' '' \<or> c = CHR ''('' \<or> c = CHR 0x0D \<or> c = CHR 0x0A \<or> c = CHR 0x09 \<or> c = CHR '')'' \<or> c = NUL"

definition skip_spaces :: "eval_state \<Rightarrow> eval_state" where
  "skip_spaces st = st\<lparr>ev_ptr := dropWhile is_space (ev_ptr st)\<rparr>"

section \<open>Tokens\<close>

definition evaluate_string_to_double :: "fp \<Rightarrow> string \<Rightarrow> dbl" where
  "evaluate_string_to_double fp s =
    (let negative = (1 < length s \<and> cchar s 0 = CHR ''-''); t = (if negative then drop 1 s else s)
     in case zbx_suffixed_number_parse t of
          Some len \<Rightarrow>
            if cchar t len = NUL then
              let result = atof_scaled fp t (cchar t (len - 1)) in if negative then dbl_neg result else result
            else ZBX_INFINITY
        | None \<Rightarrow> ZBX_INFINITY)"

text \<open>The closing quote, from behind the opening one.\<close>

fun string_scan :: "string \<Rightarrow> string \<Rightarrow> eval_error + string" where
  "string_scan start [] = Inl (Unterminated_String start)"
| "string_scan start (c # p) =
    (if c = CHR 0x22 then Inr (c # p)
     else if c = CHR 0x5C then
       (case p of [] \<Rightarrow> Inl (Unterminated_String start)
        | d # p' \<Rightarrow> if d \<noteq> CHR 0x5C \<and> d \<noteq> CHR 0x22 then Inl (Invalid_Escape (c # p)) else string_scan start p')
     else string_scan start p)"

fun string_copy :: "string \<Rightarrow> string" where
  "string_copy [] = []"
| "string_copy (c # p) =
    (if c = CHR 0x5C then (case p of [] \<Rightarrow> [] | d # p' \<Rightarrow> d # string_copy p')
     else if c = CHR 0x0D then string_copy p
     else c # string_copy p)"

definition evaluate_string :: "eval_state \<Rightarrow> variant \<times> eval_state" where
  "evaluate_string st =
    (case string_scan (ev_ptr st) (ev_ptr st) of
       Inl e \<Rightarrow> (VDbl ZBX_INFINITY, set_error e st)
     | Inr p \<Rightarrow> (VStr (string_copy (take (length (ev_ptr st) - length p) (ev_ptr st))), set_ptr p st))"

definition ZBX_UNKNOWN_STR :: string where
  "ZBX_UNKNOWN_STR = ''ZBX_UNKNOWN''"

definition evaluate_number :: "fp \<Rightarrow> int \<Rightarrow> eval_state \<Rightarrow> dbl \<times> int \<times> eval_state" where
  "evaluate_number fp unknown_idx st =
    (if take (length ZBX_UNKNOWN_STR) (ev_ptr st) = ZBX_UNKNOWN_STR then
       let p0 = drop (length ZBX_UNKNOWN_STR) (ev_ptr st); ds = takeWhile isdigit p0; p1 = drop (length ds) p0
       in if ds \<noteq> [] \<and> is_number_delimiter (cchar p1 0) then (ZBX_UNKNOWN, int (dec_val ds), set_ptr p1 st)
          else (ZBX_INFINITY, unknown_idx, set_ptr p0 st)
     else
       case zbx_suffixed_number_parse (ev_ptr st) of
         Some len \<Rightarrow>
           if is_number_delimiter (cchar (ev_ptr st) len) then
             (atof_scaled fp (ev_ptr st) (cchar (ev_ptr st) (len - 1)), unknown_idx, set_ptr (drop len (ev_ptr st)) st)
           else (ZBX_INFINITY, unknown_idx, st)
       | None \<Rightarrow> (ZBX_INFINITY, unknown_idx, st))"

definition variant_convert_to_double :: "fp \<Rightarrow> variant \<Rightarrow> eval_state \<Rightarrow> dbl \<times> eval_state" where
  "variant_convert_to_double fp var st =
    (case var of
       VStr s \<Rightarrow> let d = evaluate_string_to_double fp s in (d, if d = ZBX_INFINITY then set_error (Not_Numeric s) st else st)
     | VDbl d \<Rightarrow> (d, st))"

definition variant_get_double :: "fp \<Rightarrow> variant \<Rightarrow> dbl" where
  "variant_get_double fp var = (case var of VDbl d \<Rightarrow> d | VStr s \<Rightarrow> evaluate_string_to_double fp s)"

section \<open>Terms\<close>

definition evaluate_term9 :: "fp \<Rightarrow> eval_term \<Rightarrow> eval_term" where
  "evaluate_term9 fp evaluate_inner unknown_idx st =
    (let st = skip_spaces st
     in case ev_ptr st of
          [] \<Rightarrow> (VDbl ZBX_INFINITY, unknown_idx, set_error Unexpected_End st)
        | c # p \<Rightarrow>
            if c = CHR ''('' then
              (case evaluate_inner unknown_idx (set_ptr p st) of (res, unknown_idx, st) \<Rightarrow>
                 if res = VDbl ZBX_INFINITY then (res, unknown_idx, st)
                 else if cchar (ev_ptr st) 0 \<noteq> CHR '')'' then
                   (VDbl ZBX_INFINITY, unknown_idx, set_error (Expected_Parenthesis (ev_ptr st)) st)
                 else (res, unknown_idx, skip_spaces (set_ptr (drop 1 (ev_ptr st)) st)))
            else if c = CHR 0x22 then
              (case evaluate_string (set_ptr p st) of (res, st) \<Rightarrow>
                 if res = VDbl ZBX_INFINITY then (res, unknown_idx, st)
                 else
                   let st = set_ptr (drop 1 (ev_ptr st)) st
                   in if \<not> is_operator_delimiter (cchar (ev_ptr st) 0) \<and> \<not> is_number_delimiter (cchar (ev_ptr st) 0) then
                        (VDbl ZBX_INFINITY, unknown_idx, skip_spaces (set_error (Unexpected_Token (ev_ptr st)) st))
                      else (res, unknown_idx, skip_spaces st))
            else
              (case evaluate_number fp unknown_idx st of (d, unknown_idx, st) \<Rightarrow>
                 if d = ZBX_INFINITY then (VDbl d, unknown_idx, set_error (Expected_Number (ev_ptr st)) st)
                 else (VDbl d, unknown_idx, skip_spaces st)))"

definition evaluate_term8 :: "fp \<Rightarrow> eval_term \<Rightarrow> eval_term" where
  "evaluate_term8 fp evaluate_inner unknown_idx st =
    (let st = skip_spaces st
     in if cchar (ev_ptr st) 0 = CHR ''-'' then
          (case evaluate_term9 fp evaluate_inner unknown_idx (set_ptr (drop 1 (ev_ptr st)) st) of (res, unknown_idx, st) \<Rightarrow>
             case variant_convert_to_double fp res st of (d, st) \<Rightarrow>
               if d = ZBX_UNKNOWN \<or> d = ZBX_INFINITY then (VDbl d, unknown_idx, st) else (VDbl (dbl_neg d), unknown_idx, st))
        else evaluate_term9 fp evaluate_inner unknown_idx st)"

definition evaluate_term7 :: "fp \<Rightarrow> eval_term \<Rightarrow> eval_term" where
  "evaluate_term7 fp evaluate_inner unknown_idx st =
    (let st = skip_spaces st; p = ev_ptr st
     in if cchar p 0 = CHR ''n'' \<and> cchar p 1 = CHR ''o'' \<and> cchar p 2 = CHR ''t'' \<and> is_operator_delimiter (cchar p 3) then
          (case evaluate_term8 fp evaluate_inner unknown_idx (set_ptr (drop 3 p) st) of (res, unknown_idx, st) \<Rightarrow>
             case variant_convert_to_double fp res st of (d, st) \<Rightarrow>
               if d = ZBX_UNKNOWN \<or> d = ZBX_INFINITY then (VDbl d, unknown_idx, st)
               else (VDbl (dbl_of_bool (zbx_double_compare fp d (Num 0))), unknown_idx, st))
        else evaluate_term8 fp evaluate_inner unknown_idx st)"

section \<open>Operators\<close>

datatype operator = Mul | Div | Add | Sub | Lt | Le | Ge | Gt | Eq | Ne | And | Or

text \<open>
  What an operator makes of its operands, neither of them a fatal error: a fatal error, or a value with the indexes of
  the unknown value. The indexes are those of the left operand, of the right operand, and the result so far.
\<close>

datatype merged = Fatal eval_error | Merged dbl int int

definition find_term6 :: "string \<Rightarrow> (operator \<times> string) option" where
  "find_term6 p = (if cchar p 0 = CHR ''*'' then Some (Mul, drop 1 p) else if cchar p 0 = CHR ''/'' then Some (Div, drop 1 p) else None)"

definition merge_term6 :: "fp \<Rightarrow> operator \<Rightarrow> dbl \<Rightarrow> dbl \<Rightarrow> int \<Rightarrow> int \<Rightarrow> int \<Rightarrow> merged" where
  "merge_term6 fp op res operand res_idx oper_idx unknown_idx =
    (if op = Mul then
       if operand = ZBX_UNKNOWN then Merged ZBX_UNKNOWN oper_idx oper_idx
       else if res = ZBX_UNKNOWN then Merged res res_idx res_idx
       else Merged (dbl_arith fp (*) res operand) res_idx unknown_idx
     else
       if operand \<noteq> ZBX_UNKNOWN \<and> zbx_double_compare fp operand (Num 0) then Fatal Division_By_Zero
       else if operand = ZBX_UNKNOWN then Merged ZBX_UNKNOWN oper_idx oper_idx
       else if res = ZBX_UNKNOWN then Merged res res_idx res_idx
       else Merged (dbl_arith fp (/) res operand) res_idx unknown_idx)"

definition find_term5 :: "string \<Rightarrow> (operator \<times> string) option" where
  "find_term5 p = (if cchar p 0 = CHR ''+'' then Some (Add, drop 1 p) else if cchar p 0 = CHR ''-'' then Some (Sub, drop 1 p) else None)"

definition merge_term5 :: "fp \<Rightarrow> operator \<Rightarrow> dbl \<Rightarrow> dbl \<Rightarrow> int \<Rightarrow> int \<Rightarrow> int \<Rightarrow> merged" where
  "merge_term5 fp op res operand res_idx oper_idx unknown_idx =
    (if operand = ZBX_UNKNOWN then Merged ZBX_UNKNOWN oper_idx oper_idx
     else if res = ZBX_UNKNOWN then Merged res res_idx res_idx
     else if op = Add then Merged (dbl_arith fp (+) res operand) res_idx unknown_idx
     else Merged (dbl_arith fp (-) res operand) res_idx unknown_idx)"

definition find_term4 :: "string \<Rightarrow> (operator \<times> string) option" where
  "find_term4 p =
    (if cchar p 0 = CHR ''<'' \<and> cchar p 1 = CHR ''='' then Some (Le, drop 2 p)
     else if cchar p 0 = CHR ''>'' \<and> cchar p 1 = CHR ''='' then Some (Ge, drop 2 p)
     else if cchar p 0 = CHR ''<'' \<and> cchar p 1 \<noteq> CHR ''>'' then Some (Lt, drop 1 p)
     else if cchar p 0 = CHR ''>'' then Some (Gt, drop 1 p)
     else None)"

definition merge_term4 :: "fp \<Rightarrow> operator \<Rightarrow> dbl \<Rightarrow> dbl \<Rightarrow> int \<Rightarrow> int \<Rightarrow> int \<Rightarrow> merged" where
  "merge_term4 fp op res operand res_idx oper_idx unknown_idx =
    (if operand = ZBX_UNKNOWN then Merged ZBX_UNKNOWN oper_idx oper_idx
     else if res = ZBX_UNKNOWN then Merged res res_idx res_idx
     else
       let below = dbl_arith fp (-) operand (Num (fp_epsilon fp)); above = dbl_arith fp (+) operand (Num (fp_epsilon fp))
       in Merged (dbl_of_bool
            (if op = Lt then dbl_less res below
             else if op = Le then dbl_le res above
             else if op = Ge then dbl_le below res
             else dbl_less above res)) res_idx unknown_idx)"

definition find_term3 :: "string \<Rightarrow> (operator \<times> string) option" where
  "find_term3 p =
    (if cchar p 0 = CHR ''='' then Some (Eq, drop 1 p)
     else if cchar p 0 = CHR ''<'' \<and> cchar p 1 = CHR ''>'' then Some (Ne, drop 2 p)
     else None)"

definition find_term2 :: "string \<Rightarrow> (operator \<times> string) option" where
  "find_term2 p =
    (if cchar p 0 = CHR ''a'' \<and> cchar p 1 = CHR ''n'' \<and> cchar p 2 = CHR ''d'' \<and> is_operator_delimiter (cchar p 3)
     then Some (And, drop 3 p) else None)"

definition merge_term2 :: "fp \<Rightarrow> operator \<Rightarrow> dbl \<Rightarrow> dbl \<Rightarrow> int \<Rightarrow> int \<Rightarrow> int \<Rightarrow> merged" where
  "merge_term2 fp op res operand res_idx oper_idx unknown_idx =
    (if res = ZBX_UNKNOWN then
       if operand = ZBX_UNKNOWN then Merged ZBX_UNKNOWN oper_idx oper_idx
       else if zbx_double_compare fp operand (Num 0) then Merged (Num 0) res_idx unknown_idx
       else Merged res res_idx res_idx
     else if operand = ZBX_UNKNOWN then
       if zbx_double_compare fp res (Num 0) then Merged (Num 0) res_idx unknown_idx
       else Merged ZBX_UNKNOWN oper_idx oper_idx
     else
       Merged (dbl_of_bool (\<not> zbx_double_compare fp res (Num 0) \<and> \<not> zbx_double_compare fp operand (Num 0))) res_idx unknown_idx)"

definition find_term1 :: "string \<Rightarrow> (operator \<times> string) option" where
  "find_term1 p =
    (if cchar p 0 = CHR ''o'' \<and> cchar p 1 = CHR ''r'' \<and> is_operator_delimiter (cchar p 2)
     then Some (Or, drop 2 p) else None)"

definition merge_term1 :: "fp \<Rightarrow> operator \<Rightarrow> dbl \<Rightarrow> dbl \<Rightarrow> int \<Rightarrow> int \<Rightarrow> int \<Rightarrow> merged" where
  "merge_term1 fp op res operand res_idx oper_idx unknown_idx =
    (if res = ZBX_UNKNOWN then
       if operand = ZBX_UNKNOWN then Merged ZBX_UNKNOWN oper_idx oper_idx
       else if \<not> zbx_double_compare fp operand (Num 0) then Merged (Num 1) res_idx unknown_idx
       else Merged res res_idx res_idx
     else if operand = ZBX_UNKNOWN then
       if \<not> zbx_double_compare fp res (Num 0) then Merged (Num 1) res_idx unknown_idx
       else Merged ZBX_UNKNOWN oper_idx oper_idx
     else
       Merged (dbl_of_bool (\<not> zbx_double_compare fp res (Num 0) \<or> \<not> zbx_double_compare fp operand (Num 0))) res_idx unknown_idx)"

text \<open>
  The loop that the levels share. The state of the loop is whether it returns from its body, the value, its index, the
  index of the last operand, the index of the result, and the state. \<open>early\<close> tells whether the operator is consumed
  before the left operand is converted.
\<close>

type_synonym loop_state = "bool \<times> variant \<times> int \<times> int \<times> int \<times> eval_state"

definition loop_goes :: "(string \<Rightarrow> (operator \<times> string) option) \<Rightarrow> loop_state \<Rightarrow> bool" where
  "loop_goes look l = (case l of (returns, res, res_idx, oper_idx, unknown_idx, st) \<Rightarrow> \<not> returns \<and> look (ev_ptr st) \<noteq> None)"

definition binary_body :: "fp \<Rightarrow> bool \<Rightarrow> (string \<Rightarrow> (operator \<times> string) option) \<Rightarrow> eval_term \<Rightarrow>
    (operator \<Rightarrow> dbl \<Rightarrow> dbl \<Rightarrow> int \<Rightarrow> int \<Rightarrow> int \<Rightarrow> merged) \<Rightarrow> loop_state \<Rightarrow> loop_state" where
  "binary_body fp early look operand merge l =
    (case l of (returns, res, res_idx, oper_idx, unknown_idx, st) \<Rightarrow>
       case look (ev_ptr st) of
         None \<Rightarrow> l
       | Some (op, p) \<Rightarrow>
           case variant_convert_to_double fp res (if early then set_ptr p st else st) of (x, st) \<Rightarrow>
             if x = ZBX_INFINITY then (True, VDbl x, res_idx, oper_idx, unknown_idx, st)
             else
               case operand oper_idx (set_ptr p st) of (y, oper_idx, st) \<Rightarrow>
                 case variant_convert_to_double fp y st of (y, st) \<Rightarrow>
                   if y = ZBX_INFINITY then (True, VDbl ZBX_INFINITY, res_idx, oper_idx, unknown_idx, st)
                   else
                     case merge op x y res_idx oper_idx unknown_idx of
                       Fatal e \<Rightarrow> (True, VDbl ZBX_INFINITY, res_idx, oper_idx, unknown_idx, set_error e st)
                     | Merged x res_idx unknown_idx \<Rightarrow> (False, VDbl x, res_idx, oper_idx, unknown_idx, st))"

definition equality_body :: "fp \<Rightarrow> eval_term \<Rightarrow> loop_state \<Rightarrow> loop_state" where
  "equality_body fp operand l =
    (case l of (returns, res, res_idx, oper_idx, unknown_idx, st) \<Rightarrow>
       case find_term3 (ev_ptr st) of
         None \<Rightarrow> l
       | Some (op, p) \<Rightarrow>
           case operand oper_idx (set_ptr p st) of (y, oper_idx, st) \<Rightarrow>
             if y = VDbl ZBX_INFINITY then (True, y, res_idx, oper_idx, unknown_idx, st)
             else if res = VDbl ZBX_UNKNOWN then (False, res, res_idx, oper_idx, unknown_idx, st)
             else if y = VDbl ZBX_UNKNOWN then (False, y, res_idx, oper_idx, oper_idx, st)
             else
               let left = variant_get_double fp res; right = variant_get_double fp y;
                   same = (if left \<noteq> ZBX_INFINITY \<and> right \<noteq> ZBX_INFINITY then dbl_of_bool (zbx_double_compare fp left right)
                      else case (res, y) of (VStr s, VStr t) \<Rightarrow> dbl_of_bool (s = t) | _ \<Rightarrow> Num 0);
                   same = (if op = Ne then dbl_of_bool (zbx_double_compare fp same (Num 0)) else same)
               in (False, VDbl same, res_idx, oper_idx, unknown_idx, st))"

definition binary_level :: "(string \<Rightarrow> (operator \<times> string) option) \<Rightarrow> eval_term \<Rightarrow> (loop_state \<Rightarrow> loop_state) \<Rightarrow> int \<Rightarrow> int \<Rightarrow> eval_term" where
  "binary_level look operand body res_idx oper_idx unknown_idx st =
    (case operand res_idx st of (res, res_idx, st) \<Rightarrow>
       if res = VDbl ZBX_INFINITY then (res, unknown_idx, st)
       else
         case while (loop_goes look) body
             (False, res, res_idx, oper_idx, if res = VDbl ZBX_UNKNOWN then res_idx else unknown_idx, st)
         of (returns, res, res_idx, oper_idx, unknown_idx, st) \<Rightarrow> (res, unknown_idx, st))"

definition evaluate_term6 :: "fp \<Rightarrow> eval_term \<Rightarrow> eval_term" where
  "evaluate_term6 fp inner =
    binary_level find_term6 (evaluate_term7 fp inner) (binary_body fp False find_term6 (evaluate_term7 fp inner) (merge_term6 fp)) (-1) (-2)"

definition evaluate_term5 :: "fp \<Rightarrow> eval_term \<Rightarrow> eval_term" where
  "evaluate_term5 fp inner =
    binary_level find_term5 (evaluate_term6 fp inner) (binary_body fp False find_term5 (evaluate_term6 fp inner) (merge_term5 fp)) (-3) (-4)"

definition evaluate_term4 :: "fp \<Rightarrow> eval_term \<Rightarrow> eval_term" where
  "evaluate_term4 fp inner =
    binary_level find_term4 (evaluate_term5 fp inner) (binary_body fp True find_term4 (evaluate_term5 fp inner) (merge_term4 fp)) (-5) (-6)"

definition evaluate_term3 :: "fp \<Rightarrow> eval_term \<Rightarrow> eval_term" where
  "evaluate_term3 fp inner =
    binary_level find_term3 (evaluate_term4 fp inner) (equality_body fp (evaluate_term4 fp inner)) (-7) (-8)"

definition evaluate_term2 :: "fp \<Rightarrow> eval_term \<Rightarrow> eval_term" where
  "evaluate_term2 fp inner =
    binary_level find_term2 (evaluate_term3 fp inner) (binary_body fp True find_term2 (evaluate_term3 fp inner) (merge_term2 fp)) (-9) (-10)"

fun evaluate_term1 :: "fp \<Rightarrow> nat \<Rightarrow> eval_term" where
  "evaluate_term1 fp 0 unknown_idx st = (VDbl ZBX_INFINITY, unknown_idx, set_error Too_Deep st)"
| "evaluate_term1 fp (Suc levels) unknown_idx st =
    binary_level find_term1 (evaluate_term2 fp (evaluate_term1 fp levels))
      (binary_body fp True find_term1 (evaluate_term2 fp (evaluate_term1 fp levels)) (merge_term1 fp)) (-11) (-12) unknown_idx st"

section \<open>Expressions\<close>

text \<open>The value, or for \<open>FAIL\<close> what has been written into the buffer for the error message, if anything.\<close>

definition MAX_LEVEL :: nat where
  "MAX_LEVEL = 32"

definition initial_state :: "string \<Rightarrow> eval_state" where
  "initial_state expression = \<lparr>ev_ptr = expression, ev_error = None\<rparr>"

definition rest_check :: "dbl \<Rightarrow> eval_state \<Rightarrow> dbl \<times> eval_state" where
  "rest_check d st =
    (if ev_ptr st \<noteq> [] \<and> d \<noteq> ZBX_INFINITY then (ZBX_INFINITY, set_error (Unexpected_Token (ev_ptr st)) st) else (d, st))"

definition evaluate :: "fp \<Rightarrow> string \<Rightarrow> string list option \<Rightarrow> eval_error option + dbl" where
  "evaluate fp expression unknown_msgs =
    (case evaluate_term1 fp MAX_LEVEL (-13) (initial_state expression) of (res, unknown_idx, st) \<Rightarrow>
       case (if res = VStr [] then (ZBX_INFINITY, set_error Unexpected_End st) else variant_convert_to_double fp res st) of (d, st) \<Rightarrow>
         case rest_check d st of (d, st) \<Rightarrow>
           if d = ZBX_UNKNOWN then
             Inl (Some (case unknown_msgs of
               Some msgs \<Rightarrow>
                 if unknown_idx < 0 then Internal_Index unknown_idx
                 else if unknown_idx < int (length msgs) then Unknown_Message (msgs ! nat unknown_idx)
                 else Unsupported_Unknown unknown_idx
             | None \<Rightarrow> Internal_No_Message))
           else if d = ZBX_INFINITY then Inl (ev_error st)
           else Inr d)"

definition evaluate_unknown :: "fp \<Rightarrow> string \<Rightarrow> eval_error option + dbl" where
  "evaluate_unknown fp expression =
    (case evaluate_term1 fp MAX_LEVEL (-13) (initial_state expression) of (res, unknown_idx, st) \<Rightarrow>
       case variant_convert_to_double fp res st of (d, st) \<Rightarrow>
         case rest_check d st of (d, st) \<Rightarrow> if d = ZBX_INFINITY then Inl (ev_error st) else Inr d)"

end
