(* ===== verification/EvalGrammar.thy ===== *)
theory EvalGrammar
  imports Evaluate
begin

text \<open>
  What an expression means: the grammar of expressions as a datatype of concrete syntax, in which every text of an
  expression keeps its spaces and parentheses, and a semantics by recursion over it, with three kinds of values and the
  rules for unknown values. First, the numbers of the grammar against the scanner and \<open>atof\<close>.
\<close>

section \<open>Numbers\<close>

text \<open>Digits, a fraction, an exponent with its letter and its sign, and a suffix.\<close>

datatype number = Number string "string option" "(char \<times> string \<times> string) option" "char option"

fun number_text :: "number \<Rightarrow> string" where
  "number_text (Number ds fs ex su) = ds @ (case fs of None \<Rightarrow> [] | Some f \<Rightarrow> CHR ''.'' # f) @
    (case ex of None \<Rightarrow> [] | Some (e, sg, es) \<Rightarrow> e # sg @ es) @ (case su of None \<Rightarrow> [] | Some c \<Rightarrow> [c])"

abbreviation all_digits :: "string \<Rightarrow> bool" where
  "all_digits s \<equiv> list_all isdigit s"

fun number_ok :: "number \<Rightarrow> bool" where
  "number_ok (Number ds fs ex su) \<longleftrightarrow> all_digits ds \<and> (case fs of None \<Rightarrow> ds \<noteq> [] | Some f \<Rightarrow> all_digits f \<and> ds @ f \<noteq> []) \<and>
    (case ex of None \<Rightarrow> True | Some (e, sg, es) \<Rightarrow>
       (e = CHR ''e'' \<or> e = CHR ''E'') \<and> (sg = [] \<or> sg = ''+'' \<or> sg = ''-'') \<and> all_digits es \<and> es \<noteq> []) \<and>
    (case su of None \<Rightarrow> True | Some c \<Rightarrow> c \<in> set ZBX_UNIT_SYMBOLS)"

fun number_value :: "fp \<Rightarrow> number \<Rightarrow> dbl" where
  "number_value fp (Number ds fs ex su) =
    (let f = (case fs of None \<Rightarrow> [] | Some f \<Rightarrow> f);
         m = of_nat (dec_val (ds @ f)) / 10 ^ length f;
         q = (case ex of None \<Rightarrow> m | Some (e, sg, es) \<Rightarrow> if sg = ''-'' then m / 10 ^ dec_val es else m * 10 ^ dec_val es)
     in case fp_round fp q of
          Num x \<Rightarrow> fp_round fp (x * of_nat (case su of None \<Rightarrow> 1 | Some c \<Rightarrow> unat (suffix2factor c)))
        | x \<Rightarrow> x)"

text \<open>The part of the text after the mantissa.\<close>

definition ends_number :: "string \<Rightarrow> bool" where
  "ends_number r \<longleftrightarrow> is_number_delimiter (cchar r 0)"

lemma takeWhile_all_digits: "all_digits ds \<Longrightarrow> \<not> isdigit (cchar r 0) \<Longrightarrow> takeWhile isdigit (ds @ r) = ds"
proof -
  assume a: "all_digits ds" "\<not> isdigit (cchar r 0)"
  have "takeWhile isdigit r = []" using a(2) by (cases r) auto
  then show ?thesis using a(1) by (simp add: takeWhile_append list_all_iff)
qed

lemma cchar_append: "cchar (s @ r) i = (if i < length s then s ! i else cchar r (i - length s))"
  by (auto simp: cchar_def nth_append)

lemma symbols: "c \<in> set ZBX_UNIT_SYMBOLS \<Longrightarrow> isalpha c \<and> \<not> isdigit c \<and> c \<noteq> CHR ''.'' \<and> c \<noteq> CHR ''e'' \<and> c \<noteq> CHR ''E'' \<and> c \<noteq> CHR ''Z'' \<and>
    \<not> is_number_delimiter c"
  unfolding ZBX_UNIT_SYMBOLS_def by (auto simp: isalpha_def isdigit_def is_number_delimiter_def)

lemma number_loop_digits: "all_digits ds \<Longrightarrow> number_loop (ds @ t) d k = map_option ((+) (length ds)) (number_loop t (d + length ds) k)"
proof (induction ds arbitrary: d)
  case Nil
  then show ?case by (simp add: option.map_ident_strong)
next
  case (Cons c ds)
  then show ?case by (cases "number_loop t (Suc (d + length ds)) k") simp_all
qed

text \<open>What stands behind the digits and the point: exponent and suffix.\<close>

definition tail_text :: "(char \<times> string \<times> string) option \<Rightarrow> char option \<Rightarrow> string" where
  "tail_text ex su = (case ex of None \<Rightarrow> [] | Some (e, sg, es) \<Rightarrow> e # sg @ es) @ (case su of None \<Rightarrow> [] | Some c \<Rightarrow> [c])"

definition tail_ok :: "(char \<times> string \<times> string) option \<Rightarrow> char option \<Rightarrow> bool" where
  "tail_ok ex su \<longleftrightarrow> (case ex of None \<Rightarrow> True | Some (e, sg, es) \<Rightarrow>
       (e = CHR ''e'' \<or> e = CHR ''E'') \<and> (sg = [] \<or> sg = ''+'' \<or> sg = ''-'') \<and> all_digits es \<and> es \<noteq> []) \<and>
    (case su of None \<Rightarrow> True | Some c \<Rightarrow> c \<in> set ZBX_UNIT_SYMBOLS)"

definition exponent_length :: "(char \<times> string \<times> string) option \<Rightarrow> nat" where
  "exponent_length ex = (case ex of None \<Rightarrow> 0 | Some (e, sg, es) \<Rightarrow> 1 + length sg + length es)"

definition suffix_text :: "char option \<Rightarrow> string" where
  "suffix_text su = (case su of None \<Rightarrow> [] | Some c \<Rightarrow> [c])"

lemma suffix_stop:
  assumes "tail_ok ex su" "ends_number r"
  shows "\<not> isdigit (cchar (suffix_text su @ r) 0)" "cchar (suffix_text su @ r) 0 \<noteq> CHR ''.''" "cchar (suffix_text su @ r) 0 \<noteq> CHR ''e''"
    "cchar (suffix_text su @ r) 0 \<noteq> CHR ''E''"
  using assms symbols
  by (auto simp: tail_ok_def ends_number_def is_number_delimiter_def suffix_text_def isalpha_def split: option.splits)

lemma number_loop_tail:
  assumes "tail_ok ex su" "ends_number r"
  shows "number_loop (tail_text ex su @ r) digits dots = number_end digits dots (exponent_length ex)"
proof (cases ex)
  case None
  note s = suffix_stop [OF assms]
  show ?thesis
  proof (cases "suffix_text su @ r")
    case Nil
    then show ?thesis using None by (auto simp: tail_text_def suffix_text_def exponent_length_def)
  next
    case (Cons c p)
    have "tail_text ex su @ r = c # p" using None Cons by (simp add: tail_text_def suffix_text_def)
    then show ?thesis using None s unfolding Cons by (simp add: exponent_length_def)
  qed
next
  case (Some x)
  obtain e sg es where x: "x = (e, sg, es)" by (cases x)
  note s = suffix_stop [OF assms]
  have ok: "e = CHR ''e'' \<or> e = CHR ''E''" "sg = [] \<or> sg = ''+'' \<or> sg = ''-''" "all_digits es" "es \<noteq> []"
    using assms(1) Some x by (simp_all add: tail_ok_def)
  have t: "tail_text ex su @ r = e # sg @ es @ suffix_text su @ r" using Some x by (simp add: tail_text_def suffix_text_def)
  have d: "isdigit (es ! 0)" "\<not> es ! 0 = CHR ''-''" "\<not> es ! 0 = CHR ''+''" using ok(3,4) by (cases es; auto simp: isdigit_def)+
  have tw: "takeWhile isdigit (es @ suffix_text su @ r) = es" by (rule takeWhile_all_digits [OF ok(3) s(1)])
  define q where "q = suffix_text su @ r"
  obtain x xs where es: "es = x # xs" using ok(4) by (cases es) auto
  have x': "isdigit x" "x \<noteq> CHR ''-''" "x \<noteq> CHR ''+''" using d es by simp_all
  have tw': "takeWhile isdigit (x # xs @ q) = x # xs" "takeWhile isdigit (xs @ q) = xs" using tw es unfolding q_def by (auto split: if_splits)
  have q: "cchar q 0 \<noteq> CHR ''.''" "cchar q 0 \<noteq> CHR ''e''" "cchar q 0 \<noteq> CHR ''E''" using s by (simp_all add: q_def)
  have "number_exponent (e # sg @ es @ q) = Some (1 + length sg + length es)"
    using ok(2)
  proof (elim disjE)
    assume "sg = []"
    then show ?thesis using x' tw' q by (simp add: number_exponent_def Let_def es cchar_append numeral_2_eq_2)
  next
    assume "sg = ''+''"
    then show ?thesis using x' tw' q by (simp add: number_exponent_def Let_def es cchar_append numeral_2_eq_2)
  next
    assume "sg = ''-''"
    then show ?thesis using x' tw' q by (simp add: number_exponent_def Let_def es cchar_append numeral_2_eq_2)
  qed
  moreover have "\<not> isdigit e" "e \<noteq> CHR ''.''" using ok(1) by (auto simp: isdigit_def)
  ultimately show ?thesis using ok(1) Some x unfolding t q_def [symmetric] by (simp add: exponent_length_def)
qed

lemma number_text_tail: "number_text (Number ds fs ex su) = ds @ (case fs of None \<Rightarrow> [] | Some f \<Rightarrow> CHR ''.'' # f) @ tail_text ex su"
  by (simp add: tail_text_def)

lemma number_ok_tail: "number_ok (Number ds fs ex su) \<Longrightarrow> tail_ok ex su"
  by (simp add: tail_ok_def)

lemma tail_length: "length (tail_text ex su) = exponent_length ex + length (suffix_text su)"
  by (auto simp: tail_text_def exponent_length_def suffix_text_def split: option.splits)

lemma zbx_number_parse_number:
  assumes "number_ok (Number ds fs ex su)" "ends_number r"
  shows "zbx_number_parse (number_text (Number ds fs ex su) @ r) = Some (length (number_text (Number ds fs ex su)) - length (suffix_text su))"
proof (cases fs)
  case None
  then show ?thesis using assms number_loop_tail [OF number_ok_tail [OF assms(1)] assms(2)]
    unfolding zbx_number_parse_def number_text_tail by (simp add: number_loop_digits number_end_def tail_length)
next
  case (Some f)
  have "\<not> isdigit CHR ''.''" by (simp add: isdigit_def)
  then show ?thesis using assms Some number_loop_tail [OF number_ok_tail [OF assms(1)] assms(2)]
    unfolding zbx_number_parse_def number_text_tail by (auto simp: number_loop_digits number_end_def tail_length)
qed

lemma zbx_suffixed_number_parse_number:
  assumes "number_ok (Number ds fs ex su)" "ends_number r"
  shows "zbx_suffixed_number_parse (number_text (Number ds fs ex su) @ r) = Some (length (number_text (Number ds fs ex su)))"
proof (cases su)
  case None
  have "\<not> isalpha (cchar r 0)" using assms(2) by (simp add: ends_number_def is_number_delimiter_def)
  then show ?thesis using zbx_number_parse_number [OF assms] None
    by (simp add: zbx_suffixed_number_parse_def suffix_text_def cchar_append)
next
  case (Some c)
  have "c \<in> set ZBX_UNIT_SYMBOLS" using assms(1) Some by simp
  then have "isalpha c" "strchr ZBX_UNIT_SYMBOLS c \<noteq> None" using symbols by simp_all
  moreover have "cchar (number_text (Number ds fs ex su) @ r) (length (number_text (Number ds fs ex su)) - 1) = c"
    using Some by (simp add: cchar_append nth_append split: option.split)
  ultimately show ?thesis using zbx_number_parse_number [OF assms] Some
    by (simp add: zbx_suffixed_number_parse_def suffix_text_def del: number_text.simps strchr_None_iff) (auto simp: number_text_tail tail_text_def)
qed

lemma digit_chars:
  assumes "isdigit c"
  shows "c \<noteq> CHR ''-'' \<and> c \<noteq> CHR ''+'' \<and> c \<noteq> CHR ''.'' \<and> \<not> isalpha c"
proof -
  have "\<not> isdigit CHR ''-''" "\<not> isdigit CHR ''+''" "\<not> isdigit CHR ''.''" by (simp_all add: isdigit_def)
  moreover have "\<not> isalpha c" using assms unfolding isdigit_def isalpha_def by linarith
  ultimately show ?thesis using assms by blast
qed

lemma decimal_value_number:
  assumes "number_ok (Number ds fs ex su)" "ends_number r"
  defines "f \<equiv> (case fs of None \<Rightarrow> [] | Some f \<Rightarrow> f)"
  defines "m \<equiv> of_nat (dec_val (ds @ f)) / 10 ^ length f"
  shows "decimal_value (number_text (Number ds fs ex su) @ r) =
    (case ex of None \<Rightarrow> m | Some (e, sg, es) \<Rightarrow> if sg = ''-'' then m / 10 ^ dec_val es else m * 10 ^ dec_val es)"
proof -
  define t where "t = tail_text ex su @ r"
  note ok = number_ok_tail [OF assms(1)] and s = suffix_stop [OF number_ok_tail [OF assms(1)] assms(2)]
  have t0: "\<not> isdigit (cchar t 0)" "cchar t 0 \<noteq> CHR ''.''"
    using s ok by (auto simp: t_def tail_text_def suffix_text_def tail_ok_def isdigit_def split: option.splits)
  have digits: "all_digits ds" "all_digits f" using assms(1) by (auto simp: f_def split: option.splits)
  define s0 where "s0 = number_text (Number ds fs ex su) @ r"
  have s0: "s0 = ds @ (case fs of None \<Rightarrow> [] | Some f \<Rightarrow> CHR ''.'' # f) @ t" by (simp add: s0_def t_def tail_text_def)
  have nd: "\<not> isdigit CHR ''.''" by (simp add: isdigit_def)
  have m: "takeWhile isdigit s0 = ds" "drop (length ds) s0 = (case fs of None \<Rightarrow> [] | Some f \<Rightarrow> CHR ''.'' # f) @ t"
    using takeWhile_all_digits [OF digits(1), of "(case fs of None \<Rightarrow> [] | Some f \<Rightarrow> CHR ''.'' # f) @ t"] t0(1) nd
    by (simp_all add: s0 split: option.splits)
  define r1 where "r1 = drop (length ds) s0"
  have f: "(if cchar r1 0 = CHR ''.'' then takeWhile isdigit (drop 1 r1) else []) = f"
    "(if cchar r1 0 = CHR ''.'' then drop (1 + length f) r1 else r1) = t"
    using takeWhile_all_digits [OF digits(2) t0(1)] t0(2) unfolding r1_def m(2) by (auto simp: f_def split: option.splits)
  have v: "decimal_value s0 =
      (let sg = (if cchar t 1 = CHR ''-'' \<or> cchar t 1 = CHR ''+'' then 2 else 1); es = takeWhile isdigit (drop sg t)
       in if (cchar t 0 = CHR ''e'' \<or> cchar t 0 = CHR ''E'') \<and> es \<noteq> [] then
            (if cchar t 1 = CHR ''-'' then m / 10 ^ dec_val es else m * 10 ^ dec_val es) else m)"
    unfolding decimal_value_def m(1) r1_def [symmetric] f Let_def m_def by (simp only: f)
  show ?thesis
  proof (cases ex)
    case None
    then have "cchar t 0 \<noteq> CHR ''e''" "cchar t 0 \<noteq> CHR ''E''" using s by (simp_all add: t_def tail_text_def suffix_text_def)
    then show ?thesis using v None by (simp add: s0_def Let_def)
  next
    case (Some x)
    obtain e sg es where x: "x = (e, sg, es)" by (cases x)
    have k: "e = CHR ''e'' \<or> e = CHR ''E''" "sg = [] \<or> sg = ''+'' \<or> sg = ''-''" "all_digits es" "es \<noteq> []"
      using ok Some x by (simp_all add: tail_ok_def)
    define q where "q = suffix_text su @ r"
    have tq: "t = e # sg @ es @ q" using Some x by (simp add: t_def q_def tail_text_def suffix_text_def)
    obtain d ds' where es: "es = d # ds'" "d \<noteq> CHR ''-''" "d \<noteq> CHR ''+''" using k(3,4) digit_chars by (cases es) auto
    have tw: "takeWhile isdigit (es @ q) = es" by (rule takeWhile_all_digits [OF k(3)]) (simp add: q_def s)
    have c1: "cchar t 1 = (if sg = [] then d else sg ! 0)" using k(2) by (auto simp: tq es)
    have "drop (if cchar t 1 = CHR ''-'' \<or> cchar t 1 = CHR ''+'' then 2 else 1) t = es @ q"
      using k(2) es(2,3) by (elim disjE) (simp_all add: tq es(1) numeral_2_eq_2)
    then show ?thesis using v k(1,2,4) Some x es(2) c1 tw by (auto simp: s0_def Let_def tq)
  qed
qed

lemma suffix2factor_other:
  assumes "\<not> isalpha c"
  shows "suffix2factor c = 1"
proof -
  have "\<forall>x\<in>set ZBX_UNIT_SYMBOLS. isalpha x" using symbols by blast
  then have "\<forall>x\<in>set ZBX_UNIT_SYMBOLS. c \<noteq> x" using assms by blast
  then show ?thesis by (simp add: suffix2factor_def ZBX_UNIT_SYMBOLS_def)
qed

lemma last_digit: "all_digits s \<Longrightarrow> s \<noteq> [] \<Longrightarrow> \<not> isalpha (last s)"
  using digit_chars by (auto simp: list_all_iff)

lemma number_text_last:
  assumes "number_ok (Number ds fs ex None)"
  shows "\<not> isalpha (last (number_text (Number ds fs ex None)))" "number_text (Number ds fs ex None) \<noteq> []"
proof -
  define front where "front = ds @ (case fs of None \<Rightarrow> [] | Some f \<Rightarrow> CHR ''.'' # f)"
  have nt: "number_text (Number ds fs ex None) = front @ tail_text ex None" by (simp add: front_def tail_text_def)
  have f: "front \<noteq> []" using assms by (auto simp: front_def split: option.splits)
  have "\<not> isalpha (last front)"
  proof (cases fs)
    case None
    then show ?thesis using assms last_digit [of ds] by (simp add: front_def)
  next
    case (Some g)
    then show ?thesis using assms last_digit [of g] by (cases "g = []") (simp_all add: front_def isalpha_def)
  qed
  moreover have "\<not> isalpha (last (tail_text ex None))" if "ex = Some (e, sg, es)" for e sg es
    using assms last_digit [of es] that by (simp add: tail_text_def)
  ultimately show "\<not> isalpha (last (number_text (Number ds fs ex None)))" "number_text (Number ds fs ex None) \<noteq> []"
    using f unfolding nt by (cases ex; auto simp: tail_text_def)+
qed

lemma atof_scaled_number:
  assumes "number_ok n" "ends_number r"
  shows "atof_scaled fp (number_text n @ r) (cchar (number_text n @ r) (length (number_text n) - 1)) = number_value fp n"
proof -
  obtain ds fs ex su where n: "n = Number ds fs ex su" by (cases n)
  have ne: "number_text n \<noteq> []" using assms(1) n by (auto split: option.splits)
  then have last: "cchar (number_text n @ r) (length (number_text n) - 1) = last (number_text n)"
    by (simp add: cchar_append last_conv_nth)
  have f: "unat (suffix2factor (last (number_text (Number ds fs ex su)))) = (case su of None \<Rightarrow> 1 | Some c \<Rightarrow> unat (suffix2factor c))"
  proof (cases su)
    case None
    then show ?thesis using number_text_last(1) [of ds fs ex] assms(1) n suffix2factor_other by (simp del: number_text.simps)
  qed simp
  show ?thesis
    unfolding n last [unfolded n] atof_scaled_def atof_def decimal_value_number [OF assms(1) [unfolded n] assms(2)] f number_value.simps Let_def ..
qed

section \<open>Expressions\<close>

datatype token = TNumber number | TUnknown string | TString string

text \<open>The spaces around the parts are kept, so that the text of an expression is unique.\<close>

datatype expr = Literal string token string | Paren string expr string | Minus string expr | Negation string expr
  | Binary operator expr expr

fun escape :: "string \<Rightarrow> string" where
  "escape [] = []"
| "escape (c # s) = (if c = CHR 0x22 \<or> c = CHR 0x5C then [CHR 0x5C, c] else [c]) @ escape s"

fun token_text :: "token \<Rightarrow> string" where
  "token_text (TNumber n) = number_text n"
| "token_text (TUnknown ds) = ZBX_UNKNOWN_STR @ ds"
| "token_text (TString s) = [CHR 0x22] @ escape s @ [CHR 0x22]"

fun operator_text :: "operator \<Rightarrow> string" where
  "operator_text Mul = ''*''" | "operator_text Div = ''/''" | "operator_text Add = ''+''" | "operator_text Sub = ''-''"
| "operator_text Lt = ''<''" | "operator_text Le = ''<=''" | "operator_text Ge = ''>=''" | "operator_text Gt = ''>''"
| "operator_text Eq = ''=''" | "operator_text Ne = ''<>''" | "operator_text And = ''and''" | "operator_text Or = ''or''"

fun expr_text :: "expr \<Rightarrow> string" where
  "expr_text (Literal w t w') = w @ token_text t @ w'"
| "expr_text (Paren w e w') = w @ ''('' @ expr_text e @ '')'' @ w'"
| "expr_text (Minus w e) = w @ ''-'' @ expr_text e"
| "expr_text (Negation w e) = w @ ''not'' @ expr_text e"
| "expr_text (Binary op a b) = expr_text a @ operator_text op @ expr_text b"

text \<open>The level of an operator, and of an expression: the operators of one level group from the left.\<close>

fun operator_level :: "operator \<Rightarrow> nat" where
  "operator_level Mul = 6" | "operator_level Div = 6" | "operator_level Add = 5" | "operator_level Sub = 5"
| "operator_level Lt = 4" | "operator_level Le = 4" | "operator_level Ge = 4" | "operator_level Gt = 4"
| "operator_level Eq = 3" | "operator_level Ne = 3" | "operator_level And = 2" | "operator_level Or = 1"

abbreviation all_spaces :: "string \<Rightarrow> bool" where
  "all_spaces \<equiv> list_all is_space"

fun token_ok :: "token \<Rightarrow> bool" where
  "token_ok (TNumber n) \<longleftrightarrow> number_ok n"
| "token_ok (TUnknown ds) \<longleftrightarrow> ds \<noteq> [] \<and> all_digits ds"
| "token_ok (TString s) \<longleftrightarrow> cstring s"

text \<open>Words need a delimiter around them: behind \<open>not\<close>, \<open>and\<close>, \<open>or\<close>, and in front of \<open>and\<close>, \<open>or\<close> when it is a literal.\<close>

abbreviation is_word :: "operator \<Rightarrow> bool" where
  "is_word op \<equiv> op = And \<or> op = Or"

abbreviation begins_delimited :: "string \<Rightarrow> bool" where
  "begins_delimited s \<equiv> is_operator_delimiter (cchar s 0)"

fun ends_literal :: "expr \<Rightarrow> bool" where
  "ends_literal (Literal w t w') \<longleftrightarrow> w' = []"
| "ends_literal (Paren w e w') \<longleftrightarrow> False"
| "ends_literal (Minus w e) \<longleftrightarrow> ends_literal e"
| "ends_literal (Negation w e) \<longleftrightarrow> ends_literal e"
| "ends_literal (Binary op a b) \<longleftrightarrow> ends_literal b"

fun expr_ok :: "nat \<Rightarrow> expr \<Rightarrow> bool" where
  "expr_ok k (Literal w t w') \<longleftrightarrow> all_spaces w \<and> token_ok t \<and> all_spaces w'"
| "expr_ok k (Paren w e w') \<longleftrightarrow> all_spaces w \<and> expr_ok 1 e \<and> all_spaces w'"
| "expr_ok k (Minus w e) \<longleftrightarrow> k \<le> 8 \<and> all_spaces w \<and> expr_ok 9 e"
| "expr_ok k (Negation w e) \<longleftrightarrow> k \<le> 7 \<and> all_spaces w \<and> expr_ok 8 e \<and> begins_delimited (expr_text e)"
| "expr_ok k (Binary op a b) \<longleftrightarrow> k \<le> operator_level op \<and> expr_ok (operator_level op) a \<and> expr_ok (operator_level op + 1) b \<and>
    (is_word op \<longrightarrow> \<not> ends_literal a \<and> begins_delimited (expr_text b))"

fun nesting :: "expr \<Rightarrow> nat" where
  "nesting (Literal w t w') = 0"
| "nesting (Paren w e w') = nesting e + 1"
| "nesting (Minus w e) = nesting e"
| "nesting (Negation w e) = nesting e"
| "nesting (Binary op a b) = max (nesting a) (nesting b)"

section \<open>Meaning\<close>

text \<open>
  A fatal error, an unknown value with the index of its message, a number, or a string. No meaning is given to an
  expression in which a result overflows below, which the evaluator takes for an unknown value.
\<close>

datatype sval = SError | SUnknown int | SNumber rat | SString string

fun sval_of :: "dbl \<Rightarrow> sval option" where
  "sval_of (Num q) = Some (SNumber q)"
| "sval_of PInf = Some SError"
| "sval_of MInf = None"

fun as_number :: "fp \<Rightarrow> sval \<Rightarrow> sval option" where
  "as_number fp (SString s) = sval_of (evaluate_string_to_double fp s)"
| "as_number fp x = Some x"

definition truth :: "fp \<Rightarrow> rat \<Rightarrow> bool" where
  "truth fp q \<longleftrightarrow> \<not> zbx_double_compare fp (Num q) (Num 0)"

definition sbool :: "bool \<Rightarrow> sval" where
  "sbool b = SNumber (if b then 1 else 0)"

text \<open>Numbers.\<close>

fun apply_numbers :: "fp \<Rightarrow> operator \<Rightarrow> rat \<Rightarrow> rat \<Rightarrow> sval option" where
  "apply_numbers fp Mul a b = sval_of (fp_round fp (a * b))"
| "apply_numbers fp Div a b = (if truth fp b then sval_of (fp_round fp (a / b)) else Some SError)"
| "apply_numbers fp Add a b = sval_of (fp_round fp (a + b))"
| "apply_numbers fp Sub a b = sval_of (fp_round fp (a - b))"
| "apply_numbers fp Lt a b = Some (sbool (dbl_less (Num a) (fp_round fp (b - fp_epsilon fp))))"
| "apply_numbers fp Le a b = Some (sbool (dbl_le (Num a) (fp_round fp (b + fp_epsilon fp))))"
| "apply_numbers fp Ge a b = Some (sbool (dbl_le (fp_round fp (b - fp_epsilon fp)) (Num a)))"
| "apply_numbers fp Gt a b = Some (sbool (dbl_less (fp_round fp (b + fp_epsilon fp)) (Num a)))"
| "apply_numbers fp Eq a b = Some (sbool (zbx_double_compare fp (Num a) (Num b)))"
| "apply_numbers fp Ne a b = Some (sbool (\<not> zbx_double_compare fp (Num a) (Num b)))"
| "apply_numbers fp And a b = Some (sbool (truth fp a \<and> truth fp b))"
| "apply_numbers fp Or a b = Some (sbool (truth fp a \<or> truth fp b))"

text \<open>
  Unknown values: a fatal error wins over them; \<open>and\<close> with a false and \<open>or\<close> with a true operand are known; a division
  by zero is fatal even then; otherwise the right unknown operand decides which message is reported.
\<close>

fun apply_operator :: "fp \<Rightarrow> operator \<Rightarrow> sval \<Rightarrow> sval \<Rightarrow> sval option" where
  "apply_operator fp op SError y = Some SError"
| "apply_operator fp op x SError = Some SError"
| "apply_operator fp op (SUnknown i) (SUnknown j) = Some (SUnknown j)"
| "apply_operator fp op (SUnknown i) (SNumber b) =
    Some (if op = And \<and> \<not> truth fp b then sbool False
          else if op = Or \<and> truth fp b then sbool True
          else if op = Div \<and> \<not> truth fp b then SError
          else SUnknown i)"
| "apply_operator fp op (SNumber a) (SUnknown j) =
    Some (if op = And \<and> \<not> truth fp a then sbool False else if op = Or \<and> truth fp a then sbool True else SUnknown j)"
| "apply_operator fp op (SNumber a) (SNumber b) = apply_numbers fp op a b"
| "apply_operator fp op x y = None"

definition sval_double :: "fp \<Rightarrow> sval \<Rightarrow> dbl" where
  "sval_double fp x = (case x of SNumber a \<Rightarrow> Num a | SString s \<Rightarrow> evaluate_string_to_double fp s | _ \<Rightarrow> PInf)"

text \<open>Equality of numbers and strings: as numbers when both are, else as strings.\<close>

definition same_value :: "fp \<Rightarrow> sval \<Rightarrow> sval \<Rightarrow> bool" where
  "same_value fp x y \<longleftrightarrow>
    (if sval_double fp x \<noteq> PInf \<and> sval_double fp y \<noteq> PInf then zbx_double_compare fp (sval_double fp x) (sval_double fp y)
     else (case (x, y) of (SString s, SString t) \<Rightarrow> s = t | _ \<Rightarrow> False))"

fun apply_equality :: "fp \<Rightarrow> bool \<Rightarrow> sval \<Rightarrow> sval \<Rightarrow> sval" where
  "apply_equality fp positive SError y = SError"
| "apply_equality fp positive x SError = SError"
| "apply_equality fp positive (SUnknown i) y = SUnknown i"
| "apply_equality fp positive x (SUnknown j) = SUnknown j"
| "apply_equality fp positive x y = sbool (same_value fp x y = positive)"

fun meaning :: "fp \<Rightarrow> expr \<Rightarrow> sval option" where
  "meaning fp (Literal w t w') = (case t of TNumber n \<Rightarrow> sval_of (number_value fp n) | TUnknown ds \<Rightarrow> Some (SUnknown (int (dec_val ds)))
     | TString s \<Rightarrow> Some (SString (filter (\<lambda>c. c \<noteq> CHR 0x0D) s)))"
| "meaning fp (Paren w e w') = meaning fp e"
| "meaning fp (Minus w e) = Option.bind (Option.bind (meaning fp e) (as_number fp))
    (\<lambda>x. Some (case x of SNumber q \<Rightarrow> SNumber (- q) | _ \<Rightarrow> x))"
| "meaning fp (Negation w e) = Option.bind (Option.bind (meaning fp e) (as_number fp))
    (\<lambda>x. Some (case x of SNumber q \<Rightarrow> sbool (\<not> truth fp q) | _ \<Rightarrow> x))"
| "meaning fp (Binary op a b) = Option.bind (meaning fp a) (\<lambda>x. Option.bind (meaning fp b) (\<lambda>y.
     if op = Eq \<or> op = Ne then Some (apply_equality fp (op = Eq) x y)
     else Option.bind (as_number fp x) (\<lambda>x. Option.bind (as_number fp y) (apply_operator fp op x))))"

end
