(* ===== verification/EvalSpec.thy ===== *)
theory EvalSpec
  imports EvalGrammar
begin

text \<open>
  The evaluator gives every expression of the grammar its meaning. The levels are taken together as one family, with
  one lemma for a step of their loops; a left operand is read by the loop of its own level (\<open>stands\<close>), a right one by the
  level above (\<open>yields\<close>).
\<close>

section \<open>Levels\<close>

definition look_at :: "nat \<Rightarrow> string \<Rightarrow> (operator \<times> string) option" where
  "look_at k = (if k = 1 then find_term1 else if k = 2 then find_term2 else if k = 3 then find_term3 else if k = 4 then find_term4
     else if k = 5 then find_term5 else find_term6)"

definition merge_at :: "fp \<Rightarrow> nat \<Rightarrow> operator \<Rightarrow> dbl \<Rightarrow> dbl \<Rightarrow> int \<Rightarrow> int \<Rightarrow> int \<Rightarrow> merged" where
  "merge_at fp k = (if k = 1 then merge_term1 fp else if k = 2 then merge_term2 fp else if k = 4 then merge_term4 fp
     else if k = 5 then merge_term5 fp else merge_term6 fp)"

definition level_at :: "fp \<Rightarrow> eval_term \<Rightarrow> nat \<Rightarrow> eval_term" where
  "level_at fp inner k =
    (if k = 1 then binary_level find_term1 (evaluate_term2 fp inner) (binary_body fp True find_term1 (evaluate_term2 fp inner) (merge_term1 fp)) (-11) (-12)
     else if k = 2 then evaluate_term2 fp inner else if k = 3 then evaluate_term3 fp inner else if k = 4 then evaluate_term4 fp inner
     else if k = 5 then evaluate_term5 fp inner else if k = 6 then evaluate_term6 fp inner else if k = 7 then evaluate_term7 fp inner
     else if k = 8 then evaluate_term8 fp inner else evaluate_term9 fp inner)"

definition body_at :: "fp \<Rightarrow> eval_term \<Rightarrow> nat \<Rightarrow> loop_state \<Rightarrow> loop_state" where
  "body_at fp inner k =
    (if k = 3 then equality_body fp (level_at fp inner 4)
     else binary_body fp (k \<le> 4) (look_at k) (level_at fp inner (k + 1)) (merge_at fp k))"

definition binary_levels :: "nat set" where
  "binary_levels = {1, 2, 3, 4, 5, 6}"

lemma level_at_binary:
  assumes "k \<in> binary_levels"
  shows "level_at fp inner k = binary_level (look_at k) (level_at fp inner (k + 1)) (body_at fp inner k) (1 - 2 * (7 - int k)) (- 2 * (7 - int k))"
  using assms unfolding binary_levels_def
  by (auto simp: level_at_def look_at_def body_at_def merge_at_def evaluate_term2_def evaluate_term3_def evaluate_term4_def
      evaluate_term5_def evaluate_term6_def)

definition begins_operand :: "string \<Rightarrow> bool" where
  "begins_operand t \<longleftrightarrow> cchar t 0 \<noteq> CHR ''='' \<and> cchar t 0 \<noteq> CHR ''>''"

text \<open>What may stand behind an expression of a level: nothing of that level or above.\<close>

definition follows :: "nat \<Rightarrow> string \<Rightarrow> bool" where
  "follows k rest \<longleftrightarrow> rest = [] \<or> cchar rest 0 = CHR '')'' \<or>
    (\<exists>op t. operator_level op < k \<and> rest = operator_text op @ t \<and> begins_operand t \<and> (is_word op \<longrightarrow> begins_delimited t))"

lemmas look_defs = find_term1_def find_term2_def find_term3_def find_term4_def find_term5_def find_term6_def

lemma cchar_numerals [simp]: "cchar (c # s) 1 = cchar s 0" "cchar (c # s) 2 = cchar s 1" "cchar (c # s) 3 = cchar s 2"
  by (simp_all add: cchar_def)

lemma look_operator:
  assumes "begins_operand t" "is_word op \<longrightarrow> begins_delimited t"
  shows "look_at (operator_level op) (operator_text op @ t) = Some (op, t)"
  using assms by (cases op) (auto simp: look_at_def look_defs begins_operand_def numeral_2_eq_2 numeral_3_eq_3)

lemma look_none:
  assumes "follows k rest" "k \<le> j" "j \<in> binary_levels"
  shows "look_at j rest = None"
  using assms(1) unfolding follows_def
proof (elim disjE exE conjE)
  assume "rest = []"
  then show ?thesis by (simp add: look_at_def look_defs)
next
  assume "cchar rest 0 = CHR '')''"
  then show ?thesis by (simp add: look_at_def look_defs)
next
  fix op t assume a: "operator_level op < k" "rest = operator_text op @ t" "begins_operand t" "is_word op \<longrightarrow> begins_delimited t"
  have "operator_level op < j" using a(1) assms(2) by simp
  then show ?thesis using assms(3) a(3) unfolding binary_levels_def a(2)
    by (cases op) (auto simp: look_at_def look_defs begins_operand_def numeral_2_eq_2 numeral_3_eq_3)
qed

section \<open>Values and operators\<close>

fun means :: "sval \<Rightarrow> variant \<Rightarrow> int \<Rightarrow> bool" where
  "means SError v idx \<longleftrightarrow> v = VDbl PInf"
| "means (SUnknown i) v idx \<longleftrightarrow> v = VDbl MInf \<and> idx = i"
| "means (SNumber q) v idx \<longleftrightarrow> v = VDbl (Num q)"
| "means (SString s) v idx \<longleftrightarrow> v = VStr s"

lemma means_error: "means x v idx \<Longrightarrow> v = VDbl PInf \<longleftrightarrow> x = SError"
  by (cases x) auto

lemma sval_of_means: "sval_of d = Some x \<Longrightarrow> means x (VDbl d) idx"
  by (cases d) auto

lemma convert_means:
  assumes "means x v idx" "as_number fp x = Some y"
  shows "\<exists>d st'. variant_convert_to_double fp v st = (d, st') \<and> means y (VDbl d) idx \<and> (y \<noteq> SError \<longrightarrow> st' = st)"
proof (cases x)
  case (SString s)
  then have y: "sval_of (evaluate_string_to_double fp s) = Some y" and v: "v = VStr s" using assms by simp_all
  have "y \<noteq> SError \<longrightarrow> evaluate_string_to_double fp s \<noteq> PInf" using y by auto
  then show ?thesis using sval_of_means [OF y] v by (simp add: variant_convert_to_double_def Let_def)
qed (use assms in \<open>auto simp: variant_convert_to_double_def\<close>)

lemma as_number_form: "as_number fp x = Some y \<Longrightarrow> y = SError \<or> (\<exists>i. y = SUnknown i) \<or> (\<exists>q. y = SNumber q)"
proof (cases x)
  case (SString s)
  then show "as_number fp x = Some y \<Longrightarrow> ?thesis" by (cases "evaluate_string_to_double fp s") auto
qed auto

lemma as_number_unknown: "as_number fp x = Some (SUnknown i) \<Longrightarrow> x = SUnknown i"
proof (cases x)
  case (SString s)
  then show "as_number fp x = Some (SUnknown i) \<Longrightarrow> ?thesis" by (cases "evaluate_string_to_double fp s") auto
qed auto

lemma apply_operator_unknown:
  assumes "apply_operator fp op x y = Some (SUnknown i)"
  shows "x = SUnknown i \<or> y = SUnknown i"
proof -
  have n: "sval_of d \<noteq> Some (SUnknown i)" for d by (cases d) auto
  have "apply_numbers fp op a b \<noteq> Some (SUnknown i)" for a b using n by (cases op) (auto simp: sbool_def)
  then show ?thesis using assms by (cases x; cases y) (auto simp: sbool_def split: if_splits)
qed

lemma merge_means:
  assumes "operator_level op = k" "k \<in> binary_levels" "k \<noteq> 3"
    and "means x (VDbl dx) ri" "means y (VDbl dy) oi" "x \<noteq> SError" "y \<noteq> SError" "apply_operator fp op x y = Some z"
  shows "case merge_at fp k op dx dy ri oi ui of Fatal e \<Rightarrow> z = SError
    | Merged d ri' ui' \<Rightarrow> means z (VDbl d) ri' \<and> means z (VDbl d) ui'"
proof -
  note defs = merge_at_def merge_term1_def merge_term2_def merge_term4_def merge_term5_def merge_term6_def truth_def sbool_def dbl_of_bool_def Let_def
  show ?thesis
  proof (cases x)
    case (SNumber a)
    show ?thesis
    proof (cases y)
      case (SNumber b)
      then show ?thesis using assms \<open>x = SNumber a\<close> by (cases op) (auto simp: defs sval_of_means split: if_splits)
    qed (use assms SNumber in \<open>cases op; auto simp: defs split: if_splits\<close>)+
  next
    case (SUnknown i)
    show ?thesis
    proof (cases y)
      case (SNumber b)
      then show ?thesis using assms SUnknown by (cases op) (auto simp: defs split: if_splits)
    qed (use assms SUnknown in \<open>cases op; auto simp: defs split: if_splits\<close>)+
  qed (use assms in auto)
qed

section \<open>The loops\<close>

abbreviation loop_end :: "loop_state \<Rightarrow> variant \<times> int \<times> eval_state" where
  "loop_end l \<equiv> (case l of (returns, res, res_idx, oper_idx, unknown_idx, st) \<Rightarrow> (res, unknown_idx, st))"

definition run_at :: "fp \<Rightarrow> eval_term \<Rightarrow> nat \<Rightarrow> loop_state \<Rightarrow> variant \<times> int \<times> eval_state" where
  "run_at fp inner k l = loop_end (while (loop_goes (look_at k)) (body_at fp inner k) l)"

lemma run_returned: "run_at fp inner k (True, v, ri, oi, ui, st) = (v, ui, st)"
  unfolding run_at_def by (subst while_unfold) (simp add: loop_goes_def)

lemma run_stop: "look_at k (ev_ptr st) = None \<Longrightarrow> run_at fp inner k (False, v, ri, oi, ui, st) = (v, ui, st)"
  unfolding run_at_def by (subst while_unfold) (simp add: loop_goes_def)

lemma run_step: "look_at k (ev_ptr st) \<noteq> None \<Longrightarrow>
    run_at fp inner k (False, v, ri, oi, ui, st) = run_at fp inner k (body_at fp inner k (False, v, ri, oi, ui, st))"
  unfolding run_at_def by (subst while_unfold) (auto simp: loop_goes_def)

lemma run_error:
  assumes "k \<noteq> 3"
  shows "fst (run_at fp inner k (False, VDbl PInf, ri, oi, ui, st)) = VDbl PInf"
proof (cases "look_at k (ev_ptr st)")
  case None
  then show ?thesis by (simp add: run_stop)
next
  case (Some a)
  then obtain op p where a: "look_at k (ev_ptr st) = Some (op, p)" by (cases a) auto
  obtain st' where "body_at fp inner k (False, VDbl PInf, ri, oi, ui, st) = (True, VDbl PInf, ri, oi, ui, st')"
    using a assms by (simp add: body_at_def binary_body_def variant_convert_to_double_def)
  then show ?thesis using run_step [of k st fp inner "VDbl PInf" ri oi ui] a by (simp add: run_returned)
qed

lemma set_ptr_sel [simp]: "ev_ptr (set_ptr p st) = p" "ev_error (set_ptr p st) = ev_error st" "set_ptr p (set_ptr q st) = set_ptr p st"
  by (simp_all add: set_ptr_def)

text \<open>What a term has read.\<close>

definition yields :: "sval \<Rightarrow> string \<Rightarrow> eval_error option \<Rightarrow> variant \<times> int \<times> eval_state \<Rightarrow> bool" where
  "yields x rest err r \<longleftrightarrow> (case r of (v, idx, st) \<Rightarrow> means x v idx \<and> (x \<noteq> SError \<longrightarrow> ev_ptr st = rest \<and> ev_error st = err))"

text \<open>A loop that has read an expression of its level, and stands behind it.\<close>

definition stands :: "fp \<Rightarrow> eval_term \<Rightarrow> nat \<Rightarrow> sval \<Rightarrow> string \<Rightarrow> eval_error option \<Rightarrow> variant \<times> int \<times> eval_state \<Rightarrow> bool" where
  "stands fp inner k x rest err r \<longleftrightarrow>
    (if x = SError then fst r = VDbl PInf
     else \<exists>v ri oi ui st. r = run_at fp inner k (False, v, ri, oi, ui, st) \<and> means x v ui \<and> (k \<noteq> 3 \<longrightarrow> means x v ri) \<and>
       ev_ptr st = rest \<and> ev_error st = err)"

lemma standsI:
  assumes "x \<noteq> SError" "r = run_at fp inner k (False, v, ri, oi, ui, st)" "means x v ui" "k \<noteq> 3 \<longrightarrow> means x v ri"
    "ev_ptr st = rest" "ev_error st = err"
  shows "stands fp inner k x rest err r"
  unfolding stands_def if_not_P [OF assms(1)] using assms(2-6) by blast

lemma standsD:
  assumes "stands fp inner k x rest err r" "x \<noteq> SError"
  shows "\<exists>v ri oi ui st. r = run_at fp inner k (False, v, ri, oi, ui, st) \<and> means x v ui \<and> (k \<noteq> 3 \<longrightarrow> means x v ri) \<and>
    ev_ptr st = rest \<and> ev_error st = err"
  using assms(1) unfolding stands_def if_not_P [OF assms(2)] .

lemma stands_stop:
  assumes "stands fp inner k x rest err r" "look_at k rest = None"
  shows "yields x rest err r"
proof (cases "x = SError")
  case True
  then show ?thesis using assms(1) by (cases r) (simp add: stands_def yields_def)
next
  case False
  then obtain v ri oi ui st where s: "r = run_at fp inner k (False, v, ri, oi, ui, st)" "means x v ui" "ev_ptr st = rest" "ev_error st = err"
    using standsD [OF assms(1) False] by blast
  have "r = (v, ui, st)" unfolding s(1) by (rule run_stop) (simp add: s(3) assms(2))
  then show ?thesis using s(2-4) by (simp add: yields_def)
qed

lemma stands_begin:
  assumes "k \<in> binary_levels" "\<And>idx. yields x rest err (level_at fp inner (k + 1) idx st)"
  shows "stands fp inner k x rest err (level_at fp inner k idx st)"
proof -
  define r where "r = 1 - 2 * (7 - int k)"
  obtain v ri st' where o: "level_at fp inner (k + 1) r st = (v, ri, st')" by (cases "level_at fp inner (k + 1) r st") auto
  have y: "means x v ri" "x \<noteq> SError \<longrightarrow> ev_ptr st' = rest \<and> ev_error st' = err" using assms(2) [of r] o by (simp_all add: yields_def)
  note l = level_at_binary [OF assms(1), of fp inner, folded r_def]
  show ?thesis
  proof (cases "x = SError")
    case True
    then show ?thesis using y(1) o by (simp add: l binary_level_def stands_def)
  next
    case False
    then have "v \<noteq> VDbl PInf" using means_error [OF y(1)] by simp
    then have "level_at fp inner k idx st =
      run_at fp inner k (False, v, ri, - 2 * (7 - int k), if v = VDbl MInf then ri else idx, st')"
      using o unfolding l binary_level_def run_at_def by simp
    moreover have "means x v (if v = VDbl MInf then ri else idx)" using y(1) by (cases x) auto
    moreover have "ev_ptr st' = rest" "ev_error st' = err" using y(2) False by simp_all
    ultimately show ?thesis using standsI [OF False] y(1) by blast
  qed
qed

lemma stands_step:
  assumes k: "operator_level op = k" "k \<noteq> 3" and s: "stands fp inner k x (operator_text op @ t) err r"
    and look: "look_at k (operator_text op @ t) = Some (op, t)"
    and operand: "\<And>idx st. ev_ptr st = t \<Longrightarrow> yields y rest (ev_error st) (level_at fp inner (k + 1) idx st)"
    and conv: "as_number fp x = Some x'" "as_number fp y = Some y'" and z: "apply_operator fp op x' y' = Some z"
  shows "stands fp inner k z rest err r"
proof (cases "x = SError")
  case True
  then have "z = SError" using conv z by auto
  then show ?thesis using s True by (simp add: stands_def)
next
  case False
  have kb: "k \<in> binary_levels" using k(1) by (cases op) (auto simp: binary_levels_def)
  obtain v ri oi ui st where r: "r = run_at fp inner k (False, v, ri, oi, ui, st)" "means x v ri" "ev_ptr st = operator_text op @ t" "ev_error st = err"
    using standsD [OF s False] k(2) by blast
  have look': "look_at k (ev_ptr st) = Some (op, t)" using look r(3) by simp
  obtain dx st1 where c1: "variant_convert_to_double fp v (if k \<le> 4 then set_ptr t st else st) = (dx, st1)" "means x' (VDbl dx) ri"
    "x' \<noteq> SError \<longrightarrow> st1 = (if k \<le> 4 then set_ptr t st else st)"
    using convert_means [OF r(2) conv(1)] by blast
  have body: "body_at fp inner k (False, v, ri, oi, ui, st) =
      (if dx = PInf then (True, VDbl PInf, ri, oi, ui, st1)
       else case level_at fp inner (k + 1) oi (set_ptr t st1) of (y, oi, st) \<Rightarrow>
         case variant_convert_to_double fp y st of (y, st) \<Rightarrow>
           if y = PInf then (True, VDbl PInf, ri, oi, ui, st)
           else case merge_at fp k op dx y ri oi ui of
             Fatal e \<Rightarrow> (True, VDbl PInf, ri, oi, ui, set_error e st)
           | Merged x ri ui \<Rightarrow> (False, VDbl x, ri, oi, ui, st))"
    using k(2) look' c1(1) by (simp add: body_at_def binary_body_def)
  have run: "r = run_at fp inner k (body_at fp inner k (False, v, ri, oi, ui, st))"
    unfolding r(1) by (rule run_step) (simp add: look')
  show ?thesis
  proof (cases "x' = SError")
    case True
    then have "dx = PInf" "z = SError" using c1(2) z by auto
    then show ?thesis using run body by (simp add: run_returned stands_def)
  next
    case x': False
    then have dx: "dx \<noteq> PInf" using means_error [OF c1(2)] by auto
    have st1: "ev_error (set_ptr t st1) = err" "ev_ptr (set_ptr t st1) = t" using c1(3) x' r(4) by (auto split: if_splits)
    obtain w oi' st2 where o: "level_at fp inner (k + 1) oi (set_ptr t st1) = (w, oi', st2)" by (cases "level_at fp inner (k + 1) oi (set_ptr t st1)") auto
    have y: "means y w oi'" "y \<noteq> SError \<longrightarrow> ev_ptr st2 = rest \<and> ev_error st2 = err"
      using operand [OF st1(2), of oi] o st1(1) by (simp_all add: yields_def)
    obtain dy st3 where c2: "variant_convert_to_double fp w st2 = (dy, st3)" "means y' (VDbl dy) oi'" "y' \<noteq> SError \<longrightarrow> st3 = st2"
      using convert_means [OF y(1) conv(2)] by blast
    show ?thesis
    proof (cases "y' = SError")
      case True
      then have "dy = PInf" "z = SError" using c2(2) z x' by (auto elim: apply_operator.elims)
      then show ?thesis using run body dx o c2(1) by (simp add: run_returned stands_def)
    next
      case y': False
      then have dy: "dy \<noteq> PInf" using means_error [OF c2(2)] by auto
      have "y \<noteq> SError" using y' conv(2) by auto
      then have st3: "ev_ptr st3 = rest" "ev_error st3 = err" using c2(3) y' y(2) by auto
      note m = merge_means [OF k(1) kb k(2) c1(2) c2(2) x' y' z, of ui]
      show ?thesis
      proof (cases "merge_at fp k op dx dy ri oi' ui")
        case (Fatal e)
        then show ?thesis using run body dx dy o c2(1) m by (simp add: run_returned stands_def)
      next
        case (Merged d ri' ui')
        then have b: "r = run_at fp inner k (False, VDbl d, ri', oi', ui', st3)" using run body dx dy o c2(1) by simp
        have mz: "means z (VDbl d) ri'" "means z (VDbl d) ui'" using m Merged by simp_all
        show ?thesis
        proof (cases "z = SError")
          case True
          then show ?thesis using b mz(1) run_error [OF k(2)] by (simp add: stands_def)
        next
          case False
          then show ?thesis using standsI [OF _ b mz(2)] mz(1) st3 by blast
        qed
      qed
    qed
  qed
qed

text \<open>Equality, which converts neither operand.\<close>

definition fp_ok :: "fp \<Rightarrow> bool" where
  "fp_ok fp \<longleftrightarrow> fp_round fp 0 = Num 0 \<and> fp_round fp 1 = Num 1 \<and> 0 \<le> fp_epsilon fp \<and> fp_epsilon fp < 1"

lemma fp_ok_bool:
  assumes "fp_ok fp"
  shows "zbx_double_compare fp (dbl_of_bool b) (Num 0) \<longleftrightarrow> \<not> b"
  using assms by (simp add: fp_ok_def zbx_double_compare_def dbl_of_bool_def)

definition same_variant :: "fp \<Rightarrow> variant \<Rightarrow> variant \<Rightarrow> bool" where
  "same_variant fp v w \<longleftrightarrow>
    (let left = variant_get_double fp v; right = variant_get_double fp w
     in if left \<noteq> PInf \<and> right \<noteq> PInf then zbx_double_compare fp left right
        else (case (v, w) of (VStr s, VStr t) \<Rightarrow> s = t | _ \<Rightarrow> False))"

lemma equality_body_cases:
  assumes "fp_ok fp" "find_term3 (ev_ptr st) = Some (op, p)" "op = Eq \<or> op = Ne" "operand oi (set_ptr p st) = (w, oi', st')"
  shows "equality_body fp operand (False, v, ri, oi, ui, st) =
    (if w = VDbl PInf then (True, w, ri, oi', ui, st')
     else if v = VDbl MInf then (False, v, ri, oi', ui, st')
     else if w = VDbl MInf then (False, w, ri, oi', oi', st')
     else (False, VDbl (dbl_of_bool (same_variant fp v w = (op = Eq))), ri, oi', ui, st'))"
proof -
  have b: "dbl_of_bool False = Num 0" by (simp add: dbl_of_bool_def)
  have same: "(if variant_get_double fp v \<noteq> PInf \<and> variant_get_double fp w \<noteq> PInf
       then dbl_of_bool (zbx_double_compare fp (variant_get_double fp v) (variant_get_double fp w))
       else case (v, w) of (VStr s, VStr t) \<Rightarrow> dbl_of_bool (s = t) | _ \<Rightarrow> Num 0) = dbl_of_bool (same_variant fp v w)"
    unfolding same_variant_def Let_def by (simp add: b split: variant.split)
  have ne: "(if op = Ne then dbl_of_bool (zbx_double_compare fp (dbl_of_bool q) (Num 0)) else dbl_of_bool q) = dbl_of_bool (q = (op = Eq))" for q
    using assms(3) fp_ok_bool [OF assms(1), of q] by (cases q) auto
  show ?thesis
    unfolding equality_body_def prod.case assms(2,4) option.case Let_def same [unfolded prod.case] ne ..
qed

lemma means_equality:
  assumes "means x v i" "means y w j" "x \<noteq> SError" "y \<noteq> SError" "v \<noteq> VDbl MInf" "w \<noteq> VDbl MInf"
  shows "apply_equality fp b x y = sbool (same_variant fp v w = b)"
proof -
  have "sval_double fp x = variant_get_double fp v" "sval_double fp y = variant_get_double fp w"
    using assms by (cases x; cases y; simp add: sval_double_def variant_get_double_def)+
  then have "same_value fp x y = same_variant fp v w" using assms
    by (cases x; cases y) (auto simp: same_value_def same_variant_def Let_def)
  then show ?thesis using assms by (cases x; cases y) auto
qed

lemma stands_equality:
  assumes fp: "fp_ok fp" and op: "op = Eq \<or> op = Ne" and s: "stands fp inner 3 x (operator_text op @ t) err r"
    and look: "look_at 3 (operator_text op @ t) = Some (op, t)"
    and operand: "\<And>idx st. ev_ptr st = t \<Longrightarrow> yields y rest (ev_error st) (level_at fp inner 4 idx st)"
  shows "stands fp inner 3 (apply_equality fp (op = Eq) x y) rest err r"
proof (cases "x = SError")
  case True
  then show ?thesis using s by (simp add: stands_def)
next
  case False
  obtain v ri oi ui st where r: "r = run_at fp inner 3 (False, v, ri, oi, ui, st)" "means x v ui" "ev_ptr st = operator_text op @ t" "ev_error st = err"
    using standsD [OF s False] by blast
  have look': "look_at 3 (ev_ptr st) = Some (op, t)" "find_term3 (ev_ptr st) = Some (op, t)" using look r(3) by (simp_all add: look_at_def)
  obtain w oi' st' where o: "level_at fp inner 4 oi (set_ptr t st) = (w, oi', st')" by (cases "level_at fp inner 4 oi (set_ptr t st)") auto
  have y: "means y w oi'" "y \<noteq> SError \<Longrightarrow> ev_ptr st' = rest" "y \<noteq> SError \<Longrightarrow> ev_error st' = err"
    using operand [of "set_ptr t st" oi] o r(4) by (simp_all add: yields_def)
  have run: "r = run_at fp inner 3 (body_at fp inner 3 (False, v, ri, oi, ui, st))"
    unfolding r(1) by (rule run_step) (simp add: look')
  have "body_at fp inner 3 = equality_body fp (level_at fp inner 4)" by (simp add: body_at_def)
  note run = run [unfolded this equality_body_cases [where operand = "level_at fp inner 4", OF fp look'(2) op o]]
  show ?thesis
  proof (cases "y = SError")
    case True
    then have "apply_equality fp (op = Eq) x y = SError" using False by (cases x) auto
    then show ?thesis using run y(1) True by (simp add: run_returned stands_def)
  next
    case y': False
    have w: "w \<noteq> VDbl PInf" using means_error [OF y(1)] y' by simp
    note st = y(2,3) [OF y']
    show ?thesis
    proof (cases "v = VDbl MInf")
      case True
      then obtain i where x: "x = SUnknown i" using r(2) False by (cases x) auto
      then have z: "apply_equality fp (op = Eq) x y = x" using y' by (cases y) auto
      show ?thesis unfolding z using standsI [OF False _ r(2) _ st] run w True by simp
    next
      case v: False
      then have nx: "\<nexists>i. x = SUnknown i" using r(2) by auto
      show ?thesis
      proof (cases "w = VDbl MInf")
        case True
        then obtain j where "y = SUnknown j" using y(1) y' by (cases y) auto
        then have z: "apply_equality fp (op = Eq) x y = y" using False nx by (cases x) auto
        show ?thesis unfolding z using standsI [OF y' _ y(1) _ st] run w v True by simp
      next
        case False
        have z: "apply_equality fp (op = Eq) x y = sbool (same_variant fp v w = (op = Eq))"
          by (rule means_equality [OF r(2) y(1) \<open>x \<noteq> SError\<close> y' v False])
        have n: "sbool b \<noteq> SError" "means (sbool b) (VDbl (dbl_of_bool b)) i" for b i by (simp_all add: sbool_def dbl_of_bool_def)
        show ?thesis unfolding z by (rule standsI [OF n(1) _ n(2) _ st]) (use run w v False in simp_all)
      qed
    qed
  qed
qed

section \<open>Tokens and the levels without loops\<close>

lemma all_spaces_drop: "all_spaces w \<Longrightarrow> \<not> is_space (cchar t 0) \<Longrightarrow> dropWhile is_space (w @ t) = t"
  by (induction w) (cases t; auto)+

lemma skip_spaces_at: "ev_ptr st = w @ t \<Longrightarrow> all_spaces w \<Longrightarrow> \<not> is_space (cchar t 0) \<Longrightarrow> skip_spaces st = set_ptr t st"
  using all_spaces_drop [of w t] by (simp add: skip_spaces_def set_ptr_def)

lemma skip_spaces_idem [simp]: "skip_spaces (skip_spaces st) = skip_spaces st"
  by (simp add: skip_spaces_def)

definition clear :: "expr \<Rightarrow> string \<Rightarrow> bool" where
  "clear e rest \<longleftrightarrow> (ends_literal e \<longrightarrow> is_number_delimiter (cchar rest 0))"

lemma string_scan_escape: "string_scan start (escape s @ CHR 0x22 # r) = Inr (CHR 0x22 # r)"
  by (induction s) auto

lemma string_copy_escape: "string_copy (escape s) = filter (\<lambda>c. c \<noteq> CHR 0x0D) s"
  by (induction s) auto

lemma space_delimits: "is_space c \<Longrightarrow> is_number_delimiter c"
  by (auto simp: is_number_delimiter_def isdigit_def isalpha_def)

lemma number_start:
  assumes "number_ok n"
  shows "isdigit (cchar (number_text n @ r) 0) \<or> cchar (number_text n @ r) 0 = CHR ''.''"
proof -
  obtain ds fs ex su where n: "n = Number ds fs ex su" by (cases n)
  show ?thesis using assms by (cases ds) (auto simp: n split: option.splits)
qed

lemma number_char: "isdigit c \<or> c = CHR ''.'' \<Longrightarrow> \<not> is_space c \<and> c \<noteq> CHR ''('' \<and> c \<noteq> CHR 0x22 \<and> c \<noteq> CHR ''Z'' \<and>
    c \<noteq> CHR ''-'' \<and> c \<noteq> CHR ''n'' \<and> c \<noteq> CHR ''='' \<and> c \<noteq> CHR ''>'' \<and> c \<noteq> NUL"
  by (auto simp: isdigit_def)

lemma evaluate_number_number:
  assumes "number_ok n" "ends_number r" "ev_ptr st = number_text n @ r"
  shows "evaluate_number fp idx st = (number_value fp n, idx, set_ptr r st)"
proof -
  obtain ds fs ex su where n: "n = Number ds fs ex su" by (cases n)
  have z: "cchar (number_text n @ r) 0 \<noteq> CHR ''Z''" using number_start [OF assms(1), of r] number_char by blast
  then have "take (length ZBX_UNKNOWN_STR) (number_text n @ r) \<noteq> ZBX_UNKNOWN_STR"
    by (cases "number_text n @ r") (auto simp: ZBX_UNKNOWN_STR_def)
  moreover have "zbx_suffixed_number_parse (number_text n @ r) = Some (length (number_text n))"
    using zbx_suffixed_number_parse_number assms(1,2) unfolding n by blast
  moreover have "is_number_delimiter (cchar (number_text n @ r) (length (number_text n)))" using assms(2)
    by (simp add: cchar_append ends_number_def)
  ultimately show ?thesis using atof_scaled_number [OF assms(1,2), of fp] by (simp add: evaluate_number_def assms(3))
qed

lemma evaluate_number_unknown:
  assumes "all_digits ds" "ds \<noteq> []" "is_number_delimiter (cchar r 0)" "ev_ptr st = ZBX_UNKNOWN_STR @ ds @ r"
  shows "evaluate_number fp idx st = (MInf, int (dec_val ds), set_ptr r st)"
proof -
  have "takeWhile isdigit (ds @ r) = ds" by (rule takeWhile_all_digits [OF assms(1)]) (use assms(3) in \<open>simp add: is_number_delimiter_def\<close>)
  then show ?thesis using assms by (simp add: evaluate_number_def Let_def)
qed

lemma token_start:
  assumes "token_ok t"
  shows "isdigit (cchar (token_text t @ r) 0) \<or> cchar (token_text t @ r) 0 \<in> {CHR ''.'', CHR ''Z'', CHR 0x22}"
proof (cases t)
  case (TNumber n)
  then show ?thesis using assms number_start [of n r] by auto
qed (simp_all add: ZBX_UNKNOWN_STR_def)

lemma token_start_char:
  assumes "token_ok t"
  shows "\<not> is_space (cchar (token_text t @ r) 0) \<and> cchar (token_text t @ r) 0 \<notin> {CHR ''('', CHR ''-'', CHR ''n'', CHR ''='', CHR ''>'', NUL}"
  using token_start [OF assms, of r] by (auto simp: isdigit_def)

lemma term9_literal:
  assumes "all_spaces w" "token_ok t" "all_spaces w'" "clear (Literal w t w') rest" "\<not> is_space (cchar rest 0)"
    and "meaning fp (Literal w t w') = Some x" "ev_ptr st = expr_text (Literal w t w') @ rest"
  shows "yields x rest (ev_error st) (evaluate_term9 fp inner idx st)"
proof -
  define r where "r = w' @ rest"
  have delim: "is_number_delimiter (cchar r 0)"
    using assms(3,4) space_delimits by (cases w') (auto simp: r_def clear_def)
  have skip: "skip_spaces (set_ptr r st) = set_ptr rest st"
    using skip_spaces_at [of "set_ptr r st" w' rest] assms(3,5) by (simp add: r_def)
  have start: "skip_spaces st = set_ptr (token_text t @ r) st"
    using skip_spaces_at [of st w "token_text t @ r"] token_start_char [OF assms(2), of r] assms(1,7) by (simp add: r_def)
  show ?thesis
  proof (cases t)
    case (TString s)
    have p: "token_text t @ r = CHR 0x22 # escape s @ CHR 0x22 # r" by (simp add: TString)
    have "evaluate_string (set_ptr (escape s @ CHR 0x22 # r) st) = (VStr (filter (\<lambda>c. c \<noteq> CHR 0x0D) s), set_ptr (CHR 0x22 # r) st)"
      using string_scan_escape string_copy_escape by (simp add: evaluate_string_def)
    then show ?thesis using assms(6) start delim skip unfolding evaluate_term9_def p
      by (auto simp: TString yields_def)
  next
    case (TNumber n)
    then obtain c p where p: "token_text t @ r = c # p" "c \<noteq> CHR ''(''" "c \<noteq> CHR 0x22"
      using number_start [of n r] assms(2) number_char by (cases "token_text t @ r") auto
    have "evaluate_number fp idx (set_ptr (c # p) st) = (number_value fp n, idx, set_ptr r st)"
      using evaluate_number_number [of n r "set_ptr (token_text t @ r) st" fp idx] assms(2) delim
      unfolding p(1) [symmetric] by (simp add: TNumber ends_number_def)
    then show ?thesis using assms(6) start skip p(2,3) unfolding evaluate_term9_def p(1)
      by (cases "number_value fp n") (auto simp: TNumber yields_def)
  next
    case (TUnknown ds)
    obtain p where p: "token_text t @ r = CHR ''Z'' # p" by (simp add: TUnknown ZBX_UNKNOWN_STR_def)
    have "evaluate_number fp idx (set_ptr (CHR ''Z'' # p) st) = (MInf, int (dec_val ds), set_ptr r st)"
      using evaluate_number_unknown [of ds r "set_ptr (token_text t @ r) st" fp idx] assms(2) delim
      unfolding p [symmetric] by (simp add: TUnknown)
    then show ?thesis using assms(6) start skip unfolding evaluate_term9_def p
      by (auto simp: TUnknown yields_def)
  qed
qed

text \<open>A level that finds no sign of its own is the level above.\<close>

lemma term9_skip: "evaluate_term9 fp inner idx (skip_spaces st) = evaluate_term9 fp inner idx st"
  by (simp add: evaluate_term9_def Let_def)

lemma term8_skip: "cchar (dropWhile is_space (ev_ptr st)) 0 \<noteq> CHR ''-'' \<Longrightarrow> evaluate_term8 fp inner idx st = evaluate_term9 fp inner idx st"
  using term9_skip by (simp add: evaluate_term8_def Let_def) (simp add: skip_spaces_def)

lemma term8_spaces: "evaluate_term8 fp inner idx (skip_spaces st) = evaluate_term8 fp inner idx st"
  by (simp add: evaluate_term8_def Let_def)

lemma term7_skip: "cchar (dropWhile is_space (ev_ptr st)) 0 \<noteq> CHR ''n'' \<Longrightarrow> evaluate_term7 fp inner idx st = evaluate_term8 fp inner idx st"
  using term8_spaces by (simp add: evaluate_term7_def Let_def) (simp add: skip_spaces_def)

lemma level_at_unary: "level_at fp inner 9 = evaluate_term9 fp inner" "level_at fp inner 8 = evaluate_term8 fp inner"
  "level_at fp inner 7 = evaluate_term7 fp inner"
  by (simp_all add: level_at_def)

section \<open>The main induction\<close>

text \<open>The level at which an expression is read.\<close>

fun own_level :: "expr \<Rightarrow> nat" where
  "own_level (Literal w t w') = 9"
| "own_level (Paren w e w') = 9"
| "own_level (Minus w e) = 8"
| "own_level (Negation w e) = 7"
| "own_level (Binary op a b) = operator_level op"

lemma operator_level_binary: "operator_level op \<in> binary_levels"
  by (cases op) (simp_all add: binary_levels_def)

lemma expr_ok_level: "expr_ok k e \<Longrightarrow> k \<le> 9 \<Longrightarrow> k \<le> own_level e"
  by (cases e) auto

lemma expr_ok_own: "expr_ok k e \<Longrightarrow> expr_ok (own_level e) e"
  by (cases e) auto

lemma spaces_cases: "all_spaces w \<Longrightarrow> w = [] \<or> is_space (cchar (w @ t) 0)"
  by (cases w) auto

lemma expr_begin:
  assumes "expr_ok k e"
  shows "expr_text e \<noteq> [] \<and> cchar (expr_text e @ r) 0 \<notin> {CHR ''='', CHR ''>'', NUL}"
  using assms
proof (induction e arbitrary: k r)
  case (Literal w t w')
  then show ?case using token_start_char [of t "w' @ r"] token_start_char [of t "[]"] spaces_cases [of w "token_text t @ w' @ r"] by (cases w) auto
next
  case (Binary op a b)
  then show ?case using Binary.IH(1) [of "operator_level op" "operator_text op @ expr_text b @ r"] by simp
next
  case (Paren w e w')
  then show ?case using spaces_cases [of w "''('' @ expr_text e @ '')'' @ w' @ r"] by (cases w) auto
next
  case (Minus w e)
  then show ?case using spaces_cases [of w "''-'' @ expr_text e @ r"] by (cases w) auto
next
  case (Negation w e)
  then show ?case using spaces_cases [of w "''not'' @ expr_text e @ r"] by (cases w) auto
qed

lemma expr_begins: "expr_ok k e \<Longrightarrow> begins_operand (expr_text e @ r)"
  using expr_begin [of k e r] by (simp add: begins_operand_def)

lemma begins_delimited_append: "expr_ok k e \<Longrightarrow> begins_delimited (expr_text e) \<Longrightarrow> begins_delimited (expr_text e @ r)"
  using expr_begin [of k e] by (simp add: cchar_append) (simp add: cchar_def)

lemma follows_no_space: "follows k rest \<Longrightarrow> \<not> is_space (cchar rest 0)"
proof -
  have "\<not> is_space (cchar (operator_text op @ t) 0)" for op t by (cases op) auto
  then show "follows k rest \<Longrightarrow> ?thesis" by (auto simp: follows_def)
qed

lemma follows_mono: "follows k rest \<Longrightarrow> k \<le> j \<Longrightarrow> follows j rest"
  by (auto simp: follows_def intro: order_less_le_trans)

lemma start_nine:
  assumes "expr_ok k e" "own_level e = 9"
  shows "cchar (dropWhile is_space (expr_text e @ r)) 0 \<notin> {CHR ''-'', CHR ''n''}"
proof (cases e)
  case (Literal w t w')
  then show ?thesis using assms token_start_char [of t "w' @ r"] all_spaces_drop [of w "token_text t @ w' @ r"] by auto
next
  case (Paren w e' w')
  then show ?thesis using assms all_spaces_drop [of w "''('' @ expr_text e' @ '')'' @ w' @ r"] by simp
next
  case (Binary op a b)
  then show ?thesis using assms by (cases op) simp_all
qed (use assms in auto)

lemma start_eight:
  assumes "expr_ok k e" "own_level e = 8"
  shows "cchar (dropWhile is_space (expr_text e @ r)) 0 = CHR ''-''"
proof (cases e)
  case (Minus w e')
  then show ?thesis using assms all_spaces_drop [of w "''-'' @ expr_text e' @ r"] by simp
next
  case (Binary op a b)
  then show ?thesis using assms by (cases op) simp_all
qed (use assms in auto)

text \<open>From the level at which an expression is read down to the level at which it stands.\<close>

lemma own_level_le: "own_level e \<le> 9"
proof (cases e)
  case (Binary op a b)
  then show ?thesis by (cases op) simp_all
qed simp_all

lemma yields_down:
  assumes "\<And>idx. yields x rest err (level_at fp inner (own_level e) idx st)" "k \<le> own_level e" "1 \<le> k" "follows k rest"
    and "expr_ok i e" "ev_ptr st = expr_text e @ r"
  shows "yields x rest err (level_at fp inner k idx st)"
  using assms(2)
proof (induction arbitrary: idx rule: inc_induct)
  case (step l)
  have next_level: "\<And>idx. yields x rest err (level_at fp inner (l + 1) idx st)" using step.IH by simp
  have fl: "follows l rest" using follows_mono [OF assms(4)] step.hyps by simp
  consider "l \<in> binary_levels" | "l = 7" | "l = 8" using step.hyps assms(3) own_level_le [of e] unfolding binary_levels_def by force
  then show ?case
  proof cases
    case 1
    show ?thesis by (rule stands_stop [OF stands_begin [OF 1 next_level] look_none [OF fl order_refl 1]])
  next
    case 2
    have "own_level e = 8 \<or> own_level e = 9"
      using own_level_le [of e] step.hyps 2 by auto
    then have "cchar (dropWhile is_space (ev_ptr st)) 0 \<noteq> CHR ''n''"
      using start_eight [OF assms(5), of r] start_nine [OF assms(5), of r] unfolding assms(6) by auto
    then show ?thesis using next_level [of idx] 2 term7_skip [of st fp inner idx] by (simp add: level_at_unary)
  next
    case 3
    have "own_level e = 9" using own_level_le [of e] step.hyps 3 by auto
    then have "cchar (dropWhile is_space (ev_ptr st)) 0 \<noteq> CHR ''-''"
      using start_nine [OF assms(5), of r] unfolding assms(6) by auto
    then show ?thesis using next_level [of idx] 3 term8_skip [of st fp inner idx] by (simp add: level_at_unary)
  qed
qed (use assms(1) in simp)

definition reads :: "fp \<Rightarrow> nat \<Rightarrow> expr \<Rightarrow> bool" where
  "reads fp n e \<longleftrightarrow> (\<forall>rest st x idx. nesting e \<le> n \<longrightarrow> clear e rest \<longrightarrow> meaning fp e = Some x \<longrightarrow> ev_ptr st = expr_text e @ rest \<longrightarrow>
    (let r = level_at fp (evaluate_term1 fp n) (own_level e) idx st
     in if own_level e \<in> binary_levels
        then follows (own_level e + 1) rest \<longrightarrow> stands fp (evaluate_term1 fp n) (own_level e) x rest (ev_error st) r
        else follows (own_level e) rest \<longrightarrow> yields x rest (ev_error st) r))"

lemma reads_yields:
  assumes "reads fp n e" "expr_ok i e" "nesting e \<le> n" "clear e rest" "meaning fp e = Some x" "ev_ptr st = expr_text e @ rest"
    and "k \<le> own_level e" "1 \<le> k" "follows k rest"
  shows "yields x rest (ev_error st) (level_at fp (evaluate_term1 fp n) k idx st)"
proof (rule yields_down [OF _ assms(7-9,2,6)])
  fix idx
  have f: "follows (own_level e) rest" "follows (own_level e + 1) rest" using follows_mono [OF assms(9)] assms(7) by simp_all
  note r = assms(1) [unfolded reads_def Let_def, rule_format, OF assms(3-6)]
  show "yields x rest (ev_error st) (level_at fp (evaluate_term1 fp n) (own_level e) idx st)"
  proof (cases "own_level e \<in> binary_levels")
    case True
    show ?thesis
      by (rule stands_stop [OF _ look_none [OF f(1) order_refl True]]) (use r [of idx] f(2) True in simp)
  next
    case False
    then show ?thesis using r [of idx] f(1) by simp
  qed
qed

lemma reads_stands:
  assumes "reads fp n e" "expr_ok i e" "nesting e \<le> n" "clear e rest" "meaning fp e = Some x" "ev_ptr st = expr_text e @ rest"
    and "k \<le> own_level e" "k \<in> binary_levels" "follows (k + 1) rest"
  shows "stands fp (evaluate_term1 fp n) k x rest (ev_error st) (level_at fp (evaluate_term1 fp n) k idx st)"
proof (cases "k = own_level e")
  case True
  then show ?thesis using assms(1) [unfolded reads_def Let_def, rule_format, OF assms(3-6), of idx] assms(8,9) by simp
next
  case False
  show ?thesis
    by (rule stands_begin [OF assms(8)], rule reads_yields [OF assms(1-6)]) (use False assms(7,9) in simp_all)
qed

lemma inner_level: "evaluate_term1 fp (Suc m) = level_at fp (evaluate_term1 fp m) 1"
  by (intro ext) (simp add: level_at_def)

lemma reads_unaryI:
  assumes "own_level e \<in> {7, 8, 9}"
    and "\<And>rest st x idx. nesting e \<le> n \<Longrightarrow> clear e rest \<Longrightarrow> meaning fp e = Some x \<Longrightarrow> ev_ptr st = expr_text e @ rest \<Longrightarrow>
      follows (own_level e) rest \<Longrightarrow> yields x rest (ev_error st) (level_at fp (evaluate_term1 fp n) (own_level e) idx st)"
  shows "reads fp n e"
  using assms unfolding reads_def Let_def binary_levels_def by auto

text \<open>Parentheses, where the nesting grows, and the unary operators.\<close>

lemma reads_paren:
  assumes "all_spaces w" "expr_ok 1 e" "all_spaces w'" "\<And>n. reads fp n e"
  shows "reads fp n (Paren w e w')"
proof (rule reads_unaryI)
  fix rest x idx and st :: eval_state
  assume "nesting (Paren w e w') \<le> n" "meaning fp (Paren w e w') = Some x" "ev_ptr st = expr_text (Paren w e w') @ rest"
    "follows (own_level (Paren w e w')) rest"
  then have a: "Suc (nesting e) \<le> n" "meaning fp e = Some x" "ev_ptr st = w @ CHR ''('' # expr_text e @ CHR '')'' # w' @ rest" "follows 9 rest"
    by simp_all
  obtain m where n: "n = Suc m" "nesting e \<le> m" using a(1) by (cases n) auto
  define st0 where "st0 = set_ptr (expr_text e @ CHR '')'' # w' @ rest) st"
  have start: "skip_spaces st = set_ptr (CHR ''('' # expr_text e @ CHR '')'' # w' @ rest) st"
    by (rule skip_spaces_at [OF a(3) assms(1)]) simp
  have skip: "skip_spaces (set_ptr (w' @ rest) s) = set_ptr rest s" for s
    using skip_spaces_at [of "set_ptr (w' @ rest) s" w' rest] assms(3) follows_no_space [OF a(4)] by simp
  obtain v i s where o: "evaluate_term1 fp n idx st0 = (v, i, s)" by (cases "evaluate_term1 fp n idx st0") auto
  have "1 \<le> own_level e" using expr_ok_level [OF assms(2)] by simp
  then have y: "yields x (CHR '')'' # w' @ rest) (ev_error st0) (v, i, s)"
    unfolding o [symmetric] n(1) inner_level
    by (intro reads_yields [OF assms(4,2) n(2) _ a(2)]) (simp_all add: st0_def clear_def follows_def is_number_delimiter_def isdigit_def isalpha_def)
  have e: "evaluate_term9 fp (evaluate_term1 fp n) idx st =
    (if v = VDbl PInf then (v, i, s)
     else if cchar (ev_ptr s) 0 \<noteq> CHR '')'' then (VDbl PInf, i, set_error (Expected_Parenthesis (ev_ptr s)) s)
     else (v, i, skip_spaces (set_ptr (drop 1 (ev_ptr s)) s)))"
    using o by (simp add: evaluate_term9_def start st0_def)
  show "yields x rest (ev_error st) (level_at fp (evaluate_term1 fp n) (own_level (Paren w e w')) idx st)"
  proof (cases "x = SError")
    case True
    then show ?thesis using y by (simp add: e yields_def level_at_unary)
  next
    case False
    then have "v \<noteq> VDbl PInf" "ev_ptr s = CHR '')'' # w' @ rest" "ev_error s = ev_error st" "means x v i"
      using y means_error [of x v i] by (auto simp: yields_def st0_def)
    then show ?thesis by (simp add: e yields_def skip level_at_unary)
  qed
qed simp

lemma reads_minus:
  assumes "all_spaces w" "expr_ok 9 e" "reads fp n e"
  shows "reads fp n (Minus w e)"
proof (rule reads_unaryI)
  fix rest z idx and st :: eval_state
  assume a0: "nesting (Minus w e) \<le> n" "clear (Minus w e) rest" "meaning fp (Minus w e) = Some z" "ev_ptr st = expr_text (Minus w e) @ rest"
    "follows (own_level (Minus w e)) rest"
  have a: "nesting e \<le> n" "clear (Minus w e) rest" "ev_ptr st = w @ CHR ''-'' # expr_text e @ rest" "follows 8 rest" using a0 by simp_all
  obtain x y where x: "meaning fp e = Some x" "as_number fp x = Some y" and z: "z = (case y of SNumber q \<Rightarrow> SNumber (- q) | _ \<Rightarrow> y)"
    using a0(3) by (auto simp: bind_eq_Some_conv)
  define st0 where "st0 = set_ptr (expr_text e @ rest) st"
  have start: "skip_spaces st = set_ptr (CHR ''-'' # expr_text e @ rest) st" by (rule skip_spaces_at [OF a(3) assms(1)]) simp
  obtain v i s where o: "evaluate_term9 fp (evaluate_term1 fp n) idx st0 = (v, i, s)" by (cases "evaluate_term9 fp (evaluate_term1 fp n) idx st0") auto
  have "9 \<le> own_level e" using expr_ok_level [OF assms(2)] by simp
  then have y: "yields x rest (ev_error st0) (v, i, s)"
    unfolding o [symmetric] level_at_unary(1) [symmetric]
    by (intro reads_yields [OF assms(3,2) a(1) _ x(1)]) (use a(2) follows_mono [OF a(4)] in \<open>simp_all add: st0_def clear_def\<close>)
  then have m: "means x v i" by (simp add: yields_def)
  obtain d s' where c: "variant_convert_to_double fp v s = (d, s')" "means y (VDbl d) i" "y \<noteq> SError \<longrightarrow> s' = s"
    using convert_means [OF m x(2)] by blast
  have e: "evaluate_term8 fp (evaluate_term1 fp n) idx st =
      (if d = MInf \<or> d = PInf then (VDbl d, i, s') else (VDbl (dbl_neg d), i, s'))"
    using o c(1) by (simp add: evaluate_term8_def start st0_def)
  have "x = SError \<longrightarrow> y = SError" using x(2) by auto
  then show "yields z rest (ev_error st) (level_at fp (evaluate_term1 fp n) (own_level (Minus w e)) idx st)"
    using y c(2,3) as_number_form [OF x(2)] by (auto simp: e z level_at_unary yields_def st0_def)
qed simp

lemma reads_negation:
  assumes "all_spaces w" "expr_ok 8 e" "begins_delimited (expr_text e)" "reads fp n e"
  shows "reads fp n (Negation w e)"
proof (rule reads_unaryI)
  fix rest z idx and st :: eval_state
  assume a0: "nesting (Negation w e) \<le> n" "clear (Negation w e) rest" "meaning fp (Negation w e) = Some z" "ev_ptr st = expr_text (Negation w e) @ rest"
    "follows (own_level (Negation w e)) rest"
  have a: "nesting e \<le> n" "clear (Negation w e) rest" "ev_ptr st = w @ CHR ''n'' # CHR ''o'' # CHR ''t'' # expr_text e @ rest" "follows 7 rest" using a0 by simp_all
  obtain x y where x: "meaning fp e = Some x" "as_number fp x = Some y" and z: "z = (case y of SNumber q \<Rightarrow> sbool (\<not> truth fp q) | _ \<Rightarrow> y)"
    using a0(3) by (auto simp: bind_eq_Some_conv)
  define st0 where "st0 = set_ptr (expr_text e @ rest) st"
  have start: "skip_spaces st = set_ptr (CHR ''n'' # CHR ''o'' # CHR ''t'' # expr_text e @ rest) st"
    by (rule skip_spaces_at [OF a(3) assms(1)]) simp
  obtain v i s where o: "evaluate_term8 fp (evaluate_term1 fp n) idx st0 = (v, i, s)" by (cases "evaluate_term8 fp (evaluate_term1 fp n) idx st0") auto
  have "8 \<le> own_level e" using expr_ok_level [OF assms(2)] by simp
  then have y: "yields x rest (ev_error st0) (v, i, s)"
    unfolding o [symmetric] level_at_unary(2) [symmetric]
    by (intro reads_yields [OF assms(4,2) a(1) _ x(1)]) (use a(2) follows_mono [OF a(4)] in \<open>simp_all add: st0_def clear_def\<close>)
  then have m: "means x v i" by (simp add: yields_def)
  obtain d s' where c: "variant_convert_to_double fp v s = (d, s')" "means y (VDbl d) i" "y \<noteq> SError \<longrightarrow> s' = s"
    using convert_means [OF m x(2)] by blast
  have e: "evaluate_term7 fp (evaluate_term1 fp n) idx st =
      (if d = MInf \<or> d = PInf then (VDbl d, i, s') else (VDbl (dbl_of_bool (zbx_double_compare fp d (Num 0))), i, s'))"
    using o c(1) begins_delimited_append [OF assms(2,3), of rest]
    by (simp add: evaluate_term7_def start st0_def Let_def numeral_3_eq_3 del: cchar_numerals) (simp add: numeral_2_eq_2)?
  have "x = SError \<longrightarrow> y = SError" using x(2) by auto
  then show "yields z rest (ev_error st) (level_at fp (evaluate_term1 fp n) (own_level (Negation w e)) idx st)"
    using y c(2,3) as_number_form [OF x(2)] by (auto simp: e z level_at_unary yields_def st0_def sbool_def dbl_of_bool_def truth_def)
qed simp

text \<open>Binary operators: the left operand is read by the loop of the same level.\<close>

lemma reads_binary:
  assumes fp: "fp_ok fp" and op: "expr_ok (operator_level op) a" "expr_ok (operator_level op + 1) b"
    and word: "is_word op \<longrightarrow> \<not> ends_literal a \<and> begins_delimited (expr_text b)" and ops: "reads fp n a" "reads fp n b"
  shows "reads fp n (Binary op a b)"
  unfolding reads_def Let_def
proof (intro allI impI)
  fix rest z idx and st :: eval_state
  define k where "k = operator_level op"
  define inner where "inner = evaluate_term1 fp n"
  assume n: "nesting (Binary op a b) \<le> n" and c: "clear (Binary op a b) rest" and m: "meaning fp (Binary op a b) = Some z"
    and p: "ev_ptr st = expr_text (Binary op a b) @ rest"
  have k: "k \<in> binary_levels" "1 \<le> k" "k \<le> 6" by (cases op; simp add: k_def binary_levels_def)+
  have own: "k \<le> own_level a" "k + 1 \<le> own_level b" using expr_ok_level op k(3) unfolding k_def by auto
  define t where "t = expr_text b @ rest"
  have begins: "begins_operand t" "is_word op \<longrightarrow> begins_delimited t"
    using expr_begins [OF op(2)] begins_delimited_append [OF op(2)] word by (simp_all add: t_def)
  obtain x y where x: "meaning fp a = Some x" and y: "meaning fp b = Some y"
    using m by (auto simp: bind_eq_Some_conv)
  show "if own_level (Binary op a b) \<in> binary_levels
      then follows (own_level (Binary op a b) + 1) rest \<longrightarrow>
        stands fp (evaluate_term1 fp n) (own_level (Binary op a b)) z rest (ev_error st)
          (level_at fp (evaluate_term1 fp n) (own_level (Binary op a b)) idx st)
      else follows (own_level (Binary op a b)) rest \<longrightarrow>
        yields z rest (ev_error st) (level_at fp (evaluate_term1 fp n) (own_level (Binary op a b)) idx st)"
    unfolding own_level.simps k_def [symmetric] inner_def [symmetric] if_P [OF k(1)]
  proof
    assume f: "follows (k + 1) rest"
    have "stands fp inner k x (operator_text op @ t) (ev_error st) (level_at fp inner k idx st)"
      unfolding inner_def
    proof (rule reads_stands [OF ops(1) op(1) _ _ x _ own(1) k(1)])
      show "clear a (operator_text op @ t)" using word
        by (cases op) (auto simp: clear_def is_number_delimiter_def isdigit_def isalpha_def)
      show "follows (k + 1) (operator_text op @ t)" using begins by (auto simp: follows_def k_def)
    qed (use n p in \<open>simp_all add: t_def\<close>)
    moreover have look: "look_at k (operator_text op @ t) = Some (op, t)" unfolding k_def by (rule look_operator [OF begins])
    moreover have operand: "yields y rest (ev_error st') (level_at fp inner (k + 1) idx' st')" if "ev_ptr st' = t" for idx' st'
      unfolding inner_def by (rule reads_yields [OF ops(2) op(2) _ _ y _ own(2) _ f]) (use n c that in \<open>simp_all add: t_def clear_def\<close>)
    ultimately show "stands fp inner k z rest (ev_error st) (level_at fp inner k idx st)"
    proof (cases "op = Eq \<or> op = Ne")
      case True
      then have k3: "k = 3" by (auto simp: k_def)
      have z: "z = apply_equality fp (op = Eq) x y" using m x y True by simp
      show ?thesis unfolding z k3
        by (rule stands_equality [OF fp True]) (use \<open>stands fp inner k x _ _ _\<close> look operand in \<open>simp_all add: k3\<close>)
    next
      case False
      obtain x' y' where conv: "as_number fp x = Some x'" "as_number fp y = Some y'" "apply_operator fp op x' y' = Some z"
        using m x y False by (auto simp: bind_eq_Some_conv)
      have "k \<noteq> 3" using False by (cases op) (simp_all add: k_def)
      from stands_step [OF k_def [symmetric] this \<open>stands fp inner k x _ _ _\<close> look operand conv] show ?thesis .
    qed
  qed
qed

theorem reads_expr:
  assumes "fp_ok fp" "expr_ok i e"
  shows "reads fp n e"
  using assms(2)
proof (induction e arbitrary: i n)
  case (Literal w t w')
  show ?case
  proof (rule reads_unaryI)
    fix rest x idx and st :: eval_state
    assume a: "clear (Literal w t w') rest" "meaning fp (Literal w t w') = Some x" "ev_ptr st = expr_text (Literal w t w') @ rest"
      "follows (own_level (Literal w t w')) rest"
    then have "yields x rest (ev_error st) (evaluate_term9 fp (evaluate_term1 fp n) idx st)"
      using Literal by (intro term9_literal follows_no_space [OF a(4)]) simp_all
    then show "yields x rest (ev_error st) (level_at fp (evaluate_term1 fp n) (own_level (Literal w t w')) idx st)"
      by (simp add: level_at_unary)
  qed simp
next
  case (Paren w e w')
  then show ?case by (intro reads_paren) (auto simp del: One_nat_def)
next
  case (Minus w e)
  then show ?case by (intro reads_minus) auto
next
  case (Negation w e)
  then show ?case by (intro reads_negation) auto
next
  case (Binary op a b)
  then show ?case by (intro reads_binary [OF assms(1)]) auto
qed

section \<open>What the evaluator answers\<close>

text \<open>The first term reads the whole text of an expression.\<close>

lemma evaluate_term1_expr:
  assumes "fp_ok fp" "expr_ok 1 e" "nesting e < MAX_LEVEL" "meaning fp e = Some x"
  shows "yields x [] None (evaluate_term1 fp MAX_LEVEL idx (initial_state (expr_text e)))"
proof -
  have m: "MAX_LEVEL = Suc 31" by (simp add: MAX_LEVEL_def)
  have "yields x [] (ev_error (initial_state (expr_text e))) (level_at fp (evaluate_term1 fp 31) 1 idx (initial_state (expr_text e)))"
    by (rule reads_yields [OF reads_expr [OF assms(1,2)] assms(2) _ _ assms(4)])
      (use assms(3) expr_ok_level [OF assms(2)] in \<open>simp_all add: m clear_def follows_def initial_state_def is_number_delimiter_def isdigit_def isalpha_def\<close>)
  then show ?thesis unfolding m inner_level by (simp add: initial_state_def)
qed

text \<open>The answer that belongs to a meaning. A string is converted at the end.\<close>

definition unknown_error :: "string list option \<Rightarrow> int \<Rightarrow> eval_error" where
  "unknown_error unknown_msgs i = (case unknown_msgs of
     None \<Rightarrow> Internal_No_Message
   | Some msgs \<Rightarrow> if i < int (length msgs) then Unknown_Message (msgs ! nat i) else Unsupported_Unknown i)"

definition answers :: "fp \<Rightarrow> string list option \<Rightarrow> sval \<Rightarrow> eval_error option + dbl \<Rightarrow> bool" where
  "answers fp unknown_msgs x r \<longleftrightarrow> (case x of
     SNumber q \<Rightarrow> r = Inr (Num q)
   | SUnknown i \<Rightarrow> r = Inl (Some (unknown_error unknown_msgs i))
   | SError \<Rightarrow> \<exists>e. r = Inl e
   | SString s \<Rightarrow> if s = [] then r = Inl (Some Unexpected_End)
       else case evaluate_string_to_double fp s of
         Num q \<Rightarrow> r = Inr (Num q) | PInf \<Rightarrow> r = Inl (Some (Not_Numeric s)) | MInf \<Rightarrow> \<exists>e. r = Inl e)"

lemma meaning_index: "meaning fp e = Some (SUnknown i) \<Longrightarrow> 0 \<le> i"
proof (induction e arbitrary: i)
  case (Literal w t w')
  have "sval_of d \<noteq> Some (SUnknown i)" for d by (cases d) auto
  then show ?case using Literal by (cases t) auto
next
  case (Minus w e)
  obtain x y where m: "meaning fp e = Some x" "as_number fp x = Some y" "(case y of SNumber q \<Rightarrow> SNumber (- q) | _ \<Rightarrow> y) = SUnknown i"
    using Minus.prems by (auto simp: bind_eq_Some_conv)
  then have "y = SUnknown i" by (cases y) (auto simp: sbool_def)
  with m have "meaning fp e = Some (SUnknown i)" using as_number_unknown by blast
  then show ?case by (rule Minus.IH)
next
  case (Negation w e)
  obtain x y where m: "meaning fp e = Some x" "as_number fp x = Some y" "(case y of SNumber q \<Rightarrow> sbool (\<not> truth fp q) | _ \<Rightarrow> y) = SUnknown i"
    using Negation.prems by (auto simp: bind_eq_Some_conv)
  then have "y = SUnknown i" by (cases y) (auto simp: sbool_def)
  with m have "meaning fp e = Some (SUnknown i)" using as_number_unknown by blast
  then show ?case by (rule Negation.IH)
next
  case (Binary op a b)
  obtain x y where m: "meaning fp a = Some x" "meaning fp b = Some y" using Binary.prems by (auto simp: bind_eq_Some_conv)
  have "x = SUnknown i \<or> y = SUnknown i"
  proof (cases "op = Eq \<or> op = Ne")
    case True
    then have "apply_equality fp (op = Eq) x y = SUnknown i" using Binary.prems m by simp
    then show ?thesis by (cases x; cases y) (auto simp: sbool_def)
  next
    case False
    then obtain x' y' where c: "as_number fp x = Some x'" "as_number fp y = Some y'" "apply_operator fp op x' y' = Some (SUnknown i)"
      using Binary.prems m by (auto simp: bind_eq_Some_conv)
    then have "x' = SUnknown i \<or> y' = SUnknown i" using apply_operator_unknown by blast
    then show ?thesis using c(1,2) as_number_unknown by blast
  qed
  then show ?case using Binary.IH m by blast
qed simp

text \<open>C4. The evaluator gives every expression of the grammar, with at most 31 parentheses inside one another, its
  meaning: operators bind by their level and group from the left, unknown values pass through as the comments of the
  terms say, and the message that belongs to the unknown value is the error that is reported.\<close>

theorem evaluate_meaning:
  assumes "fp_ok fp" "expr_ok 1 e" "nesting e < MAX_LEVEL" "meaning fp e = Some x"
  shows "answers fp unknown_msgs x (evaluate fp (expr_text e) unknown_msgs)"
proof -
  obtain v i st where o: "evaluate_term1 fp MAX_LEVEL (- 13) (initial_state (expr_text e)) = (v, i, st)"
    by (cases "evaluate_term1 fp MAX_LEVEL (- 13) (initial_state (expr_text e))") auto
  have m: "means x v i" "x \<noteq> SError \<Longrightarrow> ev_ptr st = []" using evaluate_term1_expr [OF assms, of "- 13"] o by (simp_all add: yields_def)
  show ?thesis
  proof (cases x)
    case (SUnknown j)
    then show ?thesis using m meaning_index [of fp e j] assms(4)
      by (auto simp: answers_def unknown_error_def evaluate_def o rest_check_def variant_convert_to_double_def split: option.splits)
  next
    case (SString s)
    then show ?thesis using m
      by (auto simp: answers_def evaluate_def o rest_check_def variant_convert_to_double_def set_error_def Let_def split: dbl.splits)
  qed (use m in \<open>auto simp: answers_def evaluate_def o rest_check_def variant_convert_to_double_def split: option.splits\<close>)
qed

text \<open>The variant for expressions whose result may be unknown answers with the number, or with the code for unknown.\<close>

theorem evaluate_unknown_meaning:
  assumes "fp_ok fp" "expr_ok 1 e" "nesting e < MAX_LEVEL" "meaning fp e = Some x" "as_number fp x = Some y"
  shows "case y of SNumber q \<Rightarrow> evaluate_unknown fp (expr_text e) = Inr (Num q)
    | SUnknown i \<Rightarrow> evaluate_unknown fp (expr_text e) = Inr ZBX_UNKNOWN
    | _ \<Rightarrow> \<exists>err. evaluate_unknown fp (expr_text e) = Inl err"
proof -
  obtain v i st where o: "evaluate_term1 fp MAX_LEVEL (- 13) (initial_state (expr_text e)) = (v, i, st)"
    by (cases "evaluate_term1 fp MAX_LEVEL (- 13) (initial_state (expr_text e))") auto
  have m: "means x v i" "x \<noteq> SError \<Longrightarrow> ev_ptr st = []" using evaluate_term1_expr [OF assms(1-4), of "- 13"] o by (simp_all add: yields_def)
  obtain d st' where c: "variant_convert_to_double fp v st = (d, st')" "means y (VDbl d) i" "y \<noteq> SError \<longrightarrow> st' = st"
    using convert_means [OF m(1) assms(5)] by blast
  have "ev_ptr st = []" if "y \<noteq> SError" using assms(5) m(2) that by (cases "x = SError") auto
  then show ?thesis using c as_number_form [OF assms(5)] by (auto simp: evaluate_unknown_def o rest_check_def)
qed

definition exact_fp :: fp where
  "exact_fp = \<lparr>fp_round = Num, fp_epsilon = 1 / 1000000\<rparr>"

definition demo_expr :: expr where
  "demo_expr = Binary Or
    (Binary Gt
      (Binary Add (Literal [] (TNumber (Number ''1'' None None (Some CHR ''K''))) [])
        (Binary Mul (Literal [] (TNumber (Number ''2'' (Some ''5'') None None)) [])
          (Paren [] (Binary Sub (Literal [] (TNumber (Number ''3'' None None None)) []) (Literal [] (TString ''5'') [])) [])))
      (Literal [] (TNumber (Number ''1'' None (Some (CHR ''e'', [], ''3'')) None)) '' ''))
    (Literal '' '' (TUnknown ''0'') [])"

lemma exact_fp_ok: "fp_ok exact_fp"
  by (simp add: fp_ok_def exact_fp_def)

lemma demo_expr_text: "expr_text demo_expr = ''1K+2.5*(3-'' @ [CHR 0x22] @ ''5'' @ [CHR 0x22] @ '')>1e3 or ZBX_UNKNOWN0''"
  by code_simp

lemma demo_expr_ok: "expr_ok 1 demo_expr" "nesting demo_expr < MAX_LEVEL"
  by code_simp+

lemma demo_expr_meaning: "meaning exact_fp demo_expr = Some (SNumber 1)"
  by code_simp

theorem evaluate_meaning_witness:
  "evaluate exact_fp (''1K+2.5*(3-'' @ [CHR 0x22] @ ''5'' @ [CHR 0x22] @ '')>1e3 or ZBX_UNKNOWN0'') (Some [''no data'']) = Inr (Num 1)"
  using evaluate_meaning [OF exact_fp_ok demo_expr_ok demo_expr_meaning, of "Some [''no data'']"]
  unfolding demo_expr_text by (simp add: answers_def)

theorem evaluate_unknown_meaning_witness:
  "evaluate_unknown exact_fp ''not ZBX_UNKNOWN2'' = Inr ZBX_UNKNOWN"
proof -
  define e where "e = Negation [] (Literal '' '' (TUnknown ''2'') [])"
  have "expr_ok 1 e" "nesting e < MAX_LEVEL" "meaning exact_fp e = Some (SUnknown 2)" "expr_text e = ''not ZBX_UNKNOWN2''"
    unfolding e_def by code_simp+
  then show ?thesis using evaluate_unknown_meaning [OF exact_fp_ok, of e "SUnknown 2"] by simp
qed

section \<open>Overflow\<close>

lemma level_unknown:
  assumes "k \<in> {1, 2, 3, 4, 5}" "\<And>idx. level_at fp inner (k + 1) idx st = (VDbl MInf, f idx, st')" "ev_ptr st' = []"
  shows "level_at fp inner k idx st = (VDbl MInf, f (1 - 2 * (7 - int k)), st')"
proof -
  have k: "k \<in> binary_levels" using assms(1) by (auto simp: binary_levels_def)
  have "loop_end (while (loop_goes (look_at k)) (body_at fp inner k) (False, VDbl MInf, ri, oi, ui, st')) = (VDbl MInf, ui, st')" for ri oi ui
    using run_stop [of k st' fp inner] assms(3) by (simp add: run_at_def look_at_def look_defs)
  then show ?thesis unfolding level_at_binary [OF k] binary_level_def assms(2) by simp
qed

lemma level_product:
  assumes fp: "fp_ok fp" and f: "expr_ok 7 f" "nesting f \<le> n" "meaning fp f = Some (SNumber a)"
    and g: "expr_ok 7 g" "nesting g \<le> n" "meaning fp g = Some (SNumber b)"
    and p: "ev_ptr st = expr_text f @ CHR ''*'' # expr_text g"
  shows "\<exists>st'. ev_ptr st' = [] \<and> ev_error st' = ev_error st \<and>
    (\<forall>idx. level_at fp (evaluate_term1 fp n) 6 idx st = (VDbl (fp_round fp (a * b)), idx, st'))"
proof -
  define inner where "inner = evaluate_term1 fp n"
  define t where "t = CHR ''*'' # expr_text g"
  have own: "7 \<le> own_level f" "7 \<le> own_level g" using expr_ok_level f(1) g(1) by simp_all
  have "begins_operand (expr_text g)" using expr_begins [OF g(1), of "[]"] by simp
  then have follow: "follows 7 t" unfolding follows_def by (intro disjI2 exI [of _ Mul] exI [of _ "expr_text g"]) (simp add: t_def)
  have "clear f t" by (simp add: clear_def t_def is_number_delimiter_def isdigit_def isalpha_def)
  then have "yields (SNumber a) t (ev_error st) (level_at fp inner 7 (- 1) st)"
    unfolding inner_def by (intro reads_yields [OF reads_expr [OF fp f(1)] f(1,2) _ f(3) _ own(1) _ follow]) (simp_all add: p t_def)
  then obtain ri st1 where l: "level_at fp inner 7 (- 1) st = (VDbl (Num a), ri, st1)" "ev_ptr st1 = t" "ev_error st1 = ev_error st"
    by (cases "level_at fp inner 7 (- 1) st") (simp add: yields_def)
  have "yields (SNumber b) [] (ev_error st1) (level_at fp inner 7 (- 2) (set_ptr (expr_text g) st1))"
    using reads_yields [OF reads_expr [OF fp g(1)] g(1,2) _ g(3), of "[]" "set_ptr (expr_text g) st1" 7] own(2)
    by (simp add: inner_def clear_def is_number_delimiter_def isdigit_def isalpha_def follows_def)
  then obtain oi st2 where r: "level_at fp inner 7 (- 2) (set_ptr (expr_text g) st1) = (VDbl (Num b), oi, st2)"
      "ev_ptr st2 = []" "ev_error st2 = ev_error st"
    by (cases "level_at fp inner 7 (- 2) (set_ptr (expr_text g) st1)") (simp add: yields_def l(3))
  have look: "look_at 6 t = Some (Mul, expr_text g)" by (simp add: look_at_def find_term6_def t_def)
  have "body_at fp inner 6 (False, VDbl (Num a), ri, - 2, idx, st1) = (False, VDbl (fp_round fp (a * b)), ri, oi, idx, st2)" for idx
    using look r(1) by (simp add: body_at_def binary_body_def l(2) variant_convert_to_double_def merge_at_def merge_term6_def)
  then have "run_at fp inner 6 (False, VDbl (Num a), ri, - 2, idx, st1) = (VDbl (fp_round fp (a * b)), idx, st2)" for idx
    using run_step [of 6 st1 fp inner "VDbl (Num a)" ri "- 2" idx] run_stop [of 6 st2 fp inner] look
    by (simp add: l(2) r(2)) (simp add: look_at_def find_term6_def)
  then have "level_at fp inner 6 idx st = (VDbl (fp_round fp (a * b)), idx, st2)" for idx
    using level_at_binary [of 6 fp inner] l(1) by (simp add: binary_levels_def binary_level_def run_at_def)
  then show ?thesis unfolding inner_def using r(2,3) by blast
qed

text \<open>C37. A product that overflows below is taken for an unknown value, whose index then is the one that marks it as
  unset: the evaluator reports an internal error. A product that overflows above fails and leaves the buffer for the
  error message as it was.\<close>

theorem evaluate_overflow:
  assumes "fp_ok fp" "expr_ok 7 f" "nesting f < MAX_LEVEL" "expr_ok 7 g" "nesting g < MAX_LEVEL"
    and "meaning fp f = Some (SNumber a)" "meaning fp g = Some (SNumber b)"
  shows "evaluate fp (expr_text (Binary Mul f g)) (Some msgs) = (case fp_round fp (a * b) of
    MInf \<Rightarrow> Inl (Some (Internal_Index (- 3))) | PInf \<Rightarrow> Inl None | Num q \<Rightarrow> Inr (Num q))"
proof -
  define st where "st = initial_state (expr_text f @ CHR ''*'' # expr_text g)"
  have m: "MAX_LEVEL = Suc 31" by (simp add: MAX_LEVEL_def)
  define inner where "inner = evaluate_term1 fp 31"
  have nest: "nesting f \<le> 31" "nesting g \<le> 31" using assms(3,5) by (simp_all add: m)
  have sp: "ev_ptr st = expr_text f @ CHR ''*'' # expr_text g" by (simp add: st_def initial_state_def)
  obtain st' where s: "ev_ptr st' = []" "ev_error st' = None" and l6: "\<And>idx. level_at fp inner 6 idx st = (VDbl (fp_round fp (a * b)), idx, st')"
    using level_product [OF assms(1,2) nest(1) assms(6,4) nest(2) assms(7) sp] unfolding inner_def by (auto simp: st_def initial_state_def)
  have top: "evaluate_term1 fp MAX_LEVEL (- 13) st = level_at fp inner 1 (- 13) st" unfolding m inner_level inner_def ..
  show ?thesis
  proof (cases "fp_round fp (a * b)")
    case MInf
    note l6 = l6 [unfolded MInf]
    have l5: "level_at fp inner 5 idx st = (VDbl MInf, - 3, st')" for idx
      using level_unknown [of 5 fp inner st "\<lambda>i. i" st' idx] l6 s(1) by simp
    have "level_at fp inner k idx st = (VDbl MInf, - 3, st')" if "k \<le> 5" "1 \<le> k" for k idx
      using that
    proof (induction arbitrary: idx rule: inc_induct)
      case (step k)
      have "k = 1 \<or> k = 2 \<or> k = 3 \<or> k = 4" using step.hyps step.prems by arith
      then show ?case using level_unknown [of k fp inner st "\<lambda>i. - 3" st' idx] step s(1) by auto
    qed (use l5 in simp)
    from this [of 1 "- 13"] have "level_at fp inner 1 (- 13) st = (VDbl MInf, - 3, st')" by simp
    then show ?thesis using top s MInf
      by (simp add: evaluate_def st_def variant_convert_to_double_def rest_check_def)
  next
    case other: (Num q)
    have l6: "yields (SNumber q) [] None (level_at fp inner 6 idx st)" for idx using l6 [unfolded other] s by (simp add: yields_def)
    have up: "(\<And>idx. yields (SNumber q) [] None (level_at fp inner (k + 1) idx st)) \<Longrightarrow> yields (SNumber q) [] None (level_at fp inner k idx st)"
      if "k \<in> binary_levels" for k idx
      by (rule stands_stop [OF stands_begin [OF that] look_none [OF _ order_refl that]]) (simp_all add: follows_def)
    have "yields (SNumber q) [] None (level_at fp inner k idx st)" if "k \<le> 6" "1 \<le> k" for k idx
      using that by (induction arbitrary: idx rule: inc_induct) (use l6 in simp, rule up, auto simp: binary_levels_def)
    from this [of 1 "- 13"] have "yields (SNumber q) [] None (level_at fp inner 1 (- 13) st)" by simp
    then show ?thesis using top other
      by (cases "level_at fp inner 1 (- 13) st") (auto simp: evaluate_def st_def yields_def variant_convert_to_double_def rest_check_def)
  next
    case PInf
    have up: "(\<And>idx. level_at fp inner (k + 1) idx st = (VDbl PInf, idx, st')) \<Longrightarrow> level_at fp inner k idx st = (VDbl PInf, idx, st')"
      if "k \<in> binary_levels" for k idx
      unfolding level_at_binary [OF that] binary_level_def by simp
    have "level_at fp inner k idx st = (VDbl PInf, idx, st')" if "k \<le> 6" "1 \<le> k" for k idx
      using that by (induction arbitrary: idx rule: inc_induct) (use l6 [unfolded PInf] in simp, rule up, auto simp: binary_levels_def)
    from this [of 1 "- 13"] have "level_at fp inner 1 (- 13) st = (VDbl PInf, - 13, st')" by simp
    then show ?thesis using top s PInf
      by (simp add: evaluate_def st_def variant_convert_to_double_def rest_check_def)
  qed
qed

text \<open>Rational arithmetic with the range of a double.\<close>

definition ranged_fp :: fp where
  "ranged_fp = \<lparr>fp_round = (\<lambda>q. if 2 ^ 1024 \<le> q then PInf else if q \<le> - (2 ^ 1024) then MInf else Num q), fp_epsilon = 1 / 1000000\<rparr>"

theorem evaluate_overflow_witness:
  "evaluate ranged_fp ''-1e200*1e200'' (Some []) = Inl (Some (Internal_Index (- 3)))"
proof -
  define g where "g = Literal [] (TNumber (Number ''1'' None (Some (CHR ''e'', [], ''200'')) None)) []"
  define f where "f = Minus [] g"
  have ok: "fp_ok ranged_fp" by (simp add: fp_ok_def ranged_fp_def)
  have g: "expr_ok 7 g" "nesting g < MAX_LEVEL" unfolding g_def by code_simp+
  have f: "expr_ok 7 f" "nesting f < MAX_LEVEL" unfolding f_def g_def by code_simp+
  have v: "digit_val CHR ''0'' = 0" "digit_val CHR ''1'' = 1" "digit_val CHR ''2'' = 2" by code_simp+
  have mg: "meaning ranged_fp g = Some (SNumber (10 ^ 200))" unfolding g_def by (simp add: v ranged_fp_def Let_def)
  have mf: "meaning ranged_fp f = Some (SNumber (- (10 ^ 200)))" unfolding f_def using mg by simp
  have "expr_text (Binary Mul f g) = ''-1e200*1e200''" unfolding f_def g_def by simp
  then show ?thesis using evaluate_overflow [OF ok f g mf mg, of "[]"] by (simp add: ranged_fp_def)
qed

end
