(* ===== verification/Utf8.thy ===== *)
theory Utf8
  imports Prelude
begin

text \<open>
  Texts in UTF-8 (\<open>src/libs/zbxcommon/str.c\<close>): counting and cutting by characters, the check of a text, and the
  replacement of invalid sequences in place. A text is the list of its bytes, ended by a NUL behind the list.
\<close>

unbundle bit_operations_syntax

section \<open>Counting and cutting\<close>

definition byte :: "u8 list \<Rightarrow> nat \<Rightarrow> u8" where
  "byte t i = (if i < length t then t ! i else 0)"

fun zbx_strlen_utf8 :: "u8 list \<Rightarrow> nat" where
  "zbx_strlen_utf8 [] = 0"
| "zbx_strlen_utf8 (b # t) = (if 0x80 \<noteq> 0xc0 AND b then 1 else 0) + zbx_strlen_utf8 t"

definition zbx_utf8_char_len :: "u8 list \<Rightarrow> nat" where
  "zbx_utf8_char_len t =
    (let b = byte t 0
     in if b AND 0x80 = 0 then 1 else if b AND 0xe0 = 0xc0 then 2 else if b AND 0xf0 = 0xe0 then 3
        else if b AND 0xf8 = 0xf0 then 4 else 0)"

text \<open>A text that ends within its last sequence counts up to that sequence.\<close>

function zbx_strlen_utf8_nchars :: "u8 list \<Rightarrow> nat \<Rightarrow> nat" where
  "zbx_strlen_utf8_nchars t utf8_maxlen =
    (let csz = zbx_utf8_char_len t
     in if t = [] \<or> utf8_maxlen = 0 \<or> csz = 0 then 0
        else if length t < csz then 0
        else csz + zbx_strlen_utf8_nchars (drop csz t) (utf8_maxlen - 1))"
  by pat_completeness auto
termination by (relation "measure (\<lambda>(t, n). n)") auto

declare zbx_strlen_utf8_nchars.simps [simp del]

fun cut_back :: "u8 list \<Rightarrow> nat \<Rightarrow> nat" where
  "cut_back t 0 = 0"
| "cut_back t (Suc sz) = (if 0xc0 AND byte t (Suc sz) = 0x80 then cut_back t sz else Suc sz)"

definition zbx_strlen_utf8_nbytes :: "u8 list \<Rightarrow> nat \<Rightarrow> nat" where
  "zbx_strlen_utf8_nbytes t maxlen = (if maxlen < length t then cut_back t maxlen else length t)"

fun charcount_loop :: "u8 list \<Rightarrow> nat \<Rightarrow> nat" where
  "charcount_loop [] maxlen = 0"
| "charcount_loop (b # t) maxlen =
    (if maxlen = 0 then 0 else (if 0x80 \<noteq> 0xc0 AND b then 1 else 0) + charcount_loop t (maxlen - 1))"

definition zbx_charcount_utf8_nbytes :: "u8 list \<Rightarrow> nat \<Rightarrow> nat" where
  "zbx_charcount_utf8_nbytes t maxlen = charcount_loop t (zbx_strlen_utf8_nbytes t maxlen)"

text \<open>The copy into a buffer of a size, which a size of 0 makes huge. The answer is the number of bytes, and the buffer.\<close>

definition zbx_strlcpy_utf8 :: "u8 list \<Rightarrow> u8 list \<Rightarrow> nat \<Rightarrow> (nat \<times> u8 list) outcome" where
  "zbx_strlcpy_utf8 dst src siz =
    (let siz = zbx_strlen_utf8_nbytes src ((siz + (2 ^ 64 - 1)) mod 2 ^ 64)
     in if siz < length dst then Inr (siz, memcpy_cells 0 (take siz src @ [0]) dst) else Inl OutOfBounds)"

section \<open>Checking\<close>

definition expecting_bytes :: "u8 \<Rightarrow> nat" where
  "expecting_bytes b =
    (if b AND 0xe0 = 0xc0 then 1 else if b AND 0xf0 = 0xe0 then 2 else if b AND 0xf8 = 0xf0 then 3
     else if b AND 0xfc = 0xf8 then 4 else if b AND 0xfe = 0xfc then 5 else 0)"

definition overlong :: "u8 \<Rightarrow> u8 \<Rightarrow> bool" where
  "overlong b0 b1 \<longleftrightarrow> b0 AND 0xfe = 0xc0 \<or> b0 = 0xe0 \<and> b1 AND 0x20 = 0 \<or> b0 = 0xf0 \<and> b1 AND 0x30 = 0 \<or>
    b0 = 0xf8 \<and> b1 AND 0x38 = 0 \<or> b0 = 0xfc \<and> b1 AND 0x3c = 0"

definition lead_bits :: "u8 \<Rightarrow> u32" where
  "lead_bits b = ucast
    (if b AND 0xe0 = 0xc0 then b AND 0x1f else if b AND 0xf0 = 0xe0 then b AND 0x0f else if b AND 0xf8 = 0xf0 then b AND 0x07
     else if b AND 0xfc = 0xf8 then b AND 0x03 else if b AND 0xfe = 0xfc then b AND 0x01 else 0)"

fun utf32_loop :: "u32 \<Rightarrow> u8 list \<Rightarrow> u32" where
  "utf32_loop utf32 [] = utf32"
| "utf32_loop utf32 (b # bs) = utf32_loop (push_bit 6 utf32 + ucast (b AND 0x3f)) bs"

definition illegal_code :: "u32 \<Rightarrow> bool" where
  "illegal_code utf32 \<longleftrightarrow> 0x10ffff < utf32 \<or> utf32 AND 0xf800 = 0xd800"

text \<open>A complete sequence, from its first byte and the others.\<close>

definition sequence_ok :: "u8 \<Rightarrow> u8 list \<Rightarrow> bool" where
  "sequence_ok b bs \<longleftrightarrow> \<not> overlong b (byte bs 0) \<and> \<not> illegal_code (utf32_loop (lead_bits b) bs)"

text \<open>The number of continuation bytes at the start of a text, up to the number that is expected.\<close>

fun continuation_run :: "nat \<Rightarrow> u8 list \<Rightarrow> nat" where
  "continuation_run 0 t = 0"
| "continuation_run (Suc n) [] = 0"
| "continuation_run (Suc n) (b # t) = (if b AND 0xc0 = 0x80 then Suc (continuation_run n t) else 0)"

lemma continuation_run_le: "continuation_run n t \<le> n" "continuation_run n t \<le> length t"
  by (induction n t rule: continuation_run.induct) auto

function zbx_is_utf8 :: "u8 list \<Rightarrow> bool" where
  "zbx_is_utf8 [] \<longleftrightarrow> True"
| "zbx_is_utf8 (b # t) \<longleftrightarrow>
    (if b AND 0x80 = 0 then zbx_is_utf8 t
     else if b AND 0xc0 = 0x80 \<or> b AND 0xfe = 0xfe then False
     else
       let n = expecting_bytes b
       in if continuation_run n t < n then False
          else if \<not> sequence_ok b (take n t) then False
          else zbx_is_utf8 (drop n t))"
  by pat_completeness auto
termination by (relation "measure length") auto

declare zbx_is_utf8.simps(2) [simp del]

section \<open>Replacing\<close>

definition ZBX_UTF8_REPLACE_CHAR :: u8 where
  "ZBX_UTF8_REPLACE_CHAR = 63"

text \<open>
  The bytes of a sequence are copied one by one, within the text: from the position read to the position written, until
  the expected number is reached or another byte comes. The result tells whether all of them came.
\<close>

fun copy_continuation :: "nat \<Rightarrow> u8 list \<Rightarrow> nat \<Rightarrow> nat \<Rightarrow> bool \<times> u8 list \<times> nat \<times> nat" where
  "copy_continuation 0 buf out pos = (True, buf, out, pos)"
| "copy_continuation (Suc n) buf out pos =
    (if byte buf pos AND 0xc0 \<noteq> 0x80 then (False, buf, out, pos)
     else copy_continuation n (buf[out := byte buf pos]) (out + 1) (pos + 1))"

lemma copy_continuation_length: "copy_continuation n buf out pos = (ret, buf', out', pos') \<Longrightarrow> length buf' = length buf \<and> pos \<le> pos'"
  by (induction n buf out pos rule: copy_continuation.induct) (force split: if_splits)+

text \<open>The loop over the text; it answers with the bytes in front of the final NUL.\<close>

function replace_loop :: "u8 list \<Rightarrow> nat \<Rightarrow> nat \<Rightarrow> u8 list" where
  "replace_loop buf out pos =
    (let b = byte buf pos
     in if length buf \<le> pos then take out buf
        else if b AND 0x80 = 0 then replace_loop (buf[out := b]) (out + 1) (pos + 1)
        else if b AND 0xc0 = 0x80 \<or> b AND 0xfe = 0xfe then replace_loop (buf[out := ZBX_UTF8_REPLACE_CHAR]) (out + 1) (pos + 1)
        else
          case copy_continuation (expecting_bytes b) (buf[out := b]) (out + 1) (pos + 1) of
            (ret, buf, out', pos) \<Rightarrow>
              if ret \<and> sequence_ok (byte buf out) (take (out' - out - 1) (drop (out + 1) buf)) then replace_loop buf out' pos
              else replace_loop (buf[out := ZBX_UTF8_REPLACE_CHAR]) (out + 1) pos)"
  by pat_completeness auto
termination
  by (relation "measure (\<lambda>(buf, out, pos). length buf - pos)") (auto dest!: copy_continuation_length [OF sym])

declare replace_loop.simps [simp del]

definition zbx_replace_invalid_utf8 :: "u8 list \<Rightarrow> u8 list" where
  "zbx_replace_invalid_utf8 t = replace_loop t 0 0"

section \<open>Bytes as numbers\<close>

text \<open>A mask of adjacent bits.\<close>

lemma unat_and_field:
  fixes b :: "'a::len word"
  assumes "k + j \<le> LENGTH('a)"
  shows "unat (b AND push_bit k (mask j)) = unat b div 2 ^ k mod 2 ^ j * 2 ^ k"
proof -
  have b: "b AND push_bit k (mask j) = push_bit k (take_bit j (drop_bit k b))"
    by (rule bit_eqI) (auto simp: bit_simps)
  have "unat b div 2 ^ k mod 2 ^ j * 2 ^ k < 2 ^ j * 2 ^ k" by simp
  also have "\<dots> \<le> 2 ^ LENGTH('a)" using assms by (simp add: power_add [symmetric] add.commute)
  finally have less: "unat b div 2 ^ k mod 2 ^ j * 2 ^ k < 2 ^ LENGTH('a)" .
  have "unat (push_bit k (take_bit j (drop_bit k b))) = take_bit LENGTH('a) (push_bit k (take_bit j (drop_bit k (unat b))))"
    by (simp only: unsigned_push_bit_eq unsigned_take_bit_eq unsigned_drop_bit_eq take_bit_nat_eq_self [OF unat_less_pow])
  also have "\<dots> = take_bit LENGTH('a) (unat b div 2 ^ k mod 2 ^ j * 2 ^ k)"
    by (simp only: push_bit_eq_mult drop_bit_eq_div take_bit_eq_mod)
  finally have "unat (push_bit k (take_bit j (drop_bit k b))) = take_bit LENGTH('a) (unat b div 2 ^ k mod 2 ^ j * 2 ^ k)" .
  then show ?thesis unfolding b using less by (simp add: take_bit_nat_eq_self)
qed

lemma u8_masks:
  "(0x80 :: u8) = push_bit 7 (mask 1)" "(0xc0 :: u8) = push_bit 6 (mask 2)" "(0xe0 :: u8) = push_bit 5 (mask 3)"
  "(0xf0 :: u8) = push_bit 4 (mask 4)" "(0xf8 :: u8) = push_bit 3 (mask 5)" "(0xfc :: u8) = push_bit 2 (mask 6)"
  "(0xfe :: u8) = push_bit 1 (mask 7)" "(0x20 :: u8) = push_bit 5 (mask 1)" "(0x30 :: u8) = push_bit 4 (mask 2)"
  "(0x38 :: u8) = push_bit 3 (mask 3)" "(0x3c :: u8) = push_bit 2 (mask 4)" "(0x3f :: u8) = push_bit 0 (mask 6)"
  "(0x1f :: u8) = push_bit 0 (mask 5)" "(0x0f :: u8) = push_bit 0 (mask 4)" "(0x07 :: u8) = push_bit 0 (mask 3)"
  "(0x03 :: u8) = push_bit 0 (mask 2)" "(0x01 :: u8) = push_bit 0 (mask 1)" "(0xf800 :: u32) = push_bit 11 (mask 5)"
  by (simp_all add: mask_eq_exp_minus_1)

lemma and_values:
  fixes b :: u8
  shows "unat (b AND 0x80) = unat b div 128 mod 2 * 128" "unat (b AND 0xc0) = unat b div 64 mod 4 * 64"
  "unat (b AND 0xe0) = unat b div 32 mod 8 * 32" "unat (b AND 0xf0) = unat b div 16 mod 16 * 16"
  "unat (b AND 0xf8) = unat b div 8 mod 32 * 8" "unat (b AND 0xfc) = unat b div 4 mod 64 * 4"
  "unat (b AND 0xfe) = unat b div 2 mod 128 * 2" "unat (b AND 0x20) = unat b div 32 mod 2 * 32"
  "unat (b AND 0x30) = unat b div 16 mod 4 * 16" "unat (b AND 0x38) = unat b div 8 mod 8 * 8"
  "unat (b AND 0x3c) = unat b div 4 mod 16 * 4" "unat (b AND 0x3f) = unat b mod 64" "unat (b AND 0x1f) = unat b mod 32"
  "unat (b AND 0x0f) = unat b mod 16" "unat (b AND 0x07) = unat b mod 8" "unat (b AND 0x03) = unat b mod 4" "unat (b AND 0x01) = unat b mod 2"
  "unat (u AND (0xf800 :: u32)) = unat u div 2048 mod 32 * 2048"
  unfolding u8_masks by (subst unat_and_field; simp)+

text \<open>What the masks test.\<close>

lemma byte_tests:
  fixes b :: u8
  shows "b AND 0x80 = 0 \<longleftrightarrow> unat b < 128" "b AND 0xc0 = 0x80 \<longleftrightarrow> 128 \<le> unat b \<and> unat b < 192"
  "b AND 0xe0 = 0xc0 \<longleftrightarrow> 192 \<le> unat b \<and> unat b < 224" "b AND 0xf0 = 0xe0 \<longleftrightarrow> 224 \<le> unat b \<and> unat b < 240"
  "b AND 0xf8 = 0xf0 \<longleftrightarrow> 240 \<le> unat b \<and> unat b < 248" "b AND 0xfc = 0xf8 \<longleftrightarrow> 248 \<le> unat b \<and> unat b < 252"
  "b AND 0xfe = 0xfc \<longleftrightarrow> 252 \<le> unat b \<and> unat b < 254" "b AND 0xfe = 0xfe \<longleftrightarrow> 254 \<le> unat b" "b AND 0xfe = 0xc0 \<longleftrightarrow> 192 \<le> unat b \<and> unat b < 194"
  "b AND 0x20 = 0 \<longleftrightarrow> unat b div 32 mod 2 = 0" "b AND 0x30 = 0 \<longleftrightarrow> unat b div 16 mod 4 = 0" "b AND 0x38 = 0 \<longleftrightarrow> unat b div 8 mod 8 = 0"
  "b AND 0x3c = 0 \<longleftrightarrow> unat b div 4 mod 16 = 0"
proof -
  have test: "unat b div p mod m * p = c \<longleftrightarrow> c \<le> unat b \<and> unat b < c + p" if "p * m = 256" "p dvd c" for p m c
  proof -
    have m: "unat b div p < m" using that(1) unat_u8_less [of b] by (simp add: less_mult_imp_div_less mult.commute)
    have p: "0 < p" using that(1) by (cases p) simp_all
    from that(2) obtain d where d: "c = d * p" by (metis dvdE mult.commute)
    have "unat b div p = d \<longleftrightarrow> d \<le> unat b div p \<and> unat b div p < d + 1" by auto
    also have "\<dots> \<longleftrightarrow> c \<le> unat b \<and> unat b < c + p"
      unfolding less_eq_div_iff_mult_less_eq [OF p] div_less_iff_less_mult [OF p] d by (simp add: add.commute)
    finally have "unat b div p = d \<longleftrightarrow> c \<le> unat b \<and> unat b < c + p" .
    then show ?thesis using m p by (simp add: d)
  qed
  note t = word_unat_eq_iff and_values
  show "b AND 0x80 = 0 \<longleftrightarrow> unat b < 128" using test [of 128 2 0] by (simp add: t)
  show "b AND 0xc0 = 0x80 \<longleftrightarrow> 128 \<le> unat b \<and> unat b < 192" using test [of 64 4 128] by (simp add: t)
  show "b AND 0xe0 = 0xc0 \<longleftrightarrow> 192 \<le> unat b \<and> unat b < 224" using test [of 32 8 192] by (simp add: t)
  show "b AND 0xf0 = 0xe0 \<longleftrightarrow> 224 \<le> unat b \<and> unat b < 240" using test [of 16 16 224] by (simp add: t)
  show "b AND 0xf8 = 0xf0 \<longleftrightarrow> 240 \<le> unat b \<and> unat b < 248" using test [of 8 32 240] by (simp add: t)
  show "b AND 0xfc = 0xf8 \<longleftrightarrow> 248 \<le> unat b \<and> unat b < 252" using test [of 4 64 248] by (simp add: t)
  show "b AND 0xfe = 0xfc \<longleftrightarrow> 252 \<le> unat b \<and> unat b < 254" using test [of 2 128 252] by (simp add: t)
  have "254 \<le> unat b \<longleftrightarrow> 254 \<le> unat b \<and> unat b < 254 + 2" using unat_u8_less [of b] by auto
  then show "b AND 0xfe = 0xfe \<longleftrightarrow> 254 \<le> unat b" using test [of 2 128 254] unfolding t by simp
  show "b AND 0xfe = 0xc0 \<longleftrightarrow> 192 \<le> unat b \<and> unat b < 194" using test [of 2 128 192] by (simp add: t)
  show "b AND 0x20 = 0 \<longleftrightarrow> unat b div 32 mod 2 = 0" "b AND 0x30 = 0 \<longleftrightarrow> unat b div 16 mod 4 = 0" "b AND 0x38 = 0 \<longleftrightarrow> unat b div 8 mod 8 = 0"
    "b AND 0x3c = 0 \<longleftrightarrow> unat b div 4 mod 16 = 0"
    unfolding word_unat_eq_iff and_values by simp_all
qed

text \<open>The code point of a sequence, as a number.\<close>

definition code_of :: "nat \<Rightarrow> u8 list \<Rightarrow> nat" where
  "code_of u bs = foldl (\<lambda>u b. u * 64 + unat b mod 64) u bs"

lemma unat_utf32_loop: "(unat u + 1) * 64 ^ length bs \<le> 2 ^ 32 \<Longrightarrow> unat (utf32_loop u bs) = code_of (unat u) bs"
proof (induction bs arbitrary: u)
  case Nil
  then show ?case by (simp add: code_of_def)
next
  case (Cons b bs)
  define q :: nat where "q = 64 ^ length bs"
  have q: "1 \<le> q" by (simp add: q_def)
  have le: "(unat u + 1) * 64 * q \<le> 2 ^ 32" using Cons.prems by (simp add: q_def algebra_simps)
  have "(unat u + 1) * 64 \<le> (unat u + 1) * 64 * q" using q by simp
  from order_trans [OF this le] have small: "unat u * 64 + 64 \<le> 2 ^ 32" by simp
  have r: "unat b mod 64 < 64" by simp
  have "unat (ucast (b AND 0x3f) :: u32) = unat b mod 64" by (simp add: unsigned_ucast_eq and_values take_bit_nat_eq_self)
  moreover have "unat (push_bit 6 u) = unat u * 64"
  proof -
    have "unat (push_bit 6 u) = take_bit LENGTH(32) (push_bit 6 (unat u))" by (simp only: unsigned_push_bit_eq)
    also have "\<dots> = take_bit LENGTH(32) (unat u * 64)" by (simp only: push_bit_eq_mult) simp
    also have "\<dots> = unat u * 64" by (rule take_bit_nat_eq_self) (use small in simp)
    finally show ?thesis .
  qed
  ultimately have v: "unat (push_bit 6 u + ucast (b AND 0x3f)) = unat u * 64 + unat b mod 64"
    using small r by (subst unat_add_lem [THEN iffD1]) simp_all
  have "(unat u * 64 + unat b mod 64 + 1) * q \<le> (unat u + 1) * 64 * q" using r by (intro mult_le_mono1) simp
  then have "(unat u * 64 + unat b mod 64 + 1) * q \<le> 2 ^ 32" using \<open>(unat u + 1) * 64 * q \<le> 2 ^ 32\<close> by (rule order_trans)
  then show ?case using Cons.IH [of "push_bit 6 u + ucast (b AND 0x3f)"] by (simp add: v q_def code_of_def)
qed

definition accepted :: "nat \<Rightarrow> bool" where
  "accepted c \<longleftrightarrow> c \<le> 0x10ffff \<and> c div 2048 mod 32 \<noteq> 27"

lemma illegal_code_iff: "illegal_code u \<longleftrightarrow> \<not> accepted (unat u)"
proof -
  have "u AND 0xf800 = 0xd800 \<longleftrightarrow> unat u div 2048 mod 32 = 27" unfolding word_unat_eq_iff and_values by simp
  then show ?thesis by (simp add: illegal_code_def accepted_def word_less_nat_alt) auto
qed

definition lead_value :: "u8 \<Rightarrow> nat" where
  "lead_value b = unat b mod 2 ^ (6 - expecting_bytes b)"

lemma lead_bits_value: "192 \<le> unat b \<Longrightarrow> unat b < 254 \<Longrightarrow> unat (lead_bits b) = lead_value b"
  unfolding lead_bits_def lead_value_def expecting_bytes_def
  by (simp add: unsigned_ucast_eq and_values take_bit_nat_eq_self byte_tests) linarith?

abbreviation continuation :: "u8 \<Rightarrow> bool" where
  "continuation b \<equiv> 128 \<le> unat b \<and> unat b < 192"

section \<open>The encoding\<close>

text \<open>The encoding form of the Unicode standard.\<close>

definition utf8_char :: "nat \<Rightarrow> u8 list" where
  "utf8_char c = map of_nat
    (if c < 0x80 then [c]
     else if c < 0x800 then [192 + c div 64, 128 + c mod 64]
     else if c < 0x10000 then [224 + c div 4096, 128 + c div 64 mod 64, 128 + c mod 64]
     else [240 + c div 262144, 128 + c div 4096 mod 64, 128 + c div 64 mod 64, 128 + c mod 64])"

lemma expecting_bytes_cases:
  assumes "192 \<le> unat b" "unat b < 254"
  shows "(unat b < 224 \<longrightarrow> expecting_bytes b = 1 \<and> lead_value b = unat b - 192) \<and>
    (224 \<le> unat b \<and> unat b < 240 \<longrightarrow> expecting_bytes b = 2 \<and> lead_value b = unat b - 224) \<and>
    (240 \<le> unat b \<and> unat b < 248 \<longrightarrow> expecting_bytes b = 3 \<and> lead_value b = unat b - 240) \<and>
    (248 \<le> unat b \<and> unat b < 252 \<longrightarrow> expecting_bytes b = 4 \<and> lead_value b = unat b - 248) \<and>
    (252 \<le> unat b \<longrightarrow> expecting_bytes b = 5 \<and> lead_value b = unat b - 252)"
proof -
  have m: "n mod p = n - p * k" if "p * k \<le> n" "n < p * k + p" for n k p :: nat
  proof -
    from that(1) have "n mod p = (n - p * k + p * k) mod p" by simp
    also have "\<dots> = n - p * k" unfolding mod_mult_self2 using that by (intro mod_less) simp
    finally show ?thesis .
  qed
  show ?thesis using assms m [of 32 6 "unat b"] m [of 16 14 "unat b"] m [of 8 30 "unat b"] m [of 4 62 "unat b"] m [of 2 126 "unat b"]
    unfolding expecting_bytes_def lead_value_def byte_tests by simp
qed

lemma sequence_value:
  assumes "192 \<le> unat b" "unat b < 254" "length bs = expecting_bytes b"
  shows "unat (utf32_loop (lead_bits b) bs) = code_of (lead_value b) bs"
proof -
  have "(lead_value b + 1) * 64 ^ expecting_bytes b \<le> 2 ^ 32"
  proof -
    have lv: "lead_value b + 1 \<le> 2 ^ (6 - expecting_bytes b)" by (simp add: lead_value_def Suc_leI)
    have e: "expecting_bytes b \<in> {1, 2, 3, 4, 5}" using expecting_bytes_cases [OF assms(1,2)] assms by auto
    have "(2::nat) ^ (6 - k) * 64 ^ k \<le> 2 ^ 32" if "k \<in> {1, 2, 3, 4, 5}" for k :: nat using that by auto
    then show ?thesis using mult_le_mono1 [OF lv, of "64 ^ expecting_bytes b"] e order_trans by blast
  qed
  then show ?thesis using unat_utf32_loop [of "lead_bits b" bs] lead_bits_value [OF assms(1,2)] assms(3) by simp
qed

lemma div_64: "n div 4096 = n div 64 div 64" "n div 262144 = n div 64 div 64 div 64" for n :: nat
  by (simp_all add: div_mult2_eq [symmetric])

lemma digit_64: "y < 64 \<Longrightarrow> (a * 64 + y) div 64 = a" "y < 64 \<Longrightarrow> (a * 64 + y) mod 64 = y" for a y :: nat
  by simp_all

lemma overlong_values:
  "overlong b0 b1 \<longleftrightarrow> 192 \<le> unat b0 \<and> unat b0 < 194 \<or> unat b0 = 224 \<and> unat b1 div 32 mod 2 = 0 \<or> unat b0 = 240 \<and> unat b1 div 16 mod 4 = 0 \<or>
    unat b0 = 248 \<and> unat b1 div 8 mod 8 = 0 \<or> unat b0 = 252 \<and> unat b1 div 4 mod 16 = 0"
proof -
  have "b0 = 0xe0 \<longleftrightarrow> unat b0 = 224" "b0 = 0xf0 \<longleftrightarrow> unat b0 = 240" "b0 = 0xf8 \<longleftrightarrow> unat b0 = 248" "b0 = 0xfc \<longleftrightarrow> unat b0 = 252"
    by (simp_all add: word_unat_eq_iff)
  then show ?thesis unfolding overlong_def byte_tests by simp
qed

lemma continuation_value:
  assumes "continuation b"
  obtains y where "unat b = 128 + y" "y < 64" "unat b mod 64 = y" "b = of_nat (128 + y)"
proof
  show "unat b = 128 + (unat b - 128)" "unat b - 128 < 64" using assms by auto
  then have "unat b mod 64 = (unat b - 128 + 2 * 64) mod 64" by simp
  also have "\<dots> = unat b - 128" unfolding mod_mult_self1 using assms by (intro mod_less) auto
  finally show "unat b mod 64 = unat b - 128" .
  show "b = of_nat (128 + (unat b - 128))" using assms by simp
qed

lemma sequence_ok_value:
  assumes "192 \<le> unat b" "unat b < 254" "length bs = expecting_bytes b"
  shows "sequence_ok b bs \<longleftrightarrow> \<not> overlong b (byte bs 0) \<and> accepted (code_of (lead_value b) bs)"
  by (simp add: sequence_ok_def illegal_code_iff sequence_value [OF assms])

lemma code_of_simps [simp]: "code_of u [] = u" "code_of u (b # bs) = code_of (u * 64 + unat b mod 64) bs"
  by (simp_all add: code_of_def)

text \<open>A complete sequence is accepted exactly when it encodes an accepted code point.\<close>

lemma code_of_big: "u * 64 ^ length bs \<le> code_of u bs"
proof (induction bs arbitrary: u)
  case (Cons b bs)
  have "u * 64 * 64 ^ length bs \<le> (u * 64 + unat b mod 64) * 64 ^ length bs" by simp
  also have "\<dots> \<le> code_of (u * 64 + unat b mod 64) bs" by (rule Cons.IH)
  finally show ?case by (simp add: algebra_simps)
qed simp

lemma utf8_char_digits:
  assumes "y < 64" "z < 64" "w < 64"
  shows "c < 128 \<Longrightarrow> utf8_char c = [of_nat c]"
    and "2 \<le> x \<Longrightarrow> x < 32 \<Longrightarrow> utf8_char (x * 64 + y) = [of_nat (192 + x), of_nat (128 + y)]"
    and "32 \<le> x * 64 + y \<Longrightarrow> x < 16 \<Longrightarrow> utf8_char ((x * 64 + y) * 64 + z) = [of_nat (224 + x), of_nat (128 + y), of_nat (128 + z)]"
    and "16 \<le> x * 64 + y \<Longrightarrow> utf8_char (((x * 64 + y) * 64 + z) * 64 + w) =
      [of_nat (240 + x), of_nat (128 + y), of_nat (128 + z), of_nat (128 + w)]"
proof -
  note d = digit_64 [OF assms(1)] digit_64 [OF assms(2)] digit_64 [OF assms(3)]
  show "c < 128 \<Longrightarrow> utf8_char c = [of_nat c]" by (simp add: utf8_char_def)
  show "utf8_char (x * 64 + y) = [of_nat (192 + x), of_nat (128 + y)]" if "2 \<le> x" "x < 32"
  proof -
    have "\<not> x * 64 + y < 0x80" "x * 64 + y < 0x800" using that assms by simp_all
    then show ?thesis by (simp only: utf8_char_def if_True if_False d list.map)
  qed
  show "utf8_char ((x * 64 + y) * 64 + z) = [of_nat (224 + x), of_nat (128 + y), of_nat (128 + z)]" if "32 \<le> x * 64 + y" "x < 16"
  proof -
    define u where "u = x * 64 + y"
    have "\<not> u * 64 + z < 0x80" "\<not> u * 64 + z < 0x800" "u * 64 + z < 0x10000" using that assms by (simp_all add: u_def)
    then have "utf8_char (u * 64 + z) = map of_nat [224 + u div 64, 128 + u mod 64, 128 + z]"
      by (simp only: utf8_char_def if_True if_False d div_64)
    then show ?thesis unfolding u_def d by (simp only: list.map)
  qed
  show "utf8_char (((x * 64 + y) * 64 + z) * 64 + w) = [of_nat (240 + x), of_nat (128 + y), of_nat (128 + z), of_nat (128 + w)]" if "16 \<le> x * 64 + y"
  proof -
    define u where "u = x * 64 + y"
    define v where "v = u * 64 + z"
    have "\<not> v * 64 + w < 0x80" "\<not> v * 64 + w < 0x800" "\<not> v * 64 + w < 0x10000" using that by (simp_all add: u_def v_def)
    then have "utf8_char (v * 64 + w) = map of_nat [240 + v div 64 div 64, 128 + v div 64 mod 64, 128 + v mod 64, 128 + w]"
      by (simp only: utf8_char_def if_True if_False d div_64)
    then show ?thesis unfolding v_def u_def d by (simp only: list.map)
  qed
qed

lemma high_digit:
  assumes "p * m = 64" "y < 64"
  shows "(128 + y) div p mod m = 0 \<longleftrightarrow> y < (p :: nat)"
proof -
  have p: "0 < p" using assms(1) by (cases p) simp_all
  have m: "y div p < m" using assms p by (simp add: div_less_iff_less_mult mult.commute)
  have "128 + y = y + (2 * m) * p" using assms(1) by (simp add: mult.commute)
  then have "(128 + y) div p = y div p + 2 * m" using p by (simp only: div_mult_self1)
  then show ?thesis using m p by (simp add: div_eq_0_iff)
qed

lemma sequence_sound1:
  assumes "192 \<le> unat b" "unat b < 224" "length bs = expecting_bytes b" "\<forall>c\<in>set bs. continuation c" "sequence_ok b bs"
  shows "\<exists>c\<ge>128. accepted c \<and> utf8_char c = b # bs"
proof -
  have n: "expecting_bytes b = 1" "lead_value b = unat b - 192" using expecting_bytes_cases [of b] assms(1,2) by simp_all
  have ok: "\<not> overlong b (byte bs 0)" "accepted (code_of (lead_value b) bs)" using assms(5) sequence_ok_value [of b bs] assms(1-3) by simp_all
  obtain c1 where bs: "bs = [c1]" using assms(3) unfolding n(1) by (auto simp: length_Suc_conv eval_nat_numeral)
  obtain y where y: "unat c1 = 128 + y" "y < 64" "unat c1 mod 64 = y" "c1 = of_nat (128 + y)"
    by (rule continuation_value [of c1, OF bspec [OF assms(4)]]) (simp add: bs)
  define x where "x = unat b - 192"
  have x: "unat b = 192 + x" "2 \<le> x" "x < 32" "lead_value b = x" using n assms(1,2) ok(1) by (auto simp: x_def overlong_values)
  have b: "b = of_nat (192 + x)" unfolding x(1) [symmetric] by simp
  have "code_of (lead_value b) bs = x * 64 + y" by (simp add: bs x(4) y(3))
  then have "accepted (x * 64 + y)" using ok(2) by simp
  moreover have "utf8_char (x * 64 + y) = b # bs" unfolding bs using utf8_char_digits(2) [OF y(2) y(2) y(2) x(2,3)] b y(4) by simp
  moreover have "128 \<le> x * 64 + y" using x(2) by simp
  ultimately show ?thesis by blast
qed

lemma sequence_sound2:
  assumes "224 \<le> unat b" "unat b < 240" "length bs = expecting_bytes b" "\<forall>c\<in>set bs. continuation c" "sequence_ok b bs"
  shows "\<exists>c\<ge>128. accepted c \<and> utf8_char c = b # bs"
proof -
  have n: "expecting_bytes b = 2" "lead_value b = unat b - 224" using expecting_bytes_cases [of b] assms(1,2) by simp_all
  have ok: "\<not> overlong b (byte bs 0)" "accepted (code_of (lead_value b) bs)" using assms(5) sequence_ok_value [of b bs] assms(1-3) by simp_all
  obtain c1 c2 where bs: "bs = [c1, c2]" using assms(3) unfolding n(1) by (auto simp: length_Suc_conv eval_nat_numeral)
  obtain y where y: "unat c1 = 128 + y" "y < 64" "unat c1 mod 64 = y" "c1 = of_nat (128 + y)"
    by (rule continuation_value [of c1, OF bspec [OF assms(4)]]) (simp add: bs)
  obtain z where z: "unat c2 = 128 + z" "z < 64" "unat c2 mod 64 = z" "c2 = of_nat (128 + z)"
    by (rule continuation_value [of c2, OF bspec [OF assms(4)]]) (simp add: bs)
  define x where "x = unat b - 224"
  have x: "unat b = 224 + x" "x < 16" "lead_value b = x" using n assms(1,2) by (auto simp: x_def)
  have "(128 + y) div 32 mod 2 = 0 \<longleftrightarrow> y < 32" using high_digit [of 32 2] y(2) by simp
  then have big: "32 \<le> x * 64 + y" using ok(1) x(1) y(1,2) by (cases x) (auto simp: overlong_values bs byte_def)
  have b: "b = of_nat (224 + x)" unfolding x(1) [symmetric] by simp
  have "code_of (lead_value b) bs = (x * 64 + y) * 64 + z" by (simp add: bs x(3) y(3) z(3))
  then have "accepted ((x * 64 + y) * 64 + z)" using ok(2) by simp
  moreover have "utf8_char ((x * 64 + y) * 64 + z) = b # bs"
    unfolding bs using utf8_char_digits(3) [OF y(2) z(2) z(2) big x(2)] b y(4) z(4) by simp
  moreover have "128 \<le> (x * 64 + y) * 64 + z" using big by simp
  ultimately show ?thesis by blast
qed

lemma sequence_sound3:
  assumes "240 \<le> unat b" "unat b < 248" "length bs = expecting_bytes b" "\<forall>c\<in>set bs. continuation c" "sequence_ok b bs"
  shows "\<exists>c\<ge>128. accepted c \<and> utf8_char c = b # bs"
proof -
  have n: "expecting_bytes b = 3" "lead_value b = unat b - 240" using expecting_bytes_cases [of b] assms(1,2) by simp_all
  have ok: "\<not> overlong b (byte bs 0)" "accepted (code_of (lead_value b) bs)" using assms(5) sequence_ok_value [of b bs] assms(1-3) by simp_all
  obtain c1 c2 c3 where bs: "bs = [c1, c2, c3]" using assms(3) unfolding n(1) by (auto simp: length_Suc_conv eval_nat_numeral)
  obtain y where y: "unat c1 = 128 + y" "y < 64" "unat c1 mod 64 = y" "c1 = of_nat (128 + y)"
    by (rule continuation_value [of c1, OF bspec [OF assms(4)]]) (simp add: bs)
  obtain z where z: "unat c2 = 128 + z" "z < 64" "unat c2 mod 64 = z" "c2 = of_nat (128 + z)"
    by (rule continuation_value [of c2, OF bspec [OF assms(4)]]) (simp add: bs)
  obtain w where w: "unat c3 = 128 + w" "w < 64" "unat c3 mod 64 = w" "c3 = of_nat (128 + w)"
    by (rule continuation_value [of c3, OF bspec [OF assms(4)]]) (simp add: bs)
  define x where "x = unat b - 240"
  have x: "unat b = 240 + x" "x < 8" "lead_value b = x" using n assms(1,2) by (auto simp: x_def)
  have "(128 + y) div 16 mod 4 = 0 \<longleftrightarrow> y < 16" using high_digit [of 16 4] y(2) by simp
  then have big: "16 \<le> x * 64 + y" using ok(1) x(1) y(1,2) by (cases x) (auto simp: overlong_values bs byte_def)
  have b: "b = of_nat (240 + x)" unfolding x(1) [symmetric] by simp
  have "code_of (lead_value b) bs = ((x * 64 + y) * 64 + z) * 64 + w" by (simp add: bs x(3) y(3) z(3) w(3))
  then have "accepted (((x * 64 + y) * 64 + z) * 64 + w)" using ok(2) by simp
  moreover have "utf8_char (((x * 64 + y) * 64 + z) * 64 + w) = b # bs"
    unfolding bs using utf8_char_digits(4) [OF y(2) z(2) w(2) big] b y(4) z(4) w(4) by simp
  moreover have "128 \<le> ((x * 64 + y) * 64 + z) * 64 + w" using big by simp
  ultimately show ?thesis by blast
qed

lemma sequence_refused:
  assumes "248 \<le> unat b" "unat b < 254" "length bs = expecting_bytes b" "\<forall>c\<in>set bs. continuation c"
  shows "\<not> sequence_ok b bs"
proof
  assume "sequence_ok b bs"
  then have ok: "\<not> overlong b (byte bs 0)" "accepted (code_of (lead_value b) bs)" using sequence_ok_value [of b bs] assms(1-3) by simp_all
  have n: "expecting_bytes b = 4 \<and> lead_value b = unat b - 248 \<or> expecting_bytes b = 5 \<and> lead_value b = unat b - 252 \<and> 252 \<le> unat b"
    using expecting_bytes_cases [of b] assms(1,2) by (cases "unat b < 252") simp_all
  then obtain c1 r where bs: "bs = c1 # r" "length r = expecting_bytes b - 1" using assms(3) by (cases bs) auto
  obtain y where y: "unat c1 = 128 + y" "y < 64" "unat c1 mod 64 = y" "c1 = of_nat (128 + y)"
    by (rule continuation_value [of c1, OF bspec [OF assms(4)]]) (simp add: bs)
  have bits: "(128 + y) div 8 mod 8 = 0 \<longleftrightarrow> y < 8" "(128 + y) div 4 mod 16 = 0 \<longleftrightarrow> y < 4" using high_digit [of 8 8] high_digit [of 4 16] y(2) by simp_all
  have "8 \<le> lead_value b * 64 + y \<or> 4 \<le> lead_value b * 64 + y \<and> expecting_bytes b = 5"
    using n ok(1) y(1) bits assms(1) by (auto simp: overlong_values bs byte_def)
  then have "8 * 64 ^ 3 \<le> (lead_value b * 64 + y) * 64 ^ length r" using n bs(2) by auto
  also have "\<dots> \<le> code_of (lead_value b) bs" using code_of_big [of "lead_value b * 64 + y" r] by (simp add: bs(1) y(3))
  finally show False using ok(2) by (simp add: accepted_def)
qed

lemma sequence_sound:
  assumes "192 \<le> unat b" "unat b < 254" "length bs = expecting_bytes b" "\<forall>c\<in>set bs. continuation c" "sequence_ok b bs"
  shows "\<exists>c\<ge>128. accepted c \<and> utf8_char c = b # bs"
  using sequence_sound1 [OF assms(1) _ assms(3-5)] sequence_sound2 [OF _ _ assms(3-5)] sequence_sound3 [OF _ _ assms(3-5)]
    sequence_refused [OF _ assms(2-4)] assms(5) by (meson not_le)

lemma unat_small: "n < 256 \<Longrightarrow> unat (of_nat n :: u8) = n"
  by (simp add: unat_of_nat)

lemma continuation_digit: "y < 64 \<Longrightarrow> continuation (of_nat (128 + y)) \<and> unat (of_nat (128 + y) :: u8) mod 64 = y"
proof -
  assume y: "y < 64"
  have "(y + 2 * 64) mod 64 = y" unfolding mod_mult_self1 using y by simp
  then show ?thesis using y unat_small [of "128 + y"] by (simp add: add.commute del: of_nat_add)
qed

text \<open>A sequence in shortest form, with its code point.\<close>

definition sequence :: "nat \<Rightarrow> u8 \<Rightarrow> u8 list \<Rightarrow> bool" where
  "sequence c b bs \<longleftrightarrow> 192 \<le> unat b \<and> unat b < 254 \<and> length bs = expecting_bytes b \<and> (\<forall>c\<in>set bs. continuation c) \<and>
    \<not> overlong b (byte bs 0) \<and> code_of (lead_value b) bs = c"

lemma sequence_ok_iff: "sequence c b bs \<Longrightarrow> sequence_ok b bs \<longleftrightarrow> accepted c"
  by (simp add: sequence_def sequence_ok_value)

lemma sequence_complete:
  assumes "c \<le> 0x10ffff" "128 \<le> c"
  shows "\<exists>b bs. utf8_char c = b # bs \<and> sequence c b bs"
proof -
  define w where "w = c mod 64"
  define v where "v = c div 64"
  define z where "z = v mod 64"
  define u where "u = v div 64"
  define y where "y = u mod 64"
  define x where "x = u div 64"
  have less: "w < 64" "z < 64" "y < 64" by (simp_all add: w_def z_def y_def)
  have c: "c = v * 64 + w" "v = u * 64 + z" "u = x * 64 + y"
    by (simp_all add: w_def v_def z_def u_def y_def x_def)
  consider "c < 0x800" | "0x800 \<le> c" "c < 0x10000" | "0x10000 \<le> c" by linarith
  then show ?thesis
  proof cases
    case 1
    then have r: "2 \<le> v" "v < 32" using assms(2) by (simp_all add: v_def)
    define b :: u8 where "b = of_nat (192 + v)"
    define c1 :: u8 where "c1 = of_nat (128 + w)"
    have t: "utf8_char c = [b, c1]" unfolding c(1) b_def c1_def by (rule utf8_char_digits(2) [OF less(1,1,1) r])
    have b: "unat b = 192 + v" unfolding b_def by (rule unat_small) (use r in simp)
    have e: "expecting_bytes b = 1" "lead_value b = v" using expecting_bytes_cases [of b] r b by simp_all
    have "sequence c b [c1]"
      unfolding sequence_def
    proof (intro conjI)
      show "code_of (lead_value b) [c1] = c" using continuation_digit [OF less(1)] by (simp add: e c1_def c(1) del: of_nat_add)
      show "\<not> overlong b (byte [c1] 0)" using r by (simp add: overlong_values b)
    qed (use r b e continuation_digit [OF less(1)] in \<open>simp_all add: c1_def del: of_nat_add\<close>)
    then show ?thesis using t by blast
  next
    case 2
    then have r: "32 \<le> u * 64 + z" "u < 16" unfolding c(2) [symmetric] by (simp_all add: v_def u_def)
    define b :: u8 where "b = of_nat (224 + u)"
    define c1 :: u8 where "c1 = of_nat (128 + z)"
    define c2 :: u8 where "c2 = of_nat (128 + w)"
    have t: "utf8_char c = [b, c1, c2]" unfolding c(1) c(2) b_def c1_def c2_def by (rule utf8_char_digits(3) [OF less(2,1,1) r])
    have b: "unat b = 224 + u" unfolding b_def by (rule unat_small) (use r in simp)
    have c1: "unat c1 = 128 + z" unfolding c1_def by (rule unat_small) (use less in simp)
    have e: "expecting_bytes b = 2" "lead_value b = u" using expecting_bytes_cases [of b] r b by simp_all
    have "sequence c b [c1, c2]"
      unfolding sequence_def
    proof (intro conjI)
      show "code_of (lead_value b) [c1, c2] = c" using continuation_digit [OF less(1)] continuation_digit [OF less(2)]
        by (simp add: e c1_def c2_def c(1) c(2) del: of_nat_add)
      show "\<not> overlong b (byte [c1, c2] 0)" using r less(2) high_digit [of 32 2 z] by (auto simp: overlong_values b byte_def c1)
    qed (use r b e continuation_digit [OF less(1)] continuation_digit [OF less(2)] in \<open>simp_all add: c1_def c2_def del: of_nat_add\<close>)
    then show ?thesis using t by blast
  next
    case 3
    have "c < 0x110000" using assms(1) by simp
    then have r: "16 \<le> x * 64 + y" "x < 8" using 3 unfolding c(3) [symmetric] by (simp_all add: v_def u_def x_def)
    define b :: u8 where "b = of_nat (240 + x)"
    define c1 :: u8 where "c1 = of_nat (128 + y)"
    define c2 :: u8 where "c2 = of_nat (128 + z)"
    define c3 :: u8 where "c3 = of_nat (128 + w)"
    have t: "utf8_char c = [b, c1, c2, c3]" unfolding c(1) c(2) c(3) b_def c1_def c2_def c3_def
      by (rule utf8_char_digits(4) [OF less(3,2,1) r(1)])
    have b: "unat b = 240 + x" unfolding b_def by (rule unat_small) (use r in simp)
    have c1: "unat c1 = 128 + y" unfolding c1_def by (rule unat_small) (use less in simp)
    have e: "expecting_bytes b = 3" "lead_value b = x" using expecting_bytes_cases [of b] r b by simp_all
    have "sequence c b [c1, c2, c3]"
      unfolding sequence_def
    proof (intro conjI)
      show "code_of (lead_value b) [c1, c2, c3] = c"
        using continuation_digit [OF less(1)] continuation_digit [OF less(2)] continuation_digit [OF less(3)]
        by (simp add: e c1_def c2_def c3_def c(1) c(2) c(3) del: of_nat_add)
      show "\<not> overlong b (byte [c1, c2, c3] 0)" using r less(3) high_digit [of 16 4 y] by (auto simp: overlong_values b byte_def c1)
    qed (use r b e continuation_digit [OF less(1)] continuation_digit [OF less(2)] continuation_digit [OF less(3)]
        in \<open>simp_all add: c1_def c2_def c3_def del: of_nat_add\<close>)
    then show ?thesis using t by blast
  qed
qed

section \<open>Exactness of the check\<close>

lemma continuation_run_all:
  "continuation_run n t = n \<longleftrightarrow> n \<le> length t \<and> (\<forall>c\<in>set (take n t). continuation c)"
  by (induction n t rule: continuation_run.induct) (auto simp: byte_tests)

lemma is_utf8_ascii: "unat b < 128 \<Longrightarrow> zbx_is_utf8 (b # t) = zbx_is_utf8 t"
  by (simp add: zbx_is_utf8.simps(2) byte_tests)

lemma is_utf8_sequence:
  assumes "sequence c b bs"
  shows "zbx_is_utf8 (b # bs @ t) \<longleftrightarrow> accepted c \<and> zbx_is_utf8 t"
proof -
  have "continuation_run (expecting_bytes b) (bs @ t) = expecting_bytes b" "take (expecting_bytes b) (bs @ t) = bs"
    using assms continuation_run_all [of "expecting_bytes b" "bs @ t"] by (simp_all add: sequence_def)
  then show ?thesis using assms sequence_ok_iff [OF assms] by (simp add: zbx_is_utf8.simps(2) byte_tests Let_def sequence_def)
qed

lemma is_utf8_char:
  assumes "c \<le> 0x10ffff"
  shows "zbx_is_utf8 (utf8_char c @ t) \<longleftrightarrow> accepted c \<and> zbx_is_utf8 t"
proof (cases "c < 128")
  case True
  then show ?thesis using is_utf8_ascii [of "of_nat c" t] unat_small [of c] by (simp add: utf8_char_def accepted_def)
next
  case False
  then obtain b bs where "utf8_char c = b # bs" "sequence c b bs" using sequence_complete [OF assms] by auto
  then show ?thesis using is_utf8_sequence by simp
qed

lemma is_utf8_first:
  assumes "zbx_is_utf8 (b # t)"
  shows "\<exists>c r. accepted c \<and> b # t = utf8_char c @ r \<and> zbx_is_utf8 r"
proof (cases "unat b < 128")
  case True
  then show ?thesis using assms is_utf8_ascii [OF True]
    by (intro exI [of _ "unat b"] exI [of _ t]) (simp add: accepted_def utf8_char_def)
next
  case False
  define n where "n = expecting_bytes b"
  have *: "192 \<le> unat b" "unat b < 254" "continuation_run n t = n" "sequence_ok b (take n t)" "zbx_is_utf8 (drop n t)"
    using assms False continuation_run_le(1) [of n t] by (simp_all add: zbx_is_utf8.simps(2) byte_tests Let_def n_def split: if_splits)
  then obtain c where c: "accepted c" "utf8_char c = b # take n t"
    using sequence_sound [of b "take n t"] continuation_run_all [of n t] by (auto simp: n_def)
  then have "b # t = utf8_char c @ drop n t" by simp
  then show ?thesis using c(1) *(5) by blast
qed

lemma is_utf8_accepted: "zbx_is_utf8 t \<longleftrightarrow> (\<exists>cs. list_all accepted cs \<and> t = concat (map utf8_char cs))"
proof
  assume "zbx_is_utf8 t"
  then show "\<exists>cs. list_all accepted cs \<and> t = concat (map utf8_char cs)"
  proof (induction t rule: length_induct)
    case (1 t)
    show ?case
    proof (cases t)
      case Nil
      then show ?thesis by (intro exI [of _ "[]"]) simp
    next
      case (Cons b t')
      then obtain c r where c: "accepted c" "t = utf8_char c @ r" "zbx_is_utf8 r" using is_utf8_first 1(2) by blast
      have "utf8_char c \<noteq> []" by (simp add: utf8_char_def)
      then have "length r < length t" using c(2) by simp
      then obtain cs where "list_all accepted cs" "r = concat (map utf8_char cs)" using 1(1) c(3) by blast
      then show ?thesis using c by (intro exI [of _ "c # cs"]) simp
    qed
  qed
next
  assume "\<exists>cs. list_all accepted cs \<and> t = concat (map utf8_char cs)"
  then obtain cs where "list_all accepted cs" "t = concat (map utf8_char cs)" by blast
  then show "zbx_is_utf8 t" by (induction cs arbitrary: t) (auto simp: is_utf8_char accepted_def)
qed

text \<open>The scalar values of Unicode, and those of the supplementary planes whose lower 16 bits look like a surrogate.\<close>

definition unicode_scalar :: "nat \<Rightarrow> bool" where
  "unicode_scalar c \<longleftrightarrow> c \<le> 0x10ffff \<and> \<not> (0xd800 \<le> c \<and> c \<le> 0xdfff)"

definition mistaken :: "nat \<Rightarrow> bool" where
  "mistaken c \<longleftrightarrow> 0x10000 \<le> c \<and> 0xd800 \<le> c mod 0x10000 \<and> c mod 0x10000 \<le> 0xdfff"

lemma accepted_iff: "accepted c \<longleftrightarrow> unicode_scalar c \<and> \<not> mistaken c"
proof -
  have "c mod (2048 * 32) = 2048 * (c div 2048 mod 32) + c mod 2048" by (rule mod_mult2_eq)
  moreover define q where "q = c div 2048 mod 32"
  moreover define r where "r = c mod 2048"
  moreover have "r < 2048" by (simp add: r_def)
  moreover have "q = 27 \<longleftrightarrow> 55296 \<le> 2048 * q + r \<and> 2048 * q + r \<le> 57343" using \<open>r < 2048\<close> by arith
  ultimately have "c div 2048 mod 32 = 27 \<longleftrightarrow> 0xd800 \<le> c mod 0x10000 \<and> c mod 0x10000 \<le> 0xdfff" by simp
  moreover have "c < 0x10000 \<Longrightarrow> c mod 0x10000 = c" by simp
  ultimately show ?thesis unfolding accepted_def unicode_scalar_def mistaken_def by (cases "c < 0x10000") auto
qed

lemma zbx_is_utf8_refuses: "unicode_scalar c \<Longrightarrow> mistaken c \<Longrightarrow> \<not> zbx_is_utf8 (utf8_char c @ t)"
  using is_utf8_char [of c t] by (simp add: unicode_scalar_def accepted_iff)

text \<open>C7. The check accepts exactly the texts in UTF-8, as the Unicode standard defines it (no overlong form, no surrogate,
  nothing above U+10FFFF), but for the code points of the supplementary planes whose lower 16 bits look like a
  surrogate: a text with a character such as U+1D800, of the Sutton sign writing, or U+2D800, a Han character, is refused.\<close>

theorem zbx_is_utf8_exact:
  "(zbx_is_utf8 t \<longleftrightarrow> (\<exists>cs. (\<forall>c\<in>set cs. unicode_scalar c \<and> \<not> mistaken c) \<and> t = concat (map utf8_char cs))) \<and>
   (unicode_scalar c \<and> mistaken c \<longrightarrow> \<not> zbx_is_utf8 (utf8_char c @ t))"
  using is_utf8_accepted [of t] zbx_is_utf8_refuses by (simp add: list_all_iff accepted_iff)

section \<open>Replacing in place\<close>

text \<open>What the loop makes of a text, without the buffer.\<close>

function replace_utf8 :: "u8 list \<Rightarrow> u8 list" where
  "replace_utf8 [] = []"
| "replace_utf8 (b # t) =
    (if b AND 0x80 = 0 then b # replace_utf8 t
     else if b AND 0xc0 = 0x80 \<or> b AND 0xfe = 0xfe then ZBX_UTF8_REPLACE_CHAR # replace_utf8 t
     else
       let n = expecting_bytes b; k = continuation_run n t
       in if k = n \<and> sequence_ok b (take n t) then b # take n t @ replace_utf8 (drop n t)
          else ZBX_UTF8_REPLACE_CHAR # replace_utf8 (drop k t))"
  by pat_completeness auto
termination by (relation "measure length") auto

declare replace_utf8.simps(2) [simp del]

lemma byte_drop: "pos < length buf \<Longrightarrow> drop pos buf = byte buf pos # drop (Suc pos) buf"
  by (simp add: byte_def Cons_nth_drop_Suc)

lemma copy_continuation_spec:
  assumes "out \<le> pos" "pos \<le> length buf"
  shows "\<exists>buf'. copy_continuation n buf out pos =
      (let k = continuation_run n (drop pos buf) in (k = n, buf', out + k, pos + k)) \<and>
    (let k = continuation_run n (drop pos buf) in length buf' = length buf \<and>
      take (out + k) buf' = take out buf @ take k (drop pos buf) \<and> drop (pos + k) buf' = drop (pos + k) buf)"
  using assms
proof (induction n arbitrary: buf out pos)
  case (Suc n)
  show ?case
  proof (cases "pos < length buf \<and> byte buf pos AND 0xc0 = 0x80")
    case True
    define buf1 where "buf1 = buf[out := byte buf pos]"
    have d: "drop (Suc pos) buf1 = drop (Suc pos) buf" "length buf1 = length buf" using Suc.prems by (simp_all add: buf1_def)
    obtain buf' where b: "copy_continuation n buf1 (Suc out) (Suc pos) =
        (let k = continuation_run n (drop (Suc pos) buf) in (k = n, buf', Suc out + k, Suc pos + k))"
      "let k = continuation_run n (drop (Suc pos) buf) in length buf' = length buf \<and>
        take (Suc out + k) buf' = take (Suc out) buf1 @ take k (drop (Suc pos) buf) \<and> drop (Suc pos + k) buf' = drop (Suc pos + k) buf1"
      using Suc.IH [of "Suc out" "Suc pos" buf1] Suc.prems True d by auto
    define k where "k = continuation_run n (drop (Suc pos) buf)"
    have t: "take (Suc out) buf1 = take out buf @ [byte buf pos]" unfolding buf1_def by (rule take_Suc_list_update) (use Suc.prems True in simp)
    have e: "drop (Suc (pos + k)) buf1 = drop (Suc (pos + k)) buf" using Suc.prems by (simp add: buf1_def)
    have run: "continuation_run (Suc n) (drop pos buf) = Suc k" using True by (simp add: byte_drop [of pos buf] k_def)
    have dp: "take (Suc k) (drop pos buf) = byte buf pos # take k (drop (Suc pos) buf)" using True byte_drop [of pos buf] by simp
    show ?thesis unfolding run using b(2) True
      by (intro exI [of _ buf']) (simp add: b(1) [unfolded buf1_def] Let_def k_def [symmetric] t e dp)
  next
    case False
    have z: "byte buf pos AND 0xc0 \<noteq> 0x80" using False by (cases "pos < length buf") (simp_all add: byte_def)
    have run: "continuation_run (Suc n) (drop pos buf) = 0"
    proof (cases "pos < length buf")
      case True
      then show ?thesis using False byte_drop [OF True] by simp
    qed (use Suc.prems in simp)
    show ?thesis unfolding run using z by (intro exI [of _ buf]) simp
  qed
qed simp

lemma replace_loop_eq:
  assumes "out \<le> pos" "pos \<le> length buf"
  shows "replace_loop buf out pos = take out buf @ replace_utf8 (drop pos buf)"
  using assms
proof (induction "length buf - pos" arbitrary: buf out pos rule: less_induct)
  case less
  define b where "b = byte buf pos"
  show ?case
  proof (cases "pos < length buf")
    case False
    then show ?thesis using less.prems by (subst replace_loop.simps) simp
  next
    case pos: True
    have d: "drop pos buf = b # drop (Suc pos) buf" unfolding b_def by (rule byte_drop [OF pos])
    have t: "take (Suc out) (buf[out := x]) = take out buf @ [x]" for x using less.prems pos by (intro take_Suc_list_update) simp
    have e: "drop (Suc pos) (buf[out := x]) = drop (Suc pos) buf" for x using less.prems by simp
    have step: "replace_loop (buf[out := x]) (Suc out) (Suc pos) = take out buf @ x # replace_utf8 (drop (Suc pos) buf)" for x
      using less.hyps [of "buf[out := x]" "Suc pos" "Suc out"] less.prems pos t e by simp
    consider "b AND 0x80 = 0" | "b AND 0x80 \<noteq> 0" "b AND 0xc0 = 0x80 \<or> b AND 0xfe = 0xfe"
      | "b AND 0x80 \<noteq> 0" "\<not> (b AND 0xc0 = 0x80 \<or> b AND 0xfe = 0xfe)" by blast
    then show ?thesis
    proof cases
      case 1
      then show ?thesis using pos step by (subst replace_loop.simps) (simp add: b_def [symmetric] replace_utf8.simps d)
    next
      case 2
      then show ?thesis using pos step by (subst replace_loop.simps) (auto simp: b_def [symmetric] replace_utf8.simps d)
    next
      case 3
      define n where "n = expecting_bytes b"
      define rest where "rest = drop (Suc pos) buf"
      define k where "k = continuation_run n rest"
      obtain buf' where c: "copy_continuation n (buf[out := b]) (Suc out) (Suc pos) = (k = n, buf', Suc out + k, Suc pos + k)"
        "length buf' = length buf" "take (Suc out + k) buf' = take out buf @ b # take k rest" "drop (Suc pos + k) buf' = drop k rest"
        using copy_continuation_spec [of "Suc out" "Suc pos" "buf[out := b]" n] less.prems pos t e
        by (auto simp: Let_def k_def rest_def add.commute)
      have k: "Suc pos + k \<le> length buf" using continuation_run_le(2) [of n rest] pos by (simp add: k_def rest_def)
      have out: "out < length buf'" using less.prems pos c(2) by simp
      have "take (Suc out) buf' = take out buf @ [b]" using arg_cong [OF c(3), of "take (Suc out)"] less.prems pos by simp
      then have first: "byte buf' out = b" "take out buf' = take out buf"
        using out less.prems pos by (simp_all add: byte_def take_Suc_conv_app_nth)
      have conts: "take k (drop (Suc out) buf') = take k rest"
        using arg_cong [OF c(3), of "drop (Suc out)"] less.prems pos by (simp add: drop_take)
      have keep: "replace_loop buf' (Suc out + k) (Suc pos + k) = take out buf @ b # take k rest @ replace_utf8 (drop k rest)"
        using less.hyps [of buf' "Suc pos + k" "Suc out + k"] less.prems pos k c(2-4) by simp
      have "take (Suc out) (buf'[out := ZBX_UTF8_REPLACE_CHAR]) = take out buf @ [ZBX_UTF8_REPLACE_CHAR]"
        using take_Suc_list_update [OF out] first(2) by simp
      moreover have "drop (Suc pos + k) (buf'[out := ZBX_UTF8_REPLACE_CHAR]) = drop k rest" using less.prems c(4) by simp
      ultimately have put: "replace_loop (buf'[out := ZBX_UTF8_REPLACE_CHAR]) (Suc out) (Suc pos + k) =
          take out buf @ ZBX_UTF8_REPLACE_CHAR # replace_utf8 (drop k rest)"
        using less.hyps [of "buf'[out := ZBX_UTF8_REPLACE_CHAR]" "Suc pos + k" "Suc out"] less.prems pos k c(2) by simp
      have "replace_loop buf out pos = (if k = n \<and> sequence_ok b (take k rest) then replace_loop buf' (Suc out + k) (Suc pos + k)
          else replace_loop (buf'[out := ZBX_UTF8_REPLACE_CHAR]) (Suc out) (Suc pos + k))"
        using pos 3 c(1) first(1) conts by (subst replace_loop.simps) (cases "k = n"; simp add: Let_def b_def [symmetric] n_def [symmetric])
      also have "\<dots> = take out buf @ replace_utf8 (b # rest)"
        using 3 keep put by (cases "k = n"; simp add: replace_utf8.simps Let_def n_def [symmetric] k_def [symmetric])
      finally show ?thesis by (simp add: d rest_def)
    qed
  qed
qed

lemma zbx_replace_invalid_utf8_eq: "zbx_replace_invalid_utf8 t = replace_utf8 t"
  by (simp add: zbx_replace_invalid_utf8_def replace_loop_eq)

lemma replace_utf8_valid: "zbx_is_utf8 (replace_utf8 t)"
proof (induction t rule: replace_utf8.induct)
  case (2 b t)
  define n where "n = expecting_bytes b"
  define k where "k = continuation_run n t"
  have q: "zbx_is_utf8 (ZBX_UTF8_REPLACE_CHAR # r) = zbx_is_utf8 r" for r
    by (rule is_utf8_ascii) (simp add: ZBX_UTF8_REPLACE_CHAR_def)
  consider "b AND 0x80 = 0" | "b AND 0x80 \<noteq> 0" "b AND 0xc0 = 0x80 \<or> b AND 0xfe = 0xfe"
    | "b AND 0x80 \<noteq> 0" "\<not> (b AND 0xc0 = 0x80 \<or> b AND 0xfe = 0xfe)" "k = n" "sequence_ok b (take n t)"
    | "b AND 0x80 \<noteq> 0" "\<not> (b AND 0xc0 = 0x80 \<or> b AND 0xfe = 0xfe)" "\<not> (k = n \<and> sequence_ok b (take n t))" by blast
  then show ?case
  proof cases
    case 1
    then show ?thesis using 2(1) is_utf8_ascii by (simp add: replace_utf8.simps byte_tests)
  next
    case 2
    then show ?thesis using "2.IH"(2) q by (auto simp: replace_utf8.simps)
  next
    case 3
    then have "zbx_is_utf8 (b # take n t @ replace_utf8 (drop n t)) = zbx_is_utf8 (replace_utf8 (drop n t))"
      using continuation_run_all [of n t] continuation_run_all [of n "take n t @ replace_utf8 (drop n t)"]
      by (simp add: zbx_is_utf8.simps(2) Let_def n_def [symmetric] k_def [symmetric])
    then show ?thesis using 3 "2.IH"(3) by (simp add: replace_utf8.simps Let_def n_def [symmetric] k_def [symmetric])
  next
    case 4
    then show ?thesis using "2.IH"(4) q by (auto simp: replace_utf8.simps Let_def n_def [symmetric] k_def [symmetric])
  qed
qed simp

lemma replace_utf8_id: "zbx_is_utf8 t \<Longrightarrow> replace_utf8 t = t"
proof (induction t rule: replace_utf8.induct)
  case (2 b t)
  define n where "n = expecting_bytes b"
  have "continuation_run n t \<le> n" by (rule continuation_run_le)
  then show ?case using 2 by (auto simp: replace_utf8.simps zbx_is_utf8.simps(2) Let_def n_def [symmetric] split: if_splits)
qed simp

lemma replace_utf8_length: "length (replace_utf8 t) \<le> length t"
proof (induction t rule: replace_utf8.induct)
  case (2 b t)
  define n where "n = expecting_bytes b"
  have "continuation_run n t = n \<Longrightarrow> n \<le> length t" using continuation_run_le(2) [of n t] by simp
  then show ?case using 2 by (auto simp: replace_utf8.simps Let_def n_def [symmetric] intro: order_trans [OF _ diff_le_self])
qed simp

text \<open>
  What replacing means: an accepted character is kept; where none begins, one byte and some continuation bytes behind it
  become a question mark.
\<close>

inductive replaced :: "u8 list \<Rightarrow> u8 list \<Rightarrow> bool" where
  replaced_end: "replaced [] []"
| replaced_keep: "accepted c \<Longrightarrow> replaced t r \<Longrightarrow> replaced (utf8_char c @ t) (utf8_char c @ r)"
| replaced_bad: "(\<nexists>c r. accepted c \<and> b # x @ t = utf8_char c @ r) \<Longrightarrow> \<forall>d\<in>set x. continuation d \<Longrightarrow> replaced t r \<Longrightarrow>
    replaced (b # x @ t) (ZBX_UTF8_REPLACE_CHAR # r)"

lemma character_start:
  assumes "accepted c" "b # t = utf8_char c @ r" "\<not> unat b < 128"
  shows "192 \<le> unat b \<and> unat b < 254 \<and> continuation_run (expecting_bytes b) t = expecting_bytes b \<and>
    sequence_ok b (take (expecting_bytes b) t)"
proof -
  have "128 \<le> c"
  proof (rule ccontr)
    assume "\<not> 128 \<le> c"
    then have "utf8_char c = [of_nat c]" "unat (of_nat c :: u8) = c" using unat_small by (simp_all add: utf8_char_def)
    then show False using assms(2,3) \<open>\<not> 128 \<le> c\<close> by simp
  qed
  then obtain b' bs where s: "utf8_char c = b' # bs" "sequence c b' bs"
    using sequence_complete [of c] assms(1) by (auto simp: accepted_def)
  then have "b' = b" "t = bs @ r" using assms(2) by simp_all
  then show ?thesis using s(2) sequence_ok_iff [OF s(2)] assms(1) continuation_run_all [of "expecting_bytes b" t] by (simp add: sequence_def)
qed

lemma no_character:
  assumes "\<not> unat b < 128" "\<not> (192 \<le> unat b \<and> unat b < 254 \<and> continuation_run (expecting_bytes b) t = expecting_bytes b \<and>
    sequence_ok b (take (expecting_bytes b) t))"
  shows "\<nexists>c r. accepted c \<and> b # t = utf8_char c @ r"
  using character_start [OF _ _ assms(1)] assms(2) by blast

lemma continuation_run_prefix: "d \<in> set (take (continuation_run n t) t) \<Longrightarrow> continuation d"
  unfolding byte_tests(2) [symmetric] by (induction n t rule: continuation_run.induct) (auto split: if_splits)

lemma replace_utf8_replaced: "replaced t (replace_utf8 t)"
proof (induction t rule: replace_utf8.induct)
  case (2 b t)
  define n where "n = expecting_bytes b"
  define k where "k = continuation_run n t"
  consider "unat b < 128" | "\<not> unat b < 128" "unat b < 192 \<or> 254 \<le> unat b"
    | "192 \<le> unat b" "unat b < 254" "k = n" "sequence_ok b (take n t)"
    | "192 \<le> unat b" "unat b < 254" "\<not> (k = n \<and> sequence_ok b (take n t))"
    using not_le [of 192 "unat b"] not_le [of 254 "unat b"] by blast
  then show ?case
  proof cases
    case 1
    then have "utf8_char (unat b) = [b]" "accepted (unat b)" by (simp_all add: utf8_char_def accepted_def)
    then show ?thesis using 1 2(1) replaced_keep [of "unat b" t] by (simp add: replace_utf8.simps byte_tests)
  next
    case 2
    then have no: "\<nexists>c r. accepted c \<and> b # t = utf8_char c @ r" by (intro no_character) (simp_all, linarith)
    have "replaced t (replace_utf8 t)" using "2.IH"(2) 2 by (simp add: byte_tests)
    from replaced_bad [of b "[]", OF _ _ this] no show ?thesis using 2 by (simp add: replace_utf8.simps byte_tests)
  next
    case 3
    then obtain c where c: "accepted c" "utf8_char c = b # take n t"
      using sequence_sound [of b "take n t"] continuation_run_all [of n t] by (auto simp: n_def k_def)
    have "replaced (drop n t) (replace_utf8 (drop n t))"
      using "2.IH"(3) 3 by (simp add: byte_tests n_def [symmetric] k_def [symmetric])
    from replaced_keep [OF c(1) this] show ?thesis using 3 c(2)
      by (simp add: replace_utf8.simps byte_tests Let_def n_def [symmetric] k_def [symmetric])
  next
    case 4
    then have no: "\<nexists>c r. accepted c \<and> b # take k t @ drop k t = utf8_char c @ r"
      unfolding append_take_drop_id by (intro no_character) (auto simp: n_def k_def)
    have mask: "b AND 0x80 \<noteq> 0" "\<not> (b AND 0xc0 = 0x80 \<or> b AND 0xfe = 0xfe)" using 4 by (simp_all add: byte_tests)
    have eq: "replace_utf8 (b # t) = ZBX_UTF8_REPLACE_CHAR # replace_utf8 (drop k t)"
      unfolding replace_utf8.simps if_not_P [OF mask(1)] if_not_P [OF mask(2)] Let_def n_def [symmetric] k_def [symmetric] if_not_P [OF 4(3)] ..
    have "replaced (drop k t) (replace_utf8 (drop k t))"
      by (rule "2.IH"(4) [OF mask n_def k_def]) (use 4 in \<open>simp add: n_def k_def\<close>)
    from replaced_bad [OF no _ this] show ?thesis unfolding eq append_take_drop_id
      using continuation_run_prefix [of _ n t] by (simp add: k_def)
  qed
qed (simp add: replaced_end)

text \<open>C26. The replacement of invalid sequences, done in place, keeps the accepted characters and puts a question mark for
  what is between them; the result is accepted by the check and no longer than the text was.\<close>

theorem zbx_replace_invalid_utf8_exact:
  "replaced t (zbx_replace_invalid_utf8 t) \<and> zbx_is_utf8 (zbx_replace_invalid_utf8 t) \<and>
   length (zbx_replace_invalid_utf8 t) \<le> length t"
  using replace_utf8_valid replace_utf8_length replace_utf8_replaced by (simp add: zbx_replace_invalid_utf8_eq)

section \<open>Exactness of the cuts\<close>

definition utf8 :: "nat list \<Rightarrow> u8 list" where
  "utf8 cs = concat (map utf8_char cs)"

lemma utf8_simps [simp]: "utf8 [] = []" "utf8 (c # cs) = utf8_char c @ utf8 cs"
  by (simp_all add: utf8_def)

text \<open>The characters that fit into a number of bytes.\<close>

fun fit_chars :: "nat \<Rightarrow> nat list \<Rightarrow> nat list" where
  "fit_chars m [] = []"
| "fit_chars m (c # cs) = (if length (utf8_char c) \<le> m then c # fit_chars (m - length (utf8_char c)) cs else [])"

lemma char_shape:
  assumes "c \<le> 0x10ffff"
  shows "\<exists>b bs. utf8_char c = b # bs \<and> \<not> continuation b \<and> (\<forall>d\<in>set bs. continuation d) \<and> zbx_utf8_char_len (b # r) = Suc (length bs)"
proof (cases "c < 128")
  case True
  then show ?thesis using unat_small [of c] by (simp add: utf8_char_def zbx_utf8_char_len_def byte_def Let_def byte_tests)
next
  case False
  then obtain b bs where s: "utf8_char c = b # bs" "sequence c b bs" using sequence_complete [OF assms] by auto
  have "length (utf8_char c) \<le> 4" by (simp add: utf8_char_def)
  then have l: "length bs \<le> 3" using s(1) by simp
  then have "unat b < 248" using s(2) expecting_bytes_cases [of b] by (force simp: sequence_def)
  then have "zbx_utf8_char_len (b # r) = Suc (length bs)" using s(2) expecting_bytes_cases [of b]
    by (auto simp: sequence_def zbx_utf8_char_len_def byte_def Let_def byte_tests)
  then show ?thesis using s by (auto simp: sequence_def)
qed

lemma strlen_continuation: "\<forall>d\<in>set bs. continuation d \<Longrightarrow> zbx_strlen_utf8 (bs @ t) = zbx_strlen_utf8 t"
  by (induction bs) (auto simp: and.commute byte_tests)

lemma cut_back_continuation: "(\<And>i. 0 < i \<Longrightarrow> i \<le> m \<Longrightarrow> continuation (byte t i)) \<Longrightarrow> cut_back t m = 0"
  by (induction m) (simp_all add: and.commute [of "0xc0"] byte_tests)

lemma cut_back_append:
  assumes "u \<noteq> []" "\<not> continuation (byte t 0)"
  shows "cut_back (u @ t) (length u + m) = length u + cut_back t m"
proof (induction m)
  case 0
  obtain l where "length u = Suc l" using assms(1) by (cases u) auto
  moreover have "byte (u @ t) (length u) = byte t 0" by (simp add: byte_def nth_append)
  ultimately show ?case using assms(2) by (auto simp: and.commute [of "0xc0"] byte_tests)
next
  case (Suc m)
  have "byte (u @ t) (Suc (length u + m)) = byte t (Suc m)" by (simp add: byte_def nth_append)
  then show ?case using Suc by (simp add: and.commute [of "0xc0"] byte_tests)
qed

lemma utf8_start: "\<forall>c\<in>set cs. c \<le> 0x10ffff \<Longrightarrow> \<not> continuation (byte (utf8 cs) 0)"
proof (cases cs)
  case (Cons c cs')
  assume "\<forall>c\<in>set cs. c \<le> 0x10ffff"
  then obtain b bs where "utf8_char c = b # bs" "\<not> continuation b" using char_shape [of c "[]"] Cons by auto
  then show ?thesis using Cons by (simp add: byte_def)
qed (simp add: byte_def)

lemma nbytes_fit:
  assumes "\<forall>c\<in>set cs. c \<le> 0x10ffff"
  shows "zbx_strlen_utf8_nbytes (utf8 cs) m = length (utf8 (fit_chars m cs))"
  using assms
proof (induction cs arbitrary: m)
  case (Cons c cs)
  obtain b bs where u: "utf8_char c = b # bs" "\<forall>d\<in>set bs. continuation d" using char_shape [of c "[]"] Cons.prems by auto
  define n where "n = length (utf8_char c)"
  have n: "n = Suc (length bs)" by (simp add: n_def u)
  show ?case
  proof (cases "n \<le> m")
    case True
    have "cut_back (utf8_char c @ utf8 cs) (n + (m - n)) = n + cut_back (utf8 cs) (m - n)"
      unfolding n_def by (rule cut_back_append) (use utf8_start [of cs] Cons.prems u in simp_all)
    then have "cut_back (utf8 (c # cs)) m = n + cut_back (utf8 cs) (m - n)" using True by simp
    moreover have "length (utf8 (c # cs)) = n + length (utf8 cs)" by (simp add: n_def)
    moreover have "m < n + length (utf8 cs) \<longleftrightarrow> m - n < length (utf8 cs)" using True by linarith
    ultimately show ?thesis using Cons.IH [of "m - n"] Cons.prems True
      by (simp add: zbx_strlen_utf8_nbytes_def n_def [symmetric] split: if_splits)
  next
    case False
    have "continuation (byte (utf8 (c # cs)) i)" if "0 < i" "i \<le> m" for i
    proof -
      have "byte (utf8 (c # cs)) i = bs ! (i - 1)" "i - 1 < length bs" using that False n by (auto simp: byte_def u nth_append nth_Cons')
      then show ?thesis using u(2) by simp
    qed
    then have "cut_back (utf8 (c # cs)) m = 0" by (rule cut_back_continuation)
    moreover have "m < length (utf8 (c # cs))" using False n u by simp
    ultimately show ?thesis using False by (simp add: zbx_strlen_utf8_nbytes_def n_def)
  qed
qed (simp add: zbx_strlen_utf8_nbytes_def)

lemma charcount_take: "charcount_loop t m = zbx_strlen_utf8 (take m t)"
  by (induction t m rule: charcount_loop.induct) (auto simp: take_Cons')

lemma strlen_utf8_chars: "\<forall>c\<in>set cs. c \<le> 0x10ffff \<Longrightarrow> zbx_strlen_utf8 (utf8 cs) = length cs"
proof (induction cs)
  case (Cons c cs)
  obtain b bs where "utf8_char c = b # bs" "\<not> continuation b" "\<forall>d\<in>set bs. continuation d" using char_shape [of c "[]"] Cons.prems by auto
  then show ?case using Cons strlen_continuation [of bs "utf8 cs"] by (auto simp: and.commute [of "0xc0"] byte_tests)
qed simp

lemma fit_chars_prefix: "\<exists>r. cs = fit_chars m cs @ r"
  by (induction m cs rule: fit_chars.induct) auto

lemma fit_chars_length: "length (utf8 (fit_chars m cs)) \<le> m"
  by (induction m cs rule: fit_chars.induct) auto

lemma take_fit: "take (length (utf8 (fit_chars m cs))) (utf8 cs) = utf8 (fit_chars m cs)"
proof -
  obtain r where "cs = fit_chars m cs @ r" using fit_chars_prefix by blast
  then have "utf8 cs = utf8 (fit_chars m cs) @ utf8 r" by (metis utf8_def concat_append map_append)
  then show ?thesis by simp
qed

lemma nchars_take:
  assumes "\<forall>c\<in>set cs. c \<le> 0x10ffff"
  shows "zbx_strlen_utf8_nchars (utf8 cs) n = length (utf8 (take n cs))"
  using assms
proof (induction cs arbitrary: n)
  case (Cons c cs)
  show ?case
  proof (cases n)
    case (Suc n')
    obtain b bs where u: "utf8_char c = b # bs" "zbx_utf8_char_len (b # (bs @ utf8 cs)) = Suc (length bs)"
      using char_shape [of c "bs @ utf8 cs" for bs] Cons.prems by (metis char_shape list.set_intros(1) list.inject)
    then show ?thesis using Cons Suc by (subst zbx_strlen_utf8_nchars.simps) (simp add: Let_def)
  qed (simp add: zbx_strlen_utf8_nchars.simps)
qed (simp add: zbx_strlen_utf8_nchars.simps)

text \<open>C27. On a text in UTF-8 the functions count and cut by characters: the number of characters, the bytes of the first
  characters, and the most characters that fit into a number of bytes; a copy into a buffer is such a cut with its
  terminator, and stays within the buffer.\<close>

theorem utf8_cuts_exact:
  assumes "\<forall>c\<in>set cs. unicode_scalar c" "0 < siz" "siz \<le> length dst" "length dst < 2 ^ 64"
  shows "zbx_strlen_utf8 (utf8 cs) = length cs \<and>
    zbx_strlen_utf8_nchars (utf8 cs) n = length (utf8 (take n cs)) \<and>
    zbx_strlen_utf8_nbytes (utf8 cs) n = length (utf8 (fit_chars n cs)) \<and>
    zbx_charcount_utf8_nbytes (utf8 cs) n = length (fit_chars n cs) \<and>
    (let kept = utf8 (fit_chars (siz - 1) cs)
     in zbx_strlcpy_utf8 dst (utf8 cs) siz = Inr (length kept, kept @ [0] @ drop (length kept + 1) dst))"
proof -
  have c: "\<forall>c\<in>set cs. c \<le> 0x10ffff" using assms(1) by (auto simp: unicode_scalar_def)
  then have f: "\<forall>c\<in>set (fit_chars m cs). c \<le> 0x10ffff" for m using fit_chars_prefix [of cs m] by (metis UnCI set_append)
  have s: "(siz + (2 ^ 64 - 1)) mod 2 ^ 64 = siz - 1"
  proof -
    have "siz + (2 ^ 64 - 1) = (siz - 1) + 2 ^ 64" using assms(2) by simp
    then show ?thesis using assms(2-4) by (simp only: mod_add_self2) simp
  qed
  have "length (utf8 (fit_chars (siz - 1) cs)) < length dst" using fit_chars_length [of "siz - 1" cs] assms(2,3) by linarith
  then have "zbx_strlcpy_utf8 dst (utf8 cs) siz = Inr (length (utf8 (fit_chars (siz - 1) cs)),
      utf8 (fit_chars (siz - 1) cs) @ [0] @ drop (length (utf8 (fit_chars (siz - 1) cs)) + 1) dst)"
    unfolding zbx_strlcpy_utf8_def s Let_def nbytes_fit [OF c] take_fit by (simp add: memcpy_cells_def)
  then show ?thesis using strlen_utf8_chars [OF c] nchars_take [OF c] nbytes_fit [OF c] strlen_utf8_chars [OF f] take_fit
    by (simp add: zbx_charcount_utf8_nbytes_def charcount_take Let_def)
qed

theorem utf8_cuts_exact_witness:
  "zbx_strlcpy_utf8 [9, 9, 9, 9] (utf8 [65, 0xe4, 0x20ac]) 4 = Inr (3, [65, 195, 164, 0])"
proof -
  have "\<forall>c\<in>set [65, 0xe4, 0x20ac]. unicode_scalar c" by (simp add: unicode_scalar_def)
  from utf8_cuts_exact [OF this, of 4 "[9, 9, 9, 9]"] show ?thesis by (simp add: Let_def utf8_char_def)
qed

theorem zbx_is_utf8_exact_witness:
  "zbx_is_utf8 [65, 0xf0, 0x9f, 0x98, 0x80] \<and> \<not> zbx_is_utf8 [0xf0, 0x9d, 0xa0, 0x80]"
proof
  have "[65, 0xf0, 0x9f, 0x98, 0x80] = concat (map utf8_char [65, 0x1f600])" by (simp add: utf8_char_def)
  moreover have "\<forall>c\<in>set [65, 0x1f600]. unicode_scalar c \<and> \<not> mistaken c" by (simp add: unicode_scalar_def mistaken_def)
  ultimately show "zbx_is_utf8 [65, 0xf0, 0x9f, 0x98, 0x80]"
    using zbx_is_utf8_exact [of "[65, 0xf0, 0x9f, 0x98, 0x80]"] by blast
  have "utf8_char 0x1d800 @ [] = [0xf0, 0x9d, 0xa0, 0x80]" by (simp add: utf8_char_def)
  then show "\<not> zbx_is_utf8 [0xf0, 0x9d, 0xa0, 0x80]"
    using zbx_is_utf8_exact [of "[]" "0x1d800"] by (simp add: unicode_scalar_def mistaken_def)
qed

end
