(* ===== verification/FuncParam.thy ===== *)
theory FuncParam
  imports NumParse
begin

text \<open>
  Escaping and quoting of strings, and the parameters of trigger functions (\<open>src/libs/zbxcommon/str.c\<close>): the parser of
  one parameter, the access to a parameter by its number, and the check of a whole list, with its counterpart, the
  quoting of a parameter from the end of its buffer.
\<close>

section \<open>Escaping\<close>

abbreviation QUOTE :: char where
  "QUOTE \<equiv> CHR 0x22"

abbreviation BACKSLASH :: char where
  "BACKSLASH \<equiv> CHR 0x5C"

fun zbx_get_escape_string_len :: "string \<Rightarrow> string \<Rightarrow> nat" where
  "zbx_get_escape_string_len [] charlist = 0"
| "zbx_get_escape_string_len (c # src) charlist =
    (if strchr charlist c \<noteq> None then 2 else 1) + zbx_get_escape_string_len src charlist"

fun zbx_dyn_escape_string :: "string \<Rightarrow> string \<Rightarrow> string" where
  "zbx_dyn_escape_string [] charlist = []"
| "zbx_dyn_escape_string (c # src) charlist =
    (if strchr charlist c \<noteq> None then [BACKSLASH, c] else [c]) @ zbx_dyn_escape_string src charlist"

text \<open>Into a buffer: the position written, the size that is left, and every write checked against the buffer.\<close>

definition put_char :: "nat \<Rightarrow> char \<Rightarrow> string \<Rightarrow> string outcome" where
  "put_char d c dst = (if d < length dst then Inr (dst[d := c]) else Inl OutOfBounds)"

definition dec_size :: "nat \<Rightarrow> nat" where
  "dec_size len = (len + (2 ^ 64 - 1)) mod 2 ^ 64"

fun escape_loop :: "string \<Rightarrow> nat \<Rightarrow> nat \<Rightarrow> string \<Rightarrow> string \<Rightarrow> (bool \<times> string) outcome" where
  "escape_loop dst d len [] charlist = map_sum id (Pair True) (put_char d NUL dst)"
| "escape_loop dst d len (c # src) charlist =
    (if dec_size len = 0 then Inr (False, dst)
     else if strchr charlist c \<noteq> None then
       (case put_char d BACKSLASH dst of
          Inl e \<Rightarrow> Inl e
        | Inr dst \<Rightarrow>
            (case put_char (d + 1) c dst of Inl e \<Rightarrow> Inl e | Inr dst \<Rightarrow> escape_loop dst (d + 2) (dec_size len) src charlist))
     else
       (case put_char d c dst of Inl e \<Rightarrow> Inl e | Inr dst \<Rightarrow> escape_loop dst (d + 1) (dec_size len) src charlist))"

definition zbx_escape_string :: "string \<Rightarrow> nat \<Rightarrow> string \<Rightarrow> string \<Rightarrow> (bool \<times> string) outcome" where
  "zbx_escape_string dst len src charlist = escape_loop dst 0 len src charlist"

section \<open>Quoting\<close>

text \<open>The buffer of the parameter is filled from its end, the part in front is still to be read.\<close>

fun quote_fill :: "string \<Rightarrow> nat \<Rightarrow> nat \<Rightarrow> string \<times> nat" where
  "quote_fill param 0 sz_dst = (param, sz_dst)"
| "quote_fill param (Suc sz_src) sz_dst =
    (let param = param[sz_dst - 1 := param ! sz_src]
     in if param ! sz_src = QUOTE then quote_fill (param[sz_dst - 2 := BACKSLASH]) sz_src (sz_dst - 2)
        else quote_fill param sz_src (sz_dst - 1))"

text \<open>The quoted parameter, in front of its NUL, or \<open>FAIL\<close>. New cells of the buffer hold whatever they held.\<close>

definition quote_param :: "char \<Rightarrow> string \<Rightarrow> string option" where
  "quote_param junk param =
    (let sz_src = length param
     in if sz_src \<noteq> 0 \<and> param ! (sz_src - 1) = BACKSLASH then None
        else
          let sz_dst = zbx_get_escape_string_len param [QUOTE] + 3;
              buf = realloc_cells junk sz_dst (param @ [NUL]);
              buf = buf[sz_dst - 1 := NUL, sz_dst - 2 := QUOTE]
          in case quote_fill buf sz_src (sz_dst - 2) of
               (buf, sz_dst) \<Rightarrow> Some (butlast (buf[sz_dst - 1 := QUOTE])))"

definition zbx_function_param_quote :: "char \<Rightarrow> string \<Rightarrow> bool \<Rightarrow> string option" where
  "zbx_function_param_quote junk param forced =
    (if \<not> forced \<and> cchar param 0 \<noteq> QUOTE \<and> cchar param 0 \<noteq> CHR '' '' \<and> strchr param CHR '','' = None \<and> strchr param CHR '')'' = None
     then Some param else quote_param junk param)"

section \<open>Parsing parameters\<close>

text \<open>The number of characters up to the closing quote, from the character before: a quote behind a backslash does not close.\<close>

fun quoted_len :: "char \<Rightarrow> string \<Rightarrow> nat option" where
  "quoted_len prev [] = None"
| "quoted_len prev (c # p) = (if c = QUOTE \<and> prev \<noteq> BACKSLASH then Some 0 else map_option Suc (quoted_len c p))"

text \<open>The position of the parameter, its length, and the position of its separator.\<close>

definition zbx_function_param_parse :: "string \<Rightarrow> nat \<times> nat \<times> nat" where
  "zbx_function_param_parse expr =
    (let param_pos = length (takeWhile (\<lambda>c. c = CHR '' '') expr); p = drop param_pos expr
     in if cchar p 0 = QUOTE then
          (case quoted_len QUOTE (drop 1 p) of
             None \<Rightarrow> (param_pos, length p, length expr)
           | Some n \<Rightarrow>
               let len = n + 2; spaces = length (takeWhile (\<lambda>c. c = CHR '' '') (drop len p))
               in (param_pos, len, param_pos + len + spaces))
        else
          let sep_pos = length (takeWhile (\<lambda>c. c \<noteq> CHR '')'' \<and> c \<noteq> CHR '','') expr)
          in (param_pos, sep_pos - param_pos, sep_pos))"

text \<open>The characters of a quoted parameter, from behind its first quote, with the number of characters left.\<close>

fun unquote_loop :: "string \<Rightarrow> nat \<Rightarrow> string" where
  "unquote_loop (c # d # p) (Suc n) =
    (if c = BACKSLASH \<and> d = QUOTE then d # unquote_loop p (n - 1) else c # unquote_loop (d # p) n)"
| "unquote_loop [c] (Suc n) = [c]"
| "unquote_loop p n = []"

definition zbx_function_param_unquote_dyn :: "string \<Rightarrow> nat \<Rightarrow> string \<times> bool" where
  "zbx_function_param_unquote_dyn param len =
    (if \<not> (len \<noteq> 0 \<and> cchar param 0 = QUOTE) then (take len param, False)
     else (unquote_loop (drop 1 param) (len - 2), True))"

text \<open>The rest of the list, or nothing when the last separator was its end.\<close>

function get_param_loop :: "string option \<Rightarrow> int \<Rightarrow> int \<Rightarrow> string option" where
  "get_param_loop ptr idx Nparam =
    (if idx + 1 \<le> Nparam then
       (case ptr of
          None \<Rightarrow> None
        | Some p \<Rightarrow>
            (case zbx_function_param_parse p of (param_pos, param_len, sep_pos) \<Rightarrow>
               if idx + 1 = Nparam then Some (fst (zbx_function_param_unquote_dyn (drop param_pos p) param_len))
               else get_param_loop (if sep_pos < length p then Some (drop (sep_pos + 1) p) else None) (idx + 1) Nparam))
     else None)"
  by pat_completeness auto
termination by (relation "measure (\<lambda>(ptr, idx, N). nat (N - idx))") auto

declare get_param_loop.simps [simp del]

definition zbx_function_get_param_dyn :: "string \<Rightarrow> int \<Rightarrow> string option" where
  "zbx_function_get_param_dyn params Nparam = get_param_loop (Some params) 0 Nparam"

section \<open>Checking parameters\<close>

datatype param_state = ParamNext | ParamQuoted | ParamUnquoted | ParamPostQuoted

text \<open>
  From the position, the character before it, the state and the offset of the last parameter: the position of the
  terminator, or the offset and length of the parameter that is wrong.
\<close>

fun validate_loop :: "char \<Rightarrow> nat \<Rightarrow> char \<Rightarrow> param_state \<Rightarrow> nat \<Rightarrow> string \<Rightarrow> (nat \<times> nat) + nat" where
  "validate_loop terminator i prev state lpp [] =
    (if terminator = NUL \<and> state \<noteq> ParamQuoted then Inr i else Inl (lpp, i - lpp))"
| "validate_loop terminator i prev state lpp (c # p) =
    (if terminator = c \<and> state \<noteq> ParamQuoted then Inr i
     else
       case state of
         ParamNext \<Rightarrow>
           validate_loop terminator (i + 1) c
             (if c = QUOTE then ParamQuoted else if c \<noteq> CHR '' '' \<and> c \<noteq> CHR '','' then ParamUnquoted else ParamNext) i p
       | ParamQuoted \<Rightarrow>
           validate_loop terminator (i + 1) c (if c = QUOTE \<and> prev \<noteq> BACKSLASH then ParamPostQuoted else ParamQuoted) lpp p
       | ParamUnquoted \<Rightarrow> validate_loop terminator (i + 1) c (if c = CHR '','' then ParamNext else ParamUnquoted) lpp p
       | ParamPostQuoted \<Rightarrow>
           if c = CHR '','' then validate_loop terminator (i + 1) c ParamNext lpp p
           else if c \<noteq> CHR '' '' then Inl (lpp, i - lpp)
           else validate_loop terminator (i + 1) c ParamPostQuoted lpp p)"

definition function_validate_parameters :: "string \<Rightarrow> char \<Rightarrow> (nat \<times> nat) + nat" where
  "function_validate_parameters expr terminator = validate_loop terminator 0 NUL ParamNext 0 expr"

definition zbx_function_validate_parameters :: "string \<Rightarrow> nat option" where
  "zbx_function_validate_parameters expr = (case function_validate_parameters expr NUL of Inl e \<Rightarrow> None | Inr n \<Rightarrow> Some n)"

text \<open>The length of the name, and whether a parenthesis follows.\<close>

definition function_parse_name :: "string \<Rightarrow> nat \<times> bool" where
  "function_parse_name expr =
    (let n = length (takeWhile (\<lambda>c. is_function_char c = SUCCEED) expr) in (n, n \<noteq> 0 \<and> cchar expr n = CHR ''(''))"

definition function_match_parenthesis :: "string \<Rightarrow> nat \<Rightarrow> (nat \<times> nat) + nat" where
  "function_match_parenthesis expr par_l =
    (case function_validate_parameters (drop (par_l + 1) expr) CHR '')'' of
       Inr par_r \<Rightarrow> Inr (par_r + par_l + 1)
     | Inl (lpp_offset, lpp_len) \<Rightarrow> Inl (lpp_offset + par_l + 1, lpp_len))"

text \<open>
  The positions of the parentheses, or the number of characters to skip with the error message: the function and the
  part that is wrong, or the expression. The position of the closing parenthesis is only compared when it is left over
  from the caller.
\<close>

datatype function_error = IncorrectFunction string string | IncorrectExpression string

definition zbx_function_validate :: "string \<Rightarrow> nat \<Rightarrow> (nat \<times> function_error) + nat \<times> nat" where
  "zbx_function_validate expr par_r0 =
    (case function_parse_name expr of (par_l, named) \<Rightarrow>
       if \<not> named then Inl (par_l, IncorrectExpression expr)
       else
         case function_match_parenthesis expr par_l of
           Inr par_r \<Rightarrow> Inr (par_l, par_r)
         | Inl (lpp_offset, lpp_len) \<Rightarrow>
             Inl (par_l, if par_r0 < par_l then IncorrectFunction (take par_l expr) (take lpp_len (drop lpp_offset expr))
               else IncorrectExpression expr))"

section \<open>What escaping and quoting write\<close>

lemma escape_string_len: "zbx_get_escape_string_len src cl = length (zbx_dyn_escape_string src cl)"
  by (induction src) auto

lemma escape_append: "zbx_dyn_escape_string (s @ t) cl = zbx_dyn_escape_string s cl @ zbx_dyn_escape_string t cl"
  by (induction s) auto

lemma escape_longer: "length s \<le> length (zbx_dyn_escape_string s cl)"
  by (induction s) auto

lemma dec_size_eq: "0 < len \<Longrightarrow> len < 2 ^ 64 \<Longrightarrow> dec_size len = len - 1"
proof -
  assume a: "0 < len" "len < 2 ^ 64"
  have "len + (2 ^ 64 - 1) = (len - 1) + 2 ^ 64" using a(1) by simp
  then show ?thesis using a(2) unfolding dec_size_def by (simp only: mod_add_self2) simp
qed

lemma put_char_cases:
  "put_char d c dst = Inr dst' \<Longrightarrow> d < length dst \<and> length dst' = length dst \<and> take (Suc d) dst' = take d dst @ [c] \<and>
    (\<forall>k>d. drop k dst' = drop k dst)"
  by (auto simp: put_char_def take_Suc_list_update split: if_splits)

lemma escape_loop_exact:
  assumes "length src < len" "len < 2 ^ 64"
  shows "escape_loop dst d len src cl =
    (let esc = zbx_dyn_escape_string src cl
     in if d + length esc < length dst then Inr (True, take d dst @ esc @ NUL # drop (Suc (d + length esc)) dst) else Inl OutOfBounds)"
  using assms
proof (induction src arbitrary: dst d len)
  case Nil
  show ?case by (auto simp: put_char_def upd_conv_take_nth_drop)
next
  case (Cons c src)
  have dec: "dec_size len = len - 1" "dec_size len \<noteq> 0" using dec_size_eq [of len] Cons.prems by auto
  have less: "length src < len - 1" "len - 1 < 2 ^ 64" using Cons.prems by simp_all
  note IH = Cons.IH [OF less]
  show ?case
  proof (cases "strchr cl c = None")
    case True
    then show ?thesis using dec IH [of "dst[d := c]" "d + 1"]
      by (auto simp: put_char_def Let_def take_Suc_list_update)
  next
    case False
    show ?thesis
    proof (cases "Suc d < length dst")
      case True
      have "take (Suc (Suc d)) (dst[d := BACKSLASH, Suc d := c]) = take d dst @ [BACKSLASH, c]"
        using True by (simp add: take_Suc_list_update)
      then show ?thesis using True False dec IH [of "dst[d := BACKSLASH, Suc d := c]" "d + 2"]
        by (auto simp: put_char_def Let_def)
    qed (use False dec in \<open>auto simp: put_char_def Let_def\<close>)
  qed
qed

text \<open>C36. The size given to \<open>zbx_escape_string\<close> counts characters, not bytes: a source shorter than the size is written
  with all its backslashes, correctly where the buffer has room for them, and behind its end where it has not.\<close>

theorem zbx_escape_string_exact:
  assumes "length src < len" "len < 2 ^ 64"
  shows "zbx_escape_string dst len src charlist =
    (let esc = zbx_dyn_escape_string src charlist
     in if zbx_get_escape_string_len src charlist < length dst
        then Inr (True, esc @ NUL # drop (Suc (length esc)) dst) else Inl OutOfBounds)"
  using escape_loop_exact [OF assms, of dst 0 charlist] by (simp add: zbx_escape_string_def escape_string_len Let_def)

theorem zbx_escape_string_exact_witness:
  "zbx_escape_string ''...'' 3 [QUOTE, QUOTE] [QUOTE] = Inl OutOfBounds"
  using zbx_escape_string_exact [of "[QUOTE, QUOTE]" 3 "''...''" "[QUOTE]"] by simp

abbreviation escaped :: "string \<Rightarrow> string" where
  "escaped p \<equiv> zbx_dyn_escape_string p [QUOTE]"

lemma quote_fill_eq:
  assumes "take n xs = take n p" "n \<le> length p" "d = 1 + length (escaped (take n p))" "d \<le> length xs"
  shows "\<exists>xs'. quote_fill xs n d = (xs', 1) \<and> length xs' = length xs \<and> drop 1 xs' = escaped (take n p) @ drop d xs"
  using assms
proof (induction n arbitrary: xs d)
  case (Suc n)
  define c where "c = p ! n"
  have t: "take (Suc n) p = take n p @ [c]" using Suc.prems(2) by (simp add: c_def take_Suc_conv_app_nth)
  have len: "n \<le> length (escaped (take n p))" using escape_longer [of "take n p" "[QUOTE]"] Suc.prems(2) by simp
  have d: "d = 1 + length (escaped (take n p)) + (if c = QUOTE then 2 else 1)" using Suc.prems(3) unfolding t escape_append by simp
  have xc: "xs ! n = c" using arg_cong [OF Suc.prems(1), of "\<lambda>s. s ! n"] by (simp add: c_def)
  define ys where "ys = xs[d - 1 := c]"
  have far: "n < d - 1" "d - 1 < length xs" "Suc (d - 1) = d" using d len Suc.prems(4) by simp_all
  have xt: "take n xs = take n p" using arg_cong [OF Suc.prems(1), of "take n"] by simp
  have yn: "ys ! n = c" "take n ys = take n p" "length ys = length xs" using far(1) xc xt by (simp_all add: ys_def)
  have "drop (d - 1) ys = ys ! (d - 1) # drop (Suc (d - 1)) ys" using far(2) by (simp only: ys_def length_list_update Cons_nth_drop_Suc)
  then have yd: "drop (d - 1) ys = c # drop d xs" using far by (simp add: ys_def)
  have step: "quote_fill xs (Suc n) d =
      (if c = QUOTE then quote_fill (ys[d - 2 := BACKSLASH]) n (d - 2) else quote_fill ys n (d - 1))"
    unfolding quote_fill.simps Let_def xc ys_def [symmetric] yn(1) ..
  show ?case
  proof (cases "c = QUOTE")
    case True
    define zs where "zs = ys[d - 2 := BACKSLASH]"
    have z: "take n zs = take n p" "length zs = length xs" using yn d len True by (simp_all add: zs_def)
    have zd: "drop (d - 2) zs = [BACKSLASH, c] @ drop d xs"
    proof -
      have i: "d - 2 < length ys" "Suc (d - 2) = d - 1" using Suc.prems(4) d True yn(3) by simp_all
      have "drop (d - 2) zs = zs ! (d - 2) # drop (Suc (d - 2)) zs" using i(1) by (simp only: zs_def length_list_update Cons_nth_drop_Suc)
      also have "\<dots> = BACKSLASH # drop (d - 1) ys" using i by (simp add: zs_def)
      finally show ?thesis using yd by simp
    qed
    have e: "n \<le> length p" "d - 2 = 1 + length (escaped (take n p))" "d - 2 \<le> length zs" using d True Suc.prems z(2) by simp_all
    obtain xs' where "quote_fill zs n (d - 2) = (xs', 1)" "length xs' = length zs" "drop 1 xs' = escaped (take n p) @ drop (d - 2) zs"
      using Suc.IH [OF z(1) e] by blast
    then show ?thesis using True zd z(2) yn(3) unfolding step zs_def [symmetric] t escape_append by simp
  next
    case False
    have e: "n \<le> length p" "d - 1 = 1 + length (escaped (take n p))" "d - 1 \<le> length ys" using d False Suc.prems yn(3) by simp_all
    obtain xs' where "quote_fill ys n (d - 1) = (xs', 1)" "length xs' = length ys" "drop 1 xs' = escaped (take n p) @ drop (d - 1) ys"
      using Suc.IH [OF yn(2) e] by blast
    then show ?thesis using False yn(3) yd unfolding step t escape_append by simp
  qed
qed simp

lemma quote_param_eq:
  "quote_param junk p = (if p \<noteq> [] \<and> last p = BACKSLASH then None else Some (QUOTE # escaped p @ [QUOTE]))"
proof (cases "p \<noteq> [] \<and> last p = BACKSLASH")
  case True
  then show ?thesis using last_conv_nth [of p] by (auto simp: quote_param_def Let_def)
next
  case False
  define d where "d = zbx_get_escape_string_len p [QUOTE] + 3"
  have d: "d = length (escaped p) + 3" by (simp add: d_def escape_string_len)
  define buf where "buf = (realloc_cells junk d (p @ [NUL]))[d - 1 := NUL, d - 2 := QUOTE]"
  have len: "length buf = d" by (simp add: buf_def)
  have start: "take (length p) buf = p" using escape_longer [of p "[QUOTE]"] d by (simp add: buf_def realloc_cells_def)
  have i: "d - 2 < length buf" "d - 1 < length buf" "Suc (d - 2) = d - 1" using len d by simp_all
  have "drop (d - 2) buf = buf ! (d - 2) # drop (Suc (d - 2)) buf" using i(1) by (simp only: Cons_nth_drop_Suc)
  also have "drop (Suc (d - 2)) buf = buf ! (d - 1) # drop (Suc (d - 1)) buf" unfolding i(3) using i(2) by (simp only: Cons_nth_drop_Suc)
  finally have tail: "drop (d - 2) buf = [QUOTE, NUL]" using len d by (simp add: buf_def)
  obtain xs where x: "quote_fill buf (length p) (d - 2) = (xs, 1)" "length xs = d" "drop 1 xs = escaped p @ [QUOTE, NUL]"
    using quote_fill_eq [of "length p" buf p "d - 2"] start len d tail by auto
  obtain y ys where xs: "xs = y # ys" using x(2) d by (cases xs) auto
  have "ys = escaped p @ [QUOTE, NUL]" using x(3) xs by simp
  then have "butlast (xs[0 := QUOTE]) = QUOTE # escaped p @ [QUOTE]" using xs by (simp add: butlast_append)
  moreover have "\<not> (length p \<noteq> 0 \<and> p ! (length p - 1) = BACKSLASH)" using False last_conv_nth [of p] by auto
  ultimately show ?thesis using x(1) False unfolding quote_param_def Let_def d_def [symmetric] buf_def [symmetric] by simp
qed

section \<open>Quoted parameters and lists of them\<close>

text \<open>What the quoting leaves alone, and what it makes of a parameter.\<close>

definition plain_param :: "string \<Rightarrow> bool" where
  "plain_param p \<longleftrightarrow> cchar p 0 \<noteq> QUOTE \<and> cchar p 0 \<noteq> CHR '' '' \<and> CHR '','' \<notin> set p \<and> CHR '')'' \<notin> set p"

definition written_as :: "string \<Rightarrow> string \<Rightarrow> bool" where
  "written_as p q \<longleftrightarrow> q = p \<and> plain_param p \<or> q = QUOTE # escaped p @ [QUOTE] \<and> (p = [] \<or> last p \<noteq> BACKSLASH)"

lemma function_param_quote_written: "zbx_function_param_quote junk p forced = Some q \<Longrightarrow> written_as p q"
  by (auto simp: zbx_function_param_quote_def written_as_def plain_param_def quote_param_eq split: if_splits)

lemma quoted_len_escaped:
  "last (prev # p) \<noteq> BACKSLASH \<Longrightarrow> quoted_len prev (escaped p @ QUOTE # r) = Some (length (escaped p))"
  by (induction p arbitrary: prev) auto

lemma unquote_escaped:
  "p = [] \<or> last p \<noteq> BACKSLASH \<Longrightarrow> unquote_loop (escaped p @ QUOTE # r) (length (escaped p)) = p"
proof (induction p)
  case (Cons c p)
  show ?case
  proof (cases "c = QUOTE")
    case False
    obtain d s where s: "escaped p @ QUOTE # r = d # s" by (cases "escaped p @ QUOTE # r") auto
    have "\<not> (c = BACKSLASH \<and> d = QUOTE)" using Cons.prems s by (cases p) (auto split: if_splits)
    then have "unquote_loop (c # d # s) (Suc (length (escaped p))) = c # unquote_loop (d # s) (length (escaped p))" by simp
    then show ?thesis using False Cons by (auto simp: s [symmetric] split: if_splits)
  qed (use Cons in \<open>auto split: if_splits\<close>)
qed simp

abbreviation param_end :: "string \<Rightarrow> bool" where
  "param_end r \<equiv> r = [] \<or> cchar r 0 = CHR '','' \<or> cchar r 0 = CHR '')''"

lemma takeWhile_stop: "(\<forall>c\<in>set p. P c) \<Longrightarrow> r = [] \<or> \<not> P (cchar r 0) \<Longrightarrow> takeWhile P (p @ r) = p"
  by (cases r) (auto simp: takeWhile_append)

lemma parse_written:
  assumes "written_as p q" "param_end r"
  shows "zbx_function_param_parse (q @ r) = (0, length q, length q)" "fst (zbx_function_param_unquote_dyn (q @ r) (length q)) = p"
proof -
  have "zbx_function_param_parse (q @ r) = (0, length q, length q) \<and> fst (zbx_function_param_unquote_dyn (q @ r) (length q)) = p"
    using assms(1) [unfolded written_as_def]
  proof
    assume "q = p \<and> plain_param p"
    then have q: "q = p" "plain_param p" by simp_all
    have c: "cchar (p @ r) 0 \<noteq> CHR '' ''" "cchar (p @ r) 0 \<noteq> QUOTE"
      using q(2) assms(2) by (cases p; auto simp: plain_param_def)+
    then have "takeWhile (\<lambda>c. c = CHR '' '') (p @ r) = []" by (cases "p @ r") auto
    moreover have "takeWhile (\<lambda>c. c \<noteq> CHR '')'' \<and> c \<noteq> CHR '','') (p @ r) = p"
      by (rule takeWhile_stop) (use q(2) assms(2) in \<open>auto simp: plain_param_def\<close>)
    ultimately show ?thesis using c(2) q(1) by (auto simp: zbx_function_param_parse_def zbx_function_param_unquote_dyn_def Let_def cchar_def nth_append)
  next
    assume "q = QUOTE # escaped p @ [QUOTE] \<and> (p = [] \<or> last p \<noteq> BACKSLASH)"
    then have q: "q = QUOTE # escaped p @ [QUOTE]" and l: "p = [] \<or> last p \<noteq> BACKSLASH" by simp_all
    have "last (QUOTE # p) \<noteq> BACKSLASH" using l by auto
    from quoted_len_escaped [OF this, of r] have n: "quoted_len QUOTE (escaped p @ QUOTE # r) = Some (length (escaped p))" .
    have "takeWhile (\<lambda>c. c = CHR '' '') r = []" using assms(2) by (cases r) auto
    then have "zbx_function_param_parse (q @ r) = (0, length q, length q)" using n by (simp add: zbx_function_param_parse_def Let_def q)
    moreover have "fst (zbx_function_param_unquote_dyn (q @ r) (length q)) = p"
      using unquote_escaped [OF l, of r] by (simp add: zbx_function_param_unquote_dyn_def q)
    ultimately show ?thesis ..
  qed
  then show "zbx_function_param_parse (q @ r) = (0, length q, length q)" "fst (zbx_function_param_unquote_dyn (q @ r) (length q)) = p" by simp_all
qed

fun join_params :: "string list \<Rightarrow> string" where
  "join_params [] = []"
| "join_params [q] = q"
| "join_params (q # qs) = q @ CHR '','' # join_params qs"

lemma get_param_written:
  assumes "list_all2 written_as ps qs" "ps \<noteq> []"
  shows "get_param_loop (Some (join_params qs)) k n = (if k < n \<and> n \<le> k + int (length ps) then Some (ps ! nat (n - k - 1)) else None)"
  using assms
proof (induction ps qs arbitrary: k rule: list_all2_induct)
  case (Cons p ps q qs)
  note hyps = Cons.hyps and IH0 = Cons.IH
  show ?case
  proof (cases qs)
    case Nil
    then have "ps = []" using hyps(2) by simp
    then show ?thesis using Nil parse_written [OF hyps(1), of "[]"]
      by (subst get_param_loop.simps) (auto simp: get_param_loop.simps [of None])
  next
    case (Cons q' qs')
    have j: "join_params (q # qs) = q @ CHR '','' # join_params qs" by (simp add: Cons)
    have ps: "ps \<noteq> []" using hyps(2) Cons by auto
    note pw = parse_written [OF hyps(1), of "CHR '','' # join_params qs", simplified]
    have IH: "get_param_loop (Some (join_params qs)) (k + 1) n =
        (if k + 1 < n \<and> n \<le> k + 1 + int (length ps) then Some (ps ! nat (n - (k + 1) - 1)) else None)"
      by (rule IH0 [OF ps])
    have idx: "(p # ps) ! nat (n - k - 1) = ps ! nat (n - (k + 1) - 1)" if "k + 1 < n"
    proof -
      have "nat (n - k - 1) = Suc (nat (n - (k + 1) - 1))" using that by simp
      then show ?thesis by simp
    qed
    show ?thesis unfolding j by (subst get_param_loop.simps) (use pw IH idx ps in \<open>auto simp: nth_Cons'\<close>)
  qed
qed simp

section \<open>The check against the quoting\<close>

abbreviation list_end :: "char \<Rightarrow> string \<Rightarrow> bool" where
  "list_end t r \<equiv> t = CHR '')'' \<and> cchar r 0 = CHR '')'' \<or> t = NUL \<and> r = []"

lemma validate_quoted:
  assumes "last (prev # p) \<noteq> BACKSLASH"
  shows "validate_loop t i prev ParamQuoted lpp (escaped p @ QUOTE # r) =
    validate_loop t (i + length (escaped p) + 1) QUOTE ParamPostQuoted lpp r"
  using assms by (induction p arbitrary: prev i) auto

lemma validate_unquoted:
  assumes "CHR '','' \<notin> set s" "t \<notin> set s"
  shows "validate_loop t i prev ParamUnquoted lpp (s @ r) = validate_loop t (i + length s) (last (prev # s)) ParamUnquoted lpp r"
  using assms by (induction s arbitrary: prev i) auto

lemma validate_written:
  assumes "written_as p q" "cstring p" "t = CHR '')'' \<or> t = NUL"
  shows "list_end t r \<Longrightarrow> validate_loop t i prev ParamNext lpp (q @ r) = Inr (i + length q)"
    and "\<exists>lpp'. validate_loop t i prev ParamNext lpp (q @ CHR '','' # r) = validate_loop t (i + length q + 1) CHR '','' ParamNext lpp' r"
proof -
  have stop: "validate_loop t j d state l r = Inr j" if "list_end t r" "state \<noteq> ParamQuoted" for j d l state
    using that by (cases r) auto
  have *: "(list_end t r \<longrightarrow> validate_loop t i prev ParamNext lpp (q @ r) = Inr (i + length q)) \<and>
    (\<exists>lpp'. validate_loop t i prev ParamNext lpp (q @ CHR '','' # r) = validate_loop t (i + length q + 1) CHR '','' ParamNext lpp' r)"
    using assms(1) [unfolded written_as_def]
  proof
    assume "q = p \<and> plain_param p"
    then have q: "q = p" "plain_param p" by simp_all
    show ?thesis
    proof (cases p)
      case Nil
      then show ?thesis using q stop [of ParamNext i prev lpp] assms(3) by auto
    next
      case (Cons c s)
      have c: "c \<noteq> QUOTE" "c \<noteq> CHR '' ''" "c \<noteq> CHR '',''" "c \<noteq> t" "CHR '','' \<notin> set s" "t \<notin> set s"
        using q(2) assms(2,3) Cons by (auto simp: plain_param_def cstring_def)
      have "validate_loop t i prev ParamNext lpp ((c # s) @ u) = validate_loop t (i + length p) (last (c # s)) ParamUnquoted i u" for u
        using c validate_unquoted [OF c(5,6), of "Suc i" c i u] Cons by auto
      then show ?thesis using stop [of ParamUnquoted] assms(3) q(1) Cons by auto
    qed
  next
    assume "q = QUOTE # escaped p @ [QUOTE] \<and> (p = [] \<or> last p \<noteq> BACKSLASH)"
    then have q: "q = QUOTE # escaped p @ [QUOTE]" and l: "last (QUOTE # p) \<noteq> BACKSLASH" by auto
    have "validate_loop t i prev ParamNext lpp (q @ u) = validate_loop t (i + length q) QUOTE ParamPostQuoted i u" for u
      using validate_quoted [OF l, of t "Suc i" i u] assms(3) by (auto simp: q)
    then show ?thesis using stop [of ParamPostQuoted] assms(3) by auto
  qed
  show "list_end t r \<Longrightarrow> validate_loop t i prev ParamNext lpp (q @ r) = Inr (i + length q)" using * by blast
  show "\<exists>lpp'. validate_loop t i prev ParamNext lpp (q @ CHR '','' # r) = validate_loop t (i + length q + 1) CHR '','' ParamNext lpp' r"
    using * by blast
qed

lemma validate_join:
  assumes "list_all2 written_as ps qs" "ps \<noteq> []" "\<forall>p\<in>set ps. cstring p" "t = CHR '')'' \<or> t = NUL" "list_end t r"
  shows "validate_loop t i prev ParamNext lpp (join_params qs @ r) = Inr (i + length (join_params qs))"
  using assms(1-3)
proof (induction ps qs arbitrary: i prev lpp rule: list_all2_induct)
  case (Cons p ps q qs)
  note hyps = Cons.hyps and IH0 = Cons.IH
  have p: "cstring p" "\<forall>p\<in>set ps. cstring p" using Cons.prems(2) by simp_all
  show ?case
  proof (cases qs)
    case Nil
    then show ?thesis using validate_written(1) [OF hyps(1) p(1) assms(4,5)] by simp
  next
    case (Cons q' qs')
    have ps: "ps \<noteq> []" using hyps(2) Cons by auto
    obtain lpp' where "validate_loop t i prev ParamNext lpp (q @ CHR '','' # join_params qs @ r) =
        validate_loop t (i + length q + 1) CHR '','' ParamNext lpp' (join_params qs @ r)"
      using validate_written(2) [OF hyps(1) p(1) assms(4)] by blast
    then show ?thesis using IH0 [OF ps p(2), of "i + length q + 1" "CHR '',''" lpp'] Cons by simp
  qed
qed simp

lemma function_validate_written:
  assumes "list_all2 written_as ps qs" "ps \<noteq> []" "\<forall>p\<in>set ps. cstring p" "name \<noteq> []" "\<forall>c\<in>set name. is_function_char c = SUCCEED"
  shows "zbx_function_validate (name @ CHR ''('' # join_params qs @ CHR '')'' # rest) par_r =
    Inr (length name, length name + 1 + length (join_params qs))"
proof -
  have "takeWhile (\<lambda>c. is_function_char c = SUCCEED) (name @ CHR ''('' # join_params qs @ CHR '')'' # rest) = name"
    by (rule takeWhile_stop) (use assms(5) in \<open>simp_all add: is_function_char_def islower_def\<close>)
  then have "function_parse_name (name @ CHR ''('' # join_params qs @ CHR '')'' # rest) = (length name, True)"
    using assms(4) by (simp add: function_parse_name_def Let_def cchar_def nth_append)
  moreover have "function_validate_parameters (join_params qs @ CHR '')'' # rest) CHR '')'' = Inr (length (join_params qs))"
    using validate_join [OF assms(1-3), of "CHR '')''" "CHR '')'' # rest" 0] by (simp add: function_validate_parameters_def)
  ultimately show ?thesis by (simp add: zbx_function_validate_def function_match_parenthesis_def)
qed

text \<open>C14. Parameters that have been quoted, and joined with commas, can be read back by their numbers, and the check accepts
  the list, alone and between the parentheses of a function, and finds its end.\<close>

theorem function_params_roundtrip:
  assumes "list_all2 (\<lambda>p q. \<exists>junk forced. zbx_function_param_quote junk p forced = Some q) ps qs" "ps \<noteq> []" "\<forall>p\<in>set ps. cstring p"
    and "name \<noteq> []" "\<forall>c\<in>set name. is_function_char c = SUCCEED"
  shows "zbx_function_get_param_dyn (join_params qs) n = (if 1 \<le> n \<and> n \<le> int (length ps) then Some (ps ! nat (n - 1)) else None) \<and>
    zbx_function_validate_parameters (join_params qs) = Some (length (join_params qs)) \<and>
    zbx_function_validate (name @ ''('' @ join_params qs @ '')'' @ rest) par_r =
      Inr (length name, length name + 1 + length (join_params qs))"
proof -
  have w: "list_all2 written_as ps qs"
    by (rule list_all2_mono [OF assms(1)]) (use function_param_quote_written in blast)
  have "zbx_function_validate (name @ ''('' @ join_params qs @ '')'' @ rest) par_r =
      Inr (length name, length name + 1 + length (join_params qs))"
    using function_validate_written [OF w assms(2-)] by simp
  moreover have "zbx_function_validate_parameters (join_params qs) = Some (length (join_params qs))"
    using validate_join [OF w assms(2,3), of NUL "[]" 0] by (simp add: zbx_function_validate_parameters_def function_validate_parameters_def)
  moreover have "zbx_function_get_param_dyn (join_params qs) n = (if 1 \<le> n \<and> n \<le> int (length ps) then Some (ps ! nat (n - 1)) else None)"
    using get_param_written [OF w assms(2), of 0 n] by (auto simp: zbx_function_get_param_dyn_def)
  ultimately show ?thesis by simp
qed

theorem function_params_roundtrip_witness:
  "zbx_function_get_param_dyn (''5,'' @ QUOTE # ''a,b'' @ BACKSLASH # QUOTE # [QUOTE]) 2 = Some (''a,b'' @ [QUOTE])"
proof -
  define ps where "ps = [''5'', ''a,b'' @ [QUOTE]]"
  define qs where "qs = [''5'', QUOTE # ''a,b'' @ BACKSLASH # QUOTE # [QUOTE]]"
  have "zbx_function_param_quote NUL ''5'' False = Some ''5''" by code_simp
  moreover have "zbx_function_param_quote NUL (''a,b'' @ [QUOTE]) False = Some (QUOTE # ''a,b'' @ BACKSLASH # QUOTE # [QUOTE])" by code_simp
  ultimately have "list_all2 (\<lambda>p q. \<exists>junk forced. zbx_function_param_quote junk p forced = Some q) ps qs" by (auto simp: ps_def qs_def)
  moreover have "ps \<noteq> []" "\<forall>p\<in>set ps. cstring p" by (simp_all add: ps_def)
  moreover have "''last'' \<noteq> []" "\<forall>c\<in>set ''last''. is_function_char c = SUCCEED" by (simp_all add: is_function_char_def islower_def)
  ultimately have "zbx_function_get_param_dyn (join_params qs) 2 = Some (ps ! 1)" using function_params_roundtrip [of ps qs "''last''" 2]
    by (simp add: ps_def)
  then show ?thesis by (simp add: ps_def qs_def)
qed

end
