(* ===== verification/ItemKey.thy ===== *)
theory ItemKey
  imports FuncParam
begin

text \<open>
  Item keys such as \<open>net.tcp.port[,80]\<close> and their parameters (\<open>src/libs/zbxcommon/str.c\<close>): the check of a key, the number
  of its parameters and the access to them, in two scanners that must agree (one for the length, one for the
  characters), and the quoting and unquoting of a parameter (\<open>src/libs/zbxsysinfo/sysinfo.c\<close>).
\<close>

section \<open>The check of a key\<close>

datatype key_state = KeyInit | KeyQuoted | KeyUnquoted

abbreviation skip_blanks :: "string \<Rightarrow> string" where
  "skip_blanks p \<equiv> dropWhile (\<lambda>c. c = CHR '' '') p"

lemma skip_blanks_le: "length (skip_blanks p) \<le> length p"
  by (rule length_dropWhile_le)

lemma skip_blanks_measure:
  "2 * length (skip_blanks p) < Suc (Suc (2 * length p))" "2 * (length (skip_blanks p) - Suc 0) < Suc (Suc (2 * length p))"
  using skip_blanks_le [of p] by linarith+

text \<open>The verdict and the rest of the text. An unquoted parameter gives its end back to the initial state.\<close>

function parse_key_loop :: "key_state \<Rightarrow> bool \<Rightarrow> string \<Rightarrow> bool \<times> string" where
  "parse_key_loop state in_array [] = (False, [])"
| "parse_key_loop KeyInit in_array (c # p) =
    (if c = CHR '','' then parse_key_loop KeyInit in_array p
     else if c = QUOTE then parse_key_loop KeyQuoted in_array p
     else if c = CHR ''['' then (if \<not> in_array then parse_key_loop KeyInit True p else (False, c # p))
     else if c = CHR '']'' \<and> in_array then
       let p = skip_blanks p
       in if cchar p 0 = CHR '']'' then (True, drop 1 p)
          else if cchar p 0 \<noteq> CHR '','' then (False, p)
          else parse_key_loop KeyInit False (drop 1 p)
     else if c = CHR '']'' then (True, p)
     else parse_key_loop (if c \<noteq> CHR '' '' then KeyUnquoted else KeyInit) in_array p)"
| "parse_key_loop KeyQuoted in_array (c # p) =
    (if c = QUOTE then
       let p = skip_blanks p
       in if \<not> in_array \<and> cchar p 0 = CHR '']'' then (True, drop 1 p)
          else if cchar p 0 \<noteq> CHR '','' \<and> \<not> (in_array \<and> cchar p 0 = CHR '']'') then (False, p)
          else parse_key_loop KeyInit in_array p
     else if c = BACKSLASH \<and> cchar p 0 = QUOTE then parse_key_loop KeyQuoted in_array (drop 1 p)
     else parse_key_loop KeyQuoted in_array p)"
| "parse_key_loop KeyUnquoted in_array (c # p) =
    (if c = CHR '','' \<or> c = CHR '']'' \<and> in_array then parse_key_loop KeyInit in_array (c # p)
     else if c = CHR '']'' then (True, p)
     else parse_key_loop KeyUnquoted in_array p)"
  by pat_completeness auto

termination
  by (relation "measure (\<lambda>(state, in_array, p). 2 * length p + (if state = KeyUnquoted then 1 else 0))")
    (auto simp: Let_def skip_blanks_measure)

definition parse_key :: "string \<Rightarrow> bool \<times> string" where
  "parse_key expr =
    (let s = dropWhile (\<lambda>c. is_key_char c = SUCCEED) expr
     in if length s = length expr then (False, expr)
        else if cchar s 0 = CHR ''['' then parse_key_loop KeyInit False (drop 1 s)
        else (True, s))"

section \<open>The number of parameters\<close>

function num_param_loop :: "key_state \<Rightarrow> bool \<Rightarrow> nat \<Rightarrow> string \<Rightarrow> nat" where
  "num_param_loop state in_array ret [] = (if state = KeyQuoted then 0 else if in_array then 0 else ret)"
| "num_param_loop KeyInit in_array ret (c # p) =
    (if c = CHR '','' then num_param_loop KeyInit in_array (if in_array then ret else ret + 1) p
     else if c = QUOTE then num_param_loop KeyQuoted in_array ret p
     else if c = CHR ''['' then (if \<not> in_array then num_param_loop KeyInit True ret p else 0)
     else if c = CHR '']'' \<and> in_array then
       let p = skip_blanks p
       in if cchar p 0 \<noteq> CHR '','' \<and> cchar p 0 \<noteq> NUL then 0 else num_param_loop KeyInit False ret p
     else if c = CHR '']'' then 0
     else num_param_loop (if c \<noteq> CHR '' '' then KeyUnquoted else KeyInit) in_array ret p)"
| "num_param_loop KeyQuoted in_array ret (c # p) =
    (if c = QUOTE then
       let p = skip_blanks p
       in if cchar p 0 \<noteq> CHR '','' \<and> cchar p 0 \<noteq> NUL \<and> (\<not> in_array \<or> cchar p 0 \<noteq> CHR '']'') then 0
          else num_param_loop KeyInit in_array ret p
     else if c = BACKSLASH \<and> cchar p 0 = QUOTE then num_param_loop KeyQuoted in_array ret (drop 1 p)
     else num_param_loop KeyQuoted in_array ret p)"
| "num_param_loop KeyUnquoted in_array ret (c # p) =
    (if c = CHR '','' \<or> c = CHR '']'' \<and> in_array then num_param_loop KeyInit in_array ret (c # p)
     else if c = CHR '']'' then 0
     else num_param_loop KeyUnquoted in_array ret p)"
  by pat_completeness auto
termination
  by (relation "measure (\<lambda>(state, in_array, ret, p). 2 * length p + (if state = KeyUnquoted then 1 else 0))")
    (auto simp: Let_def skip_blanks_measure)

definition num_param :: "string option \<Rightarrow> nat" where
  "num_param p = (case p of None \<Rightarrow> 0 | Some p \<Rightarrow> num_param_loop KeyInit False 1 p)"

section \<open>Access to a parameter\<close>

datatype request_type = RequestUndefined | RequestArray | RequestString

text \<open>The end of the scanners: the state, the nesting of arrays and the index that is reached decide.\<close>

definition param_found :: "key_state \<Rightarrow> nat \<Rightarrow> int \<Rightarrow> int \<Rightarrow> bool" where
  "param_found state array idx num \<longleftrightarrow> state \<noteq> KeyQuoted \<and> array = 0 \<and> num \<le> idx"

definition bad_follow :: "nat \<Rightarrow> char \<Rightarrow> bool" where
  "bad_follow array c \<longleftrightarrow> c \<noteq> CHR '','' \<and> c \<noteq> NUL \<and> (array = 0 \<or> c \<noteq> CHR '']'')"

function param_len_loop :: "int \<Rightarrow> key_state \<Rightarrow> nat \<Rightarrow> int \<Rightarrow> nat \<Rightarrow> string \<Rightarrow> nat option" where
  "param_len_loop num state array idx sz [] = (if param_found state array idx num then Some sz else None)"
| "param_len_loop num KeyInit array idx sz (c # p) =
    (if num < idx then (if param_found KeyInit array idx num then Some sz else None)
     else if c = CHR '','' then
       (if array = 0 then param_len_loop num KeyInit array (idx + 1) sz p
        else param_len_loop num KeyInit array idx (if idx = num then sz + 1 else sz) p)
     else if c = QUOTE then param_len_loop num KeyQuoted array idx (if array \<noteq> 0 \<and> idx = num then sz + 1 else sz) p
     else if c = CHR ''['' then param_len_loop num KeyInit (array + 1) idx (if array \<noteq> 0 \<and> idx = num then sz + 1 else sz) p
     else if c = CHR '']'' \<and> array \<noteq> 0 then
       let array = array - 1; sz = (if array \<noteq> 0 \<and> idx = num then sz + 1 else sz); p = skip_blanks p
       in if bad_follow array (cchar p 0) then None else param_len_loop num KeyInit array idx sz p
     else if c \<noteq> CHR '' '' then param_len_loop num KeyUnquoted array idx (if idx = num then sz + 1 else sz) p
     else param_len_loop num KeyInit array idx sz p)"
| "param_len_loop num KeyQuoted array idx sz (c # p) =
    (if num < idx then None
     else if c = QUOTE then
       let sz = (if array \<noteq> 0 \<and> idx = num then sz + 1 else sz); p = skip_blanks p
       in if bad_follow array (cchar p 0) then None else param_len_loop num KeyInit array idx sz p
     else if c = BACKSLASH \<and> cchar p 0 = QUOTE then
       param_len_loop num KeyQuoted array idx (if idx = num then (if array \<noteq> 0 then sz + 2 else sz + 1) else sz) (drop 1 p)
     else param_len_loop num KeyQuoted array idx (if idx = num then sz + 1 else sz) p)"
| "param_len_loop num KeyUnquoted array idx sz (c # p) =
    (if num < idx then (if param_found KeyUnquoted array idx num then Some sz else None)
     else if c = CHR '','' \<or> c = CHR '']'' \<and> array \<noteq> 0 then param_len_loop num KeyInit array idx sz (c # p)
     else param_len_loop num KeyUnquoted array idx (if idx = num then sz + 1 else sz) p)"
  by pat_completeness auto
termination
  by (relation "measure (\<lambda>(num, state, array, idx, sz, p). 2 * length p + (if state = KeyUnquoted then 1 else 0))")
    (auto simp: Let_def skip_blanks_measure)

definition get_param_len :: "string \<Rightarrow> int \<Rightarrow> nat option" where
  "get_param_len p num = param_len_loop num KeyInit 0 1 0 p"

text \<open>The characters, into a buffer of \<open>max_len\<close> cells: one that does not fit ends the scan.\<close>

definition assign_param :: "nat \<Rightarrow> bool \<Rightarrow> char \<Rightarrow> string \<Rightarrow> string option" where
  "assign_param max_len wanted c buf = (if wanted then if length buf = max_len then None else Some (buf @ [c]) else Some buf)"

definition set_type :: "bool \<Rightarrow> request_type \<Rightarrow> request_type \<Rightarrow> request_type" where
  "set_type wanted new typ = (if wanted \<and> typ = RequestUndefined then new else typ)"

definition param_result :: "key_state \<Rightarrow> nat \<Rightarrow> int \<Rightarrow> int \<Rightarrow> string \<Rightarrow> request_type \<Rightarrow> (string \<times> request_type) option" where
  "param_result state array idx num buf typ = (if param_found state array idx num then Some (buf, typ) else None)"

function get_key_loop :: "nat \<Rightarrow> int \<Rightarrow> key_state \<Rightarrow> nat \<Rightarrow> int \<Rightarrow> string \<Rightarrow> request_type \<Rightarrow> string \<Rightarrow> (string \<times> request_type) option" where
  "get_key_loop max_len num state array idx buf typ [] = param_result state array idx num buf typ"
| "get_key_loop max_len num KeyInit array idx buf typ (c # p) =
    (if num < idx then param_result KeyInit array idx num buf typ
     else if c = CHR '','' then
       (if array = 0 then get_key_loop max_len num KeyInit array (idx + 1) buf typ p
        else case assign_param max_len (idx = num) c buf of
               None \<Rightarrow> None | Some buf \<Rightarrow> get_key_loop max_len num KeyInit array idx buf typ p)
     else if c = QUOTE then
       (case assign_param max_len (array \<noteq> 0 \<and> idx = num) c buf of
          None \<Rightarrow> None
        | Some buf \<Rightarrow> get_key_loop max_len num KeyQuoted array idx buf (set_type (idx = num) RequestString typ) p)
     else if c = CHR ''['' then
       (case assign_param max_len (array \<noteq> 0 \<and> idx = num) c buf of
          None \<Rightarrow> None
        | Some buf \<Rightarrow> get_key_loop max_len num KeyInit (array + 1) idx buf (set_type (idx = num) RequestArray typ) p)
     else if c = CHR '']'' \<and> array \<noteq> 0 then
       (let array = array - 1
        in case assign_param max_len (array \<noteq> 0 \<and> idx = num) c buf of
             None \<Rightarrow> None
           | Some buf \<Rightarrow>
               let p = skip_blanks p
               in if bad_follow array (cchar p 0) then None else get_key_loop max_len num KeyInit array idx buf typ p)
     else if c \<noteq> CHR '' '' then
       (case assign_param max_len (idx = num) c buf of
          None \<Rightarrow> None
        | Some buf \<Rightarrow> get_key_loop max_len num KeyUnquoted array idx buf (set_type (idx = num) RequestString typ) p)
     else get_key_loop max_len num KeyInit array idx buf typ p)"
| "get_key_loop max_len num KeyQuoted array idx buf typ (c # p) =
    (if num < idx then None
     else if c = QUOTE then
       (case assign_param max_len (array \<noteq> 0 \<and> idx = num) c buf of
          None \<Rightarrow> None
        | Some buf \<Rightarrow>
            let p = skip_blanks p
            in if bad_follow array (cchar p 0) then None else get_key_loop max_len num KeyInit array idx buf typ p)
     else if c = BACKSLASH \<and> cchar p 0 = QUOTE then
       (case assign_param max_len (array \<noteq> 0 \<and> idx = num) c buf of
          None \<Rightarrow> None
        | Some buf \<Rightarrow>
            (case assign_param max_len (idx = num) (cchar p 0) buf of
               None \<Rightarrow> None | Some buf \<Rightarrow> get_key_loop max_len num KeyQuoted array idx buf typ (drop 1 p)))
     else
       (case assign_param max_len (idx = num) c buf of
          None \<Rightarrow> None | Some buf \<Rightarrow> get_key_loop max_len num KeyQuoted array idx buf typ p))"
| "get_key_loop max_len num KeyUnquoted array idx buf typ (c # p) =
    (if num < idx then param_result KeyUnquoted array idx num buf typ
     else if c = CHR '','' \<or> c = CHR '']'' \<and> array \<noteq> 0 then get_key_loop max_len num KeyInit array idx buf typ (c # p)
     else
       (case assign_param max_len (idx = num) c buf of
          None \<Rightarrow> None | Some buf \<Rightarrow> get_key_loop max_len num KeyUnquoted array idx buf typ p))"
  by pat_completeness auto
termination
  by (relation "measure (\<lambda>(max_len, num, state, array, idx, buf, typ, p). 2 * length p + (if state = KeyUnquoted then 1 else 0))")
    (auto simp: Let_def skip_blanks_measure)

definition get_param :: "string \<Rightarrow> int \<Rightarrow> nat \<Rightarrow> (string \<times> request_type) option" where
  "get_param p num max_len =
    (if max_len = 0 then None else get_key_loop (max_len - 1) num KeyInit 0 1 [] RequestUndefined p)"

definition get_param_dyn :: "string \<Rightarrow> int \<Rightarrow> (string \<times> request_type) option" where
  "get_param_dyn p num = (case get_param_len p num of None \<Rightarrow> None | Some sz \<Rightarrow> get_param p num (sz + 1))"

text \<open>Of a whole key: between the first and the last bracket.\<close>

definition strrchr :: "string \<Rightarrow> char \<Rightarrow> nat option" where
  "strrchr s c = map_option (\<lambda>i. length s - Suc i) (strchr (rev s) c)"

definition key_params :: "string \<Rightarrow> string option" where
  "key_params param = (case (strchr param CHR ''['', strrchr param CHR '']'') of
     (Some pl, Some pr) \<Rightarrow> if pr < pl then None else Some (drop (pl + 1) (take pr param))
   | _ \<Rightarrow> None)"

definition get_key_param :: "string \<Rightarrow> int \<Rightarrow> nat \<Rightarrow> (string \<times> request_type) option" where
  "get_key_param param num max_len = Option.bind (key_params param) (\<lambda>p. get_param p num max_len)"

definition num_key_param :: "string option \<Rightarrow> nat" where
  "num_key_param param = num_param (Option.bind param key_params)"

section \<open>Quoting and unquoting\<close>

fun unquote_key_loop :: "string \<Rightarrow> string" where
  "unquote_key_loop [] = []"
| "unquote_key_loop (c # p) = (if c = BACKSLASH \<and> cchar p 0 = QUOTE then unquote_key_loop p else c # unquote_key_loop p)"

text \<open>The closing quote is taken back in the end, which is outside of the buffer when nothing came behind the first one.\<close>

definition unquote_key_param :: "string \<Rightarrow> string outcome" where
  "unquote_key_param param =
    (if cchar param 0 \<noteq> QUOTE then Inr param
     else let out = unquote_key_loop (drop 1 param) in if out = [] then Inl OutOfBounds else Inr (butlast out))"

definition quote_key_param :: "char \<Rightarrow> string \<Rightarrow> bool \<Rightarrow> string option" where
  "quote_key_param junk param forced =
    (if \<not> forced \<and> cchar param 0 \<noteq> QUOTE \<and> cchar param 0 \<noteq> CHR '' '' \<and> cchar param 0 \<noteq> CHR ''['' \<and>
       strchr param CHR '','' = None \<and> strchr param CHR '']'' = None
     then Some param else quote_param junk param)"

section \<open>The two scanners agree\<close>

lemma assign_param_ok: "length buf < max_len \<or> \<not> wanted \<Longrightarrow> assign_param max_len wanted c buf = Some (if wanted then buf @ [c] else buf)"
  by (auto simp: assign_param_def)

lemma param_len_mono: "param_len_loop num state array idx sz p = Some n \<Longrightarrow> sz \<le> n"
proof (induction num state array idx sz p rule: param_len_loop.induct)
qed (auto simp: Let_def split: if_splits dest: Suc_leD)

text \<open>What the copy gives for a length.\<close>

definition agrees :: "nat \<Rightarrow> nat option \<Rightarrow> (string \<times> request_type) option \<Rightarrow> bool" where
  "agrees max_len len res = (case len of
     None \<Rightarrow> res = None
   | Some n \<Rightarrow> if n \<le> max_len then \<exists>buf typ. res = Some (buf, typ) \<and> length buf = n else res = None)"

lemma agrees_overflow: "max_len < sz \<Longrightarrow> agrees max_len (param_len_loop num state array idx sz p) None"
  using param_len_mono [of num state array idx sz p] by (auto simp: agrees_def split: option.splits)

lemma agrees_none: "agrees max_len None None"
  by (simp add: agrees_def)

lemma agrees_result:
  "length buf \<le> max_len \<Longrightarrow>
    agrees max_len (if param_found state array idx num then Some (length buf) else None) (param_result state array idx num buf typ)"
  by (simp add: agrees_def param_result_def)

lemma agrees_if:
  "(c \<Longrightarrow> agrees max_len a b) \<Longrightarrow> (\<not> c \<Longrightarrow> agrees max_len a' b') \<Longrightarrow> agrees max_len (if c then a else a') (if c then b else b')"
  by simp

lemma agrees_step:
  assumes "length buf \<le> max_len" "\<And>buf'. assign_param max_len wanted c buf = Some buf' \<Longrightarrow> length buf' \<le> max_len \<Longrightarrow>
      agrees max_len (g (length buf')) (f buf')" "\<And>sz. max_len < sz \<Longrightarrow> agrees max_len (g sz) None"
  shows "agrees max_len (g (if wanted then length buf + 1 else length buf))
    (case assign_param max_len wanted c buf of None \<Rightarrow> None | Some buf' \<Rightarrow> f buf')"
  using assms by (auto simp: assign_param_def)

lemmas agrees_assign = agrees_step [where g = "\<lambda>sz. param_len_loop num state array idx sz p" for num state array idx p, OF _ _ agrees_overflow]

lemma agrees_assign_follow:
  assumes "length buf \<le> max_len" "\<And>buf'. assign_param max_len wanted c buf = Some buf' \<Longrightarrow> length buf' \<le> max_len \<Longrightarrow>
      \<not> bad \<Longrightarrow> agrees max_len (param_len_loop num state array idx (length buf') p) (f buf')"
  shows "agrees max_len (if bad then None else param_len_loop num state array idx (if wanted then length buf + 1 else length buf) p)
    (case assign_param max_len wanted c buf of None \<Rightarrow> None | Some buf' \<Rightarrow> if bad then None else f buf')"
  using agrees_step [OF assms(1), of wanted c "\<lambda>sz. if bad then None else param_len_loop num state array idx sz p"
      "\<lambda>buf'. if bad then None else f buf'"] assms(2)
  by (auto simp: agrees_none agrees_overflow)

lemma agrees_assign_two:
  assumes "length buf \<le> max_len" "\<And>buf' buf''. assign_param max_len (wanted \<and> idx = num) c buf = Some buf' \<Longrightarrow>
      assign_param max_len (idx = num) d buf' = Some buf'' \<Longrightarrow> length buf'' \<le> max_len \<Longrightarrow>
      agrees max_len (param_len_loop num state array idx (length buf'') p) (f buf'')"
  shows "agrees max_len (param_len_loop num state array idx (if idx = num then (if wanted then length buf + 2 else length buf + 1) else length buf) p)
    (case assign_param max_len (wanted \<and> idx = num) c buf of None \<Rightarrow> None
     | Some buf' \<Rightarrow> (case assign_param max_len (idx = num) d buf' of None \<Rightarrow> None | Some buf'' \<Rightarrow> f buf''))"
proof -
  define b where "b = (if wanted \<and> idx = num then buf @ [c] else buf)"
  show ?thesis using assms(1) assms(2) [of b "if idx = num then b @ [d] else b"]
    by (auto simp: assign_param_def agrees_overflow b_def)
qed

lemma scanners_agree:
  "length buf \<le> max_len \<Longrightarrow>
    agrees max_len (param_len_loop num state array idx (length buf) p) (get_key_loop max_len num state array idx buf t p)"
proof (induction max_len num state array idx buf t p rule: get_key_loop.induct)
  case 1
  then show ?case by (simp add: agrees_result)
next
  case 2
  show ?case unfolding param_len_loop.simps get_key_loop.simps Let_def
    by (intro agrees_if agrees_result agrees_assign agrees_assign_follow; (rule 2 | simp only: Let_def); simp add: 2)
next
  case 3
  show ?case unfolding param_len_loop.simps get_key_loop.simps Let_def
    by (intro agrees_if agrees_none agrees_assign agrees_assign_follow agrees_assign_two; (rule 3 | simp only: Let_def); simp add: 3)
next
  case 4
  show ?case
    by (subst param_len_loop.simps(4), subst get_key_loop.simps(4), intro agrees_if agrees_result agrees_assign; (rule 4 | simp only: Let_def); simp add: 4)
qed

section \<open>Quoted parameters in keys\<close>

definition plain_key :: "string \<Rightarrow> bool" where
  "plain_key p \<longleftrightarrow> cchar p 0 \<noteq> QUOTE \<and> cchar p 0 \<noteq> CHR '' '' \<and> cchar p 0 \<noteq> CHR ''['' \<and> CHR '','' \<notin> set p \<and> CHR '']'' \<notin> set p"

definition written_key :: "string \<Rightarrow> string \<Rightarrow> bool" where
  "written_key p q \<longleftrightarrow> q = p \<and> plain_key p \<or> q = QUOTE # escaped p @ [QUOTE] \<and> (p = [] \<or> last p \<noteq> BACKSLASH)"

lemma quote_key_param_written: "quote_key_param junk p forced = Some q \<Longrightarrow> written_key p q"
  by (auto simp: quote_key_param_def written_key_def plain_key_def quote_param_eq split: if_splits)

lemma written_key_cases:
  assumes "written_key p q"
  obtains "p = []" "q = []"
  | c s where "p = c # s" "q = c # s" "c \<noteq> QUOTE" "c \<noteq> CHR '' ''" "c \<noteq> CHR ''[''" "c \<noteq> CHR '',''" "c \<noteq> CHR '']''" "CHR '','' \<notin> set s" "CHR '']'' \<notin> set s"
  | "q = QUOTE # escaped p @ [QUOTE]" "p = [] \<or> last p \<noteq> BACKSLASH"
  using assms by (cases p) (auto simp: written_key_def plain_key_def)

lemma escaped_no_quote: "last (BACKSLASH # p) \<noteq> BACKSLASH \<Longrightarrow> cchar (escaped p @ s) 0 \<noteq> QUOTE"
  by (cases p) auto

lemma last_tail: "c # p = [] \<or> last (c # p) \<noteq> BACKSLASH \<Longrightarrow> p = [] \<or> last p \<noteq> BACKSLASH"
  by (auto split: if_splits)

lemma unquote_key_escaped: "p = [] \<or> last p \<noteq> BACKSLASH \<Longrightarrow> unquote_key_loop (escaped p @ [QUOTE]) = p @ [QUOTE]"
proof (induction p)
  case (Cons c p)
  then show ?case using last_tail [OF Cons.prems] escaped_no_quote [of p "[QUOTE]"] by auto
qed simp

lemma unquote_written: "written_key p q \<Longrightarrow> unquote_key_param q = Inr p"
  by (erule written_key_cases) (auto simp: unquote_key_param_def Let_def unquote_key_escaped)

abbreviation key_sep :: "string \<Rightarrow> bool" where
  "key_sep r \<equiv> r = [] \<or> cchar r 0 = CHR '',''"

lemma skip_blanks_sep: "key_sep r \<Longrightarrow> skip_blanks r = r"
  by (cases r) auto

lemma parse_written_key:
  assumes "written_key p q" "cchar r 0 = CHR '','' \<or> cchar r 0 = CHR '']''"
  shows "parse_key_loop KeyInit False (q @ r) = parse_key_loop KeyInit False r"
  using assms(1)
proof (cases rule: written_key_cases)
  case (2 c s)
  have "parse_key_loop KeyUnquoted False (s @ r) = parse_key_loop KeyInit False r"
    using 2(8,9)
  proof (induction s)
    case Nil
    show ?case using assms(2) by (cases r) auto
  qed auto
  then show ?thesis using 2 by simp
next
  case 3
  have "parse_key_loop KeyQuoted False (escaped p @ QUOTE # r) = parse_key_loop KeyInit False r"
    using 3(2)
  proof (induction p)
    case Nil
    have "skip_blanks r = r" using assms(2) by (cases r) auto
    then show ?case using assms(2) by (cases r) auto
  next
    case (Cons c p)
    then show ?case using last_tail [OF Cons.prems] escaped_no_quote [of p "QUOTE # r"] by auto
  qed
  then show ?thesis using 3 by simp
qed simp

lemma num_written_key:
  assumes "written_key p q" "key_sep r"
  shows "num_param_loop KeyInit False ret (q @ r) = num_param_loop KeyInit False ret r"
  using assms(1)
proof (cases rule: written_key_cases)
  case (2 c s)
  have "num_param_loop KeyUnquoted False ret (s @ r) = num_param_loop KeyInit False ret r"
    using 2(8,9)
  proof (induction s)
    case Nil
    show ?case using assms(2) by (cases r) auto
  qed auto
  then show ?thesis using 2 by simp
next
  case 3
  have "num_param_loop KeyQuoted False ret (escaped p @ QUOTE # r) = num_param_loop KeyInit False ret r"
    using 3(2)
  proof (induction p)
    case Nil
    then show ?case using skip_blanks_sep [OF assms(2)] assms(2) by auto
  next
    case (Cons c p)
    then show ?case using last_tail [OF Cons.prems] escaped_no_quote [of p "QUOTE # r"] by auto
  qed
  then show ?thesis using 3 by simp
qed simp

abbreviation reading :: "nat \<Rightarrow> bool \<Rightarrow> string \<Rightarrow> string \<Rightarrow> (string \<Rightarrow> 'a option) \<Rightarrow> 'a option" where
  "reading max_len wanted buf p f \<equiv>
    (if wanted then if length buf + length p \<le> max_len then f (buf @ p) else None else f buf)"

lemma get_written_key:
  assumes "written_key p q" "key_sep r" "\<not> num < idx" "length buf \<le> max_len"
  shows "get_key_loop max_len num KeyInit 0 idx buf RequestUndefined (q @ r) =
    reading max_len (idx = num) buf p
      (\<lambda>buf. get_key_loop max_len num KeyInit 0 idx buf (set_type (idx = num \<and> q \<noteq> []) RequestString RequestUndefined) r)"
  using assms(1)
proof (cases rule: written_key_cases)
  case 1
  then show ?thesis using assms(4) by (simp add: set_type_def)
next
  case (2 c s)
  have "get_key_loop max_len num KeyUnquoted 0 idx b t (s @ r) =
      reading max_len (idx = num) b s (\<lambda>b. get_key_loop max_len num KeyInit 0 idx b t r)" if "length b \<le> max_len" for b t
    using 2(8) that
  proof (induction s arbitrary: b)
    case Nil
    show ?case using assms(2,3) Nil by (cases r) (auto simp: param_result_def param_found_def)
  next
    case (Cons d s)
    then show ?case using assms(3) by (auto simp: assign_param_def)
  qed
  then show ?thesis using 2 assms(3,4) by (auto simp: assign_param_def set_type_def)
next
  case 3
  have "get_key_loop max_len num KeyQuoted 0 idx b t (escaped p @ QUOTE # r) =
      reading max_len (idx = num) b p (\<lambda>b. get_key_loop max_len num KeyInit 0 idx b t r)" if "length b \<le> max_len" for b t
    using 3(2) that
  proof (induction p arbitrary: b)
    case Nil
    then show ?case using skip_blanks_sep [OF assms(2)] assms(2,3) by (auto simp: assign_param_def bad_follow_def)
  next
    case (Cons c p)
    then show ?case using last_tail [OF Cons.prems(1)] escaped_no_quote [of p "QUOTE # r"] assms(3) by (auto simp: assign_param_def)
  qed
  then show ?thesis using 3 assms(3,4) by (auto simp: assign_param_def set_type_def)
qed

lemma join_params_Cons: "qs \<noteq> [] \<Longrightarrow> join_params (q # qs) = q @ CHR '','' # join_params qs"
  by (cases qs) auto

lemma parse_join:
  "list_all2 written_key ps qs \<Longrightarrow> ps \<noteq> [] \<Longrightarrow> parse_key_loop KeyInit False (join_params qs @ CHR '']'' # rest) = (True, rest)"
proof (induction ps qs rule: list_all2_induct)
  case (Cons p ps q qs)
  show ?case
  proof (cases "ps = []")
    case True
    then show ?thesis using Cons.hyps parse_written_key [OF Cons.hyps(1), of "CHR '']'' # rest"] by simp
  next
    case False
    then have "qs \<noteq> []" using Cons.hyps by auto
    then show ?thesis
      using Cons.IH [OF False] parse_written_key [OF Cons.hyps(1), of "CHR '','' # join_params qs @ CHR '']'' # rest"]
      by (simp add: join_params_Cons)
  qed
qed simp

lemma parse_key_written:
  assumes "list_all2 written_key ps qs" "ps \<noteq> []" "name \<noteq> []" "\<forall>c\<in>set name. is_key_char c = SUCCEED"
  shows "parse_key (name @ CHR ''['' # join_params qs @ CHR '']'' # rest) = (True, rest)"
proof -
  have "dropWhile (\<lambda>c. is_key_char c = SUCCEED) (name @ CHR ''['' # s) = CHR ''['' # s" for s
    using assms(4) by (simp add: dropWhile_append3 is_key_char_def isalnum_def isalpha_def isdigit_def)
  then have "parse_key (name @ CHR ''['' # s) = parse_key_loop KeyInit False s" for s
    using assms(3) by (simp add: parse_key_def Let_def)
  then show ?thesis using parse_join [OF assms(1,2)] by simp
qed

lemma num_join:
  "list_all2 written_key ps qs \<Longrightarrow> ps \<noteq> [] \<Longrightarrow> num_param_loop KeyInit False ret (join_params qs) = ret + length ps - 1"
proof (induction ps qs arbitrary: ret rule: list_all2_induct)
  case (Cons p ps q qs)
  show ?case
  proof (cases "ps = []")
    case True
    then show ?thesis using Cons.hyps num_written_key [OF Cons.hyps(1), of "[]"] by simp
  next
    case False
    then have "qs \<noteq> []" using Cons.hyps by auto
    then show ?thesis
      using Cons.IH [OF False] num_written_key [OF Cons.hyps(1), of "CHR '','' # join_params qs"]
      by (simp add: join_params_Cons)
  qed
qed simp

lemma get_past: "num < idx \<Longrightarrow> get_key_loop max_len num KeyInit 0 idx b t r = Some (b, t)"
  by (cases r) (simp_all add: param_result_def param_found_def)

definition written_type :: "string \<Rightarrow> request_type" where
  "written_type q = (if q = [] then RequestUndefined else RequestString)"

lemma get_join:
  assumes "list_all2 written_key ps qs" "ps \<noteq> []"
  shows "idx \<le> num \<Longrightarrow> get_key_loop max_len num KeyInit 0 idx [] RequestUndefined (join_params qs) =
    (if num < idx + int (length ps) \<and> length (ps ! nat (num - idx)) \<le> max_len
     then Some (ps ! nat (num - idx), written_type (qs ! nat (num - idx))) else None)"
  using assms
proof (induction ps qs arbitrary: idx rule: list_all2_induct)
  case (Cons p ps q qs)
  note hyps = Cons.hyps and IH0 = Cons.IH
  have idx: "\<not> num < idx" using Cons.prems(1) by simp
  note g = get_written_key [OF hyps(1) _ idx, of _ "[]" max_len]
  have shift: "nat (num - idx) = Suc (nat (num - (idx + 1)))" if "idx \<noteq> num" using that idx by simp
  show ?case
  proof (cases "ps = []")
    case True
    then have "join_params (q # qs) = q" using hyps by simp
    then show ?thesis using g [of "[]"] True idx by (auto simp: param_result_def param_found_def set_type_def written_type_def)
  next
    case False
    then have "qs \<noteq> []" using hyps by auto
    then show ?thesis using g [of "CHR '','' # join_params qs"] idx IH0 [of "idx + 1", OF _ False] shift get_past [of num "idx + 1" max_len]
      by (auto simp: join_params_Cons set_type_def written_type_def)
  qed
qed simp

lemma strchr_append: "c \<notin> set s \<Longrightarrow> strchr (s @ c # t) c = Some (length s)"
  by (induction s) auto

lemma key_char_brackets: "is_key_char c = SUCCEED \<Longrightarrow> c \<noteq> CHR ''[''"
  by (auto simp: is_key_char_def isalnum_def isalpha_def isdigit_def split: if_splits)

lemma key_params_brackets:
  "\<forall>c\<in>set name. is_key_char c = SUCCEED \<Longrightarrow> key_params (name @ CHR ''['' # ps @ [CHR '']'']) = Some ps"
proof -
  assume "\<forall>c\<in>set name. is_key_char c = SUCCEED"
  then have "strchr (name @ CHR ''['' # ps @ [CHR '']'']) CHR ''['' = Some (length name)"
    using key_char_brackets by (intro strchr_append) auto
  then show ?thesis by (simp add: key_params_def strrchr_def)
qed

lemma get_join_len:
  assumes "list_all2 written_key ps qs" "ps \<noteq> []" "1 \<le> num"
  shows "get_param_len (join_params qs) num = (if num \<le> int (length ps) then Some (length (ps ! nat (num - 1))) else None)"
proof -
  define k where "k = length (ps ! nat (num - 1)) + (case get_param_len (join_params qs) num of None \<Rightarrow> 0 | Some n \<Rightarrow> n)"
  have "agrees k (get_param_len (join_params qs) num) (get_key_loop k num KeyInit 0 1 [] RequestUndefined (join_params qs))"
    using scanners_agree [of "[]" k num KeyInit 0 1 "join_params qs" RequestUndefined] by (simp add: get_param_len_def)
  then show ?thesis using get_join [OF assms, of k] by (auto simp: agrees_def k_def split: option.splits if_splits)
qed

text \<open>C35. The two scanners of a parameter agree: the copy succeeds exactly when the first scan gave a length and the buffer has
  a cell more, and it copies that many characters.\<close>

theorem item_key_scanners_agree:
  "case get_param_len p num of
     None \<Rightarrow> get_param p num max_len = None
   | Some n \<Rightarrow> if n < max_len then \<exists>buf. map_option fst (get_param p num max_len) = Some buf \<and> length buf = n
       else get_param p num max_len = None"
  using scanners_agree [of "[]" "max_len - 1" num KeyInit 0 1 p RequestUndefined]
  by (cases max_len) (auto simp: get_param_def get_param_len_def agrees_def split: option.splits if_splits)

text \<open>C13. Parameters that have been quoted, joined with commas and put between the brackets of a key, are read back by their
  numbers, at any size of the buffer that holds them, and unquoted to what they were; the key is accepted up to its closing
  bracket and the number of its parameters is counted.\<close>

theorem item_key_roundtrip:
  assumes "list_all2 (\<lambda>p q. \<exists>junk forced. quote_key_param junk p forced = Some q) ps qs" "ps \<noteq> []"
    and "name \<noteq> []" "\<forall>c\<in>set name. is_key_char c = SUCCEED" "1 \<le> num"
  shows "let params = join_params qs; key = name @ ''['' @ params @ '']''
    in parse_key (key @ rest) = (True, rest) \<and> num_key_param (Some key) = length ps \<and>
      get_param_dyn params num =
        (if num \<le> int (length ps) then Some (ps ! nat (num - 1), written_type (qs ! nat (num - 1))) else None) \<and>
      get_key_param key num max_len =
        (if num \<le> int (length ps) \<and> length (ps ! nat (num - 1)) < max_len
         then Some (ps ! nat (num - 1), written_type (qs ! nat (num - 1))) else None) \<and>
      list_all2 (\<lambda>p q. unquote_key_param q = Inr p) ps qs"
proof -
  have w: "list_all2 written_key ps qs"
    by (rule list_all2_mono [OF assms(1)]) (use quote_key_param_written in blast)
  have parse: "parse_key ((name @ ''['' @ join_params qs @ '']'') @ rest) = (True, rest)"
    using parse_key_written [OF w assms(2-4)] by simp
  have num: "num_key_param (Some (name @ ''['' @ join_params qs @ '']'')) = length ps"
    using num_join [OF w assms(2), of 1] key_params_brackets [OF assms(4)] by (simp add: num_key_param_def num_param_def)
  have get: "get_param (join_params qs) num m =
      (if num \<le> int (length ps) \<and> length (ps ! nat (num - 1)) < m
       then Some (ps ! nat (num - 1), written_type (qs ! nat (num - 1))) else None)" for m
    using get_join [OF w assms(2,5), of "m - 1"] by (cases m) (auto simp: get_param_def)
  have "list_all2 (\<lambda>p q. unquote_key_param q = Inr p) ps qs"
    by (rule list_all2_mono [OF w]) (rule unquote_written)
  then show ?thesis
    using parse num get key_params_brackets [OF assms(4)] get_join_len [OF w assms(2,5)]
    by (simp add: Let_def get_param_dyn_def get_key_param_def)
qed

theorem item_key_roundtrip_witness:
  "get_key_param (''f[1,'' @ QUOTE # ''a]'' @ BACKSLASH # QUOTE # QUOTE # '']'') 2 4 = Some (''a]'' @ [QUOTE], RequestString)"
proof -
  define ps where "ps = [''1'', ''a]'' @ [QUOTE]]"
  define qs where "qs = [''1'', QUOTE # ''a]'' @ BACKSLASH # QUOTE # [QUOTE]]"
  have "quote_key_param NUL ''1'' False = Some ''1''" by code_simp
  moreover have "quote_key_param NUL (''a]'' @ [QUOTE]) False = Some (QUOTE # ''a]'' @ BACKSLASH # QUOTE # [QUOTE])" by code_simp
  ultimately have "list_all2 (\<lambda>p q. \<exists>junk forced. quote_key_param junk p forced = Some q) ps qs" by (auto simp: ps_def qs_def)
  moreover have "ps \<noteq> []" "''f'' \<noteq> []" "\<forall>c\<in>set ''f''. is_key_char c = SUCCEED"
    by (simp_all add: ps_def is_key_char_def isalnum_def isalpha_def)
  ultimately show ?thesis using item_key_roundtrip [of ps qs "''f''" 2 "[]" 4] by (simp add: ps_def qs_def written_type_def Let_def)
qed

end
