(* ===== verification/UserMacro.thy ===== *)
theory UserMacro
  imports ItemKey
begin

text \<open>
  User macros such as \<open>{$LIMIT:context}\<close> (\<open>src/libs/zbxcommon/str.c\<close>): the parser that finds the end of the macro and its
  context, the split into name and context, the quoting and unquoting of a context, and the escaping of an argument
  of the shell.
\<close>

section \<open>Operations\<close>

datatype condition_operator = CONDITION_OPERATOR_EQUAL | CONDITION_OPERATOR_REGEXP

abbreviation macro_name :: "string \<Rightarrow> string" where
  "macro_name s \<equiv> takeWhile (\<lambda>c. is_macro_char c = SUCCEED) s"

definition ZBX_MACRO_REGEX_PREFIX :: string where
  "ZBX_MACRO_REGEX_PREFIX = ''regex:''"

text \<open>The number of characters from behind the opening quote to the closing one.\<close>

fun context_quoted_len :: "string \<Rightarrow> nat option" where
  "context_quoted_len [] = None"
| "context_quoted_len (c # s) =
    (if c = QUOTE then Some 0
     else if c = BACKSLASH \<and> cchar s 0 = QUOTE then map_option (\<lambda>n. n + 2) (context_quoted_len (drop 1 s))
     else map_option Suc (context_quoted_len s))"

text \<open>
  The position of the closing brace, the positions of the context (0 and 0 for none), and the operator when the caller
  asks for it.
\<close>

definition zbx_user_macro_parse :: "bool \<Rightarrow> string \<Rightarrow> (nat \<times> nat \<times> nat \<times> condition_operator option) option" where
  "zbx_user_macro_parse want_op macro =
    (let i = 2 + length (macro_name (drop 2 macro))
     in if i = 2 then None
        else if cchar macro i = CHR ''}'' then Some (i, 0, 0, if want_op then Some CONDITION_OPERATOR_EQUAL else None)
        else if cchar macro i \<noteq> CHR '':'' then None
        else
          let i = i + 1; n = length ZBX_MACRO_REGEX_PREFIX; regex = want_op \<and> take n (drop i macro) = ZBX_MACRO_REGEX_PREFIX;
              context_op = (if \<not> want_op then None else if regex then Some CONDITION_OPERATOR_REGEXP else Some CONDITION_OPERATOR_EQUAL);
              i = (if regex then i + n else i);
              context_l = i + length (takeWhile (\<lambda>c. c = CHR '' '') (drop i macro))
          in if cchar macro context_l = QUOTE then
               (case context_quoted_len (drop (context_l + 1) macro) of
                  None \<Rightarrow> None
                | Some k \<Rightarrow>
                    let context_r = context_l + 1 + k; i = context_r + 1;
                        i = i + length (takeWhile (\<lambda>c. c = CHR '' '') (drop i macro))
                    in if cchar macro i \<noteq> CHR ''}'' then None else Some (i, context_l, context_r, context_op))
             else
               let i = context_l + length (takeWhile (\<lambda>c. c \<noteq> CHR ''}'') (drop context_l macro))
               in if length macro \<le> i then None else Some (i, context_l, i - 1, context_op))"

text \<open>The characters that are copied, up to \<open>len\<close> of them; the second one of an escaped pair is copied in any case.\<close>

fun unquote_context_loop :: "bool \<Rightarrow> string \<Rightarrow> nat \<Rightarrow> string outcome" where
  "unquote_context_loop quoted context 0 = Inr []"
| "unquote_context_loop quoted [] (Suc len) = (if len = 0 then Inr [NUL] else Inl OutOfBounds)"
| "unquote_context_loop quoted (c # s) (Suc len) =
    (if quoted \<and> c = BACKSLASH \<and> cchar s 0 = QUOTE
     then map_sum id (\<lambda>t. QUOTE # t) (unquote_context_loop quoted (drop 1 s) (len - 1))
     else map_sum id (\<lambda>t. c # t) (unquote_context_loop quoted s len))"

definition zbx_user_macro_unquote_context_dyn :: "string \<Rightarrow> nat \<Rightarrow> string outcome" where
  "zbx_user_macro_unquote_context_dyn context len =
    (if cchar context 0 = QUOTE then
       (case unquote_context_loop True (drop 1 context) (len - 1) of
          Inl e \<Rightarrow> Inl e | Inr t \<Rightarrow> if t = [] then Inl OutOfBounds else Inr (butlast t))
     else unquote_context_loop False context len)"

fun quote_context_loop :: "string \<Rightarrow> string" where
  "quote_context_loop [] = []"
| "quote_context_loop (c # s) = (if c = QUOTE then [BACKSLASH] else []) @ c # quote_context_loop s"

text \<open>The size of the buffer, without its NUL, and the text that is written.\<close>

definition quote_context_len :: "string \<Rightarrow> nat" where
  "quote_context_len context = length context + 2 + length (filter (\<lambda>c. c = QUOTE) context)"

definition zbx_user_macro_quote_context_dyn :: "string \<Rightarrow> bool \<Rightarrow> string" where
  "zbx_user_macro_quote_context_dyn context force_quote =
    (let force_quote = force_quote \<or> cchar context 0 = QUOTE \<or> cchar context 0 = CHR '' '' \<or> CHR ''}'' \<in> set context
     in if \<not> force_quote then context else QUOTE # quote_context_loop context @ [QUOTE])"

text \<open>The position of the last character before \<open>k\<close> that is not a blank.\<close>

definition back_blanks :: "string \<Rightarrow> nat \<Rightarrow> nat" where
  "back_blanks s k = length (skip_blanks (rev (take k s))) - 1"

text \<open>The name without the context, the context, the length and the operator.\<close>

definition zbx_user_macro_parse_dyn :: "bool \<Rightarrow> string \<Rightarrow> (string \<times> string option \<times> nat \<times> condition_operator option) option outcome" where
  "zbx_user_macro_parse_dyn want_op macro =
    (case zbx_user_macro_parse want_op macro of
       None \<Rightarrow> Inr None
     | Some (macro_r, context_l, context_r, context_op) \<Rightarrow>
         if context_l \<noteq> 0 then
           let ptr = back_blanks macro context_l;
               ptr = (if context_op = Some CONDITION_OPERATOR_REGEXP then ptr - length ZBX_MACRO_REGEX_PREFIX else ptr)
           in map_sum id (\<lambda>context. Some (take ptr macro @ ''}'', Some context, macro_r + 1, context_op))
                (zbx_user_macro_unquote_context_dyn (drop context_l macro) (context_r + 1 - context_l))
         else Inr (Some (take (macro_r + 1) macro, None, macro_r + 1, context_op)))"

text \<open>An argument between single quotes of the shell.\<close>

abbreviation APOSTROPHE :: char where
  "APOSTROPHE \<equiv> CHR 0x27"

fun zbx_dyn_escape_shell_single_quote :: "string \<Rightarrow> string" where
  "zbx_dyn_escape_shell_single_quote [] = []"
| "zbx_dyn_escape_shell_single_quote (c # arg) =
    (if c = APOSTROPHE then [APOSTROPHE, BACKSLASH, APOSTROPHE, APOSTROPHE] else [c]) @ zbx_dyn_escape_shell_single_quote arg"

section \<open>Contexts are read back\<close>

lemma quote_context_escaped: "quote_context_loop s = escaped s"
  by (induction s) auto

lemma quote_context_size: "length (zbx_user_macro_quote_context_dyn p True) = quote_context_len p"
  by (induction p) (auto simp: zbx_user_macro_quote_context_dyn_def quote_context_len_def)

lemma context_quoted_escaped:
  "context_quoted_len (escaped p @ QUOTE # r) =
    (if p = [] \<or> last p \<noteq> BACKSLASH then Some (length (escaped p))
     else map_option (\<lambda>n. length (escaped p) + 1 + n) (context_quoted_len r))"
proof (induction p)
  case (Cons c p)
  show ?case
  proof (cases "c = BACKSLASH \<and> p = []")
    case False
    have "last (c # p) \<noteq> BACKSLASH \<longleftrightarrow> p = [] \<or> last p \<noteq> BACKSLASH" using False by auto
    moreover have "c = BACKSLASH \<Longrightarrow> cchar (escaped p @ QUOTE # r) 0 \<noteq> QUOTE" using False by (cases p) auto
    ultimately show ?thesis using Cons by (auto simp: option.map_comp o_def)
  qed (cases "context_quoted_len r"; simp)
qed simp

lemma cchar_in_set: "cchar s 0 = c \<Longrightarrow> c \<noteq> NUL \<Longrightarrow> c \<in> set s"
  by (cases s) auto

lemma context_quoted_none: "QUOTE \<notin> set r \<Longrightarrow> context_quoted_len r = None"
  by (induction r rule: context_quoted_len.induct) (auto dest: in_set_dropD cchar_in_set [of _ QUOTE])

lemma unquote_context_escaped:
  "p = [] \<or> last p \<noteq> BACKSLASH \<Longrightarrow>
    unquote_context_loop True (escaped p @ QUOTE # r) (length (escaped p) + 1) = Inr (p @ [QUOTE])"
proof (induction p)
  case (Cons c p)
  then show ?case using last_tail [OF Cons.prems] escaped_no_quote [of p "QUOTE # r"] by auto
qed simp

lemma unquote_context_plain: "unquote_context_loop False (s @ r) (length s) = Inr s"
  by (induction s) auto

text \<open>What the parser reads at the start of a context.\<close>

definition plain_context :: "string \<Rightarrow> bool" where
  "plain_context p \<longleftrightarrow> cchar p 0 \<noteq> QUOTE \<and> cchar p 0 \<noteq> CHR '' '' \<and> CHR ''}'' \<notin> set p"

lemma quote_context_cases:
  obtains "zbx_user_macro_quote_context_dyn p force = p" "plain_context p"
  | "zbx_user_macro_quote_context_dyn p force = QUOTE # escaped p @ [QUOTE]"
proof (cases "force \<or> \<not> plain_context p")
  case True
  then have "zbx_user_macro_quote_context_dyn p force = QUOTE # escaped p @ [QUOTE]"
    by (auto simp: zbx_user_macro_quote_context_dyn_def plain_context_def quote_context_escaped Let_def)
  then show ?thesis by (rule that(2))
next
  case False
  then have "zbx_user_macro_quote_context_dyn p force = p" "plain_context p"
    by (auto simp: zbx_user_macro_quote_context_dyn_def plain_context_def Let_def)
  then show ?thesis by (rule that(1))
qed

lemma quoted_differs: "QUOTE # escaped p @ [QUOTE] \<noteq> p"
proof
  assume "QUOTE # escaped p @ [QUOTE] = p"
  then have "length (QUOTE # escaped p @ [QUOTE]) = length p" by (rule arg_cong)
  then show False using escape_longer [of p "[QUOTE]"] by simp
qed

lemma skip_blanks_context:
  "plain_context p \<Longrightarrow> takeWhile (\<lambda>c. c = CHR '' '') (p @ CHR ''}'' # r) = []"
  by (cases p) (auto simp: plain_context_def)

lemma back_blanks_eq: "c \<noteq> CHR '' '' \<Longrightarrow> back_blanks (s @ c # replicate k (CHR '' '') @ r) (length s + 1 + k) = length s"
proof -
  assume c: "c \<noteq> CHR '' ''"
  have "take (length s + 1 + k) (s @ c # replicate k (CHR '' '') @ r) = s @ c # replicate k (CHR '' '')" by simp
  moreover have "skip_blanks (replicate k (CHR '' '') @ c # rev s) = c # rev s" using c by (induction k) auto
  ultimately show ?thesis by (simp add: back_blanks_def)
qed

text \<open>The parser from the separator on.\<close>

lemma parse_behind_name:
  assumes i: "2 + length (macro_name (drop 2 macro)) = i" "i \<noteq> 2" "cchar macro i = CHR '':''"
    and rx: "(want_op \<and> take 6 (drop (i + 1) macro) = ZBX_MACRO_REGEX_PREFIX) = regex"
    and j: "(if regex then i + 1 + 6 else i + 1) = j" and l: "j + length (takeWhile (\<lambda>c. c = CHR '' '') (drop j macro)) = l"
    and op: "(if \<not> want_op then None else if regex then Some CONDITION_OPERATOR_REGEXP else Some CONDITION_OPERATOR_EQUAL) = op"
  shows "zbx_user_macro_parse want_op macro =
    (if cchar macro l = QUOTE then
       (case context_quoted_len (drop (l + 1) macro) of
          None \<Rightarrow> None
        | Some k \<Rightarrow>
            let i = l + 1 + k + 1; i = i + length (takeWhile (\<lambda>c. c = CHR '' '') (drop i macro))
            in if cchar macro i \<noteq> CHR ''}'' then None else Some (i, l, l + 1 + k, op))
     else
       let i = l + length (takeWhile (\<lambda>c. c \<noteq> CHR ''}'') (drop l macro))
       in if length macro \<le> i then None else Some (i, l, i - 1, op))"
proof -
  have six: "length ZBX_MACRO_REGEX_PREFIX = 6" by (simp add: ZBX_MACRO_REGEX_PREFIX_def)
  show ?thesis unfolding zbx_user_macro_parse_def Let_def i(1) six rx j l op using i(2,3) by simp
qed

text \<open>The parser on a context behind the separator, a prefix and blanks.\<close>

lemma parse_context:
  assumes name: "name \<noteq> []" "\<forall>c\<in>set name. is_macro_char c = SUCCEED" and rest: "QUOTE \<notin> set rest"
    and q: "q = zbx_user_macro_quote_context_dyn p force" and regex: "regex \<longrightarrow> want_op"
    and prefix: "want_op \<and> \<not> regex \<longrightarrow> take 6 (blanks @ q) \<noteq> ZBX_MACRO_REGEX_PREFIX" "set blanks \<subseteq> {CHR '' ''}"
    and head: "head = ''{$'' @ name @ '':'' @ (if regex then ZBX_MACRO_REGEX_PREFIX else []) @ blanks"
  shows "zbx_user_macro_parse want_op (head @ q @ CHR ''}'' # rest) =
    (if q \<noteq> p \<and> p \<noteq> [] \<and> last p = BACKSLASH then None
     else Some (length head + length q, length head, length head + length q - 1,
       if \<not> want_op then None else if regex then Some CONDITION_OPERATOR_REGEXP else Some CONDITION_OPERATOR_EQUAL))"
proof -
  define macro where "macro = head @ q @ CHR ''}'' # rest"
  define i where "i = Suc (Suc (length name))"
  define j where "j = Suc i + (if regex then 6 else 0)"
  have six: "length ZBX_MACRO_REGEX_PREFIX = 6" by (simp add: ZBX_MACRO_REGEX_PREFIX_def)
  have "macro_name (drop 2 macro) = name"
    using name(2) by (simp add: macro_def head takeWhile_append is_macro_char_def isupper_def isdigit_def)
  then have n: "2 + length (macro_name (drop 2 macro)) = i" by (simp add: i_def)
  have sep: "cchar macro i = CHR '':''" by (simp add: macro_def head i_def cchar_def nth_append)
  have d: "drop (i + 1) macro = (if regex then ZBX_MACRO_REGEX_PREFIX else []) @ blanks @ q @ CHR ''}'' # rest"
    by (simp add: macro_def head i_def)
  have plain: "CHR ''}'' \<notin> set ZBX_MACRO_REGEX_PREFIX" by (simp add: ZBX_MACRO_REGEX_PREFIX_def)
  have "take 6 (blanks @ q @ CHR ''}'' # rest) \<noteq> ZBX_MACRO_REGEX_PREFIX" if "take 6 (blanks @ q) \<noteq> ZBX_MACRO_REGEX_PREFIX"
  proof (cases "6 \<le> length (blanks @ q)")
    case False
    then have "CHR ''}'' \<in> set (take 6 ((blanks @ q) @ CHR ''}'' # rest))" by (cases "6 - length (blanks @ q)") auto
    then have "CHR ''}'' \<in> set (take 6 (blanks @ q @ CHR ''}'' # rest))" by (simp only: append_assoc)
    then show ?thesis using plain by metis
  qed (use that in simp)
  then have rx: "want_op \<and> take 6 (drop (i + 1) macro) = ZBX_MACRO_REGEX_PREFIX \<longleftrightarrow> regex"
    using regex prefix(1) six unfolding d by (cases regex) auto
  have j: "(if regex then i + 1 + 6 else i + 1) = j" by (simp add: j_def)
  have dj: "drop j macro = blanks @ q @ CHR ''}'' # rest"
    by (simp add: macro_def head j_def i_def six)
  have qs: "cchar (q @ CHR ''}'' # rest) 0 \<noteq> CHR '' ''"
    unfolding q by (cases rule: quote_context_cases [of p force]; cases p) (auto simp: plain_context_def)
  then have "takeWhile (\<lambda>c. c = CHR '' '') (drop j macro) = blanks"
    unfolding dj by (intro takeWhile_stop) (use prefix(2) in auto)
  then have l: "j + length (takeWhile (\<lambda>c. c = CHR '' '') (drop j macro)) = length head"
    by (simp add: head j_def i_def six)
  have dl: "drop (length head) macro = q @ CHR ''}'' # rest" by (simp add: macro_def)
  have dq: "drop (length head + 1) macro = drop 1 q @ CHR ''}'' # rest" if "q \<noteq> []"
    using that by (cases q) (simp_all add: macro_def)
  have cl: "cchar macro (length head) = cchar (q @ CHR ''}'' # rest) 0" by (simp add: macro_def cchar_def nth_append)
  let ?op = "if \<not> want_op then None else if regex then Some CONDITION_OPERATOR_REGEXP else Some CONDITION_OPERATOR_EQUAL"
  have i2: "i \<noteq> 2" using name(1) by (simp add: i_def)
  note parse = parse_behind_name [OF n i2 sep rx j l refl, unfolded cl dl]
  have "zbx_user_macro_parse want_op macro = (if q \<noteq> p \<and> p \<noteq> [] \<and> last p = BACKSLASH then None
     else Some (length head + length q, length head, length head + length q - 1, ?op))"
  proof (cases rule: quote_context_cases [of p force])
    case 1
    have "takeWhile (\<lambda>c. c \<noteq> CHR ''}'') (p @ CHR ''}'' # rest) = p"
      by (rule takeWhile_stop) (use 1(2) in \<open>auto simp: plain_context_def\<close>)
    moreover have "cchar (p @ CHR ''}'' # rest) 0 \<noteq> QUOTE" using 1(2) by (cases p) (auto simp: plain_context_def)
    moreover have "q = p" using 1 q by simp
    moreover have "\<not> length macro \<le> length head + length q" by (simp add: macro_def)
    ultimately show ?thesis unfolding parse by (simp add: Let_def)
  next
    case 2
    then have q2: "q = QUOTE # escaped p @ [QUOTE]" using q by simp
    have "context_quoted_len (drop (length head + 1) macro) =
        (if p = [] \<or> last p \<noteq> BACKSLASH then Some (length (escaped p)) else None)"
      using context_quoted_escaped [of p "CHR ''}'' # rest"] context_quoted_none [of "CHR ''}'' # rest"] rest
      by (simp add: macro_def q2)
    moreover have "drop (length head + 1 + length (escaped p) + 1) macro = CHR ''}'' # rest" by (simp add: macro_def q2)
    moreover have "q \<noteq> p" using quoted_differs [of p] q2 by simp
    moreover have "cchar macro (length head + 1 + length (escaped p) + 1) = CHR ''}''" by (simp add: macro_def q2 cchar_def nth_append)
    ultimately show ?thesis unfolding parse by (auto simp: Let_def q2)
  qed
  then show ?thesis by (simp add: macro_def)
qed

lemma unquote_quoted:
  "q = zbx_user_macro_quote_context_dyn p force \<Longrightarrow> \<not> (q \<noteq> p \<and> p \<noteq> [] \<and> last p = BACKSLASH) \<Longrightarrow>
    zbx_user_macro_unquote_context_dyn (q @ CHR ''}'' # rest) (length q) = Inr p"
proof (cases rule: quote_context_cases [of p force])
  case 1
  assume "q = zbx_user_macro_quote_context_dyn p force"
  then have "q = p" using 1 by simp
  moreover have "cchar (p @ CHR ''}'' # rest) 0 \<noteq> QUOTE" using 1(2) by (cases p) (auto simp: plain_context_def)
  ultimately show ?thesis by (simp add: zbx_user_macro_unquote_context_dyn_def unquote_context_plain)
next
  case 2
  assume "q = zbx_user_macro_quote_context_dyn p force" "\<not> (q \<noteq> p \<and> p \<noteq> [] \<and> last p = BACKSLASH)"
  then have "q = QUOTE # escaped p @ [QUOTE]" "p = [] \<or> last p \<noteq> BACKSLASH" using 2 quoted_differs [of p] by auto
  then show ?thesis using unquote_context_escaped [of p "CHR ''}'' # rest"] by (simp add: zbx_user_macro_unquote_context_dyn_def)
qed

text \<open>C19. A macro that is put together from a name, the prefix for regular expressions or none, blanks and a quoted context is
  split into its name and its context. Only a quoted context that ends with a backslash is refused.\<close>

theorem user_macro_roundtrip:
  assumes "name \<noteq> []" "\<forall>c\<in>set name. is_macro_char c = SUCCEED" "QUOTE \<notin> set rest" "regex \<longrightarrow> want_op"
    and "want_op \<and> \<not> regex \<longrightarrow> take 6 (replicate k (CHR '' '') @ zbx_user_macro_quote_context_dyn p force) \<noteq> ZBX_MACRO_REGEX_PREFIX"
  shows "let q = zbx_user_macro_quote_context_dyn p force;
      macro = ''{$'' @ name @ '':'' @ (if regex then ZBX_MACRO_REGEX_PREFIX else []) @ replicate k (CHR '' '') @ q @ ''}''
    in zbx_user_macro_parse_dyn want_op (macro @ rest) = Inr
      (if q \<noteq> p \<and> p \<noteq> [] \<and> last p = BACKSLASH then None
       else Some (''{$'' @ name @ ''}'', Some p, length macro,
         if \<not> want_op then None else if regex then Some CONDITION_OPERATOR_REGEXP else Some CONDITION_OPERATOR_EQUAL))"
proof -
  define q where "q = zbx_user_macro_quote_context_dyn p force"
  define s where "s = (if regex then ''{$'' @ name @ '':regex'' else ''{$'' @ name)"
  define head where "head = ''{$'' @ name @ '':'' @ (if regex then ZBX_MACRO_REGEX_PREFIX else []) @ replicate k (CHR '' '')"
  have hs: "head = s @ CHR '':'' # replicate k (CHR '' '')" by (simp add: head_def s_def ZBX_MACRO_REGEX_PREFIX_def)
  define macro where "macro = head @ q @ CHR ''}'' # rest"
  define op where "op = (if \<not> want_op then None else if regex then Some CONDITION_OPERATOR_REGEXP else Some CONDITION_OPERATOR_EQUAL)"
  have behind: "back_blanks macro (length head) = length s"
    using back_blanks_eq [of "CHR '':''" s k "q @ CHR ''}'' # rest"] by (simp add: hs macro_def)
  have "(if op = Some CONDITION_OPERATOR_REGEXP then length s - length ZBX_MACRO_REGEX_PREFIX else length s) = Suc (Suc (length name))"
    using assms(4) by (simp add: s_def ZBX_MACRO_REGEX_PREFIX_def op_def)
  then have named: "take (if op = Some CONDITION_OPERATOR_REGEXP then length s - length ZBX_MACRO_REGEX_PREFIX else length s) macro = ''{$'' @ name"
    by (simp only:) (simp add: macro_def head_def)
  have parse: "zbx_user_macro_parse want_op macro =
    (if q \<noteq> p \<and> p \<noteq> [] \<and> last p = BACKSLASH then None
     else Some (length head + length q, length head, length head + length q - 1, op))"
    unfolding macro_def op_def
    by (rule parse_context [OF assms(1-3) q_def assms(4), of "replicate k (CHR '' '')"]) (use assms(5) in \<open>auto simp: q_def head_def\<close>)
  have "length head \<noteq> 0" by (simp add: head_def)
  then have len: "length head + length q - 1 + 1 - length head = length q" by simp
  have "drop (length head) macro = q @ CHR ''}'' # rest" by (simp add: macro_def)
  then have "zbx_user_macro_parse_dyn want_op macro = Inr
      (if q \<noteq> p \<and> p \<noteq> [] \<and> last p = BACKSLASH then None else Some (''{$'' @ name @ ''}'', Some p, length head + length q + 1, op))"
    unfolding zbx_user_macro_parse_dyn_def parse
    using behind named len unquote_quoted [OF q_def, of rest] \<open>length head \<noteq> 0\<close> by (auto simp add: Let_def simp del: take_append)
  then show ?thesis by (simp add: Let_def q_def [symmetric] head_def macro_def op_def)
qed

theorem user_macro_roundtrip_witness:
  "zbx_user_macro_parse_dyn True (''{$A: '' @ QUOTE # ''}'' @ BACKSLASH # QUOTE # ''}'') = Inr None \<and>
    zbx_user_macro_parse_dyn True (''{$A:'' @ QUOTE # ''}'' @ QUOTE # ''} + 1'') = Inr (Some (''{$A}'', Some ''}'', 8, Some CONDITION_OPERATOR_EQUAL))"
proof -
  have a: "''A'' \<noteq> []" "\<forall>c\<in>set ''A''. is_macro_char c = SUCCEED" "QUOTE \<notin> set []" "QUOTE \<notin> set '' + 1''" "False \<longrightarrow> True"
    by (simp_all add: is_macro_char_def isupper_def)
  have q: "zbx_user_macro_quote_context_dyn (''}'' @ [BACKSLASH]) False = QUOTE # ''}'' @ [BACKSLASH, QUOTE]"
    "zbx_user_macro_quote_context_dyn ''}'' False = QUOTE # ''}'' @ [QUOTE]"
    by (simp_all add: zbx_user_macro_quote_context_dyn_def Let_def)
  have r: "take 6 (replicate 1 (CHR '' '') @ QUOTE # ''}'' @ [BACKSLASH, QUOTE]) \<noteq> ZBX_MACRO_REGEX_PREFIX"
    "take 6 (replicate 0 (CHR '' '') @ QUOTE # ''}'' @ [QUOTE]) \<noteq> ZBX_MACRO_REGEX_PREFIX" by (simp_all add: ZBX_MACRO_REGEX_PREFIX_def)
  show ?thesis
    using user_macro_roundtrip [OF a(1-3,5), of 1 "''}'' @ [BACKSLASH]" False] user_macro_roundtrip [OF a(1,2,4,5), of 0 "''}''" False] q r
    by (simp add: Let_def)
qed

text \<open>The shell reads the escaped argument, between single quotes, as the argument: it leaves the quotes, takes an escaped
  apostrophe, and enters them again.\<close>

fun shell_word :: "bool \<Rightarrow> string \<Rightarrow> string option" where
  "shell_word quoted [] = (if quoted then None else Some [])"
| "shell_word True (c # s) = (if c = APOSTROPHE then shell_word False s else map_option (\<lambda>t. c # t) (shell_word True s))"
| "shell_word False (c # s) =
    (if c = APOSTROPHE then shell_word True s
     else if c = BACKSLASH then (case s of [] \<Rightarrow> None | d # s \<Rightarrow> map_option (\<lambda>t. d # t) (shell_word False s))
     else None)"

lemma shell_escape: "shell_word True (zbx_dyn_escape_shell_single_quote arg @ [APOSTROPHE]) = Some arg"
  by (induction arg) auto

end
