(* ===== verification/Token.thy ===== *)
theory Token
  imports UserMacro
begin

text \<open>
  Tokens in texts and expressions (\<open>src/libs/zbxcommon/str.c\<close>): macros, macros with functions, simple macros
  \<open>{host:key.function()}\<close>, user macros, macros of low-level discovery, identifiers, and references \<open>$1\<close>. A pointer into the
  expression is its position. The search for the next token finds the leftmost one.
\<close>

section \<open>Data\<close>

datatype zbx_strloc = Strloc (loc_l: nat) (loc_r: nat)

text \<open>The type of the token is the member of the union that is filled.\<close>

datatype zbx_token_data =
    TokenObjectid zbx_strloc
  | TokenMacro zbx_strloc
  | TokenLldMacro zbx_strloc
  | TokenUserMacro zbx_strloc zbx_strloc
  | TokenFuncMacro zbx_strloc zbx_strloc zbx_strloc
  | TokenLldFuncMacro zbx_strloc zbx_strloc zbx_strloc
  | TokenSimpleMacro zbx_strloc zbx_strloc zbx_strloc zbx_strloc
  | TokenReference nat

datatype zbx_token = Token (token_loc: zbx_strloc) (token_data: zbx_token_data)

datatype zbx_token_search = ZBX_TOKEN_SEARCH_BASIC | ZBX_TOKEN_SEARCH_REFERENCES

section \<open>Macros with simple contents\<close>

definition zbx_token_parse_user_macro :: "string \<Rightarrow> nat \<Rightarrow> zbx_token option" where
  "zbx_token_parse_user_macro expression macro =
    (case zbx_user_macro_parse False (drop macro expression) of
       None \<Rightarrow> None
     | Some (macro_r, context_l, context_r, op) \<Rightarrow>
         let loc = Strloc macro (macro + macro_r)
         in if context_l \<noteq> 0 then
              Some (Token loc (TokenUserMacro (Strloc (macro + 2) (macro + back_blanks (drop macro expression) context_l - 1))
                (Strloc (macro + context_l) (macro + context_r))))
            else Some (Token loc (TokenUserMacro (Strloc (macro + 2) (loc_r loc - 1)) (Strloc 0 0))))"

text \<open>The number of characters up to the closing brace, all of them of one kind.\<close>

definition braced :: "(char \<Rightarrow> bool) \<Rightarrow> string \<Rightarrow> nat option" where
  "braced ok s = (let n = length (takeWhile (\<lambda>c. c \<noteq> CHR ''}'' \<and> ok c) s) in if cchar s n = CHR ''}'' then Some n else None)"

definition zbx_token_parse_lld_macro :: "string \<Rightarrow> nat \<Rightarrow> zbx_token option" where
  "zbx_token_parse_lld_macro expression macro =
    (case braced (\<lambda>c. is_macro_char c = SUCCEED) (drop (macro + 2) expression) of
       None \<Rightarrow> None
     | Some n \<Rightarrow>
         if n = 0 then None
         else let r = macro + 2 + n in Some (Token (Strloc macro r) (TokenLldMacro (Strloc (macro + 2) (r - 1)))))"

definition zbx_token_parse_objectid :: "string \<Rightarrow> nat \<Rightarrow> zbx_token option" where
  "zbx_token_parse_objectid expression macro =
    (case braced isdigit (drop (macro + 1) expression) of
       None \<Rightarrow> None
     | Some n \<Rightarrow>
         if n = 0 then None
         else let r = macro + 1 + n in Some (Token (Strloc macro r) (TokenObjectid (Strloc (macro + 1) (r - 1)))))"

section \<open>Names of macros\<close>

fun segment_quoted_len :: "string \<Rightarrow> nat option" where
  "segment_quoted_len [] = None"
| "segment_quoted_len (c # s) =
    (if c = QUOTE then Some 0
     else if c = BACKSLASH then
       (case s of
          [] \<Rightarrow> None
        | d # s \<Rightarrow> if d \<noteq> BACKSLASH \<and> d \<noteq> QUOTE then None else map_option (\<lambda>n. n + 2) (segment_quoted_len s))
     else map_option Suc (segment_quoted_len s))"

text \<open>Whether the segment is strict (no quotes, no small letters), and the position behind it.\<close>

definition zbx_token_parse_macro_segment :: "string \<Rightarrow> nat \<Rightarrow> (bool \<times> nat) option" where
  "zbx_token_parse_macro_segment expression segment =
    (let s = drop segment expression
     in if cchar s 0 \<noteq> QUOTE then
          let w = takeWhile (\<lambda>c. isalpha c \<or> isdigit c \<or> c = CHR ''_'') s
          in if w = [] then None else Some (\<forall>c\<in>set w. isalpha c \<longrightarrow> isupper c, segment + length w)
        else
          case segment_quoted_len (drop 1 s) of
            None \<Rightarrow> None
          | Some n \<Rightarrow> if n = 0 then None else Some (False, segment + 1 + n + 1))"

lemma segment_quoted_less: "segment_quoted_len s = Some n \<Longrightarrow> n < length s"
proof (induction s arbitrary: n rule: segment_quoted_len.induct)
  case (2 c s)
  show ?case
  proof (cases "c \<noteq> QUOTE \<and> c = BACKSLASH")
    case True
    then show ?thesis using 2 by (cases s) (auto split: if_splits)
  next
    case False
    then show ?thesis using 2 by (auto split: if_splits)
  qed
qed simp

lemma parse_segment_next: "zbx_token_parse_macro_segment expression p = Some (strict, k) \<Longrightarrow> p < k \<and> k \<le> length expression"
proof (cases "cchar (drop p expression) 0 = QUOTE")
  case True
  assume "zbx_token_parse_macro_segment expression p = Some (strict, k)"
  then show ?thesis using True segment_quoted_less [of "drop 1 (drop p expression)"]
    by (auto simp: zbx_token_parse_macro_segment_def Let_def split: option.splits if_splits)
next
  case False
  let ?w = "takeWhile (\<lambda>c. isalpha c \<or> isdigit c \<or> c = CHR ''_'') (drop p expression)"
  assume "zbx_token_parse_macro_segment expression p = Some (strict, k)"
  then have "k = p + length ?w" "?w \<noteq> []" using False by (auto simp: zbx_token_parse_macro_segment_def Let_def split: if_splits)
  moreover have "length ?w \<le> length (drop p expression)" by (rule length_takeWhile_le)
  moreover have "length ?w \<noteq> 0" using \<open>?w \<noteq> []\<close> by simp
  ultimately show ?thesis unfolding length_drop by linarith
qed

text \<open>Segments between dots. Only the last one may be loose, and the first one may not.\<close>

function macro_name_loop :: "string \<Rightarrow> nat \<Rightarrow> nat \<Rightarrow> zbx_strloc option" where
  "macro_name_loop expression l ptr =
    (case zbx_token_parse_macro_segment expression ptr of
       None \<Rightarrow> None
     | Some (strict, offset) \<Rightarrow>
         if \<not> strict \<and> l = ptr then None
         else if cchar expression offset \<noteq> CHR ''.'' \<or> \<not> strict then Some (Strloc l (offset - 1))
         else macro_name_loop expression l (offset + 1))"
  by pat_completeness auto
termination
  by (relation "measure (\<lambda>(expression, l, ptr). Suc (length expression) - ptr)") (auto dest: parse_segment_next)

declare macro_name_loop.simps [simp del]

definition zbx_token_parse_macro_name :: "string \<Rightarrow> nat \<Rightarrow> zbx_strloc option" where
  "zbx_token_parse_macro_name expression ptr = macro_name_loop expression ptr ptr"

definition zbx_token_parse_macro :: "string \<Rightarrow> nat \<Rightarrow> zbx_token option" where
  "zbx_token_parse_macro expression macro =
    (case zbx_token_parse_macro_name expression (macro + 1) of
       None \<Rightarrow> None
     | Some loc \<Rightarrow>
         if cchar expression (loc_r loc + 1) \<noteq> CHR ''}'' then None
         else Some (Token (Strloc (loc_l loc - 1) (loc_r loc + 1)) (TokenMacro loc)))"

section \<open>Macros with functions\<close>

text \<open>The location of the function, and of its parameters with their parentheses.\<close>

definition zbx_token_parse_function :: "string \<Rightarrow> nat \<Rightarrow> (zbx_strloc \<times> zbx_strloc) option" where
  "zbx_token_parse_function expression func =
    (case zbx_function_validate (drop func expression) 0 of
       Inl e \<Rightarrow> None
     | Inr (par_l, par_r) \<Rightarrow> Some (Strloc func (func + par_r), Strloc (func + par_l) (func + par_r)))"

definition skip_to_brace :: "string \<Rightarrow> nat \<Rightarrow> nat option" where
  "skip_to_brace expression ptr =
    (let ptr = ptr + length (takeWhile (\<lambda>c. c = CHR '' '') (drop ptr expression))
     in if cchar expression ptr \<noteq> CHR ''}'' then None else Some ptr)"

definition zbx_token_parse_func_macro :: "string \<Rightarrow> nat \<Rightarrow> nat \<Rightarrow> bool \<Rightarrow> zbx_token option" where
  "zbx_token_parse_func_macro expression macro func lld =
    (if cchar expression func = NUL then None
     else case zbx_token_parse_function expression func of
       None \<Rightarrow> None
     | Some (func_loc, func_param) \<Rightarrow>
         (case skip_to_brace expression (loc_r func_loc + 1) of
            None \<Rightarrow> None
          | Some ptr \<Rightarrow>
              Some (Token (Strloc macro ptr)
                ((if lld then TokenLldFuncMacro else TokenFuncMacro) (Strloc (macro + 1) (loc_l func_loc - 2)) func_loc func_param))))"

text \<open>
  The end of a key: behind the key, or behind a macro in its place, which is looked for behind the NUL when the expression
  ends here. A function name is given back to its dot, wherever the last one is; without any the scan leaves the
  expression. The function is read behind the character at the end of the key, even when that is the NUL. A key that ends in front of
  the expression has the position of -1 in an unsigned size.
\<close>

definition simple_macro_key_end :: "string \<Rightarrow> nat \<Rightarrow> nat option outcome" where
  "simple_macro_key_end expression key =
    (case parse_key (drop key expression) of
       (True, rest) \<Rightarrow> Inr (Some (length expression - length rest))
     | (False, rest) \<Rightarrow>
         if length expression \<le> key then Inl OutOfBounds
         else Inr (map_option (\<lambda>t. loc_r (token_loc t) + 1) (zbx_token_parse_macro expression key)))"

definition back_to_dot :: "string \<Rightarrow> nat \<Rightarrow> nat outcome" where
  "back_to_dot expression ptr =
    (if cchar expression ptr = CHR ''('' then
       (case strrchr (take ptr expression) CHR ''.'' of None \<Rightarrow> Inl OutOfBounds | Some ptr \<Rightarrow> Inr ptr)
     else Inr ptr)"

definition zbx_token_parse_simple_macro_key :: "string \<Rightarrow> nat \<Rightarrow> nat \<Rightarrow> zbx_token option outcome" where
  "zbx_token_parse_simple_macro_key expression macro key =
    (case simple_macro_key_end expression key of
       Inl e \<Rightarrow> Inl e
     | Inr None \<Rightarrow> Inr None
     | Inr (Some ptr) \<Rightarrow>
         (case back_to_dot expression ptr of
            Inl e \<Rightarrow> Inl e
          | Inr ptr \<Rightarrow>
              if ptr = key then Inr None
              else if length expression \<le> ptr then Inl OutOfBounds
              else case zbx_token_parse_function expression (ptr + 1) of
                None \<Rightarrow> Inr None
              | Some (func_loc, func_param) \<Rightarrow>
                  (case skip_to_brace expression (loc_r func_loc + 1) of
                     None \<Rightarrow> Inr None
                   | Some r \<Rightarrow>
                       Inr (Some (Token (Strloc macro r)
                         (TokenSimpleMacro (Strloc (macro + 1) (key - 2)) (Strloc key (if ptr = 0 then 2 ^ 64 - 1 else ptr - 1))
                           func_loc func_param))))))"

definition zbx_token_parse_simple_macro :: "string \<Rightarrow> nat \<Rightarrow> zbx_token option outcome" where
  "zbx_token_parse_simple_macro expression macro =
    (let n = length (takeWhile (\<lambda>c. c \<noteq> CHR '':'' \<and> is_hostname_char c = SUCCEED) (drop (macro + 1) expression))
     in if cchar expression (macro + 1 + n) \<noteq> CHR '':'' then Inr None
        else if n = 0 then Inr None
        else zbx_token_parse_simple_macro_key expression macro (macro + 1 + n + 1))"

text \<open>A macro, or a macro of low-level discovery, in the place of the first part.\<close>

definition zbx_token_parse_nested_macro :: "string \<Rightarrow> nat \<Rightarrow> zbx_token option outcome" where
  "zbx_token_parse_nested_macro expression macro =
    (let lld = (cchar expression (macro + 2) = CHR ''#'')
     in case (if lld
              then Option.bind (braced (\<lambda>c. is_macro_char c = SUCCEED) (drop (macro + 3) expression))
                (\<lambda>n. if n = 0 then None else Some (macro + 3 + n))
              else Option.bind (zbx_token_parse_macro_name expression (macro + 2))
                (\<lambda>loc. if cchar expression (loc_r loc + 1) \<noteq> CHR ''}'' then None else Some (loc_r loc + 1))) of
          None \<Rightarrow> Inr None
        | Some ptr \<Rightarrow>
            if cchar expression (ptr + 1) = CHR ''.'' then Inr (zbx_token_parse_func_macro expression macro (ptr + 2) lld)
            else if \<not> lld \<and> cchar expression (ptr + 1) = CHR '':'' then zbx_token_parse_simple_macro_key expression macro (ptr + 2)
            else Inr None)"

section \<open>The search\<close>

text \<open>The token that starts with the brace at a position.\<close>

definition token_at :: "string \<Rightarrow> nat \<Rightarrow> zbx_token option outcome" where
  "token_at expression ptr =
    (let c = cchar expression (ptr + 1);
         macro = (case zbx_token_parse_macro expression ptr of None \<Rightarrow> zbx_token_parse_simple_macro expression ptr | t \<Rightarrow> Inr t)
     in if c = CHR ''$'' then Inr (zbx_token_parse_user_macro expression ptr)
        else if c = CHR ''#'' then Inr (zbx_token_parse_lld_macro expression ptr)
        else if c = CHR ''{'' then zbx_token_parse_nested_macro expression ptr
        else if isdigit c then (case zbx_token_parse_objectid expression ptr of None \<Rightarrow> macro | t \<Rightarrow> Inr t)
        else macro)"

text \<open>Position of a character from a position on.\<close>

definition strchr_from :: "string \<Rightarrow> nat \<Rightarrow> char \<Rightarrow> nat option" where
  "strchr_from s i c = map_option (\<lambda>n. i + n) (strchr (drop i s) c)"

lemma strchr_from_less: "strchr_from s i c = Some j \<Longrightarrow> i \<le> j \<and> j < length s \<and> s ! j = c \<and> (\<forall>k. i \<le> k \<and> k < j \<longrightarrow> s ! k \<noteq> c)"
proof -
  assume "strchr_from s i c = Some j"
  then obtain n where n: "strchr (drop i s) c = Some n" "j = i + n" by (auto simp: strchr_from_def)
  then have "n < length s - i" "drop i s ! n = c" "\<forall>m<n. drop i s ! m \<noteq> c" by (simp_all add: strchr_Some_iff)
  moreover have "s ! k \<noteq> c" if "i \<le> k" "k < j" for k
    using \<open>\<forall>m<n. drop i s ! m \<noteq> c\<close> [rule_format, of "k - i"] that n(2) \<open>n < length s - i\<close> by simp
  ultimately show ?thesis using n(2) by auto
qed

lemma strchr_from_before: "i \<le> k \<Longrightarrow> c \<noteq> NUL \<Longrightarrow> strchr_from s i c = None \<or> k < the (strchr_from s i c) \<Longrightarrow> cchar s k \<noteq> c"
proof (cases "strchr_from s i c")
  case None
  assume a: "i \<le> k" "c \<noteq> NUL"
  have "c \<notin> set (drop i s)" using None by (simp add: strchr_from_def)
  moreover have "s ! k \<in> set (drop i s)" if "k < length s"
    unfolding in_set_conv_nth using that a(1) by (intro exI [of _ "k - i"]) simp
  ultimately show ?thesis using a(2) by (cases "k < length s") (auto simp: cchar_def)
next
  case (Some j)
  assume "i \<le> k" "strchr_from s i c = None \<or> k < the (strchr_from s i c)"
  then show ?thesis using Some strchr_from_less [OF Some] by (simp add: cchar_def)
qed

text \<open>The dollar of the first reference in front of the brace, or the first dollar that is not in front of it.\<close>

datatype dollar_scan = ReferenceAt nat | DollarBehind nat | NoDollar

function reference_loop :: "string \<Rightarrow> nat option \<Rightarrow> nat \<Rightarrow> dollar_scan" where
  "reference_loop expression ptr dollar =
    (case strchr_from expression dollar CHR ''$'' of
       None \<Rightarrow> NoDollar
     | Some d \<Rightarrow>
         if ptr = None \<or> d < the ptr then
           if \<not> isdigit (cchar expression (d + 1)) then reference_loop expression ptr (d + 1) else ReferenceAt d
         else DollarBehind d)"
  by pat_completeness auto
termination
  by (relation "measure (\<lambda>(expression, ptr, dollar). Suc (length expression) - dollar)") (auto dest: strchr_from_less)

declare reference_loop.simps [simp del]

definition digit_of :: "char \<Rightarrow> nat" where
  "digit_of c = of_char c - 48"

definition reference_token :: "string \<Rightarrow> nat \<Rightarrow> zbx_token" where
  "reference_token expression d = Token (Strloc d (d + 1)) (TokenReference (digit_of (cchar expression (d + 1))))"

function token_find_loop :: "string \<Rightarrow> nat \<Rightarrow> nat \<Rightarrow> zbx_token_search \<Rightarrow> zbx_token option outcome" where
  "token_find_loop expression ptr dollar search =
    (let p = strchr_from expression ptr CHR ''{'';
         scan = (if search = ZBX_TOKEN_SEARCH_REFERENCES then reference_loop expression p dollar else DollarBehind dollar)
     in case scan of
          ReferenceAt d \<Rightarrow> Inr (Some (reference_token expression d))
        | _ \<Rightarrow>
            (case p of
               None \<Rightarrow> Inr None
             | Some p \<Rightarrow>
                 if cchar expression (p + 1) = NUL then Inr None
                 else case token_at expression p of
                   Inl e \<Rightarrow> Inl e
                 | Inr (Some t) \<Rightarrow> Inr (Some t)
                 | Inr None \<Rightarrow>
                     (case scan of
                        DollarBehind d \<Rightarrow> token_find_loop expression (p + 1) d search
                      | _ \<Rightarrow> token_find_loop expression (p + 1) dollar ZBX_TOKEN_SEARCH_BASIC)))"
  by pat_completeness auto
termination
  by (relation "measure (\<lambda>(expression, ptr, dollar, search). Suc (length expression) - ptr)") (auto dest!: strchr_from_less [OF sym])

declare token_find_loop.simps [simp del]

definition zbx_token_find :: "string \<Rightarrow> nat \<Rightarrow> zbx_token_search \<Rightarrow> zbx_token option outcome" where
  "zbx_token_find expression pos search = token_find_loop expression pos pos search"

section \<open>The leftmost token\<close>

definition token_starts :: "string \<Rightarrow> zbx_token_search \<Rightarrow> nat \<Rightarrow> zbx_token option outcome" where
  "token_starts expression search i =
    (if cchar expression i = CHR ''{'' then token_at expression i
     else if search = ZBX_TOKEN_SEARCH_REFERENCES \<and> cchar expression i = CHR ''$'' \<and> isdigit (cchar expression (i + 1))
     then Inr (Some (reference_token expression i)) else Inr None)"

definition leftmost_token :: "string \<Rightarrow> zbx_token_search \<Rightarrow> nat \<Rightarrow> zbx_token option outcome" where
  "leftmost_token expression search pos =
    (case find (\<lambda>i. token_starts expression search i \<noteq> Inr None) [pos..<length expression] of
       None \<Rightarrow> Inr None | Some i \<Rightarrow> token_starts expression search i)"

lemma leftmost_end: "length s \<le> i \<Longrightarrow> leftmost_token s search i = Inr None"
  by (simp add: leftmost_token_def)

lemma leftmost_step:
  "i < length s \<Longrightarrow> leftmost_token s search i =
    (if token_starts s search i \<noteq> Inr None then token_starts s search i else leftmost_token s search (i + 1))"
  by (simp add: leftmost_token_def upt_conv_Cons)

lemma leftmost_skip:
  assumes "i \<le> j" "\<forall>k. i \<le> k \<and> k < j \<longrightarrow> token_starts s search k = Inr None"
  shows "leftmost_token s search i = leftmost_token s search j"
  using assms
proof (induction "j - i" arbitrary: i)
  case (Suc n)
  have IH: "leftmost_token s search (i + 1) = leftmost_token s search j" by (rule Suc.hyps(1)) (use Suc.hyps(2) Suc.prems in auto)
  have "token_starts s search i = Inr None" using Suc by simp
  then show ?case using IH leftmost_step [of i s search] leftmost_end [of s i search] leftmost_end [of s "i + 1" search]
    by (cases "i < length s") auto
qed simp

abbreviation is_reference :: "string \<Rightarrow> nat \<Rightarrow> bool" where
  "is_reference s i \<equiv> cchar s i = CHR ''$'' \<and> isdigit (cchar s (i + 1))"

lemma reference_loop_spec:
  "case reference_loop s p dollar of
     ReferenceAt d \<Rightarrow> dollar \<le> d \<and> is_reference s d \<and> (p = None \<or> d < the p) \<and> (\<forall>k. dollar \<le> k \<and> k < d \<longrightarrow> \<not> is_reference s k)
   | DollarBehind d \<Rightarrow> dollar \<le> d \<and> p \<noteq> None \<and> the p \<le> d \<and> cchar s d = CHR ''$'' \<and> (\<forall>k. dollar \<le> k \<and> k < d \<longrightarrow> \<not> is_reference s k)
   | NoDollar \<Rightarrow> \<forall>k\<ge>dollar. \<not> is_reference s k"
proof (induction s p dollar rule: reference_loop.induct)
  case (1 s p dollar)
  show ?case
  proof (cases "strchr_from s dollar CHR ''$''")
    case None
    then have "cchar s k \<noteq> CHR ''$''" if "dollar \<le> k" for k using that strchr_from_before [of dollar k "CHR ''$''" s] by simp
    then show ?thesis using None by (subst reference_loop.simps) auto
  next
    case (Some d)
    note d = strchr_from_less [OF Some]
    have c: "cchar s k \<noteq> CHR ''$''" if "dollar \<le> k" "k < d" for k using that d by (simp add: cchar_def)
    have dd: "cchar s d = CHR ''$''" using d by (simp add: cchar_def)
    show ?thesis
    proof (cases "(p = None \<or> d < the p) \<and> \<not> isdigit (cchar s (d + 1))")
      case True
      have none: "\<not> is_reference s k" if "dollar \<le> k" "k < d + 1" for k using that c True by (cases "k = d") auto
      have "reference_loop s p dollar = reference_loop s p (d + 1)" using Some True by (subst reference_loop.simps) auto
      moreover note 1 [OF Some]
      ultimately show ?thesis using none True d by (auto split: dollar_scan.splits simp: not_less_eq_eq) (meson le_less_trans not_le)+
    next
      case False
      then show ?thesis using Some d c dd by (subst reference_loop.simps) (auto split: if_splits)
    qed
  qed
qed

lemma starts_none: "cchar s i \<noteq> CHR ''{'' \<Longrightarrow> \<not> (search = ZBX_TOKEN_SEARCH_REFERENCES \<and> is_reference s i) \<Longrightarrow> token_starts s search i = Inr None"
  by (auto simp: token_starts_def)

lemma token_at_end:
  assumes "cstring s" "p < length s" "cchar s (p + 1) = NUL"
  shows "length s = p + 1" "token_at s p = Inr None"
proof -
  show len: "length s = p + 1"
  proof (rule ccontr)
    assume "length s \<noteq> p + 1"
    then have "p + 1 < length s" using assms(2) by simp
    then have "cchar s (p + 1) \<in> set s" by (simp add: cchar_def)
    then show False using assms(1,3) by (simp add: cstring_def)
  qed
  then have d: "drop (p + 1) s = []" by simp
  have "zbx_token_parse_macro_segment s (p + 1) = None" unfolding zbx_token_parse_macro_segment_def d by simp
  then have "macro_name_loop s l (p + 1) = None" for l by (subst macro_name_loop.simps) simp
  then have "zbx_token_parse_macro s p = None" by (simp add: zbx_token_parse_macro_def zbx_token_parse_macro_name_def)
  moreover have "zbx_token_parse_simple_macro s p = Inr None" using assms(3) d by (simp add: zbx_token_parse_simple_macro_def Let_def)
  ultimately show "token_at s p = Inr None" using assms(3) by (simp add: token_at_def Let_def)
qed

lemma token_find_loop_leftmost:
  assumes "cstring s" "search = ZBX_TOKEN_SEARCH_REFERENCES \<Longrightarrow> ptr \<le> dollar" "search = base \<or> search = ZBX_TOKEN_SEARCH_BASIC"
    and "search = ZBX_TOKEN_SEARCH_REFERENCES \<Longrightarrow> \<forall>k. ptr \<le> k \<and> k < dollar \<longrightarrow> \<not> is_reference s k"
    and "search \<noteq> base \<Longrightarrow> \<forall>k\<ge>ptr. \<not> is_reference s k"
  shows "token_find_loop s ptr dollar search = leftmost_token s base ptr"
  using assms(2-)
proof (induction "length s - ptr" arbitrary: ptr dollar search rule: less_induct)
  case less
  define p where "p = strchr_from s ptr CHR ''{''"
  define scan where "scan = (if search = ZBX_TOKEN_SEARCH_REFERENCES then reference_loop s p dollar else DollarBehind dollar)"
  have loop: "token_find_loop s ptr dollar search = (case scan of ReferenceAt d \<Rightarrow> Inr (Some (reference_token s d))
        | _ \<Rightarrow>
            (case p of
               None \<Rightarrow> Inr None
             | Some p \<Rightarrow>
                 if cchar s (p + 1) = NUL then Inr None
                 else case token_at s p of
                   Inl e \<Rightarrow> Inl e
                 | Inr (Some t) \<Rightarrow> Inr (Some t)
                 | Inr None \<Rightarrow>
                     (case scan of
                        DollarBehind d \<Rightarrow> token_find_loop s (p + 1) d search
                      | _ \<Rightarrow> token_find_loop s (p + 1) dollar ZBX_TOKEN_SEARCH_BASIC)))"
    by (subst token_find_loop.simps) (simp only: Let_def p_def scan_def)
  have brace: "cchar s k \<noteq> CHR ''{''" if "ptr \<le> k" "p = None \<or> k < the p" for k
    using that strchr_from_before [of ptr k "CHR ''{''" s] by (simp add: p_def)
  show ?case
  proof (cases "\<exists>d. scan = ReferenceAt d")
    case True
    then obtain d where scan: "scan = ReferenceAt d" by blast
    then have search: "search = ZBX_TOKEN_SEARCH_REFERENCES" "base = ZBX_TOKEN_SEARCH_REFERENCES"
      using less.prems(2) by (auto simp: scan_def split: if_splits)
    have d: "dollar \<le> d" "is_reference s d" "p = None \<or> d < the p" "\<forall>k. dollar \<le> k \<and> k < d \<longrightarrow> \<not> is_reference s k"
      using reference_loop_spec [where s = s and p = p and dollar = dollar] scan search by (auto simp: scan_def)
    have "token_starts s base k = Inr None" if "ptr \<le> k" "k < d" for k
      using that brace [of k] d less.prems(3) [OF search(1)] by (cases "k < dollar") (auto intro!: starts_none)
    then have "leftmost_token s base ptr = leftmost_token s base d"
      using d(1) less.prems(1) [OF search(1)] by (intro leftmost_skip) auto
    moreover have "token_starts s base d = Inr (Some (reference_token s d))" using d(2) search by (simp add: token_starts_def)
    moreover have "d < length s" using d(2) by (cases "d < length s") (auto simp: cchar_def)
    ultimately show ?thesis unfolding loop scan by (simp add: leftmost_step)
  next
    case False
    define next_dollar where "next_dollar = (case scan of DollarBehind d \<Rightarrow> d | _ \<Rightarrow> dollar)"
    define next_search where "next_search = (case scan of DollarBehind d \<Rightarrow> search | _ \<Rightarrow> ZBX_TOKEN_SEARCH_BASIC)"
    have loop: "token_find_loop s ptr dollar search =
        (case p of
           None \<Rightarrow> Inr None
         | Some p \<Rightarrow>
             if cchar s (p + 1) = NUL then Inr None
             else case token_at s p of
               Inl e \<Rightarrow> Inl e
             | Inr (Some t) \<Rightarrow> Inr (Some t)
             | Inr None \<Rightarrow> token_find_loop s (p + 1) next_dollar next_search)"
      unfolding loop next_dollar_def next_search_def using False by (cases scan) (auto split: option.splits sum.splits)
    have spec: "case scan of
       DollarBehind d \<Rightarrow> search = ZBX_TOKEN_SEARCH_REFERENCES \<longrightarrow> p \<noteq> None \<and> the p \<le> d \<and> cchar s d = CHR ''$'' \<and>
         (\<forall>k. ptr \<le> k \<and> k < d \<longrightarrow> \<not> is_reference s k)
     | _ \<Rightarrow> search = ZBX_TOKEN_SEARCH_REFERENCES \<and> (\<forall>k\<ge>ptr. \<not> is_reference s k)"
    proof (cases "search = ZBX_TOKEN_SEARCH_REFERENCES")
      case True
      note loop_spec = reference_loop_spec [where s = s and p = p and dollar = dollar]
      have early: "\<not> is_reference s k" if "ptr \<le> k" "k < dollar" for k using less.prems(3) [OF True] that by blast
      have scan: "scan = reference_loop s p dollar" using True by (simp add: scan_def)
      show ?thesis
      proof (cases scan)
        case (DollarBehind d)
        have "\<not> is_reference s k" if "ptr \<le> k" "k < d" for k
          using early [of k] that loop_spec DollarBehind scan by (cases "k < dollar") (auto simp: not_less)
        then show ?thesis using loop_spec DollarBehind scan by auto
      next
        case NoDollar
        have "\<not> is_reference s k" if "ptr \<le> k" for k
          using early [of k] that loop_spec NoDollar scan by (cases "k < dollar") (auto simp: not_less)
        then show ?thesis using NoDollar True by auto
      qed (use False in auto)
    qed (simp add: scan_def)
    have norefs: "\<not> (base = ZBX_TOKEN_SEARCH_REFERENCES \<and> is_reference s k)" if "ptr \<le> k" "p = None \<or> k < the p" for k
    proof (cases "search = ZBX_TOKEN_SEARCH_REFERENCES")
      case True
      then show ?thesis using spec that by (auto split: dollar_scan.splits)
    next
      case False
      then show ?thesis using less.prems(2,4) that(1) by auto
    qed
    have none: "token_starts s base k = Inr None" if "ptr \<le> k" "p = None \<or> k < the p" for k
      using brace [OF that] norefs [OF that] by (rule starts_none)
    show ?thesis
    proof (cases p)
      case None
      have "leftmost_token s base ptr = leftmost_token s base (max ptr (length s))"
        by (rule leftmost_skip) (use none None in auto)
      then show ?thesis unfolding loop by (simp add: None leftmost_end)
    next
      case (Some b)
      then have b: "ptr \<le> b" "b < length s" "cchar s b = CHR ''{''"
        using strchr_from_less [of s ptr "CHR ''{''" b] by (simp_all add: p_def cchar_def)
      have "leftmost_token s base ptr = leftmost_token s base b"
        by (rule leftmost_skip) (use none Some b in auto)
      moreover have "token_starts s base b = token_at s b" using b(3) by (simp add: token_starts_def)
      ultimately have left: "leftmost_token s base ptr =
          (if token_at s b \<noteq> Inr None then token_at s b else leftmost_token s base (b + 1))"
        using leftmost_step [OF b(2)] by simp
      show ?thesis
      proof (cases "cchar s (b + 1) = NUL")
        case True
        then show ?thesis unfolding loop left using token_at_end [OF assms(1) b(2) True] by (simp add: Some leftmost_end)
      next
        case False
        have "token_find_loop s (b + 1) next_dollar next_search = leftmost_token s base (b + 1)"
        proof (rule less.hyps)
          show "length s - (b + 1) < length s - ptr" using b by linarith
          show "b + 1 \<le> next_dollar" if "next_search = ZBX_TOKEN_SEARCH_REFERENCES"
            using that spec Some b(3) by (auto simp: next_dollar_def next_search_def split: dollar_scan.splits dest: le_neq_implies_less)
          show "next_search = base \<or> next_search = ZBX_TOKEN_SEARCH_BASIC"
            using less.prems(2) by (auto simp: next_search_def split: dollar_scan.splits)
          show "\<forall>k. b + 1 \<le> k \<and> k < next_dollar \<longrightarrow> \<not> is_reference s k" if "next_search = ZBX_TOKEN_SEARCH_REFERENCES"
            using that spec b(1) by (auto simp: next_dollar_def next_search_def split: dollar_scan.splits)
          show "\<forall>k\<ge>b + 1. \<not> is_reference s k" if "next_search \<noteq> base"
            using that spec b(1) less.prems(2,4) by (auto simp: next_search_def split: dollar_scan.splits)
        qed
        then show ?thesis unfolding loop left using False Some by (auto split: sum.splits option.splits)
      qed
    qed
  qed
qed

lemma find_leftmost: "cstring s \<Longrightarrow> zbx_token_find s pos search = leftmost_token s search pos"
  unfolding zbx_token_find_def by (rule token_find_loop_leftmost) auto

text \<open>C20. The search gives the leftmost token: the first position at which a brace starts a token, or at which, when references
  are looked for, a dollar stands in front of a digit. There is none exactly when no position has one.\<close>

theorem zbx_token_find_leftmost:
  assumes "cstring expression"
  shows "zbx_token_find expression pos search = leftmost_token expression search pos"
  using assms by (rule find_leftmost)

section \<open>Where the parts of a token are\<close>

lemma cchar_dropped: "cchar (drop p s) i = cchar s (p + i)"
  by (auto simp: cchar_def)

lemma cchar_at: "cchar s i = c \<Longrightarrow> c \<noteq> NUL \<Longrightarrow> i < length s \<and> s ! i = c"
  by (auto simp: cchar_def split: if_splits)

lemma user_macro_parse_parts:
  assumes "zbx_user_macro_parse False m = Some (r, cl, cr, op)"
  shows "\<exists>i\<ge>3. i \<le> r \<and> cchar m r = CHR ''}'' \<and>
    (cl = 0 \<and> cr = 0 \<and> i = r \<or> i < cl \<and> cchar m i = CHR '':'' \<and> back_blanks m cl = i \<and> cl \<le> cr + 1 \<and> cr < r)"
proof -
  define i where "i = 2 + length (macro_name (drop 2 m))"
  have i2: "i \<noteq> 2" using assms by (auto simp: zbx_user_macro_parse_def i_def Let_def split: if_splits)
  then have i3: "3 \<le> i" unfolding i_def by linarith
  show ?thesis
  proof (cases "cchar m i = CHR ''}''")
    case True
    then have "zbx_user_macro_parse False m = Some (i, 0, 0, None)" using i2 by (simp add: zbx_user_macro_parse_def i_def Let_def)
    then show ?thesis using assms True i3 by (intro exI [of _ i]) auto
  next
    case False
    then have sep: "cchar m i = CHR '':''" using assms i2 by (auto simp: zbx_user_macro_parse_def i_def Let_def split: if_splits)
    define k where "k = length (takeWhile (\<lambda>c. c = CHR '' '') (drop (i + 1) m))"
    have "takeWhile (\<lambda>c. c = CHR '' '') (drop (i + 1) m) = replicate k (CHR '' '')"
      unfolding k_def by (rule replicate_eqI [symmetric, THEN sym]) (auto dest: set_takeWhileD)
    then have "drop (i + 1) m = replicate k (CHR '' '') @ skip_blanks (drop (i + 1) m)" by (metis takeWhile_dropWhile_id)
    moreover have "i < length m" "m ! i = CHR '':''" using cchar_at [OF sep] by simp_all
    ultimately have m: "m = take i m @ CHR '':'' # replicate k (CHR '' '') @ skip_blanks (drop (i + 1) m)"
      by (metis Suc_eq_plus1 id_take_nth_drop)
    have "back_blanks m (i + 1 + k) = i"
      using back_blanks_eq [of "CHR '':''" "take i m" k "skip_blanks (drop (i + 1) m)"] m \<open>i < length m\<close> by simp
    have k: "i + 1 + length (takeWhile (\<lambda>c. c = CHR '' '') (drop (i + 1) m)) = i + 1 + k" by (simp add: k_def)
    have "(False \<and> take 6 (drop (i + 1) m) = ZBX_MACRO_REGEX_PREFIX) = False" "(if False then i + 1 + 6 else i + 1) = i + 1" by simp_all
    note parse = parse_behind_name [OF i_def [symmetric] i2 sep this k refl]
    define l where "l = i + 1 + k"
    show ?thesis
    proof (cases "cchar m l = QUOTE")
      case True
      then obtain n where "context_quoted_len (drop (l + 1) m) = Some n" using assms parse by (auto simp: l_def split: option.splits)
      then have "cl = l" "cr = l + 1 + n" "cr < r" "cchar m r = CHR ''}''"
        using assms True parse unfolding l_def [symmetric] by (auto simp: Let_def split: if_splits)
      then show ?thesis using i3 sep \<open>back_blanks m (i + 1 + k) = i\<close> by (intro exI [of _ i]) (simp add: l_def)
    next
      case False
      define n where "n = length (takeWhile (\<lambda>c. c \<noteq> CHR ''}'') (drop l m))"
      have r: "cl = l" "r = l + n" "cr = l + n - 1" "l + n < length m"
        using assms False parse unfolding l_def [symmetric] by (auto simp: Let_def n_def split: if_splits)
      have "n < length (drop l m)" using r(4) by simp
      then have "drop l m ! n = CHR ''}''" unfolding n_def by (rule nth_length_takeWhile [of "\<lambda>c. c \<noteq> CHR ''}''", simplified])
      then have "cchar m r = CHR ''}''" using r by (simp add: cchar_def)
      then show ?thesis using r i3 sep \<open>back_blanks m (i + 1 + k) = i\<close> by (intro exI [of _ i]) (simp add: l_def)
    qed
  qed
qed

abbreviation between :: "zbx_strloc \<Rightarrow> nat \<Rightarrow> nat \<Rightarrow> bool" where
  "between loc l r \<equiv> l \<le> loc_l loc \<and> loc_l loc \<le> loc_r loc \<and> loc_r loc \<le> r"

text \<open>A function name, its parameters between parentheses up to the end of the function.\<close>

definition function_parts :: "string \<Rightarrow> zbx_strloc \<Rightarrow> zbx_strloc \<Rightarrow> bool" where
  "function_parts s func param \<longleftrightarrow> loc_l func < loc_l param \<and> loc_l param < loc_r param \<and> loc_r param = loc_r func \<and>
    cchar s (loc_l param) = CHR ''('' \<and> cchar s (loc_r param) = CHR '')''"

fun token_inside :: "string \<Rightarrow> nat \<Rightarrow> nat \<Rightarrow> zbx_token_data \<Rightarrow> bool" where
  "token_inside s l r (TokenObjectid name) \<longleftrightarrow> between name (l + 1) (r - 1) \<and> loc_l name = l + 1 \<and> loc_r name = r - 1"
| "token_inside s l r (TokenMacro name) \<longleftrightarrow> between name (l + 1) (r - 1) \<and> loc_l name = l + 1 \<and> loc_r name = r - 1"
| "token_inside s l r (TokenLldMacro name) \<longleftrightarrow> between name (l + 2) (r - 1) \<and> loc_l name = l + 2 \<and> loc_r name = r - 1"
| "token_inside s l r (TokenUserMacro name ctx) \<longleftrightarrow> between name (l + 2) (r - 1) \<and> loc_l name = l + 2 \<and>
    (ctx = Strloc 0 0 \<and> loc_r name = r - 1 \<or>
     cchar s (loc_r name + 1) = CHR '':'' \<and> loc_r name + 1 < loc_l ctx \<and> loc_l ctx \<le> loc_r ctx + 1 \<and> loc_r ctx < r)"
| "token_inside s l r (TokenFuncMacro macro func param) \<longleftrightarrow> between macro (l + 1) (r - 1) \<and> loc_l macro = l + 1 \<and>
    cchar s (loc_r macro) = CHR ''}'' \<and> cchar s (loc_r macro + 1) = CHR ''.'' \<and> loc_l func = loc_r macro + 2 \<and>
    function_parts s func param \<and> loc_r func < r"
| "token_inside s l r (TokenLldFuncMacro macro func param) \<longleftrightarrow> between macro (l + 1) (r - 1) \<and> loc_l macro = l + 1 \<and>
    cchar s (loc_r macro) = CHR ''}'' \<and> cchar s (loc_r macro + 1) = CHR ''.'' \<and> loc_l func = loc_r macro + 2 \<and>
    function_parts s func param \<and> loc_r func < r"
| "token_inside s l r (TokenSimpleMacro host key func param) \<longleftrightarrow> between host (l + 1) (r - 1) \<and> loc_l host = l + 1 \<and>
    cchar s (loc_r host + 1) = CHR '':'' \<and> loc_l key = loc_r host + 2 \<and> loc_l key \<le> loc_r key \<and> loc_l func = loc_r key + 2 \<and>
    function_parts s func param \<and> loc_r func < r"
| "token_inside s l r (TokenReference n) \<longleftrightarrow> r = l + 1 \<and> n \<le> 9"

text \<open>The function of a simple macro was found before its key.\<close>

fun token_crossed :: "zbx_token_data \<Rightarrow> bool" where
  "token_crossed (TokenSimpleMacro host key func param) \<longleftrightarrow> loc_l func < loc_l key"
| "token_crossed d \<longleftrightarrow> False"

definition token_ok :: "string \<Rightarrow> nat \<Rightarrow> zbx_token \<Rightarrow> bool" where
  "token_ok s p t \<longleftrightarrow> loc_l (token_loc t) = p \<and> cchar s (loc_r (token_loc t)) = CHR ''}'' \<and>
    (token_crossed (token_data t) \<or> p < loc_r (token_loc t) \<and> token_inside s p (loc_r (token_loc t)) (token_data t))"

lemma user_macro_ok: "zbx_token_parse_user_macro s p = Some t \<Longrightarrow> token_ok s p t"
proof -
  assume "zbx_token_parse_user_macro s p = Some t"
  then obtain r cl cr op where parse: "zbx_user_macro_parse False (drop p s) = Some (r, cl, cr, op)"
    and t: "t = (let loc = Strloc p (p + r)
         in if cl \<noteq> 0 then
              Token loc (TokenUserMacro (Strloc (p + 2) (p + back_blanks (drop p s) cl - 1)) (Strloc (p + cl) (p + cr)))
            else Token loc (TokenUserMacro (Strloc (p + 2) (loc_r loc - 1)) (Strloc 0 0)))"
    by (auto simp: zbx_token_parse_user_macro_def Let_def split: option.splits if_splits)
  obtain i where "3 \<le> i" "i \<le> r" "cchar (drop p s) r = CHR ''}''"
    "cl = 0 \<and> cr = 0 \<and> i = r \<or> i < cl \<and> cchar (drop p s) i = CHR '':'' \<and> back_blanks (drop p s) cl = i \<and> cl \<le> cr + 1 \<and> cr < r"
    using user_macro_parse_parts [OF parse] by blast
  moreover from this obtain j where "i = Suc j" by (cases i) auto
  ultimately show ?thesis unfolding t by (auto simp: token_ok_def Let_def cchar_dropped)
qed

lemma braced_end: "braced ok s = Some n \<Longrightarrow> cchar s n = CHR ''}''"
  by (auto simp: braced_def Let_def split: if_splits)

lemma lld_macro_ok: "zbx_token_parse_lld_macro s p = Some t \<Longrightarrow> token_ok s p t"
  by (auto simp: zbx_token_parse_lld_macro_def token_ok_def Let_def cchar_dropped dest!: braced_end split: option.splits if_splits)

lemma objectid_ok: "zbx_token_parse_objectid s p = Some t \<Longrightarrow> token_ok s p t"
  by (auto simp: zbx_token_parse_objectid_def token_ok_def Let_def cchar_dropped dest!: braced_end split: option.splits if_splits)

lemma macro_name_parts: "macro_name_loop s l ptr = Some loc \<Longrightarrow> loc_l loc = l \<and> ptr \<le> loc_r loc \<and> loc_r loc < length s"
proof (induction s l ptr rule: macro_name_loop.induct)
  case (1 s l ptr)
  obtain strict k where seg: "zbx_token_parse_macro_segment s ptr = Some (strict, k)"
    using 1(2) by (subst (asm) macro_name_loop.simps) (auto split: option.splits)
  have k: "ptr < k" "k \<le> length s" using parse_segment_next [OF seg] by simp_all
  show ?case
  proof (cases "cchar s k \<noteq> CHR ''.'' \<or> \<not> strict")
    case True
    then have "loc = Strloc l (k - 1)" using 1(2) seg by (subst (asm) macro_name_loop.simps) (auto split: if_splits)
    then show ?thesis using k by auto
  next
    case False
    then have "macro_name_loop s l (k + 1) = Some loc" using 1(2) seg by (subst (asm) macro_name_loop.simps) auto
    then show ?thesis using 1(1) [OF seg refl] False k by auto
  qed
qed

lemma macro_ok: "zbx_token_parse_macro s p = Some t \<Longrightarrow> token_ok s p t \<and> (\<exists>loc. token_data t = TokenMacro loc)"
proof -
  assume "zbx_token_parse_macro s p = Some t"
  then obtain loc where "macro_name_loop s (p + 1) (p + 1) = Some loc" "cchar s (loc_r loc + 1) = CHR ''}''"
    "t = Token (Strloc (loc_l loc - 1) (loc_r loc + 1)) (TokenMacro loc)"
    by (auto simp: zbx_token_parse_macro_def zbx_token_parse_macro_name_def split: option.splits if_splits)
  then show ?thesis using macro_name_parts [of s "p + 1" "p + 1" loc] by (auto simp: token_ok_def)
qed

lemma validate_loop_end: "validate_loop t i prev state lpp p = Inr n \<Longrightarrow> t \<noteq> NUL \<Longrightarrow> i \<le> n \<and> cchar p (n - i) = t"
proof (induction t i prev state lpp p rule: validate_loop.induct)
  case (2 t i prev state lpp c p)
  have step: "i \<le> n \<and> cchar (c # p) (n - i) = t" if "Suc i \<le> n \<and> cchar p (n - Suc i) = t"
  proof -
    have "n - i = Suc (n - Suc i)" using that by linarith
    then show ?thesis using that by simp
  qed
  show ?case
  proof (cases "t = c \<and> state \<noteq> ParamQuoted")
    case True
    then show ?thesis using 2(6) by simp
  next
    case False
    then show ?thesis using 2 by (intro step) (cases state; auto split: if_splits)
  qed
qed (auto split: if_splits)

lemma parse_function_parts:
  assumes "zbx_token_parse_function s p = Some (func, param)"
  shows "loc_l func = p \<and> function_parts s func param"
proof -
  obtain par_l par_r where v: "zbx_function_validate (drop p s) 0 = Inr (par_l, par_r)"
    and f: "func = Strloc p (p + par_r)" "param = Strloc (p + par_l) (p + par_r)"
    using assms by (auto simp: zbx_token_parse_function_def split: sum.splits)
  have n: "par_l \<noteq> 0" "cchar (drop p s) par_l = CHR ''(''"
    using v by (auto simp: zbx_function_validate_def function_parse_name_def Let_def split: if_splits sum.splits)
  have "function_match_parenthesis (drop p s) par_l = Inr par_r"
    using v by (auto simp: zbx_function_validate_def split: if_splits sum.splits prod.splits)
  then obtain r where r: "function_validate_parameters (drop (par_l + 1) (drop p s)) CHR '')'' = Inr r" "par_r = r + par_l + 1"
    by (auto simp: function_match_parenthesis_def split: sum.splits)
  have "cchar (drop (par_l + 1) (drop p s)) r = CHR '')''"
    using validate_loop_end [of "CHR '')''" 0 NUL ParamNext 0 "drop (par_l + 1) (drop p s)" r] r(1)
    by (simp add: function_validate_parameters_def)
  then show ?thesis using n r(2) f by (simp add: function_parts_def cchar_dropped ac_simps)
qed

lemma skip_to_brace_end: "skip_to_brace s p = Some r \<Longrightarrow> p \<le> r \<and> cchar s r = CHR ''}''"
  by (auto simp: skip_to_brace_def Let_def split: if_splits)

lemma func_macro_ok:
  assumes "zbx_token_parse_func_macro s p (m + 2) lld = Some t" "cchar s m = CHR ''}''" "cchar s (m + 1) = CHR ''.''" "p < m"
  shows "token_ok s p t"
proof -
  obtain func param where f: "zbx_token_parse_function s (m + 2) = Some (func, param)"
    using assms(1) by (auto simp: zbx_token_parse_func_macro_def split: if_splits option.splits)
  obtain r where r: "skip_to_brace s (loc_r func + 1) = Some r"
    "t = Token (Strloc p r) ((if lld then TokenLldFuncMacro else TokenFuncMacro) (Strloc (p + 1) (loc_l func - 2)) func param)"
    using assms(1) f by (auto simp: zbx_token_parse_func_macro_def split: if_splits option.splits)
  have "loc_l func = m + 2" "function_parts s func param" "loc_r func < r" "cchar s r = CHR ''}''"
    using parse_function_parts [OF f] skip_to_brace_end [OF r(1)] by auto
  moreover from this have "m + 2 < r" by (auto simp: function_parts_def)
  ultimately show ?thesis unfolding r(2) token_ok_def using assms(2-4) by (cases lld) auto
qed

lemma rest_if:
  "(c \<Longrightarrow> length (snd a) \<le> n) \<Longrightarrow> (\<not> c \<Longrightarrow> length (snd b) \<le> n) \<Longrightarrow> length (snd (if c then a else b)) \<le> n"
  by simp

lemma skip_blanks_rest: "length (skip_blanks p) \<le> Suc (length p)" "length (skip_blanks p) - Suc 0 \<le> Suc (length p)"
  using skip_blanks_le [of p] by linarith+

lemma parse_key_loop_rest: "length (snd (parse_key_loop state in_array s)) \<le> length s"
proof (induction state in_array s rule: parse_key_loop.induct)
  case (2 in_array c p)
  show ?case unfolding parse_key_loop.simps Let_def
    by (intro rest_if; (simp add: skip_blanks_rest; fail | rule order_trans, (rule 2; simp; fail), simp add: skip_blanks_rest))
next
  case (3 in_array c p)
  show ?case unfolding parse_key_loop.simps Let_def
    by (intro rest_if; (simp add: skip_blanks_rest; fail | rule order_trans, (rule 3; simp; fail), simp add: skip_blanks_rest))
next
  case (4 in_array c p)
  show ?case unfolding parse_key_loop.simps(4)
    by (intro rest_if; (simp; fail | rule order_trans, (rule 4; simp; fail), simp))
qed simp

lemma parse_key_rest: "length (snd (parse_key s)) \<le> length s"
  using parse_key_loop_rest [of KeyInit False "drop 1 (dropWhile (\<lambda>c. is_key_char c = SUCCEED) s)"]
    length_dropWhile_le [of "\<lambda>c. is_key_char c = SUCCEED" s] by (auto simp: parse_key_def Let_def)

lemma strrchr_Some: "strrchr s c = Some i \<Longrightarrow> i < length s \<and> s ! i = c"
  by (auto simp: strrchr_def strchr_Some_iff rev_nth)

lemma simple_macro_key_ok:
  assumes "zbx_token_parse_simple_macro_key s p key = Inr (Some t)" "cchar s (key - 1) = CHR '':''" "p + 3 \<le> key"
  shows "token_ok s p t"
proof -
  obtain e ptr where e: "simple_macro_key_end s key = Inr (Some e)" and ptr: "back_to_dot s e = Inr ptr" "ptr \<noteq> key" "ptr < length s"
    using assms(1) by (auto simp: zbx_token_parse_simple_macro_key_def split: sum.splits option.splits if_splits)
  obtain func param where f: "zbx_token_parse_function s (ptr + 1) = Some (func, param)"
    using assms(1) e ptr by (auto simp: zbx_token_parse_simple_macro_key_def split: option.splits)
  obtain r where r: "skip_to_brace s (loc_r func + 1) = Some r"
    and t: "t = Token (Strloc p r) (TokenSimpleMacro (Strloc (p + 1) (key - 2))
      (Strloc key (if ptr = 0 then 2 ^ 64 - 1 else ptr - 1)) func param)"
    using assms(1) e ptr f by (auto simp: zbx_token_parse_simple_macro_key_def split: option.splits)
  have "key - 1 < length s" using cchar_at [OF assms(2)] by simp
  then have "key \<le> length s" using assms(3) by linarith
  have "key \<le> e"
  proof (cases "fst (parse_key (drop key s))")
    case True
    then have "e = length s - length (snd (parse_key (drop key s)))" using e by (auto simp: simple_macro_key_end_def split: prod.splits)
    then show ?thesis using parse_key_rest [of "drop key s"] \<open>key \<le> length s\<close> by simp
  next
    case False
    then obtain m where "zbx_token_parse_macro s key = Some m" "e = loc_r (token_loc m) + 1"
      using e by (auto simp: simple_macro_key_end_def split: prod.splits if_splits)
    then show ?thesis using macro_ok [of s key m] by (auto simp: token_ok_def)
  qed
  have "ptr \<noteq> key - 1"
    using ptr(1) assms(2,3) \<open>key \<le> e\<close> by (auto simp: back_to_dot_def cchar_def dest!: strrchr_Some split: if_splits option.splits)
  have fp: "loc_l func = ptr + 1" "function_parts s func param" "loc_r func < r" "cchar s r = CHR ''}''"
    using parse_function_parts [OF f] skip_to_brace_end [OF r] by auto
  show ?thesis
  proof (cases "ptr + 1 < key")
    case True
    then show ?thesis using fp by (simp add: t token_ok_def)
  next
    case False
    then have "key < ptr" using \<open>ptr \<noteq> key - 1\<close> ptr(2) by linarith
    then have t: "t = Token (Strloc p r) (TokenSimpleMacro (Strloc (p + 1) (key - 2)) (Strloc key (ptr - 1)) func param)"
      using t by simp
    note \<open>key < ptr\<close>
    moreover from this have "ptr + 2 < r" using fp by (auto simp: function_parts_def)
    ultimately show ?thesis using fp assms(2,3) by (simp add: t token_ok_def Suc_diff_Suc numeral_2_eq_2 numeral_3_eq_3; intro conjI; linarith)
  qed
qed

lemma simple_macro_ok: "zbx_token_parse_simple_macro s p = Inr (Some t) \<Longrightarrow> token_ok s p t"
  by (rule simple_macro_key_ok [of s p "p + 1 + length (takeWhile (\<lambda>c. c \<noteq> CHR '':'' \<and> is_hostname_char c = SUCCEED) (drop (p + 1) s)) + 1"])
    (auto simp: zbx_token_parse_simple_macro_def Let_def Suc_le_eq split: if_splits)

lemma nested_macro_ok:
  assumes "zbx_token_parse_nested_macro s p = Inr (Some t)"
  shows "token_ok s p t"
proof -
  define lld where "lld = (cchar s (p + 2) = CHR ''#'')"
  obtain ptr where ptr: "p + 1 < ptr" "cchar s ptr = CHR ''}''" and res:
    "(if cchar s (ptr + 1) = CHR ''.'' then Inr (zbx_token_parse_func_macro s p (ptr + 2) lld)
      else if \<not> lld \<and> cchar s (ptr + 1) = CHR '':'' then zbx_token_parse_simple_macro_key s p (ptr + 2)
      else Inr None) = (Inr (Some t) :: zbx_token option outcome)"
  proof (cases lld)
    case True
    then obtain n where "braced (\<lambda>c. is_macro_char c = SUCCEED) (drop (p + 3) s) = Some n"
      "(if cchar s (p + 3 + n + 1) = CHR ''.'' then Inr (zbx_token_parse_func_macro s p (p + 3 + n + 2) lld) else Inr None) =
        (Inr (Some t) :: zbx_token option outcome)"
      using assms unfolding zbx_token_parse_nested_macro_def lld_def [symmetric] Let_def
      by (auto simp: bind_eq_Some_conv split: option.splits if_splits)
    moreover from this have "cchar s (p + 3 + n) = CHR ''}''" using braced_end cchar_dropped by metis
    ultimately show ?thesis using True by (intro that [of "p + 3 + n"]) (auto split: if_splits)
  next
    case False
    then obtain loc where "macro_name_loop s (p + 2) (p + 2) = Some loc" "cchar s (loc_r loc + 1) = CHR ''}''"
      "(if cchar s (loc_r loc + 1 + 1) = CHR ''.'' then Inr (zbx_token_parse_func_macro s p (loc_r loc + 1 + 2) lld)
        else if cchar s (loc_r loc + 1 + 1) = CHR '':'' then zbx_token_parse_simple_macro_key s p (loc_r loc + 1 + 2)
        else Inr None) = (Inr (Some t) :: zbx_token option outcome)"
      using assms unfolding zbx_token_parse_nested_macro_def lld_def [symmetric] Let_def zbx_token_parse_macro_name_def
      by (auto simp: bind_eq_Some_conv split: option.splits if_splits)
    then show ?thesis using False macro_name_parts [of s "p + 2" "p + 2" loc]
      by (intro that [of "loc_r loc + 1"]) (auto split: if_splits)
  qed
  show ?thesis
  proof (cases "cchar s (ptr + 1) = CHR ''.''")
    case True
    then show ?thesis using res ptr func_macro_ok [of s p ptr lld t] by auto
  next
    case False
    then have "zbx_token_parse_simple_macro_key s p (ptr + 2) = Inr (Some t)" "cchar s (ptr + 1) = CHR '':''" using res by (auto split: if_splits)
    then show ?thesis using ptr by (intro simple_macro_key_ok [of s p "ptr + 2"]) simp_all
  qed
qed

lemma token_at_ok: "token_at s p = Inr (Some t) \<Longrightarrow> token_ok s p t"
  by (auto simp: token_at_def Let_def dest!: user_macro_ok lld_macro_ok objectid_ok macro_ok simple_macro_ok nested_macro_ok
      split: if_splits option.splits)

text \<open>C12. A token that is found lies at or behind the position where the search begins, between its braces (or is a dollar and
  a digit), and its name, context, host, key, function and parameters lie inside of it, in their order, with the separators
  between them. The only exception is a simple macro whose function was found in front of its key.\<close>

theorem token_find_inside:
  assumes "cstring expression" "zbx_token_find expression pos search = Inr (Some t)"
  shows "pos \<le> loc_l (token_loc t) \<and> loc_r (token_loc t) < length expression \<and>
    (cchar expression (loc_l (token_loc t)) = CHR ''{'' \<and> cchar expression (loc_r (token_loc t)) = CHR ''}'' \<or>
     search = ZBX_TOKEN_SEARCH_REFERENCES \<and> (\<exists>n. token_data t = TokenReference n)) \<and>
    (token_crossed (token_data t) \<or>
     loc_l (token_loc t) < loc_r (token_loc t) \<and> token_inside expression (loc_l (token_loc t)) (loc_r (token_loc t)) (token_data t))"
proof -
  have "leftmost_token expression search pos = Inr (Some t)"
    using assms by (simp add: find_leftmost)
  then obtain i where i: "find (\<lambda>i. token_starts expression search i \<noteq> Inr None) [pos..<length expression] = Some i"
    "token_starts expression search i = Inr (Some t)"
    by (auto simp: leftmost_token_def split: option.splits)
  then have pos: "pos \<le> i" by (auto simp: find_Some_iff)
  show ?thesis
  proof (cases "cchar expression i = CHR ''{''")
    case True
    then have "token_ok expression i t" using i(2) token_at_ok [of expression i t] by (simp add: token_starts_def)
    then show ?thesis using True pos cchar_at [of expression "loc_r (token_loc t)" "CHR ''}''"] by (auto simp: token_ok_def)
  next
    case False
    then have "search = ZBX_TOKEN_SEARCH_REFERENCES" "isdigit (cchar expression (i + 1))" "t = reference_token expression i"
      using i(2) by (auto simp: token_starts_def split: if_splits)
    moreover have "i + 1 < length expression" using \<open>isdigit (cchar expression (i + 1))\<close>
      by (cases "i + 1 < length expression") (auto simp: cchar_def)
    moreover have "digit_of (cchar expression (i + 1)) \<le> 9" using \<open>isdigit (cchar expression (i + 1))\<close>
      unfolding isdigit_def digit_of_def by linarith
    ultimately show ?thesis using pos by (simp add: reference_token_def)
  qed
qed

theorem token_find_inside_witness:
  "zbx_token_find ''a {$M} $3'' 0 ZBX_TOKEN_SEARCH_REFERENCES = Inr (Some (Token (Strloc 2 5) (TokenUserMacro (Strloc 4 4) (Strloc 0 0)))) \<and>
    token_inside ''a {$M} $3'' 2 5 (TokenUserMacro (Strloc 4 4) (Strloc 0 0))"
proof -
  have f: "zbx_token_find ''a {$M} $3'' 0 ZBX_TOKEN_SEARCH_REFERENCES =
    Inr (Some (Token (Strloc 2 5) (TokenUserMacro (Strloc 4 4) (Strloc 0 0))))" by code_simp
  show ?thesis using f token_find_inside [OF _ f] by simp
qed

theorem zbx_token_find_leftmost_witness:
  "zbx_token_find ''{X $2 {0} {1}'' 1 ZBX_TOKEN_SEARCH_REFERENCES = leftmost_token ''{X $2 {0} {1}'' ZBX_TOKEN_SEARCH_REFERENCES 1 \<and>
    map_sum id (map_option (loc_l \<circ> token_loc)) (leftmost_token ''{X $2 {0} {1}'' ZBX_TOKEN_SEARCH_REFERENCES 1) = Inr (Some 3)"
proof -
  have "map_sum id (map_option (loc_l \<circ> token_loc)) (leftmost_token ''{X $2 {0} {1}'' ZBX_TOKEN_SEARCH_REFERENCES 1) = (Inr (Some 3) :: nat option outcome)"
    by code_simp
  then show ?thesis using zbx_token_find_leftmost [of "''{X $2 {0} {1}''" 1 ZBX_TOKEN_SEARCH_REFERENCES] by simp
qed

section \<open>Simple macros are found\<close>

lemma macro_name_stops:
  assumes "ptr \<le> c" "\<forall>k. ptr \<le> k \<and> k < c \<longrightarrow> is_hostname_char (cchar s k) = SUCCEED" "cchar s c = CHR '':''"
  shows "macro_name_loop s l ptr = Some loc \<Longrightarrow> loc_r loc + 1 \<le> c"
  using assms
proof (induction s l ptr rule: macro_name_loop.induct)
  case (1 s l ptr)
  have "cchar s ptr \<noteq> QUOTE" using 1(3-5) by (cases "ptr = c") (auto simp: is_hostname_char_def isalnum_def isalpha_def isdigit_def split: if_splits)
  define w where "w = takeWhile (\<lambda>c. isalpha c \<or> isdigit c \<or> c = CHR ''_'') (drop ptr s)"
  obtain strict k where seg: "zbx_token_parse_macro_segment s ptr = Some (strict, k)"
    using 1(2) by (subst (asm) macro_name_loop.simps) (auto split: option.splits)
  have "cchar (drop ptr s) 0 \<noteq> QUOTE" using \<open>cchar s ptr \<noteq> QUOTE\<close> by (simp add: cchar_dropped)
  then have k: "k = ptr + length w" using seg by (auto simp: zbx_token_parse_macro_segment_def w_def Let_def split: if_splits)
  have "k \<le> c"
  proof (rule ccontr)
    assume "\<not> k \<le> c"
    then have less: "c - ptr < length w" using k 1(3) by linarith
    then have "w ! (c - ptr) \<in> set w" by (rule nth_mem)
    moreover have "w ! (c - ptr) = drop ptr s ! (c - ptr)" using less unfolding w_def by (rule takeWhile_nth)
    moreover have "drop ptr s ! (c - ptr) = CHR '':''" using 1(3) cchar_at [OF 1(5)] by simp
    ultimately have "CHR '':'' \<in> set w" by simp
    then show False unfolding w_def by (auto dest!: set_takeWhileD simp: isalpha_def isdigit_def)
  qed
  show ?case
  proof (cases "cchar s k \<noteq> CHR ''.'' \<or> \<not> strict")
    case True
    then have "loc = Strloc l (k - 1)" using 1(2) seg by (subst (asm) macro_name_loop.simps) (auto split: if_splits)
    then show ?thesis using parse_segment_next [OF seg] \<open>k \<le> c\<close> by auto
  next
    case False
    have "k \<noteq> c" using False 1(5) by auto
    have "macro_name_loop s l (k + 1) = Some loc" using False 1(2) seg by (subst (asm) macro_name_loop.simps) auto
    then show ?thesis using 1(1) [OF seg refl] False \<open>k \<le> c\<close> \<open>k \<noteq> c\<close> 1(4,5) parse_segment_next [OF seg] by auto
  qed
qed

lemma hostname_char_facts:
  "is_hostname_char c = SUCCEED \<Longrightarrow> c \<noteq> CHR '':'' \<and> c \<noteq> CHR ''}'' \<and> c \<noteq> CHR ''{'' \<and> c \<noteq> CHR ''$'' \<and> c \<noteq> CHR ''#'' \<and> c \<noteq> NUL"
  by (auto simp: is_hostname_char_def isalnum_def isalpha_def isdigit_def split: if_splits)

text \<open>A brace and a host name in front of a colon: what follows is read as the key of a simple macro.\<close>

lemma simple_macro_start:
  assumes s: "s = pre @ CHR ''{'' # host @ CHR '':'' # rest"
    and host: "host \<noteq> []" "\<forall>c\<in>set host. is_hostname_char c = SUCCEED" and l: "l = length pre"
  shows "token_at s l = zbx_token_parse_simple_macro_key s l (l + length host + 2)"
proof -
  have dh: "drop (l + 1) s = host @ CHR '':'' # rest" by (simp add: s l)
  have hc: "is_hostname_char (cchar s i) = SUCCEED" if "l + 1 \<le> i" "i < l + 1 + length host" for i
  proof -
    define j where "j = i - (l + 1)"
    have j: "j < length host" "i = l + 1 + j" unfolding j_def using that by linarith+
    then have "cchar s i = cchar (drop (l + 1) s) j" by (simp add: cchar_dropped)
    also have "\<dots> = host ! j" unfolding dh using j by (simp add: cchar_def nth_append)
    also have "\<dots> \<in> set host" using j by (intro nth_mem)
    finally show ?thesis using host(2) by blast
  qed
  have colon: "cchar s (l + 1 + length host) = CHR '':''"
    using cchar_dropped [of "l + 1" s "length host"] unfolding dh by (simp add: cchar_def nth_append)
  have stop: "loc_r loc + 1 \<le> l + 1 + length host" if "macro_name_loop s (l + 1) (l + 1) = Some loc" for loc
    by (rule macro_name_stops [of "l + 1", OF _ _ colon that]) (use hc in auto)
  have brace: "cchar s i \<noteq> CHR ''}''" if "l + 1 \<le> i" "i \<le> l + 1 + length host" for i
    using that hc [of i] hostname_char_facts [of "cchar s i"] colon by (cases "i = l + 1 + length host") auto
  have no_macro: "zbx_token_parse_macro s l = None"
    using stop macro_name_parts [of s "l + 1" "l + 1"] brace
    by (auto simp: zbx_token_parse_macro_def zbx_token_parse_macro_name_def split: option.splits)
  have "takeWhile (\<lambda>c. c \<noteq> CHR '':'' \<and> is_hostname_char c = SUCCEED) (drop (l + 1) s) = host"
    unfolding dh by (rule takeWhile_stop) (use host(2) hostname_char_facts in auto)
  then have simple: "zbx_token_parse_simple_macro s l = zbx_token_parse_simple_macro_key s l (l + length host + 2)"
    using colon host(1) by (simp add: zbx_token_parse_simple_macro_def Let_def)
  have "zbx_token_parse_objectid s l = None"
  proof -
    have "\<not> (\<exists>n. braced isdigit (drop (l + 1) s) = Some n)"
    proof
      assume "\<exists>n. braced isdigit (drop (l + 1) s) = Some n"
      then obtain n where n: "n = length (takeWhile (\<lambda>c. c \<noteq> CHR ''}'' \<and> isdigit c) (drop (l + 1) s))" "cchar s (l + 1 + n) = CHR ''}''"
        by (auto simp: braced_def Let_def cchar_dropped split: if_splits)
      have "n \<le> length host"
      proof (rule ccontr)
        define w where "w = takeWhile (\<lambda>c. c \<noteq> CHR ''}'' \<and> isdigit c) (drop (l + 1) s)"
        assume "\<not> n \<le> length host"
        then have less: "length host < length w" by (simp add: w_def n(1))
        have "w ! length host = drop (l + 1) s ! length host" using less unfolding w_def by (rule takeWhile_nth)
        moreover have "w ! length host \<in> set w" using less by (rule nth_mem)
        ultimately have "CHR '':'' \<in> set w" unfolding dh by simp
        then show False unfolding w_def by (auto dest!: set_takeWhileD simp: isdigit_def)
      qed
      then show False using n(2) brace [of "l + 1 + n"] by simp
    qed
    then show ?thesis by (auto simp: zbx_token_parse_objectid_def)
  qed
  moreover have "is_hostname_char (cchar s (l + 1)) = SUCCEED" using hc [of "l + 1"] host(1) by simp
  ultimately show ?thesis using hostname_char_facts [of "cchar s (l + 1)"] no_macro simple by (simp add: token_at_def Let_def)
qed

lemma simple_macro_read:
  assumes s: "s = pre @ CHR ''{'' # host @ CHR '':'' # key @ CHR ''.'' # func @ CHR ''}'' # rest"
    and host: "host \<noteq> []" "\<forall>c\<in>set host. is_hostname_char c = SUCCEED"
    and key: "key \<noteq> []" "parse_key (key @ CHR ''.'' # func @ CHR ''}'' # rest) = (True, CHR ''.'' # func @ CHR ''}'' # rest)"
    and func: "zbx_function_validate (func @ CHR ''}'' # rest) 0 = Inr (par_l, par_r)" "length func = par_r + 1"
    and l: "l = length pre" and k: "k = l + length host + 2" and f: "f = k + length key + 1"
  shows "token_at s l = Inr (Some (Token (Strloc l (f + length func))
    (TokenSimpleMacro (Strloc (l + 1) (k - 2)) (Strloc k (f - 2)) (Strloc f (f + par_r)) (Strloc (f + par_l) (f + par_r)))))"
proof -
  have dk: "drop k s = key @ CHR ''.'' # func @ CHR ''}'' # rest" by (simp add: s l k)
  have df: "drop f s = func @ CHR ''}'' # rest" by (simp add: s l k f numeral_3_eq_3)
  have at: "token_at s l = zbx_token_parse_simple_macro_key s l k"
    unfolding k by (rule simple_macro_start [OF s host l])
  have len: "length s - length (CHR ''.'' # func @ CHR ''}'' # rest) = f - 1" by (simp add: s l k f)
  moreover have "simple_macro_key_end s k = Inr (Some (f - 1))" unfolding simple_macro_key_end_def dk key(2) using len by simp
  moreover have dot: "cchar s (f - 1) = CHR ''.''" by (simp add: s l k f cchar_def nth_append)
  moreover have "back_to_dot s (f - 1) = Inr (f - 1)" using dot by (simp add: back_to_dot_def)
  moreover have "f - 1 \<noteq> k" using key(1) by (simp add: f)
  moreover have "f - 1 < length s" using cchar_at [OF dot] by simp
  moreover have "zbx_token_parse_function s f = Some (Strloc f (f + par_r), Strloc (f + par_l) (f + par_r))"
    unfolding zbx_token_parse_function_def df func by simp
  moreover have "drop (f + par_r + 1) s = CHR ''}'' # rest" using df func(2) by (metis add.assoc append_eq_conv_conj drop_drop add.commute)
  moreover from this have "skip_to_brace s (f + par_r + 1) = Some (f + par_r + 1)"
  proof -
    assume d: "drop (f + par_r + 1) s = CHR ''}'' # rest"
    then have "cchar s (f + par_r + 1) = CHR ''}''" using cchar_dropped [of "f + par_r + 1" s 0, unfolded d] by simp
    moreover have "takeWhile (\<lambda>c. c = CHR '' '') (drop (f + par_r + 1) s) = []" unfolding d by simp
    ultimately show ?thesis by (simp add: skip_to_brace_def)
  qed
  moreover have "f - 1 + 1 = f" "f - 1 \<noteq> 0" by (simp_all add: f k)
  ultimately show ?thesis unfolding at zbx_token_parse_simple_macro_key_def using func(2) by simp
qed

text \<open>C11. Around any text, a host, a key with quoted parameters and a function with quoted parameters, put together as
  \<open>{host:key[...].function(...)}\<close>, are found as a simple macro, with the locations of all its parts.\<close>

theorem simple_macro_found:
  assumes "cstring (pre @ macro @ rest)" "macro = CHR ''{'' # host @ CHR '':'' # key @ CHR ''.'' # func @ ''}''"
    and "host \<noteq> []" "\<forall>c\<in>set host. is_hostname_char c = SUCCEED"
    and "key = kname @ CHR ''['' # join_params kqs @ '']''" "kname \<noteq> []" "\<forall>c\<in>set kname. is_key_char c = SUCCEED"
    and "list_all2 (\<lambda>p q. \<exists>junk forced. quote_key_param junk p forced = Some q) kps kqs" "kps \<noteq> []"
    and "func = fname @ CHR ''('' # join_params fqs @ '')''" "fname \<noteq> []" "\<forall>c\<in>set fname. is_function_char c = SUCCEED"
    and "list_all2 (\<lambda>p q. \<exists>junk forced. zbx_function_param_quote junk p forced = Some q) fps fqs" "fps \<noteq> []" "\<forall>p\<in>set fps. cstring p"
  shows "zbx_token_find (pre @ macro @ rest) (length pre) search =
    (let l = length pre; k = l + 1 + length host + 1; f = k + length key + 1; r = f + length func
     in Inr (Some (Token (Strloc l r)
          (TokenSimpleMacro (Strloc (l + 1) (k - 2)) (Strloc k (f - 2)) (Strloc f (r - 1)) (Strloc (f + length fname) (r - 1))))))"
proof -
  define s where "s = pre @ macro @ rest"
  have s: "s = pre @ CHR ''{'' # host @ CHR '':'' # key @ CHR ''.'' # func @ CHR ''}'' # rest" by (simp add: s_def assms(2))
  have kw: "list_all2 written_key kps kqs"
    by (rule list_all2_mono [OF assms(8)]) (use quote_key_param_written in blast)
  have fw: "list_all2 written_as fps fqs"
    by (rule list_all2_mono [OF assms(13)]) (use function_param_quote_written in blast)
  have key: "key \<noteq> []" "parse_key (key @ CHR ''.'' # func @ CHR ''}'' # rest) = (True, CHR ''.'' # func @ CHR ''}'' # rest)"
    using parse_key_written [OF kw assms(9,6,7)] assms(6) by (simp_all add: assms(5))
  have func: "zbx_function_validate (func @ CHR ''}'' # rest) 0 = Inr (length fname, length fname + 1 + length (join_params fqs))"
    "length func = (length fname + 1 + length (join_params fqs)) + 1"
    using function_validate_written [OF fw assms(14,15,11,12)] by (simp_all add: assms(10))
  note at = simple_macro_read [OF s assms(3,4) key func refl refl refl]
  have "cchar s (length pre) = CHR ''{''" by (simp add: s cchar_def nth_append)
  moreover have "length pre < length s" by (simp add: s)
  ultimately have "leftmost_token s search (length pre) = token_at s (length pre)"
    using at by (subst leftmost_step) (simp_all add: token_starts_def)
  then show ?thesis using find_leftmost [of s "length pre" search] assms(1) at func(2) by (simp add: s_def Let_def)
qed

theorem simple_macro_found_witness:
  "zbx_token_find ''a {h:k[1].last(5)}'' 2 ZBX_TOKEN_SEARCH_BASIC =
    Inr (Some (Token (Strloc 2 17) (TokenSimpleMacro (Strloc 3 3) (Strloc 5 8) (Strloc 10 16) (Strloc 14 16))))"
proof -
  have q: "quote_key_param NUL ''1'' False = Some ''1''" "zbx_function_param_quote NUL ''5'' False = Some ''5''" by code_simp+
  have k: "list_all2 (\<lambda>p q. \<exists>junk forced. quote_key_param junk p forced = Some q) [''1''] [''1'']" using q(1) by auto
  have f: "list_all2 (\<lambda>p q. \<exists>junk forced. zbx_function_param_quote junk p forced = Some q) [''5''] [''5'']" using q(2) by auto
  have c: "is_hostname_char CHR ''h'' = SUCCEED" "\<forall>c\<in>set ''k''. is_key_char c = SUCCEED" "\<forall>c\<in>set ''last''. is_function_char c = SUCCEED"
    by (simp_all add: is_hostname_char_def is_key_char_def is_function_char_def isalnum_def isalpha_def islower_def)
  show ?thesis
    using simple_macro_found [OF _ refl _ _ refl _ c(2) k _ refl _ c(3) f, of "''a ''" "''h''" "[]" ZBX_TOKEN_SEARCH_BASIC] c(1)
    by (simp add: Let_def eval_nat_numeral)
qed


section \<open>Where the search leaves the text, and where it goes in circles\<close>

lemma key_char_stops: "\<not> (is_key_char CHR ''('' = SUCCEED)" "\<not> (is_key_char NUL = SUCCEED)"
  by (simp_all add: is_key_char_def isalnum_def isalpha_def isdigit_def)

lemma parse_key_plain:
  assumes "\<forall>c\<in>set key. is_key_char c = SUCCEED" "key \<noteq> []" "rest = [] \<or> cchar rest 0 = CHR ''(''"
  shows "parse_key (key @ rest) = (True, rest)"
proof -
  have "dropWhile (\<lambda>c. is_key_char c = SUCCEED) rest = rest" using assms(3) key_char_stops(1) by (cases rest) auto
  then have "dropWhile (\<lambda>c. is_key_char c = SUCCEED) (key @ rest) = rest" using assms(1) by (simp add: dropWhile_append2)
  then show ?thesis using assms(2,3) by (auto simp: parse_key_def)
qed

lemma strrchr_last: "c \<notin> set t \<Longrightarrow> strrchr (s @ c # t) c = Some (length s)"
proof -
  assume "c \<notin> set t"
  then have "strchr (rev t @ c # rev s) c = Some (length t)" by (simp add: strchr_Some_iff nth_append) (metis length_rev nth_mem set_rev)
  then show ?thesis by (simp add: strrchr_def)
qed

lemma strrchr_none: "c \<notin> set s \<Longrightarrow> strrchr s c = None"
  by (simp add: strrchr_def)

lemma token_find_here:
  assumes "cstring s" "s = pre @ CHR ''{'' # host @ CHR '':'' # rest" "host \<noteq> []" "\<forall>c\<in>set host. is_hostname_char c = SUCCEED"
    and "zbx_token_parse_simple_macro_key s (length pre) (length pre + length host + 2) \<noteq> Inr None"
  shows "zbx_token_find s (length pre) search = zbx_token_parse_simple_macro_key s (length pre) (length pre + length host + 2)"
proof -
  have "cchar s (length pre) = CHR ''{''" "length pre < length s" by (simp_all add: assms(2) cchar_def nth_append)
  then show ?thesis
    using simple_macro_start [OF assms(2-4) refl] assms(5)
    by (subst find_leftmost [OF assms(1)], subst leftmost_step) (simp_all add: token_starts_def)
qed

text \<open>C21. The search for a token leaves the text at any simple macro \<open>{host:key\<close> at which the text ends behind the key or the colon:
  it reads behind the NUL. It leaves the text in front when the name behind the colon is followed by a parenthesis and
  there is no dot before that parenthesis in the whole text.\<close>

theorem token_find_outside:
  assumes "cstring s" "s = pre @ CHR ''{'' # host @ CHR '':'' # key @ rest" "host \<noteq> []" "\<forall>c\<in>set host. is_hostname_char c = SUCCEED"
    and "\<forall>c\<in>set key. is_key_char c = SUCCEED"
    and "rest = [] \<or> (key \<noteq> [] \<and> cchar rest 0 = CHR ''('' \<and> CHR ''.'' \<notin> set (pre @ host @ key))"
  shows "zbx_token_find s (length pre) search = Inl OutOfBounds"
proof -
  define l k where "l = length pre" and "k = length pre + length host + 2"
  have dk: "drop k s = key @ rest" and len: "length s = k + length key + length rest" by (simp_all add: assms(2) k_def)
  have "zbx_token_parse_simple_macro_key s l k = Inl OutOfBounds"
  proof (cases "key = []")
    case True
    then have "rest = []" using assms(6) by simp
    then have "simple_macro_key_end s k = Inl OutOfBounds"
      unfolding simple_macro_key_end_def dk using True by (simp add: parse_key_def len)
    then show ?thesis by (simp add: zbx_token_parse_simple_macro_key_def)
  next
    case False
    have e: "simple_macro_key_end s k = Inr (Some (k + length key))"
      unfolding simple_macro_key_end_def dk using parse_key_plain [OF assms(5) False, of rest] assms(6) len by auto
    have "cchar s (k + length key) = cchar (key @ rest) (length key)" using cchar_dropped [of k s "length key"] by (simp only: dk)
    then have c: "cchar s (k + length key) = cchar rest 0" by (simp add: cchar_def nth_append)
    show ?thesis
    proof (cases "rest = []")
      case True
      then have "back_to_dot s (k + length key) = Inr (k + length key)" using c by (simp add: back_to_dot_def)
      then show ?thesis using e False len True by (simp add: zbx_token_parse_simple_macro_key_def)
    next
      case rest: False
      have "take (k + length key) s = pre @ CHR ''{'' # host @ CHR '':'' # key"
        by (simp add: assms(2) k_def)
      then have "CHR ''.'' \<notin> set (take (k + length key) s)" using assms(6) rest by auto
      then have "back_to_dot s (k + length key) = Inl OutOfBounds"
        using c assms(6) rest by (simp add: back_to_dot_def strrchr_none)
      then show ?thesis using e by (simp add: zbx_token_parse_simple_macro_key_def)
    qed
  qed
  then show ?thesis using token_find_here [OF assms(1-4), of search] by (simp add: l_def k_def)
qed

theorem token_find_outside_witness:
  "zbx_token_find ''{h:abc'' 0 ZBX_TOKEN_SEARCH_BASIC = Inl OutOfBounds \<and>
    zbx_token_find ''{h:avg(5)}'' 0 ZBX_TOKEN_SEARCH_BASIC = Inl OutOfBounds"
proof
  have c: "is_hostname_char CHR ''h'' = SUCCEED" "\<forall>c\<in>set ''abc''. is_key_char c = SUCCEED" "\<forall>c\<in>set ''avg''. is_key_char c = SUCCEED"
    by (simp_all add: is_hostname_char_def is_key_char_def isalnum_def isalpha_def islower_def)
  show "zbx_token_find ''{h:abc'' 0 ZBX_TOKEN_SEARCH_BASIC = Inl OutOfBounds"
    by (rule token_find_outside [where pre = "[]" and host = "''h''" and key = "''abc''" and rest = "[]", simplified list.size])
      (use c in \<open>simp_all add: cstring_def\<close>)
  show "zbx_token_find ''{h:avg(5)}'' 0 ZBX_TOKEN_SEARCH_BASIC = Inl OutOfBounds"
    by (rule token_find_outside [where pre = "[]" and host = "''h''" and key = "''avg''" and rest = "''(5)}''", simplified list.size])
      (use c in \<open>simp_all add: cstring_def\<close>)
qed


text \<open>A simple macro that takes its function from the text in front of it: right behind any \<open>.function(...)}\<close> with quoted parameters and
  no other dot, a brace, a host, a colon and a name with a parenthesis are found as a token that ends one
  character in front of its own start. A search that goes on behind the end of each token, as the comment of \<open>zbx_token_find\<close> shows it,
  finds this token again and never comes past it.\<close>

theorem token_find_repeats:
  assumes "cstring s" "s = pre @ CHR ''.'' # func @ CHR ''}'' # CHR ''{'' # host @ CHR '':'' # key @ CHR ''('' # rest"
    and "host \<noteq> []" "\<forall>c\<in>set host. is_hostname_char c = SUCCEED" "key \<noteq> []" "\<forall>c\<in>set key. is_key_char c = SUCCEED"
    and "CHR ''.'' \<notin> set (func @ host @ key)"
    and "func = fname @ CHR ''('' # join_params fqs @ '')''" "fname \<noteq> []" "\<forall>c\<in>set fname. is_function_char c = SUCCEED"
    and "list_all2 (\<lambda>p q. \<exists>junk forced. zbx_function_param_quote junk p forced = Some q) fps fqs" "fps \<noteq> []" "\<forall>p\<in>set fps. cstring p"
  shows "\<exists>t. zbx_token_find s (length pre + length func + 2) search = Inr (Some t) \<and>
    loc_l (token_loc t) = length pre + length func + 2 \<and> loc_r (token_loc t) + 1 = loc_l (token_loc t) \<and>
    zbx_token_find s (loc_r (token_loc t) + 1) search = Inr (Some t)"
proof -
  define pre' l k where "pre' = pre @ CHR ''.'' # func @ ''}''" and "l = length pre + length func + 2" and "k = length pre' + length host + 2"
  have l: "l = length pre'" by (simp add: l_def pre'_def)
  have s: "s = pre' @ CHR ''{'' # host @ CHR '':'' # key @ CHR ''('' # rest" by (simp add: assms(2) pre'_def)
  have dk: "drop k s = key @ CHR ''('' # rest" and len: "length s = k + length key + 1 + length rest" by (simp_all add: s k_def)
  have fw: "list_all2 written_as fps fqs"
    by (rule list_all2_mono [OF assms(11)]) (use function_param_quote_written in blast)
  have e: "simple_macro_key_end s k = Inr (Some (k + length key))"
    unfolding simple_macro_key_end_def dk using parse_key_plain [OF assms(6,5), of "CHR ''('' # rest"] len by simp
  have "cchar s (k + length key) = cchar (key @ CHR ''('' # rest) (length key)" using cchar_dropped [of k s "length key"] by (simp only: dk)
  then have c: "cchar s (k + length key) = CHR ''(''" by (simp add: cchar_def nth_append)
  define front where "front = pre @ CHR ''.'' # (func @ CHR ''}'' # CHR ''{'' # host @ CHR '':'' # key)"
  have "s = front @ CHR ''('' # rest" "k + length key = length front" by (simp_all add: assms(2) front_def k_def pre'_def)
  then have tk: "take (k + length key) s = front" by simp
  have nd: "CHR ''.'' \<notin> set (func @ CHR ''}'' # CHR ''{'' # host @ CHR '':'' # key)" using assms(7) by simp
  have "strrchr (take (k + length key) s) CHR ''.'' = Some (length pre)" unfolding tk front_def by (rule strrchr_last [OF nd])
  then have b: "back_to_dot s (k + length key) = Inr (length pre)" using c by (simp add: back_to_dot_def)
  define r where "r = length fname + 1 + length (join_params fqs)"
  have df: "drop (length pre + 1) s = func @ CHR ''}'' # CHR ''{'' # host @ CHR '':'' # key @ CHR ''('' # rest" by (simp add: assms(2))
  have lf: "length func = r + 1" by (simp add: assms(8) r_def)
  have f: "zbx_token_parse_function s (length pre + 1) = Some (Strloc (length pre + 1) (length pre + 1 + r), Strloc (length pre + 1 + length fname) (length pre + 1 + r))"
    unfolding zbx_token_parse_function_def df using function_validate_written [OF fw assms(12,13,9,10)] by (simp add: assms(8) r_def)
  define q where "q = length pre + 1 + r + 1"
  have dq: "drop q s = CHR ''}'' # CHR ''{'' # host @ CHR '':'' # key @ CHR ''('' # rest" using lf by (simp add: assms(2) q_def)
  then have "cchar s q = CHR ''}''" using cchar_dropped [of q s 0] by simp
  moreover have "takeWhile (\<lambda>c. c = CHR '' '') (drop q s) = []" unfolding dq by simp
  moreover have "q = l - 1" using lf by (simp add: q_def l_def)
  ultimately have sk: "skip_to_brace s (length pre + 1 + r + 1) = Some (l - 1)" unfolding q_def [symmetric] by (simp add: skip_to_brace_def)
  have "k \<noteq> length pre" "length pre < length s" by (simp_all add: k_def pre'_def assms(2))
  then obtain t where t: "zbx_token_parse_simple_macro_key s l k = Inr (Some t)" "token_loc t = Strloc l (l - 1)"
    unfolding zbx_token_parse_simple_macro_key_def using e b f sk by simp
  then have "zbx_token_find s l search = Inr (Some t)"
    using token_find_here [OF assms(1) s assms(3,4), of search] by (simp add: k_def l)
  moreover have "l - 1 + 1 = l" by (simp add: l_def)
  ultimately show ?thesis unfolding l_def [symmetric] using t(2) by (intro exI [of _ t]) simp
qed

theorem token_find_repeats_witness:
  "\<exists>t. zbx_token_find ''x.f(1)}{h:avg(5)}'' 7 ZBX_TOKEN_SEARCH_BASIC = Inr (Some t) \<and>
    zbx_token_find ''x.f(1)}{h:avg(5)}'' (loc_r (token_loc t) + 1) ZBX_TOKEN_SEARCH_BASIC = Inr (Some t)"
proof -
  have q: "zbx_function_param_quote NUL ''1'' False = Some ''1''" by code_simp
  have f: "list_all2 (\<lambda>p q. \<exists>junk forced. zbx_function_param_quote junk p forced = Some q) [''1''] [''1'']" using q by auto
  have c: "is_hostname_char CHR ''h'' = SUCCEED" "\<forall>c\<in>set ''avg''. is_key_char c = SUCCEED" "\<forall>c\<in>set ''f''. is_function_char c = SUCCEED"
    by (simp_all add: is_hostname_char_def is_key_char_def is_function_char_def isalnum_def isalpha_def islower_def)
  have "\<exists>t. zbx_token_find ''x.f(1)}{h:avg(5)}'' (length ''x'' + length ''f(1)'' + 2) ZBX_TOKEN_SEARCH_BASIC = Inr (Some t) \<and>
    loc_l (token_loc t) = length ''x'' + length ''f(1)'' + 2 \<and> loc_r (token_loc t) + 1 = loc_l (token_loc t) \<and>
    zbx_token_find ''x.f(1)}{h:avg(5)}'' (loc_r (token_loc t) + 1) ZBX_TOKEN_SEARCH_BASIC = Inr (Some t)"
    by (rule token_find_repeats [where host = "''h''" and key = "''avg''" and rest = "''5)}''" and fname = "''f''" and fps = "[''1'']" and fqs = "[''1'']"])
      (use c f in \<open>simp_all add: cstring_def\<close>)
  then show ?thesis by (auto simp: eval_nat_numeral)
qed

end
